(* ===== verification/Prelude.thy ===== *)
theory Prelude
  imports Main "HOL-Library.Word"
begin

text \<open>
  Shared vocabulary of the development: the widths of the C integer types, the bit operations the
  kernel writes out by hand (\<open>w & (1 << b)\<close>, \<open>w |= 1 << b\<close>, \<open>w &= ~(1 << b)\<close>,
  \<open>__builtin_ctz\<close>), the alignment macros of memory.h, the first-free-slot search that the
  file-descriptor table, the process table and the sandbox table share, and the generic lemmas
  about them.  Facts the component proofs use as rewrite rules are declared \<open>[simp]\<close> or
  collected in \<open>bit_ops\<close> (single bits of words) and \<open>width\<close> (numeric values of words).
\<close>

unbundle bit_operations_syntax

type_synonym u8 = "8 word"
type_synonym u16 = "16 word"
type_synonym u32 = "32 word"
type_synonym u64 = "64 word"
type_synonym addr = "64 word"

named_theorems bit_ops \<open>single-bit facts about the C idioms for bit maps\<close>
named_theorems width \<open>the natural-number value of word expressions that do not wrap\<close>

section \<open>Numeric values\<close>

lemma unat_of_nat_small [width]:
  "n < 2 ^ LENGTH('a) \<Longrightarrow> unat (of_nat n :: 'a::len word) = n"
  by (simp add: unat_of_nat take_bit_nat_eq_self)

lemma unat_add_small [width]:
  "unat a + unat b < 2 ^ LENGTH('a) \<Longrightarrow> unat (a + b :: 'a::len word) = unat a + unat b"
  by (simp add: unat_word_ariths)

lemma unat_mult_small [width]:
  "unat a * unat b < 2 ^ LENGTH('a) \<Longrightarrow> unat (a * b :: 'a::len word) = unat a * unat b"
  by (simp add: unat_word_ariths)

lemma unat_sub_small [width]:
  "unat b \<le> unat a \<Longrightarrow> unat (a - b :: 'a::len word) = unat a - unat b"
  by (simp add: unat_sub word_le_nat_alt)

lemma unat_dec [width]: "0 < unat (x :: 'a::len word) \<Longrightarrow> unat (x - 1) = unat x - 1"
  by (rule unat_minus_one) auto

lemma unat_u64_bound: "unat (x :: u64) < 2 ^ 64"
  using unsigned_less [of x] by simp

lemma single_multiple:
  assumes "a mod m = 0" and "a < 2 * m" and "0 < (a :: nat)"
  shows "a = m"
proof -
  from assms(1) obtain q where "a = m * q" by (auto elim: dvdE simp: mod_eq_0_iff_dvd)
  with assms(2,3) have "q < 2" "0 < q" by (auto simp: mult.commute)
  with \<open>a = m * q\<close> show ?thesis by (cases q) auto
qed

lemma unat_uminus [width]:
  assumes "v \<noteq> 0"
  shows "unat (- v :: 'a::len word) = 2 ^ LENGTH('a) - unat v"
proof -
  have "(unat (- v) + unat v) mod 2 ^ LENGTH('a) = unat (- v + v)"
    by (simp only: unat_word_ariths)
  then have "(unat (- v) + unat v) mod 2 ^ LENGTH('a) = 0" by simp
  moreover have "unat (- v) + unat v < 2 * 2 ^ LENGTH('a)" "0 < unat v"
    using add_strict_mono [OF unsigned_less [of v, where ?'a = nat] unsigned_less [of "- v"]] assms
    by (simp_all add: unat_gt_0)
  ultimately have "unat (- v) + unat v = 2 ^ LENGTH('a)"
    using single_multiple by simp
  then show ?thesis by simp
qed

lemma int_unat_uminus:
  "v \<noteq> 0 \<Longrightarrow> int (unat (- v :: 'a::len word)) = 2 ^ LENGTH('a) - int (unat v)"
  using unsigned_less [of v, where ?'a = nat]
  by (subst unat_uminus) (simp_all only: of_nat_diff less_imp_le of_nat_power of_nat_numeral not_False_eq_True)

text \<open>The value of a C \<open>int\<close>.\<close>

lemma shift_mod:
  assumes "n < 2 ^ 32"
  shows "(int n + 2 ^ 31) mod 2 ^ 32 - 2 ^ 31 = (if n < 2 ^ 31 then int n else int n - 2 ^ 32)"
proof (cases "n < 2 ^ 31")
  case True
  then show ?thesis by simp
next
  case False
  have "(int n + 2 ^ 31) mod 2 ^ 32 = (int n + 2 ^ 31 - 2 ^ 32) mod 2 ^ 32"
    by (metis mod_mult_self1 diff_add_cancel mult_1)
  also have "\<dots> = int n + 2 ^ 31 - 2 ^ 32"
    using assms False by (intro mod_pos_pos_trivial) simp_all
  finally show ?thesis using False by simp
qed

lemma sint_u32: "sint (v :: u32) = (if unat v < 2 ^ 31 then int (unat v) else int (unat v) - 2 ^ 32)"
proof -
  have v: "uint v = int (unat v)" "unat v < 2 ^ 32" using unsigned_less [of v] by simp_all
  have "sint v = (int (unat v) + 2 ^ 31) mod 2 ^ 32 - 2 ^ 31"
    using v by (simp add: sint_uint signed_take_bit_eq_take_bit_shift take_bit_eq_mod)
  also have "\<dots> = (if unat v < 2 ^ 31 then int (unat v) else int (unat v) - 2 ^ 32)"
    by (rule shift_mod [OF v(2)])
  finally show ?thesis .
qed

lemma sint_small: "unat (v :: u32) < 2 ^ 31 \<Longrightarrow> sint v = int (unat v)"
  using sint_u32 [of v] by (simp only: if_True)

lemma sint_large: "\<not> unat (v :: u32) < 2 ^ 31 \<Longrightarrow> sint v = int (unat v) - 2 ^ 32"
  using sint_u32 [of v] by (simp only: if_False)

text \<open>The magnitude of a C \<open>int\<close> computed in unsigned arithmetic.\<close>

lemma int_magnitude:
  "int (unat (if sint v < 0 then - v else v :: u32)) = (if sint v < 0 then - sint v else sint v)"
proof (cases "unat v < 2 ^ 31")
  case True
  then have s: "sint v = int (unat v)" by (rule sint_small)
  then have "\<not> sint v < 0" by linarith
  with s show ?thesis by (simp only: if_False)
next
  case False
  then have s: "sint v = int (unat v) - 2 ^ 32" by (rule sint_large)
  moreover from False have "v \<noteq> 0" by auto
  then have "int (unat (- v)) = 2 ^ 32 - int (unat v)" using int_unat_uminus [of v] by simp
  moreover have "uint v < 2 ^ 32" using unsigned_less [of v, where ?'a = int] by simp
  then have "sint v < 0" using s by simp
  ultimately show ?thesis by (simp only: if_True)
qed

section \<open>Single bits of a word\<close>

text \<open>The three C idioms on bit \<open>b\<close> of a bit map word.\<close>

definition test_mask :: "'a::len word \<Rightarrow> nat \<Rightarrow> bool" where
  "test_mask w b \<longleftrightarrow> w AND push_bit b 1 \<noteq> 0"

definition set_mask :: "'a::len word \<Rightarrow> nat \<Rightarrow> 'a word" where
  "set_mask w b = w OR push_bit b 1"

definition clear_mask :: "'a::len word \<Rightarrow> nat \<Rightarrow> 'a word" where
  "clear_mask w b = w AND NOT (push_bit b 1)"

lemma bit_power_two [bit_ops]:
  "bit ((2 :: 'a::len word) ^ b) i \<longleftrightarrow> i = b \<and> b < LENGTH('a)"
  by (auto simp: bit_exp_iff possible_bit_def)

lemma word_nonzero_bit:
  assumes "(w :: 'a::len word) \<noteq> 0"
  shows "\<exists>j < LENGTH('a). bit w j"
proof (rule ccontr)
  assume "\<not> ?thesis"
  then have "w = 0" by (intro bit_word_eqI) auto
  with assms show False ..
qed

lemma test_mask_bit [bit_ops]: "test_mask (w :: 'a::len word) b \<longleftrightarrow> bit w b"
proof
  assume "test_mask w b"
  then obtain i where "bit (w AND push_bit b 1) i"
    unfolding test_mask_def using word_nonzero_bit by blast
  then show "bit w b" by (auto simp: bit_and_iff bit_ops)
next
  assume *: "bit w b"
  then have "b < LENGTH('a)" by (rule bit_imp_le_length)
  with * have "bit (w AND push_bit b 1) b" by (simp add: bit_and_iff bit_ops)
  then show "test_mask w b" unfolding test_mask_def by auto
qed

lemma bit_set_mask [bit_ops]:
  "bit (set_mask (w :: 'a::len word) b) i \<longleftrightarrow> bit w i \<or> (i = b \<and> b < LENGTH('a))"
  by (auto simp: set_mask_def bit_or_iff bit_ops)

lemma bit_clear_mask [bit_ops]:
  "bit (clear_mask (w :: 'a::len word) b) i \<longleftrightarrow> bit w i \<and> i \<noteq> b"
  by (auto simp: clear_mask_def bit_and_iff bit_not_iff bit_ops dest: bit_imp_le_length)

section \<open>Counting trailing zeros\<close>

lemma clear_mask_less:
  assumes "bit (w :: 'a::len word) b"
  shows "clear_mask w b < w"
proof -
  have "\<not> bit (clear_mask w b) b" by (simp add: bit_ops)
  with assms have "clear_mask w b \<noteq> w" by metis
  moreover have "clear_mask w b \<le> w" by (simp add: clear_mask_def word_and_le2)
  ultimately show ?thesis by simp
qed

text \<open>\<open>__builtin_ctz\<close> and \<open>__builtin_ctzll\<close>; every call in the kernel is guarded by a test
  that the word is not zero, where the built-in is defined.\<close>

fun ctz_from :: "'a::len word \<Rightarrow> nat \<Rightarrow> nat \<Rightarrow> nat" where
  "ctz_from w i 0 = i"
| "ctz_from w i (Suc k) = (if bit w i then i else ctz_from w (Suc i) k)"

definition ctz :: "'a::len word \<Rightarrow> nat" where
  "ctz w = ctz_from w 0 LENGTH('a)"

lemma ctz_from_spec:
  assumes "j < i + k" and "i \<le> j" and "bit w j"
  shows "bit w (ctz_from w i k) \<and> ctz_from w i k \<le> j \<and> (\<forall>l. i \<le> l \<and> l < ctz_from w i k \<longrightarrow> \<not> bit w l)"
  using assms
proof (induction w i k rule: ctz_from.induct)
  case (1 w i)
  then show ?case by simp
next
  case (2 w i k)
  show ?case
  proof (cases "bit w i")
    case True
    with 2 show ?thesis by auto
  next
    case False
    with 2 have "i \<noteq> j" by auto
    with 2 False have "bit w (ctz_from w (Suc i) k) \<and> ctz_from w (Suc i) k \<le> j
        \<and> (\<forall>l. Suc i \<le> l \<and> l < ctz_from w (Suc i) k \<longrightarrow> \<not> bit w l)"
      by auto
    with False show ?thesis
      by simp (metis Suc_leI le_neq_implies_less)
  qed
qed

lemma ctz_bit:
  assumes "(w :: 'a::len word) \<noteq> 0"
  shows "bit w (ctz w)"
  using word_nonzero_bit [OF assms] ctz_from_spec [of _ 0 "LENGTH('a)" w]
  by (auto simp: ctz_def)

lemma ctz_least: "bit (w :: 'a::len word) j \<Longrightarrow> ctz w \<le> j"
  using ctz_from_spec [of j 0 "LENGTH('a)" w] bit_imp_le_length [of w j]
  by (auto simp: ctz_def)

lemma ctz_bound: "(w :: 'a::len word) \<noteq> 0 \<Longrightarrow> ctz w < LENGTH('a)"
  by (rule bit_imp_le_length [OF ctz_bit])

lemma ctz_eqI:
  assumes "bit (w :: 'a::len word) i" and "\<And>j. j < i \<Longrightarrow> \<not> bit w j"
  shows "ctz w = i"
proof (rule antisym)
  show "ctz w \<le> i" using assms(1) by (rule ctz_least)
  have "w \<noteq> 0" using assms(1) by auto
  then show "i \<le> ctz w" using assms(2) ctz_bit not_le by blast
qed

section \<open>Bit maps held in an array of words\<close>

text \<open>A bit map of \<open>uint64_t\<close> words: bit \<open>i\<close> is bit \<open>i mod 64\<close> of word \<open>i div 64\<close>.\<close>

definition bm_bit :: "u64 list \<Rightarrow> nat \<Rightarrow> bool" where
  "bm_bit bm i \<longleftrightarrow> i div 64 < length bm \<and> bit (bm ! (i div 64)) (i mod 64)"

definition bm_set :: "u64 list \<Rightarrow> nat \<Rightarrow> u64 list" where
  "bm_set bm i = bm[i div 64 := set_mask (bm ! (i div 64)) (i mod 64)]"

definition bm_clear :: "u64 list \<Rightarrow> nat \<Rightarrow> u64 list" where
  "bm_clear bm i = bm[i div 64 := clear_mask (bm ! (i div 64)) (i mod 64)]"

lemma length_bm_set [simp]: "length (bm_set bm i) = length bm"
  by (simp add: bm_set_def)

lemma length_bm_clear [simp]: "length (bm_clear bm i) = length bm"
  by (simp add: bm_clear_def)

lemma div_mod_64_eq: "i div 64 = j div 64 \<Longrightarrow> i mod 64 = j mod 64 \<Longrightarrow> i = (j :: nat)"
  by (metis div_mult_mod_eq)

lemma bm_bit_set [bit_ops]:
  "bm_bit (bm_set bm i) j \<longleftrightarrow> bm_bit bm j \<or> (j = i \<and> i div 64 < length bm)"
proof (cases "i div 64 = j div 64")
  case True
  then show ?thesis
    by (auto simp: bm_bit_def bm_set_def bit_ops dest: div_mod_64_eq)
next
  case False
  then show ?thesis by (auto simp: bm_bit_def bm_set_def)
qed

lemma bm_bit_clear [bit_ops]:
  "bm_bit (bm_clear bm i) j \<longleftrightarrow> bm_bit bm j \<and> j \<noteq> i"
proof (cases "i div 64 = j div 64")
  case True
  then show ?thesis
    by (auto simp: bm_bit_def bm_clear_def bit_ops dest: div_mod_64_eq)
next
  case False
  then show ?thesis by (auto simp: bm_bit_def bm_clear_def)
qed

lemma bm_bit_index: "k < 64 \<Longrightarrow> bm_bit bm (64 * i + k) \<longleftrightarrow> i < length bm \<and> bit (bm ! i) k"
  by (simp add: bm_bit_def)

text \<open>The scan for the first word that is not zero, and the index of its lowest bit: the search
  of \<open>pmm_alloc\<close> and, on the complemented map, of \<open>alloc_pid\<close>.\<close>

fun first_nonzero :: "u64 list \<Rightarrow> nat \<Rightarrow> nat option" where
  "first_nonzero [] i = None"
| "first_nonzero (w # ws) i = (if w \<noteq> 0 then Some i else first_nonzero ws (Suc i))"

lemma first_nonzero_None: "first_nonzero ws i = None \<longleftrightarrow> (\<forall>w \<in> set ws. w = 0)"
  by (induction ws i rule: first_nonzero.induct) auto

lemma first_nonzero_Some:
  "first_nonzero ws i = Some k \<Longrightarrow>
     i \<le> k \<and> k - i < length ws \<and> ws ! (k - i) \<noteq> 0 \<and> (\<forall>j < k - i. ws ! j = 0)"
proof (induction ws i rule: first_nonzero.induct)
  case (1 i)
  then show ?case by simp
next
  case (2 w ws i)
  show ?case
  proof (cases "w = 0")
    case False
    with 2 show ?thesis by simp
  next
    case True
    with 2 have *: "Suc i \<le> k" "k - Suc i < length ws" "ws ! (k - Suc i) \<noteq> 0"
      "\<forall>j < k - Suc i. ws ! j = 0"
      by auto
    then have "k - i = Suc (k - Suc i)" by simp
    with * True show ?thesis by (auto simp: nth_Cons split: nat.splits)
  qed
qed

lemma first_nonzero_none_bits:
  assumes "first_nonzero bm 0 = None"
  shows "\<not> bm_bit bm j"
  using assms nth_mem by (fastforce simp: first_nonzero_None bm_bit_def)

lemma first_nonzero_least:
  assumes "first_nonzero bm 0 = Some k"
  shows "bm_bit bm (64 * k + ctz (bm ! k))"
    and "\<And>j. bm_bit bm j \<Longrightarrow> 64 * k + ctz (bm ! k) \<le> j"
proof -
  from first_nonzero_Some [OF assms]
  have k: "k < length bm" "bm ! k \<noteq> 0" "\<forall>j < k. bm ! j = 0" by auto
  from ctz_bound [OF k(2)] have b: "ctz (bm ! k) < 64" by simp
  from k b show "bm_bit bm (64 * k + ctz (bm ! k))"
    by (simp add: bm_bit_index ctz_bit)
  fix j assume j: "bm_bit bm j"
  then have "\<not> j div 64 < k" using k(3) by (auto simp: bm_bit_def)
  then consider "j div 64 = k" | "k < j div 64" by linarith
  then show "64 * k + ctz (bm ! k) \<le> j"
  proof cases
    case 1
    with j have "ctz (bm ! k) \<le> j mod 64" by (auto simp: bm_bit_def intro: ctz_least)
    moreover have "j = 64 * (j div 64) + j mod 64" by simp
    ultimately show ?thesis using 1 by linarith
  next
    case 2
    then have "64 * k + 64 \<le> 64 * (j div 64)" by simp
    moreover have "64 * (j div 64) \<le> j" by simp
    ultimately show ?thesis using b by linarith
  qed
qed

section \<open>Alignment\<close>

text \<open>\<open>ALIGN_UP(x, a)\<close> of memory.h, on the 64-bit type it is used at.\<close>

definition ALIGN_UP :: "u64 \<Rightarrow> u64 \<Rightarrow> u64" where
  "ALIGN_UP x a = (x + a - 1) AND NOT (a - 1)"

definition PAGE_SIZE :: u64 where
  "PAGE_SIZE = 4096"

lemma unat_and_not_mask: "unat (x AND NOT (mask n) :: u64) = unat x - unat x mod 2 ^ n"
proof -
  have "take_bit n x AND (x AND NOT (mask n)) = 0"
    by (rule bit_eqI) (auto simp: bit_simps)
  then have "take_bit n x + (x AND NOT (mask n)) = take_bit n x OR (x AND NOT (mask n))"
    by (rule disjunctive_add_eq_or)
  also have "\<dots> = x" by (rule bit_eqI) (auto simp: bit_simps)
  finally have sum: "x AND NOT (mask n) = x - take_bit n x" by (simp add: eq_diff_eq add.commute)
  have "unat (take_bit n x) = unat x mod 2 ^ n"
    unfolding unsigned_take_bit_eq by (rule take_bit_eq_mod)
  then show ?thesis unfolding sum by (subst unat_sub_small) simp_all
qed

lemma unat_ALIGN_UP:
  assumes "unat x + 2 ^ n \<le> 2 ^ 64" and "n < 64"
  shows "unat (ALIGN_UP x (2 ^ n)) = (unat x + (2 ^ n - 1)) div 2 ^ n * 2 ^ n"
proof -
  have "unat (of_nat (2 ^ n) :: u64) = 2 ^ n"
    using power_strict_increasing [OF assms(2), of "2 :: nat"] by (intro unat_of_nat_small) simp
  then have p: "unat (2 ^ n - 1 :: u64) = 2 ^ n - 1" "(1 :: nat) \<le> 2 ^ n"
    by (simp_all add: unat_sub_small)
  have "ALIGN_UP x (2 ^ n) = (x + (2 ^ n - 1)) AND NOT (mask n)"
    by (simp add: ALIGN_UP_def mask_eq_exp_minus_1 add_diff_eq)
  moreover have "unat (x + (2 ^ n - 1)) = unat x + (2 ^ n - 1)"
    using assms p by (subst unat_add_small) simp_all
  ultimately show ?thesis
    by (simp add: unat_and_not_mask minus_mod_eq_div_mult)
qed

section \<open>First free slot of a table\<close>

text \<open>The loop \<open>for (i = lo; i < n; i++) if (free i) return i;\<close> that scans a fixed table.\<close>

fun first_slot :: "(nat \<Rightarrow> bool) \<Rightarrow> nat \<Rightarrow> nat \<Rightarrow> nat option" where
  "first_slot P i 0 = None"
| "first_slot P i (Suc k) = (if P i then Some i else first_slot P (Suc i) k)"

lemma first_slot_Some:
  "first_slot P i k = Some j \<Longrightarrow> P j \<and> i \<le> j \<and> j < i + k \<and> (\<forall>l. i \<le> l \<and> l < j \<longrightarrow> \<not> P l)"
proof (induction P i k rule: first_slot.induct)
  case (1 P i)
  then show ?case by simp
next
  case (2 P i k)
  show ?case
  proof (cases "P i")
    case True
    with 2 show ?thesis by auto
  next
    case False
    with 2 have "P j \<and> Suc i \<le> j \<and> j < Suc i + k \<and> (\<forall>l. Suc i \<le> l \<and> l < j \<longrightarrow> \<not> P l)"
      by auto
    with False show ?thesis
      by simp (metis Suc_leI le_neq_implies_less)
  qed
qed

lemma first_slot_None: "first_slot P i k = None \<longleftrightarrow> (\<forall>j. i \<le> j \<and> j < i + k \<longrightarrow> \<not> P j)"
proof (induction P i k rule: first_slot.induct)
  case (1 P i)
  then show ?case by auto
next
  case (2 P i k)
  show ?case
  proof (cases "P i")
    case True
    then show ?thesis by auto
  next
    case False
    have "(\<forall>j. i \<le> j \<and> j < i + Suc k \<longrightarrow> \<not> P j) \<longleftrightarrow>
        \<not> P i \<and> (\<forall>j. Suc i \<le> j \<and> j < Suc i + k \<longrightarrow> \<not> P j)"
      by (auto simp: Suc_le_eq) (metis le_neq_implies_less)
    with False 2 show ?thesis by simp
  qed
qed

lemma first_slot_eqI:
  assumes "P j" and "i \<le> j" and "j < i + k" and "\<And>l. i \<le> l \<Longrightarrow> l < j \<Longrightarrow> \<not> P l"
  shows "first_slot P i k = Some j"
proof (cases "first_slot P i k")
  case None
  with assms(1,2,3) show ?thesis by (simp add: first_slot_None)
next
  case (Some l)
  from first_slot_Some [OF this] assms show ?thesis
    using Some by (metis linorder_neqE_nat)
qed

section \<open>Lists linked through a field\<close>

text \<open>The list that starts at \<open>a\<close> and follows the link \<open>nx\<close> up to the null pointer 0.\<close>

fun linked :: "(nat \<Rightarrow> nat) \<Rightarrow> nat \<Rightarrow> nat list \<Rightarrow> bool" where
  "linked nx a [] \<longleftrightarrow> a = 0"
| "linked nx a (x # xs) \<longleftrightarrow> a = x \<and> x \<noteq> 0 \<and> linked nx (nx x) xs"

lemma linked_unique: "linked nx a xs \<Longrightarrow> linked nx a ys \<Longrightarrow> xs = ys"
proof (induction xs arbitrary: a ys)
  case Nil
  then show ?case by (cases ys) auto
next
  case (Cons x xs)
  then show ?case by (cases ys) auto
qed

lemma linked_append: "linked nx a (xs @ x # ys) \<Longrightarrow> linked nx x (x # ys)"
  by (induction xs arbitrary: a) auto

lemma linked_distinct: "linked nx a xs \<Longrightarrow> distinct xs"
proof (induction xs arbitrary: a)
  case (Cons x xs)
  have "x \<notin> set xs"
  proof
    assume "x \<in> set xs"
    then obtain us vs where "xs = us @ x # vs" by (meson split_list)
    moreover from this Cons.prems have "linked nx x (x # vs)" using linked_append [of nx a "x # us"] by simp
    moreover from Cons.prems have "linked nx x (x # xs)" by simp
    ultimately show False using linked_unique by fastforce
  qed
  with Cons show ?case by auto
qed simp

lemma linked_nonzero: "linked nx a xs \<Longrightarrow> 0 \<notin> set xs"
  by (induction xs arbitrary: a) auto

lemma linked_cong:
  "(\<And>x. x \<in> set xs \<Longrightarrow> nx' x = nx x) \<Longrightarrow> linked nx' a xs \<longleftrightarrow> linked nx a xs"
  by (induction xs arbitrary: a) auto

lemma linked_snoc:
  assumes "linked nx a xs" and "p \<noteq> 0" and "p \<notin> set xs" and "nx' p = 0"
    and "xs \<noteq> [] \<Longrightarrow> nx' (last xs) = p"
    and "\<And>x. x \<in> set (butlast xs) \<Longrightarrow> nx' x = nx x"
  shows "linked nx' (if xs = [] then p else a) (xs @ [p])"
  using assms
proof (induction xs arbitrary: a)
  case (Cons x xs)
  show ?case
  proof (cases xs)
    case Nil
    with Cons.prems show ?thesis by auto
  next
    case (Cons y ys)
    have "linked nx' (if xs = [] then p else nx x) (xs @ [p])"
      using Cons.prems Cons by (intro Cons.IH) auto
    with Cons.prems Cons show ?thesis by auto
  qed
qed simp

section \<open>Lists updated at a position\<close>

lemma map_nth_take: "map ((!) xs) [0..<min k (length xs)] = take k xs"
  by (rule nth_equalityI) simp_all

lemma length_filter_update:
  "i < length xs \<Longrightarrow> length (filter P (xs[i := y])) + (if P (xs ! i) then 1 else 0) = length (filter P xs) + (if P y then 1 else 0)"
proof (induction xs arbitrary: i)
  case (Cons x xs)
  then show ?case using Cons.IH [of "i - 1"] by (cases i) auto
qed simp

section \<open>Logs of bounded capacity\<close>

text \<open>What the readers of a log rely on: a new entry comes first, and the oldest is dropped when the
  log is full.\<close>

locale bounded_log =
  fixes push :: "'e \<Rightarrow> 's \<Rightarrow> 's"
    and view :: "'s \<Rightarrow> 'e list"
    and inv :: "'s \<Rightarrow> bool"
    and cap :: nat
  assumes push_inv: "inv s \<Longrightarrow> inv (push e s)"
    and push_view: "inv s \<Longrightarrow> view (push e s) = take cap (e # view s)"

context bounded_log begin

lemma view_bound: "inv s \<Longrightarrow> length (view (push e s)) \<le> cap"
  by (simp add: push_view)

lemma fold_inv: "inv s \<Longrightarrow> inv (fold push es s)"
  by (induction es arbitrary: s) (simp_all add: push_inv)

lemma fold_view:
  assumes "inv s" and "length (view s) \<le> cap"
  shows "view (fold push es s) = take cap (rev es @ view s)"
  using assms
proof (induction es arbitrary: s)
  case (Cons e es)
  have "view (fold push es (push e s)) = take cap (rev es @ take cap (e # view s))"
    using Cons.IH [of "push e s"] Cons.prems push_inv push_view view_bound by simp
  also have "\<dots> = take cap (rev es @ e # view s)" by simp
  finally show ?case by simp
qed simp

end

text \<open>Slot \<open>i\<close> of a ring buffer counted backwards from the write position \<open>h\<close>.\<close>

definition ring_index :: "nat \<Rightarrow> nat \<Rightarrow> nat \<Rightarrow> nat" where
  "ring_index n h i = (h + (n - 1) - i) mod n"

lemma ring_index_less: "0 < n \<Longrightarrow> ring_index n h i < n"
  by (simp add: ring_index_def)

lemma ring_index_zero: "0 < n \<Longrightarrow> h < n \<Longrightarrow> ring_index n (Suc h mod n) 0 = h"
proof (cases "Suc h = n")
  case True
  then show ?thesis by (simp add: ring_index_def)
next
  case False
  assume "0 < n" "h < n"
  with False have "Suc h < n" "Suc h + (n - 1) = h + n" by auto
  then show ?thesis by (simp add: ring_index_def)
qed

lemma ring_index_Suc:
  assumes "h < n" and "Suc i < n"
  shows "ring_index n (Suc h mod n) (Suc i) = ring_index n h i" and "ring_index n h i \<noteq> h"
proof -
  show "ring_index n (Suc h mod n) (Suc i) = ring_index n h i"
  proof (cases "Suc h = n")
    case True
    then have "h + (n - 1) - i = (n - 1 - Suc i) + n" using assms(2) by auto
    then have "ring_index n h i = (n - 1 - Suc i) mod n" unfolding ring_index_def by (metis mod_add_self2)
    moreover have "ring_index n 0 (Suc i) = (n - 1 - Suc i) mod n" by (simp add: ring_index_def)
    ultimately show ?thesis using True by simp
  next
    case False
    with assms have "Suc h < n" by simp
    moreover have "Suc h + (n - 1) - Suc i = h + (n - 1) - i" using assms by simp
    ultimately show ?thesis by (simp add: ring_index_def)
  qed
  show "ring_index n h i \<noteq> h"
  proof (cases "Suc i \<le> h")
    case True
    then have "h + (n - 1) - i = (h - Suc i) + n" using assms by simp
    moreover have "h - Suc i < n" using assms by simp
    ultimately have "ring_index n h i = h - Suc i"
      unfolding ring_index_def by (metis mod_add_self2 mod_less)
    then show ?thesis using True by simp
  next
    case False
    then have "h + (n - 1) - i < n" "h < h + (n - 1) - i" using assms by auto
    then show ?thesis by (simp add: ring_index_def)
  qed
qed

end
