(* ===== verification/Pmm.thy ===== *)
theory Pmm
  imports Prelude
begin

text \<open>
  The physical page allocator of mm.c: one bit per page, set while the page is free, in an array
  of 64-bit words; \<open>free_pages\<close> counts them.  The state record holds the file's static
  variables.  Operations are total functions on it; \<open>pmm_alloc_n\<close> returns an option because its
  search reads the bit map at indices computed with a wrapping subtraction, and \<open>None\<close> is a read
  beyond the end of the array.  The lock around each operation makes it one step here.
  The abstraction is the set of free page indices (\<open>free_idx\<close>) or of their addresses
  (\<open>avail\<close>); the interface other components use is the locale \<open>page_source\<close>, interpreted
  at the end on these operations.
\<close>

section \<open>State and operations\<close>

record pmm =
  page_bitmap :: "u64 list"
  total_pages :: u64
  free_pages :: u64
  phys_base :: u64

definition pmm_mark_used :: "pmm \<Rightarrow> u64 \<Rightarrow> pmm" where
  "pmm_mark_used s paddr =
     (if paddr < phys_base s then s
      else let page_idx = (paddr - phys_base s) div PAGE_SIZE in
        if total_pages s \<le> page_idx then s
        else if test_mask (page_bitmap s ! (unat page_idx div 64)) (unat page_idx mod 64)
        then s\<lparr>page_bitmap := bm_clear (page_bitmap s) (unat page_idx),
               free_pages := free_pages s - 1\<rparr>
        else s)"

text \<open>The loop that marks \<open>n\<close> consecutive pages from \<open>a\<close>.\<close>

fun mark_range :: "pmm \<Rightarrow> u64 \<Rightarrow> nat \<Rightarrow> pmm" where
  "mark_range s a 0 = s"
| "mark_range s a (Suc n) = mark_range (pmm_mark_used s a) (a + PAGE_SIZE) n"

text \<open>\<open>pmm_init\<close>; \<open>kernel_size\<close> is the address of the linker symbol \<open>__kernel_size\<close>, and
  \<open>0x40080000\<close> the kernel's load address written in the code.\<close>

definition pmm_init :: "u64 \<Rightarrow> u64 \<Rightarrow> u64 \<Rightarrow> pmm" where
  "pmm_init base sz kernel_size =
     (let pbase = ALIGN_UP base PAGE_SIZE;
          total = sz div PAGE_SIZE;
          bitmap_size = (total + 63) div 64 * 8;
          bitmap_pages = ALIGN_UP bitmap_size PAGE_SIZE div PAGE_SIZE;
          s0 = \<lparr>page_bitmap = replicate (unat (bitmap_size div 8)) (- 1),
                total_pages = total, free_pages = total, phys_base = pbase\<rparr>;
          s1 = mark_range s0 pbase (unat bitmap_pages);
          kernel_base = 0x40080000;
          kernel_pages = ALIGN_UP kernel_size PAGE_SIZE div PAGE_SIZE
      in if kernel_base \<ge> pbase \<and> kernel_base < pbase + total * PAGE_SIZE
         then mark_range s1 kernel_base (unat kernel_pages)
         else s1)"

text \<open>\<open>pmm_alloc\<close>: the page's physical address, 0 on failure.\<close>

definition pmm_alloc :: "pmm \<Rightarrow> pmm \<times> u64" where
  "pmm_alloc s =
     (if free_pages s = 0 then (s, 0)
      else case first_nonzero (take (unat ((total_pages s + 63) div 64)) (page_bitmap s)) 0 of
        None \<Rightarrow> (s, 0)
      | Some i \<Rightarrow>
          let b = ctz (page_bitmap s ! i);
              page_idx = of_nat i * 64 + of_nat b
          in if total_pages s \<le> page_idx then (s, 0)
             else (s\<lparr>page_bitmap := (page_bitmap s)[i := clear_mask (page_bitmap s ! i) b],
                     free_pages := free_pages s - 1\<rparr>,
                   phys_base s + page_idx * PAGE_SIZE))"

text \<open>The inner loop of \<open>pmm_alloc_n\<close>: are the \<open>k\<close> pages from \<open>idx\<close> free?  \<open>None\<close> when it
  reads beyond the array.\<close>

fun run_free :: "u64 list \<Rightarrow> nat \<Rightarrow> nat \<Rightarrow> bool option" where
  "run_free bm idx 0 = Some True"
| "run_free bm idx (Suc k) =
     (if idx div 64 < length bm
      then if test_mask (bm ! (idx div 64)) (idx mod 64) then run_free bm (Suc idx) k else Some False
      else None)"

text \<open>The outer loop: \<open>start\<close> runs up to \<open>limit = total_pages - n\<close>.\<close>

function find_run :: "u64 list \<Rightarrow> nat \<Rightarrow> nat \<Rightarrow> nat \<Rightarrow> nat option option" where
  "find_run bm n start limit =
     (if start \<le> limit then
        (case run_free bm start n of
           None \<Rightarrow> None
         | Some True \<Rightarrow> Some (Some start)
         | Some False \<Rightarrow> find_run bm n (Suc start) limit)
      else Some None)"
  by pat_completeness auto
termination
  by (relation "measure (\<lambda>(bm, n, start, limit). Suc limit - start)") auto

declare find_run.simps [simp del]

fun clear_run :: "u64 list \<Rightarrow> nat \<Rightarrow> nat \<Rightarrow> u64 list" where
  "clear_run bm idx 0 = bm"
| "clear_run bm idx (Suc k) = clear_run (bm_clear bm idx) (Suc idx) k"

definition pmm_alloc_n :: "pmm \<Rightarrow> u64 \<Rightarrow> (pmm \<times> u64) option" where
  "pmm_alloc_n s n =
     (if n = 0 then Some (s, 0)
      else if n = 1 then Some (pmm_alloc s)
      else case find_run (page_bitmap s) (unat n) 0 (unat (total_pages s - n)) of
        None \<Rightarrow> None
      | Some None \<Rightarrow> Some (s, 0)
      | Some (Some start) \<Rightarrow>
          Some (s\<lparr>page_bitmap := clear_run (page_bitmap s) start (unat n),
                  free_pages := free_pages s - n\<rparr>,
                phys_base s + of_nat start * PAGE_SIZE))"

definition pmm_free :: "pmm \<Rightarrow> u64 \<Rightarrow> pmm" where
  "pmm_free s paddr =
     (if paddr < phys_base s then s
      else let page_idx = (paddr - phys_base s) div PAGE_SIZE in
        if total_pages s \<le> page_idx then s
        else s\<lparr>page_bitmap := bm_set (page_bitmap s) (unat page_idx),
               free_pages := free_pages s + 1\<rparr>)"

definition pmm_get_free_pages :: "pmm \<Rightarrow> u64" where
  "pmm_get_free_pages s = free_pages s"


section \<open>Abstraction and invariant\<close>

text \<open>The free pages, by index and by address.\<close>

definition free_idx :: "pmm \<Rightarrow> nat set" where
  "free_idx s = {i. i < unat (total_pages s) \<and> bm_bit (page_bitmap s) i}"

definition page_addr :: "pmm \<Rightarrow> nat \<Rightarrow> u64" where
  "page_addr s i = phys_base s + of_nat i * PAGE_SIZE"

definition avail :: "pmm \<Rightarrow> u64 set" where
  "avail s = page_addr s ` free_idx s"

text \<open>The managed region is page aligned, does not start at address 0 (which \<open>pmm_alloc\<close> returns
  for failure) and does not wrap around the address space; the array is as long as its use
  assumes; \<open>free_pages\<close> counts the set bits.\<close>

definition region_ok :: "pmm \<Rightarrow> bool" where
  "region_ok s \<longleftrightarrow> phys_base s \<noteq> 0 \<and> unat (phys_base s) mod 4096 = 0
     \<and> unat (phys_base s) + unat (total_pages s) * 4096 \<le> 2 ^ 64
     \<and> length (page_bitmap s) = (unat (total_pages s) + 63) div 64"

definition pmm_inv :: "pmm \<Rightarrow> bool" where
  "pmm_inv s \<longleftrightarrow> region_ok s \<and> unat (free_pages s) = card (free_idx s)"

lemma finite_free_idx [simp]: "finite (free_idx s)"
  by (rule finite_subset [of _ "{..<unat (total_pages s)}"]) (auto simp: free_idx_def)

lemma region_total_bound: "region_ok s \<Longrightarrow> unat (total_pages s) \<le> 2 ^ 52"
  by (simp add: region_ok_def)

lemma unat_PAGE_SIZE [simp]: "unat PAGE_SIZE = 4096"
  by (simp add: PAGE_SIZE_def)

lemma unat_page_offset:
  assumes "region_ok s" and "i < unat (total_pages s)"
  shows "unat (of_nat i * PAGE_SIZE :: u64) = i * 4096"
proof -
  from assms have "i * 4096 < 2 ^ 64" by (simp add: region_ok_def)
  then show ?thesis
    by (simp add: PAGE_SIZE_def unat_word_ariths unat_of_nat take_bit_eq_mod mod_mult_left_eq)
qed

lemma unat_page_addr:
  assumes "region_ok s" and "i < unat (total_pages s)"
  shows "unat (page_addr s i) = unat (phys_base s) + i * 4096"
proof -
  from assms have "unat (phys_base s) + i * 4096 < 2 ^ 64" by (simp add: region_ok_def)
  with unat_page_offset [OF assms] show ?thesis
    by (simp add: page_addr_def unat_word_ariths)
qed

lemma page_addr_inj:
  assumes "region_ok s" and "i < unat (total_pages s)" and "j < unat (total_pages s)"
    and "page_addr s i = page_addr s j"
  shows "i = j"
proof -
  from assms have "unat (phys_base s) + i * 4096 = unat (phys_base s) + j * 4096"
    by (metis unat_page_addr)
  then show ?thesis by simp
qed

lemma page_addr_index:
  assumes "region_ok s" and "i < unat (total_pages s)"
  shows "\<not> page_addr s i < phys_base s"
    and "unat ((page_addr s i - phys_base s) div PAGE_SIZE) = i"
proof -
  from unat_page_addr [OF assms] show "\<not> page_addr s i < phys_base s"
    by (simp add: word_less_nat_alt)
  have "page_addr s i - phys_base s = of_nat i * PAGE_SIZE" by (simp add: page_addr_def)
  with unat_page_offset [OF assms]
  show "unat ((page_addr s i - phys_base s) div PAGE_SIZE) = i"
    by (simp add: unat_div)
qed

lemma page_addr_nonzero: "region_ok s \<Longrightarrow> i < unat (total_pages s) \<Longrightarrow> page_addr s i \<noteq> 0"
  using unat_page_addr [of s i] by (auto simp: region_ok_def unat_eq_zero)

lemma page_addr_aligned:
  assumes "region_ok s" and "i < unat (total_pages s)"
  shows "unat (page_addr s i) mod 4096 = 0"
  using assms unat_page_addr [OF assms] by (simp add: region_ok_def)

lemma bitmap_covers:
  assumes "region_ok s" and "i < unat (total_pages s)"
  shows "i div 64 < length (page_bitmap s)"
proof -
  from assms(2) have "(i + 64) div 64 \<le> (unat (total_pages s) + 63) div 64"
    by (intro div_le_mono) simp
  then show ?thesis using assms(1) by (simp add: region_ok_def)
qed

lemma bitmap_words:
  assumes "region_ok s"
  shows "unat ((total_pages s + 63) div 64) = length (page_bitmap s)"
proof -
  have "unat (total_pages s + 63) = unat (total_pages s) + 63"
    using region_total_bound [OF assms] by (simp add: unat_word_ariths)
  with assms show ?thesis by (simp add: unat_div region_ok_def)
qed


section \<open>Single pages\<close>

lemma free_idxD: "i \<in> free_idx s \<Longrightarrow> i < unat (total_pages s) \<and> bm_bit (page_bitmap s) i"
  by (simp add: free_idx_def)

lemma free_count_zero: "pmm_inv s \<Longrightarrow> free_pages s = 0 \<longleftrightarrow> free_idx s = {}"
  by (metis card_0_eq finite_free_idx pmm_inv_def unat_0 unat_eq_zero)

lemma alloc_candidate:
  assumes "pmm_inv s" and "free_idx s \<noteq> {}"
  obtains k where "first_nonzero (page_bitmap s) 0 = Some k"
    and "64 * k + ctz (page_bitmap s ! k) = Min (free_idx s)"
proof -
  let ?m = "Min (free_idx s)"
  from assms(2) have m: "?m \<in> free_idx s" by simp
  then have "first_nonzero (page_bitmap s) 0 \<noteq> None"
    using first_nonzero_none_bits free_idxD by blast
  then obtain k where k: "first_nonzero (page_bitmap s) 0 = Some k" by blast
  let ?j = "64 * k + ctz (page_bitmap s ! k)"
  from first_nonzero_least(2) [OF k] free_idxD [OF m] have "?j \<le> ?m" by blast
  moreover from this have "?j \<in> free_idx s"
    using first_nonzero_least(1) [OF k] free_idxD [OF m] by (simp add: free_idx_def)
  then have "?m \<le> ?j" by simp
  ultimately show ?thesis using that k by simp
qed

text \<open>Marking one free page as used, as the three allocation paths do.\<close>

definition take_page :: "pmm \<Rightarrow> nat \<Rightarrow> pmm" where
  "take_page s i = s\<lparr>page_bitmap := bm_clear (page_bitmap s) i, free_pages := free_pages s - 1\<rparr>"

lemma free_idx_take_page [simp]: "free_idx (take_page s i) = free_idx s - {i}"
  by (auto simp: free_idx_def take_page_def bit_ops)

lemma take_page_frame [simp]:
  "total_pages (take_page s i) = total_pages s" "phys_base (take_page s i) = phys_base s"
  "page_addr (take_page s i) = page_addr s"
  by (simp_all add: take_page_def page_addr_def fun_eq_iff)

lemma region_ok_take_page [simp]: "region_ok (take_page s i) \<longleftrightarrow> region_ok s"
  by (simp add: region_ok_def take_page_def)

lemma card_pos_unat_minus_one:
  "unat (x :: u64) = n \<Longrightarrow> 0 < n \<Longrightarrow> unat (x - 1) = n - 1"
  by (simp add: unat_dec)

lemma pmm_inv_take_page:
  assumes "pmm_inv s" and "i \<in> free_idx s"
  shows "pmm_inv (take_page s i)"
proof -
  from assms(2) have "0 < card (free_idx s)" by (auto simp: card_gt_0_iff)
  with assms(1) have "unat (free_pages s - 1) = card (free_idx s) - 1"
    by (intro card_pos_unat_minus_one) (simp_all add: pmm_inv_def)
  moreover have "free_pages (take_page s i) = free_pages s - 1" by (simp add: take_page_def)
  ultimately show ?thesis
    using assms by (simp add: pmm_inv_def)
qed

lemma pmm_alloc_empty: "pmm_inv s \<Longrightarrow> free_idx s = {} \<Longrightarrow> pmm_alloc s = (s, 0)"
  by (simp add: pmm_alloc_def free_count_zero)

lemma pmm_alloc_Min:
  assumes "pmm_inv s" and "free_idx s \<noteq> {}"
  shows "pmm_alloc s = (take_page s (Min (free_idx s)), page_addr s (Min (free_idx s)))"
proof -
  let ?m = "Min (free_idx s)"
  from assms obtain k where k: "first_nonzero (page_bitmap s) 0 = Some k"
    and m: "64 * k + ctz (page_bitmap s ! k) = ?m"
    by (rule alloc_candidate)
  let ?b = "ctz (page_bitmap s ! k)"
  from assms(1) have reg: "region_ok s" by (simp add: pmm_inv_def)
  from assms(2) have "?m \<in> free_idx s" by simp
  then have mlt: "?m < unat (total_pages s)" by (simp add: free_idx_def)
  from first_nonzero_Some [OF k] ctz_bound [of "page_bitmap s ! k"] have b: "?b < 64" by simp
  have idx: "(of_nat k * 64 + of_nat ?b :: u64) = of_nat ?m"
    by (simp flip: m)
  have "unat (of_nat ?m :: u64) = ?m"
    using mlt region_total_bound [OF reg] by (intro unat_of_nat_small) simp
  then have "\<not> total_pages s \<le> of_nat ?m" using mlt by (simp add: word_le_nat_alt)
  moreover have "(page_bitmap s)[k := clear_mask (page_bitmap s ! k) ?b] = bm_clear (page_bitmap s) ?m"
    using b m by (simp add: bm_clear_def flip: m)
  ultimately show ?thesis
    using assms k by (simp add: pmm_alloc_def free_count_zero bitmap_words [OF reg] Let_def idx
        take_page_def page_addr_def)
qed

lemma pmm_alloc_frame [simp]:
  "total_pages (fst (pmm_alloc s)) = total_pages s" "phys_base (fst (pmm_alloc s)) = phys_base s"
  by (auto simp: pmm_alloc_def Let_def split: option.splits)

text \<open>Freeing: the index computed back from the address.\<close>

lemma pmm_free_page:
  assumes "region_ok s" and "i < unat (total_pages s)"
  shows "pmm_free s (page_addr s i) =
     s\<lparr>page_bitmap := bm_set (page_bitmap s) i, free_pages := free_pages s + 1\<rparr>"
  using page_addr_index [OF assms] assms(2)
  by (simp add: pmm_free_def Let_def word_le_nat_alt)

lemma pmm_free_frame [simp]:
  "total_pages (pmm_free s a) = total_pages s" "phys_base (pmm_free s a) = phys_base s"
  "page_addr (pmm_free s a) = page_addr s"
  by (simp_all add: pmm_free_def page_addr_def Let_def fun_eq_iff)

lemma free_idx_pmm_free:
  assumes "region_ok s" and "i < unat (total_pages s)"
  shows "free_idx (pmm_free s (page_addr s i)) = insert i (free_idx s)"
  using assms bitmap_covers [OF assms]
  by (auto simp: pmm_free_page free_idx_def bit_ops)

lemma pmm_inv_free:
  assumes "pmm_inv s" and "i < unat (total_pages s)" and "i \<notin> free_idx s"
  shows "pmm_inv (pmm_free s (page_addr s i))"
proof -
  from assms(1) have reg: "region_ok s" by (simp add: pmm_inv_def)
  have "insert i (free_idx s) \<subseteq> {..<unat (total_pages s)}"
    using assms(2) by (auto simp: free_idx_def)
  then have "card (insert i (free_idx s)) \<le> unat (total_pages s)"
    by (metis card_lessThan card_mono finite_lessThan)
  with assms(3) have "Suc (card (free_idx s)) \<le> 2 ^ 52"
    using region_total_bound [OF reg] by simp
  with assms(1) have "unat (free_pages s + 1) = Suc (card (free_idx s))"
    by (simp add: pmm_inv_def unat_word_ariths)
  with assms show ?thesis
    using free_idx_pmm_free [OF reg assms(2)]
    by (simp add: pmm_inv_def pmm_free_page region_ok_def)
qed

lemma pmm_mark_used_page:
  assumes "region_ok s" and "i < unat (total_pages s)"
  shows "pmm_mark_used s (page_addr s i) = (if i \<in> free_idx s then take_page s i else s)"
  using page_addr_index [OF assms] assms(2) bitmap_covers [OF assms]
  by (simp add: pmm_mark_used_def Let_def word_le_nat_alt take_page_def free_idx_def bm_bit_def bit_ops)


section \<open>Initialisation\<close>

text \<open>Marking an arbitrary address keeps the invariant and never frees a page.\<close>

lemma mark_used_cases:
  assumes "pmm_inv s"
  shows "pmm_mark_used s a = s \<or> (\<exists>i \<in> free_idx s. pmm_mark_used s a = take_page s i)"
proof (cases "a < phys_base s \<or> total_pages s \<le> (a - phys_base s) div PAGE_SIZE")
  case True
  then show ?thesis by (auto simp: pmm_mark_used_def Let_def)
next
  case False
  let ?i = "unat ((a - phys_base s) div PAGE_SIZE)"
  from False have i: "?i < unat (total_pages s)" by (simp add: word_le_nat_alt)
  from assms have "?i div 64 < length (page_bitmap s)"
    using bitmap_covers i by (simp add: pmm_inv_def)
  with False i show ?thesis
    by (auto simp: pmm_mark_used_def Let_def take_page_def free_idx_def bm_bit_def bit_ops)
qed

lemma mark_used_inv:
  assumes "pmm_inv s"
  shows "pmm_inv (pmm_mark_used s a)" "free_idx (pmm_mark_used s a) \<subseteq> free_idx s"
    "total_pages (pmm_mark_used s a) = total_pages s" "phys_base (pmm_mark_used s a) = phys_base s"
  using mark_used_cases [OF assms, of a] assms by (auto simp: pmm_inv_take_page)

lemma mark_range_inv:
  assumes "pmm_inv s"
  shows "pmm_inv (mark_range s a n) \<and> free_idx (mark_range s a n) \<subseteq> free_idx s
    \<and> total_pages (mark_range s a n) = total_pages s \<and> phys_base (mark_range s a n) = phys_base s"
  using assms
proof (induction s a n rule: mark_range.induct)
  case (1 s a)
  then show ?case by simp
next
  case (2 s a n)
  from 2(1) [OF mark_used_inv(1) [OF 2(2)]] mark_used_inv [OF 2(2), of a]
  show ?case by auto
qed

lemma mark_range_marks:
  assumes "pmm_inv s" and "i < n" and "i0 + i < unat (total_pages s)"
  shows "i0 + i \<notin> free_idx (mark_range s (page_addr s i0) n)"
  using assms
proof (induction n arbitrary: s i0 i)
  case 0
  then show ?case by simp
next
  case (Suc n)
  let ?s = "pmm_mark_used s (page_addr s i0)"
  from Suc.prems(1) have reg: "region_ok s" by (simp add: pmm_inv_def)
  note s' = mark_used_inv [OF Suc.prems(1), of "page_addr s i0"]
  have next_addr: "page_addr s i0 + PAGE_SIZE = page_addr ?s (Suc i0)"
    using s'(4) by (simp add: page_addr_def algebra_simps)
  show ?case
  proof (cases i)
    case 0
    with Suc.prems(3) have "i0 \<notin> free_idx ?s"
      by (auto simp: pmm_mark_used_page [OF reg])
    with 0 show ?thesis
      using mark_range_inv [OF s'(1)] by auto
  next
    case (Suc i')
    with Suc.prems Suc.IH [OF s'(1), of i' "Suc i0"] s'(3) next_addr show ?thesis by simp
  qed
qed

lemma bm_bit_replicate_ones [simp]: "bm_bit (replicate n (- 1)) i \<longleftrightarrow> i div 64 < n"
  by (auto simp: bm_bit_def)

lemma mult8_div8:
  assumes "unat (x :: u64) * 8 < 2 ^ 64"
  shows "unat (x * 8 div 8) = unat x"
  using assms by (simp add: unat_div unat_mult_small)

text \<open>The conditions under which \<open>kmain\<close> starts the allocator: a page-aligned region that does not
  begin at 0 and does not wrap.\<close>

definition boot_region :: "u64 \<Rightarrow> u64 \<Rightarrow> bool" where
  "boot_region base sz \<longleftrightarrow> base \<noteq> 0 \<and> ALIGN_UP base PAGE_SIZE = base
     \<and> unat base mod 4096 = 0 \<and> unat base + unat sz \<le> 2 ^ 64"

definition pmm_fresh :: "u64 \<Rightarrow> u64 \<Rightarrow> pmm" where
  "pmm_fresh base sz = \<lparr>page_bitmap = replicate (unat ((sz div PAGE_SIZE + 63) div 64)) (- 1),
     total_pages = sz div PAGE_SIZE, free_pages = sz div PAGE_SIZE, phys_base = base\<rparr>"

lemma pmm_fresh_inv:
  assumes "boot_region base sz"
  shows "pmm_inv (pmm_fresh base sz)"
proof -
  let ?s = "pmm_fresh base sz"
  have tot: "unat (total_pages ?s) = unat sz div 4096"
    by (simp add: pmm_fresh_def unat_div)
  have "unat sz < 2 ^ 64" using unsigned_less [of sz] by simp
  then have "unat (sz div PAGE_SIZE + 63) = unat sz div 4096 + 63"
    by (subst unat_add_small) (simp_all add: unat_div)
  then have len: "length (page_bitmap ?s) = (unat (total_pages ?s) + 63) div 64"
    by (simp add: pmm_fresh_def unat_div)
  have base: "unat (phys_base ?s) = unat base" "phys_base ?s = base" by (simp_all add: pmm_fresh_def)
  have reg: "region_ok ?s"
    using assms len tot base div_times_less_eq_dividend [of "unat sz" 4096]
    by (auto simp: region_ok_def boot_region_def)
  have "i \<in> free_idx ?s \<longleftrightarrow> i < unat (total_pages ?s)" for i
    using bitmap_covers [OF reg, of i] by (auto simp: free_idx_def pmm_fresh_def)
  then have "free_idx ?s = {..<unat (total_pages ?s)}" by auto
  with reg show ?thesis by (simp add: pmm_inv_def pmm_fresh_def)
qed

text \<open>\<open>pmm_init\<close> as the fresh allocator with the bit map's own pages, and then the kernel's, marked.\<close>

lemma pmm_init_marks:
  assumes "boot_region base sz"
  shows "\<exists>a n. pmm_init base sz ks =
    mark_range (mark_range (pmm_fresh base sz) base
      (unat (ALIGN_UP ((sz div PAGE_SIZE + 63) div 64 * 8) PAGE_SIZE div PAGE_SIZE))) a n"
proof -
  let ?words = "(sz div PAGE_SIZE + 63) div 64"
  have "unat (sz div PAGE_SIZE + 63) \<le> 2 ^ 53"
    using unat_u64_bound [of sz] by (subst unat_add_small) (simp_all add: unat_div)
  then have "unat ?words * 8 < 2 ^ 64" by (simp add: unat_div)
  then have "unat (?words * 8 div 8) = unat ?words" by (rule mult8_div8)
  then have s0: "\<lparr>page_bitmap = replicate (unat (?words * 8 div 8)) (- 1),
      total_pages = sz div PAGE_SIZE, free_pages = sz div PAGE_SIZE,
      phys_base = base\<rparr> = pmm_fresh base sz"
    using assms by (simp add: pmm_fresh_def boot_region_def)
  have base: "ALIGN_UP base PAGE_SIZE = base" using assms by (simp add: boot_region_def)
  show ?thesis
    unfolding pmm_init_def Let_def base s0 by (metis mark_range.simps(1))
qed

text \<open>
  After \<open>pmm_init\<close> on an aligned region the allocator is consistent (\<open>free_pages\<close> is the
  number of free pages) and none of the pages that hold the bit map itself can be handed out.
\<close>

theorem pmm_init_correct:
  assumes "boot_region base sz"
  shows "pmm_inv (pmm_init base sz ks)
    \<and> (\<forall>i. unat (ALIGN_UP ((sz div PAGE_SIZE + 63) div 64 * 8) PAGE_SIZE div PAGE_SIZE) \<le> i
          \<or> i \<notin> free_idx (pmm_init base sz ks))"
proof -
  let ?n = "unat (ALIGN_UP ((sz div PAGE_SIZE + 63) div 64 * 8) PAGE_SIZE div PAGE_SIZE)"
  let ?s = "pmm_fresh base sz"
  let ?s1 = "mark_range ?s base ?n"
  obtain a n where init: "pmm_init base sz ks = mark_range ?s1 a n"
    using pmm_init_marks [OF assms] by blast
  have inv: "pmm_inv ?s" using assms by (rule pmm_fresh_inv)
  have inv1: "pmm_inv ?s1" using mark_range_inv [OF inv] by simp
  have base: "base = page_addr ?s 0" by (simp add: page_addr_def pmm_fresh_def)
  have "i \<notin> free_idx ?s1" if "i < ?n" for i
  proof (cases "i < unat (total_pages ?s)")
    case True
    with that show ?thesis
      using mark_range_marks [OF inv, of i ?n 0] base by simp
  next
    case False
    then show ?thesis
      using mark_range_inv [OF inv, of base ?n] by (auto simp: free_idx_def)
  qed
  then show ?thesis
    using mark_range_inv [OF inv1, of a n] by (auto simp: init not_le)
qed

lemma boot_region_example: "boot_region 0x41000000 0x800000"
  by (simp add: boot_region_def ALIGN_UP_def PAGE_SIZE_def)

theorem pmm_init_correct_witness:
  "pmm_inv (pmm_init 0x41000000 0x800000 0) \<and> 0 \<notin> free_idx (pmm_init 0x41000000 0x800000 0)"
  using pmm_init_correct [OF boot_region_example, of 0]
  by (auto simp: ALIGN_UP_def PAGE_SIZE_def)

section \<open>Runs of pages\<close>

lemma run_free_in_bounds:
  "(idx + k + 63) div 64 \<le> length bm \<Longrightarrow>
     run_free bm idx k = Some (\<forall>j < k. bm_bit bm (idx + j))"
proof (induction bm idx k rule: run_free.induct)
  case (1 bm idx)
  then show ?case by simp
next
  case (2 bm idx k)
  from 2(2) have in_bounds: "idx div 64 < length bm"
    by (simp add: less_eq_div_iff_mult_less_eq div_less_iff_less_mult)
  have split: "(\<forall>j < Suc k. bm_bit bm (idx + j)) \<longleftrightarrow>
      bm_bit bm idx \<and> (\<forall>j < k. bm_bit bm (Suc idx + j))"
    by (auto simp: less_Suc_eq_0_disj)
  from 2 in_bounds show ?case
    unfolding split by (simp add: bm_bit_def bit_ops)
qed

lemma bm_bit_clear_run:
  "bm_bit (clear_run bm i k) j \<longleftrightarrow> bm_bit bm j \<and> \<not> (i \<le> j \<and> j < i + k)"
  by (induction bm i k rule: clear_run.induct) (auto simp: bit_ops)

lemma length_clear_run [simp]: "length (clear_run bm i k) = length bm"
  by (induction bm i k rule: clear_run.induct) auto

text \<open>The search is a first-slot search over the starts of runs.\<close>

definition run_at :: "u64 list \<Rightarrow> nat \<Rightarrow> nat \<Rightarrow> bool" where
  "run_at bm n i \<longleftrightarrow> (\<forall>j < n. bm_bit bm (i + j))"

lemma find_run_first_slot:
  assumes "(limit + n + 63) div 64 \<le> length bm"
  shows "find_run bm n start limit = Some (first_slot (run_at bm n) start (Suc limit - start))"
  using assms
proof (induction bm n start limit rule: find_run.induct)
  case (1 bm n start limit)
  show ?case
  proof (cases "start \<le> limit")
    case False
    then show ?thesis by (subst find_run.simps) auto
  next
    case True
    then have "(start + n + 63) div 64 \<le> (limit + n + 63) div 64" by (intro div_le_mono) simp
    with 1(2) have run: "run_free bm start n = Some (run_at bm n start)"
      unfolding run_at_def by (intro run_free_in_bounds) simp
    from True have count: "Suc limit - start = Suc (Suc limit - Suc start)" by simp
    show ?thesis
    proof (cases "run_at bm n start")
      case ok: True
      with run True count show ?thesis by (subst find_run.simps) simp
    next
      case no: False
      with run have stop: "run_free bm start n = Some False" by simp
      from 1(1) [OF True this] 1(2) True no stop count show ?thesis
        by (subst find_run.simps) simp
    qed
  qed
qed

text \<open>A run of indices that is free.\<close>

definition free_run :: "pmm \<Rightarrow> nat \<Rightarrow> nat \<Rightarrow> bool" where
  "free_run s i n \<longleftrightarrow> {i..<i + n} \<subseteq> free_idx s"

lemma free_run_bits:
  assumes "i + n \<le> unat (total_pages s)"
  shows "free_run s i n \<longleftrightarrow> run_at (page_bitmap s) n i"
proof -
  have "{i..<i + n} \<subseteq> free_idx s \<longleftrightarrow> (\<forall>j < n. i + j \<in> free_idx s)"
    by (auto simp: subset_iff) (metis add_less_cancel_left le_Suc_ex)
  with assms show ?thesis by (auto simp: free_run_def free_idx_def run_at_def)
qed

lemma free_run_bound:
  assumes "free_run s i n" and "0 < n"
  shows "i + n \<le> unat (total_pages s)"
proof -
  from assms have "i + n - 1 \<in> free_idx s" by (auto simp: free_run_def)
  with assms(2) show ?thesis by (auto simp: free_idx_def)
qed

definition take_run :: "pmm \<Rightarrow> nat \<Rightarrow> u64 \<Rightarrow> pmm" where
  "take_run s i n = s\<lparr>page_bitmap := clear_run (page_bitmap s) i (unat n), free_pages := free_pages s - n\<rparr>"

lemma free_idx_take_run: "free_idx (take_run s i n) = free_idx s - {i..<i + unat n}"
  by (auto simp: free_idx_def take_run_def bm_bit_clear_run)

lemma pmm_inv_take_run:
  assumes "pmm_inv s" and "free_run s i (unat n)"
  shows "pmm_inv (take_run s i n)"
proof -
  from assms(2) have "unat n \<le> card (free_idx s)"
    using card_mono [OF finite_free_idx, of "{i..<i + unat n}"] by (simp add: free_run_def)
  with assms have "unat (free_pages s - n) = card (free_idx s) - unat n"
    by (simp add: pmm_inv_def unat_sub_small)
  moreover have "card (free_idx s - {i..<i + unat n}) = card (free_idx s) - unat n"
    using assms(2) card_Diff_subset [of "{i..<i + unat n}" "free_idx s"] by (simp add: free_run_def)
  ultimately show ?thesis
    using assms(1) by (simp add: pmm_inv_def free_idx_take_run) (simp add: take_run_def region_ok_def)
qed

lemma alloc_n_many:
  assumes "pmm_inv s" and "1 < unat n" and "unat n \<le> unat (total_pages s)"
  shows "(pmm_alloc_n s n = Some (s, 0) \<and> (\<forall>i. \<not> free_run s i (unat n)))
    \<or> (\<exists>i. free_run s i (unat n) \<and> (\<forall>l < i. \<not> free_run s l (unat n))
          \<and> pmm_alloc_n s n = Some (take_run s i n, page_addr s i)
          \<and> page_addr s i \<noteq> 0 \<and> pmm_inv (take_run s i n)
          \<and> free_idx (take_run s i n) = free_idx s - {i..<i + unat n})"
proof -
  let ?n = "unat n" and ?bm = "page_bitmap s"
  from assms(1) have reg: "region_ok s" by (simp add: pmm_inv_def)
  from assms(3) have limit: "unat (total_pages s - n) = unat (total_pages s) - ?n"
    by (rule unat_sub_small)
  from assms(3) have "(unat (total_pages s - n) + ?n + 63) div 64 \<le> length ?bm"
    using reg by (simp add: limit region_ok_def)
  from find_run_first_slot [OF this, of 0] obtain r where
    r: "find_run ?bm ?n 0 (unat (total_pages s - n)) = Some r" and
    r_def: "r = first_slot (run_at ?bm ?n) 0 (Suc (unat (total_pages s - n)))"
    by simp
  from assms(2) have "n \<noteq> 0" "n \<noteq> 1" by auto
  with r have result: "pmm_alloc_n s n = (case r of None \<Rightarrow> Some (s, 0)
      | Some i \<Rightarrow> Some (take_run s i n, page_addr s i))"
    by (simp add: pmm_alloc_n_def take_run_def page_addr_def split: option.splits)
  show ?thesis
  proof (cases r)
    case None
    have "\<not> free_run s i ?n" for i
    proof
      assume run: "free_run s i ?n"
      with assms(2) have "i + ?n \<le> unat (total_pages s)" by (intro free_run_bound) auto
      with run have "run_at ?bm ?n i" "i < Suc (unat (total_pages s - n))"
        using limit by (auto simp: free_run_bits)
      moreover have "first_slot (run_at ?bm ?n) 0 (Suc (unat (total_pages s - n))) = None"
        using None r_def by (simp only:)
      ultimately show False unfolding first_slot_None by auto
    qed
    with None result show ?thesis by simp
  next
    case (Some i)
    with r_def have "first_slot (run_at ?bm ?n) 0 (Suc (unat (total_pages s - n))) = Some i" by simp
    from first_slot_Some [OF this] limit assms(3) have i: "i + ?n \<le> unat (total_pages s)"
      "run_at ?bm ?n i" "\<forall>l < i. \<not> run_at ?bm ?n l"
      by auto
    then have run: "free_run s i ?n" and least: "\<forall>l < i. \<not> free_run s l ?n"
      by (auto simp: free_run_bits)
    moreover have "page_addr s i \<noteq> 0" using i(1) assms(2) by (intro page_addr_nonzero [OF reg]) simp
    ultimately show ?thesis
      using Some result pmm_inv_take_run [OF assms(1) run] free_idx_take_run by auto
  qed
qed

lemma alloc_n_cases:
  assumes "pmm_inv s" and "0 < unat n" and "unat n \<le> unat (total_pages s)"
  shows "(pmm_alloc_n s n = Some (s, 0) \<and> (\<forall>i. \<not> free_run s i (unat n)))
    \<or> (\<exists>i. free_run s i (unat n) \<and> (\<forall>l < i. \<not> free_run s l (unat n))
          \<and> pmm_alloc_n s n = Some (take_run s i n, page_addr s i)
          \<and> page_addr s i \<noteq> 0 \<and> pmm_inv (take_run s i n)
          \<and> free_idx (take_run s i n) = free_idx s - {i..<i + unat n})"
proof (cases "n = 1")
  case False
  with assms(2) have "1 < unat n" by simp (metis One_nat_def Suc_lessI unat_1 word_unat_eq_iff)
  with alloc_n_many assms show ?thesis by blast
next
  case True
  have run: "free_run s i (unat n) \<longleftrightarrow> i \<in> free_idx s" for i using True by (auto simp: free_run_def)
  have one: "pmm_alloc_n s n = Some (pmm_alloc s)" using True by (simp add: pmm_alloc_n_def)
  show ?thesis
  proof (cases "free_idx s = {}")
    case True
    with one assms(1) pmm_alloc_empty run show ?thesis by simp
  next
    case False
    let ?i = "Min (free_idx s)"
    have i: "?i \<in> free_idx s" using False by simp
    have "page_addr s ?i \<noteq> 0" using assms(1) i free_idxD page_addr_nonzero by (metis pmm_inv_def)
    moreover have "take_run s ?i n = take_page s ?i" using \<open>n = 1\<close> by (simp add: take_run_def take_page_def)
    moreover have "\<forall>l < ?i. \<not> free_run s l (unat n)" unfolding run by (meson Min_le finite_free_idx leD)
    moreover have "pmm_inv (take_run s ?i n)" using run i by (intro pmm_inv_take_run [OF assms(1)]) simp
    ultimately show ?thesis using one pmm_alloc_Min [OF assms(1) False] run i free_idx_take_run by metis
  qed
qed

definition small_pmm :: pmm where
  "small_pmm = pmm_fresh 0x41000000 0x8000"

lemma small_pmm_inv: "pmm_inv small_pmm" "unat (total_pages small_pmm) = 8"
  by (auto simp: small_pmm_def boot_region_def ALIGN_UP_def PAGE_SIZE_def intro!: pmm_fresh_inv)
    (simp add: pmm_fresh_def PAGE_SIZE_def)

lemma small_pmm_all_free: "i < 8 \<Longrightarrow> i \<in> free_idx small_pmm"
  by (simp add: free_idx_def small_pmm_inv bm_bit_def) (simp add: small_pmm_def pmm_fresh_def PAGE_SIZE_def)

text \<open>A request longer than the bit map: \<open>total_pages - n\<close> wraps, and the search runs off the end.\<close>

lemma run_free_overrun:
  "64 * length bm < idx + k \<Longrightarrow> idx \<le> 64 * length bm \<Longrightarrow> run_free bm idx k \<noteq> Some True"
  by (induction bm idx k rule: run_free.induct) (auto simp: div_less_iff_less_mult)

lemma find_run_overrun:
  assumes "64 * length bm < n" and "64 * length bm \<le> limit" and "start \<le> 64 * length bm"
  shows "find_run bm n start limit = None"
  using assms
proof (induction bm n start limit rule: find_run.induct)
  case (1 bm n start limit)
  then have le: "start \<le> limit" by simp
  from 1(2,4) have not_true: "run_free bm start n \<noteq> Some True" by (intro run_free_overrun) simp
  show ?case
  proof (cases "run_free bm start n")
    case None
    with le show ?thesis by (subst find_run.simps) simp
  next
    case (Some b)
    with not_true have stop: "run_free bm start n = Some False" by (cases b) auto
    have "start \<noteq> 64 * length bm"
    proof
      assume "start = 64 * length bm"
      with 1(2) have "run_free bm start n = None" by (cases n) auto
      with stop show False by simp
    qed
    with 1(4) have "Suc start \<le> 64 * length bm" by simp
    with 1(1) [OF le stop] 1(2,3) have "find_run bm n (Suc start) limit = None" by simp
    with le stop show ?thesis by (subst find_run.simps) simp
  qed
qed

text \<open>
  \<open>pmm_alloc_n\<close> does not check the request against the size of memory: every request for more
  pages than the bit map has bits reads beyond the end of the bit map instead of failing.
\<close>

lemma pmm_alloc_n_oversized:
  assumes "region_ok s" and "1 < unat n"
    and "64 * length (page_bitmap s) < unat n" and "unat n \<le> 2 ^ 63"
  shows "pmm_alloc_n s n = None"
proof -
  let ?len = "64 * length (page_bitmap s)"
  have total: "unat (total_pages s) \<le> ?len"
    using assms(1) by (simp add: region_ok_def)
  with assms(3) have "unat (total_pages s - n) = 2 ^ 64 + unat (total_pages s) - unat n"
    by (simp add: unat_sub_if_size word_size)
  with assms(3,4) total have "?len \<le> unat (total_pages s - n)"
    using region_total_bound [OF assms(1)] assms(1) by (simp add: region_ok_def)
  with assms(3) have "find_run (page_bitmap s) (unat n) 0 (unat (total_pages s - n)) = None"
    by (intro find_run_overrun) auto
  with assms(2) show ?thesis by (auto simp: pmm_alloc_n_def)
qed

text \<open>
  C18: a request for at least one and at most \<open>total_pages\<close> pages never reads outside the bit map; it
  fails, leaving the state alone, exactly when no run of that many pages is free, and otherwise
  returns the lowest such run and takes just its pages.  A request for no page fails.  A request for
  more pages than the bit map has bits does not fail: the search runs off the end of the bit map.
\<close>

theorem pmm_alloc_n_first_fit:
  assumes "pmm_inv s"
  shows "(0 < unat n \<and> unat n \<le> unat (total_pages s) \<longrightarrow>
      (pmm_alloc_n s n = Some (s, 0) \<and> (\<forall>i. \<not> free_run s i (unat n)))
      \<or> (\<exists>i. free_run s i (unat n) \<and> (\<forall>l < i. \<not> free_run s l (unat n))
          \<and> pmm_alloc_n s n = Some (take_run s i n, page_addr s i)
          \<and> page_addr s i \<noteq> 0 \<and> pmm_inv (take_run s i n)
          \<and> free_idx (take_run s i n) = free_idx s - {i..<i + unat n}))
    \<and> pmm_alloc_n s 0 = Some (s, 0)
    \<and> (1 < unat n \<and> 64 * length (page_bitmap s) < unat n \<and> unat n \<le> 2 ^ 63 \<longrightarrow> pmm_alloc_n s n = None)"
  using alloc_n_cases [OF assms, of n] pmm_alloc_n_oversized [of s n] assms
  by (simp add: pmm_inv_def pmm_alloc_n_def [of s 0])

theorem pmm_alloc_n_first_fit_witness:
  "pmm_alloc_n small_pmm 3 = Some (take_run small_pmm 0 3, page_addr small_pmm 0)
    \<and> pmm_inv (take_run small_pmm 0 3) \<and> pmm_alloc_n small_pmm 65 = None"
proof -
  have "free_run small_pmm 0 (unat (3 :: u64))"
    using small_pmm_all_free by (auto simp: free_run_def)
  moreover have "length (page_bitmap small_pmm) = 1"
    using small_pmm_inv by (simp add: pmm_inv_def region_ok_def)
  ultimately show ?thesis
    using pmm_alloc_n_first_fit [OF small_pmm_inv(1), of 3] pmm_alloc_n_first_fit [OF small_pmm_inv(1), of 65]
    by (auto simp: small_pmm_inv)
qed

section \<open>The page interface\<close>

text \<open>
  What the clients of the allocator (the page-table code, the process and heap code) rely on: an
  allocation takes exactly one page out of the pool, it is aligned and not null, and a null result
  means the pool is empty.
\<close>

locale page_source =
  fixes alloc :: "'s \<Rightarrow> 's \<times> u64"
    and inv :: "'s \<Rightarrow> bool"
    and pool :: "'s \<Rightarrow> u64 set"
  assumes alloc_inv: "inv s \<Longrightarrow> inv (fst (alloc s))"
    and alloc_pool: "inv s \<Longrightarrow> pool (fst (alloc s)) = pool s - {snd (alloc s)}"
    and alloc_from_pool: "inv s \<Longrightarrow> snd (alloc s) \<noteq> 0 \<Longrightarrow> snd (alloc s) \<in> pool s"
    and alloc_null: "inv s \<Longrightarrow> snd (alloc s) = 0 \<longleftrightarrow> pool s = {}"
    and pool_nonzero: "inv s \<Longrightarrow> 0 \<notin> pool s"
    and pool_aligned: "inv s \<Longrightarrow> p \<in> pool s \<Longrightarrow> unat p mod 4096 = 0"

text \<open>Allocating until the pool is empty or \<open>n\<close> pages are taken: the pages, latest last.\<close>

fun alloc_pages :: "('s \<Rightarrow> 's \<times> u64) \<Rightarrow> nat \<Rightarrow> 's \<Rightarrow> 's \<times> u64 list" where
  "alloc_pages alloc 0 s = (s, [])"
| "alloc_pages alloc (Suc n) s =
     (let (s', p) = alloc s in
      if p = 0 then (s', []) else let (s'', ps) = alloc_pages alloc n s' in (s'', p # ps))"

context page_source begin

lemma alloc_disjoint:
  assumes "inv s" and "snd (alloc s) \<noteq> 0"
  shows "snd (alloc s) \<notin> pool (fst (alloc s))"
  using alloc_pool [OF assms(1)] by simp

lemma alloc_pages_pool:
  assumes "inv s" and "alloc_pages alloc n s = (s', ps)"
  shows "inv s' \<and> distinct ps \<and> set ps \<subseteq> pool s \<and> pool s' = pool s - set ps
    \<and> (length ps = n \<or> pool s' = {})"
  using assms
proof (induction n arbitrary: s s' ps)
  case 0
  then show ?case by simp
next
  case (Suc n)
  obtain s1 p where step: "alloc s = (s1, p)" by (cases "alloc s")
  note laws = alloc_inv [OF Suc.prems(1)] alloc_pool [OF Suc.prems(1)]
    alloc_from_pool [OF Suc.prems(1)] alloc_null [OF Suc.prems(1)]
  show ?case
  proof (cases "p = 0")
    case True
    with Suc.prems(2) step have "s' = s1" "ps = []" by auto
    with True step laws show ?thesis by auto
  next
    case False
    obtain s2 qs where rest: "alloc_pages alloc n s1 = (s2, qs)"
      by (cases "alloc_pages alloc n s1")
    with Suc.prems(2) step False have res: "s' = s2" "ps = p # qs" by auto
    from laws(1) step have "inv s1" by simp
    from Suc.IH [OF this rest] laws step False res show ?thesis by auto
  qed
qed

end

lemma region_page_facts:
  assumes "region_ok s" and "p \<in> avail s"
  obtains i where "p = page_addr s i" "i \<in> free_idx s" "i < unat (total_pages s)"
  using assms by (auto simp: avail_def free_idx_def)

lemma avail_take_page:
  assumes "region_ok s" and "i \<in> free_idx s"
  shows "avail (take_page s i) = avail s - {page_addr s i}"
proof -
  have "inj_on (page_addr s) (free_idx s)"
    using page_addr_inj [OF assms(1)] by (auto simp: inj_on_def free_idx_def)
  with assms(2) show ?thesis
    unfolding avail_def by (simp add: inj_on_image_set_diff [of _ "free_idx s"])
qed

lemma avail_nonzero: "region_ok s \<Longrightarrow> 0 \<notin> avail s"
  by (metis region_page_facts page_addr_nonzero)

lemma avail_aligned: "region_ok s \<Longrightarrow> p \<in> avail s \<Longrightarrow> unat p mod 4096 = 0"
  by (metis region_page_facts page_addr_aligned)

lemma pmm_alloc_avail:
  assumes "pmm_inv s"
  shows "avail (fst (pmm_alloc s)) = avail s - {snd (pmm_alloc s)}
    \<and> (snd (pmm_alloc s) = 0 \<or> snd (pmm_alloc s) \<in> avail s) \<and> (snd (pmm_alloc s) = 0 \<longleftrightarrow> avail s = {})
    \<and> pmm_inv (fst (pmm_alloc s))"
proof (cases "free_idx s = {}")
  case True
  with assms show ?thesis by (simp add: pmm_alloc_empty avail_def)
next
  case False
  then have m: "Min (free_idx s) \<in> free_idx s" by simp
  then have "page_addr s (Min (free_idx s)) \<in> avail s" by (simp add: avail_def)
  moreover from assms have reg: "region_ok s" by (simp add: pmm_inv_def)
  ultimately show ?thesis
    using False m assms avail_nonzero [OF reg]
    by (auto simp: pmm_alloc_Min pmm_inv_take_page avail_take_page)
qed

interpretation pages: page_source pmm_alloc pmm_inv avail
  by unfold_locales
    (use pmm_alloc_avail avail_nonzero avail_aligned in \<open>auto simp: pmm_inv_def\<close>)

text \<open>
  \<open>pmm_alloc\<close> hands out the lowest free page and takes exactly it out of the pool; it returns 0,
  changing nothing, exactly when no page is free; the invariant is kept.
\<close>

theorem pmm_alloc_lowest:
  assumes "pmm_inv s"
  shows "pmm_alloc s = (if free_idx s = {} then (s, 0)
      else (take_page s (Min (free_idx s)), page_addr s (Min (free_idx s))))
    \<and> pmm_inv (fst (pmm_alloc s)) \<and> avail (fst (pmm_alloc s)) = avail s - {snd (pmm_alloc s)}
    \<and> (snd (pmm_alloc s) = 0 \<longleftrightarrow> avail s = {})"
  using assms pages.alloc_inv pages.alloc_pool pages.alloc_null
  by (simp add: pmm_alloc_empty pmm_alloc_Min)

theorem pmm_alloc_lowest_witness:
  "pmm_alloc small_pmm = (if free_idx small_pmm = {} then (small_pmm, 0)
      else (take_page small_pmm (Min (free_idx small_pmm)), page_addr small_pmm (Min (free_idx small_pmm))))
    \<and> pmm_inv (fst (pmm_alloc small_pmm))
    \<and> avail (fst (pmm_alloc small_pmm)) = avail small_pmm - {snd (pmm_alloc small_pmm)}
    \<and> (snd (pmm_alloc small_pmm) = 0 \<longleftrightarrow> avail small_pmm = {})"
  using pmm_alloc_lowest [OF small_pmm_inv(1)] .

text \<open>
  Pages handed out by a series of allocations are pairwise distinct, were free before, are no
  longer in the pool, and the series is shorter than asked only when the pool is exhausted.
\<close>

theorem pmm_alloc_series_distinct:
  assumes "pmm_inv s" and "alloc_pages pmm_alloc n s = (s', ps)"
  shows "pmm_inv s' \<and> distinct ps \<and> set ps \<subseteq> avail s \<and> avail s' = avail s - set ps
    \<and> (length ps = n \<or> avail s' = {})"
  using assms by (rule pages.alloc_pages_pool)

theorem pmm_alloc_series_distinct_witness:
  "\<exists>s' ps. alloc_pages pmm_alloc 3 small_pmm = (s', ps) \<and> pmm_inv s' \<and> distinct ps"
  using pmm_alloc_series_distinct [OF small_pmm_inv(1), of 3] by (cases "alloc_pages pmm_alloc 3 small_pmm") auto

lemma double_free_breaks:
  assumes "pmm_inv s" and "i < unat (total_pages s)" and "i \<notin> free_idx s"
  shows "free_idx (pmm_free (pmm_free s (page_addr s i)) (page_addr s i)) = insert i (free_idx s)
    \<and> free_pages (pmm_free (pmm_free s (page_addr s i)) (page_addr s i)) = free_pages (pmm_free s (page_addr s i)) + 1
    \<and> \<not> pmm_inv (pmm_free (pmm_free s (page_addr s i)) (page_addr s i))"
proof -
  let ?s1 = "pmm_free s (page_addr s i)"
  let ?s2 = "pmm_free ?s1 (page_addr s i)"
  from assms(1) have reg: "region_ok s" by (simp add: pmm_inv_def)
  have inv1: "pmm_inv ?s1" using assms by (rule pmm_inv_free)
  then have reg1: "region_ok ?s1" by (simp add: pmm_inv_def)
  have same: "page_addr s i = page_addr ?s1 i" "i < unat (total_pages ?s1)" using assms(2) by simp_all
  have s2: "free_idx ?s2 = insert i (free_idx ?s1)" "free_pages ?s2 = free_pages ?s1 + 1"
    using free_idx_pmm_free [OF reg1 same(2)] pmm_free_page [OF reg1 same(2)] by simp_all
  have s1: "free_idx ?s1 = insert i (free_idx s)" by (rule free_idx_pmm_free [OF reg assms(2)])
  have "free_pages ?s2 \<noteq> free_pages ?s1" using s2(2) by simp
  then have "unat (free_pages ?s2) \<noteq> unat (free_pages ?s1)" by (metis word_unat_eq_iff)
  then have "unat (free_pages ?s2) \<noteq> card (free_idx ?s2)"
    using inv1 s1 s2(1) by (auto simp: pmm_inv_def insert_absorb)
  with s1 s2 show ?thesis by (auto simp: pmm_inv_def)
qed

text \<open>
  Freeing a page that is in use puts it back (and undoes the allocation that took it, up to the
  free set); freeing it twice leaves the free set alone but counts it again, so that \<open>free_pages\<close>
  no longer is the number of free pages: \<open>pmm_free\<close> does not test the bit it sets.
\<close>

theorem pmm_free_and_double_free:
  assumes "pmm_inv s" and "i < unat (total_pages s)" and "i \<notin> free_idx s"
  defines "s1 \<equiv> pmm_free s (page_addr s i)"
  defines "s2 \<equiv> pmm_free s1 (page_addr s i)"
  shows "pmm_inv s1 \<and> free_idx s1 = insert i (free_idx s)
    \<and> free_idx s2 = free_idx s1 \<and> free_pages s2 = free_pages s1 + 1 \<and> \<not> pmm_inv s2"
proof -
  from assms(1) have "region_ok s" by (simp add: pmm_inv_def)
  then have f: "free_idx s1 = insert i (free_idx s)"
    unfolding s1_def using assms(2) by (rule free_idx_pmm_free)
  have "pmm_inv s1" unfolding s1_def using assms(1,2,3) by (rule pmm_inv_free)
  with f show ?thesis
    using double_free_breaks [OF assms(1,2,3)] unfolding s1_def s2_def by simp
qed

lemma small_pmm_zero_free: "0 \<in> free_idx small_pmm"
  by (simp add: free_idx_def small_pmm_inv bm_bit_def) (simp add: small_pmm_def pmm_fresh_def PAGE_SIZE_def)

lemma small_pmm_in_use:
  "pmm_inv (take_page small_pmm 0)" "0 \<notin> free_idx (take_page small_pmm 0)"
  using pmm_inv_take_page [OF small_pmm_inv(1) small_pmm_zero_free] by simp_all

theorem pmm_free_and_double_free_witness:
  "\<exists>s1 s2. s1 = pmm_free (take_page small_pmm 0) (page_addr small_pmm 0)
    \<and> s2 = pmm_free s1 (page_addr small_pmm 0) \<and> pmm_inv s1 \<and> \<not> pmm_inv s2"
  using pmm_free_and_double_free [OF small_pmm_in_use(1) _ small_pmm_in_use(2)]
  by (simp add: small_pmm_inv)

section \<open>The interface for runs of pages\<close>

text \<open>What a client that asks for several contiguous pages relies on, in bytes: the pages come from
  the pool and leave it, and a failed request changes nothing.\<close>

definition pages_at :: "u64 \<Rightarrow> u64 \<Rightarrow> nat set" where
  "pages_at a n = {unat a..<unat a + unat n * 4096}"

locale run_source =
  fixes alloc_n :: "'s \<Rightarrow> u64 \<Rightarrow> ('s \<times> u64) option"
    and inv :: "'s \<Rightarrow> bool"
    and room :: "'s \<Rightarrow> u64 \<Rightarrow> bool"
    and pool :: "'s \<Rightarrow> nat set"
  assumes alloc_n_returns: "inv s \<Longrightarrow> room s n \<Longrightarrow>
      \<exists>s' r. alloc_n s n = Some (s', r) \<and> inv s' \<and> room s' = room s"
    and alloc_n_fails: "inv s \<Longrightarrow> room s n \<Longrightarrow> alloc_n s n = Some (s', 0) \<Longrightarrow> pool s' = pool s"
    and alloc_n_takes: "inv s \<Longrightarrow> room s n \<Longrightarrow> alloc_n s n = Some (s', r) \<Longrightarrow> r \<noteq> 0 \<Longrightarrow>
      unat r + unat n * 4096 \<le> 2 ^ 64 \<and> pages_at r n \<subseteq> pool s \<and> pool s' = pool s - pages_at r n"

context run_source begin

text \<open>A set that is disjoint from the pool stays disjoint from it and from the pages handed out.\<close>

lemma alloc_n_disjoint:
  assumes "inv s" and "room s n" and "alloc_n s n = Some (s', r)" and "r \<noteq> 0" and "A \<inter> pool s = {}"
  shows "A \<inter> pages_at r n = {}" and "(A \<union> pages_at r n) \<inter> pool s' = {}"
  using alloc_n_takes [OF assms(1-4)] assms(5) by auto

end

definition room_for :: "pmm \<Rightarrow> u64 \<Rightarrow> bool" where
  "room_for s n \<longleftrightarrow> 0 < unat n \<and> unat n \<le> unat (total_pages s)"

definition pool_bytes :: "pmm \<Rightarrow> nat set" where
  "pool_bytes s = (\<Union>i \<in> free_idx s. {unat (page_addr s i)..<unat (page_addr s i) + 4096})"

lemma alloc_n_run:
  assumes "pmm_inv s" and "room_for s n"
  shows "\<exists>s' r. pmm_alloc_n s n = Some (s', r) \<and> pmm_inv s'
    \<and> total_pages s' = total_pages s \<and> phys_base s' = phys_base s
    \<and> (r = 0 \<and> free_idx s' = free_idx s \<and> (\<forall>i. \<not> free_run s i (unat n))
       \<or> r \<noteq> 0 \<and> (\<exists>i. free_run s i (unat n) \<and> (\<forall>l < i. \<not> free_run s l (unat n))
           \<and> r = page_addr s i \<and> free_idx s' = free_idx s - {i..<i + unat n}))"
proof -
  have k: "total_pages (take_run s i n) = total_pages s" "phys_base (take_run s i n) = phys_base s" for i
    by (simp_all add: take_run_def)
  have n: "0 < unat n" "unat n \<le> unat (total_pages s)" using assms(2) by (simp_all add: room_for_def)
  from alloc_n_cases [OF assms(1) n] consider
      (no) "pmm_alloc_n s n = Some (s, 0)" "\<forall>i. \<not> free_run s i (unat n)"
    | (yes) i where "free_run s i (unat n)" "\<forall>l < i. \<not> free_run s l (unat n)"
        "pmm_alloc_n s n = Some (take_run s i n, page_addr s i)" "page_addr s i \<noteq> 0" "pmm_inv (take_run s i n)"
        "free_idx (take_run s i n) = free_idx s - {i..<i + unat n}"
    by (elim disjE exE conjE)
  then show ?thesis
  proof cases
    case no
    with assms(1) show ?thesis by simp
  next
    case yes
    then show ?thesis using k by auto
  qed
qed

lemma pool_bytes_run:
  assumes "region_ok s" and "free_run s i n" and "0 < n"
  shows "unat (page_addr s i) + n * 4096 \<le> 2 ^ 64"
    and "(\<Union>j \<in> {i..<i + n}. {unat (page_addr s j)..<unat (page_addr s j) + 4096})
      = {unat (page_addr s i)..<unat (page_addr s i) + n * 4096}"
proof -
  have bound: "i + n \<le> unat (total_pages s)" using free_run_bound assms(2,3) by blast
  have addr: "unat (page_addr s j) = unat (phys_base s) + j * 4096" if "j \<in> {i..<i + n}" for j
    using that bound unat_page_addr [OF assms(1)] by simp
  have i: "unat (page_addr s i) = unat (phys_base s) + i * 4096" using addr assms(3) by simp
  have "(i + n) * 4096 \<le> unat (total_pages s) * 4096" using bound by simp
  then show "unat (page_addr s i) + n * 4096 \<le> 2 ^ 64"
    using i assms(1) by (simp add: region_ok_def algebra_simps)
  have "(\<Union>j \<in> {i..<i + n}. {unat (page_addr s j)..<unat (page_addr s j) + 4096})
      = (\<Union>j \<in> {i..<i + n}. {unat (phys_base s) + j * 4096..<unat (phys_base s) + j * 4096 + 4096})"
    using addr by (intro SUP_cong) auto
  also have "\<dots> = {unat (page_addr s i)..<unat (page_addr s i) + n * 4096}"
  proof (rule set_eqI)
    fix x
    show "x \<in> (\<Union>j \<in> {i..<i + n}. {unat (phys_base s) + j * 4096..<unat (phys_base s) + j * 4096 + 4096})
        \<longleftrightarrow> x \<in> {unat (page_addr s i)..<unat (page_addr s i) + n * 4096}" (is "?l \<longleftrightarrow> ?r")
    proof
      assume ?l
      then obtain j where "i \<le> j" "j < i + n" "unat (phys_base s) + j * 4096 \<le> x"
        "x < unat (phys_base s) + j * 4096 + 4096" by auto
      then show ?r using i mult_le_mono1 [of i j 4096] mult_le_mono1 [of "Suc j" "i + n" 4096] by simp
    next
      assume r: ?r
      let ?j = "(x - unat (phys_base s)) div 4096"
      have "unat (phys_base s) + i * 4096 \<le> x" "x < unat (phys_base s) + (i + n) * 4096"
        using r i by (simp_all add: algebra_simps)
      then have "i \<le> ?j" "?j < i + n"
        by (simp_all add: less_eq_div_iff_mult_less_eq div_less_iff_less_mult less_diff_conv2 ac_simps)
      moreover have "unat (phys_base s) + ?j * 4096 \<le> x" "x < unat (phys_base s) + ?j * 4096 + 4096"
        using r i div_mult_mod_eq [of "x - unat (phys_base s)" 4096]
          mod_less_divisor [of 4096 "x - unat (phys_base s)"] by (simp_all, linarith+)
      ultimately show ?l by (intro UN_I [of ?j]) simp_all
    qed
  qed
  finally show "(\<Union>j \<in> {i..<i + n}. {unat (page_addr s j)..<unat (page_addr s j) + 4096})
      = {unat (page_addr s i)..<unat (page_addr s i) + n * 4096}" .
qed

text \<open>Different pages do not overlap, so that taking a run takes its bytes and no others.\<close>

lemma pool_bytes_diff:
  assumes "region_ok s" and "A \<subseteq> free_idx s"
  shows "(\<Union>i \<in> free_idx s - A. {unat (page_addr s i)..<unat (page_addr s i) + 4096})
    = pool_bytes s - (\<Union>i \<in> A. {unat (page_addr s i)..<unat (page_addr s i) + 4096})"
proof -
  have addr: "unat (page_addr s j) = unat (phys_base s) + j * 4096" if "j \<in> free_idx s" for j
    using that unat_page_addr [OF assms(1)] free_idxD by blast
  have "i = j" if "i \<in> free_idx s" "j \<in> free_idx s"
    "x \<in> {unat (page_addr s i)..<unat (page_addr s i) + 4096}"
    "x \<in> {unat (page_addr s j)..<unat (page_addr s j) + 4096}" for i j x
    using that addr by simp
  with assms(2) show ?thesis unfolding pool_bytes_def by blast
qed

interpretation runs: run_source pmm_alloc_n pmm_inv room_for pool_bytes
proof unfold_locales
  fix s n
  assume "pmm_inv s" "room_for s n"
  from alloc_n_run [OF this]
  show "\<exists>s' r. pmm_alloc_n s n = Some (s', r) \<and> pmm_inv s' \<and> room_for s' = room_for s"
    by (auto simp: room_for_def fun_eq_iff)
next
  fix s n s'
  assume "pmm_inv s" "room_for s n" "pmm_alloc_n s n = Some (s', 0)"
  with alloc_n_run [of s n] show "pool_bytes s' = pool_bytes s"
    by (auto simp: pool_bytes_def page_addr_def)
next
  fix s n s' r
  assume a: "pmm_inv s" "room_for s n" "pmm_alloc_n s n = Some (s', r)" "r \<noteq> 0"
  then have reg: "region_ok s" by (simp add: pmm_inv_def)
  from alloc_n_run [OF a(1,2)] a(3,4) obtain i where
    i: "free_run s i (unat n)" "r = page_addr s i" "free_idx s' = free_idx s - {i..<i + unat n}"
    and fr: "phys_base s' = phys_base s" by auto
  have n: "0 < unat n" using a(2) by (simp add: room_for_def)
  note run = pool_bytes_run [OF reg i(1) n]
  have sub: "{i..<i + unat n} \<subseteq> free_idx s" using i(1) by (simp add: free_run_def)
  have "pool_bytes s' = (\<Union>i \<in> free_idx s - {i..<i + unat n}. {unat (page_addr s i)..<unat (page_addr s i) + 4096})"
    unfolding pool_bytes_def i(3) page_addr_def fr ..
  then have "pool_bytes s' = pool_bytes s - pages_at r n"
    using pool_bytes_diff [OF reg sub] run(2) by (simp add: pages_at_def i(2))
  moreover have "pages_at r n \<subseteq> pool_bytes s"
    unfolding pages_at_def i(2) run(2) [symmetric] pool_bytes_def using sub by (intro UN_mono) auto
  ultimately show "unat r + unat n * 4096 \<le> 2 ^ 64 \<and> pages_at r n \<subseteq> pool_bytes s \<and> pool_bytes s' = pool_bytes s - pages_at r n"
    using run(1) i(2) by simp
qed

section \<open>Unaligned regions\<close>

lemma mark_used_frame [simp]:
  "total_pages (pmm_mark_used s a) = total_pages s" "phys_base (pmm_mark_used s a) = phys_base s"
  by (simp_all add: pmm_mark_used_def Let_def)

lemma mark_range_frame [simp]:
  "total_pages (mark_range s a n) = total_pages s" "phys_base (mark_range s a n) = phys_base s"
  by (induction s a n rule: mark_range.induct) simp_all

text \<open>\<open>pmm_init\<close> rounds the base up but takes the page count from the unreduced size, so that a
  region that does not start on a page boundary is overrun at its end.\<close>

lemma pmm_init_overhang:
  "unat (0x41000800 :: u64) + unat (0x8000 :: u64)
     < unat (phys_base (pmm_init 0x41000800 0x8000 0)) + unat (total_pages (pmm_init 0x41000800 0x8000 0)) * 4096"
  by (simp add: pmm_init_def Let_def ALIGN_UP_def PAGE_SIZE_def)

end
