(* ===== verification/Vmm.thy ===== *)
theory Vmm
  imports Pmm
begin

text \<open>
  The four-level page tables of mm.c and vmm_stub.c (4 KB granule, 48-bit virtual addresses) over
  the physical page allocator.  Memory is a function from the address of a 64-bit word to its
  value; a table is the page its address points at, entry \<open>i\<close> at \<open>t + 8 * i\<close>.  TLB maintenance
  and barriers have no effect in this model, which has no TLB.  \<open>walk\<close> is the tree view of the
  tables that the proofs use: the table reached from the root through a list of indices.
\<close>

section \<open>State and page-table operations\<close>

record vm =
  pm :: pmm
  mem :: "u64 \<Rightarrow> u64"

definition PT_VALID :: u64 where "PT_VALID = 1"
definition PT_TABLE :: u64 where "PT_TABLE = 2"
definition PT_AF :: u64 where "PT_AF = 0x400"
definition PT_ADDR_MASK :: u64 where "PT_ADDR_MASK = 0x0000FFFFFFFFF000"

definition PGD_IDX :: "u64 \<Rightarrow> u64" where "PGD_IDX va = drop_bit 39 va AND 0x1FF"
definition PUD_IDX :: "u64 \<Rightarrow> u64" where "PUD_IDX va = drop_bit 30 va AND 0x1FF"
definition PMD_IDX :: "u64 \<Rightarrow> u64" where "PMD_IDX va = drop_bit 21 va AND 0x1FF"
definition PTE_IDX :: "u64 \<Rightarrow> u64" where "PTE_IDX va = drop_bit 12 va AND 0x1FF"

text \<open>\<open>table[idx]\<close> and the \<open>memset\<close> of a fresh table page.\<close>

definition entry :: "(u64 \<Rightarrow> u64) \<Rightarrow> u64 \<Rightarrow> u64 \<Rightarrow> u64" where
  "entry m t idx = m (t + 8 * idx)"

definition zero_page :: "(u64 \<Rightarrow> u64) \<Rightarrow> u64 \<Rightarrow> u64 \<Rightarrow> u64" where
  "zero_page m a = (\<lambda>x. if x - a < PAGE_SIZE then 0 else m x)"

definition vmm_init :: "vm \<Rightarrow> u64 \<Rightarrow> vm" where
  "vmm_init s pgd = (if pgd = 0 then s else s\<lparr>mem := zero_page (mem s) pgd\<rparr>)"

text \<open>One of the three "navigate or create" steps of \<open>vmm_map\<close>: the table entry \<open>idx\<close> of \<open>t\<close>
  points at, allocated, zeroed and linked if the entry is not valid; \<open>None\<close> when no page is left.\<close>

definition next_table :: "vm \<Rightarrow> u64 \<Rightarrow> u64 \<Rightarrow> vm \<times> u64 option" where
  "next_table s t idx =
     (if entry (mem s) t idx AND PT_VALID = 0 then
        let (p', new_table) = pmm_alloc (pm s) in
        if new_table = 0 then (s\<lparr>pm := p'\<rparr>, None)
        else let m' = (zero_page (mem s) new_table)(t + 8 * idx := new_table OR PT_TABLE OR PT_VALID)
             in (s\<lparr>pm := p', mem := m'\<rparr>, Some (entry m' t idx AND PT_ADDR_MASK))
      else (s, Some (entry (mem s) t idx AND PT_ADDR_MASK)))"

definition vmm_map :: "vm \<Rightarrow> u64 \<Rightarrow> u64 \<Rightarrow> u64 \<Rightarrow> u32 \<Rightarrow> vm \<times> int" where
  "vmm_map s pgd vaddr paddr flags =
     (if pgd = 0 then (s, - 1)
      else case next_table s pgd (PGD_IDX vaddr) of
        (s1, None) \<Rightarrow> (s1, - 1)
      | (s1, Some pud) \<Rightarrow> (case next_table s1 pud (PUD_IDX vaddr) of
          (s2, None) \<Rightarrow> (s2, - 1)
        | (s2, Some pmd) \<Rightarrow> (case next_table s2 pmd (PMD_IDX vaddr) of
            (s3, None) \<Rightarrow> (s3, - 1)
          | (s3, Some pte) \<Rightarrow>
              (s3\<lparr>mem := (mem s3)(pte + 8 * PTE_IDX vaddr :=
                   (paddr AND PT_ADDR_MASK) OR ucast flags OR PT_VALID OR PT_AF)\<rparr>, 0))))"

text \<open>The read-only descent of \<open>vmm_unmap\<close> and \<open>vmm_get_phys\<close>: the table that entry \<open>idx\<close> of
  \<open>t\<close> points at, if the entry is valid.\<close>

definition child_table :: "(u64 \<Rightarrow> u64) \<Rightarrow> u64 \<Rightarrow> u64 \<Rightarrow> u64 option" where
  "child_table m t idx =
     (if entry m t idx AND PT_VALID = 0 then None else Some (entry m t idx AND PT_ADDR_MASK))"

definition pte_table :: "(u64 \<Rightarrow> u64) \<Rightarrow> u64 \<Rightarrow> u64 \<Rightarrow> u64 option" where
  "pte_table m pgd vaddr =
     (case child_table m pgd (PGD_IDX vaddr) of None \<Rightarrow> None
      | Some pud \<Rightarrow> (case child_table m pud (PUD_IDX vaddr) of None \<Rightarrow> None
        | Some pmd \<Rightarrow> child_table m pmd (PMD_IDX vaddr)))"

definition vmm_unmap :: "vm \<Rightarrow> u64 \<Rightarrow> u64 \<Rightarrow> vm" where
  "vmm_unmap s pgd vaddr =
     (if pgd = 0 then s
      else case pte_table (mem s) pgd vaddr of None \<Rightarrow> s
      | Some pte \<Rightarrow> s\<lparr>mem := (mem s)(pte + 8 * PTE_IDX vaddr := 0)\<rparr>)"

definition vmm_get_phys :: "vm \<Rightarrow> u64 \<Rightarrow> u64 \<Rightarrow> u64" where
  "vmm_get_phys s pgd vaddr =
     (if pgd = 0 then 0
      else case pte_table (mem s) pgd vaddr of None \<Rightarrow> 0
      | Some pte \<Rightarrow>
          let e = entry (mem s) pte (PTE_IDX vaddr) in
          if e AND PT_VALID = 0 then 0 else (e AND PT_ADDR_MASK) OR (vaddr AND 0xFFF))"

text \<open>\<open>vmm_alloc_pages\<close>: the roll-back loop, and the loop over the pages.\<close>

fun unmap_pages :: "vm \<Rightarrow> u64 \<Rightarrow> u64 \<Rightarrow> nat \<Rightarrow> vm" where
  "unmap_pages s pgd vaddr 0 = s"
| "unmap_pages s pgd vaddr (Suc n) = unmap_pages (vmm_unmap s pgd vaddr) pgd (vaddr + PAGE_SIZE) n"

fun map_pages :: "vm \<Rightarrow> u64 \<Rightarrow> u64 \<Rightarrow> nat \<Rightarrow> nat \<Rightarrow> u32 \<Rightarrow> vm \<times> u64" where
  "map_pages s pgd vaddr i 0 flags = (s, vaddr)"
| "map_pages s pgd vaddr i (Suc k) flags =
     (let (p', paddr) = pmm_alloc (pm s); s1 = s\<lparr>pm := p'\<rparr> in
      if paddr = 0 then (unmap_pages s1 pgd vaddr i, 0)
      else let (s2, r) = vmm_map s1 pgd (vaddr + of_nat i * PAGE_SIZE) paddr flags in
        if r \<noteq> 0 then (unmap_pages (s2\<lparr>pm := pmm_free (pm s2) paddr\<rparr>) pgd vaddr i, 0)
        else map_pages s2 pgd vaddr (Suc i) k flags)"

definition vmm_alloc_pages :: "vm \<Rightarrow> u64 \<Rightarrow> u64 \<Rightarrow> u64 \<Rightarrow> u32 \<Rightarrow> vm \<times> u64" where
  "vmm_alloc_pages s pgd vaddr npages flags = map_pages s pgd vaddr 0 (unat npages) flags"

section \<open>Bits of table entries\<close>

lemma PT_ADDR_MASK_bits: "PT_ADDR_MASK = push_bit 12 (mask 36)"
  by (simp add: PT_ADDR_MASK_def mask_eq_exp_minus_1)

lemma bit_ADDR_MASK [bit_ops]: "bit PT_ADDR_MASK i \<longleftrightarrow> 12 \<le> i \<and> i < 48"
  by (auto simp: PT_ADDR_MASK_bits bit_push_bit_iff bit_mask_iff)

text \<open>A page address a table entry can hold.\<close>

definition page_ok :: "u64 \<Rightarrow> bool" where
  "page_ok t \<longleftrightarrow> unat t mod 4096 = 0 \<and> unat t < 2 ^ 48"

lemma page_ok_bits:
  assumes "page_ok t"
  shows "bit t i \<Longrightarrow> 12 \<le> i \<and> i < 48"
proof -
  assume i: "bit t i"
  from assms have "take_bit 12 (unat t) = 0" by (simp add: page_ok_def take_bit_eq_mod)
  then have "\<not> bit (take_bit 12 (unat t)) i" by simp
  then have "\<not> bit (unat t) i" if "i < 12"
    using that by (simp add: bit_take_bit_iff)
  moreover from assms have "take_bit 48 (unat t) = unat t"
    by (simp add: page_ok_def take_bit_nat_eq_self)
  then have "\<not> bit (unat t) i" if "48 \<le> i"
    using that by (metis bit_take_bit_iff leD)
  moreover from i have "bit (unat t) i" by (simp add: bit_unsigned_iff bit_imp_le_length)
  ultimately show "12 \<le> i \<and> i < 48" by (meson not_less)
qed

lemma bit_PT_TABLE [bit_ops]: "bit PT_TABLE i \<longleftrightarrow> i = 1"
  using bit_power_two [of 1 i, where 'a = 64] by (simp add: PT_TABLE_def)

lemma bit_PT_VALID [bit_ops]: "bit PT_VALID i \<longleftrightarrow> i = 0"
  by (simp add: PT_VALID_def bit_1_iff)

lemma link_valid: "(t OR PT_TABLE OR PT_VALID) AND PT_VALID \<noteq> 0"
proof -
  have "bit ((t OR PT_TABLE OR PT_VALID) AND PT_VALID) 0"
    by (simp add: PT_VALID_def bit_and_iff bit_or_iff)
  then show ?thesis by auto
qed

lemma link_addr: "page_ok t \<Longrightarrow> (t OR PT_TABLE OR PT_VALID) AND PT_ADDR_MASK = t"
  by (rule bit_word_eqI) (auto simp: bit_and_iff bit_or_iff bit_ops dest: page_ok_bits)

lemma page_slot_unique:
  assumes "4096 * q + 8 * a = 4096 * q' + 8 * (b :: nat)" and "a < 512" and "b < 512"
  shows "q = q' \<and> a = b"
proof -
  have "q = q'"
  proof (rule ccontr)
    assume "q \<noteq> q'"
    then consider "Suc q \<le> q'" | "Suc q' \<le> q" by linarith
    then show False using assms by cases linarith+
  qed
  with assms(1) show ?thesis by simp
qed

lemma entry_addr_inj:
  assumes "page_ok t" "page_ok t'" "i < 512" "i' < 512" "t + 8 * i = t' + 8 * i'"
  shows "t = t' \<and> i = i'"
proof -
  have unat_entry: "unat (a + 8 * j) = unat a + 8 * unat j" if "page_ok a" "j < 512" for a j :: u64
  proof -
    from that(2) have "unat j < 512" by (simp add: word_less_nat_alt)
    with that(1) show ?thesis
      by (simp add: unat_word_ariths page_ok_def)
  qed
  from assms have "unat i < 512" "unat i' < 512" by (simp_all add: word_less_nat_alt)
  moreover from assms have "unat t + 8 * unat i = unat t' + 8 * unat i'" by (metis unat_entry)
  moreover from assms have "unat t mod 4096 = 0" "unat t' mod 4096 = 0" by (simp_all add: page_ok_def)
  then obtain q q' where "unat t = 4096 * q" "unat t' = 4096 * q'"
    by (auto simp: mod_eq_0_iff_dvd elim!: dvdE)
  ultimately have "unat t = unat t'" "unat i = unat i'"
    using page_slot_unique [of q "unat i" q' "unat i'"] by simp_all
  then show ?thesis by (simp add: word_unat_eq_iff)
qed

section \<open>The tables as a tree\<close>

text \<open>
  \<open>walk m g p\<close> is the table reached from the root \<open>g\<close> by the entry indices \<open>p\<close>, the last
  index first.  The tables of a process are those reached by at most three indices.
\<close>

fun walk :: "(u64 \<Rightarrow> u64) \<Rightarrow> u64 \<Rightarrow> u64 list \<Rightarrow> u64 option" where
  "walk m g [] = Some g"
| "walk m g (i # p) = (case walk m g p of None \<Rightarrow> None | Some t \<Rightarrow> child_table m t i)"

definition path_ok :: "u64 list \<Rightarrow> bool" where
  "path_ok p \<longleftrightarrow> length p \<le> 3 \<and> (\<forall>i \<in> set p. i < 512)"

lemma path_ok_Nil [simp]: "path_ok []"
  by (simp add: path_ok_def)

lemma path_ok_Cons [simp]: "path_ok (i # p) \<longleftrightarrow> i < 512 \<and> path_ok p \<and> length p \<le> 2"
  by (auto simp: path_ok_def)

text \<open>The tables form a tree (no table is reached by two paths), every table is a page an entry can
  hold, and none of them is in the pool of free pages.\<close>

definition tree_ok :: "(u64 \<Rightarrow> u64) \<Rightarrow> u64 \<Rightarrow> u64 set \<Rightarrow> bool" where
  "tree_ok m g pool \<longleftrightarrow>
     (\<forall>p t. path_ok p \<and> walk m g p = Some t \<longrightarrow> page_ok t \<and> t \<notin> pool)
     \<and> (\<forall>p q t. path_ok p \<and> path_ok q \<and> walk m g p = Some t \<and> walk m g q = Some t \<longrightarrow> p = q)"

lemma tree_okD:
  assumes "tree_ok m g pool" and "path_ok p" and "walk m g p = Some t"
  shows "page_ok t" "t \<notin> pool"
  using assms by (auto simp: tree_ok_def)

lemma tree_ok_unique:
  "tree_ok m g pool \<Longrightarrow> path_ok p \<Longrightarrow> path_ok q \<Longrightarrow> walk m g p = Some t \<Longrightarrow> walk m g q = Some t \<Longrightarrow> p = q"
  by (auto simp: tree_ok_def)

text \<open>A walk depends only on the entries of the tables it passes.\<close>

lemma walk_cong:
  assumes "path_ok p"
    and "\<And>q i t. path_ok (i # q) \<Longrightarrow> walk m g q = Some t \<Longrightarrow> entry m' t i = entry m t i"
  shows "walk m' g p = walk m g p"
  using assms(1)
proof (induction p)
  case Nil
  then show ?case by simp
next
  case (Cons i p)
  then have "walk m' g p = walk m g p" by simp
  with assms(2) [of i p] Cons.prems show ?case
    by (auto simp: child_table_def split: option.splits)
qed

text \<open>Writing an entry of a level-3 table changes no table.\<close>

lemma walk_leaf_write:
  assumes "tree_ok m g pool" and "path_ok p" and "length p = 3" and "walk m g p = Some t"
    and "i < 512" and "path_ok q"
  shows "walk (m(t + 8 * i := v)) g q = walk m g q"
proof (rule walk_cong [OF assms(6)])
  fix r j u assume r: "path_ok (j # r)" "walk m g r = Some u"
  then have "r \<noteq> p" using assms(3) by auto
  with r assms have "u \<noteq> t" using tree_ok_unique [of m g pool r p t] by auto
  moreover have "page_ok u" "page_ok t" using tree_okD(1) [OF assms(1)] r assms by auto
  ultimately have "u + 8 * j \<noteq> t + 8 * i" using entry_addr_inj r assms(5) by auto
  then show "entry (m(t + 8 * i := v)) u j = entry m u j" by (simp add: entry_def)
qed

section \<open>Growing the tree by one table\<close>

text \<open>\<open>vm_res X s g\<close>: the address space at \<open>g\<close> is a tree of pages outside the pool and outside the
  set \<open>X\<close> of pages reserved for other uses; \<open>vm_ok\<close> is the case without reserved pages.\<close>

definition vm_res :: "u64 set \<Rightarrow> vm \<Rightarrow> u64 \<Rightarrow> bool" where
  "vm_res X s g \<longleftrightarrow> pmm_inv (pm s) \<and> (\<forall>p \<in> avail (pm s). page_ok p)
     \<and> tree_ok (mem s) g (avail (pm s) \<union> X) \<and> avail (pm s) \<inter> X = {}"

abbreviation vm_ok :: "vm \<Rightarrow> u64 \<Rightarrow> bool" where
  "vm_ok s g \<equiv> vm_res {} s g"

lemma unat_entry_addr:
  assumes "page_ok t" and "i < 512"
  shows "unat (t + 8 * i) = unat t + 8 * unat i"
proof -
  from assms(2) have "unat i < 512" by (simp add: word_less_nat_alt)
  with assms(1) show ?thesis by (simp add: unat_word_ariths page_ok_def)
qed

lemma zero_page_self:
  assumes "i < 512"
  shows "entry (zero_page m n) n i = 0"
proof -
  from assms have "unat i < 512" by (simp add: word_less_nat_alt)
  then have "8 * i < PAGE_SIZE" by (simp add: word_less_nat_alt PAGE_SIZE_def unat_word_ariths)
  then show ?thesis by (simp add: entry_def zero_page_def)
qed

lemma zero_page_other:
  assumes "page_ok t" "page_ok n" "t \<noteq> n" "i < 512"
  shows "entry (zero_page m n) t i = entry m t i"
proof -
  have "\<not> t + 8 * i - n < PAGE_SIZE"
  proof
    assume *: "t + 8 * i - n < PAGE_SIZE"
    from assms(4) have i: "unat i < 512" by (simp add: word_less_nat_alt)
    obtain q r where q: "unat t = 4096 * q" "unat n = 4096 * r"
      using assms(1,2) by (auto simp: page_ok_def mod_eq_0_iff_dvd elim!: dvdE)
    with assms(3) have "q \<noteq> r" by (auto simp: word_unat_eq_iff)
    then consider "Suc q \<le> r" | "Suc r \<le> q" by linarith
    then show False
    proof cases
      case 1
      then have "\<not> n \<le> t + 8 * i"
        using i q unat_entry_addr [OF assms(1,4)] by (simp add: word_le_nat_alt)
      then have "unat (t + 8 * i - n) = 2 ^ 64 + unat (t + 8 * i) - unat n"
        by (simp add: unat_sub_if_size word_size word_le_nat_alt)
      moreover from assms(2) have "unat n < 2 ^ 48" by (simp add: page_ok_def)
      moreover from * have "unat (t + 8 * i - n) < 4096" by (simp add: word_less_nat_alt)
      ultimately show False by simp
    next
      case 2
      then have "unat n \<le> unat (t + 8 * i)" using q unat_entry_addr [OF assms(1,4)] by simp
      then have "unat (t + 8 * i - n) = unat (t + 8 * i) - unat n" by (rule unat_sub_small)
      with 2 * q unat_entry_addr [OF assms(1,4)] show False
        by (simp add: word_less_nat_alt)
    qed
  qed
  then show ?thesis by (simp add: entry_def zero_page_def)
qed

text \<open>The memory after linking the fresh page \<open>n\<close> at entry \<open>i\<close> of the table \<open>t\<close>.\<close>

definition link_table :: "(u64 \<Rightarrow> u64) \<Rightarrow> u64 \<Rightarrow> u64 \<Rightarrow> u64 \<Rightarrow> u64 \<Rightarrow> u64" where
  "link_table m t i n = (zero_page m n)(t + 8 * i := n OR PT_TABLE OR PT_VALID)"

text \<open>The situation in which it is done: \<open>t\<close> is the table at the path \<open>p\<close>, its entry \<open>i\<close> is not
  valid, and \<open>n\<close> is a free page.\<close>

definition linkable :: "(u64 \<Rightarrow> u64) \<Rightarrow> u64 \<Rightarrow> u64 set \<Rightarrow> u64 list \<Rightarrow> u64 \<Rightarrow> u64 \<Rightarrow> u64 \<Rightarrow> bool" where
  "linkable m g pool p t i n \<longleftrightarrow> tree_ok m g pool \<and> path_ok (i # p) \<and> walk m g p = Some t
     \<and> walk m g (i # p) = None \<and> n \<in> pool \<and> page_ok n"

lemma linkableD:
  assumes "linkable m g pool p t i n"
  shows "tree_ok m g pool" "path_ok p" "i < 512" "walk m g p = Some t" "walk m g (i # p) = None"
    "n \<in> pool" "page_ok n" "page_ok t" "path_ok (i # p)"
  using assms tree_okD(1) by (auto simp: linkable_def simp del: walk.simps)

lemma link_not_fresh:
  "linkable m g pool p t i n \<Longrightarrow> path_ok q \<Longrightarrow> walk m g q = Some u \<Longrightarrow> u \<noteq> n"
  using tree_okD(2) linkableD(1,6) by blast

lemma link_entry_old:
  assumes lk: "linkable m g pool p t i n"
    and "path_ok q" and "walk m g q = Some u" and "j < 512"
  shows "entry (link_table m t i n) u j =
    (if q = p \<and> j = i then n OR PT_TABLE OR PT_VALID else entry m u j)"
proof -
  note L = linkableD [OF lk]
  have u: "page_ok u" using tree_okD(1) [OF L(1) assms(2,3)] .
  have "u + 8 * j = t + 8 * i \<longleftrightarrow> q = p \<and> j = i"
    using entry_addr_inj [OF u L(8) assms(4) L(3)] tree_ok_unique [OF L(1) assms(2) L(2) assms(3)]
      assms(3) L(4) by auto
  moreover have "entry (zero_page m n) u j = entry m u j"
    using zero_page_other [OF u L(7) link_not_fresh [OF lk assms(2,3)] assms(4)] .
  ultimately show ?thesis by (auto simp: link_table_def entry_def)
qed

lemma link_entry_new:
  assumes lk: "linkable m g pool p t i n" and "j < 512"
  shows "entry (link_table m t i n) n j = 0"
proof -
  note L = linkableD [OF lk]
  have "n \<noteq> t" using link_not_fresh [OF lk L(2,4)] by simp
  then have "n + 8 * j \<noteq> t + 8 * i"
    using entry_addr_inj [OF L(7,8) assms(2) L(3)] by auto
  then show ?thesis using zero_page_self [OF assms(2)] by (simp add: link_table_def entry_def)
qed

lemma link_walk:
  assumes lk: "linkable m g pool p t i n" and "path_ok q"
  shows "walk (link_table m t i n) g q = (if q = i # p then Some n else walk m g q)"
  using assms(2)
proof (induction q)
  case Nil
  then show ?case by simp
next
  case (Cons j q)
  note L = linkableD [OF lk]
  from Cons have q: "path_ok q" "j < 512" by auto
  consider "q = i # p" | "q \<noteq> i # p" "walk m g q = None" | u where "q \<noteq> i # p" "walk m g q = Some u"
    by (cases "walk m g q") auto
  then show ?case
  proof cases
    case 1
    then have "walk (link_table m t i n) g q = Some n" using Cons.IH q by simp
    moreover have "walk m g (j # q) = None" using L(5) 1 by simp
    moreover have "j # q \<noteq> i # p" using 1 by auto
    ultimately show ?thesis
      using link_entry_new [OF lk q(2)] by (simp add: child_table_def)
  next
    case 2
    moreover from this L(4) have "j # q \<noteq> i # p" by auto
    ultimately show ?thesis using Cons.IH q by simp
  next
    case (3 u)
    then have w: "walk (link_table m t i n) g q = Some u" using Cons.IH q by simp
    show ?thesis
    proof (cases "q = p \<and> j = i")
      case True
      with w show ?thesis
        using link_entry_old [OF lk q(1) 3(2) q(2)] by (simp add: child_table_def link_valid link_addr L(7))
    next
      case False
      with w 3 show ?thesis
        using link_entry_old [OF lk q(1) 3(2) q(2)] by (auto simp: child_table_def)
    qed
  qed
qed

lemma link_tree_ok:
  assumes lk: "linkable m g pool p t i n"
  shows "tree_ok (link_table m t i n) g (pool - {n})"
proof -
  note L = linkableD [OF lk]
  have old_or_new: "(q = i # p \<and> u = n) \<or> (q \<noteq> i # p \<and> walk m g q = Some u)"
    if "path_ok q" "walk (link_table m t i n) g q = Some u" for q u
    using that link_walk [OF lk that(1)] by (auto split: if_splits)
  show ?thesis
    unfolding tree_ok_def
  proof (intro conjI allI impI; elim conjE)
    fix q u assume q: "path_ok q" "walk (link_table m t i n) g q = Some u"
    from old_or_new [OF this] show "page_ok u" using L(7) tree_okD(1) [OF L(1) q(1)] by auto
    from old_or_new [OF q] show "u \<notin> pool - {n}" using tree_okD(2) [OF L(1) q(1)] by auto
  next
    fix q r u assume q: "path_ok q" "walk (link_table m t i n) g q = Some u"
      and r: "path_ok r" "walk (link_table m t i n) g r = Some u"
    from old_or_new [OF q] old_or_new [OF r] show "q = r"
      using link_not_fresh [OF lk] tree_ok_unique [OF L(1) q(1) r(1)] q(1) r(1) by blast
  qed
qed

section \<open>Extensions of the tree and translations\<close>

lemma pte_table_walk:
  "pte_table m g va = walk m g [PMD_IDX va, PUD_IDX va, PGD_IDX va]"
  by (simp add: pte_table_def split: option.splits)

lemma idx_bound:
  "PGD_IDX va < 512" "PUD_IDX va < 512" "PMD_IDX va < 512" "PTE_IDX va < 512"
proof -
  have "x AND 0x1FF < (512 :: u64)" for x
    by (rule le_less_trans [OF word_and_le1]) simp
  then show "PGD_IDX va < 512" "PUD_IDX va < 512" "PMD_IDX va < 512" "PTE_IDX va < 512"
    by (simp_all add: PGD_IDX_def PUD_IDX_def PMD_IDX_def PTE_IDX_def)
qed

abbreviation va_path :: "u64 \<Rightarrow> u64 list" where
  "va_path va \<equiv> [PMD_IDX va, PUD_IDX va, PGD_IDX va]"

lemma va_path_ok [simp]: "path_ok (va_path va)"
  by (simp add: idx_bound)

text \<open>What a descent that creates tables may do: keep every table and every leaf entry, and add
  tables whose leaf entries are all clear.\<close>

definition extends :: "(u64 \<Rightarrow> u64) \<Rightarrow> (u64 \<Rightarrow> u64) \<Rightarrow> u64 \<Rightarrow> bool" where
  "extends m m' g \<longleftrightarrow>
     (\<forall>q u. path_ok q \<and> walk m g q = Some u \<longrightarrow>
        walk m' g q = Some u \<and> (length q = 3 \<longrightarrow> (\<forall>j < 512. entry m' u j = entry m u j)))
     \<and> (\<forall>q u. path_ok q \<and> length q = 3 \<and> walk m g q = None \<and> walk m' g q = Some u \<longrightarrow>
        (\<forall>j < 512. entry m' u j = 0))"

lemma extendsD:
  assumes "extends m m' g" and "path_ok q"
  shows "walk m g q = Some u \<Longrightarrow> walk m' g q = Some u"
    and "walk m g q = Some u \<Longrightarrow> length q = 3 \<Longrightarrow> j < 512 \<Longrightarrow> entry m' u j = entry m u j"
    and "walk m g q = None \<Longrightarrow> walk m' g q = Some u \<Longrightarrow> length q = 3 \<Longrightarrow> j < 512 \<Longrightarrow> entry m' u j = 0"
  using assms unfolding extends_def by blast+

lemma extends_refl: "extends m m g"
  by (auto simp: extends_def)

lemma extends_trans:
  assumes "extends m1 m2 g" and "extends m2 m3 g"
  shows "extends m1 m3 g"
  unfolding extends_def
proof (intro conjI allI impI; (elim conjE)?)
  fix q u assume q: "path_ok q" "walk m1 g q = Some u"
  then show "walk m3 g q = Some u" using assms by (blast intro: extendsD)
  fix j :: u64 assume "length q = 3" "j < 512"
  with q show "entry m3 u j = entry m1 u j"
    using extendsD(1,2) [OF assms(1) q(1)] extendsD(2) [OF assms(2) q(1)] by simp
next
  fix q u and j :: u64
  assume q: "path_ok q" "length q = 3" "walk m1 g q = None" "walk m3 g q = Some u" "j < 512"
  show "entry m3 u j = 0"
  proof (cases "walk m2 g q")
    case None
    with q show ?thesis by (blast intro: extendsD(3) [OF assms(2)])
  next
    case (Some v)
    then have "v = u" using extendsD(1) [OF assms(2) q(1) Some] q(4) by simp
    with Some q show ?thesis
      using extendsD(3) [OF assms(1) q(1) q(3)] extendsD(2) [OF assms(2) q(1)] by simp
  qed
qed

lemma extends_get_phys:
  assumes "extends (mem s) (mem s') g"
  shows "vmm_get_phys s' g va = vmm_get_phys s g va"
proof (cases "walk (mem s) g (va_path va)")
  case (Some u)
  note E = extendsD [OF assms va_path_ok]
  from E(1,2) [OF Some] Some show ?thesis
    using idx_bound(4) by (simp add: vmm_get_phys_def pte_table_walk)
next
  case None
  note E = extendsD(3) [OF assms va_path_ok None]
  show ?thesis
  proof (cases "walk (mem s') g (va_path va)")
    case None': None
    with None show ?thesis by (simp add: vmm_get_phys_def pte_table_walk)
  next
    case (Some u)
    from E [OF this, of "PTE_IDX va"] have "entry (mem s') u (PTE_IDX va) = 0"
      using idx_bound(4) by simp
    with None Some show ?thesis by (simp add: vmm_get_phys_def pte_table_walk)
  qed
qed

lemma link_extends:
  assumes lk: "linkable m g pool p t i n"
  shows "extends m (link_table m t i n) g"
  unfolding extends_def
proof (intro conjI allI impI; (elim conjE)?)
  note L = linkableD [OF lk]
  fix q u assume q: "path_ok q" "walk m g q = Some u"
  then have "q \<noteq> i # p" using L(5) by auto
  with q show "walk (link_table m t i n) g q = Some u" using link_walk [OF lk q(1)] by simp
  fix j :: u64 assume "length q = 3" "j < 512"
  moreover from this L(9) have "q \<noteq> p" by auto
  ultimately show "entry (link_table m t i n) u j = entry m u j"
    using link_entry_old [OF lk q] by simp
next
  fix q u and j :: u64
  assume "path_ok q" "length q = 3" "walk m g q = None" "walk (link_table m t i n) g q = Some u" "j < 512"
  then show "entry (link_table m t i n) u j = 0"
    using link_walk [OF lk] link_entry_new [OF lk] by (auto split: if_splits)
qed

text \<open>One step of the descent.\<close>

lemma next_table_spec:
  assumes ok: "vm_res X s g" and path: "path_ok (i # p)" and parent: "walk (mem s) g p = Some t"
    and step: "next_table s t i = (s', r)"
  shows "vm_res X s' g \<and> extends (mem s) (mem s') g \<and> avail (pm s') \<subseteq> avail (pm s)
    \<and> (case r of None \<Rightarrow> s' = s \<and> avail (pm s) = {} | Some u \<Rightarrow> walk (mem s') g (i # p) = Some u)"
proof (cases "walk (mem s) g (i # p)")
  case (Some u)
  with parent step have "s' = s" "r = Some u"
    by (auto simp: next_table_def child_table_def split: if_splits)
  with ok Some show ?thesis by (simp add: extends_refl)
next
  case None
  with parent have empty: "entry (mem s) t i AND PT_VALID = 0"
    by (auto simp: child_table_def split: if_splits)
  from ok have inv: "pmm_inv (pm s)" by (simp add: vm_res_def)
  obtain p' n where alloc: "pmm_alloc (pm s) = (p', n)" by (cases "pmm_alloc (pm s)")
  note laws = pages.alloc_inv [OF inv] pages.alloc_pool [OF inv] pages.alloc_from_pool [OF inv]
    pages.alloc_null [OF inv]
  show ?thesis
  proof (cases "n = 0")
    case True
    with laws alloc have none: "avail (pm s) = {}" by simp
    then have "free_idx (pm s) = {}" by (auto simp: avail_def)
    with alloc inv have "p' = pm s" by (simp add: pmm_alloc_empty)
    with True alloc empty step have "s' = s" "r = None" by (auto simp: next_table_def)
    with ok none show ?thesis by (simp add: extends_refl)
  next
    case False
    with laws alloc have fresh: "n \<in> avail (pm s)" "avail p' = avail (pm s) - {n}" "pmm_inv p'" by auto
    with ok None path parent have lk: "linkable (mem s) g (avail (pm s) \<union> X) p t i n"
      by (simp add: linkable_def vm_res_def)
    note L = linkableD [OF lk]
    let ?m = "link_table (mem s) t i n"
    have "entry ?m t i = n OR PT_TABLE OR PT_VALID"
      using link_entry_old [OF lk L(2,4,3)] by simp
    with alloc False empty step have s': "s' = s\<lparr>pm := p', mem := ?m\<rparr>" "r = Some n"
      by (auto simp: next_table_def Let_def link_table_def link_addr L(7))
    have "vm_res X s' g"
    proof -
      have "avail (pm s) \<union> X - {n} = avail p' \<union> X" using ok fresh by (auto simp: vm_res_def)
      with ok fresh link_tree_ok [OF lk] show ?thesis by (auto simp: vm_res_def s')
    qed
    moreover have "walk ?m g (i # p) = Some n" using link_walk [OF lk path] by simp
    ultimately show ?thesis
      using link_extends [OF lk] fresh by (auto simp: s')
  qed
qed

section \<open>Translations after a leaf write\<close>

text \<open>Two virtual addresses are on the same page when they agree on bits 12 to 47, the ones the
  four indices are made of.\<close>

definition same_page :: "u64 \<Rightarrow> u64 \<Rightarrow> bool" where
  "same_page va va' \<longleftrightarrow> drop_bit 12 va AND mask 36 = drop_bit 12 va' AND mask 36"

lemma bit_idx_mask: "bit (0x1FF :: u64) i \<longleftrightarrow> i < 9"
proof -
  have "(0x1FF :: u64) = mask 9" by (simp add: mask_eq_exp_minus_1)
  then have "bit (0x1FF :: u64) i \<longleftrightarrow> bit (mask 9 :: u64) i" by (simp only:)
  then show ?thesis by (auto simp only: bit_mask_iff possible_bit_def) simp
qed

lemma bit_va_field: "bit (drop_bit k va AND 0x1FF :: u64) i \<longleftrightarrow> bit va (k + i) \<and> i < 9"
  unfolding bit_and_iff bit_idx_mask by (simp add: bit_drop_bit_eq)

lemma va_fields_eq:
  assumes "drop_bit k va AND 0x1FF = drop_bit k va' AND (0x1FF :: u64)" and "k \<le> b" and "b < k + 9"
  shows "bit va b \<longleftrightarrow> bit va' b"
proof -
  from assms have "bit va (k + (b - k)) \<and> b - k < 9 \<longleftrightarrow> bit va' (k + (b - k)) \<and> b - k < 9"
    by (metis bit_va_field)
  moreover from assms have "b - k < 9" by linarith
  ultimately show ?thesis using assms(2) by simp
qed

lemma same_page_iff:
  "same_page va va' \<longleftrightarrow> va_path va = va_path va' \<and> PTE_IDX va = PTE_IDX va'"
proof
  assume *: "same_page va va'"
  have bits: "bit va b \<longleftrightarrow> bit va' b" if "12 \<le> b" "b < 48" for b
  proof -
    have "bit (drop_bit 12 va AND mask 36) (b - 12) \<longleftrightarrow> bit (drop_bit 12 va' AND mask 36) (b - 12)"
      using * by (simp add: same_page_def)
    moreover from that have "b - 12 < 36" "b - 12 < 64" by linarith+
    ultimately show ?thesis using that by (simp add: bit_and_iff bit_drop_bit_eq bit_mask_iff)
  qed
  show "va_path va = va_path va' \<and> PTE_IDX va = PTE_IDX va'"
    by (auto simp: PGD_IDX_def PUD_IDX_def PMD_IDX_def PTE_IDX_def bits intro!: bit_word_eqI
        simp del: bit_and_iff simp: bit_va_field)
next
  assume *: "va_path va = va_path va' \<and> PTE_IDX va = PTE_IDX va'"
  have "bit va b \<longleftrightarrow> bit va' b" if "12 \<le> b" "b < 48" for b
  proof -
    consider "b < 21" | "21 \<le> b" "b < 30" | "30 \<le> b" "b < 39" | "39 \<le> b" by linarith
    then show ?thesis
      using * that va_fields_eq [of 12 va va' b] va_fields_eq [of 21 va va' b]
        va_fields_eq [of 30 va va' b] va_fields_eq [of 39 va va' b]
      by cases (simp_all add: PGD_IDX_def PUD_IDX_def PMD_IDX_def PTE_IDX_def)
  qed
  then show "same_page va va'"
    by (auto simp: same_page_def bit_and_iff bit_drop_bit_eq bit_mask_iff intro!: bit_word_eqI)
qed

text \<open>The translation a leaf entry \<open>v\<close> gives.\<close>

definition leaf_phys :: "u64 \<Rightarrow> u64 \<Rightarrow> u64" where
  "leaf_phys v va = (if v AND PT_VALID = 0 then 0 else (v AND PT_ADDR_MASK) OR (va AND 0xFFF))"

lemma leaf_write:
  fixes v :: u64
  assumes ok: "vm_res X s g" and t: "walk (mem s) g (va_path va) = Some t" and g: "g \<noteq> 0"
  defines "s' \<equiv> s\<lparr>mem := (mem s)(t + 8 * PTE_IDX va := v)\<rparr>"
  shows "vm_res X s' g" and "vmm_get_phys s' g va' = (if same_page va va' then leaf_phys v va' else vmm_get_phys s g va')"
proof -
  from ok have tree: "tree_ok (mem s) g (avail (pm s) \<union> X)" by (simp add: vm_res_def)
  have w: "walk (mem s') g q = walk (mem s) g q" if "path_ok q" for q
    using walk_leaf_write [OF tree va_path_ok _ t idx_bound(4) that] by (simp add: s'_def)
  then have "tree_ok (mem s') g (avail (pm s) \<union> X)"
    using tree unfolding tree_ok_def by metis
  with ok show "vm_res X s' g" by (simp add: vm_res_def s'_def)
  show "vmm_get_phys s' g va' = (if same_page va va' then leaf_phys v va' else vmm_get_phys s g va')"
  proof (cases "walk (mem s) g (va_path va')")
    case None
    moreover from this t have "\<not> same_page va va'" by (metis option.distinct(1) same_page_iff)
    ultimately show ?thesis using w [OF va_path_ok] by (simp add: vmm_get_phys_def pte_table_walk)
  next
    case (Some u)
    have pages: "page_ok t" "page_ok u"
      using tree_okD(1) [OF tree va_path_ok] t Some by blast+
    have "u + 8 * PTE_IDX va' = t + 8 * PTE_IDX va \<longleftrightarrow> same_page va va'"
    proof
      assume "u + 8 * PTE_IDX va' = t + 8 * PTE_IDX va"
      then have "u = t" "PTE_IDX va' = PTE_IDX va"
        using entry_addr_inj pages idx_bound(4) by blast+
      moreover from this have "va_path va' = va_path va"
        using tree_ok_unique [OF tree va_path_ok va_path_ok] t Some by blast
      ultimately show "same_page va va'" by (simp add: same_page_iff)
    next
      assume "same_page va va'"
      then show "u + 8 * PTE_IDX va' = t + 8 * PTE_IDX va"
        using t Some by (metis option.inject same_page_iff)
    qed
    then have "entry (mem s') u (PTE_IDX va') =
        (if same_page va va' then v else entry (mem s) u (PTE_IDX va'))"
      by (simp add: entry_def s'_def)
    with w [OF va_path_ok] Some g show ?thesis
      by (simp add: vmm_get_phys_def pte_table_walk leaf_phys_def Let_def)
  qed
qed

section \<open>Mapping, unmapping and looking up\<close>

lemma vmm_map_cases:
  assumes ok: "vm_res X s g" and g: "g \<noteq> 0"
  shows "(\<exists>s'. vmm_map s g va pa fl = (s', - 1) \<and> vm_res X s' g \<and> extends (mem s) (mem s') g
            \<and> avail (pm s') \<subseteq> avail (pm s) \<and> avail (pm s') = {})
    \<or> (\<exists>s' t. vmm_map s g va pa fl = (s'\<lparr>mem := (mem s')(t + 8 * PTE_IDX va :=
                (pa AND PT_ADDR_MASK) OR ucast fl OR PT_VALID OR PT_AF)\<rparr>, 0)
            \<and> vm_res X s' g \<and> extends (mem s) (mem s') g \<and> avail (pm s') \<subseteq> avail (pm s)
            \<and> walk (mem s') g (va_path va) = Some t)"
proof -
  have p1: "path_ok [PGD_IDX va]" and p2: "path_ok [PUD_IDX va, PGD_IDX va]"
    by (simp_all add: idx_bound)
  obtain s1 r1 where n1: "next_table s g (PGD_IDX va) = (s1, r1)" by (cases "next_table s g (PGD_IDX va)")
  note S1 = next_table_spec [OF ok p1 walk.simps(1) n1]
  show ?thesis
  proof (cases r1)
    case None
    with S1 n1 g show ?thesis by (auto simp: vmm_map_def)
  next
    case (Some pud)
    with S1 have ok1: "vm_res X s1 g" and w1: "walk (mem s1) g [PGD_IDX va] = Some pud" by simp_all
    obtain s2 r2 where n2: "next_table s1 pud (PUD_IDX va) = (s2, r2)"
      by (cases "next_table s1 pud (PUD_IDX va)")
    note S2 = next_table_spec [OF ok1 p2 w1 n2]
    show ?thesis
    proof (cases r2)
      case None
      with S1 S2 n1 n2 Some g extends_trans show ?thesis by (auto simp: vmm_map_def)
    next
      case (Some pmd)
      with S2 have ok2: "vm_res X s2 g" and w2: "walk (mem s2) g [PUD_IDX va, PGD_IDX va] = Some pmd"
        by simp_all
      obtain s3 r3 where n3: "next_table s2 pmd (PMD_IDX va) = (s3, r3)"
        by (cases "next_table s2 pmd (PMD_IDX va)")
      note S3 = next_table_spec [OF ok2 va_path_ok w2 n3]
      from S1 S2 S3 have ext: "extends (mem s) (mem s3) g" "avail (pm s3) \<subseteq> avail (pm s)"
        by (blast intro: extends_trans)+
      from S3 ext n1 n2 n3 \<open>r1 = Some pud\<close> \<open>r2 = Some pmd\<close> g show ?thesis
        by (cases r3) (auto simp: vmm_map_def simp del: walk.simps)
    qed
  qed
qed

lemma leaf_phys_map:
  assumes "ucast fl AND PT_ADDR_MASK = 0"
  shows "leaf_phys ((pa AND PT_ADDR_MASK) OR ucast fl OR PT_VALID OR PT_AF) va
    = (pa AND PT_ADDR_MASK) OR (va AND 0xFFF)"
proof -
  let ?v = "(pa AND PT_ADDR_MASK) OR ucast fl OR PT_VALID OR PT_AF"
  have fl: "\<not> (bit (ucast fl :: u64) i \<and> bit PT_ADDR_MASK i)" for i
  proof -
    have "\<not> bit (ucast fl AND PT_ADDR_MASK) i" using assms by simp
    then show ?thesis unfolding bit_and_iff .
  qed
  have af: "bit PT_AF i \<longleftrightarrow> i = 10" for i
    using bit_power_two [of 10 i, where 'a = 64] by (simp add: PT_AF_def)
  have "bit (?v AND PT_VALID) 0" by (simp add: bit_and_iff bit_or_iff bit_PT_VALID)
  then have "?v AND PT_VALID \<noteq> 0" by auto
  moreover have "?v AND PT_ADDR_MASK = pa AND PT_ADDR_MASK"
    using fl by (intro bit_word_eqI) (auto simp: bit_and_iff bit_or_iff bit_ops af)
  ultimately show ?thesis by (simp add: leaf_phys_def)
qed

text \<open>A new address space: a page taken from the pool and cleared.\<close>

lemma empty_tree:
  assumes "page_ok g" and "g \<notin> pool"
  shows "tree_ok (zero_page m g) g pool" and "walk (zero_page m g) g (i # p) = Some t \<Longrightarrow> path_ok (i # p) \<Longrightarrow> False"
proof -
  have none: "walk (zero_page m g) g p = (if p = [] then Some g else None)" if "path_ok p" for p
    using that
  proof (induction p)
    case Nil
    then show ?case by simp
  next
    case (Cons i p)
    then show ?case by (auto simp: child_table_def zero_page_self)
  qed
  show "tree_ok (zero_page m g) g pool"
    unfolding tree_ok_def
  proof (intro conjI allI impI; elim conjE)
    fix p t assume "path_ok p" "walk (zero_page m g) g p = Some t"
    with none [of p] show "page_ok t" "t \<notin> pool" using assms by (auto split: if_splits)
  next
    fix p q t assume "path_ok p" "path_ok q" "walk (zero_page m g) g p = Some t" "walk (zero_page m g) g q = Some t"
    with none [of p] none [of q] show "p = q" by (auto split: if_splits)
  qed
  assume "walk (zero_page m g) g (i # p) = Some t" "path_ok (i # p)"
  with none [of "i # p"] show False by simp
qed

lemma avail_page_ok:
  assumes "region_ok s" and "unat (phys_base s) + unat (total_pages s) * 4096 \<le> 2 ^ 48"
    and "p \<in> avail s"
  shows "page_ok p"
proof -
  obtain i where i: "p = page_addr s i" "i < unat (total_pages s)"
    using region_page_facts [OF assms(1,3)] by blast
  with assms(2) have "unat (page_addr s i) < 2 ^ 48"
    by (simp add: unat_page_addr [OF assms(1)])
  with i avail_aligned [OF assms(1,3)] show ?thesis by (simp add: page_ok_def)
qed

text \<open>The part of \<open>process_create\<close> that sets up a user address space.\<close>

definition new_pgd :: "vm \<Rightarrow> vm \<times> u64" where
  "new_pgd s = (let (p', g) = pmm_alloc (pm s); s1 = s\<lparr>pm := p'\<rparr> in
     if g = 0 then (s1, 0) else (vmm_init s1 g, g))"

text \<open>
  A page directory made from a free page of the pool and cleared by \<open>vmm_init\<close> is a valid
  address space in which nothing is mapped; the page has left the pool.
\<close>

theorem new_pgd_empty:
  assumes "pmm_inv (pm s)" and "unat (phys_base (pm s)) + unat (total_pages (pm s)) * 4096 \<le> 2 ^ 48"
    and "avail (pm s) \<noteq> {}"
  shows "\<exists>s' g. new_pgd s = (s', g) \<and> g \<in> avail (pm s) \<and> avail (pm s') = avail (pm s) - {g}
    \<and> vm_ok s' g \<and> g \<noteq> 0 \<and> (\<forall>va. vmm_get_phys s' g va = 0)"
proof -
  obtain p' g where alloc: "pmm_alloc (pm s) = (p', g)" by (cases "pmm_alloc (pm s)")
  have reg: "region_ok (pm s)" using assms(1) by (simp add: pmm_inv_def)
  from alloc assms pages.alloc_null [OF assms(1)] pages.alloc_inv [OF assms(1)]
    pages.alloc_pool [OF assms(1)] pages.alloc_from_pool [OF assms(1)]
  have p': "g \<noteq> 0" "pmm_inv p'" "avail p' = avail (pm s) - {g}" "g \<in> avail (pm s)" by auto
  have pages: "\<forall>p \<in> avail (pm s). page_ok p" using avail_page_ok [OF reg assms(2)] by blast
  let ?s = "s\<lparr>pm := p', mem := zero_page (mem s) g\<rparr>"
  note T = empty_tree [of g "avail p'" "mem s"]
  have "vm_ok ?s g" using p' pages T by (simp add: vm_res_def)
  moreover have "vmm_get_phys ?s g va = 0" for va
    using T(2) [of "PMD_IDX va" "[PUD_IDX va, PGD_IDX va]"] va_path_ok [of va] p' pages
    by (cases "walk (zero_page (mem s) g) g (va_path va)")
      (auto simp: vmm_get_phys_def pte_table_walk simp del: walk.simps path_ok_Cons)
  moreover have "new_pgd s = (?s, g)" using alloc p' by (simp add: new_pgd_def vmm_init_def)
  ultimately show ?thesis using p' by auto
qed

definition small_vm :: vm where
  "small_vm = \<lparr>pm = small_pmm, mem = (\<lambda>_. 7)\<rparr>"

lemma small_vm_facts:
  "pmm_inv (pm small_vm)" "unat (phys_base (pm small_vm)) + unat (total_pages (pm small_vm)) * 4096 \<le> 2 ^ 48"
  "avail (pm small_vm) \<noteq> {}"
  using small_pmm_inv small_pmm_zero_free
  by (auto simp: small_vm_def avail_def) (simp add: small_pmm_def pmm_fresh_def PAGE_SIZE_def)

theorem new_pgd_empty_witness: "\<exists>s' g. new_pgd small_vm = (s', g) \<and> vm_ok s' g \<and> g \<noteq> 0"
  using new_pgd_empty [OF small_vm_facts] by blast

lemma small_space: "\<exists>s g. vm_ok s g \<and> g \<noteq> 0"
proof -
  let ?s = "small_vm\<lparr>pm := take_page small_pmm 0, mem := zero_page (mem small_vm) (page_addr small_pmm 0)\<rparr>"
  have reg: "region_ok small_pmm" using small_pmm_inv by (simp add: pmm_inv_def)
  have pages: "\<forall>p \<in> avail small_pmm. page_ok p"
    using avail_page_ok [OF reg] small_vm_facts(2) by (simp add: small_vm_def)
  have g: "page_addr small_pmm 0 \<in> avail small_pmm" using small_pmm_zero_free by (simp add: avail_def)
  have "vm_ok ?s (page_addr small_pmm 0)"
    using pages g small_pmm_in_use(1) empty_tree(1) [of "page_addr small_pmm 0"]
    by (simp add: vm_res_def avail_take_page [OF reg small_pmm_zero_free])
  moreover have "page_addr small_pmm 0 \<noteq> 0" using page_addr_nonzero [OF reg] small_pmm_inv(2) by simp
  ultimately show ?thesis by blast
qed

lemma vmm_map_res:
  assumes "vm_res X s g" and "g \<noteq> 0" and "ucast fl AND PT_ADDR_MASK = 0"
  shows "\<exists>s' r. vmm_map s g va pa fl = (s', r) \<and> vm_res X s' g \<and> avail (pm s') \<subseteq> avail (pm s) \<and>
    (if r = 0 then \<forall>va'. vmm_get_phys s' g va' =
           (if same_page va va' then (pa AND PT_ADDR_MASK) OR (va' AND 0xFFF) else vmm_get_phys s g va')
     else r = - 1 \<and> avail (pm s') = {} \<and> (\<forall>va'. vmm_get_phys s' g va' = vmm_get_phys s g va'))"
proof -
  consider s' where "vmm_map s g va pa fl = (s', - 1)" "vm_res X s' g" "extends (mem s) (mem s') g"
      "avail (pm s') = {}" "avail (pm s') \<subseteq> avail (pm s)"
    | s' t where "vmm_map s g va pa fl = (s'\<lparr>mem := (mem s')(t + 8 * PTE_IDX va :=
          (pa AND PT_ADDR_MASK) OR ucast fl OR PT_VALID OR PT_AF)\<rparr>, 0)"
      "vm_res X s' g" "extends (mem s) (mem s') g" "walk (mem s') g (va_path va) = Some t"
      "avail (pm s') \<subseteq> avail (pm s)"
    using vmm_map_cases [OF assms(1,2), of va pa fl] by blast
  then show ?thesis
  proof cases
    case 1
    with extends_get_phys show ?thesis by auto
  next
    case 2
    note L = leaf_write [OF 2(2,4) assms(2)]
    show ?thesis
      using 2(1,5) L(1) L(2) extends_get_phys [OF 2(3)] leaf_phys_map [OF assms(3)] by auto
  qed
qed

lemma vmm_unmap_res:
  assumes "vm_res X s g" and "g \<noteq> 0"
  shows "vm_res X (vmm_unmap s g va) g \<and> pm (vmm_unmap s g va) = pm s
    \<and> (\<forall>va'. vmm_get_phys (vmm_unmap s g va) g va' = (if same_page va va' then 0 else vmm_get_phys s g va'))"
proof (cases "walk (mem s) g (va_path va)")
  case (Some t)
  then have "vmm_unmap s g va = s\<lparr>mem := (mem s)(t + 8 * PTE_IDX va := 0)\<rparr>"
    using assms(2) by (simp add: vmm_unmap_def pte_table_walk del: walk.simps)
  moreover note leaf_write [OF assms(1) Some assms(2), of 0]
  moreover have "leaf_phys 0 x = 0" for x by (simp add: leaf_phys_def)
  ultimately show ?thesis by simp
next
  case None
  then have same: "vmm_unmap s g va = s" by (simp add: vmm_unmap_def pte_table_walk del: walk.simps)
  have "vmm_get_phys s g va' = 0" if "same_page va va'" for va'
  proof -
    from that None have "walk (mem s) g (va_path va') = None" by (metis same_page_iff)
    then show ?thesis by (simp add: vmm_get_phys_def pte_table_walk del: walk.simps)
  qed
  with assms(1) same show ?thesis by auto
qed

text \<open>
  C4: with tables that form a tree of pages outside the free pool, \<open>vmm_map\<close> either succeeds, and
  then the mapped page translates to the given physical page and every other page translates as
  before, or returns -1 with the pool exhausted and no translation changed; the tables stay a tree
  either way.  (The flags must not reach into the address bits of the entry.)
\<close>

theorem vmm_map_translates:
  assumes "vm_ok s g" and "g \<noteq> 0" and "ucast fl AND PT_ADDR_MASK = 0"
  shows "\<exists>s' r. vmm_map s g va pa fl = (s', r) \<and> vm_ok s' g \<and>
    (if r = 0 then \<forall>va'. vmm_get_phys s' g va' =
           (if same_page va va' then (pa AND PT_ADDR_MASK) OR (va' AND 0xFFF) else vmm_get_phys s g va')
     else r = - 1 \<and> avail (pm s') = {} \<and> (\<forall>va'. vmm_get_phys s' g va' = vmm_get_phys s g va'))"
  using vmm_map_res [OF assms] by blast

theorem vmm_map_translates_witness:
  "\<exists>s g s' r. vm_ok s g \<and> vmm_map s g 0x400000 0x41003000 0x40 = (s', r) \<and> vm_ok s' g"
proof -
  obtain s g where s: "vm_ok s g" "g \<noteq> 0" using small_space by blast
  have "(ucast (0x40 :: u32) :: u64) AND PT_ADDR_MASK = 0" by (simp add: PT_ADDR_MASK_def)
  from vmm_map_translates [OF s this, of "0x400000" "0x41003000"] s show ?thesis by blast
qed

text \<open>
  \<open>vmm_unmap\<close> removes the translation of its page, keeps every other translation and the tree,
  and frees nothing (the caller owns the physical page).
\<close>

theorem vmm_unmap_removes:
  assumes "vm_ok s g" and "g \<noteq> 0"
  shows "vm_ok (vmm_unmap s g va) g \<and> pm (vmm_unmap s g va) = pm s
    \<and> (\<forall>va'. vmm_get_phys (vmm_unmap s g va) g va' = (if same_page va va' then 0 else vmm_get_phys s g va'))"
  using assms by (rule vmm_unmap_res)

theorem vmm_unmap_removes_witness:
  "\<exists>s g. vm_ok s g \<and> vm_ok (vmm_unmap s g 0x400000) g \<and> vmm_get_phys (vmm_unmap s g 0x400000) g 0x400123 = 0"
proof -
  obtain s g where s: "vm_ok s g" "g \<noteq> 0" using small_space by blast
  have "same_page 0x400000 0x400123" by (simp add: same_page_def mask_eq_exp_minus_1)
  with vmm_unmap_removes [OF s, of "0x400000"]
  have "vm_ok (vmm_unmap s g 0x400000) g" "vmm_get_phys (vmm_unmap s g 0x400000) g 0x400123 = 0"
    by simp_all
  with s show ?thesis by blast
qed

section \<open>Ranges of pages\<close>

lemma mod_add_left_inj:
  assumes "(a + j) mod M = (a + j') mod (M :: nat)" and "j < M" and "j' < M"
  shows "j = j'"
proof -
  have le: "x = y" if "x \<le> y" "(a + x) mod M = (a + y) mod M" "y < M" for x y
  proof -
    from that have "M dvd (a + y) - (a + x)" by (metis add_le_cancel_left mod_eq_dvd_iff_nat)
    then have "M dvd y - x" by simp
    with that(3) have "y - x = 0" by (metis dvd_imp_le gr0I le_less_trans less_imp_diff_less not_le)
    with that(1) show ?thesis by simp
  qed
  show ?thesis using le [of j j'] le [of j' j] assms by (metis nat_le_linear)
qed

lemma unat_page_number:
  "unat (drop_bit 12 x AND mask 36 :: u64) = unat x div 4096 mod 2 ^ 36"
proof -
  have "drop_bit 12 x AND mask 36 = take_bit 36 (drop_bit 12 x)" by (simp add: take_bit_eq_mask)
  then show ?thesis
    by (simp add: drop_bit_eq_div take_bit_eq_mod unat_mod unat_div)
qed

lemma page_number_add:
  "unat (va + of_nat j * PAGE_SIZE :: u64) div 4096 mod 2 ^ 36 = (unat va div 4096 + j) mod 2 ^ 36"
proof -
  have "unat (va + of_nat j * PAGE_SIZE) = (unat va + j * 4096) mod 2 ^ 64"
    by (simp add: unat_word_ariths unat_of_nat take_bit_eq_mod mod_simps PAGE_SIZE_def)
  also have "\<dots> div 4096 mod 2 ^ 36 = (unat va + j * 4096) div 2 ^ 12 mod 2 ^ 52 mod 2 ^ 36"
    using div_exp_mod_exp_eq [of "unat va + j * 4096" 12 52] by simp
  also have "\<dots> = (unat va + j * 4096) div 4096 mod 2 ^ 36"
    by (simp add: mod_mod_cancel)
  finally show ?thesis by (simp add: add.commute)
qed

lemma same_page_offsets:
  assumes "same_page (va + of_nat j * PAGE_SIZE) (va + of_nat j' * PAGE_SIZE)"
    and "j < 2 ^ 36" and "j' < 2 ^ 36"
  shows "j = j'"
proof -
  from assms(1) have "unat (va + of_nat j * PAGE_SIZE) div 4096 mod 2 ^ 36
      = unat (va + of_nat j' * PAGE_SIZE) div 4096 mod 2 ^ 36"
    unfolding same_page_def by (metis unat_page_number)
  then have "(unat va div 4096 + j) mod 2 ^ 36 = (unat va div 4096 + j') mod 2 ^ 36"
    by (simp only: page_number_add)
  then show ?thesis using assms(2,3) by (rule mod_add_left_inj)
qed

text \<open>The pages \<open>i, ..., n - 1\<close> of a range.\<close>

definition in_range :: "u64 \<Rightarrow> nat \<Rightarrow> nat \<Rightarrow> u64 \<Rightarrow> bool" where
  "in_range va i n va' \<longleftrightarrow> (\<exists>j. i \<le> j \<and> j < n \<and> same_page (va + of_nat j * PAGE_SIZE) va')"

lemma in_range_shift:
  "in_range (va + PAGE_SIZE) 0 n va' \<longleftrightarrow> in_range va 1 (Suc n) va'"
proof -
  have *: "va + PAGE_SIZE + of_nat j * PAGE_SIZE = va + of_nat (Suc j) * PAGE_SIZE" for j
    by (simp add: algebra_simps)
  show ?thesis
  proof
    assume "in_range (va + PAGE_SIZE) 0 n va'"
    then obtain j where "j < n" "same_page (va + of_nat (Suc j) * PAGE_SIZE) va'"
      unfolding in_range_def * by blast
    then show "in_range va 1 (Suc n) va'" unfolding in_range_def by (intro exI [of _ "Suc j"]) simp
  next
    assume "in_range va 1 (Suc n) va'"
    then obtain j where "1 \<le> j" "j < Suc n" "same_page (va + of_nat j * PAGE_SIZE) va'"
      unfolding in_range_def by blast
    then show "in_range (va + PAGE_SIZE) 0 n va'"
      unfolding in_range_def * by (intro exI [of _ "j - 1"]) simp
  qed
qed

lemma in_range_first: "0 < n \<Longrightarrow> in_range va 0 n va' \<longleftrightarrow> same_page va va' \<or> in_range va 1 n va'"
  unfolding in_range_def by (auto simp: Suc_le_eq) (metis add_0_right gr0I mult_zero_left of_nat_0)+

lemma in_range_Suc:
  "in_range va i (i + Suc k) va' \<longleftrightarrow>
     same_page (va + of_nat i * PAGE_SIZE) va' \<or> in_range va (Suc i) (Suc i + k) va'"
  unfolding in_range_def by (auto simp: Suc_le_eq) (metis less_add_Suc1 nat_less_le order_refl)+

lemma unmap_pages_res:
  assumes "vm_res X s g" and "g \<noteq> 0"
  shows "vm_res X (unmap_pages s g va n) g \<and> pm (unmap_pages s g va n) = pm s
    \<and> (\<forall>va'. vmm_get_phys (unmap_pages s g va n) g va' = (if in_range va 0 n va' then 0 else vmm_get_phys s g va'))"
  using assms
proof (induction s g va n rule: unmap_pages.induct)
  case (1 s g va)
  then show ?case by (simp add: in_range_def)
next
  case (2 s g va n)
  note U = vmm_unmap_res [OF 2(2,3), of va]
  with 2 show ?case by (simp add: in_range_first in_range_shift)
qed

lemma vm_res_reserve:
  assumes "vm_res X s g" and "pmm_alloc (pm s) = (p', n)" and "n \<noteq> 0"
  shows "vm_res (insert n X) (s\<lparr>pm := p'\<rparr>) g" "avail p' = avail (pm s) - {n}" "n \<in> avail (pm s)"
proof -
  from assms(1) have inv: "pmm_inv (pm s)" by (simp add: vm_res_def)
  from pages.alloc_inv [OF inv] pages.alloc_pool [OF inv] pages.alloc_from_pool [OF inv] assms(2,3)
  show p': "avail p' = avail (pm s) - {n}" "n \<in> avail (pm s)" by auto
  have "avail (pm s) - {n} \<union> insert n X = avail (pm s) \<union> X" using p'(2) by auto
  with assms(1) p' pages.alloc_inv [OF inv] assms(2) show "vm_res (insert n X) (s\<lparr>pm := p'\<rparr>) g"
    by (auto simp: vm_res_def)
qed

lemma tree_ok_mono: "tree_ok m g A \<Longrightarrow> B \<subseteq> A \<Longrightarrow> tree_ok m g B"
  unfolding tree_ok_def by blast

lemma vm_res_drop: "vm_res (insert n X) s g \<Longrightarrow> vm_res X s g"
  using tree_ok_mono [of "mem s" g "avail (pm s) \<union> insert n X" "avail (pm s) \<union> X"]
  by (auto simp: vm_res_def)

text \<open>Giving a reserved page back.\<close>

lemma vm_res_release:
  assumes "vm_res (insert n X) s g" and "n \<notin> X" and "n = page_addr (pm s) i"
    and "i < unat (total_pages (pm s))" and "page_ok n"
  shows "vm_res X (s\<lparr>pm := pmm_free (pm s) n\<rparr>) g"
    and "avail (pmm_free (pm s) n) = insert n (avail (pm s))"
proof -
  from assms(1) have inv: "pmm_inv (pm s)" and reg: "region_ok (pm s)" and n: "n \<notin> avail (pm s)"
    by (auto simp: vm_res_def pmm_inv_def)
  have "i \<notin> free_idx (pm s)" using n assms(3) by (auto simp: avail_def)
  with inv assms(4) have "pmm_inv (pmm_free (pm s) n)" unfolding assms(3) by (intro pmm_inv_free)
  moreover have av: "avail (pmm_free (pm s) n) = insert n (avail (pm s))"
    unfolding assms(3) avail_def free_idx_pmm_free [OF reg assms(4)] by simp
  moreover have "insert n (avail (pm s)) \<union> X = avail (pm s) \<union> insert n X" by simp
  ultimately show "vm_res X (s\<lparr>pm := pmm_free (pm s) n\<rparr>) g" using assms(1,2,5) by (auto simp: vm_res_def)
  show "avail (pmm_free (pm s) n) = insert n (avail (pm s))" by (rule av)
qed

lemma get_phys_pm [simp]: "vmm_get_phys (s\<lparr>pm := p\<rparr>) g va = vmm_get_phys s g va"
  by (simp add: vmm_get_phys_def split: option.split)

lemma page_ok_mask: "page_ok p \<Longrightarrow> p AND PT_ADDR_MASK = p"
  by (rule bit_word_eqI) (auto simp: bit_and_iff bit_ops dest: page_ok_bits)

lemma pmm_alloc_frameD:
  "pmm_alloc s = (s', p) \<Longrightarrow> total_pages s' = total_pages s \<and> phys_base s' = phys_base s"
  by (metis fst_conv pmm_alloc_frame)

lemma next_table_frame:
  "next_table s t i = (s', r) \<Longrightarrow> total_pages (pm s') = total_pages (pm s) \<and> phys_base (pm s') = phys_base (pm s)"
  by (auto simp: next_table_def Let_def split: if_splits prod.splits dest: pmm_alloc_frameD)

lemma vmm_map_frame:
  assumes "vmm_map s g va pa fl = (s', r)"
  shows "total_pages (pm s') = total_pages (pm s) \<and> phys_base (pm s') = phys_base (pm s)"
  using assms unfolding vmm_map_def
  by (auto split: if_splits prod.splits option.splits dest!: next_table_frame)

lemma map_pages_res:
  assumes "vm_ok s g" and "g \<noteq> 0" and "ucast fl AND PT_ADDR_MASK = 0" and "i + k \<le> 2 ^ 36"
    and "map_pages s g va i k fl = (s', r)"
  shows "vm_ok s' g \<and> avail (pm s') \<subseteq> avail (pm s) \<and>
    (r = va \<and> (\<forall>va'. \<not> in_range va i (i + k) va' \<longrightarrow> vmm_get_phys s' g va' = vmm_get_phys s g va')
       \<and> (\<forall>j. i \<le> j \<and> j < i + k \<longrightarrow> (\<exists>p \<in> avail (pm s) - avail (pm s'). \<forall>va'.
             same_page (va + of_nat j * PAGE_SIZE) va' \<longrightarrow> vmm_get_phys s' g va' = p OR (va' AND 0xFFF)))
     \<or> r = 0 \<and> (\<exists>n. i \<le> n \<and> n < i + k \<and>
         (\<forall>va'. vmm_get_phys s' g va' = (if in_range va 0 n va' then 0 else vmm_get_phys s g va'))))"
  using assms(1,4,5)
proof (induction k arbitrary: s i)
  case 0
  then show ?case using assms(1) by auto
next
  case (Suc k)
  let ?va = "va + of_nat i * PAGE_SIZE"
  obtain p' paddr where alloc: "pmm_alloc (pm s) = (p', paddr)" by (cases "pmm_alloc (pm s)")
  from Suc.prems(1) have inv: "pmm_inv (pm s)" by (simp add: vm_res_def)
  show ?case
  proof (cases "paddr = 0")
    case True
    with pages.alloc_null [OF inv] alloc have none: "avail (pm s) = {}" by simp
    then have "free_idx (pm s) = {}" by (auto simp: avail_def)
    with inv alloc have p': "p' = pm s" by (simp add: pmm_alloc_empty)
    with Suc.prems(3) alloc True have res: "s' = unmap_pages s g va i" "r = 0"
      by (simp_all add: Let_def)
    show ?thesis
      using unmap_pages_res [OF Suc.prems(1) assms(2), of va i] by (auto simp: res)
  next
    case False
    note A = vm_res_reserve [OF Suc.prems(1) alloc False]
    let ?s1 = "s\<lparr>pm := p'\<rparr>"
    obtain s2 r2 where map: "vmm_map ?s1 g ?va paddr fl = (s2, r2)" by (cases "vmm_map ?s1 g ?va paddr fl")
    have pg: "page_ok paddr" using Suc.prems(1) A(3) by (simp add: vm_res_def)
    from vmm_map_res [OF A(1) assms(2,3), of ?va paddr] map
    have M: "vm_res {paddr} s2 g" "avail (pm s2) \<subseteq> avail (pm s)"
      "if r2 = 0 then \<forall>va'. vmm_get_phys s2 g va' =
           (if same_page ?va va' then paddr OR (va' AND 0xFFF) else vmm_get_phys s g va')
       else avail (pm s2) = {} \<and> (\<forall>va'. vmm_get_phys s2 g va' = vmm_get_phys s g va')"
      using A(2) page_ok_mask [OF pg] by (auto split: if_splits)
    show ?thesis
    proof (cases "r2 = 0")
      case False
      obtain j where j: "paddr = page_addr (pm s) j" "j < unat (total_pages (pm s))"
        using A(3) by (auto simp: avail_def free_idx_def)
      with vmm_map_frame [OF map] have j2: "paddr = page_addr (pm s2) j" "j < unat (total_pages (pm s2))"
        using pmm_alloc_frameD [OF alloc] by (auto simp: page_addr_def)
      let ?s3 = "s2\<lparr>pm := pmm_free (pm s2) paddr\<rparr>"
      note R = vm_res_release [OF M(1) _ j2 pg, simplified]
      from Suc.prems(3) alloc \<open>paddr \<noteq> 0\<close> map False have res: "s' = unmap_pages ?s3 g va i" "r = 0"
        by (simp_all add: Let_def)
      note U = unmap_pages_res [OF R(1) assms(2), of va i]
      have "avail (pm s') \<subseteq> avail (pm s)" using U R(2) M(3) False A(3) by (simp add: res)
      with U M(3) False res show ?thesis by auto
    next
      case True
      have ok2: "vm_ok s2 g" using vm_res_drop [OF M(1)] .
      from Suc.prems(3) alloc \<open>paddr \<noteq> 0\<close> map True have rest: "map_pages s2 g va (Suc i) k fl = (s', r)"
        by (simp add: Let_def)
      from Suc.prems(2) have "Suc i + k \<le> 2 ^ 36" by simp
      note IH = Suc.IH [OF ok2 this rest]
      have paddr: "paddr \<in> avail (pm s) - avail (pm s')"
        using A(3) M(1) IH by (auto simp: vm_res_def)
      have outside: "\<not> in_range va (Suc i) (Suc i + k) va'" if "same_page ?va va'" for va'
      proof
        assume "in_range va (Suc i) (Suc i + k) va'"
        then obtain j where j: "Suc i \<le> j" "j < Suc i + k" "same_page (va + of_nat j * PAGE_SIZE) va'"
          unfolding in_range_def by blast
        with that have "same_page (va + of_nat j * PAGE_SIZE) ?va" by (simp add: same_page_def)
        then have "j = i" using j(2) Suc.prems(2) by (intro same_page_offsets) simp_all
        with j(1) show False by simp
      qed
      from IH consider (mapped) "r = va"
          "\<forall>va'. \<not> in_range va (Suc i) (Suc i + k) va' \<longrightarrow> vmm_get_phys s' g va' = vmm_get_phys s2 g va'"
          "\<forall>j. Suc i \<le> j \<and> j < Suc i + k \<longrightarrow> (\<exists>p \<in> avail (pm s2) - avail (pm s'). \<forall>va'.
             same_page (va + of_nat j * PAGE_SIZE) va' \<longrightarrow> vmm_get_phys s' g va' = p OR (va' AND 0xFFF))"
        | (undone) n where "r = 0" "Suc i \<le> n" "n < Suc i + k"
          "\<forall>va'. vmm_get_phys s' g va' = (if in_range va 0 n va' then 0 else vmm_get_phys s2 g va')"
        by blast
      then show ?thesis
      proof cases
        case mapped
        have "vmm_get_phys s' g va' = vmm_get_phys s g va'" if "\<not> in_range va i (i + Suc k) va'" for va'
        proof -
          from that have "\<not> same_page ?va va'" "\<not> in_range va (Suc i) (Suc i + k) va'"
            unfolding in_range_Suc by blast+
          then show ?thesis using mapped(2) M(3) True by simp
        qed
        moreover have "\<exists>p \<in> avail (pm s) - avail (pm s'). \<forall>va'.
            same_page (va + of_nat j * PAGE_SIZE) va' \<longrightarrow> vmm_get_phys s' g va' = p OR (va' AND 0xFFF)"
          if "i \<le> j" "j < i + Suc k" for j
        proof (cases "j = i")
          case True
          with paddr outside mapped(2) M(3) \<open>r2 = 0\<close> show ?thesis by (intro bexI [of _ paddr]) auto
        next
          case False
          with that have "Suc i \<le> j" "j < Suc i + k" by simp_all
          with mapped(3) M(2) show ?thesis by blast
        qed
        ultimately show ?thesis using IH M(2) mapped(1) by blast
      next
        case undone
        have "vmm_get_phys s' g va' = (if in_range va 0 n va' then 0 else vmm_get_phys s g va')" for va'
        proof -
          have "in_range va 0 n va'" if "same_page ?va va'"
            using that undone(2) unfolding in_range_def by (intro exI [of _ i]) simp
          then show ?thesis using undone(4) M(3) True by auto
        qed
        moreover from undone have "i \<le> n \<and> n < i + Suc k" by simp
        ultimately show ?thesis using IH M(2) undone(1) by blast
      qed
    qed
  qed
qed

text \<open>
  \<open>vmm_alloc_pages\<close> of at most 2^36 pages (the whole 48-bit space) keeps the address space
  well formed; when it returns the start address every page of the range translates to a page it
  took from the pool and the rest of the space is untouched; when it fails, the pages it had mapped
  are unmapped again, and nothing outside them has changed.
\<close>

theorem vmm_alloc_pages_correct:
  assumes "vm_ok s g" and "g \<noteq> 0" and "ucast fl AND PT_ADDR_MASK = 0" and "unat n \<le> 2 ^ 36"
    and "vmm_alloc_pages s g va n fl = (s', r)"
  shows "vm_ok s' g \<and> avail (pm s') \<subseteq> avail (pm s) \<and>
    (r = va \<and> (\<forall>va'. \<not> in_range va 0 (unat n) va' \<longrightarrow> vmm_get_phys s' g va' = vmm_get_phys s g va')
       \<and> (\<forall>j < unat n. \<exists>p \<in> avail (pm s) - avail (pm s'). \<forall>va'.
             same_page (va + of_nat j * PAGE_SIZE) va' \<longrightarrow> vmm_get_phys s' g va' = p OR (va' AND 0xFFF))
     \<or> r = 0 \<and> (\<exists>k < unat n.
         \<forall>va'. vmm_get_phys s' g va' = (if in_range va 0 k va' then 0 else vmm_get_phys s g va')))"
  using map_pages_res [OF assms(1,2,3), of 0 "unat n" va s' r] assms(4,5)
  by (simp add: vmm_alloc_pages_def)

theorem vmm_alloc_pages_correct_witness:
  "\<exists>s g s' r. vm_ok s g \<and> vmm_alloc_pages s g 0x400000 2 0x40 = (s', r) \<and> vm_ok s' g"
proof -
  obtain s g where s: "vm_ok s g" "g \<noteq> 0" using small_space by blast
  have fl: "(ucast (0x40 :: u32) :: u64) AND PT_ADDR_MASK = 0" by (simp add: PT_ADDR_MASK_def)
  obtain s' r where r: "vmm_alloc_pages s g 0x400000 2 0x40 = (s', r)"
    by (cases "vmm_alloc_pages s g 0x400000 2 0x40")
  from vmm_alloc_pages_correct [OF s fl _ r] s r show ?thesis by auto
qed

section \<open>Copying and freeing an address space\<close>

text \<open>
  \<open>vmm_free_all\<close>: four nested loops over the 512 entries of each table; nothing in memory changes,
  so the loops only call \<open>pmm_free\<close>.
\<close>

definition table_indices :: "u64 list" where
  "table_indices = map of_nat [0..<512]"

definition free_leaves :: "(u64 \<Rightarrow> u64) \<Rightarrow> u64 \<Rightarrow> pmm \<Rightarrow> pmm" where
  "free_leaves m t p = fold (\<lambda>l p. if entry m t l AND PT_VALID = 0 then p
     else pmm_free p (entry m t l AND PT_ADDR_MASK)) table_indices p"

definition free_children :: "(u64 \<Rightarrow> pmm \<Rightarrow> pmm) \<Rightarrow> (u64 \<Rightarrow> u64) \<Rightarrow> u64 \<Rightarrow> pmm \<Rightarrow> pmm" where
  "free_children f m t p = fold (\<lambda>i p. case child_table m t i of None \<Rightarrow> p
     | Some c \<Rightarrow> pmm_free (f c p) c) table_indices p"

definition vmm_free_all :: "vm \<Rightarrow> u64 \<Rightarrow> vm" where
  "vmm_free_all s pgd =
     (if pgd = 0 then s
      else s\<lparr>pm := pmm_free
        (free_children (free_children (free_children (free_leaves (mem s)) (mem s)) (mem s)) (mem s) pgd (pm s))
        pgd\<rparr>)"

text \<open>The pages freed, in order.\<close>

definition leaf_pages :: "(u64 \<Rightarrow> u64) \<Rightarrow> u64 \<Rightarrow> u64 list" where
  "leaf_pages m t = concat (map (\<lambda>l. if entry m t l AND PT_VALID = 0 then []
     else [entry m t l AND PT_ADDR_MASK]) table_indices)"

definition child_pages :: "(u64 \<Rightarrow> u64 list) \<Rightarrow> (u64 \<Rightarrow> u64) \<Rightarrow> u64 \<Rightarrow> u64 list" where
  "child_pages f m t = concat (map (\<lambda>i. case child_table m t i of None \<Rightarrow> [] | Some c \<Rightarrow> f c @ [c]) table_indices)"

definition space_pages :: "(u64 \<Rightarrow> u64) \<Rightarrow> u64 \<Rightarrow> u64 list" where
  "space_pages m g = child_pages (child_pages (child_pages (leaf_pages m) m) m) m g @ [g]"

definition free_list :: "u64 list \<Rightarrow> pmm \<Rightarrow> pmm" where
  "free_list ps p = fold (\<lambda>x p. pmm_free p x) ps p"

lemma free_list_append [simp]: "free_list (ps @ qs) p = free_list qs (free_list ps p)"
  by (simp add: free_list_def)

lemma fold_free_concat:
  assumes "\<And>i p. h i p = free_list (f i) p"
  shows "fold h xs p = free_list (concat (map f xs)) p"
  by (induction xs arbitrary: p) (simp_all add: assms, simp add: free_list_def)

lemma free_leaves_list: "free_leaves m t p = free_list (leaf_pages m t) p"
  unfolding free_leaves_def leaf_pages_def
  by (rule fold_free_concat) (simp add: free_list_def)

lemma free_children_list:
  assumes "\<And>c p. f c p = free_list (fp c) p"
  shows "free_children f m t p = free_list (child_pages fp m t) p"
  unfolding free_children_def child_pages_def
  by (rule fold_free_concat) (simp add: assms free_list_def split: option.split)

lemma vmm_free_all_list:
  "g \<noteq> 0 \<Longrightarrow> vmm_free_all s g = s\<lparr>pm := free_list (space_pages (mem s) g) (pm s)\<rparr>"
  by (simp add: vmm_free_all_def space_pages_def free_children_list free_leaves_list)
    (simp add: free_list_def)

text \<open>Pages in use: managed by the allocator and not free.\<close>

definition in_use :: "pmm \<Rightarrow> u64 set" where
  "in_use p = page_addr p ` {i. i < unat (total_pages p) \<and> i \<notin> free_idx p}"

lemma in_use_not_avail: "region_ok p \<Longrightarrow> x \<in> in_use p \<Longrightarrow> x \<notin> avail p"
  unfolding in_use_def avail_def using page_addr_inj free_idxD by blast

lemma free_in_use:
  assumes "pmm_inv p" and "x \<in> in_use p"
  shows "pmm_inv (pmm_free p x) \<and> avail (pmm_free p x) = insert x (avail p)
    \<and> in_use (pmm_free p x) = in_use p - {x}"
proof -
  from assms(1) have reg: "region_ok p" by (simp add: pmm_inv_def)
  from assms(2) obtain i where i: "x = page_addr p i" "i < unat (total_pages p)" "i \<notin> free_idx p"
    by (auto simp: in_use_def)
  have inj: "inj_on (page_addr p) {i. i < unat (total_pages p)}"
    using page_addr_inj [OF reg] by (auto simp: inj_on_def)
  have idx: "free_idx (pmm_free p x) = insert i (free_idx p)"
    unfolding i(1) by (rule free_idx_pmm_free [OF reg i(2)])
  have "{j. j < unat (total_pages p) \<and> j \<notin> insert i (free_idx p)}
      = {j. j < unat (total_pages p) \<and> j \<notin> free_idx p} - {i}" by auto
  then have "in_use (pmm_free p x) = page_addr p ` ({j. j < unat (total_pages p) \<and> j \<notin> free_idx p} - {i})"
    unfolding in_use_def idx by simp
  also have "\<dots> = in_use p - {x}"
    unfolding in_use_def i(1) using i(2,3)
    by (subst inj_on_image_set_diff [OF inj]) auto
  finally show ?thesis
    using assms(1) i(2,3) pmm_inv_free idx by (simp add: i(1) avail_def)
qed

lemma free_list_in_use:
  assumes "pmm_inv p" and "distinct ps" and "set ps \<subseteq> in_use p"
  shows "pmm_inv (free_list ps p) \<and> avail (free_list ps p) = avail p \<union> set ps
    \<and> in_use (free_list ps p) = in_use p - set ps"
  using assms
proof (induction ps arbitrary: p)
  case Nil
  then show ?case by (simp add: free_list_def)
next
  case (Cons x ps)
  from Cons.prems have x: "x \<in> in_use p" by simp
  note F = free_in_use [OF Cons.prems(1) x]
  with Cons.prems have "set ps \<subseteq> in_use (pmm_free p x)" by auto
  from Cons.IH [OF _ _ this] F Cons.prems show ?case by (auto simp: free_list_def)
qed

lemma free_list_frame [simp]:
  "total_pages (free_list ps p) = total_pages p" "page_addr (free_list ps p) = page_addr p"
  by (induction ps arbitrary: p) (simp_all add: free_list_def)

text \<open>The page-table part of \<open>process_cleanup\<close>: \<open>vmm_free_all\<close>, then \<open>pmm_free\<close> of the directory.\<close>

definition cleanup_pgd :: "vm \<Rightarrow> u64 \<Rightarrow> vm" where
  "cleanup_pgd s pgd = (if pgd = 0 then s
     else let s1 = vmm_free_all s pgd in s1\<lparr>pm := pmm_free (pm s1) pgd\<rparr>)"

text \<open>
  When the tables and leaf pages of an address space are distinct pages in use,
  \<open>vmm_free_all\<close> returns exactly them to the pool, the page directory included.
  \<open>process_cleanup\<close> then frees the page directory a second time, which makes the count of free
  pages wrong.
\<close>

theorem vmm_free_all_and_cleanup:
  assumes "pmm_inv (pm s)" and "g \<noteq> 0" and "distinct (space_pages (mem s) g)"
    and "set (space_pages (mem s) g) \<subseteq> in_use (pm s)"
  shows "pmm_inv (pm (vmm_free_all s g))
    \<and> avail (pm (vmm_free_all s g)) = avail (pm s) \<union> set (space_pages (mem s) g)
    \<and> \<not> pmm_inv (pm (cleanup_pgd s g))"
proof -
  let ?ps = "child_pages (child_pages (child_pages (leaf_pages (mem s)) (mem s)) (mem s)) (mem s) g"
  have ps: "space_pages (mem s) g = ?ps @ [g]" by (simp add: space_pages_def)
  note all = free_list_in_use [OF assms(1,3,4)]
  from assms(3,4) ps have "distinct ?ps" "set ?ps \<subseteq> in_use (pm s)" "g \<in> in_use (pm s)" "g \<notin> set ?ps"
    by auto
  note part = free_list_in_use [OF assms(1) this(1,2)]
  let ?p = "free_list ?ps (pm s)"
  from part \<open>g \<in> in_use (pm s)\<close> \<open>g \<notin> set ?ps\<close> have "g \<in> in_use ?p" by simp
  then obtain i where i: "g = page_addr ?p i" "i < unat (total_pages ?p)" "i \<notin> free_idx ?p"
    by (auto simp: in_use_def)
  have "pm (vmm_free_all s g) = pmm_free ?p g"
    using assms(2) by (simp add: vmm_free_all_list ps) (simp add: free_list_def)
  with assms(2) have "pm (cleanup_pgd s g) = pmm_free (pmm_free ?p g) g"
    by (simp add: cleanup_pgd_def Let_def)
  moreover have "\<not> pmm_inv (pmm_free (pmm_free ?p g) g)"
    using double_free_breaks [of ?p i] part i by simp
  ultimately show ?thesis using all assms(2) by (simp add: vmm_free_all_list)
qed

lemma space_pages_empty:
  assumes "page_ok g"
  shows "space_pages (zero_page m g) g = [g]"
proof -
  have "unat i < 512" if "i \<in> set table_indices" for i
    using that by (auto simp: table_indices_def unat_of_nat)
  then have "child_table (zero_page m g) g i = None" if "i \<in> set table_indices" for i
    using that assms by (simp add: child_table_def zero_page_self word_less_nat_alt)
  then have "child_pages f (zero_page m g) g = []" for f
    by (simp add: child_pages_def)
  then show ?thesis by (simp add: space_pages_def)
qed

theorem vmm_free_all_and_cleanup_witness:
  "\<exists>s g. g \<noteq> 0 \<and> pmm_inv (pm (vmm_free_all s g)) \<and> \<not> pmm_inv (pm (cleanup_pgd s g))"
proof -
  let ?g = "page_addr small_pmm 0"
  let ?s = "\<lparr>pm = take_page small_pmm 0, mem = zero_page (\<lambda>_. 7) ?g\<rparr>"
  have reg: "region_ok small_pmm" using small_pmm_inv by (simp add: pmm_inv_def)
  have g: "?g \<in> avail small_pmm" using small_pmm_zero_free by (simp add: avail_def)
  have ok: "page_ok ?g"
    using avail_page_ok [OF reg] small_vm_facts(2) g by (simp add: small_vm_def)
  have nz: "?g \<noteq> 0" using page_addr_nonzero [OF reg] small_pmm_inv(2) by simp
  have "?g \<in> in_use (take_page small_pmm 0)"
    using small_pmm_in_use(2) small_pmm_inv(2) by (auto simp: in_use_def)
  then show ?thesis
    using vmm_free_all_and_cleanup [of ?s ?g] small_pmm_in_use(1) nz space_pages_empty [OF ok]
    by auto
qed

text \<open>The guard by which \<open>vmm_copy_page_tables\<close> means to skip the kernel half of the address space
  never holds: an index below 512 shifted by 39 stays below 2^48.\<close>

lemma kernel_half_guard_dead:
  assumes "i < 512"
  shows "\<not> 0xFFFF000000000000 \<le> push_bit 39 (of_nat i :: u64)"
proof -
  have "push_bit 39 (of_nat i :: u64) = of_nat i * 2 ^ 39"
    by (simp add: push_bit_eq_mult)
  moreover have "unat (of_nat i * 2 ^ 39 :: u64) = i * 2 ^ 39"
    using assms by (simp add: unat_word_ariths unat_of_nat take_bit_eq_mod)
  ultimately show ?thesis using assms by (simp add: word_le_nat_alt)
qed

end
