(* ===== verification/CString.thy ===== *)
theory CString
  imports Prelude
begin

text \<open>
  string.c and the parsing and printing routines of stdlib.c, over a memory of bytes.  A pointer is
  a 64-bit address, so pointer arithmetic wraps; a routine that writes returns the new memory.  The
  loops that stop at a terminating 0 are partial functions (\<open>None\<close> means that the loop runs on for
  ever); a loop that counts recurses over the count.  Signed overflow, which C leaves undefined, is
  \<open>None\<close> as well.
  The reference for every routine that writes is \<open>put m a bs\<close>, the memory with the bytes \<open>bs\<close>
  stored from \<open>a\<close> on, and for every routine that reads is \<open>cstr m a xs\<close>: the string at \<open>a\<close> has the
  characters \<open>xs\<close>.
\<close>

type_synonym bytes = "addr \<Rightarrow> u8"

section \<open>Memory blocks\<close>

text \<open>The two word accesses through a \<open>uint64_t\<close> pointer (little endian).\<close>

definition store_word :: "bytes \<Rightarrow> addr \<Rightarrow> u64 \<Rightarrow> bytes" where
  "store_word m a w = (\<lambda>x. if x - a < 8 then ucast (drop_bit (8 * unat (x - a)) w) else m x)"

primrec load_bytes :: "bytes \<Rightarrow> addr \<Rightarrow> nat \<Rightarrow> u64" where
  "load_bytes m a 0 = 0"
| "load_bytes m a (Suc n) = load_bytes m a n OR push_bit (8 * n) (ucast (m (a + of_nat n)))"

definition load_word :: "bytes \<Rightarrow> addr \<Rightarrow> u64" where
  "load_word m a = load_bytes m a 8"

definition IS_ALIGNED :: "u64 \<Rightarrow> u64 \<Rightarrow> bool" where
  "IS_ALIGNED x a \<longleftrightarrow> x AND (a - 1) = 0"

definition fill_word :: "u8 \<Rightarrow> u64" where
  "fill_word v = (let w0 = ucast v; w1 = w0 OR push_bit 8 w0; w2 = w1 OR push_bit 16 w1
                  in w2 OR push_bit 32 w2)"

function set_words :: "bytes \<Rightarrow> addr \<Rightarrow> u64 \<Rightarrow> nat \<Rightarrow> bytes \<times> addr \<times> nat" where
  "set_words m p w n =
     (if 8 \<le> n then set_words (store_word m p w) (p + 8) w (n - 8) else (m, p, n))"
  by pat_completeness auto
termination by (relation "measure (\<lambda>(m, p, w, n). n)") auto

primrec set_bytes :: "bytes \<Rightarrow> addr \<Rightarrow> u8 \<Rightarrow> nat \<Rightarrow> bytes" where
  "set_bytes m p v 0 = m"
| "set_bytes m p v (Suc n) = set_bytes (m(p := v)) (p + 1) v n"

definition memset :: "bytes \<Rightarrow> addr \<Rightarrow> u32 \<Rightarrow> u64 \<Rightarrow> bytes" where
  "memset m s c n =
     (let val = ucast c;
          (m1, p, k) = (if 8 \<le> n \<and> IS_ALIGNED s 8 then set_words m s (fill_word val) (unat n)
                        else (m, s, unat n))
      in set_bytes m1 p val k)"

function copy_words :: "bytes \<Rightarrow> addr \<Rightarrow> addr \<Rightarrow> nat \<Rightarrow> bytes \<times> addr \<times> addr \<times> nat" where
  "copy_words m d s n =
     (if 8 \<le> n then copy_words (store_word m d (load_word m s)) (d + 8) (s + 8) (n - 8) else (m, d, s, n))"
  by pat_completeness auto
termination by (relation "measure (\<lambda>(m, d, s, n). n)") auto

primrec copy_bytes :: "bytes \<Rightarrow> addr \<Rightarrow> addr \<Rightarrow> nat \<Rightarrow> bytes" where
  "copy_bytes m d s 0 = m"
| "copy_bytes m d s (Suc n) = copy_bytes (m(d := m s)) (d + 1) (s + 1) n"

definition memcpy :: "bytes \<Rightarrow> addr \<Rightarrow> addr \<Rightarrow> u64 \<Rightarrow> bytes" where
  "memcpy m dest src n =
     (let (m1, d, s, k) = (if 8 \<le> n \<and> IS_ALIGNED dest 8 \<and> IS_ALIGNED src 8
                           then copy_words m dest src (unat n) else (m, dest, src, unat n))
      in copy_bytes m1 d s k)"

text \<open>\<open>*--d = *--s\<close>.\<close>

primrec copy_back :: "bytes \<Rightarrow> addr \<Rightarrow> addr \<Rightarrow> nat \<Rightarrow> bytes" where
  "copy_back m d s 0 = m"
| "copy_back m d s (Suc n) = copy_back (m(d - 1 := m (s - 1))) (d - 1) (s - 1) n"

definition memmove :: "bytes \<Rightarrow> addr \<Rightarrow> addr \<Rightarrow> u64 \<Rightarrow> bytes" where
  "memmove m d s n =
     (if d < s then copy_bytes m d s (unat n)
      else if s < d then copy_back m (d + n) (s + n) (unat n)
      else m)"

fun memcmp_loop :: "bytes \<Rightarrow> addr \<Rightarrow> addr \<Rightarrow> nat \<Rightarrow> int" where
  "memcmp_loop m p1 p2 0 = 0"
| "memcmp_loop m p1 p2 (Suc n) =
     (if m p1 \<noteq> m p2 then uint (m p1) - uint (m p2) else memcmp_loop m (p1 + 1) (p2 + 1) n)"

definition memcmp :: "bytes \<Rightarrow> addr \<Rightarrow> addr \<Rightarrow> u64 \<Rightarrow> int" where
  "memcmp m s1 s2 n = memcmp_loop m s1 s2 (unat n)"

declare set_words.simps [simp del] copy_words.simps [simp del]

section \<open>Strings\<close>

partial_function (option) scan_nul :: "bytes \<Rightarrow> addr \<Rightarrow> addr option" where
  "scan_nul m p = (if m p = 0 then Some p else scan_nul m (p + 1))"

definition strlen :: "bytes \<Rightarrow> addr \<Rightarrow> u64 option" where
  "strlen m s = map_option (\<lambda>p. p - s) (scan_nul m s)"

partial_function (option) strcpy :: "bytes \<Rightarrow> addr \<Rightarrow> addr \<Rightarrow> bytes option" where
  "strcpy m d s =
     (let m' = m(d := m s) in if m s = 0 then Some m' else strcpy m' (d + 1) (s + 1))"

text \<open>\<open>while (n && (*d++ = *src++)) n--;\<close>: the count is not reduced for the final 0.\<close>

primrec strncpy_copy :: "bytes \<Rightarrow> addr \<Rightarrow> addr \<Rightarrow> nat \<Rightarrow> bytes \<times> addr \<times> nat" where
  "strncpy_copy m d s 0 = (m, d, 0)"
| "strncpy_copy m d s (Suc n) =
     (let m' = m(d := m s) in
      if m s = 0 then (m', d + 1, Suc n) else strncpy_copy m' (d + 1) (s + 1) n)"

definition strncpy :: "bytes \<Rightarrow> addr \<Rightarrow> addr \<Rightarrow> u64 \<Rightarrow> bytes" where
  "strncpy m dest src n = (let (m1, d, k) = strncpy_copy m dest src (unat n) in set_bytes m1 d 0 k)"

partial_function (option) strcmp :: "bytes \<Rightarrow> addr \<Rightarrow> addr \<Rightarrow> int option" where
  "strcmp m s1 s2 =
     (if m s1 \<noteq> 0 \<and> m s1 = m s2 then strcmp m (s1 + 1) (s2 + 1)
      else Some (uint (m s1) - uint (m s2)))"

fun strncmp_loop :: "bytes \<Rightarrow> addr \<Rightarrow> addr \<Rightarrow> nat \<Rightarrow> int" where
  "strncmp_loop m s1 s2 0 = 0"
| "strncmp_loop m s1 s2 (Suc n) =
     (if m s1 \<noteq> 0 \<and> m s1 = m s2 then strncmp_loop m (s1 + 1) (s2 + 1) n
      else uint (m s1) - uint (m s2))"

definition strncmp :: "bytes \<Rightarrow> addr \<Rightarrow> addr \<Rightarrow> u64 \<Rightarrow> int" where
  "strncmp m s1 s2 n = strncmp_loop m s1 s2 (unat n)"

definition strcat :: "bytes \<Rightarrow> addr \<Rightarrow> addr \<Rightarrow> bytes option" where
  "strcat m dest src = (case strlen m dest of None \<Rightarrow> None | Some k \<Rightarrow> strcpy m (dest + k) src)"

partial_function (option) strchr_loop :: "bytes \<Rightarrow> addr \<Rightarrow> u8 \<Rightarrow> addr option" where
  "strchr_loop m s ch =
     (if m s \<noteq> 0 then if m s = ch then Some s else strchr_loop m (s + 1) ch
      else Some (if ch = 0 then s else 0))"

definition strchr :: "bytes \<Rightarrow> addr \<Rightarrow> u32 \<Rightarrow> addr option" where
  "strchr m s c = strchr_loop m s (ucast c)"

partial_function (option) strrchr_loop :: "bytes \<Rightarrow> addr \<Rightarrow> u8 \<Rightarrow> addr \<Rightarrow> addr option" where
  "strrchr_loop m s ch found =
     (if m s \<noteq> 0 then strrchr_loop m (s + 1) ch (if m s = ch then s else found)
      else Some (if ch = 0 then s else found))"

definition strrchr :: "bytes \<Rightarrow> addr \<Rightarrow> u32 \<Rightarrow> addr option" where
  "strrchr m s c = strrchr_loop m s (ucast c) 0"

partial_function (option) strstr_loop :: "bytes \<Rightarrow> addr \<Rightarrow> addr \<Rightarrow> u64 \<Rightarrow> addr option" where
  "strstr_loop m haystack needle needle_len =
     (if m haystack = 0 then Some 0
      else if m haystack = m needle \<and> strncmp m haystack needle needle_len = 0 then Some haystack
      else strstr_loop m (haystack + 1) needle needle_len)"

definition strstr :: "bytes \<Rightarrow> addr \<Rightarrow> addr \<Rightarrow> addr option" where
  "strstr m haystack needle =
     (if m needle = 0 then Some haystack
      else case strlen m needle of None \<Rightarrow> None | Some k \<Rightarrow> strstr_loop m haystack needle k)"

fun strnlen_loop :: "bytes \<Rightarrow> addr \<Rightarrow> nat \<Rightarrow> nat" where
  "strnlen_loop m s 0 = 0"
| "strnlen_loop m s (Suc k) = (if m s = 0 then 0 else Suc (strnlen_loop m (s + 1) k))"

definition strnlen :: "bytes \<Rightarrow> addr \<Rightarrow> u64 \<Rightarrow> u64" where
  "strnlen m s maxlen = of_nat (strnlen_loop m s (unat maxlen))"

section \<open>Numbers\<close>

partial_function (option) skip_blanks :: "bytes \<Rightarrow> addr \<Rightarrow> addr option" where
  "skip_blanks m p = (if m p = 0x20 \<or> m p = 0x09 then skip_blanks m (p + 1) else Some p)"

text \<open>The digit loop of \<open>atoi\<close> (bits = 31) and \<open>atol\<close> (bits = 63).\<close>

partial_function (option) parse_digits :: "nat \<Rightarrow> bytes \<Rightarrow> addr \<Rightarrow> int \<Rightarrow> int option" where
  "parse_digits bits m p result =
     (if 0x30 \<le> m p \<and> m p \<le> 0x39 then
        let r = result * 10 + (uint (m p) - 0x30) in
        if r < 2 ^ bits then parse_digits bits m (p + 1) r else None
      else Some result)"

definition parse_int :: "nat \<Rightarrow> bytes \<Rightarrow> addr \<Rightarrow> int option" where
  "parse_int bits m str =
     (case skip_blanks m str of None \<Rightarrow> None
      | Some p \<Rightarrow>
         (let (sign, q) = (if m p = 0x2D then (- 1, p + 1) else if m p = 0x2B then (1, p + 1) else (1, p))
          in map_option (\<lambda>r. r * sign) (parse_digits bits m q 0)))"

definition atoi :: "bytes \<Rightarrow> addr \<Rightarrow> int option" where
  "atoi m str = parse_int 31 m str"

definition atol :: "bytes \<Rightarrow> addr \<Rightarrow> int option" where
  "atol m str = parse_int 63 m str"

definition digit_value :: "u8 \<Rightarrow> int option" where
  "digit_value c =
     (if 0x30 \<le> c \<and> c \<le> 0x39 then Some (uint c - 0x30)
      else if 0x61 \<le> c \<and> c \<le> 0x7A then Some (uint c - 0x61 + 10)
      else if 0x41 \<le> c \<and> c \<le> 0x5A then Some (uint c - 0x41 + 10)
      else None)"

partial_function (option) strtoul_loop :: "bytes \<Rightarrow> addr \<Rightarrow> int \<Rightarrow> u64 \<Rightarrow> (u64 \<times> addr) option" where
  "strtoul_loop m str base result =
     (if m str = 0 then Some (result, str)
      else case digit_value (m str) of
        None \<Rightarrow> Some (result, str)
      | Some digit \<Rightarrow>
          if base \<le> digit then Some (result, str)
          else strtoul_loop m (str + 1) base (result * of_int base + of_int digit))"

definition strtoul :: "bytes \<Rightarrow> addr \<Rightarrow> int \<Rightarrow> (u64 \<times> addr) option" where
  "strtoul m str base =
     (case skip_blanks m str of None \<Rightarrow> None | Some p \<Rightarrow> strtoul_loop m p base 0)"

definition digit_char :: "u32 \<Rightarrow> u8" where
  "digit_char d = (if d < 10 then 0x30 + ucast d else 0x61 + ucast (d - 10))"

partial_function (option) itoa_digits :: "bytes \<Rightarrow> addr \<Rightarrow> u32 \<Rightarrow> u32 \<Rightarrow> (bytes \<times> addr) option" where
  "itoa_digits m ptr uvalue base =
     (let m' = m(ptr := digit_char (uvalue mod base)) in
      if uvalue div base = 0 then Some (m', ptr + 1)
      else itoa_digits m' (ptr + 1) (uvalue div base) base)"

function itoa_reverse :: "bytes \<Rightarrow> addr \<Rightarrow> addr \<Rightarrow> bytes" where
  "itoa_reverse m low ptr =
     (if low < ptr then itoa_reverse (m(low := m ptr, ptr := m low)) (low + 1) (ptr - 1) else m)"
  by pat_completeness auto
termination
proof (relation "measure (\<lambda>(m, low, ptr). unat ptr)")
  fix m :: bytes and low ptr :: addr
  assume "low < ptr"
  then show "((m(low := m ptr, ptr := m low), low + 1, ptr - 1), m, low, ptr) \<in> measure (\<lambda>(m, low, ptr). unat ptr)"
    by (auto simp: unat_dec word_less_nat_alt)
qed simp

declare itoa_reverse.simps [simp del]

definition itoa :: "bytes \<Rightarrow> u32 \<Rightarrow> addr \<Rightarrow> u32 \<Rightarrow> bytes option" where
  "itoa m value str base =
     (if sint base < 2 \<or> 36 < sint base then Some (m(str := 0))
      else let neg = (sint value < 0 \<and> base = 10);
               m0 = (if neg then m(str := 0x2D) else m);
               start = (if neg then str + 1 else str);
               uvalue = (if sint value < 0 then - value else value)
      in case itoa_digits m0 start uvalue base of None \<Rightarrow> None
         | Some (m1, ptr) \<Rightarrow> Some (itoa_reverse (m1(ptr := 0)) start (ptr - 1)))"

section \<open>The reference: storing a list of bytes\<close>

primrec put :: "bytes \<Rightarrow> addr \<Rightarrow> u8 list \<Rightarrow> bytes" where
  "put m a [] = m"
| "put m a (x # xs) = put (m(a := x)) (a + 1) xs"

definition get :: "bytes \<Rightarrow> addr \<Rightarrow> nat \<Rightarrow> u8 list" where
  "get m a n = map (\<lambda>i. m (a + of_nat i)) [0..<n]"

lemma length_get [simp]: "length (get m a n) = n"
  by (simp add: get_def)

lemma get_nth [simp]: "i < n \<Longrightarrow> get m a n ! i = m (a + of_nat i)"
  by (simp add: get_def)

lemma get_Suc: "get m a (Suc n) = m a # get m (a + 1) n"
proof (rule nth_equalityI)
  fix i assume "i < length (get m a (Suc n))"
  then show "get m a (Suc n) ! i = (m a # get m (a + 1) n) ! i"
    by (cases i) (simp_all add: ac_simps)
qed simp

lemma put_append: "put m a (xs @ ys) = put (put m a xs) (a + of_nat (length xs)) ys"
  by (induction xs arbitrary: m a) (simp_all add: ac_simps)

lemma offset_dec:
  "x \<noteq> a \<Longrightarrow> unat (x - (a + 1) :: u64) = unat (x - a) - 1 \<and> 0 < unat (x - a)"
  using unat_dec [of "x - a"] by (auto simp: algebra_simps unat_gt_0)

text \<open>The memory after a store, address by address; an address is in the range when its (wrapping)
  distance from the start is below the length.\<close>

lemma put_eq:
  assumes "length bs \<le> 2 ^ 64"
  shows "put m a bs x = (if unat (x - a) < length bs then bs ! unat (x - a) else m x)"
  using assms
proof (induction bs arbitrary: m a)
  case Nil
  then show ?case by simp
next
  case (Cons b bs)
  show ?case
  proof (cases "x = a")
    case True
    have "unat (- 1 :: u64) = 2 ^ 64 - 1" by (simp add: unsigned_minus_1_eq_mask mask_eq_exp_minus_1)
    with Cons True show ?thesis by simp
  next
    case False
    from Cons offset_dec [OF False] show ?thesis using False
      by (cases "unat (x - a)") auto
  qed
qed

lemma put_nth: "length bs \<le> 2 ^ 64 \<Longrightarrow> i < length bs \<Longrightarrow> put m a bs (a + of_nat i) = bs ! i"
  by (simp add: put_eq width)

lemma put_get: "length bs \<le> 2 ^ 64 \<Longrightarrow> get (put m a bs) a (length bs) = bs"
  by (auto intro!: nth_equalityI simp: put_nth)

lemma put_same: "length bs \<le> 2 ^ 64 \<Longrightarrow> get m a (length bs) = bs \<Longrightarrow> put m a bs = m"
proof
  fix x assume bs: "length bs \<le> 2 ^ 64" "get m a (length bs) = bs"
  then have "bs ! i = m (a + of_nat i)" if "i < length bs" for i
    using that by (metis get_nth)
  with bs(1) show "put m a bs x = m x" by (simp add: put_eq)
qed

lemma set_bytes_put: "set_bytes m p v n = put m p (replicate n v)"
  by (induction n arbitrary: m p) simp_all

subsection \<open>Words as eight bytes\<close>

lemma fill_step:
  assumes "\<And>k. bit w k \<longleftrightarrow> k < n \<and> bit (v :: u8) (k mod 8)" and "8 dvd n" and "2 * n \<le> 64"
  shows "bit (w OR push_bit n w :: u64) k \<longleftrightarrow> k < 2 * n \<and> bit v (k mod 8)"
proof -
  from assms(2) obtain q where q: "n = 8 * q" by (elim dvdE)
  have m: "(k - n) mod 8 = k mod 8" if "n \<le> k"
    using mod_mult_self2 [of "k - n" 8 q] that unfolding q by simp
  have "bit (push_bit n w) k \<longleftrightarrow> n \<le> k \<and> k < 2 * n \<and> bit v (k mod 8)"
    using m assms(3) unfolding bit_push_bit_iff assms(1) by (cases "n \<le> k") auto
  then show ?thesis unfolding bit_or_iff assms(1) by linarith
qed

lemma bit_fill_word: "bit (fill_word v) k \<longleftrightarrow> k < 64 \<and> bit v (k mod 8)"
proof -
  have "bit (ucast v :: u64) k \<longleftrightarrow> k < 8 \<and> bit v (k mod 8)" for k
    using bit_imp_le_length [of v k] by (cases "k < 8") (auto simp: bit_ucast_iff)
  from fill_step [OF fill_step [OF fill_step [OF this]]] show ?thesis
    by (simp add: fill_word_def Let_def)
qed

lemma byte_of_fill: "i < 8 \<Longrightarrow> (ucast (drop_bit (8 * i) (fill_word v)) :: u8) = v"
  by (rule bit_word_eqI) (simp add: bit_ucast_iff bit_drop_bit_eq bit_fill_word)

lemma bit_load_bytes:
  "n \<le> 8 \<Longrightarrow> bit (load_bytes m a n) k \<longleftrightarrow> k < 8 * n \<and> bit (m (a + of_nat (k div 8))) (k mod 8)"
proof (induction n)
  case 0
  then show ?case by simp
next
  case (Suc n)
  have "bit (push_bit (8 * n) (ucast (m (a + of_nat n))) :: u64) k
      \<longleftrightarrow> 8 * n \<le> k \<and> k < 8 * Suc n \<and> bit (m (a + of_nat (k div 8))) (k mod 8)"
  proof (cases "8 * n \<le> k \<and> k < 8 * Suc n")
    case True
    then have "k div 8 = n" by (intro div_nat_eqI) simp_all
    moreover from this have "k mod 8 = k - 8 * n" using div_mult_mod_eq [of k 8] by linarith
    ultimately show ?thesis using True Suc.prems by (auto simp: bit_push_bit_iff bit_ucast_iff)
  next
    case False
    then show ?thesis
      by (auto simp: bit_push_bit_iff bit_ucast_iff dest: bit_imp_le_length)
  qed
  with Suc show ?case by (auto simp: bit_or_iff)
qed

lemma byte_of_load:
  "i < 8 \<Longrightarrow> (ucast (drop_bit (8 * i) (load_word m a)) :: u8) = m (a + of_nat i)"
  by (rule bit_word_eqI) (auto simp: bit_ucast_iff bit_drop_bit_eq load_word_def bit_load_bytes)

lemma store_word_put:
  "store_word m a w = put m a (map (\<lambda>i. ucast (drop_bit (8 * i) w)) [0..<8])"
proof
  fix x
  show "store_word m a w x = put m a (map (\<lambda>i. ucast (drop_bit (8 * i) w)) [0..<8]) x"
    by (subst put_eq) (auto simp: store_word_def word_less_nat_alt simp del: upt.simps)
qed

lemma store_fill_put: "store_word m a (fill_word v) = put m a (replicate 8 v)"
  unfolding store_word_put
  by (rule arg_cong [of _ _ "put m a"]) (auto intro!: nth_equalityI simp: byte_of_fill)

lemma store_load_put: "store_word m d (load_word m s) = put m d (get m s 8)"
  unfolding store_word_put
  by (rule arg_cong [of _ _ "put m d"]) (auto intro!: nth_equalityI simp: byte_of_load)

section \<open>memset, memcpy and memmove\<close>

lemma set_words_put:
  "set_words m p (fill_word v) n = (m', q, k) \<Longrightarrow>
     set_bytes m' q v k = put m p (replicate n v)"
proof (induction n arbitrary: m p rule: less_induct)
  case (less n)
  show ?case
  proof (cases "8 \<le> n")
    case True
    have "replicate n v = replicate 8 v @ replicate (n - 8) v"
      using True by (simp flip: replicate_add)
    moreover have "set_bytes m' q v k = put (put m p (replicate 8 v)) (p + 8) (replicate (n - 8) v)"
      using less.IH [of "n - 8" "put m p (replicate 8 v)" "p + 8"] less.prems True
      by (simp add: set_words.simps [of m] store_fill_put)
    ultimately show ?thesis by (simp add: put_append)
  next
    case False
    with less.prems show ?thesis by (simp add: set_words.simps [of m] set_bytes_put)
  qed
qed

lemma memset_put: "memset m s c n = put m s (replicate (unat n) (ucast c))"
  using set_words_put [of m s "ucast c" "unat n"]
  by (auto simp: memset_def Let_def set_bytes_put split: prod.split if_splits)

text \<open>
  \<open>memset\<close>, whichever of its word and byte loops runs, stores the low byte of the argument at
  exactly the addresses whose distance from the start is below \<open>n\<close>.
\<close>

theorem memset_correct:
  "memset m s c n x = (if x - s < n then ucast c else m x)"
  using unat_u64_bound [of n]
  by (simp add: memset_put put_eq word_less_nat_alt)

text \<open>A range of \<open>n\<close> bytes at \<open>d\<close> that is not written before it is read at \<open>s\<close>: the destination
  byte \<open>i\<close> is not a source byte \<open>j > i\<close>.\<close>

definition forward_safe :: "addr \<Rightarrow> addr \<Rightarrow> nat \<Rightarrow> bool" where
  "forward_safe d s n \<longleftrightarrow> (\<forall>j < n. \<forall>i < j. d + of_nat i \<noteq> s + of_nat j)"

lemma forward_safeD: "forward_safe d s n \<Longrightarrow> i < j \<Longrightarrow> j < n \<Longrightarrow> d + of_nat i \<noteq> s + of_nat j"
  by (simp add: forward_safe_def)

lemma forward_safe_drop:
  assumes "forward_safe d s n"
  shows "forward_safe (d + of_nat k) (s + of_nat k) (n - k)"
  unfolding forward_safe_def
proof (intro allI impI)
  fix j i assume "j < n - k" "i < j"
  then have "d + of_nat (k + i) \<noteq> s + of_nat (k + j)"
    using assms unfolding forward_safe_def by (metis less_diff_conv2 add.commute add_less_cancel_left less_diff_conv)
  then show "d + of_nat k + of_nat i \<noteq> s + of_nat k + of_nat j" by (simp add: ac_simps)
qed

lemma get_after_put:
  assumes "forward_safe d s (k + n)" and "length bs = k" and "k \<le> 2 ^ 64"
  shows "get (put m d bs) (s + of_nat k) n = get m (s + of_nat k) n"
proof (rule nth_equalityI)
  fix i assume "i < length (get (put m d bs) (s + of_nat k) n)"
  then have i: "i < n" by simp
  let ?x = "s + of_nat k + of_nat i"
  have "\<not> unat (?x - d) < k"
  proof
    assume lt: "unat (?x - d) < k"
    have "d + of_nat (unat (?x - d)) = s + of_nat (k + i)" by (simp add: ac_simps)
    with forward_safeD [OF assms(1), of "unat (?x - d)" "k + i"] lt i show False by simp
  qed
  then show "get (put m d bs) (s + of_nat k) n ! i = get m (s + of_nat k) n ! i"
    using i assms(2,3) by (simp add: put_eq)
qed simp

lemma get_append: "get m s (k + n) = get m s k @ get m (s + of_nat k) n"
  by (rule nth_equalityI) (auto simp: nth_append ac_simps)

lemma copy_bytes_put:
  "forward_safe d s n \<Longrightarrow> copy_bytes m d s n = put m d (get m s n)"
proof (induction n arbitrary: m d s)
  case 0
  then show ?case by (simp add: get_def)
next
  case (Suc n)
  from forward_safe_drop [OF Suc.prems, of 1] have "forward_safe (d + 1) (s + 1) n" by simp
  moreover have "get (m(d := m s)) (s + 1) n = get m (s + 1) n"
    using get_after_put [of d s 1 n "[m s]" m] Suc.prems by simp
  ultimately show ?case by (simp add: Suc.IH get_Suc del: fun_upd_apply)
qed

lemma copy_words_put:
  "forward_safe d s n \<Longrightarrow> copy_words m d s n = (m', d', s', k) \<Longrightarrow>
     copy_bytes m' d' s' k = put m d (get m s n)"
proof (induction n arbitrary: m d s rule: less_induct)
  case (less n)
  show ?case
  proof (cases "8 \<le> n")
    case True
    let ?m = "put m d (get m s 8)"
    have n: "n = 8 + (n - 8)" using True by simp
    have safe: "forward_safe (d + 8) (s + 8) (n - 8)"
      using forward_safe_drop [OF less.prems(1), of 8] by simp
    have "copy_words ?m (d + 8) (s + 8) (n - 8) = (m', d', s', k)"
      using less.prems(2) True by (simp add: copy_words.simps [of m] store_load_put)
    from less.IH [OF _ safe this] True
    have "copy_bytes m' d' s' k = put ?m (d + 8) (get ?m (s + 8) (n - 8))" by simp
    also have "get ?m (s + 8) (n - 8) = get m (s + 8) (n - 8)"
      using get_after_put [of d s 8 "n - 8" "get m s 8" m] less.prems(1) True by simp
    also have "put ?m (d + 8) (get m (s + 8) (n - 8)) = put m d (get m s n)"
      using get_append [of m s 8 "n - 8"] True by (simp add: put_append)
    finally show ?thesis .
  next
    case False
    with less.prems show ?thesis by (simp add: copy_words.simps [of m] copy_bytes_put)
  qed
qed

lemma memcpy_put:
  "forward_safe dest src (unat n) \<Longrightarrow> memcpy m dest src n = put m dest (get m src (unat n))"
  using copy_words_put [of dest src "unat n" m]
  by (auto simp: memcpy_def Let_def copy_bytes_put split: prod.split if_splits)

lemma copy_back_put:
  assumes "n \<le> 2 ^ 64" and "\<forall>j < n. \<forall>i < j. d + of_nat j \<noteq> s + of_nat i"
  shows "copy_back m (d + of_nat n) (s + of_nat n) n = put m d (get m s n)"
  using assms
proof (induction n arbitrary: m)
  case 0
  then show ?case by (simp add: get_def)
next
  case (Suc n)
  let ?v = "m (s + of_nat n)" and ?m = "m(d + of_nat n := m (s + of_nat n))"
  have "copy_back m (d + of_nat (Suc n)) (s + of_nat (Suc n)) (Suc n) = copy_back ?m (d + of_nat n) (s + of_nat n) n"
    by (simp del: fun_upd_apply)
  also have "\<dots> = put ?m d (get ?m s n)"
    using Suc.prems by (intro Suc.IH) auto
  also have "get ?m s n = get m s n"
  proof (rule nth_equalityI)
    fix i assume "i < length (get ?m s n)"
    then have "i < n" by simp
    moreover from this have "s + of_nat i \<noteq> d + of_nat n" using Suc.prems(2) by (metis lessI)
    ultimately show "get ?m s n ! i = get m s n ! i" by simp
  qed simp
  also have "put ?m d (get m s n) = put m d (get m s n @ [?v])"
  proof
    fix x
    have n: "unat (of_nat n :: u64) = n" using Suc.prems(1) by (simp add: width)
    have "x = d + of_nat n \<longleftrightarrow> x - d = of_nat n" by (auto simp: algebra_simps)
    also have "\<dots> \<longleftrightarrow> unat (x - d) = n" by (simp add: word_unat_eq_iff n)
    finally have "x = d + of_nat n \<longleftrightarrow> unat (x - d) = n" .
    with Suc.prems(1) show "put ?m d (get m s n) x = put m d (get m s n @ [?v]) x"
      by (auto simp: put_eq nth_append)
  qed
  also have "get m s n @ [?v] = get m s (Suc n)" by (simp add: get_def)
  finally show ?case .
qed

text \<open>A block that does not run past the end of the address space.\<close>

definition block_ok :: "addr \<Rightarrow> u64 \<Rightarrow> bool" where
  "block_ok a n \<longleftrightarrow> unat a + unat n \<le> 2 ^ 64"

lemma block_offset:
  "block_ok a n \<Longrightarrow> i < unat n \<Longrightarrow> unat (a + of_nat i) = unat a + i"
  using unat_u64_bound [of n] by (subst unat_add_small) (simp_all add: block_ok_def width)

lemma below_forward_safe:
  assumes "block_ok d n" and "block_ok s n" and "d \<le> s"
  shows "forward_safe d s (unat n)"
  unfolding forward_safe_def
proof (intro allI impI)
  fix i j :: nat assume "j < unat n" "i < j"
  with assms show "d + of_nat i \<noteq> s + of_nat j"
    using block_offset [of d n i] block_offset [of s n j] by (auto simp: word_le_nat_alt)
qed

lemma disjoint_forward_safe:
  assumes "block_ok d n" and "block_ok s n" and "d \<le> s \<or> unat s + unat n \<le> unat d"
  shows "forward_safe d s (unat n)"
proof (cases "d \<le> s")
  case False
  show ?thesis
    unfolding forward_safe_def
  proof (intro allI impI)
    fix i j :: nat assume "j < unat n" "i < j"
    with False assms(3) show "d + of_nat i \<noteq> s + of_nat j"
      using block_offset [OF assms(1), of i] block_offset [OF assms(2), of j] by auto
  qed
qed (use assms below_forward_safe in blast)

lemma memmove_put:
  assumes "block_ok d n" and "block_ok s n"
  shows "memmove m d s n = put m d (get m s (unat n))"
proof -
  consider "d < s" | "s < d" | "d = s" by fastforce
  then show ?thesis
  proof cases
    case 1
    with assms show ?thesis by (simp add: memmove_def copy_bytes_put below_forward_safe)
  next
    case 2
    have "d + of_nat j \<noteq> s + of_nat i" if "j < unat n" "i < j" for i j
      using that 2 block_offset [OF assms(1), of j] block_offset [OF assms(2), of i]
      by (auto simp: word_less_nat_alt)
    then have "copy_back m (d + of_nat (unat n)) (s + of_nat (unat n)) (unat n) = put m d (get m s (unat n))"
      using unat_u64_bound [of n] by (intro copy_back_put) auto
    with 2 show ?thesis by (auto simp: memmove_def)
  next
    case 3
    have "put m s (get m s (unat n)) = m"
      using unat_u64_bound [of n] by (simp add: put_same)
    with 3 show ?thesis by (simp add: memmove_def)
  qed
qed

text \<open>
  \<open>memmove\<close> copies the block as it was before the call, overlapping or not, and changes nothing
  else; \<open>memcpy\<close>, by words or by bytes, gives the same result when the destination starts at or
  below the source or the blocks are disjoint.
\<close>

theorem memmove_correct:
  assumes "block_ok d n" and "block_ok s n"
  shows "memmove m d s n x = (if x - d < n then m (s + (x - d)) else m x)
    \<and> (d \<le> s \<or> unat s + unat n \<le> unat d \<longrightarrow> memcpy m d s n = memmove m d s n)"
proof
  show "memmove m d s n x = (if x - d < n then m (s + (x - d)) else m x)"
    using unat_u64_bound [of n] by (simp add: memmove_put [OF assms] put_eq word_less_nat_alt)
  show "d \<le> s \<or> unat s + unat n \<le> unat d \<longrightarrow> memcpy m d s n = memmove m d s n"
    using disjoint_forward_safe [OF assms] by (simp add: memcpy_put memmove_put [OF assms])
qed

theorem memmove_correct_witness:
  "memmove (\<lambda>a. ucast a) 0x1004 0x1000 16 0x1013 = 0x0F"
  using memmove_correct [of "0x1004" 16 "0x1000" "\<lambda>a. ucast a" "0x1013"] by (simp add: block_ok_def)

section \<open>Strings in memory\<close>

primrec cstr :: "bytes \<Rightarrow> addr \<Rightarrow> u8 list \<Rightarrow> bool" where
  "cstr m a [] \<longleftrightarrow> m a = 0"
| "cstr m a (x # xs) \<longleftrightarrow> m a = x \<and> x \<noteq> 0 \<and> cstr m (a + 1) xs"

lemma cstr_iff:
  "cstr m a xs \<longleftrightarrow> get m a (length xs) = xs \<and> 0 \<notin> set xs \<and> m (a + of_nat (length xs)) = 0"
proof (induction xs arbitrary: a)
  case Nil
  then show ?case by (simp add: get_def)
next
  case (Cons x xs)
  then show ?case by (auto simp: get_Suc ac_simps)
qed

lemma cstr_unique: "cstr m a xs \<Longrightarrow> cstr m a ys \<Longrightarrow> xs = ys"
proof (induction xs arbitrary: a ys)
  case Nil
  then show ?case by (cases ys) auto
next
  case (Cons x xs)
  then show ?case by (cases ys) auto
qed

lemma cstr_put: "length xs < 2 ^ 64 \<Longrightarrow> 0 \<notin> set xs \<Longrightarrow> cstr (put m a (xs @ [0])) a xs"
  by (auto simp: cstr_iff put_nth nth_append intro!: nth_equalityI)

lemma scan_nul_cstr: "cstr m a xs \<Longrightarrow> scan_nul m a = Some (a + of_nat (length xs))"
proof (induction xs arbitrary: a)
  case Nil
  then show ?case by (simp add: scan_nul.simps)
next
  case (Cons x xs)
  then show ?case by (subst scan_nul.simps) (simp add: ac_simps)
qed

lemma strlen_cstr: "cstr m a xs \<Longrightarrow> strlen m a = Some (of_nat (length xs))"
  by (simp add: strlen_def scan_nul_cstr)

lemma cstr_shift: "cstr m a xs \<Longrightarrow> k \<le> length xs \<Longrightarrow> cstr m (a + of_nat k) (drop k xs)"
proof (induction xs arbitrary: a k)
  case (Cons x xs)
  show ?case
  proof (cases k)
    case (Suc j)
    with Cons.IH [of "a + 1" j] Cons.prems show ?thesis by (simp add: add.assoc)
  qed (use Cons.prems in simp)
qed simp

subsection \<open>Comparison\<close>

lemma uint_pos_iff: "0 < uint (x :: u8) \<longleftrightarrow> x \<noteq> 0"
  by (simp add: less_le unsigned_eq_0_iff)

lemma uint_inject: "uint (x :: u8) = uint y \<longleftrightarrow> x = y"
  by (simp add: word_uint_eq_iff)

lemma strcmp_cstr:
  "cstr m a xs \<Longrightarrow> cstr m b ys \<Longrightarrow>
     \<exists>r. strcmp m a b = Some r \<and> (r = 0 \<longleftrightarrow> xs = ys) \<and> (r < 0 \<longleftrightarrow> ord_class.lexordp xs ys)"
proof (induction xs arbitrary: a b ys)
  case Nil
  then show ?case
    by (subst strcmp.simps, cases ys) (auto simp: unsigned_eq_0_iff uint_pos_iff)
next
  case (Cons x xs)
  show ?case
  proof (cases ys)
    case Nil
    with Cons.prems show ?thesis
      by (subst strcmp.simps) (auto simp: unsigned_eq_0_iff not_less)
  next
    case (Cons y zs)
    show ?thesis
    proof (cases "x = y")
      case True
      have "strcmp m a b = strcmp m (a + 1) (b + 1)"
        using Cons.prems Cons True by (subst strcmp.simps) simp
      with Cons.IH [of "a + 1" "b + 1" zs] Cons.prems Cons True show ?thesis by auto
    next
      case False
      then have "strcmp m a b = Some (uint x - uint y)"
        using Cons.prems Cons by (subst strcmp.simps) simp
      with False Cons show ?thesis using uint_inject [of x y] by (auto simp: word_less_def)
    qed
  qed
qed

text \<open>
  \<open>strcmp\<close> on two strings returns, with 0 exactly when they are equal and a negative number
  exactly when the first comes before the second in the lexicographic order of unsigned characters.
\<close>

theorem strcmp_correct:
  assumes "cstr m a xs" and "cstr m b ys"
  shows "\<exists>r. strcmp m a b = Some r \<and> (r = 0 \<longleftrightarrow> xs = ys) \<and> (r < 0 \<longleftrightarrow> ord_class.lexordp xs ys)
    \<and> (\<exists>r'. strcmp m b a = Some r' \<and> (r < 0 \<longleftrightarrow> 0 < r'))"
proof -
  obtain r where r: "strcmp m a b = Some r" "r = 0 \<longleftrightarrow> xs = ys" "r < 0 \<longleftrightarrow> ord_class.lexordp xs ys"
    using strcmp_cstr [OF assms] by blast
  obtain r' where r': "strcmp m b a = Some r'" "r' = 0 \<longleftrightarrow> ys = xs" "r' < 0 \<longleftrightarrow> ord_class.lexordp ys xs"
    using strcmp_cstr [OF assms(2,1)] by blast
  have "r < 0 \<longleftrightarrow> 0 < r'"
    using r r' lexordp_antisym [of xs ys] lexordp_linear [of xs ys] lexordp_irreflexive' [of xs]
    by (metis linorder_neqE_linordered_idom less_asym)
  with r r' show ?thesis by blast
qed

text \<open>A small memory for the examples: the strings "ab" at 16, "abc" at 32 and "bc" at 48.\<close>

definition small_mem :: bytes where
  "small_mem = put (put (put (\<lambda>_. 7) 16 [97, 98, 0]) 32 [97, 98, 99, 0]) 48 [98, 99, 0]"

lemma small_mem_strings:
  "cstr small_mem 16 [97, 98]" "cstr small_mem 32 [97, 98, 99]" "cstr small_mem 48 [98, 99]"
  by (simp_all add: small_mem_def)

theorem strcmp_correct_witness: "\<exists>r. strcmp small_mem 16 32 = Some r \<and> r < 0"
  using strcmp_correct [OF small_mem_strings(1,2)] by auto

lemma strncmp_loop_cstr:
  "cstr m a xs \<Longrightarrow> cstr m b ys \<Longrightarrow> strncmp_loop m a b n = 0 \<longleftrightarrow> take n xs = take n ys"
proof (induction n arbitrary: a b xs ys)
  case (Suc n)
  then show ?case
    by (cases xs; cases ys) (auto simp: unsigned_eq_0_iff uint_inject)
qed simp

lemma strnlen_loop_cstr: "cstr m a xs \<Longrightarrow> strnlen_loop m a n = min n (length xs)"
proof (induction n arbitrary: a xs)
  case (Suc n)
  then show ?case by (cases xs) auto
qed simp

subsection \<open>Copying\<close>

lemma get_snoc: "get m a (Suc n) = get m a n @ [m (a + of_nat n)]"
  by (simp add: get_def)

text \<open>One step of a copying loop leaves the rest of the source alone.\<close>

lemma cstr_step:
  assumes "cstr m s (x # xs)" and "forward_safe d s (Suc (length (x # xs)))"
  shows "cstr (m(d := m s)) (s + 1) xs" and "forward_safe (d + 1) (s + 1) (Suc (length xs))"
proof -
  show "forward_safe (d + 1) (s + 1) (Suc (length xs))"
    using forward_safe_drop [OF assms(2), of 1] by simp
  have "get (m(d := m s)) (s + 1) (Suc (length xs)) = get m (s + 1) (Suc (length xs))"
    using get_after_put [of d s 1 "Suc (length xs)" "[m s]" m] assms(2) by simp
  moreover have "cstr m (s + 1) xs" using assms(1) by simp
  ultimately show "cstr (m(d := m s)) (s + 1) xs"
    unfolding cstr_iff get_snoc append1_eq_conv by metis
qed

lemma strcpy_put:
  "cstr m s xs \<Longrightarrow> forward_safe d s (Suc (length xs)) \<Longrightarrow> strcpy m d s = Some (put m d (xs @ [0]))"
proof (induction xs arbitrary: m d s)
  case Nil
  then show ?case by (subst strcpy.simps) (simp add: fun_upd_def)
next
  case (Cons x xs)
  from Cons.IH [OF cstr_step [OF Cons.prems]] Cons.prems(1) show ?case
    by (subst strcpy.simps) (simp add: Let_def del: fun_upd_apply)
qed

lemma strncpy_copy_put:
  "cstr m s xs \<Longrightarrow> forward_safe d s (Suc (length xs)) \<Longrightarrow>
     strncpy_copy m d s n =
       (if length xs < n then (put m d (xs @ [0]), d + of_nat (Suc (length xs)), n - length xs)
        else (put m d (take n xs), d + of_nat n, 0))"
proof (induction n arbitrary: m d s xs)
  case 0
  then show ?case by simp
next
  case (Suc n)
  show ?case
  proof (cases xs)
    case Nil
    with Suc.prems show ?thesis by simp
  next
    case (Cons x zs)
    from Suc.IH [OF cstr_step [OF Suc.prems [unfolded Cons]]] Suc.prems(1) Cons show ?thesis
      by (auto simp: Let_def ac_simps simp del: fun_upd_apply)
  qed
qed

lemma strncpy_put:
  assumes "cstr m s xs" and "forward_safe d s (Suc (length xs))"
  shows "strncpy m d s n =
    put m d (if length xs < unat n then xs @ replicate (unat n + 1 - length xs) 0 else take (unat n) xs)"
proof -
  have "replicate (unat n + 1 - length xs) 0 = (0 :: u8) # replicate (unat n - length xs) 0" if "length xs < unat n"
    using that by (simp add: Suc_diff_le flip: replicate_Suc)
  then show ?thesis
    by (auto simp: strncpy_def strncpy_copy_put [OF assms] set_bytes_put put_append ac_simps
        simp del: replicate_Suc)
qed

text \<open>
  On a source that is not overwritten, \<open>strcpy\<close> and \<open>strcat\<close> return and leave the source's
  characters, after those of the destination for \<open>strcat\<close>, as the string at the destination.
\<close>

theorem strcat_correct:
  assumes "cstr m s xs" and "cstr m d ys" and "length xs + length ys < 2 ^ 64"
    and "forward_safe (d + of_nat (length ys)) s (Suc (length xs))"
  shows "\<exists>m'. strcat m d s = Some m' \<and> cstr m' d (ys @ xs)
    \<and> strcpy m (d + of_nat (length ys)) s = Some m'
    \<and> (\<forall>x. \<not> unat (x - (d + of_nat (length ys))) \<le> length xs \<longrightarrow> m' x = m x)"
proof -
  let ?d = "d + of_nat (length ys)"
  let ?m = "put m ?d (xs @ [0])"
  have "put m d ys = m"
    using assms(2,3) by (intro put_same) (simp_all add: cstr_iff)
  then have "?m = put m d (ys @ xs @ [0])" by (simp add: put_append)
  moreover have "cstr (put m d ((ys @ xs) @ [0])) d (ys @ xs)"
    using assms(1,2,3) by (intro cstr_put) (auto simp: cstr_iff)
  moreover have "strcpy m ?d s = Some ?m"
    using strcpy_put [OF assms(1,4)] .
  moreover have "strcat m d s = strcpy m ?d s"
    using strlen_cstr [OF assms(2)] by (simp add: strcat_def)
  moreover have "\<not> unat (x - ?d) \<le> length xs \<Longrightarrow> ?m x = m x" for x
    using assms(3) by (simp add: put_eq)
  ultimately show ?thesis by (metis append.assoc)
qed

lemma small_mem_safe:
  "forward_safe 18 48 (Suc (Suc (Suc 0)))" "forward_safe 19 16 (Suc (Suc (Suc 0)))"
proof -
  have three: "Suc (Suc (Suc 0)) = unat (3 :: u64)" by simp
  show "forward_safe 18 48 (Suc (Suc (Suc 0)))" "forward_safe 19 16 (Suc (Suc (Suc 0)))"
    unfolding three by (rule disjoint_forward_safe; simp add: block_ok_def)+
qed

theorem strcat_correct_witness:
  "\<exists>m'. strcat small_mem 16 48 = Some m' \<and> cstr m' 16 [97, 98, 98, 99]"
  using strcat_correct [OF small_mem_strings(3,1)] small_mem_safe(1) by auto

text \<open>
  A \<open>strncpy\<close> that finds the end of its source within \<open>n\<close> characters writes \<open>n + 1\<close> bytes: the
  byte just past the buffer of size \<open>n\<close> is set to 0.
\<close>

theorem strncpy_overruns:
  assumes "cstr m s xs" and "forward_safe d s (Suc (length xs))" and "length xs < unat n"
  shows "strncpy m d s n (d + n) = 0 \<and> cstr (strncpy m d s n) d xs"
proof
  let ?bs = "xs @ replicate (unat n + 1 - length xs) 0"
  have s: "strncpy m d s n = put m d ?bs" using assms(3) by (simp add: strncpy_put [OF assms(1,2)])
  have len: "length ?bs = unat n + 1" "unat n + 1 \<le> 2 ^ 64" using assms(3) unat_u64_bound [of n] by auto
  show "strncpy m d s n (d + n) = 0"
    using len assms(3) by (simp add: s put_eq nth_append)
  show "cstr (strncpy m d s n) d xs"
    using assms len by (auto simp: s cstr_iff put_nth nth_append intro!: nth_equalityI)
qed

theorem strncpy_overruns_witness:
  "small_mem 23 = 7 \<and> strncpy small_mem 19 16 4 23 = 0"
proof
  show "small_mem 23 = 7" by (simp add: small_mem_def)
  show "strncpy small_mem 19 16 4 23 = 0"
    using strncpy_overruns [OF small_mem_strings(1), of 19 4] small_mem_safe(2) by simp
qed

subsection \<open>Searching\<close>

lemma strchr_loop_cstr:
  "cstr m s xs \<Longrightarrow> strchr_loop m s ch =
     Some (if ch \<in> set xs \<or> ch = 0 then s + of_nat (length (takeWhile (\<lambda>x. x \<noteq> ch) xs)) else 0)"
proof (induction xs arbitrary: s)
  case Nil
  then show ?case by (subst strchr_loop.simps) simp
next
  case (Cons x xs)
  then show ?case by (subst strchr_loop.simps) (auto simp: ac_simps)
qed

lemma length_takeWhile_less: "\<exists>x \<in> set xs. \<not> P x \<Longrightarrow> length (takeWhile P xs) < length xs"
  by (induction xs) auto

lemma strrchr_loop_cstr:
  "cstr m s xs \<Longrightarrow> strrchr_loop m s ch found =
     Some (if ch = 0 then s + of_nat (length xs)
       else if ch \<in> set xs then s + of_nat (length xs - 1 - length (takeWhile (\<lambda>x. x \<noteq> ch) (rev xs)))
       else found)"
proof (induction xs arbitrary: s found)
  case Nil
  then show ?case by (subst strrchr_loop.simps) simp
next
  case (Cons x xs)
  have "length (takeWhile (\<lambda>x. x \<noteq> ch) (rev xs)) < length xs" if "ch \<in> set xs"
    using that length_takeWhile_less [of "rev xs" "\<lambda>x. x \<noteq> ch"] by auto
  moreover have "takeWhile (\<lambda>x. x \<noteq> ch) (rev xs @ [x]) =
      (if ch \<in> set xs then takeWhile (\<lambda>x. x \<noteq> ch) (rev xs)
       else rev xs @ (if x = ch then [] else [x]))"
    by (auto simp: takeWhile_append)
  ultimately show ?case
    using Cons by (subst strrchr_loop.simps) (auto simp: ac_simps Suc_diff_Suc of_nat_diff)
qed

text \<open>
  \<open>strchr\<close> and \<open>strrchr\<close> return for every string: a pointer to the first, respectively the
  last, occurrence of the character, \<open>NULL\<close> when there is none, and the terminator for character 0.
\<close>

theorem strchr_strrchr_correct:
  assumes "cstr m s xs"
  shows "strchr m s c = Some (if ucast c \<in> set xs \<or> ucast c = (0 :: u8)
      then s + of_nat (length (takeWhile (\<lambda>x. x \<noteq> ucast c) xs)) else 0)
    \<and> strrchr m s c = Some (if ucast c = (0 :: u8) then s + of_nat (length xs)
       else if ucast c \<in> set xs then s + of_nat (length xs - 1 - length (takeWhile (\<lambda>x. x \<noteq> ucast c) (rev xs)))
       else 0)"
  by (simp add: strchr_def strrchr_def strchr_loop_cstr [OF assms] strrchr_loop_cstr [OF assms])

theorem strchr_strrchr_correct_witness: "strchr small_mem 32 98 = Some 33 \<and> strrchr small_mem 32 98 = Some 33"
  using strchr_strrchr_correct [OF small_mem_strings(2), of 98] by simp

definition matches :: "u8 list \<Rightarrow> u8 list \<Rightarrow> nat \<Rightarrow> bool" where
  "matches xs ys k \<longleftrightarrow> k \<le> length xs \<and> take (length ys) (drop k xs) = ys"

lemma strncmp_zero:
  "cstr m a xs \<Longrightarrow> cstr m b ys \<Longrightarrow> length ys < 2 ^ 64 \<Longrightarrow>
     strncmp m a b (of_nat (length ys)) = 0 \<longleftrightarrow> take (length ys) xs = ys"
  by (simp add: strncmp_def strncmp_loop_cstr width)

lemma strstr_loop_cstr:
  "cstr m h xs \<Longrightarrow> cstr m nd ys \<Longrightarrow> length ys < 2 ^ 64 \<Longrightarrow> ys \<noteq> [] \<Longrightarrow>
     \<exists>r. strstr_loop m h nd (of_nat (length ys)) = Some r \<and>
       ((\<exists>k. matches xs ys k \<and> (\<forall>j < k. \<not> matches xs ys j) \<and> r = h + of_nat k)
        \<or> (\<forall>k. \<not> matches xs ys k) \<and> r = 0)"
proof (induction xs arbitrary: h)
  case Nil
  then show ?case by (subst strstr_loop.simps) (auto simp: matches_def)
next
  case (Cons x xs)
  have shift: "matches (x # xs) ys (Suc k) \<longleftrightarrow> matches xs ys k" for k
    by (simp add: matches_def)
  have head: "m h = m nd \<and> strncmp m h nd (of_nat (length ys)) = 0 \<longleftrightarrow> matches (x # xs) ys 0"
    using Cons.prems strncmp_zero [OF Cons.prems(1,2,3)] by (cases ys) (auto simp: matches_def)
  show ?case
  proof (cases "matches (x # xs) ys 0")
    case True
    then show ?thesis
      using Cons.prems(1) head by (subst strstr_loop.simps) (auto intro: exI [of _ 0])
  next
    case False
    obtain r where r: "strstr_loop m (h + 1) nd (of_nat (length ys)) = Some r"
      "(\<exists>k. matches xs ys k \<and> (\<forall>j < k. \<not> matches xs ys j) \<and> r = h + 1 + of_nat k)
       \<or> (\<forall>k. \<not> matches xs ys k) \<and> r = 0"
      using Cons.IH [of "h + 1"] Cons.prems by auto
    have "strstr_loop m h nd (of_nat (length ys)) = Some r"
      using Cons.prems(1) head False r(1) by (subst strstr_loop.simps) auto
    moreover from r(2) have
      "(\<exists>k. matches (x # xs) ys k \<and> (\<forall>j < k. \<not> matches (x # xs) ys j) \<and> r = h + of_nat k)
       \<or> (\<forall>k. \<not> matches (x # xs) ys k) \<and> r = 0"
    proof (elim disjE exE conjE)
      fix k assume k: "matches xs ys k" "\<forall>j < k. \<not> matches xs ys j" "r = h + 1 + of_nat k"
      then have "\<not> matches (x # xs) ys j" if "j < Suc k" for j
        using that False shift by (cases j) auto
      with k shift show ?thesis by (intro disjI1 exI [of _ "Suc k"]) (auto simp: ac_simps)
    next
      assume "\<forall>k. \<not> matches xs ys k" "r = 0"
      with False shift show ?thesis by (metis not0_implies_Suc)
    qed
    ultimately show ?thesis by blast
  qed
qed

text \<open>
  \<open>strstr\<close> returns for every pair of strings: a pointer to the first occurrence of the needle
  in the haystack, or \<open>NULL\<close> when there is none.
\<close>

theorem strstr_correct:
  assumes "cstr m h xs" and "cstr m nd ys" and "length ys < 2 ^ 64"
  shows "\<exists>r. strstr m h nd = Some r \<and>
       ((\<exists>k. matches xs ys k \<and> (\<forall>j < k. \<not> matches xs ys j) \<and> r = h + of_nat k)
        \<or> (\<forall>k. \<not> matches xs ys k) \<and> r = 0)"
proof (cases "ys = []")
  case True
  with assms show ?thesis by (auto simp: strstr_def matches_def)
next
  case False
  with assms have "m nd \<noteq> 0" by (cases ys) auto
  with strstr_loop_cstr [OF assms False] strlen_cstr [OF assms(2)] show ?thesis
    by (simp add: strstr_def)
qed

theorem strstr_correct_witness: "strstr small_mem 32 48 = Some 33"
proof -
  have "matches [97, 98, 99] [98, 99] 1" "\<not> matches [97, 98, 99] [98, 99 :: u8] 0"
    by (simp_all add: matches_def)
  moreover have "k = 1" if "matches [97, 98, 99] [98, 99 :: u8] k" "\<forall>j < k. \<not> matches [97, 98, 99] [98, 99 :: u8] j" for k
    using that calculation by (metis One_nat_def less_Suc0 linorder_neqE_nat not_less_eq)
  moreover obtain r where "strstr small_mem 32 48 = Some r"
    "(\<exists>k. matches [97, 98, 99] [98, 99] k \<and> (\<forall>j < k. \<not> matches [97, 98, 99] [98, 99] j) \<and> r = 32 + of_nat k)
     \<or> (\<forall>k. \<not> matches [97, 98, 99] [98, 99] k) \<and> r = 0"
    using strstr_correct [OF small_mem_strings(2,3)] by auto
  ultimately show ?thesis by fastforce
qed

section \<open>Printing and parsing numbers\<close>

lemma div_shrinks: "0 < u div b \<Longrightarrow> \<not> b < 2 \<Longrightarrow> u div b < (u :: nat)"
  by (cases u) (auto intro: div_less_dividend)

function rev_digits :: "nat \<Rightarrow> nat \<Rightarrow> nat list" where
  "rev_digits b u = u mod b # (if u div b = 0 \<or> b < 2 then [] else rev_digits b (u div b))"
  by pat_completeness auto
termination
  by (relation "measure snd") (auto intro: div_shrinks)

declare rev_digits.simps [simp del]

lemma rev_digits_bound: "2 \<le> b \<Longrightarrow> d \<in> set (rev_digits b u) \<Longrightarrow> d < b"
proof (induction b u rule: rev_digits.induct)
  case (1 b u)
  then show ?case by (subst (asm) (2) rev_digits.simps) (auto split: if_splits)
qed

lemma rev_digits_value: "2 \<le> b \<Longrightarrow> foldr (\<lambda>d v. v * b + d) (rev_digits b u) 0 = u"
proof (induction b u rule: rev_digits.induct)
  case (1 b u)
  have "u div b = 0 \<Longrightarrow> u mod b = u" using div_mult_mod_eq [of u b] by simp
  with 1 show ?case by (subst rev_digits.simps) auto
qed

lemma rev_digits_length: "2 \<le> b \<Longrightarrow> u < b ^ Suc k \<Longrightarrow> length (rev_digits b u) \<le> Suc k"
proof (induction k arbitrary: u)
  case 0
  then show ?case by (subst rev_digits.simps) simp
next
  case (Suc k)
  then have "u div b < b ^ Suc k"
    by (simp add: div_less_iff_less_mult ac_simps)
  with Suc show ?case by (subst rev_digits.simps) simp
qed

lemma rev_digits_nonempty [simp]: "rev_digits b u \<noteq> []" "0 < length (rev_digits b u)"
  by (subst rev_digits.simps, simp)+

definition digit_text :: "nat \<Rightarrow> u8" where
  "digit_text d = digit_char (of_nat d)"

lemma itoa_digits_put:
  assumes "2 \<le> unat b"
  shows "itoa_digits m p u b =
    Some (put m p (map digit_text (rev_digits (unat b) (unat u))), p + of_nat (length (rev_digits (unat b) (unat u))))"
proof (induction "unat u" arbitrary: m p u rule: less_induct)
  case less
  have c: "digit_char (u mod b) = digit_text (unat u mod unat b)"
    by (simp add: digit_text_def flip: unat_mod)
  show ?case
  proof (cases "u div b = 0")
    case True
    then have "unat u div unat b = 0" by (simp flip: unat_div)
    with True c show ?thesis
      by (subst itoa_digits.simps, subst (1 2) rev_digits.simps) (simp add: Let_def fun_upd_def)
  next
    case False
    then have nz: "unat u div unat b \<noteq> 0" by (simp add: unat_eq_zero flip: unat_div)
    then have "unat (u div b) < unat u" using assms div_shrinks [of "unat u" "unat b"] by (simp add: unat_div)
    from less [OF this] False nz c assms show ?thesis
      by (subst itoa_digits.simps, subst (1 2) rev_digits.simps)
        (simp add: Let_def unat_div ac_simps del: fun_upd_apply)
  qed
qed

lemma itoa_reverse_eq:
  "itoa_reverse m lo hi x = (if lo \<le> x \<and> x \<le> hi then m (lo + (hi - x)) else m x)"
proof (induction m lo hi arbitrary: x rule: itoa_reverse.induct)
  case (1 m lo hi)
  show ?case
  proof (cases "lo < hi")
    case True
    let ?m = "m(lo := m hi, hi := m lo)"
    have un: "unat (lo + 1) = unat lo + 1" "unat (hi - 1) = unat hi - 1"
      using True unat_u64_bound [of hi] unat_add_small [of lo 1] unat_dec [of hi]
      by (auto simp: word_less_nat_alt)
    have range: "lo + 1 \<le> x \<and> x \<le> hi - 1 \<longleftrightarrow> lo < x \<and> x < hi"
      using True un by (auto simp: word_less_nat_alt word_le_nat_alt)
    have "itoa_reverse m lo hi x = (if lo < x \<and> x < hi then ?m (lo + (hi - x)) else ?m x)"
      using 1 [OF True, of x] True range by (simp add: itoa_reverse.simps [of m lo] del: fun_upd_apply)
    moreover have "?m (lo + (hi - x)) = m (lo + (hi - x))" if "lo < x" "x < hi"
      using that by (auto simp: algebra_simps)
    ultimately show ?thesis using True by (auto simp: not_less)
  next
    case False
    then have "x = lo \<and> hi = lo" if "lo \<le> x" "x \<le> hi" using that by auto
    with False show ?thesis by (auto simp: itoa_reverse.simps [of m lo])
  qed
qed

lemma itoa_reverse_put:
  assumes "xs \<noteq> []" and "unat a + length xs < 2 ^ 64"
  shows "itoa_reverse (put m a (xs @ [0])) a (a + of_nat (length xs) - 1) = put m a (rev xs @ [0])"
proof
  fix x
  let ?n = "length xs" and ?hi = "a + of_nat (length xs) - 1"
  have n: "0 < ?n" using assms(1) by simp
  have hi: "unat ?hi = unat a + ?n - 1"
    using assms(2) n by (subst unat_sub_small) (simp_all add: width Suc_le_eq)
  have inside: "unat (x - a) < ?n \<longleftrightarrow> a \<le> x \<and> x \<le> ?hi"
  proof
    assume "unat (x - a) < ?n"
    moreover have "unat (a + (x - a)) = unat a + unat (x - a)"
      using \<open>unat (x - a) < ?n\<close> assms(2) by (intro unat_add_small) simp
    ultimately show "a \<le> x \<and> x \<le> ?hi"
      unfolding word_le_nat_alt hi by simp
  next
    assume "a \<le> x \<and> x \<le> ?hi"
    then show "unat (x - a) < ?n"
      using n unfolding word_le_nat_alt hi by (subst unat_sub_small; linarith)
  qed
  have mirror: "put m a (xs @ [0]) (a + (?hi - x)) = (xs @ [0]) ! (?n - 1 - unat (x - a))" if "unat (x - a) < ?n"
  proof -
    have "a + (?hi - x) - a = of_nat (?n - 1) - (x - a)"
      using assms(1) by (cases xs) (simp_all add: algebra_simps)
    moreover have "unat (of_nat (?n - 1) - (x - a)) = ?n - 1 - unat (x - a)"
      using that assms(2) by (subst unat_sub_small) (simp_all add: width)
    ultimately have "unat (a + (?hi - x) - a) = ?n - 1 - unat (x - a)" by (simp only:)
    then show ?thesis using assms(2) n by (subst put_eq) (simp_all add: less_Suc_eq_le)
  qed
  have "itoa_reverse (put m a (xs @ [0])) a ?hi x =
      (if unat (x - a) < ?n then put m a (xs @ [0]) (a + (?hi - x)) else put m a (xs @ [0]) x)"
    by (simp only: itoa_reverse_eq inside)
  also have "\<dots> = (if unat (x - a) < ?n then (xs @ [0]) ! (?n - 1 - unat (x - a)) else put m a (xs @ [0]) x)"
    by (rule if_cong [OF refl mirror refl])
  also have "\<dots> = put m a (rev xs @ [0]) x"
    using assms(2) n by (simp add: put_eq nth_append rev_nth)
  finally show "itoa_reverse (put m a (xs @ [0])) a ?hi x = put m a (rev xs @ [0]) x" .
qed

lemma itoa_put:
  fixes base v :: u32
  assumes "2 \<le> unat base" and "unat base \<le> 36" and "unat str + 34 < 2 ^ 64"
  shows "itoa m v str base = Some (put m str
    ((if sint v < 0 \<and> base = 10 then [0x2D] else []) @
     map digit_text (rev (rev_digits (unat base) (unat (if sint v < 0 then - v else v)))) @ [0]))"
proof -
  let ?neg = "sint v < 0 \<and> base = 10"
  let ?u = "if sint v < 0 then - v else v"
  let ?ds = "rev_digits (unat base) (unat ?u)"
  let ?a = "if ?neg then str + 1 else str"
  let ?m = "if ?neg then m(str := 0x2D) else m"
  obtain b where b: "unat base = b" by blast
  have range: "\<not> (sint base < 2 \<or> 36 < sint base)"
    using assms(1,2) sint_small [of base] unfolding b by simp
  have "unat ?u < 2 ^ 32" using unsigned_less [of ?u] by simp
  also have "(2 :: nat) ^ 32 \<le> unat base ^ 32" using assms(1) by (intro power_mono) simp_all
  finally have len: "length ?ds \<le> 32" using rev_digits_length [OF assms(1), of "unat ?u" 31] by simp
  have a: "unat ?a \<le> unat str + 1" using assms(3) by (simp add: unat_add_small)
  have digits: "itoa_digits ?m ?a ?u base = Some (put ?m ?a (map digit_text ?ds), ?a + of_nat (length ?ds))"
    by (rule itoa_digits_put [OF assms(1)])
  have nul: "(put ?m ?a (map digit_text ?ds))(?a + of_nat (length ?ds) := 0) = put ?m ?a (map digit_text ?ds @ [0])"
    by (simp add: put_append)
  have rev: "itoa_reverse (put ?m ?a (map digit_text ?ds @ [0])) ?a (?a + of_nat (length ?ds) - 1)
      = put ?m ?a (map digit_text (rev ?ds) @ [0])"
    using itoa_reverse_put [of "map digit_text ?ds" ?a ?m] a len assms(3) by (simp add: rev_map)
  have "itoa m v str base = Some (put ?m ?a (map digit_text (rev ?ds) @ [0]))"
    using range digits nul rev unfolding itoa_def Let_def by (simp del: fun_upd_apply)
  also have "put ?m ?a (map digit_text (rev ?ds) @ [0])
      = put m str ((if ?neg then [0x2D] else []) @ map digit_text (rev ?ds) @ [0])"
  proof (cases ?neg)
    case True
    then show ?thesis by (simp del: fun_upd_apply)
  next
    case False
    then show ?thesis by (simp only: if_False append_Nil)
  qed
  finally show ?thesis .
qed

lemma digit_text_small:
  assumes "d < 10"
  shows "digit_text d = 0x30 + of_nat d" "uint (digit_text d) = 0x30 + int d"
    "0x30 \<le> digit_text d" "digit_text d \<le> 0x39" "digit_text d \<noteq> 0"
proof -
  have d: "unat (of_nat d :: u32) = d" "unat (of_nat d :: u8) = d" using assms by (simp_all add: width)
  then have "(of_nat d :: u32) < 10" using assms by (simp add: word_less_nat_alt)
  moreover have "(ucast (of_nat d :: u32) :: u8) = of_nat d"
    using assms by (simp add: unsigned_of_nat take_bit_nat_eq_self)
  ultimately show t: "digit_text d = 0x30 + of_nat d"
    by (simp add: digit_text_def digit_char_def)
  have n: "unat (digit_text d) = 48 + d"
    unfolding t using assms d by (subst unat_add_small) simp_all
  then show "uint (digit_text d) = 0x30 + int d" "0x30 \<le> digit_text d" "digit_text d \<le> 0x39"
    using assms by (simp_all add: uint_nat word_le_nat_alt)
  then show "digit_text d \<noteq> 0" by auto
qed

lemma foldl_digits_mono: "0 \<le> acc \<Longrightarrow> acc \<le> foldl (\<lambda>a d. a * 10 + int d) acc ds"
proof (induction ds arbitrary: acc)
  case (Cons d ds)
  from Cons.IH [of "acc * 10 + int d"] Cons.prems show ?case by simp
qed simp

definition decimal :: "int \<Rightarrow> nat list \<Rightarrow> int" where
  "decimal acc ds = foldl (\<lambda>a d. a * 10 + int d) acc ds"

lemma parse_digits_cstr:
  "cstr m p (map digit_text ds) \<Longrightarrow> \<forall>d \<in> set ds. d < 10 \<Longrightarrow> 0 \<le> acc \<Longrightarrow> acc < 2 ^ bits \<Longrightarrow>
     parse_digits bits m p acc = (if decimal acc ds < 2 ^ bits then Some (decimal acc ds) else None)"
proof (induction ds arbitrary: p acc)
  case Nil
  then show ?case by (subst parse_digits.simps) (simp add: decimal_def)
next
  case (Cons d ds)
  from Cons.prems have d: "m p = digit_text d" "d < 10" by auto
  have "acc * 10 + int d \<le> decimal acc (d # ds)"
    using foldl_digits_mono [of "acc * 10 + int d" ds] Cons.prems(3) by (simp add: decimal_def)
  moreover have "decimal (acc * 10 + int d) ds = decimal acc (d # ds)" by (simp add: decimal_def)
  ultimately show ?case
    using Cons.IH [of "p + 1" "acc * 10 + int d"] Cons.prems d
    by (subst parse_digits.simps) (simp add: digit_text_small(2,3,4) Let_def)
qed

lemma parse_int_cstr:
  assumes "cstr m p ((if neg then [0x2D] else []) @ map digit_text ds)"
    and "ds \<noteq> []" and "\<forall>d \<in> set ds. d < 10"
  shows "parse_int bits m p =
    (if decimal 0 ds < 2 ^ bits then Some ((if neg then - 1 else 1) * decimal 0 ds) else None)"
proof -
  have first: "digit_text (hd ds) \<notin> {0x20, 0x09, 0x2D, 0x2B}"
    using assms(2,3) digit_text_small(3) [of "hd ds"] by (auto simp: word_le_nat_alt)
  obtain d ds' where ds: "ds = d # ds'" using assms(2) by (cases ds) auto
  show ?thesis
  proof (cases neg)
    case True
    with assms(1) have "skip_blanks m p = Some p" by (subst skip_blanks.simps) simp
    with True assms parse_digits_cstr [of m "p + 1" ds 0 bits] show ?thesis
      by (simp add: parse_int_def)
  next
    case False
    with assms(1) first ds have "m p \<notin> {0x20, 0x09, 0x2D, 0x2B}" by auto
    moreover from this have "skip_blanks m p = Some p" by (subst skip_blanks.simps) simp
    ultimately show ?thesis using False assms parse_digits_cstr [of m p ds 0 bits]
      by (simp add: parse_int_def)
  qed
qed

lemma decimal_rev_digits: "decimal 0 (rev (rev_digits 10 u)) = int u"
proof -
  have "foldr (\<lambda>d a. a * 10 + int d) ds 0 = int (foldr (\<lambda>d v. v * 10 + d) ds 0)" for ds
    by (induction ds) simp_all
  then show ?thesis using rev_digits_value [of 10 u] by (simp add: decimal_def foldl_conv_foldr)
qed

text \<open>
  \<open>itoa\<close> in base 10 returns for every value, writes at most 12 bytes from the start of its
  buffer, and the text parses back with \<open>atoi\<close> to the value; for the smallest integer the text is
  written but \<open>atoi\<close> overflows on it.
\<close>

theorem itoa_atoi_roundtrip:
  assumes "unat str + 34 < 2 ^ 64"
  shows "\<exists>m'. itoa m v str 10 = Some m'
    \<and> atoi m' str = (if v = 0x80000000 then None else Some (sint v))
    \<and> (\<forall>x. 12 \<le> x - str \<longrightarrow> m' x = m x)"
proof -
  let ?u = "if sint v < 0 then - v else v"
  let ?ds = "rev (rev_digits 10 (unat ?u))"
  let ?bs = "(if sint v < 0 then [0x2D] else []) @ map digit_text ?ds"
  let ?m = "put m str (?bs @ [0])"
  have u: "int (unat ?u) = (if sint v < 0 then - sint v else sint v)"
    by (rule int_magnitude)
  have "- (2 ^ 31) \<le> sint v" "sint v < 2 ^ 31"
    using sint_greater_eq [of v] sint_less [of v] by simp_all
  with u have "int (unat ?u) \<le> 2 ^ 31" by (auto split: if_splits)
  moreover obtain k where "unat ?u = k" by blast
  ultimately have "unat ?u < 10 ^ Suc 9" by (simp only:) simp
  then have len: "length (rev_digits 10 (unat ?u)) \<le> 10" by (intro rev_digits_length [of 10 _ 9, simplified]) simp_all
  have small: "\<forall>d \<in> set ?ds. d < 10" using rev_digits_bound [of 10] by simp
  have m: "itoa m v str 10 = Some ?m"
    using itoa_put [of 10 str m v] assms by simp
  have "cstr ?m str ?bs"
    using len small digit_text_small(5) by (intro cstr_put) (auto simp: image_iff)
  from parse_int_cstr [OF this _ small, of 31]
  have at: "atoi ?m str = (if int (unat ?u) < 2 ^ 31
      then Some (if sint v < 0 then - int (unat ?u) else int (unat ?u)) else None)"
    by (simp add: atoi_def decimal_rev_digits)
  have "atoi ?m str = (if v = 0x80000000 then None else Some (sint v))"
  proof (cases "v = 0x80000000")
    case True
    then show ?thesis unfolding at by simp
  next
    case False
    then have "sint v \<noteq> - (2 ^ 31)" using signed_word_eqI [of v "0x80000000"] by auto
    then have "int (unat ?u) < 2 ^ 31"
      unfolding u using \<open>- (2 ^ 31) \<le> sint v\<close> \<open>sint v < 2 ^ 31\<close> by simp
    then show ?thesis using False unfolding at u by auto
  qed
  moreover have "?m x = m x" if "12 \<le> x - str" for x
  proof -
    have "length (?bs @ [0]) \<le> 12" using len by auto
    with that show ?thesis
      by (subst put_eq) (auto simp: word_le_nat_alt)
  qed
  ultimately show ?thesis using m by blast
qed

theorem itoa_atoi_roundtrip_witness:
  "\<exists>m'. itoa (\<lambda>_. 7) (- 42) 0x1000 10 = Some m' \<and> atoi m' 0x1000 = Some (- 42)"
  using itoa_atoi_roundtrip [of "0x1000" "\<lambda>_. 7" "- 42"] by auto

end
