(* ===== verification/KHeap.thy ===== *)
theory KHeap
  imports Pmm CString
begin

text \<open>
  The kernel heap of mm.c: a linked list of blocks, each a 24-byte header followed by its payload.
  Headers are a store from addresses to records (a header is read and written through a pointer to
  it), the payload bytes are a byte memory; the layout invariant keeps headers and payloads apart,
  so that the two stores do not alias.  The search follows \<open>next\<close> pointers and is a partial
  function: on a cyclic list it does not return.  \<open>None\<close> also stands for the out-of-bounds read that
  \<open>pmm_alloc_n\<close> makes for an oversized request.  The lock makes each operation one step here.
\<close>

section \<open>State and operations\<close>

record heap_block =
  bsize :: u64
  used :: u32
  magic :: u32
  next_block :: addr

record kheap =
  hdrs :: "addr \<Rightarrow> heap_block"
  heap_start :: addr
  heap_pages :: pmm
  payload :: bytes

definition HEAP_MAGIC :: u32 where "HEAP_MAGIC = 0xCE150007"

definition HEADER :: u64 where "HEADER = 24"

definition kmalloc_init :: "kheap \<Rightarrow> addr \<Rightarrow> addr \<Rightarrow> kheap" where
  "kmalloc_init s start stop =
     s\<lparr>heap_start := start,
       hdrs := (hdrs s)(start := \<lparr>bsize = (stop - start) - HEADER, used = 0, magic = HEAP_MAGIC, next_block = 0\<rparr>)\<rparr>"

datatype scan = Fit addr | Corrupt addr | NoFit

partial_function (option) heap_scan :: "(addr \<Rightarrow> heap_block) \<Rightarrow> addr \<Rightarrow> u64 \<Rightarrow> scan option" where
  "heap_scan h cur sz =
     (if cur = 0 then Some NoFit
      else if magic (h cur) \<noteq> HEAP_MAGIC then Some (Corrupt cur)
      else if used (h cur) = 0 \<and> sz \<le> bsize (h cur) then Some (Fit cur)
      else heap_scan h (next_block (h cur)) sz)"

text \<open>The block found is split when the rest can hold a header and 16 bytes, and marked used.\<close>

definition take_block :: "(addr \<Rightarrow> heap_block) \<Rightarrow> addr \<Rightarrow> u64 \<Rightarrow> addr \<Rightarrow> heap_block" where
  "take_block h cur sz =
     (let h' = (if sz + HEADER + 16 \<le> bsize (h cur) then
                  let new = cur + HEADER + sz;
                      h1 = h(new := \<lparr>bsize = bsize (h cur) - sz - HEADER, used = 0, magic = HEAP_MAGIC,
                                     next_block = next_block (h cur)\<rparr>)
                  in h1(cur := (h1 cur)\<lparr>bsize := sz, next_block := new\<rparr>)
                else h)
      in h'(cur := (h' cur)\<lparr>used := 1\<rparr>))"

text \<open>Adding pages at the head of the list; the second component is false when no run was found.\<close>

definition grow :: "kheap \<Rightarrow> u64 \<Rightarrow> (kheap \<times> bool) option" where
  "grow s sz =
     (let pages_needed = ALIGN_UP (sz + HEADER) PAGE_SIZE div PAGE_SIZE in
      case pmm_alloc_n (heap_pages s) pages_needed of
        None \<Rightarrow> None
      | Some (p', new_pages) \<Rightarrow>
          if new_pages = 0 then Some (s\<lparr>heap_pages := p'\<rparr>, False)
          else Some (s\<lparr>heap_pages := p', heap_start := new_pages,
                 hdrs := (hdrs s)(new_pages := \<lparr>bsize = pages_needed * PAGE_SIZE - HEADER, used = 0,
                            magic = HEAP_MAGIC, next_block = heap_start s\<rparr>)\<rparr>, True))"

partial_function (option) kmalloc :: "kheap \<Rightarrow> u64 \<Rightarrow> (kheap \<times> addr) option" where
  "kmalloc s req =
     (if req = 0 then Some (s, 0)
      else let sz = ALIGN_UP req 16 in
        case heap_scan (hdrs s) (heap_start s) sz of
          None \<Rightarrow> None
        | Some (Corrupt a) \<Rightarrow> Some (s, 0)
        | Some (Fit b) \<Rightarrow> Some (s\<lparr>hdrs := take_block (hdrs s) b sz\<rparr>, b + HEADER)
        | Some NoFit \<Rightarrow>
            (case grow s sz of
               None \<Rightarrow> None
             | Some (s', ok) \<Rightarrow> if ok then kmalloc s' sz else Some (s', 0)))"

definition kfree :: "kheap \<Rightarrow> addr \<Rightarrow> kheap" where
  "kfree s ptr =
     (if ptr = 0 then s
      else let block = ptr - HEADER; h = hdrs s in
        if magic (h block) \<noteq> HEAP_MAGIC then s
        else if used (h block) = 0 then s
        else let h1 = h(block := (h block)\<lparr>used := 0\<rparr>);
                 nxt = next_block (h1 block)
             in if nxt \<noteq> 0 \<and> used (h1 nxt) = 0
                then s\<lparr>hdrs := h1(block := (h1 block)\<lparr>bsize := bsize (h1 block) + (HEADER + bsize (h1 nxt)),
                                                   next_block := next_block (h1 nxt)\<rparr>)\<rparr>
                else s\<lparr>hdrs := h1\<rparr>)"

definition kcalloc :: "kheap \<Rightarrow> u64 \<Rightarrow> u64 \<Rightarrow> (kheap \<times> addr) option" where
  "kcalloc s nmemb sz =
     (let total = nmemb * sz in
      case kmalloc s total of None \<Rightarrow> None
      | Some (s', ptr) \<Rightarrow>
          Some (if ptr \<noteq> 0 then s'\<lparr>payload := memset (payload s') ptr 0 total\<rparr> else s', ptr))"

definition krealloc :: "kheap \<Rightarrow> addr \<Rightarrow> u64 \<Rightarrow> (kheap \<times> addr) option" where
  "krealloc s ptr new_size =
     (if ptr = 0 then kmalloc s new_size
      else if new_size = 0 then Some (kfree s ptr, 0)
      else let block = ptr - HEADER in
        if new_size \<le> bsize (hdrs s block) then Some (s, ptr)
        else case kmalloc s new_size of None \<Rightarrow> None
          | Some (s', new_ptr) \<Rightarrow>
              if new_ptr \<noteq> 0
              then Some (kfree (s'\<lparr>payload := memcpy (payload s') new_ptr ptr (bsize (hdrs s' block))\<rparr>) ptr, new_ptr)
              else Some (s', new_ptr))"

section \<open>Layout\<close>

definition footprint :: "(addr \<Rightarrow> heap_block) \<Rightarrow> addr \<Rightarrow> nat set" where
  "footprint h b = {unat b..<unat b + 24 + unat (bsize (h b))}"

fun chain :: "(addr \<Rightarrow> heap_block) \<Rightarrow> addr \<Rightarrow> addr list \<Rightarrow> bool" where
  "chain h a [] \<longleftrightarrow> a = 0"
| "chain h a (b # bs) \<longleftrightarrow> a = b \<and> b \<noteq> 0 \<and> chain h (next_block (h b)) bs"

definition block_good :: "(addr \<Rightarrow> heap_block) \<Rightarrow> addr \<Rightarrow> bool" where
  "block_good h b \<longleftrightarrow> magic (h b) = HEAP_MAGIC \<and> unat b + 24 + unat (bsize (h b)) \<le> 2 ^ 64"

definition layout :: "(addr \<Rightarrow> heap_block) \<Rightarrow> addr list \<Rightarrow> bool" where
  "layout h bs \<longleftrightarrow> (\<forall>b \<in> set bs. block_good h b) \<and> sorted_wrt (\<lambda>A B. A \<inter> B = {}) (map (footprint h) bs)"

definition heap_ok :: "kheap \<Rightarrow> addr list \<Rightarrow> bool" where
  "heap_ok s bs \<longleftrightarrow> chain (hdrs s) (heap_start s) bs \<and> layout (hdrs s) bs
     \<and> pmm_inv (heap_pages s) \<and> (\<Union>b \<in> set bs. footprint (hdrs s) b) \<inter> pool_bytes (heap_pages s) = {}"

section \<open>The list of blocks\<close>

lemma chain_unique: "chain h a bs \<Longrightarrow> chain h a cs \<Longrightarrow> bs = cs"
proof (induction bs arbitrary: a cs)
  case Nil
  then show ?case by (cases cs) auto
next
  case (Cons b bs)
  then show ?case by (cases cs) auto
qed

lemma chain_cong: "(\<And>b. b \<in> set bs \<Longrightarrow> next_block (h' b) = next_block (h b)) \<Longrightarrow> chain h' a bs \<longleftrightarrow> chain h a bs"
  by (induction bs arbitrary: a) auto

lemma chain_insert:
  assumes "chain h a (xs @ b # ys)" and "\<And>c. c \<in> set xs \<union> set ys \<Longrightarrow> h' c = h c"
    and "next_block (h' b) = n" and "chain h' n zs" and "b \<notin> set xs"
  shows "chain h' a (xs @ b # zs)"
  using assms
proof (induction xs arbitrary: a)
  case Nil
  then show ?case by auto
next
  case (Cons x xs)
  then show ?case by auto
qed

lemma chain_next: "chain h a (xs @ b # ys) \<Longrightarrow> chain h (next_block (h b)) ys"
  by (induction xs arbitrary: a) auto

lemma chain_nonzero: "chain h a bs \<Longrightarrow> b \<in> set bs \<Longrightarrow> b \<noteq> 0"
  by (induction bs arbitrary: a) auto

lemma heap_scan_chain:
  "chain h a bs \<Longrightarrow> \<forall>b \<in> set bs. magic (h b) = HEAP_MAGIC \<Longrightarrow>
     heap_scan h a sz = Some (case find (\<lambda>b. used (h b) = 0 \<and> sz \<le> bsize (h b)) bs of
        None \<Rightarrow> NoFit | Some b \<Rightarrow> Fit b)"
proof (induction bs arbitrary: a)
  case Nil
  then show ?case by (subst heap_scan.simps) simp
next
  case (Cons b bs)
  then show ?case by (subst heap_scan.simps) auto
qed

lemma footprint_self: "unat b \<in> footprint h b"
  by (simp add: footprint_def)

lemma footprint_cong: "bsize (h' b) = bsize (h b) \<Longrightarrow> footprint h' b = footprint h b"
  by (simp add: footprint_def)

text \<open>A layout seen from one of its blocks.\<close>

lemma layout_split:
  "layout h (xs @ b # ys) \<longleftrightarrow> layout h (xs @ ys) \<and> block_good h b
     \<and> (\<forall>c \<in> set xs \<union> set ys. footprint h b \<inter> footprint h c = {})"
  by (simp add: layout_def sorted_wrt_append Int_commute) blast

lemma layout_cong:
  assumes "\<And>b. b \<in> set bs \<Longrightarrow> h' b = h b"
  shows "layout h' bs \<longleftrightarrow> layout h bs"
proof -
  have m: "map (footprint h') bs = map (footprint h) bs"
    using assms by (auto simp: footprint_def)
  show ?thesis unfolding layout_def m using assms by (auto simp: block_good_def)
qed

lemma layout_distinct: "layout h bs \<Longrightarrow> distinct bs"
proof (induction bs)
  case (Cons b bs)
  have "b \<notin> set bs"
    using Cons.prems footprint_self [of b h] by (auto simp: layout_def)
  with Cons show ?case by (simp add: layout_def)
qed simp

lemma layout_disjoint:
  assumes "layout h bs" and "b \<in> set bs" and "c \<in> set bs" and "b \<noteq> c"
  shows "footprint h b \<inter> footprint h c = {}"
proof -
  from assms(2) obtain xs ys where bs: "bs = xs @ b # ys" by (meson split_list)
  with assms show ?thesis using layout_split [of h xs b ys] by auto
qed

section \<open>Taking a block\<close>

definition live :: "(addr \<Rightarrow> heap_block) \<Rightarrow> addr list \<Rightarrow> addr set" where
  "live h bs = {b \<in> set bs. used (h b) \<noteq> 0}"

lemma unat_HEADER [simp]: "unat HEADER = 24"
  by (simp add: HEADER_def)

lemma take_block_whole:
  assumes "\<not> sz + HEADER + 16 \<le> bsize (h b)"
  shows "take_block h b sz = h(b := (h b)\<lparr>used := 1\<rparr>)"
  using assms by (simp add: take_block_def)

lemma take_block_split:
  assumes "sz + HEADER + 16 \<le> bsize (h b)" and "b + HEADER + sz \<noteq> b"
  shows "take_block h b sz = h(b + HEADER + sz := \<lparr>bsize = bsize (h b) - sz - HEADER, used = 0,
        magic = HEAP_MAGIC, next_block = next_block (h b)\<rparr>,
      b := (h b)\<lparr>bsize := sz, next_block := b + HEADER + sz, used := 1\<rparr>)"
  using assms by (auto simp: take_block_def Let_def)

text \<open>Splitting or not, the blocks after the operation cover the same bytes, only the block taken
  becomes live, and the headers of all other blocks are as before.\<close>

lemma take_block_ok:
  assumes "chain h a (xs @ b # ys)" and "layout h (xs @ b # ys)" and "sz \<le> bsize (h b)"
    and "unat sz + 40 < 2 ^ 64" and "used (h b) = 0"
  defines "h' \<equiv> take_block h b sz"
  shows "\<exists>zs. chain h' a (xs @ b # zs) \<and> layout h' (xs @ b # zs)
    \<and> (\<Union>c \<in> set (xs @ b # zs). footprint h' c) = (\<Union>c \<in> set (xs @ b # ys). footprint h c)
    \<and> live h' (xs @ b # zs) = insert b (live h (xs @ b # ys))
    \<and> (\<forall>c \<in> set xs \<union> set ys. h' c = h c) \<and> used (h' b) = 1 \<and> sz \<le> bsize (h' b)
    \<and> footprint h' b \<subseteq> footprint h b"
proof -
  have b: "block_good h b" "b \<notin> set xs" "b \<notin> set ys" "b \<noteq> 0"
    and L: "layout h (xs @ ys)" "\<forall>c \<in> set xs \<union> set ys. footprint h b \<inter> footprint h c = {}"
    using assms(2) layout_split layout_distinct [OF assms(2)] chain_nonzero [OF assms(1), of b] by auto
  show ?thesis
  proof (cases "sz + HEADER + 16 \<le> bsize (h b)")
    case False
    then have h': "h' = h(b := (h b)\<lparr>used := 1\<rparr>)" unfolding h'_def by (rule take_block_whole)
    have fp: "footprint h' = footprint h" by (auto simp: h' footprint_def fun_eq_iff)
    have same: "\<forall>c \<in> set xs \<union> set ys. h' c = h c" using b by (auto simp: h')
    have "chain h' a (xs @ b # ys)" using assms(1) by (subst chain_cong [of _ _ h]) (auto simp: h')
    moreover have "layout h' (xs @ b # ys)"
      using L b same layout_cong [of "xs @ ys" h' h] unfolding layout_split fp by (auto simp: block_good_def h')
    moreover have "live h' (xs @ b # ys) = insert b (live h (xs @ b # ys))"
      using b by (auto simp: live_def h')
    ultimately show ?thesis using same fp assms(3) by (intro exI [of _ ys]) (auto simp: h')
  next
    case True
    let ?n = "b + HEADER + sz"
    let ?r = "bsize (h b) - sz - HEADER"
    have sum: "unat (sz + HEADER + 16) = unat sz + 40"
      using assms(4) by (simp add: unat_add_small HEADER_def)
    with True have fits: "unat sz + 40 \<le> unat (bsize (h b))" by (simp add: word_le_nat_alt)
    have end_b: "unat b + 24 + unat (bsize (h b)) \<le> 2 ^ 64" using b(1) by (simp add: block_good_def)
    have "unat (b + HEADER) = unat b + 24"
      using end_b fits by (subst unat_add_small) simp_all
    then have n: "unat ?n = unat b + 24 + unat sz"
      using end_b fits by (subst unat_add_small) simp_all
    have r: "unat ?r = unat (bsize (h b)) - unat sz - 24"
      using fits by (simp add: unat_sub_small)
    have "unat ?n \<noteq> unat b" using n by simp
    then have "?n \<noteq> b" by metis
    then have h': "h' = h(?n := \<lparr>bsize = ?r, used = 0, magic = HEAP_MAGIC, next_block = next_block (h b)\<rparr>,
        b := (h b)\<lparr>bsize := sz, next_block := ?n, used := 1\<rparr>)"
      unfolding h'_def using True by (intro take_block_split)
    have "unat ?n \<in> footprint h b" using n fits by (simp add: footprint_def)
    then have notin: "?n \<notin> set xs \<union> set ys" using L(2) footprint_self by blast
    have same: "\<forall>c \<in> set xs \<union> set ys. h' c = h c" using b notin by (auto simp: h')
    have fb: "footprint h' b = {unat b..<unat b + 24 + unat sz}" by (simp add: footprint_def h')
    have fn: "footprint h' ?n = {unat b + 24 + unat sz..<unat b + 24 + unat (bsize (h b))}"
      using \<open>?n \<noteq> b\<close> n r fits by (auto simp: footprint_def h')
    have un: "footprint h b = footprint h' b \<union> footprint h' ?n"
      unfolding fb fn using fits by (auto simp: footprint_def)
    have nz: "?n \<noteq> 0" using n by auto
    have "chain h' (next_block (h b)) ys"
      using chain_next [OF assms(1)] same by (subst chain_cong [of _ _ h]) auto
    then have "chain h' ?n (?n # ys)" using nz \<open>?n \<noteq> b\<close> by (simp add: h')
    moreover have "next_block (h' b) = ?n" by (simp add: h')
    ultimately have ch: "chain h' a (xs @ b # ?n # ys)"
      using chain_insert [OF assms(1), of h' ?n "?n # ys"] same b(2) by blast
    have fo: "footprint h' c = footprint h c" if "c \<in> set xs \<union> set ys" for c
      using same that by (simp add: footprint_def)
    have "layout h' (xs @ ys)" using L(1) same layout_cong [of "xs @ ys" h' h] by auto
    then have lay: "layout h' (xs @ b # ?n # ys)"
      using layout_split [of h' "xs @ [b]" ?n ys] layout_split [of h' xs b ys] L(2) fo un fb fn end_b fits \<open>?n \<noteq> b\<close> b n r
      by (auto simp: block_good_def h')
    have "live h' (xs @ b # ?n # ys) = insert b (live h (xs @ b # ys))"
      using b notin \<open>?n \<noteq> b\<close> same by (auto simp: live_def h')
    with ch lay same un fo show ?thesis by (intro exI [of _ "?n # ys"]) (auto simp: h')
  qed
qed

section \<open>Requests\<close>

definition pages_for :: "u64 \<Rightarrow> u64" where
  "pages_for sz = ALIGN_UP (sz + HEADER) PAGE_SIZE div PAGE_SIZE"

text \<open>The requests for which no size computation wraps and the page search stays in the bit map.\<close>

definition request_ok :: "kheap \<Rightarrow> u64 \<Rightarrow> bool" where
  "request_ok s req \<longleftrightarrow> req \<noteq> 0 \<and> unat req + 4160 \<le> 2 ^ 64
     \<and> room_for (heap_pages s) (pages_for (ALIGN_UP req 16))"

lemma rounded_request:
  assumes "unat req + 4160 \<le> 2 ^ 64"
  shows "unat req \<le> unat (ALIGN_UP req 16)" "unat (ALIGN_UP req 16) < unat req + 16"
    "unat (ALIGN_UP req 16) mod 16 = 0"
proof -
  have "unat (ALIGN_UP req 16) = (unat req + 15) div 16 * 16"
    using assms unat_ALIGN_UP [of req 4] by simp
  then show "unat req \<le> unat (ALIGN_UP req 16)" "unat (ALIGN_UP req 16) < unat req + 16"
    "unat (ALIGN_UP req 16) mod 16 = 0"
    using div_mult_mod_eq [of "unat req + 15" 16] mod_less_divisor [of 16 "unat req + 15"]
    by (linarith, linarith, simp)
qed

lemma aligned_fixed:
  assumes "unat x mod 16 = 0" and "unat x + 16 \<le> 2 ^ 64"
  shows "ALIGN_UP x 16 = x"
proof -
  from assms(1) obtain q where q: "unat x = 16 * q" by (auto elim: dvdE simp: mod_eq_0_iff_dvd)
  have "unat (ALIGN_UP x 16) = (unat x + 15) div 16 * 16"
    using assms(2) unat_ALIGN_UP [of x 4] by simp
  also have "\<dots> = unat x" unfolding q by simp
  finally show ?thesis by (simp add: word_unat_eq_iff)
qed

lemma pages_for_size:
  assumes "unat sz + 24 + 4096 \<le> 2 ^ 64"
  shows "unat sz + 24 \<le> unat (pages_for sz) * 4096" "unat (pages_for sz) * 4096 < 2 ^ 64"
    "unat (pages_for sz * PAGE_SIZE - HEADER) = unat (pages_for sz) * 4096 - 24"
proof -
  have s: "unat (sz + HEADER) = unat sz + 24" using assms by (subst unat_add_small) simp_all
  have "unat (ALIGN_UP (sz + HEADER) PAGE_SIZE) = (unat sz + 24 + 4095) div 4096 * 4096"
    using assms unat_ALIGN_UP [of "sz + HEADER" 12] by (simp add: s PAGE_SIZE_def)
  then have p: "unat (pages_for sz) = (unat sz + 24 + 4095) div 4096"
    by (simp add: pages_for_def unat_div)
  then show "unat sz + 24 \<le> unat (pages_for sz) * 4096" "unat (pages_for sz) * 4096 < 2 ^ 64"
    using assms div_mult_mod_eq [of "unat sz + 24 + 4095" 4096]
      mod_less_divisor [of 4096 "unat sz + 24 + 4095"] by simp_all
  then show "unat (pages_for sz * PAGE_SIZE - HEADER) = unat (pages_for sz) * 4096 - 24"
    by (subst unat_sub_small) (simp_all add: unat_mult_small)
qed

lemma heap_okD:
  assumes "heap_ok s bs"
  shows "chain (hdrs s) (heap_start s) bs" "layout (hdrs s) bs" "pmm_inv (heap_pages s)"
    "(\<Union>b \<in> set bs. footprint (hdrs s) b) \<inter> pool_bytes (heap_pages s) = {}"
    "\<forall>b \<in> set bs. magic (hdrs s b) = HEAP_MAGIC"
  using assms by (auto simp: heap_ok_def layout_def block_good_def)

lemma grow_ok:
  assumes "heap_ok s bs" and "unat sz + 24 + 4096 \<le> 2 ^ 64" and "room_for (heap_pages s) (pages_for sz)"
  shows "\<exists>s' ok. grow s sz = Some (s', ok) \<and> payload s' = payload s
    \<and> room_for (heap_pages s') = room_for (heap_pages s)
    \<and> (if ok then \<exists>n. n \<notin> set bs \<and> heap_ok s' (n # bs) \<and> (\<forall>c. c \<noteq> n \<longrightarrow> hdrs s' c = hdrs s c)
          \<and> used (hdrs s' n) = 0 \<and> sz \<le> bsize (hdrs s' n)
       else heap_ok s' bs \<and> hdrs s' = hdrs s)"
proof -
  note H = heap_okD [OF assms(1)]
  let ?k = "pages_for sz"
  from runs.alloc_n_returns [OF H(3) assms(3)] obtain p' r
    where r: "pmm_alloc_n (heap_pages s) ?k = Some (p', r)" "pmm_inv p'" "room_for p' = room_for (heap_pages s)" by blast
  show ?thesis
  proof (cases "r = 0")
    case True
    with r have g: "grow s sz = Some (s\<lparr>heap_pages := p'\<rparr>, False)" by (simp add: grow_def Let_def pages_for_def)
    have "pool_bytes p' = pool_bytes (heap_pages s)"
      using runs.alloc_n_fails [OF H(3) assms(3)] r True by simp
    with g r H show ?thesis
      by (intro exI [of _ "s\<lparr>heap_pages := p'\<rparr>"] exI [of _ False]) (simp add: heap_ok_def)
  next
    case False
    let ?b = "\<lparr>bsize = ?k * PAGE_SIZE - HEADER, used = 0, magic = HEAP_MAGIC, next_block = heap_start s\<rparr>"
    let ?h = "(hdrs s)(r := ?b)"
    have g: "grow s sz = Some (s\<lparr>heap_pages := p', heap_start := r, hdrs := ?h\<rparr>, True)"
      using False r by (simp add: grow_def Let_def pages_for_def)
    note size = pages_for_size [OF assms(2)]
    note takes = runs.alloc_n_takes [OF H(3) assms(3) r(1) False]
    note dis = runs.alloc_n_disjoint [OF H(3) assms(3) r(1) False H(4)]
    have fr: "footprint ?h r = pages_at r ?k"
      using size takes by (simp add: footprint_def pages_at_def)
    have "unat r \<in> pages_at r ?k" using fr footprint_self [of r ?h] by simp
    then have notin: "r \<notin> set bs" using dis(1) footprint_self [of r "hdrs s"] by blast
    then have fo: "footprint ?h b = footprint (hdrs s) b" if "b \<in> set bs" for b
      using that by (auto simp: footprint_def)
    have "chain ?h (heap_start s) bs \<longleftrightarrow> chain (hdrs s) (heap_start s) bs"
      using notin by (intro chain_cong) auto
    then have "chain ?h r (r # bs)" using H(1) False by simp
    moreover have "layout ?h bs \<longleftrightarrow> layout (hdrs s) bs" using notin by (intro layout_cong) auto
    then have "layout ?h bs" using H(2) by simp
    then have "layout ?h (r # bs)"
      using layout_split [of ?h "[]" r bs] fr fo dis(1) size takes by (auto simp: block_good_def)
    moreover have "(\<Union>b \<in> set (r # bs). footprint ?h b) \<inter> pool_bytes p' = {}"
      using dis(2) fr fo by auto
    ultimately have "heap_ok (s\<lparr>heap_pages := p', heap_start := r, hdrs := ?h\<rparr>) (r # bs)"
      using r by (simp add: heap_ok_def)
    moreover have "sz \<le> bsize (?h r)" using size by (simp add: word_le_nat_alt)
    ultimately show ?thesis using g r notin by (intro exI [of _ "s\<lparr>heap_pages := p', heap_start := r, hdrs := ?h\<rparr>"] exI [of _ True]) auto
  qed
qed

section \<open>Allocation\<close>

text \<open>The outcome of an allocation from the blocks \<open>bs\<close>: the blocks are well laid out afterwards,
  live blocks keep their headers, and the pointer, if there is one, is to a block that has become
  live, is large enough and overlaps no block that was live before.\<close>

definition malloc_post :: "kheap \<Rightarrow> addr list \<Rightarrow> u64 \<Rightarrow> kheap \<Rightarrow> addr \<Rightarrow> bool" where
  "malloc_post s bs sz s' p \<longleftrightarrow> (\<exists>bs'. heap_ok s' bs' \<and> payload s' = payload s
     \<and> room_for (heap_pages s') = room_for (heap_pages s)
     \<and> (\<forall>c \<in> live (hdrs s) bs. hdrs s' c = hdrs s c)
     \<and> (if p = 0 then live (hdrs s') bs' = live (hdrs s) bs
          \<and> (\<forall>b \<in> set bs. used (hdrs s b) \<noteq> 0 \<or> bsize (hdrs s b) < sz)
        else \<exists>b. p = b + HEADER \<and> b \<notin> live (hdrs s) bs \<and> live (hdrs s') bs' = insert b (live (hdrs s) bs)
          \<and> sz \<le> bsize (hdrs s' b)
          \<and> (\<forall>c \<in> live (hdrs s) bs. footprint (hdrs s') b \<inter> footprint (hdrs s) c = {})))"

lemma unat_payload:
  "block_good h b \<Longrightarrow> 0 < unat (bsize (h b)) \<Longrightarrow> unat (b + HEADER) = unat b + 24"
  by (subst unat_add_small) (simp_all add: block_good_def)

lemma payload_nonzero:
  assumes "block_good h b" and "0 < unat (bsize (h b))"
  shows "b + HEADER \<noteq> 0"
proof
  assume "b + HEADER = 0"
  then show False using unat_payload [OF assms] by simp
qed

lemma kmalloc_fit:
  assumes "heap_ok s bs" and "unat sz + 40 < 2 ^ 64" and "0 < unat sz"
    and "find (\<lambda>b. used (hdrs s b) = 0 \<and> sz \<le> bsize (hdrs s b)) bs = Some b"
  shows "malloc_post s bs sz (s\<lparr>hdrs := take_block (hdrs s) b sz\<rparr>) (b + HEADER)"
proof -
  note H = heap_okD [OF assms(1)]
  let ?h = "hdrs s" and ?h' = "take_block (hdrs s) b sz"
  from assms(4) have b: "b \<in> set bs" "used (?h b) = 0" "sz \<le> bsize (?h b)"
    by (auto simp: find_Some_iff)
  from b(1) obtain xs ys where bs: "bs = xs @ b # ys" by (meson split_list)
  from take_block_ok [of ?h "heap_start s" xs b ys sz] H(1,2) b assms(2) obtain zs where
    T: "chain ?h' (heap_start s) (xs @ b # zs)" "layout ?h' (xs @ b # zs)"
      "(\<Union>c \<in> set (xs @ b # zs). footprint ?h' c) = (\<Union>c \<in> set bs. footprint ?h c)"
      "live ?h' (xs @ b # zs) = insert b (live ?h bs)"
      "\<forall>c \<in> set xs \<union> set ys. ?h' c = ?h c" "sz \<le> bsize (?h' b)" "footprint ?h' b \<subseteq> footprint ?h b"
    unfolding bs by blast
  have good: "block_good ?h b" using H(2) b(1) by (simp add: layout_def)
  have "0 < unat (bsize (?h b))" using b(3) assms(3) by (simp add: word_le_nat_alt)
  then have nz: "b + HEADER \<noteq> 0" by (rule payload_nonzero [OF good])
  have notlive: "b \<notin> live ?h bs" using b(2) by (simp add: live_def)
  have same: "?h' c = ?h c" if "c \<in> live ?h bs" for c
    using that T(5) notlive bs by (auto simp: live_def)
  have "footprint ?h' b \<inter> footprint ?h c = {}" if "c \<in> live ?h bs" for c
  proof -
    have "c \<in> set bs" "b \<noteq> c" using that notlive by (auto simp: live_def)
    then show ?thesis using layout_disjoint [OF H(2) b(1)] T(7) by blast
  qed
  moreover have "heap_ok (s\<lparr>hdrs := ?h'\<rparr>) (xs @ b # zs)"
    using T H by (simp add: heap_ok_def)
  ultimately show ?thesis
    unfolding malloc_post_def
    using T same nz notlive by (intro exI [of _ "xs @ b # zs"]) auto
qed

text \<open>When pages were added at the front, the retry finds the new block at once.\<close>

lemma malloc_post_grown:
  assumes "heap_ok s bs" and "heap_ok s1 (n # bs)" and "n \<notin> set bs" and "used (hdrs s1 n) = 0"
    and "\<forall>c. c \<noteq> n \<longrightarrow> hdrs s1 c = hdrs s c" and "payload s1 = payload s"
    and "room_for (heap_pages s1) = room_for (heap_pages s)"
    and "malloc_post s1 (n # bs) sz s' p" and "p \<noteq> 0"
  shows "malloc_post s bs sz s' p"
proof -
  have lv: "live (hdrs s1) (n # bs) = live (hdrs s) bs"
    using assms(3,4,5) by (auto simp: live_def)
  have same: "hdrs s1 c = hdrs s c" "footprint (hdrs s1) c = footprint (hdrs s) c" if "c \<in> live (hdrs s) bs" for c
    using that assms(3,5) by (auto simp: live_def footprint_def)
  from assms(8,9) obtain bs' b where
    R: "heap_ok s' bs'" "payload s' = payload s" "room_for (heap_pages s') = room_for (heap_pages s)"
      "\<forall>c \<in> live (hdrs s) bs. hdrs s' c = hdrs s1 c" "p = b + HEADER" "b \<notin> live (hdrs s) bs"
      "live (hdrs s') bs' = insert b (live (hdrs s) bs)" "sz \<le> bsize (hdrs s' b)"
      "\<forall>c \<in> live (hdrs s) bs. footprint (hdrs s') b \<inter> footprint (hdrs s1) c = {}"
    unfolding malloc_post_def lv assms(6,7) by auto
  show ?thesis
    unfolding malloc_post_def
    using R same assms(9) by (intro exI [of _ bs']) auto
qed

lemma kmalloc_post:
  assumes "heap_ok s bs" and "request_ok s req"
  shows "\<exists>s' p. kmalloc s req = Some (s', p) \<and> malloc_post s bs (ALIGN_UP req 16) s' p"
proof -
  note H = heap_okD [OF assms(1)]
  let ?sz = "ALIGN_UP req 16"
  let ?fit = "\<lambda>s b. used (hdrs s b) = 0 \<and> ?sz \<le> bsize (hdrs s b)"
  have req: "req \<noteq> 0" "unat req + 4160 \<le> 2 ^ 64" "room_for (heap_pages s) (pages_for ?sz)"
    using assms(2) by (auto simp: request_ok_def)
  note sz = rounded_request [OF req(2)]
  have sz0: "0 < unat ?sz" using sz(1) req(1) unat_gt_0 [of req] by linarith
  have b: "unat ?sz + 40 < 2 ^ 64" "unat ?sz + 24 + 4096 \<le> 2 ^ 64" using sz(2) req(2) by simp_all
  have scan: "heap_scan (hdrs s) (heap_start s) ?sz = Some (case find (?fit s) bs of None \<Rightarrow> NoFit | Some b \<Rightarrow> Fit b)"
    using heap_scan_chain [OF H(1,5)] .
  show ?thesis
  proof (cases "find (?fit s) bs")
    case (Some c)
    then have "kmalloc s req = Some (s\<lparr>hdrs := take_block (hdrs s) c ?sz\<rparr>, c + HEADER)"
      using scan req(1) by (subst kmalloc.simps) (simp add: Let_def)
    with kmalloc_fit [OF assms(1) b(1) sz0 Some] show ?thesis by blast
  next
    case None
    obtain s1 ok where g: "grow s ?sz = Some (s1, ok)" "payload s1 = payload s"
      "room_for (heap_pages s1) = room_for (heap_pages s)"
      "if ok then \<exists>n. n \<notin> set bs \<and> heap_ok s1 (n # bs) \<and> (\<forall>c. c \<noteq> n \<longrightarrow> hdrs s1 c = hdrs s c)
          \<and> used (hdrs s1 n) = 0 \<and> ?sz \<le> bsize (hdrs s1 n)
       else heap_ok s1 bs \<and> hdrs s1 = hdrs s"
      using grow_ok [OF assms(1) b(2) req(3)] by blast
    have k: "kmalloc s req = (if ok then kmalloc s1 ?sz else Some (s1, 0))"
      using scan None req(1) g(1) by (subst kmalloc.simps) (simp add: Let_def)
    show ?thesis
    proof (cases ok)
      case False
      have "\<forall>b \<in> set bs. used (hdrs s b) \<noteq> 0 \<or> bsize (hdrs s b) < ?sz"
        using None by (auto simp: find_None_iff)
      then have "malloc_post s bs ?sz s1 0"
        unfolding malloc_post_def using g False by (intro exI [of _ bs]) auto
      with k False show ?thesis by auto
    next
      case True
      with g obtain n where n: "n \<notin> set bs" "heap_ok s1 (n # bs)" "\<forall>c. c \<noteq> n \<longrightarrow> hdrs s1 c = hdrs s c"
        "used (hdrs s1 n) = 0" "?sz \<le> bsize (hdrs s1 n)" by auto
      note H1 = heap_okD [OF n(2)]
      have f: "find (?fit s1) (n # bs) = Some n" using n by simp
      have al: "ALIGN_UP ?sz 16 = ?sz" using sz(3) b by (intro aligned_fixed) auto
      have "heap_scan (hdrs s1) (heap_start s1) ?sz = Some (Fit n)"
        using heap_scan_chain [OF H1(1,5), of ?sz] n by simp
      moreover have "?sz \<noteq> 0" using sz0 by auto
      ultimately have "kmalloc s1 ?sz = Some (s1\<lparr>hdrs := take_block (hdrs s1) n ?sz\<rparr>, n + HEADER)"
        by (subst kmalloc.simps) (simp add: Let_def al)
      moreover have post: "malloc_post s1 (n # bs) ?sz (s1\<lparr>hdrs := take_block (hdrs s1) n ?sz\<rparr>) (n + HEADER)"
        by (rule kmalloc_fit [OF n(2) b(1) sz0 f])
      moreover have "n + HEADER \<noteq> 0"
        using payload_nonzero [of "hdrs s1" n] H1(2) n(5) sz0 by (simp add: layout_def word_le_nat_alt)
      ultimately show ?thesis
        using k True malloc_post_grown [OF assms(1) n(2,1,4,3) g(2,3) post] by auto
    qed
  qed
qed


definition small_heap :: kheap where
  "small_heap = \<lparr>hdrs = (\<lambda>a. \<lparr>bsize = if a = 0x41000000 then 4072 else 64, used = if a = 0x41000000 then 1 else 0,
       magic = HEAP_MAGIC, next_block = if a = 0x41000000 then 0x50000000 else 0\<rparr>),
     heap_start = 0x41000000, heap_pages = take_page small_pmm 0, payload = (\<lambda>_. 0)\<rparr>"

lemma small_heap_pool:
  "pool_bytes (take_page small_pmm 0) \<subseteq> {0x41001000..<0x41008000}" "0x41001000 \<in> pool_bytes (take_page small_pmm 0)"
proof -
  have reg: "region_ok small_pmm" using small_pmm_inv by (simp add: pmm_inv_def)
  have a: "unat (page_addr small_pmm i) = 0x41000000 + i * 4096" if "i < 8" for i
    using that unat_page_addr [OF reg, of i] by (simp add: small_pmm_inv) (simp add: small_pmm_def pmm_fresh_def)
  have f: "free_idx small_pmm = {..<8}"
    using small_pmm_all_free small_pmm_inv free_idxD by fastforce
  have p: "pool_bytes (take_page small_pmm 0) = (\<Union>i \<in> {..<8} - {0}. {0x41000000 + i * 4096..<0x41000000 + i * 4096 + 4096})"
    unfolding pool_bytes_def free_idx_take_page f using a by (intro SUP_cong) (auto simp: take_page_def page_addr_def)
  show "pool_bytes (take_page small_pmm 0) \<subseteq> {0x41001000..<0x41008000}" unfolding p by auto
  show "0x41001000 \<in> pool_bytes (take_page small_pmm 0)" unfolding p by (intro UN_I [of 1]) auto
qed

lemma small_heap_ok: "heap_ok small_heap [0x41000000, 0x50000000]"
  using small_pmm_in_use(1) small_heap_pool(1)
  by (auto simp: heap_ok_def small_heap_def layout_def block_good_def footprint_def)

lemma small_heap_request: "request_ok small_heap 48"
  using small_pmm_inv(2)
  by (simp add: request_ok_def room_for_def pages_for_def ALIGN_UP_def HEADER_def PAGE_SIZE_def)
     (simp add: small_heap_def take_page_def)


section \<open>The interface for blocks\<close>

locale block_source =
  fixes alloc :: "'s \<Rightarrow> u64 \<Rightarrow> ('s \<times> addr) option"
    and inv :: "'s \<Rightarrow> bool"
    and admissible :: "'s \<Rightarrow> u64 \<Rightarrow> bool"
    and allocated :: "'s \<Rightarrow> addr set"
    and extent :: "'s \<Rightarrow> addr \<Rightarrow> nat set"
  assumes alloc_returns: "inv s \<Longrightarrow> admissible s n \<Longrightarrow>
      \<exists>s' p. alloc s n = Some (s', p) \<and> inv s' \<and> admissible s' = admissible s"
    and alloc_null: "inv s \<Longrightarrow> admissible s n \<Longrightarrow> alloc s n = Some (s', 0) \<Longrightarrow> allocated s' = allocated s"
    and alloc_fresh: "inv s \<Longrightarrow> admissible s n \<Longrightarrow> alloc s n = Some (s', p) \<Longrightarrow> p \<noteq> 0 \<Longrightarrow>
      p \<notin> allocated s \<and> allocated s' = insert p (allocated s) \<and> unat n \<le> card (extent s' p)"
    and alloc_keeps: "inv s \<Longrightarrow> admissible s n \<Longrightarrow> alloc s n = Some (s', p) \<Longrightarrow>
      q \<in> allocated s \<Longrightarrow> extent s' q = extent s q"
    and extents_disjoint: "inv s \<Longrightarrow> p \<in> allocated s \<Longrightarrow> q \<in> allocated s \<Longrightarrow> p \<noteq> q \<Longrightarrow>
      extent s p \<inter> extent s q = {}"

text \<open>A series of allocations, stopping at the first that fails.\<close>

fun alloc_seq :: "('s \<Rightarrow> u64 \<Rightarrow> ('s \<times> addr) option) \<Rightarrow> u64 list \<Rightarrow> 's \<Rightarrow> ('s \<times> addr list) option" where
  "alloc_seq alloc [] s = Some (s, [])"
| "alloc_seq alloc (n # ns) s =
     (case alloc s n of None \<Rightarrow> None
      | Some (s1, p) \<Rightarrow> if p = 0 then Some (s1, [])
          else (case alloc_seq alloc ns s1 of None \<Rightarrow> None | Some (s2, ps) \<Rightarrow> Some (s2, p # ps)))"

context block_source begin

lemma alloc_seq_blocks:
  assumes "inv s" and "\<forall>n \<in> set ns. admissible s n"
  shows "\<exists>s' ps. alloc_seq alloc ns s = Some (s', ps) \<and> inv s' \<and> distinct ps
    \<and> set ps \<inter> allocated s = {} \<and> allocated s' = allocated s \<union> set ps
    \<and> (\<forall>q \<in> allocated s. extent s' q = extent s q)
    \<and> (\<forall>i < length ps. unat (ns ! i) \<le> card (extent s' (ps ! i)))"
  using assms
proof (induction ns arbitrary: s)
  case Nil
  then show ?case by simp
next
  case (Cons n ns)
  from Cons.prems have adm: "admissible s n" by simp
  from alloc_returns [OF Cons.prems(1) adm] obtain s1 p
    where s1: "alloc s n = Some (s1, p)" "inv s1" "admissible s1 = admissible s" by blast
  note keep = alloc_keeps [OF Cons.prems(1) adm s1(1)]
  show ?case
  proof (cases "p = 0")
    case True
    with s1 alloc_null [OF Cons.prems(1) adm] keep show ?thesis by auto
  next
    case False
    note fresh = alloc_fresh [OF Cons.prems(1) adm s1(1) False]
    from Cons.IH [OF s1(2)] Cons.prems(2) s1(3) obtain s2 ps where
      R: "alloc_seq alloc ns s1 = Some (s2, ps)" "inv s2" "distinct ps" "set ps \<inter> allocated s1 = {}"
        "allocated s2 = allocated s1 \<union> set ps" "\<forall>q \<in> allocated s1. extent s2 q = extent s1 q"
        "\<forall>i < length ps. unat (ns ! i) \<le> card (extent s2 (ps ! i))" by auto
    have "unat ((n # ns) ! i) \<le> card (extent s2 ((p # ps) ! i))" if "i < length (p # ps)" for i
      using that R(6,7) fresh by (cases i) auto
    with R s1(1) False fresh keep show ?thesis by auto
  qed
qed

end

definition heap_inv :: "kheap \<Rightarrow> bool" where
  "heap_inv s \<longleftrightarrow> (\<exists>bs. heap_ok s bs)"

definition heap_live :: "kheap \<Rightarrow> addr set" where
  "heap_live s = {p. \<exists>bs. heap_ok s bs \<and> p - HEADER \<in> live (hdrs s) bs}"

definition payload_range :: "kheap \<Rightarrow> addr \<Rightarrow> nat set" where
  "payload_range s p = {unat (p - HEADER) + 24..<unat (p - HEADER) + 24 + unat (bsize (hdrs s (p - HEADER)))}"

lemma heap_ok_unique: "heap_ok s bs \<Longrightarrow> heap_ok s cs \<Longrightarrow> bs = cs"
  using chain_unique by (auto simp: heap_ok_def)

lemma heap_live_eq:
  assumes "heap_ok s bs"
  shows "heap_live s = (\<lambda>b. b + HEADER) ` live (hdrs s) bs"
proof -
  have "p \<in> heap_live s \<longleftrightarrow> p - HEADER \<in> live (hdrs s) bs" for p
    using assms heap_ok_unique by (auto simp: heap_live_def)
  then show ?thesis by (force simp: image_iff)
qed

interpretation blocks: block_source kmalloc heap_inv request_ok heap_live payload_range
proof unfold_locales
  fix s n
  assume "heap_inv s" and req: "request_ok s n"
  then obtain bs where "heap_ok s bs" by (auto simp: heap_inv_def)
  from kmalloc_post [OF this req] show "\<exists>s' p. kmalloc s n = Some (s', p) \<and> heap_inv s' \<and> request_ok s' = request_ok s"
    by (auto simp: malloc_post_def heap_inv_def request_ok_def fun_eq_iff)
next
  fix s n s'
  assume "heap_inv s" and req: "request_ok s n" and k: "kmalloc s n = Some (s', 0)"
  then obtain bs where bs: "heap_ok s bs" by (auto simp: heap_inv_def)
  from kmalloc_post [OF bs req] k show "heap_live s' = heap_live s"
    by (auto simp: malloc_post_def heap_live_eq [OF bs] heap_live_eq)
next
  fix s n s' p
  assume "heap_inv s" and req: "request_ok s n" and k: "kmalloc s n = Some (s', p)" "p \<noteq> 0"
  then obtain bs where bs: "heap_ok s bs" by (auto simp: heap_inv_def)
  from kmalloc_post [OF bs req] k obtain bs' b where
    R: "heap_ok s' bs'" "p = b + HEADER" "b \<notin> live (hdrs s) bs" "live (hdrs s') bs' = insert b (live (hdrs s) bs)"
      "ALIGN_UP n 16 \<le> bsize (hdrs s' b)"
    by (auto simp: malloc_post_def)
  have "unat n \<le> unat (ALIGN_UP n 16)" using req rounded_request(1) [of n] by (simp add: request_ok_def)
  with R show "p \<notin> heap_live s \<and> heap_live s' = insert p (heap_live s) \<and> unat n \<le> card (payload_range s' p)"
    by (auto simp: heap_live_eq [OF bs] heap_live_eq payload_range_def word_le_nat_alt)
next
  fix s n s' p q
  assume "heap_inv s" and req: "request_ok s n" and k: "kmalloc s n = Some (s', p)" and q: "q \<in> heap_live s"
  then obtain bs where bs: "heap_ok s bs" by (auto simp: heap_inv_def)
  from kmalloc_post [OF bs req] k q show "payload_range s' q = payload_range s q"
    by (auto simp: malloc_post_def heap_live_eq [OF bs] payload_range_def)
next
  fix s p q
  assume "heap_inv s" and pq: "p \<in> heap_live s" "q \<in> heap_live s" "p \<noteq> q"
  then obtain bs where bs: "heap_ok s bs" by (auto simp: heap_inv_def)
  from pq obtain b c where bc: "p = b + HEADER" "q = c + HEADER" "b \<in> set bs" "c \<in> set bs" "b \<noteq> c"
    by (auto simp: heap_live_eq [OF bs] live_def)
  from layout_disjoint [OF heap_okD(2) [OF bs] bc(3,4,5)] show "payload_range s p \<inter> payload_range s q = {}"
    unfolding bc payload_range_def by (auto simp: footprint_def)
qed

text \<open>
  A series of admissible \<open>kmalloc\<close> requests gives distinct pointers that were not in use, to
  memory of at least the sizes asked for; all live payloads, old and new, are pairwise disjoint.
\<close>

theorem kmalloc_series_disjoint:
  assumes "heap_inv s" and "\<forall>n \<in> set ns. request_ok s n"
  shows "\<exists>s' ps. alloc_seq kmalloc ns s = Some (s', ps) \<and> heap_inv s' \<and> distinct ps
    \<and> set ps \<inter> heap_live s = {} \<and> heap_live s' = heap_live s \<union> set ps
    \<and> (\<forall>i < length ps. unat (ns ! i) \<le> card (payload_range s' (ps ! i)))
    \<and> (\<forall>p \<in> heap_live s'. \<forall>q \<in> heap_live s'. p = q \<or> payload_range s' p \<inter> payload_range s' q = {})"
proof -
  from blocks.alloc_seq_blocks [OF assms] obtain s' ps where
    R: "alloc_seq kmalloc ns s = Some (s', ps)" "heap_inv s'" "distinct ps" "set ps \<inter> heap_live s = {}"
      "heap_live s' = heap_live s \<union> set ps" "\<forall>i < length ps. unat (ns ! i) \<le> card (payload_range s' (ps ! i))"
    by blast
  with blocks.extents_disjoint [OF R(2)] show ?thesis by blast
qed

theorem kmalloc_series_disjoint_witness:
  "\<exists>s' ps. alloc_seq kmalloc [48, 48, 48] small_heap = Some (s', ps) \<and> heap_inv s' \<and> distinct ps"
proof -
  have "heap_inv small_heap" using small_heap_ok by (auto simp: heap_inv_def)
  moreover have "\<forall>n \<in> set [48, 48, 48]. request_ok small_heap n" using small_heap_request by simp
  ultimately show ?thesis using kmalloc_series_disjoint by blast
qed

section \<open>Freeing\<close>

lemma chain_split_next:
  "chain h a (xs @ b # ys) \<Longrightarrow> next_block (h b) = (case ys of [] \<Rightarrow> 0 | n # _ \<Rightarrow> n)"
  using chain_next [of h a xs b ys] by (cases ys) auto

lemma kfree_single:
  assumes "magic (hdrs s b) = HEAP_MAGIC" and "used (hdrs s b) \<noteq> 0" and "b + HEADER \<noteq> 0"
    and "next_block (hdrs s b) = 0 \<or> used (hdrs s (next_block (hdrs s b))) \<noteq> 0" and "next_block (hdrs s b) \<noteq> b"
  shows "kfree s (b + HEADER) = s\<lparr>hdrs := (hdrs s)(b := (hdrs s b)\<lparr>used := 0\<rparr>)\<rparr>"
  using assms by (auto simp: kfree_def Let_def)

lemma kfree_merge:
  assumes "magic (hdrs s b) = HEAP_MAGIC" and "used (hdrs s b) \<noteq> 0" and "b + HEADER \<noteq> 0"
    and "next_block (hdrs s b) = n" and "n \<noteq> 0" and "used (hdrs s n) = 0" and "n \<noteq> b"
  shows "kfree s (b + HEADER) = s\<lparr>hdrs := (hdrs s)(b := (hdrs s b)\<lparr>used := 0,
      bsize := bsize (hdrs s b) + (HEADER + bsize (hdrs s n)), next_block := next_block (hdrs s n)\<rparr>)\<rparr>"
  using assms by (auto simp: kfree_def Let_def)

lemma kfree_single_ok:
  assumes "heap_ok s (xs @ b # ys)" and "used (hdrs s b) \<noteq> 0" and "b + HEADER \<noteq> 0"
    and "next_block (hdrs s b) = 0 \<or> used (hdrs s (next_block (hdrs s b))) \<noteq> 0"
  defines "s' \<equiv> kfree s (b + HEADER)"
  shows "heap_ok s' (xs @ b # ys) \<and> live (hdrs s') (xs @ b # ys) = live (hdrs s) (xs @ b # ys) - {b}
    \<and> (\<forall>c. c \<noteq> b \<longrightarrow> hdrs s' c = hdrs s c) \<and> payload s' = payload s \<and> used (hdrs s' b) = 0"
proof -
  note H = heap_okD [OF assms(1)]
  have d: "b \<notin> set xs" "b \<notin> set ys" using layout_distinct [OF H(2)] by auto
  have "next_block (hdrs s b) \<noteq> b"
    using chain_split_next [OF H(1)] d chain_nonzero [OF H(1), of b] by (auto split: list.splits)
  then have s': "s' = s\<lparr>hdrs := (hdrs s)(b := (hdrs s b)\<lparr>used := 0\<rparr>)\<rparr>"
    unfolding s'_def using assms(2,3,4) H(5) by (intro kfree_single) auto
  have fp: "footprint (hdrs s') = footprint (hdrs s)" by (auto simp: s' footprint_def fun_eq_iff)
  have "chain (hdrs s') (heap_start s') (xs @ b # ys) = chain (hdrs s) (heap_start s) (xs @ b # ys)"
    unfolding s' by (simp, intro chain_cong) auto
  moreover have "layout (hdrs s') (xs @ b # ys) = layout (hdrs s) (xs @ b # ys)"
    unfolding layout_def fp by (auto simp: s' block_good_def)
  ultimately have "heap_ok s' (xs @ b # ys)"
    using H by (simp add: heap_ok_def fp) (simp add: s')
  moreover have "live (hdrs s') (xs @ b # ys) = live (hdrs s) (xs @ b # ys) - {b}"
    using d by (auto simp: live_def s')
  ultimately show ?thesis by (simp add: s')
qed

lemma kfree_merge_ok:
  assumes "heap_ok s (xs @ b # n # ys)" and "used (hdrs s b) \<noteq> 0" and "b + HEADER \<noteq> 0"
    and "used (hdrs s n) = 0" and "n = b + HEADER + bsize (hdrs s b)"
  defines "s' \<equiv> kfree s (b + HEADER)"
  shows "heap_ok s' (xs @ b # ys) \<and> live (hdrs s') (xs @ b # ys) = live (hdrs s) (xs @ b # n # ys) - {b}
    \<and> (\<forall>c. c \<noteq> b \<longrightarrow> hdrs s' c = hdrs s c) \<and> payload s' = payload s \<and> used (hdrs s' b) = 0
    \<and> footprint (hdrs s') b = footprint (hdrs s) b \<union> footprint (hdrs s) n"
proof -
  note H = heap_okD [OF assms(1)]
  let ?h = "hdrs s"
  let ?sz = "bsize (?h b) + (HEADER + bsize (?h n))"
  have d: "b \<notin> set xs" "b \<notin> set ys" "n \<noteq> b" "n \<notin> set xs" "n \<notin> set ys" using layout_distinct [OF H(2)] by auto
  have nz: "n \<noteq> 0" using chain_nonzero [OF H(1), of n] by simp
  have nb: "next_block (?h b) = n" using chain_split_next [OF H(1)] by simp
  have s': "s' = s\<lparr>hdrs := ?h(b := (?h b)\<lparr>used := 0, bsize := ?sz, next_block := next_block (?h n)\<rparr>)\<rparr>"
    unfolding s'_def using assms(2,3,4) H(5) nb nz d by (intro kfree_merge) auto
  have good: "block_good ?h b" "block_good ?h n" using H(2) by (auto simp: layout_def)
  have "unat (b + HEADER) = unat b + 24"
    using assms(3) good(1) unat_u64_bound [of b] unat_add_small [of b HEADER]
    by (cases "unat b + 24 = 2 ^ 64") (auto simp: block_good_def word_unat_eq_iff unat_word_ariths)
  then have n: "unat n = unat b + 24 + unat (bsize (?h b))"
    using good(1) nz unat_add_small [of "b + HEADER" "bsize (?h b)"]
    by (cases "unat b + 24 + unat (bsize (?h b)) = 2 ^ 64")
      (auto simp: assms(5) block_good_def word_unat_eq_iff [of _ 0] unat_word_ariths)
  have "unat (HEADER + bsize (?h n)) = 24 + unat (bsize (?h n))"
    using good(2) n by (subst unat_add_small) (auto simp: block_good_def)
  then have sz: "unat ?sz = unat (bsize (?h b)) + (24 + unat (bsize (?h n)))"
    using good(2) n by (subst unat_add_small) (auto simp: block_good_def)
  have fb: "footprint (hdrs s') b = footprint ?h b \<union> footprint ?h n"
    using n sz by (auto simp: s' footprint_def)
  have fo: "footprint (hdrs s') c = footprint ?h c" if "c \<noteq> b" for c
    using that by (simp add: s' footprint_def)
  have same: "\<forall>c. c \<noteq> b \<longrightarrow> hdrs s' c = ?h c" by (simp add: s')
  have "chain ?h (next_block (?h n)) ys" using chain_next [of ?h _ "xs @ [b]" n ys] H(1) by simp
  then have "chain (hdrs s') (next_block (?h n)) ys"
    using d same chain_cong [of ys "hdrs s'" ?h] by metis
  moreover have "hdrs s' c = ?h c" if "c \<in> set xs \<union> set (n # ys)" for c
    using that d same by auto
  moreover have "next_block (hdrs s' b) = next_block (?h n)" by (simp add: s')
  ultimately have "chain (hdrs s') (heap_start s) (xs @ b # ys)"
    using chain_insert [OF H(1)] d(1) by blast
  then have ch: "chain (hdrs s') (heap_start s') (xs @ b # ys)" by (simp add: s')
  have L: "layout ?h (xs @ n # ys)" "layout ?h (xs @ ys)"
    "\<forall>c \<in> set xs \<union> set (n # ys). footprint ?h b \<inter> footprint ?h c = {}"
    "\<forall>c \<in> set xs \<union> set ys. footprint ?h n \<inter> footprint ?h c = {}"
    using H(2) layout_split [of ?h xs b "n # ys"] layout_split [of ?h xs n ys] by auto
  have "layout (hdrs s') (xs @ ys) \<longleftrightarrow> layout ?h (xs @ ys)" using d same by (intro layout_cong) auto
  then have "layout (hdrs s') (xs @ ys)" using L(2) by simp
  moreover have "block_good (hdrs s') b"
    using good(2) n sz by (auto simp: block_good_def s' H(5))
  moreover have "footprint (hdrs s') b \<inter> footprint (hdrs s') c = {}" if "c \<in> set xs \<union> set ys" for c
  proof -
    have "footprint (hdrs s') c = footprint ?h c" using that d fo [of c] by auto
    then show ?thesis unfolding fb using that L(3,4) by auto
  qed
  ultimately have lay: "layout (hdrs s') (xs @ b # ys)" by (simp add: layout_split)
  have "(\<Union>c \<in> set xs \<union> set ys. footprint (hdrs s') c) = (\<Union>c \<in> set xs \<union> set ys. footprint ?h c)"
    using d by (intro SUP_cong refl fo) auto
  then have "(\<Union>c \<in> set (xs @ b # ys). footprint (hdrs s') c) = (\<Union>c \<in> set (xs @ b # n # ys). footprint ?h c)"
    using fb by auto
  then have "heap_ok s' (xs @ b # ys)" using ch lay H by (simp add: heap_ok_def) (simp add: s')
  moreover have "live (hdrs s') (xs @ b # ys) = live ?h (xs @ b # n # ys) - {b}"
    using d assms(4) by (auto simp: live_def s')
  ultimately show ?thesis using same fb by (simp add: s')
qed

text \<open>The header \<open>kfree\<close> leaves in the freed block: free, and merged with its successor in the list
  when that is free.\<close>

definition freed :: "(addr \<Rightarrow> heap_block) \<Rightarrow> addr \<Rightarrow> heap_block" where
  "freed h b = (let n = next_block (h b) in
     if n \<noteq> 0 \<and> used (h n) = 0
     then (h b)\<lparr>used := 0, bsize := bsize (h b) + (HEADER + bsize (h n)), next_block := next_block (h n)\<rparr>
     else (h b)\<lparr>used := 0\<rparr>)"

text \<open>
  C14: in a well laid out heap, let a live block be freed whose successor in the list, if there is
  one and it is free, lies directly behind the block in memory.  Then the heap stays well laid out and
  exactly this block stops being live.  If the successor is free the two are merged: the successor
  leaves the list, the freed block is linked to what followed it, and the bytes of the freed block are
  now those of both blocks with both headers; otherwise the list and the bytes of the block stay as
  they are.  No other header, no payload and no page changes, and a second free of the pointer changes
  nothing.
\<close>

theorem kfree_correct:
  fixes s bs b
  defines "n \<equiv> next_block (hdrs s b)" and "s' \<equiv> kfree s (b + HEADER)"
  defines "merges \<equiv> n \<noteq> 0 \<and> used (hdrs s n) = 0"
  assumes "heap_ok s bs" and "b \<in> live (hdrs s) bs" and "b + HEADER \<noteq> 0"
    and "merges \<Longrightarrow> n = b + HEADER + bsize (hdrs s b)"
  shows "heap_ok s' (if merges then remove1 n bs else bs)
    \<and> live (hdrs s') (if merges then remove1 n bs else bs) = live (hdrs s) bs - {b}
    \<and> s' = s\<lparr>hdrs := (hdrs s)(b := freed (hdrs s) b)\<rparr>
    \<and> footprint (hdrs s') b = (if merges then footprint (hdrs s) b \<union> footprint (hdrs s) n else footprint (hdrs s) b)
    \<and> kfree s' (b + HEADER) = s'"
proof -
  note H = heap_okD(1,2) [OF assms(4)]
  from assms(5) have b: "b \<in> set bs" "used (hdrs s b) \<noteq> 0" by (auto simp: live_def)
  then obtain xs ys where bs: "bs = xs @ b # ys" by (meson split_list)
  have mg: "magic (hdrs s b) = HEAP_MAGIC" using heap_okD(5) [OF assms(4)] b(1) by blast
  have twice: "kfree t (b + HEADER) = t" if "used (hdrs t b) = 0" for t
    using that by (simp add: kfree_def Let_def)
  have "distinct bs" using layout_distinct [OF H(2)] .
  then have "n \<noteq> b"
    using chain_split_next [OF H(1) [unfolded bs]] chain_nonzero [OF H(1) b(1)] by (auto simp: n_def bs split: list.splits)
  show ?thesis
  proof (cases merges)
    case False
    then have nx: "n = 0 \<or> used (hdrs s n) \<noteq> 0" by (auto simp: merges_def)
    have s': "s' = s\<lparr>hdrs := (hdrs s)(b := freed (hdrs s) b)\<rparr>"
      unfolding s'_def using kfree_single [of s b] nx mg b(2) assms(6) \<open>n \<noteq> b\<close>
      by (auto simp: n_def freed_def)
    have "footprint (hdrs s') b = footprint (hdrs s) b"
      using nx by (intro footprint_cong) (auto simp: s' freed_def n_def Let_def)
    moreover have k: "heap_ok s' bs \<and> live (hdrs s') bs = live (hdrs s) bs - {b}" "used (hdrs s' b) = 0"
      using kfree_single_ok [OF assms(4) [unfolded bs] b(2) assms(6) nx [unfolded n_def]] unfolding s'_def bs by blast+
    ultimately show ?thesis using twice [OF k(2)] s' unfolding if_not_P [OF False] by blast
  next
    case True
    then have nx: "n \<noteq> 0" "used (hdrs s n) = 0" "n = b + HEADER + bsize (hdrs s b)"
      using assms(7) unfolding merges_def by blast+
    from nx(1) chain_split_next [OF H(1) [unfolded bs]] obtain zs where ys: "ys = n # zs"
      by (auto simp: n_def split: list.splits)
    have r: "remove1 n bs = xs @ b # zs" using \<open>distinct bs\<close> by (auto simp: bs ys remove1_append)
    have s': "s' = s\<lparr>hdrs := (hdrs s)(b := freed (hdrs s) b)\<rparr>"
      unfolding s'_def freed_def using kfree_merge [of s b n] b(2) mg assms(6) nx \<open>n \<noteq> b\<close>
      by (simp add: n_def Let_def)
    have k: "heap_ok s' (xs @ b # zs) \<and> live (hdrs s') (xs @ b # zs) = live (hdrs s) bs - {b}"
      "used (hdrs s' b) = 0" "footprint (hdrs s') b = footprint (hdrs s) b \<union> footprint (hdrs s) n"
      using kfree_merge_ok [OF assms(4) [unfolded bs ys] b(2) assms(6) nx(2,3)] unfolding s'_def bs ys by blast+
    then show ?thesis using twice [OF k(2)] s' unfolding if_P [OF True] r by blast
  qed
qed

text \<open>A heap of two adjacent blocks.\<close>

definition pair_heap :: kheap where
  "pair_heap = small_heap\<lparr>hdrs := (\<lambda>a. \<lparr>bsize = 64, used = if a = 0x50000000 then 1 else 0, magic = HEAP_MAGIC,
       next_block = if a = 0x50000000 then 0x50000058 else 0\<rparr>), heap_start := 0x50000000\<rparr>"

lemma pair_heap_ok: "heap_ok pair_heap [0x50000000, 0x50000058]"
  using small_pmm_in_use(1) small_heap_pool(1)
  by (auto simp: heap_ok_def pair_heap_def small_heap_def layout_def block_good_def footprint_def)

theorem kfree_correct_witness:
  "heap_ok (kfree pair_heap 0x50000018) [0x50000000]
    \<and> footprint (hdrs (kfree pair_heap 0x50000018)) 0x50000000
      = footprint (hdrs pair_heap) 0x50000000 \<union> footprint (hdrs pair_heap) 0x50000058"
proof -
  have lv: "0x50000000 \<in> live (hdrs pair_heap) [0x50000000, 0x50000058]"
    by (auto simp: live_def pair_heap_def)
  have nx: "next_block (hdrs pair_heap 0x50000000) = 0x50000058" "used (hdrs pair_heap 0x50000058) = 0"
      "0x50000000 + HEADER + bsize (hdrs pair_heap 0x50000000) = 0x50000058"
    by (simp_all add: pair_heap_def HEADER_def)
  have ptr: "(0x50000000 :: u64) + HEADER = 0x50000018" by (simp add: HEADER_def)
  show ?thesis
    using kfree_correct [OF pair_heap_ok lv] nx(2,3) unfolding ptr nx(1) by auto
qed

text \<open>
  The list is not kept in address order (pages added for a large request go to its front), but
  \<open>kfree\<close> merges with the next block of the list wherever it lies.  When the memory directly behind
  the freed block is a free page of the page allocator, the merged block covers it.
\<close>

theorem kfree_claims_free_page:
  assumes "heap_ok s bs" and "b \<in> live (hdrs s) bs" and "b + HEADER \<noteq> 0"
    and "next_block (hdrs s b) = n" and "n \<noteq> 0" and "used (hdrs s n) = 0"
    and "unat b + 24 + unat (bsize (hdrs s b)) \<in> pool_bytes (heap_pages s)"
    and "unat (bsize (hdrs s b)) + 24 + unat (bsize (hdrs s n)) < 2 ^ 64"
  shows "\<not> footprint (hdrs (kfree s (b + HEADER))) b \<inter> pool_bytes (heap_pages (kfree s (b + HEADER))) = {}
    \<and> (\<forall>bs'. b \<in> set bs' \<longrightarrow> \<not> heap_ok (kfree s (b + HEADER)) bs')"
proof -
  note H = heap_okD [OF assms(1)]
  from assms(2) have b: "b \<in> set bs" "used (hdrs s b) \<noteq> 0" by (auto simp: live_def)
  then have "n \<noteq> b" using assms(6) by auto
  then have k: "kfree s (b + HEADER) = s\<lparr>hdrs := (hdrs s)(b := (hdrs s b)\<lparr>used := 0,
      bsize := bsize (hdrs s b) + (HEADER + bsize (hdrs s n)), next_block := next_block (hdrs s n)\<rparr>)\<rparr>"
    using assms(3-6) b H(5) by (intro kfree_merge) auto
  have "unat (HEADER + bsize (hdrs s n)) = 24 + unat (bsize (hdrs s n))"
    using assms(8) by (subst unat_add_small) simp_all
  then have "unat (bsize (hdrs s b) + (HEADER + bsize (hdrs s n))) = unat (bsize (hdrs s b)) + (24 + unat (bsize (hdrs s n)))"
    using assms(8) by (subst unat_add_small) simp_all
  then have "unat b + 24 + unat (bsize (hdrs s b)) \<in> footprint (hdrs (kfree s (b + HEADER))) b"
    by (simp add: k footprint_def)
  moreover have "heap_pages (kfree s (b + HEADER)) = heap_pages s" by (simp add: k)
  ultimately show ?thesis using assms(7) by (auto simp: heap_ok_def)
qed

theorem kfree_claims_free_page_witness:
  "heap_ok small_heap [0x41000000, 0x50000000]
    \<and> \<not> footprint (hdrs (kfree small_heap 0x41000018)) 0x41000000
        \<inter> pool_bytes (heap_pages (kfree small_heap 0x41000018)) = {}"
proof -
  have lv: "0x41000000 \<in> live (hdrs small_heap) [0x41000000, 0x50000000]"
    by (simp add: live_def small_heap_def)
  have ptr: "(0x41000000 :: u64) + HEADER = 0x41000018" by (simp add: HEADER_def)
  show ?thesis
    using kfree_claims_free_page [OF small_heap_ok lv, of "0x50000000"] small_heap_ok small_heap_pool(2)
    unfolding ptr by (simp add: small_heap_def)
qed

section \<open>Derived operations\<close>

lemma live_block_ok:
  assumes "heap_ok s bs" and "b \<in> set bs" and "0 < unat (bsize (hdrs s b))"
  shows "block_ok (b + HEADER) (bsize (hdrs s b))" "unat (b + HEADER) = unat b + 24"
proof -
  have good: "block_good (hdrs s) b" using heap_okD(2) [OF assms(1)] assms(2) by (simp add: layout_def)
  show u: "unat (b + HEADER) = unat b + 24" by (rule unat_payload [OF good assms(3)])
  show "block_ok (b + HEADER) (bsize (hdrs s b))" using good u by (simp add: block_ok_def block_good_def)
qed

text \<open>
  When \<open>krealloc\<close> has to move a block, the bytes of the old payload are at the start of the new
  one; when it fails, the memory and the old block are as they were.
\<close>

theorem krealloc_moves:
  assumes "heap_ok s bs" and "b \<in> live (hdrs s) bs" and "0 < unat (bsize (hdrs s b))"
    and "bsize (hdrs s b) < new_size" and "request_ok s new_size"
  shows "\<exists>s' q. krealloc s (b + HEADER) new_size = Some (s', q)
    \<and> (if q = 0 then payload s' = payload s \<and> hdrs s' b = hdrs s b
       else q \<noteq> b + HEADER \<and> used (hdrs s' (q - HEADER)) \<noteq> 0 \<and> new_size \<le> bsize (hdrs s' (q - HEADER))
          \<and> (\<forall>i < unat (bsize (hdrs s b)). payload s' (q + of_nat i) = payload s (b + HEADER + of_nat i)))"
proof -
  let ?p = "b + HEADER" and ?n = "bsize (hdrs s b)"
  have b: "b \<in> set bs" "used (hdrs s b) \<noteq> 0" using assms(2) by (auto simp: live_def)
  note H = heap_okD [OF assms(1)]
  have p0: "?p \<noteq> 0" using payload_nonzero [of "hdrs s" b] H(2) b(1) assms(3) by (simp add: layout_def)
  have guard: "\<not> new_size \<le> ?n" "new_size \<noteq> 0" using assms(4,5) by (auto simp: request_ok_def)
  obtain s1 q where k: "kmalloc s new_size = Some (s1, q)" and post: "malloc_post s bs (ALIGN_UP new_size 16) s1 q"
    using kmalloc_post [OF assms(1,5)] by blast
  have hb: "hdrs s1 b = hdrs s b" "payload s1 = payload s" using post assms(2) by (auto simp: malloc_post_def)
  show ?thesis
  proof (cases "q = 0")
    case True
    then have "krealloc s ?p new_size = Some (s1, 0)" using p0 guard k by (simp add: krealloc_def Let_def)
    with hb show ?thesis by auto
  next
    case False
    let ?s2 = "s1\<lparr>payload := memcpy (payload s) q ?p ?n\<rparr>"
    have r: "krealloc s ?p new_size = Some (kfree ?s2 ?p, q)"
      using p0 guard k False hb by (simp add: krealloc_def Let_def)
    from post False obtain bs' c where
      c: "heap_ok s1 bs'" "q = c + HEADER" "c \<notin> live (hdrs s) bs" "live (hdrs s1) bs' = insert c (live (hdrs s) bs)"
        "ALIGN_UP new_size 16 \<le> bsize (hdrs s1 c)" "footprint (hdrs s1) c \<inter> footprint (hdrs s) b = {}"
      using assms(2) by (auto simp: malloc_post_def)
    have cin: "c \<in> set bs'" "used (hdrs s1 c) \<noteq> 0" using c(4) by (auto simp: live_def)
    have "new_size \<le> ALIGN_UP new_size 16"
      using assms(5) rounded_request(1) [of new_size] by (simp add: request_ok_def word_le_nat_alt)
    then have big: "new_size \<le> bsize (hdrs s1 c)" using c(5) by simp
    then have nlt: "unat ?n < unat (bsize (hdrs s1 c))" using assms(4) by (simp add: word_le_nat_alt word_less_nat_alt)
    note B = live_block_ok [OF assms(1) b(1) assms(3)]
    have C: "block_ok q (bsize (hdrs s1 c))" "unat q = unat c + 24"
      using live_block_ok [OF c(1) cin(1)] nlt c(2) by auto
    have okq: "block_ok q ?n" using C(1) nlt by (simp add: block_ok_def)
    have sep: "q \<le> ?p \<or> unat ?p + unat ?n \<le> unat q"
    proof (rule ccontr)
      assume "\<not> ?thesis"
      then have "unat b < unat c" "unat c < unat b + 24 + unat ?n" using B(2) C(2) by (auto simp: word_le_nat_alt)
      then have "unat c \<in> footprint (hdrs s1) c \<inter> footprint (hdrs s) b" by (simp add: footprint_def)
      with c(6) show False by simp
    qed
    have copy: "memcpy (payload s) q ?p ?n = put (payload s) q (get (payload s) ?p (unat ?n))"
      by (rule memcpy_put [OF disjoint_forward_safe [OF okq B(1) sep]])
    have cb: "c \<noteq> b" using c(3) assms(2) by auto
    have hc: "hdrs (kfree ?s2 ?p) c = hdrs s1 c" "payload (kfree ?s2 ?p) = payload ?s2"
      using cb by (auto simp: kfree_def Let_def)
    have pl: "payload (kfree ?s2 ?p) = put (payload s) q (get (payload s) ?p (unat ?n))"
      using hc(2) copy by simp
    have "payload (kfree ?s2 ?p) (q + of_nat i) = payload s (?p + of_nat i)" if "i < unat ?n" for i
      unfolding pl using that unat_u64_bound [of ?n] by (simp add: put_nth)
    with r hc cin big cb c(2) False show ?thesis by auto
  qed
qed

theorem krealloc_moves_witness:
  "\<exists>s' q. krealloc pair_heap 0x50000018 100 = Some (s', q)"
proof -
  have lv: "0x50000000 \<in> live (hdrs pair_heap) [0x50000000, 0x50000058]"
    by (auto simp: live_def pair_heap_def)
  have req: "request_ok pair_heap 100"
    using small_pmm_inv(2)
    by (simp add: request_ok_def room_for_def pages_for_def ALIGN_UP_def HEADER_def PAGE_SIZE_def)
      (simp add: pair_heap_def small_heap_def take_page_def)
  have ptr: "(0x50000000 :: u64) + HEADER = 0x50000018" by (simp add: HEADER_def)
  have sz: "0 < unat (bsize (hdrs pair_heap 0x50000000))" "bsize (hdrs pair_heap 0x50000000) < 100"
    by (simp_all add: pair_heap_def)
  show ?thesis
    using krealloc_moves [OF pair_heap_ok lv sz req] unfolding ptr by blast
qed

text \<open>
  The rounding in \<open>kmalloc\<close> and the multiplication in \<open>kcalloc\<close> wrap.  On a heap whose first
  block is free, a \<open>kmalloc\<close> of one of the 15 largest sizes succeeds with a block of size 0; a
  \<open>kcalloc\<close> of 2^60 + 1 elements of 16 bytes is served as one of a single element.
\<close>

theorem kmalloc_size_wraps:
  assumes "heap_ok s (b # bs)" and "used (hdrs s b) = 0" and "40 \<le> bsize (hdrs s b)" and "- 15 \<le> req"
  shows "\<exists>s'. kmalloc s req = Some (s', b + HEADER) \<and> bsize (hdrs s' b) = 0
    \<and> kcalloc s 0x1000000000000001 16 = kcalloc s 1 16"
proof -
  note H = heap_okD [OF assms(1)]
  have "(0x1000000000000001 :: u64) * 16 = 1 * 16" by simp
  then have c: "kcalloc s 0x1000000000000001 16 = kcalloc s 1 16"
    unfolding kcalloc_def by (simp only:)
  have big: "unat req \<ge> 2 ^ 64 - 15" using assms(4) by (simp add: word_le_nat_alt)
  have "unat (req + 15) = (unat req + 15) mod 2 ^ 64" by (simp add: unat_word_ariths)
  also have "\<dots> = unat req + 15 - 2 ^ 64"
    using big unat_u64_bound [of req] by (simp add: le_mod_geq)
  finally have small: "unat (req + 15) < 16" using unat_u64_bound [of req] by linarith
  have "unat (ALIGN_UP req 16) = unat (req + 15) - unat (req + 15) mod 2 ^ 4"
    using unat_and_not_mask [of "req + 15" 4] by (simp add: ALIGN_UP_def mask_eq_exp_minus_1 add.commute)
  then have sz: "ALIGN_UP req 16 = 0" using small by (simp add: unat_eq_zero)
  have nz: "req \<noteq> 0" using big by auto
  have "heap_scan (hdrs s) (heap_start s) 0 = Some (Fit b)"
    using heap_scan_chain [OF H(1,5), of 0] assms(2) by simp
  then have "kmalloc s req = Some (s\<lparr>hdrs := take_block (hdrs s) b 0\<rparr>, b + HEADER)"
    using nz by (subst kmalloc.simps) (simp add: Let_def sz)
  moreover have "bsize (take_block (hdrs s) b 0 b) = 0"
    using assms(3) by (subst take_block_split) (simp_all add: HEADER_def)
  ultimately show ?thesis using c by simp
qed

theorem kmalloc_size_wraps_witness:
  "\<exists>s'. kmalloc (small_heap\<lparr>heap_start := 0x50000000\<rparr>) 0xFFFFFFFFFFFFFFFF = Some (s', 0x50000018)
    \<and> bsize (hdrs s' 0x50000000) = 0"
proof -
  have ok: "heap_ok (small_heap\<lparr>heap_start := 0x50000000\<rparr>) [0x50000000]"
    using small_heap_ok by (auto simp: heap_ok_def layout_def small_heap_def)
  have ptr: "(0x50000000 :: u64) + HEADER = 0x50000018" by (simp add: HEADER_def)
  show ?thesis
    using kmalloc_size_wraps [OF ok, of "0xFFFFFFFFFFFFFFFF"] unfolding ptr by (auto simp: small_heap_def)
qed

end
