(* ===== verification/Sched.thy ===== *)
theory Sched
  imports Prelude "HOL-Library.Monad_Syntax"
begin

text \<open>
  The multi-level queue scheduler of sched.c.  Processes live in a store indexed by pointers
  (0 is \<open>NULL\<close>, slot \<open>i\<close> of \<open>process_table\<close> is \<open>i + 1\<close>); a ready queue is a list linked through
  \<open>sched_next\<close> with a head and a tail pointer, one for each priority and CPU, and a wait queue is a
  list linked through \<open>wq_next\<close>.  Every access to an array of a run queue is checked: \<open>None\<close> is an
  index out of bounds, or the dereference of a null pointer.  The identity of the executing CPU is
  an argument.  A context switch is recorded by the change of \<open>current\<close>; the register save itself
  is assembly.  The run-queue locks make each operation one step.
\<close>

section \<open>State\<close>

type_synonym pptr = nat

datatype proc_state = PROC_UNUSED | PROC_READY | PROC_RUNNING | PROC_SLEEPING | PROC_STOPPED
  | PROC_ZOMBIE | PROC_DEAD

record cpu_context =
  x11 :: u64
  x12 :: u64
  sp :: u64
  pc :: u64
  pstate :: u64

record process =
  pid :: int
  ppid :: int
  pname :: "u8 list"
  state :: proc_state
  priority :: int
  flags :: u32
  cpu :: nat
  ctx :: cpu_context
  pgd :: addr
  stack_base :: addr
  stack_size :: u64
  sched_next :: pptr
  time_slice :: u64
  cpu_time :: u64
  start_time :: u64
  wq :: addr
  wq_next :: pptr
  parent :: pptr
  children :: pptr
  sibling :: pptr
  exit_code :: int
  uid :: u32
  gid :: u32
  euid :: u32
  egid :: u32
  cap :: "u64 list"
  sig_handler :: "u64 list"
  sig_pending :: u64
  sig_blocked :: u64
  fd_table :: addr

text \<open>\<open>memset (proc, 0, sizeof (struct process))\<close>.\<close>

definition zero_process :: process where
  "zero_process = \<lparr>pid = 0, ppid = 0, pname = replicate 32 0, state = PROC_UNUSED, priority = 0, flags = 0, cpu = 0,
     ctx = \<lparr>x11 = 0, x12 = 0, sp = 0, pc = 0, pstate = 0\<rparr>, pgd = 0, stack_base = 0, stack_size = 0, sched_next = 0,
     time_slice = 0, cpu_time = 0, start_time = 0, wq = 0, wq_next = 0, parent = 0, children = 0, sibling = 0,
     exit_code = 0, uid = 0, gid = 0, euid = 0, egid = 0, cap = replicate 2 0, sig_handler = replicate 64 0,
     sig_pending = 0, sig_blocked = 0, fd_table = 0\<rparr>"

record runqueue =
  queues :: "pptr list"
  tails :: "pptr list"
  queue_bitmap :: u32
  current :: pptr
  idle_task :: pptr
  ticks :: u32

record sched =
  procs :: "pptr \<Rightarrow> process"
  runqueues :: "runqueue list"
  waiting :: "addr \<Rightarrow> pptr"

definition PRIO_REALTIME :: int where "PRIO_REALTIME = 0"
definition PRIO_NORMAL :: int where "PRIO_NORMAL = 2"
definition PRIO_LOW :: int where "PRIO_LOW = 3"
definition SCHED_QUEUES :: nat where "SCHED_QUEUES = 5"
definition PRIORITY_BOOST_INTERVAL :: u32 where "PRIORITY_BOOST_INTERVAL = 200"

definition time_quantum :: "int \<Rightarrow> u64 option" where
  "time_quantum prio =
     (if prio < 0 \<or> int SCHED_QUEUES \<le> prio then None
      else Some ([0xFFFFFFFF, 4, 8, 16, 32] ! nat prio))"

text \<open>Checked array accesses.\<close>

definition rq_at :: "sched \<Rightarrow> nat \<Rightarrow> runqueue option" where
  "rq_at s c = (if c < length (runqueues s) then Some (runqueues s ! c) else None)"

definition rq_set :: "sched \<Rightarrow> nat \<Rightarrow> runqueue \<Rightarrow> sched" where
  "rq_set s c rq = s\<lparr>runqueues := (runqueues s)[c := rq]\<rparr>"

definition prio_index :: "int \<Rightarrow> nat option" where
  "prio_index prio = (if prio < 0 \<or> int SCHED_QUEUES \<le> prio then None else Some (nat prio))"

definition upd :: "sched \<Rightarrow> pptr \<Rightarrow> (process \<Rightarrow> process) \<Rightarrow> sched" where
  "upd s p f = s\<lparr>procs := (procs s)(p := f (procs s p))\<rparr>"

section \<open>Ready queues\<close>

definition empty_runqueue :: runqueue where
  "empty_runqueue = \<lparr>queues = replicate SCHED_QUEUES 0, tails = replicate SCHED_QUEUES 0,
     queue_bitmap = 0, current = 0, idle_task = 0, ticks = 0\<rparr>"

definition scheduler_init :: "sched \<Rightarrow> nat \<Rightarrow> sched" where
  "scheduler_init s num_cpus = s\<lparr>runqueues := replicate num_cpus empty_runqueue\<rparr>"

definition enqueue_process :: "sched \<Rightarrow> pptr \<Rightarrow> sched option" where
  "enqueue_process s proc = do {
     rq \<leftarrow> rq_at s (cpu (procs s proc));
     prio \<leftarrow> prio_index (priority (procs s proc));
     let s1 = upd s proc (sched_next_update (\<lambda>_. 0));
     let s2 = (if tails rq ! prio \<noteq> 0 then upd s1 (tails rq ! prio) (sched_next_update (\<lambda>_. proc)) else s1);
     let rq1 = (if tails rq ! prio \<noteq> 0 then rq else rq\<lparr>queues := (queues rq)[prio := proc]\<rparr>);
     Some (rq_set s2 (cpu (procs s proc))
       (rq1\<lparr>tails := (tails rq)[prio := proc], queue_bitmap := set_mask (queue_bitmap rq) prio\<rparr>))
   }"

text \<open>\<open>dequeue_highest\<close> on one run queue: the bit map says which queue to try, and a stale bit is
  cleared before trying again.  The result is the pointer and the run queue, or \<open>None\<close> for a bit
  outside the array.\<close>

function dequeue_rq :: "(pptr \<Rightarrow> process) \<Rightarrow> runqueue \<Rightarrow> (runqueue \<times> pptr) option" where
  "dequeue_rq ps rq =
     (if queue_bitmap rq = 0 then Some (rq, 0)
      else let prio = ctz (queue_bitmap rq) in
        if SCHED_QUEUES \<le> prio then None
        else let proc = queues rq ! prio in
          if proc = 0 then dequeue_rq ps (rq\<lparr>queue_bitmap := clear_mask (queue_bitmap rq) prio\<rparr>)
          else let rest = sched_next (ps proc);
                   rq1 = rq\<lparr>queues := (queues rq)[prio := rest]\<rparr>
               in Some (if rest = 0
                        then rq1\<lparr>tails := (tails rq)[prio := 0],
                                 queue_bitmap := clear_mask (queue_bitmap rq) prio\<rparr>
                        else rq1, proc))"
  by pat_completeness auto
termination
proof (relation "measure (\<lambda>(ps, rq). unat (queue_bitmap rq))")
  fix ps :: "pptr \<Rightarrow> process" and rq :: runqueue and prio proc
  assume "queue_bitmap rq \<noteq> 0" and "prio = ctz (queue_bitmap rq)"
  then have "bit (queue_bitmap rq) prio" by (simp add: ctz_bit)
  then show "((ps, rq\<lparr>queue_bitmap := clear_mask (queue_bitmap rq) prio\<rparr>), ps, rq)
      \<in> measure (\<lambda>(ps, rq). unat (queue_bitmap rq))"
    using clear_mask_less by (simp flip: word_less_nat_alt)
qed simp

declare dequeue_rq.simps [simp del]

definition dequeue_highest :: "sched \<Rightarrow> nat \<Rightarrow> (sched \<times> pptr) option" where
  "dequeue_highest s c = do {
     rq \<leftarrow> rq_at s c;
     (rq', proc) \<leftarrow> dequeue_rq (procs s) rq;
     let s1 = rq_set s c rq';
     Some (if proc = 0 then s1 else upd s1 proc (sched_next_update (\<lambda>_. 0)), proc)
   }"

section \<open>Scheduling\<close>

text \<open>\<open>rq->current = next\<close> and the updates of the process that is to run.\<close>

definition switch_to :: "sched \<Rightarrow> nat \<Rightarrow> pptr \<Rightarrow> sched option" where
  "switch_to s c nxt = do {
     rq \<leftarrow> rq_at s c;
     if nxt = 0 then None else do {
       q \<leftarrow> time_quantum (priority (procs s nxt));
       Some (upd (rq_set s c (rq\<lparr>current := nxt\<rparr>)) nxt
         (\<lambda>p. p\<lparr>state := PROC_RUNNING, cpu := c, time_slice := q\<rparr>))
     }
   }"

text \<open>\<open>None\<close> is also the panic when there is no task.\<close>

definition scheduler_start :: "sched \<Rightarrow> nat \<Rightarrow> sched option" where
  "scheduler_start s c = do {
     (s1, proc) \<leftarrow> dequeue_highest s c;
     if proc = 0 then None else switch_to s1 c proc
   }"

definition scheduler_yield :: "sched \<Rightarrow> nat \<Rightarrow> sched option" where
  "scheduler_yield s c = do {
     rq \<leftarrow> rq_at s c;
     let cur = current rq;
     if cur = 0 then Some s
     else do {
       s1 \<leftarrow> enqueue_process (upd s cur (state_update (\<lambda>_. PROC_READY))) cur;
       (s2, nxt) \<leftarrow> dequeue_highest s1 c;
       if nxt = 0 \<or> nxt = cur then do {
         q \<leftarrow> time_quantum (priority (procs s2 cur));
         Some (upd s2 cur (time_slice_update (\<lambda>_. q)))
       }
       else switch_to s2 c nxt
     }
   }"

text \<open>The loop over the CPUs for the one whose bit map has the fewest bits set.\<close>

definition load_count :: "u32 \<Rightarrow> nat" where
  "load_count load = length (filter (\<lambda>q. test_mask load q) [0..<SCHED_QUEUES])"

fun least_loaded :: "runqueue list \<Rightarrow> nat \<Rightarrow> nat \<Rightarrow> nat \<Rightarrow> nat" where
  "least_loaded [] i target min_load = target"
| "least_loaded (rq # rqs) i target min_load =
     (if load_count (queue_bitmap rq) < min_load then least_loaded rqs (Suc i) i (load_count (queue_bitmap rq))
      else least_loaded rqs (Suc i) target min_load)"

definition scheduler_add_process :: "sched \<Rightarrow> pptr \<Rightarrow> sched option" where
  "scheduler_add_process s proc =
     (if proc = 0 then Some s
      else do {
        let target = least_loaded (runqueues s) 0 0 0xFFFFFFFF;
        q \<leftarrow> time_quantum (priority (procs s proc));
        enqueue_process (upd s proc (\<lambda>p. p\<lparr>cpu := target, state := PROC_READY, time_slice := q\<rparr>)) proc
      })"

text \<open>Unlinking from the queue: \<open>pp\<close> is the head of the queue (\<open>None\<close>) or the link field of a
  process.\<close>

partial_function (option) unlink ::
  "(pptr \<Rightarrow> process) \<Rightarrow> pptr \<Rightarrow> pptr option \<Rightarrow> pptr \<Rightarrow> (pptr option \<times> bool) option" where
  "unlink ps target prev cur =
     (if cur = 0 then Some (prev, False)
      else if cur = target then Some (prev, True)
      else unlink ps target (Some cur) (sched_next (ps cur)))"

definition scheduler_remove_process :: "sched \<Rightarrow> pptr \<Rightarrow> sched option" where
  "scheduler_remove_process s proc =
     (if proc = 0 then Some s
      else do {
        let c = cpu (procs s proc);
        rq \<leftarrow> rq_at s c;
        prio \<leftarrow> prio_index (priority (procs s proc));
        (prev, found) \<leftarrow> unlink (procs s) proc None (queues rq ! prio);
        let after = sched_next (procs s proc);
        let s1 = (if \<not> found then s
                  else (case prev of
                      None \<Rightarrow> rq_set s c (rq\<lparr>queues := (queues rq)[prio := after],
                          tails := if tails rq ! prio = proc then (tails rq)[prio := 0] else tails rq\<rparr>)
                    | Some p \<Rightarrow> upd (rq_set s c (rq\<lparr>tails := if tails rq ! prio = proc then (tails rq)[prio := 0]
                          else tails rq\<rparr>)) p (sched_next_update (\<lambda>_. after))));
        Some (upd s1 proc (\<lambda>p. p\<lparr>sched_next := 0, state := PROC_DEAD\<rparr>))
      })"

text \<open>\<open>priority_boost\<close> for one CPU; the loop over \<open>q\<close> runs for \<open>PRIO_LOW\<close> only.\<close>

partial_function (option) boost_queue :: "sched \<Rightarrow> pptr \<Rightarrow> sched option" where
  "boost_queue s proc =
     (if proc = 0 then Some s
      else let nxt = sched_next (procs s proc) in
        case enqueue_process (upd s proc (\<lambda>p. p\<lparr>priority := PRIO_NORMAL, sched_next := 0\<rparr>)) proc of
          None \<Rightarrow> None
        | Some s1 \<Rightarrow> boost_queue s1 nxt)"

definition boost_cpu :: "sched \<Rightarrow> nat \<Rightarrow> sched option" where
  "boost_cpu s c = do {
     rq \<leftarrow> rq_at s c;
     s1 \<leftarrow> boost_queue s (queues rq ! nat PRIO_LOW);
     rq1 \<leftarrow> rq_at s1 c;
     Some (rq_set s1 c (rq1\<lparr>queues := (queues rq1)[nat PRIO_LOW := 0], tails := (tails rq1)[nat PRIO_LOW := 0]\<rparr>))
   }"

fun boost_cpus :: "sched \<Rightarrow> nat \<Rightarrow> nat \<Rightarrow> sched option" where
  "boost_cpus s c 0 = Some s"
| "boost_cpus s c (Suc k) = (case boost_cpu s c of None \<Rightarrow> None | Some s1 \<Rightarrow> boost_cpus s1 (Suc c) k)"

definition priority_boost :: "sched \<Rightarrow> sched option" where
  "priority_boost s = boost_cpus s 0 (length (runqueues s))"

text \<open>The end of \<open>scheduler_tick\<close>.\<close>

definition tick_boost :: "sched \<Rightarrow> nat \<Rightarrow> sched option" where
  "tick_boost s c = do {
     rq \<leftarrow> rq_at s c;
     if PRIORITY_BOOST_INTERVAL \<le> ticks rq then priority_boost (rq_set s c (rq\<lparr>ticks := 0\<rparr>))
     else Some s
   }"

text \<open>The part of \<open>scheduler_tick\<close> that runs when the time slice is used up.\<close>

definition tick_expire :: "sched \<Rightarrow> nat \<Rightarrow> pptr \<Rightarrow> pptr \<Rightarrow> sched option" where
  "tick_expire s c cur idle = do {
     s1 \<leftarrow> enqueue_process (upd s cur (state_update (\<lambda>_. PROC_READY))) cur;
     (s2, nxt0) \<leftarrow> dequeue_highest s1 c;
     let nxt = (if nxt0 = 0 then idle else nxt0);
     if nxt \<noteq> cur then switch_to s2 c nxt
     else do {
       q \<leftarrow> time_quantum (priority (procs s2 cur));
       tick_boost (upd s2 cur (time_slice_update (\<lambda>_. q))) c
     }
   }"

definition scheduler_tick :: "sched \<Rightarrow> nat \<Rightarrow> sched option" where
  "scheduler_tick s c = do {
     rq \<leftarrow> rq_at s c;
     let cur = current rq;
     if cur = 0 then Some s
     else do {
       let s1 = upd (rq_set s c (rq\<lparr>ticks := ticks rq + 1\<rparr>)) cur (\<lambda>p. p\<lparr>cpu_time := cpu_time p + 1\<rparr>);
       if priority (procs s1 cur) = PRIO_REALTIME then Some s1
       else do {
         let s2 = (if 0 < time_slice (procs s1 cur)
                   then upd s1 cur (\<lambda>p. p\<lparr>time_slice := time_slice p - 1\<rparr>) else s1);
         if time_slice (procs s2 cur) = 0 then tick_expire s2 c cur (idle_task rq)
         else tick_boost s2 c
       }
     }
   }"

section \<open>Wait queues\<close>

definition scheduler_sleep_on :: "sched \<Rightarrow> nat \<Rightarrow> addr \<Rightarrow> sched option" where
  "scheduler_sleep_on s c w = do {
     rq \<leftarrow> rq_at s c;
     let cur = current rq;
     if cur = 0 then Some s
     else do {
       let s1 = upd s cur (\<lambda>p. p\<lparr>state := PROC_SLEEPING, wq := w, wq_next := waiting s w\<rparr>);
       let s2 = s1\<lparr>waiting := (waiting s1)(w := cur)\<rparr>;
       (s3, nxt0) \<leftarrow> dequeue_highest s2 c;
       switch_to s3 c (if nxt0 = 0 then idle_task rq else nxt0)
     }
   }"

text \<open>Waking one process, and all that are linked from it; \<open>f\<close> is the assignments to the process, which
  differ between the wait queues of the scheduler and those of sync.c.\<close>

definition detach :: "process \<Rightarrow> process" where
  "detach p = p\<lparr>wq_next := 0, wq := 0, state := PROC_READY\<rparr>"

definition wake :: "(process \<Rightarrow> process) \<Rightarrow> sched \<Rightarrow> pptr \<Rightarrow> sched option" where
  "wake f s proc = scheduler_add_process (upd s proc f) proc"

partial_function (option) wake_all :: "(process \<Rightarrow> process) \<Rightarrow> sched \<Rightarrow> pptr \<Rightarrow> sched option" where
  "wake_all f s proc =
     (if proc = 0 then Some s
      else let nxt = wq_next (procs s proc) in
        case wake f s proc of None \<Rightarrow> None | Some s1 \<Rightarrow> wake_all f s1 nxt)"

definition scheduler_wakeup :: "sched \<Rightarrow> addr \<Rightarrow> sched option" where
  "scheduler_wakeup s w =
     (if w = 0 then Some s else wake_all detach (s\<lparr>waiting := (waiting s)(w := 0)\<rparr>) (waiting s w))"

definition scheduler_wakeup_one :: "sched \<Rightarrow> addr \<Rightarrow> sched option" where
  "scheduler_wakeup_one s w =
     (if w = 0 then Some s
      else let proc = waiting s w in
        if proc = 0 then Some s
        else wake detach (s\<lparr>waiting := (waiting s)(w := wq_next (procs s proc))\<rparr>) proc)"

definition scheduler_get_current :: "sched \<Rightarrow> nat \<Rightarrow> pptr" where
  "scheduler_get_current s c = (if length (runqueues s) \<le> c then 0 else current (runqueues s ! c))"

definition scheduler_set_idle :: "sched \<Rightarrow> nat \<Rightarrow> pptr \<Rightarrow> sched" where
  "scheduler_set_idle s c idle =
     (if length (runqueues s) \<le> c then s else rq_set s c ((runqueues s ! c)\<lparr>idle_task := idle\<rparr>))"

partial_function (option) queue_length :: "(pptr \<Rightarrow> process) \<Rightarrow> pptr \<Rightarrow> nat \<Rightarrow> nat option" where
  "queue_length ps p n = (if p = 0 then Some n else queue_length ps (sched_next (ps p)) (Suc n))"

fun sum_lengths :: "(pptr \<Rightarrow> process) \<Rightarrow> pptr list \<Rightarrow> nat \<Rightarrow> nat option" where
  "sum_lengths ps [] n = Some n"
| "sum_lengths ps (p # qs) n = (case queue_length ps p n of None \<Rightarrow> None | Some k \<Rightarrow> sum_lengths ps qs k)"

definition scheduler_get_load :: "sched \<Rightarrow> nat option" where
  "scheduler_get_load s =
     map_option (min 1000) (sum_lengths (procs s) (concat (map (\<lambda>rq. take (SCHED_QUEUES - 1) (queues rq)) (runqueues s))) 0)"

section \<open>Linked lists of processes\<close>

abbreviation link :: "(pptr \<Rightarrow> process) \<Rightarrow> pptr \<Rightarrow> pptr list \<Rightarrow> bool" where
  "link ps \<equiv> linked (\<lambda>x. sched_next (ps x))"

lemma link_unique: "link ps a xs \<Longrightarrow> link ps a ys \<Longrightarrow> xs = ys"
  by (rule linked_unique)

lemma link_append: "link ps a (xs @ x # ys) \<Longrightarrow> link ps x (x # ys)"
  by (rule linked_append)

lemma link_distinct: "link ps a xs \<Longrightarrow> distinct xs"
  by (rule linked_distinct)

lemma link_nonzero: "link ps a xs \<Longrightarrow> 0 \<notin> set xs"
  by (rule linked_nonzero)

lemma link_cong: "(\<And>x. x \<in> set xs \<Longrightarrow> sched_next (ps' x) = sched_next (ps x)) \<Longrightarrow> link ps' a xs \<longleftrightarrow> link ps a xs"
  by (rule linked_cong)

lemma link_snoc:
  assumes "link ps a xs" and "p \<noteq> 0" and "p \<notin> set xs" and "sched_next (ps' p) = 0"
    and "xs \<noteq> [] \<Longrightarrow> sched_next (ps' (last xs)) = p"
    and "\<And>x. x \<in> set (butlast xs) \<Longrightarrow> sched_next (ps' x) = sched_next (ps x)"
  shows "link ps' (if xs = [] then p else a) (xs @ [p])"
  using assms by (rule linked_snoc)

text \<open>One run queue with the queues \<open>ls\<close>: head, tail and bit for each priority.  A bit may be set
  for an empty queue, never clear for one that is not.\<close>

definition last0 :: "pptr list \<Rightarrow> pptr" where
  "last0 xs = (if xs = [] then 0 else last xs)"

definition rq_ok :: "(pptr \<Rightarrow> process) \<Rightarrow> runqueue \<Rightarrow> (nat \<Rightarrow> pptr list) \<Rightarrow> bool" where
  "rq_ok ps rq ls \<longleftrightarrow> length (queues rq) = SCHED_QUEUES \<and> length (tails rq) = SCHED_QUEUES
     \<and> (\<forall>b. bit (queue_bitmap rq) b \<longrightarrow> b < SCHED_QUEUES)
     \<and> (\<forall>q < SCHED_QUEUES. link ps (queues rq ! q) (ls q) \<and> tails rq ! q = last0 (ls q)
          \<and> (ls q \<noteq> [] \<longrightarrow> bit (queue_bitmap rq) q))"

definition sched_ok :: "sched \<Rightarrow> (nat \<Rightarrow> nat \<Rightarrow> pptr list) \<Rightarrow> bool" where
  "sched_ok s L \<longleftrightarrow> (\<forall>c < length (runqueues s). rq_ok (procs s) (runqueues s ! c) (L c))
     \<and> (\<forall>c q p. p \<in> set (L c q) \<longrightarrow> c < length (runqueues s) \<and> q < SCHED_QUEUES
           \<and> cpu (procs s p) = c \<and> priority (procs s p) = int q)"

definition queued :: "(nat \<Rightarrow> nat \<Rightarrow> pptr list) \<Rightarrow> pptr set" where
  "queued L = {p. \<exists>c q. p \<in> set (L c q)}"

text \<open>What the queue operations leave alone: everything but the links and the queues.\<close>

definition relinked :: "sched \<Rightarrow> sched \<Rightarrow> bool" where
  "relinked s s' \<longleftrightarrow> (\<forall>x. \<exists>n. procs s' x = (procs s x)\<lparr>sched_next := n\<rparr>) \<and> waiting s' = waiting s
     \<and> length (runqueues s') = length (runqueues s)
     \<and> (\<forall>c < length (runqueues s). current (runqueues s' ! c) = current (runqueues s ! c)
           \<and> idle_task (runqueues s' ! c) = idle_task (runqueues s ! c)
           \<and> ticks (runqueues s' ! c) = ticks (runqueues s ! c))"

lemma relinked_refl [simp]: "relinked s s"
proof -
  have "p = p\<lparr>sched_next := sched_next p\<rparr>" for p :: process by simp
  then show ?thesis unfolding relinked_def by blast
qed

lemma relinked_trans:
  assumes "relinked s s1" and "relinked s1 s2"
  shows "relinked s s2"
proof -
  have "\<exists>n. procs s2 x = (procs s x)\<lparr>sched_next := n\<rparr>" for x
  proof -
    obtain n m where "procs s1 x = (procs s x)\<lparr>sched_next := n\<rparr>" "procs s2 x = (procs s1 x)\<lparr>sched_next := m\<rparr>"
      using assms unfolding relinked_def by meson
    then show ?thesis by (intro exI [of _ m]) simp
  qed
  with assms show ?thesis by (simp add: relinked_def)
qed

lemma relinkedD:
  assumes "relinked s s'"
  shows "cpu (procs s' x) = cpu (procs s x)" "priority (procs s' x) = priority (procs s x)"
    "state (procs s' x) = state (procs s x)" "length (runqueues s') = length (runqueues s)"
    "time_slice (procs s' x) = time_slice (procs s x)" "wq_next (procs s' x) = wq_next (procs s x)"
    "waiting s' = waiting s"
proof -
  obtain n where n: "procs s' x = (procs s x)\<lparr>sched_next := n\<rparr>" using assms by (auto simp: relinked_def)
  then show "cpu (procs s' x) = cpu (procs s x)" "priority (procs s' x) = priority (procs s x)"
    "state (procs s' x) = state (procs s x)" "time_slice (procs s' x) = time_slice (procs s x)"
    "wq_next (procs s' x) = wq_next (procs s x)" by simp_all
qed (use assms in \<open>auto simp: relinked_def\<close>)

lemma sched_okD:
  assumes "sched_ok s L" and "p \<in> set (L c q)"
  shows "c < length (runqueues s)" "q < SCHED_QUEUES" "cpu (procs s p) = c" "priority (procs s p) = int q"
  using assms by (auto simp: sched_ok_def)

lemma sched_okI:
  assumes "\<And>c. c < length (runqueues s) \<Longrightarrow> rq_ok (procs s) (runqueues s ! c) (L c)"
    and "\<And>c q p. p \<in> set (L c q) \<Longrightarrow> c < length (runqueues s) \<and> q < SCHED_QUEUES
      \<and> cpu (procs s p) = c \<and> priority (procs s p) = int q"
  shows "sched_ok s L"
  using assms by (simp add: sched_ok_def)

lemma sched_ok_rq: "sched_ok s L \<Longrightarrow> c < length (runqueues s) \<Longrightarrow> rq_ok (procs s) (runqueues s ! c) (L c)"
  by (simp add: sched_ok_def)

lemma sched_ok_link:
  assumes "sched_ok s L" and "c < length (runqueues s)" and "q < SCHED_QUEUES"
  shows "link (procs s) (queues (runqueues s ! c) ! q) (L c q)"
    "distinct (L c q)" "0 \<notin> set (L c q)"
proof -
  show l: "link (procs s) (queues (runqueues s ! c) ! q) (L c q)"
    using sched_ok_rq [OF assms(1,2)] assms(3) by (simp add: rq_ok_def)
  show "distinct (L c q)" "0 \<notin> set (L c q)" using link_distinct [OF l] link_nonzero [OF l] .
qed

lemma sched_ok_disjoint:
  assumes "sched_ok s L" and "p \<in> set (L c q)" and "p \<in> set (L c' q')"
  shows "c = c' \<and> q = q'"
  using sched_okD [OF assms(1,2)] sched_okD [OF assms(1,3)] by auto

text \<open>A run queue none of whose processes changed its link.\<close>

lemma rq_ok_cong:
  assumes "\<And>q x. q < SCHED_QUEUES \<Longrightarrow> x \<in> set (ls q) \<Longrightarrow> sched_next (ps' x) = sched_next (ps x)"
  shows "rq_ok ps' rq ls \<longleftrightarrow> rq_ok ps rq ls"
proof -
  have "link ps' (queues rq ! q) (ls q) \<longleftrightarrow> link ps (queues rq ! q) (ls q)" if "q < SCHED_QUEUES" for q
    using assms that by (intro link_cong) auto
  then show ?thesis by (auto simp: rq_ok_def)
qed

section \<open>Enqueueing\<close>

lemma enqueue_link:
  assumes "rq_ok ps rq ls" and "q < SCHED_QUEUES" and "p \<noteq> 0" and "\<And>q. p \<notin> set (ls q)"
    and "\<And>x q'. x \<in> set (ls q) \<Longrightarrow> q' < SCHED_QUEUES \<Longrightarrow> x \<in> set (ls q') \<Longrightarrow> q' = q"
  defines "ps1 \<equiv> ps(p := (ps p)\<lparr>sched_next := 0\<rparr>)"
  defines "t \<equiv> tails rq ! q"
  defines "ps2 \<equiv> (if t \<noteq> 0 then ps1(t := (ps1 t)\<lparr>sched_next := p\<rparr>) else ps1)"
  defines "rq' \<equiv> (if t \<noteq> 0 then rq else rq\<lparr>queues := (queues rq)[q := p]\<rparr>)
     \<lparr>tails := (tails rq)[q := p], queue_bitmap := set_mask (queue_bitmap rq) q\<rparr>"
  shows "rq_ok ps2 rq' (ls(q := ls q @ [p]))"
proof -
  have L: "link ps (queues rq ! q) (ls q)" "t = last0 (ls q)" using assms(1,2) by (auto simp: rq_ok_def t_def)
  have len: "length (queues rq) = SCHED_QUEUES" "length (tails rq) = SCHED_QUEUES" using assms(1) by (auto simp: rq_ok_def)
  have "last (ls q) \<noteq> 0" if "ls q \<noteq> []" using last_in_set [OF that] link_nonzero [OF L(1)] by metis
  then have t0: "t = 0 \<longleftrightarrow> ls q = []" using L(2) by (simp add: last0_def)
  have d: "distinct (ls q)" using L(1) by (rule link_distinct)
  have other: "sched_next (ps2 x) = sched_next (ps x)" if "x \<noteq> p" "x \<noteq> t" for x
    using that by (simp add: ps2_def ps1_def)
  have tl: "t \<in> set (ls q)" if "ls q \<noteq> []" using that L(2) by (simp add: last0_def)
  have pt: "p \<noteq> t" if "ls q \<noteq> []" using tl [OF that] assms(4) by auto
  have new: "link ps2 (if ls q = [] then p else queues rq ! q) (ls q @ [p])"
  proof (rule link_snoc [OF L(1) assms(3,4)])
    show "sched_next (ps2 p) = 0" using pt t0 by (auto simp: ps2_def ps1_def)
    show "sched_next (ps2 (last (ls q))) = p" if "ls q \<noteq> []"
      using that L(2) t0 by (simp add: ps2_def last0_def)
    fix x assume x: "x \<in> set (butlast (ls q))"
    then have "x \<noteq> last (ls q)" using d
      by (metis append_butlast_last_id butlast.simps(1) distinct_append disjoint_iff empty_iff list.set_intros(1) list.set(1))
    moreover have "x \<noteq> p" using x assms(4) by (metis in_set_butlastD)
    ultimately show "sched_next (ps2 x) = sched_next (ps x)"
      using x L(2) by (intro other) (auto simp: last0_def)
  qed
  have "link ps2 (queues rq ! q') (ls q')" if "q' < SCHED_QUEUES" "q' \<noteq> q" for q'
  proof -
    have "link ps (queues rq ! q') (ls q')" using assms(1) that by (simp add: rq_ok_def)
    moreover have "sched_next (ps2 x) = sched_next (ps x)" if x: "x \<in> set (ls q')" for x
    proof (cases "ls q = []")
      case True
      then show ?thesis using assms(4) x t0 by (auto simp: ps2_def ps1_def)
    next
      case False
      have "x \<noteq> t" using assms(5) [OF tl [OF False] \<open>q' < SCHED_QUEUES\<close>] x \<open>q' \<noteq> q\<close> by auto
      moreover have "x \<noteq> p" using x assms(4) by auto
      ultimately show ?thesis by (intro other)
    qed
    ultimately show ?thesis using link_cong [of "ls q'" ps2 ps] by blast
  qed
  then show ?thesis
    using assms(1,2) new t0 len L
    by (auto simp: rq_ok_def rq'_def last0_def nth_list_update bit_ops SCHED_QUEUES_def)
qed

lemma prio_index_nat [simp]: "q < SCHED_QUEUES \<Longrightarrow> prio_index (int q) = Some q"
  by (simp add: prio_index_def)

lemma relinked_upd: "relinked s (upd s p (sched_next_update f))"
proof -
  have "\<exists>n. procs (upd s p (sched_next_update f)) x = (procs s x)\<lparr>sched_next := n\<rparr>" for x
    by (cases "x = p") (auto simp: upd_def intro: exI [of _ "f (sched_next (procs s x))"] exI [of _ "sched_next (procs s x)"])
  then show ?thesis by (simp add: relinked_def upd_def)
qed

lemma relinked_rq_set:
  assumes "c < length (runqueues s)" and "current rq = current (runqueues s ! c)"
    and "idle_task rq = idle_task (runqueues s ! c)" and "ticks rq = ticks (runqueues s ! c)"
  shows "relinked s (rq_set s c rq)"
proof -
  have "p = p\<lparr>sched_next := sched_next p\<rparr>" for p :: process by simp
  then have "\<forall>x. \<exists>n. procs s x = (procs s x)\<lparr>sched_next := n\<rparr>" by blast
  with assms show ?thesis by (simp add: relinked_def rq_set_def nth_list_update)
qed

lemma enqueue_ok:
  assumes "sched_ok s L" and "p \<noteq> 0" and "p \<notin> queued L" and "cpu (procs s p) = c"
    and "c < length (runqueues s)" and "priority (procs s p) = int q" and "q < SCHED_QUEUES"
  shows "\<exists>s'. enqueue_process s p = Some s' \<and> sched_ok s' (L(c := (L c)(q := L c q @ [p]))) \<and> relinked s s'"
proof -
  define rq where "rq = runqueues s ! c"
  define ps1 where "ps1 = (procs s)(p := (procs s p)\<lparr>sched_next := 0\<rparr>)"
  define t where "t = tails rq ! q"
  define ps2 where "ps2 = (if t \<noteq> 0 then ps1(t := (ps1 t)\<lparr>sched_next := p\<rparr>) else ps1)"
  define rq' where "rq' = (if t \<noteq> 0 then rq else rq\<lparr>queues := (queues rq)[q := p]\<rparr>)
     \<lparr>tails := (tails rq)[q := p], queue_bitmap := set_mask (queue_bitmap rq) q\<rparr>"
  define s' where "s' = s\<lparr>procs := ps2, runqueues := (runqueues s)[c := rq']\<rparr>"
  have nq: "p \<notin> set (L c' q')" for c' q' using assms(3) by (auto simp: queued_def)
  have ok: "rq_ok (procs s) rq (L c)" unfolding rq_def by (rule sched_ok_rq [OF assms(1,5)])
  have e: "enqueue_process s p = Some s'"
    using assms(4-7) by (simp add: enqueue_process_def rq_at_def upd_def rq_set_def Let_def
        s'_def rq'_def ps2_def ps1_def t_def rq_def)
  have here: "rq_ok ps2 rq' ((L c)(q := L c q @ [p]))"
    unfolding ps2_def rq'_def ps1_def t_def
    using ok assms(7,2) nq sched_ok_disjoint [OF assms(1)] by (intro enqueue_link) auto
  have there: "rq_ok ps2 (runqueues s ! c') (L c')" if "c' < length (runqueues s)" "c' \<noteq> c" for c'
  proof -
    have "t = 0 \<or> t \<in> set (L c q)"
      using ok assms(7) by (auto simp: rq_ok_def last0_def t_def)
    then have "sched_next (ps2 x) = sched_next (procs s x)" if "x \<in> set (L c' q')" for x q'
      using that nq sched_ok_disjoint [OF assms(1), of x c' q' c q] \<open>c' \<noteq> c\<close> by (auto simp: ps2_def ps1_def)
    with that show ?thesis using sched_ok_rq [OF assms(1)] rq_ok_cong [of "L c'" ps2 "procs s"] by blast
  qed
  have f: "cpu (ps2 x) = cpu (procs s x)" "priority (ps2 x) = priority (procs s x)" for x
    by (auto simp: ps2_def ps1_def)
  have "sched_ok s' (L(c := (L c)(q := L c q @ [p])))"
  proof (rule sched_okI)
    fix c' assume "c' < length (runqueues s')"
    then show "rq_ok (procs s') (runqueues s' ! c') ((L(c := (L c)(q := L c q @ [p]))) c')"
      using here there by (simp add: s'_def nth_list_update)
  next
    fix c' q' x assume x: "x \<in> set ((L(c := (L c)(q := L c q @ [p]))) c' q')"
    show "c' < length (runqueues s') \<and> q' < SCHED_QUEUES \<and> cpu (procs s' x) = c' \<and> priority (procs s' x) = int q'"
    proof (cases "x = p")
      case True
      then have "c' = c" "q' = q" using x nq by (auto split: if_splits)
      then show ?thesis using assms(4-7) f True by (simp add: s'_def)
    next
      case False
      then have "x \<in> set (L c' q')" using x by (auto split: if_splits)
      then show ?thesis using sched_okD [OF assms(1)] f by (simp add: s'_def)
    qed
  qed
  moreover have "relinked s s'"
  proof -
    have "\<exists>n. ps2 x = (procs s x)\<lparr>sched_next := n\<rparr>" for x
    proof -
      have "ps2 x = (procs s x)\<lparr>sched_next := sched_next (ps2 x)\<rparr>" by (simp add: ps2_def ps1_def)
      then show ?thesis by blast
    qed
    moreover have "current rq' = current rq" "idle_task rq' = idle_task rq" "ticks rq' = ticks rq"
      by (simp_all add: rq'_def)
    ultimately show ?thesis using assms(5) by (auto simp: relinked_def s'_def rq_def nth_list_update)
  qed
  ultimately show ?thesis using e by blast
qed

section \<open>Dequeueing\<close>

text \<open>The abstract queues: the head of the first level that is not empty.\<close>

definition mlfq_deq :: "(nat \<Rightarrow> pptr list) \<Rightarrow> (nat \<Rightarrow> pptr list) \<times> pptr" where
  "mlfq_deq ls = (case find (\<lambda>q. ls q \<noteq> []) [0..<SCHED_QUEUES] of
      None \<Rightarrow> (ls, 0)
    | Some q \<Rightarrow> (ls(q := tl (ls q)), hd (ls q)))"

lemma find_level:
  assumes "q < SCHED_QUEUES" and "ls q \<noteq> []" and "\<And>q'. q' < q \<Longrightarrow> ls q' = []"
  shows "find (\<lambda>q. ls q \<noteq> []) [0..<SCHED_QUEUES] = Some q"
  using assms by (auto simp: find_Some_iff intro!: exI [of _ q])

lemma mlfq_deq_cases:
  obtains (empty) "\<And>q. q < SCHED_QUEUES \<Longrightarrow> ls q = []" "mlfq_deq ls = (ls, 0)"
    | (level) q where "q < SCHED_QUEUES" "ls q \<noteq> []" "\<And>q'. q' < q \<Longrightarrow> ls q' = []"
        "mlfq_deq ls = (ls(q := tl (ls q)), hd (ls q))"
proof (cases "find (\<lambda>q. ls q \<noteq> []) [0..<SCHED_QUEUES]")
  case None
  then have "mlfq_deq ls = (ls, 0)" by (simp add: mlfq_deq_def)
  moreover have "ls q = []" if "q < SCHED_QUEUES" for q using None that by (simp add: find_None_iff)
  ultimately show ?thesis using empty by blast
next
  case (Some q)
  then have "mlfq_deq ls = (ls(q := tl (ls q)), hd (ls q))" by (simp add: mlfq_deq_def)
  moreover have "q < SCHED_QUEUES" "ls q \<noteq> []" "\<And>q'. q' < q \<Longrightarrow> ls q' = []"
    using Some by (auto simp: find_Some_iff)
  ultimately show ?thesis using level by blast
qed

lemma dequeue_rq_ok:
  "rq_ok ps rq ls \<Longrightarrow> \<exists>rq'. dequeue_rq ps rq = Some (rq', snd (mlfq_deq ls))
     \<and> rq_ok ps rq' (fst (mlfq_deq ls)) \<and> current rq' = current rq \<and> idle_task rq' = idle_task rq \<and> ticks rq' = ticks rq"
proof (induction ps rq rule: dequeue_rq.induct)
  case (1 ps rq)
  show ?case
  proof (cases "queue_bitmap rq = 0")
    case True
    then have "ls q = []" if "q < SCHED_QUEUES" for q using 1(2) that by (auto simp: rq_ok_def)
    then have "mlfq_deq ls = (ls, 0)" by (cases ls rule: mlfq_deq_cases) auto
    with True 1(2) show ?thesis by (simp add: dequeue_rq.simps [of ps rq])
  next
    case False
    let ?q = "ctz (queue_bitmap rq)"
    have b: "bit (queue_bitmap rq) ?q" using False by (rule ctz_bit)
    then have q: "?q < SCHED_QUEUES" using 1(2) by (simp add: rq_ok_def)
    have len: "length (queues rq) = SCHED_QUEUES" "length (tails rq) = SCHED_QUEUES"
      and bits: "\<And>i. bit (queue_bitmap rq) i \<Longrightarrow> i < SCHED_QUEUES"
      and L: "\<And>i. i < SCHED_QUEUES \<Longrightarrow> link ps (queues rq ! i) (ls i) \<and> tails rq ! i = last0 (ls i)
          \<and> (ls i \<noteq> [] \<longrightarrow> bit (queue_bitmap rq) i)"
      using 1(2) by (auto simp: rq_ok_def)
    have low: "ls i = []" if "i < ?q" for i
      using that L [of i] q ctz_least [of "queue_bitmap rq" i] by fastforce
    show ?thesis
    proof (cases "queues rq ! ?q = 0")
      case True
      then have "ls ?q = []" using L [OF q] by (cases "ls ?q") auto
      then have "rq_ok ps (rq\<lparr>queue_bitmap := clear_mask (queue_bitmap rq) ?q\<rparr>) ls"
        using len bits L by (auto simp: rq_ok_def bit_ops)
      from 1(1) [OF False refl _ refl True this] q show ?thesis
        using False True by (subst dequeue_rq.simps) (simp add: Let_def)
    next
      case head: False
      then obtain xs where xs: "ls ?q = queues rq ! ?q # xs" using L [OF q] by (cases "ls ?q") auto
      then have m: "mlfq_deq ls = (ls(?q := xs), queues rq ! ?q)"
        using find_level [OF q, of ls] low by (simp add: mlfq_deq_def)
      have lx: "link ps (sched_next (ps (queues rq ! ?q))) xs" using L [OF q] xs by simp
      then have "sched_next (ps (queues rq ! ?q)) = 0 \<longleftrightarrow> xs = []" by (cases xs) auto
      with False q head m lx len bits L xs show ?thesis
        by (subst dequeue_rq.simps)
          (auto simp: Let_def rq_ok_def nth_list_update bit_ops last0_def)
    qed
  qed
qed

lemma dequeue_ok:
  assumes "sched_ok s L" and "c < length (runqueues s)"
  shows "\<exists>s'. dequeue_highest s c = Some (s', snd (mlfq_deq (L c)))
    \<and> sched_ok s' (L(c := fst (mlfq_deq (L c)))) \<and> relinked s s'"
proof -
  note ok = sched_ok_rq [OF assms]
  let ?p = "snd (mlfq_deq (L c))" and ?ls = "fst (mlfq_deq (L c))"
  obtain rq' where rq': "dequeue_rq (procs s) (runqueues s ! c) = Some (rq', ?p)" "rq_ok (procs s) rq' ?ls"
    "current rq' = current (runqueues s ! c)" "idle_task rq' = idle_task (runqueues s ! c)"
    "ticks rq' = ticks (runqueues s ! c)"
    using dequeue_rq_ok [OF ok] by blast
  let ?s1 = "rq_set s c rq'"
  have r1: "relinked s ?s1" using assms(2) rq' by (intro relinked_rq_set)
  have sub: "set (?ls q) \<subseteq> set (L c q)" for q
    by (cases "L c" rule: mlfq_deq_cases) (auto dest: list.set_sel(2))
  have ok1: "sched_ok ?s1 (L(c := ?ls))"
  proof (rule sched_okI)
    fix c' q p assume "p \<in> set ((L(c := ?ls)) c' q)"
    then have "p \<in> set (L c' q)" using sub [of q] by (auto split: if_splits)
    from sched_okD [OF assms(1) this]
    show "c' < length (runqueues ?s1) \<and> q < SCHED_QUEUES \<and> cpu (procs ?s1 p) = c' \<and> priority (procs ?s1 p) = int q"
      by (simp add: rq_set_def)
  next
    fix c' assume "c' < length (runqueues ?s1)"
    then show "rq_ok (procs ?s1) (runqueues ?s1 ! c') ((L(c := ?ls)) c')"
      using rq'(2) sched_ok_rq [OF assms(1)] by (simp add: rq_set_def nth_list_update)
  qed
  show ?thesis
  proof (cases "?p = 0")
    case True
    with rq' r1 ok1 assms(2) show ?thesis by (simp add: dequeue_highest_def rq_at_def Let_def)
  next
    case False
    let ?s2 = "upd ?s1 ?p (sched_next_update (\<lambda>_. 0))"
    have "?p \<notin> set ((L(c := ?ls)) c' q')" for c' q'
    proof (cases "L c" rule: mlfq_deq_cases)
      case empty
      with False show ?thesis by simp
    next
      case (level q)
      then have p: "?p = hd (L c q)" "?p \<in> set (L c q)" by simp_all
      have "distinct (L c q)" using ok level(1) link_distinct by (auto simp: rq_ok_def)
      then have "?p \<notin> set (tl (L c q))" using p(1) level(2) by (cases "L c q") auto
      show ?thesis
      proof
        assume m: "?p \<in> set ((L(c := ?ls)) c' q')"
        then have "?p \<in> set (L c' q')" using sub [of q'] by (cases "c' = c") auto
        then have "c' = c" "q' = q" using sched_ok_disjoint [OF assms(1) p(2)] by auto
        with m have "?p \<in> set (?ls q)" by simp
        also have "?ls q = tl (L c q)" using level(4) by simp
        finally show False using \<open>?p \<notin> set (tl (L c q))\<close> by simp
      qed
    qed
    note notin = this
    have "rq_ok (procs ?s2) (runqueues ?s2 ! c') ((L(c := ?ls)) c')" if "c' < length (runqueues ?s2)" for c'
    proof -
      have "rq_ok (procs ?s1) (runqueues ?s1 ! c') ((L(c := ?ls)) c')"
        using sched_ok_rq [OF ok1] that by (simp add: upd_def)
      moreover have "rq_ok (procs ?s2) (runqueues ?s1 ! c') ((L(c := ?ls)) c')
          \<longleftrightarrow> rq_ok (procs ?s1) (runqueues ?s1 ! c') ((L(c := ?ls)) c')"
        using notin [of c'] by (intro rq_ok_cong) (auto simp: upd_def)
      ultimately show ?thesis by (simp add: upd_def)
    qed
    moreover have "c' < length (runqueues ?s2) \<and> q < SCHED_QUEUES \<and> cpu (procs ?s2 p) = c' \<and> priority (procs ?s2 p) = int q"
      if "p \<in> set ((L(c := ?ls)) c' q)" for c' q p
      using sched_okD [OF ok1 that] by (auto simp: upd_def)
    ultimately have "sched_ok ?s2 (L(c := ?ls))" by (intro sched_okI) auto
    moreover have "relinked s ?s2" using r1 relinked_upd relinked_trans by blast
    moreover have "dequeue_highest s c = Some (?s2, ?p)"
      using rq'(1) assms(2) False by (simp add: dequeue_highest_def rq_at_def Let_def)
    ultimately show ?thesis by blast
  qed
qed

section \<open>The interface of the ready queues\<close>

text \<open>What the scheduler relies on: the queues are FIFO lists, one for each level, and dequeueing
  takes the head of the first level that is not empty.\<close>

locale ready_queues =
  fixes enq :: "'s \<Rightarrow> pptr \<Rightarrow> 's option"
    and deq :: "'s \<Rightarrow> ('s \<times> pptr) option"
    and view :: "'s \<Rightarrow> (nat \<Rightarrow> pptr list) \<Rightarrow> bool"
    and admits :: "'s \<Rightarrow> pptr \<Rightarrow> nat \<Rightarrow> bool"
  assumes enq_view: "view s ls \<Longrightarrow> admits s p q \<Longrightarrow> \<exists>s'. enq s p = Some s' \<and> view s' (ls(q := ls q @ [p]))"
    and deq_view: "view s ls \<Longrightarrow> \<exists>s'. deq s = Some (s', snd (mlfq_deq ls)) \<and> view s' (fst (mlfq_deq ls))"
    and no_null: "view s ls \<Longrightarrow> q < SCHED_QUEUES \<Longrightarrow> 0 \<notin> set (ls q)"
    and level_bound: "admits s p q \<Longrightarrow> q < SCHED_QUEUES"

text \<open>Dequeueing up to \<open>n\<close> processes.\<close>

fun deq_n :: "('s \<Rightarrow> ('s \<times> pptr) option) \<Rightarrow> nat \<Rightarrow> 's \<Rightarrow> ('s \<times> pptr list) option" where
  "deq_n deq 0 s = Some (s, [])"
| "deq_n deq (Suc n) s =
     (case deq s of None \<Rightarrow> None
      | Some (s1, p) \<Rightarrow> if p = 0 then Some (s1, [])
          else (case deq_n deq n s1 of None \<Rightarrow> None | Some (s2, ps) \<Rightarrow> Some (s2, p # ps)))"

definition run_order :: "(nat \<Rightarrow> pptr list) \<Rightarrow> pptr list" where
  "run_order ls = concat (map ls [0..<SCHED_QUEUES])"

lemma run_order_split:
  "q < SCHED_QUEUES \<Longrightarrow> run_order ls = concat (map ls [0..<q]) @ ls q @ concat (map ls [Suc q..<SCHED_QUEUES])"
  unfolding run_order_def
  using upt_add_eq_append [of 0 q "SCHED_QUEUES - q"] upt_conv_Cons [of q SCHED_QUEUES] by simp

lemma other_levels: "q \<notin> set qs \<Longrightarrow> concat (map (ls(q := xs)) qs) = concat (map ls qs)"
  by (induction qs) auto

lemma run_order_deq:
  assumes "\<And>q. q < SCHED_QUEUES \<Longrightarrow> 0 \<notin> set (ls q)"
  shows "run_order ls = (if snd (mlfq_deq ls) = 0 then [] else snd (mlfq_deq ls) # run_order (fst (mlfq_deq ls)))"
proof (cases ls rule: mlfq_deq_cases)
  case empty
  then show ?thesis by (simp add: run_order_def)
next
  case (level q)
  let ?r = "concat (map ls [Suc q..<SCHED_QUEUES])"
  have e: "concat (map ls [0..<q]) = []" using level(3) by simp
  have "run_order ls = ls q @ ?r" unfolding run_order_split [OF level(1), of ls] e by simp
  moreover have "run_order (ls(q := tl (ls q))) = tl (ls q) @ ?r"
    unfolding run_order_split [OF level(1), of "ls(q := tl (ls q))"] using e by (simp add: other_levels del: fun_upd_apply) simp
  moreover have "hd (ls q) \<noteq> 0" using assms [OF level(1)] level(2) hd_in_set by metis
  ultimately show ?thesis using level(2,4) by simp
qed

context ready_queues begin

lemma deq_n_order:
  assumes "view s ls"
  shows "\<exists>s'. deq_n deq n s = Some (s', take n (run_order ls))"
  using assms
proof (induction n arbitrary: s ls)
  case 0
  then show ?case by simp
next
  case (Suc n)
  note ord = run_order_deq [OF no_null [OF Suc.prems]]
  obtain s1 where s1: "deq s = Some (s1, snd (mlfq_deq ls))" "view s1 (fst (mlfq_deq ls))"
    using deq_view [OF Suc.prems] by blast
  show ?case
  proof (cases "snd (mlfq_deq ls) = 0")
    case True
    with s1 ord show ?thesis by simp
  next
    case False
    obtain s2 where "deq_n deq n s1 = Some (s2, take n (run_order (fst (mlfq_deq ls))))"
      using Suc.IH [OF s1(2)] by blast
    moreover have "run_order ls = snd (mlfq_deq ls) # run_order (fst (mlfq_deq ls))" using ord False by simp
    ultimately show ?thesis using s1 False by simp
  qed
qed

text \<open>A process added at level \<open>q\<close> runs after exactly the processes of the levels above and those
  already at its own level.\<close>

lemma enq_position:
  assumes "view s ls" and "admits s p q"
  defines "k \<equiv> length (concat (map ls [0..<q])) + length (ls q)"
  shows "\<exists>s1 s2. enq s p = Some s1 \<and> deq_n deq (Suc k) s1 = Some (s2, take k (run_order ls) @ [p])"
proof -
  obtain s1 where s1: "enq s p = Some s1" "view s1 (ls(q := ls q @ [p]))" using enq_view [OF assms(1,2)] by blast
  have q: "q < SCHED_QUEUES" using assms(2) by (rule level_bound)
  have "concat (map (ls(q := ls q @ [p])) [0..<q]) = concat (map ls [0..<q])"
    by (rule other_levels) simp
  then have "take (Suc k) (run_order (ls(q := ls q @ [p]))) = take k (run_order ls) @ [p]"
    by (simp add: run_order_split [OF q] k_def)
  with deq_n_order [OF s1(2), of "Suc k"] s1(1) show ?thesis by metis
qed

end

definition sched_view :: "nat \<Rightarrow> sched \<Rightarrow> (nat \<Rightarrow> pptr list) \<Rightarrow> bool" where
  "sched_view c s ls \<longleftrightarrow> (\<exists>L. sched_ok s L \<and> L c = ls \<and> c < length (runqueues s))"

definition sched_admits :: "nat \<Rightarrow> sched \<Rightarrow> pptr \<Rightarrow> nat \<Rightarrow> bool" where
  "sched_admits c s p q \<longleftrightarrow> p \<noteq> 0 \<and> cpu (procs s p) = c \<and> priority (procs s p) = int q \<and> q < SCHED_QUEUES
     \<and> (\<forall>L. sched_ok s L \<longrightarrow> p \<notin> queued L)"

interpretation ready: ready_queues enqueue_process "\<lambda>s. dequeue_highest s c" "sched_view c" "sched_admits c"
  for c :: nat
proof unfold_locales
  fix s ls p q
  assume "sched_view c s ls" and a: "sched_admits c s p q"
  then obtain L where L: "sched_ok s L" "L c = ls" "c < length (runqueues s)" by (auto simp: sched_view_def)
  from enqueue_ok [OF L(1), of p c q] a L obtain s' where
    "enqueue_process s p = Some s'" "sched_ok s' (L(c := (L c)(q := L c q @ [p])))" "relinked s s'"
    by (auto simp: sched_admits_def)
  then show "\<exists>s'. enqueue_process s p = Some s' \<and> sched_view c s' (ls(q := ls q @ [p]))"
    using L(2,3) relinkedD(4) by (auto simp: sched_view_def)
next
  fix s ls
  assume "sched_view c s ls"
  then obtain L where L: "sched_ok s L" "L c = ls" "c < length (runqueues s)" by (auto simp: sched_view_def)
  from dequeue_ok [OF L(1,3)] L show
    "\<exists>s'. dequeue_highest s c = Some (s', snd (mlfq_deq ls)) \<and> sched_view c s' (fst (mlfq_deq ls))"
    using relinkedD(4) by (fastforce simp: sched_view_def)
next
  fix s ls q
  assume "sched_view c s ls" and q: "q < SCHED_QUEUES"
  then show "0 \<notin> set (ls q)"
    using link_nonzero sched_ok_rq by (fastforce simp: sched_view_def rq_ok_def)
next
  fix s p q
  assume "sched_admits c s p q"
  then show "q < SCHED_QUEUES" by (simp add: sched_admits_def)
qed

section \<open>Series of requests\<close>

text \<open>A series of requests to the ready queues: \<open>enqueue_process\<close> on a process, and
  \<open>dequeue_highest\<close> on a CPU, with the pointer each dequeue returned.\<close>

datatype queue_req = Enq pptr | Deq nat

fun run_queues :: "sched \<Rightarrow> queue_req list \<Rightarrow> (sched \<times> (nat \<times> pptr) list) option" where
  "run_queues s [] = Some (s, [])"
| "run_queues s (Enq p # rs) = (case enqueue_process s p of None \<Rightarrow> None | Some s1 \<Rightarrow> run_queues s1 rs)"
| "run_queues s (Deq c # rs) =
     (case dequeue_highest s c of None \<Rightarrow> None
      | Some (s1, p) \<Rightarrow> (case run_queues s1 rs of None \<Rightarrow> None | Some (s2, outs) \<Rightarrow> Some (s2, (c, p) # outs)))"

text \<open>The ideal queues, one list for each CPU and level: a process is added at the end of the list of
  its own CPU and level, unless it is the null pointer, is on that list already, or has no such list
  (\<open>None\<close>); a dequeue takes the first process of the first level that is not empty, or 0.\<close>

fun ideal_queues :: "(pptr \<Rightarrow> process) \<Rightarrow> nat \<Rightarrow> (nat \<Rightarrow> nat \<Rightarrow> pptr list) \<Rightarrow> queue_req list
    \<Rightarrow> ((nat \<Rightarrow> nat \<Rightarrow> pptr list) \<times> (nat \<times> pptr) list) option" where
  "ideal_queues P n L [] = Some (L, [])"
| "ideal_queues P n L (Enq p # rs) =
     (let c = cpu (P p); q = nat (priority (P p))
      in if p = 0 \<or> n \<le> c \<or> priority (P p) < 0 \<or> SCHED_QUEUES \<le> q \<or> p \<in> set (L c q) then None
         else ideal_queues P n (L(c := (L c)(q := L c q @ [p]))) rs)"
| "ideal_queues P n L (Deq c # rs) =
     (if n \<le> c then None
      else case ideal_queues P n (L(c := fst (mlfq_deq (L c)))) rs of None \<Rightarrow> None
        | Some (L', outs) \<Rightarrow> Some (L', (c, snd (mlfq_deq (L c))) # outs))"

text \<open>The processes that arrived at a level of a CPU, in order of arrival, and those that were served
  from it, in order of service.\<close>

definition at_level :: "(pptr \<Rightarrow> process) \<Rightarrow> nat \<Rightarrow> nat \<Rightarrow> pptr \<Rightarrow> bool" where
  "at_level P c q p \<longleftrightarrow> p \<noteq> 0 \<and> cpu (P p) = c \<and> priority (P p) = int q"

fun arrivals :: "(pptr \<Rightarrow> process) \<Rightarrow> nat \<Rightarrow> nat \<Rightarrow> queue_req list \<Rightarrow> pptr list" where
  "arrivals P c q [] = []"
| "arrivals P c q (Enq p # rs) = (if at_level P c q p then p # arrivals P c q rs else arrivals P c q rs)"
| "arrivals P c q (Deq c' # rs) = arrivals P c q rs"

fun services :: "(pptr \<Rightarrow> process) \<Rightarrow> nat \<Rightarrow> nat \<Rightarrow> (nat \<times> pptr) list \<Rightarrow> pptr list" where
  "services P c q [] = []"
| "services P c q ((c', p) # outs) =
     (if c' = c \<and> at_level P c q p then p # services P c q outs else services P c q outs)"

lemma services_Cons: "services P c q (x # xs) = services P c q [x] @ services P c q xs"
  by (cases x) simp

lemma queue_fields_kept:
  assumes "relinked s s'"
  shows "ideal_queues (procs s') n L rs = ideal_queues (procs s) n L rs"
    and "arrivals (procs s') c q rs = arrivals (procs s) c q rs"
    and "services (procs s') c q outs = services (procs s) c q outs"
proof -
  note [simp] = relinkedD(1,2) [OF assms]
  show "ideal_queues (procs s') n L rs = ideal_queues (procs s) n L rs"
    by (induction "procs s" n L rs rule: ideal_queues.induct) (simp_all add: Let_def)
  show "arrivals (procs s') c q rs = arrivals (procs s) c q rs"
    by (induction "procs s" c q rs rule: arrivals.induct) (simp_all add: at_level_def)
  show "services (procs s') c q outs = services (procs s) c q outs"
    by (induction "procs s" c q outs rule: services.induct) (simp_all add: at_level_def)
qed

text \<open>A dequeue moves the head of one level to the services of that level.\<close>

lemma mlfq_deq_service:
  assumes "sched_ok s L" and "c < length (runqueues s)"
  shows "services (procs s) c' q [(c, snd (mlfq_deq (L c)))] @ (L(c := fst (mlfq_deq (L c)))) c' q = L c' q"
proof (cases "L c" rule: mlfq_deq_cases)
  case empty
  show ?thesis unfolding empty(2) by (simp add: at_level_def)
next
  case (level l)
  then have m: "hd (L c l) \<in> set (L c l)" by simp
  moreover have "hd (L c l) \<noteq> 0" using m sched_ok_link(3) [OF assms level(1)] by metis
  ultimately have "at_level (procs s) c' q (hd (L c l)) \<longleftrightarrow> c' = c \<and> q = l"
    using sched_okD [OF assms(1) m] by (auto simp: at_level_def)
  with level(2,4) show ?thesis by simp
qed

text \<open>The run queues do what the ideal queues do, and the ideal queues are first in first out.\<close>

lemma run_queues_ideal:
  assumes "sched_ok s L" and "ideal_queues (procs s) (length (runqueues s)) L rs = Some (L', outs)"
  shows "\<exists>s'. run_queues s rs = Some (s', outs) \<and> sched_ok s' L' \<and> length (runqueues s') = length (runqueues s)
    \<and> (\<forall>c q. services (procs s) c q outs @ L' c q = L c q @ arrivals (procs s) c q rs)"
  using assms
proof (induction s rs arbitrary: L outs rule: run_queues.induct)
  case (1 s)
  then show ?case by simp
next
  case (2 s p rs)
  let ?c = "cpu (procs s p)" and ?q = "nat (priority (procs s p))"
  let ?L = "L(?c := (L ?c)(?q := L ?c ?q @ [p]))"
  have g: "p \<noteq> 0" "?c < length (runqueues s)" "priority (procs s p) = int ?q" "?q < SCHED_QUEUES" "p \<notin> set (L ?c ?q)"
    and r: "ideal_queues (procs s) (length (runqueues s)) ?L rs = Some (L', outs)"
    using "2.prems"(2) by (auto simp: Let_def split: if_splits)
  have "p \<notin> queued L" using g(5) sched_okD(3,4) [OF "2.prems"(1)] by (auto simp: queued_def)
  then obtain s1 where s1: "enqueue_process s p = Some s1" "sched_ok s1 ?L" "relinked s s1"
    using enqueue_ok [OF "2.prems"(1) g(1) _ refl g(2,3,4)] by blast
  note k = queue_fields_kept [OF s1(3)] relinkedD(4) [OF s1(3)]
  have "ideal_queues (procs s1) (length (runqueues s1)) ?L rs = Some (L', outs)" using r by (simp only: k)
  from "2.IH" [OF s1(1,2) this] obtain s' where s': "run_queues s1 rs = Some (s', outs)" "sched_ok s' L'"
    "length (runqueues s') = length (runqueues s)"
    "\<And>c q. services (procs s) c q outs @ L' c q = ?L c q @ arrivals (procs s) c q rs" unfolding k by blast
  have "?L c q @ arrivals (procs s) c q rs = L c q @ arrivals (procs s) c q (Enq p # rs)" for c q
    using g(1,3) by (auto simp: at_level_def)
  with s1(1) s' show ?case by simp
next
  case (3 s c rs)
  let ?L = "L(c := fst (mlfq_deq (L c)))" and ?p = "snd (mlfq_deq (L c))"
  from "3.prems"(2) obtain outs1 where c: "c < length (runqueues s)" and o: "outs = (c, ?p) # outs1"
    and r: "ideal_queues (procs s) (length (runqueues s)) ?L rs = Some (L', outs1)"
    by (auto split: if_splits option.splits)
  from dequeue_ok [OF "3.prems"(1) c] obtain s1 where s1: "dequeue_highest s c = Some (s1, ?p)"
    "sched_ok s1 ?L" "relinked s s1" by blast
  note k = queue_fields_kept [OF s1(3)] relinkedD(4) [OF s1(3)]
  have "ideal_queues (procs s1) (length (runqueues s1)) ?L rs = Some (L', outs1)" using r by (simp only: k)
  from "3.IH" [OF s1(1) refl s1(2) this] obtain s' where s': "run_queues s1 rs = Some (s', outs1)" "sched_ok s' L'"
    "length (runqueues s') = length (runqueues s)"
    "\<And>c q. services (procs s) c q outs1 @ L' c q = ?L c q @ arrivals (procs s) c q rs" unfolding k by blast
  have "services (procs s) c' q outs @ L' c' q = L c' q @ arrivals (procs s) c' q (Deq c # rs)" for c' q
  proof -
    have "services (procs s) c' q outs = services (procs s) c' q [(c, ?p)] @ services (procs s) c' q outs1"
      unfolding o by (rule services_Cons)
    with s'(4) [of c' q] mlfq_deq_service [OF "3.prems"(1) c, of c' q] show ?thesis
      by (metis append_assoc arrivals.simps(3))
  qed
  with s1(1) s'(1-3) o show ?case by simp
qed

text \<open>
  C2: over any series of \<open>enqueue_process\<close> and \<open>dequeue_highest\<close> on the CPUs of the machine, in which
  no process is enqueued while it is queued, every dequeue returns the process the ideal queues
  return: the first process of the highest level of that CPU that is not empty, where enqueueing adds
  at the end.  For every CPU and level, what was served from it followed by what is still queued is
  what was queued at the start followed by what arrived since, in order of arrival; and draining a CPU
  afterwards serves its levels from the highest to the lowest.
\<close>

theorem dequeue_order:
  assumes "sched_ok s L" and "ideal_queues (procs s) (length (runqueues s)) L reqs = Some (L', outs)"
  shows "\<exists>s'. run_queues s reqs = Some (s', outs) \<and> sched_ok s' L'
    \<and> (\<forall>c q. services (procs s) c q outs @ L' c q = L c q @ arrivals (procs s) c q reqs)
    \<and> (\<forall>c < length (runqueues s). \<forall>n. \<exists>s''. deq_n (\<lambda>s. dequeue_highest s c) n s'
          = Some (s'', take n (concat (map (L' c) [0..<SCHED_QUEUES]))))"
proof -
  obtain s' where s': "run_queues s reqs = Some (s', outs)" "sched_ok s' L'" "length (runqueues s') = length (runqueues s)"
    "\<forall>c q. services (procs s) c q outs @ L' c q = L c q @ arrivals (procs s) c q reqs"
    using run_queues_ideal [OF assms] by blast
  have "\<exists>s''. deq_n (\<lambda>s. dequeue_highest s c) n s' = Some (s'', take n (concat (map (L' c) [0..<SCHED_QUEUES])))"
    if "c < length (runqueues s)" for c n
    using ready.deq_n_order [of c s' "L' c" n] that s'(2,3) by (auto simp: sched_view_def run_order_def)
  with s' show ?thesis by blast
qed

text \<open>Two processes waiting on one CPU: pointer 3 at high priority, pointer 1 behind pointer 2 at normal
  priority; process 4 is not queued.\<close>

definition blank_process :: process where
  "blank_process = zero_process\<lparr>priority := 2\<rparr>"

lemmas blank_process_defs = blank_process_def zero_process_def

definition demo_sched :: sched where
  "demo_sched = \<lparr>procs = (\<lambda>_. blank_process)(2 := blank_process\<lparr>sched_next := 1\<rparr>, 3 := blank_process\<lparr>priority := 1\<rparr>),
     runqueues = [\<lparr>queues = [0, 3, 2, 0, 0], tails = [0, 3, 1, 0, 0], queue_bitmap = set_mask (set_mask 0 1) 2, current = 4, idle_task = 5, ticks = 0\<rparr>],
     waiting = (\<lambda>_. 0)\<rparr>"

definition demo_queues :: "nat \<Rightarrow> nat \<Rightarrow> pptr list" where
  "demo_queues = (\<lambda>_ _. [])(0 := (\<lambda>_. [])(1 := [3], 2 := [2, 1]))"

lemma less_SCHED_QUEUES: "q < SCHED_QUEUES \<longleftrightarrow> q = 0 \<or> q = 1 \<or> q = 2 \<or> q = 3 \<or> q = 4"
  by (auto simp: SCHED_QUEUES_def)

lemma demo_sched_ok: "sched_ok demo_sched demo_queues"
  by (auto simp: sched_ok_def rq_ok_def demo_sched_def demo_queues_def less_SCHED_QUEUES bit_ops last0_def
      blank_process_defs) (simp_all add: SCHED_QUEUES_def)

theorem dequeue_order_witness:
  "\<exists>s'. run_queues demo_sched [Enq 4, Deq 0, Deq 0, Enq 3, Deq 0, Deq 0] = Some (s', [(0, 3), (0, 2), (0, 3), (0, 1)])
    \<and> (\<exists>s''. deq_n (\<lambda>s. dequeue_highest s 0) 3 s' = Some (s'', [4]))"
proof -
  define L' where "L' = demo_queues(0 := (demo_queues 0)(1 := [], 2 := [4]))"
  have i: "ideal_queues (procs demo_sched) (length (runqueues demo_sched)) demo_queues
      [Enq 4, Deq 0, Deq 0, Enq 3, Deq 0, Deq 0] = Some (L', [(0, 3), (0, 2), (0, 3), (0, 1)])"
    by (simp add: L'_def demo_sched_def demo_queues_def blank_process_defs SCHED_QUEUES_def mlfq_deq_def upt_rec Let_def
        fun_upd_def fun_eq_iff)
  have "concat (map (L' 0) [0..<SCHED_QUEUES]) = [4]"
    by (simp add: L'_def demo_queues_def SCHED_QUEUES_def upt_rec)
  moreover have "0 < length (runqueues demo_sched)" by (simp add: demo_sched_def)
  ultimately show ?thesis using dequeue_order [OF demo_sched_ok i] by (metis take_all length_Cons list.size(3) one_le_numeral One_nat_def)
qed

section \<open>Yielding and preemption\<close>

lemma sched_ok_upd:
  assumes "sched_ok s L" and "\<And>p. cpu (f p) = cpu p" and "\<And>p. priority (f p) = priority p"
    and "\<And>p. sched_next (f p) = sched_next p"
  shows "sched_ok (upd s x f) L"
proof (rule sched_okI)
  fix c assume "c < length (runqueues (upd s x f))"
  then have "rq_ok (procs s) (runqueues s ! c) (L c)" using sched_ok_rq [OF assms(1)] by (simp add: upd_def)
  moreover have "rq_ok (procs (upd s x f)) (runqueues s ! c) (L c) \<longleftrightarrow> rq_ok (procs s) (runqueues s ! c) (L c)"
    using assms(4) by (intro rq_ok_cong) (auto simp: upd_def)
  ultimately show "rq_ok (procs (upd s x f)) (runqueues (upd s x f) ! c) (L c)" by (simp add: upd_def)
next
  fix c q p assume "p \<in> set (L c q)"
  from sched_okD [OF assms(1) this] show "c < length (runqueues (upd s x f)) \<and> q < SCHED_QUEUES
      \<and> cpu (procs (upd s x f) p) = c \<and> priority (procs (upd s x f) p) = int q"
    using assms(2,3) by (auto simp: upd_def)
qed

text \<open>A process that is in no queue may change in any way.\<close>

lemma sched_ok_upd_unqueued:
  assumes "sched_ok s L" and "x \<notin> queued L"
  shows "sched_ok (upd s x f) L"
proof (rule sched_okI)
  have x: "x \<notin> set (L c q)" for c q using assms(2) by (auto simp: queued_def)
  fix c assume "c < length (runqueues (upd s x f))"
  then have "rq_ok (procs s) (runqueues s ! c) (L c)" using sched_ok_rq [OF assms(1)] by (simp add: upd_def)
  moreover have "rq_ok (procs (upd s x f)) (runqueues s ! c) (L c) \<longleftrightarrow> rq_ok (procs s) (runqueues s ! c) (L c)"
    using x by (intro rq_ok_cong) (auto simp: upd_def)
  ultimately show "rq_ok (procs (upd s x f)) (runqueues (upd s x f) ! c) (L c)" by (simp add: upd_def)
next
  fix c q p assume p: "p \<in> set (L c q)"
  then have "p \<noteq> x" using assms(2) by (auto simp: queued_def)
  with sched_okD [OF assms(1) p] show "c < length (runqueues (upd s x f)) \<and> q < SCHED_QUEUES
      \<and> cpu (procs (upd s x f) p) = c \<and> priority (procs (upd s x f) p) = int q"
    by (simp add: upd_def)
qed

lemma sched_ok_rq_set:
  assumes "sched_ok s L" and "c < length (runqueues s)" and "queues rq = queues (runqueues s ! c)"
    and "tails rq = tails (runqueues s ! c)" and "queue_bitmap rq = queue_bitmap (runqueues s ! c)"
  shows "sched_ok (rq_set s c rq) L"
proof (rule sched_okI)
  have "rq_ok (procs s) rq ls \<longleftrightarrow> rq_ok (procs s) (runqueues s ! c) ls" for ls
    unfolding rq_ok_def assms(3-5) ..
  moreover fix c' assume "c' < length (runqueues (rq_set s c rq))"
  ultimately show "rq_ok (procs (rq_set s c rq)) (runqueues (rq_set s c rq) ! c') (L c')"
    using sched_ok_rq [OF assms(1)] assms(2) by (simp add: rq_set_def nth_list_update)
next
  fix c' q p assume "p \<in> set (L c' q)"
  from sched_okD [OF assms(1) this] show "c' < length (runqueues (rq_set s c rq)) \<and> q < SCHED_QUEUES
      \<and> cpu (procs (rq_set s c rq) p) = c' \<and> priority (procs (rq_set s c rq) p) = int q"
    by (simp add: rq_set_def)
qed

lemma time_quantum_level:
  assumes "q < SCHED_QUEUES"
  shows "\<exists>k. time_quantum (int q) = Some k"
  using assms by (simp add: time_quantum_def)

lemma switch_to_ok:
  assumes "sched_ok s L" and "c < length (runqueues s)" and "p \<noteq> 0" and "p \<notin> queued L"
    and "cpu (procs s p) = c" and "priority (procs s p) = int q" and "q < SCHED_QUEUES"
  shows "\<exists>s'. switch_to s c p = Some s' \<and> sched_ok s' L \<and> current (runqueues s' ! c) = p
    \<and> state (procs s' p) = PROC_RUNNING \<and> (\<forall>x. x \<noteq> p \<longrightarrow> procs s' x = procs s x)"
proof -
  obtain k where k: "time_quantum (int q) = Some k" using time_quantum_level [OF assms(7)] by blast
  let ?s1 = "rq_set s c ((runqueues s ! c)\<lparr>current := p\<rparr>)"
  let ?s' = "upd ?s1 p (\<lambda>x. x\<lparr>state := PROC_RUNNING, cpu := c, time_slice := k\<rparr>)"
  have "switch_to s c p = Some ?s'"
    using assms(2,3,6) k by (simp add: switch_to_def rq_at_def)
  moreover have "sched_ok ?s1 L" using assms(1,2) by (intro sched_ok_rq_set) auto
  then have "sched_ok ?s' L" using assms(4) by (rule sched_ok_upd_unqueued)
  ultimately show ?thesis using assms(2) by (auto simp: upd_def rq_set_def)
qed

text \<open>Putting the running process back and choosing the next one.\<close>

definition requeue :: "(nat \<Rightarrow> pptr list) \<Rightarrow> nat \<Rightarrow> pptr \<Rightarrow> (nat \<Rightarrow> pptr list) \<times> pptr" where
  "requeue ls q cur = mlfq_deq (ls(q := ls q @ [cur]))"

lemma requeue_cases:
  assumes "q < SCHED_QUEUES"
  obtains (other) q' where "q' \<le> q" "ls q' \<noteq> []" "\<And>i. i < q' \<Longrightarrow> ls i = []"
      "requeue ls q cur = ((ls(q := ls q @ [cur]))(q' := tl ((ls(q := ls q @ [cur])) q')), hd (ls q'))"
    | (same) "\<And>i. i \<le> q \<Longrightarrow> ls i = []" "requeue ls q cur = (ls, cur)"
proof (cases "\<forall>i \<le> q. ls i = []")
  case True
  then have "find (\<lambda>i. (ls(q := ls q @ [cur])) i \<noteq> []) [0..<SCHED_QUEUES] = Some q"
    using assms by (intro find_level) auto
  moreover have "ls(q := []) = ls" using True by (simp add: fun_upd_idem)
  ultimately have "requeue ls q cur = (ls, cur)" using True by (simp add: requeue_def mlfq_deq_def)
  with True same show ?thesis by blast
next
  case False
  define q' where "q' = (LEAST i. ls i \<noteq> [])"
  have q': "ls q' \<noteq> []" "\<And>i. i < q' \<Longrightarrow> ls i = []" "q' \<le> q"
    using False LeastI_ex [of "\<lambda>i. ls i \<noteq> []"] not_less_Least [of _ "\<lambda>i. ls i \<noteq> []"] Least_le [of "\<lambda>i. ls i \<noteq> []"]
    unfolding q'_def by (blast, blast, meson order_trans)
  have "find (\<lambda>i. (ls(q := ls q @ [cur])) i \<noteq> []) [0..<SCHED_QUEUES] = Some q'"
    using assms q' by (intro find_level) auto
  then have "requeue ls q cur = ((ls(q := ls q @ [cur]))(q' := tl ((ls(q := ls q @ [cur])) q')), hd (ls q'))"
    using q' by (auto simp: requeue_def mlfq_deq_def)
  with q' other show ?thesis by blast
qed

lemma requeue_ok:
  assumes "sched_ok s L" and "c < length (runqueues s)" and "cur \<noteq> 0" and "cur \<notin> queued L"
    and "cpu (procs s cur) = c" and "priority (procs s cur) = int q" and "q < SCHED_QUEUES"
  defines "nxt \<equiv> snd (requeue (L c) q cur)"
  defines "L' \<equiv> L(c := fst (requeue (L c) q cur))"
  shows "\<exists>s1 s2. enqueue_process s cur = Some s1 \<and> dequeue_highest s1 c = Some (s2, nxt) \<and> sched_ok s2 L'
    \<and> relinked s s2 \<and> nxt \<noteq> 0 \<and> nxt \<notin> queued L' \<and> cpu (procs s2 nxt) = c
    \<and> (\<exists>q' \<le> q. priority (procs s2 nxt) = int q')"
proof -
  obtain s1 where s1: "enqueue_process s cur = Some s1" "sched_ok s1 (L(c := (L c)(q := L c q @ [cur])))" "relinked s s1"
    using enqueue_ok [OF assms(1,3,4,5,2,6,7)] by blast
  have c1: "c < length (runqueues s1)" using assms(2) relinkedD(4) [OF s1(3)] by simp
  obtain s2 where s2: "dequeue_highest s1 c = Some (s2, nxt)" "sched_ok s2 L'" "relinked s1 s2"
    using dequeue_ok [OF s1(2) c1] unfolding nxt_def L'_def requeue_def by auto
  have r: "relinked s s2" using s1(3) s2(3) by (rule relinked_trans)
  show ?thesis
  proof (cases rule: requeue_cases [OF assms(7), of "L c" cur])
    case (1 q')
    then have nxt: "nxt = hd (L c q')" "nxt \<in> set (L c q')" by (simp_all add: nxt_def)
    note f = sched_okD [OF assms(1) nxt(2)]
    note K = sched_ok_link [OF assms(1) f(1,2)]
    have n0: "nxt \<noteq> 0" using nxt(2) K(3) by metis
    have ncur: "nxt \<noteq> cur" using nxt(2) assms(4) by (auto simp: queued_def)
    have tl: "nxt \<notin> set (tl (L c q'))" using nxt(1) 1(2) K(2) by (cases "L c q'") auto
    have "nxt \<notin> queued L'"
    proof
      assume "nxt \<in> queued L'"
      then obtain c' i where m: "nxt \<in> set (L' c' i)" by (auto simp: queued_def)
      have "nxt \<in> set (L c' i)"
        using m 1(4) ncur 1(2) by (auto simp: L'_def split: if_splits dest: list.set_sel(2))
      then have "c' = c" "i = q'" using sched_ok_disjoint [OF assms(1) _ nxt(2)] by auto
      with m 1(2,4) tl ncur show False by (auto simp: L'_def split: if_splits)
    qed
    with s1(1) s2 r n0 f relinkedD [OF r] 1(1) show ?thesis by auto
  next
    case 2
    then have "nxt = cur" "L' = L" by (simp_all add: nxt_def L'_def)
    with s1(1) s2 r assms relinkedD [OF r] show ?thesis by auto
  qed
qed

lemma yield_ok:
  assumes "sched_ok s L" and "c < length (runqueues s)" and "current (runqueues s ! c) = cur" and "cur \<noteq> 0"
    and "cur \<notin> queued L" and "cpu (procs s cur) = c" and "priority (procs s cur) = int q" and "q < SCHED_QUEUES"
  defines "nxt \<equiv> snd (requeue (L c) q cur)"
  shows "\<exists>s'. scheduler_yield s c = Some s' \<and> sched_ok s' (L(c := fst (requeue (L c) q cur)))
    \<and> current (runqueues s' ! c) = nxt \<and> state (procs s' cur) = PROC_READY
    \<and> (nxt = cur \<or> state (procs s' nxt) = PROC_RUNNING)"
proof -
  let ?s0 = "upd s cur (state_update (\<lambda>_. PROC_READY))"
  let ?L' = "L(c := fst (requeue (L c) q cur))"
  have ok0: "sched_ok ?s0 L" using assms(1,5) by (rule sched_ok_upd_unqueued)
  have f0: "c < length (runqueues ?s0)" "cpu (procs ?s0 cur) = c" "priority (procs ?s0 cur) = int q"
    "current (runqueues ?s0 ! c) = cur" "state (procs ?s0 cur) = PROC_READY"
    using assms by (simp_all add: upd_def)
  obtain s1 s2 where s12: "enqueue_process ?s0 cur = Some s1" "dequeue_highest s1 c = Some (s2, nxt)"
    "sched_ok s2 ?L'" "relinked ?s0 s2" "nxt \<noteq> 0" "nxt \<notin> queued ?L'" "cpu (procs s2 nxt) = c"
    "\<exists>q' \<le> q. priority (procs s2 nxt) = int q'"
    using requeue_ok [OF ok0 f0(1) assms(4,5) f0(2,3) assms(8)] unfolding nxt_def by blast
  note R = relinkedD [OF s12(4)]
  have c2: "c < length (runqueues s2)" using R(4) f0(1) by simp
  have cur2: "current (runqueues s2 ! c) = cur" using s12(4) f0 by (simp add: relinked_def)
  obtain q' where q': "priority (procs s2 nxt) = int q'" "q' < SCHED_QUEUES" using s12(8) assms(8) by auto
  show ?thesis
  proof (cases "nxt = cur")
    case True
    obtain k where k: "time_quantum (priority (procs s2 cur)) = Some k"
      using time_quantum_level [OF assms(8)] R(2) f0(3) by auto
    have "scheduler_yield s c = Some (upd s2 cur (time_slice_update (\<lambda>_. k)))"
      using s12(1,2) assms(2-4) k True by (simp add: scheduler_yield_def rq_at_def Let_def)
    moreover have "sched_ok (upd s2 cur (time_slice_update (\<lambda>_. k))) ?L'" using s12(3) by (intro sched_ok_upd) auto
    ultimately show ?thesis using True cur2 R(3) f0(5) by (auto simp: upd_def)
  next
    case False
    obtain s3 where s3: "switch_to s2 c nxt = Some s3" "sched_ok s3 ?L'" "current (runqueues s3 ! c) = nxt"
      "state (procs s3 nxt) = PROC_RUNNING" "\<forall>x. x \<noteq> nxt \<longrightarrow> procs s3 x = procs s2 x"
      using switch_to_ok [OF s12(3) c2 s12(5,6,7) q'] by blast
    have "scheduler_yield s c = Some s3"
      using s12(1,2,5) assms(2-4) s3(1) False by (simp add: scheduler_yield_def rq_at_def Let_def)
    moreover have "state (procs s3 cur) = PROC_READY" using s3(5) False R(3) f0(5) by auto
    ultimately show ?thesis using s3 by auto
  qed
qed

lemma requeue_keeps:
  assumes "q < SCHED_QUEUES"
  shows "snd (requeue ls q cur) = cur \<or> (\<exists>q'. cur \<in> set (fst (requeue ls q cur) q'))"
  using assms
proof (cases rule: requeue_cases [where ls = ls and cur = cur])
  case (other q')
  then have "cur \<in> set (fst (requeue ls q cur) q)" by (cases "ls q'") auto
  then show ?thesis by blast
next
  case same
  then show ?thesis by simp
qed

text \<open>Whatever the state of the caller was, after a yield it is ready and will run again.\<close>

lemma yield_keeps_caller:
  assumes "sched_ok s L" and "c < length (runqueues s)" and "current (runqueues s ! c) = cur" and "cur \<noteq> 0"
    and "cur \<notin> queued L" and "cpu (procs s cur) = c" and "priority (procs s cur) = int q" and "q < SCHED_QUEUES"
  shows "\<exists>s' L'. scheduler_yield s c = Some s' \<and> sched_ok s' L' \<and> state (procs s' cur) = PROC_READY
    \<and> (cur \<in> queued L' \<or> current (runqueues s' ! c) = cur)"
proof -
  let ?L' = "L(c := fst (requeue (L c) q cur))"
  obtain s' where s': "scheduler_yield s c = Some s'" "sched_ok s' ?L'"
    "current (runqueues s' ! c) = snd (requeue (L c) q cur)" "state (procs s' cur) = PROC_READY"
    using yield_ok [OF assms] by blast
  have "cur \<in> queued ?L' \<or> snd (requeue (L c) q cur) = cur"
  proof (cases "snd (requeue (L c) q cur) = cur")
    case False
    then obtain q' where "cur \<in> set (?L' c q')" using requeue_keeps [OF assms(8), of "L c" cur] by auto
    then show ?thesis unfolding queued_def by blast
  qed simp
  with s' show ?thesis by metis
qed

text \<open>
  \<open>scheduler_yield\<close> puts the running process at the end of its queue and runs the head of the
  best queue that is not empty: a process of a better priority, or the one that has waited longest
  at the same priority; if there is none it goes on running the caller.  The caller is made ready
  whatever its state was, and is left so even when it goes on running.
\<close>

theorem yield_round_robin:
  assumes "sched_ok s L" and "c < length (runqueues s)" and "current (runqueues s ! c) = cur" and "cur \<noteq> 0"
    and "cur \<notin> queued L" and "cpu (procs s cur) = c" and "priority (procs s cur) = int q" and "q < SCHED_QUEUES"
  defines "nxt \<equiv> snd (requeue (L c) q cur)"
  shows "\<exists>s'. scheduler_yield s c = Some s' \<and> sched_ok s' (L(c := fst (requeue (L c) q cur)))
    \<and> current (runqueues s' ! c) = nxt \<and> state (procs s' cur) = PROC_READY
    \<and> (nxt = cur \<or> state (procs s' nxt) = PROC_RUNNING)"
  unfolding nxt_def using assms(1-8) by (rule yield_ok)

lemma demo_facts:
  "0 < length (runqueues demo_sched)" "current (runqueues demo_sched ! 0) = 4" "4 \<notin> queued demo_queues"
  "cpu (procs demo_sched 4) = 0" "priority (procs demo_sched 4) = int 2" "2 < SCHED_QUEUES"
  by (auto simp: demo_sched_def demo_queues_def queued_def blank_process_defs SCHED_QUEUES_def split: if_splits)

lemma demo_requeue: "snd (requeue (demo_queues 0) 2 4) = 3"
  by (simp add: requeue_def mlfq_deq_def demo_queues_def SCHED_QUEUES_def upt_rec)

theorem yield_round_robin_witness:
  "\<exists>s'. scheduler_yield demo_sched 0 = Some s' \<and> current (runqueues s' ! 0) = 3 \<and> state (procs s' 4) = PROC_READY"
  using yield_round_robin [OF demo_sched_ok demo_facts(1,2) _ demo_facts(3,4,5,6)]
  by (auto simp: demo_requeue)

text \<open>
  C10: a timer tick between boosts charges the running process one tick.  While its slice lasts
  nothing else happens; when the slice is used up, the process goes to the end of its queue and the
  head of the best queue runs, exactly as for a yield.
\<close>

theorem tick_correct:
  assumes "sched_ok s L" and "c < length (runqueues s)" and "current (runqueues s ! c) = cur" and "cur \<noteq> 0"
    and "cur \<notin> queued L" and "cpu (procs s cur) = c" and "priority (procs s cur) = int q" and "q < SCHED_QUEUES"
    and "0 < q" and "ticks (runqueues s ! c) + 1 < PRIORITY_BOOST_INTERVAL"
  shows "\<exists>s'. scheduler_tick s c = Some s' \<and> cpu_time (procs s' cur) = cpu_time (procs s cur) + 1
    \<and> (if 1 < time_slice (procs s cur)
       then sched_ok s' L \<and> current (runqueues s' ! c) = cur \<and> state (procs s' cur) = state (procs s cur)
         \<and> time_slice (procs s' cur) = time_slice (procs s cur) - 1
       else sched_ok s' (L(c := fst (requeue (L c) q cur)))
         \<and> current (runqueues s' ! c) = snd (requeue (L c) q cur) \<and> state (procs s' cur) = PROC_READY)"
proof -
  let ?nxt = "snd (requeue (L c) q cur)" and ?L' = "L(c := fst (requeue (L c) q cur))"
  define s1 where "s1 = upd (rq_set s c ((runqueues s ! c)\<lparr>ticks := ticks (runqueues s ! c) + 1\<rparr>)) cur
     (\<lambda>p. p\<lparr>cpu_time := cpu_time p + 1\<rparr>)"
  define s2 where "s2 = (if 0 < time_slice (procs s1 cur)
     then upd s1 cur (\<lambda>p. p\<lparr>time_slice := time_slice p - 1\<rparr>) else s1)"
  have "sched_ok (rq_set s c ((runqueues s ! c)\<lparr>ticks := ticks (runqueues s ! c) + 1\<rparr>)) L"
    using assms(1,2) by (intro sched_ok_rq_set) auto
  then have "sched_ok s1 L" unfolding s1_def using assms(5) by (rule sched_ok_upd_unqueued)
  then have ok2: "sched_ok s2 L" unfolding s2_def using assms(5) sched_ok_upd_unqueued by auto
  have f1: "time_slice (procs s1 cur) = time_slice (procs s cur)" by (simp add: s1_def upd_def rq_set_def)
  have rq2: "runqueues s2 = (runqueues s)[c := (runqueues s ! c)\<lparr>ticks := ticks (runqueues s ! c) + 1\<rparr>]"
    by (simp add: s2_def s1_def upd_def rq_set_def)
  have p2: "procs s2 cur = (procs s cur)\<lparr>cpu_time := cpu_time (procs s cur) + 1,
      time_slice := if 0 < time_slice (procs s cur) then time_slice (procs s cur) - 1 else time_slice (procs s cur)\<rparr>"
    using f1 by (auto simp: s2_def s1_def upd_def rq_set_def)
  have nrt: "priority (procs s1 cur) \<noteq> PRIO_REALTIME"
    using assms(7,9) by (simp add: s1_def upd_def rq_set_def PRIO_REALTIME_def)
  have boost: "tick_boost t c = Some t" if "ticks (runqueues t ! c) = ticks (runqueues s2 ! c)"
      "length (runqueues t) = length (runqueues s)" for t
  proof -
    have "\<not> PRIORITY_BOOST_INTERVAL \<le> ticks (runqueues s ! c) + 1" using assms(10) by (simp only: linorder_not_le)
    with that assms(2) rq2 show ?thesis by (simp add: tick_boost_def rq_at_def)
  qed
  have tick: "scheduler_tick s c = (if time_slice (procs s2 cur) = 0
      then tick_expire s2 c cur (idle_task (runqueues s ! c)) else tick_boost s2 c)"
    using assms(2-4) nrt unfolding scheduler_tick_def rq_at_def s1_def s2_def by (simp add: Let_def)
  show ?thesis
  proof (cases "1 < time_slice (procs s cur)")
    case True
    then have "0 < time_slice (procs s cur)" "time_slice (procs s cur) - 1 \<noteq> 0"
      by (auto simp: word_less_nat_alt)
    then have "scheduler_tick s c = Some s2" using tick p2 boost [of s2] rq2 by simp
    with True \<open>0 < time_slice (procs s cur)\<close> ok2 p2 rq2 assms(2,3) show ?thesis by simp
  next
    case False
    then have "time_slice (procs s cur) = 0 \<or> time_slice (procs s cur) = 1"
      by (metis leI unat_1 word_le_nat_alt le_Suc_eq le_zero_eq One_nat_def unat_0 word_unat_eq_iff)
    then have z: "time_slice (procs s2 cur) = 0" using p2 by auto
    let ?s0 = "upd s2 cur (state_update (\<lambda>_. PROC_READY))"
    have ok0: "sched_ok ?s0 L" using ok2 assms(5) by (rule sched_ok_upd_unqueued)
    have f0: "c < length (runqueues ?s0)" "cpu (procs ?s0 cur) = c" "priority (procs ?s0 cur) = int q"
      "current (runqueues ?s0 ! c) = cur" "state (procs ?s0 cur) = PROC_READY"
      "cpu_time (procs ?s0 cur) = cpu_time (procs s cur) + 1"
      using assms(2,3,6,7) p2 rq2 by (simp_all add: upd_def)
    obtain s3 s4 where s34: "enqueue_process ?s0 cur = Some s3" "dequeue_highest s3 c = Some (s4, ?nxt)"
      "sched_ok s4 ?L'" "relinked ?s0 s4" "?nxt \<noteq> 0" "?nxt \<notin> queued ?L'" "cpu (procs s4 ?nxt) = c"
      "\<exists>q' \<le> q. priority (procs s4 ?nxt) = int q'"
      using requeue_ok [OF ok0 f0(1) assms(4,5) f0(2,3) assms(8)] by blast
    note R = relinkedD [OF s34(4)]
    have ct: "cpu_time (procs s4 cur) = cpu_time (procs s cur) + 1"
    proof -
      obtain n where "procs s4 cur = (procs ?s0 cur)\<lparr>sched_next := n\<rparr>" using s34(4) unfolding relinked_def by blast
      then show ?thesis using f0(6) by simp
    qed
    have c4: "c < length (runqueues s4)" using R(4) f0(1) by simp
    have cur4: "current (runqueues s4 ! c) = cur" "ticks (runqueues s4 ! c) = ticks (runqueues s2 ! c)"
      using s34(4) f0 by (simp_all add: relinked_def upd_def)
    obtain q' where q': "priority (procs s4 ?nxt) = int q'" "q' < SCHED_QUEUES" using s34(8) assms(8) by auto
    show ?thesis
    proof (cases "?nxt = cur")
      case True
      obtain k where k: "time_quantum (priority (procs s4 cur)) = Some k"
        using time_quantum_level [OF assms(8)] R(2) f0(3) by auto
      let ?t = "upd s4 cur (time_slice_update (\<lambda>_. k))"
      have "tick_boost ?t c = Some ?t" using cur4 R(4) rq2 by (intro boost) (simp_all add: upd_def)
      then have "scheduler_tick s c = Some ?t" using tick z s34(1,2,5) k True by (simp add: tick_expire_def Let_def)
      moreover have "sched_ok ?t ?L'" using s34(3) by (intro sched_ok_upd) auto
      ultimately show ?thesis using False True cur4 R(3) f0(5) ct by (auto simp: upd_def)
    next
      case other: False
      obtain s5 where s5: "switch_to s4 c ?nxt = Some s5" "sched_ok s5 ?L'" "current (runqueues s5 ! c) = ?nxt"
        "\<forall>x. x \<noteq> ?nxt \<longrightarrow> procs s5 x = procs s4 x"
        using switch_to_ok [OF s34(3) c4 s34(5,6,7) q'] by blast
      then have "scheduler_tick s c = Some s5" using tick z s34(1,2,5) other by (simp add: tick_expire_def Let_def)
      moreover have "state (procs s5 cur) = PROC_READY" "cpu_time (procs s5 cur) = cpu_time (procs s cur) + 1"
        using s5(4) other R(3) f0(5) ct by auto
      ultimately show ?thesis using False s5 by auto
    qed
  qed
qed

theorem tick_correct_witness:
  "\<exists>s'. scheduler_tick demo_sched 0 = Some s' \<and> current (runqueues s' ! 0) = 3 \<and> cpu_time (procs s' 4) = 1"
proof -
  have "ticks (runqueues demo_sched ! 0) + 1 < PRIORITY_BOOST_INTERVAL"
    by (simp add: demo_sched_def PRIORITY_BOOST_INTERVAL_def)
  from tick_correct [OF demo_sched_ok demo_facts(1,2) _ demo_facts(3,4,5,6) _ this]
  obtain s' where "scheduler_tick demo_sched 0 = Some s'"
    "cpu_time (procs s' 4) = cpu_time (procs demo_sched 4) + 1"
    "if 1 < time_slice (procs demo_sched 4) then current (runqueues s' ! 0) = 4
     else current (runqueues s' ! 0) = snd (requeue (demo_queues 0) 2 4)" by auto
  moreover have "time_slice (procs demo_sched 4) = 0" "cpu_time (procs demo_sched 4) = 0"
    by (simp_all add: demo_sched_def blank_process_defs)
  ultimately show ?thesis by (simp add: demo_requeue)
qed

section \<open>Removing a process\<close>

lemma unlink_found:
  "link ps a (xs @ p # ys) \<Longrightarrow> p \<notin> set xs \<Longrightarrow>
     unlink ps p prev a = Some (if xs = [] then prev else Some (last xs), True)"
proof (induction xs arbitrary: a prev)
  case Nil
  then show ?case by (subst unlink.simps) simp
next
  case (Cons x xs)
  then show ?case by (subst unlink.simps) auto
qed

lemma link_remove:
  assumes "link ps a (xs @ p # ys)" and "p \<notin> set xs"
  shows "if xs = [] then link ps (sched_next (ps p)) ys
         else link (ps(last xs := (ps (last xs))\<lparr>sched_next := sched_next (ps p)\<rparr>)) a (xs @ ys)"
  using assms
proof (induction xs arbitrary: a)
  case Nil
  then show ?case by simp
next
  case (Cons x xs)
  have d: "distinct (x # xs @ p # ys)" using link_distinct [OF Cons.prems(1)] by simp
  show ?case
  proof (cases "xs = []")
    case True
    let ?ps = "ps(x := (ps x)\<lparr>sched_next := sched_next (ps p)\<rparr>)"
    have "link ps (sched_next (ps p)) ys" using Cons.prems True by simp
    moreover have "link ?ps (sched_next (ps p)) ys \<longleftrightarrow> link ps (sched_next (ps p)) ys"
      using d by (intro link_cong) auto
    ultimately show ?thesis using True Cons.prems by simp
  next
    case False
    have "last xs \<in> set xs" using False by simp
    then have "last xs \<noteq> x" using d by auto
    with False Cons.IH [of "sched_next (ps x)"] Cons.prems show ?thesis by auto
  qed
qed

text \<open>Removing a process that is not the last of its queue.\<close>

lemma remove_ok:
  assumes "sched_ok s L" and "L c q = xs @ p # ys" and "ys \<noteq> []"
  shows "\<exists>s'. scheduler_remove_process s p = Some s' \<and> sched_ok s' (L(c := (L c)(q := xs @ ys)))
    \<and> state (procs s' p) = PROC_DEAD \<and> sched_next (procs s' p) = 0"
proof -
  have mem: "p \<in> set (L c q)" using assms(2) by simp
  note f = sched_okD [OF assms(1) mem]
  note K = sched_ok_link [OF assms(1) f(1,2)]
  define rq where "rq = runqueues s ! c"
  have ok: "rq_ok (procs s) rq (L c)" unfolding rq_def by (rule sched_ok_rq [OF assms(1) f(1)])
  have p0: "p \<noteq> 0" using mem K(3) by metis
  have d: "p \<notin> set xs" "p \<notin> set ys" "distinct (xs @ ys)" using K(2) assms(2) by auto
  have tail: "tails rq ! q = last ys" using ok f(2) assms(2,3) by (simp add: rq_ok_def last0_def)
  have nt: "tails rq ! q \<noteq> p" using tail d(2) assms(3) last_in_set by metis
  define after where "after = sched_next (procs s p)"
  define s1 where "s1 = (if xs = [] then rq_set s c (rq\<lparr>queues := (queues rq)[q := after]\<rparr>)
     else upd s (last xs) (sched_next_update (\<lambda>_. after)))"
  define s' where "s' = upd s1 p (\<lambda>p. p\<lparr>sched_next := 0, state := PROC_DEAD\<rparr>)"
  have "unlink (procs s) p None (queues rq ! q) = Some (if xs = [] then None else Some (last xs), True)"
    using unlink_found [of "procs s" _ xs p ys] K(1) assms(2) d(1) by (simp add: rq_def)
  moreover have "rq_set s c rq = s" using f(1) by (simp add: rq_set_def rq_def)
  ultimately have e: "scheduler_remove_process s p = Some s'"
    using p0 f nt by (auto simp: scheduler_remove_process_def rq_at_def Let_def s'_def s1_def after_def simp flip: rq_def)
  have lk: "link (procs s') (queues (runqueues s' ! c) ! q) (xs @ ys)"
  proof -
    have "link (procs s1) (queues (runqueues s1 ! c) ! q) (xs @ ys)"
      using link_remove [OF K(1) [unfolded assms(2)] d(1)] f ok
      by (auto simp: s1_def rq_set_def upd_def after_def rq_ok_def rq_def)
    moreover have "link (procs s') a (xs @ ys) \<longleftrightarrow> link (procs s1) a (xs @ ys)" for a
      using d by (intro link_cong) (auto simp: s'_def upd_def)
    ultimately show ?thesis by (simp add: s'_def upd_def)
  qed
  have fld: "cpu (procs s' x) = cpu (procs s x)" "priority (procs s' x) = priority (procs s x)" for x
    by (auto simp: s'_def s1_def upd_def rq_set_def)
  have next_same: "sched_next (procs s' x) = sched_next (procs s x)" if "x \<noteq> p" "x \<notin> set xs" for x
    using that by (auto simp: s'_def s1_def upd_def rq_set_def)
  have others: "link (procs s') (queues (runqueues s ! c') ! q') (L c' q')"
    if "c' < length (runqueues s)" "q' < SCHED_QUEUES" "(c', q') \<noteq> (c, q)" for c' q'
  proof -
    have "x \<noteq> p \<and> x \<notin> set xs" if "x \<in> set (L c' q')" for x
      using that sched_ok_disjoint [OF assms(1), of x c' q' c q] \<open>(c', q') \<noteq> (c, q)\<close> assms(2) by auto
    then have "link (procs s') (queues (runqueues s ! c') ! q') (L c' q') \<longleftrightarrow> link (procs s) (queues (runqueues s ! c') ! q') (L c' q')"
      using next_same by (intro link_cong) auto
    then show ?thesis using sched_ok_link(1) [OF assms(1) that(1,2)] by simp
  qed
  have rqs: "length (runqueues s') = length (runqueues s)"
    "runqueues s' ! c' = (if c' = c \<and> xs = [] then rq\<lparr>queues := (queues rq)[q := after]\<rparr> else runqueues s ! c')"
    if "c' < length (runqueues s)" for c'
    using that f(1) by (auto simp: s'_def s1_def upd_def rq_set_def)
  have "sched_ok s' (L(c := (L c)(q := xs @ ys)))"
  proof (rule sched_okI)
    fix c' i x assume x: "x \<in> set ((L(c := (L c)(q := xs @ ys))) c' i)"
    then have "x \<in> set (L c' i)" using assms(2) by (auto split: if_splits)
    then show "c' < length (runqueues s') \<and> i < SCHED_QUEUES \<and> cpu (procs s' x) = c' \<and> priority (procs s' x) = int i"
      using sched_okD [OF assms(1)] fld rqs(1) f(1) by auto
  next
    fix c' assume "c' < length (runqueues s')"
    then have c': "c' < length (runqueues s)" using rqs(1) f(1) by auto
    note okc = sched_ok_rq [OF assms(1) c']
    have "link (procs s') (queues (runqueues s' ! c') ! i) ((L(c := (L c)(q := xs @ ys))) c' i)" if "i < SCHED_QUEUES" for i
      using that lk others [OF c' that] rqs(2) [OF c'] f(1) by (auto simp: rq_def)
    then show "rq_ok (procs s') (runqueues s' ! c') ((L(c := (L c)(q := xs @ ys))) c')"
      using okc rqs(2) [OF c'] tail assms(2,3) f(2) by (auto simp: rq_ok_def last0_def rq_def)
  qed
  moreover have "state (procs s' p) = PROC_DEAD" "sched_next (procs s' p) = 0" by (simp_all add: s'_def upd_def)
  ultimately show ?thesis using e by blast
qed

text \<open>
  Removing the last process of a queue that holds others leaves the tail pointer null, so that
  the next process added takes the place of the whole queue: the processes before it are no longer
  reachable from the head.
\<close>

theorem remove_tail_loses_queue:
  assumes "sched_ok s L" and "L c q = xs @ [p]" and "xs \<noteq> []" and "r \<noteq> 0" and "r \<notin> queued L"
    and "cpu (procs s r) = c" and "priority (procs s r) = int q"
  shows "\<exists>s1 s2. scheduler_remove_process s p = Some s1 \<and> enqueue_process s1 r = Some s2
    \<and> link (procs s1) (queues (runqueues s1 ! c) ! q) xs
    \<and> link (procs s2) (queues (runqueues s2 ! c) ! q) [r]"
proof -
  have mem: "p \<in> set (L c q)" using assms(2) by simp
  note f = sched_okD [OF assms(1) mem]
  note K = sched_ok_link [OF assms(1) f(1,2)]
  define rq where "rq = runqueues s ! c"
  have ok: "rq_ok (procs s) rq (L c)" unfolding rq_def by (rule sched_ok_rq [OF assms(1) f(1)])
  have p0: "p \<noteq> 0" using mem K(3) by metis
  have d: "p \<notin> set xs" "distinct xs" using K(2) assms(2) by auto
  have len: "length (queues rq) = SCHED_QUEUES" "length (tails rq) = SCHED_QUEUES" using ok by (simp_all add: rq_ok_def)
  have tail: "tails rq ! q = p" using ok f(2) assms(2) by (simp add: rq_ok_def last0_def)
  have nxt: "sched_next (procs s p) = 0" using link_append [of "procs s" _ xs p "[]"] K(1) assms(2) by simp
  define s1 where "s1 = upd (upd (rq_set s c (rq\<lparr>tails := (tails rq)[q := 0]\<rparr>)) (last xs) (sched_next_update (\<lambda>_. 0)))
     p (\<lambda>p. p\<lparr>sched_next := 0, state := PROC_DEAD\<rparr>)"
  have "unlink (procs s) p None (queues rq ! q) = Some (Some (last xs), True)"
    using unlink_found [of "procs s" _ xs p "[]"] K(1) assms(2,3) d(1) by (simp add: rq_def)
  then have e1: "scheduler_remove_process s p = Some s1"
    using p0 f tail nxt by (simp add: scheduler_remove_process_def rq_at_def Let_def s1_def flip: rq_def)
  have "link (procs s1) a xs \<longleftrightarrow> link ((procs s)(last xs := (procs s (last xs))\<lparr>sched_next := 0\<rparr>)) a xs" for a
    using d by (intro link_cong) (auto simp: s1_def upd_def rq_set_def)
  then have l1: "link (procs s1) (queues (runqueues s1 ! c) ! q) xs"
    using link_remove [OF K(1) [unfolded assms(2)] d(1)] assms(3) f(1) nxt
    by (simp add: s1_def upd_def rq_set_def rq_def)
  have rp: "r \<noteq> p" using assms(5) mem by (auto simp: queued_def)
  have "last xs \<in> set (L c q)" using assms(2,3) by simp
  then have rl: "r \<noteq> last xs" using assms(5) by (auto simp: queued_def)
  have r1: "procs s1 r = procs s r" using rp rl by (simp add: s1_def upd_def rq_set_def)
  have rq1: "runqueues s1 ! c = rq\<lparr>tails := (tails rq)[q := 0]\<rparr>" "length (runqueues s1) = length (runqueues s)"
    using f(1) by (simp_all add: s1_def upd_def rq_set_def)
  define s2 where "s2 = rq_set (upd s1 r (sched_next_update (\<lambda>_. 0))) c
     (rq\<lparr>queues := (queues rq)[q := r], tails := (tails rq)[q := r], queue_bitmap := set_mask (queue_bitmap rq) q\<rparr>)"
  have "enqueue_process s1 r = Some s2"
    using r1 rq1 assms(6,7) f(1,2) len
    by (simp add: enqueue_process_def rq_at_def Let_def s2_def)
  moreover have "link (procs s2) (queues (runqueues s2 ! c) ! q) [r]"
    using assms(4) f(1,2) len rq1(2) by (simp add: s2_def rq_set_def upd_def)
  ultimately show ?thesis using e1 l1 by blast
qed

theorem remove_tail_loses_queue_witness:
  "\<exists>s1 s2. scheduler_remove_process demo_sched 1 = Some s1 \<and> enqueue_process s1 4 = Some s2
    \<and> link (procs s1) (queues (runqueues s1 ! 0) ! 2) [2] \<and> link (procs s2) (queues (runqueues s2 ! 0) ! 2) [4]"
  using remove_tail_loses_queue [OF demo_sched_ok, of 0 2 "[2]" 1 4] demo_facts
  by (simp add: demo_queues_def)

section \<open>Priority boost\<close>

text \<open>The queue of low priority is emptied only after its processes have been moved; \<open>drop_low\<close> is the
  state with the head and tail of that queue already cleared.\<close>

definition drop_low :: "nat \<Rightarrow> sched \<Rightarrow> sched" where
  "drop_low c s = rq_set s c ((runqueues s ! c)\<lparr>queues := (queues (runqueues s ! c))[3 := 0],
     tails := (tails (runqueues s ! c))[3 := 0]\<rparr>)"

lemma drop_low_simps [simp]:
  "procs (drop_low c s) = procs s" "length (runqueues (drop_low c s)) = length (runqueues s)"
  "drop_low c (upd s p f) = upd (drop_low c s) p f"
  by (simp_all add: drop_low_def rq_set_def upd_def)

lemma rq_update_order:
  "(rq :: runqueue)\<lparr>queue_bitmap := b, queues := x, tails := y\<rparr> = rq\<lparr>queues := x, tails := y, queue_bitmap := b\<rparr>"
  by (cases rq) simp

lemma enqueue_drop_low:
  assumes "c < length (runqueues s)" and "cpu (procs s p) = c" and "priority (procs s p) = PRIO_NORMAL"
  shows "\<exists>s'. enqueue_process s p = Some s' \<and> enqueue_process (drop_low c s) p = Some (drop_low c s')"
proof -
  have "prio_index PRIO_NORMAL = Some 2" by (simp add: prio_index_def PRIO_NORMAL_def SCHED_QUEUES_def)
  moreover have "xs[3 := a, 2 := b] = xs[2 := b, 3 := a]" for xs :: "pptr list" and a b
    by (rule list_update_swap) simp
  ultimately show ?thesis
    using assms by (simp add: enqueue_process_def rq_at_def Let_def drop_low_def rq_set_def upd_def nth_list_update
      rq_update_order)
qed

lemma rq_ok_tail: "rq_ok P rq qs \<Longrightarrow> q < SCHED_QUEUES \<Longrightarrow> tails rq ! q = last0 (qs q)"
  by (simp add: rq_ok_def)

lemma boost_queue_ok:
  assumes "sched_ok (drop_low c s) L" and "c < length (runqueues s)" and "link (procs s) a ys"
    and "\<And>y. y \<in> set ys \<Longrightarrow> y \<notin> queued L \<and> cpu (procs s y) = c"
  shows "\<exists>s'. boost_queue s a = Some s' \<and> length (runqueues s') = length (runqueues s)
    \<and> sched_ok (drop_low c s') (L(c := (L c)(2 := L c 2 @ ys)))"
  using assms
proof (induction ys arbitrary: s a L)
  case Nil
  then show ?case by (subst boost_queue.simps) simp
next
  case (Cons y ys)
  let ?s0 = "upd s y (\<lambda>p. p\<lparr>priority := PRIO_NORMAL, sched_next := 0\<rparr>)"
  let ?L1 = "L(c := (L c)(2 := L c 2 @ [y]))"
  from Cons.prems have y: "a = y" "y \<noteq> 0" "y \<notin> queued L" "cpu (procs s y) = c"
    "link (procs s) (sched_next (procs s y)) ys" by auto
  have d: "y \<notin> set ys" using link_distinct [OF Cons.prems(3)] by simp
  have ok0: "sched_ok (drop_low c ?s0) L" using sched_ok_upd_unqueued [OF Cons.prems(1) y(3)] by simp
  have f0: "c < length (runqueues ?s0)" "cpu (procs ?s0 y) = c" "priority (procs ?s0 y) = PRIO_NORMAL"
    using Cons.prems(2) y(4) by (simp_all add: upd_def)
  obtain s1 where s1: "enqueue_process ?s0 y = Some s1" "enqueue_process (drop_low c ?s0) y = Some (drop_low c s1)"
    using enqueue_drop_low [OF f0] by blast
  have lc: "c < length (runqueues (drop_low c ?s0))" using f0(1) by (simp add: upd_def)
  have two: "(2 :: nat) < SCHED_QUEUES" by (simp add: SCHED_QUEUES_def)
  have "c < length (runqueues (drop_low c ?s0))" "cpu (procs (drop_low c ?s0) y) = c"
    "priority (procs (drop_low c ?s0) y) = int 2" "2 < SCHED_QUEUES"
    using f0 by (simp_all add: PRIO_NORMAL_def SCHED_QUEUES_def upd_def)
  from enqueue_ok [OF ok0 y(2,3) this(2,1,3,4)] s1(2)
  have ok1: "sched_ok (drop_low c s1) ?L1" and r: "relinked (drop_low c ?s0) (drop_low c s1)" by auto
  have len: "length (runqueues s1) = length (runqueues s)" using relinkedD(4) [OF r] by (simp add: upd_def)
  have same: "sched_next (procs s1 x) = sched_next (procs s x)" if "x \<in> set ys" for x
  proof -
    have "x \<noteq> y" using that d by auto
    have t: "tails (runqueues ?s0 ! c) ! 2 = 0 \<or> tails (runqueues ?s0 ! c) ! 2 \<in> set (L c 2)"
    proof -
      have "tails (runqueues (drop_low c ?s0) ! c) ! 2 = last0 (L c 2)"
        using rq_ok_tail [OF sched_ok_rq [OF ok0 lc] two] .
      moreover have "tails (runqueues (drop_low c ?s0) ! c) ! 2 = tails (runqueues ?s0 ! c) ! 2"
        using f0(1) by (simp add: drop_low_def rq_set_def)
      ultimately show ?thesis using last_in_set [of "L c 2"] by (metis last0_def)
    qed
    have "x \<notin> set (L c 2)" using Cons.prems(4) [of x] that by (auto simp: queued_def)
    then have "x \<noteq> tails (runqueues ?s0 ! c) ! 2 \<or> tails (runqueues ?s0 ! c) ! 2 = 0" using t by auto
    moreover have "prio_index PRIO_NORMAL = Some 2" by (simp add: prio_index_def PRIO_NORMAL_def SCHED_QUEUES_def)
    ultimately show ?thesis
      using s1(1) f0 \<open>x \<noteq> y\<close> by (auto simp: enqueue_process_def rq_at_def Let_def rq_set_def upd_def split: if_splits)
  qed
  have lk: "link (procs s1) (sched_next (procs s y)) ys" using y(5) same link_cong [of ys "procs s1" "procs s"] by blast
  have mem: "x \<notin> queued ?L1 \<and> cpu (procs s1 x) = c" if "x \<in> set ys" for x
    using Cons.prems(4) [of x] that d relinkedD(1) [OF r, of x]
    by (auto simp: queued_def upd_def split: if_splits)
  obtain s2 where s2: "boost_queue s1 (sched_next (procs s y)) = Some s2" "length (runqueues s2) = length (runqueues s1)"
    "sched_ok (drop_low c s2) (?L1(c := (?L1 c)(2 := ?L1 c 2 @ ys)))"
    using Cons.IH [OF ok1 _ lk mem] Cons.prems(2) len by metis
  have "boost_queue s a = Some s2"
    using y(1,2) s1(1) s2(1) by (subst boost_queue.simps) (simp add: Let_def)
  moreover have "?L1(c := (?L1 c)(2 := ?L1 c 2 @ ys)) = L(c := (L c)(2 := L c 2 @ y # ys))" by simp
  moreover have "length (runqueues s2) = length (runqueues s)" using s2(2) len by simp
  ultimately show ?case using s2(3) by metis
qed

lemma boost_cpu_ok:
  assumes "sched_ok s L" and "c < length (runqueues s)"
  shows "\<exists>s'. boost_cpu s c = Some s' \<and> length (runqueues s') = length (runqueues s)
    \<and> sched_ok s' (L(c := (L c)(2 := L c 2 @ L c 3, 3 := [])))"
proof -
  let ?L0 = "L(c := (L c)(3 := []))"
  have three: "(3 :: nat) < SCHED_QUEUES" "nat PRIO_LOW = 3" by (simp_all add: SCHED_QUEUES_def PRIO_LOW_def)
  note K = sched_ok_link [OF assms three(1)]
  have ok0: "sched_ok (drop_low c s) ?L0"
  proof (rule sched_okI)
    fix c' assume "c' < length (runqueues (drop_low c s))"
    then have ok: "rq_ok (procs s) (runqueues s ! c') (L c')" using sched_ok_rq [OF assms(1), of c'] by simp
    show "rq_ok (procs (drop_low c s)) (runqueues (drop_low c s) ! c') (?L0 c')"
    proof (cases "c' = c")
      case True
      with ok assms(2) show ?thesis
        by (simp add: drop_low_def rq_set_def rq_ok_def nth_list_update last0_def)
    next
      case False
      with ok show ?thesis by (simp add: drop_low_def rq_set_def)
    qed
  next
    fix c' q p assume "p \<in> set (?L0 c' q)"
    then have "p \<in> set (L c' q)" by (auto split: if_splits)
    from sched_okD [OF assms(1) this] show "c' < length (runqueues (drop_low c s)) \<and> q < SCHED_QUEUES
        \<and> cpu (procs (drop_low c s) p) = c' \<and> priority (procs (drop_low c s) p) = int q" by simp
  qed
  have mem: "y \<notin> queued ?L0 \<and> cpu (procs s y) = c" if "y \<in> set (L c 3)" for y
  proof -
    have "\<not> y \<in> set (?L0 c' q')" for c' q'
      using sched_ok_disjoint [OF assms(1) that, of c' q'] by (auto split: if_splits)
    then show ?thesis using sched_okD(3) [OF assms(1) that] by (auto simp: queued_def simp del: fun_upd_apply)
  qed
  obtain s1 where s1: "boost_queue s (queues (runqueues s ! c) ! 3) = Some s1"
    "length (runqueues s1) = length (runqueues s)" "sched_ok (drop_low c s1) (?L0(c := (?L0 c)(2 := ?L0 c 2 @ L c 3)))"
    using boost_queue_ok [OF ok0 assms(2) K(1) mem] by blast
  have "boost_cpu s c = Some (drop_low c s1)"
    using s1(1,2) assms(2) three by (simp add: boost_cpu_def rq_at_def drop_low_def)
  moreover have "?L0(c := (?L0 c)(2 := ?L0 c 2 @ L c 3)) = L(c := (L c)(2 := L c 2 @ L c 3, 3 := []))"
    by (simp add: fun_upd_twist)
  ultimately show ?thesis using s1 by (metis drop_low_simps(2))
qed

definition boosted :: "(nat \<Rightarrow> nat \<Rightarrow> pptr list) \<Rightarrow> nat \<Rightarrow> nat \<Rightarrow> nat \<Rightarrow> nat \<Rightarrow> pptr list" where
  "boosted L lo hi = (\<lambda>c. if lo \<le> c \<and> c < hi then (L c)(2 := L c 2 @ L c 3, 3 := []) else L c)"

lemma boost_cpus_ok:
  "sched_ok s L \<Longrightarrow> c + k = length (runqueues s) \<Longrightarrow>
     \<exists>s'. boost_cpus s c k = Some s' \<and> sched_ok s' (boosted L c (c + k)) \<and> length (runqueues s') = length (runqueues s)"
proof (induction k arbitrary: s c L)
  case 0
  have "boosted L c (c + 0) = L" by (intro ext) (auto simp: boosted_def)
  with 0 show ?case by simp
next
  case (Suc k)
  let ?L1 = "L(c := (L c)(2 := L c 2 @ L c 3, 3 := []))"
  obtain s1 where s1: "boost_cpu s c = Some s1" "length (runqueues s1) = length (runqueues s)" "sched_ok s1 ?L1"
    using boost_cpu_ok [of s L c] Suc.prems by auto
  have "boosted ?L1 (Suc c) (Suc c + k) = boosted L c (c + Suc k)" by (rule ext) (auto simp: boosted_def)
  moreover obtain s2 where "boost_cpus s1 (Suc c) k = Some s2" "sched_ok s2 (boosted ?L1 (Suc c) (Suc c + k))"
    "length (runqueues s2) = length (runqueues s1)"
    using Suc.IH [OF s1(3), of "Suc c"] s1(2) Suc.prems(2) by (metis add_Suc_shift)
  ultimately show ?case using s1 by (intro exI [of _ s2]) simp
qed

text \<open>
  The periodic boost moves, on every CPU, the processes of low priority behind those of normal
  priority, in order, and loses none; the other levels, idle among them, stay as they are.
\<close>

theorem priority_boost_correct:
  assumes "sched_ok s L"
  shows "\<exists>s'. priority_boost s = Some s' \<and> sched_ok s'
    (\<lambda>c. if c < length (runqueues s) then (L c)(2 := L c 2 @ L c 3, 3 := []) else L c)"
  using boost_cpus_ok [OF assms, of 0 "length (runqueues s)"]
  by (auto simp: priority_boost_def boosted_def)

theorem priority_boost_correct_witness:
  "\<exists>s' L'. priority_boost demo_sched = Some s' \<and> sched_ok s' L' \<and> L' 0 2 = [2, 1]"
proof -
  let ?L = "\<lambda>c. if c < length (runqueues demo_sched)
      then (demo_queues c)(2 := demo_queues c 2 @ demo_queues c 3, 3 := []) else demo_queues c"
  from priority_boost_correct [OF demo_sched_ok] obtain s' where "priority_boost demo_sched = Some s'"
    "sched_ok s' ?L" by blast
  moreover have "?L 0 2 = [2, 1]" by (simp add: demo_queues_def)
  ultimately show ?thesis by blast
qed

section \<open>What scheduling leaves alone\<close>

text \<open>The fields of a process that are not the scheduler's own.\<close>

definition own_fields :: "process \<Rightarrow> process" where
  "own_fields p = p\<lparr>sched_next := 0, state := PROC_UNUSED, cpu := 0, time_slice := 0\<rparr>"

lemma own_fields_simps [simp]:
  "own_fields (p\<lparr>sched_next := n\<rparr>) = own_fields p" "own_fields (p\<lparr>state := st\<rparr>) = own_fields p"
  "own_fields (p\<lparr>cpu := c\<rparr>) = own_fields p" "own_fields (p\<lparr>time_slice := t\<rparr>) = own_fields p"
  by (simp_all add: own_fields_def)

lemma own_fieldsD:
  assumes "own_fields p = own_fields p'"
  shows "pid p = pid p'" "ppid p = ppid p'" "exit_code p = exit_code p'" "sibling p = sibling p'" "children p = children p'"
    "wq_next p = wq_next p'" "uid p = uid p'" "euid p = euid p'" "sig_pending p = sig_pending p'" "priority p = priority p'"
proof -
  have "pid (own_fields p) = pid (own_fields p')" "ppid (own_fields p) = ppid (own_fields p')"
    "exit_code (own_fields p) = exit_code (own_fields p')" "sibling (own_fields p) = sibling (own_fields p')"
    "children (own_fields p) = children (own_fields p')" "uid (own_fields p) = uid (own_fields p')" "wq_next (own_fields p) = wq_next (own_fields p')"
    "euid (own_fields p) = euid (own_fields p')" "sig_pending (own_fields p) = sig_pending (own_fields p')"
    "priority (own_fields p) = priority (own_fields p')"
    using assms by simp_all
  then show "pid p = pid p'" "ppid p = ppid p'" "exit_code p = exit_code p'" "sibling p = sibling p'" "children p = children p'"
    "wq_next p = wq_next p'" "uid p = uid p'" "euid p = euid p'" "sig_pending p = sig_pending p'" "priority p = priority p'"
    by (simp_all add: own_fields_def)
qed

lemma own_upd: "(\<And>p. own_fields (f p) = own_fields p) \<Longrightarrow> own_fields (procs (upd s x f) y) = own_fields (procs s y)"
  by (simp add: upd_def)

lemma own_rq_set [simp]: "procs (rq_set s c rq) = procs s"
  by (simp add: rq_set_def)

lemma enqueue_own: "enqueue_process s p = Some s' \<Longrightarrow> own_fields (procs s' x) = own_fields (procs s x)"
  by (auto simp: enqueue_process_def Let_def own_upd bind_eq_Some_conv split: if_splits)

lemma dequeue_own: "dequeue_highest s c = Some (s', p) \<Longrightarrow> own_fields (procs s' x) = own_fields (procs s x)"
  by (auto simp: dequeue_highest_def Let_def own_upd bind_eq_Some_conv split: if_splits)

lemma switch_own: "switch_to s c p = Some s' \<Longrightarrow> own_fields (procs s' x) = own_fields (procs s x)"
  by (auto simp: switch_to_def Let_def own_upd bind_eq_Some_conv split: if_splits)

lemma yield_own: "scheduler_yield s c = Some s' \<Longrightarrow> own_fields (procs s' x) = own_fields (procs s x)"
  by (auto simp: scheduler_yield_def Let_def own_upd bind_eq_Some_conv split: if_splits
      dest!: enqueue_own [of _ _ _ x] dequeue_own [of _ _ _ _ x] switch_own [of _ _ _ _ x])

section \<open>Adding and waking processes\<close>

lemma least_loaded_bound: "least_loaded rqs i t m = t \<or> (i \<le> least_loaded rqs i t m \<and> least_loaded rqs i t m < i + length rqs)"
proof (induction rqs i t m rule: least_loaded.induct)
  case (2 rq rqs i target min_load)
  then show ?case by (auto split: if_splits)
qed simp

lemma queued_add:
  "queued (L(c := (L c)(q := L c q @ xs))) = queued L \<union> set xs"
proof (intro set_eqI iffI)
  fix x assume "x \<in> queued (L(c := (L c)(q := L c q @ xs)))"
  then show "x \<in> queued L \<union> set xs" by (auto simp: queued_def split: if_splits)
next
  fix x assume "x \<in> queued L \<union> set xs"
  then consider c' q' where "x \<in> set (L c' q')" | "x \<in> set xs" by (auto simp: queued_def)
  then show "x \<in> queued (L(c := (L c)(q := L c q @ xs)))"
  proof cases
    case 1
    then have "x \<in> set ((L(c := (L c)(q := L c q @ xs))) c' q')" by auto
    then show ?thesis unfolding queued_def by blast
  next
    case 2
    then have "x \<in> set ((L(c := (L c)(q := L c q @ xs))) c q)" by simp
    then show ?thesis unfolding queued_def by blast
  qed
qed

text \<open>The process joins the end of its queue on some CPU.\<close>

lemma add_process_ok:
  assumes "sched_ok s L" and "p \<noteq> 0" and "p \<notin> queued L" and "priority (procs s p) = int q" and "q < SCHED_QUEUES"
    and "runqueues s \<noteq> []"
  shows "\<exists>s' c k. scheduler_add_process s p = Some s' \<and> c < length (runqueues s)
    \<and> sched_ok s' (L(c := (L c)(q := L c q @ [p])))
    \<and> relinked (upd s p (\<lambda>p. p\<lparr>cpu := c, state := PROC_READY, time_slice := k\<rparr>)) s'"
proof -
  let ?c = "least_loaded (runqueues s) 0 0 0xFFFFFFFF"
  have c: "?c < length (runqueues s)" using least_loaded_bound [where rqs = "runqueues s" and i = 0 and t = 0 and m = "0xFFFFFFFF"] assms(6) by auto
  obtain k where k: "time_quantum (int q) = Some k" using time_quantum_level [OF assms(5)] by blast
  let ?s = "upd s p (\<lambda>p. p\<lparr>cpu := ?c, state := PROC_READY, time_slice := k\<rparr>)"
  have "sched_ok ?s L" using sched_ok_upd_unqueued [OF assms(1,3)] .
  moreover have "cpu (procs ?s p) = ?c" "?c < length (runqueues ?s)" "priority (procs ?s p) = int q"
    using c assms(4) by (simp_all add: upd_def)
  ultimately obtain s' where "enqueue_process ?s p = Some s'" "sched_ok s' (L(?c := (L ?c)(q := L ?c q @ [p])))"
    "relinked ?s s'" using enqueue_ok [OF _ assms(2,3) _ _ _ assms(5)] by metis
  moreover have "scheduler_add_process s p = enqueue_process ?s p"
    using assms(2,4) k by (simp add: scheduler_add_process_def Let_def)
  ultimately show ?thesis using c by metis
qed

abbreviation wlink :: "(pptr \<Rightarrow> process) \<Rightarrow> pptr \<Rightarrow> pptr list \<Rightarrow> bool" where
  "wlink ps \<equiv> linked (\<lambda>x. wq_next (ps x))"

lemma wlink_cong:
  "(\<And>x. x \<in> set xs \<Longrightarrow> wq_next (ps' x) = wq_next (ps x)) \<Longrightarrow> wlink ps' a xs \<longleftrightarrow> wlink ps a xs"
  by (rule linked_cong)

definition runnable :: "process \<Rightarrow> bool" where
  "runnable p \<longleftrightarrow> 0 \<le> priority p \<and> priority p < int SCHED_QUEUES"

definition awake :: "process \<Rightarrow> bool" where
  "awake p \<longleftrightarrow> state p = PROC_READY \<and> wq p = 0 \<and> wq_next p = 0"

text \<open>A property of processes that waking establishes and scheduling keeps.\<close>

definition wake_post :: "(process \<Rightarrow> process) \<Rightarrow> (process \<Rightarrow> bool) \<Rightarrow> bool" where
  "wake_post f A \<longleftrightarrow> (\<forall>p. A (f p) \<and> priority (f p) = priority p) \<and> (\<forall>p n. A p \<longrightarrow> A (p\<lparr>sched_next := n\<rparr>))
     \<and> (\<forall>p c k. A p \<longrightarrow> A (p\<lparr>cpu := c, state := PROC_READY, time_slice := k\<rparr>))"

lemma wake_ok:
  assumes "wake_post f A" and "sched_ok s L" and "p \<noteq> 0" and "p \<notin> queued L" and "runnable (procs s p)" and "runqueues s \<noteq> []"
  shows "\<exists>s' L'. wake f s p = Some s' \<and> sched_ok s' L' \<and> queued L' = insert p (queued L) \<and> A (procs s' p)
    \<and> (\<forall>x. x \<noteq> p \<longrightarrow> (\<exists>n. procs s' x = (procs s x)\<lparr>sched_next := n\<rparr>))
    \<and> waiting s' = waiting s \<and> length (runqueues s') = length (runqueues s)"
proof -
  let ?s = "upd s p f"
  note P = assms(1) [unfolded wake_post_def]
  note assms = assms(2-)
  obtain q where q: "priority (procs s p) = int q" "q < SCHED_QUEUES"
    using assms(4) unfolding runnable_def by (metis zero_le_imp_eq_int of_nat_less_iff)
  have "sched_ok ?s L" using sched_ok_upd_unqueued [OF assms(1,3)] .
  moreover have "priority (procs ?s p) = int q" "runqueues ?s \<noteq> []" using q assms(5) P by (simp_all add: upd_def)
  ultimately obtain s' c k where r: "scheduler_add_process ?s p = Some s'" "sched_ok s' (L(c := (L c)(q := L c q @ [p])))"
    "relinked (upd ?s p (\<lambda>p. p\<lparr>cpu := c, state := PROC_READY, time_slice := k\<rparr>)) s'"
    using add_process_ok [OF _ assms(2,3) _ q(2)] by metis
  let ?t = "upd ?s p (\<lambda>p. p\<lparr>cpu := c, state := PROC_READY, time_slice := k\<rparr>)"
  have procs': "\<exists>n. procs s' x = (procs ?t x)\<lparr>sched_next := n\<rparr>" for x using r(3) by (simp add: relinked_def)
  have "A (procs s' p)" using procs' [of p] P by (auto simp: upd_def)
  moreover have "\<exists>n. procs s' x = (procs s x)\<lparr>sched_next := n\<rparr>" if "x \<noteq> p" for x using procs' [of x] that by (simp add: upd_def)
  moreover have "queued (L(c := (L c)(q := L c q @ [p]))) = insert p (queued L)" unfolding queued_add by simp
  moreover have "waiting s' = waiting s" "length (runqueues s') = length (runqueues s)"
    using r(3) by (simp_all add: relinked_def upd_def)
  moreover have "wake f s p = Some s'" using r(1) by (simp add: wake_def)
  ultimately show ?thesis using r(2) by (intro exI [of _ s'] exI conjI) auto
qed

lemma wake_all_ok:
  assumes post: "wake_post f A" and "sched_ok s L" and "wlink (procs s) a xs" and "distinct xs" and "set xs \<inter> queued L = {}"
    and "\<forall>x \<in> set xs. runnable (procs s x)" and "runqueues s \<noteq> []"
  shows "\<exists>s' L'. wake_all f s a = Some s' \<and> sched_ok s' L' \<and> queued L' = queued L \<union> set xs
    \<and> (\<forall>x \<in> set xs. A (procs s' x)) \<and> waiting s' = waiting s
    \<and> (\<forall>x. x \<notin> set xs \<longrightarrow> (\<exists>n. procs s' x = (procs s x)\<lparr>sched_next := n\<rparr>))"
  using assms(2-)
proof (induction xs arbitrary: s L a)
  case Nil
  have "p = p\<lparr>sched_next := sched_next p\<rparr>" for p :: process by simp
  then have "\<forall>x. \<exists>n. procs s x = (procs s x)\<lparr>sched_next := n\<rparr>" by blast
  moreover have "wake_all f s a = Some s" using Nil.prems(2) by (subst wake_all.simps) simp
  ultimately show ?case using Nil.prems(1) by (intro exI [of _ s] exI [of _ L]) simp
next
  case (Cons y ys)
  from Cons.prems have y: "a = y" "y \<noteq> 0" "y \<notin> queued L" "runnable (procs s y)"
    "wlink (procs s) (wq_next (procs s y)) ys" "y \<notin> set ys" "distinct ys" by auto
  obtain s1 L1 where s1: "wake f s y = Some s1" "sched_ok s1 L1" "queued L1 = insert y (queued L)" "A (procs s1 y)"
    "\<forall>x. x \<noteq> y \<longrightarrow> (\<exists>n. procs s1 x = (procs s x)\<lparr>sched_next := n\<rparr>)" "waiting s1 = waiting s"
    "length (runqueues s1) = length (runqueues s)"
    using wake_ok [OF post Cons.prems(1) y(2,3,4) Cons.prems(6)] by metis
  have same: "wq_next (procs s1 x) = wq_next (procs s x) \<and> runnable (procs s1 x) = runnable (procs s x)"
    if "x \<in> set ys" for x
  proof -
    from that y(6) have "x \<noteq> y" by auto
    with s1(5) obtain n where "procs s1 x = (procs s x)\<lparr>sched_next := n\<rparr>" by blast
    then show ?thesis by (simp add: runnable_def)
  qed
  have "wlink (procs s1) (wq_next (procs s y)) ys" using y(5) same wlink_cong [of ys "procs s1" "procs s"] by blast
  moreover have "set ys \<inter> queued L1 = {}" using Cons.prems(4) s1(3) y(6) by auto
  moreover have "\<forall>x \<in> set ys. runnable (procs s1 x)" using Cons.prems(5) same by auto
  moreover have "runqueues s1 \<noteq> []" using s1(7) Cons.prems(6) by auto
  ultimately obtain s2 L2 where s2: "wake_all f s1 (wq_next (procs s y)) = Some s2" "sched_ok s2 L2"
    "queued L2 = queued L1 \<union> set ys" "\<forall>x \<in> set ys. A (procs s2 x)" "waiting s2 = waiting s1"
    "\<forall>x. x \<notin> set ys \<longrightarrow> (\<exists>n. procs s2 x = (procs s1 x)\<lparr>sched_next := n\<rparr>)"
    using Cons.IH [OF s1(2) _ y(7)] by metis
  have "wake_all f s a = Some s2" using y(1,2) s1(1) s2(1) by (subst wake_all.simps) (simp add: Let_def)
  moreover have "A (procs s2 y)"
  proof -
    obtain n where "procs s2 y = (procs s1 y)\<lparr>sched_next := n\<rparr>" using s2(6) y(6) by blast
    with s1(4) show ?thesis using post by (simp add: wake_post_def)
  qed
  moreover have "\<exists>n. procs s2 x = (procs s x)\<lparr>sched_next := n\<rparr>" if "x \<notin> set (y # ys)" for x
  proof -
    from that obtain n m where "procs s2 x = (procs s1 x)\<lparr>sched_next := n\<rparr>" "procs s1 x = (procs s x)\<lparr>sched_next := m\<rparr>"
      using s2(6) s1(5) by (metis list.set_intros)
    then show ?thesis by (intro exI [of _ n]) simp
  qed
  moreover have "queued L2 = queued L \<union> set (y # ys)" using s2(3) s1(3) by auto
  moreover have "waiting s2 = waiting s" using s2(5) s1(6) by simp
  ultimately show ?case using s2(2,4) by (intro exI [of _ s2] exI [of _ L2]) simp
qed

lemma detach_post: "wake_post detach awake"
  by (simp add: wake_post_def detach_def awake_def)

text \<open>
  C12: waking a wait queue empties it and makes every sleeper on it ready, off the wait queue and a
  member of a run queue; the run queues stay consistent and hold nothing else that is new, and no
  other process changes except for its place in its queue.
\<close>

theorem wakeup_correct:
  assumes "sched_ok s L" and "w \<noteq> 0" and "wlink (procs s) (waiting s w) xs"
    and "set xs \<inter> queued L = {}" and "\<forall>x \<in> set xs. runnable (procs s x)" and "runqueues s \<noteq> []"
  shows "\<exists>s' L'. scheduler_wakeup s w = Some s' \<and> sched_ok s' L' \<and> queued L' = queued L \<union> set xs
    \<and> (\<forall>x \<in> set xs. awake (procs s' x)) \<and> waiting s' = (waiting s)(w := 0)
    \<and> (\<forall>x. x \<notin> set xs \<longrightarrow> (\<exists>n. procs s' x = (procs s x)\<lparr>sched_next := n\<rparr>))"
proof -
  let ?s = "s\<lparr>waiting := (waiting s)(w := 0)\<rparr>"
  have "sched_ok ?s L" using assms(1) by (simp add: sched_ok_def)
  moreover have "wlink (procs ?s) (waiting s w) xs" "\<forall>x \<in> set xs. runnable (procs ?s x)" "runqueues ?s \<noteq> []"
    using assms by simp_all
  ultimately obtain s' L' where "wake_all detach ?s (waiting s w) = Some s'" "sched_ok s' L'" "queued L' = queued L \<union> set xs"
    "\<forall>x \<in> set xs. awake (procs s' x)" "waiting s' = waiting ?s"
    "\<forall>x. x \<notin> set xs \<longrightarrow> (\<exists>n. procs s' x = (procs ?s x)\<lparr>sched_next := n\<rparr>)"
    using wake_all_ok [OF detach_post _ _ linked_distinct [OF assms(3)] assms(4)] by metis
  with assms(2) show ?thesis by (intro exI [of _ s'] exI [of _ L']) (simp add: scheduler_wakeup_def)
qed

theorem wakeup_correct_witness:
  "\<exists>s' L'. scheduler_wakeup (demo_sched\<lparr>waiting := (\<lambda>_. 0)(64 := 4)\<rparr>) 64 = Some s' \<and> sched_ok s' L' \<and> 4 \<in> queued L'
    \<and> awake (procs s' 4)"
proof -
  let ?s = "demo_sched\<lparr>waiting := (\<lambda>_. 0)(64 := 4)\<rparr>"
  have "sched_ok ?s demo_queues" using demo_sched_ok by (simp add: sched_ok_def)
  moreover have "wlink (procs ?s) (waiting ?s 64) [4]" "\<forall>x \<in> set [4]. runnable (procs ?s x)" "runqueues ?s \<noteq> []"
    by (simp_all add: demo_sched_def blank_process_defs runnable_def SCHED_QUEUES_def)
  moreover have "set [4] \<inter> queued demo_queues = {}" using demo_facts(3) by simp
  ultimately have "\<exists>s' L'. scheduler_wakeup ?s 64 = Some s' \<and> sched_ok s' L' \<and> queued L' = queued demo_queues \<union> set [4]
    \<and> (\<forall>x \<in> set [4]. awake (procs s' x)) \<and> waiting s' = (waiting ?s)(64 := 0)
    \<and> (\<forall>x. x \<notin> set [4] \<longrightarrow> (\<exists>n. procs s' x = (procs ?s x)\<lparr>sched_next := n\<rparr>))"
    by (intro wakeup_correct) simp_all
  then show ?thesis by auto
qed

end
