(* ===== verification/Process.thy ===== *)
theory Process
  imports Vmm KHeap Sched
begin

text \<open>
  Process management: process.c, every function but \<open>process_list\<close>, which only prints.  Slot \<open>i\<close> of
  \<open>process_table\<close> is the process at pointer \<open>i + 1\<close> of the scheduler's store.  The kernel state
  gathers what the functions touch: the scheduler, the map of used process ids, the list of zombies,
  the heap (with the page pool) and the page tables in memory.  \<open>None\<close> is a panic, the dereference of
  a null pointer or an access outside an array.
\<close>

section \<open>State\<close>

record kern =
  sch :: sched
  pid_bitmap :: "u64 list"
  num_processes :: u32
  zombie_list :: pptr
  kh :: kheap
  tables :: "u64 \<Rightarrow> u64"

record process_attr =
  a_name :: "u8 list"
  a_entry :: addr
  a_priority :: int
  a_stack_size :: u64
  a_flags :: u32

definition MAX_PROCESSES :: nat where "MAX_PROCESSES = 1024"
definition PID_BITMAP_SIZE :: nat where "PID_BITMAP_SIZE = 16"
definition NUM_SIGNALS :: int where "NUM_SIGNALS = 64"
definition PROC_FLAG_USER :: u32 where "PROC_FLAG_USER = 2"

definition STATUS_NOMEM :: int where "STATUS_NOMEM = 2"
definition STATUS_INVAL :: int where "STATUS_INVAL = 3"
definition STATUS_NOTFOUND :: int where "STATUS_NOTFOUND = 4"
definition STATUS_PERM :: int where "STATUS_PERM = 8"

lemmas status_codes = STATUS_NOMEM_def STATUS_INVAL_def STATUS_NOTFOUND_def STATUS_PERM_def

text \<open>The process in a slot, and the update of one process.\<close>

abbreviation proc :: "kern \<Rightarrow> pptr \<Rightarrow> process" where
  "proc k p \<equiv> procs (sch k) p"

definition set_proc :: "kern \<Rightarrow> pptr \<Rightarrow> (process \<Rightarrow> process) \<Rightarrow> kern" where
  "set_proc k p f = k\<lparr>sch := upd (sch k) p f\<rparr>"

section \<open>Process ids\<close>

definition alloc_pid :: "u64 list \<Rightarrow> u64 list \<times> int" where
  "alloc_pid bm =
     (case first_nonzero (map not bm) 0 of
        None \<Rightarrow> (bm, - 1)
      | Some i \<Rightarrow> let b = ctz (NOT (bm ! i)) in (bm[i := set_mask (bm ! i) b], int (i * 64 + b)))"

definition free_pid :: "u64 list \<Rightarrow> int \<Rightarrow> u64 list" where
  "free_pid bm pd =
     (if pd < 0 \<or> int MAX_PROCESSES \<le> pd then bm else bm_clear bm (nat pd))"

definition process_init :: "kern \<Rightarrow> kern" where
  "process_init k = k\<lparr>sch := (sch k)\<lparr>procs := \<lambda>p. if 1 \<le> p \<and> p \<le> MAX_PROCESSES then zero_process else proc k p\<rparr>,
     pid_bitmap := (replicate PID_BITMAP_SIZE 0)[0 := set_mask 0 0], num_processes := 0\<rparr>"

section \<open>Creation\<close>

definition find_slot :: "kern \<Rightarrow> nat option" where
  "find_slot k = first_slot (\<lambda>i. state (proc k (Suc i)) = PROC_UNUSED) 0 MAX_PROCESSES"

text \<open>\<open>strncpy\<close> of at most 31 bytes into the cleared array, and the terminator.\<close>

definition copy_name :: "u8 list \<Rightarrow> u8 list" where
  "copy_name nm = take 31 nm @ replicate (32 - min 31 (length nm)) 0"

text \<open>The fields set before the stack is allocated, and those set at the end.\<close>

definition new_process :: "process_attr \<Rightarrow> int \<Rightarrow> process" where
  "new_process a pd = zero_process\<lparr>pid := pd, ppid := 0, pname := copy_name (a_name a), state := PROC_READY,
     priority := a_priority a, flags := a_flags a, cpu := 0\<rparr>"

definition set_stack :: "process_attr \<Rightarrow> addr \<Rightarrow> process \<Rightarrow> process" where
  "set_stack a stack_top p = p\<lparr>ctx := (ctx p)\<lparr>x11 := a_entry a, x12 := stack_top, sp := stack_top, pc := a_entry a,
     pstate := 0x345\<rparr>\<rparr>"

definition finish_process :: "process_attr \<Rightarrow> addr \<Rightarrow> u64 \<Rightarrow> addr \<Rightarrow> process \<Rightarrow> process" where
  "finish_process a pgdir now fds p = p\<lparr>pgd := pgdir, stack_base := sp (ctx p) - a_stack_size a, stack_size := a_stack_size a,
     uid := 0, gid := 0, euid := 0, egid := 0, cap := [- 1, - 1], start_time := now, cpu_time := 0, time_slice := 0,
     sig_handler := replicate 64 0, sig_pending := 0, sig_blocked := 0, sched_next := 0, wq := 0, wq_next := 0,
     children := 0, sibling := 0, parent := 0, fd_table := fds\<rparr>"

text \<open>The three error exits release the process id and the slot.\<close>

definition abandon :: "kern \<Rightarrow> pptr \<Rightarrow> int \<Rightarrow> kern \<times> int" where
  "abandon k p pd = (set_proc (k\<lparr>pid_bitmap := free_pid (pid_bitmap k) pd\<rparr>) p (state_update (\<lambda>_. PROC_UNUSED)),
     - STATUS_NOMEM)"

text \<open>The page directory of a user process: \<open>pmm_alloc\<close> and \<open>vmm_init\<close>.  The result is the null
  pointer for a kernel process, and \<open>None\<close> when there is no page.\<close>

definition make_pgd :: "kern \<Rightarrow> process_attr \<Rightarrow> kern \<times> addr option" where
  "make_pgd k a =
     (if a_flags a AND PROC_FLAG_USER = 0 then (k, Some 0)
      else case pmm_alloc (heap_pages (kh k)) of (p', g) \<Rightarrow>
        let k1 = k\<lparr>kh := (kh k)\<lparr>heap_pages := p'\<rparr>\<rparr> in
        if g = 0 then (k1, None)
        else (k1\<lparr>tables := mem (vmm_init \<lparr>pm = p', mem = tables k1\<rparr> g)\<rparr>, Some g))"

text \<open>What follows the allocation of the process id: the stack, the page directory, the file table
  and the scheduler.  \<open>fd_table\<close>'s two counters are the first two words of its allocation.\<close>

definition fill_slot :: "kern \<Rightarrow> u64 \<Rightarrow> process_attr \<Rightarrow> pptr \<Rightarrow> int \<Rightarrow> (kern \<times> int) option" where
  "fill_slot k now a p pd = do {
     (h1, stack) \<leftarrow> kmalloc (kh k) (a_stack_size a);
     let k1 = k\<lparr>kh := h1\<rparr>;
     if stack = 0 then Some (abandon k1 p pd)
     else do {
       let stack_top = (stack + a_stack_size a) AND NOT 0xF;
       let k2 = set_proc k1 p (set_stack a stack_top);
       case make_pgd k2 a of
         (k3, None) \<Rightarrow> Some (abandon (k3\<lparr>kh := kfree (kh k3) (sp (ctx (proc k3 p)) - a_stack_size a)\<rparr>) p pd)
       | (k3, Some g) \<Rightarrow> do {
           (h2, fds) \<leftarrow> kcalloc (kh k3) 1 8;
           let h3 = (if fds \<noteq> 0 then h2\<lparr>payload := (payload h2)(fds + 5 := 1)\<rparr> else h2);
           let k4 = (set_proc k3 p (finish_process a g now fds))\<lparr>kh := h3, num_processes := num_processes k3 + 1\<rparr>;
           s5 \<leftarrow> scheduler_add_process (sch k4) p;
           Some (k4\<lparr>sch := s5\<rparr>, pd)
         }
     }
   }"

definition process_create :: "kern \<Rightarrow> u64 \<Rightarrow> process_attr option \<Rightarrow> (kern \<times> int) option" where
  "process_create k now attr =
     (case attr of None \<Rightarrow> Some (k, - STATUS_INVAL)
      | Some a \<Rightarrow>
          if a_entry a = 0 then Some (k, - STATUS_INVAL)
          else (case find_slot k of
              None \<Rightarrow> Some (k, - STATUS_NOMEM)
            | Some slot \<Rightarrow>
                (case alloc_pid (pid_bitmap k) of (bm, pd) \<Rightarrow>
                   if pd < 0 then Some (k, - STATUS_NOMEM)
                   else fill_slot (set_proc (k\<lparr>pid_bitmap := bm\<rparr>) (Suc slot) (\<lambda>_. new_process a pd)) now a (Suc slot) pd)))"

section \<open>Lookup and signals\<close>

definition process_get_by_pid :: "kern \<Rightarrow> int \<Rightarrow> pptr" where
  "process_get_by_pid k pd =
     (if pd \<le> 0 \<or> int MAX_PROCESSES < pd then 0
      else if state (proc k (nat pd)) = PROC_UNUSED then 0 else nat pd)"

definition current_pid :: "kern \<Rightarrow> nat \<Rightarrow> int" where
  "current_pid k c =
     (let cur = scheduler_get_current (sch k) c in if cur \<noteq> 0 then pid (proc k cur) else 0)"

definition process_kill :: "kern \<Rightarrow> nat \<Rightarrow> int \<Rightarrow> int \<Rightarrow> (kern \<times> int) option" where
  "process_kill k c pd sig =
     (if pd \<le> 0 \<or> int MAX_PROCESSES \<le> pd then Some (k, - STATUS_INVAL)
      else if sig < 0 \<or> NUM_SIGNALS \<le> sig then Some (k, - STATUS_INVAL)
      else let p = nat pd in
        if state (proc k p) = PROC_UNUSED \<or> state (proc k p) = PROC_ZOMBIE then Some (k, - STATUS_NOTFOUND)
        else let cur = scheduler_get_current (sch k) c in
          if cur = 0 then None
          else if euid (proc k cur) \<noteq> 0 \<and> euid (proc k cur) \<noteq> uid (proc k p) then Some (k, - STATUS_PERM)
          else let k1 = set_proc k p (\<lambda>q. q\<lparr>sig_pending := set_mask (sig_pending q) (nat sig)\<rparr>) in
            if state (proc k1 p) = PROC_SLEEPING
            then (case scheduler_add_process (sch (set_proc k1 p (state_update (\<lambda>_. PROC_READY)))) p of
                    None \<Rightarrow> None | Some s \<Rightarrow> Some (k1\<lparr>sch := s\<rparr>, 0))
            else Some (k1, 0))"

section \<open>Termination\<close>

definition process_cleanup :: "kern \<Rightarrow> pptr \<Rightarrow> kern" where
  "process_cleanup k p =
     (if p = 0 then k
      else
        let pr = proc k p;
            k1 = (if stack_base pr \<noteq> 0 then k\<lparr>kh := kfree (kh k) (stack_base pr)\<rparr> else k);
            k2 = (if pgd pr \<noteq> 0
                  then let v = vmm_free_all \<lparr>pm = heap_pages (kh k1), mem = tables k1\<rparr> (pgd pr)
                       in k1\<lparr>kh := (kh k1)\<lparr>heap_pages := pmm_free (pm v) (pgd pr)\<rparr>, tables := mem v\<rparr>
                  else k1);
            k3 = (if fd_table pr \<noteq> 0 then k2\<lparr>kh := kfree (kh k2) (fd_table pr)\<rparr> else k2)
        in set_proc (k3\<lparr>pid_bitmap := free_pid (pid_bitmap k3) (pid pr)\<rparr>) p (state_update (\<lambda>_. PROC_UNUSED)))"

text \<open>The children are handed to process 1.\<close>

partial_function (option) reparent :: "sched \<Rightarrow> pptr \<Rightarrow> sched option" where
  "reparent s child =
     (if child = 0 then Some s
      else reparent (upd s child (ppid_update (\<lambda>_. 1))) (sibling (procs s child)))"

text \<open>\<open>process_exit\<close> up to the return of \<open>scheduler_yield\<close>; when the current process is still the same
  there, the code panics.\<close>

definition process_exit :: "kern \<Rightarrow> nat \<Rightarrow> int \<Rightarrow> kern option" where
  "process_exit k c code = do {
     let cur = scheduler_get_current (sch k) c;
     if cur = 0 then None
     else do {
       let s1 = upd (sch k) cur (\<lambda>p. p\<lparr>exit_code := code, state := PROC_ZOMBIE\<rparr>);
       s2 \<leftarrow> reparent s1 (children (procs s1 cur));
       let s3 = upd s2 cur (sibling_update (\<lambda>_. zombie_list k));
       s4 \<leftarrow> scheduler_yield s3 c;
       Some (k\<lparr>sch := s4, zombie_list := cur, num_processes := num_processes k - 1\<rparr>)
     }
   }"

text \<open>The loop over the children: the first zombie that matches, with its predecessor.\<close>

partial_function (option) find_zombie ::
  "(pptr \<Rightarrow> process) \<Rightarrow> int \<Rightarrow> pptr \<Rightarrow> pptr \<Rightarrow> (pptr \<times> pptr) option" where
  "find_zombie ps pd prev child =
     (if child = 0 then Some (prev, 0)
      else if (pd = - 1 \<or> pid (ps child) = pd) \<and> state (ps child) = PROC_ZOMBIE then Some (prev, child)
      else find_zombie ps pd child (sibling (ps child)))"

text \<open>\<open>resume\<close> is what the other processes do between the \<open>scheduler_yield\<close> of the loop and its
  return.  The result carries the process id and, when a child was found, the exit status.\<close>

partial_function (option) process_wait ::
  "(kern \<Rightarrow> kern) \<Rightarrow> kern \<Rightarrow> nat \<Rightarrow> int \<Rightarrow> bool \<Rightarrow> (kern \<times> int \<times> int option) option" where
  "process_wait resume k c pd nohang =
     (let cur = scheduler_get_current (sch k) c in
      if cur = 0 then None
      else case find_zombie (procs (sch k)) pd 0 (children (proc k cur)) of
          None \<Rightarrow> None
        | Some (prev, child) \<Rightarrow>
            if child \<noteq> 0 then
              let k1 = (if prev \<noteq> 0 then set_proc k prev (sibling_update (\<lambda>_. sibling (proc k child)))
                        else set_proc k cur (children_update (\<lambda>_. sibling (proc k child))))
              in Some (process_cleanup k1 child, pid (proc k child), Some (exit_code (proc k child)))
            else if nohang then Some (k, 0, None)
            else if children (proc k cur) = 0 then Some (k, - STATUS_NOTFOUND, None)
            else (case scheduler_yield (sch k) c of None \<Rightarrow> None
                  | Some s \<Rightarrow> process_wait resume (resume (k\<lparr>sch := s\<rparr>)) c pd nohang))"

text \<open>The loop of \<open>process_reap_zombies\<close>; the state of the list is its head and the store.\<close>

partial_function (option) reap :: "sched \<Rightarrow> pptr \<Rightarrow> pptr \<Rightarrow> pptr \<Rightarrow> (sched \<times> pptr) option" where
  "reap s head prev p =
     (if p = 0 then Some (s, head)
      else let nxt = sibling (procs s p) in
        if state (procs s p) = PROC_UNUSED
        then (if prev \<noteq> 0 then reap (upd s prev (sibling_update (\<lambda>_. nxt))) head prev nxt
              else reap s nxt prev nxt)
        else reap s head p nxt)"

definition process_reap_zombies :: "kern \<Rightarrow> kern option" where
  "process_reap_zombies k =
     (case reap (sch k) (zombie_list k) 0 (zombie_list k) of None \<Rightarrow> None
      | Some (s, head) \<Rightarrow> Some (k\<lparr>sch := s, zombie_list := head\<rparr>))"

section \<open>The map of process ids\<close>

lemma bm_bit_not: "bm_bit (map not bm) i \<longleftrightarrow> i div 64 < length bm \<and> \<not> bm_bit bm i"
  by (auto simp: bm_bit_def bit_not_iff)

lemma alloc_pid_least:
  assumes "n div 64 < length bm" and "\<not> bm_bit bm n" and "\<And>j. j < n \<Longrightarrow> bm_bit bm j"
  shows "alloc_pid bm = (bm_set bm n, int n)"
proof -
  have n: "bm_bit (map not bm) n" using assms(1,2) by (simp add: bm_bit_not)
  then obtain i where i: "first_nonzero (map not bm) 0 = Some i" using first_nonzero_none_bits by blast
  have len: "i < length bm" "map not bm ! i \<noteq> 0" using first_nonzero_Some [OF i] by auto
  let ?b = "ctz (map not bm ! i)"
  have b: "?b < 64" using ctz_bound [OF len(2)] by simp
  have "64 * i + ?b \<le> n" using first_nonzero_least(2) [OF i n] .
  moreover have "\<not> 64 * i + ?b < n" using first_nonzero_least(1) [OF i] assms(3) bm_bit_not by blast
  ultimately have e: "n = 64 * i + ?b" by simp
  have nb: "NOT (bm ! i) = map not bm ! i" using len(1) by simp
  have "bm[i := set_mask (bm ! i) ?b] = bm_set bm n" unfolding e bm_set_def using b by simp
  then show ?thesis using i e by (simp add: alloc_pid_def Let_def nb mult.commute)
qed

lemma alloc_pid_full:
  assumes "\<And>j. j div 64 < length bm \<Longrightarrow> bm_bit bm j"
  shows "alloc_pid bm = (bm, - 1)"
proof -
  have "first_nonzero (map not bm) 0 = None"
  proof (rule ccontr)
    assume "first_nonzero (map not bm) 0 \<noteq> None"
    then obtain i where "first_nonzero (map not bm) 0 = Some i" by blast
    from first_nonzero_least(1) [OF this] show False using assms bm_bit_not by blast
  qed
  then show ?thesis by (simp add: alloc_pid_def)
qed

section \<open>Slots and process ids\<close>

text \<open>The process with id \<open>p\<close> is the one in slot \<open>p - 1\<close>, and the map of ids and the states of the slots
  agree.  The last slot is never used, since id 1024 does not exist.\<close>

definition slot_ok :: "kern \<Rightarrow> pptr \<Rightarrow> bool" where
  "slot_ok k p \<longleftrightarrow> (state (proc k p) \<noteq> PROC_UNUSED \<longleftrightarrow> bm_bit (pid_bitmap k) p)
     \<and> (state (proc k p) \<noteq> PROC_UNUSED \<longrightarrow> pid (proc k p) = int p)"

definition proc_inv :: "kern \<Rightarrow> bool" where
  "proc_inv k \<longleftrightarrow> length (pid_bitmap k) = PID_BITMAP_SIZE \<and> bm_bit (pid_bitmap k) 0
     \<and> (\<forall>p. 0 < p \<and> p < MAX_PROCESSES \<longrightarrow> slot_ok k p) \<and> state (proc k MAX_PROCESSES) = PROC_UNUSED"

lemma pid_range: "length bm = PID_BITMAP_SIZE \<Longrightarrow> j div 64 < length bm \<longleftrightarrow> j < MAX_PROCESSES"
  by (simp add: PID_BITMAP_SIZE_def MAX_PROCESSES_def) linarith

lemma proc_invD:
  assumes "proc_inv k"
  shows "length (pid_bitmap k) = PID_BITMAP_SIZE" "bm_bit (pid_bitmap k) 0" "state (proc k MAX_PROCESSES) = PROC_UNUSED"
    "\<And>p. 0 < p \<Longrightarrow> p < MAX_PROCESSES \<Longrightarrow> state (proc k p) \<noteq> PROC_UNUSED \<longleftrightarrow> bm_bit (pid_bitmap k) p"
    "\<And>p. 0 < p \<Longrightarrow> p < MAX_PROCESSES \<Longrightarrow> state (proc k p) \<noteq> PROC_UNUSED \<Longrightarrow> pid (proc k p) = int p"
  using assms by (auto simp: proc_inv_def slot_ok_def)

text \<open>The slot and the id found for a new process belong together.\<close>

lemma slot_and_pid:
  assumes "proc_inv k"
  obtains (room) i where "find_slot k = Some i" "Suc i < MAX_PROCESSES" "state (proc k (Suc i)) = PROC_UNUSED"
      "alloc_pid (pid_bitmap k) = (bm_set (pid_bitmap k) (Suc i), int (Suc i))"
    | (full) i where "find_slot k = Some i" "alloc_pid (pid_bitmap k) = (pid_bitmap k, - 1)"
proof -
  note K = proc_invD [OF assms]
  have "state (proc k (Suc 1023)) = PROC_UNUSED" using K(3) by (simp add: MAX_PROCESSES_def)
  moreover have "(1023 :: nat) < 0 + MAX_PROCESSES" by (simp add: MAX_PROCESSES_def)
  ultimately have "find_slot k \<noteq> None" unfolding find_slot_def first_slot_None by blast
  then obtain i where i: "find_slot k = Some i" by blast
  from first_slot_Some [OF this [unfolded find_slot_def]]
  have s: "state (proc k (Suc i)) = PROC_UNUSED" "i < MAX_PROCESSES"
    "\<And>l. l < i \<Longrightarrow> state (proc k (Suc l)) \<noteq> PROC_UNUSED" by auto
  have below: "bm_bit (pid_bitmap k) j" if "j < Suc i" "j < MAX_PROCESSES" for j
    using that K(2,4) s(3) by (cases j) auto
  show ?thesis
  proof (cases "Suc i < MAX_PROCESSES")
    case True
    then have "\<not> bm_bit (pid_bitmap k) (Suc i)" using K(4) [of "Suc i"] s(1) by simp
    then have "alloc_pid (pid_bitmap k) = (bm_set (pid_bitmap k) (Suc i), int (Suc i))"
      using True below pid_range [OF K(1)] by (intro alloc_pid_least) auto
    with i s True show ?thesis by (intro room) auto
  next
    case False
    then have "alloc_pid (pid_bitmap k) = (pid_bitmap k, - 1)"
      using below pid_range [OF K(1)] s(2) by (intro alloc_pid_full) auto
    with i show ?thesis by (rule full)
  qed
qed

text \<open>Any change of processes that keeps ids and does not cross the unused state keeps the invariant.\<close>

lemma proc_inv_cong:
  assumes "proc_inv k" and "pid_bitmap k' = pid_bitmap k"
    and "\<And>p. 0 < p \<Longrightarrow> p \<le> MAX_PROCESSES \<Longrightarrow> (state (proc k' p) = PROC_UNUSED \<longleftrightarrow> state (proc k p) = PROC_UNUSED)
      \<and> (state (proc k p) = PROC_UNUSED \<or> pid (proc k' p) = pid (proc k p))"
  shows "proc_inv k'"
proof -
  note K = proc_invD [OF assms(1)]
  have "slot_ok k' p" if "0 < p" "p < MAX_PROCESSES" for p
    using K(4,5) [OF that] assms(2) assms(3) [of p] that by (auto simp: slot_ok_def)
  moreover have "state (proc k' MAX_PROCESSES) = PROC_UNUSED"
    using assms(3) [of MAX_PROCESSES] K(3) by (simp add: MAX_PROCESSES_def)
  ultimately show ?thesis using K(1,2) assms(2) by (simp add: proc_inv_def)
qed

text \<open>Taking and releasing a slot together with its id.\<close>

lemma proc_inv_take:
  assumes "proc_inv k" and "0 < p" and "p < MAX_PROCESSES" and "pid (f (proc k p)) = int p"
    and "state (f (proc k p)) \<noteq> PROC_UNUSED" and "pid_bitmap k' = bm_set (pid_bitmap k) p"
    and "procs (sch k') = (procs (sch k))(p := f (proc k p))"
  shows "proc_inv k'"
proof -
  note K = proc_invD [OF assms(1)]
  have "slot_ok k' q" if "0 < q" "q < MAX_PROCESSES" for q
    using K(4,5) [OF that] assms pid_range [OF K(1), of p] by (auto simp: slot_ok_def bit_ops)
  then show ?thesis using K assms(3,6,7) by (auto simp: proc_inv_def bit_ops)
qed

lemma proc_inv_release:
  assumes "proc_inv k" and "0 < p" and "p < MAX_PROCESSES" and "state (f (proc k p)) = PROC_UNUSED"
    and "pid_bitmap k' = bm_clear (pid_bitmap k) p" and "procs (sch k') = (procs (sch k))(p := f (proc k p))"
  shows "proc_inv k'"
proof -
  note K = proc_invD [OF assms(1)]
  have "slot_ok k' q" if "0 < q" "q < MAX_PROCESSES" for q
    using K(4,5) [OF that] assms by (auto simp: slot_ok_def bit_ops)
  then show ?thesis using K assms(2,3,5,6) by (auto simp: proc_inv_def bit_ops)
qed

section \<open>Creation is correct\<close>

text \<open>The kernel state with the ready queues \<open>L\<close>: no unused slot is queued.\<close>

definition kern_ok :: "kern \<Rightarrow> (nat \<Rightarrow> nat \<Rightarrow> pptr list) \<Rightarrow> bool" where
  "kern_ok k L \<longleftrightarrow> proc_inv k \<and> sched_ok (sch k) L \<and> runqueues (sch k) \<noteq> []
     \<and> (\<forall>p \<in> queued L. state (proc k p) \<noteq> PROC_UNUSED)"

definition attr_ok :: "kern \<Rightarrow> process_attr \<Rightarrow> bool" where
  "attr_ok k a \<longleftrightarrow> a_entry a \<noteq> 0 \<and> 0 \<le> a_priority a \<and> a_priority a < int SCHED_QUEUES
     \<and> heap_inv (kh k) \<and> request_ok (kh k) (a_stack_size a) \<and> request_ok (kh k) 8"

lemma alloc_page_heap:
  assumes "heap_inv h" and "request_ok h n" and "pmm_alloc (heap_pages h) = (p', g)"
  shows "heap_inv (h\<lparr>heap_pages := p'\<rparr>)" "request_ok (h\<lparr>heap_pages := p'\<rparr>) = request_ok h"
proof -
  from assms(1) obtain bs where bs: "heap_ok h bs" by (auto simp: heap_inv_def)
  note H = heap_okD [OF bs]
  have a: "pmm_alloc_n (heap_pages h) 1 = Some (p', g)" using assms(3) by (simp add: pmm_alloc_n_def)
  have room: "room_for (heap_pages h) 1" using assms(2) by (simp add: request_ok_def room_for_def)
  have inv: "pmm_inv p'" "room_for p' = room_for (heap_pages h)"
    using runs.alloc_n_returns [OF H(3) room] a by auto
  have "pool_bytes p' \<subseteq> pool_bytes (heap_pages h)"
    using runs.alloc_n_fails [OF H(3) room] runs.alloc_n_takes [OF H(3) room] a by (cases "g = 0") auto
  with H inv(1) have "heap_ok (h\<lparr>heap_pages := p'\<rparr>) bs" by (auto simp: heap_ok_def)
  then show "heap_inv (h\<lparr>heap_pages := p'\<rparr>)" by (auto simp: heap_inv_def)
  show "request_ok (h\<lparr>heap_pages := p'\<rparr>) = request_ok h" using inv(2) by (auto simp: request_ok_def fun_eq_iff)
qed

lemma make_pgd_ok:
  assumes "heap_inv (kh k)" and "request_ok (kh k) n"
  shows "\<exists>h t r. make_pgd k a = (k\<lparr>kh := h, tables := t\<rparr>, r) \<and> heap_inv h \<and> request_ok h = request_ok (kh k)"
proof (cases "a_flags a AND PROC_FLAG_USER = 0")
  case True
  then have "make_pgd k a = (k\<lparr>kh := kh k, tables := tables k\<rparr>, Some 0)" by (simp add: make_pgd_def)
  with assms(1) show ?thesis by blast
next
  case False
  obtain p' g where g: "pmm_alloc (heap_pages (kh k)) = (p', g)" by (cases "pmm_alloc (heap_pages (kh k))")
  let ?h = "(kh k)\<lparr>heap_pages := p'\<rparr>"
  obtain t r where "make_pgd k a = (k\<lparr>kh := ?h, tables := t\<rparr>, r)"
  proof (cases "g = 0")
    case True
    then show ?thesis using False g that [of "tables k" None] by (simp add: make_pgd_def)
  next
    case g0: False
    then show ?thesis
      using False g that [of "mem (vmm_init \<lparr>pm = p', mem = tables k\<rparr> g)" "Some g"] by (simp add: make_pgd_def Let_def)
  qed
  then show ?thesis using alloc_page_heap [OF assms g] by blast
qed

text \<open>The error exits undo the change of the slot.\<close>

lemma abandon_ok:
  assumes "proc_inv k" and "0 < p" and "p < MAX_PROCESSES" and "abandon k p (int p) = (k', r)"
  shows "proc_inv k'" "r = - STATUS_NOMEM" "sch k' = upd (sch k) p (state_update (\<lambda>_. PROC_UNUSED))"
proof -
  have k': "k' = set_proc (k\<lparr>pid_bitmap := bm_clear (pid_bitmap k) p\<rparr>) p (state_update (\<lambda>_. PROC_UNUSED))"
    using assms(3,4) by (auto simp: abandon_def free_pid_def)
  then show "sch k' = upd (sch k) p (state_update (\<lambda>_. PROC_UNUSED))" by (simp add: set_proc_def)
  then show "proc_inv k'"
    using k' by (intro proc_inv_release [OF assms(1,2,3), where f = "state_update (\<lambda>_. PROC_UNUSED)"])
      (simp_all add: upd_def set_proc_def)
  show "r = - STATUS_NOMEM" using assms(4) by (simp add: abandon_def)
qed

definition created :: "process_attr \<Rightarrow> u64 \<Rightarrow> int \<Rightarrow> process \<Rightarrow> bool" where
  "created a now pd p \<longleftrightarrow> pid p = pd \<and> state p = PROC_READY \<and> pname p = copy_name (a_name a) \<and> priority p = a_priority a
     \<and> pc (ctx p) = a_entry a \<and> x11 (ctx p) = a_entry a \<and> sp (ctx p) = x12 (ctx p) \<and> sp (ctx p) AND 0xF = 0
     \<and> stack_base p = sp (ctx p) - a_stack_size a \<and> stack_size p = a_stack_size a \<and> euid p = 0 \<and> start_time p = now
     \<and> sig_pending p = 0 \<and> children p = 0 \<and> parent p = 0"

lemma fill_slot_ok:
  assumes "proc_inv k" and "sched_ok (sch k) L" and "runqueues (sch k) \<noteq> []" and "p \<notin> queued L"
    and "0 < p" and "p < MAX_PROCESSES" and "proc k p = new_process a (int p)" and "attr_ok k a"
  shows "\<exists>k' r. fill_slot k now a p (int p) = Some (k', r) \<and>
    (r = - STATUS_NOMEM \<and> proc_inv k' \<and> sched_ok (sch k') L \<and> runqueues (sch k') = runqueues (sch k)
         \<and> state (proc k' p) = PROC_UNUSED \<and> (\<forall>q. q \<noteq> p \<longrightarrow> proc k' q = proc k q)
     \<or> r = int p \<and> proc_inv k' \<and> heap_inv (kh k') \<and> created a now (int p) (proc k' p)
         \<and> (\<forall>q. q \<noteq> p \<longrightarrow> (\<exists>n. proc k' q = (proc k q)\<lparr>sched_next := n\<rparr>)) \<and> length (runqueues (sch k')) = length (runqueues (sch k))
         \<and> (\<exists>c q. sched_ok (sch k') (L(c := (L c)(q := L c q @ [p])))))"
  (is "\<exists>k' r. ?f = Some (k', r) \<and> (?bad k' r \<or> ?good k' r)")
proof -
  have A: "heap_inv (kh k)" "request_ok (kh k) (a_stack_size a)" "request_ok (kh k) 8" "0 \<le> a_priority a"
    "a_priority a < int SCHED_QUEUES" using assms(8) by (simp_all add: attr_ok_def)
  have bad: "?bad k'' r" if ab: "abandon k1 p (int p) = (k'', r)" and e: "pid_bitmap k1 = pid_bitmap k"
    and s: "sch k1 = upd (sch k) p f" and f: "\<And>x. state (f x) = state x \<and> pid (f x) = pid x" for k1 k'' f r
  proof -
    have "proc_inv k1" using e s f by (intro proc_inv_cong [OF assms(1)]) (auto simp: upd_def)
    note R = abandon_ok [OF this assms(5,6) ab]
    have "sched_ok (sch k'') L"
      unfolding R(3) s by (intro sched_ok_upd_unqueued assms(2,4))
    then show ?thesis using R s by (auto simp: upd_def)
  qed
  obtain h1 stack where h1: "kmalloc (kh k) (a_stack_size a) = Some (h1, stack)" "heap_inv h1" "request_ok h1 = request_ok (kh k)"
    using blocks.alloc_returns [OF A(1,2)] by blast
  let ?k1 = "k\<lparr>kh := h1\<rparr>"
  show ?thesis
  proof (cases "stack = 0")
    case True
    obtain k' r where r: "abandon ?k1 p (int p) = (k', r)" by (cases "abandon ?k1 p (int p)")
    have "?bad k' r" using bad [OF r, of "\<lambda>x. x"] by (simp add: upd_def)
    moreover have "?f = Some (k', r)" using h1(1) True r by (simp add: fill_slot_def)
    ultimately show ?thesis by blast
  next
    case False
    let ?top = "(stack + a_stack_size a) AND NOT 0xF"
    let ?k2 = "set_proc ?k1 p (set_stack a ?top)"
    obtain h2 t g where g: "make_pgd ?k2 a = (?k2\<lparr>kh := h2, tables := t\<rparr>, g)" "heap_inv h2" "request_ok h2 = request_ok (kh k)"
      using make_pgd_ok [of ?k2 8 a] h1(2,3) A(3) by (auto simp: set_proc_def)
    let ?k3 = "?k2\<lparr>kh := h2, tables := t\<rparr>"
    show ?thesis
    proof (cases g)
      case None
      let ?k3' = "?k3\<lparr>kh := kfree h2 (sp (ctx (proc ?k3 p)) - a_stack_size a)\<rparr>"
      obtain k' r where r: "abandon ?k3' p (int p) = (k', r)" by (cases "abandon ?k3' p (int p)")
      have "?bad k' r" using bad [OF r, of "set_stack a ?top"] by (simp add: set_proc_def set_stack_def)
      moreover have "?f = Some (k', r)" using h1(1) False g(1) None r by (simp add: fill_slot_def Let_def)
      ultimately show ?thesis by blast
    next
      case (Some pgdir)
      obtain h3 fds where h3: "kmalloc h2 8 = Some (h3, fds)" "heap_inv h3" using blocks.alloc_returns [OF g(2)] g(3) A(3) by metis
      then obtain h4 where h4: "kcalloc h2 1 8 = Some (h4, fds)" "heap_inv h4"
        by (auto simp: kcalloc_def heap_inv_def heap_ok_def)
      let ?h5 = "if fds \<noteq> 0 then h4\<lparr>payload := (payload h4)(fds + 5 := 1)\<rparr> else h4"
      have h5: "heap_inv ?h5" using h4(2) by (auto simp: heap_inv_def heap_ok_def)
      let ?f2 = "\<lambda>x. finish_process a pgdir now fds (set_stack a ?top x)"
      let ?k4 = "(set_proc ?k3 p (finish_process a pgdir now fds))\<lparr>kh := ?h5, num_processes := num_processes ?k3 + 1\<rparr>"
      have sch4: "sch ?k4 = upd (sch k) p ?f2" by (simp add: set_proc_def upd_def)
      obtain q where q: "a_priority a = int q" "q < SCHED_QUEUES" using A(4,5) by (metis zero_le_imp_eq_int of_nat_less_iff)
      have "priority (procs (sch ?k4) p) = int q" "runqueues (sch ?k4) \<noteq> []"
        unfolding sch4 using assms(3,7) q(1) by (simp_all add: upd_def new_process_def finish_process_def set_stack_def)
      moreover have "sched_ok (sch ?k4) L" unfolding sch4 by (intro sched_ok_upd_unqueued assms(2,4))
      ultimately obtain s5 c n where s5: "scheduler_add_process (sch ?k4) p = Some s5"
        "sched_ok s5 (L(c := (L c)(q := L c q @ [p])))"
        "relinked (upd (sch ?k4) p (\<lambda>p. p\<lparr>cpu := c, state := PROC_READY, time_slice := n\<rparr>)) s5"
        using add_process_ok [OF _ _ assms(4) _ q(2)] assms(5) by blast
      let ?k' = "?k4\<lparr>sch := s5\<rparr>"
      have f: "?f = Some (?k', int p)" using h1(1) False g(1) Some h4(1) s5(1) by (simp add: fill_slot_def Let_def)
      let ?g = "\<lambda>x. (?f2 x)\<lparr>cpu := c, state := PROC_READY, time_slice := n\<rparr>"
      have pr: "\<exists>m. procs s5 x = (procs (upd (sch k) p ?g) x)\<lparr>sched_next := m\<rparr>" for x
      proof -
        have "upd (sch ?k4) p (\<lambda>p. p\<lparr>cpu := c, state := PROC_READY, time_slice := n\<rparr>) = upd (sch k) p ?g"
          unfolding sch4 by (simp add: upd_def)
        with s5(3) show ?thesis unfolding relinked_def by metis
      qed
      have other: "\<exists>m. procs s5 x = (proc k x)\<lparr>sched_next := m\<rparr>" if "x \<noteq> p" for x using pr [of x] that by (simp add: upd_def)
      obtain m where pp: "procs s5 p = (?g (new_process a (int p)))\<lparr>sched_next := m\<rparr>" using pr [of p] assms(7) by (auto simp: upd_def)
      have "?top AND 0xF = 0" by (rule bit_eqI) (auto simp: bit_simps)
      then have cr: "created a now (int p) (procs s5 p)"
        unfolding pp by (simp add: created_def finish_process_def set_stack_def new_process_def zero_process_def)
      have "proc_inv ?k'"
      proof (rule proc_inv_cong [OF assms(1)])
        fix x
        show "(state (proc ?k' x) = PROC_UNUSED \<longleftrightarrow> state (proc k x) = PROC_UNUSED)
            \<and> (state (proc k x) = PROC_UNUSED \<or> pid (proc ?k' x) = pid (proc k x))"
          using other [of x] cr assms(7) by (cases "x = p") (auto simp: created_def new_process_def)
      qed (simp add: set_proc_def)
      moreover have "length (runqueues s5) = length (runqueues (sch k))"
        using s5(3) unfolding sch4 by (simp add: relinked_def upd_def)
      ultimately have "?good ?k' (int p)" using h5 cr other s5(2) by auto
      with f show ?thesis by blast
    qed
  qed
qed

lemma kern_okD:
  assumes "kern_ok k L"
  shows "proc_inv k" "sched_ok (sch k) L" "runqueues (sch k) \<noteq> []" "\<And>p. p \<in> queued L \<Longrightarrow> state (proc k p) \<noteq> PROC_UNUSED"
  using assms by (simp_all add: kern_ok_def)

text \<open>
  C1: \<open>process_create\<close> always returns.  When the table, the heap or the page pool is exhausted the
  result is \<open>-STATUS_NOMEM\<close>, and the processes, the process ids and the run queues are as before;
  otherwise the result is an id that was free, which looks up the new process: ready, at the end of
  a run queue, starting at its entry point on an aligned stack; no other process has changed.
\<close>

theorem process_create_correct:
  assumes "kern_ok k L" and "attr_ok k a"
  shows "\<exists>k' r. process_create k now (Some a) = Some (k', r) \<and>
    (r = - STATUS_NOMEM \<and> kern_ok k' L \<and> (\<forall>q. state (proc k' q) = state (proc k q)
          \<and> (proc k' q = proc k q \<or> state (proc k q) = PROC_UNUSED))
     \<or> (\<exists>p L'. r = int p \<and> kern_ok k' L' \<and> heap_inv (kh k') \<and> queued L' = insert p (queued L)
          \<and> process_get_by_pid k r = 0 \<and> process_get_by_pid k' r = p \<and> created a now r (proc k' p)
          \<and> (\<forall>q. q \<noteq> p \<longrightarrow> (\<exists>n. proc k' q = (proc k q)\<lparr>sched_next := n\<rparr>))))"
  (is "\<exists>k' r. ?f = Some (k', r) \<and> (?bad k' r \<or> ?good k' r)")
  using kern_okD(1) [OF assms(1)]
proof (cases rule: slot_and_pid)
  case (full i)
  then have "?f = Some (k, - STATUS_NOMEM)" using assms(2) by (simp add: process_create_def attr_ok_def)
  with assms(1) show ?thesis by auto
next
  case (room i)
  note K = kern_okD [OF assms(1)]
  let ?p = "Suc i"
  let ?k1 = "set_proc (k\<lparr>pid_bitmap := bm_set (pid_bitmap k) ?p\<rparr>) ?p (\<lambda>_. new_process a (int ?p))"
  have f: "?f = fill_slot ?k1 now a ?p (int ?p)" using room assms(2) by (simp add: process_create_def attr_ok_def)
  have nq: "?p \<notin> queued L" using K(4) room(3) by auto
  have inv1: "proc_inv ?k1"
    using room(2) by (intro proc_inv_take [OF K(1), where f = "\<lambda>_. new_process a (int ?p)" and p = ?p])
      (simp_all add: set_proc_def upd_def new_process_def)
  have s1: "sch ?k1 = upd (sch k) ?p (\<lambda>_. new_process a (int ?p))" by (simp add: set_proc_def)
  have ok1: "sched_ok (sch ?k1) L" "runqueues (sch ?k1) \<noteq> []" "proc ?k1 ?p = new_process a (int ?p)" "attr_ok ?k1 a"
    unfolding s1 using K(2,3) nq assms(2) sched_ok_upd_unqueued by (simp_all add: upd_def attr_ok_def set_proc_def)
  have other1: "proc ?k1 q = proc k q" if "q \<noteq> ?p" for q unfolding s1 using that by (simp add: upd_def)
  obtain k' r where r: "fill_slot ?k1 now a ?p (int ?p) = Some (k', r)" and
    cases: "r = - STATUS_NOMEM \<and> proc_inv k' \<and> sched_ok (sch k') L \<and> runqueues (sch k') = runqueues (sch ?k1)
         \<and> state (proc k' ?p) = PROC_UNUSED \<and> (\<forall>q. q \<noteq> ?p \<longrightarrow> proc k' q = proc ?k1 q)
     \<or> r = int ?p \<and> proc_inv k' \<and> heap_inv (kh k') \<and> created a now (int ?p) (proc k' ?p)
         \<and> (\<forall>q. q \<noteq> ?p \<longrightarrow> (\<exists>n. proc k' q = (proc ?k1 q)\<lparr>sched_next := n\<rparr>))
         \<and> length (runqueues (sch k')) = length (runqueues (sch ?k1))
         \<and> (\<exists>c q. sched_ok (sch k') (L(c := (L c)(q := L c q @ [?p]))))"
    using fill_slot_ok [OF inv1 ok1(1,2) nq zero_less_Suc room(2) ok1(3,4), of now] by (elim exE) (erule conjE, rule that)
  from cases have "?bad k' r \<or> ?good k' r"
  proof
    assume b: "r = - STATUS_NOMEM \<and> proc_inv k' \<and> sched_ok (sch k') L \<and> runqueues (sch k') = runqueues (sch ?k1)
         \<and> state (proc k' ?p) = PROC_UNUSED \<and> (\<forall>q. q \<noteq> ?p \<longrightarrow> proc k' q = proc ?k1 q)"
    then have same: "state (proc k' q) = state (proc k q) \<and> (proc k' q = proc k q \<or> state (proc k q) = PROC_UNUSED)" for q
      using other1 room(3) by (cases "q = ?p") auto
    with b K(4) ok1(2) have "kern_ok k' L" by (simp add: kern_ok_def)
    with b same show ?thesis by blast
  next
    assume g: "r = int ?p \<and> proc_inv k' \<and> heap_inv (kh k') \<and> created a now (int ?p) (proc k' ?p)
         \<and> (\<forall>q. q \<noteq> ?p \<longrightarrow> (\<exists>n. proc k' q = (proc ?k1 q)\<lparr>sched_next := n\<rparr>))
         \<and> length (runqueues (sch k')) = length (runqueues (sch ?k1))
         \<and> (\<exists>c q. sched_ok (sch k') (L(c := (L c)(q := L c q @ [?p]))))"
    then obtain c q where L': "sched_ok (sch k') (L(c := (L c)(q := L c q @ [?p])))" by blast
    have oth: "\<forall>q. q \<noteq> ?p \<longrightarrow> (\<exists>n. proc k' q = (proc k q)\<lparr>sched_next := n\<rparr>)" using g other1 by metis
    have st: "state (proc k' q) \<noteq> PROC_UNUSED" if "q \<in> insert ?p (queued L)" for q
    proof (cases "q = ?p")
      case True
      with g show ?thesis by (simp add: created_def)
    next
      case False
      with oth obtain n where "proc k' q = (proc k q)\<lparr>sched_next := n\<rparr>" by blast
      with K(4) [of q] that False show ?thesis by simp
    qed
    have qd: "queued (L(c := (L c)(q := L c q @ [?p]))) = insert ?p (queued L)" unfolding queued_add by simp
    have "runqueues (sch k') \<noteq> []" using g ok1(2) by auto
    then have "kern_ok k' (L(c := (L c)(q := L c q @ [?p])))" using g L' st by (simp add: kern_ok_def qd del: fun_upd_apply)
    moreover have "process_get_by_pid k r = 0" "process_get_by_pid k' r = ?p"
      using g room(2,3) by (simp_all add: process_get_by_pid_def nat_add_distrib created_def)
    ultimately have "?good k' r" using g qd oth by blast
    then show ?thesis ..
  qed
  with f r show ?thesis by metis
qed

text \<open>The state after the boot code has called \<open>scheduler_init\<close> and \<open>process_init\<close>.\<close>

lemma process_init_inv: "proc_inv (process_init k)"
proof -
  have b: "bm_bit ((replicate PID_BITMAP_SIZE 0)[0 := set_mask 0 0]) i \<longleftrightarrow> i = 0" for i
    by (cases "i div 64 = 0") (auto simp: bm_bit_def bit_ops PID_BITMAP_SIZE_def nth_list_update)
  have "slot_ok (process_init k) p" if "0 < p" "p < MAX_PROCESSES" for p
    using that b by (simp add: slot_ok_def process_init_def zero_process_def)
  then show ?thesis using b by (auto simp: proc_inv_def process_init_def zero_process_def MAX_PROCESSES_def)
qed

lemma scheduler_init_ok: "sched_ok (scheduler_init s n) (\<lambda>_ _. [])"
  by (simp add: sched_ok_def scheduler_init_def rq_ok_def empty_runqueue_def last0_def)

definition boot_kern :: "nat \<Rightarrow> kheap \<Rightarrow> kern" where
  "boot_kern n h = process_init \<lparr>sch = scheduler_init \<lparr>procs = \<lambda>_. zero_process, runqueues = [], waiting = \<lambda>_. 0\<rparr> n,
     pid_bitmap = [], num_processes = 0, zombie_list = 0, kh = h, tables = \<lambda>_. 0\<rparr>"

lemma boot_kern_ok: "0 < n \<Longrightarrow> kern_ok (boot_kern n h) (\<lambda>_ _. [])"
proof -
  assume "0 < n"
  then have "runqueues (sch (boot_kern n h)) \<noteq> []" by (simp add: boot_kern_def process_init_def scheduler_init_def)
  moreover have "sched_ok (sch (boot_kern n h)) (\<lambda>_ _. [])"
    by (simp add: boot_kern_def process_init_def sched_ok_def scheduler_init_def rq_ok_def empty_runqueue_def last0_def)
  moreover have "proc_inv (boot_kern n h)" unfolding boot_kern_def by (rule process_init_inv)
  ultimately show ?thesis by (simp add: kern_ok_def queued_def)
qed

definition demo_attr :: process_attr where
  "demo_attr = \<lparr>a_name = [105, 110, 105, 116], a_entry = 0x41080000, a_priority = 2, a_stack_size = 48, a_flags = 1\<rparr>"

lemma demo_attr_ok: "attr_ok (boot_kern 1 small_heap) demo_attr"
proof -
  have "request_ok small_heap 8"
    using small_pmm_inv(2)
    by (simp add: request_ok_def room_for_def pages_for_def ALIGN_UP_def HEADER_def PAGE_SIZE_def)
       (simp add: small_heap_def take_page_def)
  then show ?thesis using small_heap_ok small_heap_request
    by (auto simp: attr_ok_def demo_attr_def SCHED_QUEUES_def boot_kern_def process_init_def heap_inv_def)
qed

theorem process_create_correct_witness:
  "\<exists>k' r L'. process_create (boot_kern 1 small_heap) 7 (Some demo_attr) = Some (k', r) \<and> kern_ok k' L'"
  using process_create_correct [OF boot_kern_ok [OF zero_less_one] demo_attr_ok, of 7] by blast

section \<open>Signals\<close>

text \<open>
  \<open>process_kill\<close> on every branch: an unknown or dead process and a caller without permission
  change nothing; otherwise exactly the bit of the signal becomes pending, and a sleeping process
  becomes ready and joins a run queue, while any other process stays as it is.
\<close>

theorem process_kill_correct:
  assumes "kern_ok k L" and "scheduler_get_current (sch k) c = cur" and "cur \<noteq> 0" and "0 < p" and "p < MAX_PROCESSES"
    and "sig < 64" and "runnable (proc k p)" and "state (proc k p) = PROC_SLEEPING \<longrightarrow> p \<notin> queued L"
  shows "\<exists>k' r. process_kill k c (int p) (int sig) = Some (k', r) \<and>
    (if state (proc k p) = PROC_UNUSED \<or> state (proc k p) = PROC_ZOMBIE then r = - STATUS_NOTFOUND \<and> k' = k
     else if euid (proc k cur) \<noteq> 0 \<and> euid (proc k cur) \<noteq> uid (proc k p) then r = - STATUS_PERM \<and> k' = k
     else r = 0 \<and> (\<forall>b. bit (sig_pending (proc k' p)) b \<longleftrightarrow> bit (sig_pending (proc k p)) b \<or> b = sig)
       \<and> (if state (proc k p) = PROC_SLEEPING
          then state (proc k' p) = PROC_READY \<and> (\<exists>L'. kern_ok k' L' \<and> queued L' = insert p (queued L))
          else state (proc k' p) = state (proc k p) \<and> kern_ok k' L))"
proof -
  note K = kern_okD [OF assms(1)]
  let ?g = "\<lambda>q. q\<lparr>sig_pending := set_mask (sig_pending q) sig\<rparr>"
  let ?k1 = "set_proc k p ?g"
  have pre: "\<not> int p \<le> 0" "\<not> int MAX_PROCESSES \<le> int p" "\<not> int sig < 0" "\<not> NUM_SIGNALS \<le> int sig"
    using assms(4,5,6) by (simp_all add: NUM_SIGNALS_def)
  have inv1: "proc_inv ?k1" by (intro proc_inv_cong [OF K(1)]) (auto simp: set_proc_def upd_def)
  have pend: "bit (sig_pending (proc ?k1 p)) b \<longleftrightarrow> bit (sig_pending (proc k p)) b \<or> b = sig" for b
    using assms(6) by (auto simp: set_proc_def upd_def bit_ops)
  consider (dead) "state (proc k p) = PROC_UNUSED \<or> state (proc k p) = PROC_ZOMBIE"
    | (denied) "\<not> (state (proc k p) = PROC_UNUSED \<or> state (proc k p) = PROC_ZOMBIE)"
        "euid (proc k cur) \<noteq> 0 \<and> euid (proc k cur) \<noteq> uid (proc k p)"
    | (sleep) "\<not> (euid (proc k cur) \<noteq> 0 \<and> euid (proc k cur) \<noteq> uid (proc k p))" "state (proc k p) = PROC_SLEEPING"
    | (other) "\<not> (state (proc k p) = PROC_UNUSED \<or> state (proc k p) = PROC_ZOMBIE)"
        "\<not> (euid (proc k cur) \<noteq> 0 \<and> euid (proc k cur) \<noteq> uid (proc k p))" "state (proc k p) \<noteq> PROC_SLEEPING"
    by blast
  then show ?thesis
  proof cases
    case dead
    with pre show ?thesis by (simp add: process_kill_def)
  next
    case denied
    with pre assms(2,3) show ?thesis by (simp add: process_kill_def Let_def)
  next
    case other
    have "sched_ok (sch ?k1) L" unfolding set_proc_def using sched_ok_upd [OF K(2), of ?g] by simp
    moreover have "state (proc ?k1 x) = state (proc k x)" for x by (simp add: set_proc_def upd_def)
    moreover have "runqueues (sch ?k1) \<noteq> []" using K(3) by (simp add: set_proc_def upd_def)
    ultimately have "kern_ok ?k1 L" using inv1 K(4) by (simp add: kern_ok_def)
    moreover have "process_kill k c (int p) (int sig) = Some (?k1, 0)"
      using pre other assms(2,3) by (auto simp: process_kill_def Let_def set_proc_def upd_def)
    ultimately show ?thesis using other pend by (auto simp: set_proc_def upd_def)
  next
    case sleep
    let ?k2 = "set_proc ?k1 p (state_update (\<lambda>_. PROC_READY))"
    have s2: "sch ?k2 = upd (sch k) p (\<lambda>q. (?g q)\<lparr>state := PROC_READY\<rparr>)" by (simp add: set_proc_def upd_def)
    have nq: "p \<notin> queued L" using sleep assms(8) by simp
    obtain q where q: "priority (proc k p) = int q" "q < SCHED_QUEUES"
      using assms(7) unfolding runnable_def by (metis zero_le_imp_eq_int of_nat_less_iff)
    have "sched_ok (sch ?k2) L" "priority (procs (sch ?k2) p) = int q" "runqueues (sch ?k2) \<noteq> []"
      unfolding s2 using sched_ok_upd_unqueued [OF K(2) nq] q K(3) by (simp_all add: upd_def)
    then obtain s' c' n where s': "scheduler_add_process (sch ?k2) p = Some s'" "sched_ok s' (L(c' := (L c')(q := L c' q @ [p])))"
      "relinked (upd (sch ?k2) p (\<lambda>p. p\<lparr>cpu := c', state := PROC_READY, time_slice := n\<rparr>)) s'"
      using add_process_ok [OF _ _ nq _ q(2)] assms(4) by blast
    let ?k' = "?k1\<lparr>sch := s'\<rparr>"
    have pr: "\<exists>m. procs s' x = (if x = p then (?g (proc k p))\<lparr>cpu := c', state := PROC_READY, time_slice := n, sched_next := m\<rparr>
        else (proc k x)\<lparr>sched_next := m\<rparr>)" for x
      using s'(3) unfolding s2 by (auto simp: relinked_def upd_def dest!: spec [of _ x])
    have st: "state (procs s' x) = (if x = p then PROC_READY else state (proc k x))"
      "pid (procs s' x) = pid (proc k x)" "x = p \<Longrightarrow> sig_pending (procs s' x) = sig_pending (proc ?k1 x)" for x
      using pr [of x] by (auto simp: set_proc_def upd_def)
    have "proc_inv ?k'" using st sleep by (intro proc_inv_cong [OF K(1)]) (auto simp: set_proc_def)
    moreover have "queued (L(c' := (L c')(q := L c' q @ [p]))) = insert p (queued L)" unfolding queued_add by simp
    moreover have "runqueues s' \<noteq> []" using s'(3) K(3) by (auto simp: relinked_def s2 upd_def)
    ultimately have "kern_ok ?k' (L(c' := (L c')(q := L c' q @ [p])))" "queued (L(c' := (L c')(q := L c' q @ [p]))) = insert p (queued L)"
      using s'(2) st(1) K(4) by (simp_all add: kern_ok_def del: fun_upd_apply)
    moreover have "process_kill k c (int p) (int sig) = Some (?k', 0)"
      using pre sleep assms(2,3) s'(1) by (auto simp: process_kill_def Let_def set_proc_def upd_def)
    moreover have "state (proc k p) = PROC_SLEEPING" by (rule sleep(2))
    ultimately show ?thesis using sleep(1) pend st [of p]
      by (intro exI [of _ ?k'] exI [of _ 0]) auto
  qed
qed

definition sleeper :: kern where
  "sleeper = (boot_kern 1 small_heap)\<lparr>pid_bitmap := bm_set (bm_set (pid_bitmap (boot_kern 1 small_heap)) 1) 2,
     sch := \<lparr>procs = (\<lambda>_. zero_process)(1 := zero_process\<lparr>pid := 1, state := PROC_RUNNING\<rparr>,
         2 := zero_process\<lparr>pid := 2, state := PROC_SLEEPING\<rparr>),
       runqueues = [empty_runqueue\<lparr>current := 1\<rparr>], waiting = \<lambda>_. 0\<rparr>\<rparr>"

lemma sleeper_ok: "kern_ok sleeper (\<lambda>_ _. [])"
proof -
  let ?b = "boot_kern 1 small_heap"
  have "proc_inv (set_proc (?b\<lparr>pid_bitmap := bm_set (pid_bitmap ?b) 1\<rparr>) 1 (\<lambda>p. p\<lparr>pid := 1, state := PROC_RUNNING\<rparr>))" (is "proc_inv ?k1")
    using kern_okD(1) [OF boot_kern_ok [OF zero_less_one]]
    by (rule proc_inv_take [where f = "\<lambda>p. p\<lparr>pid := 1, state := PROC_RUNNING\<rparr>" and p = 1])
      (simp_all add: MAX_PROCESSES_def set_proc_def upd_def)
  then have "proc_inv (set_proc (?k1\<lparr>pid_bitmap := bm_set (pid_bitmap ?k1) 2\<rparr>) 2 (\<lambda>p. p\<lparr>pid := 2, state := PROC_SLEEPING\<rparr>))" (is "proc_inv ?k2")
    by (rule proc_inv_take [where f = "\<lambda>p. p\<lparr>pid := 2, state := PROC_SLEEPING\<rparr>" and p = 2])
      (simp_all add: MAX_PROCESSES_def set_proc_def upd_def)
  then have "proc_inv sleeper"
    by (rule proc_inv_cong)
      (auto simp: sleeper_def set_proc_def upd_def boot_kern_def process_init_def scheduler_init_def zero_process_def)
  then show ?thesis
    by (simp add: kern_ok_def sleeper_def sched_ok_def rq_ok_def empty_runqueue_def last0_def queued_def)
qed

theorem process_kill_correct_witness:
  "\<exists>k' r. process_kill sleeper 0 2 9 = Some (k', r) \<and> r = 0 \<and> state (proc k' 2) = PROC_READY \<and> bit (sig_pending (proc k' 2)) 9"
proof -
  have "scheduler_get_current (sch sleeper) 0 = 1" "runnable (proc sleeper 2)" "state (proc sleeper 2) = PROC_SLEEPING"
    "euid (proc sleeper 1) = 0"
    by (simp_all add: sleeper_def scheduler_get_current_def runnable_def zero_process_def SCHED_QUEUES_def)
  then show ?thesis
    using process_kill_correct [OF sleeper_ok, of 0 1 2 9] by (auto simp: MAX_PROCESSES_def queued_def)
qed

section \<open>Leaving and waiting\<close>

text \<open>The children and the zombies are lists linked through \<open>sibling\<close>.\<close>

abbreviation slink :: "(pptr \<Rightarrow> process) \<Rightarrow> pptr \<Rightarrow> pptr list \<Rightarrow> bool" where
  "slink ps \<equiv> linked (\<lambda>x. sibling (ps x))"

lemma reparent_ok:
  "slink (procs s) a xs \<Longrightarrow>
     reparent s a = Some (s\<lparr>procs := \<lambda>x. if x \<in> set xs then (procs s x)\<lparr>ppid := 1\<rparr> else procs s x\<rparr>)"
proof (induction xs arbitrary: s a)
  case Nil
  then show ?case by (subst reparent.simps) simp
next
  case (Cons y ys)
  let ?s = "upd s y (ppid_update (\<lambda>_. 1))"
  have y: "a = y" "y \<noteq> 0" "slink (procs s) (sibling (procs s y)) ys" using Cons.prems by auto
  have "slink (procs ?s) (sibling (procs s y)) ys \<longleftrightarrow> slink (procs s) (sibling (procs s y)) ys"
    by (rule linked_cong) (simp add: upd_def)
  with y have "reparent ?s (sibling (procs s y)) =
      Some (?s\<lparr>procs := \<lambda>x. if x \<in> set ys then (procs ?s x)\<lparr>ppid := 1\<rparr> else procs ?s x\<rparr>)"
    using Cons.IH [of ?s "sibling (procs s y)"] by simp
  moreover have "(\<lambda>x. if x \<in> set ys then (procs ?s x)\<lparr>ppid := 1\<rparr> else procs ?s x)
      = (\<lambda>x. if x \<in> set (y # ys) then (procs s x)\<lparr>ppid := 1\<rparr> else procs s x)"
    by (auto simp: upd_def)
  ultimately show ?case using y by (subst reparent.simps) (simp add: upd_def)
qed

lemma find_zombie_ok:
  fixes pd ps
  defines "hit \<equiv> \<lambda>x. (pd = - 1 \<or> pid (ps x) = pd) \<and> state (ps x) = PROC_ZOMBIE"
  assumes "slink ps a (us @ z # vs)" and "\<forall>u \<in> set us. \<not> hit u" and "hit z"
  shows "find_zombie ps pd prev a = Some (if us = [] then prev else last us, z)"
  using assms(2,3)
proof (induction us arbitrary: a prev)
  case Nil
  then show ?case using assms(4) by (subst find_zombie.simps) (simp add: hit_def)
next
  case (Cons u us)
  then have "find_zombie ps pd u (sibling (ps u)) = Some (if us = [] then u else last us, z)" by simp
  with Cons.prems show ?case by (subst find_zombie.simps) (auto simp: hit_def)
qed

lemma linked_remove:
  "linked nx a (us @ z # vs) \<Longrightarrow> linked (if us = [] then nx else nx(last us := nx z)) (if us = [] then nx z else a) (us @ vs)"
proof (induction us arbitrary: a)
  case (Cons u us)
  have d: "distinct (u # us @ z # vs)" using linked_distinct [OF Cons.prems] by simp
  show ?case
  proof (cases "us = []")
    case True
    have "linked (nx(u := nx z)) (nx z) vs \<longleftrightarrow> linked nx (nx z) vs" using d by (intro linked_cong) auto
    with True Cons.prems show ?thesis by (simp add: fun_upd_def)
  next
    case False
    then have "last us \<noteq> u" using d last_in_set [of us] by auto
    with False Cons show ?thesis by simp
  qed
qed simp

text \<open>\<open>process_cleanup\<close> frees the slot and the id together.\<close>

lemma cleanup_frame:
  assumes "p \<noteq> 0"
  shows "sch (process_cleanup k p) = upd (sch k) p (state_update (\<lambda>_. PROC_UNUSED))"
    "pid_bitmap (process_cleanup k p) = free_pid (pid_bitmap k) (pid (proc k p))"
    "zombie_list (process_cleanup k p) = zombie_list k"
  using assms by (auto simp: process_cleanup_def Let_def set_proc_def)

lemma cleanup_inv:
  assumes "proc_inv k" and "0 < p" and "p < MAX_PROCESSES" and "state (proc k p) \<noteq> PROC_UNUSED"
  shows "proc_inv (process_cleanup k p)"
proof (rule proc_inv_release [OF assms(1-3), where f = "state_update (\<lambda>_. PROC_UNUSED)"])
  show "pid_bitmap (process_cleanup k p) = bm_clear (pid_bitmap k) p"
    using cleanup_frame(2) [of p k] proc_invD(5) [OF assms] assms(2,3) by (simp add: free_pid_def)
qed (use cleanup_frame(1) [of p k] assms(2) in \<open>simp_all add: upd_def\<close>)

text \<open>
  When the list of children holds a matching zombie, \<open>process_wait\<close> returns the id and the exit
  code of the first one, takes it off the list, keeping the other children in order, and releases
  its slot and its id together.
\<close>

theorem process_wait_reaps:
  assumes "proc_inv k" and "scheduler_get_current (sch k) c = cur" and "cur \<noteq> 0"
    and "slink (procs (sch k)) (children (proc k cur)) (us @ z # vs)" and "z < MAX_PROCESSES"
    and "\<forall>u \<in> set us. \<not> ((pd = - 1 \<or> pid (proc k u) = pd) \<and> state (proc k u) = PROC_ZOMBIE)"
    and "pd = - 1 \<or> pid (proc k z) = pd" and "state (proc k z) = PROC_ZOMBIE"
  shows "\<exists>k'. process_wait resume k c pd nohang = Some (k', int z, Some (exit_code (proc k z))) \<and> proc_inv k'
    \<and> slink (procs (sch k')) (children (proc k' cur)) (us @ vs) \<and> process_get_by_pid k' (int z) = 0"
proof -
  let ?prev = "if us = [] then 0 else last us"
  have z: "0 < z" "pid (proc k z) = int z" "process_get_by_pid k' (int z) = (if state (proc k' z) = PROC_UNUSED then 0 else z)" for k'
    using linked_nonzero [OF assms(4)] proc_invD(5) [OF assms(1) _ assms(5)] assms(5,8) by (auto simp: process_get_by_pid_def)
  have d: "distinct (us @ z # vs)" "0 \<notin> set us" using linked_distinct [OF assms(4)] linked_nonzero [OF assms(4)] by auto
  have fz: "find_zombie (procs (sch k)) pd 0 (children (proc k cur)) = Some (?prev, z)"
    using find_zombie_ok [OF assms(4), of pd 0] assms(6,7,8) by simp
  define k1 where "k1 = (if ?prev \<noteq> 0 then set_proc k ?prev (sibling_update (\<lambda>_. sibling (proc k z)))
      else set_proc k cur (children_update (\<lambda>_. sibling (proc k z))))"
  have prev: "?prev \<noteq> 0 \<longleftrightarrow> us \<noteq> []" using d(2) by (cases "us = []") (simp, metis last_in_set)
  let ?k' = "process_cleanup k1 z"
  have w: "process_wait resume k c pd nohang = Some (?k', int z, Some (exit_code (proc k z)))"
    using fz assms(2,3) z(1,2) by (subst process_wait.simps) (simp add: Let_def k1_def)
  have same: "state (proc k1 x) = state (proc k x)" "pid (proc k1 x) = pid (proc k x)" for x
    by (simp_all add: k1_def set_proc_def upd_def)
  have inv1: "proc_inv k1" using same by (intro proc_inv_cong [OF assms(1)]) (auto simp: k1_def set_proc_def)
  then have inv: "proc_inv ?k'" using cleanup_inv [OF _ z(1) assms(5)] same assms(8) by simp
  have s': "sibling (proc ?k' x) = sibling (proc k1 x)" "children (proc ?k' x) = children (proc k1 x)"
    "state (proc ?k' z) = PROC_UNUSED" for x
    using cleanup_frame(1) [of z k1] z(1) by (simp_all add: upd_def)
  have "slink (procs (sch k1)) (children (proc k1 cur)) (us @ vs)"
  proof (cases "us = []")
    case True
    then have "k1 = set_proc k cur (children_update (\<lambda>_. sibling (proc k z)))" by (simp add: k1_def)
    then have "children (proc k1 cur) = sibling (proc k z)" "\<And>x. sibling (proc k1 x) = sibling (proc k x)"
      by (simp_all add: set_proc_def upd_def)
    with linked_remove [OF assms(4)] True show ?thesis by simp
  next
    case False
    then have "k1 = set_proc k (last us) (sibling_update (\<lambda>_. sibling (proc k z)))" using prev by (simp add: k1_def)
    then have "children (proc k1 cur) = children (proc k cur)"
      "(\<lambda>x. sibling (proc k1 x)) = (\<lambda>x. sibling (proc k x))(last us := sibling (proc k z))"
      by (auto simp: set_proc_def upd_def)
    with linked_remove [OF assms(4)] False show ?thesis by simp
  qed
  then have "slink (procs (sch ?k')) (children (proc ?k' cur)) (us @ vs)" by (simp add: s')
  with w inv z(3) [of ?k'] s'(3) show ?thesis by auto
qed

definition family :: kern where
  "family = sleeper\<lparr>sch := (sch sleeper)\<lparr>procs := (procs (sch sleeper))(1 := (proc sleeper 1)\<lparr>children := 2\<rparr>,
     2 := (proc sleeper 2)\<lparr>state := PROC_ZOMBIE, exit_code := 7\<rparr>)\<rparr>\<rparr>"

theorem process_wait_reaps_witness:
  "\<exists>k'. process_wait (\<lambda>k. k) family 0 (- 1) False = Some (k', 2, Some 7) \<and> process_get_by_pid k' 2 = 0"
proof -
  have "proc_inv family"
    by (rule proc_inv_cong [OF kern_okD(1) [OF sleeper_ok]]) (auto simp: family_def sleeper_def)
  moreover have "scheduler_get_current (sch family) 0 = 1" "slink (procs (sch family)) (children (proc family 1)) ([] @ 2 # [])"
    "state (proc family 2) = PROC_ZOMBIE" "exit_code (proc family 2) = 7"
    by (simp_all add: family_def sleeper_def scheduler_get_current_def zero_process_def)
  ultimately show ?thesis
    using process_wait_reaps [of family 0 1 "[]" 2 "[]" "- 1" "\<lambda>k. k" False] by (auto simp: MAX_PROCESSES_def)
qed

text \<open>
  \<open>process_exit\<close> records the exit code, hands the children to process 1 and puts the process on
  the list of zombies; but the \<open>scheduler_yield\<close> at its end makes the zombie ready again, and it
  is either queued to run or still the current process, where the code panics.
\<close>

theorem process_exit_runs_again:
  assumes "sched_ok (sch k) L" and "c < length (runqueues (sch k))" and "current (runqueues (sch k) ! c) = cur"
    and "cur \<noteq> 0" and "cur \<notin> queued L" and "cpu (proc k cur) = c" and "priority (proc k cur) = int q" and "q < SCHED_QUEUES"
    and "slink (procs (sch k)) (children (proc k cur)) xs" and "cur \<notin> set xs"
  shows "\<exists>k' L'. process_exit k c code = Some k' \<and> sched_ok (sch k') L' \<and> zombie_list k' = cur
    \<and> exit_code (proc k' cur) = code \<and> sibling (proc k' cur) = zombie_list k \<and> (\<forall>x \<in> set xs. ppid (proc k' x) = 1)
    \<and> state (proc k' cur) = PROC_READY \<and> (cur \<in> queued L' \<or> current (runqueues (sch k') ! c) = cur)"
proof -
  let ?f = "\<lambda>p. p\<lparr>exit_code := code, state := PROC_ZOMBIE\<rparr>"
  define s1 where "s1 = upd (sch k) cur ?f"
  define s2 where "s2 = s1\<lparr>procs := \<lambda>x. if x \<in> set xs then (procs s1 x)\<lparr>ppid := 1\<rparr> else procs s1 x\<rparr>"
  define s3 where "s3 = upd s2 cur (sibling_update (\<lambda>_. zombie_list k))"
  have "slink (procs s1) (children (procs s1 cur)) xs \<longleftrightarrow> slink (procs (sch k)) (children (proc k cur)) xs"
    using linked_cong [of xs "\<lambda>x. sibling (procs s1 x)" "\<lambda>x. sibling (proc k x)"] by (simp add: s1_def upd_def)
  then have r: "reparent s1 (children (procs s1 cur)) = Some s2"
    using reparent_ok [of s1 "children (procs s1 cur)" xs] assms(9) by (simp add: s2_def)
  have same: "sched_next (procs s3 x) = sched_next (proc k x)" "cpu (procs s3 x) = cpu (proc k x)"
    "priority (procs s3 x) = priority (proc k x)" for x
    by (simp_all add: s3_def s2_def s1_def upd_def)
  have rq: "runqueues s3 = runqueues (sch k)" by (simp add: s3_def s2_def s1_def upd_def)
  have "rq_ok (procs s3) rq ls \<longleftrightarrow> rq_ok (proc k) rq ls" for rq ls using same by (intro rq_ok_cong) auto
  then have ok3: "sched_ok s3 L" using assms(1) by (simp add: sched_ok_def same rq)
  obtain s4 L' where s4: "scheduler_yield s3 c = Some s4" "sched_ok s4 L'" "state (procs s4 cur) = PROC_READY"
    "cur \<in> queued L' \<or> current (runqueues s4 ! c) = cur"
    using yield_keeps_caller [OF ok3, of c cur q] assms(2-8) same rq by auto
  note own = own_fieldsD [OF yield_own [OF s4(1)]]
  have "scheduler_get_current (sch k) c = cur" using assms(2,3) by (simp add: scheduler_get_current_def)
  then have e: "process_exit k c code = Some (k\<lparr>sch := s4, zombie_list := cur, num_processes := num_processes k - 1\<rparr>)"
    using assms(4) r s4(1) by (simp add: process_exit_def Let_def flip: s1_def s3_def)
  have "exit_code (procs s3 cur) = code" "sibling (procs s3 cur) = zombie_list k" "\<forall>x \<in> set xs. ppid (procs s3 x) = 1"
    using assms(10) by (auto simp: s3_def s2_def s1_def upd_def)
  then show ?thesis using e s4(2,3,4) own by (intro exI [of _ "k\<lparr>sch := s4, zombie_list := cur, num_processes := num_processes k - 1\<rparr>"]
      exI [of _ L']) simp
qed

theorem process_exit_runs_again_witness:
  "\<exists>k'. process_exit sleeper 0 3 = Some k' \<and> exit_code (proc k' 1) = 3 \<and> state (proc k' 1) = PROC_READY \<and> zombie_list k' = 1"
proof -
  have "current (runqueues (sch sleeper) ! 0) = 1" "0 < length (runqueues (sch sleeper))" "cpu (proc sleeper 1) = 0"
    "priority (proc sleeper 1) = int 0" "0 < SCHED_QUEUES" "slink (procs (sch sleeper)) (children (proc sleeper 1)) []"
    by (simp_all add: sleeper_def zero_process_def SCHED_QUEUES_def)
  then show ?thesis
    using process_exit_runs_again [OF kern_okD(2) [OF sleeper_ok], of 0 1 0 "[]" 3] by (auto simp: queued_def)
qed

text \<open>Reaping: what has been kept so far is \<open>ks\<close>, and \<open>prev\<close> is the last of it.\<close>

lemma reap_ok:
  assumes "slink (procs s) head (ks @ xs)" and "slink (procs s) p xs" and "prev = last0 ks"
  shows "\<exists>s' head'. reap s head prev p = Some (s', head')
    \<and> slink (procs s') head' (ks @ filter (\<lambda>x. state (procs s x) \<noteq> PROC_UNUSED) xs)
    \<and> (\<forall>x. \<exists>m. procs s' x = (procs s x)\<lparr>sibling := m\<rparr>)"
  using assms
proof (induction xs arbitrary: s head ks p prev)
  case Nil
  have "q = q\<lparr>sibling := sibling q\<rparr>" for q :: process by simp
  then have "\<forall>x. \<exists>m. procs s x = (procs s x)\<lparr>sibling := m\<rparr>" by blast
  with Nil show ?case by (subst reap.simps) auto
next
  case (Cons y ys)
  let ?nx = "\<lambda>x. sibling (procs s x)"
  have y: "p = y" "y \<noteq> 0" "linked ?nx (?nx y) ys" using Cons.prems(2) by auto
  have d: "distinct (ks @ y # ys)" "0 \<notin> set ks" using linked_distinct [OF Cons.prems(1)] linked_nonzero [OF Cons.prems(1)] by auto
  show ?case
  proof (cases "state (procs s y) = PROC_UNUSED")
    case False
    have "linked ?nx head ((ks @ [y]) @ ys)" "y = last0 (ks @ [y])" using Cons.prems(1) by (simp_all add: last0_def)
    from Cons.IH [OF this(1) y(3) this(2)] False y(1,2) show ?thesis by (subst reap.simps) (simp add: Let_def)
  next
    case unused: True
    show ?thesis
    proof (cases "ks = []")
      case True
      then have "linked ?nx (?nx y) ([] @ ys)" "0 = last0 []" using y(3) by (simp_all add: last0_def)
      from Cons.IH [OF this(1) y(3) this(2)] unused y(1,2) True Cons.prems(3) show ?thesis
        by (subst reap.simps) (simp add: Let_def last0_def)
    next
      case False
      let ?s = "upd s (last ks) (sibling_update (\<lambda>_. ?nx y))"
      have prev: "prev = last ks" "prev \<noteq> 0"
        using False Cons.prems(3) d(2) last_in_set [OF False] by (simp add: last0_def, metis last0_def)
      have nx': "(\<lambda>x. sibling (procs ?s x)) = ?nx(last ks := ?nx y)" by (auto simp: upd_def)
      have "slink (procs ?s) head (ks @ ys)" unfolding nx' using linked_remove [OF Cons.prems(1)] False by simp
      moreover have "linked (?nx(last ks := ?nx y)) (?nx y) ys \<longleftrightarrow> linked ?nx (?nx y) ys"
        using d(1) last_in_set [OF False] by (intro linked_cong) auto
      then have "slink (procs ?s) (?nx y) ys" unfolding nx' using y(3) by simp
      ultimately obtain s' head' where r: "reap ?s head prev (?nx y) = Some (s', head')"
        "slink (procs s') head' (ks @ filter (\<lambda>x. state (procs ?s x) \<noteq> PROC_UNUSED) ys)"
        "\<forall>x. \<exists>m. procs s' x = (procs ?s x)\<lparr>sibling := m\<rparr>"
        using Cons.IH [of ?s head ks "?nx y" prev] Cons.prems(3) by blast
      have "\<forall>x. \<exists>m. procs s' x = (procs s x)\<lparr>sibling := m\<rparr>"
      proof
        fix x
        from r(3) obtain m where "procs s' x = (procs ?s x)\<lparr>sibling := m\<rparr>" by blast
        then show "\<exists>m. procs s' x = (procs s x)\<lparr>sibling := m\<rparr>" by (auto simp: upd_def)
      qed
      moreover have "reap s head prev p = Some (s', head')"
        using r(1) unused y(1,2) prev by (subst reap.simps) (simp add: Let_def)
      moreover have "state (procs ?s x) = state (procs s x)" for x by (simp add: upd_def)
      ultimately show ?thesis using r(2) unused by auto
    qed
  qed
qed

text \<open>
  \<open>process_reap_zombies\<close> ends and leaves exactly the processes that still have a slot on the
  list of zombies, in order; nothing but the links of the list changes.
\<close>

theorem reap_zombies_correct:
  assumes "slink (procs (sch k)) (zombie_list k) xs"
  shows "\<exists>k'. process_reap_zombies k = Some k'
    \<and> slink (procs (sch k')) (zombie_list k') (filter (\<lambda>x. state (proc k x) \<noteq> PROC_UNUSED) xs)
    \<and> (\<forall>x. \<exists>m. proc k' x = (proc k x)\<lparr>sibling := m\<rparr>)"
proof -
  obtain s' h where "reap (sch k) (zombie_list k) 0 (zombie_list k) = Some (s', h)"
    "slink (procs s') h (filter (\<lambda>x. state (proc k x) \<noteq> PROC_UNUSED) xs)"
    "\<forall>x. \<exists>m. procs s' x = (proc k x)\<lparr>sibling := m\<rparr>"
    using reap_ok [of "sch k" "zombie_list k" "[]" xs "zombie_list k" 0] assms by (auto simp: last0_def)
  then show ?thesis by (intro exI [of _ "k\<lparr>sch := s', zombie_list := h\<rparr>"]) (simp add: process_reap_zombies_def)
qed

theorem reap_zombies_correct_witness:
  "\<exists>k'. process_reap_zombies (family\<lparr>zombie_list := 2\<rparr>) = Some k' \<and> slink (procs (sch k')) (zombie_list k') [2]"
proof -
  let ?k = "family\<lparr>zombie_list := 2\<rparr>"
  have "slink (procs (sch ?k)) (zombie_list ?k) [2]" by (simp add: family_def sleeper_def zero_process_def)
  moreover have "filter (\<lambda>x. state (proc ?k x) \<noteq> PROC_UNUSED) [2] = [2]" by (simp add: family_def)
  ultimately show ?thesis using reap_zombies_correct [of ?k "[2]"] by metis
qed

end
