(* ===== verification/Sync.thy ===== *)
theory Sync
  imports Sched
begin

text \<open>
  The synchronisation primitives of sync.c.  Spinlocks are programs of several CPUs whose
  instructions interleave: each of \<open>spin_lock\<close>, \<open>spin_unlock\<close> and \<open>spin_trylock\<close> is a step function on
  the lock word, the owner, the saved interrupt mask, the interrupt masks of the CPUs and their program
  points; an exclusive load and store pair is one step.  The primitives that sleep are whole
  operations, since each holds its spinlock from its first to its last access; they act on the
  scheduler of \<open>Sched\<close>.  A null pointer argument, for which every operation returns at once, is not
  written out.
\<close>

section \<open>Spinlocks\<close>

record spinlock =
  lock :: u32
  owner :: int
  irq_flags :: u64

definition spinlock_init :: "spinlock \<Rightarrow> spinlock" where
  "spinlock_init l = l\<lparr>lock := 0, owner := - 1\<rparr>"

definition SPINLOCK_INIT :: spinlock where
  "SPINLOCK_INIT = \<lparr>lock = 0, owner = - 1, irq_flags = 0\<rparr>"

text \<open>The interrupt mask register: \<open>arch_save_irq_disable\<close> and \<open>arch_restore_irq\<close>.\<close>

definition arch_save_irq_disable :: "u64 \<Rightarrow> u64 \<times> u64" where
  "arch_save_irq_disable daif = (daif OR 0x3C0, daif)"

definition arch_restore_irq :: "u64 \<Rightarrow> u64 \<Rightarrow> u64" where
  "arch_restore_irq daif saved = saved"

text \<open>The program points.  A point inside the critical section carries the mask saved by \<open>spin_lock\<close>,
  or \<open>None\<close> when the lock was taken by \<open>spin_trylock\<close>; a point of \<open>spin_unlock\<close> carries the mask read
  from the lock first.\<close>

datatype spin_pc = Outside | Trying u64 | Acquired u64 | Owned u64 | TryAcquired | Held "u64 option"
  | Releasing u64 "u64 option" | Released u64 "u64 option" | Restoring u64 "u64 option"

record spin_sys =
  sl :: spinlock
  daif :: "nat \<Rightarrow> u64"
  at :: "nat \<Rightarrow> spin_pc"

definition goto :: "spin_sys \<Rightarrow> nat \<Rightarrow> spin_pc \<Rightarrow> spin_sys" where
  "goto s c p = s\<lparr>at := (at s)(c := p)\<rparr>"

definition spin_lock_step :: "nat \<Rightarrow> spin_sys \<Rightarrow> spin_sys option" where
  "spin_lock_step c s =
     (case at s c of
        Outside \<Rightarrow> (case arch_save_irq_disable (daif s c) of (m, saved) \<Rightarrow>
           Some (goto (s\<lparr>daif := (daif s)(c := m)\<rparr>) c (Trying saved)))
      | Trying saved \<Rightarrow> if lock (sl s) \<noteq> 0 then Some s
           else Some (goto (s\<lparr>sl := (sl s)\<lparr>lock := 1\<rparr>\<rparr>) c (Acquired saved))
      | Acquired saved \<Rightarrow> Some (goto (s\<lparr>sl := (sl s)\<lparr>owner := int c\<rparr>\<rparr>) c (Owned saved))
      | Owned saved \<Rightarrow> Some (goto (s\<lparr>sl := (sl s)\<lparr>irq_flags := saved\<rparr>\<rparr>) c (Held (Some saved)))
      | _ \<Rightarrow> None)"

definition spin_unlock_step :: "nat \<Rightarrow> spin_sys \<Rightarrow> spin_sys option" where
  "spin_unlock_step c s =
     (case at s c of
        Held g \<Rightarrow> Some (goto s c (Releasing (irq_flags (sl s)) g))
      | Releasing f g \<Rightarrow> Some (goto (s\<lparr>sl := (sl s)\<lparr>lock := 0\<rparr>\<rparr>) c (Released f g))
      | Released f g \<Rightarrow> Some (goto (s\<lparr>sl := (sl s)\<lparr>owner := - 1\<rparr>\<rparr>) c (Restoring f g))
      | Restoring f g \<Rightarrow> Some (goto (s\<lparr>daif := (daif s)(c := arch_restore_irq (daif s c) f)\<rparr>) c Outside)
      | _ \<Rightarrow> None)"

definition spin_trylock_step :: "nat \<Rightarrow> spin_sys \<Rightarrow> spin_sys option" where
  "spin_trylock_step c s =
     (case at s c of
        Outside \<Rightarrow> if lock (sl s) \<noteq> 0 then Some s
           else Some (goto (s\<lparr>sl := (sl s)\<lparr>lock := 1\<rparr>\<rparr>) c TryAcquired)
      | TryAcquired \<Rightarrow> Some (goto (s\<lparr>sl := (sl s)\<lparr>owner := int c\<rparr>\<rparr>) c (Held None))
      | _ \<Rightarrow> None)"

text \<open>The states that any number of CPUs reach with one lock.\<close>

definition spin_boot :: "(nat \<Rightarrow> u64) \<Rightarrow> spin_sys" where
  "spin_boot masks = \<lparr>sl = SPINLOCK_INIT, daif = masks, at = \<lambda>_. Outside\<rparr>"

inductive spin_reach :: "spin_sys \<Rightarrow> bool" where
  boot: "spin_reach (spin_boot masks)"
| lock_step: "spin_reach s \<Longrightarrow> spin_lock_step c s = Some s' \<Longrightarrow> spin_reach s'"
| unlock_step: "spin_reach s \<Longrightarrow> spin_unlock_step c s = Some s' \<Longrightarrow> spin_reach s'"
| trylock_step: "spin_reach s \<Longrightarrow> spin_trylock_step c s = Some s' \<Longrightarrow> spin_reach s'"

text \<open>One CPU alone: the whole operations, used by the variants that save the mask themselves.\<close>

definition spin_lock :: "nat \<Rightarrow> spinlock \<times> u64 \<Rightarrow> (spinlock \<times> u64) option" where
  "spin_lock c = (\<lambda>(l, m).
     if lock l \<noteq> 0 then None
     else case arch_save_irq_disable m of (m', saved) \<Rightarrow>
       Some (l\<lparr>lock := 1, owner := int c, irq_flags := saved\<rparr>, m'))"

definition spin_unlock :: "spinlock \<times> u64 \<Rightarrow> spinlock \<times> u64" where
  "spin_unlock = (\<lambda>(l, m). (l\<lparr>lock := 0, owner := - 1\<rparr>, arch_restore_irq m (irq_flags l)))"

definition spin_lock_irqsave :: "nat \<Rightarrow> spinlock \<times> u64 \<Rightarrow> ((spinlock \<times> u64) \<times> u64) option" where
  "spin_lock_irqsave c = (\<lambda>(l, m).
     case arch_save_irq_disable m of (m', saved) \<Rightarrow> map_option (\<lambda>r. (r, saved)) (spin_lock c (l, m')))"

definition spin_unlock_irqrestore :: "spinlock \<times> u64 \<Rightarrow> u64 \<Rightarrow> spinlock \<times> u64" where
  "spin_unlock_irqrestore r saved = (case spin_unlock r of (l, m) \<Rightarrow> (l, arch_restore_irq m saved))"

section \<open>Mutual exclusion\<close>

text \<open>The points between the exclusive store of 1 and the store of 0.\<close>

fun inside :: "spin_pc \<Rightarrow> bool" where
  "inside (Acquired f) = True"
| "inside (Owned f) = True"
| "inside TryAcquired = True"
| "inside (Held g) = True"
| "inside (Releasing f g) = True"
| "inside p = False"

text \<open>The mask to restore is the one saved.\<close>

fun flags_ok :: "u64 \<Rightarrow> spin_pc \<Rightarrow> bool" where
  "flags_ok i (Held (Some g)) \<longleftrightarrow> i = g"
| "flags_ok i (Releasing f (Some g)) \<longleftrightarrow> f = g"
| "flags_ok i (Released f (Some g)) \<longleftrightarrow> f = g"
| "flags_ok i (Restoring f (Some g)) \<longleftrightarrow> f = g"
| "flags_ok i p \<longleftrightarrow> True"

definition spin_inv :: "spin_sys \<Rightarrow> bool" where
  "spin_inv s \<longleftrightarrow> (\<forall>c. inside (at s c) \<longrightarrow> lock (sl s) = 1 \<and> (\<forall>d. inside (at s d) \<longrightarrow> d = c))
     \<and> (\<forall>c. flags_ok (irq_flags (sl s)) (at s c))"

lemma flags_ok_outside: "\<not> inside p \<Longrightarrow> flags_ok i p = flags_ok j p"
  by (induction i p rule: flags_ok.induct) simp_all

lemma spin_inv_move:
  assumes "spin_inv s" and "inside p \<longrightarrow> inside (at s c)" and "flags_ok (irq_flags (sl s)) p" and "at s' = (at s)(c := p)"
    and "lock (sl s') = lock (sl s)" and "irq_flags (sl s') = irq_flags (sl s)"
  shows "spin_inv s'"
  using assms by (auto simp: spin_inv_def)

lemma spin_inv_acquire:
  assumes "spin_inv s" and "lock (sl s) = 0" and "flags_ok (irq_flags (sl s)) p" and "at s' = (at s)(c := p)"
    and "lock (sl s') = 1" and "irq_flags (sl s') = irq_flags (sl s)"
  shows "spin_inv s'"
  using assms by (auto simp: spin_inv_def)

lemma spin_reach_inv: "spin_reach s \<Longrightarrow> spin_inv s"
proof (induction rule: spin_reach.induct)
  case (boot masks)
  then show ?case by (simp add: spin_boot_def spin_inv_def)
next
  case (lock_step s c s')
  show ?case
  proof (cases "at s c")
    case Outside
    with lock_step show ?thesis
      using spin_inv_move [of s "Trying (daif s c)" c s'] by (auto simp: spin_lock_step_def goto_def arch_save_irq_disable_def)
  next
    case (Trying f)
    show ?thesis
    proof (cases "lock (sl s) = 0")
      case True
      with lock_step Trying show ?thesis
        using spin_inv_acquire [of s "Acquired f" s' c] by (auto simp: spin_lock_step_def goto_def)
    next
      case False
      with lock_step Trying show ?thesis by (auto simp: spin_lock_step_def)
    qed
  next
    case (Acquired f)
    with lock_step show ?thesis
      using spin_inv_move [of s "Owned f" c s'] by (auto simp: spin_lock_step_def goto_def)
  next
    case (Owned f)
    have "flags_ok f (at s d)" if "d \<noteq> c" for d
    proof -
      have "\<not> inside (at s d)" using that lock_step.IH Owned by (auto simp: spin_inv_def)
      then show ?thesis using flags_ok_outside lock_step.IH unfolding spin_inv_def by metis
    qed
    moreover have "s' = goto (s\<lparr>sl := (sl s)\<lparr>irq_flags := f\<rparr>\<rparr>) c (Held (Some f))"
      using lock_step.hyps Owned by (simp add: spin_lock_step_def)
    moreover have "lock (sl s) = 1" "\<And>d. inside (at s d) \<Longrightarrow> d = c"
      using lock_step.IH Owned unfolding spin_inv_def by (metis inside.simps(2))+
    ultimately show ?thesis by (auto simp: spin_inv_def goto_def)
  qed (use lock_step in \<open>simp_all add: spin_lock_step_def\<close>)
next
  case (unlock_step s c s')
  have fl: "flags_ok (irq_flags (sl s)) (at s c)" using unlock_step.IH by (simp add: spin_inv_def)
  show ?case
  proof (cases "at s c")
    case (Held g)
    with fl have "flags_ok (irq_flags (sl s)) (Releasing (irq_flags (sl s)) g)" by (cases g) auto
    with unlock_step Held show ?thesis
      using spin_inv_move [of s "Releasing (irq_flags (sl s)) g" c s'] by (auto simp: spin_unlock_step_def goto_def)
  next
    case (Releasing f g)
    with fl have "flags_ok (irq_flags (sl s)) (Released f g)" by (cases g) auto
    moreover have "\<not> inside (at s d)" if "d \<noteq> c" for d
      using that unlock_step.IH Releasing unfolding spin_inv_def by (metis inside.simps(5))
    moreover have "s' = goto (s\<lparr>sl := (sl s)\<lparr>lock := 0\<rparr>\<rparr>) c (Released f g)"
      using unlock_step.hyps Releasing by (simp add: spin_unlock_step_def)
    ultimately show ?thesis using unlock_step.IH by (auto simp: goto_def spin_inv_def split: if_splits)
  next
    case (Released f g)
    with fl have "flags_ok (irq_flags (sl s)) (Restoring f g)" by (cases g) auto
    with unlock_step Released show ?thesis
      using spin_inv_move [of s "Restoring f g" c s'] by (auto simp: spin_unlock_step_def goto_def)
  next
    case (Restoring f g)
    with unlock_step show ?thesis
      using spin_inv_move [of s Outside c s'] by (auto simp: spin_unlock_step_def goto_def)
  qed (use unlock_step in \<open>simp_all add: spin_unlock_step_def\<close>)
next
  case (trylock_step s c s')
  show ?case
  proof (cases "at s c")
    case Outside
    show ?thesis
    proof (cases "lock (sl s) = 0")
      case True
      with trylock_step Outside show ?thesis
        using spin_inv_acquire [of s TryAcquired s' c] by (auto simp: spin_trylock_step_def goto_def)
    next
      case False
      with trylock_step Outside show ?thesis by (auto simp: spin_trylock_step_def)
    qed
  next
    case TryAcquired
    with trylock_step show ?thesis
      using spin_inv_move [of s "Held None" c s'] by (auto simp: spin_trylock_step_def goto_def)
  qed (use trylock_step in \<open>simp_all add: spin_trylock_step_def\<close>)
qed

text \<open>
  C6: With any number of CPUs and any interleaving, at most one CPU is between the acquisition and
  the release of a spinlock, and a CPU that acquired it with \<open>spin_lock\<close> restores exactly the
  interrupt mask it had saved.
\<close>

theorem spin_mutual_exclusion:
  assumes "spin_reach s"
  shows "(\<forall>c d. inside (at s c) \<and> inside (at s d) \<longrightarrow> c = d)
    \<and> (\<forall>c f g. at s c = Restoring f (Some g) \<longrightarrow> f = g)"
proof -
  note inv = spin_reach_inv [OF assms, unfolded spin_inv_def]
  have "f = g" if "at s c = Restoring f (Some g)" for c f g
    using conjunct2 [OF inv, rule_format, of c] that by simp
  with inv show ?thesis by blast
qed

theorem spin_mutual_exclusion_witness:
  "\<exists>s. spin_lock_step 0 (spin_boot (\<lambda>_. 0)) = Some s \<and> at s 0 = Trying 0 \<and> \<not> (inside (at s 0) \<and> inside (at s 1))"
proof -
  let ?s = "goto ((spin_boot (\<lambda>_. 0))\<lparr>daif := (\<lambda>_. 0)(0 := 0x3C0)\<rparr>) 0 (Trying 0)"
  have e: "spin_lock_step 0 (spin_boot (\<lambda>_. 0)) = Some ?s"
    by (simp add: spin_lock_step_def spin_boot_def arch_save_irq_disable_def)
  from spin_mutual_exclusion [OF spin_reach.lock_step [OF spin_reach.boot e]]
  have "\<not> (inside (at ?s 0) \<and> inside (at ?s 1))" by (metis zero_neq_one)
  with e show ?thesis by (intro exI [of _ ?s]) (simp add: goto_def)
qed

text \<open>A run of steps, for concrete traces.\<close>

fun spin_run :: "((nat \<Rightarrow> spin_sys \<Rightarrow> spin_sys option) \<times> nat) list \<Rightarrow> spin_sys \<Rightarrow> spin_sys option" where
  "spin_run [] s = Some s"
| "spin_run ((f, c) # fs) s = (case f c s of None \<Rightarrow> None | Some s' \<Rightarrow> spin_run fs s')"

lemma spin_run_reach:
  assumes "spin_reach s" and "spin_run fs s = Some s'"
    and "set (map fst fs) \<subseteq> {spin_lock_step, spin_unlock_step, spin_trylock_step}"
  shows "spin_reach s'"
  using assms
proof (induction fs s rule: spin_run.induct)
  case (2 f c fs s)
  from 2(3) obtain t where t: "f c s = Some t" "spin_run fs t = Some s'" by (auto split: option.splits)
  from 2(4) consider "f = spin_lock_step" | "f = spin_unlock_step" | "f = spin_trylock_step" by auto
  then have "spin_reach t"
    using t(1) spin_reach.lock_step [OF 2(2)] spin_reach.unlock_step [OF 2(2)] spin_reach.trylock_step [OF 2(2)]
    by cases simp_all
  with 2(1) [OF t(1)] t(2) 2(4) show ?case by simp
qed simp

definition release_race :: "((nat \<Rightarrow> spin_sys \<Rightarrow> spin_sys option) \<times> nat) list" where
  "release_race = [(spin_lock_step, 0), (spin_lock_step, 0), (spin_lock_step, 0), (spin_lock_step, 0),
     (spin_unlock_step, 0), (spin_unlock_step, 0),
     (spin_lock_step, 1), (spin_lock_step, 1), (spin_lock_step, 1), (spin_lock_step, 1), (spin_unlock_step, 0)]"

definition stale_mask :: "((nat \<Rightarrow> spin_sys \<Rightarrow> spin_sys option) \<times> nat) list" where
  "stale_mask = [(spin_lock_step, 0), (spin_lock_step, 0), (spin_lock_step, 0), (spin_lock_step, 0),
     (spin_unlock_step, 0), (spin_unlock_step, 0), (spin_unlock_step, 0), (spin_unlock_step, 0),
     (spin_trylock_step, 1), (spin_trylock_step, 1), (spin_unlock_step, 1), (spin_unlock_step, 1), (spin_unlock_step, 1), (spin_unlock_step, 1)]"

text \<open>
  The owner field is written after the release, so that a CPU can hold the lock while the field
  says that nobody does; and \<open>spin_unlock\<close> after \<open>spin_trylock\<close>, which saves no mask, gives the CPU
  the mask that another CPU had saved.
\<close>

theorem spin_owner_and_mask_lost:
  "(\<exists>s. spin_reach s \<and> at s 1 = Held (Some 0) \<and> owner (sl s) = - 1)
    \<and> (\<exists>s. spin_reach s \<and> daif s 1 = 0 \<and> at s 1 = Outside
         \<and> spin_run stale_mask (spin_boot ((\<lambda>_. 0)(1 := 0x3C0))) = Some s)"
proof
  have "map_option (\<lambda>s. (at s 1, owner (sl s))) (spin_run release_race (spin_boot (\<lambda>_. 0))) = Some (Held (Some 0), - 1)"
    by (simp add: release_race_def spin_lock_step_def spin_unlock_step_def spin_boot_def goto_def
        arch_save_irq_disable_def SPINLOCK_INIT_def)
  then have "\<exists>s. spin_run release_race (spin_boot (\<lambda>_. 0)) = Some s \<and> at s 1 = Held (Some 0) \<and> owner (sl s) = - 1"
    by auto
  moreover have "set (map fst release_race) \<subseteq> {spin_lock_step, spin_unlock_step, spin_trylock_step}"
    by (auto simp: release_race_def)
  ultimately show "\<exists>s. spin_reach s \<and> at s 1 = Held (Some 0) \<and> owner (sl s) = - 1"
    using spin_run_reach [OF spin_reach.boot] by blast
  have "map_option (\<lambda>s. (at s 1, daif s 1)) (spin_run stale_mask (spin_boot ((\<lambda>_. 0)(1 := 0x3C0)))) = Some (Outside, 0)"
    by (simp add: stale_mask_def spin_lock_step_def spin_unlock_step_def spin_trylock_step_def spin_boot_def goto_def
        arch_save_irq_disable_def arch_restore_irq_def SPINLOCK_INIT_def)
  then have "\<exists>s. spin_run stale_mask (spin_boot ((\<lambda>_. 0)(1 := 0x3C0))) = Some s \<and> at s 1 = Outside \<and> daif s 1 = 0"
    by auto
  moreover have "set (map fst stale_mask) \<subseteq> {spin_lock_step, spin_unlock_step, spin_trylock_step}"
    by (auto simp: stale_mask_def)
  ultimately show "\<exists>s. spin_reach s \<and> daif s 1 = 0 \<and> at s 1 = Outside
      \<and> spin_run stale_mask (spin_boot ((\<lambda>_. 0)(1 := 0x3C0))) = Some s"
    using spin_run_reach [OF spin_reach.boot] by blast
qed

text \<open>The variants that save the mask in a local variable restore it, and leave the lock free.\<close>

lemma irqsave_roundtrip:
  "spin_lock_irqsave c (l, m) = Some (r, f) \<Longrightarrow> \<exists>l'. spin_unlock_irqrestore r f = (l', m) \<and> lock l' = 0 \<and> owner l' = - 1"
  by (auto simp: spin_lock_irqsave_def spin_lock_def spin_unlock_irqrestore_def spin_unlock_def arch_save_irq_disable_def
      arch_restore_irq_def split: if_splits)

section \<open>Mutexes\<close>

record mutex =
  m_owner :: pptr
  locked :: u32
  m_waiters :: pptr

definition mutex_init :: "mutex \<Rightarrow> mutex" where
  "mutex_init m = m\<lparr>m_owner := 0, locked := 0, m_waiters := 0\<rparr>"

text \<open>\<open>cas32\<close>, as one step.\<close>

definition cas32 :: "u32 \<Rightarrow> u32 \<Rightarrow> u32 \<Rightarrow> u32 \<times> bool" where
  "cas32 v expected desired = (if v = expected then (desired, True) else (v, False))"

text \<open>Joining a list of waiters: the process is marked as sleeping and becomes the head.\<close>

definition join_waiters :: "sched \<Rightarrow> pptr \<Rightarrow> pptr \<Rightarrow> sched" where
  "join_waiters s cur head = upd s cur (\<lambda>p. p\<lparr>state := PROC_SLEEPING, wq_next := head\<rparr>)"

text \<open>The assignments to a process that leaves a list of waiters.\<close>

definition leave_waiters :: "process \<Rightarrow> process" where
  "leave_waiters p = p\<lparr>wq_next := 0, state := PROC_READY\<rparr>"

definition mutex_lock :: "sched \<Rightarrow> nat \<Rightarrow> mutex \<Rightarrow> (sched \<times> mutex) option" where
  "mutex_lock s c m =
     (let cur = scheduler_get_current s c in
      case cas32 (locked m) 0 1 of
        (v, True) \<Rightarrow> Some (s, m\<lparr>locked := v, m_owner := cur\<rparr>)
      | (v, False) \<Rightarrow>
          if cur = 0 then None
          else if m_owner m = cur then Some (s, m)
          else map_option (\<lambda>s'. (s', m\<lparr>m_waiters := cur\<rparr>)) (scheduler_yield (join_waiters s cur (m_waiters m)) c))"

definition mutex_unlock :: "sched \<Rightarrow> nat \<Rightarrow> mutex \<Rightarrow> (sched \<times> mutex) option" where
  "mutex_unlock s c m =
     (let cur = scheduler_get_current s c in
      if m_owner m \<noteq> cur then (if cur = 0 then None else Some (s, m))
      else if m_waiters m \<noteq> 0 then
        map_option (\<lambda>s'. (s', m\<lparr>m_waiters := wq_next (procs s (m_waiters m)), m_owner := m_waiters m\<rparr>))
          (wake leave_waiters s (m_waiters m))
      else Some (s, m\<lparr>m_owner := 0, locked := 0\<rparr>))"

definition mutex_trylock :: "sched \<Rightarrow> nat \<Rightarrow> mutex \<Rightarrow> mutex \<times> bool" where
  "mutex_trylock s c m =
     (case cas32 (locked m) 0 1 of
        (v, True) \<Rightarrow> (m\<lparr>locked := v, m_owner := scheduler_get_current s c\<rparr>, True)
      | (v, False) \<Rightarrow> (m, False))"

section \<open>Semaphores\<close>

record semaphore =
  count :: int
  s_waiters :: pptr

definition sem_init :: "int \<Rightarrow> semaphore" where
  "sem_init initial = \<lparr>count = initial, s_waiters = 0\<rparr>"

text \<open>Decrement and increment of an \<open>int32_t\<close>; the overflow is undefined.\<close>

definition dec32 :: "int \<Rightarrow> int option" where
  "dec32 n = (if n \<le> - (2 ^ 31) then None else Some (n - 1))"

definition inc32 :: "int \<Rightarrow> int option" where
  "inc32 n = (if 2 ^ 31 - 1 \<le> n then None else Some (n + 1))"

definition sem_wait :: "sched \<Rightarrow> nat \<Rightarrow> semaphore \<Rightarrow> (sched \<times> semaphore) option" where
  "sem_wait s c m = do {
     let cur = scheduler_get_current s c;
     n \<leftarrow> dec32 (count m);
     if n < 0 then (if cur = 0 then None else do {
       s' \<leftarrow> scheduler_yield (join_waiters s cur (s_waiters m)) c;
       Some (s', m\<lparr>count := n, s_waiters := cur\<rparr>)
     })
     else Some (s, m\<lparr>count := n\<rparr>)
   }"

definition sem_signal :: "sched \<Rightarrow> semaphore \<Rightarrow> (sched \<times> semaphore) option" where
  "sem_signal s m = do {
     n \<leftarrow> inc32 (count m);
     if n \<le> 0 \<and> s_waiters m \<noteq> 0 then do {
       s' \<leftarrow> wake leave_waiters s (s_waiters m);
       Some (s', m\<lparr>count := n, s_waiters := wq_next (procs s (s_waiters m))\<rparr>)
     }
     else Some (s, m\<lparr>count := n\<rparr>)
   }"

definition sem_trywait :: "semaphore \<Rightarrow> semaphore \<times> bool" where
  "sem_trywait m = (if 0 < count m then (m\<lparr>count := count m - 1\<rparr>, True) else (m, False))"

section \<open>Reader-writer locks and barriers\<close>

record rwlock =
  readers :: u32
  writer :: int

definition rwlock_init :: rwlock where
  "rwlock_init = \<lparr>readers = 0, writer = 0\<rparr>"

text \<open>One round of each loop, under the spinlock; \<open>None\<close> means to yield and try again.\<close>

definition read_attempt :: "rwlock \<Rightarrow> rwlock option" where
  "read_attempt l = (if writer l = 0 then Some (l\<lparr>readers := readers l + 1\<rparr>) else None)"

definition write_attempt :: "rwlock \<Rightarrow> rwlock option" where
  "write_attempt l = (if writer l = 0 \<and> readers l = 0 then Some (l\<lparr>writer := 1\<rparr>) else None)"

text \<open>The loops: \<open>resume\<close> is what the other processes do to the scheduler and the lock until the
  yield returns.\<close>

partial_function (option) lock_loop ::
  "(rwlock \<Rightarrow> rwlock option) \<Rightarrow> (sched \<times> rwlock \<Rightarrow> sched \<times> rwlock) \<Rightarrow> sched \<Rightarrow> nat \<Rightarrow> rwlock \<Rightarrow> (sched \<times> rwlock) option" where
  "lock_loop attempt resume s c l =
     (case attempt l of Some l' \<Rightarrow> Some (s, l')
      | None \<Rightarrow> (case scheduler_yield s c of None \<Rightarrow> None
          | Some s1 \<Rightarrow> lock_loop attempt resume (fst (resume (s1, l))) c (snd (resume (s1, l)))))"

definition rwlock_read_lock :: "(sched \<times> rwlock \<Rightarrow> sched \<times> rwlock) \<Rightarrow> sched \<Rightarrow> nat \<Rightarrow> rwlock \<Rightarrow> (sched \<times> rwlock) option" where
  "rwlock_read_lock = lock_loop read_attempt"

definition rwlock_write_lock :: "(sched \<times> rwlock \<Rightarrow> sched \<times> rwlock) \<Rightarrow> sched \<Rightarrow> nat \<Rightarrow> rwlock \<Rightarrow> (sched \<times> rwlock) option" where
  "rwlock_write_lock = lock_loop write_attempt"

definition rwlock_read_unlock :: "rwlock \<Rightarrow> rwlock" where
  "rwlock_read_unlock l = (if 0 < readers l then l\<lparr>readers := readers l - 1\<rparr> else l)"

definition rwlock_write_unlock :: "rwlock \<Rightarrow> rwlock" where
  "rwlock_write_unlock l = l\<lparr>writer := 0\<rparr>"

record barrier =
  target :: u32
  arrived :: u32
  cycle :: u32
  b_waiters :: pptr

definition barrier_init :: "barrier \<Rightarrow> u32 \<Rightarrow> barrier" where
  "barrier_init b n = (if n = 0 then b else \<lparr>target = n, arrived = 0, cycle = 0, b_waiters = 0\<rparr>)"

definition barrier_wait :: "sched \<Rightarrow> nat \<Rightarrow> barrier \<Rightarrow> (sched \<times> barrier) option" where
  "barrier_wait s c b =
     (let cur = scheduler_get_current s c; n = arrived b + 1 in
      if target b \<le> n then
        map_option (\<lambda>s'. (s', b\<lparr>arrived := 0, cycle := cycle b + 1, b_waiters := 0\<rparr>)) (wake_all leave_waiters s (b_waiters b))
      else if cur = 0 then None
      else map_option (\<lambda>s'. (s', b\<lparr>arrived := n, b_waiters := cur\<rparr>)) (scheduler_yield (join_waiters s cur (b_waiters b)) c))"

section \<open>Waiting and waking\<close>

lemma leave_post: "wake_post leave_waiters (\<lambda>p. state p = PROC_READY \<and> wq_next p = 0)"
  by (simp add: wake_post_def leave_waiters_def)

lemma add_own: "scheduler_add_process s p = Some s' \<Longrightarrow> own_fields (procs s' x) = own_fields (procs s x)"
  by (auto simp: scheduler_add_process_def Let_def own_upd bind_eq_Some_conv split: if_splits dest!: enqueue_own [of _ _ _ x])

lemma add_total:
  assumes "runnable (procs s p)" and "runqueues s \<noteq> []"
  shows "\<exists>s'. scheduler_add_process s p = Some s'"
proof (cases "p = 0")
  case True
  then show ?thesis by (simp add: scheduler_add_process_def)
next
  case False
  let ?c = "least_loaded (runqueues s) 0 0 0xFFFFFFFF"
  have c: "?c < length (runqueues s)"
    using least_loaded_bound [where rqs = "runqueues s" and i = 0 and t = 0 and m = "0xFFFFFFFF"] assms(2) by auto
  obtain q where q: "priority (procs s p) = int q" "q < SCHED_QUEUES"
    using assms(1) unfolding runnable_def by (metis zero_le_imp_eq_int of_nat_less_iff)
  obtain k where "time_quantum (int q) = Some k" using time_quantum_level [OF q(2)] by blast
  with False q c show ?thesis
    by (simp add: scheduler_add_process_def Let_def enqueue_process_def rq_at_def upd_def)
qed

text \<open>The list of waiters after its head has been woken, and after the caller has joined it.\<close>

lemma wake_head_list:
  assumes "wlink (procs s) a (x # xs)" and "wake leave_waiters s a = Some s'"
  shows "wlink (procs s') (wq_next (procs s a)) xs"
proof -
  have x: "a = x" "wlink (procs s) (wq_next (procs s a)) xs" "x \<notin> set xs"
    using assms(1) linked_distinct [OF assms(1)] by auto
  have "wq_next (procs s' y) = wq_next (procs s y)" if "y \<in> set xs" for y
    using that x own_fieldsD(6) [OF add_own [OF assms(2) [unfolded wake_def], of y]] by (auto simp: upd_def)
  then show ?thesis using x(2) wlink_cong [of xs "procs s'" "procs s"] by blast
qed

lemma join_list:
  assumes "wlink (procs s) a xs" and "cur \<noteq> 0" and "cur \<notin> set xs" and "scheduler_yield (join_waiters s cur a) c = Some s'"
  shows "wlink (procs s') cur (cur # xs)"
proof -
  have same: "wq_next (procs s' y) = (if y = cur then a else wq_next (procs s y))" for y
    using own_fieldsD(6) [OF yield_own [OF assms(4), of y]] by (simp add: join_waiters_def upd_def)
  have "wq_next (procs s' y) = wq_next (procs s y)" if "y \<in> set xs" for y using that assms(3) same by auto
  then have "wlink (procs s') a xs" using assms(1) wlink_cong [of xs "procs s'" "procs s" a] by blast
  with same assms(2) show ?thesis by simp
qed

text \<open>A yield of the running process of a CPU, after it has joined a list of waiters.\<close>

definition running :: "sched \<Rightarrow> (nat \<Rightarrow> nat \<Rightarrow> pptr list) \<Rightarrow> nat \<Rightarrow> pptr \<Rightarrow> bool" where
  "running s L c cur \<longleftrightarrow> sched_ok s L \<and> c < length (runqueues s) \<and> current (runqueues s ! c) = cur \<and> cur \<noteq> 0
     \<and> cur \<notin> queued L \<and> cpu (procs s cur) = c \<and> runnable (procs s cur)"

lemma running_current: "running s L c cur \<Longrightarrow> scheduler_get_current s c = cur"
  by (simp add: running_def scheduler_get_current_def)

lemma join_yield:
  assumes "running s L c cur"
  shows "\<exists>s' L'. scheduler_yield (join_waiters s cur a) c = Some s' \<and> sched_ok s' L' \<and> state (procs s' cur) = PROC_READY
    \<and> (cur \<in> queued L' \<or> current (runqueues s' ! c) = cur)"
proof -
  let ?s = "join_waiters s cur a"
  have r: "sched_ok s L" "c < length (runqueues s)" "current (runqueues s ! c) = cur" "cur \<noteq> 0" "cur \<notin> queued L"
    "cpu (procs s cur) = c" "runnable (procs s cur)" using assms by (simp_all add: running_def)
  obtain q where q: "priority (procs s cur) = int q" "q < SCHED_QUEUES"
    using r(7) unfolding runnable_def by (metis zero_le_imp_eq_int of_nat_less_iff)
  have "sched_ok ?s L" unfolding join_waiters_def by (rule sched_ok_upd_unqueued [OF r(1,5)])
  moreover have "runqueues ?s = runqueues s" "cpu (procs ?s cur) = c" "priority (procs ?s cur) = int q"
    using r(6) q(1) by (simp_all add: join_waiters_def upd_def)
  ultimately show ?thesis using yield_keeps_caller [of ?s L c cur q] r q(2) by simp
qed

section \<open>Mutexes\<close>

lemma mutex_unlock_ok:
  assumes "running s L c cur" and "wlink (procs s) (m_waiters m) xs" and "set xs \<inter> queued L = {}"
    and "\<forall>x \<in> set xs. runnable (procs s x)"
  shows "\<exists>s' m' L'. mutex_unlock s c m = Some (s', m') \<and> sched_ok s' L' \<and>
      (if m_owner m \<noteq> cur then s' = s \<and> m' = m
       else if xs = [] then s' = s \<and> m_owner m' = 0 \<and> locked m' = 0
       else m_owner m' = hd xs \<and> locked m' = locked m \<and> wlink (procs s') (m_waiters m') (tl xs)
         \<and> state (procs s' (hd xs)) = PROC_READY \<and> queued L' = insert (hd xs) (queued L))"
    and "locked m = 0 \<Longrightarrow> mutex_lock s c m = Some (s, m\<lparr>locked := 1, m_owner := cur\<rparr>)"
proof -
  have r: "sched_ok s L" "cur \<noteq> 0" "runqueues s \<noteq> []" using assms(1) by (auto simp: running_def)
  note cur = running_current [OF assms(1)]
  show "locked m = 0 \<Longrightarrow> mutex_lock s c m = Some (s, m\<lparr>locked := 1, m_owner := cur\<rparr>)"
    by (simp add: mutex_lock_def cas32_def cur Let_def)
  show "\<exists>s' m' L'. mutex_unlock s c m = Some (s', m') \<and> sched_ok s' L' \<and>
      (if m_owner m \<noteq> cur then s' = s \<and> m' = m
       else if xs = [] then s' = s \<and> m_owner m' = 0 \<and> locked m' = 0
       else m_owner m' = hd xs \<and> locked m' = locked m \<and> wlink (procs s') (m_waiters m') (tl xs)
         \<and> state (procs s' (hd xs)) = PROC_READY \<and> queued L' = insert (hd xs) (queued L))"
  proof (cases xs)
    case Nil
    with assms(2) r cur show ?thesis by (auto simp: mutex_unlock_def Let_def)
  next
    case (Cons x ys)
    have x: "m_waiters m = x" "x \<noteq> 0" "x \<notin> queued L" "runnable (procs s x)" using assms(2,3,4) Cons by auto
    obtain s' L' where s': "wake leave_waiters s x = Some s'" "sched_ok s' L'" "queued L' = insert x (queued L)"
      "state (procs s' x) = PROC_READY" using wake_ok [OF leave_post r(1) x(2,3,4) r(3)] by blast
    have "wlink (procs s') (wq_next (procs s x)) ys"
      using wake_head_list [of s x x ys s'] assms(2) Cons x(1) s'(1) by simp
    with Cons x r cur s' show ?thesis by (cases "m_owner m = cur") (auto simp: mutex_unlock_def Let_def)
  qed
qed

text \<open>
  A mutex is free or has an owner: the owner's \<open>mutex_unlock\<close> frees it when nobody waits, and
  otherwise hands it, still locked, to the head of the list of waiters, which becomes ready and
  queued; anybody else's \<open>mutex_unlock\<close> changes nothing, and a free mutex goes to the caller.
\<close>

theorem mutex_handoff:
  assumes "running s L c cur" and "wlink (procs s) (m_waiters m) xs" and "set xs \<inter> queued L = {}"
    and "\<forall>x \<in> set xs. runnable (procs s x)"
  shows "(\<exists>s' m' L'. mutex_unlock s c m = Some (s', m') \<and> sched_ok s' L' \<and>
      (if m_owner m \<noteq> cur then s' = s \<and> m' = m
       else if xs = [] then s' = s \<and> m_owner m' = 0 \<and> locked m' = 0
       else m_owner m' = hd xs \<and> locked m' = locked m \<and> wlink (procs s') (m_waiters m') (tl xs)
         \<and> state (procs s' (hd xs)) = PROC_READY \<and> queued L' = insert (hd xs) (queued L)))
    \<and> (locked m = 0 \<longrightarrow> mutex_lock s c m = Some (s, m\<lparr>locked := 1, m_owner := cur\<rparr>))"
  using mutex_unlock_ok [OF assms] by blast

theorem mutex_handoff_witness:
  "\<exists>s c m cur s' m'. m_owner m = cur \<and> mutex_unlock s c m = Some (s', m') \<and> m_owner m' = 0 \<and> locked m' = 0"
proof -
  let ?m = "\<lparr>m_owner = 4, locked = 1, m_waiters = 0\<rparr>"
  have "running demo_sched demo_queues 0 4"
    using demo_sched_ok demo_facts by (simp add: running_def runnable_def SCHED_QUEUES_def)
  from mutex_handoff [OF this, of ?m "[]"] obtain m' where
    "mutex_unlock demo_sched 0 ?m = Some (demo_sched, m')" "m_owner m' = 0" "locked m' = 0" by auto
  then show ?thesis by (metis mutex.select_convs(1))
qed

text \<open>
  A contended \<open>mutex_lock\<close> does not wait: the caller is put on the list of waiters, but the
  yield that follows leaves it ready and queued or still running, so that it returns from
  \<open>mutex_lock\<close> while another process owns the mutex.
\<close>

theorem mutex_lock_does_not_wait:
  assumes "running s L c cur" and "locked m \<noteq> 0" and "m_owner m \<noteq> cur"
  shows "\<exists>s' m' L'. mutex_lock s c m = Some (s', m') \<and> sched_ok s' L' \<and> m_owner m' = m_owner m \<and> m_waiters m' = cur
    \<and> state (procs s' cur) = PROC_READY \<and> (cur \<in> queued L' \<or> current (runqueues s' ! c) = cur)"
proof -
  obtain s' L' where s': "scheduler_yield (join_waiters s cur (m_waiters m)) c = Some s'" "sched_ok s' L'"
    "state (procs s' cur) = PROC_READY" "cur \<in> queued L' \<or> current (runqueues s' ! c) = cur"
    using join_yield [OF assms(1)] by blast
  have "cur \<noteq> 0" using assms(1) by (simp add: running_def)
  then have "mutex_lock s c m = Some (s', m\<lparr>m_waiters := cur\<rparr>)"
    using s'(1) assms(2,3) by (simp add: mutex_lock_def cas32_def Let_def running_current [OF assms(1)])
  with s' show ?thesis by (intro exI [of _ s'] exI [of _ "m\<lparr>m_waiters := cur\<rparr>"] exI [of _ L']) simp
qed

theorem mutex_lock_does_not_wait_witness:
  "\<exists>s' m'. mutex_lock demo_sched 0 \<lparr>m_owner = 3, locked = 1, m_waiters = 0\<rparr> = Some (s', m') \<and> m_owner m' = 3
    \<and> state (procs s' 4) = PROC_READY"
proof -
  have "running demo_sched demo_queues 0 4"
    using demo_sched_ok demo_facts by (simp add: running_def runnable_def SCHED_QUEUES_def)
  from mutex_lock_does_not_wait [OF this, of "\<lparr>m_owner = 3, locked = 1, m_waiters = 0\<rparr>"] show ?thesis by auto
qed

section \<open>Semaphores\<close>

text \<open>A negative count is the number of waiters.\<close>

definition sem_inv :: "sched \<Rightarrow> semaphore \<Rightarrow> pptr list \<Rightarrow> bool" where
  "sem_inv s m xs \<longleftrightarrow> wlink (procs s) (s_waiters m) xs \<and> int (length xs) = (if count m < 0 then - count m else 0)"

lemma sem_ops_ok:
  assumes "sem_inv s m xs" and "\<bar>count m\<bar> < 2 ^ 31 - 1"
  shows "running s L c cur \<Longrightarrow> cur \<notin> set xs \<Longrightarrow> \<exists>s' m'. sem_wait s c m = Some (s', m') \<and> count m' = count m - 1
      \<and> sem_inv s' m' (if count m \<le> 0 then cur # xs else [])"
    and "runqueues s \<noteq> [] \<Longrightarrow> (\<forall>x \<in> set xs. runnable (procs s x)) \<Longrightarrow> \<exists>s' m'. sem_signal s m = Some (s', m')
      \<and> count m' = count m + 1 \<and> sem_inv s' m' (tl xs) \<and> (xs = [] \<or> state (procs s' (hd xs)) = PROC_READY)"
    and "sem_inv s (fst (sem_trywait m)) xs \<and> snd (sem_trywait m) = (0 < count m)"
proof -
  note I = assms(1) [unfolded sem_inv_def]
  show "sem_inv s (fst (sem_trywait m)) xs \<and> snd (sem_trywait m) = (0 < count m)"
    using I by (auto simp: sem_inv_def sem_trywait_def)
  have d: "dec32 (count m) = Some (count m - 1)" "inc32 (count m) = Some (count m + 1)"
    using assms(2) by (auto simp: dec32_def inc32_def)
  show "\<exists>s' m'. sem_wait s c m = Some (s', m') \<and> count m' = count m - 1 \<and> sem_inv s' m' (if count m \<le> 0 then cur # xs else [])"
    if run: "running s L c cur" and new: "cur \<notin> set xs"
  proof (cases "count m \<le> 0")
    case False
    with d(1) I show ?thesis by (auto simp: sem_wait_def sem_inv_def)
  next
    case True
    obtain s' where s': "scheduler_yield (join_waiters s cur (s_waiters m)) c = Some s'" using join_yield [OF run] by blast
    have cur: "cur \<noteq> 0" using run by (simp add: running_def)
    have "wlink (procs s') cur (cur # xs)" using join_list [OF _ cur new s'] I by blast
    moreover have "int (length (cur # xs)) = - (count m - 1)" using I True by (simp split: if_splits)
    ultimately have "sem_inv s' (m\<lparr>count := count m - 1, s_waiters := cur\<rparr>) (cur # xs)"
      using True by (simp add: sem_inv_def)
    with d(1) s' True cur show ?thesis by (simp add: sem_wait_def running_current [OF run] Let_def)
  qed
  show "\<exists>s' m'. sem_signal s m = Some (s', m') \<and> count m' = count m + 1 \<and> sem_inv s' m' (tl xs)
      \<and> (xs = [] \<or> state (procs s' (hd xs)) = PROC_READY)"
    if rq: "runqueues s \<noteq> []" and ok: "\<forall>x \<in> set xs. runnable (procs s x)"
  proof (cases xs)
    case Nil
    with d(2) I show ?thesis by (auto simp: sem_signal_def sem_inv_def split: if_splits)
  next
    case (Cons x ys)
    have x: "s_waiters m = x" "x \<noteq> 0" "count m < 0" using I Cons by (auto split: if_splits)
    have "runnable (procs (upd s x leave_waiters) x)" "runqueues (upd s x leave_waiters) \<noteq> []"
      using ok rq Cons by (simp_all add: upd_def leave_waiters_def runnable_def)
    then obtain s' where s': "wake leave_waiters s x = Some s'" unfolding wake_def using add_total by blast
    have "wlink (procs s') (wq_next (procs s x)) ys" using wake_head_list [of s x x ys s'] I Cons x(1) s' by simp
    moreover have "1 + int (length ys) = - count m" using I Cons x(3) by simp
    then have "int (length ys) = (if count m + 1 < 0 then - (count m + 1) else 0)" by presburger
    ultimately have "sem_inv s' (m\<lparr>count := count m + 1, s_waiters := wq_next (procs s x)\<rparr>) ys"
      by (simp add: sem_inv_def)
    moreover have "state (procs s' x) = PROC_READY"
      using s' x(2) by (auto simp: wake_def scheduler_add_process_def Let_def bind_eq_Some_conv enqueue_process_def upd_def
          rq_set_def split: if_splits)
    ultimately show ?thesis using d(2) s' x Cons by (simp add: sem_signal_def)
  qed
qed

text \<open>
  The count of a semaphore, when negative, is the number of processes on its list of waiters, and
  no waiter is left while the count is not negative: \<open>sem_wait\<close> adds the caller exactly when no unit
  is left, \<open>sem_signal\<close> removes and wakes one exactly when some wait, \<open>sem_trywait\<close> takes a unit only
  if there is one.
\<close>

theorem sem_balance:
  assumes "sem_inv s m xs" and "\<bar>count m\<bar> < 2 ^ 31 - 1" and "running s L c cur" and "cur \<notin> set xs"
    and "\<forall>x \<in> set xs. runnable (procs s x)"
  shows "(\<exists>s' m'. sem_wait s c m = Some (s', m') \<and> count m' = count m - 1
      \<and> sem_inv s' m' (if count m \<le> 0 then cur # xs else []))
    \<and> (\<exists>s' m'. sem_signal s m = Some (s', m') \<and> count m' = count m + 1 \<and> sem_inv s' m' (tl xs)
      \<and> (xs = [] \<or> state (procs s' (hd xs)) = PROC_READY))
    \<and> sem_inv s (fst (sem_trywait m)) xs \<and> snd (sem_trywait m) = (0 < count m)"
proof -
  have "runqueues s \<noteq> []" using assms(3) by (auto simp: running_def)
  then show ?thesis using sem_ops_ok [OF assms(1,2)] assms(3-5) by blast
qed

theorem sem_balance_witness:
  "\<exists>s' m'. sem_wait demo_sched 0 (sem_init 0) = Some (s', m') \<and> count m' = - 1 \<and> sem_inv s' m' [4]"
proof -
  have "running demo_sched demo_queues 0 4"
    using demo_sched_ok demo_facts by (simp add: running_def runnable_def SCHED_QUEUES_def)
  moreover have "sem_inv demo_sched (sem_init 0) []" "\<bar>count (sem_init 0)\<bar> < 2 ^ 31 - 1"
    by (simp_all add: sem_inv_def sem_init_def)
  ultimately show ?thesis using sem_balance [of demo_sched "sem_init 0" "[]" demo_queues 0 4] by (auto simp: sem_init_def)
qed

section \<open>Reader-writer locks\<close>

text \<open>The histories of one lock: \<open>R\<close> and \<open>W\<close> are the processes that hold it for reading and for
  writing; only a holder unlocks.\<close>

inductive rw_reach :: "rwlock \<Rightarrow> nat set \<Rightarrow> nat set \<Rightarrow> bool" where
  init: "rw_reach rwlock_init {} {}"
| reading: "rw_reach l R W \<Longrightarrow> p < 1024 \<Longrightarrow> p \<notin> R \<Longrightarrow> read_attempt l = Some l' \<Longrightarrow> rw_reach l' (insert p R) W"
| writing: "rw_reach l R W \<Longrightarrow> p < 1024 \<Longrightarrow> write_attempt l = Some l' \<Longrightarrow> rw_reach l' R (insert p W)"
| read_unlock: "rw_reach l R W \<Longrightarrow> p \<in> R \<Longrightarrow> rw_reach (rwlock_read_unlock l) (R - {p}) W"
| write_unlock: "rw_reach l R W \<Longrightarrow> p \<in> W \<Longrightarrow> rw_reach (rwlock_write_unlock l) R (W - {p})"

definition rw_inv :: "rwlock \<Rightarrow> nat set \<Rightarrow> nat set \<Rightarrow> bool" where
  "rw_inv l R W \<longleftrightarrow> R \<subseteq> {..<1024} \<and> unat (readers l) = card R \<and> (if W = {} then writer l = 0 else writer l = 1)
     \<and> (W = {} \<or> R = {} \<and> (\<exists>w. W = {w}))"

lemma rw_inv_card:
  assumes "rw_inv l R W"
  shows "finite R" "card R \<le> 1024"
proof -
  have R: "R \<subseteq> {..<1024}" using assms by (simp add: rw_inv_def)
  then show "finite R" using finite_subset by blast
  show "card R \<le> 1024" using card_mono [OF _ R] by simp
qed

lemma rw_reach_inv: "rw_reach l R W \<Longrightarrow> rw_inv l R W"
proof (induction rule: rw_reach.induct)
  case init
  then show ?case by (simp add: rw_inv_def rwlock_init_def)
next
  case (reading l R W p l')
  note c = rw_inv_card [OF reading.IH]
  have "unat (readers l + 1) = card R + 1"
    using reading.IH c(2) by (subst unat_add_small) (simp_all add: rw_inv_def)
  with reading c(1) show ?case by (auto simp: rw_inv_def read_attempt_def split: if_splits)
next
  case (writing l R W p l')
  note c = rw_inv_card [OF writing.IH]
  have "writer l = 0" "readers l = 0" "l' = l\<lparr>writer := 1\<rparr>" using writing.hyps by (auto simp: write_attempt_def split: if_splits)
  moreover from this have "card R = 0" "W = {}" using writing.IH by (auto simp: rw_inv_def split: if_splits)
  ultimately show ?case using writing.IH c(1) by (simp add: rw_inv_def)
next
  case (read_unlock l R W p)
  note c = rw_inv_card [OF read_unlock.IH]
  have pos: "0 < card R" using read_unlock.hyps(2) c(1) by (auto simp: card_gt_0_iff)
  then have "0 < readers l" using read_unlock.IH by (simp add: rw_inv_def word_less_nat_alt)
  moreover have "unat (readers l - 1) = card (R - {p})"
    using read_unlock.IH read_unlock.hyps(2) pos c(1) by (subst unat_dec) (simp_all add: rw_inv_def)
  ultimately show ?case using read_unlock.IH by (auto simp: rw_inv_def rwlock_read_unlock_def)
next
  case (write_unlock l R W p)
  then show ?case by (auto simp: rw_inv_def rwlock_write_unlock_def)
qed

text \<open>
  C24: in every history of locking and unlocking from a fresh lock by up to 1024 processes that only
  unlock what they hold, a writer excludes all readers and every other writer, and the counter is the
  number of readers.  A round of the read loop succeeds exactly when nobody writes, a round of the
  write loop exactly when nobody holds the lock; then both loops return in their first round.
\<close>

theorem rwlock_exclusion:
  assumes "rw_reach l R W"
  shows "(W = {} \<or> R = {} \<and> (\<exists>w. W = {w})) \<and> unat (readers l) = card R
    \<and> (read_attempt l \<noteq> None \<longleftrightarrow> W = {}) \<and> (write_attempt l \<noteq> None \<longleftrightarrow> W = {} \<and> R = {})
    \<and> (R = {} \<and> W = {} \<longrightarrow> rwlock_read_lock resume s c l = Some (s, l\<lparr>readers := 1\<rparr>)
         \<and> rwlock_write_lock resume s c l = Some (s, l\<lparr>writer := 1\<rparr>))"
proof -
  note inv = rw_reach_inv [OF assms]
  have "rwlock_read_lock resume s c l = Some (s, l\<lparr>readers := 1\<rparr>) \<and> rwlock_write_lock resume s c l = Some (s, l\<lparr>writer := 1\<rparr>)"
    if "R = {}" "W = {}"
  proof -
    have "readers l = 0" "writer l = 0" using inv that by (simp_all add: rw_inv_def unat_eq_0)
    then show ?thesis
      by (simp add: rwlock_read_lock_def rwlock_write_lock_def lock_loop.simps read_attempt_def write_attempt_def)
  qed
  moreover have "readers l = 0 \<longleftrightarrow> R = {}"
    using inv rw_inv_card(1) [OF inv] by (simp add: rw_inv_def flip: unat_eq_0)
  ultimately show ?thesis using inv by (auto simp: rw_inv_def read_attempt_def write_attempt_def)
qed

theorem rwlock_exclusion_witness:
  "\<exists>l. rw_reach l {3} {} \<and> unat (readers l) = 1 \<and> write_attempt l = None"
proof -
  have r: "rw_reach (rwlock_init\<lparr>readers := 1\<rparr>) {3} {}"
    using rw_reach.reading [OF rw_reach.init, of 3 "rwlock_init\<lparr>readers := 1\<rparr>"] by (simp add: read_attempt_def rwlock_init_def)
  with rwlock_exclusion [OF r] show ?thesis by (intro exI conjI) auto
qed

section \<open>Barriers\<close>

text \<open>
  The last process to arrive at a barrier makes every process on its list of waiters ready and
  queued, empties the list and starts a new cycle; the others join the list.
\<close>

theorem barrier_releases:
  assumes "running s L c cur" and "wlink (procs s) (b_waiters b) xs" and "set xs \<inter> queued L = {}" and "cur \<notin> set xs"
    and "\<forall>x \<in> set xs. runnable (procs s x)"
  shows "\<exists>s' b' L'. barrier_wait s c b = Some (s', b') \<and> sched_ok s' L' \<and>
    (if target b \<le> arrived b + 1
     then arrived b' = 0 \<and> cycle b' = cycle b + 1 \<and> b_waiters b' = 0 \<and> queued L' = queued L \<union> set xs
       \<and> (\<forall>x \<in> set xs. state (procs s' x) = PROC_READY)
     else arrived b' = arrived b + 1 \<and> cycle b' = cycle b \<and> wlink (procs s') (b_waiters b') (cur # xs))"
proof -
  have r: "sched_ok s L" "cur \<noteq> 0" "runqueues s \<noteq> []" using assms(1) by (auto simp: running_def)
  note cur = running_current [OF assms(1)]
  show ?thesis
  proof (cases "target b \<le> arrived b + 1")
    case True
    obtain s' L' where s': "wake_all leave_waiters s (b_waiters b) = Some s'" "sched_ok s' L'" "queued L' = queued L \<union> set xs"
      "\<forall>x \<in> set xs. state (procs s' x) = PROC_READY \<and> wq_next (procs s' x) = 0"
      using wake_all_ok [OF leave_post r(1) assms(2) linked_distinct [OF assms(2)] assms(3,5) r(3)] by blast
    with True show ?thesis
      by (intro exI [of _ s'] exI [of _ "b\<lparr>arrived := 0, cycle := cycle b + 1, b_waiters := 0\<rparr>"] exI [of _ L'])
        (simp add: barrier_wait_def Let_def)
  next
    case False
    obtain s' L' where s': "scheduler_yield (join_waiters s cur (b_waiters b)) c = Some s'" "sched_ok s' L'"
      using join_yield [OF assms(1)] by blast
    with False join_list [OF assms(2) r(2) assms(4) s'(1)] r(2) show ?thesis
      by (intro exI [of _ s'] exI [of _ "b\<lparr>arrived := arrived b + 1, b_waiters := cur\<rparr>"] exI [of _ L'])
        (simp add: barrier_wait_def Let_def cur)
  qed
qed

theorem barrier_releases_witness:
  "\<exists>s' b'. barrier_wait demo_sched 0 \<lparr>target = 1, arrived = 0, cycle = 0, b_waiters = 0\<rparr> = Some (s', b') \<and> cycle b' = 1"
proof -
  have "running demo_sched demo_queues 0 4"
    using demo_sched_ok demo_facts by (simp add: running_def runnable_def SCHED_QUEUES_def)
  from barrier_releases [OF this, of "\<lparr>target = 1, arrived = 0, cycle = 0, b_waiters = 0\<rparr>" "[]"] show ?thesis by auto
qed

end
