(* ===== verification/CText.thy ===== *)
theory CText
  imports CString
begin

text \<open>
  The routines of string.c on character lists.  The components above string.c use strings only
  through these routines, so their models take a C string as the list of its characters; every
  function here is proved equal to the memory-level model of CString on the same strings.
\<close>

section \<open>Strings as character lists\<close>

text \<open>The characters of a C string as bytes; a string holds no 0.\<close>

abbreviation code :: "char \<Rightarrow> int" where
  "code c \<equiv> of_char c"

definition ctext :: "bytes \<Rightarrow> addr \<Rightarrow> string \<Rightarrow> bool" where
  "ctext m a s \<longleftrightarrow> cstr m a (map of_char s)"

fun str_cmp :: "string \<Rightarrow> string \<Rightarrow> int" where
  "str_cmp [] [] = 0"
| "str_cmp [] (y # ys) = - code y"
| "str_cmp (x # xs) [] = code x"
| "str_cmp (x # xs) (y # ys) = (if x = y then str_cmp xs ys else code x - code y)"

text \<open>\<open>strncmp(s, p, strlen(p)) == 0\<close>.\<close>

definition str_prefix :: "string \<Rightarrow> string \<Rightarrow> bool" where
  "str_prefix p s \<longleftrightarrow> take (length p) s = p"

definition is_digit :: "char \<Rightarrow> bool" where
  "is_digit c \<longleftrightarrow> 0x30 \<le> code c \<and> code c \<le> 0x39"

fun str_digits :: "nat \<Rightarrow> int \<Rightarrow> string \<Rightarrow> int option" where
  "str_digits bits acc [] = Some acc"
| "str_digits bits acc (c # cs) =
     (if is_digit c then
        let r = acc * 10 + (code c - 0x30) in if r < 2 ^ bits then str_digits bits r cs else None
      else Some acc)"

definition str_atoi :: "string \<Rightarrow> int option" where
  "str_atoi s =
     (case dropWhile (\<lambda>c. code c = 0x20 \<or> code c = 0x09) s of
        [] \<Rightarrow> Some 0
      | c # cs \<Rightarrow>
          if code c = 0x2D then map_option uminus (str_digits 31 0 cs)
          else if code c = 0x2B then str_digits 31 0 cs
          else str_digits 31 0 (c # cs))"

section \<open>Agreement with the memory-level routines\<close>

lemma code_less: "code c < 256" and code_ge: "0 \<le> code c"
proof -
  have "code c = of_char c mod 256" by simp
  then show "code c < 256" "0 \<le> code c" by (metis pos_mod_bound zero_less_numeral) (metis pos_mod_sign zero_less_numeral of_char_mod_256)
qed

lemma uint_of_char [simp]: "uint (of_char c :: u8) = code c"
proof -
  have "(of_char c :: u8) = of_int (code c)" by (simp add: of_int_of_char)
  then show ?thesis using code_less [of c] code_ge [of c] by (simp add: uint_word_of_int_eq take_bit_eq_mod)
qed

lemma of_char_u8_eq: "(of_char c :: u8) = x \<longleftrightarrow> code c = uint x"
  by (metis uint_of_char word_uint_eq_iff)

lemma ctext_simps:
  "ctext m a [] \<longleftrightarrow> m a = 0"
  "ctext m a (c # cs) \<longleftrightarrow> m a = of_char c \<and> m a \<noteq> 0 \<and> ctext m (a + 1) cs"
  by (auto simp: ctext_def)

lemma strcmp_ctext: "ctext m a s \<Longrightarrow> ctext m b t \<Longrightarrow> strcmp m a b = Some (str_cmp s t)"
proof (induction s t arbitrary: a b rule: str_cmp.induct)
  case (4 x xs y ys)
  then show ?case
    by (subst strcmp.simps) (auto simp: ctext_simps of_char_u8_eq)
qed (subst strcmp.simps; simp add: ctext_simps)+

lemma str_cmp_zero: "CHR 0x00 \<notin> set s \<Longrightarrow> CHR 0x00 \<notin> set t \<Longrightarrow> str_cmp s t = 0 \<longleftrightarrow> s = t"
proof (induction s t rule: str_cmp.induct)
  case (2 y ys)
  then have "code y \<noteq> of_char (CHR 0x00)" unfolding of_char_eq_iff by auto
  then show ?case by simp
next
  case (3 x xs)
  then have "code x \<noteq> of_char (CHR 0x00)" unfolding of_char_eq_iff by auto
  then show ?case by simp
qed auto

lemma strncmp_ctext:
  assumes "ctext m a s" and "ctext m b p" and "length p < 2 ^ 64"
  shows "strncmp m a b (of_nat (length p)) = 0 \<longleftrightarrow> str_prefix p s"
proof -
  have "unat (of_nat (length p) :: u64) = length p" using assms(3) by (simp add: unat_of_nat)
  then have "strncmp m a b (of_nat (length p)) = 0 \<longleftrightarrow>
      map of_char (take (length p) s) = (map of_char p :: u8 list)"
    using strncmp_loop_cstr assms(1,2) by (simp add: strncmp_def ctext_def take_map)
  also have "\<dots> \<longleftrightarrow> take (length p) s = p"
    by (rule inj_map_eq_map) (simp add: inj_of_char inj_def of_char_u8_eq)
  finally show ?thesis by (simp add: str_prefix_def)
qed

lemma parse_digits_ctext:
  "ctext m p s \<Longrightarrow> parse_digits bits m p acc = str_digits bits acc s"
proof (induction s arbitrary: p acc)
  case Nil
  then show ?case by (subst parse_digits.simps) (simp add: ctext_simps)
next
  case (Cons c cs)
  have "0x30 \<le> m p \<and> m p \<le> 0x39 \<longleftrightarrow> is_digit c" and "uint (m p) = code c"
    using Cons.prems by (simp_all add: ctext_simps is_digit_def word_le_def)
  with Cons.IH [of "p + 1"] Cons.prems show ?case
    by (subst parse_digits.simps) (simp add: ctext_simps Let_def)
qed

lemma skip_blanks_ctext:
  "ctext m p s \<Longrightarrow> \<exists>q. skip_blanks m p = Some q \<and> ctext m q (dropWhile (\<lambda>c. code c = 0x20 \<or> code c = 0x09) s)"
proof (induction s arbitrary: p)
  case Nil
  then show ?case by (subst skip_blanks.simps) (simp add: ctext_simps)
next
  case (Cons c cs)
  with Cons.IH [of "p + 1"] show ?case
    by (subst skip_blanks.simps) (auto simp: ctext_simps of_char_u8_eq)
qed

lemma atoi_ctext:
  assumes "ctext m a s"
  shows "atoi m a = str_atoi s"
proof -
  let ?t = "dropWhile (\<lambda>c. code c = 0x20 \<or> code c = 0x09) s"
  obtain q where q: "skip_blanks m a = Some q" "ctext m q ?t" using skip_blanks_ctext assms by blast
  show ?thesis
  proof (cases ?t)
    case Nil
    with q have "m q = 0" "parse_digits 31 m q 0 = Some 0"
      by (simp_all add: ctext_simps parse_digits.simps [of _ m q])
    with q show ?thesis unfolding atoi_def parse_int_def str_atoi_def Nil by simp
  next
    case (Cons c cs)
    with q have "m q = of_char c" "ctext m (q + 1) cs" "ctext m q (c # cs)" by (auto simp: ctext_simps)
    with Cons q parse_digits_ctext [of m "q + 1" cs] parse_digits_ctext [of m q "c # cs"]
    show ?thesis
      by (simp add: atoi_def parse_int_def str_atoi_def of_char_u8_eq option.map_ident
          del: str_digits.simps)
  qed
qed

end
