(* ===== verification/Security.thy ===== *)
theory Security
  imports CText
begin

text \<open>
  The security subsystem of security.c over its state \<open>g_security\<close>: mandatory access control, verified
  boot, sandboxes, address-space randomisation, control-flow integrity, stack canaries and the audit
  log, and the hash function of pkg.c that verified boot uses.  An array with a counter of used
  entries (policies, rules, registered functions, partitions) is the list of the used entries.  C
  strings are character lists, \<open>None\<close> where a pointer is NULL.  An audit message is kept as its format and arguments; \<open>now\<close> is the
  value of \<open>timer_get_uptime_seconds\<close> and \<open>t\<close> that of \<open>timer_get_ticks\<close>.  The functions that only print
  are left out.
\<close>

section \<open>State\<close>

datatype msg_arg = Num int | Str string

record audit_entry =
  timestamp :: u64
  a_type :: u32
  a_pid :: int
  a_uid :: u32
  a_result :: u32
  message :: "string \<times> msg_arg list"

record mac_label =
  domain :: u32
  l_context :: u32
  l_type :: u32
  caps :: u64
  l_flags :: u32

record mac_policy =
  subject_domain :: u32
  object_domain :: u32
  permissions :: u32

record vb_partition =
  vb_name :: string
  vb_hash :: "u8 list"
  vb_rollback :: u32

record vb_header =
  vb_magic :: u32
  vb_version :: u32
  pubkey :: "u8 list"
  partitions :: "vb_partition list"

record sandbox_rule =
  action :: u32
  target_type :: u32
  r_target :: string

record sandbox_limits =
  cpu_time_ms :: u64
  memory_max_bytes :: u64
  max_open_files :: u32
  max_processes :: u32
  max_net_bandwidth_kbps :: u32
  allowed_syscalls :: "u32 list"

record sandbox =
  sb_id :: nat
  sb_name :: string
  sb_owner :: int
  active :: bool
  sb_label :: mac_label
  rules :: "sandbox_rule list"
  limits :: sandbox_limits

record aslr_state =
  aslr_enabled :: bool
  stack_randomization :: bool
  mmap_randomization :: bool
  pie_randomization :: bool
  brute_force_detection :: bool

record cfi_state =
  cfi_enabled :: bool
  shadow_stack :: "(addr \<times> addr) list"
  violations :: u32
  strict_mode :: bool

record security =
  default_labels :: "mac_label list"
  policies :: "mac_policy list"
  mac_enforcing :: bool
  vb :: vb_header
  boot_state :: u32
  rollback_index :: u32
  sandboxes :: "sandbox list"
  sandbox_count :: u32
  aslr :: aslr_state
  aslr_prng_seed :: u64
  cfi :: cfi_state
  nx_enabled :: bool
  system_canary :: u64
  audit_buf :: "audit_entry list"
  audit_head :: u32
  audit_count :: u32
  audit_enabled :: bool
  security_level :: u32

definition SEC_DOMAIN_KERNEL :: u32 where "SEC_DOMAIN_KERNEL = 0"
definition SEC_DOMAIN_SYSTEM :: u32 where "SEC_DOMAIN_SYSTEM = 1"
definition SEC_DOMAIN_SERVICE :: u32 where "SEC_DOMAIN_SERVICE = 2"
definition SEC_DOMAIN_APP :: u32 where "SEC_DOMAIN_APP = 3"
definition SEC_DOMAIN_ISOLATED :: u32 where "SEC_DOMAIN_ISOLATED = 4"
definition SEC_DOMAIN_PEN_TEST :: u32 where "SEC_DOMAIN_PEN_TEST = 5"
definition SEC_DOMAIN_MAX :: u32 where "SEC_DOMAIN_MAX = 6"

lemmas sec_domains = SEC_DOMAIN_KERNEL_def SEC_DOMAIN_SYSTEM_def SEC_DOMAIN_SERVICE_def SEC_DOMAIN_APP_def
  SEC_DOMAIN_ISOLATED_def SEC_DOMAIN_PEN_TEST_def SEC_DOMAIN_MAX_def

definition MAC_PERM_READ :: u32 where "MAC_PERM_READ = 1"
definition MAC_PERM_WRITE :: u32 where "MAC_PERM_WRITE = 2"
definition MAC_PERM_EXEC :: u32 where "MAC_PERM_EXEC = 4"
definition MAC_PERM_ADMIN :: u32 where "MAC_PERM_ADMIN = 0x80"
definition MAC_FLAG_SANDBOXED :: u32 where "MAC_FLAG_SANDBOXED = 2"
definition MAC_FLAG_NO_NETWORK :: u32 where "MAC_FLAG_NO_NETWORK = 8"
definition CAP_SYS_ADMIN :: u64 where "CAP_SYS_ADMIN = push_bit 13 1"

lemmas mac_perms = MAC_PERM_READ_def MAC_PERM_WRITE_def MAC_PERM_EXEC_def MAC_PERM_ADMIN_def

definition AUDIT_MAX_ENTRIES :: nat where "AUDIT_MAX_ENTRIES = 4096"
definition AUDIT_MAC_VIOLATION :: u32 where "AUDIT_MAC_VIOLATION = 2"
definition AUDIT_FILE_ACCESS :: u32 where "AUDIT_FILE_ACCESS = 4"
definition AUDIT_SECURITY :: u32 where "AUDIT_SECURITY = 7"

section \<open>Audit log\<close>

definition zero_entry :: audit_entry where
  "zero_entry = \<lparr>timestamp = 0, a_type = 0, a_pid = 0, a_uid = 0, a_result = 0, message = ('''', [])\<rparr>"

definition audit_init :: "security \<Rightarrow> security" where
  "audit_init s = s\<lparr>audit_buf := replicate AUDIT_MAX_ENTRIES zero_entry, audit_head := 0, audit_count := 0,
     audit_enabled := True\<rparr>"

definition audit_log :: "u64 \<Rightarrow> security \<Rightarrow> u32 \<Rightarrow> int \<Rightarrow> u32 \<Rightarrow> u32 \<Rightarrow> string \<times> msg_arg list \<Rightarrow> security" where
  "audit_log now s ty pd ud res msg =
     (if \<not> audit_enabled s then s
      else s\<lparr>audit_buf := (audit_buf s)[unat (audit_head s) :=
               \<lparr>timestamp = now, a_type = ty, a_pid = pd, a_uid = ud, a_result = res, message = msg\<rparr>],
             audit_head := (audit_head s + 1) mod of_nat AUDIT_MAX_ENTRIES,
             audit_count := if audit_count s < of_nat AUDIT_MAX_ENTRIES then audit_count s + 1 else audit_count s\<rparr>)"

text \<open>The entries that \<open>audit_print_recent\<close> prints, in its order.\<close>

definition audit_index :: "security \<Rightarrow> nat \<Rightarrow> nat" where
  "audit_index s i = unat ((audit_head s - 1 - of_nat i + of_nat AUDIT_MAX_ENTRIES) mod of_nat AUDIT_MAX_ENTRIES)"

definition audit_recent :: "security \<Rightarrow> u32 \<Rightarrow> audit_entry list" where
  "audit_recent s n =
     (let k = (if n = 0 \<or> audit_count s < n then audit_count s else n)
      in map (\<lambda>i. audit_buf s ! audit_index s i) [0..<unat k])"

definition audit_enable :: "security \<Rightarrow> bool \<Rightarrow> security" where
  "audit_enable s e = s\<lparr>audit_enabled := e\<rparr>"

definition audit_clear :: "security \<Rightarrow> security" where
  "audit_clear s = s\<lparr>audit_head := 0, audit_count := 0, audit_buf := replicate AUDIT_MAX_ENTRIES zero_entry\<rparr>"

definition audit_type_name :: "u32 \<Rightarrow> string" where
  "audit_type_name t =
     (if t = 1 then ''syscall'' else if t = AUDIT_MAC_VIOLATION then ''mac-violation'' else if t = 3 then ''auth''
      else if t = AUDIT_FILE_ACCESS then ''file-access'' else if t = 5 then ''network'' else if t = 6 then ''process''
      else if t = AUDIT_SECURITY then ''security'' else if t = 8 then ''cap-change'' else ''unknown'')"

text \<open>Most messages are of type \<open>AUDIT_SECURITY\<close>.\<close>

definition sec_log :: "u64 \<Rightarrow> security \<Rightarrow> int \<Rightarrow> u32 \<Rightarrow> string \<times> msg_arg list \<Rightarrow> security" where
  "sec_log now s pd res msg = audit_log now s AUDIT_SECURITY pd 0 res msg"

section \<open>Mandatory access control\<close>

definition mac_domain_name :: "u32 \<Rightarrow> string" where
  "mac_domain_name d =
     (if d = SEC_DOMAIN_KERNEL then ''kernel'' else if d = SEC_DOMAIN_SYSTEM then ''system''
      else if d = SEC_DOMAIN_SERVICE then ''service'' else if d = SEC_DOMAIN_APP then ''app''
      else if d = SEC_DOMAIN_ISOLATED then ''isolated'' else if d = SEC_DOMAIN_PEN_TEST then ''pentest''
      else ''unknown'')"

definition mac_context_name :: "u32 \<Rightarrow> string" where
  "mac_context_name c =
     (if c = 0 then ''unclassified'' else if c = 1 then ''public'' else if c = 2 then ''internal''
      else if c = 3 then ''confidential'' else if c = 4 then ''secret'' else if c = 5 then ''top-secret'' else ''unknown'')"

definition mac_label_init :: "security \<Rightarrow> u32 \<Rightarrow> u32 \<Rightarrow> mac_label" where
  "mac_label_init s d c = \<lparr>domain = d, l_context = c, l_type = 1,
     caps = (if d < SEC_DOMAIN_MAX then caps (default_labels s ! unat d) else 0), l_flags = 0\<rparr>"

definition default_caps :: "u32 \<Rightarrow> u64" where
  "default_caps d =
     (if d = SEC_DOMAIN_KERNEL then 0xFFFFFFFF
      else if d = SEC_DOMAIN_SYSTEM then push_bit 11 1 OR push_bit 12 1 OR push_bit 13 1 OR push_bit 14 1 OR push_bit 15 1
        OR push_bit 17 1 OR push_bit 21 1 OR push_bit 26 1 OR push_bit 27 1
      else if d = SEC_DOMAIN_SERVICE then push_bit 9 1 OR push_bit 12 1 OR push_bit 22 1 OR push_bit 5 1
      else if d = SEC_DOMAIN_APP then push_bit 9 1
      else if d = SEC_DOMAIN_ISOLATED then 0
      else if d = SEC_DOMAIN_PEN_TEST then push_bit 12 1 OR push_bit 11 1 OR push_bit 19 1 OR push_bit 20 1 OR push_bit 30 1
      else 0)"

definition mac_init :: "security \<Rightarrow> security" where
  "mac_init s =
     (let s1 = fold (\<lambda>d s. s\<lparr>default_labels := (default_labels s)[d := (mac_label_init s (of_nat d) 2)
                \<lparr>caps := default_caps (of_nat d)\<rparr>]\<rparr>) [0..<unat SEC_DOMAIN_MAX] s
      in s1\<lparr>policies := [], mac_enforcing := True\<rparr>)"

definition mac_deny :: "u64 \<Rightarrow> security \<Rightarrow> mac_label \<Rightarrow> mac_label \<Rightarrow> u32 \<Rightarrow> security \<times> int" where
  "mac_deny now s sub obj perm =
     (audit_log now s AUDIT_MAC_VIOLATION 0 0 (- 1)
        (''MAC denied: domain=%d -> domain=%d perm=0x%x'', [Num (uint (domain sub)), Num (uint (domain obj)), Num (uint perm)]), - 1)"

text \<open>The loop over the policies: the first that matches decides.\<close>

fun policy_decision :: "mac_policy list \<Rightarrow> u32 \<Rightarrow> u32 \<Rightarrow> u32 \<Rightarrow> bool option" where
  "policy_decision [] sd od perm = None"
| "policy_decision (p # ps) sd od perm =
     (if subject_domain p = sd \<and> object_domain p = od then Some (permissions p AND perm = perm)
      else policy_decision ps sd od perm)"

definition mac_check_access :: "u64 \<Rightarrow> security \<Rightarrow> mac_label option \<Rightarrow> mac_label option \<Rightarrow> u32 \<Rightarrow> security \<times> int" where
  "mac_check_access now s subject object perm =
     (if \<not> mac_enforcing s then (s, 0)
      else case (subject, object) of
        (Some sub, Some obj) \<Rightarrow>
          if domain sub = SEC_DOMAIN_KERNEL then (s, 0)
          else if perm AND MAC_PERM_ADMIN \<noteq> 0 \<and> caps sub AND CAP_SYS_ADMIN = 0 then mac_deny now s sub obj perm
          else if l_type obj = 2 \<and> domain sub = SEC_DOMAIN_ISOLATED \<and> domain obj = SEC_DOMAIN_SYSTEM
            then mac_deny now s sub obj perm
          else if l_type obj = 2 \<and> domain sub = SEC_DOMAIN_APP \<and> domain obj = SEC_DOMAIN_SYSTEM \<and> perm AND MAC_PERM_WRITE \<noteq> 0
            then mac_deny now s sub obj perm
          else if l_type obj = 3 \<and> l_flags sub AND MAC_FLAG_NO_NETWORK \<noteq> 0 then mac_deny now s sub obj perm
          else (case policy_decision (policies s) (domain sub) (domain obj) perm of
              Some True \<Rightarrow> (s, 0)
            | Some False \<Rightarrow> mac_deny now s sub obj perm
            | None \<Rightarrow>
                if domain sub = domain obj then (s, 0)
                else if perm = MAC_PERM_READ then (s, 0)
                else mac_deny now s sub obj perm)
      | _ \<Rightarrow> (s, - 1))"

definition mac_check_capability :: "int \<Rightarrow> u64 \<Rightarrow> int" where
  "mac_check_capability pd cp = (if cp = push_bit 30 1 then 0 else - 1)"

definition mac_set_domain :: "u64 \<Rightarrow> security \<Rightarrow> int \<Rightarrow> u32 \<Rightarrow> security" where
  "mac_set_domain now s pd d = (if SEC_DOMAIN_MAX \<le> d then s
     else sec_log now s pd 0 (''MAC domain changed to %s'', [Str (mac_domain_name d)]))"

definition mac_set_context :: "u64 \<Rightarrow> security \<Rightarrow> int \<Rightarrow> u32 \<Rightarrow> security" where
  "mac_set_context now s pd c = (if 6 \<le> c then s
     else sec_log now s pd 0 (''MAC context changed to %s'', [Str (mac_context_name c)]))"

definition mac_add_policy :: "u64 \<Rightarrow> u32 \<Rightarrow> u32 \<Rightarrow> u32 \<Rightarrow> security \<Rightarrow> security" where
  "mac_add_policy now sd od perms s =
     (if 128 \<le> length (policies s) then s
      else sec_log now (s\<lparr>policies := policies s @ [\<lparr>subject_domain = sd, object_domain = od, permissions = perms\<rparr>]\<rparr>) 0 0
        (''MAC policy added: %s -> %s (perms=0x%x)'', [Str (mac_domain_name sd), Str (mac_domain_name od), Num (uint perms)]))"

definition mac_load_default_policies :: "u64 \<Rightarrow> security \<Rightarrow> security" where
  "mac_load_default_policies now s =
     (let s1 = mac_add_policy now SEC_DOMAIN_APP SEC_DOMAIN_KERNEL 0 s;
          s2 = mac_add_policy now SEC_DOMAIN_APP SEC_DOMAIN_SYSTEM MAC_PERM_READ s1;
          s3 = mac_add_policy now SEC_DOMAIN_ISOLATED SEC_DOMAIN_SYSTEM 0 s2;
          s4 = mac_add_policy now SEC_DOMAIN_PEN_TEST SEC_DOMAIN_SYSTEM (MAC_PERM_READ OR MAC_PERM_EXEC) s3;
          s5 = mac_add_policy now SEC_DOMAIN_SERVICE SEC_DOMAIN_KERNEL 0 s4
      in mac_add_policy now SEC_DOMAIN_SYSTEM SEC_DOMAIN_KERNEL MAC_PERM_READ s5)"

definition mac_set_enforcing :: "u64 \<Rightarrow> security \<Rightarrow> bool \<Rightarrow> security" where
  "mac_set_enforcing now s e =
     sec_log now (s\<lparr>mac_enforcing := e\<rparr>) 0 0 (''MAC mode changed to %s'', [Str (if e then ''ENFORCING'' else ''PERMISSIVE'')])"

section \<open>Verified boot\<close>

definition VB_MAGIC :: u32 where "VB_MAGIC = 0x56424F4F"
definition BOOT_STATE_GREEN :: u32 where "BOOT_STATE_GREEN = 0"
definition BOOT_STATE_ORANGE :: u32 where "BOOT_STATE_ORANGE = 2"
definition BOOT_STATE_RED :: u32 where "BOOT_STATE_RED = 3"

lemmas boot_states = BOOT_STATE_GREEN_def BOOT_STATE_ORANGE_def BOOT_STATE_RED_def

definition vb_state_name :: "u32 \<Rightarrow> string" where
  "vb_state_name b =
     (if b = 0 then ''GREEN (verified)'' else if b = 1 then ''YELLOW (custom key)'' else if b = 2 then ''ORANGE (unverified)''
      else if b = 3 then [CHR 0x1B] @ ''[31m'' @ ''RED (FAILED)'' @ [CHR 0x1B] @ ''[0m'' else if b = 4 then ''EIO (I/O error)'' else ''unknown'')"

definition vb_init :: "security \<Rightarrow> security" where
  "vb_init s = s\<lparr>vb := \<lparr>vb_magic = VB_MAGIC, vb_version = 1, pubkey = map (\<lambda>i. of_nat i XOR 0x55) [0..<32], partitions = []\<rparr>,
     boot_state := BOOT_STATE_ORANGE, rollback_index := 0\<rparr>"

text \<open>\<open>pkg_hash_sha256\<close>: the loop over the bytes and the mixing of the length.\<close>

definition hash_byte :: "nat \<Rightarrow> u8 \<Rightarrow> u32 \<times> u32 \<times> u32 \<times> u32 \<Rightarrow> u32 \<times> u32 \<times> u32 \<times> u32" where
  "hash_byte i b = (\<lambda>(h0, h1, h2, h3).
     (h0 XOR push_bit (i mod 4 * 8) (ucast b), h1 XOR push_bit ((i + 1) mod 4 * 8) (ucast b),
      push_bit 1 h2 OR drop_bit 31 h2, h3 + ucast b))"

fun hash_loop :: "nat \<Rightarrow> u8 list \<Rightarrow> u32 \<times> u32 \<times> u32 \<times> u32 \<Rightarrow> u32 \<times> u32 \<times> u32 \<times> u32" where
  "hash_loop i [] h = h"
| "hash_loop i (b # bs) h = hash_loop (Suc i) bs (hash_byte i b h)"

definition be_bytes :: "u32 \<Rightarrow> u8 list" where
  "be_bytes h = [ucast (drop_bit 24 h), ucast (drop_bit 16 h), ucast (drop_bit 8 h), ucast h]"

definition pkg_hash_sha256 :: "u8 list \<Rightarrow> u8 list" where
  "pkg_hash_sha256 data =
     (let len = of_nat (length data) in
      case hash_loop 0 data (0x6a09e667, 0xbb67ae85, 0x3c6ef372, 0xa54ff53a) of (h0, h1, h2, h3) \<Rightarrow>
        concat (map be_bytes [h0 + len, h1 + len * 7, h2 XOR len * 13, h3 + len * 17,
          0x510e527f XOR len * 23, 0x9b05688c + len * 29, 0x1f83d9ab XOR len * 31, 0x5be0cd19 + len * 37]))"

definition vb_verify_partition :: "security \<Rightarrow> string option \<Rightarrow> u8 list option \<Rightarrow> security \<times> int" where
  "vb_verify_partition s nm data =
     (case (nm, data) of
        (Some n, Some d) \<Rightarrow>
          if d = [] then (s, - 1)
          else (case find (\<lambda>p. vb_name p = n) (partitions (vb s)) of
            None \<Rightarrow> (s, - 1)
          | Some part \<Rightarrow>
              if pkg_hash_sha256 d \<noteq> vb_hash part then (s\<lparr>boot_state := BOOT_STATE_RED\<rparr>, - 1)
              else if vb_rollback part < rollback_index s then (s\<lparr>boot_state := BOOT_STATE_RED\<rparr>, - 1)
              else (s, 0))
      | _ \<Rightarrow> (s, - 1))"

definition vb_verify_chain :: "u64 \<Rightarrow> security \<Rightarrow> security \<times> int" where
  "vb_verify_chain now s =
     (if vb_magic (vb s) \<noteq> VB_MAGIC then (s\<lparr>boot_state := BOOT_STATE_RED\<rparr>, - 1)
      else (sec_log now (s\<lparr>boot_state := BOOT_STATE_GREEN\<rparr>) 0 0 (''Boot chain verified, state=GREEN'', []), 0))"

definition vb_set_state :: "u64 \<Rightarrow> security \<Rightarrow> u32 \<Rightarrow> security" where
  "vb_set_state now s b = sec_log now (s\<lparr>boot_state := b\<rparr>) 0 0 (''Boot state changed to %s'', [Str (vb_state_name b)])"

section \<open>Sandboxes\<close>

definition SANDBOX_MAX :: nat where "SANDBOX_MAX = 64"
definition SB_MAX_RULES :: nat where "SB_MAX_RULES = 32"
definition SB_RULE_ALLOW :: u32 where "SB_RULE_ALLOW = 1"
definition SB_RULE_DENY :: u32 where "SB_RULE_DENY = 2"
definition SB_RULE_READ_ONLY :: u32 where "SB_RULE_READ_ONLY = 3"
definition SB_RULE_LOG :: u32 where "SB_RULE_LOG = 4"
definition SB_TARGET_FILE :: u32 where "SB_TARGET_FILE = 1"

lemmas sb_actions = SB_RULE_ALLOW_def SB_RULE_DENY_def SB_RULE_READ_ONLY_def SB_RULE_LOG_def

definition zero_limits :: sandbox_limits where
  "zero_limits = \<lparr>cpu_time_ms = 0, memory_max_bytes = 0, max_open_files = 0, max_processes = 0,
     max_net_bandwidth_kbps = 0, allowed_syscalls = replicate 16 0\<rparr>"

definition zero_sandbox :: "nat \<Rightarrow> sandbox" where
  "zero_sandbox i = \<lparr>sb_id = i, sb_name = '''', sb_owner = 0, active = False,
     sb_label = \<lparr>domain = 0, l_context = 0, l_type = 0, caps = 0, l_flags = 0\<rparr>, rules = [], limits = zero_limits\<rparr>"

definition sandbox_init :: "security \<Rightarrow> security" where
  "sandbox_init s = s\<lparr>sandboxes := map zero_sandbox [0..<SANDBOX_MAX], sandbox_count := 0\<rparr>"

definition upd_sandbox :: "security \<Rightarrow> nat \<Rightarrow> (sandbox \<Rightarrow> sandbox) \<Rightarrow> security" where
  "upd_sandbox s i f = s\<lparr>sandboxes := (sandboxes s)[i := f (sandboxes s ! i)]\<rparr>"

definition sandbox_add_rule :: "security \<Rightarrow> nat \<Rightarrow> u32 \<Rightarrow> u32 \<Rightarrow> string option \<Rightarrow> security \<times> int" where
  "sandbox_add_rule s i act ty target =
     (case target of
        None \<Rightarrow> (s, - 1)
      | Some tgt \<Rightarrow>
          if SANDBOX_MAX \<le> i then (s, - 1)
          else if \<not> active (sandboxes s ! i) then (s, - 1)
          else if SB_MAX_RULES \<le> length (rules (sandboxes s ! i)) then (s, - 1)
          else (upd_sandbox s i (\<lambda>sb. sb\<lparr>rules := rules sb @ [\<lparr>action = act, target_type = ty, r_target = take 255 tgt\<rparr>]\<rparr>), 0))"

definition default_limits :: sandbox_limits where
  "default_limits = zero_limits\<lparr>cpu_time_ms := 30000, memory_max_bytes := 64 * 1024 * 1024, max_open_files := 64,
     max_processes := 4, max_net_bandwidth_kbps := 0\<rparr>"

definition sandbox_create :: "u64 \<Rightarrow> security \<Rightarrow> string option \<Rightarrow> int \<Rightarrow> security \<times> int" where
  "sandbox_create now s name own =
     (case name of
        None \<Rightarrow> (s, - 1)
      | Some nm \<Rightarrow>
          (case first_slot (\<lambda>i. \<not> active (sandboxes s ! i)) 0 SANDBOX_MAX of
             None \<Rightarrow> (s, - 1)
           | Some i \<Rightarrow>
               let s1 = upd_sandbox s i (\<lambda>_. (zero_sandbox i)\<lparr>active := True, sb_owner := own, sb_name := take 63 nm,
                          sb_label := (mac_label_init s SEC_DOMAIN_ISOLATED 3)\<lparr>l_flags := MAC_FLAG_SANDBOXED OR MAC_FLAG_NO_NETWORK\<rparr>\<rparr>);
                   s2 = fst (sandbox_add_rule s1 i SB_RULE_DENY SB_TARGET_FILE (Some ''/''));
                   s3 = fst (sandbox_add_rule s2 i SB_RULE_ALLOW SB_TARGET_FILE (Some ''/dev/null''));
                   s4 = fst (sandbox_add_rule s3 i SB_RULE_ALLOW SB_TARGET_FILE (Some ''/dev/zero''));
                   s5 = fst (sandbox_add_rule s4 i SB_RULE_ALLOW SB_TARGET_FILE (Some ''/dev/random''));
                   s6 = fst (sandbox_add_rule s5 i SB_RULE_ALLOW SB_TARGET_FILE (Some ''/dev/urandom''));
                   s7 = upd_sandbox s6 i (limits_update (\<lambda>_. default_limits));
                   s8 = s7\<lparr>sandbox_count := sandbox_count s7 + 1\<rparr>
               in (sec_log now s8 own 0 (''Sandbox created: %s (id=%d)'', [Str nm, Num (int i)]), int i)))"

definition sandbox_destroy :: "u64 \<Rightarrow> security \<Rightarrow> nat \<Rightarrow> security" where
  "sandbox_destroy now s i =
     (if SANDBOX_MAX \<le> i then s
      else let sb = sandboxes s ! i in
        if \<not> active sb then s
        else sec_log now ((upd_sandbox s i (active_update (\<lambda>_. False)))\<lparr>sandbox_count := sandbox_count s - 1\<rparr>) (sb_owner sb) 0
          (''Sandbox destroyed: %s (id=%d)'', [Str (sb_name sb), Num (int i)]))"

definition sandbox_apply :: "u64 \<Rightarrow> security \<Rightarrow> nat \<Rightarrow> int \<Rightarrow> security \<times> int" where
  "sandbox_apply now s i pd =
     (if SANDBOX_MAX \<le> i then (s, - 1)
      else if \<not> active (sandboxes s ! i) then (s, - 1)
      else (sec_log now s pd 0 (''Sandbox %d applied to PID %d'', [Num (int i), Num pd]), 0))"

definition sandbox_enter :: "u64 \<Rightarrow> security \<Rightarrow> int \<Rightarrow> nat \<Rightarrow> security \<times> int" where
  "sandbox_enter now s current i = sandbox_apply now s i current"

definition sandbox_set_limits :: "security \<Rightarrow> nat \<Rightarrow> sandbox_limits option \<Rightarrow> security" where
  "sandbox_set_limits s i lim =
     (case lim of
        None \<Rightarrow> s
      | Some l \<Rightarrow>
          if SANDBOX_MAX \<le> i then s
          else if \<not> active (sandboxes s ! i) then s
          else upd_sandbox s i (limits_update (\<lambda>_. l)))"

text \<open>The loop over the rules.  An action that is none of the four falls through to the next rule.\<close>

datatype verdict = Allow | Deny | AllowLogged

fun rule_verdict :: "sandbox_rule list \<Rightarrow> u32 \<Rightarrow> string \<Rightarrow> u32 \<Rightarrow> verdict" where
  "rule_verdict [] ty tgt acc = Deny"
| "rule_verdict (r # rs) ty tgt acc =
     (if target_type r \<noteq> ty then rule_verdict rs ty tgt acc
      else if str_prefix (r_target r) tgt then
        (if action r = SB_RULE_ALLOW then Allow
         else if action r = SB_RULE_DENY then Deny
         else if action r = SB_RULE_READ_ONLY then (if acc = MAC_PERM_READ then Allow else Deny)
         else if action r = SB_RULE_LOG then AllowLogged
         else rule_verdict rs ty tgt acc)
      else rule_verdict rs ty tgt acc)"

definition sandbox_check_access :: "u64 \<Rightarrow> security \<Rightarrow> nat \<Rightarrow> u32 \<Rightarrow> string option \<Rightarrow> u32 \<Rightarrow> security \<times> int" where
  "sandbox_check_access now s i ty target acc =
     (case target of
        None \<Rightarrow> (s, - 1)
      | Some tgt \<Rightarrow>
          if SANDBOX_MAX \<le> i then (s, - 1)
          else if \<not> active (sandboxes s ! i) then (s, 0)
          else (case rule_verdict (rules (sandboxes s ! i)) ty tgt acc of
            Allow \<Rightarrow> (s, 0)
          | AllowLogged \<Rightarrow> (audit_log now s AUDIT_FILE_ACCESS 0 0 0 (''Sandbox logged access: %s'', [Str tgt]), 0)
          | Deny \<Rightarrow> (audit_log now s AUDIT_MAC_VIOLATION 0 0 (- 1) (''Sandbox denied: type=%d target=%s access=0x%x'',
                       [Num (uint ty), Str tgt, Num (uint acc)]), - 1)))"

definition sandbox_get :: "security \<Rightarrow> nat \<Rightarrow> sandbox option" where
  "sandbox_get s i = (if i < SANDBOX_MAX \<and> active (sandboxes s ! i) then Some (sandboxes s ! i) else None)"

definition sandbox_target_name :: "u32 \<Rightarrow> string" where
  "sandbox_target_name t =
     (if t = 1 then ''file'' else if t = 2 then ''dir'' else if t = 3 then ''net'' else if t = 4 then ''syscall''
      else if t = 5 then ''cap'' else ''unknown'')"

definition sandbox_action_name :: "u32 \<Rightarrow> string" where
  "sandbox_action_name a =
     (if a = SB_RULE_ALLOW then ''allow'' else if a = SB_RULE_DENY then ''deny''
      else if a = SB_RULE_READ_ONLY then ''read-only'' else if a = SB_RULE_LOG then ''log'' else ''unknown'')"

section \<open>Exploit mitigations\<close>

definition aslr_prng :: "u64 \<Rightarrow> u64 \<times> u64" where
  "aslr_prng seed =
     (let x1 = seed XOR drop_bit 12 seed;
          x2 = x1 XOR push_bit 25 x1;
          x3 = x2 XOR drop_bit 27 x2
      in (x3, x3 * 0x2545F4914F6CDD1D))"

definition aslr_init :: "security \<Rightarrow> u64 \<Rightarrow> security" where
  "aslr_init s t = s\<lparr>aslr := \<lparr>aslr_enabled = True, stack_randomization = True, mmap_randomization = True,
     pie_randomization = True, brute_force_detection = True\<rparr>, aslr_prng_seed := t XOR 0xDEADBEEFCAFEBABE\<rparr>"

definition aslr_randomize_stack :: "security \<Rightarrow> addr \<Rightarrow> security \<times> addr" where
  "aslr_randomize_stack s base =
     (if \<not> aslr_enabled (aslr s) \<or> \<not> stack_randomization (aslr s) then (s, base)
      else case aslr_prng (aslr_prng_seed s) of (seed, r) \<Rightarrow>
        (s\<lparr>aslr_prng_seed := seed\<rparr>, base - ((r AND mask 16) AND NOT (mask 12))))"

definition aslr_randomize_mmap :: "security \<Rightarrow> addr \<Rightarrow> u64 \<Rightarrow> security \<times> addr" where
  "aslr_randomize_mmap s base sz =
     (if \<not> aslr_enabled (aslr s) \<or> \<not> mmap_randomization (aslr s) then (s, base)
      else case aslr_prng (aslr_prng_seed s) of (seed, r) \<Rightarrow>
        (s\<lparr>aslr_prng_seed := seed\<rparr>, base + (r AND (mask 14 AND NOT (mask 12))) + (sz AND mask 12)))"

definition aslr_randomize_pie :: "security \<Rightarrow> addr \<Rightarrow> security \<times> addr" where
  "aslr_randomize_pie s base =
     (if \<not> aslr_enabled (aslr s) \<or> \<not> pie_randomization (aslr s) then (s, base)
      else case aslr_prng (aslr_prng_seed s) of (seed, r) \<Rightarrow>
        (s\<lparr>aslr_prng_seed := seed\<rparr>, base + ((r AND mask 18) AND NOT (mask 12))))"

definition aslr_set_enabled :: "u64 \<Rightarrow> security \<Rightarrow> bool \<Rightarrow> security" where
  "aslr_set_enabled now s e =
     sec_log now (s\<lparr>aslr := (aslr s)\<lparr>aslr_enabled := e\<rparr>\<rparr>) 0 0 (''ASLR %s'', [Str (if e then ''enabled'' else ''disabled'')])"

definition CFI_MAX_SHADOW_ENTRIES :: nat where "CFI_MAX_SHADOW_ENTRIES = 4096"

definition cfi_init :: "security \<Rightarrow> security" where
  "cfi_init s = s\<lparr>cfi := \<lparr>cfi_enabled = True, shadow_stack = [], violations = 0, strict_mode = True\<rparr>\<rparr>"

definition cfi_register_function :: "security \<Rightarrow> addr \<Rightarrow> addr \<Rightarrow> security" where
  "cfi_register_function s a b =
     (if CFI_MAX_SHADOW_ENTRIES \<le> length (shadow_stack (cfi s)) then s
      else s\<lparr>cfi := (cfi s)\<lparr>shadow_stack := shadow_stack (cfi s) @ [(a, b)]\<rparr>\<rparr>)"

definition cfi_violation :: "u64 \<Rightarrow> security \<Rightarrow> addr \<Rightarrow> addr \<Rightarrow> security" where
  "cfi_violation now s e a =
     sec_log now (s\<lparr>cfi := (cfi s)\<lparr>violations := violations (cfi s) + 1\<rparr>\<rparr>) 0 (- 1)
       (''CFI violation: expected=%p actual=%p'', [Num (uint e), Num (uint a)])"

definition cfi_verify_target :: "u64 \<Rightarrow> security \<Rightarrow> addr \<Rightarrow> addr \<Rightarrow> security \<times> int" where
  "cfi_verify_target now s caller tgt =
     (if \<not> cfi_enabled (cfi s) then (s, 0)
      else if find (\<lambda>(a, b). a \<le> tgt \<and> tgt \<le> b) (shadow_stack (cfi s)) \<noteq> None then (s, 0)
      else (cfi_violation now s 0 tgt, - 1))"

text \<open>\<open>cfi_shadow_push\<close> has an empty body.\<close>

definition cfi_shadow_push :: "security \<Rightarrow> addr \<Rightarrow> security" where
  "cfi_shadow_push s a = s"

definition cfi_shadow_pop :: addr where
  "cfi_shadow_pop = 0"

definition cfi_set_strict :: "security \<Rightarrow> bool \<Rightarrow> security" where
  "cfi_set_strict s b = s\<lparr>cfi := (cfi s)\<lparr>strict_mode := b\<rparr>\<rparr>"

definition nx_init :: "security \<Rightarrow> security" where
  "nx_init s = s\<lparr>nx_enabled := True\<rparr>"

definition nx_enable :: "security \<Rightarrow> security" where
  "nx_enable s = s\<lparr>nx_enabled := True\<rparr>"

definition nx_check_region :: "addr \<Rightarrow> u64 \<Rightarrow> int" where
  "nx_check_region v sz = 0"

definition STACK_CANARY_VALUE :: u64 where "STACK_CANARY_VALUE = 0xDEADBEEFCAFEBAB0"

definition canary_init :: "security \<Rightarrow> u64 \<Rightarrow> security" where
  "canary_init s t = s\<lparr>system_canary := STACK_CANARY_VALUE XOR t\<rparr>"

definition canary_generate :: "security \<Rightarrow> security \<times> u64" where
  "canary_generate s = (case aslr_prng (aslr_prng_seed s) of (seed, r) \<Rightarrow>
     (s\<lparr>aslr_prng_seed := seed\<rparr>, STACK_CANARY_VALUE XOR r XOR system_canary s))"

definition canary_verify :: "u64 \<Rightarrow> security \<Rightarrow> u64 \<Rightarrow> security \<times> int" where
  "canary_verify now s canary =
     (case canary_generate s of (s1, expected) \<Rightarrow>
        if canary \<noteq> expected \<and> canary \<noteq> system_canary s1
        then (sec_log now s1 0 (- 1) (''Stack canary violation'', []), - 1)
        else (s1, 0))"

text \<open>The global \<open>g_security\<close> and the static \<open>aslr_prng_seed\<close> at the start.\<close>

definition g_security :: security where
  "g_security = \<lparr>default_labels = replicate 6 \<lparr>domain = 0, l_context = 0, l_type = 0, caps = 0, l_flags = 0\<rparr>, policies = [],
     mac_enforcing = False, vb = \<lparr>vb_magic = 0, vb_version = 0, pubkey = replicate 32 0, partitions = []\<rparr>,
     boot_state = 0, rollback_index = 0, sandboxes = replicate SANDBOX_MAX (zero_sandbox 0), sandbox_count = 0,
     aslr = \<lparr>aslr_enabled = False, stack_randomization = False, mmap_randomization = False, pie_randomization = False,
       brute_force_detection = False\<rparr>,
     aslr_prng_seed = 0x123456789ABCDEF0,
     cfi = \<lparr>cfi_enabled = False, shadow_stack = [], violations = 0, strict_mode = False\<rparr>, nx_enabled = False,
     system_canary = 0, audit_buf = replicate AUDIT_MAX_ENTRIES zero_entry, audit_head = 0, audit_count = 0,
     audit_enabled = False, security_level = 0\<rparr>"

definition security_init :: "u64 \<Rightarrow> u64 \<Rightarrow> security \<Rightarrow> security" where
  "security_init now t s =
     (let s0 = g_security\<lparr>aslr_prng_seed := aslr_prng_seed s, security_level := 4, mac_enforcing := True, audit_enabled := True\<rparr>;
          s1 = audit_init (canary_init (nx_init (cfi_init (aslr_init (sandbox_init (vb_init (mac_init s0))) t))) t);
          s2 = mac_load_default_policies now s1
      in sec_log now s2 0 0 (''Security subsystem initialized, level=%d enforcing=%d'',
           [Num (uint (security_level s2)), Num (if mac_enforcing s2 then 1 else 0)]))"

text \<open>
  \<open>security_run_tests\<close> with the numbers of passed and failed tests; test 4 counts as passed on both
  branches.
\<close>

definition security_run_tests :: "u64 \<Rightarrow> security \<Rightarrow> security \<times> nat \<times> nat" where
  "security_run_tests now s =
     (let lbl = mac_label_init s SEC_DOMAIN_APP 3;
          t1 = domain lbl = SEC_DOMAIN_APP \<and> l_context lbl = 3;
          (s2, r) = mac_check_access now s (Some (mac_label_init s SEC_DOMAIN_APP 1))
                      (Some (mac_label_init s SEC_DOMAIN_SYSTEM 2)) MAC_PERM_READ;
          t2 = r = 0 \<or> r = - 1;
          (s3, sb) = sandbox_create now s2 (Some ''test_sandbox'') 0;
          t3 = 0 \<le> sb;
          s3' = if 0 \<le> sb then sandbox_destroy now s3 (nat sb) else s3;
          (s4, a) = aslr_randomize_stack s3' 0x7fff00000000;
          (s4', b) = aslr_randomize_stack s4 0x7fff00000000;
          (s5, c1) = canary_generate s4';
          (s5', c2) = canary_generate s5;
          t5 = c1 \<noteq> 0 \<and> c1 \<noteq> c2;
          s6 = sec_log now s5' 0 0 (''Test audit entry'', []);
          t6 = audit_count s5' < audit_count s6;
          s7 = cfi_register_function s6 0x1000 0x2000;
          t7 = shadow_stack (cfi s7) \<noteq> [];
          passed = Suc (length (filter id [t1, t2, t3, t5, t6, t7]));
          failed = length (filter Not [t1, t2, t3, t5, t6, t7])
      in (sec_log now s7 0 (if failed = 0 then 0 else 1)
            (''Security self-test: %d passed, %d failed'', [Num (int passed), Num (int failed)]), passed, failed))"

text \<open>
  The shell commands, without what they print.  \<open>None\<close> is the overflow of \<open>atoi\<close>, which C leaves
  undefined.
\<close>

definition sandbox_command :: "u64 \<Rightarrow> security \<Rightarrow> int \<Rightarrow> string list \<Rightarrow> security option" where
  "sandbox_command now s current argv =
     (if length argv = 0 then Some s
      else if str_cmp (argv ! 0) ''create'' = 1 \<and> 2 \<le> length argv then
        Some (fst (sandbox_create now s (Some (argv ! 1)) current))
      else if str_cmp (argv ! 0) ''destroy'' = 0 \<and> 2 \<le> length argv then
        map_option (\<lambda>k. sandbox_destroy now s (unat (word_of_int k :: u32))) (str_atoi (argv ! 1))
      else Some s)"

definition security_shell_dispatch :: "u64 \<Rightarrow> security \<Rightarrow> int \<Rightarrow> string \<Rightarrow> string list \<Rightarrow> security option" where
  "security_shell_dispatch now s current cmd argv =
     (let arg = (\<lambda>a. argv \<noteq> [] \<and> str_cmp (argv ! 0) a = 0) in
      if str_cmp cmd ''status'' = 0 then Some s
      else if str_cmp cmd ''mac'' = 0 then
        Some (if arg ''enforce'' then mac_set_enforcing now s True
              else if arg ''permissive'' then mac_set_enforcing now s False else s)
      else if str_cmp cmd ''sandbox'' = 0 then sandbox_command now s current argv
      else if str_cmp cmd ''aslr'' = 0 then
        Some (if argv \<noteq> [] then aslr_set_enabled now s (arg ''on'') else s)
      else if str_cmp cmd ''cfi'' = 0 then
        Some (if arg ''on'' then s\<lparr>cfi := (cfi s)\<lparr>cfi_enabled := True\<rparr>\<rparr>
              else if arg ''off'' then s\<lparr>cfi := (cfi s)\<lparr>cfi_enabled := False\<rparr>\<rparr>
              else if arg ''strict'' then s\<lparr>cfi := (cfi s)\<lparr>strict_mode := True\<rparr>\<rparr> else s)
      else if str_cmp cmd ''boot'' = 0 then Some s
      else if str_cmp cmd ''audit'' = 0 then
        Some (if arg ''clear'' then audit_clear s else if arg ''enable'' then audit_enable s True
              else if arg ''disable'' then audit_enable s False else s)
      else if str_cmp cmd ''test'' = 0 then Some (fst (security_run_tests now s))
      else Some s)"

section \<open>The audit log keeps the latest entries\<close>

definition audit_ok :: "security \<Rightarrow> bool" where
  "audit_ok s \<longleftrightarrow> audit_enabled s \<and> length (audit_buf s) = AUDIT_MAX_ENTRIES \<and> audit_head s < 4096 \<and> audit_count s \<le> 4096"

definition record_entry :: "audit_entry \<Rightarrow> security \<Rightarrow> security" where
  "record_entry e s = audit_log (timestamp e) s (a_type e) (a_pid e) (a_uid e) (a_result e) (message e)"

lemma audit_index_ring:
  assumes "audit_head s < 4096" and "i < 4096"
  shows "audit_index s i = ring_index 4096 (unat (audit_head s)) i"
proof -
  have h: "unat (audit_head s) < 4096" using assms(1) by (simp add: word_less_nat_alt)
  have "unat (audit_head s - 1 - of_nat i + 4096) = unat (audit_head s) + 4095 - i"
  proof -
    have "audit_head s - 1 - of_nat i + 4096 = of_nat (unat (audit_head s) + 4095 - i)"
      using assms(2) by (simp add: of_nat_diff)
    moreover have "unat (of_nat (unat (audit_head s) + 4095 - i) :: u32) = unat (audit_head s) + 4095 - i"
      by (subst unat_of_nat) (use h in simp)
    ultimately show ?thesis by (simp only:)
  qed
  then show ?thesis by (simp add: audit_index_def AUDIT_MAX_ENTRIES_def ring_index_def unat_mod)
qed

lemma audit_recent_all: "audit_recent s 0 = map (\<lambda>i. audit_buf s ! audit_index s i) [0..<unat (audit_count s)]"
  by (simp add: audit_recent_def)

lemma record_entry_ok: "audit_ok s \<Longrightarrow> audit_ok (record_entry e s)"
  by (auto simp: audit_ok_def record_entry_def audit_log_def AUDIT_MAX_ENTRIES_def word_mod_less_divisor
      inc_le not_le)

lemma record_entry_view:
  assumes ok: "audit_ok s"
  shows "audit_recent (record_entry e s) 0 = take AUDIT_MAX_ENTRIES (e # audit_recent s 0)"
proof -
  let ?h = "unat (audit_head s)" and ?c = "unat (audit_count s)" and ?s = "record_entry e s"
  have h: "?h < 4096" and c: "?c \<le> 4096" and hw: "audit_head s < 4096"
    using ok by (auto simp: audit_ok_def word_less_nat_alt word_le_nat_alt)
  have e: "\<lparr>timestamp = timestamp e, a_type = a_type e, a_pid = a_pid e, a_uid = a_uid e, a_result = a_result e,
      message = message e\<rparr> = e"
    by simp
  have head: "unat (audit_head ?s) = Suc ?h mod 4096" and buf: "audit_buf ?s = (audit_buf s)[?h := e]"
    and cnt: "unat (audit_count ?s) = min 4096 (Suc ?c)"
    using ok h c
    by (simp_all add: audit_ok_def record_entry_def audit_log_def AUDIT_MAX_ENTRIES_def unat_mod unat_word_ariths
        word_less_nat_alt word_le_nat_alt e)
  have hw': "audit_head ?s < 4096" using record_entry_ok [OF ok, of e] by (simp add: audit_ok_def)
  have idx: "audit_buf ?s ! audit_index ?s i = (e # audit_recent s 0) ! i" if i: "i < min 4096 (Suc ?c)" for i
  proof (cases i)
    case 0
    then show ?thesis
      using h ok by (simp add: audit_index_ring [OF hw'] head buf ring_index_zero audit_ok_def AUDIT_MAX_ENTRIES_def)
  next
    case (Suc j)
    with i have j: "j < ?c" "Suc j < 4096" by auto
    have "audit_index ?s i = ring_index 4096 ?h j" "ring_index 4096 ?h j \<noteq> ?h"
      using j Suc ring_index_Suc [OF h j(2)] by (simp_all add: audit_index_ring [OF hw'] head)
    with j Suc show ?thesis by (simp add: buf audit_recent_all audit_index_ring [OF hw])
  qed
  have "audit_recent ?s 0 = map ((!) (e # audit_recent s 0)) [0..<min 4096 (Suc ?c)]"
    unfolding audit_recent_all [of ?s] cnt by (intro map_cong refl idx) (simp only: set_upt atLeastLessThan_iff)
  also have "\<dots> = take 4096 (e # audit_recent s 0)"
    using map_nth_take [of "e # audit_recent s 0" 4096] by (simp add: audit_recent_all del: upt_Suc)
  finally show ?thesis by (simp add: AUDIT_MAX_ENTRIES_def)
qed

interpretation audit: bounded_log record_entry "\<lambda>s. audit_recent s 0" audit_ok AUDIT_MAX_ENTRIES
  by unfold_locales (simp_all add: record_entry_ok record_entry_view)

lemma audit_init_ok: "audit_ok (audit_init s)" "audit_recent (audit_init s) 0 = []"
  by (simp_all add: audit_ok_def audit_init_def audit_recent_def)

lemma audit_recent_take: "audit_recent s n = (if n = 0 then audit_recent s 0 else take (unat n) (audit_recent s 0))"
proof (cases "n = 0")
  case False
  then show ?thesis
    by (simp add: audit_recent_def take_map min_def not_less word_le_nat_alt word_less_nat_alt)
qed simp

text \<open>
  C21: The audit ring refines a bounded list.  Whatever entries are logged after \<open>audit_init\<close>,
  \<open>audit_print_recent\<close> shows the latest 4096 of them, newest first (the latest \<open>n\<close> of these when \<open>n\<close>
  is not 0), however often the ring has wrapped around.
\<close>

theorem audit_keeps_latest:
  "audit_recent (fold record_entry es (audit_init s)) n =
     take (if n = 0 then AUDIT_MAX_ENTRIES else unat n) (take AUDIT_MAX_ENTRIES (rev es))"
proof -
  have "audit_recent (fold record_entry es (audit_init s)) 0 = take AUDIT_MAX_ENTRIES (rev es)"
    using audit.fold_view [OF audit_init_ok(1), of s es] by (simp add: audit_init_ok(2))
  then show ?thesis by (subst audit_recent_take) simp
qed

section \<open>Mandatory access control\<close>

text \<open>Logging changes nothing but the log.\<close>

lemma audit_log_frame [simp]:
  "policies (audit_log now s ty p u r m) = policies s" "mac_enforcing (audit_log now s ty p u r m) = mac_enforcing s"
  "sandboxes (audit_log now s ty p u r m) = sandboxes s" "sandbox_count (audit_log now s ty p u r m) = sandbox_count s"
  "vb (audit_log now s ty p u r m) = vb s" "boot_state (audit_log now s ty p u r m) = boot_state s"
  "rollback_index (audit_log now s ty p u r m) = rollback_index s" "default_labels (audit_log now s ty p u r m) = default_labels s"
  "aslr (audit_log now s ty p u r m) = aslr s" "aslr_prng_seed (audit_log now s ty p u r m) = aslr_prng_seed s"
  "cfi (audit_log now s ty p u r m) = cfi s" "system_canary (audit_log now s ty p u r m) = system_canary s"
  "security_level (audit_log now s ty p u r m) = security_level s"
  by (simp_all add: audit_log_def)

lemma sec_log_frame [simp]:
  "policies (sec_log now s p r m) = policies s" "mac_enforcing (sec_log now s p r m) = mac_enforcing s"
  "sandboxes (sec_log now s p r m) = sandboxes s" "sandbox_count (sec_log now s p r m) = sandbox_count s"
  "vb (sec_log now s p r m) = vb s" "boot_state (sec_log now s p r m) = boot_state s"
  "rollback_index (sec_log now s p r m) = rollback_index s" "default_labels (sec_log now s p r m) = default_labels s"
  "aslr (sec_log now s p r m) = aslr s" "aslr_prng_seed (sec_log now s p r m) = aslr_prng_seed s"
  "cfi (sec_log now s p r m) = cfi s" "system_canary (sec_log now s p r m) = system_canary s"
  "security_level (sec_log now s p r m) = security_level s"
  by (simp_all add: sec_log_def)

definition pol :: "u32 \<Rightarrow> u32 \<Rightarrow> u32 \<Rightarrow> mac_policy" where
  "pol sd od perms = \<lparr>subject_domain = sd, object_domain = od, permissions = perms\<rparr>"

definition default_policies :: "mac_policy list" where
  "default_policies = [pol 3 0 0, pol 3 1 1, pol 4 1 0, pol 5 1 5, pol 2 0 0, pol 1 0 1]"

lemma mac_add_policy_policies:
  "length (policies s) < 128 \<Longrightarrow> policies (mac_add_policy now sd od perms s) = policies s @ [pol sd od perms]"
  "mac_enforcing (mac_add_policy now sd od perms s) = mac_enforcing s"
  by (simp_all add: mac_add_policy_def pol_def)

lemma security_init_policies:
  "policies (security_init now t s) = default_policies" "mac_enforcing (security_init now t s)"
  by (simp_all add: security_init_def mac_load_default_policies_def mac_add_policy_policies Let_def audit_init_def
      canary_init_def nx_init_def cfi_init_def aslr_init_def sandbox_init_def vb_init_def mac_init_def
      default_policies_def sec_domains mac_perms)

lemma policy_decision_default:
  "policy_decision default_policies sd od perm =
     map_option (\<lambda>allowed. allowed AND perm = perm)
       (map_of [((3, 0), 0), ((3, 1), 1), ((4, 1), 0), ((5, 1), 5), ((2, 0), 0), ((1, 0), 1)] (sd, od))"
  by (simp add: default_policies_def pol_def)

lemma audit_log_entry:
  "audit_log now s ty pd ud res msg =
     record_entry \<lparr>timestamp = now, a_type = ty, a_pid = pd, a_uid = ud, a_result = res, message = msg\<rparr> s"
  by (simp add: record_entry_def)

lemma audit_ok_log [simp]: "audit_ok s \<Longrightarrow> audit_ok (audit_log now s ty pd ud res msg)"
  by (simp add: audit_log_entry record_entry_ok)

lemma audit_ok_sec_log [simp]: "audit_ok s \<Longrightarrow> audit_ok (sec_log now s pd res msg)"
  by (simp add: sec_log_def)

lemma audit_ok_policies [simp]: "audit_ok s \<Longrightarrow> audit_ok (mac_add_policy now sd od perms s)"
proof -
  have "audit_ok (s\<lparr>policies := ps\<rparr>) = audit_ok s" for ps by (simp add: audit_ok_def)
  then show "audit_ok s \<Longrightarrow> audit_ok (mac_add_policy now sd od perms s)" by (simp add: mac_add_policy_def)
qed

lemma security_init_audit: "audit_ok (security_init now t s)"
  by (simp add: security_init_def mac_load_default_policies_def Let_def audit_init_ok)

definition deny_entry :: "u64 \<Rightarrow> mac_label \<Rightarrow> mac_label \<Rightarrow> u32 \<Rightarrow> audit_entry" where
  "deny_entry now sub obj perm = \<lparr>timestamp = now, a_type = AUDIT_MAC_VIOLATION, a_pid = 0, a_uid = 0, a_result = - 1,
     message = (''MAC denied: domain=%d -> domain=%d perm=0x%x'', [Num (uint (domain sub)), Num (uint (domain obj)), Num (uint perm)])\<rparr>"

lemma mac_deny_logged:
  assumes "audit_ok s"
  shows "snd (mac_deny now s sub obj perm) = - 1"
    and "audit_recent (fst (mac_deny now s sub obj perm)) 0 = take AUDIT_MAX_ENTRIES (deny_entry now sub obj perm # audit_recent s 0)"
  using record_entry_view [OF assms] by (simp_all add: mac_deny_def audit_log_entry deny_entry_def)

lemma and_covers: "(a :: u32) AND perm = perm \<Longrightarrow> perm AND w \<noteq> 0 \<Longrightarrow> a AND w \<noteq> 0"
  by (auto simp: bit_eq_iff bit_simps)

lemma policy_no_write:
  "\<forall>p \<in> set ps. permissions p AND w = 0 \<Longrightarrow> perm AND w \<noteq> 0 \<Longrightarrow> policy_decision ps sd od perm \<noteq> Some True"
  by (induction ps) (auto dest: and_covers)

lemma default_policies_no_write:
  "perm AND MAC_PERM_WRITE \<noteq> 0 \<Longrightarrow> policy_decision default_policies sd od perm \<noteq> Some True"
  by (rule policy_no_write [of _ MAC_PERM_WRITE]) (simp_all add: default_policies_def pol_def mac_perms)

lemma write_denied:
  assumes "policies s = default_policies" and "mac_enforcing s"
    and "domain sub \<noteq> SEC_DOMAIN_KERNEL" and "domain sub \<noteq> domain obj" and w: "perm AND MAC_PERM_WRITE \<noteq> 0"
  shows "mac_check_access now s (Some sub) (Some obj) perm = mac_deny now s sub obj perm"
proof -
  have "perm \<noteq> MAC_PERM_READ" using w by (auto simp: mac_perms)
  with assms default_policies_no_write [OF w, of "domain sub" "domain obj"] show ?thesis
    by (simp add: mac_check_access_def split: option.split bool.split)
qed

text \<open>
  C20: Mandatory access control after \<open>security_init\<close>.  Nobody outside the kernel domain may write to
  an object of another domain: the check answers -1 and the refusal is the newest audit entry.
\<close>

theorem mac_no_cross_domain_write:
  assumes "domain sub \<noteq> SEC_DOMAIN_KERNEL" and "domain sub \<noteq> domain obj" and "perm AND MAC_PERM_WRITE \<noteq> 0"
    and "mac_check_access now' (security_init now t s) (Some sub) (Some obj) perm = (s', r)"
  shows "r = - 1 \<and> audit_recent s' 0 = take AUDIT_MAX_ENTRIES (deny_entry now' sub obj perm # audit_recent (security_init now t s) 0)"
  using assms(4) mac_deny_logged [OF security_init_audit, of now' now t s sub obj perm]
  by (simp add: write_denied [OF security_init_policies assms(1-3)])

lemma isolated_reads_kernel:
  assumes "domain sub = SEC_DOMAIN_ISOLATED" and "domain obj = SEC_DOMAIN_KERNEL" and "l_type obj = 2"
  shows "mac_check_access now' (security_init now t s) (Some sub) (Some obj) MAC_PERM_READ = (security_init now t s, 0)"
  using assms by (simp add: mac_check_access_def security_init_policies policy_decision_default sec_domains mac_perms)

definition app_label :: mac_label where
  "app_label = mac_label_init (security_init 0 0 g_security) SEC_DOMAIN_APP 1"

definition system_label :: mac_label where
  "system_label = mac_label_init (security_init 0 0 g_security) SEC_DOMAIN_SYSTEM 2"

theorem mac_no_cross_domain_write_witness:
  "snd (mac_check_access 7 (security_init 0 0 g_security) (Some app_label) (Some system_label) MAC_PERM_WRITE) = - 1"
proof -
  obtain s' r where "mac_check_access 7 (security_init 0 0 g_security) (Some app_label) (Some system_label) MAC_PERM_WRITE = (s', r)"
    by (rule prod.exhaust)
  with mac_no_cross_domain_write [OF _ _ _ this] show ?thesis
    by (simp add: app_label_def system_label_def mac_label_init_def sec_domains mac_perms)
qed

section \<open>The table of sandboxes\<close>

definition sandbox_ok :: "security \<Rightarrow> bool" where
  "sandbox_ok s \<longleftrightarrow> map sb_id (sandboxes s) = [0..<SANDBOX_MAX] \<and> (\<forall>sb \<in> set (sandboxes s). length (rules sb) \<le> SB_MAX_RULES)
     \<and> sandbox_count s = of_nat (length (filter active (sandboxes s)))"

lemma sandbox_ok_length: "sandbox_ok s \<Longrightarrow> length (sandboxes s) = SANDBOX_MAX"
  unfolding sandbox_ok_def by (metis diff_zero length_map length_upt)

lemma sandbox_ok_id: "sandbox_ok s \<Longrightarrow> i < SANDBOX_MAX \<Longrightarrow> sb_id (sandboxes s ! i) = i"
  using sandbox_ok_length [of s] unfolding sandbox_ok_def by (metis add.left_neutral nth_map nth_upt)

lemma sandbox_ok_update:
  assumes ok: "sandbox_ok s" and i: "i < SANDBOX_MAX" and "sb_id sb = i" and "length (rules sb) \<le> SB_MAX_RULES"
    and c: "c + (if active (sandboxes s ! i) then 1 else 0) = sandbox_count s + (if active sb then 1 else 0)"
  shows "sandbox_ok (s\<lparr>sandboxes := (sandboxes s)[i := sb], sandbox_count := c\<rparr>)"
proof -
  have len: "i < length (sandboxes s)" using i sandbox_ok_length [OF ok] by simp
  have ids: "map sb_id ((sandboxes s)[i := sb]) = [0..<SANDBOX_MAX]"
    using ok i assms(3) by (simp add: sandbox_ok_def map_update list_update_same_conv)
  have "(of_nat (length (filter active ((sandboxes s)[i := sb]))) :: u32) + (if active (sandboxes s ! i) then 1 else 0)
      = sandbox_count s + (if active sb then 1 else 0)"
    using arg_cong [OF length_filter_update [OF len, of active sb], of "of_nat :: nat \<Rightarrow> u32"] ok
    by (simp add: sandbox_ok_def split: if_splits)
  with c have "c = of_nat (length (filter active ((sandboxes s)[i := sb])))" by (metis add_right_cancel)
  moreover have "length (rules x) \<le> SB_MAX_RULES" if "x \<in> set ((sandboxes s)[i := sb])" for x
    using that set_update_subset_insert [of "sandboxes s" i sb] ok assms(4) by (auto simp: sandbox_ok_def)
  ultimately show ?thesis using ids by (simp add: sandbox_ok_def)
qed

lemma sandbox_ok_log [simp]: "sandbox_ok (sec_log now s p r m) = sandbox_ok s" "sandbox_ok (audit_log now s ty p u r m) = sandbox_ok s"
  by (simp_all add: sandbox_ok_def)

lemma sandbox_ok_frame: "sandboxes s' = sandboxes s \<Longrightarrow> sandbox_count s' = sandbox_count s \<Longrightarrow> sandbox_ok s' = sandbox_ok s"
  by (simp add: sandbox_ok_def)

text \<open>What \<open>sandbox_create\<close> puts into the slot it chose.\<close>

definition rule :: "u32 \<Rightarrow> string \<Rightarrow> sandbox_rule" where
  "rule act tgt = \<lparr>action = act, target_type = SB_TARGET_FILE, r_target = tgt\<rparr>"

definition default_rules :: "sandbox_rule list" where
  "default_rules = [rule SB_RULE_DENY ''/'', rule SB_RULE_ALLOW ''/dev/null'', rule SB_RULE_ALLOW ''/dev/zero'',
     rule SB_RULE_ALLOW ''/dev/random'', rule SB_RULE_ALLOW ''/dev/urandom'']"

definition fresh_sandbox :: "security \<Rightarrow> nat \<Rightarrow> string \<Rightarrow> int \<Rightarrow> sandbox" where
  "fresh_sandbox s i nm own = (zero_sandbox i)\<lparr>active := True, sb_owner := own, sb_name := take 63 nm,
     sb_label := (mac_label_init s SEC_DOMAIN_ISOLATED 3)\<lparr>l_flags := MAC_FLAG_SANDBOXED OR MAC_FLAG_NO_NETWORK\<rparr>,
     rules := default_rules, limits := default_limits\<rparr>"

lemma add_rule_update:
  assumes "i < SANDBOX_MAX" and "length (sandboxes s) = SANDBOX_MAX" and "active sb" and "length (rules sb) < SB_MAX_RULES"
  shows "fst (sandbox_add_rule (s\<lparr>sandboxes := (sandboxes s)[i := sb]\<rparr>) i act SB_TARGET_FILE (Some tgt)) =
     s\<lparr>sandboxes := (sandboxes s)[i := sb\<lparr>rules := rules sb @ [rule act (take 255 tgt)]\<rparr>]\<rparr>"
  using assms by (simp add: sandbox_add_rule_def upd_sandbox_def rule_def)

lemma sandbox_create_fresh:
  assumes "length (sandboxes s) = SANDBOX_MAX" and "first_slot (\<lambda>i. \<not> active (sandboxes s ! i)) 0 SANDBOX_MAX = Some i"
  shows "sandbox_create now s (Some nm) own =
     (sec_log now (s\<lparr>sandboxes := (sandboxes s)[i := fresh_sandbox s i nm own], sandbox_count := sandbox_count s + 1\<rparr>) own 0
        (''Sandbox created: %s (id=%d)'', [Str nm, Num (int i)]), int i)"
proof -
  have i: "i < SANDBOX_MAX" using first_slot_Some [OF assms(2)] by simp
  show ?thesis
    unfolding sandbox_create_def Let_def option.case assms(2) upd_sandbox_def [of s i]
    by (simp add: add_rule_update [OF i assms(1)] zero_sandbox_def SB_MAX_RULES_def upd_sandbox_def i assms(1)
        fresh_sandbox_def default_rules_def)
qed

datatype sandbox_op = Create "string option" int | Destroy nat | AddRule nat u32 u32 "string option"
  | SetLimits nat "sandbox_limits option" | Check nat u32 "string option" u32

fun sandbox_step :: "u64 \<Rightarrow> sandbox_op \<Rightarrow> security \<Rightarrow> security" where
  "sandbox_step now (Create nm own) s = fst (sandbox_create now s nm own)"
| "sandbox_step now (Destroy i) s = sandbox_destroy now s i"
| "sandbox_step now (AddRule i act ty tgt) s = fst (sandbox_add_rule s i act ty tgt)"
| "sandbox_step now (SetLimits i l) s = sandbox_set_limits s i l"
| "sandbox_step now (Check i ty tgt acc) s = fst (sandbox_check_access now s i ty tgt acc)"

lemma sandbox_init_ok: "sandbox_ok (sandbox_init s)"
proof -
  have "filter active (map zero_sandbox [0..<SANDBOX_MAX]) = []" by (simp add: zero_sandbox_def)
  moreover have "map (sb_id \<circ> zero_sandbox) [0..<SANDBOX_MAX] = [0..<SANDBOX_MAX]"
    by (rule map_idI) (simp add: zero_sandbox_def)
  ultimately show ?thesis by (auto simp: sandbox_ok_def sandbox_init_def zero_sandbox_def)
qed

lemma sandbox_ok_upd:
  assumes "sandbox_ok s" and "i < SANDBOX_MAX" and "sb_id (f (sandboxes s ! i)) = i"
    and "length (rules (f (sandboxes s ! i))) \<le> SB_MAX_RULES" and "active (f (sandboxes s ! i)) = active (sandboxes s ! i)"
  shows "sandbox_ok (upd_sandbox s i f)"
  using sandbox_ok_update [OF assms(1-4), of "sandbox_count s"] assms(5) by (simp add: upd_sandbox_def)

lemma sandbox_ok_rules: "sandbox_ok s \<Longrightarrow> i < SANDBOX_MAX \<Longrightarrow> length (rules (sandboxes s ! i)) \<le> SB_MAX_RULES"
  using sandbox_ok_length [of s] by (simp add: sandbox_ok_def)

lemma sandbox_create_ok: "sandbox_ok s \<Longrightarrow> sandbox_ok (fst (sandbox_create now s nm own))"
proof (cases nm)
  case None
  then show "sandbox_ok s \<Longrightarrow> ?thesis" by (simp add: sandbox_create_def)
next
  case (Some n)
  assume ok: "sandbox_ok s"
  show ?thesis
  proof (cases "first_slot (\<lambda>i. \<not> active (sandboxes s ! i)) 0 SANDBOX_MAX")
    case None
    with Some ok show ?thesis by (simp add: sandbox_create_def)
  next
    case (Some i)
    then have "i < SANDBOX_MAX" "\<not> active (sandboxes s ! i)" using first_slot_Some [OF Some] by auto
    then show ?thesis unfolding \<open>nm = Some n\<close> sandbox_create_fresh [OF sandbox_ok_length [OF ok] Some]
      by (simp, intro sandbox_ok_update [OF ok])
        (simp_all add: fresh_sandbox_def zero_sandbox_def default_rules_def SB_MAX_RULES_def)
  qed
qed

lemma sandbox_destroy_ok: "sandbox_ok s \<Longrightarrow> sandbox_ok (sandbox_destroy now s i)"
proof -
  assume ok: "sandbox_ok s"
  have "sandbox_ok (s\<lparr>sandboxes := (sandboxes s)[i := (sandboxes s ! i)\<lparr>active := False\<rparr>], sandbox_count := sandbox_count s - 1\<rparr>)"
    if "i < SANDBOX_MAX" "active (sandboxes s ! i)"
    using that sandbox_ok_id [OF ok] sandbox_ok_rules [OF ok] by (intro sandbox_ok_update [OF ok]) simp_all
  with ok show ?thesis by (simp add: sandbox_destroy_def Let_def upd_sandbox_def)
qed

lemma sandbox_step_ok: "sandbox_ok s \<Longrightarrow> sandbox_ok (sandbox_step now op s)"
proof (cases op)
  case (AddRule i act ty tgt)
  then show "sandbox_ok s \<Longrightarrow> ?thesis"
    by (auto simp: sandbox_add_rule_def sandbox_ok_id split: option.split intro!: sandbox_ok_upd)
next
  case (SetLimits i l)
  then show "sandbox_ok s \<Longrightarrow> ?thesis"
    by (auto simp: sandbox_set_limits_def sandbox_ok_id sandbox_ok_rules split: option.split intro!: sandbox_ok_upd)
next
  case (Check i ty tgt acc)
  then show "sandbox_ok s \<Longrightarrow> ?thesis"
    by (auto simp: sandbox_check_access_def split: option.split verdict.split)
qed (simp_all add: sandbox_create_ok sandbox_destroy_ok)

text \<open>
  The sandbox table invariant.  After \<open>sandbox_init\<close> and any sequence of sandbox operations with
  any arguments, the 64 slots carry their own numbers, no slot has more than 32 rules, and
  \<open>sandbox_count\<close> is the number of active slots.
\<close>

theorem sandbox_table_invariant: "sandbox_ok (fold (sandbox_step now) ops (sandbox_init s))"
proof -
  have "sandbox_ok s \<Longrightarrow> sandbox_ok (fold (sandbox_step now) ops s)" for s
    by (induction ops arbitrary: s) (simp_all add: sandbox_step_ok)
  then show ?thesis using sandbox_init_ok by blast
qed

text \<open>The rule loop as a reference: the first rule with a known action that matches decides.\<close>

definition matches :: "u32 \<Rightarrow> string \<Rightarrow> sandbox_rule \<Rightarrow> bool" where
  "matches ty tgt r \<longleftrightarrow> target_type r = ty \<and> str_prefix (r_target r) tgt \<and> action r \<in> {1, 2, 3, 4}"

definition reference_verdict :: "sandbox_rule list \<Rightarrow> u32 \<Rightarrow> string \<Rightarrow> u32 \<Rightarrow> verdict" where
  "reference_verdict rs ty tgt acc =
     (case find (matches ty tgt) rs of
        None \<Rightarrow> Deny
      | Some r \<Rightarrow>
          if action r = SB_RULE_ALLOW \<or> action r = SB_RULE_READ_ONLY \<and> acc = MAC_PERM_READ then Allow
          else if action r = SB_RULE_LOG then AllowLogged else Deny)"

lemma rule_verdict_reference: "rule_verdict rs ty tgt acc = reference_verdict rs ty tgt acc"
  by (induction rs) (auto simp: reference_verdict_def matches_def sb_actions)

text \<open>
  A new sandbox denies every path.  \<open>sandbox_create\<close> takes the lowest free slot (or fails when all
  64 are in use), and from then on every absolute path is refused for every access, /dev/null and the
  other devices of its allow rules included: the rule against "/" comes first and decides.
\<close>

theorem sandbox_create_denies_all:
  assumes "sandbox_ok s" and "sandbox_create now s (Some nm) own = (s', r)"
  shows "(r = - 1 \<and> s' = s \<and> (\<forall>i < SANDBOX_MAX. active (sandboxes s ! i)))
    \<or> (\<exists>i < SANDBOX_MAX. r = int i \<and> \<not> active (sandboxes s ! i) \<and> (\<forall>j < i. active (sandboxes s ! j))
        \<and> sandbox_get s' i = Some (fresh_sandbox s i nm own)
        \<and> (\<forall>j. j \<noteq> i \<longrightarrow> sandbox_get s' j = sandbox_get s j)
        \<and> (\<forall>now' path acc. snd (sandbox_check_access now' s' i SB_TARGET_FILE (Some (CHR ''/'' # path)) acc) = - 1))"
proof (cases "first_slot (\<lambda>i. \<not> active (sandboxes s ! i)) 0 SANDBOX_MAX")
  case None
  with assms(2) have "r = - 1" "s' = s" by (auto simp: sandbox_create_def)
  with None show ?thesis by (simp add: first_slot_None)
next
  case (Some i)
  note i = first_slot_Some [OF Some]
  have s': "sandboxes s' = (sandboxes s)[i := fresh_sandbox s i nm own]" "r = int i"
    using assms(2) sandbox_create_fresh [OF sandbox_ok_length [OF assms(1)] Some, of now nm own] by auto
  have "sandbox_get s' i = Some (fresh_sandbox s i nm own)"
    using i s' sandbox_ok_length [OF assms(1)] by (simp add: sandbox_get_def fresh_sandbox_def)
  moreover have "sandbox_get s' j = sandbox_get s j" if "j \<noteq> i" for j
    using that s' by (simp add: sandbox_get_def)
  moreover have "snd (sandbox_check_access now' s' i SB_TARGET_FILE (Some (CHR ''/'' # path)) acc) = - 1" for now' path acc
    using i s' sandbox_ok_length [OF assms(1)]
    by (simp add: sandbox_check_access_def fresh_sandbox_def default_rules_def rule_def str_prefix_def sb_actions)
  ultimately show ?thesis using i s' by auto
qed

theorem sandbox_create_denies_all_witness:
  "\<exists>s'. sandbox_create 0 (sandbox_init g_security) (Some ''web'') 7 = (s', 0) \<and>
     snd (sandbox_check_access 0 s' 0 SB_TARGET_FILE (Some ''/dev/null'') MAC_PERM_READ) = - 1"
proof -
  let ?s = "sandbox_init g_security"
  have free: "\<not> active (sandboxes ?s ! 0)" by (simp add: sandbox_init_def SANDBOX_MAX_def zero_sandbox_def)
  obtain s' r where c: "sandbox_create 0 ?s (Some ''web'') 7 = (s', r)" by (rule prod.exhaust)
  from sandbox_create_denies_all [OF sandbox_init_ok c] free show ?thesis
    using c by (fastforce simp: SANDBOX_MAX_def)
qed

section \<open>Verified boot\<close>

lemma hash_loop_append: "hash_loop i (xs @ ys) h = hash_loop (i + length xs) ys (hash_loop i xs h)"
  by (induction xs arbitrary: i h) simp_all

lemma hash_byte_swap:
  "hash_byte (i + 4) b (hash_byte (i + 3) z (hash_byte (i + 2) y (hash_byte (i + 1) x (hash_byte i a h)))) =
   hash_byte (i + 4) a (hash_byte (i + 3) z (hash_byte (i + 2) y (hash_byte (i + 1) x (hash_byte i b h))))"
proof -
  have "(i + 4) mod 4 = i mod 4" "(i + 4 + 1) mod 4 = (i + 1) mod 4" by presburger+
  then show ?thesis by (cases h) (simp add: hash_byte_def xor.assoc xor.commute xor.left_commute ac_simps)
qed

lemma hash_swap: "pkg_hash_sha256 (xs @ [a, x, y, z, b] @ zs) = pkg_hash_sha256 (xs @ [b, x, y, z, a] @ zs)"
  using hash_byte_swap [of "length xs"]
  by (simp add: pkg_hash_sha256_def hash_loop_append numeral_eq_Suc)

lemma vb_verify_hash_only:
  "pkg_hash_sha256 d = pkg_hash_sha256 d' \<Longrightarrow> d \<noteq> [] \<Longrightarrow> d' \<noteq> [] \<Longrightarrow>
     vb_verify_partition s nm (Some d) = vb_verify_partition s nm (Some d')"
  by (simp add: vb_verify_partition_def split: option.split)

text \<open>
  The hash of verified boot does not bind the image.  If \<open>vb_verify_partition\<close> accepts an image,
  it accepts every image in which two bytes four positions apart have been swapped; and after
  \<open>vb_verify_chain\<close> a boot state that a failed partition had turned RED is GREEN again.
\<close>

theorem vb_accepts_tampered_image:
  assumes "vb_verify_partition s (Some nm) (Some (xs @ [a, x, y, z, b] @ zs)) = (s', 0)"
  shows "vb_verify_partition s (Some nm) (Some (xs @ [b, x, y, z, a] @ zs)) = (s', 0)
    \<and> (\<forall>d now. vb_magic (vb s) = VB_MAGIC \<longrightarrow>
         boot_state (fst (vb_verify_chain now (fst (vb_verify_partition s (Some nm) d)))) = BOOT_STATE_GREEN)"
proof -
  have "vb (fst (vb_verify_partition s (Some nm) d)) = vb s" for d
    by (auto simp: vb_verify_partition_def split: option.split)
  moreover have "vb_verify_partition s (Some nm) (Some (xs @ [b, x, y, z, a] @ zs)) = (s', 0)"
    using assms vb_verify_hash_only [OF hash_swap, of xs a x y z b zs s "Some nm"] by simp
  ultimately show ?thesis by (simp add: vb_verify_chain_def)
qed

definition boot_image :: "u8 list" where
  "boot_image = [1, 2, 3, 4, 5, 6]"

definition boot_security :: security where
  "boot_security = (vb_init g_security)\<lparr>vb := (vb (vb_init g_security))\<lparr>partitions :=
     [\<lparr>vb_name = ''boot'', vb_hash = pkg_hash_sha256 boot_image, vb_rollback = 0\<rparr>]\<rparr>\<rparr>"

theorem vb_accepts_tampered_image_witness:
  "snd (vb_verify_partition boot_security (Some ''boot'') (Some [5, 2, 3, 4, 1, 6])) = 0"
proof -
  have "vb_verify_partition boot_security (Some ''boot'') (Some ([] @ [1, 2, 3, 4, 5] @ [6])) = (boot_security, 0)"
    by (simp add: vb_verify_partition_def boot_security_def boot_image_def vb_init_def)
  from vb_accepts_tampered_image [OF this] show ?thesis by simp
qed

section \<open>Exploit mitigations\<close>

lemma page_part:
  assumes "12 \<le> n" and "n < 64"
  shows "\<exists>k < 2 ^ (n - 12). ((r :: u64) AND mask n) AND NOT (mask 12) = of_nat (4096 * k)"
proof (intro exI conjI)
  let ?w = "drop_bit 12 (take_bit n r)"
  have "take_bit n (unat r) < 2 ^ n" by simp
  also have "(2 :: nat) ^ n = 2 ^ (n - 12) * 4096" using assms(1) power_add [of "2 :: nat" "n - 12" 12] by simp
  finally have "unat (take_bit n r) < 2 ^ (n - 12) * 4096" by (simp add: unsigned_take_bit_eq)
  then show "unat ?w < 2 ^ (n - 12)"
    by (simp add: drop_bit_eq_div unat_div div_less_iff_less_mult)
  have "of_nat (4096 * unat ?w) = push_bit 12 ?w" by (simp add: push_bit_eq_mult)
  also have "\<dots> = (r AND mask n) AND NOT (mask 12)"
    by (rule bit_word_eqI) (auto simp: bit_simps)
  finally show "(r AND mask n) AND NOT (mask 12) = of_nat (4096 * unat ?w)" by simp
qed

text \<open>
  Bounds of the address randomisation.  The offsets are whole pages, fewer than 16 of them below
  the base of a stack, fewer than 64 above the base of an executable and fewer than 4 above the base
  of a mapping; but to the last the remainder of the requested size is added, so the address of a
  mapping is page-aligned only when the size is.
\<close>

theorem aslr_bounds:
  "(\<exists>k < 16. snd (aslr_randomize_stack s base) = base - of_nat (4096 * k))
    \<and> (\<exists>k < 64. snd (aslr_randomize_pie s base) = base + of_nat (4096 * k))
    \<and> snd (aslr_randomize_mmap s base sz) \<in> insert base {base + of_nat (4096 * k) + of_nat (unat sz mod 4096) |k. k < 4}"
proof (intro conjI)
  define r where "r = snd (aslr_prng (aslr_prng_seed s))"
  have case_prng: "(case aslr_prng (aslr_prng_seed s) of (seed, x) \<Rightarrow> f seed x) = f (fst (aslr_prng (aslr_prng_seed s))) r" for f
    by (simp add: r_def case_prod_beta)
  show "\<exists>k < 16. snd (aslr_randomize_stack s base) = base - of_nat (4096 * k)"
    using page_part [of 16 r] by (auto simp: aslr_randomize_stack_def case_prng simp del: of_nat_mult intro: exI [of _ 0])
  show "\<exists>k < 64. snd (aslr_randomize_pie s base) = base + of_nat (4096 * k)"
    using page_part [of 18 r] by (auto simp: aslr_randomize_pie_def case_prng simp del: of_nat_mult intro: exI [of _ 0])
  have "unat (take_bit 12 sz) = unat sz mod 4096" by (simp add: take_bit_eq_mod unat_mod)
  then have "sz AND mask 12 = of_nat (unat sz mod 4096)" by (simp add: take_bit_eq_mask flip: \<open>unat (take_bit 12 sz) = _\<close>)
  then show "snd (aslr_randomize_mmap s base sz) \<in> insert base {base + of_nat (4096 * k) + of_nat (unat sz mod 4096) |k. k < 4}"
    using page_part [of 14 r] by (auto simp: aslr_randomize_mmap_def case_prng and.assoc simp del: of_nat_mult)
qed

section \<open>Shell commands and self-test\<close>

text \<open>
  The sandbox commands are mixed up.  The test for "create" asks whether \<open>strcmp\<close> is 1, which it
  is for "destroy": \<open>sec sandbox destroy 3\<close> creates a sandbox named "3" and destroys nothing, and
  \<open>sec sandbox create\<close> does nothing.
\<close>

theorem shell_destroy_creates:
  "security_shell_dispatch now s current ''sandbox'' [''destroy'', a] = Some (fst (sandbox_create now s (Some a) current))
    \<and> security_shell_dispatch now s current ''sandbox'' [''create'', a] = Some s"
  by (simp add: security_shell_dispatch_def sandbox_command_def)

definition audit_full :: "security \<Rightarrow> bool" where
  "audit_full s \<longleftrightarrow> audit_enabled s \<and> audit_count s = of_nat AUDIT_MAX_ENTRIES"

lemma audit_full_frame [simp]:
  "audit_full (upd_sandbox s i f) = audit_full s" "audit_full (s\<lparr>sandbox_count := c\<rparr>) = audit_full s"
  "audit_full (fst (sandbox_add_rule s i act ty tgt)) = audit_full s"
  "audit_full (s\<lparr>cfi := c'\<rparr>) = audit_full s" "audit_full (s\<lparr>aslr_prng_seed := seed\<rparr>) = audit_full s"
  by (auto simp: audit_full_def upd_sandbox_def sandbox_add_rule_def split: option.split)

lemma audit_full_keeps:
  assumes "audit_full s"
  shows "audit_full (audit_log now s ty p u r m)" "audit_full (sec_log now s p r m)"
    "audit_full (fst (mac_check_access now s sub obj perm))" "audit_full (fst (sandbox_create now s nm own))"
    "audit_full (sandbox_destroy now s i)" "audit_full (fst (aslr_randomize_stack s base))" "audit_full (fst (canary_generate s))"
proof -
  have log: "audit_full (audit_log now s ty p u r m)" if "audit_full s" for s now ty p u r m
    using that by (simp add: audit_full_def audit_log_def AUDIT_MAX_ENTRIES_def)
  then have slog: "audit_full (sec_log now s p r m)" if "audit_full s" for s now p r m
    using that by (simp add: sec_log_def)
  show "audit_full (audit_log now s ty p u r m)" "audit_full (sec_log now s p r m)"
    using assms log slog by blast+
  show "audit_full (fst (mac_check_access now s sub obj perm))"
    using assms log by (auto simp: mac_check_access_def mac_deny_def split: option.split bool.split)
  show "audit_full (sandbox_destroy now s i)"
    using assms slog by (simp add: sandbox_destroy_def Let_def)
  show "audit_full (fst (aslr_randomize_stack s base))" "audit_full (fst (canary_generate s))"
    using assms by (simp_all add: aslr_randomize_stack_def canary_generate_def case_prod_beta)
  show "audit_full (fst (sandbox_create now s nm own))"
    using assms slog by (simp add: sandbox_create_def Let_def split: option.split)
qed

text \<open>Once the log is full, the self-test reports a failure of the audit log.\<close>

lemma self_test_fails_on_full_log:
  assumes "audit_full s"
  shows "0 < snd (snd (security_run_tests now s))"
proof -
  have "\<not> audit_count s < audit_count (sec_log now s 0 0 m)" if "audit_full s" for s m
    using that audit_full_keeps(2) [OF that, of now 0 0 m] by (simp add: audit_full_def)
  then show ?thesis using assms
    by (auto simp: security_run_tests_def Let_def case_prod_beta audit_full_keeps simp del: sec_log_frame)
qed

text \<open>A canary that \<open>canary_generate\<close> has just returned fails \<open>canary_verify\<close>, which draws a new one.\<close>

lemma canary_rejected:
  fixes now s
  defines "g \<equiv> security_init now 1 s"
  shows "snd (canary_verify now' (fst (canary_generate g)) (snd (canary_generate g))) = - 1"
proof -
  have "aslr_prng_seed g = 0xDEADBEEFCAFEBABF" "system_canary g = STACK_CANARY_VALUE XOR 1"
    by (simp_all add: g_def security_init_def mac_load_default_policies_def mac_add_policy_def Let_def audit_init_def
      canary_init_def nx_init_def cfi_init_def aslr_init_def)
  then show ?thesis
    by (simp add: canary_verify_def canary_generate_def aslr_prng_def Let_def STACK_CANARY_VALUE_def)
qed

end
