(* ===== verification/Disk.thy ===== *)
theory Disk
  imports Prelude
begin

text \<open>
  The block device that the file system is mounted on, and the layout of numbers in its bytes.  The
  C structure holds function pointers, so the device is a record of functions over an unknown state
  \<open>'d\<close>; what the file system relies on is \<open>faithful\<close>: within the size of the device a read returns the
  bytes last written.  A disk in memory is an instance.
\<close>

section \<open>Little-endian numbers\<close>

primrec le :: "nat \<Rightarrow> nat \<Rightarrow> u8 list" where
  "le 0 x = []"
| "le (Suc n) x = of_nat x # le n (x div 256)"

primrec unle :: "u8 list \<Rightarrow> nat" where
  "unle [] = 0"
| "unle (b # bs) = unat b + 256 * unle bs"

lemma length_le [simp]: "length (le n x) = n"
  by (induction n arbitrary: x) simp_all

lemma unle_le: "unle (le n x) = x mod 256 ^ n"
proof (induction n arbitrary: x)
  case (Suc n)
  have "unle (le (Suc n) x) = x mod 256 + 256 * (x div 256 mod 256 ^ n)"
    using Suc by (simp add: unat_of_nat take_bit_eq_mod)
  also have "\<dots> = x mod 256 ^ Suc n" by (simp add: mod_mult2_eq)
  finally show ?case .
qed simp

lemma unle_le64 [simp]: "unle (le 8 (unat (w :: u64))) = unat w"
  using unat_u64_bound [of w] by (simp add: unle_le)

lemma unle_le32 [simp]: "unle (le 4 (unat (w :: u32))) = unat w"
  using unsigned_less [of w, where ?'a = nat] by (simp add: unle_le)

text \<open>A field of \<open>n\<close> bytes at offset \<open>off\<close> of a structure.\<close>

definition field :: "u8 list \<Rightarrow> nat \<Rightarrow> nat \<Rightarrow> nat" where
  "field bs off n = unle (take n (drop off bs))"

section \<open>Arrays of 64-bit pointers\<close>

definition ptrs_of :: "u8 list \<Rightarrow> u64 list" where
  "ptrs_of bs = map (\<lambda>i. of_nat (field bs (8 * i) 8)) [0..<length bs div 8]"

definition ptr_bytes :: "u64 list \<Rightarrow> u8 list" where
  "ptr_bytes ps = concat (map (\<lambda>p. le 8 (unat p)) ps)"

lemma length_ptr_bytes [simp]: "length (ptr_bytes ps) = 8 * length ps"
  by (induction ps) (simp_all add: ptr_bytes_def)

lemma length_ptrs_of [simp]: "length (ptrs_of bs) = length bs div 8"
  by (simp add: ptrs_of_def)

lemma field_ptr_bytes: "i < length ps \<Longrightarrow> field (ptr_bytes ps) (8 * i) 8 = unat (ps ! i)"
proof (induction ps arbitrary: i)
  case (Cons p ps)
  have hd: "ptr_bytes (p # ps) = le 8 (unat p) @ ptr_bytes ps" by (simp add: ptr_bytes_def)
  show ?case
  proof (cases i)
    case 0
    then show ?thesis by (simp add: hd field_def)
  next
    case (Suc j)
    then have "drop (8 * i) (ptr_bytes (p # ps)) = drop (8 * j) (ptr_bytes ps)" by (simp add: hd)
    with Suc Cons.IH [of j] Cons.prems show ?thesis by (simp add: field_def)
  qed
qed simp

lemma ptrs_of_ptr_bytes [simp]: "ptrs_of (ptr_bytes ps) = ps"
  by (rule nth_equalityI) (simp_all add: ptrs_of_def field_ptr_bytes)

section \<open>Block devices\<close>

record 'd block_device =
  dev_size :: u64
  dev_read :: "'d \<Rightarrow> u64 \<Rightarrow> nat \<Rightarrow> u8 list"
  dev_write :: "'d \<Rightarrow> u64 \<Rightarrow> u8 list \<Rightarrow> 'd"
  dev_flush :: "'d \<Rightarrow> 'd"

text \<open>The range of \<open>n\<close> bytes from \<open>a\<close> lies on the device.\<close>

definition on_device :: "'d block_device \<Rightarrow> u64 \<Rightarrow> nat \<Rightarrow> bool" where
  "on_device dev a n \<longleftrightarrow> unat a + n \<le> unat (dev_size dev)"

definition faithful :: "'d block_device \<Rightarrow> bool" where
  "faithful dev \<longleftrightarrow>
     (\<forall>d a n. length (dev_read dev d a n) = n) \<and>
     (\<forall>d a bs b n i. on_device dev a (length bs) \<longrightarrow> on_device dev b n \<longrightarrow> i < n \<longrightarrow>
        dev_read dev (dev_write dev d a bs) b n ! i =
          (if unat a \<le> unat b + i \<and> unat b + i < unat a + length bs then bs ! (unat b + i - unat a)
           else dev_read dev d b n ! i)) \<and>
     (\<forall>d. dev_read dev (dev_flush dev d) = dev_read dev d)"

lemma faithful_length: "faithful dev \<Longrightarrow> length (dev_read dev d a n) = n"
  by (simp add: faithful_def)

lemma read_written:
  assumes "faithful dev" and "on_device dev a (length bs)"
  shows "dev_read dev (dev_write dev d a bs) a (length bs) = bs"
  using assms by (intro nth_equalityI) (simp_all add: faithful_def)

lemma read_elsewhere:
  assumes "faithful dev" and "on_device dev a (length bs)" and "on_device dev b n"
    and "unat b + n \<le> unat a \<or> unat a + length bs \<le> unat b"
  shows "dev_read dev (dev_write dev d a bs) b n = dev_read dev d b n"
proof (rule nth_equalityI)
  fix i
  assume "i < length (dev_read dev (dev_write dev d a bs) b n)"
  then have "i < n" using assms(1) by (simp add: faithful_length)
  then show "dev_read dev (dev_write dev d a bs) b n ! i = dev_read dev d b n ! i"
    using assms by (auto simp: faithful_def)
qed (simp add: assms(1) faithful_length)

text \<open>A disk in memory.\<close>

definition ram_disk :: "u64 \<Rightarrow> (nat \<Rightarrow> u8) block_device" where
  "ram_disk sz = \<lparr>dev_size = sz,
     dev_read = (\<lambda>d a n. map (\<lambda>i. d (unat a + i)) [0..<n]),
     dev_write = (\<lambda>d a bs x. if unat a \<le> x \<and> x < unat a + length bs then bs ! (x - unat a) else d x),
     dev_flush = (\<lambda>d. d)\<rparr>"

lemma ram_disk_faithful: "faithful (ram_disk sz)"
  by (simp add: faithful_def ram_disk_def)

end
