(* ===== verification/Crfs.thy ===== *)
theory Crfs
  imports Disk
begin

text \<open>
  CrimsonFS (crfs.c): the on-disk structures and their bytes, the checksum, the segment and block
  allocator, the inode cache, the tree of block pointers of an inode, and reading and writing of open
  files.  The block device \<open>dev\<close> is a parameter.  \<open>g_fs\<close> is the record \<open>crfs\<close>, with \<open>mounted\<close> False while
  the pointer is NULL, and the two static variables of \<open>crfs_alloc_block\<close> as fields.  An inode object
  is identified by its number in the order of allocation; \<open>room\<close> counts the objects that \<open>kmalloc\<close> can
  still provide; a hash chain is the list of its objects.  \<open>now\<close> is the value of the clock.
\<close>

section \<open>On-disk structures\<close>

definition CRFS_MAGIC :: u64 where "CRFS_MAGIC = 0x4372696D534F5300"
definition CRFS_BLOCK_SIZE :: nat where "CRFS_BLOCK_SIZE = 4096"
definition CRFS_SEG_SIZE :: u64 where "CRFS_SEG_SIZE = 2 * 1024 * 1024"
definition CRFS_BLOCKS_PER_SEG :: u32 where "CRFS_BLOCKS_PER_SEG = 512"
definition CRFS_MAX_OPEN :: nat where "CRFS_MAX_OPEN = 1024"
definition CRFS_ROOT_INO :: u32 where "CRFS_ROOT_INO = 1"
definition CRFS_TYPE_REG :: u32 where "CRFS_TYPE_REG = 1"
definition CRFS_TYPE_DIR :: u32 where "CRFS_TYPE_DIR = 2"
definition CRFS_COMP_LZ4 :: u32 where "CRFS_COMP_LZ4 = 1"
definition O_WRONLY :: u32 where "O_WRONLY = 1"
definition O_RDWR :: u32 where "O_RDWR = 2"
definition O_CREAT :: u32 where "O_CREAT = 0x40"
definition O_TRUNC :: u32 where "O_TRUNC = 0x200"
definition O_APPEND :: u32 where "O_APPEND = 0x400"
definition O_DIRECTORY :: u32 where "O_DIRECTORY = 0x10000"
definition S_IFDIR :: u32 where "S_IFDIR = 0x4000"

record superblock =
  magic :: u64
  sb_version :: u32
  block_size :: u32
  seg_size :: u32
  total_segs :: u64
  used_segs :: u64
  free_segs :: u64
  checkpoint_offset :: u64
  checkpoint_seq :: u64
  inode_table_start :: u64
  root_inode_addr :: u64
  sb_flags :: u32
  feature_compat :: u32
  feature_incompat :: u32
  feature_ro_compat :: u32
  uuid :: "u8 list"
  volume_name :: "u8 list"
  encryption_key_id :: "u8 list"
  creation_time :: u64
  last_mount_time :: u64
  mount_count :: u64
  sb_checksum :: u32
  sb_pad :: "u8 list"

record inode_disk =
  inode_no :: u32
  itype :: u32
  mode :: u32
  i_uid :: u32
  i_gid :: u32
  isize :: u64
  blocks :: u64
  atime :: u64
  mtime :: u64
  ctime :: u64
  nlink :: u64
  compression :: u32
  encryption :: u32
  encryption_iv :: "u8 list"
  direct :: "u64 list"
  indirect :: u64
  double_indirect :: u64
  inline_len :: u32
  inline_data :: "u8 list"
  i_checksum :: u32

text \<open>The packed structures as bytes: 4292 of the superblock, 4304 of an inode.\<close>

definition sb_bytes :: "superblock \<Rightarrow> u8 list" where
  "sb_bytes b =
     le 8 (unat (magic b)) @ le 4 (unat (sb_version b)) @ le 4 (unat (block_size b)) @ le 4 (unat (seg_size b)) @
     le 8 (unat (total_segs b)) @ le 8 (unat (used_segs b)) @ le 8 (unat (free_segs b)) @
     le 8 (unat (checkpoint_offset b)) @ le 8 (unat (checkpoint_seq b)) @
     le 8 (unat (inode_table_start b)) @ le 8 (unat (root_inode_addr b)) @
     le 4 (unat (sb_flags b)) @ le 4 (unat (feature_compat b)) @ le 4 (unat (feature_incompat b)) @ le 4 (unat (feature_ro_compat b)) @
     uuid b @ volume_name b @ encryption_key_id b @
     le 8 (unat (creation_time b)) @ le 8 (unat (last_mount_time b)) @ le 8 (unat (mount_count b)) @
     le 4 (unat (sb_checksum b)) @ sb_pad b"

definition sb_of :: "u8 list \<Rightarrow> superblock" where
  "sb_of bs = \<lparr>magic = of_nat (field bs 0 8), sb_version = of_nat (field bs 8 4), block_size = of_nat (field bs 12 4),
     seg_size = of_nat (field bs 16 4), total_segs = of_nat (field bs 20 8), used_segs = of_nat (field bs 28 8),
     free_segs = of_nat (field bs 36 8), checkpoint_offset = of_nat (field bs 44 8), checkpoint_seq = of_nat (field bs 52 8),
     inode_table_start = of_nat (field bs 60 8), root_inode_addr = of_nat (field bs 68 8), sb_flags = of_nat (field bs 76 4),
     feature_compat = of_nat (field bs 80 4), feature_incompat = of_nat (field bs 84 4), feature_ro_compat = of_nat (field bs 88 4),
     uuid = take 16 (drop 92 bs), volume_name = take 64 (drop 108 bs), encryption_key_id = take 32 (drop 172 bs),
     creation_time = of_nat (field bs 204 8), last_mount_time = of_nat (field bs 212 8), mount_count = of_nat (field bs 220 8),
     sb_checksum = of_nat (field bs 228 4), sb_pad = take 4060 (drop 232 bs)\<rparr>"

definition inode_bytes :: "inode_disk \<Rightarrow> u8 list" where
  "inode_bytes i =
     le 4 (unat (inode_no i)) @ le 4 (unat (itype i)) @ le 4 (unat (mode i)) @ le 4 (unat (i_uid i)) @ le 4 (unat (i_gid i)) @
     le 8 (unat (isize i)) @ le 8 (unat (blocks i)) @ le 8 (unat (atime i)) @ le 8 (unat (mtime i)) @ le 8 (unat (ctime i)) @
     le 8 (unat (nlink i)) @ le 4 (unat (compression i)) @ le 4 (unat (encryption i)) @ encryption_iv i @
     ptr_bytes (direct i) @ le 8 (unat (indirect i)) @ le 8 (unat (double_indirect i)) @
     le 4 (unat (inline_len i)) @ inline_data i @ le 4 (unat (i_checksum i))"

definition inode_of :: "u8 list \<Rightarrow> inode_disk" where
  "inode_of bs = \<lparr>inode_no = of_nat (field bs 0 4), itype = of_nat (field bs 4 4), mode = of_nat (field bs 8 4),
     i_uid = of_nat (field bs 12 4), i_gid = of_nat (field bs 16 4), isize = of_nat (field bs 20 8), blocks = of_nat (field bs 28 8),
     atime = of_nat (field bs 36 8), mtime = of_nat (field bs 44 8), ctime = of_nat (field bs 52 8), nlink = of_nat (field bs 60 8),
     compression = of_nat (field bs 68 4), encryption = of_nat (field bs 72 4), encryption_iv = take 12 (drop 76 bs),
     direct = ptrs_of (take 96 (drop 88 bs)), indirect = of_nat (field bs 184 8), double_indirect = of_nat (field bs 192 8),
     inline_len = of_nat (field bs 200 4), inline_data = take 4096 (drop 204 bs), i_checksum = of_nat (field bs 4300 4)\<rparr>"

definition INODE_BYTES :: nat where "INODE_BYTES = 4304"

definition zero_inode :: inode_disk where
  "zero_inode = \<lparr>inode_no = 0, itype = 0, mode = 0, i_uid = 0, i_gid = 0, isize = 0, blocks = 0, atime = 0, mtime = 0,
     ctime = 0, nlink = 0, compression = 0, encryption = 0, encryption_iv = replicate 12 0, direct = replicate 12 0,
     indirect = 0, double_indirect = 0, inline_len = 0, inline_data = replicate 4096 0, i_checksum = 0\<rparr>"

definition zero_sb :: superblock where
  "zero_sb = \<lparr>magic = 0, sb_version = 0, block_size = 0, seg_size = 0, total_segs = 0, used_segs = 0, free_segs = 0,
     checkpoint_offset = 0, checkpoint_seq = 0, inode_table_start = 0, root_inode_addr = 0, sb_flags = 0,
     feature_compat = 0, feature_incompat = 0, feature_ro_compat = 0, uuid = replicate 16 0, volume_name = replicate 64 0,
     encryption_key_id = replicate 32 0, creation_time = 0, last_mount_time = 0, mount_count = 0, sb_checksum = 0,
     sb_pad = replicate 4060 0\<rparr>"

section \<open>The checksum\<close>

definition crc_bit :: "u32 \<Rightarrow> u32" where
  "crc_bit crc = drop_bit 1 crc XOR (0x82F63B78 AND - (crc AND 1))"

definition crc_byte :: "u32 \<Rightarrow> u8 \<Rightarrow> u32" where
  "crc_byte crc b = (crc_bit ^^ 8) (crc XOR ucast b)"

definition crc32c :: "u8 list \<Rightarrow> u32" where
  "crc32c data = NOT (fold (\<lambda>b crc. crc_byte crc b) data 0xFFFFFFFF)"

section \<open>State\<close>

record crfs_inode =
  i_no :: u32
  ref_count :: u32
  dirty :: bool
  idisk :: inode_disk

record crfs_file =
  in_use :: bool
  f_flags :: u32
  f_offset :: u64
  f_inode :: "nat option"

record 'd crfs =
  sb :: superblock
  mounted :: bool
  disk :: 'd
  inode_cache :: "nat \<Rightarrow> nat list"
  inodes :: "nat \<Rightarrow> crfs_inode"
  n_inodes :: nat
  files :: "crfs_file list"
  seg_bitmap :: "u8 list"
  next_seg :: u64
  cleaner_seg :: u64
  read_bytes :: u64
  write_bytes :: u64
  read_ops :: u64
  write_ops :: u64
  block_in_seg :: u32
  current_seg :: u64
  room :: nat

definition upd_inode :: "'d crfs \<Rightarrow> nat \<Rightarrow> (crfs_inode \<Rightarrow> crfs_inode) \<Rightarrow> 'd crfs" where
  "upd_inode s p f = s\<lparr>inodes := (inodes s)(p := f (inodes s p))\<rparr>"

definition upd_idisk :: "'d crfs \<Rightarrow> nat \<Rightarrow> (inode_disk \<Rightarrow> inode_disk) \<Rightarrow> 'd crfs" where
  "upd_idisk s p f = upd_inode s p (idisk_update f)"

section \<open>Blocks and segments\<close>

definition crfs_read_block :: "'d block_device \<Rightarrow> 'd crfs \<Rightarrow> u64 \<Rightarrow> u8 list" where
  "crfs_read_block dev s a = dev_read dev (disk s) a CRFS_BLOCK_SIZE"

definition crfs_write_block :: "'d block_device \<Rightarrow> 'd crfs \<Rightarrow> u64 \<Rightarrow> u8 list \<Rightarrow> 'd crfs" where
  "crfs_write_block dev s a bs = s\<lparr>disk := dev_write dev (disk s) a (take CRFS_BLOCK_SIZE bs)\<rparr>"

definition seg_used :: "u8 list \<Rightarrow> nat \<Rightarrow> bool" where
  "seg_used bm i = bit (bm ! (i div 8)) (i mod 8)"

definition crfs_alloc_segment :: "'d crfs \<Rightarrow> 'd crfs \<times> u64 option" where
  "crfs_alloc_segment s =
     (case first_slot (\<lambda>i. \<not> seg_used (seg_bitmap s) i) (unat (next_seg s)) (unat (total_segs (sb s)) - unat (next_seg s)) of
        None \<Rightarrow> (s, None)
      | Some i \<Rightarrow>
          (s\<lparr>seg_bitmap := (seg_bitmap s)[i div 8 := set_bit (i mod 8) (seg_bitmap s ! (i div 8))],
             sb := (sb s)\<lparr>used_segs := used_segs (sb s) + 1, free_segs := free_segs (sb s) - 1\<rparr>,
             next_seg := of_nat i + 1\<rparr>, Some (of_nat i)))"

definition crfs_alloc_block :: "'d crfs \<Rightarrow> 'd crfs \<times> u64 option" where
  "crfs_alloc_block s =
     (let place = (\<lambda>s. (s\<lparr>block_in_seg := block_in_seg s + 1\<rparr>,
            Some (current_seg s * CRFS_SEG_SIZE + ucast (block_in_seg s) * of_nat CRFS_BLOCK_SIZE)))
      in if current_seg s = 0 \<or> CRFS_BLOCKS_PER_SEG \<le> block_in_seg s then
           (case crfs_alloc_segment s of
              (s', None) \<Rightarrow> (s', None)
            | (s', Some seg) \<Rightarrow> place (s'\<lparr>current_seg := seg, block_in_seg := 0\<rparr>))
         else place s)"

definition crfs_free_block :: "'d crfs \<Rightarrow> u64 \<Rightarrow> 'd crfs" where
  "crfs_free_block s a =
     (let seg = unat (a div CRFS_SEG_SIZE) in
      s\<lparr>seg_bitmap := (seg_bitmap s)[seg div 8 := unset_bit (seg mod 8) (seg_bitmap s ! (seg div 8))],
        sb := (sb s)\<lparr>used_segs := used_segs (sb s) - 1, free_segs := free_segs (sb s) + 1\<rparr>\<rparr>)"

section \<open>Inodes\<close>

definition inode_addr :: "'d crfs \<Rightarrow> u32 \<Rightarrow> u64" where
  "inode_addr s n = inode_table_start (sb s) * CRFS_SEG_SIZE + ucast n * of_nat INODE_BYTES"

text \<open>\<open>crfs_read_block\<close> fills the first 4096 bytes of the zeroed structure.\<close>

definition crfs_iget :: "'d block_device \<Rightarrow> 'd crfs \<Rightarrow> u32 \<Rightarrow> 'd crfs \<times> nat option" where
  "crfs_iget dev s n =
     (let h = unat (n mod 256) in
      case find (\<lambda>p. i_no (inodes s p) = n) (inode_cache s h) of
        Some p \<Rightarrow> (upd_inode s p (\<lambda>i. i\<lparr>ref_count := ref_count i + 1\<rparr>), Some p)
      | None \<Rightarrow>
          if room s = 0 then (s, None)
          else let p = n_inodes s;
                   d = inode_of (crfs_read_block dev s (inode_addr s n) @ replicate (INODE_BYTES - CRFS_BLOCK_SIZE) 0)
               in (s\<lparr>inodes := (inodes s)(p := \<lparr>i_no = n, ref_count = 1, dirty = False, idisk = d\<rparr>),
                     n_inodes := Suc p, room := room s - 1,
                     inode_cache := (inode_cache s)(h := p # inode_cache s h)\<rparr>, Some p))"

definition crfs_write_inode :: "'d block_device \<Rightarrow> 'd crfs \<Rightarrow> nat \<Rightarrow> 'd crfs" where
  "crfs_write_inode dev s p =
     (let s1 = upd_idisk s p (\<lambda>d. d\<lparr>i_checksum := crc32c (take (INODE_BYTES - 4) (inode_bytes d))\<rparr>)
      in crfs_write_block dev s1 (inode_addr s1 (i_no (inodes s1 p))) (inode_bytes (idisk (inodes s1 p))))"

definition crfs_iput :: "'d block_device \<Rightarrow> 'd crfs \<Rightarrow> nat \<Rightarrow> 'd crfs" where
  "crfs_iput dev s p =
     (let s1 = upd_inode s p (\<lambda>i. i\<lparr>ref_count := ref_count i - 1\<rparr>)
      in if ref_count (inodes s1 p) = 0 \<and> dirty (inodes s1 p) then crfs_write_inode dev s1 p else s1)"

definition CRFS_PTRS_PER_BLOCK :: u32 where "CRFS_PTRS_PER_BLOCK = 512"
definition CRFS_INDIRECT_BASE :: u32 where "CRFS_INDIRECT_BASE = 12"

definition read_ptrs :: "'d block_device \<Rightarrow> 'd crfs \<Rightarrow> u64 \<Rightarrow> u64 list" where
  "read_ptrs dev s a = ptrs_of (crfs_read_block dev s a)"

definition write_ptrs :: "'d block_device \<Rightarrow> 'd crfs \<Rightarrow> u64 \<Rightarrow> u64 list \<Rightarrow> 'd crfs" where
  "write_ptrs dev s a ps = crfs_write_block dev s a (ptr_bytes ps)"

definition crfs_inode_get_block :: "'d block_device \<Rightarrow> 'd crfs \<Rightarrow> inode_disk \<Rightarrow> u32 \<Rightarrow> u64" where
  "crfs_inode_get_block dev s ino n =
     (if n < CRFS_INDIRECT_BASE then direct ino ! unat n
      else let n1 = n - CRFS_INDIRECT_BASE in
      if n1 < CRFS_PTRS_PER_BLOCK then
        (if indirect ino = 0 then 0 else read_ptrs dev s (indirect ino) ! unat n1)
      else let n2 = n1 - CRFS_PTRS_PER_BLOCK in
      if n2 < CRFS_PTRS_PER_BLOCK * CRFS_PTRS_PER_BLOCK then
        (if double_indirect ino = 0 then 0
         else let l1_addr = read_ptrs dev s (double_indirect ino) ! unat (n2 div CRFS_PTRS_PER_BLOCK)
              in if l1_addr = 0 then 0 else read_ptrs dev s l1_addr ! unat (n2 mod CRFS_PTRS_PER_BLOCK))
      else 0)"

text \<open>A pointer block that is missing: allocate it and write zeros to it.\<close>

definition new_ptr_block :: "'d block_device \<Rightarrow> 'd crfs \<Rightarrow> 'd crfs \<times> u64 option" where
  "new_ptr_block dev s =
     (case crfs_alloc_block s of
        (s1, None) \<Rightarrow> (s1, None)
      | (s1, Some a) \<Rightarrow> (write_ptrs dev s1 a (replicate (unat CRFS_PTRS_PER_BLOCK) 0), Some a))"

definition store_ptr :: "'d block_device \<Rightarrow> 'd crfs \<Rightarrow> u64 \<Rightarrow> nat \<Rightarrow> u64 \<Rightarrow> 'd crfs" where
  "store_ptr dev s blk i a = write_ptrs dev s blk ((read_ptrs dev s blk)[i := a])"

definition mark_dirty :: "'d crfs \<Rightarrow> nat \<Rightarrow> 'd crfs" where
  "mark_dirty s p = upd_inode s p (\<lambda>i. i\<lparr>dirty := True\<rparr>)"

definition set_indirect :: "'d block_device \<Rightarrow> 'd crfs \<Rightarrow> nat \<Rightarrow> u32 \<Rightarrow> u64 \<Rightarrow> 'd crfs \<times> int" where
  "set_indirect dev s p n a =
     (let store = (\<lambda>s. (mark_dirty (store_ptr dev s (indirect (idisk (inodes s p))) (unat n) a) p, 0))
      in if indirect (idisk (inodes s p)) = 0 then
           (case new_ptr_block dev s of
              (s1, None) \<Rightarrow> (s1, - 1)
            | (s1, Some b) \<Rightarrow> store (upd_idisk s1 p (\<lambda>d. d\<lparr>indirect := b\<rparr>)))
         else store s)"

definition set_level2 :: "'d block_device \<Rightarrow> 'd crfs \<Rightarrow> nat \<Rightarrow> u32 \<Rightarrow> u64 \<Rightarrow> 'd crfs \<times> int" where
  "set_level2 dev s p n a =
     (let top = double_indirect (idisk (inodes s p));
          l1_idx = unat (n div CRFS_PTRS_PER_BLOCK);
          l2_idx = unat (n mod CRFS_PTRS_PER_BLOCK);
          l1_ptrs = read_ptrs dev s top;
          store = (\<lambda>s blk. (mark_dirty (store_ptr dev s blk l2_idx a) p, 0))
      in if l1_ptrs ! l1_idx = 0 then
           (case new_ptr_block dev s of
              (s1, None) \<Rightarrow> (s1, - 1)
            | (s1, Some b) \<Rightarrow> store (write_ptrs dev s1 top (l1_ptrs[l1_idx := b])) b)
         else store s (l1_ptrs ! l1_idx))"

definition set_double :: "'d block_device \<Rightarrow> 'd crfs \<Rightarrow> nat \<Rightarrow> u32 \<Rightarrow> u64 \<Rightarrow> 'd crfs \<times> int" where
  "set_double dev s p n a =
     (if double_indirect (idisk (inodes s p)) = 0 then
        (case new_ptr_block dev s of
           (s1, None) \<Rightarrow> (s1, - 1)
         | (s1, Some b) \<Rightarrow> set_level2 dev (upd_idisk s1 p (\<lambda>d. d\<lparr>double_indirect := b\<rparr>)) p n a)
      else set_level2 dev s p n a)"

definition crfs_inode_set_block :: "'d block_device \<Rightarrow> 'd crfs \<Rightarrow> nat \<Rightarrow> u32 \<Rightarrow> u64 \<Rightarrow> 'd crfs \<times> int" where
  "crfs_inode_set_block dev s p n a =
     (if n < CRFS_INDIRECT_BASE then
        (mark_dirty (upd_idisk s p (\<lambda>d. d\<lparr>direct := (direct d)[unat n := a]\<rparr>)) p, 0)
      else let n1 = n - CRFS_INDIRECT_BASE in
      if n1 < CRFS_PTRS_PER_BLOCK then set_indirect dev s p n1 a
      else let n2 = n1 - CRFS_PTRS_PER_BLOCK in
      if n2 < CRFS_PTRS_PER_BLOCK * CRFS_PTRS_PER_BLOCK then set_double dev s p n2 a
      else (s, - 1))"

section \<open>Open files\<close>

text \<open>The loop of \<open>crfs_read\<close> from position \<open>pos\<close> with \<open>rem\<close> bytes to go.\<close>

function read_loop :: "'d block_device \<Rightarrow> 'd crfs \<Rightarrow> inode_disk \<Rightarrow> u64 \<Rightarrow> nat \<Rightarrow> u8 list" where
  "read_loop dev s ino pos rem =
     (if rem = 0 then []
      else let block_off = unat (pos AND 4095);
               to_read = min (CRFS_BLOCK_SIZE - block_off) rem;
               disk_addr = crfs_inode_get_block dev s ino (ucast (drop_bit 12 pos));
               chunk = (if disk_addr = 0 then replicate to_read 0
                        else take to_read (drop block_off (crfs_read_block dev s disk_addr)))
           in chunk @ read_loop dev s ino (pos + of_nat to_read) (rem - to_read))"
  by pat_completeness auto

lemma block_off_less: "unat ((pos :: u64) AND 4095) < CRFS_BLOCK_SIZE"
proof -
  have "pos AND 4095 \<le> 4095" by (rule word_and_le1)
  then show ?thesis by (simp add: CRFS_BLOCK_SIZE_def word_le_nat_alt)
qed

termination read_loop
proof (relation "measure (\<lambda>(dev, s, ino, pos, rem). rem)", goal_cases)
  case (2 dev s ino pos rem)
  then show ?case using block_off_less [of pos] by simp
qed simp

declare read_loop.simps [simp del]

definition crfs_read :: "'d block_device \<Rightarrow> 'd crfs \<Rightarrow> u64 \<Rightarrow> int \<Rightarrow> u64 \<Rightarrow> 'd crfs \<times> int \<times> u8 list" where
  "crfs_read dev s now fd count =
     (if fd < 0 \<or> int CRFS_MAX_OPEN \<le> fd then (s, - 1, [])
      else let f = files s ! nat fd in
      if \<not> in_use f then (s, - 1, [])
      else case f_inode f of
        None \<Rightarrow> (s, - 1, [])
      | Some p \<Rightarrow>
          let ino = idisk (inodes s p) in
          if isize ino \<le> f_offset f then (s, 0, [])
          else let count' = (if isize ino < f_offset f + count then isize ino - f_offset f else count);
                   data = read_loop dev s ino (f_offset f) (unat count');
                   s1 = s\<lparr>files := (files s)[nat fd := f\<lparr>f_offset := f_offset f + count'\<rparr>],
                          read_bytes := read_bytes s + count', read_ops := read_ops s + 1\<rparr>
               in (upd_idisk s1 p (\<lambda>d. d\<lparr>atime := now\<rparr>), sint count', data))"

text \<open>
  One round of the loop of \<open>crfs_write\<close>.  \<open>None\<close> is an allocation that fails: the code goes on with an
  address it has not set.
\<close>

definition write_chunk :: "'d block_device \<Rightarrow> 'd crfs \<Rightarrow> nat \<Rightarrow> u64 \<Rightarrow> u8 list \<Rightarrow> 'd crfs option" where
  "write_chunk dev s p pos bytes =
     (let block_no = ucast (drop_bit 12 pos);
          block_off = unat (pos AND 4095);
          old_addr = crfs_inode_get_block dev s (idisk (inodes s p)) block_no;
          buf = (if old_addr \<noteq> 0 \<and> block_off \<noteq> 0 then crfs_read_block dev s old_addr else replicate CRFS_BLOCK_SIZE 0);
          buf' = take block_off buf @ bytes @ drop (block_off + length bytes) buf
      in case crfs_alloc_block s of
           (s1, None) \<Rightarrow> None
         | (s1, Some new_addr) \<Rightarrow>
             let s2 = fst (crfs_inode_set_block dev (crfs_write_block dev s1 new_addr buf') p block_no new_addr)
             in Some (if old_addr \<noteq> 0 then crfs_free_block s2 old_addr else s2))"

function write_loop :: "'d block_device \<Rightarrow> 'd crfs \<Rightarrow> nat \<Rightarrow> u64 \<Rightarrow> u8 list \<Rightarrow> 'd crfs option" where
  "write_loop dev s p pos data =
     (if data = [] then Some s
      else let to_write = min (CRFS_BLOCK_SIZE - unat (pos AND 4095)) (length data)
           in case write_chunk dev s p pos (take to_write data) of
                None \<Rightarrow> None
              | Some s1 \<Rightarrow> write_loop dev s1 p (pos + of_nat to_write) (drop to_write data))"
  by pat_completeness auto

termination write_loop
proof (relation "measure (\<lambda>(dev, s, p, pos, data). length data)", goal_cases)
  case (2 dev s p pos data)
  then show ?case using block_off_less [of pos] by (cases data) auto
qed simp

declare write_loop.simps [simp del]

text \<open>The size, the offset, the times and the counters after the loop.\<close>

definition finish_write :: "'d crfs \<Rightarrow> u64 \<Rightarrow> nat \<Rightarrow> crfs_file \<Rightarrow> nat \<Rightarrow> u64 \<Rightarrow> 'd crfs" where
  "finish_write s now fd f p tot =
     (let end_pos = f_offset f + tot;
          s1 = (if isize (idisk (inodes s p)) < end_pos
                then upd_idisk s p (\<lambda>d. d\<lparr>isize := end_pos, blocks := ucast (ucast (drop_bit 12 (end_pos + of_nat CRFS_BLOCK_SIZE - 1)) :: u32)\<rparr>)
                else s);
          s2 = s1\<lparr>files := (files s1)[fd := f\<lparr>f_offset := end_pos\<rparr>]\<rparr>;
          s3 = mark_dirty (upd_idisk s2 p (\<lambda>d. d\<lparr>mtime := now\<rparr>)) p
      in s3\<lparr>write_bytes := write_bytes s3 + tot, write_ops := write_ops s3 + 1\<rparr>)"

definition crfs_write :: "'d block_device \<Rightarrow> 'd crfs \<Rightarrow> u64 \<Rightarrow> int \<Rightarrow> u8 list \<Rightarrow> ('d crfs \<times> int) option" where
  "crfs_write dev s now fd data =
     (if fd < 0 \<or> int CRFS_MAX_OPEN \<le> fd then Some (s, - 1)
      else let f = files s ! nat fd in
      if \<not> in_use f then Some (s, - 1)
      else case f_inode f of
        None \<Rightarrow> Some (s, - 1)
      | Some p \<Rightarrow>
          if f_flags f AND (O_WRONLY OR O_RDWR) = 0 then Some (s, - 1)
          else case write_loop dev s p (f_offset f) data of
            None \<Rightarrow> None
          | Some s1 \<Rightarrow> Some (finish_write s1 now (nat fd) f p (of_nat (length data)), sint (of_nat (length data) :: u64)))"

definition crfs_close :: "'d block_device \<Rightarrow> 'd crfs \<Rightarrow> int \<Rightarrow> 'd crfs" where
  "crfs_close dev s fd =
     (if fd < 0 \<or> int CRFS_MAX_OPEN \<le> fd then s
      else let f = files s ! nat fd in
      if \<not> in_use f then s
      else let s1 = (case f_inode f of
                       None \<Rightarrow> s
                     | Some p \<Rightarrow> crfs_iput dev (if dirty (inodes s p) then crfs_write_inode dev s p else s) p)
           in s1\<lparr>files := (files s1)[nat fd := f\<lparr>in_use := False, f_inode := None\<rparr>]\<rparr>)"

section \<open>Format, mount and checkpoint\<close>

definition dirent_bytes :: "u32 \<Rightarrow> u16 \<Rightarrow> u8 \<Rightarrow> u8 \<Rightarrow> u8 list \<Rightarrow> u8 list" where
  "dirent_bytes n rec_len name_len ty name = le 4 (unat n) @ le 2 (unat rec_len) @ [name_len, ty] @ name"

definition root_block :: "u8 list" where
  "root_block = dirent_bytes CRFS_ROOT_INO 12 1 2 [0x2E, 0] @ [0, 0] @ dirent_bytes CRFS_ROOT_INO 4084 2 2 [0x2E, 0x2E, 0]
     @ replicate (CRFS_BLOCK_SIZE - 23) 0"

definition format_sb :: "u64 \<Rightarrow> u64 \<Rightarrow> u8 list \<Rightarrow> u8 list \<Rightarrow> superblock" where
  "format_sb tot now rng name =
     (let b = zero_sb\<lparr>magic := CRFS_MAGIC, sb_version := 1, block_size := 4096, seg_size := 2097152, total_segs := tot,
                used_segs := 4, free_segs := tot - 4, checkpoint_offset := CRFS_SEG_SIZE, checkpoint_seq := 1,
                inode_table_start := 3, root_inode_addr := 3 * CRFS_SEG_SIZE, sb_flags := 0, creation_time := now,
                last_mount_time := now, volume_name := take 63 name @ replicate (64 - min 63 (length name)) 0,
                uuid := rng\<rparr>
      in b\<lparr>sb_checksum := crc32c (take 4288 (sb_bytes b))\<rparr>)"

definition format_root :: "u64 \<Rightarrow> inode_disk" where
  "format_root now =
     (let r = zero_inode\<lparr>inode_no := CRFS_ROOT_INO, itype := CRFS_TYPE_DIR, mode := 493 OR S_IFDIR, isize := of_nat CRFS_BLOCK_SIZE,
                blocks := 1, atime := now, mtime := now, ctime := now, nlink := 2, compression := CRFS_COMP_LZ4,
                direct := (4 * CRFS_SEG_SIZE) # replicate 11 0\<rparr>
      in r\<lparr>i_checksum := crc32c (take (INODE_BYTES - 4) (inode_bytes r))\<rparr>)"

definition crfs_format :: "'d block_device \<Rightarrow> 'd \<Rightarrow> u64 \<Rightarrow> u64 \<Rightarrow> u8 list \<Rightarrow> u8 list \<Rightarrow> 'd \<times> int" where
  "crfs_format dev d now1 now2 rng name =
     (let tot = dev_size dev div CRFS_SEG_SIZE in
      if tot < 16 then (d, - 1)
      else let b = format_sb tot now1 rng name;
               d1 = dev_write dev d 0 (sb_bytes b);
               d2 = dev_write dev d1 (of_nat CRFS_BLOCK_SIZE) (sb_bytes b);
               d3 = dev_write dev d2 (root_inode_addr b) (inode_bytes (format_root now2));
               d4 = dev_write dev d3 (4 * CRFS_SEG_SIZE) root_block;
               d5 = dev_write dev d4 (checkpoint_offset b) (sb_bytes b)
           in (dev_flush dev d5, 0))"

text \<open>
  \<open>crfs_mount\<close> with \<open>mem\<close> successful allocations left, the bytes \<open>junk\<close> that follow its buffer of
  4096 bytes (it copies 4292), and the static variables of the allocator as they were before.
  \<open>Inr\<close> is the mount, \<open>Inl\<close> an error code, \<open>None\<close> the write through a bitmap that is NULL.
\<close>

definition crfs_mount :: "'d block_device \<Rightarrow> 'd \<Rightarrow> u64 \<Rightarrow> u8 list \<Rightarrow> nat \<Rightarrow> u32 \<Rightarrow> u64 \<Rightarrow> (int + 'd crfs) option" where
  "crfs_mount dev d now junk mem bis cs =
     (if mem = 0 then Some (Inl (- 1))
      else let b = sb_of (dev_read dev d 0 CRFS_BLOCK_SIZE @ junk) in
      if magic b \<noteq> CRFS_MAGIC then Some (Inl (- 1))
      else if mem = 1 then None
      else let bm = dev_read dev d (2 * CRFS_SEG_SIZE) (unat ((total_segs b + 7) div 8));
               bm' = fold (\<lambda>i bm. bm[i div 8 := set_bit (i mod 8) (bm ! (i div 8))]) [0..<5] bm
           in Some (Inr \<lparr>sb = b\<lparr>last_mount_time := now, mount_count := mount_count b + 1\<rparr>, mounted = True, disk = d,
                inode_cache = (\<lambda>_. []), inodes = (\<lambda>_. \<lparr>i_no = 0, ref_count = 0, dirty = False, idisk = zero_inode\<rparr>), n_inodes = 0,
                files = replicate CRFS_MAX_OPEN \<lparr>in_use = False, f_flags = 0, f_offset = 0, f_inode = None\<rparr>, seg_bitmap = bm',
                next_seg = 5, cleaner_seg = 0, read_bytes = 0, write_bytes = 0, read_ops = 0, write_ops = 0,
                block_in_seg = bis, current_seg = cs, room = mem - 2\<rparr>))"

definition crfs_do_checkpoint :: "'d block_device \<Rightarrow> 'd crfs \<Rightarrow> 'd crfs" where
  "crfs_do_checkpoint dev s =
     (let sq = checkpoint_seq (sb s) + 1;
          s1 = s\<lparr>sb := (sb s)\<lparr>checkpoint_seq := sq, checkpoint_offset := (if sq mod 2 \<noteq> 0 then CRFS_SEG_SIZE else 2 * CRFS_SEG_SIZE)\<rparr>\<rparr>;
          s2 = crfs_write_block dev s1 0 (sb_bytes (sb s1))
      in s2\<lparr>disk := dev_write dev (disk s2) (2 * CRFS_SEG_SIZE) (take (unat ((total_segs (sb s2) + 7) div 8)) (seg_bitmap s2))\<rparr>)"

definition crfs_sync :: "'d block_device \<Rightarrow> 'd crfs \<Rightarrow> 'd crfs" where
  "crfs_sync dev s = (let s1 = crfs_do_checkpoint dev s in s1\<lparr>disk := dev_flush dev (disk s1)\<rparr>)"

section \<open>The block allocator\<close>

lemmas crfs_sizes = CRFS_BLOCK_SIZE_def CRFS_SEG_SIZE_def CRFS_BLOCKS_PER_SEG_def

definition free_list :: "'d crfs \<Rightarrow> nat list" where
  "free_list s = filter (\<lambda>i. \<not> seg_used (seg_bitmap s) i) [unat (next_seg s)..<unat (total_segs (sb s))]"

text \<open>The blocks that can still be allocated.\<close>

definition space :: "'d crfs \<Rightarrow> nat" where
  "space s = (if current_seg s = 0 then 0 else 512 - unat (block_in_seg s)) + 512 * length (free_list s)"

text \<open>Every block handed out so far ends at or below this address.\<close>

definition frontier :: "'d crfs \<Rightarrow> nat" where
  "frontier s = (if current_seg s = 0 then 2097152 * unat (next_seg s)
     else 2097152 * unat (current_seg s) + 4096 * unat (block_in_seg s))"

definition alloc_ok :: "'d block_device \<Rightarrow> 'd crfs \<Rightarrow> bool" where
  "alloc_ok dev s \<longleftrightarrow> 2097152 * unat (total_segs (sb s)) \<le> unat (dev_size dev) \<and> 0 < next_seg s
     \<and> next_seg s \<le> total_segs (sb s)
     \<and> block_in_seg s \<le> 512 \<and> (current_seg s = 0 \<or> current_seg s < next_seg s)"

lemma frontier_next:
  assumes ok: "alloc_ok dev s"
  shows "frontier s \<le> 2097152 * unat (next_seg s)"
proof (cases "current_seg s = 0")
  case False
  then have "unat (block_in_seg s) \<le> 512" "unat (current_seg s) < unat (next_seg s)"
    using ok by (auto simp: alloc_ok_def word_le_nat_alt word_less_nat_alt)
  with False show ?thesis by (simp add: frontier_def)
qed (simp add: frontier_def)

lemma first_slot_filter: "first_slot P i k = (case filter P [i..<i + k] of [] \<Rightarrow> None | x # xs \<Rightarrow> Some x)"
proof (induction k arbitrary: i)
  case (Suc k)
  have "[i..<i + Suc k] = i # [Suc i..<Suc i + k]" by (simp add: upt_conv_Cons)
  with Suc [of "Suc i"] show ?case by simp
qed simp

lemma filter_upt_tail: "filter P [i..<n] = x # xs \<Longrightarrow> xs = filter P [Suc x..<n] \<and> i \<le> x \<and> x < n \<and> P x"
proof (induction "n - i" arbitrary: i)
  case (Suc k)
  then have "i < n" by simp
  then have u: "[i..<n] = i # [Suc i..<n]" by (rule upt_conv_Cons)
  show ?case
  proof (cases "P i")
    case True
    with Suc.prems u \<open>i < n\<close> show ?thesis by auto
  next
    case False
    moreover have "k = n - Suc i" using Suc.hyps(2) by simp
    ultimately show ?thesis using Suc.hyps(1) [of "Suc i"] Suc.prems u by auto
  qed
qed simp

lemma seg_used_set:
  "seg_used (bm[i div 8 := set_bit (i mod 8) (bm ! (i div 8))]) j = (seg_used bm j \<or> i = j \<and> i div 8 < length bm)"
proof -
  have "i = j \<longleftrightarrow> i div 8 = j div 8 \<and> i mod 8 = j mod 8" by (metis div_mult_mod_eq)
  then show ?thesis
    by (cases "length bm \<le> i div 8") (auto simp: seg_used_def nth_list_update bit_set_bit_iff not_le list_update_beyond)
qed

lemma seg_used_unset:
  "i \<noteq> j \<Longrightarrow> seg_used (bm[i div 8 := unset_bit (i mod 8) (bm ! (i div 8))]) j = seg_used bm j"
proof -
  assume "i \<noteq> j"
  then have "\<not> (i div 8 = j div 8 \<and> i mod 8 = j mod 8)" by (metis div_mult_mod_eq)
  then show ?thesis
    by (cases "length bm \<le> i div 8") (auto simp: seg_used_def nth_list_update bit_unset_bit_iff list_update_beyond)
qed

lemma alloc_segment_full: "free_list s = [] \<Longrightarrow> crfs_alloc_segment s = (s, None)"
proof -
  assume "free_list s = []"
  moreover have "filter P [i..<i + (n - i)] = filter P [i..<n]" for P i and n :: nat by (cases "i \<le> n") auto
  ultimately have "first_slot (\<lambda>i. \<not> seg_used (seg_bitmap s) i) (unat (next_seg s)) (unat (total_segs (sb s)) - unat (next_seg s)) = None"
    unfolding first_slot_filter by (simp add: free_list_def)
  then show ?thesis by (simp add: crfs_alloc_segment_def)
qed

lemma alloc_segment_free:
  assumes "free_list s = i # is"
  shows "\<exists>bm b. crfs_alloc_segment s = (s\<lparr>seg_bitmap := bm, sb := b, next_seg := of_nat i + 1\<rparr>, Some (of_nat i))
    \<and> filter (\<lambda>i. \<not> seg_used bm i) [Suc i..<unat (total_segs (sb s))] = is
    \<and> total_segs b = total_segs (sb s) \<and> inode_table_start b = inode_table_start (sb s)
    \<and> unat (next_seg s) \<le> i \<and> i < unat (total_segs (sb s))"
proof -
  let ?n = "unat (next_seg s)" and ?t = "unat (total_segs (sb s))"
  note i = filter_upt_tail [OF assms [unfolded free_list_def]]
  then have "?n + (?t - ?n) = ?t" by simp
  with assms have "first_slot (\<lambda>i. \<not> seg_used (seg_bitmap s) i) ?n (?t - ?n) = Some i"
    unfolding first_slot_filter by (simp add: free_list_def)
  moreover have "filter (\<lambda>j. \<not> seg_used ((seg_bitmap s)[i div 8 := set_bit (i mod 8) (seg_bitmap s ! (i div 8))]) j) [Suc i..<?t] = is"
    using i by (auto simp: seg_used_set intro!: filter_cong)
  ultimately show ?thesis using i unfolding crfs_alloc_segment_def
    by (intro exI [of _ "(seg_bitmap s)[i div 8 := set_bit (i mod 8) (seg_bitmap s ! (i div 8))]"]
        exI [of _ "(sb s)\<lparr>used_segs := used_segs (sb s) + 1, free_segs := free_segs (sb s) - 1\<rparr>"]) simp
qed

text \<open>What a block allocation leaves alone.\<close>

definition same_files :: "'d crfs \<Rightarrow> 'd crfs \<Rightarrow> bool" where
  "same_files s s' \<longleftrightarrow> inodes s' = inodes s \<and> files s' = files s \<and> inode_cache s' = inode_cache s \<and> n_inodes s' = n_inodes s
     \<and> room s' = room s \<and> mounted s' = mounted s \<and> total_segs (sb s') = total_segs (sb s)
     \<and> inode_table_start (sb s') = inode_table_start (sb s)"

text \<open>An aligned block that has been handed out.\<close>

definition blk_ok :: "'d crfs \<Rightarrow> u64 \<Rightarrow> bool" where
  "blk_ok s a \<longleftrightarrow> a \<noteq> 0 \<and> unat a mod 4096 = 0 \<and> unat a + 4096 \<le> frontier s"

lemma alloc_block_place:
  assumes cs: "current_seg s \<noteq> 0" and ok: "alloc_ok dev s" and b: "block_in_seg s < 512"
  defines "a \<equiv> current_seg s * CRFS_SEG_SIZE + ucast (block_in_seg s) * of_nat CRFS_BLOCK_SIZE"
    and "s' \<equiv> s\<lparr>block_in_seg := block_in_seg s + 1\<rparr>"
  shows "unat a = frontier s" "frontier s' = frontier s + 4096" "alloc_ok dev s'" "Suc (space s') = space s" "a \<noteq> 0"
    "unat a mod 4096 = 0" "frontier s' \<le> 2097152 * unat (total_segs (sb s))"
proof -
  have cs': "unat (current_seg s) < unat (next_seg s)" "0 < unat (current_seg s)"
    using cs ok by (auto simp: alloc_ok_def word_less_nat_alt unat_gt_0)
  have b': "unat (block_in_seg s) < 512" using b by (simp add: word_less_nat_alt)
  have t: "2097152 * unat (total_segs (sb s)) < 2 ^ 64" "unat (next_seg s) \<le> unat (total_segs (sb s))"
    using ok unat_u64_bound [of "dev_size dev"] by (auto simp: alloc_ok_def word_le_nat_alt)
  have bound: "2097152 * unat (current_seg s) + 2097152 \<le> 2097152 * unat (total_segs (sb s))" using cs' t by simp
  have u: "unat (ucast (block_in_seg s) :: u64) = unat (block_in_seg s)" using b' by (simp add: unsigned_ucast_eq take_bit_nat_eq_self)
  have b1: "unat (block_in_seg s + 1) = Suc (unat (block_in_seg s))" using b' by (simp add: unat_add_small)
  show a: "unat a = frontier s"
    using bound b' t(1) cs u
    by (simp add: a_def frontier_def crfs_sizes unat_add_small unat_mult_small)
  show "frontier s' = frontier s + 4096" using cs b1 by (simp add: s'_def frontier_def)
  show "alloc_ok dev s'" using ok b1 b' by (simp add: alloc_ok_def s'_def word_le_nat_alt)
  show "Suc (space s') = space s" using cs b1 b' by (simp add: space_def s'_def free_list_def)
  show "a \<noteq> 0" using a cs cs' by (auto simp: frontier_def)
  show "unat a mod 4096 = 0" using a cs by (simp add: frontier_def)
  show "frontier s' \<le> 2097152 * unat (total_segs (sb s))" using cs b1 b' bound by (simp add: frontier_def s'_def)
qed

text \<open>Allocation returns a fresh block while there is space.\<close>

lemma alloc_block_ok:
  assumes ok: "alloc_ok dev s" and sp: "0 < space s"
  shows "\<exists>s' a. crfs_alloc_block s = (s', Some a) \<and> alloc_ok dev s' \<and> Suc (space s') = space s \<and> same_files s s' \<and> disk s' = disk s
    \<and> a \<noteq> 0 \<and> unat a mod 4096 = 0 \<and> frontier s \<le> unat a \<and> frontier s' = unat a + 4096
    \<and> frontier s' \<le> 2097152 * unat (total_segs (sb s))"
proof (cases "current_seg s = 0 \<or> 512 \<le> block_in_seg s")
  case False
  then have b: "current_seg s \<noteq> 0" "block_in_seg s < 512" by auto
  with alloc_block_place [OF b(1) ok b(2)] False show ?thesis
    by (simp add: crfs_alloc_block_def CRFS_BLOCKS_PER_SEG_def same_files_def)
next
  case True
  then have "(if current_seg s = 0 then 0 else 512 - unat (block_in_seg s)) = 0" by (auto simp: word_le_nat_alt)
  with sp have sp': "space s = 512 * length (free_list s)" "free_list s \<noteq> []" by (auto simp: space_def)
  then obtain i rest where f: "free_list s = i # rest" by (cases "free_list s") auto
  from alloc_segment_free [OF f] obtain bm b where seg:
    "crfs_alloc_segment s = (s\<lparr>seg_bitmap := bm, sb := b, next_seg := of_nat i + 1\<rparr>, Some (of_nat i))"
    "filter (\<lambda>i. \<not> seg_used bm i) [Suc i..<unat (total_segs (sb s))] = rest" "total_segs b = total_segs (sb s)"
    "inode_table_start b = inode_table_start (sb s)" "unat (next_seg s) \<le> i" "i < unat (total_segs (sb s))" by blast
  define s1 where "s1 = s\<lparr>seg_bitmap := bm, sb := b, next_seg := of_nat i + 1, current_seg := of_nat i, block_in_seg := 0\<rparr>"
  have t: "unat (total_segs (sb s)) < 2 ^ 64" "i < 2 ^ 64" using unat_u64_bound [of "total_segs (sb s)"] seg(6) by auto
  have i: "unat (of_nat i :: u64) = i" "unat (of_nat i + 1 :: u64) = Suc i"
    using t seg(6) by (simp_all add: unat_of_nat_small unat_add_small)
  have n0: "0 < unat (next_seg s)" using ok by (simp add: alloc_ok_def word_less_nat_alt)
  have ok1: "alloc_ok dev s1"
    using ok i seg n0 by (auto simp: alloc_ok_def s1_def word_less_nat_alt word_le_nat_alt)
  have cs1: "current_seg s1 \<noteq> 0" "block_in_seg s1 < 512"
    using i(1) n0 seg(5) by (auto simp: s1_def)
  have sp1: "space s1 = space s" using cs1 seg i(2) f sp'(1) by (simp add: space_def free_list_def s1_def)
  have fr: "frontier s \<le> frontier s1"
  proof -
    have "frontier s \<le> 2097152 * unat (next_seg s)" by (rule frontier_next [OF ok])
    also have "\<dots> \<le> frontier s1" using cs1(1) i(1) seg(5) by (simp add: frontier_def s1_def)
    finally show ?thesis .
  qed
  have "crfs_alloc_block s = (s1\<lparr>block_in_seg := block_in_seg s1 + 1\<rparr>,
      Some (current_seg s1 * CRFS_SEG_SIZE + ucast (block_in_seg s1) * of_nat CRFS_BLOCK_SIZE))"
    using True seg(1) by (simp add: crfs_alloc_block_def CRFS_BLOCKS_PER_SEG_def s1_def Let_def)
  moreover have "same_files s (s1\<lparr>block_in_seg := block_in_seg s1 + 1\<rparr>)" "total_segs (sb s1) = total_segs (sb s)" "disk s1 = disk s"
    using seg by (simp_all add: same_files_def s1_def)
  ultimately show ?thesis using alloc_block_place [OF cs1(1) ok1 cs1(2)] sp1 fr by auto
qed

lemma alloc_block_full: "space s = 0 \<Longrightarrow> block_in_seg s \<le> 512 \<Longrightarrow> crfs_alloc_block s = (s, None)"
  by (auto simp: space_def crfs_alloc_block_def alloc_segment_full CRFS_BLOCKS_PER_SEG_def word_le_nat_alt split: if_splits)

end
