(* ===== verification/CrfsTree.thy ===== *)
theory CrfsTree
  imports Crfs
begin

text \<open>
  The direct, indirect and doubly indirect block pointers of an inode are a map from block numbers to
  disk addresses: setting one changes that lookup and no other, writes only fresh blocks and pointer
  blocks of the inode, and keeps the tree well formed.
\<close>

section \<open>Reading and writing blocks\<close>

definition blk :: "'d block_device \<Rightarrow> u64 \<Rightarrow> bool" where
  "blk dev a \<longleftrightarrow> unat a mod 4096 = 0 \<and> unat a + 4096 \<le> unat (dev_size dev)"

lemma frontier_bound: "alloc_ok dev s \<Longrightarrow> frontier s \<le> unat (dev_size dev)"
proof -
  assume ok: "alloc_ok dev s"
  then have t: "2097152 * unat (total_segs (sb s)) \<le> unat (dev_size dev)" "unat (next_seg s) \<le> unat (total_segs (sb s))"
    by (auto simp: alloc_ok_def word_le_nat_alt)
  have "frontier s \<le> 2097152 * unat (next_seg s)" by (rule frontier_next [OF ok])
  with t show ?thesis by simp
qed

lemma blk_ok_blk: "alloc_ok dev s \<Longrightarrow> blk_ok s a \<Longrightarrow> blk dev a"
  using frontier_bound [of dev s] by (simp add: blk_ok_def blk_def)

lemma blk_ok_mono: "blk_ok s a \<Longrightarrow> frontier s \<le> frontier s' \<Longrightarrow> blk_ok s' a"
  by (simp add: blk_ok_def)

lemma blocks_disjoint:
  assumes "(x :: nat) mod 4096 = 0" and "y mod 4096 = 0" and "x \<noteq> y"
  shows "y + 4096 \<le> x \<or> x + 4096 \<le> y"
proof -
  obtain q r where "x = 4096 * q" "y = 4096 * r" using assms(1,2) by (auto simp: mod_eq_0_iff_dvd elim!: dvdE)
  moreover from this assms(3) have "q < r \<or> r < q" by auto
  ultimately show ?thesis by auto
qed

lemma read_block_length [simp]: "faithful dev \<Longrightarrow> length (crfs_read_block dev s a) = 4096"
  by (simp add: crfs_read_block_def faithful_length CRFS_BLOCK_SIZE_def)

lemma read_ptrs_length [simp]: "faithful dev \<Longrightarrow> length (read_ptrs dev s a) = 512"
  by (simp add: read_ptrs_def)

lemma write_block_same:
  assumes "faithful dev" and "blk dev a" and "length bs = 4096"
  shows "crfs_read_block dev (crfs_write_block dev s a bs) a = bs"
  using read_written [of dev a bs] assms
  by (simp add: crfs_read_block_def crfs_write_block_def CRFS_BLOCK_SIZE_def blk_def on_device_def)

lemma write_block_other:
  assumes "faithful dev" and "blk dev a" and "blk dev b" and "a \<noteq> b" and "length bs = 4096"
  shows "crfs_read_block dev (crfs_write_block dev s a bs) b = crfs_read_block dev s b"
proof -
  have "unat a \<noteq> unat b" using assms(4) by (simp add: word_unat_eq_iff)
  then have "unat b + 4096 \<le> unat a \<or> unat a + 4096 \<le> unat b"
    using assms(2,3) blocks_disjoint by (simp add: blk_def)
  with assms show ?thesis using read_elsewhere [of dev a bs b 4096]
    by (simp add: crfs_read_block_def crfs_write_block_def CRFS_BLOCK_SIZE_def blk_def on_device_def)
qed

lemma read_block_cong: "disk s = disk s' \<Longrightarrow> crfs_read_block dev s a = crfs_read_block dev s' a"
  by (simp add: crfs_read_block_def)

lemma read_ptrs_cong: "crfs_read_block dev s a = crfs_read_block dev s' a \<Longrightarrow> read_ptrs dev s a = read_ptrs dev s' a"
  by (simp add: read_ptrs_def)

lemma write_block_frame [simp]:
  "inodes (crfs_write_block dev s a bs) = inodes s" "files (crfs_write_block dev s a bs) = files s"
  "same_files s (crfs_write_block dev s a bs)" "frontier (crfs_write_block dev s a bs) = frontier s"
  "space (crfs_write_block dev s a bs) = space s" "alloc_ok dev (crfs_write_block dev s a bs) = alloc_ok dev s"
  by (simp_all add: crfs_write_block_def same_files_def frontier_def space_def free_list_def alloc_ok_def)

lemma write_ptrs_frame [simp]:
  "inodes (write_ptrs dev s a ps) = inodes s" "files (write_ptrs dev s a ps) = files s"
  "same_files s (write_ptrs dev s a ps)" "frontier (write_ptrs dev s a ps) = frontier s"
  "space (write_ptrs dev s a ps) = space s" "alloc_ok dev (write_ptrs dev s a ps) = alloc_ok dev s"
  by (simp_all add: write_ptrs_def)

lemma upd_idisk_frame [simp]:
  "disk (upd_idisk s p f) = disk s" "files (upd_idisk s p f) = files s"
  "inodes (upd_idisk s p f) = (inodes s)(p := idisk_update f (inodes s p))" "frontier (upd_idisk s p f) = frontier s"
  "space (upd_idisk s p f) = space s" "alloc_ok dev (upd_idisk s p f) = alloc_ok dev s"
  by (simp_all add: upd_idisk_def upd_inode_def frontier_def space_def free_list_def alloc_ok_def)

lemma mark_dirty_frame [simp]:
  "disk (mark_dirty s p) = disk s" "files (mark_dirty s p) = files s"
  "inodes (mark_dirty s p) = (inodes s)(p := (inodes s p)\<lparr>dirty := True\<rparr>)" "frontier (mark_dirty s p) = frontier s"
  "space (mark_dirty s p) = space s" "alloc_ok dev (mark_dirty s p) = alloc_ok dev s"
  by (simp_all add: mark_dirty_def upd_inode_def frontier_def space_def free_list_def alloc_ok_def)

lemma read_block_frame [simp]:
  "crfs_read_block dev (upd_idisk s p f) a = crfs_read_block dev s a" "crfs_read_block dev (mark_dirty s p) a = crfs_read_block dev s a"
  "read_ptrs dev (upd_idisk s p f) a = read_ptrs dev s a" "read_ptrs dev (mark_dirty s p) a = read_ptrs dev s a"
  by (simp_all add: crfs_read_block_def read_ptrs_def)

section \<open>Positions in the tree of block pointers\<close>

datatype slot = Dir nat | Ind nat | Dbl nat nat | Out

definition slot_of :: "u32 \<Rightarrow> slot" where
  "slot_of m = (if unat m < 12 then Dir (unat m) else if unat m < 524 then Ind (unat m - 12)
     else if unat m < 262668 then Dbl ((unat m - 524) div 512) ((unat m - 524) mod 512) else Out)"

lemma slot_of_inj: "slot_of m = slot_of n \<Longrightarrow> slot_of n \<noteq> Out \<Longrightarrow> m = n"
proof -
  assume eq: "slot_of m = slot_of n" "slot_of n \<noteq> Out"
  have dm: "x div 512 = y div 512 \<Longrightarrow> x mod 512 = y mod 512 \<Longrightarrow> x = y" for x y :: nat by (metis div_mult_mod_eq)
  have "unat m = unat n"
    using eq dm [of "unat m - 524" "unat n - 524"] by (auto simp: slot_of_def split: if_splits)
  then show "m = n" by (simp add: word_unat_eq_iff)
qed

lemma slot_of_bounds:
  "slot_of m = Dir i \<Longrightarrow> i < 12" "slot_of m = Ind i \<Longrightarrow> i < 512" "slot_of m = Dbl i j \<Longrightarrow> i < 512 \<and> j < 512"
  by (auto simp: slot_of_def split: if_splits)

fun get_slot :: "'d block_device \<Rightarrow> 'd crfs \<Rightarrow> inode_disk \<Rightarrow> slot \<Rightarrow> u64" where
  "get_slot dev s ino (Dir i) = direct ino ! i"
| "get_slot dev s ino (Ind i) = (if indirect ino = 0 then 0 else read_ptrs dev s (indirect ino) ! i)"
| "get_slot dev s ino (Dbl i j) =
     (if double_indirect ino = 0 then 0
      else let l1 = read_ptrs dev s (double_indirect ino) ! i in if l1 = 0 then 0 else read_ptrs dev s l1 ! j)"
| "get_slot dev s ino Out = 0"

lemma slot_arith:
  fixes m :: u32
  shows "m < CRFS_INDIRECT_BASE \<longleftrightarrow> unat m < 12"
    and "12 \<le> unat m \<Longrightarrow> unat (m - CRFS_INDIRECT_BASE) = unat m - 12"
    and "12 \<le> unat m \<Longrightarrow> m - CRFS_INDIRECT_BASE < CRFS_PTRS_PER_BLOCK \<longleftrightarrow> unat m < 524"
    and "524 \<le> unat m \<Longrightarrow> unat (m - CRFS_INDIRECT_BASE - CRFS_PTRS_PER_BLOCK) = unat m - 524"
    and "524 \<le> unat m \<Longrightarrow> m - CRFS_INDIRECT_BASE - CRFS_PTRS_PER_BLOCK < CRFS_PTRS_PER_BLOCK * CRFS_PTRS_PER_BLOCK \<longleftrightarrow> unat m < 262668"
proof -
  show "m < CRFS_INDIRECT_BASE \<longleftrightarrow> unat m < 12" by (simp add: CRFS_INDIRECT_BASE_def word_less_nat_alt)
  show a: "unat (m - CRFS_INDIRECT_BASE) = unat m - 12" if "12 \<le> unat m"
    using that by (simp add: CRFS_INDIRECT_BASE_def unat_sub_small)
  then show "m - CRFS_INDIRECT_BASE < CRFS_PTRS_PER_BLOCK \<longleftrightarrow> unat m < 524" if "12 \<le> unat m"
    using that by (simp add: CRFS_PTRS_PER_BLOCK_def word_less_nat_alt less_diff_conv2)
  show b: "unat (m - CRFS_INDIRECT_BASE - CRFS_PTRS_PER_BLOCK) = unat m - 524" if "524 \<le> unat m"
    using that a by (simp add: CRFS_PTRS_PER_BLOCK_def unat_sub_small)
  then show "m - CRFS_INDIRECT_BASE - CRFS_PTRS_PER_BLOCK < CRFS_PTRS_PER_BLOCK * CRFS_PTRS_PER_BLOCK \<longleftrightarrow> unat m < 262668"
    if "524 \<le> unat m" using that by (simp add: CRFS_PTRS_PER_BLOCK_def word_less_nat_alt less_diff_conv2)
qed

lemma get_block_slot: "crfs_inode_get_block dev s ino m = get_slot dev s ino (slot_of m)"
proof -
  have "unat ((m - CRFS_INDIRECT_BASE - CRFS_PTRS_PER_BLOCK) div CRFS_PTRS_PER_BLOCK) = (unat m - 524) div 512"
    "unat ((m - CRFS_INDIRECT_BASE - CRFS_PTRS_PER_BLOCK) mod CRFS_PTRS_PER_BLOCK) = (unat m - 524) mod 512" if "524 \<le> unat m"
    using slot_arith(4) [OF that] by (simp_all add: unat_div unat_mod CRFS_PTRS_PER_BLOCK_def)
  then show ?thesis using slot_arith [of m]
    by (simp add: crfs_inode_get_block_def slot_of_def Let_def)
qed

section \<open>The tree of block pointers is a map\<close>

definition ptr_list :: "'d block_device \<Rightarrow> 'd crfs \<Rightarrow> inode_disk \<Rightarrow> u64 list" where
  "ptr_list dev s ino = filter (\<lambda>a. a \<noteq> 0) (indirect ino # double_indirect ino #
     (if double_indirect ino = 0 then [] else read_ptrs dev s (double_indirect ino)))"

definition tree_ok :: "'d block_device \<Rightarrow> 'd crfs \<Rightarrow> inode_disk \<Rightarrow> bool" where
  "tree_ok dev s ino \<longleftrightarrow> length (direct ino) = 12 \<and> distinct (ptr_list dev s ino) \<and> (\<forall>a \<in> set (ptr_list dev s ino). blk_ok s a)"

text \<open>Two inodes that differ in their pointers only.\<close>

definition ptr_change :: "inode_disk \<Rightarrow> inode_disk \<Rightarrow> bool" where
  "ptr_change i j \<longleftrightarrow> j = i\<lparr>direct := direct j, indirect := indirect j, double_indirect := double_indirect j\<rparr>"

lemma ptr_change_refl [simp]: "ptr_change i i"
  by (simp add: ptr_change_def)

lemma ptr_changeI [intro]: "j = i\<lparr>direct := x, indirect := y, double_indirect := z\<rparr> \<Longrightarrow> ptr_change i j"
  by (simp add: ptr_change_def)

lemma ptr_change_trans: "ptr_change i j \<Longrightarrow> ptr_change j k \<Longrightarrow> ptr_change i k"
proof -
  assume i: "ptr_change i j" and j: "ptr_change j k"
  have "k = j\<lparr>direct := direct k, indirect := indirect k, double_indirect := double_indirect k\<rparr>" using j by (simp add: ptr_change_def)
  also have "\<dots> = i\<lparr>direct := direct k, indirect := indirect k, double_indirect := double_indirect k\<rparr>"
    by (subst i [unfolded ptr_change_def]) simp
  finally show ?thesis by blast
qed

text \<open>
  The inode object \<open>p\<close> and the disk after a change of the tree: nothing but the pointers of \<open>p\<close>, its
  pointer blocks and fresh blocks has changed.
\<close>

definition evolves :: "'d block_device \<Rightarrow> nat \<Rightarrow> 'd crfs \<Rightarrow> 'd crfs \<Rightarrow> bool" where
  "evolves dev p s s' \<longleftrightarrow> alloc_ok dev s' \<and> frontier s \<le> frontier s' \<and> files s' = files s
     \<and> (\<forall>q. q \<noteq> p \<longrightarrow> inodes s' q = inodes s q)
     \<and> ptr_change (idisk (inodes s p)) (idisk (inodes s' p))
     \<and> tree_ok dev s' (idisk (inodes s' p))
     \<and> (\<forall>b \<in> set (ptr_list dev s' (idisk (inodes s' p))). b \<in> set (ptr_list dev s (idisk (inodes s p))) \<or> frontier s \<le> unat b)
     \<and> (\<forall>b. blk_ok s b \<and> b \<notin> set (ptr_list dev s (idisk (inodes s p))) \<longrightarrow> crfs_read_block dev s' b = crfs_read_block dev s b)"

lemma blk_ok_not_fresh: "blk_ok s b \<Longrightarrow> \<not> frontier s \<le> unat b"
  by (simp add: blk_ok_def)

lemma evolves_trans:
  assumes a: "evolves dev p s s1" and b: "evolves dev p s1 s2"
  shows "evolves dev p s s2"
proof -
  have "ptr_change (idisk (inodes s p)) (idisk (inodes s2 p))"
    using a b ptr_change_trans by (auto simp: evolves_def)
  moreover have "crfs_read_block dev s2 c = crfs_read_block dev s c"
    if "blk_ok s c" "c \<notin> set (ptr_list dev s (idisk (inodes s p)))" for c
  proof -
    have "c \<notin> set (ptr_list dev s1 (idisk (inodes s1 p)))" using a that blk_ok_not_fresh [OF that(1)] by (auto simp: evolves_def)
    moreover have "blk_ok s1 c" using a that blk_ok_mono by (auto simp: evolves_def)
    ultimately show ?thesis using a b that by (simp add: evolves_def)
  qed
  moreover have "c \<in> set (ptr_list dev s (idisk (inodes s p))) \<or> frontier s \<le> unat c"
    if "c \<in> set (ptr_list dev s2 (idisk (inodes s2 p)))" for c
    using a b that unfolding evolves_def by (meson le_trans)
  ultimately show ?thesis using a b unfolding evolves_def by (intro conjI) auto
qed

lemma ptr_list_double: "double_indirect ino \<noteq> 0 \<Longrightarrow> double_indirect ino \<in> set (ptr_list dev s ino)"
  by (simp add: ptr_list_def)

lemma ptr_list_indirect: "indirect ino \<noteq> 0 \<Longrightarrow> indirect ino \<in> set (ptr_list dev s ino)"
  by (simp add: ptr_list_def)

lemma ptr_list_level2:
  "faithful dev \<Longrightarrow> double_indirect ino \<noteq> 0 \<Longrightarrow> i < 512 \<Longrightarrow> read_ptrs dev s (double_indirect ino) ! i \<noteq> 0 \<Longrightarrow>
     read_ptrs dev s (double_indirect ino) ! i \<in> set (ptr_list dev s ino)"
  by (simp add: ptr_list_def)

text \<open>Lookups read pointer blocks only.\<close>

lemma lookup_cong:
  assumes f: "faithful dev" and same: "\<forall>a \<in> set (ptr_list dev s ino). crfs_read_block dev s' a = crfs_read_block dev s a"
  shows "ptr_list dev s' ino = ptr_list dev s ino" "get_slot dev s' ino (slot_of m) = get_slot dev s ino (slot_of m)"
proof -
  have d: "double_indirect ino \<noteq> 0 \<Longrightarrow> read_ptrs dev s' (double_indirect ino) = read_ptrs dev s (double_indirect ino)"
    using same ptr_list_double [of ino dev s] read_ptrs_cong by blast
  then show "ptr_list dev s' ino = ptr_list dev s ino" by (simp add: ptr_list_def)
  show "get_slot dev s' ino (slot_of m) = get_slot dev s ino (slot_of m)"
  proof (cases "slot_of m")
    case (Ind i)
    then show ?thesis using same ptr_list_indirect [of ino dev s] read_ptrs_cong by (metis get_slot.simps(2))
  next
    case (Dbl i j)
    have "i < 512" using slot_of_bounds(3) [OF Dbl] by simp
    then have "read_ptrs dev s (double_indirect ino) ! i \<noteq> 0 \<Longrightarrow> double_indirect ino \<noteq> 0 \<Longrightarrow>
        read_ptrs dev s' (read_ptrs dev s (double_indirect ino) ! i) = read_ptrs dev s (read_ptrs dev s (double_indirect ino) ! i)"
      using same ptr_list_level2 [OF f] read_ptrs_cong by metis
    with Dbl d show ?thesis by (simp add: Let_def)
  qed simp_all
qed

lemma new_ptr_block_ok:
  assumes f: "faithful dev" and ok: "alloc_ok dev s" and sp: "0 < space s"
  shows "\<exists>s1 b. new_ptr_block dev s = (s1, Some b) \<and> alloc_ok dev s1 \<and> Suc (space s1) = space s \<and> same_files s s1 \<and> blk_ok s1 b
    \<and> frontier s \<le> unat b \<and> frontier s \<le> frontier s1 \<and> read_ptrs dev s1 b = replicate 512 0
    \<and> (\<forall>a. blk_ok s a \<longrightarrow> crfs_read_block dev s1 a = crfs_read_block dev s a)"
proof -
  obtain s0 b where a: "crfs_alloc_block s = (s0, Some b)" "alloc_ok dev s0" "Suc (space s0) = space s" "same_files s s0" "disk s0 = disk s"
    "b \<noteq> 0" "unat b mod 4096 = 0" "frontier s \<le> unat b" "frontier s0 = unat b + 4096"
    using alloc_block_ok [OF ok sp] by auto
  let ?z = "replicate (unat CRFS_PTRS_PER_BLOCK) (0 :: u64)"
  have bo: "blk_ok s0 b" using a by (simp add: blk_ok_def)
  have bb: "blk dev b" by (rule blk_ok_blk [OF a(2) bo])
  have z: "length (ptr_bytes ?z) = 4096" by (simp add: CRFS_PTRS_PER_BLOCK_def)
  have "crfs_read_block dev (write_ptrs dev s0 b ?z) x = crfs_read_block dev s x" if "blk_ok s x" for x
  proof -
    have "x \<noteq> b" "blk dev x" using that a(8) blk_ok_not_fresh [OF that] blk_ok_blk [OF ok that] by auto
    with f bb z show ?thesis
      by (simp add: write_ptrs_def write_block_other read_block_cong [OF a(5)])
  qed
  moreover have "read_ptrs dev (write_ptrs dev s0 b ?z) b = replicate 512 0"
    using f bb z by (simp add: read_ptrs_def write_ptrs_def write_block_same CRFS_PTRS_PER_BLOCK_def)
  moreover have "same_files s (write_ptrs dev s0 b ?z)"
    using a(4) by (simp add: same_files_def write_ptrs_def crfs_write_block_def)
  moreover have "blk_ok (write_ptrs dev s0 b ?z) b" using bo by (simp add: blk_ok_def)
  ultimately show ?thesis using a by (simp add: new_ptr_block_def)
qed

text \<open>The three ways in which the tree gets a pointer block; no lookup changes.\<close>

lemma grow_indirect:
  assumes f: "faithful dev" and ok: "alloc_ok dev s" and sp: "0 < space s" and t: "tree_ok dev s (idisk (inodes s p))"
    and z: "indirect (idisk (inodes s p)) = 0"
  shows "\<exists>s1 b. new_ptr_block dev s = (s1, Some b) \<and> Suc (space s1) = space s \<and> b \<noteq> 0
    \<and> evolves dev p s (upd_idisk s1 p (\<lambda>d. d\<lparr>indirect := b\<rparr>))
    \<and> (\<forall>m. get_slot dev (upd_idisk s1 p (\<lambda>d. d\<lparr>indirect := b\<rparr>)) ((idisk (inodes s p))\<lparr>indirect := b\<rparr>) (slot_of m) =
         get_slot dev s (idisk (inodes s p)) (slot_of m))"
proof -
  let ?i = "idisk (inodes s p)"
  obtain s1 b where n: "new_ptr_block dev s = (s1, Some b)" "alloc_ok dev s1" "Suc (space s1) = space s" "same_files s s1" "blk_ok s1 b"
    "frontier s \<le> unat b" "frontier s \<le> frontier s1" "read_ptrs dev s1 b = replicate 512 0"
    "\<forall>a. blk_ok s a \<longrightarrow> crfs_read_block dev s1 a = crfs_read_block dev s a"
    using new_ptr_block_ok [OF f ok sp] by auto
  let ?s = "upd_idisk s1 p (\<lambda>d. d\<lparr>indirect := b\<rparr>)" and ?j = "?i\<lparr>indirect := b\<rparr>"
  have i1: "inodes s1 = inodes s" "files s1 = files s" using n(4) by (simp_all add: same_files_def)
  have b0: "b \<noteq> 0" using n(5) by (simp add: blk_ok_def)
  have same: "\<forall>a \<in> set (ptr_list dev s ?i). crfs_read_block dev ?s a = crfs_read_block dev s a"
    using n(9) t by (simp add: tree_ok_def)
  note lk = lookup_cong [OF f same]
  have pl: "ptr_list dev ?s ?j = b # ptr_list dev s ?i"
    using z b0 lk(1) by (auto simp: ptr_list_def split: if_splits)
  have bn: "b \<notin> set (ptr_list dev s ?i)" using t n(6) blk_ok_not_fresh by (auto simp: tree_ok_def)
  have ev: "evolves dev p s ?s"
    unfolding evolves_def
  proof (intro conjI)
    show "tree_ok dev ?s (idisk (inodes ?s p))"
      using t bn n(5,7) pl blk_ok_mono [of s _ ?s] by (auto simp: tree_ok_def i1 blk_ok_def)
    show "ptr_change ?i (idisk (inodes ?s p))"
      by (simp add: i1 ptr_change_def)
  qed (use n i1 pl in \<open>auto simp: i1\<close>)
  have "get_slot dev ?s ?j (slot_of m) = get_slot dev s ?i (slot_of m)" for m
  proof (cases "slot_of m")
    case (Ind i)
    then show ?thesis using z n(8) b0 slot_of_bounds(2) [OF Ind] by simp
  qed (use lk(2) [of m] in \<open>simp_all split: if_splits\<close>)
  with n(1,3) b0 ev show ?thesis by blast
qed

lemma grow_double:
  assumes f: "faithful dev" and ok: "alloc_ok dev s" and sp: "0 < space s" and t: "tree_ok dev s (idisk (inodes s p))"
    and z: "double_indirect (idisk (inodes s p)) = 0"
  shows "\<exists>s1 b. new_ptr_block dev s = (s1, Some b) \<and> Suc (space s1) = space s \<and> b \<noteq> 0
    \<and> evolves dev p s (upd_idisk s1 p (\<lambda>d. d\<lparr>double_indirect := b\<rparr>))
    \<and> (\<forall>m. get_slot dev (upd_idisk s1 p (\<lambda>d. d\<lparr>double_indirect := b\<rparr>)) ((idisk (inodes s p))\<lparr>double_indirect := b\<rparr>) (slot_of m) =
         get_slot dev s (idisk (inodes s p)) (slot_of m))"
proof -
  let ?i = "idisk (inodes s p)"
  obtain s1 b where n: "new_ptr_block dev s = (s1, Some b)" "alloc_ok dev s1" "Suc (space s1) = space s" "same_files s s1" "blk_ok s1 b"
    "frontier s \<le> unat b" "frontier s \<le> frontier s1" "read_ptrs dev s1 b = replicate 512 0"
    "\<forall>a. blk_ok s a \<longrightarrow> crfs_read_block dev s1 a = crfs_read_block dev s a"
    using new_ptr_block_ok [OF f ok sp] by auto
  let ?s = "upd_idisk s1 p (\<lambda>d. d\<lparr>double_indirect := b\<rparr>)" and ?j = "?i\<lparr>double_indirect := b\<rparr>"
  have i1: "inodes s1 = inodes s" "files s1 = files s" using n(4) by (simp_all add: same_files_def)
  have b0: "b \<noteq> 0" using n(5) by (simp add: blk_ok_def)
  have same: "\<forall>a \<in> set (ptr_list dev s ?i). crfs_read_block dev ?s a = crfs_read_block dev s a"
    using n(9) t by (simp add: tree_ok_def)
  note lk = lookup_cong [OF f same]
  have pl: "ptr_list dev ?s ?j = ptr_list dev s ?i @ [b]"
    using z b0 n(8) by (simp add: ptr_list_def)
  have bn: "b \<notin> set (ptr_list dev s ?i)" using t n(6) blk_ok_not_fresh by (auto simp: tree_ok_def)
  have ev: "evolves dev p s ?s"
    unfolding evolves_def
  proof (intro conjI)
    show "tree_ok dev ?s (idisk (inodes ?s p))"
      using t bn n(5,7) pl blk_ok_mono [of s _ ?s] by (auto simp: tree_ok_def i1 blk_ok_def)
    show "ptr_change ?i (idisk (inodes ?s p))"
      by (simp add: i1 ptr_change_def)
  qed (use n i1 pl in \<open>auto simp: i1\<close>)
  have "get_slot dev ?s ?j (slot_of m) = get_slot dev s ?i (slot_of m)" for m
  proof (cases "slot_of m")
    case (Dbl i j)
    then show ?thesis using z n(8) b0 slot_of_bounds(3) [OF Dbl] by (simp add: Let_def)
  qed (use lk(2) [of m] in \<open>simp_all split: if_splits\<close>)
  with n(1,3) b0 ev show ?thesis by blast
qed

lemma distinct_filter_nth:
  "distinct (filter P xs) \<Longrightarrow> i < length xs \<Longrightarrow> j < length xs \<Longrightarrow> xs ! i = xs ! j \<Longrightarrow> P (xs ! i) \<Longrightarrow> i = j"
proof (induction xs arbitrary: i j)
  case (Cons x xs)
  show ?case
  proof (cases i; cases j)
    fix i' j'
    assume "i = Suc i'" "j = Suc j'"
    with Cons.IH [of i' j'] Cons.prems show ?thesis by (auto split: if_splits)
  qed (use Cons.prems in \<open>auto split: if_splits simp: in_set_conv_nth\<close>)
qed simp

lemma filter_update_zero:
  assumes "i < length xs" and "xs ! i = (0 :: u64)" and "b \<noteq> 0"
  shows "set (filter (\<lambda>a. a \<noteq> 0) (xs[i := b])) = insert b (set (filter (\<lambda>a. a \<noteq> 0) xs))"
    and "b \<notin> set xs \<Longrightarrow> distinct (filter (\<lambda>a. a \<noteq> 0) xs) \<Longrightarrow> distinct (filter (\<lambda>a. a \<noteq> 0) (xs[i := b]))"
proof -
  let ?x = "take i xs" and ?y = "drop (Suc i) xs"
  have x: "xs = ?x @ 0 # ?y" using assms id_take_nth_drop [of i xs] by simp
  have u: "xs[i := b] = ?x @ b # ?y" using assms(1) by (rule upd_conv_take_nth_drop)
  show "set (filter (\<lambda>a. a \<noteq> 0) (xs[i := b])) = insert b (set (filter (\<lambda>a. a \<noteq> 0) xs))"
    unfolding u by (subst x) (use assms(3) in auto)
  show "distinct (filter (\<lambda>a. a \<noteq> 0) (xs[i := b]))" if "b \<notin> set xs" "distinct (filter (\<lambda>a. a \<noteq> 0) xs)"
  proof -
    have "distinct (filter (\<lambda>a. a \<noteq> 0) (?x @ 0 # ?y))" "b \<notin> set (?x @ 0 # ?y)" using that x by simp_all
    then show ?thesis unfolding u using assms(3) by auto
  qed
qed

lemma write_ptrs_read:
  assumes "faithful dev" and "alloc_ok dev s" and "blk_ok s a" and "length ps = 512"
  shows "read_ptrs dev (write_ptrs dev s a ps) a = ps"
    and "blk_ok s c \<Longrightarrow> c \<noteq> a \<Longrightarrow> crfs_read_block dev (write_ptrs dev s a ps) c = crfs_read_block dev s c"
  using assms blk_ok_blk [OF assms(2)] by (simp_all add: read_ptrs_def write_ptrs_def write_block_same write_block_other)

text \<open>Writing a leaf of the tree.\<close>

lemma store_leaf:
  fixes k a
  assumes f: "faithful dev" and ok: "alloc_ok dev s" and t: "tree_ok dev s (idisk (inodes s p))"
    and leaf: "lf \<in> set (ptr_list dev s (idisk (inodes s p)))" "lf \<noteq> double_indirect (idisk (inodes s p))"
  defines "s' \<equiv> mark_dirty (store_ptr dev s lf k a) p"
  shows "evolves dev p s s'" "idisk (inodes s' p) = idisk (inodes s p)" "space s' = space s"
    "read_ptrs dev s' lf = (read_ptrs dev s lf)[k := a]"
    "\<And>c. blk_ok s c \<Longrightarrow> c \<noteq> lf \<Longrightarrow> read_ptrs dev s' c = read_ptrs dev s c"
proof -
  let ?i = "idisk (inodes s p)"
  have b: "blk_ok s lf" using t leaf by (simp add: tree_ok_def)
  show i: "idisk (inodes s' p) = ?i" and sp: "space s' = space s" by (simp_all add: s'_def store_ptr_def)
  note w = write_ptrs_read [OF f ok b, of "(read_ptrs dev s lf)[k := a]"]
  show "read_ptrs dev s' lf = (read_ptrs dev s lf)[k := a]" using w(1) f by (simp add: s'_def store_ptr_def)
  have same: "crfs_read_block dev s' c = crfs_read_block dev s c" if "blk_ok s c" "c \<noteq> lf" for c
    using w(2) that f by (simp add: s'_def store_ptr_def)
  then show "\<And>c. blk_ok s c \<Longrightarrow> c \<noteq> lf \<Longrightarrow> read_ptrs dev s' c = read_ptrs dev s c"
    by (rule read_ptrs_cong)
  have "double_indirect ?i \<noteq> 0 \<Longrightarrow> read_ptrs dev s' (double_indirect ?i) = read_ptrs dev s (double_indirect ?i)"
    using t ptr_list_double [of ?i dev s] leaf(2) same by (intro read_ptrs_cong) (auto simp: tree_ok_def)
  then have pl: "ptr_list dev s' ?i = ptr_list dev s ?i" by (simp add: ptr_list_def)
  have fr: "frontier s' = frontier s" "alloc_ok dev s'" "files s' = files s" using ok by (simp_all add: s'_def store_ptr_def)
  show "evolves dev p s s'"
    unfolding evolves_def i pl
  proof (intro conjI)
    show "tree_ok dev s' ?i" using t fr by (simp add: tree_ok_def pl blk_ok_def)
    show "ptr_change ?i (?i)"
      by simp
  qed (use fr leaf same in \<open>auto simp: s'_def store_ptr_def\<close>)
qed

lemma store_indirect_get:
  fixes a
  assumes f: "faithful dev" and ok: "alloc_ok dev s" and t: "tree_ok dev s (idisk (inodes s p))"
    and ind: "indirect (idisk (inodes s p)) \<noteq> 0" and k: "k < 512"
  defines "s' \<equiv> mark_dirty (store_ptr dev s (indirect (idisk (inodes s p))) k a) p"
  shows "evolves dev p s s'" "space s' = space s"
    "get_slot dev s' (idisk (inodes s' p)) (slot_of m) = (if slot_of m = Ind k then a else get_slot dev s (idisk (inodes s p)) (slot_of m))"
proof -
  let ?i = "idisk (inodes s p)"
  have leaf: "indirect ?i \<in> set (ptr_list dev s ?i)" "indirect ?i \<noteq> double_indirect ?i"
    using ind t by (auto simp: ptr_list_def tree_ok_def)
  note st = store_leaf [OF f ok t leaf, where k = k and a = a, folded s'_def]
  show "evolves dev p s s'" "space s' = space s" by (rule st)+
  have same: "read_ptrs dev s' c = read_ptrs dev s c" if "c \<in> set (ptr_list dev s ?i)" "c \<noteq> indirect ?i" for c
    using st(5) that t by (simp add: tree_ok_def)
  show "get_slot dev s' (idisk (inodes s' p)) (slot_of m) = (if slot_of m = Ind k then a else get_slot dev s ?i (slot_of m))"
  proof (cases "slot_of m")
    case (Ind i)
    then show ?thesis using ind st(2,4) k f by (simp add: nth_list_update)
  next
    case (Dbl i j)
    have "i < 512" using slot_of_bounds(3) [OF Dbl] by simp
    show ?thesis
    proof (cases "double_indirect ?i = 0")
      case False
      let ?top = "read_ptrs dev s (double_indirect ?i)"
      have top: "read_ptrs dev s' (double_indirect ?i) = ?top" using same ptr_list_double [OF False] leaf(2) by metis
      have "?top ! i \<noteq> 0 \<Longrightarrow> ?top ! i \<noteq> indirect ?i"
        using t ind False \<open>i < 512\<close> f by (auto simp: tree_ok_def ptr_list_def in_set_conv_nth)
      with same ptr_list_level2 [OF f False \<open>i < 512\<close>] have "?top ! i \<noteq> 0 \<Longrightarrow> read_ptrs dev s' (?top ! i) = read_ptrs dev s (?top ! i)"
        by blast
      with Dbl False st(2) top show ?thesis by (simp add: Let_def)
    qed (simp add: Dbl st(2))
  qed (simp_all add: st(2))
qed

lemma store_level2_get:
  fixes a
  assumes f: "faithful dev" and ok: "alloc_ok dev s" and t: "tree_ok dev s (idisk (inodes s p))"
    and dbl: "double_indirect (idisk (inodes s p)) \<noteq> 0" and k: "k < 512" and l: "l < 512"
    and nz: "read_ptrs dev s (double_indirect (idisk (inodes s p))) ! k \<noteq> 0"
  defines "s' \<equiv> mark_dirty (store_ptr dev s (read_ptrs dev s (double_indirect (idisk (inodes s p))) ! k) l a) p"
  shows "evolves dev p s s'" "space s' = space s"
    "get_slot dev s' (idisk (inodes s' p)) (slot_of m) = (if slot_of m = Dbl k l then a else get_slot dev s (idisk (inodes s p)) (slot_of m))"
proof -
  let ?i = "idisk (inodes s p)" and ?top = "read_ptrs dev s (double_indirect (idisk (inodes s p)))"
  have dist: "distinct (filter (\<lambda>a. a \<noteq> 0) ?top)" "double_indirect ?i \<notin> set (filter (\<lambda>a. a \<noteq> 0) ?top)"
    "indirect ?i \<noteq> 0 \<Longrightarrow> indirect ?i \<notin> set (filter (\<lambda>a. a \<noteq> 0) ?top)"
    using t dbl by (auto simp: tree_ok_def ptr_list_def split: if_splits)
  have leaf: "?top ! k \<in> set (ptr_list dev s ?i)" "?top ! k \<noteq> double_indirect ?i"
    using ptr_list_level2 [OF f dbl k nz] dist(2) nz k f by (auto simp: in_set_conv_nth)
  note st = store_leaf [OF f ok t leaf, where k = l and a = a, folded s'_def]
  show "evolves dev p s s'" "space s' = space s" by (rule st)+
  have same: "read_ptrs dev s' c = read_ptrs dev s c" if "c \<in> set (ptr_list dev s ?i)" "c \<noteq> ?top ! k" for c
    using st(5) that t by (simp add: tree_ok_def)
  have top: "read_ptrs dev s' (double_indirect ?i) = ?top" using same ptr_list_double [OF dbl] leaf(2) by metis
  show "get_slot dev s' (idisk (inodes s' p)) (slot_of m) = (if slot_of m = Dbl k l then a else get_slot dev s ?i (slot_of m))"
  proof (cases "slot_of m")
    case (Ind i)
    have "indirect ?i \<noteq> 0 \<Longrightarrow> indirect ?i \<noteq> ?top ! k" using dist(3) nz k f by (auto simp: in_set_conv_nth)
    then have "indirect ?i \<noteq> 0 \<Longrightarrow> read_ptrs dev s' (indirect ?i) = read_ptrs dev s (indirect ?i)"
      using same ptr_list_indirect by blast
    with Ind st(2) show ?thesis by simp
  next
    case (Dbl i j)
    have i: "i < 512" using slot_of_bounds(3) [OF Dbl] by simp
    show ?thesis
    proof (cases "i = k")
      case True
      with Dbl dbl nz st(2,4) top l f show ?thesis by (simp add: Let_def nth_list_update)
    next
      case False
      then have "?top ! i \<noteq> 0 \<Longrightarrow> ?top ! i \<noteq> ?top ! k" using distinct_filter_nth [OF dist(1), of i k] i k f by auto
      with same ptr_list_level2 [OF f dbl i] have "?top ! i \<noteq> 0 \<Longrightarrow> read_ptrs dev s' (?top ! i) = read_ptrs dev s (?top ! i)"
        by blast
      with Dbl dbl st(2) top False show ?thesis by (simp add: Let_def)
    qed
  qed (simp_all add: st(2))
qed

lemma grow_level2:
  assumes f: "faithful dev" and ok: "alloc_ok dev s" and sp: "0 < space s" and t: "tree_ok dev s (idisk (inodes s p))"
    and dbl: "double_indirect (idisk (inodes s p)) \<noteq> 0" and k: "k < 512"
    and z: "read_ptrs dev s (double_indirect (idisk (inodes s p))) ! k = 0"
  shows "\<exists>s1 b. new_ptr_block dev s = (s1, Some b) \<and> Suc (space s1) = space s \<and> b \<noteq> 0
    \<and> (let d = double_indirect (idisk (inodes s p)); s2 = write_ptrs dev s1 d ((read_ptrs dev s d)[k := b])
       in evolves dev p s s2 \<and> idisk (inodes s2 p) = idisk (inodes s p) \<and> read_ptrs dev s2 d ! k = b
        \<and> (\<forall>m. get_slot dev s2 (idisk (inodes s p)) (slot_of m) = get_slot dev s (idisk (inodes s p)) (slot_of m)))"
proof -
  let ?i = "idisk (inodes s p)" and ?d = "double_indirect (idisk (inodes s p))"
  let ?top = "read_ptrs dev s ?d"
  obtain s1 b where n: "new_ptr_block dev s = (s1, Some b)" "alloc_ok dev s1" "Suc (space s1) = space s" "same_files s s1" "blk_ok s1 b"
    "frontier s \<le> unat b" "frontier s \<le> frontier s1" "read_ptrs dev s1 b = replicate 512 0"
    "\<forall>a. blk_ok s a \<longrightarrow> crfs_read_block dev s1 a = crfs_read_block dev s a"
    using new_ptr_block_ok [OF f ok sp] by auto
  let ?s = "write_ptrs dev s1 ?d (?top[k := b])"
  have i1: "inodes s1 = inodes s" "files s1 = files s" using n(4) by (simp_all add: same_files_def)
  have b0: "b \<noteq> 0" using n(5) by (simp add: blk_ok_def)
  have bn: "b \<notin> set (ptr_list dev s ?i)" using t n(6) blk_ok_not_fresh by (auto simp: tree_ok_def)
  have dok: "blk_ok s ?d" "b \<noteq> ?d" "b \<notin> set ?top" "b \<noteq> indirect ?i"
    using t ptr_list_double [OF dbl] bn dbl b0 by (auto simp: tree_ok_def ptr_list_def split: if_splits)
  have d1: "blk_ok s1 ?d" using dok(1) n(7) by (rule blk_ok_mono)
  note w = write_ptrs_read [OF f n(2) d1, of "?top[k := b]"]
  have top: "read_ptrs dev ?s ?d = ?top[k := b]" using w(1) f by simp
  have rb: "read_ptrs dev ?s b = replicate 512 0" using w(2) [of b] n(5,8) dok(2) f read_ptrs_cong by (metis length_list_update read_ptrs_length)
  have same: "crfs_read_block dev ?s c = crfs_read_block dev s c" if "blk_ok s c" "c \<noteq> ?d" for c
    using w(2) [of c] that n(7,9) blk_ok_mono [of s c s1] f by simp
  have kt: "k < length ?top" using k f by simp
  have old: "distinct (filter (\<lambda>a. a \<noteq> 0) ?top)" "?d \<notin> set (filter (\<lambda>a. a \<noteq> 0) ?top)"
    "indirect ?i \<noteq> 0 \<Longrightarrow> indirect ?i \<notin> set (filter (\<lambda>a. a \<noteq> 0) ?top)" "indirect ?i \<noteq> 0 \<Longrightarrow> indirect ?i \<noteq> ?d"
    using t dbl by (auto simp: tree_ok_def ptr_list_def split: if_splits)
  note fu = filter_update_zero [OF kt z b0]
  have pl: "set (ptr_list dev ?s ?i) = insert b (set (ptr_list dev s ?i))" "distinct (ptr_list dev ?s ?i)"
    using fu dok old dbl by (auto simp: ptr_list_def top simp del: set_filter filter_set)
  have ev: "evolves dev p s ?s"
    unfolding evolves_def write_ptrs_frame i1
  proof (intro conjI)
    show "tree_ok dev ?s ?i"
      using t n(5,7) pl blk_ok_mono [of s _ ?s] by (auto simp: tree_ok_def blk_ok_def)
    show "ptr_change ?i (?i)"
      by simp
    show "\<forall>c. blk_ok s c \<and> c \<notin> set (ptr_list dev s ?i) \<longrightarrow> crfs_read_block dev ?s c = crfs_read_block dev s c"
      using same ptr_list_double [OF dbl] by blast
  qed (use n pl in auto)
  have "get_slot dev ?s ?i (slot_of m) = get_slot dev s ?i (slot_of m)" for m
  proof (cases "slot_of m")
    case (Ind i)
    have "indirect ?i \<noteq> 0 \<Longrightarrow> read_ptrs dev ?s (indirect ?i) = read_ptrs dev s (indirect ?i)"
      using same old(4) t ptr_list_indirect [of ?i dev s] by (intro read_ptrs_cong) (auto simp: tree_ok_def)
    with Ind show ?thesis by simp
  next
    case (Dbl i j)
    have ij: "i < 512" "j < 512" using slot_of_bounds(3) [OF Dbl] by auto
    show ?thesis
    proof (cases "i = k")
      case True
      with Dbl dbl z rb top kt b0 ij show ?thesis by (simp add: Let_def)
    next
      case False
      have "?top ! i \<noteq> 0 \<Longrightarrow> read_ptrs dev ?s (?top ! i) = read_ptrs dev s (?top ! i)"
        using same t ptr_list_level2 [OF f dbl ij(1)] old(2) ij(1) f
        by (intro read_ptrs_cong) (auto simp: tree_ok_def in_set_conv_nth)
      with Dbl dbl top False show ?thesis by (simp add: Let_def)
    qed
  qed simp_all
  with n(1,3) b0 ev top kt show ?thesis by (auto simp: Let_def i1)
qed

text \<open>
  The map law of the tree: after \<open>crfs_inode_set_block\<close> a lookup of block \<open>n\<close> gives the new address
  and every other lookup what it gave before.
\<close>

lemma set_indirect_ok:
  assumes f: "faithful dev" and ok: "alloc_ok dev s" and sp: "2 \<le> space s" and t: "tree_ok dev s (idisk (inodes s p))"
    and n: "unat n < 512"
  shows "\<exists>s'. set_indirect dev s p n a = (s', 0) \<and> evolves dev p s s' \<and> space s \<le> space s' + 2
    \<and> (\<forall>m. get_slot dev s' (idisk (inodes s' p)) (slot_of m) =
         (if slot_of m = Ind (unat n) then a else get_slot dev s (idisk (inodes s p)) (slot_of m)))"
proof (cases "indirect (idisk (inodes s p)) = 0")
  case False
  define s' where "s' = mark_dirty (store_ptr dev s (indirect (idisk (inodes s p))) (unat n) a) p"
  note st = store_indirect_get [OF f ok t False n, of a, folded s'_def]
  have "set_indirect dev s p n a = (s', 0)" using False by (simp add: set_indirect_def s'_def)
  then show ?thesis using st by (intro exI [of _ s'] conjI allI) simp_all
next
  case True
  have "0 < space s" using sp by simp
  from grow_indirect [OF f ok this t True] obtain s1 b where g: "new_ptr_block dev s = (s1, Some b)" "Suc (space s1) = space s" "b \<noteq> 0"
    "evolves dev p s (upd_idisk s1 p (\<lambda>d. d\<lparr>indirect := b\<rparr>))"
    "\<forall>m. get_slot dev (upd_idisk s1 p (\<lambda>d. d\<lparr>indirect := b\<rparr>)) ((idisk (inodes s p))\<lparr>indirect := b\<rparr>) (slot_of m) =
         get_slot dev s (idisk (inodes s p)) (slot_of m)" by auto
  let ?s = "upd_idisk s1 p (\<lambda>d. d\<lparr>indirect := b\<rparr>)"
  have ok2: "alloc_ok dev ?s" "tree_ok dev ?s (idisk (inodes ?s p))" using g(4) by (simp_all add: evolves_def)
  have ind: "indirect (idisk (inodes ?s p)) \<noteq> 0" using g(3) by simp
  have i1: "idisk (inodes ?s p) = (idisk (inodes s p))\<lparr>indirect := b\<rparr>"
    using new_ptr_block_ok [OF f ok] sp g(1) by (auto simp: same_files_def)
  define s' where "s' = mark_dirty (store_ptr dev ?s (indirect (idisk (inodes ?s p))) (unat n) a) p"
  note st = store_indirect_get [OF f ok2 ind n, of a, folded s'_def]
  have "set_indirect dev s p n a = (s', 0)" using True g(1) by (simp add: set_indirect_def s'_def)
  moreover have "space s \<le> space s' + 2" using g(2) st(2) by simp
  ultimately show ?thesis using evolves_trans [OF g(4) st(1)] st(3) g(5) i1
    by (intro exI [of _ s'] conjI allI) (simp_all only: fst_conv)
qed

lemma set_level2_ok:
  assumes f: "faithful dev" and ok: "alloc_ok dev s" and sp: "0 < space s" and t: "tree_ok dev s (idisk (inodes s p))"
    and dbl: "double_indirect (idisk (inodes s p)) \<noteq> 0" and n: "unat n < 262144"
  shows "\<exists>s'. set_level2 dev s p n a = (s', 0) \<and> evolves dev p s s' \<and> space s \<le> space s' + 1
    \<and> (\<forall>m. get_slot dev s' (idisk (inodes s' p)) (slot_of m) =
         (if slot_of m = Dbl (unat n div 512) (unat n mod 512) then a else get_slot dev s (idisk (inodes s p)) (slot_of m)))"
proof -
  let ?i = "idisk (inodes s p)" and ?k = "unat n div 512" and ?l = "unat n mod 512"
  let ?d = "double_indirect ?i"
  have kl: "?k < 512" "?l < 512" using n by auto
  have w: "unat (n div CRFS_PTRS_PER_BLOCK) = ?k" "unat (n mod CRFS_PTRS_PER_BLOCK) = ?l"
    by (simp_all add: CRFS_PTRS_PER_BLOCK_def unat_div unat_mod)
  show ?thesis
  proof (cases "read_ptrs dev s ?d ! ?k = 0")
    case False
    define s' where "s' = mark_dirty (store_ptr dev s (read_ptrs dev s ?d ! ?k) ?l a) p"
    note st = store_level2_get [OF f ok t dbl kl False, of a, folded s'_def]
    have "set_level2 dev s p n a = (s', 0)" using False by (simp add: set_level2_def w Let_def s'_def)
    then show ?thesis using st by (intro exI [of _ s'] conjI allI) simp_all
  next
    case True
    from grow_level2 [OF f ok sp t dbl kl(1) True] obtain s1 b where g: "new_ptr_block dev s = (s1, Some b)" "Suc (space s1) = space s"
      "b \<noteq> 0" "evolves dev p s (write_ptrs dev s1 ?d ((read_ptrs dev s ?d)[?k := b]))"
      "idisk (inodes (write_ptrs dev s1 ?d ((read_ptrs dev s ?d)[?k := b])) p) = ?i"
      "read_ptrs dev (write_ptrs dev s1 ?d ((read_ptrs dev s ?d)[?k := b])) ?d ! ?k = b"
      "\<forall>m. get_slot dev (write_ptrs dev s1 ?d ((read_ptrs dev s ?d)[?k := b])) ?i (slot_of m) = get_slot dev s ?i (slot_of m)"
      by (auto simp: Let_def)
    define s2 where "s2 = write_ptrs dev s1 ?d ((read_ptrs dev s ?d)[?k := b])"
    note g = g [folded s2_def]
    have ok2: "alloc_ok dev s2" "tree_ok dev s2 (idisk (inodes s2 p))" using g(4) by (simp_all add: evolves_def)
    have d2: "double_indirect (idisk (inodes s2 p)) \<noteq> 0" "read_ptrs dev s2 (double_indirect (idisk (inodes s2 p))) ! ?k \<noteq> 0"
      using g(3,5,6) dbl by simp_all
    define s' where "s' = mark_dirty (store_ptr dev s2 b ?l a) p"
    note st = store_level2_get [OF f ok2 d2(1) kl d2(2), of a, unfolded g(5) g(6), folded s'_def]
    have "set_level2 dev s p n a = (s', 0)"
      using True g(1) by (simp add: set_level2_def w Let_def s2_def s'_def)
    moreover have "space s \<le> space s' + 1" using g(2) st(2) by (simp add: s2_def)
    ultimately show ?thesis using evolves_trans [OF g(4) st(1)] st(3) g(7)
      by (intro exI [of _ s'] conjI allI) simp_all
  qed
qed

lemma set_double_ok:
  assumes f: "faithful dev" and ok: "alloc_ok dev s" and sp: "2 \<le> space s" and t: "tree_ok dev s (idisk (inodes s p))"
    and n: "unat n < 262144"
  shows "\<exists>s'. set_double dev s p n a = (s', 0) \<and> evolves dev p s s' \<and> space s \<le> space s' + 2
    \<and> (\<forall>m. get_slot dev s' (idisk (inodes s' p)) (slot_of m) =
         (if slot_of m = Dbl (unat n div 512) (unat n mod 512) then a else get_slot dev s (idisk (inodes s p)) (slot_of m)))"
proof (cases "double_indirect (idisk (inodes s p)) = 0")
  case False
  have "0 < space s" using sp by simp
  from set_level2_ok [OF f ok this t False n, of a] obtain s' where "set_level2 dev s p n a = (s', 0)" "evolves dev p s s'"
    "space s \<le> space s' + 1" "\<forall>m. get_slot dev s' (idisk (inodes s' p)) (slot_of m) =
         (if slot_of m = Dbl (unat n div 512) (unat n mod 512) then a else get_slot dev s (idisk (inodes s p)) (slot_of m))"
    by blast
  with False show ?thesis by (intro exI [of _ s'] conjI) (simp_all add: set_double_def)
next
  case True
  have "0 < space s" using sp by simp
  from grow_double [OF f ok this t True] obtain s1 b where g: "new_ptr_block dev s = (s1, Some b)" "Suc (space s1) = space s" "b \<noteq> 0"
    "evolves dev p s (upd_idisk s1 p (\<lambda>d. d\<lparr>double_indirect := b\<rparr>))"
    "\<forall>m. get_slot dev (upd_idisk s1 p (\<lambda>d. d\<lparr>double_indirect := b\<rparr>)) ((idisk (inodes s p))\<lparr>double_indirect := b\<rparr>) (slot_of m) =
         get_slot dev s (idisk (inodes s p)) (slot_of m)" by auto
  define s2 where "s2 = upd_idisk s1 p (\<lambda>d. d\<lparr>double_indirect := b\<rparr>)"
  note g = g [folded s2_def]
  have ok2: "alloc_ok dev s2" "tree_ok dev s2 (idisk (inodes s2 p))" using g(4) by (simp_all add: evolves_def)
  have d2: "double_indirect (idisk (inodes s2 p)) \<noteq> 0" "0 < space s2" using g(2,3) sp by (simp_all add: s2_def)
  have i2: "idisk (inodes s2 p) = (idisk (inodes s p))\<lparr>double_indirect := b\<rparr>"
    using new_ptr_block_ok [OF f ok] sp g(1) by (auto simp: same_files_def s2_def)
  from set_level2_ok [OF f ok2(1) d2(2) ok2(2) d2(1) n, of a] obtain s' where st: "set_level2 dev s2 p n a = (s', 0)"
    "evolves dev p s2 s'" "space s2 \<le> space s' + 1" "\<forall>m. get_slot dev s' (idisk (inodes s' p)) (slot_of m) =
         (if slot_of m = Dbl (unat n div 512) (unat n mod 512) then a else get_slot dev s2 (idisk (inodes s2 p)) (slot_of m))"
    by blast
  have "set_double dev s p n a = (s', 0)" using True g(1) st(1) by (simp add: set_double_def s2_def)
  moreover have "space s \<le> space s' + 2" using g(2) st(3) by (simp add: s2_def)
  ultimately show ?thesis using evolves_trans [OF g(4) st(2)] st(4) g(5) i2
    by (intro exI [of _ s'] conjI allI) simp_all
qed

lemma set_direct_ok:
  fixes a
  assumes ok: "alloc_ok dev s" and t: "tree_ok dev s (idisk (inodes s p))" and n: "unat n < 12"
  defines "s' \<equiv> mark_dirty (upd_idisk s p (\<lambda>d. d\<lparr>direct := (direct d)[unat n := a]\<rparr>)) p"
  shows "evolves dev p s s'" "space s' = space s"
    "get_slot dev s' (idisk (inodes s' p)) (slot_of m) = (if slot_of m = Dir (unat n) then a else get_slot dev s (idisk (inodes s p)) (slot_of m))"
proof -
  let ?i = "idisk (inodes s p)"
  have i: "idisk (inodes s' p) = ?i\<lparr>direct := (direct ?i)[unat n := a]\<rparr>" by (simp add: s'_def)
  have pl: "ptr_list dev s' (idisk (inodes s' p)) = ptr_list dev s ?i" unfolding i by (simp add: ptr_list_def s'_def)
  have fr: "frontier s' = frontier s" "alloc_ok dev s'" "files s' = files s" using ok by (simp_all add: s'_def)
  show "space s' = space s" by (simp add: s'_def)
  show "evolves dev p s s'"
    unfolding evolves_def pl
  proof (intro conjI)
    show "tree_ok dev s' (idisk (inodes s' p))" using t fr pl unfolding tree_ok_def pl by (simp add: i blk_ok_def)
    show "ptr_change ?i (idisk (inodes s' p))"
      unfolding i by (auto simp: ptr_change_def)
  qed (use fr in \<open>auto simp: s'_def\<close>)
  have l: "length (direct ?i) = 12" using t by (simp add: tree_ok_def)
  show "get_slot dev s' (idisk (inodes s' p)) (slot_of m) = (if slot_of m = Dir (unat n) then a else get_slot dev s ?i (slot_of m))"
    unfolding i using l n by (cases "slot_of m") (simp_all add: s'_def Let_def nth_list_update)
qed

lemma set_block_ok:
  assumes f: "faithful dev" and ok: "alloc_ok dev s" and sp: "2 \<le> space s" and t: "tree_ok dev s (idisk (inodes s p))"
    and n: "unat n < 262668"
  shows "\<exists>s'. crfs_inode_set_block dev s p n a = (s', 0) \<and> evolves dev p s s' \<and> space s \<le> space s' + 2
    \<and> (\<forall>m. crfs_inode_get_block dev s' (idisk (inodes s' p)) m =
         (if m = n then a else crfs_inode_get_block dev s (idisk (inodes s p)) m))"
proof -
  have "slot_of n \<noteq> Out" using n by (simp add: slot_of_def)
  then have eq: "slot_of m = slot_of n \<longleftrightarrow> m = n" for m using slot_of_inj by blast
  consider "unat n < 12" | "12 \<le> unat n" "unat n < 524" | "524 \<le> unat n" by linarith
  then have "\<exists>s'. crfs_inode_set_block dev s p n a = (s', 0) \<and> evolves dev p s s' \<and> space s \<le> space s' + 2
    \<and> (\<forall>m. get_slot dev s' (idisk (inodes s' p)) (slot_of m) =
         (if slot_of m = slot_of n then a else get_slot dev s (idisk (inodes s p)) (slot_of m)))"
  proof cases
    case 1
    define s' where "s' = mark_dirty (upd_idisk s p (\<lambda>d. d\<lparr>direct := (direct d)[unat n := a]\<rparr>)) p"
    note st = set_direct_ok [OF ok t 1, of a, folded s'_def]
    from 1 have "crfs_inode_set_block dev s p n a = (s', 0)" by (simp add: crfs_inode_set_block_def slot_arith s'_def)
    moreover from 1 have "slot_of n = Dir (unat n)" by (simp add: slot_of_def)
    ultimately show ?thesis using st by (intro exI [of _ s'] conjI allI) simp_all
  next
    case 2
    then have n1: "unat (n - CRFS_INDIRECT_BASE) = unat n - 12" "unat (n - CRFS_INDIRECT_BASE) < 512" by (simp_all add: slot_arith)
    moreover have "slot_of n = Ind (unat n - 12)" using 2 by (simp add: slot_of_def)
    ultimately show ?thesis using set_indirect_ok [OF f ok sp t n1(2), of a] 2
      by (simp add: crfs_inode_set_block_def slot_arith)
  next
    case 3
    then have n2: "unat (n - CRFS_INDIRECT_BASE - CRFS_PTRS_PER_BLOCK) = unat n - 524"
      "unat (n - CRFS_INDIRECT_BASE - CRFS_PTRS_PER_BLOCK) < 262144" using n by (simp_all add: slot_arith)
    moreover have "slot_of n = Dbl ((unat n - 524) div 512) ((unat n - 524) mod 512)" using 3 n by (simp add: slot_of_def)
    ultimately show ?thesis using set_double_ok [OF f ok sp t n2(2), of a] 3 n
      by (simp add: crfs_inode_set_block_def slot_arith)
  qed
  then show ?thesis unfolding get_block_slot eq .
qed

end
