(* ===== verification/CrfsFile.thy ===== *)
theory CrfsFile
  imports CrfsTree
begin

text \<open>
  Reading and writing of open files: a file as a function from positions to bytes, and the effect of
  \<open>crfs_read\<close> and \<open>crfs_write\<close> on it.
\<close>

section \<open>The contents of a file\<close>

text \<open>The byte at position \<open>k\<close>; a missing block reads as zeros.\<close>

definition byte_at :: "'d block_device \<Rightarrow> 'd crfs \<Rightarrow> inode_disk \<Rightarrow> nat \<Rightarrow> u8" where
  "byte_at dev s ino k =
     (let a = crfs_inode_get_block dev s ino (of_nat (k div 4096))
      in if a = 0 then 0 else crfs_read_block dev s a ! (k mod 4096))"

definition MAX_BLOCKS :: nat where "MAX_BLOCKS = 262668"

definition file_ok :: "'d block_device \<Rightarrow> 'd crfs \<Rightarrow> nat \<Rightarrow> bool" where
  "file_ok dev s p \<longleftrightarrow> alloc_ok dev s \<and> tree_ok dev s (idisk (inodes s p)) \<and>
     (\<forall>m. let a = crfs_inode_get_block dev s (idisk (inodes s p)) m
          in a \<noteq> 0 \<longrightarrow> blk_ok s a \<and> a \<notin> set (ptr_list dev s (idisk (inodes s p))))"

lemma block_arith:
  fixes pos :: u64
  shows "unat (pos AND 4095) = unat pos mod 4096"
    and "unat pos div 4096 < 2 ^ 32 \<Longrightarrow> (ucast (drop_bit 12 pos) :: u32) = of_nat (unat pos div 4096)"
    and "unat pos div 4096 < 2 ^ 32 \<Longrightarrow> unat (ucast (drop_bit 12 pos) :: u32) = unat pos div 4096"
proof -
  have "pos AND 4095 = take_bit 12 pos" by (simp add: take_bit_eq_mask mask_eq_exp_minus_1)
  then show "unat (pos AND 4095) = unat pos mod 4096" by (simp add: take_bit_eq_mod unat_mod)
  have d: "unat (drop_bit 12 pos) = unat pos div 4096" by (simp add: drop_bit_eq_div unat_div)
  show e: "unat (ucast (drop_bit 12 pos) :: u32) = unat pos div 4096" if "unat pos div 4096 < 2 ^ 32"
    using that d by (simp add: unsigned_ucast_eq take_bit_nat_eq_self)
  show "(ucast (drop_bit 12 pos) :: u32) = of_nat (unat pos div 4096)" if "unat pos div 4096 < 2 ^ 32"
    using e that by (simp add: word_unat_eq_iff unat_of_nat_small)
qed

lemma tree_frame:
  assumes f: "faithful dev" and t: "tree_ok dev s ino" and fr: "frontier s \<le> frontier s'"
    and same: "\<forall>b. blk_ok s b \<longrightarrow> crfs_read_block dev s' b = crfs_read_block dev s b"
  shows "tree_ok dev s' ino" "ptr_list dev s' ino = ptr_list dev s ino"
    "crfs_inode_get_block dev s' ino m = crfs_inode_get_block dev s ino m"
proof -
  have "\<forall>a \<in> set (ptr_list dev s ino). crfs_read_block dev s' a = crfs_read_block dev s a"
    using t same by (simp add: tree_ok_def)
  note lk = lookup_cong [OF f this]
  show "ptr_list dev s' ino = ptr_list dev s ino" by (rule lk)
  then show "tree_ok dev s' ino" using t fr by (auto simp: tree_ok_def blk_ok_def)
  show "crfs_inode_get_block dev s' ino m = crfs_inode_get_block dev s ino m"
    unfolding get_block_slot by (rule lk)
qed

text \<open>Releasing a block marks its segment free, but the allocator has passed it.\<close>

lemma free_block_frame:
  assumes ok: "alloc_ok dev s" and b: "blk_ok s a"
  shows "alloc_ok dev (crfs_free_block s a)" "space (crfs_free_block s a) = space s" "frontier (crfs_free_block s a) = frontier s"
    "disk (crfs_free_block s a) = disk s" "inodes (crfs_free_block s a) = inodes s" "files (crfs_free_block s a) = files s"
proof -
  show "alloc_ok dev (crfs_free_block s a)" "frontier (crfs_free_block s a) = frontier s" "disk (crfs_free_block s a) = disk s"
    "inodes (crfs_free_block s a) = inodes s" "files (crfs_free_block s a) = files s"
    using ok by (simp_all add: crfs_free_block_def alloc_ok_def frontier_def Let_def)
  have "frontier s \<le> 2097152 * unat (next_seg s)" by (rule frontier_next [OF ok])
  then have "unat a < unat (next_seg s) * 2097152" using b by (simp add: blk_ok_def)
  then have "unat a div 2097152 < unat (next_seg s)" by (simp add: div_less_iff_less_mult)
  then have seg: "unat (a div CRFS_SEG_SIZE) < unat (next_seg s)" by (simp add: CRFS_SEG_SIZE_def unat_div)
  have "free_list (crfs_free_block s a) = free_list s"
    using seg unfolding free_list_def crfs_free_block_def Let_def
    by (auto intro!: filter_cong simp: seg_used_unset)
  then show "space (crfs_free_block s a) = space s" by (simp add: space_def) (simp add: crfs_free_block_def Let_def)
qed

lemma file_okD:
  assumes "file_ok dev s p" and "crfs_inode_get_block dev s (idisk (inodes s p)) m \<noteq> 0"
  shows "blk_ok s (crfs_inode_get_block dev s (idisk (inodes s p)) m)"
    "crfs_inode_get_block dev s (idisk (inodes s p)) m \<notin> set (ptr_list dev s (idisk (inodes s p)))"
  using assms by (auto simp: file_ok_def Let_def)

text \<open>
  Hanging a fresh block with given contents into the tree at block number \<open>n\<close>.
\<close>

lemma put_block_ok:
  assumes f: "faithful dev" and ok: "file_ok dev s p" and sp: "3 \<le> space s" and n: "unat n < MAX_BLOCKS" and buf: "length buf = 4096"
  shows "\<exists>s1 a s2. crfs_alloc_block s = (s1, Some a) \<and> crfs_inode_set_block dev (crfs_write_block dev s1 a buf) p n a = (s2, 0)
    \<and> file_ok dev s2 p \<and> space s \<le> space s2 + 3 \<and> frontier s \<le> frontier s2 \<and> files s2 = files s \<and> (\<forall>q. q \<noteq> p \<longrightarrow> inodes s2 q = inodes s q)
    \<and> ptr_change (idisk (inodes s p)) (idisk (inodes s2 p))
    \<and> a \<noteq> 0 \<and> crfs_read_block dev s2 a = buf
    \<and> (\<forall>m. crfs_inode_get_block dev s2 (idisk (inodes s2 p)) m = (if m = n then a else crfs_inode_get_block dev s (idisk (inodes s p)) m))
    \<and> (\<forall>b. blk_ok s b \<and> b \<notin> set (ptr_list dev s (idisk (inodes s p))) \<longrightarrow> crfs_read_block dev s2 b = crfs_read_block dev s b)"
proof -
  let ?i = "idisk (inodes s p)"
  have al: "alloc_ok dev s" and t: "tree_ok dev s ?i" using ok by (auto simp: file_ok_def)
  have "0 < space s" using sp by simp
  from alloc_block_ok [OF al this] obtain s1 a where a: "crfs_alloc_block s = (s1, Some a)" "alloc_ok dev s1" "Suc (space s1) = space s"
    "same_files s s1" "disk s1 = disk s" "a \<noteq> 0" "unat a mod 4096 = 0" "frontier s \<le> unat a" "frontier s1 = unat a + 4096" by auto
  define w where "w = crfs_write_block dev s1 a buf"
  have bo: "blk_ok w a" "blk dev a" using a blk_ok_blk [OF a(2), of a] by (simp_all add: blk_ok_def w_def)
  have i1: "inodes w = inodes s" "files w = files s" using a(4) by (simp_all add: same_files_def w_def)
  have fw: "frontier w = unat a + 4096" "frontier s \<le> frontier w" "space w = space s1" "alloc_ok dev w" using a by (simp_all add: w_def)
  have ra: "crfs_read_block dev w a = buf" unfolding w_def by (rule write_block_same [OF f bo(2) buf])
  have same: "\<forall>b. blk_ok s b \<longrightarrow> crfs_read_block dev w b = crfs_read_block dev s b"
  proof (intro allI impI)
    fix b
    assume b: "blk_ok s b"
    then have "b \<noteq> a" "blk dev b" using a(8) blk_ok_not_fresh [OF b] blk_ok_blk [OF al b] by auto
    then show "crfs_read_block dev w b = crfs_read_block dev s b"
      unfolding w_def by (simp add: write_block_other f bo(2) buf read_block_cong [OF a(5)])
  qed
  note tf = tree_frame [OF f t fw(2) same]
  have sp2: "2 \<le> space w" using sp a(3) fw(3) by simp
  from set_block_ok [OF f fw(4) sp2, of p n a] tf(1) n i1(1) obtain s2 where s2: "crfs_inode_set_block dev w p n a = (s2, 0)"
    "evolves dev p w s2" "space w \<le> space s2 + 2"
    "\<forall>m. crfs_inode_get_block dev s2 (idisk (inodes s2 p)) m = (if m = n then a else crfs_inode_get_block dev w ?i m)"
    by (auto simp: MAX_BLOCKS_def)
  note ev = s2(2) [unfolded evolves_def i1 tf(2)]
  have anp: "a \<notin> set (ptr_list dev s ?i)" using t a(8) blk_ok_not_fresh by (auto simp: tree_ok_def)
  have keep: "crfs_read_block dev s2 b = crfs_read_block dev s b" if "blk_ok s b" "b \<notin> set (ptr_list dev s ?i)" for b
    using ev same that blk_ok_mono [OF that(1) fw(2)] by auto
  have out: "b \<notin> set (ptr_list dev s2 (idisk (inodes s2 p)))" if "b \<notin> set (ptr_list dev s ?i)" "\<not> frontier w \<le> unat b" for b
    using ev that by blast
  have g: "crfs_inode_get_block dev s2 (idisk (inodes s2 p)) m = (if m = n then a else crfs_inode_get_block dev s ?i m)" for m
    using s2(4) tf(3) by simp
  have fs2: "frontier w \<le> frontier s2" using ev by blast
  have "file_ok dev s2 p"
    unfolding file_ok_def Let_def g
  proof (intro conjI allI impI)
    show "alloc_ok dev s2" "tree_ok dev s2 (idisk (inodes s2 p))" using ev by blast+
    fix m
    assume nz: "(if m = n then a else crfs_inode_get_block dev s ?i m) \<noteq> 0"
    show "blk_ok s2 (if m = n then a else crfs_inode_get_block dev s ?i m)"
      using nz file_okD(1) [OF ok, of m] bo(1) fs2 fw(2) blk_ok_mono [of w a s2] blk_ok_mono [of s _ s2] by auto
    show "(if m = n then a else crfs_inode_get_block dev s ?i m) \<notin> set (ptr_list dev s2 (idisk (inodes s2 p)))"
    proof (cases "m = n")
      case True
      with out [OF anp] fw(1) show ?thesis by simp
    next
      case False
      with nz have "\<not> frontier w \<le> unat (crfs_inode_get_block dev s ?i m)"
        using file_okD(1) [OF ok, of m] blk_ok_not_fresh [of w] blk_ok_mono [OF _ fw(2)] by simp
      with False nz show ?thesis using out file_okD(2) [OF ok, of m] by simp
    qed
  qed
  moreover have "crfs_read_block dev s2 a = buf"
    using ev bo(1) anp ra by auto
  moreover have "ptr_change ?i (idisk (inodes s2 p))"
    "\<forall>q. q \<noteq> p \<longrightarrow> inodes s2 q = inodes s q" "files s2 = files s" using ev by blast+
  moreover have "space s \<le> space s2 + 3" "frontier s \<le> frontier s2" using s2(3) fw a(3) fs2 by simp_all
  ultimately show ?thesis using a(1,6) s2(1) g keep unfolding w_def
    by (intro exI [of _ s1] exI [of _ a] exI [of _ s2] conjI) blast+
qed

lemma disk_cong:
  assumes "disk s = disk s'"
  shows "crfs_read_block dev s a = crfs_read_block dev s' a" "read_ptrs dev s a = read_ptrs dev s' a"
    "crfs_inode_get_block dev s ino m = crfs_inode_get_block dev s' ino m" "ptr_list dev s ino = ptr_list dev s' ino"
proof -
  show r: "crfs_read_block dev s a = crfs_read_block dev s' a" for a by (rule read_block_cong [OF assms])
  then show p: "read_ptrs dev s a = read_ptrs dev s' a" for a by (simp add: read_ptrs_def)
  show "crfs_inode_get_block dev s ino m = crfs_inode_get_block dev s' ino m" "ptr_list dev s ino = ptr_list dev s' ino"
    by (simp_all add: crfs_inode_get_block_def ptr_list_def p Let_def)
qed

lemma file_ok_cong:
  "disk s = disk s' \<Longrightarrow> inodes s = inodes s' \<Longrightarrow> frontier s = frontier s' \<Longrightarrow> alloc_ok dev s = alloc_ok dev s' \<Longrightarrow>
     file_ok dev s p = file_ok dev s' p"
  by (simp add: file_ok_def tree_ok_def blk_ok_def disk_cong [of s s'])

lemma block_span:
  assumes "x mod 4096 + l \<le> 4096" and "(x :: nat) \<le> k" and "k < x + l"
  shows "k div 4096 = x div 4096"
proof -
  define d where "d = k - x"
  have d: "k = x + d" "d < l" using assms(2,3) by (simp_all add: d_def)
  define q where "q = x div 4096"
  define r where "r = x mod 4096"
  have "k = (r + d) + 4096 * q" "r + d < 4096" using d assms(1) by (simp_all add: q_def r_def)
  then have "k div 4096 = q" by simp
  then show ?thesis by (simp add: q_def)
qed

lemma write_chunk_ok:
  assumes f: "faithful dev" and ok: "file_ok dev s p" and sp: "3 \<le> space s" and n: "unat pos div 4096 < MAX_BLOCKS"
    and len: "unat pos mod 4096 + length bytes \<le> 4096"
  shows "\<exists>s'. write_chunk dev s p pos bytes = Some s' \<and> file_ok dev s' p \<and> space s \<le> space s' + 3 \<and> files s' = files s
    \<and> (\<forall>q. q \<noteq> p \<longrightarrow> inodes s' q = inodes s q)
    \<and> ptr_change (idisk (inodes s p)) (idisk (inodes s' p))
    \<and> (\<forall>k. k div 4096 < MAX_BLOCKS \<longrightarrow> byte_at dev s' (idisk (inodes s' p)) k =
        (if unat pos \<le> k \<and> k < unat pos + length bytes then bytes ! (k - unat pos)
         else if k div 4096 = unat pos div 4096 \<and> unat pos mod 4096 = 0 then 0 else byte_at dev s (idisk (inodes s p)) k))"
proof -
  let ?i = "idisk (inodes s p)" and ?n = "ucast (drop_bit 12 pos) :: u32" and ?off = "unat pos mod 4096"
  have n32: "unat pos div 4096 < 2 ^ 32" using n by (simp add: MAX_BLOCKS_def)
  note ba = block_arith(1) [of pos] block_arith(2,3) [OF n32]
  define old where "old = crfs_inode_get_block dev s ?i ?n"
  define buf where "buf = (if old \<noteq> 0 \<and> ?off \<noteq> 0 then crfs_read_block dev s old else replicate 4096 0)"
  define buf' where "buf' = take ?off buf @ bytes @ drop (?off + length bytes) buf"
  have lb: "length buf = 4096" using f by (simp add: buf_def)
  then have lb': "length buf' = 4096" using len by (simp add: buf'_def)
  have "unat ?n < MAX_BLOCKS" using n ba(3) by simp
  from put_block_ok [OF f ok sp this lb'] obtain s1 a s2 where
    w: "crfs_alloc_block s = (s1, Some a)" "crfs_inode_set_block dev (crfs_write_block dev s1 a buf') p ?n a = (s2, 0)"
      "file_ok dev s2 p" "space s \<le> space s2 + 3" "frontier s \<le> frontier s2" "files s2 = files s" "\<forall>q. q \<noteq> p \<longrightarrow> inodes s2 q = inodes s q"
      "ptr_change ?i (idisk (inodes s2 p))" "a \<noteq> 0"
      "crfs_read_block dev s2 a = buf'"
    and g: "\<forall>m. crfs_inode_get_block dev s2 (idisk (inodes s2 p)) m = (if m = ?n then a else crfs_inode_get_block dev s ?i m)"
    and keep: "\<forall>b. blk_ok s b \<and> b \<notin> set (ptr_list dev s ?i) \<longrightarrow> crfs_read_block dev s2 b = crfs_read_block dev s b"
    by auto
  define s' where "s' = (if old \<noteq> 0 then crfs_free_block s2 old else s2)"
  have "write_chunk dev s p pos bytes = Some s'"
    unfolding write_chunk_def Let_def ba(1) CRFS_BLOCK_SIZE_def old_def [symmetric] buf_def [symmetric] buf'_def [symmetric] w(1)
    by (simp add: w(2) s'_def)
  moreover have fr: "file_ok dev s' p" "space s' = space s2" "disk s' = disk s2" "inodes s' = inodes s2" "files s' = files s2"
  proof -
    have "blk_ok s2 old" if "old \<noteq> 0"
      using file_okD(1) [OF ok, of ?n] that w(5) blk_ok_mono by (simp add: old_def)
    moreover have "alloc_ok dev s2" using w(3) by (simp add: file_ok_def)
    ultimately show "file_ok dev s' p" "space s' = space s2" "disk s' = disk s2" "inodes s' = inodes s2" "files s' = files s2"
      using free_block_frame [of dev s2 old] w(3) file_ok_cong [of "crfs_free_block s2 old" s2 dev p] by (simp_all add: s'_def)
  qed
  moreover have "byte_at dev s' (idisk (inodes s' p)) k =
      (if unat pos \<le> k \<and> k < unat pos + length bytes then bytes ! (k - unat pos)
       else if k div 4096 = unat pos div 4096 \<and> unat pos mod 4096 = 0 then 0 else byte_at dev s ?i k)"
    if k: "k div 4096 < MAX_BLOCKS" for k
  proof -
    have nk: "of_nat (k div 4096) = ?n \<longleftrightarrow> k div 4096 = unat pos div 4096"
      using k n32 ba(3) by (simp add: word_unat_eq_iff unat_of_nat_small MAX_BLOCKS_def)
    have bs': "byte_at dev s' (idisk (inodes s' p)) k = byte_at dev s2 (idisk (inodes s2 p)) k"
      using fr by (simp add: byte_at_def disk_cong [OF fr(3)] Let_def)
    show ?thesis
    proof (cases "k div 4096 = unat pos div 4096")
      case True
      define q where "q = k div 4096"
      have kp: "k = 4096 * q + k mod 4096" by (simp add: q_def)
      have pq: "unat pos = 4096 * q + ?off" unfolding q_def True by simp
      have "byte_at dev s2 (idisk (inodes s2 p)) k = buf' ! (k mod 4096)"
        using g w(9,10) nk True by (simp add: byte_at_def)
      moreover have "byte_at dev s ?i k = (if old = 0 then 0 else crfs_read_block dev s old ! (k mod 4096))"
        using nk True by (simp add: byte_at_def old_def)
      moreover have "buf' ! (k mod 4096) = (if ?off \<le> k mod 4096 \<and> k mod 4096 < ?off + length bytes then bytes ! (k mod 4096 - ?off)
          else buf ! (k mod 4096))"
        using lb len by (auto simp: buf'_def nth_append)
      moreover have "buf ! (k mod 4096) = (if old \<noteq> 0 \<and> ?off \<noteq> 0 then crfs_read_block dev s old ! (k mod 4096) else 0)"
        by (simp add: buf_def)
      moreover have "unat pos \<le> k \<longleftrightarrow> ?off \<le> k mod 4096" "k < unat pos + length bytes \<longleftrightarrow> k mod 4096 < ?off + length bytes"
        "k - unat pos = k mod 4096 - ?off" using kp pq by linarith+
      ultimately show ?thesis using bs' True by simp
    next
      case False
      then have "\<not> (unat pos \<le> k \<and> k < unat pos + length bytes)"
        using block_span [OF len] by blast
      moreover have "byte_at dev s2 (idisk (inodes s2 p)) k = byte_at dev s ?i k"
        using g False nk keep file_okD [OF ok, of "of_nat (k div 4096)"] by (auto simp: byte_at_def Let_def)
      ultimately show ?thesis using bs' False by auto
    qed
  qed
  ultimately show ?thesis using w by (intro exI [of _ s'] conjI) auto
qed

text \<open>
  The bytes that a write of \<open>len\<close> bytes at \<open>pos\<close> loses: the rest of the last block behind the written
  part, when the write starts at or before the beginning of that block.
\<close>

definition lost :: "nat \<Rightarrow> nat \<Rightarrow> nat \<Rightarrow> bool" where
  "lost pos len k \<longleftrightarrow> 0 < len \<and> pos + len \<le> k \<and> k div 4096 = (pos + len - 1) div 4096 \<and> pos \<le> 4096 * (k div 4096)"

definition written :: "nat \<Rightarrow> u8 list \<Rightarrow> (nat \<Rightarrow> u8) \<Rightarrow> nat \<Rightarrow> u8" where
  "written pos data old k = (if pos \<le> k \<and> k < pos + length data then data ! (k - pos)
     else if lost pos (length data) k then 0 else old k)"

lemma written_one_block:
  assumes "pos mod 4096 + length data \<le> 4096" and "data \<noteq> []"
  shows "written pos data old k = (if pos \<le> k \<and> k < pos + length data then data ! (k - pos)
     else if k div 4096 = pos div 4096 \<and> pos mod 4096 = 0 then 0 else old k)"
proof -
  have "(pos + length data - 1) div 4096 = pos div 4096"
    using assms by (intro block_span [OF assms(1)]) (cases data, auto)+
  moreover have "pos \<le> 4096 * (pos div 4096) \<longleftrightarrow> pos mod 4096 = 0" using mult_div_mod_eq [of 4096 pos] by linarith
  moreover have "pos \<le> k" if "k div 4096 = pos div 4096" "pos mod 4096 = 0"
    using that mult_div_mod_eq [of 4096 pos] mult_div_mod_eq [of 4096 k] by linarith
  ultimately show ?thesis using assms(2) by (auto simp: written_def lost_def)
qed

lemma block_end: "pos mod 4096 + n = 4096 \<Longrightarrow> pos + n = 4096 * Suc (pos div 4096)"
  using mult_div_mod_eq [of 4096 pos] unfolding mult_Suc_right by linarith

lemma written_split:
  assumes "pos mod 4096 + n = 4096" and "n < length data"
  shows "written (pos + n) (drop n data) (written pos (take n data) old) k = written pos data old k"
proof -
  define q where "q = pos div 4096"
  have p: "pos + n = 4096 * Suc q" unfolding q_def by (rule block_end [OF assms(1)])
  have n: "0 < n" using assms(1) mod_less_divisor [of 4096 pos] by linarith
  define z where "z = (pos + length data - 1) div 4096"
  have z: "Suc q \<le> z" using p assms(2) by (simp add: z_def less_eq_div_iff_mult_less_eq)
  have l1: "lost pos n k = False" if "\<not> (pos \<le> k \<and> k < pos + n)"
  proof -
    have "(pos + n - 1) div 4096 = q"
      using block_span [of pos n "pos + n - 1"] assms(1) n by (simp add: q_def)
    moreover have "k div 4096 \<noteq> q" if "pos + n \<le> k" using that p by (simp add: div_le_mono [of "4096 * Suc q" k 4096] less_eq_div_iff_mult_less_eq)
    ultimately show ?thesis by (auto simp: lost_def)
  qed
  have e: "pos + n + length (drop n data) = pos + length data" using assms(2) by simp
  have l2: "lost (pos + n) (length (drop n data)) k = lost pos (length data) k"
  proof -
    have "pos + n \<le> 4096 * z" "pos \<le> 4096 * z" using z p mult_le_mono2 [OF z, of 4096] by linarith+
    then show ?thesis using assms(2) unfolding lost_def e z_def by auto
  qed
  have "lost pos (length data) k \<Longrightarrow> pos + length data \<le> k" by (simp add: lost_def)
  then show ?thesis
    unfolding written_def l2 using l1 assms(2) n e by (auto simp: less_diff_conv2)
qed

definition chunks :: "nat \<Rightarrow> nat \<Rightarrow> nat" where
  "chunks pos len = (pos mod 4096 + len + 4095) div 4096"

lemma chunks_pos: "0 < len \<Longrightarrow> 0 < chunks pos len"
  by (simp add: chunks_def div_greater_zero_iff)

lemma chunks_split:
  assumes "pos mod 4096 + n = 4096" and "n < len"
  shows "Suc (chunks (pos + n) (len - n)) = chunks pos len" and "(pos + n) mod 4096 = 0"
proof -
  have "pos + n = 4096 * Suc (pos div 4096)" by (rule block_end [OF assms(1)])
  then show m: "(pos + n) mod 4096 = 0" by (metis mod_mult_self1_is_0)
  have "pos mod 4096 + len + 4095 = (len - n + 4095) + 4096" using assms by linarith
  then show "Suc (chunks (pos + n) (len - n)) = chunks pos len" using m by (simp add: chunks_def)
qed

lemma write_loop_ok:
  assumes f: "faithful dev" and "file_ok dev s p" and "3 * chunks (unat pos) (length data) \<le> space s"
    and "unat pos + length data \<le> 4096 * MAX_BLOCKS"
  shows "\<exists>s'. write_loop dev s p pos data = Some s' \<and> file_ok dev s' p \<and> files s' = files s
    \<and> space s \<le> space s' + 3 * chunks (unat pos) (length data)
    \<and> (\<forall>q. q \<noteq> p \<longrightarrow> inodes s' q = inodes s q) \<and> ptr_change (idisk (inodes s p)) (idisk (inodes s' p))
    \<and> (\<forall>k. k div 4096 < MAX_BLOCKS \<longrightarrow>
         byte_at dev s' (idisk (inodes s' p)) k = written (unat pos) data (byte_at dev s (idisk (inodes s p))) k)"
  using assms(2-)
proof (induction data arbitrary: s pos rule: length_induct)
  case (1 data)
  show ?case
  proof (cases "data = []")
    case True
    then show ?thesis using 1 by (auto simp: write_loop.simps written_def lost_def)
  next
    case False
    define off where "off = unat pos mod 4096"
    define n where "n = min (4096 - off) (length data)"
    have off: "off < 4096" by (simp add: off_def)
    have n: "off + length (take n data) \<le> 4096" "0 < n" "n \<le> length data" using False off by (auto simp: n_def)
    have "unat pos < 262668 * 4096" using "1.prems"(3) False by (cases data) (auto simp: MAX_BLOCKS_def)
    then have mb: "unat pos div 4096 < MAX_BLOCKS" by (simp add: MAX_BLOCKS_def div_less_iff_less_mult)
    have "3 \<le> space s" using "1.prems"(2) chunks_pos [of "length data" "unat pos"] False by simp
    from write_chunk_ok [OF f "1.prems"(1) this mb n(1) [unfolded off_def]]
    obtain s1 where s1: "write_chunk dev s p pos (take n data) = Some s1" "file_ok dev s1 p" "space s \<le> space s1 + 3" "files s1 = files s"
      "\<forall>q. q \<noteq> p \<longrightarrow> inodes s1 q = inodes s q" "ptr_change (idisk (inodes s p)) (idisk (inodes s1 p))"
      and b1: "\<And>k. k div 4096 < MAX_BLOCKS \<Longrightarrow> byte_at dev s1 (idisk (inodes s1 p)) k =
        written (unat pos) (take n data) (byte_at dev s (idisk (inodes s p))) k"
      using written_one_block [OF n(1) [unfolded off_def]] n(2) False by auto
    have loop: "write_loop dev s p pos data = write_loop dev s1 p (pos + of_nat n) (drop n data)"
      using False s1(1) by (subst write_loop.simps) (simp add: n_def off_def block_arith(1) CRFS_BLOCK_SIZE_def Let_def)
    show ?thesis
    proof (cases "n = length data")
      case True
      then have "write_loop dev s p pos data = Some s1" unfolding loop by (simp add: write_loop.simps)
      moreover have "space s \<le> space s1 + 3 * chunks (unat pos) (length data)"
        using s1(3) chunks_pos [of "length data" "unat pos"] False by simp
      ultimately show ?thesis using s1 b1 True by (intro exI [of _ s1] conjI) auto
    next
      case nl: False
      then have sp: "off + n = 4096" "n < length data" using n off by (auto simp: n_def min_def split: if_splits)
      have "n < 2 ^ 64" "unat pos + n < 2 ^ 64" using sp "1.prems"(3) n by (auto simp: MAX_BLOCKS_def)
      then have pos: "unat (pos + of_nat n) = unat pos + n" by (simp add: unat_add_small unat_of_nat_small)
      have "3 * chunks (unat (pos + of_nat n)) (length (drop n data)) \<le> space s1"
        using "1.prems"(2) s1(3) chunks_split(1) [of "unat pos" n "length data"] sp pos by (simp add: off_def)
      moreover have "unat (pos + of_nat n) + length (drop n data) \<le> 4096 * MAX_BLOCKS" "length (drop n data) < length data"
        using "1.prems"(3) pos sp n by simp_all
      ultimately obtain s' where s': "write_loop dev s1 p (pos + of_nat n) (drop n data) = Some s'" "file_ok dev s' p" "files s' = files s1"
        "\<forall>q. q \<noteq> p \<longrightarrow> inodes s' q = inodes s1 q" "ptr_change (idisk (inodes s1 p)) (idisk (inodes s' p))"
        "space s1 \<le> space s' + 3 * chunks (unat pos + n) (length data - n)"
        "\<forall>k. k div 4096 < MAX_BLOCKS \<longrightarrow> byte_at dev s' (idisk (inodes s' p)) k =
          written (unat pos + n) (drop n data) (byte_at dev s1 (idisk (inodes s1 p))) k"
        using "1.IH" [rule_format, of "drop n data" s1 "pos + of_nat n"] s1(2) pos by auto
      have "byte_at dev s' (idisk (inodes s' p)) k = written (unat pos) data (byte_at dev s (idisk (inodes s p))) k"
        if k: "k div 4096 < MAX_BLOCKS" for k
      proof -
        have "written (unat pos + n) (drop n data) (byte_at dev s1 (idisk (inodes s1 p))) k =
            written (unat pos + n) (drop n data) (written (unat pos) (take n data) (byte_at dev s (idisk (inodes s p)))) k"
          using b1 [OF k] by (simp add: written_def)
        then show ?thesis using s'(7) k written_split [OF sp [unfolded off_def]] by simp
      qed
      moreover have "space s \<le> space s' + 3 * chunks (unat pos) (length data)"
        using s1(3) s'(6) chunks_split(1) [of "unat pos" n "length data"] sp by (simp add: off_def)
      ultimately show ?thesis using s' s1 loop ptr_change_trans by (intro exI [of _ s'] conjI) auto
    qed
  qed
qed

lemma chunk_read:
  fixes pos :: u64
  assumes f: "faithful dev" and "unat pos mod 4096 + n \<le> 4096" and m: "unat pos div 4096 < MAX_BLOCKS"
  shows "(let a = crfs_inode_get_block dev s ino (ucast (drop_bit 12 pos))
      in if a = 0 then replicate n 0 else take n (drop (unat pos mod 4096) (crfs_read_block dev s a)))
    = map (byte_at dev s ino) [unat pos..<unat pos + n]"
proof (rule nth_equalityI)
  let ?a = "crfs_inode_get_block dev s ino (ucast (drop_bit 12 pos))"
  let ?l = "let a = ?a in if a = 0 then replicate n 0 else take n (drop (unat pos mod 4096) (crfs_read_block dev s a))"
  show len: "length ?l = length (map (byte_at dev s ino) [unat pos..<unat pos + n])"
    using f assms(2) by (simp add: Let_def)
  fix i
  assume "i < length ?l"
  then have i: "i < n" using len by simp
  have n: "unat pos div 4096 < 2 ^ 32" using m by (simp add: MAX_BLOCKS_def)
  have "(unat pos + i) div 4096 = unat pos div 4096" using i assms(2) by (intro block_span) simp_all
  moreover have "(unat pos + i) mod 4096 = unat pos mod 4096 + i"
    using i assms(2) by (simp add: mod_add_eq [of "unat pos" 4096 i, symmetric])
  ultimately show "?l ! i = map (byte_at dev s ino) [unat pos..<unat pos + n] ! i"
    using i f assms(2) block_arith(2) [OF n] by (simp add: byte_at_def Let_def)
qed

lemma read_loop_ok:
  assumes f: "faithful dev" and "unat pos + rem \<le> 4096 * MAX_BLOCKS"
  shows "read_loop dev s ino pos rem = map (byte_at dev s ino) [unat pos..<unat pos + rem]"
  using assms(2)
proof (induction rem arbitrary: pos rule: less_induct)
  case (less rem)
  show ?case
  proof (cases "rem = 0")
    case True
    then show ?thesis by (simp add: read_loop.simps)
  next
    case False
    define n where "n = min (4096 - unat pos mod 4096) rem"
    have n: "0 < n" "n \<le> rem" "unat pos mod 4096 + n \<le> 4096" using False by (auto simp: n_def)
    have "unat pos < 262668 * 4096" using less.prems False by (simp add: MAX_BLOCKS_def)
    then have mb: "unat pos div 4096 < MAX_BLOCKS" by (simp add: MAX_BLOCKS_def div_less_iff_less_mult)
    have "n < 2 ^ 64" "unat pos + n < 2 ^ 64" using less.prems n by (auto simp: MAX_BLOCKS_def)
    then have pos: "unat (pos + of_nat n) = unat pos + n" by (simp add: unat_add_small unat_of_nat_small)
    have "read_loop dev s ino pos rem = map (byte_at dev s ino) [unat pos..<unat pos + n] @ read_loop dev s ino (pos + of_nat n) (rem - n)"
      using False chunk_read [OF f n(3) mb, of s ino]
      by (subst read_loop.simps) (simp add: block_arith(1) CRFS_BLOCK_SIZE_def Let_def split: if_splits flip: n_def)
    also have "read_loop dev s ino (pos + of_nat n) (rem - n) = map (byte_at dev s ino) [unat pos + n..<unat pos + rem]"
      using less.IH [of "rem - n" "pos + of_nat n"] less.prems n pos by simp
    also have "map (byte_at dev s ino) [unat pos..<unat pos + n] @ map (byte_at dev s ino) [unat pos + n..<unat pos + rem] =
        map (byte_at dev s ino) [unat pos..<unat pos + rem]"
      using n(2) upt_add_eq_append [of "unat pos" "unat pos + n" "rem - n"] by simp
    finally show ?thesis .
  qed
qed

lemma pointers_cong:
  assumes "direct i = direct j" and "indirect i = indirect j" and "double_indirect i = double_indirect j" and "disk s = disk s'"
  shows "crfs_inode_get_block dev s i m = crfs_inode_get_block dev s' j m" "ptr_list dev s i = ptr_list dev s' j"
    "byte_at dev s i k = byte_at dev s' j k"
proof -
  show "ptr_list dev s i = ptr_list dev s' j"
    using assms(1-3) disk_cong(2) [OF assms(4)] by (simp add: ptr_list_def)
  show g: "crfs_inode_get_block dev s i m = crfs_inode_get_block dev s' j m" for m
    using assms(1-3) disk_cong(2) [OF assms(4)] by (simp add: crfs_inode_get_block_def Let_def)
  show "byte_at dev s i k = byte_at dev s' j k"
    by (simp add: byte_at_def g Let_def disk_cong(1) [OF assms(4)])
qed

lemma file_ok_pointers:
  assumes "direct (idisk (inodes s p)) = direct (idisk (inodes s' p))" "indirect (idisk (inodes s p)) = indirect (idisk (inodes s' p))"
    "double_indirect (idisk (inodes s p)) = double_indirect (idisk (inodes s' p))"
    "disk s = disk s'" "frontier s = frontier s'" "alloc_ok dev s = alloc_ok dev s'"
  shows "file_ok dev s p = file_ok dev s' p"
  using assms pointers_cong [OF assms(1-4)] by (simp add: file_ok_def tree_ok_def blk_ok_def)

text \<open>An open file: descriptor \<open>fd\<close> refers to inode object \<open>p\<close> at offset \<open>off\<close>.\<close>

definition opened :: "'d crfs \<Rightarrow> nat \<Rightarrow> nat \<Rightarrow> u64 \<Rightarrow> bool" where
  "opened s fd p off \<longleftrightarrow> fd < CRFS_MAX_OPEN \<and> length (files s) = CRFS_MAX_OPEN \<and> in_use (files s ! fd)
     \<and> f_inode (files s ! fd) = Some p \<and> f_offset (files s ! fd) = off"

lemma sint_of_nat_small: "n < 2 ^ 63 \<Longrightarrow> sint (of_nat n :: u64) = int n"
  by (simp add: signed_of_nat signed_take_bit_int_eq_self)

lemma finish_write_frame:
  fixes s now fd f p tot
  defines "s' \<equiv> finish_write s now fd f p tot"
  shows "disk s' = disk s" "frontier s' = frontier s" "alloc_ok dev s' = alloc_ok dev s"
    "files s' = (files s)[fd := f\<lparr>f_offset := f_offset f + tot\<rparr>]"
    "direct (idisk (inodes s' p)) = direct (idisk (inodes s p))" "indirect (idisk (inodes s' p)) = indirect (idisk (inodes s p))"
    "double_indirect (idisk (inodes s' p)) = double_indirect (idisk (inodes s p))"
    "isize (idisk (inodes s' p)) = max (isize (idisk (inodes s p))) (f_offset f + tot)"
  by (simp_all add: s'_def finish_write_def Let_def upd_idisk_def upd_inode_def mark_dirty_def frontier_def alloc_ok_def max_def less_le_not_le)

lemma crfs_write_ok:
  assumes f: "faithful dev" and ok: "file_ok dev s p" and o: "opened s fd p off"
    and wr: "f_flags (files s ! fd) AND (O_WRONLY OR O_RDWR) \<noteq> 0"
    and sp: "3 * chunks (unat off) (length data) \<le> space s" and mx: "unat off + length data \<le> 4096 * MAX_BLOCKS"
  shows "\<exists>s'. crfs_write dev s now (int fd) data = Some (s', int (length data)) \<and> file_ok dev s' p
    \<and> files s' = (files s)[fd := (files s ! fd)\<lparr>f_offset := off + of_nat (length data)\<rparr>]
    \<and> isize (idisk (inodes s' p)) = max (isize (idisk (inodes s p))) (off + of_nat (length data))
    \<and> space s \<le> space s' + 3 * chunks (unat off) (length data)
    \<and> (\<forall>k. k div 4096 < MAX_BLOCKS \<longrightarrow>
         byte_at dev s' (idisk (inodes s' p)) k = written (unat off) data (byte_at dev s (idisk (inodes s p))) k)"
proof -
  obtain s1 where s1: "write_loop dev s p off data = Some s1" "file_ok dev s1 p" "files s1 = files s"
    "space s \<le> space s1 + 3 * chunks (unat off) (length data)"
    "ptr_change (idisk (inodes s p)) (idisk (inodes s1 p))"
    "\<forall>k. k div 4096 < MAX_BLOCKS \<longrightarrow>
       byte_at dev s1 (idisk (inodes s1 p)) k = written (unat off) data (byte_at dev s (idisk (inodes s p))) k"
    using write_loop_ok [OF f ok sp mx] by auto
  have sz: "isize (idisk (inodes s1 p)) = isize (idisk (inodes s p))" by (subst s1(5) [unfolded ptr_change_def]) simp
  have l: "sint (of_nat (length data) :: u64) = int (length data)"
    using mx by (simp add: MAX_BLOCKS_def sint_of_nat_small)
  define s' where "s' = finish_write s1 now fd (files s ! fd) p (of_nat (length data))"
  have w: "crfs_write dev s now (int fd) data = Some (s', int (length data))"
    using o wr s1(1) l by (simp add: crfs_write_def opened_def s'_def)
  have fo: "f_offset (files s ! fd) = off" using o by (simp add: opened_def)
  note fr = finish_write_frame [where s = s1 and now = now and fd = fd and f = "files s ! fd" and p = p and tot = "of_nat (length data)", folded s'_def]
  have "space s' = space s1" by (simp add: s'_def finish_write_def space_def free_list_def seg_used_def Let_def mark_dirty_def upd_idisk_def upd_inode_def)
  then show ?thesis
    using w fr s1 sz fo file_ok_pointers [of s' p s1 dev] pointers_cong(3) [OF fr(5,6,7,1)] by (intro exI [of _ s'] conjI) simp_all
qed

lemma crfs_read_ok:
  assumes f: "faithful dev" and o: "opened s fd p off" and mx: "unat (isize (idisk (inodes s p))) \<le> 4096 * MAX_BLOCKS"
    and c: "unat off + n \<le> unat (isize (idisk (inodes s p)))"
  shows "snd (crfs_read dev s now (int fd) (of_nat n)) = (int n, map (byte_at dev s (idisk (inodes s p))) [unat off..<unat off + n])"
proof -
  let ?i = "idisk (inodes s p)"
  have b: "unat off + n < 2 ^ 63" using mx c by (simp add: MAX_BLOCKS_def)
  then have u: "unat (of_nat n :: u64) = n" "unat (off + of_nat n) = unat off + n" "sint (of_nat n :: u64) = int n"
    by (simp_all add: unat_of_nat_small unat_add_small sint_of_nat_small)
  show ?thesis
  proof (cases "isize ?i \<le> off")
    case True
    then have "n = 0" using c by (simp add: word_le_nat_alt)
    with True o show ?thesis by (simp add: crfs_read_def opened_def Let_def)
  next
    case False
    moreover have "\<not> isize ?i < off + of_nat n" using c u(2) by (simp add: word_less_nat_alt)
    moreover have "read_loop dev s ?i off n = map (byte_at dev s ?i) [unat off..<unat off + n]"
      using read_loop_ok [OF f, of off n] mx c by simp
    ultimately show ?thesis using o u by (simp add: crfs_read_def opened_def Let_def)
  qed
qed

text \<open>
  C3: Reading back what was written.  A write of \<open>data\<close> to an open file, with enough space left on the
  disk, returns its length and keeps the file well formed; a read of as many bytes at the same place,
  through any other descriptor of the file, returns \<open>data\<close>.  Every other byte of the file keeps its
  value, except that the write clears the rest of its last block when it starts at or before the
  beginning of that block.
\<close>

theorem crfs_write_read:
  assumes f: "faithful dev" and ok: "file_ok dev s p" and o: "opened s fd p off" and o2: "opened s fd2 p off" and ne: "fd \<noteq> fd2"
    and wr: "f_flags (files s ! fd) AND (O_WRONLY OR O_RDWR) \<noteq> 0"
    and sp: "3 * chunks (unat off) (length data) \<le> space s" and mx: "unat off + length data \<le> 4096 * MAX_BLOCKS"
    and sz: "unat (isize (idisk (inodes s p))) \<le> 4096 * MAX_BLOCKS"
  shows "\<exists>s'. crfs_write dev s now (int fd) data = Some (s', int (length data)) \<and> file_ok dev s' p
    \<and> snd (crfs_read dev s' now' (int fd2) (of_nat (length data))) = (int (length data), data)
    \<and> (\<forall>k < 4096 * MAX_BLOCKS. k < unat off \<or> unat off + length data \<le> k \<longrightarrow>
         byte_at dev s' (idisk (inodes s' p)) k =
           (if lost (unat off) (length data) k then 0 else byte_at dev s (idisk (inodes s p)) k))"
proof -
  from crfs_write_ok [OF f ok o wr sp mx, of now] obtain s' where s': "crfs_write dev s now (int fd) data = Some (s', int (length data))"
    "file_ok dev s' p" "files s' = (files s)[fd := (files s ! fd)\<lparr>f_offset := off + of_nat (length data)\<rparr>]"
    "isize (idisk (inodes s' p)) = max (isize (idisk (inodes s p))) (off + of_nat (length data))"
    "\<forall>k. k div 4096 < MAX_BLOCKS \<longrightarrow>
         byte_at dev s' (idisk (inodes s' p)) k = written (unat off) data (byte_at dev s (idisk (inodes s p))) k"
    by auto
  have b: "k div 4096 < MAX_BLOCKS" if "k < 4096 * MAX_BLOCKS" for k
    using that by (simp add: div_less_iff_less_mult mult.commute)
  have u: "unat (off + of_nat (length data)) = unat off + length data"
    using mx by (simp add: MAX_BLOCKS_def unat_add_small unat_of_nat_small)
  have sz': "unat (isize (idisk (inodes s' p))) = max (unat (isize (idisk (inodes s p)))) (unat off + length data)"
    using s'(4) u by (simp add: max_def word_le_nat_alt)
  have o2': "opened s' fd2 p off" using o o2 ne s'(3) by (auto simp: opened_def)
  have "snd (crfs_read dev s' now' (int fd2) (of_nat (length data))) =
      (int (length data), map (byte_at dev s' (idisk (inodes s' p))) [unat off..<unat off + length data])"
    using sz' sz mx by (intro crfs_read_ok [OF f o2']) auto
  also have "map (byte_at dev s' (idisk (inodes s' p))) [unat off..<unat off + length data] = data"
    using s'(5) b mx by (intro nth_equalityI) (simp_all add: written_def)
  finally show ?thesis using s'(1,2,5) b by (intro exI [of _ s'] conjI allI impI) (auto simp: written_def)
qed

definition demo_fs :: "(nat \<Rightarrow> u8) crfs" where
  "demo_fs = \<lparr>sb = zero_sb\<lparr>total_segs := 16, inode_table_start := 3\<rparr>, mounted = True, disk = (\<lambda>_. 0), inode_cache = (\<lambda>_. []),
     inodes = (\<lambda>_. \<lparr>i_no = 7, ref_count = 2, dirty = False, idisk = zero_inode\<rparr>), n_inodes = 1,
     files = replicate 1024 \<lparr>in_use = True, f_flags = O_RDWR, f_offset = 0, f_inode = Some 0\<rparr>, seg_bitmap = [0x1F, 0],
     next_seg = 5, cleaner_seg = 0, read_bytes = 0, write_bytes = 0, read_ops = 0, write_ops = 0, block_in_seg = 0,
     current_seg = 0, room = 0\<rparr>"

lemma demo_fs_ok:
  "file_ok (ram_disk (16 * CRFS_SEG_SIZE)) demo_fs 0" "opened demo_fs 0 0 0" "opened demo_fs 1 0 0" "3 \<le> space demo_fs"
proof -
  have g: "crfs_inode_get_block dev demo_fs zero_inode m = 0" for dev m
  proof (cases "slot_of m")
    case (Dir i)
    then show ?thesis using slot_of_bounds(1) [OF Dir] by (simp add: get_block_slot zero_inode_def)
  qed (simp_all add: get_block_slot zero_inode_def)
  have "ptr_list dev demo_fs zero_inode = []" for dev by (simp add: ptr_list_def zero_inode_def)
  then show "file_ok (ram_disk (16 * CRFS_SEG_SIZE)) demo_fs 0"
    using g by (simp add: file_ok_def demo_fs_def tree_ok_def alloc_ok_def ram_disk_def CRFS_SEG_SIZE_def)
      (simp add: zero_inode_def)
  show "opened demo_fs 0 0 0" "opened demo_fs 1 0 0" by (simp_all add: opened_def demo_fs_def CRFS_MAX_OPEN_def)
  show "3 \<le> space demo_fs" by (simp add: space_def free_list_def demo_fs_def seg_used_def)
qed

theorem crfs_write_read_witness:
  "\<exists>s'. crfs_write (ram_disk (16 * CRFS_SEG_SIZE)) demo_fs 5 0 [1, 2, 3] = Some (s', 3)
     \<and> snd (crfs_read (ram_disk (16 * CRFS_SEG_SIZE)) s' 6 1 3) = (3, [1, 2, 3])"
proof -
  have "3 * chunks (unat (0 :: u64)) (length [1, 2, 3 :: u8]) \<le> space demo_fs" using demo_fs_ok(4) by (simp add: chunks_def)
  moreover have "f_flags (files demo_fs ! 0) AND (O_WRONLY OR O_RDWR) \<noteq> 0" by (simp add: demo_fs_def O_WRONLY_def O_RDWR_def)
  moreover have "unat (isize (idisk (inodes demo_fs 0))) \<le> 4096 * MAX_BLOCKS" by (simp add: demo_fs_def zero_inode_def)
  ultimately show ?thesis
    using crfs_write_read [OF ram_disk_faithful demo_fs_ok(1-3), of "[1, 2, 3]" 5 6] by (auto simp: MAX_BLOCKS_def)
qed

text \<open>
  C23: The block pointers of an inode refine a function from block numbers to addresses:
  \<open>crfs_inode_set_block\<close> returns 0 and is the update of that function at one point, for every block
  number of the direct, the indirect and the doubly indirect range, while two blocks of space are left
  for pointer blocks; the tree stays well formed.
\<close>

theorem crfs_block_map:
  assumes "faithful dev" and "alloc_ok dev s" and "tree_ok dev s (idisk (inodes s p))" and "2 \<le> space s" and "unat n < MAX_BLOCKS"
  shows "\<exists>s'. crfs_inode_set_block dev s p n a = (s', 0) \<and> alloc_ok dev s' \<and> tree_ok dev s' (idisk (inodes s' p))
    \<and> crfs_inode_get_block dev s' (idisk (inodes s' p)) = (crfs_inode_get_block dev s (idisk (inodes s p)))(n := a)"
proof -
  obtain s' where "crfs_inode_set_block dev s p n a = (s', 0)" "evolves dev p s s'"
    "\<forall>m. crfs_inode_get_block dev s' (idisk (inodes s' p)) m = (if m = n then a else crfs_inode_get_block dev s (idisk (inodes s p)) m)"
    using set_block_ok [OF assms(1,2,4,3), of n a] assms(5) by (auto simp: MAX_BLOCKS_def)
  then show ?thesis by (intro exI [of _ s'] conjI ext) (auto simp: evolves_def)
qed

theorem crfs_block_map_witness:
  "\<exists>s'. crfs_inode_set_block (ram_disk (16 * CRFS_SEG_SIZE)) demo_fs 0 5000 0xA000 = (s', 0)
     \<and> crfs_inode_get_block (ram_disk (16 * CRFS_SEG_SIZE)) s' (idisk (inodes s' 0)) 5000 = 0xA000"
proof -
  have "alloc_ok (ram_disk (16 * CRFS_SEG_SIZE)) demo_fs" "tree_ok (ram_disk (16 * CRFS_SEG_SIZE)) demo_fs (idisk (inodes demo_fs 0))"
    using demo_fs_ok(1) by (simp_all add: file_ok_def)
  from crfs_block_map [OF ram_disk_faithful this, of 5000 "0xA000"] demo_fs_ok(4) show ?thesis by (auto simp: MAX_BLOCKS_def)
qed

end
