(* ===== verification/CrfsDir.thy ===== *)
theory CrfsDir
  imports CrfsFile CText
begin

text \<open>
  Directories of CrimsonFS and the opening of files by path.  A directory block is the list of its
  4096 bytes; what lies behind its end reads as 0.  A string is the list of its bytes.  \<open>None\<close> stands for
  a loop that does not end or for the use of an address that was never set.
\<close>

section \<open>Directory entries\<close>

definition de_inode :: "u8 list \<Rightarrow> nat \<Rightarrow> u32" where
  "de_inode bs off = of_nat (field bs off 4)"

definition de_rec_len :: "u8 list \<Rightarrow> nat \<Rightarrow> nat" where
  "de_rec_len bs off = field bs (off + 4) 2"

definition de_name_len :: "u8 list \<Rightarrow> nat \<Rightarrow> nat" where
  "de_name_len bs off = field bs (off + 6) 1"

definition de_name :: "u8 list \<Rightarrow> nat \<Rightarrow> u8 list" where
  "de_name bs off = drop (off + 8) bs"

text \<open>\<open>strncmp(x, y, n) == 0\<close> on strings that end where their lists do.\<close>

fun strncmp_eq :: "u8 list \<Rightarrow> u8 list \<Rightarrow> nat \<Rightarrow> bool" where
  "strncmp_eq xs ys 0 = True"
| "strncmp_eq (x # xs) (y # ys) (Suc n) = (if x \<noteq> 0 \<and> x = y then strncmp_eq xs ys n else x = y)"
| "strncmp_eq [] [] (Suc n) = True"
| "strncmp_eq (x # xs) [] (Suc n) = (x = 0)"
| "strncmp_eq [] (y # ys) (Suc n) = (y = 0)"

function lookup_block :: "u8 list \<Rightarrow> u8 list \<Rightarrow> nat \<Rightarrow> u32 option" where
  "lookup_block bs name off =
     (if CRFS_BLOCK_SIZE \<le> off then None
      else if de_inode bs off = 0 then None
      else if de_rec_len bs off = 0 then None
      else if strncmp_eq (de_name bs off) name (de_name_len bs off) then Some (de_inode bs off)
      else lookup_block bs name (off + de_rec_len bs off))"
  by pat_completeness auto
termination by (relation "measure (\<lambda>(bs, name, off). CRFS_BLOCK_SIZE - off)") auto

declare lookup_block.simps [simp del]

text \<open>The loop over the blocks of a directory; its counter has 32 bits and a directory fewer blocks.\<close>

fun lookup_blocks :: "'d block_device \<Rightarrow> 'd crfs \<Rightarrow> inode_disk \<Rightarrow> u8 list \<Rightarrow> nat \<Rightarrow> nat \<Rightarrow> u32 option" where
  "lookup_blocks dev s ino name b 0 = None"
| "lookup_blocks dev s ino name b (Suc k) =
     (let a = crfs_inode_get_block dev s ino (of_nat b) in
      if a = 0 then lookup_blocks dev s ino name (Suc b) k
      else case lookup_block (crfs_read_block dev s a) name 0 of
             Some n \<Rightarrow> Some n
           | None \<Rightarrow> lookup_blocks dev s ino name (Suc b) k)"

definition crfs_dir_lookup :: "'d block_device \<Rightarrow> 'd crfs \<Rightarrow> nat \<Rightarrow> u8 list \<Rightarrow> u32 option" where
  "crfs_dir_lookup dev s p name =
     (let ino = idisk (inodes s p) in lookup_blocks dev s ino name 0 (unat (blocks ino)))"

text \<open>The search for an empty slot; a used entry of length 0 stops it from ending.\<close>

partial_function (option) empty_slot :: "u8 list \<Rightarrow> nat \<Rightarrow> nat option option" where
  "empty_slot bs off =
     (if CRFS_BLOCK_SIZE \<le> off then Some None
      else if de_inode bs off = 0 then Some (Some off)
      else empty_slot bs (off + de_rec_len bs off))"

definition fill_entry :: "u8 list \<Rightarrow> nat \<Rightarrow> u8 list \<Rightarrow> u32 \<Rightarrow> u8 \<Rightarrow> u8 list" where
  "fill_entry bs off name n ty =
     (let e = dirent_bytes n (of_nat (CRFS_BLOCK_SIZE - off)) (of_nat (length name)) ty (name @ [0])
      in take off bs @ e @ drop (off + length e) bs)"

text \<open>
  A failed allocation leaves the address 0, so that the new directory block is written over the
  superblock.
\<close>

definition dir_block :: "'d block_device \<Rightarrow> 'd crfs \<Rightarrow> nat \<Rightarrow> u32 \<Rightarrow> 'd crfs \<times> u64" where
  "dir_block dev s p b =
     (let a = crfs_inode_get_block dev s (idisk (inodes s p)) b in
      if a \<noteq> 0 then (s, a)
      else let (s1, r) = crfs_alloc_block s;
               a1 = (case r of None \<Rightarrow> 0 | Some x \<Rightarrow> x);
               s2 = fst (crfs_inode_set_block dev s1 p b a1)
           in (crfs_write_block dev s2 a1 (replicate CRFS_BLOCK_SIZE 0), a1))"

fun dir_add_loop :: "'d block_device \<Rightarrow> 'd crfs \<Rightarrow> nat \<Rightarrow> u8 list \<Rightarrow> u32 \<Rightarrow> u8 \<Rightarrow> nat \<Rightarrow> nat \<Rightarrow> ('d crfs \<times> int) option" where
  "dir_add_loop dev s p name n ty b 0 = Some (s, - 1)"
| "dir_add_loop dev s p name n ty b (Suc k) =
     (let (s1, a) = dir_block dev s p (of_nat b);
          bs = crfs_read_block dev s1 a
      in case empty_slot bs 0 of
           None \<Rightarrow> None
         | Some None \<Rightarrow> dir_add_loop dev s1 p name n ty (Suc b) k
         | Some (Some off) \<Rightarrow> Some (mark_dirty (crfs_write_block dev s1 a (fill_entry bs off name n ty)) p, 0))"

definition crfs_dir_add :: "'d block_device \<Rightarrow> 'd crfs \<Rightarrow> nat \<Rightarrow> u8 list \<Rightarrow> u32 \<Rightarrow> u8 \<Rightarrow> ('d crfs \<times> int) option" where
  "crfs_dir_add dev s p name n ty = dir_add_loop dev s p name n ty 0 (max 1 (unat (blocks (idisk (inodes s p)))))"

definition crfs_dir_remove :: "'d crfs \<Rightarrow> nat \<Rightarrow> u8 list \<Rightarrow> 'd crfs \<times> int" where
  "crfs_dir_remove s p name = (s, 0)"

section \<open>Reading a directory\<close>

text \<open>
  The entries are structures of 8 bytes whose name follows them, so that a name lies where the next
  entry is copied to: the buffer is a function from offsets to bytes.
\<close>

definition copy_entry :: "(nat \<Rightarrow> u8) \<Rightarrow> nat \<Rightarrow> u8 list \<Rightarrow> nat \<Rightarrow> nat \<Rightarrow> u8" where
  "copy_entry buf c bs off =
     (let name = takeWhile (\<lambda>x. x \<noteq> 0) (take (de_name_len bs off) (de_name bs off));
          e = take 8 (drop off bs) @ name @ replicate (de_name_len bs off - length name) 0 @ [0]
      in (\<lambda>x. if 8 * c \<le> x \<and> x < 8 * c + length e then e ! (x - 8 * c) else buf x))"

function readdir_block :: "u8 list \<Rightarrow> nat \<Rightarrow> nat \<Rightarrow> nat \<Rightarrow> (nat \<Rightarrow> u8) \<Rightarrow> nat \<times> (nat \<Rightarrow> u8)" where
  "readdir_block bs mx off c buf =
     (if CRFS_BLOCK_SIZE \<le> off then (c, buf)
      else if de_inode bs off = 0 then (c, buf)
      else if de_rec_len bs off = 0 then (c, buf)
      else let buf' = copy_entry buf c bs off
           in if mx \<le> Suc c then (Suc c, buf') else readdir_block bs mx (off + de_rec_len bs off) (Suc c) buf')"
  by pat_completeness auto
termination by (relation "measure (\<lambda>(bs, mx, off, c, buf). CRFS_BLOCK_SIZE - off)") auto

declare readdir_block.simps [simp del]

fun readdir_blocks :: "'d block_device \<Rightarrow> 'd crfs \<Rightarrow> inode_disk \<Rightarrow> nat \<Rightarrow> nat \<Rightarrow> nat \<Rightarrow> nat \<Rightarrow> (nat \<Rightarrow> u8) \<Rightarrow> nat \<times> (nat \<Rightarrow> u8)" where
  "readdir_blocks dev s ino mx b 0 c buf = (c, buf)"
| "readdir_blocks dev s ino mx b (Suc k) c buf =
     (if mx \<le> c then (c, buf)
      else let a = crfs_inode_get_block dev s ino (of_nat b) in
      if a = 0 then readdir_blocks dev s ino mx (Suc b) k c buf
      else case readdir_block (crfs_read_block dev s a) mx 0 c buf of
             (c', buf') \<Rightarrow> readdir_blocks dev s ino mx (Suc b) k c' buf')"

definition crfs_readdir :: "'d block_device \<Rightarrow> 'd crfs \<Rightarrow> int \<Rightarrow> int \<Rightarrow> (nat \<Rightarrow> u8) \<Rightarrow> int \<times> (nat \<Rightarrow> u8)" where
  "crfs_readdir dev s fd mx buf =
     (if fd < 0 \<or> int CRFS_MAX_OPEN \<le> fd then (- 1, buf)
      else let f = files s ! nat fd in
      if \<not> in_use f then (- 1, buf)
      else case f_inode f of
        None \<Rightarrow> (- 1, buf)
      | Some p \<Rightarrow>
          let ino = idisk (inodes s p) in
          if itype ino \<noteq> CRFS_TYPE_DIR then (- 1, buf)
          else case readdir_blocks dev s ino (nat mx) 0 (unat (blocks ino)) 0 buf of (c, buf') \<Rightarrow> (int c, buf'))"

section \<open>Opening a file\<close>

text \<open>The path walk: the directory that holds the last component, and that component.\<close>

function walk :: "'d block_device \<Rightarrow> 'd crfs \<Rightarrow> nat \<Rightarrow> u8 list \<Rightarrow> 'd crfs \<times> (nat \<times> u8 list) option" where
  "walk dev s p path =
     (if 0x2F \<notin> set path then (s, Some (p, path))
      else let token = takeWhile (\<lambda>c. c \<noteq> 0x2F) path;
               rest = tl (dropWhile (\<lambda>c. c \<noteq> 0x2F) path)
           in if token = [] then walk dev s p rest
              else case crfs_dir_lookup dev s p token of
                     None \<Rightarrow> (crfs_iput dev s p, None)
                   | Some n \<Rightarrow>
                       (case crfs_iget dev s n of
                          (s1, None) \<Rightarrow> (crfs_iput dev s1 p, None)
                        | (s1, Some q) \<Rightarrow>
                            let s2 = crfs_iput dev s1 p
                            in if itype (idisk (inodes s2 q)) \<noteq> CRFS_TYPE_DIR then (crfs_iput dev s2 q, None)
                               else walk dev s2 q rest))"
  by pat_completeness auto

lemma walk_rest: "0x2F \<in> set path \<Longrightarrow> length (tl (dropWhile (\<lambda>c. c \<noteq> (0x2F :: u8)) path)) < length path"
  by (induction path) auto

termination walk
  by (relation "measure (\<lambda>(dev, s, p, path). length path)") (auto dest: walk_rest)

declare walk.simps [simp del]

definition new_inode :: "u32 \<Rightarrow> u32 \<Rightarrow> u32 \<Rightarrow> u64 \<Rightarrow> inode_disk" where
  "new_inode n flags md now =
     (let i = zero_inode\<lparr>inode_no := n, itype := (if flags AND O_DIRECTORY \<noteq> 0 then CRFS_TYPE_DIR else CRFS_TYPE_REG),
                mode := md, atime := now, mtime := now, ctime := now, nlink := 1, compression := CRFS_COMP_LZ4\<rparr>
      in i\<lparr>i_checksum := crc32c (take (INODE_BYTES - 4) (inode_bytes i))\<rparr>)"

definition create_file :: "'d block_device \<Rightarrow> 'd crfs \<Rightarrow> nat \<Rightarrow> u8 list \<Rightarrow> u32 \<Rightarrow> u32 \<Rightarrow> u64 \<Rightarrow> u64 \<Rightarrow> ('d crfs \<times> u32) option" where
  "create_file dev s p name flags md now_us now =
     (let n0 = ucast now_us :: u32;
          n = (if n0 \<le> 1 then 2 else n0);
          ino = new_inode n flags md now
      in case crfs_alloc_block s of
           (s1, None) \<Rightarrow> None
         | (s1, Some a) \<Rightarrow>
             map_option (\<lambda>(s2, _). (s2, n))
               (crfs_dir_add dev (crfs_write_block dev s1 a (inode_bytes ino)) p name n (ucast (itype ino))))"

definition open_inode :: "'d block_device \<Rightarrow> 'd crfs \<Rightarrow> u32 \<Rightarrow> u32 \<Rightarrow> 'd crfs \<times> int" where
  "open_inode dev s n flags =
     (case crfs_iget dev s n of
        (s1, None) \<Rightarrow> (s1, - 1)
      | (s1, Some q) \<Rightarrow>
          let s2 = (if flags AND O_TRUNC \<noteq> 0 \<and> itype (idisk (inodes s1 q)) = CRFS_TYPE_REG
                    then mark_dirty (upd_idisk s1 q (\<lambda>d. d\<lparr>isize := 0, blocks := 0\<rparr>)) q else s1)
          in case first_slot (\<lambda>i. \<not> in_use (files s2 ! i)) 0 CRFS_MAX_OPEN of
               None \<Rightarrow> (crfs_iput dev s2 q, - 1)
             | Some i \<Rightarrow>
                 (s2\<lparr>files := (files s2)[i := \<lparr>in_use = True, f_flags = flags,
                     f_offset = (if flags AND O_APPEND \<noteq> 0 then isize (idisk (inodes s2 q)) else 0), f_inode = Some q\<rparr>]\<rparr>, int i))"

definition crfs_open :: "'d block_device \<Rightarrow> 'd crfs \<Rightarrow> u8 list \<Rightarrow> u32 \<Rightarrow> u32 \<Rightarrow> u64 \<Rightarrow> u64 \<Rightarrow> ('d crfs \<times> int) option" where
  "crfs_open dev s path flags md now_us now =
     (if \<not> mounted s then Some (s, - 1)
      else case crfs_iget dev s CRFS_ROOT_INO of
        (s0, None) \<Rightarrow> Some (s0, - 1)
      | (s0, Some root) \<Rightarrow>
          (case walk dev s0 root (take 4095 path) of
             (s1, None) \<Rightarrow> Some (s1, - 1)
           | (s1, Some (p, token)) \<Rightarrow>
               if token = [] then Some (crfs_iput dev s1 p, - 1)
               else case crfs_dir_lookup dev s1 p token of
                 Some n \<Rightarrow> Some (open_inode dev (crfs_iput dev s1 p) n flags)
               | None \<Rightarrow>
                   if flags AND O_CREAT = 0 then Some (crfs_iput dev s1 p, - 1)
                   else map_option (\<lambda>(s2, n). open_inode dev (crfs_iput dev s2 p) n flags)
                          (create_file dev s1 p token flags md now_us now)))"

text \<open>\<open>crfs_unlink\<close> and \<open>crfs_stat\<close> ignore the path.\<close>

definition crfs_unlink :: "'d crfs \<Rightarrow> u8 list \<Rightarrow> 'd crfs \<times> int" where
  "crfs_unlink s path = (s, 0)"

definition crfs_stat :: "'d crfs \<Rightarrow> u8 list \<Rightarrow> inode_disk \<times> int" where
  "crfs_stat s path = (zero_inode, 0)"

definition crfs_init :: int where
  "crfs_init = 0"

section \<open>One entry per directory block\<close>

lemma unle_append: "unle (xs @ ys) = unle xs + 256 ^ length xs * unle ys"
  by (induction xs) (simp_all add: algebra_simps)

lemma fill_fields:
  fixes ty
  assumes "length name < 2000" and "n \<noteq> 0"
  defines "bs \<equiv> fill_entry (replicate 4096 0) 0 name n ty"
  shows "de_inode bs 0 = n" "de_rec_len bs 0 = 4096" "de_name_len bs 0 = length name mod 256"
    "de_name bs 0 = name @ replicate (4096 - 8 - length name) 0" "length bs = 4096"
proof -
  have bs: "bs = le 4 (unat n) @ le 2 4096 @ [of_nat (length name), ty] @ name @ [0] @ replicate (4087 - length name) 0"
    using assms(1) by (simp add: bs_def fill_entry_def dirent_bytes_def CRFS_BLOCK_SIZE_def Let_def)
  show "de_inode bs 0 = n" unfolding de_inode_def field_def bs by simp
  show "de_rec_len bs 0 = 4096" unfolding de_rec_len_def field_def bs by (simp add: unle_le)
  show "de_name_len bs 0 = length name mod 256"
    unfolding de_name_len_def field_def bs by (simp add: unat_of_nat take_bit_eq_mod)
  have "4096 - 8 - length name = Suc (4087 - length name)" using assms(1) by linarith
  then show "de_name bs 0 = name @ replicate (4096 - 8 - length name) 0" unfolding de_name_def bs by simp
  show "length bs = 4096" unfolding bs using assms(1) by simp
qed

lemma strncmp_prefix: "0 \<notin> set xs \<Longrightarrow> n \<le> length xs \<Longrightarrow> strncmp_eq (xs @ zs) (xs @ ys) n"
proof (induction xs arbitrary: n)
  case (Cons x xs)
  then show ?case by (cases n) auto
qed simp

text \<open>
  A directory block takes one new entry.  The entry that \<open>crfs_dir_add\<close> writes into an empty block
  claims the whole block, so that no slot is left for a second; and \<open>crfs_dir_lookup\<close> finds it for every
  name that its own name begins, not only for its name.
\<close>

theorem dir_block_one_entry:
  assumes "length name < 256" and "0 \<notin> set name" and "n \<noteq> 0"
  shows "empty_slot (replicate 4096 0) 0 = Some (Some 0)
    \<and> empty_slot (fill_entry (replicate 4096 0) 0 name n ty) 0 = Some None
    \<and> lookup_block (fill_entry (replicate 4096 0) 0 name n ty) (name @ suff) 0 = Some n"
proof (intro conjI)
  have l: "length name < 2000" using assms(1) by simp
  note f = fill_fields [OF l assms(3), of ty]
  show "empty_slot (replicate 4096 0) 0 = Some (Some 0)"
    by (subst empty_slot.simps) (simp add: de_inode_def field_def CRFS_BLOCK_SIZE_def numeral_eq_Suc)
  show "empty_slot (fill_entry (replicate 4096 0) 0 name n ty) 0 = Some None"
    using assms(3) by (subst empty_slot.simps) (simp add: f empty_slot.simps [of _ 4096] CRFS_BLOCK_SIZE_def)
  have "strncmp_eq (name @ replicate (4096 - 8 - length name) 0) (name @ suff) (length name mod 256)"
    using assms by (intro strncmp_prefix) simp_all
  then show "lookup_block (fill_entry (replicate 4096 0) 0 name n ty) (name @ suff) 0 = Some n"
    using assms(3) by (subst lookup_block.simps) (simp add: f CRFS_BLOCK_SIZE_def)
qed

theorem dir_block_one_entry_witness:
  "lookup_block (fill_entry (replicate 4096 0) 0 [0x66, 0x6F] 9 1) [0x66, 0x6F, 0x6F] 0 = Some 9"
  using dir_block_one_entry [of "[0x66, 0x6F]" 9 1 "[0x6F]"] by simp

section \<open>A freshly formatted file system has no root directory\<close>

text \<open>A directory without blocks: every walk stays there or fails.\<close>

lemma walk_no_blocks:
  assumes "blocks (idisk (inodes s p)) = 0"
  shows "(\<exists>s'. walk dev s p path = (s', None)) \<or> (\<exists>t. walk dev s p path = (s, Some (p, t)))"
  using assms
proof (induction path rule: length_induct)
  case (1 path)
  have "crfs_dir_lookup dev s p t = None" for t using "1.prems" by (simp add: crfs_dir_lookup_def)
  moreover have "(\<exists>s'. walk dev s p rest = (s', None)) \<or> (\<exists>t. walk dev s p rest = (s, Some (p, t)))"
    if "0x2F \<in> set path" "rest = tl (dropWhile (\<lambda>c. c \<noteq> 0x2F) path)" for rest
    using "1.IH" "1.prems" walk_rest [OF that(1)] that(2) by blast
  ultimately show ?case by (subst (1 2) walk.simps) (auto simp: Let_def)
qed

lemma open_no_root:
  assumes "crfs_iget dev s CRFS_ROOT_INO = (s0, Some p)" and "blocks (idisk (inodes s0 p)) = 0" and "flags AND O_CREAT = 0"
  shows "\<exists>s'. crfs_open dev s path flags md us now = Some (s', - 1)"
proof -
  have l: "crfs_dir_lookup dev s0 p t = None" for t using assms(2) by (simp add: crfs_dir_lookup_def)
  show ?thesis
    using walk_no_blocks [OF assms(2), of dev "take 4095 path"] assms(1,3) l
    by (auto simp: crfs_open_def)
qed

lemma read_prefix:
  assumes "faithful dev" and "on_device dev a (length bs)" and "n \<le> length bs"
  shows "dev_read dev (dev_write dev d a bs) a n = take n bs"
  using assms by (intro nth_equalityI) (simp_all add: faithful_def on_device_def)

lemma unle_zero [simp]: "unle (replicate n 0) = 0"
  by (induction n) simp_all

lemma sb_bytes_length: "length (uuid b) = 16 \<Longrightarrow> length (volume_name b) = 64 \<Longrightarrow> length (encryption_key_id b) = 32 \<Longrightarrow>
    length (sb_pad b) = 4060 \<Longrightarrow> length (sb_bytes b) = 4292"
  by (simp add: sb_bytes_def)

text \<open>The leading fields of a superblock survive a read of its first block.\<close>

lemma sb_of_sb_bytes:
  assumes "length (sb_bytes b) = 4292"
  shows "magic (sb_of (take 4096 (sb_bytes b) @ junk)) = magic b"
    "inode_table_start (sb_of (take 4096 (sb_bytes b) @ junk)) = inode_table_start b"
proof -
  have f: "field (take 4096 (sb_bytes b) @ junk) off 8 = field (sb_bytes b) off 8" if "off + 8 \<le> 4096" for off
    using that assms by (simp add: field_def take_drop)
  show "magic (sb_of (take 4096 (sb_bytes b) @ junk)) = magic b"
    unfolding sb_of_def superblock.simps f [of 0, simplified] by (simp add: field_def sb_bytes_def)
  show "inode_table_start (sb_of (take 4096 (sb_bytes b) @ junk)) = inode_table_start b"
    unfolding sb_of_def superblock.simps f [of 60, simplified] by (simp add: field_def sb_bytes_def)
qed

lemma format_sb_facts:
  assumes "length rng = 16"
  shows "length (sb_bytes (format_sb tot now rng name)) = 4292" "magic (format_sb tot now rng name) = CRFS_MAGIC"
    "inode_table_start (format_sb tot now rng name) = 3" "root_inode_addr (format_sb tot now rng name) = 3 * CRFS_SEG_SIZE"
    "checkpoint_offset (format_sb tot now rng name) = CRFS_SEG_SIZE"
proof -
  show "length (sb_bytes (format_sb tot now rng name)) = 4292"
    using assms by (intro sb_bytes_length) (simp_all add: format_sb_def zero_sb_def Let_def)
qed (simp_all add: format_sb_def zero_sb_def Let_def)

lemma format_root_length: "length (inode_bytes (format_root now)) = 4304"
  by (simp add: inode_bytes_def format_root_def zero_inode_def Let_def)

lemma root_block_length: "length root_block = 4096"
  by (simp add: root_block_def dirent_bytes_def CRFS_BLOCK_SIZE_def)

text \<open>
  C39: the root directory that \<open>crfs_format\<close> writes is never read.  It puts the root inode at the start
  of the inode table, but \<open>crfs_iget\<close> looks for inode 1 one inode further: after any format and mount,
  the root inode that is read is made of the bytes that lay there before the format.  When these are an
  inode without blocks, as on a disk that was blank, every \<open>crfs_open\<close> that does not create fails, "/."
  included.
\<close>

theorem crfs_root_lost:
  assumes f: "faithful dev" and sz: "16 * 2097152 \<le> unat (dev_size dev)" and rng: "length rng = 16" and mem: "3 \<le> mem"
  shows "\<exists>d' s s0 p. crfs_format dev d t1 t2 rng name = (d', 0) \<and> crfs_mount dev d' t3 junk mem bis cs = Some (Inr s)
    \<and> crfs_iget dev s CRFS_ROOT_INO = (s0, Some p)
    \<and> idisk (inodes s0 p) = inode_of (dev_read dev d 6295760 4096 @ replicate 208 0)
    \<and> (blocks (inode_of (dev_read dev d 6295760 4096 @ replicate 208 0)) = 0 \<and> flags AND O_CREAT = 0
        \<longrightarrow> (\<exists>s'. crfs_open dev s path flags md us now = Some (s', - 1)))"
proof -
  define b where "b = format_sb (dev_size dev div CRFS_SEG_SIZE) t1 rng name"
  note b = format_sb_facts [OF rng, of "dev_size dev div CRFS_SEG_SIZE" t1 name, folded b_def]
  define d' where "d' = dev_flush dev (dev_write dev (dev_write dev (dev_write dev (dev_write dev (dev_write dev d 0 (sb_bytes b))
    4096 (sb_bytes b)) 6291456 (inode_bytes (format_root t2))) 8388608 root_block) 2097152 (sb_bytes b))"
  have "16 \<le> dev_size dev div CRFS_SEG_SIZE"
    using sz by (simp add: word_le_nat_alt unat_div CRFS_SEG_SIZE_def less_eq_div_iff_mult_less_eq)
  then have fmt: "crfs_format dev d t1 t2 rng name = (d', 0)"
    using b by (simp add: crfs_format_def Let_def d'_def flip: b_def) (simp add: CRFS_SEG_SIZE_def CRFS_BLOCK_SIZE_def)
  have fl: "dev_read dev d' = dev_read dev (dev_write dev (dev_write dev (dev_write dev (dev_write dev (dev_write dev d 0 (sb_bytes b))
    4096 (sb_bytes b)) 6291456 (inode_bytes (format_root t2))) 8388608 root_block) 2097152 (sb_bytes b))"
    using f by (simp add: d'_def faithful_def)
  note lens = b(1) format_root_length [of t2] root_block_length
  have r0: "dev_read dev d' 0 4096 = take 4096 (sb_bytes b)"
    unfolding fl using f sz lens by (simp add: read_elsewhere read_prefix on_device_def)
  have r1: "dev_read dev d' 6295760 4096 = dev_read dev d 6295760 4096"
    unfolding fl using f sz lens by (simp add: read_elsewhere on_device_def)
  obtain s where s: "crfs_mount dev d' t3 junk mem bis cs = Some (Inr s)" "inode_cache s = (\<lambda>_. [])" "room s = mem - 2" "mounted s"
    "inode_table_start (sb s) = 3" "disk s = d'"
    using r0 mem b sb_of_sb_bytes [OF b(1), of junk] by (simp add: crfs_mount_def Let_def CRFS_BLOCK_SIZE_def)
  have "inode_addr s CRFS_ROOT_INO = 6295760"
    using s(5) by (simp add: inode_addr_def CRFS_ROOT_INO_def CRFS_SEG_SIZE_def INODE_BYTES_def)
  then obtain s0 p where r: "crfs_iget dev s CRFS_ROOT_INO = (s0, Some p)"
    "idisk (inodes s0 p) = inode_of (dev_read dev d 6295760 4096 @ replicate 208 0)"
    using s(2,3,6) mem r1 by (simp add: crfs_iget_def Let_def crfs_read_block_def INODE_BYTES_def CRFS_BLOCK_SIZE_def)
  have "\<exists>s'. crfs_open dev s path flags md us now = Some (s', - 1)"
    if "blocks (inode_of (dev_read dev d 6295760 4096 @ replicate 208 0)) = 0" "flags AND O_CREAT = 0"
    using open_no_root [OF r(1)] that unfolding r(2) by blast
  with fmt s(1) r show ?thesis by blast
qed

theorem crfs_root_lost_witness:
  "\<exists>d' s s'. crfs_format (ram_disk (16 * CRFS_SEG_SIZE)) (\<lambda>_. 0) 1 2 (replicate 16 0) [] = (d', 0)
     \<and> crfs_mount (ram_disk (16 * CRFS_SEG_SIZE)) d' 3 [] 5 0 0 = Some (Inr s)
     \<and> crfs_open (ram_disk (16 * CRFS_SEG_SIZE)) s [0x2F, 0x2E] 0 0 4 5 = Some (s', - 1)"
proof -
  have "dev_read (ram_disk (16 * CRFS_SEG_SIZE)) (\<lambda>_. 0) 6295760 4096 = replicate 4096 0"
    by (rule nth_equalityI) (simp_all add: ram_disk_def)
  then have z: "blocks (inode_of (dev_read (ram_disk (16 * CRFS_SEG_SIZE)) (\<lambda>_. 0) 6295760 4096 @ replicate 208 0)) = 0"
    by (simp add: inode_of_def field_def flip: replicate_add)
  have "16 * 2097152 \<le> unat (dev_size (ram_disk (16 * CRFS_SEG_SIZE)))" by (simp add: ram_disk_def CRFS_SEG_SIZE_def)
  from crfs_root_lost [OF ram_disk_faithful this, of "replicate 16 0" 5 "\<lambda>_. 0" 1 2 "[]" 3 "[]" 0 0 0 "[0x2F, 0x2E]" 0 4 5] z
  show ?thesis by fastforce
qed

end
