(* ===== verification/Vfs.thy ===== *)
theory Vfs
  imports CrfsDir
begin

text \<open>
  The virtual file system (vfs.c): the table of file descriptors over CrimsonFS.  The state pairs the
  table with the file system below; \<open>vfs_initialized\<close> and the table are the static variables of vfs.c.
  Strings and buffers are lists of bytes, \<open>None\<close> where the pointer is NULL; the outer \<open>option\<close> of
  \<open>fs_open\<close> and \<open>fs_write\<close> is that of the file system.
\<close>

section \<open>The descriptor table\<close>

definition FS_MAX_OPEN :: nat where "FS_MAX_OPEN = 256"
definition FS_O_RDONLY :: u32 where "FS_O_RDONLY = 0"
definition FS_O_WRONLY :: u32 where "FS_O_WRONLY = 1"
definition FS_O_RDWR :: u32 where "FS_O_RDWR = 2"
definition FS_O_CREAT :: u32 where "FS_O_CREAT = 0x40"
definition FS_O_TRUNC :: u32 where "FS_O_TRUNC = 0x200"
definition FS_O_APPEND :: u32 where "FS_O_APPEND = 0x400"
definition FS_TYPE_REG :: u32 where "FS_TYPE_REG = 1"
definition FS_TYPE_DIR :: u32 where "FS_TYPE_DIR = 2"

record fs_file =
  valid :: bool
  fd_no :: nat
  flags :: u32
  offset :: u64
  node :: u64

record fs_stat =
  st_size :: u64
  st_mode :: u32
  st_uid :: u32
  st_gid :: u32
  st_atime :: u64
  st_mtime :: u64
  st_ctime :: u64
  st_type :: u32
  st_nlink :: u32

record 'd vfs =
  fd_table :: "fs_file list"
  vfs_initialized :: bool
  fs :: "'d crfs"

definition fs_init :: "'d vfs \<Rightarrow> 'd vfs \<times> int" where
  "fs_init v = (v\<lparr>fd_table := map (\<lambda>i. \<lparr>valid = False, fd_no = i, flags = 0, offset = 0, node = 0\<rparr>) [0..<FS_MAX_OPEN],
     vfs_initialized := True\<rparr>, 0)"

definition upd_fd :: "'d vfs \<Rightarrow> nat \<Rightarrow> (fs_file \<Rightarrow> fs_file) \<Rightarrow> 'd vfs" where
  "upd_fd v i f = v\<lparr>fd_table := (fd_table v)[i := f (fd_table v ! i)]\<rparr>"

definition alloc_fd :: "'d vfs \<Rightarrow> 'd vfs \<times> int" where
  "alloc_fd v =
     (case first_slot (\<lambda>i. \<not> valid (fd_table v ! i)) 3 (FS_MAX_OPEN - 3) of
        None \<Rightarrow> (v, - 1)
      | Some i \<Rightarrow> (upd_fd v i (\<lambda>e. e\<lparr>valid := True, offset := 0\<rparr>), int i))"

definition free_fd :: "'d vfs \<Rightarrow> int \<Rightarrow> 'd vfs" where
  "free_fd v fd =
     (if 0 \<le> fd \<and> fd < int FS_MAX_OPEN then upd_fd v (nat fd) (\<lambda>e. e\<lparr>valid := False, offset := 0, node := 0\<rparr>) else v)"

definition valid_fd :: "'d vfs \<Rightarrow> int \<Rightarrow> bool" where
  "valid_fd v fd \<longleftrightarrow> 0 \<le> fd \<and> fd < int FS_MAX_OPEN \<and> valid (fd_table v ! nat fd)"

text \<open>The cast of the node pointer back to an \<open>int\<close>.\<close>

definition crfs_fd :: "'d vfs \<Rightarrow> int \<Rightarrow> int" where
  "crfs_fd v fd = sint (ucast (node (fd_table v ! nat fd)) :: u32)"

section \<open>Files\<close>

definition crfs_flags :: "u32 \<Rightarrow> u32" where
  "crfs_flags fl =
     (if fl AND FS_O_RDONLY \<noteq> 0 then 0 else 0) OR (if fl AND FS_O_WRONLY \<noteq> 0 then O_WRONLY else 0)
     OR (if fl AND FS_O_RDWR \<noteq> 0 then O_RDWR else 0) OR (if fl AND FS_O_CREAT \<noteq> 0 then O_CREAT else 0)
     OR (if fl AND FS_O_TRUNC \<noteq> 0 then O_TRUNC else 0) OR (if fl AND FS_O_APPEND \<noteq> 0 then O_APPEND else 0)"

definition fs_open :: "'d block_device \<Rightarrow> 'd vfs \<Rightarrow> u8 list option \<Rightarrow> u32 \<Rightarrow> u64 \<Rightarrow> u64 \<Rightarrow> ('d vfs \<times> int) option" where
  "fs_open dev v path fl us now =
     (case path of
        None \<Rightarrow> Some (v, - 1)
      | Some pth \<Rightarrow>
          if \<not> vfs_initialized v then Some (v, - 1)
          else case alloc_fd v of (v1, fd) \<Rightarrow>
            if fd < 0 then Some (v1, - 1)
            else case crfs_open dev (fs v1) pth (crfs_flags fl) 420 us now of
              None \<Rightarrow> None
            | Some (c, r) \<Rightarrow>
                if r < 0 then Some (free_fd (v1\<lparr>fs := c\<rparr>) fd, - 1)
                else Some (upd_fd (v1\<lparr>fs := c\<rparr>) (nat fd) (\<lambda>e. e\<lparr>flags := fl, offset := 0, node := word_of_int r\<rparr>), fd))"

definition fs_close :: "'d block_device \<Rightarrow> 'd vfs \<Rightarrow> int \<Rightarrow> 'd vfs" where
  "fs_close dev v fd =
     (if \<not> vfs_initialized v then v
      else if \<not> valid_fd v fd then v
      else free_fd (v\<lparr>fs := crfs_close dev (fs v) (crfs_fd v fd)\<rparr>) fd)"

definition fs_read :: "'d block_device \<Rightarrow> 'd vfs \<Rightarrow> u64 \<Rightarrow> int \<Rightarrow> u64 \<Rightarrow> 'd vfs \<times> int \<times> u8 list" where
  "fs_read dev v now fd count =
     (if \<not> vfs_initialized v then (v, - 1, [])
      else if \<not> valid_fd v fd then (v, - 1, [])
      else case crfs_read dev (fs v) now (crfs_fd v fd) count of (c, n, data) \<Rightarrow>
        (let v1 = v\<lparr>fs := c\<rparr>
         in ((if 0 < n then upd_fd v1 (nat fd) (\<lambda>e. e\<lparr>offset := offset e + word_of_int n\<rparr>) else v1), n, data)))"

definition fs_write :: "'d block_device \<Rightarrow> 'd vfs \<Rightarrow> u64 \<Rightarrow> int \<Rightarrow> u8 list option \<Rightarrow> ('d vfs \<times> int) option" where
  "fs_write dev v now fd buf =
     (case buf of
        None \<Rightarrow> Some (v, - 1)
      | Some data \<Rightarrow>
          if \<not> vfs_initialized v then Some (v, - 1)
          else if \<not> valid_fd v fd then Some (v, - 1)
          else case crfs_write dev (fs v) now (crfs_fd v fd) data of
            None \<Rightarrow> None
          | Some (c, n) \<Rightarrow>
              let v1 = v\<lparr>fs := c\<rparr>
              in Some ((if 0 < n then upd_fd v1 (nat fd) (\<lambda>e. e\<lparr>offset := offset e + word_of_int n\<rparr>) else v1), n))"

definition seek :: "u64 \<Rightarrow> int \<Rightarrow> int \<Rightarrow> u64" where
  "seek old off whence =
     (if whence = 0 then word_of_int off
      else if whence = 1 then word_of_int (sint old + off)
      else if whence = 2 then word_of_int (if 0 < off then off else 0)
      else old)"

definition fs_lseek :: "'d vfs \<Rightarrow> int \<Rightarrow> int \<Rightarrow> int \<Rightarrow> 'd vfs \<times> int" where
  "fs_lseek v fd off whence =
     (if \<not> vfs_initialized v then (v, - 1)
      else if \<not> valid_fd v fd then (v, - 1)
      else let v1 = upd_fd v (nat fd) (\<lambda>e. e\<lparr>offset := seek (offset e) off whence\<rparr>)
           in (v1, sint (offset (fd_table v1 ! nat fd))))"

section \<open>File status and directories\<close>

definition zero_stat :: fs_stat where
  "zero_stat = \<lparr>st_size = 0, st_mode = 0, st_uid = 0, st_gid = 0, st_atime = 0, st_mtime = 0, st_ctime = 0, st_type = 0, st_nlink = 0\<rparr>"

definition fs_fstat :: "'d vfs \<Rightarrow> int \<Rightarrow> int \<times> fs_stat option" where
  "fs_fstat v fd =
     (if \<not> vfs_initialized v then (- 1, None)
      else if \<not> valid_fd v fd then (- 1, None)
      else (0, Some (zero_stat\<lparr>st_mode := 420\<rparr>)))"

definition fs_stat_path :: "'d vfs \<Rightarrow> u8 list option \<Rightarrow> int \<times> fs_stat option" where
  "fs_stat_path v path =
     (case path of
        None \<Rightarrow> (- 1, None)
      | Some pth \<Rightarrow>
          if \<not> vfs_initialized v then (- 1, None)
          else case crfs_stat (fs v) pth of (ino, r) \<Rightarrow>
            if r < 0 then (- 1, None)
            else (0, Some (zero_stat\<lparr>st_size := isize ino, st_mode := mode ino, st_uid := i_uid ino, st_gid := i_gid ino,
                    st_type := (if mode ino AND S_IFDIR \<noteq> 0 then FS_TYPE_DIR else FS_TYPE_REG), st_nlink := ucast (nlink ino)\<rparr>)))"

text \<open>The operations that check their arguments and do nothing else.\<close>

definition placeholder :: "'d vfs \<Rightarrow> u8 list option \<Rightarrow> int" where
  "placeholder v path = (if \<not> vfs_initialized v \<or> path = None then - 1 else 0)"

definition fs_mkdir :: "'d vfs \<Rightarrow> u8 list option \<Rightarrow> u32 \<Rightarrow> int" where
  "fs_mkdir v path md = placeholder v path"

text \<open>The result, and the paths it passes to \<open>fs_mkdir\<close>: the prefixes that end before a slash, then the path.\<close>

definition fs_mkdir_recursive :: "'d vfs \<Rightarrow> u8 list option \<Rightarrow> int \<times> u8 list list" where
  "fs_mkdir_recursive v path =
     (case path of
        None \<Rightarrow> (- 1, [])
      | Some pth \<Rightarrow>
          if \<not> vfs_initialized v then (- 1, [])
          else let tmp = take 255 pth
               in (0, map (\<lambda>i. take i tmp) (filter (\<lambda>i. tmp ! i = 0x2F) [1..<length tmp]) @ [tmp]))"

definition fs_rmdir :: "'d vfs \<Rightarrow> u8 list option \<Rightarrow> int" where
  "fs_rmdir v path = placeholder v path"

definition fs_rmdir_recursive :: "'d vfs \<Rightarrow> u8 list option \<Rightarrow> int" where
  "fs_rmdir_recursive v path = placeholder v path"

definition fs_unlink :: "'d vfs \<Rightarrow> u8 list option \<Rightarrow> 'd vfs \<times> int" where
  "fs_unlink v path =
     (case path of
        None \<Rightarrow> (v, - 1)
      | Some pth \<Rightarrow>
          if \<not> vfs_initialized v then (v, - 1)
          else case crfs_unlink (fs v) pth of (c, r) \<Rightarrow> (v\<lparr>fs := c\<rparr>, r))"

definition fs_rename :: "'d vfs \<Rightarrow> u8 list option \<Rightarrow> u8 list option \<Rightarrow> int" where
  "fs_rename v old new = - 1"

definition fs_chmod :: "'d vfs \<Rightarrow> u8 list option \<Rightarrow> u32 \<Rightarrow> int" where
  "fs_chmod v path md = placeholder v path"

definition fs_chown :: "'d vfs \<Rightarrow> u8 list option \<Rightarrow> u32 \<Rightarrow> u32 \<Rightarrow> int" where
  "fs_chown v path u g = placeholder v path"

definition fs_exists :: "'d vfs \<Rightarrow> u8 list option \<Rightarrow> bool" where
  "fs_exists v path \<longleftrightarrow> vfs_initialized v \<and> path \<noteq> None \<and> fst (fs_stat_path v path) = 0"

definition fs_is_dir :: "'d vfs \<Rightarrow> u8 list option \<Rightarrow> bool" where
  "fs_is_dir v path \<longleftrightarrow> vfs_initialized v \<and> path \<noteq> None
     \<and> (case fs_stat_path v path of (r, Some st) \<Rightarrow> \<not> r < 0 \<and> st_type st = FS_TYPE_DIR | _ \<Rightarrow> False)"

definition fs_is_file :: "'d vfs \<Rightarrow> u8 list option \<Rightarrow> bool" where
  "fs_is_file v path \<longleftrightarrow> vfs_initialized v \<and> path \<noteq> None
     \<and> (case fs_stat_path v path of (r, Some st) \<Rightarrow> \<not> r < 0 \<and> st_type st = FS_TYPE_REG | _ \<Rightarrow> False)"

section \<open>Descriptors are private\<close>

text \<open>What the file system below does to its own table of open files.\<close>

lemma files_write_block [simp]: "files (crfs_write_block dev s a bs) = files s"
  by (simp add: crfs_write_block_def)

lemma files_alloc_segment: "crfs_alloc_segment s = (s', r) \<Longrightarrow> files s' = files s"
  by (auto simp: crfs_alloc_segment_def split: option.splits)

lemma files_alloc_block: "crfs_alloc_block s = (s', r) \<Longrightarrow> files s' = files s"
  by (auto simp: crfs_alloc_block_def Let_def files_alloc_segment split: if_splits prod.splits option.splits dest!: files_alloc_segment)

lemma files_new_ptr_block: "new_ptr_block dev s = (s', r) \<Longrightarrow> files s' = files s"
  by (auto simp: new_ptr_block_def split: prod.splits option.splits dest!: files_alloc_block)

lemma files_set_block [simp]: "files (fst (crfs_inode_set_block dev s p n a)) = files s"
  by (auto simp: crfs_inode_set_block_def set_indirect_def set_double_def set_level2_def store_ptr_def Let_def
      split: prod.splits option.splits dest!: files_new_ptr_block)

lemma files_write_inode [simp]: "files (crfs_write_inode dev s p) = files s"
  by (simp add: crfs_write_inode_def Let_def)

lemma files_iput [simp]: "files (crfs_iput dev s p) = files s"
  by (simp add: crfs_iput_def Let_def upd_inode_def)

lemma files_iget: "crfs_iget dev s n = (s', r) \<Longrightarrow> files s' = files s"
  by (auto simp: crfs_iget_def Let_def upd_inode_def split: option.splits if_splits)

lemma files_dir_block: "dir_block dev s p b = (s', a) \<Longrightarrow> files s' = files s"
  by (auto simp: dir_block_def Let_def split: if_splits prod.splits dest!: files_alloc_block)

lemma files_dir_add_loop: "dir_add_loop dev s p name n ty b k = Some (s', r) \<Longrightarrow> files s' = files s"
proof (induction k arbitrary: s b)
  case (Suc k)
  obtain s1 a where d: "dir_block dev s p (of_nat b) = (s1, a)" by (rule prod.exhaust)
  then have "files s1 = files s" by (rule files_dir_block)
  with Suc d show ?case by (auto simp: Let_def split: option.splits)
qed simp

lemma files_walk: "walk dev s p path = (s', r) \<Longrightarrow> files s' = files s"
proof (induction path arbitrary: s p rule: length_induct)
  case (1 path)
  let ?t = "takeWhile (\<lambda>c. c \<noteq> 0x2F) path" and ?r = "tl (dropWhile (\<lambda>c. c \<noteq> 0x2F) path)"
  have IH: "walk dev s1 q ?r = (s', r) \<Longrightarrow> files s' = files s1" if "0x2F \<in> set path" for s1 q
    using "1.IH" walk_rest [OF that] by blast
  show ?case
  proof (cases "0x2F \<in> set path")
    case False
    with "1.prems" show ?thesis by (simp add: walk.simps [of _ _ _ path])
  next
    case True
    show ?thesis
    proof (cases "?t = []")
      case nil: True
      with "1.prems" True IH [OF True, of s p] show ?thesis by (simp add: walk.simps [of _ _ _ path])
    next
      case False
      show ?thesis
      proof (cases "crfs_dir_lookup dev s p ?t")
        case None
        with "1.prems" True False show ?thesis by (auto simp: walk.simps [of _ _ _ path])
      next
        case (Some n)
        obtain s1 q where g: "crfs_iget dev s n = (s1, q)" by (rule prod.exhaust)
        note f = files_iget [OF g]
        from "1.prems" True False Some g f IH [OF True, of "crfs_iput dev s1 p"] show ?thesis
          by (auto simp: walk.simps [of _ _ _ path] Let_def split: option.splits if_splits)
      qed
    qed
  qed
qed

lemma files_create: "create_file dev s p name fl md us now = Some (s', n) \<Longrightarrow> files s' = files s"
  by (auto simp: create_file_def crfs_dir_add_def Let_def split: prod.splits option.splits
      dest!: files_alloc_block files_dir_add_loop)

text \<open>Opening takes a free descriptor of the file system or changes none.\<close>

definition took_file :: "crfs_file list \<Rightarrow> crfs_file list \<Rightarrow> int \<Rightarrow> bool" where
  "took_file old new r \<longleftrightarrow> (if r < 0 then new = old
     else nat r < CRFS_MAX_OPEN \<and> \<not> in_use (old ! nat r) \<and> (\<exists>f. in_use f \<and> new = old[nat r := f]))"

lemma took_fileI:
  "i < CRFS_MAX_OPEN \<Longrightarrow> \<not> in_use (old ! i) \<Longrightarrow> in_use f \<Longrightarrow> new = old[i := f] \<Longrightarrow> took_file old new (int i)"
  by (auto simp: took_file_def)

lemma open_inode_files: "open_inode dev s n fl = (s', r) \<Longrightarrow> took_file (files s) (files s') r"
proof -
  assume o: "open_inode dev s n fl = (s', r)"
  obtain s1 q where g: "crfs_iget dev s n = (s1, q)" by (rule prod.exhaust)
  note f = files_iget [OF g]
  show ?thesis
  proof (cases q)
    case None
    with o g f show ?thesis by (simp add: open_inode_def took_file_def)
  next
    case (Some p)
    define s2 where "s2 = (if fl AND O_TRUNC \<noteq> 0 \<and> itype (idisk (inodes s1 p)) = CRFS_TYPE_REG
      then mark_dirty (upd_idisk s1 p (\<lambda>d. d\<lparr>isize := 0, blocks := 0\<rparr>)) p else s1)"
    have f2: "files s2 = files s" using f by (simp add: s2_def)
    note o = o [unfolded open_inode_def g Some prod.case option.case Let_def, folded s2_def]
    show ?thesis
    proof (cases "first_slot (\<lambda>i. \<not> in_use (files s2 ! i)) 0 CRFS_MAX_OPEN")
      case None
      with o f2 show ?thesis by (auto simp: took_file_def)
    next
      case (Some i)
      then have "i < CRFS_MAX_OPEN" "\<not> in_use (files s ! i)" using first_slot_Some [OF Some] f2 by auto
      moreover from Some o f2 have "r = int i" "files s' = (files s)[i := \<lparr>in_use = True, f_flags = fl,
          f_offset = (if fl AND O_APPEND \<noteq> 0 then isize (idisk (inodes s2 p)) else 0), f_inode = Some p\<rparr>]" by auto
      ultimately show ?thesis by (simp only:) (rule took_fileI [OF _ _ _ refl], simp_all)
    qed
  qed
qed

lemma crfs_open_files:
  assumes "crfs_open dev s path fl md us now = Some (s', r)"
  shows "took_file (files s) (files s') r"
proof (cases "mounted s")
  case False
  with assms show ?thesis by (simp add: crfs_open_def took_file_def)
next
  case True
  obtain s0 q where g: "crfs_iget dev s CRFS_ROOT_INO = (s0, q)" by (rule prod.exhaust)
  note f0 = files_iget [OF g]
  show ?thesis
  proof (cases q)
    case None
    with assms True g f0 show ?thesis by (auto simp: crfs_open_def took_file_def)
  next
    case (Some root)
    obtain s1 w where w: "walk dev s0 root (take 4095 path) = (s1, w)" by (rule prod.exhaust)
    note f1 = files_walk [OF w]
    have fin: "took_file (files s) (files s') r" if "open_inode dev (crfs_iput dev s2 p) n fl = (s', r)" "files s2 = files s1" for s2 p n
      using open_inode_files [OF that(1)] that(2) f0 f1 by simp
    from assms True g Some w f0 f1 fin show ?thesis
      by (auto simp: crfs_open_def took_file_def split: option.splits if_splits dest!: files_create)
  qed
qed

text \<open>Reading and writing move the offset of one open file and close none.\<close>

definition kept_open :: "crfs_file list \<Rightarrow> crfs_file list \<Rightarrow> bool" where
  "kept_open old new \<longleftrightarrow> map in_use new = map in_use old"

lemma kept_open_update: "in_use f = in_use (old ! i) \<Longrightarrow> kept_open old (old[i := f])"
  by (simp add: kept_open_def map_update list_update_same_conv)
    (metis length_map list_update_beyond list_update_id map_update not_le)

lemma crfs_read_files: "kept_open (files s) (files (fst (crfs_read dev s now fd n)))"
  by (auto simp: crfs_read_def Let_def split: option.split intro!: kept_open_update) (simp_all add: kept_open_def)

lemma files_free_block [simp]: "files (crfs_free_block s a) = files s"
  by (simp add: crfs_free_block_def Let_def)

lemma files_write_chunk: "write_chunk dev s p pos bytes = Some s' \<Longrightarrow> files s' = files s"
  by (auto simp: write_chunk_def Let_def split: prod.splits option.splits if_splits dest!: files_alloc_block)

lemma files_write_loop: "write_loop dev s p pos data = Some s' \<Longrightarrow> files s' = files s"
proof (induction data arbitrary: s pos rule: length_induct)
  case (1 data)
  let ?n = "min (CRFS_BLOCK_SIZE - unat (pos AND 4095)) (length data)"
  show ?case
  proof (cases "data = []")
    case True
    with "1.prems" show ?thesis by (simp add: write_loop.simps)
  next
    case False
    then have l: "length (drop ?n data) < length data" using block_off_less [of pos] by simp
    from "1.prems" False obtain s1 where s1: "write_chunk dev s p pos (take ?n data) = Some s1"
      "write_loop dev s1 p (pos + of_nat ?n) (drop ?n data) = Some s'"
      by (subst (asm) write_loop.simps) (auto simp: Let_def split: option.splits)
    with "1.IH" l have "files s' = files s1" by blast
    with files_write_chunk [OF s1(1)] show ?thesis by simp
  qed
qed

lemma crfs_write_files: "crfs_write dev s now fd data = Some (s', r) \<Longrightarrow> kept_open (files s) (files s')"
  by (auto simp: crfs_write_def finish_write_frame(4) Let_def split: option.splits if_splits dest!: files_write_loop intro!: kept_open_update)
    (simp_all add: kept_open_def)

lemma crfs_close_files:
  "files (crfs_close dev s fd) = files s \<or> (0 \<le> fd \<and> (\<exists>f. files (crfs_close dev s fd) = (files s)[nat fd := f]))"
  by (auto simp: crfs_close_def Let_def split: option.split)

section \<open>The interface to the open files below\<close>

text \<open>
  What the descriptor table relies on: the layer below keeps a set of open files, opening adds one
  that was not there, reading and writing keep the set, closing takes away one file at most.  The
  clients of the interface hold an injective table of such files.
\<close>

locale open_files =
  fixes wf :: "'s \<Rightarrow> bool" and opened :: "'s \<Rightarrow> nat set"
    and openf :: "'a \<Rightarrow> 's \<Rightarrow> ('s \<times> int) option" and keepf :: "'b \<Rightarrow> 's \<Rightarrow> 's option" and closef :: "nat \<Rightarrow> 's \<Rightarrow> 's"
  assumes open_new: "wf s \<Longrightarrow> openf a s = Some (s', r) \<Longrightarrow>
      wf s' \<and> (if r < 0 then opened s' = opened s else nat r \<notin> opened s \<and> opened s' = insert (nat r) (opened s))"
    and keep_open: "wf s \<Longrightarrow> keepf b s = Some s' \<Longrightarrow> wf s' \<and> opened s' = opened s"
    and close_one: "wf s \<Longrightarrow> wf (closef n s) \<and> opened s - {n} \<subseteq> opened (closef n s)"
begin

definition holds :: "(nat \<rightharpoonup> nat) \<Rightarrow> 's \<Rightarrow> bool" where
  "holds t s \<longleftrightarrow> wf s \<and> inj_on t (dom t) \<and> ran t \<subseteq> opened s"

lemma holds_empty: "wf s \<Longrightarrow> holds Map.empty s"
  by (simp add: holds_def)

lemma holds_keep: "holds t s \<Longrightarrow> keepf b s = Some s' \<Longrightarrow> holds t s'"
  using keep_open by (auto simp: holds_def)

lemma holds_open_failed: "holds t s \<Longrightarrow> openf a s = Some (s', r) \<Longrightarrow> r < 0 \<Longrightarrow> holds t s'"
  using open_new [of s a s' r] by (simp add: holds_def)

lemma holds_open:
  assumes "holds t s" and "openf a s = Some (s', r)" and "0 \<le> r" and "t i = None"
  shows "holds (t(i \<mapsto> nat r)) s'"
proof -
  from assms open_new [of s a s' r] have n: "nat r \<notin> opened s" "opened s' = insert (nat r) (opened s)" "wf s'"
    by (auto simp: holds_def)
  with assms(1) have "nat r \<notin> ran t" by (auto simp: holds_def)
  with assms n show ?thesis by (auto simp: holds_def inj_on_def ran_def split: if_splits)
qed

lemma holds_close:
  assumes "holds t s" and "t i = Some n"
  shows "holds (t(i := None)) (closef n s)"
proof -
  have "n \<notin> ran (t(i := None))"
    using assms by (auto simp: holds_def ran_def inj_on_def split: if_splits) (metis domI)
  moreover have "ran (t(i := None)) \<subseteq> ran t" by (auto simp: ran_def split: if_splits)
  moreover have "inj_on (t(i := None)) (dom (t(i := None)))" using assms(1) by (auto simp: holds_def inj_on_def)
  ultimately show ?thesis using assms(1) close_one [of s n] by (auto simp: holds_def)
qed

end

definition files_wf :: "'d crfs \<Rightarrow> bool" where "files_wf c \<longleftrightarrow> length (files c) = CRFS_MAX_OPEN"

definition open_set :: "'d crfs \<Rightarrow> nat set" where
  "open_set c = {i. i < length (files c) \<and> in_use (files c ! i)}"

datatype transfer = Rd u64 int u64 | Wr u64 int "u8 list"

fun do_transfer :: "'d block_device \<Rightarrow> transfer \<Rightarrow> 'd crfs \<Rightarrow> 'd crfs option" where
  "do_transfer dev (Rd now fd n) c = Some (fst (crfs_read dev c now fd n))"
| "do_transfer dev (Wr now fd data) c = map_option fst (crfs_write dev c now fd data)"

lemma kept_open_set:
  assumes "kept_open (files c) (files c')"
  shows "length (files c') = length (files c)" "open_set c' = open_set c"
proof -
  show l: "length (files c') = length (files c)" using assms by (metis kept_open_def length_map)
  have "in_use (files c' ! i) = in_use (files c ! i)" if "i < length (files c)" for i
    using assms that l by (metis kept_open_def nth_map)
  with l show "open_set c' = open_set c" by (auto simp: open_set_def)
qed

interpretation crfsf: open_files files_wf open_set
  "\<lambda>(path, fl, us, now) c. crfs_open dev c path fl 420 us now" "do_transfer dev" "\<lambda>n c. crfs_close dev c (int n)"
proof unfold_locales
  fix c :: "'a crfs" and a c' r
  assume w: "files_wf c" and o: "(case a of (path, fl, us, now) \<Rightarrow> \<lambda>c. crfs_open dev c path fl 420 us now) c = Some (c', r)"
  then have t: "took_file (files c) (files c') r" by (auto split: prod.splits dest: crfs_open_files)
  show "files_wf c' \<and> (if r < 0 then open_set c' = open_set c else nat r \<notin> open_set c \<and> open_set c' = insert (nat r) (open_set c))"
  proof (cases "r < 0")
    case True
    with t w show ?thesis by (simp add: took_file_def files_wf_def open_set_def)
  next
    case False
    with t obtain f where "nat r < CRFS_MAX_OPEN" "\<not> in_use (files c ! nat r)" "in_use f" "files c' = (files c)[nat r := f]"
      by (auto simp: took_file_def)
    with w False show ?thesis by (auto simp: files_wf_def open_set_def nth_list_update split: if_splits)
  qed
next
  fix c :: "'a crfs" and b c'
  assume w: "files_wf c" and "do_transfer dev b c = Some c'"
  then have "kept_open (files c) (files c')"
    by (cases b) (auto simp: crfs_read_files dest: crfs_write_files)
  from kept_open_set [OF this] w show "files_wf c' \<and> open_set c' = open_set c" by (simp add: files_wf_def)
next
  fix c :: "'a crfs" and n
  assume "files_wf c"
  with crfs_close_files [of dev c "int n"]
  show "files_wf (crfs_close dev c (int n)) \<and> open_set c - {n} \<subseteq> open_set (crfs_close dev c (int n))"
    by (auto simp: files_wf_def open_set_def)
qed

section \<open>The descriptor table as a client\<close>

lemma nth_list_update': "xs[i := x] ! j = (if i = j \<and> j < length xs then x else xs ! j)"
  by (cases "i < length xs") (auto simp: nth_list_update list_update_beyond not_less)

definition fd_map :: "'d vfs \<Rightarrow> nat \<rightharpoonup> nat" where
  "fd_map v i = (if i < length (fd_table v) \<and> valid (fd_table v ! i) then Some (unat (node (fd_table v ! i))) else None)"

definition vfs_ok :: "'d vfs \<Rightarrow> bool" where
  "vfs_ok v \<longleftrightarrow> length (fd_table v) = FS_MAX_OPEN \<and> dom (fd_map v) \<subseteq> {3..<FS_MAX_OPEN} \<and> crfsf.holds (fd_map v) (fs v)"

datatype vfs_op =
    Open "u8 list option" u32
  | Close int
  | Read int u64
  | Write int "u8 list option"
  | Seek int int int

fun vfs_step :: "'d block_device \<Rightarrow> u64 \<times> u64 \<Rightarrow> vfs_op \<Rightarrow> 'd vfs \<Rightarrow> 'd vfs option" where
  "vfs_step dev (us, now) (Open path fl) v = map_option fst (fs_open dev v path fl us now)"
| "vfs_step dev (us, now) (Close fd) v = Some (fs_close dev v fd)"
| "vfs_step dev (us, now) (Read fd n) v = Some (fst (fs_read dev v now fd n))"
| "vfs_step dev (us, now) (Write fd buf) v = map_option fst (fs_write dev v now fd buf)"
| "vfs_step dev (us, now) (Seek fd off whence) v = Some (fst (fs_lseek v fd off whence))"

fun vfs_run :: "'d block_device \<Rightarrow> ((u64 \<times> u64) \<times> vfs_op) list \<Rightarrow> 'd vfs \<Rightarrow> 'd vfs option" where
  "vfs_run dev [] v = Some v"
| "vfs_run dev ((t, a) # as) v = (case vfs_step dev t a v of None \<Rightarrow> None | Some v1 \<Rightarrow> vfs_run dev as v1)"

lemma upd_fd_sel [simp]: "fs (upd_fd v i f) = fs v" "vfs_initialized (upd_fd v i f) = vfs_initialized v"
    "length (fd_table (upd_fd v i f)) = length (fd_table v)"
  by (simp_all add: upd_fd_def)

lemma fd_map_fs [simp]: "fd_map (v\<lparr>fs := c\<rparr>) = fd_map v"
  by (simp add: fd_map_def fun_eq_iff)

lemma fd_map_same: "valid (f e) = valid e \<and> node (f e) = node e \<Longrightarrow> e = fd_table v ! i \<Longrightarrow> fd_map (upd_fd v i f) = fd_map v"
  by (cases "i < length (fd_table v)") (auto simp: fd_map_def upd_fd_def fun_eq_iff nth_list_update)

lemma fd_map_take:
  "i < length (fd_table v) \<Longrightarrow> valid (f (fd_table v ! i)) \<Longrightarrow>
     fd_map (upd_fd v i f) = (fd_map v)(i \<mapsto> unat (node (f (fd_table v ! i))))"
  by (auto simp: fd_map_def upd_fd_def fun_eq_iff nth_list_update)

lemma fd_map_drop: "\<not> valid (f (fd_table v ! i)) \<Longrightarrow> fd_map (upd_fd v i f) = (fd_map v)(i := None)"
  by (auto simp: fd_map_def upd_fd_def fun_eq_iff nth_list_update not_less)

lemma upd_fd_upd_fd: "i < length (fd_table v) \<Longrightarrow> upd_fd (upd_fd v i f) i g = upd_fd v i (\<lambda>e. g (f e))"
  by (simp add: upd_fd_def)

lemma upd_fd_fs: "(upd_fd v i f)\<lparr>fs := c\<rparr> = upd_fd (v\<lparr>fs := c\<rparr>) i f"
  by (simp add: upd_fd_def)

lemma alloc_fd_Some:
  assumes "alloc_fd v = (v1, fd)" and "0 \<le> fd" and "length (fd_table v) = FS_MAX_OPEN"
  shows "v1 = upd_fd v (nat fd) (\<lambda>e. e\<lparr>valid := True, offset := 0\<rparr>)" "3 \<le> nat fd" "nat fd < FS_MAX_OPEN" "fd_map v (nat fd) = None"
proof -
  from assms obtain i where i: "first_slot (\<lambda>i. \<not> valid (fd_table v ! i)) 3 (FS_MAX_OPEN - 3) = Some i" "fd = int i"
    "v1 = upd_fd v i (\<lambda>e. e\<lparr>valid := True, offset := 0\<rparr>)"
    by (auto simp: alloc_fd_def split: option.splits)
  from first_slot_Some [OF i(1)] i(2,3)
  show "v1 = upd_fd v (nat fd) (\<lambda>e. e\<lparr>valid := True, offset := 0\<rparr>)" "3 \<le> nat fd" "nat fd < FS_MAX_OPEN" "fd_map v (nat fd) = None"
    by (auto simp: fd_map_def FS_MAX_OPEN_def)
qed

lemma alloc_fd_None: "alloc_fd v = (v1, fd) \<Longrightarrow> fd < 0 \<Longrightarrow> v1 = v"
  by (auto simp: alloc_fd_def split: option.splits)

lemma open_set_bound: "files_wf c \<Longrightarrow> n \<in> open_set c \<Longrightarrow> n < CRFS_MAX_OPEN"
  by (auto simp: files_wf_def open_set_def)

text \<open>The cast to a pointer and back is the identity on the descriptors of the file system.\<close>

lemma node_cast: "r < int CRFS_MAX_OPEN \<Longrightarrow> 0 \<le> r \<Longrightarrow> unat (word_of_int r :: u64) = nat r"
  by (simp add: unat_eq_nat_uint uint_word_of_int CRFS_MAX_OPEN_def)

lemma crfs_fd_node:
  assumes "unat (node (fd_table v ! nat fd)) < CRFS_MAX_OPEN"
  shows "crfs_fd v fd = int (unat (node (fd_table v ! nat fd)))"
proof -
  let ?w = "node (fd_table v ! nat fd)"
  have "uint ?w < 1024" using assms unfolding CRFS_MAX_OPEN_def uint_nat by linarith
  then have "uint (ucast ?w :: u32) = uint ?w" "uint ?w < 2 ^ 31" by (simp_all add: unsigned_ucast_eq take_bit_int_eq_self)
  moreover from this(2) have "signed_take_bit 31 (uint ?w) = uint ?w"
    by (intro signed_take_bit_int_eq_self) (simp_all add: order_trans [OF _ uint_ge_0])
  ultimately show ?thesis by (simp add: crfs_fd_def sint_uint)
qed

lemma vfs_ok_fd:
  assumes "vfs_ok v" and "valid_fd v fd"
  shows "fd_map v (nat fd) = Some (unat (node (fd_table v ! nat fd)))" "crfs_fd v fd = int (unat (node (fd_table v ! nat fd)))"
    "nat fd < FS_MAX_OPEN"
proof -
  show n: "nat fd < FS_MAX_OPEN" using assms(2) by (simp add: valid_fd_def nat_less_iff)
  with assms show m: "fd_map v (nat fd) = Some (unat (node (fd_table v ! nat fd)))"
    by (simp add: fd_map_def vfs_ok_def valid_fd_def)
  with assms(1) have "unat (node (fd_table v ! nat fd)) \<in> open_set (fs v)" "files_wf (fs v)"
    by (auto simp: vfs_ok_def crfsf.holds_def intro: ranI)
  then show "crfs_fd v fd = int (unat (node (fd_table v ! nat fd)))"
    by (blast intro: crfs_fd_node open_set_bound)
qed

lemma vfs_ok_init: "files_wf (fs v) \<Longrightarrow> vfs_ok (fst (fs_init v))"
proof -
  assume "files_wf (fs v)"
  moreover have "fd_map (fst (fs_init v)) = Map.empty" by (auto simp: fd_map_def fs_init_def fun_eq_iff)
  moreover have "fs (fst (fs_init v)) = fs v" "length (fd_table (fst (fs_init v))) = FS_MAX_OPEN" by (simp_all add: fs_init_def)
  ultimately show ?thesis by (simp add: vfs_ok_def crfsf.holds_empty)
qed

lemma vfs_ok_open: "vfs_ok v \<Longrightarrow> fs_open dev v path fl us now = Some (v', r) \<Longrightarrow> vfs_ok v'"
proof -
  assume ok: "vfs_ok v" and o: "fs_open dev v path fl us now = Some (v', r)"
  show ?thesis
  proof (cases "path = None \<or> \<not> vfs_initialized v \<or> snd (alloc_fd v) < 0")
    case True
    with ok o show ?thesis by (auto simp: fs_open_def alloc_fd_None split: option.splits prod.splits if_splits dest: alloc_fd_None)
  next
    case False
    then obtain pth v1 fd where p: "path = Some pth" "vfs_initialized v" and a: "alloc_fd v = (v1, fd)" "0 \<le> fd"
      by (cases "alloc_fd v") auto
    have l: "length (fd_table v) = FS_MAX_OPEN" using ok by (simp add: vfs_ok_def)
    note al = alloc_fd_Some [OF a l]
    from o p a al(1) obtain c k where c: "crfs_open dev (fs v) pth (crfs_flags fl) 420 us now = Some (c, k)"
      and v': "v' = (if k < 0 then free_fd (v1\<lparr>fs := c\<rparr>) fd
         else upd_fd (v1\<lparr>fs := c\<rparr>) (nat fd) (\<lambda>e. e\<lparr>flags := fl, offset := 0, node := word_of_int k\<rparr>))"
      by (auto simp: fs_open_def split: option.splits if_splits)
    let ?a = "(pth, crfs_flags fl, us, now)"
    show ?thesis
    proof (cases "k < 0")
      case True
      have "fd_map v' = fd_map v"
        using True v' al a(2) l by (auto simp: free_fd_def upd_fd_fs upd_fd_upd_fd fd_map_drop FS_MAX_OPEN_def)
      moreover have "crfsf.holds (fd_map v) c" using crfsf.holds_open_failed [of "fd_map v" "fs v" dev ?a c k] c True ok by (simp add: vfs_ok_def)
      ultimately show ?thesis using ok v' True al(1) by (simp add: vfs_ok_def free_fd_def)
    next
      case False
      have h: "crfsf.holds ((fd_map v)(nat fd \<mapsto> nat k)) c"
        using crfsf.holds_open [of "fd_map v" "fs v" dev ?a c k "nat fd"] c False ok al(4) by (simp add: vfs_ok_def)
      moreover have "nat k \<in> ran ((fd_map v)(nat fd \<mapsto> nat k))" by (rule ranI [of _ "nat fd"]) simp
      ultimately have "nat k < CRFS_MAX_OPEN" by (intro open_set_bound [of c]) (auto simp: crfsf.holds_def)
      then have "unat (word_of_int k :: u64) = nat k" using False by (intro node_cast) (simp_all add: zless_nat_eq_int_zless)
      then have "fd_map v' = (fd_map v)(nat fd \<mapsto> nat k)"
        using False v' al(1,3) l by (simp add: upd_fd_fs upd_fd_upd_fd fd_map_take)
      then show ?thesis using ok v' False al h by (simp add: vfs_ok_def)
    qed
  qed
qed

lemma vfs_ok_close: "vfs_ok v \<Longrightarrow> vfs_ok (fs_close dev v fd)"
proof -
  assume ok: "vfs_ok v"
  show ?thesis
  proof (cases "vfs_initialized v \<and> valid_fd v fd")
    case True
    note f = vfs_ok_fd [OF ok conjunct2 [OF True]]
    have "crfsf.holds ((fd_map v)(nat fd := None)) (crfs_close dev (fs v) (crfs_fd v fd))"
      unfolding f(2) using ok by (intro crfsf.holds_close f(1)) (simp add: vfs_ok_def)
    moreover have "0 \<le> fd \<and> fd < int FS_MAX_OPEN" using True by (simp add: valid_fd_def)
    ultimately show ?thesis using ok True
      by (auto simp: vfs_ok_def fs_close_def free_fd_def fd_map_drop)
  qed (use ok in \<open>auto simp: fs_close_def\<close>)
qed

lemma vfs_ok_transfer:
  assumes "vfs_ok v" and "do_transfer dev b (fs v) = Some c" and "v1 = v\<lparr>fs := c\<rparr>"
  shows "vfs_ok v1" "vfs_ok (upd_fd v1 i (\<lambda>e. e\<lparr>offset := g e\<rparr>))"
  using assms crfsf.holds_keep [of "fd_map v" "fs v" dev b c] by (simp_all add: vfs_ok_def fd_map_same)

lemma vfs_ok_step: "vfs_ok v \<Longrightarrow> vfs_step dev t a v = Some v' \<Longrightarrow> vfs_ok v'"
proof (induction dev t a v rule: vfs_step.induct)
  case (3 dev us now fd n v)
  then show ?case using vfs_ok_transfer [OF "3.prems"(1), of dev "Rd now (crfs_fd v fd) n"]
    by (auto simp: fs_read_def Let_def split: prod.splits if_splits)
next
  case (4 dev us now fd buf v)
  then show ?case using vfs_ok_transfer [OF "4.prems"(1), of dev "Wr now (crfs_fd v fd) (the buf)"]
    by (auto simp: fs_write_def Let_def split: prod.splits if_splits option.splits)
next
  case (5 dev us now fd off whence v)
  then show ?case by (auto simp: fs_lseek_def Let_def vfs_ok_def fd_map_same split: if_splits)
qed (auto simp: vfs_ok_close dest: vfs_ok_open)

lemma vfs_ok_run: "vfs_ok v \<Longrightarrow> vfs_run dev as v = Some v' \<Longrightarrow> vfs_ok v'"
  by (induction dev as v rule: vfs_run.induct) (auto split: option.splits dest: vfs_ok_step)

text \<open>
  C11: Descriptors are private.  After \<open>fs_init\<close> and any series of opens, closes, reads, writes and
  seeks, whatever their arguments, the valid descriptors lie between 3 and 255, each stands for an open
  file of CrimsonFS, and no two of them for the same one: the cast of the file system's descriptor to a
  pointer and back loses nothing, and no close takes away the file of another descriptor.
\<close>

theorem vfs_descriptors_private:
  assumes "length (files (fs v)) = CRFS_MAX_OPEN" and "vfs_run dev as (fst (fs_init v)) = Some v'"
  shows "dom (fd_map v') \<subseteq> {3..<FS_MAX_OPEN} \<and> inj_on (fd_map v') (dom (fd_map v'))
    \<and> (\<forall>i n. fd_map v' i = Some n \<longrightarrow> n < CRFS_MAX_OPEN \<and> in_use (files (fs v') ! n) \<and> crfs_fd v' (int i) = int n)"
proof -
  have "vfs_ok v'" using assms(1) by (intro vfs_ok_run [OF vfs_ok_init assms(2)]) (simp add: files_wf_def)
  moreover have "n < CRFS_MAX_OPEN \<and> in_use (files (fs v') ! n) \<and> crfs_fd v' (int i) = int n" if "fd_map v' i = Some n" for i n
  proof -
    have "n \<in> open_set (fs v')" "files_wf (fs v')" using that \<open>vfs_ok v'\<close> by (auto simp: vfs_ok_def crfsf.holds_def intro: ranI)
    moreover from open_set_bound [OF this(2,1)] that have "crfs_fd v' (int i) = int n"
      using crfs_fd_node [of v' "int i"] by (auto simp: fd_map_def split: if_splits)
    ultimately show ?thesis by (auto simp: open_set_def files_wf_def)
  qed
  ultimately show ?thesis by (simp add: vfs_ok_def crfsf.holds_def)
qed

definition demo_vfs :: "(nat \<Rightarrow> u8) vfs" where
  "demo_vfs = \<lparr>fd_table = [], vfs_initialized = False, fs = demo_fs\<lparr>mounted := False\<rparr>\<rparr>"

theorem vfs_descriptors_private_witness:
  "\<exists>v'. vfs_run (ram_disk 4096) [((1, 2), Read 3 10), ((2, 3), Open (Some [0x2F, 0x61]) 2), ((3, 4), Close 3)]
      (fst (fs_init demo_vfs)) = Some v' \<and> dom (fd_map v') \<subseteq> {3..<FS_MAX_OPEN} \<and> inj_on (fd_map v') (dom (fd_map v'))"
proof -
  let ?as = "[((1, 2), Read 3 10), ((2, 3), Open (Some [0x2F, 0x61]) 2), ((3, 4), Close 3)]"
  have "alloc_fd (fst (fs_init demo_vfs)) = (upd_fd (fst (fs_init demo_vfs)) 3 (\<lambda>e. e\<lparr>valid := True, offset := 0\<rparr>), 3)"
  proof -
    have "(3 :: nat) < FS_MAX_OPEN" by (simp add: FS_MAX_OPEN_def)
    then have "first_slot (\<lambda>i. \<not> valid (fd_table (fst (fs_init demo_vfs)) ! i)) 3 (FS_MAX_OPEN - 3) = Some 3"
      by (intro first_slot_eqI) (simp_all add: fs_init_def)
    then show ?thesis by (simp add: alloc_fd_def)
  qed
  moreover have "vfs_initialized (fst (fs_init demo_vfs))" "\<not> valid_fd (fst (fs_init demo_vfs)) 3"
    "fs (fst (fs_init demo_vfs)) = demo_fs\<lparr>mounted := False\<rparr>"
    by (simp_all add: fs_init_def valid_fd_def FS_MAX_OPEN_def demo_vfs_def)
  ultimately have "\<exists>v'. vfs_run (ram_disk 4096) ?as (fst (fs_init demo_vfs)) = Some v'"
    by (auto simp: fs_read_def fs_open_def crfs_open_def Let_def)
  moreover have "length (files (fs demo_vfs)) = CRFS_MAX_OPEN" by (simp add: demo_vfs_def demo_fs_def CRFS_MAX_OPEN_def)
  ultimately show ?thesis using vfs_descriptors_private [of demo_vfs "ram_disk 4096" ?as] by blast
qed

text \<open>
  \<open>fs_lseek\<close> moves the offset of the descriptor table only: reads and writes use the offset that
  CrimsonFS keeps for the file, so the data and the count of a read are the same with and without a seek.
\<close>

theorem lseek_ignored:
  "snd (fs_read dev (fst (fs_lseek v fd off whence)) now fd n) = snd (fs_read dev v now fd n)
   \<and> map_option snd (fs_write dev (fst (fs_lseek v fd off whence)) now fd buf) = map_option snd (fs_write dev v now fd buf)"
proof -
  have e: "valid (fd_table (upd_fd v i (\<lambda>e. e\<lparr>offset := g e\<rparr>)) ! j) = valid (fd_table v ! j)"
    "node (fd_table (upd_fd v i (\<lambda>e. e\<lparr>offset := g e\<rparr>)) ! j) = node (fd_table v ! j)" for i j g
    by (simp_all add: upd_fd_def nth_list_update')
  have f: "valid_fd (fst (fs_lseek v fd off whence)) fd = valid_fd v fd" "crfs_fd (fst (fs_lseek v fd off whence)) fd = crfs_fd v fd"
    "fs (fst (fs_lseek v fd off whence)) = fs v" "vfs_initialized (fst (fs_lseek v fd off whence)) = vfs_initialized v"
    by (simp_all add: fs_lseek_def valid_fd_def crfs_fd_def Let_def e)
  show ?thesis
    unfolding fs_read_def fs_write_def f
    by (simp add: Let_def split: prod.split option.split)
qed

end
