(* ===== verification/NetCore.thy ===== *)
theory NetCore
  imports Disk
begin

text \<open>
  The network stack (net.c), first part: the static tables, byte order, the Internet checksum, the
  ARP cache, and the building of frames.  A received packet is the memory from its first byte on, so
  that the reads of the code beyond the end of a packet are reads of that memory; a frame that the
  stack sends is a list of bytes, handed to the \<open>transmit\<close> function of the driver, which the model
  records in \<open>sent\<close>.  An interface is named by its address.  \<open>grants\<close> says which of the calls of \<open>kmalloc\<close>
  succeed.  Code that runs with a lock held is one step.
\<close>

section \<open>Tables\<close>

record net_if =
  mac :: "u8 list"
  ip_addr :: u32
  netmask :: u32
  gateway :: u32
  dns1 :: u32
  rx_bytes :: u64
  tx_bytes :: u64
  rx_packets :: u64
  tx_packets :: u64
  rx_errors :: u64

record arp_entry =
  arp_ip :: u32
  arp_mac :: "u8 list"
  arp_time :: u64
  arp_valid :: bool

record ip_frag =
  fr_src :: u32
  fr_dst :: u32
  fr_id :: u16
  fr_proto :: u8
  fr_buf :: "u8 list"
  fr_received :: u16
  fr_total :: u16
  fr_time :: u64
  fr_active :: bool

datatype tcp_state =
    TCP_CLOSED | TCP_LISTEN | TCP_SYN_SENT | TCP_SYN_RECEIVED | TCP_ESTABLISHED | TCP_FIN_WAIT_1
  | TCP_FIN_WAIT_2 | TCP_CLOSE_WAIT | TCP_CLOSING | TCP_LAST_ACK | TCP_TIME_WAIT

record tcp_cc =
  cwnd :: u32
  ssthresh :: u32
  flight_size :: u32
  dup_acks :: u32
  rto :: u32
  rtt_sum :: u64
  rtt_count :: u32

record tcp_socket =
  local_ip :: u32
  local_port :: u16
  remote_ip :: u32
  remote_port :: u16
  tstate :: tcp_state
  snd_una :: u32
  snd_nxt :: u32
  snd_wnd :: u32
  rcv_nxt :: u32
  rcv_wnd :: u32
  iss :: u32
  irs :: u32
  rx_buf :: "u8 list option"
  rx_head :: nat
  rx_tail :: nat
  rx_count :: u32
  tx_buf :: "u8 list option"
  tx_head :: nat
  tx_tail :: nat
  tx_count :: u32
  cc :: tcp_cc
  last_activity :: u64
  keepalive_probes :: u32
  mss :: u32
  in_use :: bool

record dns_query =
  q_id :: u16
  result_ip :: u32
  q_time :: u64
  resolved :: bool
  q_in_use :: bool

record net =
  arp_cache :: "arp_entry list"
  ip_frags :: "ip_frag list"
  tcp_sockets :: "tcp_socket list"
  next_ephemeral_port :: u16
  net_ifs :: "nat list"
  ifs :: "nat \<Rightarrow> net_if"
  dhcp_state :: u32
  dhcp_xid :: u32
  dns_queries :: "dns_query list"
  dns_next_id :: u16
  sent :: "(nat \<times> u8 list) list"
  grants :: "nat \<Rightarrow> bool"
  calls :: nat

definition ARP_CACHE_SIZE :: nat where "ARP_CACHE_SIZE = 64"
definition MAX_IP_FRAGS :: nat where "MAX_IP_FRAGS = 16"
definition TCP_MAX_SOCKETS :: nat where "TCP_MAX_SOCKETS = 256"
definition MAX_NET_IFS :: nat where "MAX_NET_IFS = 8"
definition DNS_MAX_QUERIES :: nat where "DNS_MAX_QUERIES = 32"

definition zero_cc :: tcp_cc where
  "zero_cc = \<lparr>cwnd = 0, ssthresh = 0, flight_size = 0, dup_acks = 0, rto = 0, rtt_sum = 0, rtt_count = 0\<rparr>"

definition zero_socket :: tcp_socket where
  "zero_socket = \<lparr>local_ip = 0, local_port = 0, remote_ip = 0, remote_port = 0, tstate = TCP_CLOSED, snd_una = 0,
     snd_nxt = 0, snd_wnd = 0, rcv_nxt = 0, rcv_wnd = 0, iss = 0, irs = 0, rx_buf = None, rx_head = 0, rx_tail = 0,
     rx_count = 0, tx_buf = None, tx_head = 0, tx_tail = 0, tx_count = 0, cc = zero_cc, last_activity = 0,
     keepalive_probes = 0, mss = 0, in_use = False\<rparr>"

definition net_init :: "net \<Rightarrow> net" where
  "net_init s = s\<lparr>
     arp_cache := replicate ARP_CACHE_SIZE \<lparr>arp_ip = 0, arp_mac = replicate 6 0, arp_time = 0, arp_valid = False\<rparr>,
     tcp_sockets := replicate TCP_MAX_SOCKETS zero_socket,
     ip_frags := replicate MAX_IP_FRAGS \<lparr>fr_src = 0, fr_dst = 0, fr_id = 0, fr_proto = 0, fr_buf = replicate 65536 0,
       fr_received = 0, fr_total = 0, fr_time = 0, fr_active = False\<rparr>,
     dns_queries := replicate DNS_MAX_QUERIES \<lparr>q_id = 0, result_ip = 0, q_time = 0, resolved = False, q_in_use = False\<rparr>\<rparr>"

definition net_register_if :: "net \<Rightarrow> nat \<Rightarrow> net" where
  "net_register_if s d = (if MAX_NET_IFS \<le> length (net_ifs s) then s else s\<lparr>net_ifs := net_ifs s @ [d]\<rparr>)"

definition upd_if :: "net \<Rightarrow> nat \<Rightarrow> (net_if \<Rightarrow> net_if) \<Rightarrow> net" where
  "upd_if s d f = s\<lparr>ifs := (ifs s)(d := f (ifs s d))\<rparr>"

definition transmit :: "net \<Rightarrow> nat \<Rightarrow> u8 list \<Rightarrow> net" where
  "transmit s d frame = s\<lparr>sent := sent s @ [(d, frame)]\<rparr>"

definition net_kmalloc :: "net \<Rightarrow> net \<times> bool" where
  "net_kmalloc s = (s\<lparr>calls := Suc (calls s)\<rparr>, grants s (calls s))"

section \<open>Byte order\<close>

unbundle bit_operations_syntax

definition htons :: "u16 \<Rightarrow> u16" where
  "htons v = push_bit 8 (v AND 0xFF) OR (drop_bit 8 v AND 0xFF)"

definition ntohs :: "u16 \<Rightarrow> u16" where
  "ntohs v = htons v"

definition htonl :: "u32 \<Rightarrow> u32" where
  "htonl v = push_bit 24 (v AND 0xFF) OR push_bit 8 (v AND 0xFF00) OR (drop_bit 8 v AND 0xFF00) OR (drop_bit 24 v AND 0xFF)"

definition ntohl :: "u32 \<Rightarrow> u32" where
  "ntohl v = htonl v"

text \<open>Loads and stores of numbers in the byte order of the machine, which is little-endian.\<close>

definition ld16 :: "(nat \<Rightarrow> u8) \<Rightarrow> nat \<Rightarrow> u16" where
  "ld16 p a = of_nat (unle (map p [a..<a + 2]))"

definition ld32 :: "(nat \<Rightarrow> u8) \<Rightarrow> nat \<Rightarrow> u32" where
  "ld32 p a = of_nat (unle (map p [a..<a + 4]))"

definition st16 :: "u16 \<Rightarrow> u8 list" where
  "st16 w = le 2 (unat w)"

definition st32 :: "u32 \<Rightarrow> u8 list" where
  "st32 w = le 4 (unat w)"

text \<open>The memory that holds a list of bytes.\<close>

definition mem_of :: "u8 list \<Rightarrow> nat \<Rightarrow> u8" where
  "mem_of bs i = (if i < length bs then bs ! i else 0)"

section \<open>The Internet checksum\<close>

function sum16 :: "(nat \<Rightarrow> u8) \<Rightarrow> nat \<Rightarrow> nat \<Rightarrow> u32 \<Rightarrow> u32" where
  "sum16 p a len acc =
     (if 1 < len then sum16 p (a + 2) (len - 2) (acc + ucast (ld16 p a))
      else if len = 1 then acc + ucast (p a)
      else acc)"
  by pat_completeness auto
termination by (relation "measure (\<lambda>(p, a, len, acc). len)") auto

declare sum16.simps [simp del]

lemma unat_and_low:
  fixes v :: u32
  shows "unat (v AND 0xFFFF) = unat v mod 2 ^ 16"
proof -
  have "v AND 0xFFFF = take_bit 16 v" by (simp add: take_bit_eq_mask mask_eq_exp_minus_1)
  then show ?thesis by (metis unsigned_take_bit_eq take_bit_eq_mod)
qed

lemma unat_carry:
  fixes v :: u32
  shows "unat ((v AND 0xFFFF) + drop_bit 16 v) = unat v mod 2 ^ 16 + unat v div 2 ^ 16"
proof -
  have "unat v div 2 ^ 16 < 2 ^ 16" using unsigned_less [of v, where ?'a = nat] by (simp add: less_mult_imp_div_less)
  moreover have "unat (drop_bit 16 v) = unat v div 2 ^ 16" by (metis unat_drop_bit_eq drop_bit_eq_div)
  moreover have "unat v mod 2 ^ 16 < 2 ^ 16" by (rule mod_less_divisor) simp
  ultimately show ?thesis
    by (subst unat_add_small) (simp_all add: unat_and_low)
qed

function fold16 :: "u32 \<Rightarrow> u32" where
  "fold16 v = (if drop_bit 16 v \<noteq> 0 then fold16 ((v AND 0xFFFF) + drop_bit 16 v) else v)"
  by pat_completeness auto
termination
proof (relation "measure unat")
  fix v :: u32
  assume "drop_bit 16 v \<noteq> 0"
  then have "unat v div 2 ^ 16 \<noteq> 0" by (metis unat_drop_bit_eq drop_bit_eq_div unat_eq_zero)
  then have "0 < unat v div 65536" by simp
  with div_mult_mod_eq [of "unat v" 65536] have "unat v mod 65536 + unat v div 65536 < unat v" by linarith
  then show "((v AND 0xFFFF) + drop_bit 16 v, v) \<in> measure unat" using unat_carry [of v] by simp
qed simp

declare fold16.simps [simp del]

definition ip_checksum :: "(nat \<Rightarrow> u8) \<Rightarrow> nat \<Rightarrow> nat \<Rightarrow> u16" where
  "ip_checksum p a len = NOT (ucast (fold16 (sum16 p a len 0)))"

section \<open>Frames\<close>

definition ETH_P_IP :: u16 where "ETH_P_IP = 0x0800"
definition ETH_P_ARP :: u16 where "ETH_P_ARP = 0x0806"
definition ETH_P_VLAN :: u16 where "ETH_P_VLAN = 0x8100"
definition ETH_HDR_LEN :: nat where "ETH_HDR_LEN = 14"
definition ARP_REQUEST :: u16 where "ARP_REQUEST = 1"
definition ARP_REPLY :: u16 where "ARP_REPLY = 2"
definition IP_PROTO_ICMP :: u8 where "IP_PROTO_ICMP = 1"
definition IP_PROTO_TCP :: u8 where "IP_PROTO_TCP = 6"
definition IP_PROTO_UDP :: u8 where "IP_PROTO_UDP = 17"

definition eth_frame :: "u8 list \<Rightarrow> u8 list \<Rightarrow> u16 \<Rightarrow> u8 list" where
  "eth_frame dst src ty = dst @ src @ st16 (htons ty)"

definition arp_packet :: "u16 \<Rightarrow> u8 list \<Rightarrow> u32 \<Rightarrow> u8 list \<Rightarrow> u32 \<Rightarrow> u8 list" where
  "arp_packet op smac sip tmac tip =
     st16 (htons 1) @ st16 (htons ETH_P_IP) @ [6, 4] @ st16 (htons op) @ smac @ st32 sip @ tmac @ st32 tip"

definition ip_hdr_sum :: "u16 \<Rightarrow> u16 \<Rightarrow> u8 \<Rightarrow> u16 \<Rightarrow> u32 \<Rightarrow> u32 \<Rightarrow> u8 list" where
  "ip_hdr_sum len ident proto chk src dst =
     [0x45, 0] @ st16 (htons len) @ st16 ident @ st16 0 @ [64, proto] @ st16 chk @ st32 src @ st32 dst"

definition ip_hdr :: "u16 \<Rightarrow> u16 \<Rightarrow> u8 \<Rightarrow> u32 \<Rightarrow> u32 \<Rightarrow> u8 list" where
  "ip_hdr len ident proto src dst =
     ip_hdr_sum len ident proto (ip_checksum (mem_of (ip_hdr_sum len ident proto 0 src dst)) 0 20) src dst"

section \<open>The ARP cache\<close>

definition arp_request :: "net \<Rightarrow> nat \<Rightarrow> u32 \<Rightarrow> net" where
  "arp_request s d target =
     transmit s d (eth_frame (replicate 6 0xFF) (mac (ifs s d)) ETH_P_ARP
       @ arp_packet ARP_REQUEST (mac (ifs s d)) (ip_addr (ifs s d)) (replicate 6 0) target)"

text \<open>The entry that a reply goes to: the first of its address, else the first free one.\<close>

definition arp_slot :: "arp_entry list \<Rightarrow> u32 \<Rightarrow> nat option" where
  "arp_slot cs ip =
     (case first_slot (\<lambda>i. arp_ip (cs ! i) = ip) 0 ARP_CACHE_SIZE of
        Some i \<Rightarrow> Some i
      | None \<Rightarrow> first_slot (\<lambda>i. \<not> arp_valid (cs ! i)) 0 ARP_CACHE_SIZE)"

definition arp_rx :: "net \<Rightarrow> nat \<Rightarrow> (nat \<Rightarrow> u8) \<Rightarrow> u64 \<Rightarrow> net" where
  "arp_rx s d p now =
     (let op = ntohs (ld16 p 20); smac = map p [22..<28]; sip = ld32 p 28; tip = ld32 p 38 in
      if ntohs (ld16 p 14) \<noteq> 1 \<or> ntohs (ld16 p 16) \<noteq> ETH_P_IP then s
      else if op = ARP_REQUEST then
        (if tip = ip_addr (ifs s d)
         then transmit s d (eth_frame smac (mac (ifs s d)) ETH_P_ARP
                @ arp_packet ARP_REPLY (mac (ifs s d)) (ip_addr (ifs s d)) smac sip)
         else s)
      else if op = ARP_REPLY then
        (case arp_slot (arp_cache s) sip of
           None \<Rightarrow> s
         | Some i \<Rightarrow> s\<lparr>arp_cache := (arp_cache s)[i := \<lparr>arp_ip = sip, arp_mac = smac, arp_time = now, arp_valid = True\<rparr>]\<rparr>)
      else s)"

definition route :: "net_if \<Rightarrow> u32 \<Rightarrow> u32" where
  "route nif ip = (if ip AND netmask nif \<noteq> ip_addr nif AND netmask nif then gateway nif else ip)"

text \<open>\<open>None\<close>: the null pointer in \<open>net_ifs[0]\<close> is followed.\<close>

definition arp_lookup :: "net \<Rightarrow> u32 \<Rightarrow> (net \<times> u8 list option) option" where
  "arp_lookup s ip =
     (case net_ifs s of
        [] \<Rightarrow> None
      | d # _ \<Rightarrow>
          let ip' = route (ifs s d) ip
          in Some (case first_slot (\<lambda>i. arp_valid (arp_cache s ! i) \<and> arp_ip (arp_cache s ! i) = ip') 0 ARP_CACHE_SIZE of
                     Some i \<Rightarrow> (s, Some (arp_mac (arp_cache s ! i)))
                   | None \<Rightarrow> (arp_request s d ip', None)))"

section \<open>Sending a segment\<close>

definition TCP_FLAG_FIN :: u8 where "TCP_FLAG_FIN = 0x01"
definition TCP_FLAG_SYN :: u8 where "TCP_FLAG_SYN = 0x02"
definition TCP_FLAG_PSH :: u8 where "TCP_FLAG_PSH = 0x08"
definition TCP_FLAG_ACK :: u8 where "TCP_FLAG_ACK = 0x10"

definition sock :: "net \<Rightarrow> nat \<Rightarrow> tcp_socket" where
  "sock s i = tcp_sockets s ! i"

definition upd_sock :: "net \<Rightarrow> nat \<Rightarrow> (tcp_socket \<Rightarrow> tcp_socket) \<Rightarrow> net" where
  "upd_sock s i f = s\<lparr>tcp_sockets := (tcp_sockets s)[i := f (tcp_sockets s ! i)]\<rparr>"

definition tcp_hdr :: "tcp_socket \<Rightarrow> u8 \<Rightarrow> u8 list" where
  "tcp_hdr k fl =
     st16 (htons (local_port k)) @ st16 (htons (remote_port k)) @ st32 (htonl (snd_nxt k))
     @ st32 (if fl AND TCP_FLAG_ACK \<noteq> 0 then htonl (rcv_nxt k) else 0) @ [0x50, fl]
     @ st16 (htons (if 65535 < rcv_wnd k then 65535 else ucast (rcv_wnd k))) @ st16 0 @ st16 0"

definition tcp_frame :: "u8 list \<Rightarrow> u8 list \<Rightarrow> tcp_socket \<Rightarrow> u8 \<Rightarrow> u8 list \<Rightarrow> u8 list" where
  "tcp_frame dst src k fl data =
     eth_frame dst src ETH_P_IP @ ip_hdr (of_nat (40 + length data)) 0 IP_PROTO_TCP (local_ip k) (remote_ip k)
     @ tcp_hdr k fl @ data"

definition tcp_send_segment :: "net \<Rightarrow> nat \<Rightarrow> u8 \<Rightarrow> u8 list \<Rightarrow> net" where
  "tcp_send_segment s i fl data =
     (case net_ifs s of
        [] \<Rightarrow> s
      | d # _ \<Rightarrow>
          (case net_kmalloc s of
             (s1, False) \<Rightarrow> s1
           | (s1, True) \<Rightarrow>
               (case arp_lookup s1 (remote_ip (sock s i)) of
                  Some (s2, Some dst) \<Rightarrow>
                    let frame = tcp_frame dst (mac (ifs s d)) (sock s i) fl data;
                        s3 = upd_if (transmit s2 d frame) d
                               (\<lambda>n. n\<lparr>tx_packets := tx_packets n + 1, tx_bytes := tx_bytes n + of_nat (length frame)\<rparr>)
                    in upd_sock s3 i (\<lambda>k. k\<lparr>snd_nxt := snd_nxt k + of_nat (length data)\<rparr>)
                | Some (s2, None) \<Rightarrow> s2
                | None \<Rightarrow> s1)))"

end
