(* ===== verification/NetTcp.thy ===== *)
theory NetTcp
  imports NetCore
begin

text \<open>
  The network stack (net.c), second part: the sockets of TCP.  A socket has two ring buffers, the
  sequence numbers, the congestion window and a state; the calls of the socket interface and the segments
  that arrive move it.  While a call waits in \<open>scheduler_yield\<close> the rest of the system runs; its effect on
  the network state is the argument \<open>resume\<close>.  A call whose wait never ends is \<open>None\<close>, and so is one that
  writes through a null pointer.
\<close>

section \<open>Ring buffers\<close>

definition TCP_BUF_SIZE :: nat where "TCP_BUF_SIZE = 65536"
definition TCP_DEFAULT_WINDOW :: u32 where "TCP_DEFAULT_WINDOW = 65536"
definition TCP_MSS :: u32 where "TCP_MSS = 1460"

fun ring_put :: "u8 list \<Rightarrow> nat \<Rightarrow> u8 list \<Rightarrow> u8 list \<times> nat" where
  "ring_put b h [] = (b, h)"
| "ring_put b h (x # xs) = ring_put (b[h := x]) ((h + 1) mod TCP_BUF_SIZE) xs"

fun ring_get :: "u8 list \<Rightarrow> nat \<Rightarrow> nat \<Rightarrow> u8 list \<times> nat" where
  "ring_get b t 0 = ([], t)"
| "ring_get b t (Suc n) = (case ring_get b ((t + 1) mod TCP_BUF_SIZE) n of (xs, t') \<Rightarrow> (b ! t # xs, t'))"

definition ring_copy :: "u8 list \<Rightarrow> nat \<Rightarrow> nat \<Rightarrow> u8 list" where
  "ring_copy b t n = map (\<lambda>i. b ! ((t + i) mod TCP_BUF_SIZE)) [0..<n]"

section \<open>Creating and connecting\<close>

definition open_sock :: "net \<Rightarrow> int \<Rightarrow> bool" where
  "open_sock s fd \<longleftrightarrow> 0 \<le> fd \<and> fd < int TCP_MAX_SOCKETS \<and> in_use (sock s (nat fd))"

definition new_buf :: "net \<Rightarrow> net \<times> u8 list option" where
  "new_buf s = (case net_kmalloc s of (s', ok) \<Rightarrow> (s', if ok then Some (replicate TCP_BUF_SIZE 0) else None))"

text \<open>The contents of a new buffer are those of freed memory; no byte of it is read before it is written.\<close>

definition tcp_socket_create :: "net \<Rightarrow> net \<times> int" where
  "tcp_socket_create s =
     (case first_slot (\<lambda>i. \<not> in_use (sock s i)) 0 TCP_MAX_SOCKETS of
        None \<Rightarrow> (s, - 1)
      | Some i \<Rightarrow>
          let (s1, rx) = new_buf s; (s2, tx) = new_buf s1
          in (upd_sock s2 i (\<lambda>_. zero_socket\<lparr>rx_buf := rx, tx_buf := tx, rcv_wnd := TCP_DEFAULT_WINDOW, mss := TCP_MSS,
                in_use := True, cc := zero_cc\<lparr>cwnd := TCP_MSS, ssthresh := 65535, rto := 1000\<rparr>\<rparr>), int i))"

definition next_port :: "net \<Rightarrow> net \<times> u16" where
  "next_port s = (s\<lparr>next_ephemeral_port := next_ephemeral_port s + 1\<rparr>, next_ephemeral_port s)"

definition tcp_bind :: "net \<Rightarrow> int \<Rightarrow> u32 \<Rightarrow> u16 \<Rightarrow> net \<times> int" where
  "tcp_bind s fd ip port =
     (if \<not> open_sock s fd then (s, - 1)
      else let (s1, p) = (if port \<noteq> 0 then (s, port) else next_port s)
           in (upd_sock s1 (nat fd) (\<lambda>k. k\<lparr>local_ip := ip, local_port := p, tstate := TCP_CLOSED\<rparr>), 0))"

partial_function (option) wait_while :: "(net \<Rightarrow> net) \<Rightarrow> (net \<Rightarrow> bool) \<Rightarrow> net \<Rightarrow> net option" where
  "wait_while resume busy s = (if busy s then wait_while resume busy (resume s) else Some s)"

definition connect_start :: "net \<Rightarrow> nat \<Rightarrow> u32 \<Rightarrow> u16 \<Rightarrow> u64 \<Rightarrow> u64 \<Rightarrow> net" where
  "connect_start s i ip port us now =
     (let (s1, p) = next_port s
      in tcp_send_segment (upd_sock s1 i (\<lambda>k. k\<lparr>remote_ip := ip, remote_port := port, local_port := p, iss := ucast us,
           snd_una := ucast us, snd_nxt := ucast us + 1, tstate := TCP_SYN_SENT, last_activity := now\<rparr>)) i TCP_FLAG_SYN [])"

definition tcp_connect :: "(net \<Rightarrow> net) \<Rightarrow> net \<Rightarrow> int \<Rightarrow> u32 \<Rightarrow> u16 \<Rightarrow> u64 \<Rightarrow> u64 \<Rightarrow> (net \<times> int) option" where
  "tcp_connect resume s fd ip port us now =
     (if \<not> open_sock s fd then Some (s, - 1)
      else case wait_while resume (\<lambda>s. tstate (sock s (nat fd)) = TCP_SYN_SENT) (connect_start s (nat fd) ip port us now) of
             None \<Rightarrow> None
           | Some s1 \<Rightarrow> Some (s1, if tstate (sock s1 (nat fd)) = TCP_ESTABLISHED then 0 else - 1))"

definition tcp_listen :: "net \<Rightarrow> int \<Rightarrow> net \<times> int" where
  "tcp_listen s fd = (if \<not> open_sock s fd then (s, - 1) else (upd_sock s (nat fd) (\<lambda>k. k\<lparr>tstate := TCP_LISTEN\<rparr>), 0))"

text \<open>The result, and what is stored through the two pointers.\<close>

definition tcp_accept :: "(net \<Rightarrow> net) \<Rightarrow> net \<Rightarrow> int \<Rightarrow> (net \<times> int \<times> (u32 \<times> u16) option) option" where
  "tcp_accept resume s fd =
     (if \<not> open_sock s fd then Some (s, - 1, None)
      else case wait_while resume (\<lambda>s. tstate (sock s (nat fd)) = TCP_LISTEN) s of
             None \<Rightarrow> None
           | Some s1 \<Rightarrow>
               if tstate (sock s1 (nat fd)) \<noteq> TCP_ESTABLISHED then Some (s1, - 1, None)
               else Some (s1, fd, Some (remote_ip (sock s1 (nat fd)), remote_port (sock s1 (nat fd)))))"

section \<open>Sending and receiving\<close>

definition umin :: "u32 \<Rightarrow> u32 \<Rightarrow> u32" where
  "umin a b = (if b < a then b else a)"

text \<open>The bytes that may be sent at once; the difference wraps when more is in flight than the window.\<close>

definition send_allowance :: "tcp_socket \<Rightarrow> u32" where
  "send_allowance k = umin (umin (tx_count k) (cwnd (cc k) - flight_size (cc k))) (mss k)"

definition tcp_push :: "net \<Rightarrow> nat \<Rightarrow> net" where
  "tcp_push s i =
     (let k = sock s i; payload = send_allowance k in
      case tx_buf k of
        None \<Rightarrow> s
      | Some b \<Rightarrow>
          if payload = 0 then s
          else upd_sock (tcp_send_segment s i (TCP_FLAG_ACK OR TCP_FLAG_PSH) (ring_copy b (tx_tail k) (unat payload))) i
                 (\<lambda>k. k\<lparr>tx_tail := (tx_tail k + unat payload) mod TCP_BUF_SIZE, tx_count := tx_count k - payload,
                        cc := (cc k)\<lparr>flight_size := flight_size (cc k) + payload\<rparr>\<rparr>))"

text \<open>One round of the loop that copies the data into the ring buffer.\<close>

definition send_round :: "net \<Rightarrow> nat \<Rightarrow> u8 list \<Rightarrow> net option" where
  "send_round s i data =
     (case tx_buf (sock s i) of
        None \<Rightarrow> None
      | Some b \<Rightarrow>
          let (b', h) = ring_put b (tx_head (sock s i)) data;
              s1 = upd_sock s i (\<lambda>k. k\<lparr>tx_buf := Some b', tx_head := h, tx_count := tx_count k + of_nat (length data)\<rparr>)
          in Some (if snd_una (sock s1 i) = snd_nxt (sock s1 i) \<or> unat (mss (sock s1 i)) \<le> length data
                   then tcp_push s1 i else s1))"

partial_function (option) send_loop :: "(net \<Rightarrow> net) \<Rightarrow> net \<Rightarrow> nat \<Rightarrow> u8 list \<Rightarrow> net option" where
  "send_loop resume s i data =
     (if data = [] then Some s
      else let space = unat (of_nat TCP_BUF_SIZE - tx_count (sock s i) :: u32) in
        if space = 0 then send_loop resume (resume s) i data
        else case send_round s i (take space data) of
               None \<Rightarrow> None
             | Some s1 \<Rightarrow> send_loop resume s1 i (drop space data))"

definition tcp_send :: "(net \<Rightarrow> net) \<Rightarrow> net \<Rightarrow> int \<Rightarrow> u8 list \<Rightarrow> (net \<times> int) option" where
  "tcp_send resume s fd data =
     (if \<not> open_sock s fd \<or> tstate (sock s (nat fd)) \<noteq> TCP_ESTABLISHED then Some (s, - 1)
      else case send_loop resume s (nat fd) data of
             None \<Rightarrow> None
           | Some s1 \<Rightarrow> Some (s1, int (length data)))"

definition recv_ready :: "net \<Rightarrow> nat \<Rightarrow> u32 \<Rightarrow> (net \<times> u8 list) option" where
  "recv_ready s i len =
     (let k = sock s i; n = umin len (rx_count k) in
      if n = 0 then Some (upd_sock s i (\<lambda>k. k\<lparr>rcv_wnd := TCP_DEFAULT_WINDOW - rx_count k\<rparr>), [])
      else case rx_buf k of
             None \<Rightarrow> None
           | Some b \<Rightarrow>
               let (data, t) = ring_get b (rx_tail k) (unat n);
                   s1 = upd_sock s i (\<lambda>k. k\<lparr>rx_tail := t, rx_count := rx_count k - n,
                          rcv_wnd := TCP_DEFAULT_WINDOW - (rx_count k - n)\<rparr>)
               in Some (tcp_send_segment s1 i TCP_FLAG_ACK [], data))"

definition tcp_recv :: "(net \<Rightarrow> net) \<Rightarrow> net \<Rightarrow> int \<Rightarrow> u32 \<Rightarrow> (net \<times> int \<times> u8 list) option" where
  "tcp_recv resume s fd len =
     (if \<not> open_sock s fd then Some (s, - 1, [])
      else case wait_while resume (\<lambda>s. rx_count (sock s (nat fd)) = 0 \<and> tstate (sock s (nat fd)) = TCP_ESTABLISHED) s of
             None \<Rightarrow> None
           | Some s1 \<Rightarrow> (case recv_ready s1 (nat fd) len of
                 None \<Rightarrow> None
               | Some (s2, data) \<Rightarrow> Some (s2, int (length data), data)))"

definition close_start :: "net \<Rightarrow> nat \<Rightarrow> net" where
  "close_start s i =
     (if tstate (sock s i) = TCP_ESTABLISHED
      then tcp_send_segment (upd_sock s i (\<lambda>k. k\<lparr>tstate := TCP_FIN_WAIT_1\<rparr>)) i (TCP_FLAG_FIN OR TCP_FLAG_ACK) []
      else if tstate (sock s i) = TCP_CLOSE_WAIT
      then tcp_send_segment (upd_sock s i (\<lambda>k. k\<lparr>tstate := TCP_LAST_ACK\<rparr>)) i (TCP_FLAG_FIN OR TCP_FLAG_ACK) []
      else s)"

definition tcp_close :: "(net \<Rightarrow> net) \<Rightarrow> net \<Rightarrow> int \<Rightarrow> net option" where
  "tcp_close resume s fd =
     (if \<not> open_sock s fd then Some s
      else map_option (\<lambda>s. upd_sock s (nat fd) (\<lambda>k. k\<lparr>in_use := False\<rparr>))
        (wait_while resume (\<lambda>s. tstate (sock s (nat fd)) \<noteq> TCP_CLOSED \<and> tstate (sock s (nat fd)) \<noteq> TCP_TIME_WAIT)
           (close_start s (nat fd))))"

section \<open>Acknowledgements and timers\<close>

definition tcp_process_ack :: "tcp_socket \<Rightarrow> u32 \<Rightarrow> tcp_socket" where
  "tcp_process_ack k ack =
     (let c = cc k in
      if snd_una k < ack then
        k\<lparr>snd_una := ack,
          cc := c\<lparr>flight_size := flight_size c - (ack - snd_una k), dup_acks := 0,
                  cwnd := (if cwnd c < ssthresh c then cwnd c + TCP_MSS
                           else let w = cwnd c + (TCP_MSS * TCP_MSS) div cwnd c in if w < TCP_MSS then TCP_MSS else w)\<rparr>\<rparr>
      else if ack = snd_una k then
        (let c1 = c\<lparr>dup_acks := dup_acks c + 1\<rparr> in
         if dup_acks c1 = 3 then
           let th = (if cwnd c div 2 < 2 * TCP_MSS then 2 * TCP_MSS else cwnd c div 2)
           in k\<lparr>cc := c1\<lparr>ssthresh := th, cwnd := th + 3 * TCP_MSS\<rparr>\<rparr>
         else k\<lparr>cc := c1\<rparr>)
      else k)"

definition tcp_update_rtt :: "tcp_cc \<Rightarrow> u64 \<Rightarrow> tcp_cc" where
  "tcp_update_rtt c rtt =
     (let c1 = c\<lparr>rtt_sum := rtt_sum c + rtt, rtt_count := rtt_count c + 1\<rparr> in
      if 8 \<le> rtt_count c1 then
        let t = ucast (rtt_sum c1 div ucast (rtt_count c1)) * 2
        in c1\<lparr>rto := (if t < 200 then 200 else if 60000 < t then 60000 else t), rtt_sum := 0, rtt_count := 0\<rparr>
      else c1)"

definition timer_socket :: "u64 \<Rightarrow> nat \<Rightarrow> net \<Rightarrow> net" where
  "timer_socket now i s =
     (if \<not> in_use (sock s i) then s
      else
        let idle = now - last_activity (sock s i);
            s1 = (if 0 < flight_size (cc (sock s i)) \<and> ucast (rto (cc (sock s i))) < idle
                  then upd_sock s i (\<lambda>k. k\<lparr>cc := (cc k)\<lparr>ssthresh := cwnd (cc k) div 2, cwnd := TCP_MSS\<rparr>\<rparr>) else s);
            s2 = (if tstate (sock s1 i) = TCP_ESTABLISHED \<and> 7200000 < idle
                  then upd_sock (tcp_send_segment s1 i TCP_FLAG_ACK []) i
                         (\<lambda>k. let k1 = k\<lparr>keepalive_probes := keepalive_probes k + 1\<rparr>
                              in if 9 < keepalive_probes k1 then k1\<lparr>tstate := TCP_CLOSED, in_use := False\<rparr> else k1)
                  else s1)
        in if tstate (sock s2 i) = TCP_TIME_WAIT \<and> 120000 < idle
           then upd_sock s2 i (\<lambda>k. k\<lparr>tstate := TCP_CLOSED, in_use := False\<rparr>) else s2)"

definition tcp_timer_callback :: "u64 \<Rightarrow> net \<Rightarrow> net" where
  "tcp_timer_callback now s = fold (timer_socket now) [0..<TCP_MAX_SOCKETS] s"

section \<open>Segments that arrive\<close>

text \<open>
  \<open>p\<close> is the memory from the TCP header on, \<open>len\<close> the length that the IP header gives.  The length of
  the payload is the 16-bit difference of the lengths.
\<close>

definition find_socket :: "net \<Rightarrow> u16 \<Rightarrow> u16 \<Rightarrow> u32 \<Rightarrow> nat option" where
  "find_socket s dst_port src_port src =
     first_slot (\<lambda>i. let k = sock s i in
       in_use k \<and> (local_port k = dst_port \<and> remote_port k = src_port \<and> remote_ip k = src
                   \<or> tstate k = TCP_LISTEN \<and> local_port k = dst_port)) 0 TCP_MAX_SOCKETS"

definition accept_data :: "net \<Rightarrow> nat \<Rightarrow> (nat \<Rightarrow> u8) \<Rightarrow> nat \<Rightarrow> u16 \<Rightarrow> u32 \<Rightarrow> net option" where
  "accept_data s i p hlen len seq =
     (let k = sock s i; n0 = len - of_nat hlen in
      if n0 \<noteq> 0 \<and> seq = rcv_nxt k then
        let space = of_nat TCP_BUF_SIZE - rx_count k;
            n = (if space < ucast n0 then unat space else unat n0);
            data = map (\<lambda>j. p (hlen + j)) [0..<n]
        in (if n = 0 then Some (tcp_send_segment s i TCP_FLAG_ACK [])
            else case rx_buf k of
              None \<Rightarrow> None
            | Some b \<Rightarrow>
                let (b', h) = ring_put b (rx_head k) data
                in Some (tcp_send_segment (upd_sock s i (\<lambda>k. k\<lparr>rx_buf := Some b', rx_head := h,
                     rx_count := rx_count k + of_nat n, rcv_nxt := rcv_nxt k + of_nat n\<rparr>)) i TCP_FLAG_ACK []))
      else Some s)"

definition accept_fin :: "net \<Rightarrow> nat \<Rightarrow> u8 \<Rightarrow> net" where
  "accept_fin s i fl =
     (if fl AND TCP_FLAG_FIN \<noteq> 0 then
        upd_sock (tcp_send_segment (upd_sock s i (\<lambda>k. k\<lparr>rcv_nxt := rcv_nxt k + 1\<rparr>)) i TCP_FLAG_ACK []) i
          (\<lambda>k. k\<lparr>tstate := (case tstate k of TCP_ESTABLISHED \<Rightarrow> TCP_CLOSE_WAIT | TCP_FIN_WAIT_1 \<Rightarrow> TCP_CLOSING
             | TCP_FIN_WAIT_2 \<Rightarrow> TCP_TIME_WAIT | st \<Rightarrow> st)\<rparr>)
      else s)"

definition segment_arrives ::
  "net \<Rightarrow> nat \<Rightarrow> u32 \<Rightarrow> (nat \<Rightarrow> u8) \<Rightarrow> u16 \<Rightarrow> u64 \<Rightarrow> u64 \<Rightarrow> net option" where
  "segment_arrives s0 i src p len us now =
     (let src_port = ntohs (ld16 p 0); hlen = unat (drop_bit 4 (p 12)) * 4; seq = ntohl (ld32 p 4); ack = ntohl (ld32 p 8);
          fl = p 13; window = ucast (ntohs (ld16 p 14));
          s = upd_sock s0 i (\<lambda>k. k\<lparr>last_activity := now\<rparr>) in
      case tstate (sock s i) of
        TCP_SYN_SENT \<Rightarrow>
          Some (if fl AND TCP_FLAG_SYN \<noteq> 0 then
            let s1 = upd_sock s i (\<lambda>k. k\<lparr>irs := seq, rcv_nxt := seq + 1\<rparr>);
                s2 = (if fl AND TCP_FLAG_ACK \<noteq> 0 then upd_sock s1 i (\<lambda>k. tcp_process_ack (k\<lparr>snd_una := ack\<rparr>) ack) else s1);
                s3 = upd_sock s2 i (\<lambda>k. k\<lparr>snd_wnd := window\<rparr>)
            in upd_sock (tcp_send_segment s3 i (TCP_FLAG_SYN OR TCP_FLAG_ACK) []) i
                 (\<lambda>k. k\<lparr>snd_nxt := iss k + 1, tstate := TCP_SYN_RECEIVED\<rparr>)
          else s)
      | TCP_SYN_RECEIVED \<Rightarrow>
          Some (if fl AND TCP_FLAG_ACK \<noteq> 0
            then upd_sock s i (\<lambda>k. (tcp_process_ack (k\<lparr>snd_una := ack\<rparr>) ack)\<lparr>tstate := TCP_ESTABLISHED\<rparr>) else s)
      | TCP_LISTEN \<Rightarrow>
          Some (if fl AND TCP_FLAG_SYN \<noteq> 0 then
            upd_sock (tcp_send_segment (upd_sock s i (\<lambda>k. k\<lparr>irs := seq, rcv_nxt := seq + 1, iss := ucast us, snd_una := ucast us,
                snd_nxt := ucast us + 1, remote_ip := src, remote_port := src_port\<rparr>)) i (TCP_FLAG_SYN OR TCP_FLAG_ACK) []) i
              (\<lambda>k. k\<lparr>tstate := TCP_SYN_RECEIVED\<rparr>)
          else s)
      | TCP_LAST_ACK \<Rightarrow>
          Some (if fl AND TCP_FLAG_ACK \<noteq> 0 then upd_sock s i (\<lambda>k. k\<lparr>tstate := TCP_CLOSED, in_use := False\<rparr>) else s)
      | TCP_CLOSING \<Rightarrow>
          Some (if fl AND TCP_FLAG_ACK \<noteq> 0 then upd_sock s i (\<lambda>k. k\<lparr>tstate := TCP_TIME_WAIT\<rparr>) else s)
      | TCP_CLOSED \<Rightarrow> Some s
      | TCP_CLOSE_WAIT \<Rightarrow> Some s
      | TCP_TIME_WAIT \<Rightarrow> Some s
      | _ \<Rightarrow>
          let s1 = (if fl AND TCP_FLAG_ACK \<noteq> 0 then upd_sock s i (\<lambda>k. (tcp_process_ack k ack)\<lparr>snd_wnd := window\<rparr>) else s)
          in (case accept_data s1 i p hlen len seq of None \<Rightarrow> None | Some s2 \<Rightarrow> Some (accept_fin s2 i fl)))"

definition tcp_rx :: "net \<Rightarrow> u32 \<Rightarrow> (nat \<Rightarrow> u8) \<Rightarrow> u16 \<Rightarrow> u64 \<Rightarrow> u64 \<Rightarrow> net option" where
  "tcp_rx s src p len us now =
     (case find_socket s (ntohs (ld16 p 2)) (ntohs (ld16 p 0)) src of
        None \<Rightarrow> Some s
      | Some i \<Rightarrow> segment_arrives s i src p len us now)"

end
