(* ===== verification/NetRx.thy ===== *)
theory NetRx
  imports NetTcp
begin

text \<open>
  The network stack (net.c), third part: what happens to a frame that a driver hands over
  (\<open>net_rx_packet\<close>, \<open>net_rx_frame\<close>), ICMP echo, fragments, UDP with the answers of name servers, the
  resolver and the DHCP client.  \<open>None\<close> stands for a null pointer that is followed or a write beyond the
  end of a buffer.
\<close>

section \<open>ICMP\<close>

definition icmp_reply :: "u16 \<Rightarrow> u16 \<Rightarrow> u16 \<Rightarrow> u8 list" where
  "icmp_reply chk ident sq = [0, 0] @ st16 chk @ st16 ident @ st16 sq"

definition icmp_rx :: "net \<Rightarrow> nat \<Rightarrow> u32 \<Rightarrow> u32 \<Rightarrow> (nat \<Rightarrow> u8) \<Rightarrow> net option" where
  "icmp_rx s d src dst p =
     (if p 0 = 8 then
        (case arp_lookup s src of
           None \<Rightarrow> None
         | Some (s1, None) \<Rightarrow> Some s1
         | Some (s1, Some dmac) \<Rightarrow>
             let ident = ld16 p 4; sq = ld16 p 6
             in Some (transmit s1 d (eth_frame dmac (mac (ifs s1 d)) ETH_P_IP @ ip_hdr 28 0 IP_PROTO_ICMP dst src
                  @ icmp_reply (ip_checksum (mem_of (icmp_reply 0 ident sq)) 0 8) ident sq)))
      else Some s)"

section \<open>UDP and the answers of name servers\<close>

text \<open>The labels of a name, up to the end of the payload, the empty label or a compression pointer.\<close>

function skip_labels :: "(nat \<Rightarrow> u8) \<Rightarrow> nat \<Rightarrow> nat \<Rightarrow> nat" where
  "skip_labels pay plen off =
     (if off < plen \<and> pay off \<noteq> 0
      then if pay off AND 0xC0 = 0xC0 then off + 2 else skip_labels pay plen (off + 1 + unat (pay off))
      else off)"
  by pat_completeness auto
termination by (relation "measure (\<lambda>(pay, plen, off). plen - off)") auto

declare skip_labels.simps [simp del]

definition skip_name :: "(nat \<Rightarrow> u8) \<Rightarrow> nat \<Rightarrow> nat \<Rightarrow> nat" where
  "skip_name pay plen off =
     (let o1 = skip_labels pay plen off in if o1 < plen \<and> pay o1 = 0 then o1 + 1 else o1)"

fun skip_questions :: "(nat \<Rightarrow> u8) \<Rightarrow> nat \<Rightarrow> nat \<Rightarrow> nat \<Rightarrow> nat" where
  "skip_questions pay plen off 0 = off"
| "skip_questions pay plen off (Suc q) =
     (if off < plen then skip_questions pay plen (skip_name pay plen off + 4) q else off)"

definition be16 :: "(nat \<Rightarrow> u8) \<Rightarrow> nat \<Rightarrow> nat" where
  "be16 pay off = unat (pay off) * 256 + unat (pay (off + 1))"

definition be32 :: "(nat \<Rightarrow> u8) \<Rightarrow> nat \<Rightarrow> u32" where
  "be32 pay off = push_bit 24 (ucast (pay off)) OR push_bit 16 (ucast (pay (off + 1))) OR push_bit 8 (ucast (pay (off + 2)))
     OR ucast (pay (off + 3))"

fun parse_answers :: "(nat \<Rightarrow> u8) \<Rightarrow> nat \<Rightarrow> nat \<Rightarrow> nat \<Rightarrow> u32 option" where
  "parse_answers pay plen off 0 = None"
| "parse_answers pay plen off (Suc a) =
     (if plen \<le> off + 10 then None
      else let o1 = (if pay off AND 0xC0 = 0xC0 then off + 2 else skip_name pay plen off) in
        if plen < o1 + 10 then None
        else let rdlen = be16 pay (o1 + 8); o2 = o1 + 10 in
          if be16 pay o1 = 1 \<and> be16 pay (o1 + 2) = 1 \<and> rdlen = 4 \<and> o2 + 4 \<le> plen then Some (be32 pay o2)
          else parse_answers pay plen (o2 + rdlen) a)"

definition dns_response :: "net \<Rightarrow> (nat \<Rightarrow> u8) \<Rightarrow> nat \<Rightarrow> net" where
  "dns_response s pay plen =
     (if be16 pay 2 < 0x8000 \<or> be16 pay 2 mod 16 \<noteq> 0 then s
      else case first_slot (\<lambda>i. q_in_use (dns_queries s ! i) \<and> \<not> resolved (dns_queries s ! i)
                    \<and> unat (q_id (dns_queries s ! i)) = be16 pay 0) 0 DNS_MAX_QUERIES of
             None \<Rightarrow> s
           | Some i \<Rightarrow> (case parse_answers pay plen (skip_questions pay plen 12 (be16 pay 4)) (be16 pay 6) of
                 None \<Rightarrow> s
               | Some ip \<Rightarrow> s\<lparr>dns_queries := (dns_queries s)[i := (dns_queries s ! i)\<lparr>result_ip := ip, resolved := True\<rparr>]\<rparr>))"

definition udp_rx :: "net \<Rightarrow> (nat \<Rightarrow> u8) \<Rightarrow> u16 \<Rightarrow> net" where
  "udp_rx s p len =
     (let plen = ntohs (ld16 p 4) in
      if len < 8 \<or> plen < 8 then s
      else if ntohs (ld16 p 0) = 53 \<and> 12 \<le> plen - 8 then dns_response s (\<lambda>i. p (8 + i)) (unat (plen - 8))
      else s)"

definition udp_send_raw :: "net \<Rightarrow> u32 \<Rightarrow> u16 \<Rightarrow> u16 \<Rightarrow> u8 list \<Rightarrow> u64 \<Rightarrow> net \<times> int" where
  "udp_send_raw s dst_ip src_port dst_port payload us =
     (case net_ifs s of
        [] \<Rightarrow> (s, - 1)
      | d # _ \<Rightarrow>
          (case net_kmalloc s of
             (s1, False) \<Rightarrow> (s1, - 1)
           | (s1, True) \<Rightarrow>
               (case arp_lookup s1 dst_ip of
                  Some (s2, Some dmac) \<Rightarrow>
                    (transmit s2 d (eth_frame dmac (mac (ifs s d)) ETH_P_IP
                       @ ip_hdr (of_nat (28 + length payload)) (htons (ucast us)) IP_PROTO_UDP (ip_addr (ifs s d)) dst_ip
                       @ st16 (htons src_port) @ st16 (htons dst_port) @ st16 (htons (of_nat (8 + length payload))) @ st16 0
                       @ payload), 0)
                | Some (s2, None) \<Rightarrow> (s2, - 1)
                | None \<Rightarrow> (s1, - 1))))"

section \<open>Fragments and packets\<close>

definition fragment_slot :: "net \<Rightarrow> u32 \<Rightarrow> u32 \<Rightarrow> u16 \<Rightarrow> u8 \<Rightarrow> nat option" where
  "fragment_slot s src dst ident proto =
     first_slot (\<lambda>i. let f = ip_frags s ! i in
       \<not> fr_active f \<or> fr_src f = src \<and> fr_dst f = dst \<and> fr_id f = ident \<and> fr_proto f = proto) 0 MAX_IP_FRAGS"

definition fragment_rx :: "net \<Rightarrow> (nat \<Rightarrow> u8) \<Rightarrow> u32 \<Rightarrow> u32 \<Rightarrow> u16 \<Rightarrow> u8 \<Rightarrow> u16 \<Rightarrow> u16 \<Rightarrow> u64 \<Rightarrow> net option" where
  "fragment_rx s pay src dst ident proto frag_off plen now =
     (case fragment_slot s src dst ident proto of
        None \<Rightarrow> Some s
      | Some i \<Rightarrow>
          let f0 = ip_frags s ! i;
              f = (if fr_active f0 then f0
                   else f0\<lparr>fr_active := True, fr_src := src, fr_dst := dst, fr_id := ident, fr_proto := proto,
                           fr_received := 0, fr_time := now\<rparr>);
              off = (frag_off AND 0x1FFF) * 8; o1 = unat off; n = unat plen
          in if 65536 < o1 + n then None
             else Some (s\<lparr>ip_frags := (ip_frags s)[i :=
                    f\<lparr>fr_buf := take o1 (fr_buf f) @ map pay [0..<n] @ drop (o1 + n) (fr_buf f),
                      fr_received := fr_received f + plen,
                      fr_total := (if frag_off AND 0x2000 = 0 then off + plen else fr_total f)\<rparr>]\<rparr>))"

definition ip_rx :: "net \<Rightarrow> nat \<Rightarrow> (nat \<Rightarrow> u8) \<Rightarrow> u32 \<Rightarrow> u64 \<Rightarrow> u64 \<Rightarrow> net option" where
  "ip_rx s d p len us now =
     (let ihl = unat (p 14 AND 0x0F) * 4; total_len = ntohs (ld16 p 16); frag_off = ntohs (ld16 p 20);
          src = ld32 p 26; dst = ld32 p 30; pay = (\<lambda>i. p (14 + ihl + i)); plen = total_len - of_nat ihl in
      if len < 34 then Some s
      else if drop_bit 4 (p 14) \<noteq> 4 then Some s
      else if ip_checksum p 14 ihl \<noteq> 0 then Some s
      else if frag_off AND 0x3FFF \<noteq> 0 then fragment_rx s pay src dst (ntohs (ld16 p 18)) (p 23) frag_off plen now
      else if p 23 = IP_PROTO_ICMP then icmp_rx s d src dst pay
      else if p 23 = IP_PROTO_UDP then Some (udp_rx s pay plen)
      else if p 23 = IP_PROTO_TCP then tcp_rx s src pay plen us now
      else Some s)"

definition net_rx_packet :: "net \<Rightarrow> nat \<Rightarrow> (nat \<Rightarrow> u8) \<Rightarrow> u32 \<Rightarrow> u64 \<Rightarrow> u64 \<Rightarrow> net option" where
  "net_rx_packet s0 d p len us now =
     (let s = upd_if s0 d (\<lambda>n. n\<lparr>rx_packets := rx_packets n + 1, rx_bytes := rx_bytes n + ucast len\<rparr>);
          ty0 = ntohs (ld16 p 12); ty = (if ty0 = ETH_P_VLAN then ntohs (ld16 p 16) else ty0) in
      if len < 14 then Some (upd_if s d (\<lambda>n. n\<lparr>rx_errors := rx_errors n + 1\<rparr>))
      else if ty0 = ETH_P_VLAN \<and> len < 18 then Some s
      else if ty = ETH_P_ARP then Some (arp_rx s d p now)
      else if ty = ETH_P_IP then ip_rx s d p len us now
      else Some s)"

text \<open>The other entry, which knows no VLAN tags; a null device is address 0.\<close>

definition net_rx_frame :: "net \<Rightarrow> nat \<Rightarrow> (nat \<Rightarrow> u8) \<Rightarrow> u32 \<Rightarrow> u64 \<Rightarrow> u64 \<Rightarrow> net option" where
  "net_rx_frame s0 d p len us now =
     (if d = 0 \<or> len < 14 then Some s0
      else let s = upd_if s0 d (\<lambda>n. n\<lparr>rx_bytes := rx_bytes n + ucast len, rx_packets := rx_packets n + 1\<rparr>);
               ty = ntohs (ld16 p 12) in
        if ty = ETH_P_ARP then Some (arp_rx s d p now)
        else if ty = ETH_P_IP then ip_rx s d p len us now
        else Some s)"

section \<open>The resolver\<close>

definition is_digit :: "u8 \<Rightarrow> bool" where
  "is_digit c \<longleftrightarrow> 0x30 \<le> c \<and> c \<le> 0x39"

fun dec_run :: "u8 list \<Rightarrow> u32 \<Rightarrow> u32 \<times> u8 list" where
  "dec_run [] acc = (acc, [])"
| "dec_run (c # cs) acc = (if is_digit c then dec_run cs (acc * 10 + (ucast c - 0x30)) else (acc, c # cs))"

text \<open>The pointer is moved past the separator, which is past the end of a string with fewer dots.\<close>

definition octet :: "u8 list \<Rightarrow> (u32 \<times> u8 list) option" where
  "octet cs = (case dec_run cs 0 of (v, []) \<Rightarrow> None | (v, c # rest) \<Rightarrow> Some (v, rest))"

definition dotted_quad :: "u8 list \<Rightarrow> u32 option" where
  "dotted_quad cs =
     (case octet cs of None \<Rightarrow> None | Some (a, c1) \<Rightarrow>
       (case octet c1 of None \<Rightarrow> None | Some (b, c2) \<Rightarrow>
         (case octet c2 of None \<Rightarrow> None | Some (c, c3) \<Rightarrow>
            Some (push_bit 24 a OR push_bit 16 b OR push_bit 8 c OR fst (dec_run c3 0)))))"

function encode_name :: "u8 list \<Rightarrow> u8 list" where
  "encode_name h =
     (if h = [] then []
      else let lab = takeWhile (\<lambda>c. c \<noteq> 0x2E) h; llen = of_nat (length lab) :: u8
           in llen # take (unat llen) lab @ encode_name (tl (dropWhile (\<lambda>c. c \<noteq> 0x2E) h)))"
  by pat_completeness auto
termination
proof (relation "measure length")
  fix h :: "u8 list"
  assume "h \<noteq> []"
  moreover have "length (dropWhile (\<lambda>c. c \<noteq> 0x2E) h) \<le> length h" by (rule length_dropWhile_le)
  ultimately have "length (dropWhile (\<lambda>c. c \<noteq> 0x2E) h) - 1 < length h" by (simp add: less_le_trans flip: length_greater_0_conv)
  then show "(tl (dropWhile (\<lambda>c. c \<noteq> 0x2E) h), h) \<in> measure length" by simp
qed simp

declare encode_name.simps [simp del]

definition dns_query_packet :: "u16 \<Rightarrow> u8 list \<Rightarrow> u8 list" where
  "dns_query_packet qid name =
     [ucast (drop_bit 8 qid), ucast qid, 0x01, 0x00, 0x00, 0x01, 0, 0, 0, 0, 0, 0] @ encode_name name @ [0, 0, 1, 0, 1]"

fun send_query :: "(net \<Rightarrow> net) \<Rightarrow> nat \<Rightarrow> net \<Rightarrow> u32 \<Rightarrow> u16 \<Rightarrow> u8 list \<Rightarrow> u64 \<Rightarrow> net" where
  "send_query resume 0 s ip port pkt us = s"
| "send_query resume (Suc n) s ip port pkt us =
     (case udp_send_raw s ip port 53 pkt us of
        (s1, r) \<Rightarrow> if r = 0 then s1 else send_query resume n (resume s1) ip port pkt us)"

text \<open>One element of \<open>polls\<close> is what the driver's \<open>poll\<close> does in one round before the deadline.\<close>

fun poll_answer :: "(net \<Rightarrow> net) list \<Rightarrow> nat \<Rightarrow> net \<Rightarrow> net \<times> u32" where
  "poll_answer [] slot s = (s\<lparr>dns_queries := (dns_queries s)[slot := (dns_queries s ! slot)\<lparr>q_in_use := False\<rparr>]\<rparr>, 0)"
| "poll_answer (f # polls) slot s =
     (let s1 = f s; q = dns_queries s1 ! slot in
      if resolved q then (s1\<lparr>dns_queries := (dns_queries s1)[slot := q\<lparr>q_in_use := False\<rparr>]\<rparr>, result_ip q)
      else poll_answer polls slot s1)"

definition net_dns_resolve ::
  "(net \<Rightarrow> net) \<Rightarrow> (net \<Rightarrow> net) list \<Rightarrow> net \<Rightarrow> u8 list option \<Rightarrow> u64 \<Rightarrow> u64 \<Rightarrow> (net \<times> u32) option" where
  "net_dns_resolve resume polls s hostname us now =
     (case (hostname, net_ifs s) of
        (Some name, d # _) \<Rightarrow>
          if \<forall>c \<in> set name. c = 0x2E \<or> is_digit c then map_option (Pair s) (dotted_quad name)
          else let srv = (if dns1 (ifs s d) \<noteq> 0 then dns1 (ifs s d) else 0x08080808) in
            (case first_slot (\<lambda>i. \<not> q_in_use (dns_queries s ! i)) 0 DNS_MAX_QUERIES of
               None \<Rightarrow> Some (s, 0)
             | Some slot \<Rightarrow>
                 let qid = dns_next_id s;
                     s1 = s\<lparr>dns_next_id := qid + 1, dns_queries := (dns_queries s)[slot :=
                            \<lparr>q_id = qid, result_ip = 0, q_time = now, resolved = False, q_in_use = True\<rparr>]\<rparr>;
                     pkt = dns_query_packet qid name
                 in if 512 < length pkt then None
                    else Some (poll_answer polls slot (send_query resume 3 s1 (htonl srv) (1024 + of_nat slot) pkt us)))
      | _ \<Rightarrow> Some (s, 0))"

section \<open>DHCP\<close>

definition dhcp_options :: "u8 list \<Rightarrow> u8 list" where
  "dhcp_options m = [53, 1, 1, 55, 4, 1, 3, 6, 15, 61, 7, 1] @ m @ [255]"

definition dhcp_packet :: "u32 \<Rightarrow> u8 list \<Rightarrow> u8 list" where
  "dhcp_packet xid m =
     replicate 34 0 @ st16 (htons 68) @ st16 (htons 67) @ st16 (htons 542) @ st16 0
     @ [1, 1, 6, 0] @ st32 (htonl xid) @ replicate 20 0 @ m @ replicate 202 0 @ [0x63, 0x82, 0x53, 0x63] @ dhcp_options m
     @ replicate 275 0"

definition dhcp_start :: "net \<Rightarrow> nat \<Rightarrow> u64 \<Rightarrow> net" where
  "dhcp_start s d us =
     (transmit (s\<lparr>dhcp_xid := ucast us\<rparr>) d (dhcp_packet (ucast us) (mac (ifs s d))))\<lparr>dhcp_state := 1\<rparr>"

end
