(* ===== verification/NetCheck.thy ===== *)
theory NetCheck
  imports NetRx
begin

text \<open>
  What the network stack gets right and wrong on the wire: the checksum of everything it builds
  verifies, a header that it builds is read back field by field, the ARP cache answers what it was told,
  and the sequence number of the first segment.
\<close>

section \<open>The checksum\<close>

text \<open>The sum of the 16-bit words of a list of bytes, without the limit of the accumulator.\<close>

fun wsum :: "u8 list \<Rightarrow> nat" where
  "wsum (a # b # bs) = unat a + 256 * unat b + wsum bs"
| "wsum [a] = unat a"
| "wsum [] = 0"

lemma wsum_append: "even (length xs) \<Longrightarrow> wsum (xs @ ys) = wsum xs + wsum ys"
  by (induction xs rule: wsum.induct) simp_all

lemma wsum_bound: "wsum bs \<le> 65535 * ((length bs + 1) div 2)"
proof (induction bs rule: wsum.induct)
  case (1 a b bs)
  have "unat a \<le> 255" "unat b \<le> 255" using unsigned_less [of a, where ?'a = nat] unsigned_less [of b, where ?'a = nat] by simp_all
  with 1 show ?case by simp
next
  case (2 a)
  have "unat a \<le> 255" using unsigned_less [of a, where ?'a = nat] by simp
  then show ?case by simp
qed simp

lemma ld16_val: "unat (ld16 p a) = unat (p a) + 256 * unat (p (Suc a))"
proof -
  have "unat (p a) \<le> 255" "unat (p (Suc a)) \<le> 255"
    using unsigned_less [of "p a", where ?'a = nat] unsigned_less [of "p (Suc a)", where ?'a = nat] by simp_all
  moreover have "map p [a..<a + 2] = [p a, p (Suc a)]" by (simp add: upt_rec)
  ultimately show ?thesis unfolding ld16_def by (subst unat_of_nat_small) simp_all
qed

lemma mem_of_append: "mem_of (xs @ ys) (length xs + i) = mem_of ys i"
  by (simp add: mem_of_def nth_append)

lemma sum16_list:
  "sum16 (mem_of (pre @ bs @ post)) (length pre) (length bs) acc = acc + of_nat (wsum bs)"
proof (induction bs arbitrary: pre acc rule: wsum.induct)
  case (1 a b bs)
  have "ucast (ld16 m n) = (of_nat (unat (ld16 m n)) :: u32)" for m n by simp
  then have w: "ucast (ld16 (mem_of (pre @ (a # b # bs) @ post)) (length pre)) = (of_nat (unat a + 256 * unat b) :: u32)"
    unfolding ld16_val by (simp add: mem_of_def nth_append)
  have "sum16 (mem_of (pre @ (a # b # bs) @ post)) (length pre) (length (a # b # bs)) acc =
      sum16 (mem_of ((pre @ [a, b]) @ bs @ post)) (length (pre @ [a, b])) (length bs) (acc + of_nat (unat a + 256 * unat b))"
    by (subst sum16.simps) (simp add: w [unfolded append_Cons])
  then show ?case using "1.IH" [of "pre @ [a, b]" "acc + of_nat (unat a + 256 * unat b)"] by (simp add: add.assoc)
next
  case (2 a)
  then show ?case by (subst sum16.simps) (simp add: mem_of_def nth_append)
qed (simp add: sum16.simps)

lemma fold16_val:
  "unat (fold16 v) < 65536 \<and> unat (fold16 v) mod 65535 = unat v mod 65535 \<and> (unat (fold16 v) = 0 \<longleftrightarrow> v = 0)"
proof (induction v rule: fold16.induct)
  case (1 v)
  have d: "drop_bit 16 v = 0 \<longleftrightarrow> unat v < 65536"
  proof -
    have "unat (drop_bit 16 v) = unat v div 2 ^ 16" by (metis unat_drop_bit_eq drop_bit_eq_div)
    moreover have "drop_bit 16 v = 0 \<longleftrightarrow> unat (drop_bit 16 v) = 0" by (simp only: unat_eq_zero)
    ultimately show ?thesis by (simp add: div_eq_0_iff)
  qed
  show ?case
  proof (cases "drop_bit 16 v = 0")
    case True
    then have "fold16 v = v" by (subst fold16.simps) simp
    with True d show ?thesis by (simp add: unat_eq_zero)
  next
    case False
    let ?w = "(v AND 0xFFFF) + drop_bit 16 v"
    have u: "unat ?w = unat v mod 65536 + unat v div 65536" using unat_carry [of v] by simp
    have m: "unat v = unat ?w + 65535 * (unat v div 65536)" using u div_mult_mod_eq [of "unat v" 65536] by simp
    have "unat v mod 65535 = unat ?w mod 65535" by (subst m) simp
    moreover have "0 < unat v div 65536" using False d by (simp add: div_greater_zero_iff not_less)
    with u have "unat ?w \<noteq> 0" by linarith
    then have "?w \<noteq> 0" "v \<noteq> 0" using False by (auto simp: unat_eq_zero)
    moreover have "fold16 v = fold16 ?w" using False by (subst fold16.simps) simp
    ultimately show ?thesis using "1" [OF False] by simp
  qed
qed

lemma unat_not16: "unat (NOT (w :: u16)) = 65535 - unat w"
proof -
  have "NOT w = - 1 - w" by (simp add: not_eq_complement)
  moreover have "unat (- 1 :: u16) = 65535" by (simp add: unsigned_minus_1_eq_mask mask_eq_exp_minus_1)
  moreover have "unat w \<le> 65535" using unsigned_less [of w, where ?'a = nat] by simp
  ultimately show ?thesis by (metis unat_sub_small)
qed

lemma length_st16 [simp]: "length (st16 c) = 2"
  by (simp add: st16_def)

lemma length_st32 [simp]: "length (st32 c) = 4"
  by (simp add: st32_def)

lemma wsum_st16: "wsum (st16 c @ ys) = unat c + wsum ys"
proof -
  have "unat (of_nat n :: u8) = n mod 256" for n by (simp add: unat_of_nat take_bit_eq_mod)
  moreover have "unat c < 65536" using unsigned_less [of c, where ?'a = nat] by simp
  then have "unat c mod 256 + 256 * (unat c div 256 mod 256) = unat c" by (simp add: less_mult_imp_div_less)
  moreover have "st16 c = [of_nat (unat c), of_nat (unat c div 256)]"
    unfolding st16_def numeral_2_eq_2 le.simps by (rule refl)
  ultimately show ?thesis by (simp only: wsum.simps append_Cons append_Nil)
qed

text \<open>Storing the checksum of a block of bytes in a field that was zero makes the block verify.\<close>

lemma checksum_stored:
  assumes e: "even (length xs)" and n: "length xs + 2 + length ys \<le> 100"
  defines "n \<equiv> length xs + 2 + length ys"
  shows "ip_checksum (mem_of (xs @ st16 (ip_checksum (mem_of (xs @ st16 0 @ ys)) 0 n) @ ys)) 0 n = 0"
proof -
  define S where "S = wsum xs + wsum ys"
  note st = wsum_st16 length_st16
  have sum: "sum16 (mem_of (xs @ st16 c @ ys)) 0 n 0 = of_nat (S + unat c)" for c
    using sum16_list [of "[]" "xs @ st16 c @ ys" "[]" 0] st e by (simp add: n_def wsum_append S_def ac_simps)
  have "wsum xs \<le> 65535 * 51" "wsum ys \<le> 65535 * 51"
    using wsum_bound [of xs] wsum_bound [of ys] n by (auto intro: order_trans)
  then have S: "S < 2 ^ 30" by (simp add: S_def)
  have o: "unat (of_nat m :: u32) = m" if "m < 2 ^ 31" for m using that by (intro unat_of_nat_small) simp
  have zero_of: "(of_nat m :: u32) = 0 \<longleftrightarrow> m = 0" if "m < 2 ^ 31" for m using o [OF that] by (metis unat_eq_zero)
  have S31: "S < 2 ^ 31" using S by simp
  define f where "f = fold16 (of_nat S)"
  define c where "c = ip_checksum (mem_of (xs @ st16 0 @ ys)) 0 n"
  have f: "unat f < 65536" "unat f mod 65535 = S mod 65535" "unat f = 0 \<longleftrightarrow> S = 0"
    using fold16_val [of "of_nat S"] zero_of [OF S31] by (simp_all only: f_def o [OF S31])
  have c: "unat c = 65535 - unat f"
    using f(1) by (simp add: c_def ip_checksum_def sum unat_not16 unsigned_ucast_eq f_def take_bit_eq_mod)
  have t: "S + unat c < 2 ^ 31" using S c by simp
  define g where "g = fold16 (of_nat (S + unat c))"
  have g: "unat g < 65536" "unat g mod 65535 = (S + unat c) mod 65535" "unat g = 0 \<longleftrightarrow> S + unat c = 0"
    using fold16_val [of "of_nat (S + unat c)"] zero_of [OF t] by (simp_all only: g_def o [OF t])
  have "(S + unat c) mod 65535 = (unat f + unat c) mod 65535" using f(2) by (metis mod_add_left_eq)
  then have "unat g mod 65535 = 0" using g(2) c f(1) by simp
  moreover have "unat g \<noteq> 0" using g(3) c f by auto
  ultimately have "unat g = 65535" using g(1) by (auto elim!: dvdE simp: mod_eq_0_iff_dvd)
  then have "unat (ucast g :: u16) = 65535" by (simp add: unsigned_ucast_eq take_bit_eq_mod)
  then have "unat (NOT (ucast g :: u16)) = 0" by (simp add: unat_not16)
  then have "NOT (ucast g :: u16) = 0" by (simp only: unat_eq_zero)
  then have "ip_checksum (mem_of (xs @ st16 c @ ys)) 0 n = 0" unfolding ip_checksum_def sum g_def .
  then show ?thesis by (simp only: c_def)
qed

lemma ip_checksum_shift:
  "ip_checksum (mem_of (pre @ bs @ post)) (length pre) (length bs) = ip_checksum (mem_of bs) 0 (length bs)"
  using sum16_list [of pre bs post 0] sum16_list [of "[]" bs "[]" 0] by (simp add: ip_checksum_def)

text \<open>
  C26: Everything that the stack builds passes the check that it makes on arrival: in a frame the IP
  header behind any Ethernet header sums to zero, and so does the header of an ICMP reply.
\<close>

theorem headers_verify:
  "ip_checksum (mem_of (eth @ ip_hdr len ident proto src dst @ rest)) (length eth) 20 = 0
   \<and> ip_checksum (mem_of (pre @ icmp_reply (ip_checksum (mem_of (icmp_reply 0 ident sq)) 0 8) ident sq)) (length pre) 8 = 0"
proof
  let ?xs = "[0x45, 0] @ st16 (htons len) @ st16 ident @ st16 0 @ [64, proto]" and ?ys = "st32 src @ st32 dst"
  have h: "ip_hdr_sum len ident proto c src dst = ?xs @ st16 c @ ?ys" for c by (simp add: ip_hdr_sum_def)
  have "ip_checksum (mem_of (ip_hdr len ident proto src dst)) 0 20 = 0"
    using checksum_stored [of ?xs ?ys] unfolding ip_hdr_def h by simp
  then show "ip_checksum (mem_of (eth @ ip_hdr len ident proto src dst @ rest)) (length eth) 20 = 0"
    using ip_checksum_shift [of eth "ip_hdr len ident proto src dst" rest] by (simp add: ip_hdr_def ip_hdr_sum_def)
  have "ip_checksum (mem_of (icmp_reply (ip_checksum (mem_of (icmp_reply 0 ident sq)) 0 8) ident sq)) 0 8 = 0"
    using checksum_stored [of "[0, 0]" "st16 ident @ st16 sq"] by (simp add: icmp_reply_def)
  then show "ip_checksum (mem_of (pre @ icmp_reply (ip_checksum (mem_of (icmp_reply 0 ident sq)) 0 8) ident sq)) (length pre) 8 = 0"
    using ip_checksum_shift [of pre "icmp_reply (ip_checksum (mem_of (icmp_reply 0 ident sq)) 0 8) ident sq" "[]"]
    by (simp add: icmp_reply_def)
qed

section \<open>Reading back what was built\<close>

lemma ld16_at: "ld16 (mem_of (pre @ st16 w @ post)) (length pre) = w"
proof -
  have "unat (ld16 (mem_of (pre @ st16 w @ post)) (length pre)) = unat (st16 w ! 0) + 256 * unat (st16 w ! 1)"
    by (simp add: ld16_val mem_of_def nth_append)
  also have "\<dots> = wsum (st16 w @ [])" by (simp add: st16_def numeral_2_eq_2)
  finally show ?thesis unfolding wsum_st16 by (simp add: word_unat_eq_iff)
qed

lemma mem_of_slice: "map (mem_of (pre @ bs @ post)) [length pre..<length pre + length bs] = bs"
  by (rule nth_equalityI) (simp_all add: mem_of_def nth_append)

lemma ld32_at: "ld32 (mem_of (pre @ st32 w @ post)) (length pre) = w"
proof -
  have "map (mem_of (pre @ st32 w @ post)) [length pre..<length pre + 4] = st32 w"
    using mem_of_slice [of pre "st32 w" post] by simp
  then have "ld32 (mem_of (pre @ st32 w @ post)) (length pre) = of_nat (unle (st32 w))" by (simp add: ld32_def)
  then show ?thesis by (simp add: st32_def)
qed

lemma low_byte: "(0xFF :: 'a::len word) = mask 8" "(0xFF00 :: u32) = push_bit 8 (mask 8)"
  by (simp_all add: mask_eq_exp_minus_1)

lemma htons_htons [simp]: "htons (htons w) = w"
  unfolding htons_def low_byte by (rule bit_word_eqI) (auto simp: bit_simps)

lemma htonl_bit:
  "bit (htonl w) n \<longleftrightarrow> n < 32 \<and> bit w (if n < 8 then 24 + n else if n < 16 then 8 + n else if n < 24 then n - 8 else n - 24)"
  unfolding htonl_def low_byte by (auto simp: bit_simps not_less add.commute)

lemma htonl_htonl [simp]: "htonl (htonl w) = w"
proof (rule bit_word_eqI)
  fix n
  assume "n < LENGTH(32)"
  then consider "n < 8" | m where "n = 8 + m" "m < 8" | m where "n = 16 + m" "m < 8" | m where "n = 24 + m" "m < 8"
    by (cases "n < 8"; cases "n < 16"; cases "n < 24") (auto simp: not_less dest!: le_Suc_ex)
  then show "bit (htonl (htonl w)) n = bit w n" by cases (simp_all add: htonl_bit)
qed

lemmas byte_order = ntohs_def ntohl_def

text \<open>The header of a segment, field by field.\<close>

lemma tcp_hdr_fields:
  fixes k fl data
  defines "p \<equiv> mem_of (tcp_hdr k fl @ data)"
  shows "ntohs (ld16 p 0) = local_port k" "ntohs (ld16 p 2) = remote_port k" "ntohl (ld32 p 4) = snd_nxt k"
    "fl AND TCP_FLAG_ACK \<noteq> 0 \<Longrightarrow> ntohl (ld32 p 8) = rcv_nxt k" "p 12 = 0x50" "p 13 = fl"
    "p (20 + i) = mem_of data i"
proof -
  let ?a = "st32 (if fl AND TCP_FLAG_ACK \<noteq> 0 then htonl (rcv_nxt k) else 0)"
  let ?w = "st16 (htons (if 65535 < rcv_wnd k then 65535 else ucast (rcv_wnd k))) @ st16 0 @ st16 0"
  have p: "p = mem_of (st16 (htons (local_port k)) @ st16 (htons (remote_port k)) @ st32 (htonl (snd_nxt k)) @ ?a
      @ [0x50, fl] @ ?w @ data)"
    by (simp add: p_def tcp_hdr_def)
  show "ntohs (ld16 p 0) = local_port k"
    using ld16_at [of "[]" "htons (local_port k)"] unfolding p by (simp add: byte_order)
  show "ntohs (ld16 p 2) = remote_port k"
    using ld16_at [of "st16 (htons (local_port k))" "htons (remote_port k)"] unfolding p by (simp add: byte_order)
  show "ntohl (ld32 p 4) = snd_nxt k"
    using ld32_at [of "st16 (htons (local_port k)) @ st16 (htons (remote_port k))" "htonl (snd_nxt k)"]
    unfolding p by (simp add: byte_order)
  show "ntohl (ld32 p 8) = rcv_nxt k" if "fl AND TCP_FLAG_ACK \<noteq> 0"
    using ld32_at [of "st16 (htons (local_port k)) @ st16 (htons (remote_port k)) @ st32 (htonl (snd_nxt k))" "htonl (rcv_nxt k)"] that
    unfolding p by (simp add: byte_order)
  show "p 12 = 0x50" "p 13 = fl" unfolding p by (simp_all add: mem_of_def nth_append)
  have "length (tcp_hdr k fl) = 20" by (simp add: tcp_hdr_def)
  with mem_of_append [of "tcp_hdr k fl" data i] show "p (20 + i) = mem_of data i" by (simp add: p_def)
qed

section \<open>The ARP cache\<close>

text \<open>An ARP packet behind its Ethernet header, field by field.\<close>

lemma arp_fields:
  fixes dst src smac tmac :: "u8 list" and op sip tip
  assumes l: "length dst = 6" "length src = 6" "length smac = 6" "length tmac = 6"
  defines "p \<equiv> mem_of (eth_frame dst src ETH_P_ARP @ arp_packet op smac sip tmac tip)"
  shows "ntohs (ld16 p 14) = 1" "ntohs (ld16 p 16) = ETH_P_IP" "ntohs (ld16 p 20) = op" "map p [22..<28] = smac"
    "ld32 p 28 = sip" "ld32 p 38 = tip"
proof -
  let ?e = "dst @ src @ st16 (htons ETH_P_ARP)"
  have p: "p = mem_of (?e @ st16 (htons 1) @ st16 (htons ETH_P_IP) @ [6, 4] @ st16 (htons op) @ smac @ st32 sip @ tmac @ st32 tip)"
    by (simp add: p_def eth_frame_def arp_packet_def)
  show "ntohs (ld16 p 14) = 1" using ld16_at [of ?e "htons 1"] l unfolding p by (simp add: byte_order)
  show "ntohs (ld16 p 16) = ETH_P_IP" using ld16_at [of "?e @ st16 (htons 1)" "htons ETH_P_IP"] l unfolding p by (simp add: byte_order)
  show "ntohs (ld16 p 20) = op"
    using ld16_at [of "?e @ st16 (htons 1) @ st16 (htons ETH_P_IP) @ [6, 4]" "htons op"] l unfolding p by (simp add: byte_order)
  show "map p [22..<28] = smac"
    using mem_of_slice [of "?e @ st16 (htons 1) @ st16 (htons ETH_P_IP) @ [6, 4] @ st16 (htons op)" smac] l unfolding p by simp
  show "ld32 p 28 = sip"
    using ld32_at [of "?e @ st16 (htons 1) @ st16 (htons ETH_P_IP) @ [6, 4] @ st16 (htons op) @ smac" sip] l
    unfolding p by simp
  show "ld32 p 38 = tip"
    using ld32_at [of "?e @ st16 (htons 1) @ st16 (htons ETH_P_IP) @ [6, 4] @ st16 (htons op) @ smac @ st32 sip @ tmac" tip "[]"] l
    unfolding p by simp
qed

text \<open>The entry that a reply is stored in is the one that a lookup finds.\<close>

lemma arp_slot_found:
  assumes "arp_slot cs ip = Some i" and "length cs = ARP_CACHE_SIZE" and "arp_ip e = ip" and "arp_valid e"
  shows "first_slot (\<lambda>j. arp_valid (cs[i := e] ! j) \<and> arp_ip (cs[i := e] ! j) = ip) 0 ARP_CACHE_SIZE = Some i" "i < ARP_CACHE_SIZE"
proof -
  have i: "i < ARP_CACHE_SIZE \<and> (\<forall>l < i. arp_ip (cs ! l) \<noteq> ip)"
  proof (cases "first_slot (\<lambda>i. arp_ip (cs ! i) = ip) 0 ARP_CACHE_SIZE")
    case None
    with assms(1) have "first_slot (\<lambda>i. \<not> arp_valid (cs ! i)) 0 ARP_CACHE_SIZE = Some i" by (simp add: arp_slot_def)
    with first_slot_Some [OF this] None show ?thesis by (auto simp: first_slot_None)
  next
    case (Some j)
    with assms(1) first_slot_Some [OF Some] show ?thesis by (auto simp: arp_slot_def)
  qed
  then show "i < ARP_CACHE_SIZE" by simp
  with i assms(2-4) show "first_slot (\<lambda>j. arp_valid (cs[i := e] ! j) \<and> arp_ip (cs[i := e] ! j) = ip) 0 ARP_CACHE_SIZE = Some i"
    by (intro first_slot_eqI) (auto simp: nth_list_update)
qed

text \<open>
  Two stations resolve an address.  When \<open>a\<close> looks up an address of its network that it has not cached, it
  broadcasts a request; the station \<open>b\<close> that has the address answers, and when the answer arrives
  \<open>a\<close> finds the hardware address of \<open>b\<close> in its cache, as long as the cache has room.
\<close>

theorem arp_exchange:
  assumes ifs: "net_ifs a = d # ds" and macs: "length (mac (ifs a d)) = 6" "length (mac (ifs b e)) = 6"
    and ip: "ip_addr (ifs b e) = ip" "route (ifs a d) ip = ip"
    and cache: "length (arp_cache a) = ARP_CACHE_SIZE" "arp_slot (arp_cache a) ip = Some i"
    and new: "first_slot (\<lambda>i. arp_valid (arp_cache a ! i) \<and> arp_ip (arp_cache a ! i) = ip) 0 ARP_CACHE_SIZE = None"
  shows "\<exists>a1 request b1 reply. arp_lookup a ip = Some (a1, None) \<and> sent a1 = sent a @ [(d, request)]
    \<and> b1 = arp_rx b e (mem_of request) t1 \<and> sent b1 = sent b @ [(e, reply)]
    \<and> arp_lookup (arp_rx a1 d (mem_of reply) t2) ip = Some (arp_rx a1 d (mem_of reply) t2, Some (mac (ifs b e)))"
proof -
  define a1 where "a1 = arp_request a d ip"
  define request where "request = eth_frame (replicate 6 0xFF) (mac (ifs a d)) ETH_P_ARP
    @ arp_packet ARP_REQUEST (mac (ifs a d)) (ip_addr (ifs a d)) (replicate 6 0) ip"
  define reply where "reply = eth_frame (mac (ifs a d)) (mac (ifs b e)) ETH_P_ARP
    @ arp_packet ARP_REPLY (mac (ifs b e)) ip (mac (ifs a d)) (ip_addr (ifs a d))"
  have 1: "arp_lookup a ip = Some (a1, None)" using ifs ip new by (simp add: arp_lookup_def a1_def)
  have 2: "sent a1 = sent a @ [(d, request)]" by (simp add: a1_def arp_request_def transmit_def request_def)
  note q = arp_fields [of "replicate 6 0xFF" "mac (ifs a d)" "mac (ifs a d)" "replicate 6 0" ARP_REQUEST "ip_addr (ifs a d)" ip,
      folded request_def]
  have 3: "sent (arp_rx b e (mem_of request) t1) = sent b @ [(e, reply)]"
    using q macs ip by (simp add: arp_rx_def Let_def transmit_def reply_def)
  note r = arp_fields [of "mac (ifs a d)" "mac (ifs b e)" "mac (ifs b e)" "mac (ifs a d)" ARP_REPLY ip "ip_addr (ifs a d)",
      folded reply_def]
  define a2 where "a2 = arp_rx a1 d (mem_of reply) t2"
  have "arp_cache a1 = arp_cache a" "net_ifs a1 = net_ifs a" "NetCore.ifs a1 = NetCore.ifs a"
    by (simp_all add: a1_def arp_request_def transmit_def)
  then have "net_ifs a2 = d # ds" "NetCore.ifs a2 = NetCore.ifs a" "arp_cache a2 =
      (arp_cache a)[i := \<lparr>arp_ip = ip, arp_mac = mac (ifs b e), arp_time = t2, arp_valid = True\<rparr>]"
    using r macs cache ifs by (simp_all add: a2_def arp_rx_def Let_def ARP_REPLY_def ARP_REQUEST_def)
  then have "arp_lookup a2 ip = Some (a2, Some (mac (ifs b e)))"
    using arp_slot_found [OF cache(2,1), of "\<lparr>arp_ip = ip, arp_mac = mac (ifs b e), arp_time = t2, arp_valid = True\<rparr>"] ip cache(1)
    by (simp add: arp_lookup_def Let_def)
  with 1 2 3 show ?thesis unfolding a2_def by blast
qed

text \<open>A station on a small network: one interface at address 1, hardware address \<open>x\<close>.\<close>

definition demo_net :: "u8 \<Rightarrow> u32 \<Rightarrow> net" where
  "demo_net x ip = net_init \<lparr>arp_cache = [], ip_frags = [], tcp_sockets = [], next_ephemeral_port = 49152, net_ifs = [1],
     ifs = (\<lambda>_. \<lparr>mac = replicate 6 x, ip_addr = ip, netmask = 0x00FFFFFF, gateway = 0x0100000A, dns1 = 0, rx_bytes = 0,
       tx_bytes = 0, rx_packets = 0, tx_packets = 0, rx_errors = 0\<rparr>),
     dhcp_state = 0, dhcp_xid = 0, dns_queries = [], dns_next_id = 0x1234, sent = [], grants = (\<lambda>_. True), calls = 0\<rparr>"

lemma demo_net_sel:
  "net_ifs (demo_net x ip) = [1]" "mac (ifs (demo_net x ip) d) = replicate 6 x" "ip_addr (ifs (demo_net x ip) d) = ip"
  "length (arp_cache (demo_net x ip)) = ARP_CACHE_SIZE" "sent (demo_net x ip) = []" "tcp_sockets (demo_net x ip) = replicate 256 zero_socket"
  by (simp_all add: demo_net_def net_init_def TCP_MAX_SOCKETS_def)

theorem arp_exchange_witness:
  "\<exists>a1 request b1 reply. arp_lookup (demo_net 1 0x0200000A) 0x0300000A = Some (a1, None)
     \<and> b1 = arp_rx (demo_net 2 0x0300000A) 1 (mem_of request) 5 \<and> sent b1 = [(1, reply)]
     \<and> arp_lookup (arp_rx a1 1 (mem_of reply) 6) 0x0300000A = Some (arp_rx a1 1 (mem_of reply) 6, Some (replicate 6 2))"
proof -
  let ?a = "demo_net 1 0x0200000A" and ?b = "demo_net 2 0x0300000A"
  have "arp_slot (arp_cache ?a) 0x0300000A = Some 0"
  proof -
    have "first_slot (\<lambda>i. arp_ip (arp_cache ?a ! i) = 0x0300000A) 0 ARP_CACHE_SIZE = None"
      by (simp add: first_slot_None demo_net_def net_init_def)
    moreover have "first_slot (\<lambda>i. \<not> arp_valid (arp_cache ?a ! i)) 0 ARP_CACHE_SIZE = Some 0"
      by (rule first_slot_eqI) (simp_all add: demo_net_def net_init_def ARP_CACHE_SIZE_def)
    ultimately show ?thesis by (simp add: arp_slot_def)
  qed
  moreover have "first_slot (\<lambda>i. arp_valid (arp_cache ?a ! i) \<and> arp_ip (arp_cache ?a ! i) = 0x0300000A) 0 ARP_CACHE_SIZE = None"
    by (simp add: first_slot_None demo_net_def net_init_def)
  moreover have "route (ifs ?a 1) 0x0300000A = 0x0300000A" by (simp add: route_def demo_net_def net_init_def)
  moreover note demo_net_sel [of 1 "0x0200000A"] demo_net_sel [of 2 "0x0300000A"]
  ultimately show ?thesis
    using arp_exchange [of ?a 1 "[]" ?b 1 "0x0300000A" 0 5 6] by (simp, blast)
qed

section \<open>The first segment\<close>

lemma tcp_send_segment_sockets: "tcp_sockets (tcp_send_segment s i fl []) = tcp_sockets s"
proof -
  have "xs[i := (xs ! i)\<lparr>snd_nxt := snd_nxt (xs ! i) + 0\<rparr>] = xs" for xs by simp
  then show ?thesis
    by (simp add: tcp_send_segment_def net_kmalloc_def arp_lookup_def arp_request_def upd_if_def upd_sock_def transmit_def Let_def
        split: list.split bool.split option.split prod.split)
qed

lemma tcp_send_segment_data:
  "\<exists>n. tcp_sockets (tcp_send_segment s i fl data) = tcp_sockets (upd_sock s i (\<lambda>k. k\<lparr>snd_nxt := n\<rparr>))"
proof -
  have "\<exists>n. xs = xs[i := (xs ! i)\<lparr>snd_nxt := n\<rparr>]" for xs by (rule exI [of _ "snd_nxt (xs ! i)"]) simp
  then show ?thesis
    by (auto simp: tcp_send_segment_def net_kmalloc_def arp_lookup_def arp_request_def upd_if_def upd_sock_def transmit_def Let_def
        split: list.split bool.split option.split prod.split)
qed

lemma sock_upd [simp]:
  "i < length (tcp_sockets s) \<Longrightarrow> sock (upd_sock s i f) j = (if j = i then f (sock s i) else sock s j)"
  "length (tcp_sockets (upd_sock s i f)) = length (tcp_sockets s)"
  by (auto simp: sock_def upd_sock_def)

lemma sock_send [simp]:
  "sock (tcp_send_segment s i fl []) j = sock s j" "length (tcp_sockets (tcp_send_segment s i fl [])) = length (tcp_sockets s)"
  by (simp_all add: sock_def tcp_send_segment_sockets)

lemma process_ack_sel:
  "iss (tcp_process_ack k x) = iss k" "rcv_nxt (tcp_process_ack k x) = rcv_nxt k" "rx_count (tcp_process_ack k x) = rx_count k"
  "rx_buf (tcp_process_ack k x) = rx_buf k" "rx_head (tcp_process_ack k x) = rx_head k" "rx_tail (tcp_process_ack k x) = rx_tail k"
  "tstate (tcp_process_ack k x) = tstate k" "tx_buf (tcp_process_ack k x) = tx_buf k" "in_use (tcp_process_ack k x) = in_use k"
  "tx_head (tcp_process_ack k x) = tx_head k" "tx_tail (tcp_process_ack k x) = tx_tail k" "tx_count (tcp_process_ack k x) = tx_count k"
  by (simp_all add: tcp_process_ack_def Let_def)

text \<open>
  Two stations that both run this stack never exchange data.  \<open>tcp_connect\<close> sends its SYN with the
  sequence number \<open>iss + 1\<close> and keeps \<open>iss + 1\<close> as the number of the first byte, so a listening socket
  expects \<open>iss + 2\<close>: after the listener \<open>b\<close> has received the SYN, the answer of \<open>a\<close> to its SYN-ACK (any
  segment with ACK) and data, it is established and has stored none of the data.
\<close>

theorem first_data_refused:
  assumes i: "i < length (tcp_sockets a)" and j: "j < length (tcp_sockets b)" and l: "tstate (sock b j) = TCP_LISTEN"
    and a1: "a1 = connect_start a i ip port us t" and syn: "q 13 AND TCP_FLAG_SYN \<noteq> 0"
    and a2: "segment_arrives a1 i srcb q len us' t' = Some a2" and len: "length data \<le> 1460"
    and ack: "flk AND TCP_FLAG_ACK \<noteq> 0"
  shows "\<exists>b1 b2 b3. segment_arrives b j src (mem_of (tcp_hdr (sock a1 i) TCP_FLAG_SYN)) 20 ub tb = Some b1
    \<and> segment_arrives b1 j src (mem_of (tcp_hdr k flk)) 20 ub tb = Some b2 \<and> tstate (sock b2 j) = TCP_ESTABLISHED
    \<and> segment_arrives b2 j src (mem_of (tcp_hdr (sock a2 i) TCP_FLAG_ACK @ data)) (of_nat (20 + length data)) ub tb = Some b3
    \<and> rx_count (sock b3 j) = rx_count (sock b j) \<and> rx_buf (sock b3 j) = rx_buf (sock b j)"
proof -
  have snd1: "snd_nxt (sock a1 i) = ucast us + 1" "iss (sock a1 i) = ucast us" "tstate (sock a1 i) = TCP_SYN_SENT" "i < length (tcp_sockets a1)"
    using i by (auto simp: a1 connect_start_def next_port_def Let_def sock_def upd_sock_def tcp_send_segment_sockets)
  have "snd_nxt (sock a2 i) = ucast us + 1"
    using a2 syn snd1 by (auto simp: segment_arrives_def Let_def process_ack_sel)
  let ?p1 = "mem_of (tcp_hdr (sock a1 i) TCP_FLAG_SYN)" and ?p2 = "mem_of (tcp_hdr k flk)"
    and ?p3 = "mem_of (tcp_hdr (sock a2 i) TCP_FLAG_ACK @ data)"
  note f1 = tcp_hdr_fields [where k = "sock a1 i" and fl = TCP_FLAG_SYN and data = "[]", unfolded append_Nil2]
    and f2 = tcp_hdr_fields [where k = k and fl = flk and data = "[]", unfolded append_Nil2]
    and f3 = tcp_hdr_fields [where k = "sock a2 i" and fl = TCP_FLAG_ACK and data = data]
  define b1 where "b1 = the (segment_arrives b j src ?p1 20 ub tb)"
  have b1: "segment_arrives b j src ?p1 20 ub tb = Some b1" "rcv_nxt (sock b1 j) = ucast us + 2" "tstate (sock b1 j) = TCP_SYN_RECEIVED"
    "rx_count (sock b1 j) = rx_count (sock b j)" "rx_buf (sock b1 j) = rx_buf (sock b j)" "j < length (tcp_sockets b1)"
    using j l f1 snd1(1) by (simp_all add: b1_def segment_arrives_def Let_def TCP_FLAG_SYN_def)
  define b2 where "b2 = the (segment_arrives b1 j src ?p2 20 ub tb)"
  have b2: "segment_arrives b1 j src ?p2 20 ub tb = Some b2" "rcv_nxt (sock b2 j) = ucast us + 2" "tstate (sock b2 j) = TCP_ESTABLISHED"
    "rx_count (sock b2 j) = rx_count (sock b j)" "rx_buf (sock b2 j) = rx_buf (sock b j)" "j < length (tcp_sockets b2)"
    using b1 f2 ack by (simp_all add: b2_def segment_arrives_def Let_def process_ack_sel)
  have "TCP_FLAG_ACK AND TCP_FLAG_FIN = 0" by (simp add: TCP_FLAG_ACK_def TCP_FLAG_FIN_def)
  moreover have "ucast us + 1 \<noteq> (ucast us + 2 :: u32)" by simp
  ultimately have "\<exists>b3. segment_arrives b2 j src ?p3 (of_nat (20 + length data)) ub tb = Some b3
      \<and> rx_count (sock b3 j) = rx_count (sock b2 j) \<and> rx_buf (sock b3 j) = rx_buf (sock b2 j)"
    using b2 f3 \<open>snd_nxt (sock a2 i) = ucast us + 1\<close>
    by (simp add: segment_arrives_def Let_def process_ack_sel accept_data_def accept_fin_def)
  with b1 b2 show ?thesis by metis
qed

theorem first_data_refused_witness:
  "\<exists>a2 b1 b2 b3. segment_arrives (upd_sock (demo_net 2 0x0300000A) 0 (\<lambda>k. k\<lparr>tstate := TCP_LISTEN\<rparr>)) 0 0x0200000A
       (mem_of (tcp_hdr (sock (connect_start (demo_net 1 0x0200000A) 0 0x0300000A 80 7 1) 0) TCP_FLAG_SYN)) 20 9 2 = Some b1
     \<and> tstate (sock b2 0) = TCP_ESTABLISHED
     \<and> segment_arrives b2 0 0x0200000A (mem_of (tcp_hdr (sock a2 0) TCP_FLAG_ACK @ [1, 2, 3])) 23 9 2 = Some b3
     \<and> rx_count (sock b3 0) = 0"
proof -
  let ?a1 = "connect_start (demo_net 1 0x0200000A) 0 0x0300000A 80 7 1" and ?q = "\<lambda>_. 2 :: u8"
    and ?b = "upd_sock (demo_net 2 0x0300000A) 0 (\<lambda>k. k\<lparr>tstate := TCP_LISTEN\<rparr>)"
  have l: "0 < length (tcp_sockets (demo_net 1 0x0200000A))" "0 < length (tcp_sockets ?b)"
    by (simp_all add: demo_net_sel upd_sock_def)
  have b: "tstate (sock ?b 0) = TCP_LISTEN" "rx_count (sock ?b 0) = 0"
    by (simp_all add: demo_net_sel upd_sock_def sock_def zero_socket_def)
  have "tstate (sock ?a1 0) = TCP_SYN_SENT" "0 < length (tcp_sockets ?a1)"
    using l(1) by (auto simp: connect_start_def next_port_def Let_def sock_def upd_sock_def tcp_send_segment_sockets)
  then obtain a2 where "segment_arrives ?a1 0 0x0300000A ?q 20 1 1 = Some a2"
    by (simp add: segment_arrives_def Let_def)
  from first_data_refused [OF l b(1) refl _ this, where data = "[1, 2, 3]" and flk = TCP_FLAG_ACK and src = "0x0200000A" and ub = 9
      and tb = 2 and k = zero_socket] b(2) show ?thesis
    by (auto simp: TCP_FLAG_SYN_def TCP_FLAG_ACK_def)
qed

end
