(* ===== verification/Queue.thy ===== *)
theory Queue
  imports Prelude
begin

text \<open>
  The interface of queues that the kernel keeps in arrays: what goes in comes out in order.  The
  receive and send buffers of a TCP socket and the message queues of the ports of sandbox.c are its
  instances.  The second part has the facts about rings that the instances share.
\<close>

section \<open>The interface\<close>

locale byte_queue =
  fixes ok :: "'q \<Rightarrow> bool" and contents :: "'q \<Rightarrow> 'x list" and put :: "'q \<Rightarrow> 'x list \<Rightarrow> 'q"
    and get :: "'q \<Rightarrow> nat \<Rightarrow> 'x list \<times> 'q" and cap :: nat
  assumes put_law: "ok q \<Longrightarrow> length (contents q) + length xs \<le> cap \<Longrightarrow> ok (put q xs) \<and> contents (put q xs) = contents q @ xs"
    and get_law: "ok q \<Longrightarrow> n \<le> length (contents q) \<Longrightarrow>
      ok (snd (get q n)) \<and> fst (get q n) = take n (contents q) \<and> contents (snd (get q n)) = drop n (contents q)"
begin

text \<open>Between \<open>q\<close> and \<open>q'\<close> the bytes \<open>xs\<close> went in and \<open>ys\<close> came out.\<close>

definition flows :: "'q \<Rightarrow> 'x list \<Rightarrow> 'x list \<Rightarrow> 'q \<Rightarrow> bool" where
  "flows q xs ys q' \<longleftrightarrow> ok q' \<and> ys @ contents q' = contents q @ xs"

lemma flows_refl: "ok q \<Longrightarrow> flows q [] [] q"
  by (simp add: flows_def)

lemma flows_put: "ok q \<Longrightarrow> length (contents q) + length xs \<le> cap \<Longrightarrow> flows q xs [] (put q xs)"
  by (simp add: flows_def put_law)

lemma flows_get: "ok q \<Longrightarrow> n \<le> length (contents q) \<Longrightarrow> flows q [] (fst (get q n)) (snd (get q n))"
  by (simp add: flows_def get_law)

lemma flows_trans: "flows q xs ys q1 \<Longrightarrow> flows q1 xs' ys' q2 \<Longrightarrow> flows q (xs @ xs') (ys @ ys') q2"
  by (simp add: flows_def)

end

section \<open>Rings\<close>

lemma mod_cancel:
  fixes t a b n :: nat
  assumes "(t + a) mod n = (t + b) mod n" and "a < n" and "b < n"
  shows "a = b"
proof -
  have "b - a = 0" if "a \<le> b" "(t + a) mod n = (t + b) mod n" "b < n" for a b
  proof -
    have "n dvd (t + b) - (t + a)" using that mod_eq_dvd_iff_nat [of "t + a" "t + b" n] by simp
    then have "n dvd b - a" by simp
    with that show ?thesis using nat_dvd_not_less [of "b - a" n] by fastforce
  qed
  from this [OF _ assms(1,3)] this [OF _ assms(1) [symmetric] assms(2)] show ?thesis by (cases "a \<le> b") simp_all
qed

text \<open>The \<open>n\<close> elements of the ring \<open>b\<close> from position \<open>t\<close> on.\<close>

definition ring_view :: "'a list \<Rightarrow> nat \<Rightarrow> nat \<Rightarrow> 'a list" where
  "ring_view b t n = map (\<lambda>i. b ! ((t + i) mod length b)) [0..<n]"

lemma length_ring_view [simp]: "length (ring_view b t n) = n"
  by (simp add: ring_view_def)

lemma ring_view_push:
  assumes "n < length b"
  shows "ring_view (b[(t + n) mod length b := x]) t (Suc n) = ring_view b t n @ [x]"
proof (rule nth_equalityI)
  fix i
  assume "i < length (ring_view (b[(t + n) mod length b := x]) t (Suc n))"
  then have i: "i < Suc n" by simp
  have "(t + i) mod length b \<noteq> (t + n) mod length b" if "i < n"
    using mod_cancel [of t i "length b" n] that assms by auto
  moreover have "(t + i) mod length b < length b" using assms by (intro mod_less_divisor) linarith
  ultimately show "ring_view (b[(t + n) mod length b := x]) t (Suc n) ! i = (ring_view b t n @ [x]) ! i"
    using i by (cases "i = n") (simp_all add: ring_view_def nth_append del: upt_Suc)
qed simp

lemma ring_view_pop:
  "ring_view b t (Suc n) = b ! (t mod length b) # ring_view b ((t + 1) mod length b) n"
  by (simp add: ring_view_def upt_conv_Cons map_Suc_upt [symmetric] mod_simps comp_def del: upt_Suc)

end
