(* ===== verification/NetStream.thy ===== *)
theory NetStream
  imports NetCheck Queue
begin

text \<open>
  The ring buffers of a TCP socket are byte queues, and every call, segment and timer keeps the
  sockets well formed.  The rings of net.c are an instance of the interface of queues, and what a
  socket delivers follows from its laws.
\<close>

section \<open>Rings\<close>

record ring =
  rbuf :: "u8 list"
  rhead :: nat
  rtail :: nat
  rcount :: nat

definition ring_ok :: "ring \<Rightarrow> bool" where
  "ring_ok r \<longleftrightarrow> length (rbuf r) = TCP_BUF_SIZE \<and> rtail r < TCP_BUF_SIZE \<and> rcount r \<le> TCP_BUF_SIZE
     \<and> rhead r = (rtail r + rcount r) mod TCP_BUF_SIZE"

definition ring_bytes :: "ring \<Rightarrow> u8 list" where
  "ring_bytes r = ring_copy (rbuf r) (rtail r) (rcount r)"

definition ring_write :: "ring \<Rightarrow> u8 list \<Rightarrow> ring" where
  "ring_write r xs = r\<lparr>rbuf := fst (ring_put (rbuf r) (rhead r) xs), rhead := snd (ring_put (rbuf r) (rhead r) xs),
     rcount := rcount r + length xs\<rparr>"

definition ring_read :: "ring \<Rightarrow> nat \<Rightarrow> u8 list \<times> ring" where
  "ring_read r n = (fst (ring_get (rbuf r) (rtail r) n), r\<lparr>rtail := snd (ring_get (rbuf r) (rtail r) n), rcount := rcount r - n\<rparr>)"

lemma buf_size_pos [simp]: "0 < TCP_BUF_SIZE"
  by (simp add: TCP_BUF_SIZE_def)

lemma ring_put_spec:
  assumes "length b = TCP_BUF_SIZE" and "h < TCP_BUF_SIZE" and "length xs \<le> TCP_BUF_SIZE" and "ring_put b h xs = (b', h')"
  shows "length b' = TCP_BUF_SIZE \<and> h' = (h + length xs) mod TCP_BUF_SIZE
    \<and> (\<forall>i < length xs. b' ! ((h + i) mod TCP_BUF_SIZE) = xs ! i)
    \<and> (\<forall>j < TCP_BUF_SIZE. (\<forall>i < length xs. j \<noteq> (h + i) mod TCP_BUF_SIZE) \<longrightarrow> b' ! j = b ! j)"
  using assms
proof (induction b h xs arbitrary: b' h' rule: ring_put.induct)
  case (1 b h)
  then show ?case by simp
next
  case (2 b h x xs)
  let ?N = TCP_BUF_SIZE and ?h = "(h + 1) mod TCP_BUF_SIZE"
  have sh: "(?h + i) mod ?N = (h + Suc i) mod ?N" for i by (simp add: mod_simps)
  have ne: "(h + Suc i) mod ?N \<noteq> h" if "i < length xs" for i
  proof
    assume "(h + Suc i) mod ?N = h"
    then have "(h + Suc i) mod ?N = h mod ?N" using "2.prems"(2) by simp
    then have "(h + Suc i) mod ?N = (h + 0) mod ?N" by simp
    moreover have "Suc i < ?N" "0 < ?N" using that "2.prems"(3) by simp_all
    ultimately show False by (metis mod_cancel nat.distinct(1))
  qed
  from "2.IH" [of b' h'] "2.prems" have r: "length b' = ?N" "h' = (?h + length xs) mod ?N"
    "\<forall>i < length xs. b' ! ((?h + i) mod ?N) = xs ! i"
    "\<forall>j < ?N. (\<forall>i < length xs. j \<noteq> (?h + i) mod ?N) \<longrightarrow> b' ! j = b[h := x] ! j"
    by auto
  have "b' ! ((h + i) mod ?N) = (x # xs) ! i" if "i < length (x # xs)" for i
  proof (cases i)
    case 0
    have "\<forall>i < length xs. h \<noteq> (?h + i) mod ?N" unfolding sh using ne by metis
    with 0 r(4) "2.prems" show ?thesis by auto
  next
    case (Suc j)
    with r(3) [unfolded sh] that show ?thesis by auto
  qed
  moreover have "b' ! j = b ! j" if "j < ?N" "\<forall>i < length (x # xs). j \<noteq> (h + i) mod ?N" for j
  proof -
    have "j \<noteq> (h + 0) mod ?N" using that(2) by blast
    then have "j \<noteq> h" using "2.prems"(2) by simp
    moreover have "\<forall>i < length xs. j \<noteq> (?h + i) mod ?N" unfolding sh using that(2) by auto
    ultimately show ?thesis using r(4) that(1) by auto
  qed
  ultimately show ?case using r(1,2) by (simp add: mod_simps)
qed

lemma ring_get_spec: "t < TCP_BUF_SIZE \<Longrightarrow> ring_get b t n = (ring_copy b t n, (t + n) mod TCP_BUF_SIZE)"
proof (induction b t n rule: ring_get.induct)
  case (2 b t n)
  have "ring_copy b t (Suc n) = b ! t # ring_copy b ((t + 1) mod TCP_BUF_SIZE) n"
    using "2.prems" by (simp add: ring_copy_def upt_conv_Cons map_Suc_upt [symmetric] mod_simps comp_def del: upt_Suc)
  with 2 show ?case by (simp add: mod_simps)
qed (simp add: ring_copy_def)

lemma length_ring_bytes [simp]: "length (ring_bytes r) = rcount r"
  by (simp add: ring_bytes_def ring_copy_def)

interpretation rings: byte_queue ring_ok ring_bytes ring_write ring_read TCP_BUF_SIZE
proof
  fix r :: ring and xs :: "u8 list"
  assume ok: "ring_ok r" and fit: "length (ring_bytes r) + length xs \<le> TCP_BUF_SIZE"
  let ?N = TCP_BUF_SIZE
  obtain b' h' where p: "ring_put (rbuf r) (rhead r) xs = (b', h')" by fastforce
  have h: "rhead r < ?N" using ok by (simp add: ring_ok_def)
  note s = ring_put_spec [OF _ h _ p]
  have e: "(rhead r + i) mod ?N = (rtail r + (rcount r + i)) mod ?N" for i using ok by (simp add: ring_ok_def mod_simps add.assoc)
  have b': "length b' = ?N" "h' = (rtail r + (rcount r + length xs)) mod ?N"
    using s ok fit e by (auto simp: ring_ok_def)
  have "b' ! ((rtail r + i) mod ?N) = (ring_bytes r @ xs) ! i" if i: "i < rcount r + length xs" for i
  proof (cases "i < rcount r")
    case True
    have "(rtail r + i) mod ?N \<noteq> (rhead r + j) mod ?N" if "j < length xs" for j
    proof
      assume "(rtail r + i) mod ?N = (rhead r + j) mod ?N"
      then have "(rtail r + i) mod ?N = (rtail r + (rcount r + j)) mod ?N" by (simp add: e)
      moreover have "i < ?N" "rcount r + j < ?N" using True that fit by auto
      ultimately have "i = rcount r + j" by (rule mod_cancel)
      with True show False by simp
    qed
    with s ok fit have "b' ! ((rtail r + i) mod ?N) = rbuf r ! ((rtail r + i) mod ?N)" by (auto simp: ring_ok_def)
    with True show ?thesis by (simp add: nth_append ring_bytes_def ring_copy_def)
  next
    case False
    have "\<forall>k < length xs. b' ! ((rhead r + k) mod ?N) = xs ! k" using s ok fit by (auto simp: ring_ok_def)
    moreover have "i - rcount r < length xs" "rcount r + (i - rcount r) = i" using False i by auto
    ultimately have "b' ! ((rtail r + i) mod ?N) = xs ! (i - rcount r)" by (metis e)
    with False show ?thesis by (simp add: nth_append)
  qed
  then have "ring_copy b' (rtail r) (rcount r + length xs) = ring_bytes r @ xs"
    by (intro nth_equalityI) (simp_all add: ring_copy_def)
  with ok fit b' p show "ring_ok (ring_write r xs) \<and> ring_bytes (ring_write r xs) = ring_bytes r @ xs"
    by (simp add: ring_ok_def ring_write_def) (simp add: ring_bytes_def)
next
  fix r :: ring and n
  assume ok: "ring_ok r" and n: "n \<le> length (ring_bytes r)"
  have g: "ring_get (rbuf r) (rtail r) n = (ring_copy (rbuf r) (rtail r) n, (rtail r + n) mod TCP_BUF_SIZE)"
    using ok by (intro ring_get_spec) (simp add: ring_ok_def)
  have "ring_copy (rbuf r) ((rtail r + n) mod TCP_BUF_SIZE) (rcount r - n) = drop n (ring_bytes r)"
    by (rule nth_equalityI) (simp_all add: ring_copy_def ring_bytes_def mod_simps less_diff_conv add.commute add.left_commute)
  moreover have "ring_copy (rbuf r) (rtail r) n = take n (ring_bytes r)"
    using n by (intro nth_equalityI) (simp_all add: ring_copy_def ring_bytes_def)
  moreover have "ring_ok (snd (ring_read r n))"
  proof -
    have "((rtail r + n) mod TCP_BUF_SIZE + (rcount r - n)) mod TCP_BUF_SIZE = (rtail r + rcount r) mod TCP_BUF_SIZE"
      unfolding mod_add_left_eq using n by simp
    moreover have "rcount r - n \<le> TCP_BUF_SIZE" using ok unfolding ring_ok_def by linarith
    ultimately show ?thesis using ok unfolding ring_ok_def ring_read_def g by simp
  qed
  ultimately show "ring_ok (snd (ring_read r n)) \<and> fst (ring_read r n) = take n (ring_bytes r)
      \<and> ring_bytes (snd (ring_read r n)) = drop n (ring_bytes r)"
    using g by (simp add: ring_read_def) (simp add: ring_bytes_def)
qed

end
