(* ===== verification/NetSock.thy ===== *)
theory NetSock
  imports NetStream
begin

text \<open>
  The sockets of TCP stay well formed, whatever calls are made and whatever arrives, and a socket
  delivers the bytes that it accepted, in order.
\<close>

section \<open>Well-formed sockets\<close>

definition rx_ring :: "u8 list \<Rightarrow> tcp_socket \<Rightarrow> ring" where
  "rx_ring b k = \<lparr>rbuf = b, rhead = rx_head k, rtail = rx_tail k, rcount = unat (rx_count k)\<rparr>"

definition tx_ring :: "u8 list \<Rightarrow> tcp_socket \<Rightarrow> ring" where
  "tx_ring b k = \<lparr>rbuf = b, rhead = tx_head k, rtail = tx_tail k, rcount = unat (tx_count k)\<rparr>"

text \<open>
  The rings are consistent, and FIN-WAIT-2 is never entered: nothing in net.c moves a socket there.  The
  segment buffer of \<open>tcp_send\<close> has 1460 bytes.
\<close>

definition sock_ok :: "tcp_socket \<Rightarrow> bool" where
  "sock_ok k \<longleftrightarrow> tstate k \<noteq> TCP_FIN_WAIT_2 \<and> unat (mss k) \<le> 1460
     \<and> (case rx_buf k of None \<Rightarrow> rx_count k = 0 | Some b \<Rightarrow> ring_ok (rx_ring b k))
     \<and> (case tx_buf k of None \<Rightarrow> tx_count k = 0 | Some b \<Rightarrow> ring_ok (tx_ring b k))"

definition net_ok :: "net \<Rightarrow> bool" where
  "net_ok s \<longleftrightarrow> length (tcp_sockets s) = TCP_MAX_SOCKETS \<and> (\<forall>k \<in> set (tcp_sockets s). sock_ok k)"

lemma net_ok_cong: "tcp_sockets s' = tcp_sockets s \<Longrightarrow> net_ok s' = net_ok s"
  by (simp add: net_ok_def)

lemma net_ok_upd: "net_ok s \<Longrightarrow> (i < length (tcp_sockets s) \<Longrightarrow> sock_ok (sock s i) \<Longrightarrow> sock_ok (f (sock s i))) \<Longrightarrow> net_ok (upd_sock s i f)"
  by (cases "i < length (tcp_sockets s)")
    (auto simp: net_ok_def upd_sock_def sock_def list_update_beyond dest: set_update_subset_insert [THEN subsetD])

lemma net_ok_sock: "net_ok s \<Longrightarrow> i < length (tcp_sockets s) \<Longrightarrow> sock_ok (sock s i)"
  by (simp add: net_ok_def sock_def)

lemma net_ok_send: "net_ok s \<Longrightarrow> net_ok (tcp_send_segment s i fl data)"
proof -
  assume ok: "net_ok s"
  obtain n where n: "tcp_sockets (tcp_send_segment s i fl data) = tcp_sockets (upd_sock s i (\<lambda>k. k\<lparr>snd_nxt := n\<rparr>))"
    using tcp_send_segment_data by blast
  have "net_ok (upd_sock s i (\<lambda>k. k\<lparr>snd_nxt := n\<rparr>))"
    using ok by (rule net_ok_upd) (simp add: sock_ok_def rx_ring_def tx_ring_def split: option.splits)
  then show ?thesis using n by (simp add: net_ok_def)
qed

text \<open>What a socket needs to stay well formed when neither its rings nor its segment size change.\<close>

lemma sock_ok_same:
  assumes "sock_ok k" and "tstate k' \<noteq> TCP_FIN_WAIT_2" and "mss k' = mss k"
    and "rx_buf k' = rx_buf k" "rx_head k' = rx_head k" "rx_tail k' = rx_tail k" "rx_count k' = rx_count k"
    and "tx_buf k' = tx_buf k" "tx_head k' = tx_head k" "tx_tail k' = tx_tail k" "tx_count k' = tx_count k"
  shows "sock_ok k'"
  using assms by (simp add: sock_ok_def rx_ring_def tx_ring_def split: option.splits)

lemma mss_process_ack [simp]: "mss (tcp_process_ack k x) = mss k"
  by (simp add: tcp_process_ack_def Let_def)

text \<open>The fields that do not matter.\<close>

lemma sock_ok_frame [simp]:
  "sock_ok (k\<lparr>local_ip := v0\<rparr>) = sock_ok k"
  "sock_ok (k\<lparr>local_port := v1\<rparr>) = sock_ok k"
  "sock_ok (k\<lparr>remote_ip := v2\<rparr>) = sock_ok k"
  "sock_ok (k\<lparr>remote_port := v3\<rparr>) = sock_ok k"
  "sock_ok (k\<lparr>snd_una := v4\<rparr>) = sock_ok k"
  "sock_ok (k\<lparr>snd_nxt := v5\<rparr>) = sock_ok k"
  "sock_ok (k\<lparr>snd_wnd := v6\<rparr>) = sock_ok k"
  "sock_ok (k\<lparr>rcv_nxt := v7\<rparr>) = sock_ok k"
  "sock_ok (k\<lparr>rcv_wnd := v8\<rparr>) = sock_ok k"
  "sock_ok (k\<lparr>iss := v9\<rparr>) = sock_ok k"
  "sock_ok (k\<lparr>irs := v10\<rparr>) = sock_ok k"
  "sock_ok (k\<lparr>cc := v11\<rparr>) = sock_ok k"
  "sock_ok (k\<lparr>last_activity := v12\<rparr>) = sock_ok k"
  "sock_ok (k\<lparr>keepalive_probes := v13\<rparr>) = sock_ok k"
  "sock_ok (k\<lparr>in_use := v14\<rparr>) = sock_ok k"
  "sock_ok (tcp_process_ack k x) = sock_ok k"
  by (simp_all add: sock_ok_def rx_ring_def tx_ring_def process_ack_sel split: option.split)

lemma sock_ok_tstate [simp]: "sock_ok k \<Longrightarrow> st \<noteq> TCP_FIN_WAIT_2 \<Longrightarrow> sock_ok (k\<lparr>tstate := st\<rparr>)"
  by (rule sock_ok_same) simp_all

lemma not_fw2: "sock_ok k \<Longrightarrow> tstate k \<noteq> TCP_FIN_WAIT_2"
  by (simp add: sock_ok_def)

section \<open>Receiving\<close>

text \<open>The bytes of a segment that a socket stores: nothing unless it is the next in sequence, and no more than fit.\<close>

definition taken :: "tcp_socket \<Rightarrow> (nat \<Rightarrow> u8) \<Rightarrow> nat \<Rightarrow> u16 \<Rightarrow> u32 \<Rightarrow> u8 list" where
  "taken k p hlen len seq =
     (if seq = rcv_nxt k then map (\<lambda>j. p (hlen + j)) [0..<min (TCP_BUF_SIZE - unat (rx_count k)) (unat (len - of_nat hlen))] else [])"

lemma rx_space:
  assumes "unat c \<le> TCP_BUF_SIZE"
  shows "unat (of_nat TCP_BUF_SIZE - c :: u32) = TCP_BUF_SIZE - unat c"
  using assms by (subst unat_sub_small) (simp_all add: TCP_BUF_SIZE_def)

lemma accept_data_ok:
  fixes s :: net and i hlen :: nat and p :: "nat \<Rightarrow> u8" and len :: u16 and seq :: u32
  assumes i: "i < length (tcp_sockets s)" and b: "rx_buf (sock s i) = Some b" and ok: "ring_ok (rx_ring b (sock s i))"
  defines "data \<equiv> taken (sock s i) p hlen len seq"
  shows "\<exists>s' b'. accept_data s i p hlen len seq = Some s' \<and> tcp_sockets s' = (tcp_sockets s)[i := sock s' i]
    \<and> rx_buf (sock s' i) = Some b' \<and> rx_ring b' (sock s' i) = ring_write (rx_ring b (sock s i)) data
    \<and> length (ring_bytes (rx_ring b (sock s i))) + length data \<le> TCP_BUF_SIZE
    \<and> rcv_nxt (sock s' i) = rcv_nxt (sock s i) + of_nat (length data)
    \<and> tstate (sock s' i) = tstate (sock s i) \<and> mss (sock s' i) = mss (sock s i) \<and> tx_buf (sock s' i) = tx_buf (sock s i)
    \<and> tx_head (sock s' i) = tx_head (sock s i) \<and> tx_tail (sock s' i) = tx_tail (sock s i) \<and> tx_count (sock s' i) = tx_count (sock s i)"
proof -
  define k where "k = sock s i"
  define n0 where "n0 = len - of_nat hlen"
  have c: "unat (rx_count k) \<le> TCP_BUF_SIZE" using ok by (simp add: k_def ring_ok_def rx_ring_def)
  note sp = rx_space [OF c]
  define m where "m = min (TCP_BUF_SIZE - unat (rx_count k)) (unat n0)"
  have small: "unat n0 < 65536" using unsigned_less [of n0, where ?'a = nat] by simp
  then have u: "unat (ucast n0 :: u32) = unat n0" by (simp add: unsigned_ucast_eq take_bit_eq_mod)
  have n: "(if (of_nat TCP_BUF_SIZE - rx_count k :: u32) < ucast n0 then unat (of_nat TCP_BUF_SIZE - rx_count k :: u32) else unat n0)
      = m"
    using sp u by (simp add: word_less_nat_alt m_def)
  show ?thesis
  proof (cases "n0 \<noteq> 0 \<and> seq = rcv_nxt k \<and> data \<noteq> []")
    case True
    then have d: "data = map (\<lambda>j. p (hlen + j)) [0..<m]"
      by (simp add: data_def taken_def k_def n0_def m_def)
    obtain b' h where p: "ring_put b (rx_head k) data = (b', h)" by (rule prod.exhaust)
    define s1 where "s1 = upd_sock s i (\<lambda>k. k\<lparr>rx_buf := Some b', rx_head := h, rx_count := rx_count k + of_nat (length data),
      rcv_nxt := rcv_nxt k + of_nat (length data)\<rparr>)"
    have ne: "m \<noteq> 0" using True d by auto
    have acc: "accept_data s i p hlen len seq = Some (tcp_send_segment s1 i TCP_FLAG_ACK [])"
      using True b p unfolding accept_data_def Let_def k_def [symmetric] n0_def [symmetric] n d [symmetric] s1_def
      using ne by (simp add: d)
    have len: "length data \<le> TCP_BUF_SIZE - unat (rx_count k)" by (simp add: d m_def)
    then have "unat (rx_count k + of_nat (length data)) = unat (rx_count k) + length data"
      using c by (subst unat_add_small) (simp_all add: unat_of_nat_small TCP_BUF_SIZE_def)
    then have "rx_ring b' (sock s1 i) = ring_write (rx_ring b k) data"
      using i p by (simp add: s1_def rx_ring_def ring_write_def k_def)
    then show ?thesis using acc i b len c
      by (intro exI [of _ "tcp_send_segment s1 i TCP_FLAG_ACK []"] exI [of _ b'])
        (simp add: s1_def tcp_send_segment_sockets k_def rx_ring_def, simp add: upd_sock_def sock_def)
  next
    case False
    have d: "data = []"
      using False by (auto simp: data_def taken_def k_def n0_def)
    have "\<exists>s'. accept_data s i p hlen len seq = Some s' \<and> tcp_sockets s' = tcp_sockets s"
    proof (cases "n0 \<noteq> 0 \<and> seq = rcv_nxt k")
      case True
      with d have "m = 0"
        by (auto simp: data_def taken_def k_def n0_def m_def)
      with True show ?thesis unfolding accept_data_def Let_def k_def [symmetric] n0_def [symmetric] n
        by (simp add: tcp_send_segment_sockets)
    next
      case False
      then show ?thesis by (auto simp: accept_data_def Let_def k_def n0_def)
    qed
    then obtain s' where s': "accept_data s i p hlen len seq = Some s'" "tcp_sockets s' = tcp_sockets s" by blast
    then have "sock s' i = sock s i" by (simp add: sock_def)
    with s' b c d show ?thesis
      by (intro exI [of _ s'] exI [of _ b]) (simp add: ring_write_def k_def rx_ring_def, simp add: sock_def)
  qed
qed

lemma recv_ready_ok:
  fixes s :: net and i :: nat and n :: u32
  assumes i: "i < length (tcp_sockets s)" and b: "rx_buf (sock s i) = Some b" and ok: "ring_ok (rx_ring b (sock s i))"
  defines "m \<equiv> unat (umin n (rx_count (sock s i)))"
  shows "\<exists>s'. recv_ready s i n = Some (s', fst (ring_read (rx_ring b (sock s i)) m)) \<and> m \<le> length (ring_bytes (rx_ring b (sock s i)))
    \<and> tcp_sockets s' = (tcp_sockets s)[i := sock s' i] \<and> rx_buf (sock s' i) = Some b
    \<and> rx_ring b (sock s' i) = snd (ring_read (rx_ring b (sock s i)) m)
    \<and> tstate (sock s' i) = tstate (sock s i) \<and> mss (sock s' i) = mss (sock s i) \<and> tx_buf (sock s' i) = tx_buf (sock s i)
    \<and> tx_head (sock s' i) = tx_head (sock s i) \<and> tx_tail (sock s' i) = tx_tail (sock s i) \<and> tx_count (sock s' i) = tx_count (sock s i)"
proof -
  define k where "k = sock s i"
  define u where "u = umin n (rx_count k)"
  have le: "u \<le> rx_count k" by (auto simp: u_def umin_def)
  then have m: "m = unat u" "m \<le> unat (rx_count k)" by (simp_all add: m_def u_def k_def word_le_nat_alt [symmetric])
  have sub: "unat (rx_count k - u) = unat (rx_count k) - unat u" using le by (simp add: unat_sub)
  show ?thesis
  proof (cases "u = 0")
    case True
    define s1 where "s1 = upd_sock s i (\<lambda>k. k\<lparr>rcv_wnd := TCP_DEFAULT_WINDOW - rx_count k\<rparr>)"
    have "recv_ready s i n = Some (s1, [])" using True by (simp add: recv_ready_def Let_def k_def u_def s1_def)
    then show ?thesis using i b m True
      by (intro exI [of _ s1]) (simp add: s1_def ring_read_def rx_ring_def k_def, simp add: upd_sock_def sock_def)
  next
    case False
    obtain data t where g: "ring_get b (rx_tail k) (unat u) = (data, t)" by (rule prod.exhaust)
    define s1 where "s1 = upd_sock s i (\<lambda>k. k\<lparr>rx_tail := t, rx_count := rx_count k - u,
                          rcv_wnd := TCP_DEFAULT_WINDOW - (rx_count k - u)\<rparr>)"
    have "recv_ready s i n = Some (tcp_send_segment s1 i TCP_FLAG_ACK [], data)"
      using False b g unfolding recv_ready_def Let_def k_def [symmetric] u_def [symmetric] by (simp add: s1_def)
    then show ?thesis using i b m g sub
      by (intro exI [of _ "tcp_send_segment s1 i TCP_FLAG_ACK []"])
        (simp add: s1_def tcp_send_segment_sockets ring_read_def rx_ring_def k_def, simp add: upd_sock_def sock_def)
  qed
qed

lemma sockets_upd_twice:
  "i < length (tcp_sockets s) \<Longrightarrow> tcp_sockets s1 = (tcp_sockets s)[i := x] \<Longrightarrow> tcp_sockets s2 = (tcp_sockets s1)[i := y]
    \<Longrightarrow> tcp_sockets s2 = (tcp_sockets s)[i := sock s2 i]"
  by (simp add: sock_def)

lemma sockets_upd_sock: "i < length (tcp_sockets s) \<Longrightarrow> tcp_sockets (upd_sock s i f) = (tcp_sockets s)[i := f (sock s i)]"
  by (simp add: upd_sock_def sock_def)

definition in_stream :: "tcp_state \<Rightarrow> bool" where
  "in_stream st \<longleftrightarrow> st = TCP_ESTABLISHED \<or> st = TCP_FIN_WAIT_1 \<or> st = TCP_FIN_WAIT_2"

text \<open>The bytes that a segment adds to the stream of a socket.\<close>

definition segment_data :: "tcp_socket \<Rightarrow> (nat \<Rightarrow> u8) \<Rightarrow> u16 \<Rightarrow> u8 list" where
  "segment_data k p len = (if in_stream (tstate k) then taken k p (unat (drop_bit 4 (p 12)) * 4) len (ntohl (ld32 p 4)) else [])"

lemma taken_cong: "rcv_nxt k' = rcv_nxt k \<Longrightarrow> rx_count k' = rx_count k \<Longrightarrow> taken k' p h l sq = taken k p h l sq"
  by (simp add: taken_def)

lemma rx_ring_cong: "rx_head k' = rx_head k \<Longrightarrow> rx_tail k' = rx_tail k \<Longrightarrow> rx_count k' = rx_count k \<Longrightarrow> rx_ring b k' = rx_ring b k"
  by (simp add: rx_ring_def)

lemma accept_fin_sel [simp]:
  "i < length (tcp_sockets s) \<Longrightarrow> rx_buf (sock (accept_fin s i fl) i) = rx_buf (sock s i)"
  "i < length (tcp_sockets s) \<Longrightarrow> rx_ring b (sock (accept_fin s i fl) i) = rx_ring b (sock s i)"
  "length (tcp_sockets (accept_fin s i fl)) = length (tcp_sockets s)"
  by (simp_all add: accept_fin_def rx_ring_def)

lemma ring_write_Nil [simp]: "ring_write r [] = r"
  by (simp add: ring_write_def)

lemma segment_rx:
  assumes i: "i < length (tcp_sockets s)" and b: "rx_buf (sock s i) = Some b" and ok: "ring_ok (rx_ring b (sock s i))"
  shows "\<exists>s' b'. segment_arrives s i src p len us now = Some s' \<and> length (tcp_sockets s') = length (tcp_sockets s)
    \<and> rx_buf (sock s' i) = Some b' \<and> rx_ring b' (sock s' i) = ring_write (rx_ring b (sock s i)) (segment_data (sock s i) p len)
    \<and> length (ring_bytes (rx_ring b (sock s i))) + length (segment_data (sock s i) p len) \<le> TCP_BUF_SIZE"
proof (cases "in_stream (tstate (sock s i))")
  case False
  have c: "length (ring_bytes (rx_ring b (sock s i))) \<le> TCP_BUF_SIZE" using ok by (simp add: ring_ok_def)
  from False i b c show ?thesis
    by (cases "tstate (sock s i)")
      (auto simp: segment_arrives_def segment_data_def in_stream_def Let_def process_ack_sel rx_ring_def)
next
  case True
  let ?fl = "p 13" and ?h = "unat (drop_bit 4 (p 12)) * 4" and ?seq = "ntohl (ld32 p 4)"
  define s0 where "s0 = upd_sock s i (\<lambda>k. k\<lparr>last_activity := now\<rparr>)"
  define s1 where "s1 = (if ?fl AND TCP_FLAG_ACK \<noteq> 0
    then upd_sock s0 i (\<lambda>k. (tcp_process_ack k (ntohl (ld32 p 8)))\<lparr>snd_wnd := ucast (ntohs (ld16 p 14))\<rparr>) else s0)"
  have s1: "i < length (tcp_sockets s1)" "rx_buf (sock s1 i) = Some b" "rx_ring b (sock s1 i) = rx_ring b (sock s i)"
    "rcv_nxt (sock s1 i) = rcv_nxt (sock s i)" "rx_count (sock s1 i) = rx_count (sock s i)" "length (tcp_sockets s1) = length (tcp_sockets s)"
    using i b by (simp_all add: s1_def s0_def process_ack_sel rx_ring_def)
  from accept_data_ok [OF s1(1,2), where p = p and hlen = ?h and len = len and seq = ?seq] s1 ok obtain s2 b' where s2: "accept_data s1 i p ?h len ?seq = Some s2"
    "tcp_sockets s2 = (tcp_sockets s1)[i := sock s2 i]" "rx_buf (sock s2 i) = Some b'"
    "rx_ring b' (sock s2 i) = ring_write (rx_ring b (sock s i)) (segment_data (sock s i) p len)"
    "length (ring_bytes (rx_ring b (sock s i))) + length (segment_data (sock s i) p len) \<le> TCP_BUF_SIZE"
    using True taken_cong [OF s1(4,5)] by (auto simp: segment_data_def)
  have l2: "length (tcp_sockets s2) = length (tcp_sockets s)" using s2(2) s1(6) by (metis length_list_update)
  have "segment_arrives s i src p len us now = Some (accept_fin s2 i ?fl)"
    using True s2(1) i unfolding segment_arrives_def Let_def s0_def [symmetric]
    by (auto simp: in_stream_def s1_def s0_def)
  with s2 l2 i show ?thesis by (intro exI [of _ "accept_fin s2 i ?fl"] exI [of _ b']) simp
qed

section \<open>The stream of a socket\<close>

datatype sock_event = Segment u32 "nat \<Rightarrow> u8" u16 u64 u64 | Read u32

fun deliver :: "net \<Rightarrow> nat \<Rightarrow> sock_event \<Rightarrow> (net \<times> u8 list) option" where
  "deliver s i (Segment src p len us now) = map_option (\<lambda>s'. (s', [])) (segment_arrives s i src p len us now)"
| "deliver s i (Read n) = recv_ready s i n"

fun accepted :: "net \<Rightarrow> nat \<Rightarrow> sock_event \<Rightarrow> u8 list" where
  "accepted s i (Segment src p len us now) = segment_data (sock s i) p len"
| "accepted s i (Read n) = []"

text \<open>The state after a series of events, the bytes that came in and the bytes that were read.\<close>

fun session :: "net \<Rightarrow> nat \<Rightarrow> sock_event list \<Rightarrow> (net \<times> u8 list \<times> u8 list) option" where
  "session s i [] = Some (s, [], [])"
| "session s i (e # es) =
     (case deliver s i e of
        None \<Rightarrow> None
      | Some (s1, out1) \<Rightarrow> (case session s1 i es of
            None \<Rightarrow> None
          | Some (s2, ins, out) \<Rightarrow> Some (s2, accepted s i e @ ins, out1 @ out)))"

lemma deliver_flows:
  assumes "i < length (tcp_sockets s)" and "rx_buf (sock s i) = Some b" and "ring_ok (rx_ring b (sock s i))"
  shows "\<exists>s' out b'. deliver s i e = Some (s', out) \<and> i < length (tcp_sockets s') \<and> rx_buf (sock s' i) = Some b'
    \<and> rings.flows (rx_ring b (sock s i)) (accepted s i e) out (rx_ring b' (sock s' i))"
proof (cases e)
  case (Segment src p len us now)
  from segment_rx [OF assms, of src p len us now] assms rings.flows_put [OF assms(3)] show ?thesis
    unfolding Segment by (fastforce simp: Segment)
next
  case (Read n)
  from recv_ready_ok [OF assms, of n] obtain s' where s': "recv_ready s i n = Some (s', fst (ring_read (rx_ring b (sock s i)) (unat (umin n (rx_count (sock s i))))))"
    "unat (umin n (rx_count (sock s i))) \<le> length (ring_bytes (rx_ring b (sock s i)))" "tcp_sockets s' = (tcp_sockets s)[i := sock s' i]"
    "rx_buf (sock s' i) = Some b" "rx_ring b (sock s' i) = snd (ring_read (rx_ring b (sock s i)) (unat (umin n (rx_count (sock s i)))))"
    by blast
  from s'(3) assms(1) have "i < length (tcp_sockets s')" by (metis length_list_update)
  with s' rings.flows_get [OF assms(3) s'(2)] show ?thesis unfolding Read by auto
qed

text \<open>
  C7: What a socket delivers is what it accepted.  Over any series of segments and reads on a socket, no
  operation fails, the bytes read followed by the bytes still buffered are the bytes buffered at the start followed by the
  payloads accepted, in the order in which they arrived, and the ring buffer stays consistent.
\<close>

theorem stream_in_order:
  assumes "i < length (tcp_sockets s)" and "rx_buf (sock s i) = Some b" and "ring_ok (rx_ring b (sock s i))"
  shows "\<exists>s' ins out b'. session s i es = Some (s', ins, out) \<and> rx_buf (sock s' i) = Some b' \<and> ring_ok (rx_ring b' (sock s' i))
    \<and> out @ ring_bytes (rx_ring b' (sock s' i)) = ring_bytes (rx_ring b (sock s i)) @ ins"
proof -
  have "\<exists>s' ins out b'. session s i es = Some (s', ins, out) \<and> rx_buf (sock s' i) = Some b'
      \<and> rings.flows (rx_ring b (sock s i)) ins out (rx_ring b' (sock s' i))"
    using assms
  proof (induction es arbitrary: s b)
    case Nil
    then show ?case using rings.flows_refl by auto
  next
    case (Cons e es)
    from deliver_flows [OF Cons.prems, of e] obtain s1 out1 b1 where s1: "deliver s i e = Some (s1, out1)" "i < length (tcp_sockets s1)"
      "rx_buf (sock s1 i) = Some b1" and f1: "rings.flows (rx_ring b (sock s i)) (accepted s i e) out1 (rx_ring b1 (sock s1 i))"
      by blast
    from f1 have "ring_ok (rx_ring b1 (sock s1 i))" by (simp add: rings.flows_def)
    from Cons.IH [OF s1(2,3) this] obtain s' ins out b' where "session s1 i es = Some (s', ins, out)" "rx_buf (sock s' i) = Some b'"
      and f2: "rings.flows (rx_ring b1 (sock s1 i)) ins out (rx_ring b' (sock s' i))" by blast
    with s1 rings.flows_trans [OF f1 f2] show ?case by auto
  qed
  then show ?thesis by (auto simp: rings.flows_def)
qed

text \<open>A socket that has just been created, and put into a connection that expects byte 5 of the stream.\<close>

definition demo_conn :: net where
  "demo_conn = upd_sock (fst (tcp_socket_create (demo_net 1 0x0200000A))) 0 (\<lambda>k. k\<lparr>tstate := TCP_ESTABLISHED, rcv_nxt := 5\<rparr>)"

lemma demo_conn_sock:
  "length (tcp_sockets demo_conn) = 256" "rx_buf (sock demo_conn 0) = Some (replicate TCP_BUF_SIZE 0)"
  "rx_head (sock demo_conn 0) = 0" "rx_tail (sock demo_conn 0) = 0" "rx_count (sock demo_conn 0) = 0"
proof -
  have "first_slot (\<lambda>i. \<not> in_use (sock (demo_net 1 0x0200000A) i)) 0 TCP_MAX_SOCKETS = Some 0"
    by (rule first_slot_eqI) (simp_all add: sock_def demo_net_sel zero_socket_def TCP_MAX_SOCKETS_def)
  moreover have "grants (demo_net 1 0x0200000A) = (\<lambda>_. True)" by (simp add: demo_net_def net_init_def)
  ultimately show "length (tcp_sockets demo_conn) = 256" "rx_buf (sock demo_conn 0) = Some (replicate TCP_BUF_SIZE 0)"
    "rx_head (sock demo_conn 0) = 0" "rx_tail (sock demo_conn 0) = 0" "rx_count (sock demo_conn 0) = 0"
    by (simp_all add: demo_conn_def tcp_socket_create_def new_buf_def net_kmalloc_def Let_def upd_sock_def sock_def demo_net_sel zero_socket_def)
qed

theorem stream_in_order_witness:
  "\<exists>s' ins out b'. session demo_conn 0 [Segment 7 (mem_of (tcp_hdr (zero_socket\<lparr>snd_nxt := 5\<rparr>) TCP_FLAG_ACK @ [1, 2, 3])) 23 8 9, Read 2]
     = Some (s', ins, out) \<and> out @ ring_bytes (rx_ring b' (sock s' 0)) = ins"
proof -
  have r: "ring_ok (rx_ring (replicate TCP_BUF_SIZE 0) (sock demo_conn 0))" "ring_bytes (rx_ring (replicate TCP_BUF_SIZE 0) (sock demo_conn 0)) = []"
    by (simp_all add: ring_ok_def rx_ring_def demo_conn_sock ring_bytes_def ring_copy_def)
  have l: "0 < length (tcp_sockets demo_conn)" by (simp add: demo_conn_sock)
  show ?thesis
    using stream_in_order [OF l demo_conn_sock(2) r(1),
      of "[Segment 7 (mem_of (tcp_hdr (zero_socket\<lparr>snd_nxt := 5\<rparr>) TCP_FLAG_ACK @ [1, 2, 3])) 23 8 9, Read 2]"] r(2) by auto
qed

section \<open>Every operation keeps the sockets well formed\<close>

lemma net_ok_create: "net_ok s \<Longrightarrow> net_ok (fst (tcp_socket_create s))"
proof -
  have "sock_ok (zero_socket\<lparr>rx_buf := rx, tx_buf := tx, rcv_wnd := TCP_DEFAULT_WINDOW, mss := TCP_MSS,
      in_use := True, cc := c\<rparr>)" if "rx = None \<or> rx = Some (replicate TCP_BUF_SIZE 0)" "tx = None \<or> tx = Some (replicate TCP_BUF_SIZE 0)" for rx tx c
    using that by (auto simp: sock_ok_def zero_socket_def TCP_MSS_def rx_ring_def tx_ring_def ring_ok_def)
  moreover assume "net_ok s"
  ultimately show ?thesis
    by (auto simp: tcp_socket_create_def new_buf_def net_kmalloc_def Let_def split: option.split intro!: net_ok_upd)
      (auto simp: net_ok_def)
qed

lemma net_ok_state:
  assumes "net_ok s" and "st \<noteq> TCP_FIN_WAIT_2"
  shows "net_ok (upd_sock s i (\<lambda>k. k\<lparr>tstate := st\<rparr>))"
  using assms(1) by (rule net_ok_upd) (simp add: assms(2))

lemma net_ok_bind: "net_ok s \<Longrightarrow> net_ok (fst (tcp_bind s fd ip port))"
  by (auto simp: tcp_bind_def next_port_def intro!: net_ok_upd)
    (auto simp: net_ok_def sock_def)

lemma net_ok_connect: "net_ok s \<Longrightarrow> net_ok (connect_start s i ip port us now)"
  by (auto simp: connect_start_def next_port_def Let_def intro!: net_ok_send net_ok_upd)
    (auto simp: net_ok_def sock_def)

lemma net_ok_listen: "net_ok s \<Longrightarrow> net_ok (fst (tcp_listen s fd))"
  by (simp add: tcp_listen_def net_ok_state)

lemma net_ok_close_start: "net_ok s \<Longrightarrow> net_ok (close_start s i)"
  by (simp add: close_start_def net_ok_state net_ok_send)

lemma net_ok_release: "net_ok s \<Longrightarrow> net_ok (upd_sock s i (\<lambda>k. k\<lparr>in_use := False\<rparr>))"
  by (rule net_ok_upd) simp_all

lemma net_ok_replace:
  "net_ok s \<Longrightarrow> i < length (tcp_sockets s) \<Longrightarrow> tcp_sockets s' = (tcp_sockets s)[i := k] \<Longrightarrow> sock_ok k \<Longrightarrow> net_ok s'"
  by (auto simp: net_ok_def dest: set_update_subset_insert [THEN subsetD])

lemma net_ok_accept_data:
  assumes ok: "net_ok s" and i: "i < length (tcp_sockets s)" and a: "accept_data s i p hlen len seq = Some s'"
  shows "net_ok s'"
proof (cases "rx_buf (sock s i)")
  case None
  then show ?thesis using a ok by (auto simp: accept_data_def Let_def net_ok_send split: if_splits)
next
  case (Some b)
  with net_ok_sock [OF ok i] have r: "ring_ok (rx_ring b (sock s i))" by (simp add: sock_ok_def)
  from accept_data_ok [OF i Some r, where p = p and hlen = hlen and len = len and seq = seq] a obtain b'
    where s': "tcp_sockets s' = (tcp_sockets s)[i := sock s' i]" "rx_buf (sock s' i) = Some b'"
    "ring_ok (rx_ring b' (sock s' i))" "tstate (sock s' i) = tstate (sock s i)" "mss (sock s' i) = mss (sock s i)"
    "tx_buf (sock s' i) = tx_buf (sock s i)" "tx_head (sock s' i) = tx_head (sock s i)" "tx_tail (sock s' i) = tx_tail (sock s i)"
    "tx_count (sock s' i) = tx_count (sock s i)"
    using rings.put_law [OF r] by force
  with net_ok_sock [OF ok i] have "sock_ok (sock s' i)"
    by (simp add: sock_ok_def tx_ring_def split: option.splits)
  with net_ok_replace [OF ok i s'(1)] show ?thesis .
qed

lemma net_ok_recv:
  assumes ok: "net_ok s" and i: "i < length (tcp_sockets s)" and a: "recv_ready s i n = Some (s', xs)"
  shows "net_ok s'"
proof (cases "rx_buf (sock s i)")
  case None
  with net_ok_sock [OF ok i] have "umin n (rx_count (sock s i)) = 0" by (simp add: sock_ok_def umin_def word_gt_0)
  then have "s' = upd_sock s i (\<lambda>k. k\<lparr>rcv_wnd := TCP_DEFAULT_WINDOW - rx_count k\<rparr>)" using a by (simp add: recv_ready_def Let_def)
  then show ?thesis using ok by (auto intro!: net_ok_upd)
next
  case (Some b)
  with net_ok_sock [OF ok i] have r: "ring_ok (rx_ring b (sock s i))" by (simp add: sock_ok_def)
  from recv_ready_ok [OF i Some r, of n] a
  have s': "tcp_sockets s' = (tcp_sockets s)[i := sock s' i]" "rx_buf (sock s' i) = Some b"
    "ring_ok (rx_ring b (sock s' i))" "tstate (sock s' i) = tstate (sock s i)" "mss (sock s' i) = mss (sock s i)"
    "tx_buf (sock s' i) = tx_buf (sock s i)" "tx_head (sock s' i) = tx_head (sock s i)" "tx_tail (sock s' i) = tx_tail (sock s i)"
    "tx_count (sock s' i) = tx_count (sock s i)"
    using rings.get_law [OF r] by auto
  with net_ok_sock [OF ok i] have "sock_ok (sock s' i)"
    by (simp add: sock_ok_def tx_ring_def split: option.splits)
  with net_ok_replace [OF ok i s'(1)] show ?thesis .
qed

lemma net_ok_segment:
  assumes ok: "net_ok s" and i: "i < length (tcp_sockets s)" and a: "segment_arrives s i src p len us now = Some s'"
  shows "net_ok s'"
proof -
  have touch: "net_ok (upd_sock s i (\<lambda>k. k\<lparr>last_activity := now\<rparr>))"
    using ok by (auto intro!: net_ok_upd)
  have upd: "net_ok (upd_sock t i f)" if "net_ok t" "\<And>k. sock_ok k \<Longrightarrow> sock_ok (f k)" for t f
    using that by (auto intro: net_ok_upd)
  have fin: "net_ok (accept_fin t i fl)" if "net_ok t" for t fl
    unfolding accept_fin_def using that
    by (auto intro!: upd net_ok_send dest: not_fw2 split: tcp_state.splits)
  have acc: "net_ok t'" if "accept_data t i p h len sq = Some t'" "net_ok t" "length (tcp_sockets t) = length (tcp_sockets s)" for t t' h sq
    using net_ok_accept_data [OF that(2) _ that(1)] that(3) i by simp
  have acc2: "net_ok t'" if "accept_data (upd_sock t i (\<lambda>k. (tcp_process_ack k x)\<lparr>snd_wnd := y\<rparr>)) i p h len sq = Some t'" "net_ok t"
    "length (tcp_sockets t) = length (tcp_sockets s)" for t t' h sq x y
    using acc [OF that(1)] that(2,3) by (simp add: upd)
  show ?thesis using a touch
    by (auto simp: segment_arrives_def Let_def process_ack_sel split: tcp_state.splits if_splits option.splits
        intro!: fin upd net_ok_send intro: acc acc2 dest: not_fw2)
qed

lemma net_ok_length: "net_ok s \<Longrightarrow> length (tcp_sockets s) = TCP_MAX_SOCKETS"
  by (simp add: net_ok_def)

lemma net_ok_tcp_rx: "net_ok s \<Longrightarrow> tcp_rx s src p len us now = Some s' \<Longrightarrow> net_ok s'"
  by (auto simp: tcp_rx_def find_socket_def net_ok_length split: option.splits dest!: first_slot_Some intro: net_ok_segment)

text \<open>Sending: the round puts the data into the ring, and the push takes a segment from it.\<close>

lemma net_ok_send_round:
  assumes ok: "net_ok s" and i: "i < length (tcp_sockets s)" and fit: "unat (tx_count (sock s i)) + length data \<le> TCP_BUF_SIZE"
    and a: "send_round s i data = Some s'"
  shows "net_ok s'"
proof -
  obtain b where b: "tx_buf (sock s i) = Some b" using a by (auto simp: send_round_def split: option.splits)
  with net_ok_sock [OF ok i] have r: "ring_ok (tx_ring b (sock s i))" by (simp add: sock_ok_def)
  obtain b' h where p: "ring_put b (tx_head (sock s i)) data = (b', h)" by (rule prod.exhaust)
  define s1 where "s1 = upd_sock s i (\<lambda>k. k\<lparr>tx_buf := Some b', tx_head := h, tx_count := tx_count k + of_nat (length data)\<rparr>)"
  have "unat (tx_count (sock s i) + of_nat (length data)) = unat (tx_count (sock s i)) + length data"
    using fit by (subst unat_add_small) (simp_all add: unat_of_nat_small TCP_BUF_SIZE_def)
  then have "tx_ring b' (sock s1 i) = ring_write (tx_ring b (sock s i)) data"
    using i p by (simp add: s1_def tx_ring_def ring_write_def)
  then have r1: "ring_ok (tx_ring b' (sock s1 i))" using rings.put_law [OF r] fit by (simp add: tx_ring_def)
  have "sock_ok (sock s1 i)"
    using net_ok_sock [OF ok i] r1 i by (simp add: s1_def sock_ok_def rx_ring_def split: option.splits)
  moreover have "tcp_sockets s1 = (tcp_sockets s)[i := sock s1 i]" using i by (simp add: s1_def sockets_upd_sock)
  ultimately have ok1: "net_ok s1" using net_ok_replace [OF ok i] by blast
  have l1: "i < length (tcp_sockets s1)" "tx_buf (sock s1 i) = Some b'" using i by (simp_all add: s1_def)
  define n where "n = send_allowance (sock s1 i)"
  have nle: "unat n \<le> unat (tx_count (sock s1 i))"
    by (simp add: n_def send_allowance_def umin_def word_le_nat_alt [symmetric]) (auto intro: less_imp_le order_trans)
  have "net_ok (tcp_push s1 i)"
  proof (cases "n = 0")
    case True
    with ok1 l1 show ?thesis by (simp add: tcp_push_def Let_def n_def)
  next
    case False
    define t where "t = tcp_send_segment s1 i (TCP_FLAG_ACK OR TCP_FLAG_PSH) (ring_copy b' (tx_tail (sock s1 i)) (unat n))"
    obtain m where m: "tcp_sockets t = tcp_sockets (upd_sock s1 i (\<lambda>k. k\<lparr>snd_nxt := m\<rparr>))"
      unfolding t_def using tcp_send_segment_data by blast
    have "tcp_push s1 i = upd_sock t i (\<lambda>k. k\<lparr>tx_tail := (tx_tail k + unat n) mod TCP_BUF_SIZE, tx_count := tx_count k - n,
        cc := (cc k)\<lparr>flight_size := flight_size (cc k) + n\<rparr>\<rparr>)"
      using False l1 unfolding tcp_push_def Let_def n_def [symmetric] t_def by simp
    moreover have "sock t i = (sock s1 i)\<lparr>snd_nxt := m\<rparr>" "length (tcp_sockets t) = length (tcp_sockets s1)"
      using m l1 by (simp_all add: sock_def upd_sock_def)
    moreover have "ring_ok \<lparr>rbuf = b', rhead = tx_head (sock s1 i), rtail = (tx_tail (sock s1 i) + unat n) mod TCP_BUF_SIZE,
        rcount = unat (tx_count (sock s1 i) - n)\<rparr>"
    proof -
      have "n \<le> tx_count (sock s1 i)" using nle by (simp add: word_le_nat_alt)
      then have "unat (tx_count (sock s1 i) - n) = unat (tx_count (sock s1 i)) - unat n" by (simp add: unat_sub)
      moreover have "ring_get b' (tx_tail (sock s1 i)) (unat n) = (ring_copy b' (tx_tail (sock s1 i)) (unat n), (tx_tail (sock s1 i) + unat n) mod TCP_BUF_SIZE)"
        using r1 by (intro ring_get_spec) (simp add: ring_ok_def tx_ring_def)
      ultimately show ?thesis using rings.get_law [OF r1, of "unat n"] nle by (simp add: ring_read_def tx_ring_def)
    qed
    moreover have "net_ok t" unfolding t_def using ok1 by (rule net_ok_send)
    ultimately show ?thesis using net_ok_sock [OF ok1 l1(1)] l1
      by (auto intro!: net_ok_upd simp: sock_ok_def rx_ring_def tx_ring_def split: option.splits)
  qed
  with ok1 a b p show ?thesis by (auto simp: send_round_def Let_def simp flip: s1_def split: if_splits)
qed

lemma net_ok_timer: "net_ok s \<Longrightarrow> net_ok (tcp_timer_callback now s)"
proof -
  have "net_ok (timer_socket now i s)" if "net_ok s" for i s
    using that by (auto simp: timer_socket_def Let_def intro!: net_ok_upd net_ok_send) 
  then have "net_ok (fold (timer_socket now) is s)" if "net_ok s" for "is" s
    using that by (induction "is" arbitrary: s) simp_all
  then show "net_ok s \<Longrightarrow> net_ok (tcp_timer_callback now s)" by (simp add: tcp_timer_callback_def)
qed

lemma arp_lookup_sockets: "arp_lookup s ip = Some (s', r) \<Longrightarrow> tcp_sockets s' = tcp_sockets s"
  by (auto simp: arp_lookup_def Let_def arp_request_def transmit_def split: list.splits option.splits)

lemma net_ok_other [simp]:
  "net_ok (arp_rx s d p now) = net_ok s" "net_ok (upd_if s d f) = net_ok s" "net_ok (transmit s d bs) = net_ok s"
  "net_ok (udp_rx s p len) = net_ok s"
  by (rule net_ok_cong, simp add: arp_rx_def upd_if_def transmit_def udp_rx_def dns_response_def Let_def split: option.split)+

lemma net_ok_packet: "net_ok s \<Longrightarrow> net_rx_packet s d p len us now = Some s' \<Longrightarrow> net_ok s'"
proof -
  have frag: "fragment_rx s q src dst ident proto off n now = Some s' \<Longrightarrow> net_ok s' = net_ok s" for s q src dst ident proto off n s'
    by (rule net_ok_cong) (auto simp: fragment_rx_def Let_def split: option.splits if_splits)
  have icmp: "icmp_rx s d src dst q = Some s' \<Longrightarrow> net_ok s' = net_ok s" for s d src dst q s'
    by (rule net_ok_cong) (auto simp: icmp_rx_def Let_def transmit_def split: option.splits if_splits dest!: arp_lookup_sockets)
  have ip: "ip_rx s d p len us now = Some s' \<Longrightarrow> net_ok s \<Longrightarrow> net_ok s'" for s d p s'
    by (auto simp: ip_rx_def Let_def frag icmp split: if_splits intro: net_ok_tcp_rx)
  show "net_ok s \<Longrightarrow> net_rx_packet s d p len us now = Some s' \<Longrightarrow> net_ok s'"
    by (auto simp: net_rx_packet_def Let_def split: if_splits dest!: ip)
qed

section \<open>Reachable states\<close>

text \<open>
  What changes the sockets: the socket calls, taken apart at the points where they wait, a packet handed over
  by a driver, and the timer.  The rounds of \<open>tcp_send\<close> after the first do not look at the state of the
  socket again, so a round may happen in any state, as long as the data fit the ring.
\<close>

inductive net_step :: "net \<Rightarrow> net \<Rightarrow> bool" where
  create: "net_step s (fst (tcp_socket_create s))"
| bind: "net_step s (fst (tcp_bind s fd ip port))"
| connect: "open_sock s fd \<Longrightarrow> net_step s (connect_start s (nat fd) ip port us now)"
| listen: "net_step s (fst (tcp_listen s fd))"
| send: "nat fd < TCP_MAX_SOCKETS \<Longrightarrow> unat (tx_count (sock s (nat fd))) + length data \<le> TCP_BUF_SIZE
    \<Longrightarrow> send_round s (nat fd) data = Some s' \<Longrightarrow> net_step s s'"
| recv: "open_sock s fd \<Longrightarrow> recv_ready s (nat fd) n = Some (s', out) \<Longrightarrow> net_step s s'"
| close: "open_sock s fd \<Longrightarrow> net_step s (close_start s (nat fd))"
| release: "open_sock s fd \<Longrightarrow> net_step s (upd_sock s (nat fd) (\<lambda>k. k\<lparr>in_use := False\<rparr>))"
| packet: "net_rx_packet s d p len us now = Some s' \<Longrightarrow> net_step s s'"
| timer: "net_step s (tcp_timer_callback now s)"

inductive net_reach :: "net \<Rightarrow> bool" where
  start: "net_reach (net_init s)"
| step: "net_reach s \<Longrightarrow> net_step s s' \<Longrightarrow> net_reach s'"

lemma net_ok_init: "net_ok (net_init s)"
  by (simp add: net_ok_def net_init_def sock_ok_def zero_socket_def)

lemma net_step_ok: "net_step s s' \<Longrightarrow> net_ok s \<Longrightarrow> net_ok s'"
proof (induction rule: net_step.induct)
  case (send fd s data s')
  then have "nat fd < length (tcp_sockets s)" by (simp add: net_ok_length)
  with send net_ok_send_round show ?case by blast
next
  case (recv s fd n s' out)
  then have "nat fd < length (tcp_sockets s)" by (simp add: open_sock_def net_ok_length nat_less_iff)
  with recv net_ok_recv show ?case by blast
qed (simp_all add: net_ok_create net_ok_bind net_ok_connect net_ok_listen net_ok_close_start net_ok_release net_ok_packet net_ok_timer)

lemma net_reach_ok: "net_reach s \<Longrightarrow> net_ok s"
  by (induction rule: net_reach.induct) (auto intro: net_ok_init net_step_ok)

text \<open>
  C22: In every reachable state of the stack, whatever calls are made and whatever packets arrive, the rings of
  every socket are consistent and within their buffers, a segment fits the buffer of \<open>tcp_send\<close>, and no socket is
  in FIN-WAIT-2: the acknowledgement of a FIN is not noticed, so a connection closed from this side
  waits in FIN-WAIT-1 for the FIN of the peer.
\<close>

theorem reachable_sockets:
  assumes "net_reach s" and "k \<in> set (tcp_sockets s)"
  shows "tstate k \<noteq> TCP_FIN_WAIT_2 \<and> unat (mss k) \<le> 1460
    \<and> (\<forall>b. rx_buf k = Some b \<longrightarrow> length b = 65536 \<and> rx_head k < 65536 \<and> rx_tail k < 65536
         \<and> rx_head k = (rx_tail k + unat (rx_count k)) mod 65536 \<and> unat (rx_count k) \<le> 65536)
    \<and> (\<forall>b. tx_buf k = Some b \<longrightarrow> length b = 65536 \<and> tx_head k < 65536 \<and> tx_tail k < 65536
         \<and> tx_head k = (tx_tail k + unat (tx_count k)) mod 65536 \<and> unat (tx_count k) \<le> 65536)"
proof -
  have "sock_ok k" using assms net_reach_ok by (auto simp: net_ok_def)
  then show ?thesis
    by (auto simp: sock_ok_def ring_ok_def rx_ring_def tx_ring_def TCP_BUF_SIZE_def split: option.splits)
qed

theorem reachable_sockets_witness:
  "tstate (sock (fst (tcp_listen (fst (tcp_socket_create (demo_net 1 0x0200000A))) 0)) 0) \<noteq> TCP_FIN_WAIT_2
   \<and> sock (fst (tcp_listen (fst (tcp_socket_create (demo_net 1 0x0200000A))) 0)) 0
       \<in> set (tcp_sockets (fst (tcp_listen (fst (tcp_socket_create (demo_net 1 0x0200000A))) 0)))"
proof -
  let ?s = "fst (tcp_listen (fst (tcp_socket_create (demo_net 1 0x0200000A))) 0)"
  have r: "net_reach ?s"
    unfolding demo_net_def by (rule net_reach.step [OF net_reach.step [OF net_reach.start net_step.create] net_step.listen])
  then have "length (tcp_sockets ?s) = TCP_MAX_SOCKETS" using net_reach_ok net_ok_length by blast
  then have "sock ?s 0 \<in> set (tcp_sockets ?s)" by (simp add: sock_def TCP_MAX_SOCKETS_def)
  with reachable_sockets [OF r this] show ?thesis by blast
qed

end
