(* ===== verification/Syscall.thy ===== *)
theory Syscall
  imports Process Vfs NetSock CString
begin

text \<open>
  System calls (syscall.c): the table of handlers, the dispatcher and the handlers, over the processes, the
  page allocator, the descriptor table and the network stack.  A C \<open>long\<close> is a word of 64 bits; \<open>ram\<close> is the
  memory that the pointers of the caller name, and \<open>console\<close> what was written to the serial line.  The clock,
  the block device, the current CPU, the linker symbol \<open>__heap_end\<close>, what the rest of the system does while a
  call waits, and the handlers that only call a device driver are arguments (\<open>world\<close>).  \<open>None\<close> is a panic,
  an access outside an array or a wait that never ends.
\<close>

section \<open>State\<close>

datatype handler =
    Read | Write | Open | Close | Lseek | Brk | Mmap | Munmap | Exit | Getpid | Sched_yield | Nanosleep | Kill
  | Clone | Wait4 | Ioctl | Display_info | Fb_blit | Touch_read | Audio_open | Get_battery | Crypto_random
  | Net_connect | Proc_set_cap

record 'd machine =
  krn :: kern
  files_st :: "'d vfs"
  net_st :: net
  ram :: bytes
  console :: "u8 list"
  uart_initialized :: bool
  syscall_table :: "nat \<Rightarrow> handler option"
  syscall_count :: "nat \<Rightarrow> u64"
  user_heap_end :: u64

record 'd world =
  block_dev :: "'d block_device"
  this_cpu :: nat
  uptime_us :: u64
  uptime_ms :: u64
  heap_end_symbol :: u64
  kern_resume :: "kern \<Rightarrow> kern"
  net_resume :: "net \<Rightarrow> net"
  driver :: "handler \<Rightarrow> u64 list \<Rightarrow> 'd machine \<Rightarrow> 'd machine \<times> u64"

definition NR_SYSCALLS :: nat where "NR_SYSCALLS = 1100"
definition STATUS_ERROR :: int where "STATUS_ERROR = 1"
definition STATUS_UNIMPL :: int where "STATUS_UNIMPL = 7"
definition WNOHANG :: u32 where "WNOHANG = 1"

text \<open>A \<open>long\<close> passed where the callee takes an \<open>int\<close>.\<close>

definition int_arg :: "u64 \<Rightarrow> int" where
  "int_arg x = sint (ucast x :: u32)"

definition syscall_init :: "'d machine \<Rightarrow> 'd machine" where
  "syscall_init m = m\<lparr>syscall_count := (\<lambda>_. 0), syscall_table := (\<lambda>_. None)
     (63 := Some Read, 64 := Some Write, 56 := Some Open, 57 := Some Close, 62 := Some Lseek, 214 := Some Brk,
      222 := Some Mmap, 215 := Some Munmap, 93 := Some Exit, 172 := Some Getpid, 124 := Some Sched_yield,
      101 := Some Nanosleep, 129 := Some Kill, 220 := Some Clone, 260 := Some Wait4, 29 := Some Ioctl,
      1024 := Some Display_info, 1025 := Some Fb_blit, 1026 := Some Touch_read, 1027 := Some Audio_open,
      1030 := Some Get_battery, 1032 := Some Crypto_random, 1034 := Some Net_connect, 1037 := Some Proc_set_cap)\<rparr>"

section \<open>Files\<close>

text \<open>The string at a pointer; the outer \<open>None\<close> when it never ends, the inner one for a null pointer.\<close>

definition path_arg :: "bytes \<Rightarrow> addr \<Rightarrow> u8 list option option" where
  "path_arg r a = (if a = 0 then Some None
     else map_option (\<lambda>n. Some (map (\<lambda>i. r (a + of_nat i)) [0..<unat n])) (strlen r a))"

definition bytes_at :: "bytes \<Rightarrow> addr \<Rightarrow> u64 \<Rightarrow> u8 list" where
  "bytes_at r a n = map (\<lambda>i. r (a + of_nat i)) [0..<unat n]"

text \<open>The serial line sends a carriage return after each line feed.\<close>

definition uart_putc :: "'d machine \<Rightarrow> u8 \<Rightarrow> 'd machine" where
  "uart_putc m c = (if \<not> uart_initialized m then m
     else m\<lparr>console := console m @ (if c = 10 then [10, 13] else [c])\<rparr>)"

definition sys_read :: "'d world \<Rightarrow> 'd machine \<Rightarrow> u64 \<Rightarrow> u64 \<Rightarrow> u64 \<Rightarrow> ('d machine \<times> u64) option" where
  "sys_read w m fd buf count =
     (if fd = 0 then Some (m, 0)
      else if buf = 0 then Some (m, - 1)
      else case fs_read (block_dev w) (files_st m) (uptime_ms w) (int_arg fd) count of
        (v, n, data) \<Rightarrow> Some (m\<lparr>files_st := v, ram := put (ram m) buf data\<rparr>, word_of_int n))"

definition sys_write :: "'d world \<Rightarrow> 'd machine \<Rightarrow> u64 \<Rightarrow> u64 \<Rightarrow> u64 \<Rightarrow> ('d machine \<times> u64) option" where
  "sys_write w m fd buf count =
     (if fd = 1 \<or> fd = 2
      then Some (foldl uart_putc m (bytes_at (ram m) buf (if 0 \<le> sint count then count else 0)), count)
      else map_option (\<lambda>(v, n). (m\<lparr>files_st := v\<rparr>, word_of_int n))
        (fs_write (block_dev w) (files_st m) (uptime_ms w) (int_arg fd)
           (if buf = 0 then None else Some (bytes_at (ram m) buf count))))"

definition sys_open :: "'d world \<Rightarrow> 'd machine \<Rightarrow> u64 \<Rightarrow> u64 \<Rightarrow> ('d machine \<times> u64) option" where
  "sys_open w m path fl =
     (case path_arg (ram m) path of
        None \<Rightarrow> None
      | Some p \<Rightarrow> map_option (\<lambda>(v, r). (m\<lparr>files_st := v\<rparr>, word_of_int r))
          (fs_open (block_dev w) (files_st m) p (ucast fl) (uptime_us w) (uptime_ms w)))"

definition sys_close :: "'d world \<Rightarrow> 'd machine \<Rightarrow> u64 \<Rightarrow> 'd machine \<times> u64" where
  "sys_close w m fd = (m\<lparr>files_st := fs_close (block_dev w) (files_st m) (int_arg fd)\<rparr>, 0)"

definition sys_lseek :: "'d machine \<Rightarrow> u64 \<Rightarrow> u64 \<Rightarrow> u64 \<Rightarrow> 'd machine \<times> u64" where
  "sys_lseek m fd off whence =
     (case fs_lseek (files_st m) (int_arg fd) (sint off) (int_arg whence) of
        (v, r) \<Rightarrow> (m\<lparr>files_st := v\<rparr>, word_of_int r))"

section \<open>Memory\<close>

abbreviation pages :: "'d machine \<Rightarrow> pmm" where
  "pages m \<equiv> heap_pages (kh (krn m))"

definition set_pages :: "'d machine \<Rightarrow> pmm \<Rightarrow> 'd machine" where
  "set_pages m p = m\<lparr>krn := (krn m)\<lparr>kh := (kh (krn m))\<lparr>heap_pages := p\<rparr>\<rparr>\<rparr>"

text \<open>The loop of \<open>sys_brk\<close>: the page allocator and the end of the heap.\<close>

fun brk_grow :: "pmm \<Rightarrow> u64 \<Rightarrow> nat \<Rightarrow> pmm \<times> u64" where
  "brk_grow p e 0 = (p, e)"
| "brk_grow p e (Suc n) =
     (case pmm_alloc p of (p1, a) \<Rightarrow> if a = 0 then (p1, e) else brk_grow p1 (e + PAGE_SIZE) n)"

definition page_count :: "u64 \<Rightarrow> u64" where
  "page_count len = (len + PAGE_SIZE - 1) div PAGE_SIZE"

definition sys_brk :: "'d world \<Rightarrow> 'd machine \<Rightarrow> u64 \<Rightarrow> 'd machine \<times> u64" where
  "sys_brk w m addr =
     (let e = (if user_heap_end m = 0 then heap_end_symbol w else user_heap_end m) in
      if addr \<noteq> 0 \<and> e < addr
      then case brk_grow (pages m) e (unat (page_count (addr - e))) of
             (p, e1) \<Rightarrow> ((set_pages m p)\<lparr>user_heap_end := e1\<rparr>, e1)
      else (m\<lparr>user_heap_end := e\<rparr>, e))"

definition sys_mmap :: "'d machine \<Rightarrow> u64 \<Rightarrow> ('d machine \<times> u64) option" where
  "sys_mmap m len =
     (case pmm_alloc_n (pages m) (page_count len) of
        None \<Rightarrow> None
      | Some (p, a) \<Rightarrow>
          if a = 0 then Some (set_pages m p, word_of_int (- STATUS_NOMEM))
          else Some ((set_pages m p)\<lparr>ram := memset (ram m) a 0 (page_count len * PAGE_SIZE)\<rparr>, a))"

fun free_each :: "pmm \<Rightarrow> u64 \<Rightarrow> nat \<Rightarrow> pmm" where
  "free_each p a 0 = p"
| "free_each p a (Suc n) = free_each (pmm_free p a) (a + PAGE_SIZE) n"

definition sys_munmap :: "'d machine \<Rightarrow> u64 \<Rightarrow> u64 \<Rightarrow> 'd machine \<times> u64" where
  "sys_munmap m addr len = (set_pages m (free_each (pages m) addr (unat (page_count len))), 0)"

section \<open>Processes\<close>

text \<open>The value that \<open>sys_exit\<close> returns is seen by no one.\<close>

definition sys_exit :: "'d world \<Rightarrow> 'd machine \<Rightarrow> u64 \<Rightarrow> ('d machine \<times> u64) option" where
  "sys_exit w m ec = map_option (\<lambda>k. (m\<lparr>krn := k\<rparr>, 0)) (process_exit (krn m) (this_cpu w) (int_arg ec))"

definition sys_getpid :: "'d world \<Rightarrow> 'd machine \<Rightarrow> u64" where
  "sys_getpid w m = word_of_int (current_pid (krn m) (this_cpu w))"

definition sys_sched_yield :: "'d world \<Rightarrow> 'd machine \<Rightarrow> ('d machine \<times> u64) option" where
  "sys_sched_yield w m = map_option (\<lambda>s. (m\<lparr>krn := (krn m)\<lparr>sch := s\<rparr>\<rparr>, 0)) (scheduler_yield (sch (krn m)) (this_cpu w))"

definition sys_kill :: "'d world \<Rightarrow> 'd machine \<Rightarrow> u64 \<Rightarrow> u64 \<Rightarrow> ('d machine \<times> u64) option" where
  "sys_kill w m pd sig = map_option (\<lambda>(k, r). (m\<lparr>krn := k\<rparr>, word_of_int r))
     (process_kill (krn m) (this_cpu w) (int_arg pd) (int_arg sig))"

definition sys_wait4 :: "'d world \<Rightarrow> 'd machine \<Rightarrow> u64 \<Rightarrow> u64 \<Rightarrow> u64 \<Rightarrow> ('d machine \<times> u64) option" where
  "sys_wait4 w m pd status options = map_option (\<lambda>(k, r, st). (m\<lparr>krn := k,
       ram := (if status \<noteq> 0 \<and> 0 < r then put (ram m) status (st32 (word_of_int (case st of None \<Rightarrow> 0 | Some c \<Rightarrow> c)))
               else ram m)\<rparr>, word_of_int r))
     (process_wait (kern_resume w) (krn m) (this_cpu w) (int_arg pd) (ucast options AND WNOHANG \<noteq> 0))"

definition sys_cr_net_connect :: "'d world \<Rightarrow> 'd machine \<Rightarrow> u64 \<Rightarrow> u64 \<Rightarrow> ('d machine \<times> u64) option" where
  "sys_cr_net_connect w m ip port =
     (case tcp_socket_create (net_st m) of (s1, fd) \<Rightarrow>
        if fd < 0 then Some (m\<lparr>net_st := s1\<rparr>, word_of_int (- STATUS_NOMEM))
        else case tcp_connect (net_resume w) s1 fd (ucast ip) (ucast port) (uptime_us w) (uptime_ms w) of
          None \<Rightarrow> None
        | Some (s2, r) \<Rightarrow>
            if r < 0 then map_option (\<lambda>s3. (m\<lparr>net_st := s3\<rparr>, word_of_int r)) (tcp_close (net_resume w) s2 fd)
            else Some (m\<lparr>net_st := s2\<rparr>, word_of_int fd))"

definition sys_cr_proc_set_cap :: "'d world \<Rightarrow> 'd machine \<Rightarrow> u64 \<Rightarrow> u64 \<Rightarrow> 'd machine \<times> u64" where
  "sys_cr_proc_set_cap w m c enable =
     (let p = scheduler_get_current (sch (krn m)) (this_cpu w) in
      if p = 0 then (m, word_of_int (- STATUS_ERROR))
      else if sint c < 0 \<or> 64 \<le> sint c then (m, word_of_int (- STATUS_INVAL))
      else (m\<lparr>krn := set_proc (krn m) p (cap_update (\<lambda>cs. cs[0 :=
             (if enable \<noteq> 0 then set_mask (cs ! 0) (unat c) else clear_mask (cs ! 0) (unat c))]))\<rparr>, 0))"

section \<open>Dispatch\<close>

definition run_handler :: "'d world \<Rightarrow> handler \<Rightarrow> u64 list \<Rightarrow> 'd machine \<Rightarrow> ('d machine \<times> u64) option" where
  "run_handler w h a m =
     (case h of
        Read \<Rightarrow> sys_read w m (a ! 0) (a ! 1) (a ! 2)
      | Write \<Rightarrow> sys_write w m (a ! 0) (a ! 1) (a ! 2)
      | Open \<Rightarrow> sys_open w m (a ! 0) (a ! 1)
      | Close \<Rightarrow> Some (sys_close w m (a ! 0))
      | Lseek \<Rightarrow> Some (sys_lseek m (a ! 0) (a ! 1) (a ! 2))
      | Brk \<Rightarrow> Some (sys_brk w m (a ! 0))
      | Mmap \<Rightarrow> sys_mmap m (a ! 1)
      | Munmap \<Rightarrow> Some (sys_munmap m (a ! 0) (a ! 1))
      | Exit \<Rightarrow> sys_exit w m (a ! 0)
      | Getpid \<Rightarrow> Some (m, sys_getpid w m)
      | Sched_yield \<Rightarrow> sys_sched_yield w m
      | Nanosleep \<Rightarrow> Some (m, 0)
      | Kill \<Rightarrow> sys_kill w m (a ! 0) (a ! 1)
      | Clone \<Rightarrow> Some (m, word_of_int (- STATUS_UNIMPL))
      | Wait4 \<Rightarrow> sys_wait4 w m (a ! 0) (a ! 1) (a ! 2)
      | Ioctl \<Rightarrow> Some (m, word_of_int (- STATUS_UNIMPL))
      | Net_connect \<Rightarrow> sys_cr_net_connect w m (a ! 0) (a ! 1)
      | Proc_set_cap \<Rightarrow> Some (sys_cr_proc_set_cap w m (a ! 0) (a ! 1))
      | _ \<Rightarrow> Some (driver w h a m))"

definition syscall_dispatch :: "'d world \<Rightarrow> 'd machine \<Rightarrow> u64 \<Rightarrow> u64 list \<Rightarrow> ('d machine \<times> u64) option" where
  "syscall_dispatch w m num args =
     (if sint num < 0 \<or> int NR_SYSCALLS \<le> sint num then Some (m, word_of_int (- STATUS_UNIMPL))
      else case syscall_table m (unat num) of
        None \<Rightarrow> Some (m, word_of_int (- STATUS_UNIMPL))
      | Some h \<Rightarrow> run_handler w h args
          (m\<lparr>syscall_count := (syscall_count m)(unat num := syscall_count m (unat num) + 1)\<rparr>))"

section \<open>Memory calls over the page allocator\<close>

lemma set_pages_sel [simp]: "pages (set_pages m p) = p" "ram (set_pages m p) = ram m" "user_heap_end (set_pages m p) = user_heap_end m"
  by (simp_all add: set_pages_def)

text \<open>Freeing the pages of a run that is in use puts exactly them back.\<close>

lemma page_addr_Suc: "page_addr p (Suc i) = page_addr p i + PAGE_SIZE"
  by (simp add: page_addr_def algebra_simps)

lemma free_each_run:
  assumes "pmm_inv p" and "i + n \<le> unat (total_pages p)" and "{i..<i + n} \<inter> free_idx p = {}"
  shows "pmm_inv (free_each p (page_addr p i) n) \<and> free_idx (free_each p (page_addr p i) n) = free_idx p \<union> {i..<i + n}
    \<and> page_addr (free_each p (page_addr p i) n) = page_addr p"
  using assms
proof (induction n arbitrary: p i)
  case (Suc n)
  let ?q = "pmm_free p (page_addr p i)"
  have reg: "region_ok p" using Suc.prems(1) by (simp add: pmm_inv_def)
  have "i \<in> {i..<i + Suc n}" by simp
  then have i: "i < unat (total_pages p)" "i \<notin> free_idx p" using Suc.prems(2,3) by (simp, blast)
  have q: "pmm_inv ?q" "free_idx ?q = insert i (free_idx p)"
    using pmm_inv_free [OF Suc.prems(1) i] free_idx_pmm_free [OF reg i(1)] by auto
  have "x \<in> {i..<i + Suc n}" if "x \<in> {Suc i..<Suc i + n}" for x using that by simp
  then have "{Suc i..<Suc i + n} \<inter> free_idx ?q = {}" using Suc.prems(3) unfolding q(2) by fastforce
  with Suc.IH [OF q(1), of "Suc i"] Suc.prems(2)
  have e: "pmm_inv (free_each ?q (page_addr p (Suc i)) n)"
    "free_idx (free_each ?q (page_addr p (Suc i)) n) = insert i (free_idx p) \<union> {Suc i..<Suc i + n}"
    "page_addr (free_each ?q (page_addr p (Suc i)) n) = page_addr p" by (simp_all add: q(2))
  have "insert i (free_idx p) \<union> {Suc i..<Suc i + n} = free_idx p \<union> {i..<i + Suc n}" by auto
  with e show ?case by (simp add: page_addr_Suc)
qed simp

lemma memset_pages:
  assumes "unat a + unat n * 4096 \<le> 2 ^ 64" and "a \<noteq> 0"
  shows "memset r a 0 (n * PAGE_SIZE) x = (if unat x \<in> pages_at a n then 0 else r x)"
proof -
  have "0 < unat a" using assms(2) by (simp add: unat_gt_0)
  then have n: "unat (n * PAGE_SIZE) = unat n * 4096"
    using assms(1) by (simp add: unat_mult_lem [THEN iffD1] PAGE_SIZE_def unat_word_ariths)
  have "x - a < n * PAGE_SIZE \<longleftrightarrow> unat x \<in> pages_at a n"
  proof (cases "a \<le> x")
    case True
    then show ?thesis by (auto simp: word_less_nat_alt n unat_sub pages_at_def word_le_nat_alt)
  next
    case False
    have "unat a < 2 ^ 64" using unsigned_less [of a] by simp
    with False have "unat (x - a) = 2 ^ 64 - unat a + unat x" by (simp add: unat_sub_if_size word_size word_le_nat_alt)
    with False assms(1) show ?thesis by (simp add: word_less_nat_alt n pages_at_def word_le_nat_alt)
  qed
  then show ?thesis by (simp add: memset_correct)
qed

text \<open>
  C19: \<open>sys_mmap\<close> of a length whose pages, rounded up, are at least one and at most the pages of the
  machine, on a healthy pool: when no run of that many pages is free it returns -2 and leaves the pool
  and the memory alone; otherwise it returns the lowest such run, cleared and no longer in the pool,
  and \<open>sys_munmap\<close> of what it returned gives the pool back as it was.
\<close>

theorem mmap_munmap:
  assumes inv: "pmm_inv (pages m)" and room: "room_for (pages m) (page_count len)"
  shows "\<exists>m1 a. sys_mmap m len = Some (m1, a) \<and> pmm_inv (pages m1)
    \<and> (if \<forall>i. \<not> free_run (pages m) i (unat (page_count len))
       then a = - 2 \<and> pool_bytes (pages m1) = pool_bytes (pages m) \<and> ram m1 = ram m
       else a = page_addr (pages m) (LEAST i. free_run (pages m) i (unat (page_count len))) \<and> a \<noteq> 0
         \<and> pages_at a (page_count len) \<subseteq> pool_bytes (pages m)
         \<and> pool_bytes (pages m1) = pool_bytes (pages m) - pages_at a (page_count len)
         \<and> (\<forall>x. ram m1 x = (if unat x \<in> pages_at a (page_count len) then 0 else ram m x))
         \<and> pmm_inv (pages (fst (sys_munmap m1 a len))) \<and> pool_bytes (pages (fst (sys_munmap m1 a len))) = pool_bytes (pages m))"
proof -
  let ?n = "page_count len"
  obtain p a where al: "pmm_alloc_n (pages m) ?n = Some (p, a)" and p: "pmm_inv p"
    "total_pages p = total_pages (pages m)" "phys_base p = phys_base (pages m)"
    and c: "a = 0 \<and> free_idx p = free_idx (pages m) \<and> (\<forall>i. \<not> free_run (pages m) i (unat ?n))
      \<or> a \<noteq> 0 \<and> (\<exists>i. free_run (pages m) i (unat ?n) \<and> (\<forall>l < i. \<not> free_run (pages m) l (unat ?n))
          \<and> a = page_addr (pages m) i \<and> free_idx p = free_idx (pages m) - {i..<i + unat ?n})"
    using alloc_n_run [OF inv room] by blast
  have pa: "page_addr p = page_addr (pages m)" using p(3) by (simp add: page_addr_def fun_eq_iff)
  show ?thesis
  proof (cases "a = 0")
    case True
    then have "pool_bytes p = pool_bytes (pages m)" "\<forall>i. \<not> free_run (pages m) i (unat ?n)"
      using runs.alloc_n_fails [OF inv room] al c by simp_all
    with True al p(1) show ?thesis by (simp add: sys_mmap_def STATUS_NOMEM_def)
  next
    case False
    then obtain i where i: "free_run (pages m) i (unat ?n)" "a = page_addr (pages m) i"
      "free_idx p = free_idx (pages m) - {i..<i + unat ?n}" "\<forall>l < i. \<not> free_run (pages m) l (unat ?n)" using c by blast
    have "i \<le> l" if "free_run (pages m) l (unat ?n)" for l using i(4) that not_le by blast
    with i(1) have least: "(LEAST i. free_run (pages m) i (unat ?n)) = i" by (rule Least_equality)
    note t = runs.alloc_n_takes [OF inv room al False]
    let ?m1 = "(set_pages m p)\<lparr>ram := memset (ram m) a 0 (?n * PAGE_SIZE)\<rparr>"
    have m1: "sys_mmap m len = Some (?m1, a)" using al False by (simp add: sys_mmap_def)
    have ram: "\<forall>x. ram ?m1 x = (if unat x \<in> pages_at a ?n then 0 else ram m x)" using memset_pages t False by simp
    have "0 < unat ?n" using room by (simp add: room_for_def)
    then have "i + unat ?n \<le> unat (total_pages p)" using free_run_bound [OF i(1)] p(2) by simp
    from free_each_run [OF p(1) this] i(1-3)
    have f: "pmm_inv (free_each p a (unat ?n))" "free_idx (free_each p a (unat ?n)) = free_idx (pages m)"
      "page_addr (free_each p a (unat ?n)) = page_addr (pages m)"
      by (auto simp: pa free_run_def)
    have pm1: "pages ?m1 = p" by (simp add: set_pages_def)
    have pm2: "pages (fst (sys_munmap ?m1 a len)) = free_each p a (unat ?n)" by (simp add: sys_munmap_def pm1)
    have "pool_bytes (free_each p a (unat ?n)) = pool_bytes (pages m)" using f(2,3) by (simp add: pool_bytes_def)
    then have "pmm_inv (pages ?m1) \<and> a \<noteq> 0 \<and> pages_at a ?n \<subseteq> pool_bytes (pages m)
        \<and> pool_bytes (pages ?m1) = pool_bytes (pages m) - pages_at a ?n
        \<and> pmm_inv (pages (fst (sys_munmap ?m1 a len))) \<and> pool_bytes (pages (fst (sys_munmap ?m1 a len))) = pool_bytes (pages m)"
      using t p(1) f(1) False unfolding pm1 pm2 by simp
    moreover have "\<not> (\<forall>i. \<not> free_run (pages m) i (unat ?n))" using i(1) by blast
    ultimately show ?thesis using m1 ram i(2) unfolding least by (metis (no_types, lifting))
  qed
qed

text \<open>The loop of \<open>sys_brk\<close> is the series of allocations of the page interface.\<close>

lemma brk_grow_series:
  "alloc_pages pmm_alloc n p = (p1, ps) \<Longrightarrow> brk_grow p e n = (p1, e + of_nat (length ps) * PAGE_SIZE)"
  by (induction n arbitrary: p e p1 ps) (auto simp: Let_def algebra_simps split: prod.splits if_splits)

lemma alloc_pages_length: "alloc_pages al n p = (p1, ps) \<Longrightarrow> length ps \<le> n"
  by (induction n arbitrary: p p1 ps) (auto simp: Let_def split: prod.splits if_splits)

lemma page_count_bounds:
  assumes "unat len + 4096 \<le> 2 ^ 64"
  shows "unat len \<le> unat (page_count len) * 4096" and "unat (page_count len) * 4096 < unat len + 4096"
proof -
  have "unat (len + PAGE_SIZE - 1) = unat len + 4095"
    using assms unat_add_small [of len 4095] by (simp add: PAGE_SIZE_def add.commute [of len])
  then have "unat (page_count len) = (unat len + 4095) div 4096" by (simp add: page_count_def unat_div)
  then show "unat len \<le> unat (page_count len) * 4096" "unat (page_count len) * 4096 < unat len + 4096"
    using div_mult_mod_eq [of "unat len + 4095" 4096] mod_less_divisor [of 4096 "unat len + 4095"] by linarith+
qed

text \<open>
  A \<open>sys_brk\<close> that grows the heap takes as many different pages from the pool as the end moves by, stops
  within a page above the address asked for, and falls short of it only when the pool is empty.  No
  page table changes: the addresses handed to the program are not mapped to the pages taken.
\<close>

theorem brk_correct:
  assumes inv: "pmm_inv (pages m)" and e: "e = (if user_heap_end m = 0 then heap_end_symbol w else user_heap_end m)"
    and grow: "e < addr" and top: "unat addr + 4096 \<le> 2 ^ 64"
  shows "\<exists>m1 ps. sys_brk w m addr = (m1, user_heap_end m1) \<and> user_heap_end m1 = e + of_nat (length ps) * PAGE_SIZE
    \<and> distinct ps \<and> set ps \<subseteq> avail (pages m) \<and> avail (pages m1) = avail (pages m) - set ps \<and> pmm_inv (pages m1)
    \<and> unat (user_heap_end m1) < unat addr + 4096 \<and> (addr \<le> user_heap_end m1 \<or> avail (pages m1) = {})
    \<and> tables (krn m1) = tables (krn m) \<and> ram m1 = ram m"
proof -
  let ?n = "unat (page_count (addr - e))"
  obtain p ps where al: "alloc_pages pmm_alloc ?n (pages m) = (p, ps)" by fastforce
  note A = pages.alloc_pages_pool [OF inv al]
  have le: "length ps \<le> ?n" by (rule alloc_pages_length [OF al])
  have sub: "unat (addr - e) = unat addr - unat e" using grow by (simp add: unat_sub word_less_nat_alt word_le_nat_alt)
  have eb: "unat e < unat addr" using grow by (simp add: word_less_nat_alt)
  have b: "unat addr - unat e \<le> ?n * 4096" "?n * 4096 < unat addr - unat e + 4096"
    using page_count_bounds [of "addr - e"] top sub by auto
  let ?e1 = "e + of_nat (length ps) * PAGE_SIZE"
  have "length ps * 4096 < unat addr - unat e + 4096" using le b(2) by (meson le_less_trans mult_le_mono1)
  then have lp: "unat e + length ps * 4096 < unat addr + 4096" using eb by linarith
  then have "unat e + length ps * 4096 < 2 ^ 64" using top by linarith
  then have e1: "unat ?e1 = unat e + length ps * 4096"
    by (simp add: unat_word_ariths PAGE_SIZE_def unat_of_nat)
  let ?m1 = "(set_pages m p)\<lparr>user_heap_end := ?e1\<rparr>"
  have r: "sys_brk w m addr = (?m1, ?e1)"
    using grow by (auto simp: sys_brk_def Let_def e [symmetric] brk_grow_series [OF al])
  have reach: "addr \<le> ?e1 \<or> avail p = {}"
  proof (cases "length ps = ?n")
    case True
    then have "unat addr \<le> unat ?e1" using e1 b(1) eb by linarith
    then show ?thesis by (simp add: word_le_nat_alt)
  next
    case False
    then show ?thesis using A by blast
  qed
  have f: "user_heap_end ?m1 = ?e1" "pages ?m1 = p" "tables (krn ?m1) = tables (krn m)" "ram ?m1 = ram m"
    by (simp_all add: set_pages_def)
  have lt: "unat ?e1 < unat addr + 4096" using lp e1 by simp
  show ?thesis
    by (rule exI [of _ ?m1], rule exI [of _ ps]) (use r A reach f lt in simp)
qed

text \<open>
  \<open>sys_munmap\<close> checks neither the address nor the caller: any program can free a page that the kernel or
  another process uses, and the next \<open>sys_mmap\<close> hands it that page, cleared, when no lower page is free.
\<close>

theorem munmap_steals_page:
  assumes inv: "pmm_inv (pages m)" and i: "i < unat (total_pages (pages m))" "i \<notin> free_idx (pages m)"
    and low: "\<And>j. j < i \<Longrightarrow> j \<notin> free_idx (pages m)"
  shows "\<exists>m1 m2. sys_munmap m (page_addr (pages m) i) 4096 = (m1, 0)
    \<and> sys_mmap m1 4096 = Some (m2, page_addr (pages m) i)
    \<and> (\<forall>x. unat x \<in> pages_at (page_addr (pages m) i) 1 \<longrightarrow> ram m2 x = 0)"
proof -
  let ?a = "page_addr (pages m) i" and ?p = "pmm_free (pages m) (page_addr (pages m) i)"
  have reg: "region_ok (pages m)" using inv by (simp add: pmm_inv_def)
  have one: "page_count 4096 = 1" by (simp add: page_count_def PAGE_SIZE_def)
  have f: "free_idx ?p = insert i (free_idx (pages m))" by (rule free_idx_pmm_free [OF reg i(1)])
  have mn: "Min (free_idx ?p) = i" unfolding f using low by (intro Min_eqI) (auto intro: leI)
  have pi: "pmm_inv ?p" by (rule pmm_inv_free [OF inv i])
  have al: "pmm_alloc ?p = (take_page ?p i, ?a)" using pmm_alloc_Min [OF pi] f mn by auto
  have nz: "?a \<noteq> 0" by (rule page_addr_nonzero [OF reg i(1)])
  have "unat ?a + 4096 \<le> 2 ^ 64"
  proof -
    have "unat ?a = unat (phys_base (pages m)) + i * 4096" by (rule unat_page_addr [OF reg i(1)])
    moreover have "Suc i * 4096 \<le> unat (total_pages (pages m)) * 4096" using i(1) by simp
    moreover have "unat (phys_base (pages m)) + unat (total_pages (pages m)) * 4096 \<le> 2 ^ 64"
      using reg by (simp add: region_ok_def)
    ultimately show ?thesis by simp
  qed
  then have z: "memset r ?a 0 PAGE_SIZE x = 0" if "unat x \<in> pages_at ?a 1" for r x
    using that nz memset_pages [of ?a 1 r x] by simp
  have m1: "sys_munmap m ?a 4096 = (set_pages m ?p, 0)" by (simp add: sys_munmap_def one)
  have "sys_mmap (set_pages m ?p) 4096 = Some ((set_pages (set_pages m ?p) (take_page ?p i))\<lparr>ram := memset (ram m) ?a 0 PAGE_SIZE\<rparr>, ?a)"
    using al nz by (simp add: sys_mmap_def one pmm_alloc_n_def)
  with m1 z show ?thesis by auto
qed

section \<open>Counting the calls\<close>

text \<open>A series of calls, with their results.\<close>

fun run_calls :: "'d world \<Rightarrow> 'd machine \<Rightarrow> (u64 \<times> u64 list) list \<Rightarrow> ('d machine \<times> u64 list) option" where
  "run_calls w m [] = Some (m, [])"
| "run_calls w m ((num, args) # cs) =
     (case syscall_dispatch w m num args of
        None \<Rightarrow> None
      | Some (m1, r) \<Rightarrow> (case run_calls w m1 cs of None \<Rightarrow> None | Some (m2, rs) \<Rightarrow> Some (m2, r # rs)))"

definition registered :: "'d machine \<Rightarrow> u64 \<Rightarrow> bool" where
  "registered m num \<longleftrightarrow> unat num < NR_SYSCALLS \<and> syscall_table m (unat num) \<noteq> None"

definition drivers_keep_table :: "'d world \<Rightarrow> bool" where
  "drivers_keep_table w \<longleftrightarrow> (\<forall>h a m. syscall_table (fst (driver w h a m)) = syscall_table m
     \<and> syscall_count (fst (driver w h a m)) = syscall_count m)"

lemma uart_table: "syscall_table (foldl uart_putc m bs) = syscall_table m \<and> syscall_count (foldl uart_putc m bs) = syscall_count m"
  by (induction bs arbitrary: m) (auto simp: uart_putc_def)

lemma handler_keeps_table:
  assumes "drivers_keep_table w" and "run_handler w h a m = Some (m1, r)"
  shows "syscall_table m1 = syscall_table m \<and> syscall_count m1 = syscall_count m"
proof -
  have d: "driver w h a m = (m1, r) \<Longrightarrow> ?thesis" using assms(1) unfolding drivers_keep_table_def by (metis fst_conv)
  show ?thesis
    using assms(2) d
    by (cases h) (auto simp: run_handler_def sys_read_def sys_write_def sys_open_def sys_close_def sys_lseek_def sys_brk_def
        sys_mmap_def sys_munmap_def sys_exit_def sys_getpid_def sys_sched_yield_def sys_kill_def sys_wait4_def
        sys_cr_net_connect_def sys_cr_proc_set_cap_def set_pages_def uart_table Let_def
        split: prod.splits option.splits if_splits)
qed

lemma shift_mod64:
  assumes "n < 2 ^ 64"
  shows "(int n + 2 ^ 63) mod 2 ^ 64 - 2 ^ 63 = (if n < 2 ^ 63 then int n else int n - 2 ^ 64)"
proof (cases "n < 2 ^ 63")
  case True
  then have "(int n + 2 ^ 63) mod 2 ^ 64 = int n + 2 ^ 63" by (intro mod_pos_pos_trivial) simp_all
  then show ?thesis using True by simp
next
  case False
  have "(int n + 2 ^ 63) mod 2 ^ 64 = (int n + 2 ^ 63 - 2 ^ 64) mod 2 ^ 64"
    by (metis mod_mult_self1 diff_add_cancel mult_1)
  also have "\<dots> = int n + 2 ^ 63 - 2 ^ 64" using assms False by (intro mod_pos_pos_trivial) simp_all
  finally show ?thesis using False by simp
qed

lemma sint_u64: "sint (v :: u64) = (if unat v < 2 ^ 63 then int (unat v) else int (unat v) - 2 ^ 64)"
proof -
  have v: "uint v = int (unat v)" "unat v < 2 ^ 64" using unsigned_less [of v] by simp_all
  have "sint v = (int (unat v) + 2 ^ 63) mod 2 ^ 64 - 2 ^ 63"
    using v by (simp add: sint_uint signed_take_bit_eq_take_bit_shift take_bit_eq_mod)
  also have "\<dots> = (if unat v < 2 ^ 63 then int (unat v) else int (unat v) - 2 ^ 64)"
    by (rule shift_mod64 [OF v(2)])
  finally show ?thesis .
qed

lemma long_range: "0 \<le> sint v \<and> sint v < 1100 \<longleftrightarrow> unat v < 1100" for v :: u64
proof -
  have "unat v < 2 ^ 64" using unsigned_less [of v] by simp
  then show ?thesis unfolding sint_u64 by (simp del: uint_nat of_nat_unat)
qed

lemma dispatch_cases:
  "syscall_dispatch w m num args =
     (if registered m num then run_handler w (the (syscall_table m (unat num))) args
        (m\<lparr>syscall_count := (syscall_count m)(unat num := syscall_count m (unat num) + 1)\<rparr>)
      else Some (m, - 7))"
  using long_range [of num]
  by (auto simp: syscall_dispatch_def registered_def NR_SYSCALLS_def STATUS_UNIMPL_def not_less split: option.splits)

lemma count_calls:
  assumes "drivers_keep_table w" and "run_calls w m cs = Some (m1, rs)"
  shows "length rs = length cs \<and> (\<forall>i < length cs. \<not> registered m (fst (cs ! i)) \<longrightarrow> rs ! i = - 7)
    \<and> syscall_count m1 n = syscall_count m n + of_nat (length (filter (\<lambda>c. registered m (fst c) \<and> unat (fst c) = n) cs))"
  using assms(2)
proof (induction cs arbitrary: m rs)
  case Nil
  then show ?case by simp
next
  case (Cons c cs)
  obtain num args where c: "c = (num, args)" by fastforce
  from Cons.prems obtain m2 r rs' where d: "syscall_dispatch w m num args = Some (m2, r)"
    and cs: "run_calls w m2 cs = Some (m1, rs')" and rs: "rs = r # rs'"
    by (auto simp: c split: option.splits prod.splits)
  have t: "syscall_table m2 = syscall_table m
      \<and> syscall_count m2 = (if registered m num then (syscall_count m)(unat num := syscall_count m (unat num) + 1) else syscall_count m)
      \<and> (\<not> registered m num \<longrightarrow> r = - 7)"
    using d handler_keeps_table [OF assms(1)] by (auto simp: dispatch_cases split: if_splits dest!: handler_keeps_table [OF assms(1)])
  then have reg: "registered m2 = registered m" by (simp add: registered_def fun_eq_iff)
  have "(\<forall>i < Suc (length cs). \<not> registered m (fst ((c # cs) ! i)) \<longrightarrow> (r # rs') ! i = - 7)"
    using Cons.IH [OF cs] t by (auto simp: reg c less_Suc_eq_0_disj)
  then show ?case using Cons.IH [OF cs] t by (auto simp: reg rs c)
qed

text \<open>
  After \<open>syscall_init\<close>, whatever calls programs make: a number that is not registered is answered
  with -7, and each counter is the number of calls that named it.
\<close>

theorem calls_counted:
  assumes "drivers_keep_table w" and "run_calls w (syscall_init m) cs = Some (m1, rs)"
  shows "(\<forall>i < length cs. \<not> registered (syscall_init m) (fst (cs ! i)) \<longrightarrow> rs ! i = - 7)
    \<and> syscall_count m1 n = of_nat (length (filter (\<lambda>c. registered (syscall_init m) (fst c) \<and> unat (fst c) = n) cs))"
  using count_calls [OF assms, of n] by (auto simp: syscall_init_def)

section \<open>Examples\<close>

definition demo_machine :: "pmm \<Rightarrow> (nat \<Rightarrow> u8) machine" where
  "demo_machine p = set_pages \<lparr>krn = boot_kern 1 small_heap, files_st = demo_vfs, net_st = demo_net 1 0x0200000A, ram = (\<lambda>_. 0xAA),
     console = [], uart_initialized = True, syscall_table = (\<lambda>_. None), syscall_count = (\<lambda>_. 0), user_heap_end = 0\<rparr> p"

definition demo_world :: "(nat \<Rightarrow> u8) world" where
  "demo_world = \<lparr>block_dev = ram_disk 0x1000000, this_cpu = 0, uptime_us = 7, uptime_ms = 1, heap_end_symbol = 0x50000000,
     kern_resume = id, net_resume = id, driver = (\<lambda>h a m. (m, 0))\<rparr>"

lemma demo_machine_sel [simp]: "pages (demo_machine p) = p" "ram (demo_machine p) = (\<lambda>_. 0xAA)" "user_heap_end (demo_machine p) = 0"
  by (simp_all add: demo_machine_def)

theorem mmap_munmap_witness:
  "\<exists>m1. sys_mmap (demo_machine small_pmm) 0x2001 = Some (m1, page_addr small_pmm 0)
    \<and> pool_bytes (pages m1) = pool_bytes small_pmm - pages_at (page_addr small_pmm 0) 3
    \<and> pool_bytes (pages (fst (sys_munmap m1 (page_addr small_pmm 0) 0x2001))) = pool_bytes small_pmm"
proof -
  have n: "page_count 0x2001 = 3" by (simp add: page_count_def PAGE_SIZE_def)
  have room: "room_for (pages (demo_machine small_pmm)) (page_count 0x2001)"
    by (simp add: room_for_def small_pmm_inv n)
  have inv: "pmm_inv (pages (demo_machine small_pmm))" by (simp add: small_pmm_inv(1))
  have run: "free_run small_pmm 0 (unat (3 :: u64))" using small_pmm_all_free by (auto simp: free_run_def)
  then have least: "(LEAST i. free_run small_pmm i (unat (3 :: u64))) = 0" by (intro Least_equality) simp_all
  have some: "\<not> (\<forall>i. \<not> free_run (pages (demo_machine small_pmm)) i (unat (page_count 0x2001)))" using run n by auto
  show ?thesis
    using mmap_munmap [OF inv room, unfolded if_not_P [OF some], unfolded n demo_machine_sel least] by blast
qed

theorem brk_correct_witness:
  "\<exists>m1 ps. sys_brk demo_world (demo_machine small_pmm) 0x50001234 = (m1, user_heap_end m1)
     \<and> user_heap_end m1 = 0x50000000 + of_nat (length ps) * PAGE_SIZE \<and> distinct (ps :: u64 list)"
proof -
  have "0x50000000 = (if user_heap_end (demo_machine small_pmm) = 0 then heap_end_symbol demo_world else user_heap_end (demo_machine small_pmm))"
    by (simp add: demo_world_def)
  moreover have "pmm_inv (pages (demo_machine small_pmm))" by (simp add: small_pmm_inv(1))
  moreover have "(0x50000000 :: u64) < 0x50001234" "unat (0x50001234 :: u64) + 4096 \<le> 2 ^ 64" by simp_all
  ultimately show ?thesis
    using brk_correct [of "demo_machine small_pmm" "0x50000000" demo_world "0x50001234"] by blast
qed

theorem munmap_steals_page_witness:
  "\<exists>m1 m2. sys_munmap (demo_machine (take_page small_pmm 0)) (page_addr (take_page small_pmm 0) 0) 4096 = (m1, 0)
     \<and> sys_mmap m1 4096 = Some (m2, page_addr (take_page small_pmm 0) 0)"
  using munmap_steals_page [of "demo_machine (take_page small_pmm 0)" 0] small_pmm_in_use small_pmm_inv(2) by auto

theorem calls_counted_witness:
  "syscall_count (fst (the (run_calls demo_world (syscall_init (demo_machine small_pmm)) [(172, []), (9, []), (172, [])]))) 172 = 2"
proof -
  let ?m = "syscall_init (demo_machine small_pmm)" and ?cs = "[(172, []), (9, []), (172, [])] :: (u64 \<times> u64 list) list"
  have k: "drivers_keep_table demo_world" by (simp add: drivers_keep_table_def demo_world_def)
  have reg: "registered ?m 172" "\<not> registered ?m 9" by (simp_all add: registered_def syscall_init_def NR_SYSCALLS_def)
  have "\<exists>m1 rs. run_calls demo_world ?m ?cs = Some (m1, rs)"
    by (simp add: dispatch_cases run_handler_def registered_def syscall_init_def NR_SYSCALLS_def)
  then obtain m1 rs where "run_calls demo_world ?m ?cs = Some (m1, rs)" by blast
  with calls_counted [OF k this, of 172] reg show ?thesis by simp
qed

end
