(* ===== verification/AppSandbox.thy ===== *)
theory AppSandbox
  imports Syscall Queue
begin

text \<open>
  The application sandbox (sandbox.c): capabilities, message ports and shared memory, over the processes
  and the heap.  The tables are lists of the length of the arrays; a pointer to an entry is its index.
  The functions \<open>kmemset\<close>, \<open>kstrncpy\<close>, \<open>kstrcmp\<close>, \<open>kmemcpy\<close> and \<open>ksnprintf\<close> behave as their namesakes in C;
  a string is the list of its bytes.  Each function is one step; \<open>sandbox_audit_log\<close> only prints.  \<open>None\<close> as
  the result of a function that allocates is the corrupted heap of \<open>kmalloc\<close>.
\<close>

section \<open>State\<close>

datatype sandbox_level = SANDBOX_NONE | SANDBOX_SYSTEM | SANDBOX_USER | SANDBOX_UNTRUSTED

record sandbox_ctx =
  level :: sandbox_level
  cap_granted :: u64
  cap_used :: u64
  cap_denied :: u64
  mem_base :: u64
  mem_size :: u64
  mem_limit :: u64
  app_id :: "u8 list"
  data_dir :: "u8 list"
  violations :: u32

datatype ipc_msg_type = IPC_MSG_DATA | IPC_MSG_REQUEST | IPC_MSG_REPLY | IPC_MSG_SIGNAL | IPC_MSG_SHARED_MEM

record ipc_message =
  m_id :: u32
  m_type :: ipc_msg_type
  m_sender :: int
  m_receiver :: int
  m_port :: u32
  m_size :: u32
  m_timestamp :: u64
  m_data :: "u8 list"

record ipc_port =
  port_id :: u32
  port_owner :: int
  port_name :: "u8 list"
  required_caps :: u64
  p_queue :: "ipc_message list"
  p_head :: nat
  p_tail :: nat
  p_count :: nat

record shm_region =
  shm_id :: u32
  shm_addr :: u64
  shm_size :: u64
  shm_owner :: int
  clients :: "int list"
  client_count :: nat
  shm_flags :: u32

record apps =
  sandboxes :: "sandbox_ctx list"
  sandbox_count :: u32
  sandbox_violations_total :: u32
  ports :: "ipc_port list"
  ipc_next_port :: u32
  ipc_msg_id :: u32
  regions :: "shm_region list"
  shm_next_id :: u32
  ks :: kern

definition MAX_SANDBOXES :: nat where "MAX_SANDBOXES = 128"
definition IPC_PORT_MAX :: nat where "IPC_PORT_MAX = 256"
definition IPC_QUEUE_DEPTH :: nat where "IPC_QUEUE_DEPTH = 64"
definition IPC_MSG_MAX_SIZE :: u32 where "IPC_MSG_MAX_SIZE = 4096"
definition SHM_MAX_REGIONS :: nat where "SHM_MAX_REGIONS = 64"
definition SANDBOX_MAX_MEMORY :: u64 where "SANDBOX_MAX_MEMORY = 0x10000000"
definition CAP_ADMIN :: u64 where "CAP_ADMIN = 1"
definition CAP_STORAGE :: u64 where "CAP_STORAGE = 0x8"
definition CAP_DISPLAY :: u64 where "CAP_DISPLAY = 0x10"
definition CAP_IPC :: u64 where "CAP_IPC = 0x40000"
definition CAPS_SYSTEM :: u64 where "CAPS_SYSTEM = - 1"
definition CAPS_USER_APP :: u64 where "CAPS_USER_APP = CAP_DISPLAY OR CAP_STORAGE OR CAP_IPC"

definition zero_ctx :: sandbox_ctx where
  "zero_ctx = \<lparr>level = SANDBOX_NONE, cap_granted = 0, cap_used = 0, cap_denied = 0, mem_base = 0, mem_size = 0, mem_limit = 0,
     app_id = [], data_dir = [], violations = 0\<rparr>"

definition zero_message :: ipc_message where
  "zero_message = \<lparr>m_id = 0, m_type = IPC_MSG_DATA, m_sender = 0, m_receiver = 0, m_port = 0, m_size = 0, m_timestamp = 0,
     m_data = replicate 4096 0\<rparr>"

definition zero_port :: ipc_port where
  "zero_port = \<lparr>port_id = 0, port_owner = 0, port_name = [], required_caps = 0, p_queue = replicate IPC_QUEUE_DEPTH zero_message,
     p_head = 0, p_tail = 0, p_count = 0\<rparr>"

definition zero_region :: shm_region where
  "zero_region = \<lparr>shm_id = 0, shm_addr = 0, shm_size = 0, shm_owner = 0, clients = replicate 8 0, client_count = 0, shm_flags = 0\<rparr>"

definition sandbox_init :: "apps \<Rightarrow> apps" where
  "sandbox_init s = s\<lparr>sandboxes := replicate MAX_SANDBOXES zero_ctx\<rparr>"

definition ipc_init :: "apps \<Rightarrow> apps" where
  "ipc_init s = s\<lparr>ports := replicate IPC_PORT_MAX zero_port\<rparr>"

section \<open>Sandboxes\<close>

text \<open>The strings are cut to the arrays of 64 and 128 characters, with their terminators.\<close>

definition new_ctx :: "sandbox_level \<Rightarrow> u8 list \<Rightarrow> sandbox_ctx" where
  "new_ctx lv app =
     (let c = zero_ctx\<lparr>level := lv, app_id := take 63 app\<rparr> in
      case lv of
        SANDBOX_SYSTEM \<Rightarrow> c\<lparr>cap_granted := CAPS_SYSTEM AND NOT CAP_ADMIN, mem_limit := SANDBOX_MAX_MEMORY\<rparr>
      | SANDBOX_USER \<Rightarrow> c\<lparr>cap_granted := CAPS_USER_APP, mem_limit := SANDBOX_MAX_MEMORY div 2\<rparr>
      | SANDBOX_UNTRUSTED \<Rightarrow> c\<lparr>cap_granted := CAP_DISPLAY OR CAP_IPC, mem_limit := SANDBOX_MAX_MEMORY div 4\<rparr>
      | SANDBOX_NONE \<Rightarrow> c\<lparr>cap_granted := CAPS_SYSTEM, mem_limit := SANDBOX_MAX_MEMORY\<rparr>)"

definition data_path :: "u8 list \<Rightarrow> u8 list" where
  "data_path app = take 127 ([0x2F, 0x64, 0x61, 0x74, 0x61, 0x2F, 0x61, 0x70, 0x70, 0x73, 0x2F] @ app)"

text \<open>The process argument is only printed.\<close>

definition sandbox_create :: "apps \<Rightarrow> sandbox_level \<Rightarrow> u8 list \<Rightarrow> (apps \<times> nat option) option" where
  "sandbox_create s lv app =
     (if of_nat MAX_SANDBOXES \<le> sandbox_count s then Some (s, None)
      else case first_slot (\<lambda>i. level (sandboxes s ! i) = SANDBOX_NONE \<and> mem_base (sandboxes s ! i) = 0) 0 MAX_SANDBOXES of
        None \<Rightarrow> Some (s, None)
      | Some i \<Rightarrow>
          (case kmalloc (kh (ks s)) (mem_limit (new_ctx lv app)) of
             None \<Rightarrow> None
           | Some (h, a) \<Rightarrow>
               let s1 = s\<lparr>ks := (ks s)\<lparr>kh := h\<rparr>\<rparr> in
               if a = 0 then Some (s1\<lparr>sandboxes := (sandboxes s)[i := zero_ctx]\<rparr>, None)
               else Some (s1\<lparr>sandboxes := (sandboxes s)[i := (new_ctx lv app)\<lparr>mem_base := a, data_dir := data_path app\<rparr>],
                      sandbox_count := sandbox_count s + 1\<rparr>, Some i)))"

definition sandbox_get :: "apps \<Rightarrow> int \<Rightarrow> nat option" where
  "sandbox_get s pd =
     (if process_get_by_pid (ks s) pd = 0 then None
      else first_slot (\<lambda>i. level (sandboxes s ! i) \<noteq> SANDBOX_NONE \<and> mem_base (sandboxes s ! i) \<noteq> 0) 0 MAX_SANDBOXES)"

definition upd_box :: "apps \<Rightarrow> nat \<Rightarrow> (sandbox_ctx \<Rightarrow> sandbox_ctx) \<Rightarrow> apps" where
  "upd_box s i f = s\<lparr>sandboxes := (sandboxes s)[i := f (sandboxes s ! i)]\<rparr>"

definition sandbox_destroy :: "apps \<Rightarrow> int \<Rightarrow> apps" where
  "sandbox_destroy s pd =
     (case sandbox_get s pd of
        None \<Rightarrow> s
      | Some i \<Rightarrow>
          let b = mem_base (sandboxes s ! i);
              s1 = (if b \<noteq> 0 then s\<lparr>ks := (ks s)\<lparr>kh := kfree (kh (ks s)) b\<rparr>\<rparr> else s)
          in (upd_box s1 i (\<lambda>_. zero_ctx))\<lparr>sandbox_count := sandbox_count s - 1\<rparr>)"

definition sandbox_check_cap :: "apps \<Rightarrow> int \<Rightarrow> u64 \<Rightarrow> apps \<times> bool" where
  "sandbox_check_cap s pd c =
     (case sandbox_get s pd of
        None \<Rightarrow> (s, True)
      | Some i \<Rightarrow>
          if level (sandboxes s ! i) = SANDBOX_NONE then (s, True)
          else if cap_granted (sandboxes s ! i) AND c = c
          then (upd_box s i (\<lambda>x. x\<lparr>cap_used := cap_used x OR c\<rparr>), True)
          else ((upd_box s i (\<lambda>x. x\<lparr>cap_denied := cap_denied x OR c, violations := violations x + 1\<rparr>))
                  \<lparr>sandbox_violations_total := sandbox_violations_total s + 1\<rparr>, False))"

definition sandbox_grant_cap :: "apps \<Rightarrow> nat \<Rightarrow> int \<Rightarrow> u64 \<Rightarrow> apps \<times> int" where
  "sandbox_grant_cap s c pd cp =
     (case sandbox_get s pd of
        None \<Rightarrow> (s, - 1)
      | Some i \<Rightarrow>
          let cur = process_get_by_pid (ks s) (current_pid (ks s) c) in
          if cur \<noteq> 0 \<and> cap (proc (ks s) cur) ! 0 AND CAP_ADMIN = 0 then (s, - 1)
          else (upd_box s i (\<lambda>x. x\<lparr>cap_granted := cap_granted x OR cp\<rparr>), 0))"

definition sandbox_revoke_cap :: "apps \<Rightarrow> int \<Rightarrow> u64 \<Rightarrow> apps \<times> int" where
  "sandbox_revoke_cap s pd cp =
     (case sandbox_get s pd of
        None \<Rightarrow> (s, - 1)
      | Some i \<Rightarrow> (upd_box s i (\<lambda>x. x\<lparr>cap_granted := cap_granted x AND NOT cp\<rparr>), 0))"

section \<open>Message ports\<close>

definition upd_port :: "apps \<Rightarrow> nat \<Rightarrow> (ipc_port \<Rightarrow> ipc_port) \<Rightarrow> apps" where
  "upd_port s i f = s\<lparr>ports := (ports s)[i := f (ports s ! i)]\<rparr>"

definition named_port :: "apps \<Rightarrow> u8 list \<Rightarrow> nat option" where
  "named_port s nm = first_slot (\<lambda>i. port_owner (ports s ! i) \<noteq> 0 \<and> port_name (ports s ! i) = nm) 0 IPC_PORT_MAX"

definition find_port :: "apps \<Rightarrow> u32 \<Rightarrow> nat option" where
  "find_port s pd = first_slot (\<lambda>i. port_id (ports s ! i) = pd) 0 IPC_PORT_MAX"

text \<open>The name is cut to 31 characters; the new number is returned as an \<open>int\<close>.\<close>

definition ipc_port_create :: "apps \<Rightarrow> nat \<Rightarrow> u8 list \<Rightarrow> u64 \<Rightarrow> apps \<times> int" where
  "ipc_port_create s c nm caps =
     (if named_port s nm \<noteq> None then (s, - 1)
      else case first_slot (\<lambda>i. port_owner (ports s ! i) = 0) 0 IPC_PORT_MAX of
        None \<Rightarrow> (s, - 1)
      | Some i \<Rightarrow> ((upd_port s i (\<lambda>_. zero_port\<lparr>port_id := ipc_next_port s, port_owner := current_pid (ks s) c,
            required_caps := caps, port_name := take 31 nm\<rparr>))\<lparr>ipc_next_port := ipc_next_port s + 1\<rparr>, sint (ipc_next_port s)))"

definition ipc_port_destroy :: "apps \<Rightarrow> nat \<Rightarrow> u32 \<Rightarrow> apps \<times> int" where
  "ipc_port_destroy s c pd =
     (case find_port s pd of
        None \<Rightarrow> (s, - 1)
      | Some i \<Rightarrow>
          let caller = current_pid (ks s) c in
          case (if port_owner (ports s ! i) \<noteq> caller then sandbox_check_cap s caller CAP_ADMIN else (s, True)) of
            (s1, ok) \<Rightarrow> if ok then (upd_port s1 i (\<lambda>_. zero_port), 0) else (s1, - 1))"

text \<open>The message is built in the slot at the tail; bytes beyond its size keep what they were.\<close>

definition fill_message :: "ipc_message \<Rightarrow> u32 \<Rightarrow> ipc_msg_type \<Rightarrow> int \<Rightarrow> int \<Rightarrow> u32 \<Rightarrow> u32 \<Rightarrow> u64 \<Rightarrow> u8 list option \<Rightarrow> ipc_message" where
  "fill_message m ident ty sender receiver pd sz now data =
     \<lparr>m_id = ident, m_type = ty, m_sender = sender, m_receiver = receiver, m_port = pd, m_size = sz, m_timestamp = now,
      m_data = (case data of None \<Rightarrow> m_data m | Some bs \<Rightarrow> take (unat sz) bs @ drop (unat sz) (m_data m))\<rparr>"

definition port_push :: "ipc_port \<Rightarrow> ipc_message \<Rightarrow> ipc_port" where
  "port_push p m = p\<lparr>p_queue := (p_queue p)[p_tail p := m], p_tail := (p_tail p + 1) mod IPC_QUEUE_DEPTH, p_count := p_count p + 1\<rparr>"

definition port_pop :: "ipc_port \<Rightarrow> ipc_port" where
  "port_pop p = p\<lparr>p_head := (p_head p + 1) mod IPC_QUEUE_DEPTH, p_count := p_count p - 1\<rparr>"

text \<open>\<open>ipc_send\<close>; the result carries the slot of the port and the message that was queued.\<close>

definition ipc_post ::
  "apps \<Rightarrow> nat \<Rightarrow> u32 \<Rightarrow> u8 list option \<Rightarrow> u32 \<Rightarrow> ipc_msg_type \<Rightarrow> u64 \<Rightarrow> apps \<times> (nat \<times> ipc_message) option" where
  "ipc_post s c pd data sz ty now =
     (if IPC_MSG_MAX_SIZE < sz then (s, None)
      else case find_port s pd of
        None \<Rightarrow> (s, None)
      | Some i \<Rightarrow>
          let sender = current_pid (ks s) c; rc = required_caps (ports s ! i) in
          case (if rc \<noteq> 0 then sandbox_check_cap s sender rc else (s, True)) of
            (s1, ok) \<Rightarrow>
              let p = ports s1 ! i in
              if \<not> ok \<or> IPC_QUEUE_DEPTH \<le> p_count p then (s1, None)
              else let m = fill_message (p_queue p ! p_tail p) (ipc_msg_id s1) ty sender (port_owner p) pd sz now data
                   in ((upd_port s1 i (\<lambda>p. port_push p m))\<lparr>ipc_msg_id := ipc_msg_id s1 + 1\<rparr>, Some (i, m)))"

definition ipc_send :: "apps \<Rightarrow> nat \<Rightarrow> u32 \<Rightarrow> u8 list option \<Rightarrow> u32 \<Rightarrow> ipc_msg_type \<Rightarrow> u64 \<Rightarrow> apps \<times> int" where
  "ipc_send s c pd data sz ty now =
     (case ipc_post s c pd data sz ty now of (s1, r) \<Rightarrow> (s1, case r of None \<Rightarrow> - 1 | Some (i, m) \<Rightarrow> sint (m_id m)))"

text \<open>The loop of \<open>ipc_receive\<close>: one element of \<open>others\<close> is what the other CPUs do between two tests of the
  queue before the deadline.\<close>

fun receive_loop :: "(apps \<Rightarrow> apps) list \<Rightarrow> apps \<Rightarrow> nat \<Rightarrow> apps \<times> ipc_message option" where
  "receive_loop [] s i =
     (let p = ports s ! i in if 0 < p_count p then (upd_port s i port_pop, Some (p_queue p ! p_head p)) else (s, None))"
| "receive_loop (f # gs) s i =
     (let p = ports s ! i in if 0 < p_count p then (upd_port s i port_pop, Some (p_queue p ! p_head p)) else receive_loop gs (f s) i)"

definition ipc_receive :: "(apps \<Rightarrow> apps) list \<Rightarrow> apps \<Rightarrow> nat \<Rightarrow> u32 \<Rightarrow> apps \<times> (nat \<times> ipc_message) option" where
  "ipc_receive others s c pd =
     (case find_port s pd of
        None \<Rightarrow> (s, None)
      | Some i \<Rightarrow>
          if port_owner (ports s ! i) \<noteq> current_pid (ks s) c then (s, None)
          else case receive_loop others s i of (s1, r) \<Rightarrow> (s1, map_option (Pair i) r))"

definition ipc_port_lookup :: "apps \<Rightarrow> u8 list \<Rightarrow> int" where
  "ipc_port_lookup s nm = (case named_port s nm of None \<Rightarrow> - 1 | Some i \<Rightarrow> sint (port_id (ports s ! i)))"

section \<open>Shared memory\<close>

definition upd_region :: "apps \<Rightarrow> nat \<Rightarrow> (shm_region \<Rightarrow> shm_region) \<Rightarrow> apps" where
  "upd_region s i f = s\<lparr>regions := (regions s)[i := f (regions s ! i)]\<rparr>"

definition find_region :: "apps \<Rightarrow> u32 \<Rightarrow> nat option" where
  "find_region s ident = first_slot (\<lambda>i. shm_id (regions s ! i) = ident) 0 SHM_MAX_REGIONS"

definition shm_create :: "apps \<Rightarrow> nat \<Rightarrow> u64 \<Rightarrow> u32 \<Rightarrow> (apps \<times> int) option" where
  "shm_create s c sz fl =
     (if sz = 0 \<or> 0x1000000 < sz then Some (s, - 1)
      else case find_region s 0 of
        None \<Rightarrow> Some (s, - 1)
      | Some i \<Rightarrow>
          (case kmalloc (kh (ks s)) sz of
             None \<Rightarrow> None
           | Some (h, a) \<Rightarrow>
               let s1 = s\<lparr>ks := (ks s)\<lparr>kh := h\<rparr>\<rparr> in
               if a = 0 then Some (s1, - 1)
               else Some ((upd_region s1 i (\<lambda>r. r\<lparr>shm_id := shm_next_id s, shm_addr := a, shm_size := sz,
                       shm_owner := current_pid (ks s) c, client_count := 0, shm_flags := fl\<rparr>))\<lparr>shm_next_id := shm_next_id s + 1\<rparr>,
                     sint (shm_next_id s))))"

definition shm_attach :: "apps \<Rightarrow> u32 \<Rightarrow> int \<Rightarrow> apps \<times> int" where
  "shm_attach s ident client =
     (case find_region s ident of
        None \<Rightarrow> (s, - 1)
      | Some i \<Rightarrow>
          if 8 \<le> client_count (regions s ! i) then (s, - 1)
          else case sandbox_check_cap s client CAP_IPC of
            (s1, ok) \<Rightarrow>
              if \<not> ok then (s1, - 1)
              else (upd_region s1 i (\<lambda>r. r\<lparr>clients := (clients r)[client_count r := client], client_count := client_count r + 1\<rparr>), 0))"

definition shm_map :: "apps \<Rightarrow> u32 \<Rightarrow> int \<Rightarrow> u64" where
  "shm_map s ident pd =
     (case find_region s ident of
        None \<Rightarrow> 0
      | Some i \<Rightarrow>
          let r = regions s ! i in
          if shm_owner r = pd then shm_addr r
          else if pd \<in> set (take (client_count r) (clients r)) then shm_addr r else 0)"

definition shm_detach :: "apps \<Rightarrow> u32 \<Rightarrow> int \<Rightarrow> apps \<times> int" where
  "shm_detach s ident pd =
     (case find_region s ident of
        None \<Rightarrow> (s, - 1)
      | Some i \<Rightarrow>
          let r = regions s ! i in
          case first_slot (\<lambda>j. clients r ! j = pd) 0 (client_count r) of
            None \<Rightarrow> (s, - 1)
          | Some j \<Rightarrow> (upd_region s i (\<lambda>r. r\<lparr>clients := (clients r)[j := clients r ! (client_count r - 1)],
                client_count := client_count r - 1\<rparr>), 0))"

definition shm_destroy :: "apps \<Rightarrow> nat \<Rightarrow> u32 \<Rightarrow> apps \<times> int" where
  "shm_destroy s c ident =
     (case find_region s ident of
        None \<Rightarrow> (s, - 1)
      | Some i \<Rightarrow>
          let caller = current_pid (ks s) c in
          case (if shm_owner (regions s ! i) \<noteq> caller then sandbox_check_cap s caller CAP_ADMIN else (s, True)) of
            (s1, ok) \<Rightarrow>
              if \<not> ok then (s1, - 1)
              else (upd_region (s1\<lparr>ks := (ks s1)\<lparr>kh := kfree (kh (ks s1)) (shm_addr (regions s ! i))\<rparr>\<rparr>) i (\<lambda>_. zero_region), 0))"

end
