(* ===== verification/AppIsolation.thy ===== *)
theory AppIsolation
  imports AppSandbox "HOL-Library.Multiset"
begin

text \<open>
  What the application sandbox promises: the queue of a port delivers the messages it accepted in order
  (an instance of the interface of queues), shared memory is mapped by its owner and by the processes
  attached to it only (a refinement of a table of owners and clients); and what it does not promise: all
  processes share the first sandbox, and any process can get any capability.
\<close>

section \<open>Ports are queues\<close>

definition port_ok :: "ipc_port \<Rightarrow> bool" where
  "port_ok p \<longleftrightarrow> length (p_queue p) = IPC_QUEUE_DEPTH \<and> p_head p < IPC_QUEUE_DEPTH \<and> p_count p \<le> IPC_QUEUE_DEPTH
     \<and> p_tail p = (p_head p + p_count p) mod IPC_QUEUE_DEPTH"

definition port_msgs :: "ipc_port \<Rightarrow> ipc_message list" where
  "port_msgs p = ring_view (p_queue p) (p_head p) (p_count p)"

fun port_take :: "ipc_port \<Rightarrow> nat \<Rightarrow> ipc_message list \<times> ipc_port" where
  "port_take p 0 = ([], p)"
| "port_take p (Suc n) = (case port_take (port_pop p) n of (ms, q) \<Rightarrow> (p_queue p ! p_head p # ms, q))"

lemma depth_pos [simp]: "0 < IPC_QUEUE_DEPTH"
  by (simp add: IPC_QUEUE_DEPTH_def)

lemma port_push_ok:
  assumes "port_ok p" and "p_count p < IPC_QUEUE_DEPTH"
  shows "port_ok (port_push p m) \<and> port_msgs (port_push p m) = port_msgs p @ [m]"
proof -
  let ?N = IPC_QUEUE_DEPTH
  have l: "length (p_queue p) = ?N" "p_tail p = (p_head p + p_count p) mod ?N" using assms(1) by (simp_all add: port_ok_def)
  have "p_count p < length (p_queue p)" using assms(2) l by simp
  from ring_view_push [OF this, of "p_head p" m]
  have "port_msgs (port_push p m) = port_msgs p @ [m]" by (simp add: port_msgs_def port_push_def l)
  moreover have "(p_tail p + 1) mod ?N = (p_head p + (p_count p + 1)) mod ?N" by (simp add: l(2) mod_simps)
  then have "port_ok (port_push p m)" using assms by (simp add: port_ok_def port_push_def)
  ultimately show ?thesis by simp
qed

lemma port_pop_ok:
  assumes "port_ok p" and "0 < p_count p"
  shows "port_ok (port_pop p) \<and> port_msgs p = p_queue p ! p_head p # port_msgs (port_pop p)"
proof -
  let ?N = IPC_QUEUE_DEPTH
  obtain n where n: "p_count p = Suc n" using assms(2) gr0_implies_Suc by blast
  have l: "length (p_queue p) = ?N" "p_head p < ?N" "p_tail p = (p_head p + Suc n) mod ?N"
    using assms(1) n by (simp_all add: port_ok_def)
  have "port_msgs p = p_queue p ! p_head p # port_msgs (port_pop p)"
    using ring_view_pop [of "p_queue p" "p_head p" n] l by (simp add: port_msgs_def port_pop_def n)
  moreover have "((p_head p + 1) mod ?N + n) mod ?N = (p_head p + Suc n) mod ?N" by (simp add: mod_simps)
  then have "port_ok (port_pop p)" using assms(1) n l by (simp add: port_ok_def port_pop_def)
  ultimately show ?thesis by simp
qed

lemma length_port_msgs [simp]: "length (port_msgs p) = p_count p"
  by (simp add: port_msgs_def)

interpretation port_queue: byte_queue port_ok port_msgs "foldl port_push" port_take IPC_QUEUE_DEPTH
proof
  fix p and ms :: "ipc_message list"
  assume "port_ok p" "length (port_msgs p) + length ms \<le> IPC_QUEUE_DEPTH"
  then show "port_ok (foldl port_push p ms) \<and> port_msgs (foldl port_push p ms) = port_msgs p @ ms"
  proof (induction ms arbitrary: p)
    case (Cons m ms)
    then have "port_ok (port_push p m) \<and> port_msgs (port_push p m) = port_msgs p @ [m]" by (intro port_push_ok) simp_all
    with Cons.IH [of "port_push p m"] Cons.prems(2) show ?case by (simp flip: length_port_msgs)
  qed simp
next
  fix p n
  assume "port_ok p" "n \<le> length (port_msgs p)"
  then show "port_ok (snd (port_take p n)) \<and> fst (port_take p n) = take n (port_msgs p)
      \<and> port_msgs (snd (port_take p n)) = drop n (port_msgs p)"
  proof (induction p n rule: port_take.induct)
    case (2 p n)
    then have pop: "port_ok (port_pop p) \<and> port_msgs p = p_queue p ! p_head p # port_msgs (port_pop p)"
      by (intro port_pop_ok) simp_all
    then have "length (port_msgs p) = Suc (length (port_msgs (port_pop p)))" by (metis length_Cons)
    then have "n \<le> length (port_msgs (port_pop p))" using "2.prems"(2) by linarith
    moreover obtain ms q where "port_take (port_pop p) n = (ms, q)" by fastforce
    ultimately show ?case using "2.IH" [OF conjunct1 [OF pop]] by (subst (1 2) conjunct2 [OF pop]) simp
  qed simp
qed

section \<open>Messages arrive in order\<close>

text \<open>Sends and receives by any processes at any ports; the messages that were queued and that were taken
  out, each with the slot of its port.\<close>

datatype ipc_call = Post nat u32 "u8 list option" u32 ipc_msg_type u64 | Take nat u32

fun ipc_step :: "apps \<Rightarrow> ipc_call \<Rightarrow> apps \<times> (nat \<times> ipc_message) list \<times> (nat \<times> ipc_message) list" where
  "ipc_step s (Post c pd data sz ty now) = (case ipc_post s c pd data sz ty now of (s1, r) \<Rightarrow> (s1, case r of None \<Rightarrow> [] | Some x \<Rightarrow> [x], []))"
| "ipc_step s (Take c pd) = (case ipc_receive [] s c pd of (s1, r) \<Rightarrow> (s1, [], case r of None \<Rightarrow> [] | Some x \<Rightarrow> [x]))"

fun ipc_session :: "apps \<Rightarrow> ipc_call list \<Rightarrow> apps \<times> (nat \<times> ipc_message) list \<times> (nat \<times> ipc_message) list" where
  "ipc_session s [] = (s, [], [])"
| "ipc_session s (e # es) =
     (case ipc_step s e of (s1, ins, outs) \<Rightarrow> (case ipc_session s1 es of (s2, ins', outs') \<Rightarrow> (s2, ins @ ins', outs @ outs')))"

definition at_port :: "nat \<Rightarrow> (nat \<times> ipc_message) list \<Rightarrow> ipc_message list" where
  "at_port i xs = map snd (filter (\<lambda>x. fst x = i) xs)"

lemma at_port_simps [simp]:
  "at_port i [] = []" "at_port i (x # xs) = (if fst x = i then snd x # at_port i xs else at_port i xs)"
  "at_port i (xs @ ys) = at_port i xs @ at_port i ys"
  by (simp_all add: at_port_def)

definition ports_ok :: "apps \<Rightarrow> bool" where
  "ports_ok s \<longleftrightarrow> length (ports s) = IPC_PORT_MAX \<and> (\<forall>i < IPC_PORT_MAX. port_ok (ports s ! i))"

lemma check_cap_frame [simp]:
  "ports (fst (sandbox_check_cap s p c)) = ports s" "regions (fst (sandbox_check_cap s p c)) = regions s"
  "ks (fst (sandbox_check_cap s p c)) = ks s" "shm_next_id (fst (sandbox_check_cap s p c)) = shm_next_id s"
  by (simp_all add: sandbox_check_cap_def upd_box_def split: option.splits)

lemma check_cap_frameD:
  "sandbox_check_cap s p c = (s1, ok) \<Longrightarrow> ports s1 = ports s \<and> regions s1 = regions s \<and> ks s1 = ks s \<and> shm_next_id s1 = shm_next_id s"
  using check_cap_frame [of s p c] by simp

lemma find_port_bound: "find_port s pd = Some i \<Longrightarrow> i < IPC_PORT_MAX \<and> port_id (ports s ! i) = pd"
  unfolding find_port_def by (drule first_slot_Some) auto

lemma post_ports:
  assumes "ports_ok s" and "ipc_post s c pd data sz ty now = (s1, r)"
  shows "case r of None \<Rightarrow> ports s1 = ports s
    | Some (i, m) \<Rightarrow> i < IPC_PORT_MAX \<and> ports s1 = (ports s)[i := port_push (ports s ! i) m] \<and> p_count (ports s ! i) < IPC_QUEUE_DEPTH"
  using assms find_port_bound [of s pd]
  by (auto simp: ipc_post_def Let_def upd_port_def ports_ok_def split: if_splits option.splits prod.splits dest!: check_cap_frameD)

lemma receive_ports:
  assumes "ipc_receive [] s c pd = (s1, r)"
  shows "case r of None \<Rightarrow> ports s1 = ports s
    | Some (i, m) \<Rightarrow> i < IPC_PORT_MAX \<and> ports s1 = (ports s)[i := port_pop (ports s ! i)] \<and> 0 < p_count (ports s ! i)
        \<and> m = p_queue (ports s ! i) ! p_head (ports s ! i)"
  using assms find_port_bound [of s pd]
  by (auto simp: ipc_receive_def Let_def upd_port_def split: if_splits option.splits prod.splits)

lemma ipc_step_flows:
  assumes "ports_ok s" and "ipc_step s e = (s1, ins, outs)" and "i < IPC_PORT_MAX"
  shows "port_queue.flows (ports s ! i) (at_port i ins) (at_port i outs) (ports s1 ! i) \<and> length (ports s1) = IPC_PORT_MAX"
proof -
  have ok: "port_ok (ports s ! i)" and l: "length (ports s) = IPC_PORT_MAX" using assms(1,3) by (auto simp: ports_ok_def)
  show ?thesis
  proof (cases e)
    case (Post c pd data sz ty now)
    obtain r where p: "ipc_post s c pd data sz ty now = (s1, r)" "ins = (case r of None \<Rightarrow> [] | Some x \<Rightarrow> [x])" "outs = []"
      using assms(2) Post by (auto split: prod.splits)
    have "port_queue.flows (ports s ! i) [m] [] (port_push (ports s ! i) m)" if "p_count (ports s ! i) < IPC_QUEUE_DEPTH" for m
      using port_queue.flows_put [OF ok, of "[m]"] that by simp
    with post_ports [OF assms(1) p(1)] p(2,3) port_queue.flows_refl [OF ok] l assms(3) show ?thesis
      by (cases r) (auto simp: nth_list_update)
  next
    case (Take c pd)
    obtain r where p: "ipc_receive [] s c pd = (s1, r)" "ins = []" "outs = (case r of None \<Rightarrow> [] | Some x \<Rightarrow> [x])"
      using assms(2) Take by (auto split: prod.splits)
    have "port_queue.flows (ports s ! i) [] [p_queue (ports s ! i) ! p_head (ports s ! i)] (port_pop (ports s ! i))"
      if "0 < p_count (ports s ! i)"
      using port_queue.flows_get [OF ok, of 1] that by simp
    with receive_ports [OF p(1)] p(2,3) port_queue.flows_refl [OF ok] l assms(3) show ?thesis
      by (cases r) (auto simp: nth_list_update)
  qed
qed

text \<open>
  C9: Over any series of sends and receives by any processes, what was taken out of a port, followed by what is
  still queued, is what was queued at first followed by what the port accepted: messages keep their order, none
  is lost, repeated or delivered at another port.
\<close>

theorem messages_in_order:
  assumes "ports_ok s" and "ipc_session s es = (s1, ins, outs)"
  shows "ports_ok s1 \<and> (\<forall>i < IPC_PORT_MAX. at_port i outs @ port_msgs (ports s1 ! i) = port_msgs (ports s ! i) @ at_port i ins)"
proof -
  have "ports_ok s1 \<and> (\<forall>i < IPC_PORT_MAX. port_queue.flows (ports s ! i) (at_port i ins) (at_port i outs) (ports s1 ! i))"
    using assms
  proof (induction es arbitrary: s ins outs)
    case Nil
    then show ?case using port_queue.flows_refl by (auto simp: ports_ok_def)
  next
    case (Cons e es)
    obtain s2 i1 o1 where e: "ipc_step s e = (s2, i1, o1)" by (rule prod_cases3)
    obtain s3 i2 o2 where r: "ipc_session s2 es = (s3, i2, o2)" by (rule prod_cases3)
    from r have r: "ipc_session s2 es = (s1, i2, o2)" and eq: "ins = i1 @ i2" "outs = o1 @ o2" using Cons.prems(2) e by auto
    note st = ipc_step_flows [OF Cons.prems(1) e]
    from st [of 0] have "length (ports s2) = IPC_PORT_MAX" by (simp add: IPC_PORT_MAX_def)
    with st have "ports_ok s2" by (simp add: ports_ok_def port_queue.flows_def)
    from Cons.IH [OF this r] st show ?case by (auto simp: eq intro: port_queue.flows_trans)
  qed
  then show ?thesis by (auto simp: port_queue.flows_def)
qed

section \<open>Shared memory refines a table of owners and clients\<close>

definition shm_ok :: "apps \<Rightarrow> bool" where
  "shm_ok s \<longleftrightarrow> length (regions s) = SHM_MAX_REGIONS \<and> shm_next_id s \<noteq> 0
     \<and> (\<forall>i < SHM_MAX_REGIONS. length (clients (regions s ! i)) = 8 \<and> client_count (regions s ! i) \<le> 8
          \<and> shm_id (regions s ! i) < shm_next_id s \<and> (shm_id (regions s ! i) = 0 \<longrightarrow> shm_addr (regions s ! i) = 0))
     \<and> (\<forall>i < SHM_MAX_REGIONS. \<forall>j < SHM_MAX_REGIONS.
          shm_id (regions s ! i) = shm_id (regions s ! j) \<longrightarrow> shm_id (regions s ! i) \<noteq> 0 \<longrightarrow> i = j)"

type_synonym shm_table = "u32 \<rightharpoonup> int \<times> u64 \<times> int multiset"

definition region_abs :: "shm_region \<Rightarrow> int \<times> u64 \<times> int multiset" where
  "region_abs r = (shm_owner r, shm_addr r, mset (take (client_count r) (clients r)))"

definition shm_abs :: "apps \<Rightarrow> shm_table" where
  "shm_abs s ident = (if ident = 0 then None else map_option (\<lambda>i. region_abs (regions s ! i)) (find_region s ident))"

definition spec_map :: "shm_table \<Rightarrow> u32 \<Rightarrow> int \<Rightarrow> u64" where
  "spec_map t ident pd = (case t ident of None \<Rightarrow> 0 | Some (ow, a, cl) \<Rightarrow> if pd = ow \<or> pd \<in># cl then a else 0)"

lemma find_region_Some: "find_region s ident = Some i \<Longrightarrow> i < SHM_MAX_REGIONS \<and> shm_id (regions s ! i) = ident"
  unfolding find_region_def by (drule first_slot_Some) auto

lemma find_region_None: "find_region s ident = None \<longleftrightarrow> (\<forall>i < SHM_MAX_REGIONS. shm_id (regions s ! i) \<noteq> ident)"
  by (simp add: find_region_def first_slot_None)

lemma find_region_eq:
  assumes "shm_ok s" and "i < SHM_MAX_REGIONS" and "shm_id (regions s ! i) = ident" and "ident \<noteq> 0"
  shows "find_region s ident = Some i"
proof (cases "find_region s ident")
  case None
  then show ?thesis using assms by (auto simp: find_region_None)
next
  case (Some j)
  then show ?thesis using find_region_Some [OF Some] assms unfolding shm_ok_def by metis
qed

lemma shm_abs_Some:
  assumes "shm_ok s"
  shows "shm_abs s ident = Some x \<longleftrightarrow> ident \<noteq> 0 \<and> (\<exists>i < SHM_MAX_REGIONS. shm_id (regions s ! i) = ident \<and> x = region_abs (regions s ! i))"
proof
  assume "shm_abs s ident = Some x"
  then show "ident \<noteq> 0 \<and> (\<exists>i < SHM_MAX_REGIONS. shm_id (regions s ! i) = ident \<and> x = region_abs (regions s ! i))"
    using find_region_Some by (fastforce simp: shm_abs_def split: if_splits)
next
  assume "ident \<noteq> 0 \<and> (\<exists>i < SHM_MAX_REGIONS. shm_id (regions s ! i) = ident \<and> x = region_abs (regions s ! i))"
  then show "shm_abs s ident = Some x" using find_region_eq [OF assms] by (auto simp: shm_abs_def)
qed

lemma map_eq_graph: "(\<And>k x. f k = Some x \<longleftrightarrow> g k = Some x) \<Longrightarrow> f = g" for f :: "'a \<rightharpoonup> 'b"
  by (metis ext not_Some_eq)

text \<open>What a change of one slot does to the table.\<close>

lemma region_upd:
  assumes "shm_ok s" and "i < SHM_MAX_REGIONS" and "regions s' = (regions s)[i := r]" and "shm_next_id s \<le> shm_next_id s'"
    and "length (clients r) = 8" and "client_count r \<le> 8" and "shm_id r < shm_next_id s'" and "shm_id r = 0 \<longrightarrow> shm_addr r = 0"
    and "shm_id r \<noteq> shm_id (regions s ! i) \<longrightarrow> shm_id r = 0 \<or> (shm_id (regions s ! i) = 0 \<and> find_region s (shm_id r) = None)"
  shows "shm_ok s' \<and> shm_abs s' = (\<lambda>k. if k = 0 then None else if k = shm_id r then Some (region_abs r)
     else if k = shm_id (regions s ! i) then None else shm_abs s k)"
proof -
  have l: "length (regions s) = SHM_MAX_REGIONS" using assms(1) by (simp add: shm_ok_def)
  have n: "regions s' ! j = (if j = i then r else regions s ! j)" if "j < SHM_MAX_REGIONS" for j
    using that l assms(3) by simp
  have new: "j = i" if "j < SHM_MAX_REGIONS" "shm_id (regions s ! j) = shm_id r" "shm_id r \<noteq> 0" for j
  proof (cases "shm_id r = shm_id (regions s ! i)")
    case True
    with that assms(1,2) show ?thesis unfolding shm_ok_def by metis
  next
    case False
    with assms(9) that(3) have "find_region s (shm_id r) = None" by blast
    with that show ?thesis by (auto simp: find_region_None)
  qed
  have u: "k = j" if "j < SHM_MAX_REGIONS" "k < SHM_MAX_REGIONS" "shm_id (regions s ! j) = shm_id (regions s ! k)" "shm_id (regions s ! j) \<noteq> 0" for j k
    using that assms(1) unfolding shm_ok_def by metis
  have old: "shm_id (regions s ! j) < shm_next_id s'" "length (clients (regions s ! j)) = 8" "client_count (regions s ! j) \<le> 8"
    "shm_id (regions s ! j) = 0 \<longrightarrow> shm_addr (regions s ! j) = 0" if "j < SHM_MAX_REGIONS" for j
    using assms(1,4) that unfolding shm_ok_def by (meson less_le_trans)+
  have "shm_next_id s' \<noteq> 0" using assms(1,4) unfolding shm_ok_def by (metis word_le_0_iff)
  moreover have "\<forall>j < SHM_MAX_REGIONS. length (clients (regions s' ! j)) = 8 \<and> client_count (regions s' ! j) \<le> 8
      \<and> shm_id (regions s' ! j) < shm_next_id s' \<and> (shm_id (regions s' ! j) = 0 \<longrightarrow> shm_addr (regions s' ! j) = 0)"
    using old assms(5-8) by (simp add: n)
  moreover have "j = k" if "j < SHM_MAX_REGIONS" "k < SHM_MAX_REGIONS" "shm_id (regions s' ! j) = shm_id (regions s' ! k)"
    "shm_id (regions s' ! j) \<noteq> 0" for j k
    using that new u by (auto simp: n split: if_splits)
  ultimately have ok: "shm_ok s'" using l assms(3) unfolding shm_ok_def by auto
  have "shm_abs s' = (\<lambda>k. if k = 0 then None else if k = shm_id r then Some (region_abs r)
     else if k = shm_id (regions s ! i) then None else shm_abs s k)"
  proof (rule map_eq_graph)
    fix k x
    have e: "(\<exists>j < SHM_MAX_REGIONS. shm_id (regions s' ! j) = k \<and> x = region_abs (regions s' ! j))
        \<longleftrightarrow> (shm_id r = k \<and> x = region_abs r) \<or> (\<exists>j < SHM_MAX_REGIONS. j \<noteq> i \<and> shm_id (regions s ! j) = k \<and> x = region_abs (regions s ! j))"
    proof
      assume "\<exists>j < SHM_MAX_REGIONS. shm_id (regions s' ! j) = k \<and> x = region_abs (regions s' ! j)"
      then show "(shm_id r = k \<and> x = region_abs r) \<or> (\<exists>j < SHM_MAX_REGIONS. j \<noteq> i \<and> shm_id (regions s ! j) = k \<and> x = region_abs (regions s ! j))"
        by (auto simp: n split: if_splits)
    next
      assume "(shm_id r = k \<and> x = region_abs r) \<or> (\<exists>j < SHM_MAX_REGIONS. j \<noteq> i \<and> shm_id (regions s ! j) = k \<and> x = region_abs (regions s ! j))"
      then show "\<exists>j < SHM_MAX_REGIONS. shm_id (regions s' ! j) = k \<and> x = region_abs (regions s' ! j)"
        using n [OF assms(2)] n assms(2) by metis
    qed
    show "shm_abs s' k = Some x \<longleftrightarrow> (if k = 0 then None else if k = shm_id r then Some (region_abs r)
       else if k = shm_id (regions s ! i) then None else shm_abs s k) = Some x"
    proof (cases "k = 0 \<or> k = shm_id r")
      case True
      then show ?thesis using new unfolding shm_abs_Some [OF ok] e by auto
    next
      case False
      then show ?thesis unfolding shm_abs_Some [OF ok] e using shm_abs_Some [OF assms(1), of k x] u assms(2) by auto
    qed
  qed
  with ok show ?thesis by simp
qed

lemma mset_attach:
  "n < length cs \<Longrightarrow> mset (take (Suc n) (cs[n := x])) = add_mset x (mset (take n cs))"
  by (simp add: take_Suc_conv_app_nth)

lemma mset_detach:
  assumes "j < n" and "n \<le> length cs"
  shows "mset (take (n - 1) (cs[j := cs ! (n - 1)])) = mset (take n cs) - {#cs ! j#}"
proof -
  have t: "take n cs = take (n - 1) cs @ [cs ! (n - 1)]"
    using assms take_Suc_conv_app_nth [of "n - 1" cs] by simp
  show ?thesis
  proof (cases "j = n - 1")
    case True
    then show ?thesis by (simp add: t)
  next
    case False
    then have j: "j < length (take (n - 1) cs)" using assms by simp
    then have "cs ! j \<in># mset (take (n - 1) cs)" by (metis in_set_conv_nth length_take min_less_iff_conj nth_take set_mset_mset)
    moreover have "take (n - 1) (cs[j := cs ! (n - 1)]) = (take (n - 1) cs)[j := cs ! (n - 1)]" by (rule take_update_swap)
    ultimately show ?thesis using mset_update [OF j] j by (simp add: t)
  qed
qed

datatype shm_call = Create nat u64 u32 | Attach u32 int | Detach u32 int | Destroy nat u32

fun shm_step :: "apps \<Rightarrow> shm_call \<Rightarrow> (apps \<times> int) option" where
  "shm_step s (Create c sz fl) = shm_create s c sz fl"
| "shm_step s (Attach ident client) = Some (shm_attach s ident client)"
| "shm_step s (Detach ident pd) = Some (shm_detach s ident pd)"
| "shm_step s (Destroy c ident) = Some (shm_destroy s c ident)"

text \<open>The table after a call with result \<open>r\<close>; \<open>caller\<close> is the process on each CPU, \<open>a\<close> the memory of a new region.\<close>

fun spec_step :: "shm_call \<Rightarrow> int \<Rightarrow> (nat \<Rightarrow> int) \<Rightarrow> u64 \<Rightarrow> shm_table \<Rightarrow> shm_table" where
  "spec_step (Create c sz fl) r caller a t = (if r = - 1 then t else t(word_of_int r \<mapsto> (caller c, a, {#})))"
| "spec_step (Attach ident client) r caller a t =
     (case t ident of Some (ow, b, cl) \<Rightarrow> if r = - 1 then t else t(ident \<mapsto> (ow, b, add_mset client cl)) | None \<Rightarrow> t)"
| "spec_step (Detach ident pd) r caller a t =
     (case t ident of Some (ow, b, cl) \<Rightarrow> if r = - 1 then t else t(ident \<mapsto> (ow, b, cl - {#pd#})) | None \<Rightarrow> t)"
| "spec_step (Destroy c ident) r caller a t = (if r = - 1 then t else t(ident := None))"

lemma shm_frame:
  assumes "shm_ok s" and "regions s' = regions s" and "shm_next_id s' = shm_next_id s"
  shows "shm_ok s' \<and> shm_abs s' = shm_abs s"
  using assms by (simp add: shm_ok_def shm_abs_def find_region_def fun_eq_iff)

lemma shm_map_spec: "ident \<noteq> 0 \<Longrightarrow> shm_map s ident pd = spec_map (shm_abs s) ident pd"
  by (auto simp: shm_map_def spec_map_def shm_abs_def region_abs_def Let_def in_multiset_in_set split: option.splits)

lemma create_refines:
  assumes "shm_ok s" and "shm_next_id s < 0x7FFFFFFF" and "shm_create s c sz fl = Some (s', r)"
  shows "shm_ok s' \<and> (\<exists>a. shm_abs s' = spec_step (Create c sz fl) r (current_pid (ks s)) a (shm_abs s))"
proof -
  have sn: "0 \<le> sint (shm_next_id s)" "sint (shm_next_id s) \<noteq> - 1"
    using assms(2) sint_small [of "shm_next_id s"] by (simp_all add: word_less_nat_alt del: of_nat_unat)
  consider "r = - 1" "regions s' = regions s" "shm_next_id s' = shm_next_id s"
    | i a where "find_region s 0 = Some i" "r = sint (shm_next_id s)" "shm_next_id s' = shm_next_id s + 1"
        "regions s' = (regions s)[i := (regions s ! i)\<lparr>shm_id := shm_next_id s, shm_addr := a, shm_size := sz,
           shm_owner := current_pid (ks s) c, client_count := 0, shm_flags := fl\<rparr>]"
  proof (cases "sz = 0 \<or> 0x1000000 < sz \<or> find_region s 0 = None")
    case True
    with assms(3) have "s' = s \<and> r = - 1" by (cases "sz = 0 \<or> 0x1000000 < sz") (auto simp: shm_create_def)
    with that(1) show thesis by simp
  next
    case False
    then obtain i where i: "find_region s 0 = Some i" by blast
    from False i assms(3) obtain h a where k: "kmalloc (kh (ks s)) sz = Some (h, a)"
      by (cases "kmalloc (kh (ks s)) sz") (auto simp: shm_create_def)
    show thesis
    proof (cases "a = 0")
      case True
      with False i k assms(3) that(1) show thesis by (auto simp: shm_create_def)
    next
      case nz: False
      with False i k assms(3) have s': "s' = (upd_region (s\<lparr>ks := (ks s)\<lparr>kh := h\<rparr>\<rparr>) i (\<lambda>r. r\<lparr>shm_id := shm_next_id s, shm_addr := a, shm_size := sz,
          shm_owner := current_pid (ks s) c, client_count := 0, shm_flags := fl\<rparr>))\<lparr>shm_next_id := shm_next_id s + 1\<rparr>"
        and rr: "r = sint (shm_next_id s)" by (simp_all add: shm_create_def Let_def)
      show thesis by (rule that(2) [OF i rr]) (simp_all add: s' upd_region_def)
    qed
  qed
  then show ?thesis
  proof cases
    case 1
    then show ?thesis using shm_frame [OF assms(1) 1(2,3)] 1(1) by simp
  next
    case (2 i a)
    let ?n = "shm_next_id s"
    let ?r = "(regions s ! i)\<lparr>shm_id := ?n, shm_addr := a, shm_size := sz, shm_owner := current_pid (ks s) c,
      client_count := 0, shm_flags := fl\<rparr>"
    have i: "i < SHM_MAX_REGIONS" "shm_id (regions s ! i) = 0" using find_region_Some [OF 2(1)] by auto
    have n: "?n \<noteq> 0" "\<forall>j < SHM_MAX_REGIONS. shm_id (regions s ! j) < ?n" using assms(1) by (auto simp: shm_ok_def)
    then have f: "find_region s ?n = None" by (auto simp: find_region_None)
    have lt: "?n < ?n + 1" using assms(2) by (simp add: word_less_nat_alt unat_add_small)
    have "length (clients (regions s ! i)) = 8" using assms(1) i(1) by (simp add: shm_ok_def)
    then have ok: "shm_ok s' \<and> shm_abs s' = (\<lambda>k. if k = 0 then None else if k = shm_id ?r then Some (region_abs ?r)
        else if k = shm_id (regions s ! i) then None else shm_abs s k)"
      using i(2) n(1) f lt 2(3) by (intro region_upd [OF assms(1) i(1) 2(4)]) (simp_all add: less_imp_le)
    have "region_abs ?r = (current_pid (ks s) c, a, {#})" by (simp add: region_abs_def)
    then have "shm_abs s' k = spec_step (Create c sz fl) r (current_pid (ks s)) a (shm_abs s) k" for k
      using ok n(1) sn 2(2) i(2) by (cases "k = 0"; cases "k = ?n") (simp_all add: shm_abs_def)
    then have "shm_abs s' = spec_step (Create c sz fl) r (current_pid (ks s)) a (shm_abs s)" by (rule ext)
    with ok show ?thesis by blast
  qed
qed

text \<open>A change of one region that is in use.\<close>

lemma region_in_use:
  assumes "shm_ok s" and "find_region s ident = Some i" and "regions s' = (regions s)[i := r]" and "shm_next_id s' = shm_next_id s"
    and "shm_id r = ident" and "length (clients r) = 8" and "client_count r \<le> 8" and "ident = 0 \<longrightarrow> shm_addr r = 0"
  shows "shm_ok s' \<and> shm_abs s' = (if ident = 0 then shm_abs s else (shm_abs s)(ident \<mapsto> region_abs r))"
proof -
  have i: "i < SHM_MAX_REGIONS" "shm_id (regions s ! i) = ident" using find_region_Some [OF assms(2)] by auto
  moreover have "shm_id (regions s ! i) < shm_next_id s" using assms(1) i(1) unfolding shm_ok_def by blast
  ultimately have "shm_ok s' \<and> shm_abs s' = (\<lambda>k. if k = 0 then None else if k = shm_id r then Some (region_abs r)
     else if k = shm_id (regions s ! i) then None else shm_abs s k)"
    using assms by (intro region_upd) simp_all
  then show ?thesis using assms(5) i(2) by (auto simp: fun_eq_iff shm_abs_def)
qed

lemma region_fields:
  assumes "shm_ok s" and "find_region s ident = Some i"
  shows "length (clients (regions s ! i)) = 8" "client_count (regions s ! i) \<le> 8" "shm_id (regions s ! i) = ident"
    "ident = 0 \<longrightarrow> shm_addr (regions s ! i) = 0" "shm_abs s ident = (if ident = 0 then None else Some (region_abs (regions s ! i)))"
  using find_region_Some [OF assms(2)] assms by (auto simp: shm_ok_def shm_abs_def)

lemma attach_refines:
  assumes "shm_ok s" and "shm_attach s ident client = (s', r)"
  shows "shm_ok s' \<and> shm_abs s' = spec_step (Attach ident client) r caller a (shm_abs s)"
proof -
  consider "r = - 1" "regions s' = regions s" "shm_next_id s' = shm_next_id s"
    | i where "find_region s ident = Some i" "r = 0" "client_count (regions s ! i) < 8" "shm_next_id s' = shm_next_id s"
        "regions s' = (regions s)[i := (regions s ! i)\<lparr>clients := (clients (regions s ! i))[client_count (regions s ! i) := client],
           client_count := client_count (regions s ! i) + 1\<rparr>]"
  proof (cases "find_region s ident")
    case None
    with assms(2) that(1) show thesis by (simp add: shm_attach_def)
  next
    case i: (Some i)
    obtain s1 ok where k: "sandbox_check_cap s client CAP_IPC = (s1, ok)" by fastforce
    note f = check_cap_frameD [OF k]
    show thesis
    proof (cases "8 \<le> client_count (regions s ! i) \<or> \<not> ok")
      case True
      with assms(2) i k f show thesis by (intro that(1)) (auto simp: shm_attach_def split: if_splits)
    next
      case False
      with assms(2) i k have s': "s' = upd_region s1 i (\<lambda>r. r\<lparr>clients := (clients r)[client_count r := client], client_count := client_count r + 1\<rparr>)"
        and rr: "r = 0" by (simp_all add: shm_attach_def)
      show thesis using False f by (intro that(2) [OF i rr]) (simp_all add: s' upd_region_def)
    qed
  qed
  then show ?thesis
  proof cases
    case 1
    then show ?thesis using shm_frame [OF assms(1) 1(2,3)] 1(1) by (simp split: option.split)
  next
    case (2 i)
    note F = region_fields [OF assms(1) 2(1)]
    let ?r = "(regions s ! i)\<lparr>clients := (clients (regions s ! i))[client_count (regions s ! i) := client],
           client_count := client_count (regions s ! i) + 1\<rparr>"
    have "region_abs ?r = (shm_owner (regions s ! i), shm_addr (regions s ! i),
        add_mset client (mset (take (client_count (regions s ! i)) (clients (regions s ! i)))))"
      using mset_attach [of "client_count (regions s ! i)" "clients (regions s ! i)" client] F(1) 2(3) by (simp add: region_abs_def)
    moreover have "shm_ok s' \<and> shm_abs s' = (if ident = 0 then shm_abs s else (shm_abs s)(ident \<mapsto> region_abs ?r))"
      using F 2(3) by (intro region_in_use [OF assms(1) 2(1,5,4)]) simp_all
    ultimately show ?thesis using F(5) 2(2) by (cases "ident = 0") (simp_all add: region_abs_def)
  qed
qed

lemma detach_refines:
  assumes "shm_ok s" and "shm_detach s ident pd = (s', r)"
  shows "shm_ok s' \<and> shm_abs s' = spec_step (Detach ident pd) r caller a (shm_abs s)"
proof -
  consider "r = - 1" "s' = s"
    | i j where "find_region s ident = Some i" "first_slot (\<lambda>j. clients (regions s ! i) ! j = pd) 0 (client_count (regions s ! i)) = Some j"
        "r = 0" "shm_next_id s' = shm_next_id s"
        "regions s' = (regions s)[i := (regions s ! i)\<lparr>clients := (clients (regions s ! i))[j := clients (regions s ! i) ! (client_count (regions s ! i) - 1)],
           client_count := client_count (regions s ! i) - 1\<rparr>]"
  proof (cases "find_region s ident")
    case None
    with assms(2) that(1) show thesis by (simp add: shm_detach_def)
  next
    case i: (Some i)
    show thesis
    proof (cases "first_slot (\<lambda>j. clients (regions s ! i) ! j = pd) 0 (client_count (regions s ! i))")
      case None
      with assms(2) i that(1) show thesis by (simp add: shm_detach_def)
    next
      case j: (Some j)
      with assms(2) i have s': "s' = upd_region s i (\<lambda>r. r\<lparr>clients := (clients r)[j := clients r ! (client_count r - 1)],
          client_count := client_count r - 1\<rparr>)" and rr: "r = 0" by (simp_all add: shm_detach_def Let_def)
      show thesis by (rule that(2) [OF i j rr]) (simp_all add: s' upd_region_def)
    qed
  qed
  then show ?thesis
  proof cases
    case 1
    then show ?thesis using assms(1) by (simp split: option.split)
  next
    case (2 i j)
    have j: "j < client_count (regions s ! i)" "clients (regions s ! i) ! j = pd" using first_slot_Some [OF 2(2)] by auto
    note F = region_fields [OF assms(1) 2(1)]
    have "client_count (regions s ! i) - 1 \<le> 8" using F(2) by simp
    then have "shm_ok s' \<and> shm_abs s' = (if ident = 0 then shm_abs s else (shm_abs s)(ident \<mapsto> region_abs
        ((regions s ! i)\<lparr>clients := (clients (regions s ! i))[j := clients (regions s ! i) ! (client_count (regions s ! i) - 1)],
           client_count := client_count (regions s ! i) - 1\<rparr>)))" (is "_ \<and> _ = (if _ then _ else (shm_abs s)(ident \<mapsto> region_abs ?r))")
      using F by (intro region_in_use [OF assms(1) 2(1,5,4)]) simp_all
    moreover have "region_abs ?r = (shm_owner (regions s ! i), shm_addr (regions s ! i),
        mset (take (client_count (regions s ! i)) (clients (regions s ! i))) - {#pd#})"
      using mset_detach [OF j(1), of "clients (regions s ! i)"] F(1,2) j(2) by (simp add: region_abs_def)
    ultimately show ?thesis using F(5) 2(3) by (cases "ident = 0") (simp_all add: region_abs_def)
  qed
qed

lemma destroy_refines:
  assumes "shm_ok s" and "shm_destroy s c ident = (s', r)"
  shows "shm_ok s' \<and> shm_abs s' = spec_step (Destroy c ident) r caller a (shm_abs s)"
proof -
  consider "r = - 1" "regions s' = regions s" "shm_next_id s' = shm_next_id s"
    | i where "find_region s ident = Some i" "r = 0" "shm_next_id s' = shm_next_id s" "regions s' = (regions s)[i := zero_region]"
  proof (cases "find_region s ident")
    case None
    with assms(2) that(1) show thesis by (simp add: shm_destroy_def)
  next
    case i: (Some i)
    let ?g = "if shm_owner (regions s ! i) \<noteq> current_pid (ks s) c then sandbox_check_cap s (current_pid (ks s) c) CAP_ADMIN else (s, True)"
    obtain s1 ok where k: "?g = (s1, ok)" by fastforce
    have f: "regions s1 = regions s \<and> shm_next_id s1 = shm_next_id s"
    proof (cases "shm_owner (regions s ! i) = current_pid (ks s) c")
      case False
      with k have "sandbox_check_cap s (current_pid (ks s) c) CAP_ADMIN = (s1, ok)" by simp
      then show ?thesis by (simp add: check_cap_frameD)
    qed (use k in simp)
    show thesis
    proof (cases ok)
      case False
      with assms(2) i k f show thesis by (intro that(1)) (simp_all add: shm_destroy_def)
    next
      case True
      with assms(2) i k have s': "s' = upd_region (s1\<lparr>ks := (ks s1)\<lparr>kh := kfree (kh (ks s1)) (shm_addr (regions s ! i))\<rparr>\<rparr>) i (\<lambda>_. zero_region)"
        and rr: "r = 0" by (simp_all add: shm_destroy_def)
      show thesis using f by (intro that(2) [OF i rr]) (simp_all add: s' upd_region_def)
    qed
  qed
  then show ?thesis
  proof cases
    case 1
    then show ?thesis using shm_frame [OF assms(1) 1(2,3)] 1(1) by simp
  next
    case (2 i)
    have i: "i < SHM_MAX_REGIONS" "shm_id (regions s ! i) = ident" using find_region_Some [OF 2(1)] by auto
    have "shm_next_id s \<noteq> 0" using assms(1) by (simp add: shm_ok_def)
    then have "shm_ok s' \<and> shm_abs s' = (\<lambda>k. if k = 0 then None else if k = shm_id zero_region then Some (region_abs zero_region)
        else if k = shm_id (regions s ! i) then None else shm_abs s k)"
      using i 2(3) by (intro region_upd [OF assms(1) i(1) 2(4)]) (simp_all add: zero_region_def word_neq_0_conv)
    with 2(2) i(2) show ?thesis by (auto simp: fun_eq_iff shm_abs_def zero_region_def)
  qed
qed

text \<open>
  C13: Each call on shared memory does to the table of owners and clients what the specification says, and a
  process gets the address of a region exactly when it is its owner or one of its clients.
\<close>

theorem shared_memory_refines:
  assumes "shm_ok s" and "shm_next_id s < 0x7FFFFFFF" and "shm_step s op = Some (s', r)"
  shows "shm_ok s' \<and> (\<exists>a. shm_abs s' = spec_step op r (current_pid (ks s)) a (shm_abs s))
    \<and> (\<forall>ident pd. ident \<noteq> 0 \<longrightarrow> shm_map s' ident pd = spec_map (shm_abs s') ident pd)"
proof -
  have "shm_ok s' \<and> (\<exists>a. shm_abs s' = spec_step op r (current_pid (ks s)) a (shm_abs s))"
  proof (cases op)
    case (Create c sz fl)
    with assms create_refines show ?thesis by simp
  next
    case (Attach ident client)
    with assms(3) have "shm_attach s ident client = (s', r)" by simp
    from attach_refines [OF assms(1) this, of "current_pid (ks s)"] Attach show ?thesis by blast
  next
    case (Detach ident pd)
    with assms(3) have "shm_detach s ident pd = (s', r)" by simp
    from detach_refines [OF assms(1) this, of "current_pid (ks s)"] Detach show ?thesis by blast
  next
    case (Destroy c ident)
    with assms(3) have "shm_destroy s c ident = (s', r)" by simp
    from destroy_refines [OF assms(1) this, of "current_pid (ks s)"] Destroy show ?thesis by blast
  qed
  then show ?thesis using shm_map_spec by blast
qed

section \<open>Sandboxes\<close>

definition in_use_box :: "apps \<Rightarrow> nat set" where
  "in_use_box s = {i. i < MAX_SANDBOXES \<and> mem_base (sandboxes s ! i) \<noteq> 0}"

definition boxes_ok :: "apps \<Rightarrow> bool" where
  "boxes_ok s \<longleftrightarrow> length (sandboxes s) = MAX_SANDBOXES \<and> unat (sandbox_count s) = card (in_use_box s)
     \<and> (\<forall>i < MAX_SANDBOXES. mem_base (sandboxes s ! i) = 0 \<longrightarrow> level (sandboxes s ! i) = SANDBOX_NONE)"

datatype box_call = Box_create sandbox_level "u8 list" | Box_destroy int | Box_check int u64 | Box_grant nat int u64 | Box_revoke int u64

fun box_step :: "apps \<Rightarrow> box_call \<Rightarrow> apps option" where
  "box_step s (Box_create lv app) = map_option fst (sandbox_create s lv app)"
| "box_step s (Box_destroy pd) = Some (sandbox_destroy s pd)"
| "box_step s (Box_check pd c) = Some (fst (sandbox_check_cap s pd c))"
| "box_step s (Box_grant c pd cp) = Some (fst (sandbox_grant_cap s c pd cp))"
| "box_step s (Box_revoke pd cp) = Some (fst (sandbox_revoke_cap s pd cp))"

fun box_run :: "apps \<Rightarrow> box_call list \<Rightarrow> apps option" where
  "box_run s [] = Some s"
| "box_run s (x # xs) = (case box_step s x of None \<Rightarrow> None | Some s1 \<Rightarrow> box_run s1 xs)"

lemma finite_in_use_box [simp]: "finite (in_use_box s)"
  by (rule finite_subset [of _ "{..<MAX_SANDBOXES}"]) (auto simp: in_use_box_def)

lemma card_in_use_box: "card (in_use_box s) \<le> MAX_SANDBOXES"
  using card_mono [of "{..<MAX_SANDBOXES}" "in_use_box s"] by (auto simp: in_use_box_def)

lemma sandbox_get_Some:
  assumes "sandbox_get s pd = Some i"
  shows "i < MAX_SANDBOXES \<and> level (sandboxes s ! i) \<noteq> SANDBOX_NONE \<and> mem_base (sandboxes s ! i) \<noteq> 0
    \<and> (\<forall>j < i. \<not> (level (sandboxes s ! j) \<noteq> SANDBOX_NONE \<and> mem_base (sandboxes s ! j) \<noteq> 0))"
proof -
  have "first_slot (\<lambda>i. level (sandboxes s ! i) \<noteq> SANDBOX_NONE \<and> mem_base (sandboxes s ! i) \<noteq> 0) 0 MAX_SANDBOXES = Some i"
    using assms by (simp add: sandbox_get_def split: if_splits)
  from first_slot_Some [OF this] show ?thesis by auto
qed

text \<open>A change of a sandbox that keeps its memory and its level.\<close>

lemma boxes_keep:
  assumes "boxes_ok s" and "sandboxes s' = (sandboxes s)[i := f (sandboxes s ! i)]" and "sandbox_count s' = sandbox_count s"
    and "\<And>x. mem_base (f x) = mem_base x" and "\<And>x. level (f x) = level x"
  shows "boxes_ok s'"
proof -
  have n: "mem_base (sandboxes s' ! j) = mem_base (sandboxes s ! j) \<and> level (sandboxes s' ! j) = level (sandboxes s ! j)"
    if "j < MAX_SANDBOXES" for j
    using that assms(1,2,4,5) by (cases "j = i") (simp_all add: boxes_ok_def)
  then have "in_use_box s' = in_use_box s" by (auto simp: in_use_box_def)
  with n assms show ?thesis by (simp add: boxes_ok_def)
qed

text \<open>The outcomes of \<open>sandbox_create\<close>; the processes stay as they are.\<close>

abbreviation free_box :: "apps \<Rightarrow> nat option" where
  "free_box s \<equiv> first_slot (\<lambda>i. level (sandboxes s ! i) = SANDBOX_NONE \<and> mem_base (sandboxes s ! i) = 0) 0 MAX_SANDBOXES"

lemma sandbox_create_cases:
  assumes "sandbox_create s lv app = Some (s', r)"
  obtains (none) "r = None" "sandboxes s' = sandboxes s" "sandbox_count s' = sandbox_count s"
    | (nomem) i where "r = None" "free_box s = Some i" "sandboxes s' = (sandboxes s)[i := zero_ctx]" "sandbox_count s' = sandbox_count s"
    | (made) i a where "r = Some i" "free_box s = Some i" "sandbox_count s < of_nat MAX_SANDBOXES" "a \<noteq> 0"
        "sandboxes s' = (sandboxes s)[i := (new_ctx lv app)\<lparr>mem_base := a, data_dir := data_path app\<rparr>]"
        "sandbox_count s' = sandbox_count s + 1" "sch (ks s') = sch (ks s)"
proof (cases "free_box s")
  case None
  with assms have "s' = s \<and> r = None" by (simp add: sandbox_create_def split: if_splits)
  with none show thesis by simp
next
  case i: (Some i)
  show thesis
  proof (cases "of_nat MAX_SANDBOXES \<le> sandbox_count s")
    case True
    with assms have "s' = s \<and> r = None" by (simp add: sandbox_create_def)
    with none show thesis by simp
  next
    case c: False
    obtain h a where k: "kmalloc (kh (ks s)) (mem_limit (new_ctx lv app)) = Some (h, a)"
      using assms i c by (cases "kmalloc (kh (ks s)) (mem_limit (new_ctx lv app))") (auto simp: sandbox_create_def)
    show thesis
    proof (cases "a = 0")
      case True
      with assms i c k have "s' = s\<lparr>ks := (ks s)\<lparr>kh := h\<rparr>, sandboxes := (sandboxes s)[i := zero_ctx]\<rparr>" "r = None"
        by (simp_all add: sandbox_create_def Let_def)
      then show thesis by (intro nomem [OF _ i]) simp_all
    next
      case False
      with assms i c k have "s' = s\<lparr>ks := (ks s)\<lparr>kh := h\<rparr>,
          sandboxes := (sandboxes s)[i := (new_ctx lv app)\<lparr>mem_base := a, data_dir := data_path app\<rparr>], sandbox_count := sandbox_count s + 1\<rparr>"
        "r = Some i" by (simp_all add: sandbox_create_def Let_def)
      with False c show thesis by (intro made [OF _ i]) (simp_all add: not_le)
    qed
  qed
qed

lemma boxes_create:
  assumes "boxes_ok s" and "sandbox_create s lv app = Some (s', r)"
  shows "boxes_ok s'"
  using assms(2)
proof (cases rule: sandbox_create_cases)
  case none
  then show ?thesis using assms(1) by (simp add: boxes_ok_def in_use_box_def)
next
  case (nomem i)
  have i: "i < MAX_SANDBOXES" "mem_base (sandboxes s ! i) = 0" using first_slot_Some [OF nomem(2)] by auto
  then have "in_use_box s' = in_use_box s" using nomem(3) assms(1) by (auto simp: in_use_box_def boxes_ok_def zero_ctx_def nth_list_update)
  then show ?thesis using nomem assms(1) i(1) by (auto simp: boxes_ok_def zero_ctx_def nth_list_update)
next
  case (made i a)
  have i: "i < MAX_SANDBOXES" "mem_base (sandboxes s ! i) = 0" using first_slot_Some [OF made(2)] by auto
  then have e: "in_use_box s' = insert i (in_use_box s)" "i \<notin> in_use_box s"
    using made(4,5) assms(1) by (auto simp: in_use_box_def boxes_ok_def nth_list_update)
  have "unat (sandbox_count s) < 128" using made(3) by (simp add: word_less_nat_alt MAX_SANDBOXES_def)
  then have "unat (sandbox_count s + 1) = unat (sandbox_count s) + 1" using unat_add_small [of "sandbox_count s" 1] by simp
  then show ?thesis using made assms(1) i(1) e by (auto simp: boxes_ok_def nth_list_update)
qed

lemma boxes_destroy:
  assumes "boxes_ok s"
  shows "boxes_ok (sandbox_destroy s pd)"
proof (cases "sandbox_get s pd")
  case None
  then show ?thesis using assms by (simp add: sandbox_destroy_def)
next
  case (Some i)
  let ?s = "sandbox_destroy s pd"
  note G = sandbox_get_Some [OF Some]
  have s: "sandboxes ?s = (sandboxes s)[i := zero_ctx]" "sandbox_count ?s = sandbox_count s - 1"
    using Some by (simp_all add: sandbox_destroy_def Let_def upd_box_def)
  have "in_use_box ?s = in_use_box s - {i}" "i \<in> in_use_box s"
    using G assms by (auto simp: in_use_box_def s boxes_ok_def zero_ctx_def nth_list_update)
  moreover then have "0 < card (in_use_box s)" by (auto simp: card_gt_0_iff)
  then have "unat (sandbox_count s - 1) = card (in_use_box s) - 1"
    using assms unat_sub_small [of 1 "sandbox_count s"] by (simp add: boxes_ok_def)
  ultimately show ?thesis using assms s G by (auto simp: boxes_ok_def zero_ctx_def nth_list_update)
qed

text \<open>
  After any series of calls the counter of sandboxes is the number of slots that hold memory, at most 128,
  and a slot without memory is free.
\<close>

theorem sandbox_count_exact:
  assumes "boxes_ok s" and "box_run s xs = Some s'"
  shows "boxes_ok s' \<and> unat (sandbox_count s') \<le> 128"
proof -
  have st: "boxes_ok s1" if "boxes_ok s" "box_step s x = Some s1" for s s1 x
  proof (cases x)
    case (Box_create lv app)
    with that boxes_create show ?thesis by auto
  next
    case (Box_destroy pd)
    with that boxes_destroy show ?thesis by auto
  next
    case (Box_check pd c)
    with that show ?thesis
      by (auto simp: sandbox_check_cap_def upd_box_def split: option.splits if_splits intro!: boxes_keep [OF that(1)])
  next
    case (Box_grant c pd cp)
    with that show ?thesis
      by (auto simp: sandbox_grant_cap_def upd_box_def Let_def split: option.splits if_splits intro!: boxes_keep [OF that(1)])
  next
    case (Box_revoke pd cp)
    with that show ?thesis
      by (auto simp: sandbox_revoke_cap_def upd_box_def split: option.splits intro!: boxes_keep [OF that(1)])
  qed
  have "boxes_ok s'" using assms by (induction xs arbitrary: s) (auto split: option.splits intro: st)
  then show ?thesis using card_in_use_box [of s'] by (simp add: boxes_ok_def MAX_SANDBOXES_def)
qed


text \<open>
  \<open>sandbox_get\<close> does not use the process it is given: when an application runs in an untrusted sandbox
  made after one for a user application, its checks are answered by the other's sandbox, and destroying its
  sandbox destroys the other's.
\<close>

theorem app_gets_first_sandbox:
  assumes ok: "boxes_ok s" and none: "in_use_box s = {}"
    and a: "sandbox_create s SANDBOX_USER app1 = Some (s1, Some i)"
    and b: "sandbox_create s1 SANDBOX_UNTRUSTED app2 = Some (s2, Some j)"
    and p: "process_get_by_pid (ks s2) pd \<noteq> 0"
  shows "cap_granted (sandboxes s2 ! j) AND CAP_STORAGE = 0 \<and> snd (sandbox_check_cap s2 pd CAP_STORAGE)
    \<and> mem_base (sandboxes (sandbox_destroy s2 pd) ! i) = 0 \<and> sandboxes (sandbox_destroy s2 pd) ! j = sandboxes s2 ! j \<and> i \<noteq> j"
proof -
  have ok1: "boxes_ok s1" by (rule boxes_create [OF ok a])
  from a obtain x where s1: "free_box s = Some i" "sandboxes s1 = (sandboxes s)[i := (new_ctx SANDBOX_USER app1)\<lparr>mem_base := x, data_dir := data_path app1\<rparr>]"
    "x \<noteq> 0" by (cases rule: sandbox_create_cases) auto
  from b obtain y where s2: "free_box s1 = Some j" "sandboxes s2 = (sandboxes s1)[j := (new_ctx SANDBOX_UNTRUSTED app2)\<lparr>mem_base := y, data_dir := data_path app2\<rparr>]"
    "y \<noteq> 0" by (cases rule: sandbox_create_cases) auto
  have l: "length (sandboxes s) = MAX_SANDBOXES" "\<And>k. k < MAX_SANDBOXES \<Longrightarrow> mem_base (sandboxes s ! k) = 0"
    using ok none by (auto simp: boxes_ok_def in_use_box_def)
  have z: "level (sandboxes s ! k) = SANDBOX_NONE" if "k < MAX_SANDBOXES" for k using l that ok by (simp add: boxes_ok_def)
  have i: "i = 0" using first_slot_Some [OF s1(1)] l(2) z by (metis MAX_SANDBOXES_def gr_zeroI le0 zero_less_numeral)
  have j1: "j < MAX_SANDBOXES" "mem_base (sandboxes s1 ! j) = 0" using first_slot_Some [OF s2(1)] by auto
  have "mem_base (sandboxes s1 ! i) = x" using s1(2) l(1) i by (simp add: MAX_SANDBOXES_def)
  with j1 s1(3) have j: "j < MAX_SANDBOXES" "j \<noteq> i" by auto
  have b0: "sandboxes s2 ! 0 = (new_ctx SANDBOX_USER app1)\<lparr>mem_base := x, data_dir := data_path app1\<rparr>"
    using s1 s2 i j l by (simp add: MAX_SANDBOXES_def)
  have bj: "sandboxes s2 ! j = (new_ctx SANDBOX_UNTRUSTED app2)\<lparr>mem_base := y, data_dir := data_path app2\<rparr>"
    using s1 s2 j l by simp
  have g: "sandbox_get s2 pd = Some 0"
    unfolding sandbox_get_def using p b0 s1(3) by (auto simp: MAX_SANDBOXES_def new_ctx_def Let_def intro!: first_slot_eqI)
  have "cap_granted (sandboxes s2 ! j) AND CAP_STORAGE = 0"
    by (simp add: bj new_ctx_def Let_def CAP_STORAGE_def CAP_DISPLAY_def CAP_IPC_def)
  moreover have "snd (sandbox_check_cap s2 pd CAP_STORAGE)"
    by (simp add: sandbox_check_cap_def g b0 new_ctx_def Let_def CAPS_USER_APP_def CAP_STORAGE_def CAP_DISPLAY_def CAP_IPC_def)
  moreover have "sandboxes (sandbox_destroy s2 pd) = (sandboxes s2)[0 := zero_ctx]"
    by (simp add: sandbox_destroy_def g Let_def upd_box_def)
  then have "mem_base (sandboxes (sandbox_destroy s2 pd) ! i) = 0 \<and> sandboxes (sandbox_destroy s2 pd) ! j = sandboxes s2 ! j"
    using i j l s1(2) s2(2) by (simp add: zero_ctx_def MAX_SANDBOXES_def)
  ultimately show ?thesis using j(2) by simp
qed

text \<open>
  C37: The capabilities of a process are its own to set by a system call, and \<open>CAP_ADMIN\<close> is what
  \<open>sandbox_grant_cap\<close> asks for: with two calls any running process passes every capability check, for itself
  or for another process.
\<close>

theorem any_process_any_capability:
  assumes cur: "scheduler_get_current (sch (krn m)) (this_cpu w) = p" "p \<noteq> 0"
    and pid: "process_get_by_pid (krn m) (pid (proc (krn m) p)) = p" and cp: "cap (proc (krn m) p) \<noteq> []"
    and boxes: "length (sandboxes s) = MAX_SANDBOXES"
  shows "\<exists>m1 s2. sys_cr_proc_set_cap w m 0 1 = (m1, 0) \<and> s2 = fst (sandbox_grant_cap (s\<lparr>ks := krn m1\<rparr>) (this_cpu w) q caps)
    \<and> snd (sandbox_check_cap s2 q caps)"
proof -
  let ?f = "cap_update (\<lambda>cs. cs[0 := set_mask (cs ! 0) 0])"
  define m1 where "m1 = m\<lparr>krn := set_proc (krn m) p ?f\<rparr>"
  have m1: "sys_cr_proc_set_cap w m 0 1 = (m1, 0)" using cur by (simp add: sys_cr_proc_set_cap_def m1_def)
  have pr: "proc (krn m1) p = ?f (proc (krn m) p)" "\<And>x. pid (proc (krn m1) x) = pid (proc (krn m) x)"
    "\<And>x. state (proc (krn m1) x) = state (proc (krn m) x)" "scheduler_get_current (sch (krn m1)) c = scheduler_get_current (sch (krn m)) c" for c
    by (auto simp: m1_def set_proc_def upd_def scheduler_get_current_def rq_at_def)
  have get: "process_get_by_pid (krn m1) x = process_get_by_pid (krn m) x" for x
    using pr(3) by (simp add: process_get_by_pid_def)
  let ?s1 = "s\<lparr>ks := krn m1\<rparr>"
  have adm: "cap (proc (krn m1) p) ! 0 AND CAP_ADMIN \<noteq> 0"
  proof -
    have "cap (proc (krn m1) p) ! 0 = set_mask (cap (proc (krn m) p) ! 0) 0" using cp by (simp add: pr(1))
    then have "bit (cap (proc (krn m1) p) ! 0 AND CAP_ADMIN) 0" by (simp add: CAP_ADMIN_def bit_simps set_mask_def)
    then show ?thesis by auto
  qed
  have cp0: "process_get_by_pid (krn m1) (current_pid (krn m1) (this_cpu w)) = p"
    using cur pid by (simp add: current_pid_def pr get Let_def)
  let ?s2 = "fst (sandbox_grant_cap ?s1 (this_cpu w) q caps)"
  have "snd (sandbox_check_cap ?s2 q caps)"
  proof (cases "sandbox_get ?s1 q")
    case None
    then show ?thesis by (simp add: sandbox_grant_cap_def sandbox_check_cap_def)
  next
    case (Some i)
    note G = sandbox_get_Some [OF Some]
    have s2: "?s2 = upd_box ?s1 i (\<lambda>x. x\<lparr>cap_granted := cap_granted x OR caps\<rparr>)"
      using Some cp0 adm by (simp add: sandbox_grant_cap_def Let_def)
    have i: "i < length (sandboxes s)" using G boxes by simp
    have "level (sandboxes ?s2 ! k) = level (sandboxes ?s1 ! k) \<and> mem_base (sandboxes ?s2 ! k) = mem_base (sandboxes ?s1 ! k)" for k
      using i unfolding s2 upd_box_def by (cases "k = i") simp_all
    moreover have "ks ?s2 = ks ?s1" by (simp add: s2 upd_box_def)
    ultimately have g2: "sandbox_get ?s2 q = Some i" using Some unfolding sandbox_get_def by presburger
    have "(cap_granted (sandboxes s ! i) OR caps) AND caps = caps" by (rule bit_word_eqI) (auto simp: bit_simps)
    then have "cap_granted (sandboxes ?s2 ! i) AND caps = caps" using i by (simp add: s2 upd_box_def)
    then show ?thesis using g2 by (simp add: sandbox_check_cap_def)
  qed
  with m1 show ?thesis by blast
qed

section \<open>Names of ports\<close>

text \<open>
  A new port can be looked up by its name, and its name cannot be taken again, as long as the name fits the
  31 characters that are stored; a longer name is cut, so that it is not found and can be taken again.
\<close>

theorem port_names:
  assumes len: "length (ports s) = IPC_PORT_MAX" and pid: "current_pid (ks s) c \<noteq> 0" and port: "ipc_next_port s < 0x7FFFFFFF"
    and cr: "ipc_port_create s c nm caps = (s1, r)" "r \<noteq> - 1"
  shows "if length nm \<le> 31 then ipc_port_lookup s1 nm = r \<and> ipc_port_create s1 d nm caps' = (s1, - 1)
    else named_port s nm = None \<and> named_port s1 nm = None"
proof -
  have nn: "named_port s nm = None" using cr by (auto simp: ipc_port_create_def split: if_splits)
  obtain i where i: "first_slot (\<lambda>i. port_owner (ports s ! i) = 0) 0 IPC_PORT_MAX = Some i"
    using cr nn by (auto simp: ipc_port_create_def split: option.splits)
  let ?p = "zero_port\<lparr>port_id := ipc_next_port s, port_owner := current_pid (ks s) c, required_caps := caps, port_name := take 31 nm\<rparr>"
  have r: "r = sint (ipc_next_port s)" and s1: "ports s1 = (ports s)[i := ?p]"
    using cr nn i by (auto simp: ipc_port_create_def upd_port_def)
  have ib: "i < IPC_PORT_MAX" using first_slot_Some [OF i] by simp
  have old: "\<not> (port_owner (ports s ! j) \<noteq> 0 \<and> port_name (ports s ! j) = nm)" if "j < IPC_PORT_MAX" for j
    using nn that by (auto simp: named_port_def first_slot_None)
  show ?thesis
  proof (cases "length nm \<le> 31")
    case True
    have "named_port s1 nm = Some i"
      unfolding named_port_def
    proof (rule first_slot_eqI)
      show "port_owner (ports s1 ! i) \<noteq> 0 \<and> port_name (ports s1 ! i) = nm" using s1 ib len pid True by simp
      show "\<not> (port_owner (ports s1 ! j) \<noteq> 0 \<and> port_name (ports s1 ! j) = nm)" if "0 \<le> j" "j < i" for j
        using s1 old that ib by simp
    qed (use ib in simp_all)
    then show ?thesis using True s1 ib len r by (simp add: ipc_port_lookup_def ipc_port_create_def)
  next
    case False
    then have "take 31 nm \<noteq> nm" by (metis length_take min.absorb2 nat_le_linear order_refl min_def)
    then have "named_port s1 nm = None"
      using s1 old ib len by (auto simp: named_port_def first_slot_None nth_list_update)
    then show ?thesis using False nn by simp
  qed
qed

section \<open>Examples\<close>

definition demo_apps :: apps where
  "demo_apps = ipc_init (sandbox_init \<lparr>sandboxes = [], sandbox_count = 0, sandbox_violations_total = 0, ports = [],
     ipc_next_port = 1, ipc_msg_id = 1, regions = (replicate SHM_MAX_REGIONS zero_region)[0 := zero_region\<lparr>shm_id := 1, shm_addr := 0x1000, shm_owner := 1\<rparr>],
     shm_next_id = 2, ks = sleeper\<rparr>)"

lemma demo_apps_sel:
  "sandboxes demo_apps = replicate MAX_SANDBOXES zero_ctx" "sandbox_count demo_apps = 0" "ports demo_apps = replicate IPC_PORT_MAX zero_port"
  "regions demo_apps = (replicate SHM_MAX_REGIONS zero_region)[0 := zero_region\<lparr>shm_id := 1, shm_addr := 0x1000, shm_owner := 1\<rparr>]"
  "shm_next_id demo_apps = 2" "ks demo_apps = sleeper" "ipc_next_port demo_apps = 1"
  by (simp_all add: demo_apps_def ipc_init_def sandbox_init_def)

lemma demo_boxes: "boxes_ok demo_apps" "in_use_box demo_apps = {}"
  by (simp_all add: boxes_ok_def in_use_box_def demo_apps_sel zero_ctx_def)

lemma sleeper_current: "scheduler_get_current (sch sleeper) 0 = 1" "current_pid sleeper 0 = 1" "process_get_by_pid sleeper 1 = 1"
  "process_get_by_pid sleeper 2 = 2"
  by (simp_all add: sleeper_def scheduler_get_current_def current_pid_def process_get_by_pid_def empty_runqueue_def zero_process_def
      MAX_PROCESSES_def)

lemma demo_shm_ok: "shm_ok demo_apps"
  by (auto simp: shm_ok_def demo_apps_sel SHM_MAX_REGIONS_def zero_region_def nth_list_update nth_Cons split: if_splits)

lemma demo_ports_ok: "ports_ok demo_apps"
  by (simp add: ports_ok_def demo_apps_sel port_ok_def zero_port_def)

theorem shared_memory_refines_witness:
  "\<exists>s'. shm_step demo_apps (Attach 1 2) = Some (s', 0) \<and> shm_map s' 1 2 = spec_map (shm_abs s') 1 2"
proof -
  have "find_region demo_apps 1 = Some 0"
    unfolding find_region_def by (rule first_slot_eqI) (simp_all add: demo_apps_sel SHM_MAX_REGIONS_def)
  moreover have "first_slot (\<lambda>i. level (sandboxes demo_apps ! i) \<noteq> SANDBOX_NONE \<and> mem_base (sandboxes demo_apps ! i) \<noteq> 0) 0 MAX_SANDBOXES = None"
    by (simp add: first_slot_None demo_apps_sel zero_ctx_def)
  then have "sandbox_check_cap demo_apps 2 CAP_IPC = (demo_apps, True)" by (simp add: sandbox_check_cap_def sandbox_get_def)
  ultimately have "\<exists>s'. shm_step demo_apps (Attach 1 2) = Some (s', 0)"
    by (simp add: shm_attach_def demo_apps_sel SHM_MAX_REGIONS_def zero_region_def)
  then obtain s' where "shm_step demo_apps (Attach 1 2) = Some (s', 0)" by blast
  with shared_memory_refines [OF demo_shm_ok _ this] show ?thesis by (simp add: demo_apps_sel)
qed

theorem sandbox_count_exact_witness:
  "\<exists>s'. box_run demo_apps [Box_check 1 CAP_IPC, Box_revoke 2 CAP_IPC, Box_destroy 2] = Some s' \<and> boxes_ok s'"
proof -
  have "\<exists>s'. box_run demo_apps [Box_check 1 CAP_IPC, Box_revoke 2 CAP_IPC, Box_destroy 2] = Some s'" by simp
  with sandbox_count_exact [OF demo_boxes(1)] show ?thesis by blast
qed

theorem messages_in_order_witness:
  "\<exists>s1 ins outs. ipc_session demo_apps [Post 0 0 (Some [7, 8]) 2 IPC_MSG_DATA 5, Take 0 0] = (s1, ins, outs)
     \<and> at_port 0 outs @ port_msgs (ports s1 ! 0) = at_port 0 ins"
proof -
  obtain s1 ins outs where e: "ipc_session demo_apps [Post 0 0 (Some [7, 8]) 2 IPC_MSG_DATA 5, Take 0 0] = (s1, ins, outs)"
    by (rule prod_cases3)
  have "port_msgs (ports demo_apps ! 0) = []" by (simp add: demo_apps_sel IPC_PORT_MAX_def port_msgs_def zero_port_def ring_view_def)
  then show ?thesis using messages_in_order [OF demo_ports_ok e] e by (auto simp: IPC_PORT_MAX_def)
qed

theorem port_names_witness:
  "ipc_port_lookup (fst (ipc_port_create demo_apps 0 [97, 98] 0)) [97, 98] = snd (ipc_port_create demo_apps 0 [97, 98] 0)
   \<and> snd (ipc_port_create demo_apps 0 [97, 98] 0) = 1"
proof -
  have "named_port demo_apps [97, 98] = None" by (simp add: named_port_def first_slot_None demo_apps_sel zero_port_def)
  moreover have "first_slot (\<lambda>i. port_owner (ports demo_apps ! i) = 0) 0 IPC_PORT_MAX = Some 0"
    by (rule first_slot_eqI) (simp_all add: demo_apps_sel zero_port_def IPC_PORT_MAX_def)
  ultimately have r: "snd (ipc_port_create demo_apps 0 [97, 98] 0) = 1" by (simp add: ipc_port_create_def demo_apps_sel)
  have "length (ports demo_apps) = IPC_PORT_MAX" "current_pid (ks demo_apps) 0 \<noteq> 0" "ipc_next_port demo_apps < 0x7FFFFFFF"
    by (simp_all add: demo_apps_sel sleeper_current)
  moreover have "ipc_port_create demo_apps 0 [97, 98] 0 = (fst (ipc_port_create demo_apps 0 [97, 98] 0), 1)"
    using r by (metis prod.collapse)
  ultimately have "ipc_port_lookup (fst (ipc_port_create demo_apps 0 [97, 98] 0)) [97, 98] = 1"
    using port_names [of demo_apps 0 "[97, 98]" 0 "fst (ipc_port_create demo_apps 0 [97, 98] 0)" 1] by simp
  with r show ?thesis by simp
qed

theorem any_process_any_capability_witness:
  "\<exists>m1 s2. sys_cr_proc_set_cap demo_world (demo_machine small_pmm\<lparr>krn := sleeper\<rparr>) 0 1 = (m1, 0)
     \<and> s2 = fst (sandbox_grant_cap (demo_apps\<lparr>ks := krn m1\<rparr>) 0 2 CAPS_SYSTEM) \<and> snd (sandbox_check_cap s2 2 CAPS_SYSTEM)"
proof -
  let ?m = "demo_machine small_pmm\<lparr>krn := sleeper\<rparr>"
  have k: "krn ?m = sleeper" by simp
  have "cap (proc (krn ?m) 1) \<noteq> []" by (simp add: sleeper_def zero_process_def)
  moreover have "scheduler_get_current (sch (krn ?m)) (this_cpu demo_world) = 1" by (simp add: sleeper_current demo_world_def)
  moreover have "pid (proc (krn ?m) 1) = 1" by (simp add: sleeper_def)
  then have "process_get_by_pid (krn ?m) (pid (proc (krn ?m) 1)) = 1" using k by (simp add: sleeper_current)
  moreover have "length (sandboxes demo_apps) = MAX_SANDBOXES" by (simp add: demo_apps_sel)
  moreover have "this_cpu demo_world = 0" by (simp add: demo_world_def)
  ultimately show ?thesis using any_process_any_capability [of ?m demo_world 1 demo_apps 2 CAPS_SYSTEM] by (metis one_neq_zero)
qed

definition big_apps :: apps where
  "big_apps = demo_apps\<lparr>ks := sleeper\<lparr>kh := kmalloc_init (kh sleeper) 0x50000000 0x70000000\<rparr>\<rparr>"

lemma big_first: "\<exists>h. kmalloc (kh (ks big_apps)) 0x8000000 = Some (h, 0x50000018) \<and> heap_start h = 0x50000000
    \<and> hdrs h 0x50000000 = \<lparr>bsize = 0x8000000, used = 1, magic = HEAP_MAGIC, next_block = 0x58000018\<rparr>
    \<and> hdrs h 0x58000018 = \<lparr>bsize = 0x17FFFFD0, used = 0, magic = HEAP_MAGIC, next_block = 0\<rparr>"
proof -
  let ?h = "kh (ks big_apps)"
  have b: "heap_start ?h = 0x50000000" "hdrs ?h 0x50000000 = \<lparr>bsize = 0x1FFFFFE8, used = 0, magic = HEAP_MAGIC, next_block = 0\<rparr>"
    by (simp_all add: big_apps_def kmalloc_init_def HEADER_def)
  have "heap_scan (hdrs ?h) 0x50000000 0x8000000 = Some (Fit 0x50000000)" by (subst heap_scan.simps) (simp add: b)
  then have "kmalloc ?h 0x8000000 = Some (?h\<lparr>hdrs := take_block (hdrs ?h) 0x50000000 0x8000000\<rparr>, 0x50000018)"
    by (subst kmalloc.simps) (simp add: b ALIGN_UP_def HEADER_def)
  then show ?thesis by (simp add: take_block_def b HEADER_def Let_def)
qed

lemma big_second:
  assumes "heap_start h = 0x50000000" and "hdrs h 0x50000000 = \<lparr>bsize = 0x8000000, used = 1, magic = HEAP_MAGIC, next_block = 0x58000018\<rparr>"
    and "hdrs h 0x58000018 = \<lparr>bsize = 0x17FFFFD0, used = 0, magic = HEAP_MAGIC, next_block = 0\<rparr>"
  shows "\<exists>h'. kmalloc h 0x4000000 = Some (h', 0x58000030)"
proof -
  have "heap_scan (hdrs h) 0x58000018 0x4000000 = Some (Fit 0x58000018)" by (subst heap_scan.simps) (simp add: assms)
  then have "heap_scan (hdrs h) 0x50000000 0x4000000 = Some (Fit 0x58000018)" by (subst heap_scan.simps) (simp add: assms)
  then show ?thesis by (subst kmalloc.simps) (simp add: assms(1) ALIGN_UP_def HEADER_def)
qed

theorem app_gets_first_sandbox_witness:
  "\<exists>s1 s2. sandbox_create big_apps SANDBOX_USER [97] = Some (s1, Some 0) \<and> sandbox_create s1 SANDBOX_UNTRUSTED [98] = Some (s2, Some 1)
     \<and> snd (sandbox_check_cap s2 2 CAP_STORAGE)"
proof -
  obtain h where h: "kmalloc (kh (ks big_apps)) 0x8000000 = Some (h, 0x50000018)" "heap_start h = 0x50000000"
    "hdrs h 0x50000000 = \<lparr>bsize = 0x8000000, used = 1, magic = HEAP_MAGIC, next_block = 0x58000018\<rparr>"
    "hdrs h 0x58000018 = \<lparr>bsize = 0x17FFFFD0, used = 0, magic = HEAP_MAGIC, next_block = 0\<rparr>" using big_first by blast
  obtain h' where h': "kmalloc h 0x4000000 = Some (h', 0x58000030)" using big_second [OF h(2-4)] by blast
  have big: "boxes_ok big_apps" "in_use_box big_apps = {}" "sandboxes big_apps = replicate MAX_SANDBOXES zero_ctx" "sandbox_count big_apps = 0"
    using demo_boxes by (simp_all add: boxes_ok_def in_use_box_def big_apps_def demo_apps_sel)
  have m: "mem_limit (new_ctx SANDBOX_USER [97]) = 0x8000000" "mem_limit (new_ctx SANDBOX_UNTRUSTED [98]) = 0x4000000"
    by (simp_all add: new_ctx_def SANDBOX_MAX_MEMORY_def)
  have f0: "free_box big_apps = Some 0" by (rule first_slot_eqI) (simp_all add: big zero_ctx_def MAX_SANDBOXES_def)
  define s1 where "s1 = big_apps\<lparr>ks := (ks big_apps)\<lparr>kh := h\<rparr>, sandboxes := (sandboxes big_apps)
    [0 := (new_ctx SANDBOX_USER [97])\<lparr>mem_base := 0x50000018, data_dir := data_path [97]\<rparr>], sandbox_count := 1\<rparr>"
  have c1: "sandbox_create big_apps SANDBOX_USER [97] = Some (s1, Some 0)"
    unfolding sandbox_create_def f0 m h(1) s1_def by (simp add: big(4) MAX_SANDBOXES_def)
  have f1: "free_box s1 = Some 1"
    by (rule first_slot_eqI) (auto simp: s1_def big(3) zero_ctx_def MAX_SANDBOXES_def new_ctx_def Let_def)
  have "kmalloc (kh (ks s1)) 0x4000000 = Some (h', 0x58000030)" using h' by (simp add: s1_def)
  then have "\<exists>s2. sandbox_create s1 SANDBOX_UNTRUSTED [98] = Some (s2, Some 1) \<and> sch (ks s2) = sch (ks s1)"
    unfolding sandbox_create_def f1 m by (simp add: s1_def MAX_SANDBOXES_def Let_def word_le_nat_alt)
  then obtain s2 where c2: "sandbox_create s1 SANDBOX_UNTRUSTED [98] = Some (s2, Some 1)" "sch (ks s2) = sch (ks s1)" by blast
  have "sch (ks s2) = sch sleeper" by (simp add: c2(2) s1_def big_apps_def)
  then have "process_get_by_pid (ks s2) 2 = process_get_by_pid sleeper 2" by (simp add: process_get_by_pid_def)
  then have "process_get_by_pid (ks s2) 2 \<noteq> 0" by (simp add: sleeper_current)
  from app_gets_first_sandbox [OF big(1,2) c1 c2(1) this] c1 c2(1) show ?thesis by blast
qed

end
