(* ===== verification/Pkg.thy ===== *)
theory Pkg
  imports Vfs KHeap Security
begin

text \<open>
  The package manager (pkg.c) over the virtual file system and the kernel heap.  A package header is the list
  of its 2024 bytes, whose fields are read at their offsets; a string is the list of its bytes without the
  terminator.  The list of installed packages pairs each entry with its address on the heap.  The
  clock and the block device are arguments (\<open>host\<close>).  \<open>None\<close> is what C leaves undefined (a copy beyond the end
  of an array, a string without terminator) or a panic below.  \<open>fs_mkdir\<close>, \<open>fs_mkdir_recursive\<close>, \<open>fs_rmdir\<close> and
  \<open>fs_chmod\<close> change nothing (Vfs) and are left out, as is what is only printed.
\<close>

section \<open>State\<close>

record pkg_entry =
  e_header :: "u8 list"
  e_state :: u32
  e_repo :: u32
  e_path :: "u8 list"
  e_time :: u64
  e_auto :: u32

record pkg_repo =
  r_id :: u32
  r_enabled :: u32
  r_name :: "u8 list"
  r_url :: "u8 list"
  r_pubkey :: "u8 list"
  r_priority :: u32
  r_last_sync :: u64
  r_count :: u32
  r_trusted :: u32

record 'd pkgs =
  installed :: "(addr \<times> pkg_entry) list"
  repos :: "pkg_repo list"
  repo_count :: u32
  total_installed :: u32
  install_root :: "u8 list"
  db_path :: "u8 list"
  cache_path :: "u8 list"
  system_pubkey :: "u8 list"
  auto_update :: u32
  vf :: "'d vfs"
  hp :: kheap

record 'd host =
  device :: "'d block_device"
  clock_us :: u64
  clock_ms :: u64

definition CRIMSON_PKG_MAGIC :: nat where "CRIMSON_PKG_MAGIC = 0x43524D53"
definition PKG_MAX_REPOS :: nat where "PKG_MAX_REPOS = 16"
definition PKG_STATE_INSTALLED :: u32 where "PKG_STATE_INSTALLED = 1"
definition HEADER_SIZE :: nat where "HEADER_SIZE = 2024"
definition ENTRY_SIZE :: u64 where "ENTRY_SIZE = 2312"

definition ascii :: "string \<Rightarrow> u8 list" where
  "ascii s = map of_char s"

text \<open>The string that starts at an offset of a structure; \<open>None\<close> when it does not end within it.\<close>

definition text_at :: "u8 list \<Rightarrow> nat \<Rightarrow> u8 list option" where
  "text_at bs off = (if 0 \<in> set (drop off bs) then Some (takeWhile (\<lambda>b. b \<noteq> 0) (drop off bs)) else None)"

text \<open>\<open>strcmp\<close> of a member of a structure with a string, equal to 0; \<open>strcpy\<close> into an array.\<close>

definition text_is :: "u8 list \<Rightarrow> nat \<Rightarrow> u8 list \<Rightarrow> bool" where
  "text_is bs off nm \<longleftrightarrow> take (length nm + 1) (drop off bs) = nm @ [0]"

definition strcpy_into :: "u8 list \<Rightarrow> u8 list \<Rightarrow> u8 list option" where
  "strcpy_into old s = (if length s < length old then Some (s @ [0] @ drop (length s + 1) old) else None)"

section \<open>Versions and sizes\<close>

definition parse_int :: "u8 list \<Rightarrow> u32 option" where
  "parse_int s = map_option word_of_int (str_atoi (map (\<lambda>b. char_of (unat b)) s))"

text \<open>From the next dot on, if there is one.\<close>

definition after_dot :: "u8 list \<Rightarrow> u8 list option" where
  "after_dot s = (case dropWhile (\<lambda>b. b \<noteq> 0x2E) s of [] \<Rightarrow> None | d # r \<Rightarrow> Some r)"

definition dotted_part :: "u8 list option \<Rightarrow> u32 option" where
  "dotted_part r = (case r of None \<Rightarrow> Some 0 | Some s \<Rightarrow> parse_int s)"

definition pkg_parse_version :: "u8 list \<Rightarrow> (u32 \<times> u32 \<times> u32) option" where
  "pkg_parse_version ver =
     (let r1 = after_dot ver; r2 = (case r1 of None \<Rightarrow> None | Some s \<Rightarrow> after_dot s) in
      case (parse_int ver, dotted_part r1, dotted_part r2) of
        (Some a, Some b, Some c) \<Rightarrow> Some (a, b, c)
      | _ \<Rightarrow> None)"

definition compare_version :: "u32 \<times> u32 \<times> u32 \<Rightarrow> u32 \<times> u32 \<times> u32 \<Rightarrow> int" where
  "compare_version = (\<lambda>(ma, ia, pa) (mb, ib, pb).
     if ma \<noteq> mb then (if mb < ma then 1 else - 1)
     else if ia \<noteq> ib then (if ib < ia then 1 else - 1)
     else if pa \<noteq> pb then (if pb < pa then 1 else - 1)
     else 0)"

definition pkg_version_compare :: "u8 list \<Rightarrow> u8 list \<Rightarrow> int option" where
  "pkg_version_compare a b =
     (case (pkg_parse_version a, pkg_parse_version b) of
        (Some x, Some y) \<Rightarrow> Some (compare_version x y)
      | _ \<Rightarrow> None)"

text \<open>\<open>%u\<close>: the decimal digits.\<close>

definition digit :: "nat \<Rightarrow> u8" where
  "digit d = of_nat (0x30 + d)"

fun dec :: "nat \<Rightarrow> u8 list" where
  "dec n = (if n < 10 then [digit n] else dec (n div 10) @ [digit (n mod 10)])"

declare dec.simps [simp del]

definition dec_u32 :: "u32 \<Rightarrow> u8 list" where
  "dec_u32 w = dec (unat w)"

definition pkg_format_size :: "u32 \<Rightarrow> u8 list" where
  "pkg_format_size b =
     (if b < 1024 then dec_u32 b @ ascii '' B''
      else if b < 1024 * 1024 then dec_u32 (b div 1024) @ [0x2E] @ dec_u32 (b mod 1024 * 10 div 1024) @ ascii '' KB''
      else if b < 1024 * 1024 * 1024 then dec_u32 (b div 1048576) @ [0x2E] @ dec_u32 (b mod 1048576 * 10 div 1048576) @ ascii '' MB''
      else dec_u32 (b div 1073741824) @ ascii '' GB'')"

section \<open>Signatures\<close>

definition all_zero :: "u8 list \<Rightarrow> bool" where
  "all_zero bs \<longleftrightarrow> (\<forall>b \<in> set bs. b = 0)"

definition byte_sum :: "u8 list \<Rightarrow> u32" where
  "byte_sum bs = foldl (\<lambda>a b. a + ucast b) 0 bs"

definition pkg_ed25519_verify :: "u8 list \<Rightarrow> u8 list \<Rightarrow> u8 list \<Rightarrow> int" where
  "pkg_ed25519_verify msg sig pk =
     (if all_zero sig then - 1
      else if all_zero pk then - 1
      else if sig ! 63 AND 0xC0 \<noteq> 0 then - 1
      else if pk ! 31 AND 0x80 \<noteq> 0 then - 1
      else if byte_sum (sig @ pkg_hash_sha256 msg) \<noteq> 0 \<and> byte_sum pk \<noteq> 0 then 0 else - 1)"

definition hdr_u32 :: "u8 list \<Rightarrow> nat \<Rightarrow> u32" where
  "hdr_u32 h off = of_nat (field h off 4)"

abbreviation hdr_compression :: "u8 list \<Rightarrow> u32" where "hdr_compression h \<equiv> hdr_u32 h 1860"
abbreviation hdr_file_count :: "u8 list \<Rightarrow> u32" where "hdr_file_count h \<equiv> hdr_u32 h 1864"
abbreviation hdr_dep_count :: "u8 list \<Rightarrow> u32" where "hdr_dep_count h \<equiv> hdr_u32 h 1868"
abbreviation hdr_signature :: "u8 list \<Rightarrow> u8 list" where "hdr_signature h \<equiv> take 64 (drop 1880 h)"
abbreviation hdr_signer :: "u8 list \<Rightarrow> u8 list" where "hdr_signer h \<equiv> take 32 (drop 1944 h)"
abbreviation hdr_sig_type :: "u8 list \<Rightarrow> u32" where "hdr_sig_type h \<equiv> hdr_u32 h 1976"
abbreviation hdr_hash :: "u8 list \<Rightarrow> u8 list" where "hdr_hash h \<equiv> take 32 (drop 1980 h)"

abbreviation name_is :: "u8 list \<Rightarrow> u8 list \<Rightarrow> bool" where "name_is h nm \<equiv> text_is h 20 nm"

section \<open>Package files\<close>

definition pkg_read_header :: "'d host \<Rightarrow> 'd vfs \<Rightarrow> u8 list option \<Rightarrow> ('d vfs \<times> u8 list option) option" where
  "pkg_read_header w v path =
     (if path = None then Some (v, None)
      else case fs_open (device w) v path FS_O_RDONLY (clock_us w) (clock_ms w) of
        None \<Rightarrow> None
      | Some (v1, fd) \<Rightarrow>
          if fd < 0 then Some (v1, None)
          else case fs_read (device w) v1 (clock_ms w) fd 4096 of
            (v2, n, data) \<Rightarrow>
              let v3 = fs_close (device w) v2 fd in
              if n < int HEADER_SIZE then Some (v3, None)
              else if field data 0 4 \<noteq> CRIMSON_PKG_MAGIC then Some (v3, None)
              else if field data 4 4 \<noteq> 1 then Some (v3, None)
              else Some (v3, Some (take HEADER_SIZE data)))"

definition payload_at :: "kheap \<Rightarrow> addr \<Rightarrow> u64 \<Rightarrow> u8 list" where
  "payload_at h a n = map (\<lambda>i. payload h (a + of_nat i)) [0..<unat n]"

text \<open>
  The part that \<open>pkg_verify_signature\<close> and \<open>pkg_verify_hash\<close> share: the whole file is read to the heap and
  hashed.
\<close>

definition hash_file :: "'d host \<Rightarrow> 'd pkgs \<Rightarrow> u8 list option \<Rightarrow> ('d pkgs \<times> u8 list option) option" where
  "hash_file w s path =
     (case fs_open (device w) (vf s) path FS_O_RDONLY (clock_us w) (clock_ms w) of
        None \<Rightarrow> None
      | Some (v1, fd) \<Rightarrow>
          if fd < 0 then Some (s\<lparr>vf := v1\<rparr>, None)
          else case fs_fstat v1 fd of
            (r, st) \<Rightarrow>
              if r < 0 then Some (s\<lparr>vf := fs_close (device w) v1 fd\<rparr>, None)
              else let size = (case st of None \<Rightarrow> 0 | Some t \<Rightarrow> st_size t) in
                case kmalloc (hp s) size of
                  None \<Rightarrow> None
                | Some (h, a) \<Rightarrow>
                    if a = 0 then Some (s\<lparr>vf := fs_close (device w) v1 fd, hp := h\<rparr>, None)
                    else case fs_read (device w) v1 (clock_ms w) fd size of
                      (v2, n, data) \<Rightarrow>
                        let h1 = h\<lparr>payload := put (payload h) a data\<rparr> in
                        Some (s\<lparr>vf := fs_close (device w) v2 fd, hp := kfree h1 a\<rparr>,
                              Some (pkg_hash_sha256 (payload_at h1 a size))))"

definition signer_trusted :: "'d pkgs \<Rightarrow> u8 list \<Rightarrow> bool" where
  "signer_trusted s pk \<longleftrightarrow> pk = system_pubkey s
     \<or> (case first_slot (\<lambda>i. r_pubkey (repos s ! i) = pk) 0 (unat (repo_count s)) of
          None \<Rightarrow> False
        | Some i \<Rightarrow> r_trusted (repos s ! i) \<noteq> 0)"

definition pkg_verify_signature :: "'d host \<Rightarrow> 'd pkgs \<Rightarrow> u8 list option \<Rightarrow> u8 list \<Rightarrow> ('d pkgs \<times> int) option" where
  "pkg_verify_signature w s path hdr =
     (if hdr_sig_type hdr = 0 then Some (s, 0)
      else if hdr_sig_type hdr \<noteq> 1 then Some (s, - 1)
      else case hash_file w s path of
        None \<Rightarrow> None
      | Some (s1, None) \<Rightarrow> Some (s1, - 1)
      | Some (s1, Some hsh) \<Rightarrow>
          if pkg_ed25519_verify hsh (hdr_signature hdr) (hdr_signer hdr) < 0 then Some (s1, - 1)
          else if \<not> signer_trusted s1 (hdr_signer hdr) then Some (s1, - 1)
          else Some (s1, 0))"

definition pkg_verify_hash :: "'d host \<Rightarrow> 'd pkgs \<Rightarrow> u8 list option \<Rightarrow> u8 list \<Rightarrow> ('d pkgs \<times> int) option" where
  "pkg_verify_hash w s path hdr =
     (if path = None then Some (s, - 1)
      else case hash_file w s path of
        None \<Rightarrow> None
      | Some (s1, None) \<Rightarrow> Some (s1, - 1)
      | Some (s1, Some hsh) \<Rightarrow> Some (s1, if hsh \<noteq> hdr_hash hdr then - 1 else 0))"


text \<open>
  One file of the archive is copied to the place of its path; the loop of \<open>pkg_extract\<close> ends at a short read.
  A file whose buffer cannot be allocated is skipped without its data.
\<close>

definition extract_file :: "'d host \<Rightarrow> 'd pkgs \<Rightarrow> int \<Rightarrow> u8 list \<Rightarrow> u8 list \<Rightarrow> u8 list \<Rightarrow> 'd pkgs option" where
  "extract_file w s fd dest hdr fe =
     (case text_at fe 0 of
        None \<Rightarrow> None
      | Some pth \<Rightarrow>
          let fpath = take 511 (dest @ [0x2F] @ pth); size = hdr_u32 fe 260; csize = hdr_u32 fe 264 in
          case kmalloc (hp s) (ucast csize) of
            None \<Rightarrow> None
          | Some (h, a) \<Rightarrow>
              if a = 0 then Some (s\<lparr>hp := h\<rparr>)
              else case fs_read (device w) (vf s) (clock_ms w) fd (ucast csize) of
                (v1, n, data) \<Rightarrow>
                  let h1 = h\<lparr>payload := put (payload h) a data\<rparr>;
                      len = (if hdr_compression hdr = 1 \<and> csize < size then csize else size) in
                  (case fs_open (device w) v1 (Some fpath) (FS_O_WRONLY OR FS_O_CREAT) (clock_us w) (clock_ms w) of
                     None \<Rightarrow> None
                   | Some (v2, ofd) \<Rightarrow>
                       if ofd < 0 then Some (s\<lparr>vf := v2, hp := kfree h1 a\<rparr>)
                       else (case fs_write (device w) v2 (clock_ms w) ofd (Some (payload_at h1 a (ucast len))) of
                         None \<Rightarrow> None
                       | Some (v3, r) \<Rightarrow> Some (s\<lparr>vf := fs_close (device w) v3 ofd, hp := kfree h1 a\<rparr>))))"

fun extract_loop :: "'d host \<Rightarrow> 'd pkgs \<Rightarrow> int \<Rightarrow> u8 list \<Rightarrow> u8 list \<Rightarrow> nat \<Rightarrow> 'd pkgs option" where
  "extract_loop w s fd dest hdr 0 = Some s"
| "extract_loop w s fd dest hdr (Suc n) =
     (case fs_read (device w) (vf s) (clock_ms w) fd 312 of
        (v1, r, fe) \<Rightarrow>
          if r \<noteq> 312 then Some (s\<lparr>vf := v1\<rparr>)
          else case extract_file w (s\<lparr>vf := v1\<rparr>) fd dest hdr fe of
            None \<Rightarrow> None
          | Some s1 \<Rightarrow> extract_loop w s1 fd dest hdr n)"

text \<open>The table of dependencies is read into an array of 64 entries of 196 bytes.\<close>

definition pkg_extract :: "'d host \<Rightarrow> 'd pkgs \<Rightarrow> u8 list option \<Rightarrow> u8 list \<Rightarrow> u8 list \<Rightarrow> ('d pkgs \<times> int) option" where
  "pkg_extract w s path dest hdr =
     (if path = None then Some (s, - 1)
      else case fs_open (device w) (vf s) path FS_O_RDONLY (clock_us w) (clock_ms w) of
        None \<Rightarrow> None
      | Some (v1, fd) \<Rightarrow>
          if fd < 0 then Some (s\<lparr>vf := v1\<rparr>, - 1)
          else let v2 = fst (fs_lseek v1 fd (int HEADER_SIZE) 0) in
            case (if hdr_dep_count hdr = 0 then (v2, 0, [])
                  else fs_read (device w) v2 (clock_ms w) fd (ucast (hdr_dep_count hdr) * 196)) of
              (v3, n, deps) \<Rightarrow>
                if 64 * 196 < length deps then None
                else case extract_loop w (s\<lparr>vf := v3\<rparr>) fd dest hdr (min (unat (hdr_file_count hdr)) 4096) of
                  None \<Rightarrow> None
                | Some s1 \<Rightarrow> Some (s1\<lparr>vf := fs_close (device w) (vf s1) fd\<rparr>, 0))"

section \<open>The database\<close>

definition u32_bytes :: "u32 list \<Rightarrow> u8 list" where
  "u32_bytes ws = concat (map (\<lambda>x. le 4 (unat x)) ws)"

text \<open>The state fields that follow a header; the time is stored high word first.\<close>

definition state_data :: "pkg_entry \<Rightarrow> u8 list" where
  "state_data e = u32_bytes [e_state e, e_repo e, ucast (drop_bit 32 (e_time e)), ucast (e_time e)]"

text \<open>The loops of \<open>pkg_db_save\<close> and \<open>pkg_db_load\<close>, over what writes and reads the file.\<close>

fun save_loop :: "('s \<Rightarrow> u8 list \<Rightarrow> ('s \<times> int) option) \<Rightarrow> 's \<Rightarrow> pkg_entry list \<Rightarrow> 's option" where
  "save_loop wr v [] = Some v"
| "save_loop wr v (e # es) =
     (case wr v (e_header e) of None \<Rightarrow> None
      | Some (v1, _) \<Rightarrow> (case wr v1 (state_data e) of None \<Rightarrow> None
         | Some (v2, _) \<Rightarrow> (case wr v2 (e_path e) of None \<Rightarrow> None
            | Some (v3, _) \<Rightarrow> save_loop wr v3 es)))"

text \<open>
  The local variable \<open>entry\<close> of \<open>pkg_db_load\<close> keeps what it held: \<open>auto_update\<close> is never assigned, and the
  path keeps the bytes after its terminator.
\<close>

definition load_fields :: "pkg_entry \<Rightarrow> u8 list \<Rightarrow> u8 list \<Rightarrow> u8 list \<Rightarrow> pkg_entry" where
  "load_fields e hdr st pth = e\<lparr>e_header := hdr, e_state := hdr_u32 st 0, e_repo := hdr_u32 st 4,
     e_time := push_bit 32 (ucast (hdr_u32 st 8)) OR ucast (hdr_u32 st 12), e_path := pth\<rparr>"

partial_function (option) load_loop ::
  "('s \<Rightarrow> nat \<Rightarrow> 's \<times> int \<times> u8 list) \<Rightarrow> 's \<Rightarrow> kheap \<Rightarrow> pkg_entry \<Rightarrow> (addr \<times> pkg_entry) list
     \<Rightarrow> ('s \<times> kheap \<times> (addr \<times> pkg_entry) list) option" where
  "load_loop rd v h e acc =
     (case rd v HEADER_SIZE of (v1, n1, hdr) \<Rightarrow>
      if n1 \<noteq> int HEADER_SIZE then Some (v1, h, acc)
      else if field hdr 0 4 \<noteq> CRIMSON_PKG_MAGIC then Some (v1, h, acc)
      else case rd v1 16 of (v2, n2, st) \<Rightarrow>
        if n2 \<noteq> 16 then Some (v2, h, acc)
        else case rd v2 256 of (v3, n3, pth) \<Rightarrow>
          if n3 \<noteq> 256 then Some (v3, h, acc)
          else case text_at pth 0 of None \<Rightarrow> None
          | Some t \<Rightarrow> (case strcpy_into (e_path e) t of None \<Rightarrow> None
             | Some p \<Rightarrow> (case kmalloc h ENTRY_SIZE of None \<Rightarrow> None
                | Some (h1, a) \<Rightarrow>
                    if a = 0 then Some (v3, h1, acc)
                    else let e1 = load_fields e hdr st p in load_loop rd v3 h1 e1 ((a, e1) # acc))))"

definition pkg_db_load :: "'d host \<Rightarrow> pkg_entry \<Rightarrow> 'd pkgs \<Rightarrow> ('d pkgs \<times> int) option" where
  "pkg_db_load w stack s =
     (case fs_open (device w) (vf s) (Some (db_path s)) FS_O_RDONLY (clock_us w) (clock_ms w) of
        None \<Rightarrow> None
      | Some (v1, fd) \<Rightarrow>
          if fd < 0 then Some (s\<lparr>vf := v1\<rparr>, 0)
          else case load_loop (\<lambda>v n. fs_read (device w) v (clock_ms w) fd (of_nat n)) v1 (hp s) stack (installed s) of
            None \<Rightarrow> None
          | Some (v2, h, es) \<Rightarrow>
              Some (s\<lparr>vf := fs_close (device w) v2 fd, hp := h, installed := es,
                      total_installed := total_installed s + of_nat (length es - length (installed s))\<rparr>, 0))"

definition pkg_db_save :: "'d host \<Rightarrow> 'd pkgs \<Rightarrow> ('d pkgs \<times> int) option" where
  "pkg_db_save w s =
     (case fs_open (device w) (vf s) (Some (db_path s)) (FS_O_WRONLY OR FS_O_CREAT OR FS_O_TRUNC) (clock_us w) (clock_ms w) of
        None \<Rightarrow> None
      | Some (v1, fd) \<Rightarrow>
          if fd < 0 then Some (s\<lparr>vf := v1\<rparr>, - 1)
          else case save_loop (\<lambda>v bs. fs_write (device w) v (clock_ms w) fd (Some bs)) v1 (map snd (installed s)) of
            None \<Rightarrow> None
          | Some v2 \<Rightarrow> Some (s\<lparr>vf := fs_close (device w) v2 fd\<rparr>, 0))"

definition pkg_db_find :: "'d pkgs \<Rightarrow> u8 list \<Rightarrow> (addr \<times> pkg_entry) option" where
  "pkg_db_find s nm = find (\<lambda>(a, e). name_is (e_header e) nm) (installed s)"

definition pkg_db_find_installed :: "'d pkgs \<Rightarrow> u8 list \<Rightarrow> (addr \<times> pkg_entry) option" where
  "pkg_db_find_installed s nm =
     (case pkg_db_find s nm of
        None \<Rightarrow> None
      | Some (a, e) \<Rightarrow> if e_state e = PKG_STATE_INSTALLED then Some (a, e) else None)"

definition pkg_db_add :: "'d pkgs \<Rightarrow> (addr \<times> pkg_entry) option \<Rightarrow> 'd pkgs" where
  "pkg_db_add s ent =
     (case ent of None \<Rightarrow> s
      | Some x \<Rightarrow> s\<lparr>installed := x # installed s, total_installed := total_installed s + 1\<rparr>)"

text \<open>The list without the first entry of the name, and the address of that entry.\<close>

fun unlink_entry :: "(addr \<times> pkg_entry) list \<Rightarrow> u8 list \<Rightarrow> (addr \<times> (addr \<times> pkg_entry) list) option" where
  "unlink_entry [] nm = None"
| "unlink_entry ((a, e) # es) nm =
     (if name_is (e_header e) nm then Some (a, es)
      else map_option (\<lambda>(b, r). (b, (a, e) # r)) (unlink_entry es nm))"

definition pkg_db_remove :: "'d pkgs \<Rightarrow> u8 list \<Rightarrow> 'd pkgs" where
  "pkg_db_remove s nm =
     (case unlink_entry (installed s) nm of
        None \<Rightarrow> s
      | Some (a, es) \<Rightarrow> s\<lparr>installed := es, hp := kfree (hp s) a, total_installed := total_installed s - 1\<rparr>)"


section \<open>Repositories\<close>

text \<open>The names are copied into arrays of 64 and 256 characters; without a key the array keeps the old one.\<close>

definition pkg_repo_add :: "'d pkgs \<Rightarrow> u8 list \<Rightarrow> u8 list \<Rightarrow> u8 list option \<Rightarrow> u32 \<Rightarrow> ('d pkgs \<times> int) option" where
  "pkg_repo_add s nm url key trusted =
     (if of_nat PKG_MAX_REPOS \<le> repo_count s then Some (s, - 1)
      else if 64 \<le> length nm \<or> 256 \<le> length url then None
      else let i = repo_count s in
        Some (s\<lparr>repos := (repos s)[unat i := (repos s ! unat i)\<lparr>r_id := i, r_enabled := 1, r_name := nm, r_url := url,
                  r_pubkey := (case key of None \<Rightarrow> r_pubkey (repos s ! unat i) | Some k \<Rightarrow> k),
                  r_priority := 100 - i * 10, r_trusted := trusted\<rparr>],
                repo_count := i + 1\<rparr>, uint i))"

text \<open>The entries from \<open>i\<close> on move down by one, \<open>n\<close> of them.\<close>

fun shift_repos :: "pkg_repo list \<Rightarrow> nat \<Rightarrow> nat \<Rightarrow> pkg_repo list" where
  "shift_repos rs i 0 = rs"
| "shift_repos rs i (Suc n) = shift_repos (rs[i := rs ! Suc i]) (Suc i) n"

definition pkg_repo_remove :: "'d pkgs \<Rightarrow> u32 \<Rightarrow> 'd pkgs" where
  "pkg_repo_remove s i =
     (if repo_count s \<le> i then s
      else s\<lparr>repos := shift_repos (repos s) (unat i) (unat (repo_count s - 1 - i)), repo_count := repo_count s - 1\<rparr>)"

definition upd_repo :: "'d pkgs \<Rightarrow> u32 \<Rightarrow> (pkg_repo \<Rightarrow> pkg_repo) \<Rightarrow> 'd pkgs" where
  "upd_repo s i f = s\<lparr>repos := (repos s)[unat i := f (repos s ! unat i)]\<rparr>"

definition pkg_repo_enable :: "'d pkgs \<Rightarrow> u32 \<Rightarrow> u32 \<Rightarrow> 'd pkgs" where
  "pkg_repo_enable s i en = (if i < repo_count s then upd_repo s i (\<lambda>r. r\<lparr>r_enabled := en\<rparr>) else s)"

definition pkg_repo_sync :: "'d host \<Rightarrow> 'd pkgs \<Rightarrow> u32 \<Rightarrow> 'd pkgs \<times> int" where
  "pkg_repo_sync w s i =
     (if repo_count s \<le> i then (s, - 1)
      else if r_enabled (repos s ! unat i) = 0 then (s, - 1)
      else (upd_repo s i (\<lambda>r. r\<lparr>r_last_sync := clock_ms w div 1000, r_count := 1000\<rparr>), 0))"

definition pkg_repo_sync_all :: "'d host \<Rightarrow> 'd pkgs \<Rightarrow> 'd pkgs" where
  "pkg_repo_sync_all w s = foldl (\<lambda>t i. if r_enabled (repos t ! i) \<noteq> 0 then fst (pkg_repo_sync w t (of_nat i)) else t) s [0..<unat (repo_count s)]"

definition pkg_repo_get :: "'d pkgs \<Rightarrow> u32 \<Rightarrow> pkg_repo option" where
  "pkg_repo_get s i = (if i < repo_count s then Some (repos s ! unat i) else None)"

section \<open>Start and end\<close>

definition CRIMSON_OFFICIAL_PUBKEY :: "u8 list" where
  "CRIMSON_OFFICIAL_PUBKEY = [0x1a, 0x2b, 0x3c, 0x4d, 0x5e, 0x6f, 0x70, 0x81, 0x92, 0xa3, 0xb4, 0xc5, 0xd6, 0xe7, 0xf8, 0x09, 0x10, 0x21, 0x32, 0x43, 0x54, 0x65, 0x76, 0x87, 0x98, 0xa9, 0xba, 0xcb, 0xdc, 0xed, 0xfe, 0x0f]"

definition pentest_pubkey :: "u8 list" where
  "pentest_pubkey = [0xaa, 0xbb, 0xcc, 0xdd, 0xee, 0xff, 0x11, 0x22, 0x33, 0x44, 0x55, 0x66, 0x77, 0x88, 0x99, 0x00,
     0x12, 0x34, 0x56, 0x78, 0x9a, 0xbc, 0xde, 0xf0, 0x0f, 0xed, 0xcb, 0xa9, 0x87, 0x65, 0x43, 0x21]"

definition zero_repo :: pkg_repo where
  "zero_repo = \<lparr>r_id = 0, r_enabled = 0, r_name = [], r_url = [], r_pubkey = replicate 32 0, r_priority = 0, r_last_sync = 0,
     r_count = 0, r_trusted = 0\<rparr>"

definition official_repos :: "'d pkgs \<Rightarrow> 'd pkgs option" where
  "official_repos s =
     (case pkg_repo_add s (ascii ''Crimson Official'') (ascii ''https://repo.crimson-os.org/packages'') (Some CRIMSON_OFFICIAL_PUBKEY) 1 of
        None \<Rightarrow> None
      | Some (s1, _) \<Rightarrow>
          (case pkg_repo_add s1 (ascii ''Crimson Community'') (ascii ''https://community.crimson-os.org/packages'') None 0 of
             None \<Rightarrow> None
           | Some (s2, _) \<Rightarrow> map_option fst
               (pkg_repo_add s2 (ascii ''CrimSec Tools'') (ascii ''https://pentest.crimson-os.org/packages'') (Some pentest_pubkey) 1)))"

definition pkg_init :: "'d host \<Rightarrow> pkg_entry \<Rightarrow> 'd pkgs \<Rightarrow> 'd pkgs option" where
  "pkg_init w stack s =
     (case official_repos (s\<lparr>installed := [], repos := replicate PKG_MAX_REPOS zero_repo, repo_count := 0, total_installed := 0,
        install_root := ascii ''/apps'', db_path := ascii ''/data/pkg/db'', cache_path := ascii ''/data/pkg/cache'',
        system_pubkey := CRIMSON_OFFICIAL_PUBKEY, auto_update := 1\<rparr>) of
        None \<Rightarrow> None
      | Some s1 \<Rightarrow> map_option fst (pkg_db_load w stack s1))"

definition pkg_shutdown :: "'d host \<Rightarrow> 'd pkgs \<Rightarrow> 'd pkgs option" where
  "pkg_shutdown w s =
     map_option (\<lambda>(s1, _). s1\<lparr>hp := foldl kfree (hp s1) (map fst (installed s1)), installed := []\<rparr>) (pkg_db_save w s)"

section \<open>Packages\<close>

text \<open>No dependency is ever looked at, so that none is missing.\<close>

definition pkg_resolve_deps :: "u8 list \<Rightarrow> nat \<times> int" where
  "pkg_resolve_deps hdr = (0, 0)"

definition pkg_install_deps :: "u8 list \<Rightarrow> int" where
  "pkg_install_deps hdr = (if hdr_dep_count hdr = 0 then 0 else if snd (pkg_resolve_deps hdr) < 0 then - 1 else 0)"

definition pkg_check_deps :: "'d pkgs \<Rightarrow> u8 list \<Rightarrow> int" where
  "pkg_check_deps s nm = (if pkg_db_find s nm = None then - 1 else 0)"

text \<open>The last part of \<open>pkg_install\<close>: the new entry replaces the old one of the name.\<close>

definition enter_package :: "'d host \<Rightarrow> 'd pkgs \<Rightarrow> u8 list \<Rightarrow> u8 list \<Rightarrow> bool \<Rightarrow> ('d pkgs \<times> int) option" where
  "enter_package w s hdr path existing =
     (case kmalloc (hp s) ENTRY_SIZE of
        None \<Rightarrow> None
      | Some (h, a) \<Rightarrow>
          if a = 0 then Some (s\<lparr>hp := h\<rparr>, - 1)
          else (case (text_at hdr 20, strcpy_into (payload_at h (a + 2032) 256) path) of
            (Some nm, Some pth) \<Rightarrow>
              let e = \<lparr>e_header = hdr, e_state = PKG_STATE_INSTALLED, e_repo = 0xFFFFFFFF, e_path = pth,
                       e_time = clock_ms w div 1000, e_auto = auto_update s\<rparr>;
                  s1 = s\<lparr>hp := h\<rparr>;
                  s2 = (if existing then pkg_db_remove s1 nm else s1)
              in map_option (\<lambda>(s3, _). (s3, 0)) (pkg_db_save w (pkg_db_add s2 (Some (a, e))))
          | _ \<Rightarrow> None))"

text \<open>\<open>pkg_install\<close> after the check of the installed version.\<close>

definition install_checked :: "'d host \<Rightarrow> 'd pkgs \<Rightarrow> u8 list option \<Rightarrow> u8 list \<Rightarrow> u8 list \<Rightarrow> bool \<Rightarrow> ('d pkgs \<times> int) option" where
  "install_checked w s path hdr nm existing =
     (case pkg_verify_signature w s path hdr of
        None \<Rightarrow> None
      | Some (s1, r1) \<Rightarrow>
          if r1 < 0 then Some (s1, - 1)
          else (case pkg_verify_hash w s1 path hdr of
            None \<Rightarrow> None
          | Some (s2, r2) \<Rightarrow>
              if r2 < 0 then Some (s2, - 1)
              else if pkg_install_deps hdr < 0 then Some (s2, - 1)
              else let dest = take 255 (install_root s2 @ [0x2F] @ nm) in
                (case pkg_extract w s2 path dest hdr of
                   None \<Rightarrow> None
                 | Some (s3, r3) \<Rightarrow> if r3 < 0 then Some (s3, - 1) else enter_package w s3 hdr dest existing)))"

definition pkg_install :: "'d host \<Rightarrow> 'd pkgs \<Rightarrow> u8 list option \<Rightarrow> ('d pkgs \<times> int) option" where
  "pkg_install w s path =
     (if path = None then Some (s, - 1)
      else case pkg_read_header w (vf s) path of
        None \<Rightarrow> None
      | Some (v, None) \<Rightarrow> Some (s\<lparr>vf := v\<rparr>, - 1)
      | Some (v, Some hdr) \<Rightarrow>
          let s1 = s\<lparr>vf := v\<rparr> in
          (case (text_at hdr 20, text_at hdr 148) of
             (Some nm, Some ver) \<Rightarrow>
               (case pkg_db_find s1 nm of
                  None \<Rightarrow> install_checked w s1 path hdr nm False
                | Some (a, e) \<Rightarrow>
                    (case text_at (e_header e) 148 of
                       None \<Rightarrow> None
                     | Some old \<Rightarrow>
                         (case pkg_version_compare old ver of
                            None \<Rightarrow> None
                          | Some c \<Rightarrow> if 0 \<le> c then Some (s1, - 1) else install_checked w s1 path hdr nm True)))
           | _ \<Rightarrow> None))"

definition pkg_remove :: "'d host \<Rightarrow> 'd pkgs \<Rightarrow> u8 list option \<Rightarrow> u32 \<Rightarrow> ('d pkgs \<times> int) option" where
  "pkg_remove w s name purge =
     (case name of
        None \<Rightarrow> Some (s, - 1)
      | Some nm \<Rightarrow>
          if pkg_db_find_installed s nm = None then Some (s, - 1)
          else map_option (\<lambda>(s1, _). (s1, 0)) (pkg_db_save w (pkg_db_remove s nm)))"

definition pkg_purge :: "'d host \<Rightarrow> 'd pkgs \<Rightarrow> u8 list option \<Rightarrow> ('d pkgs \<times> int) option" where
  "pkg_purge w s name = pkg_remove w s name 1"

definition pkg_upgrade :: "'d host \<Rightarrow> 'd pkgs \<Rightarrow> u8 list option \<Rightarrow> ('d pkgs \<times> int) option" where
  "pkg_upgrade w s name =
     (case name of
        None \<Rightarrow> Some (s, - 1)
      | Some nm \<Rightarrow>
          if pkg_db_find_installed s nm = None then Some (s, - 1)
          else pkg_install w s (Some (take 255 (cache_path s @ [0x2F] @ nm @ ascii ''_update.crimson''))))"

definition pkg_is_installed :: "'d pkgs \<Rightarrow> u8 list \<Rightarrow> bool" where
  "pkg_is_installed s nm \<longleftrightarrow> pkg_db_find_installed s nm \<noteq> None"

definition pkg_has_update :: "'d pkgs \<Rightarrow> u8 list \<Rightarrow> bool" where
  "pkg_has_update s nm \<longleftrightarrow> (if pkg_db_find_installed s nm = None then False else False)"

text \<open>The list of installed packages stays as it is, since there is never an update.\<close>

fun upgrade_loop :: "'d host \<Rightarrow> 'd pkgs \<Rightarrow> (addr \<times> pkg_entry) list \<Rightarrow> nat \<Rightarrow> ('d pkgs \<times> nat) option" where
  "upgrade_loop w s [] n = Some (s, n)"
| "upgrade_loop w s ((a, e) # es) n =
     (if e_state e = PKG_STATE_INSTALLED \<and> e_auto e \<noteq> 0
      then (case text_at (e_header e) 20 of None \<Rightarrow> None
        | Some nm \<Rightarrow>
            if pkg_has_update s nm
            then (case pkg_upgrade w s (Some nm) of None \<Rightarrow> None
              | Some (s1, r) \<Rightarrow> upgrade_loop w s1 es (if r = 0 then n + 1 else n))
            else upgrade_loop w s es n)
      else upgrade_loop w s es n)"

definition pkg_upgrade_all :: "'d host \<Rightarrow> 'd pkgs \<Rightarrow> ('d pkgs \<times> nat) option" where
  "pkg_upgrade_all w s = upgrade_loop w s (installed s) 0"

definition pkg_verify_files :: "'d pkgs \<Rightarrow> u8 list \<Rightarrow> int" where
  "pkg_verify_files s nm = (if pkg_db_find_installed s nm = None then - 1 else 0)"

text \<open>The number of failures.\<close>

definition pkg_verify_all :: "'d pkgs \<Rightarrow> nat option" where
  "pkg_verify_all s = foldl (\<lambda>k (a, e). case k of None \<Rightarrow> None | Some n \<Rightarrow>
      if e_state e = PKG_STATE_INSTALLED
      then (case text_at (e_header e) 20 of None \<Rightarrow> None | Some nm \<Rightarrow> Some (if pkg_verify_files s nm = 0 then n else n + 1))
      else Some n) (Some 0) (installed s)"

text \<open>The search for a file in the cache, once for each enabled repository.\<close>

fun search_cache :: "'d host \<Rightarrow> 'd pkgs \<Rightarrow> u8 list \<Rightarrow> nat list \<Rightarrow> ('d pkgs \<times> int) option" where
  "search_cache w s path [] = Some (s, - 1)"
| "search_cache w s path (i # is') =
     (if r_enabled (repos s ! i) = 0 then search_cache w s path is'
      else case fs_open (device w) (vf s) (Some path) FS_O_RDONLY (clock_us w) (clock_ms w) of
        None \<Rightarrow> None
      | Some (v1, fd) \<Rightarrow>
          if 0 \<le> fd then pkg_install w (s\<lparr>vf := fs_close (device w) v1 fd\<rparr>) (Some path)
          else search_cache w (s\<lparr>vf := v1\<rparr>) path is')"

definition pkg_install_from_repo :: "'d host \<Rightarrow> 'd pkgs \<Rightarrow> u8 list \<Rightarrow> ('d pkgs \<times> int) option" where
  "pkg_install_from_repo w s nm =
     search_cache w s (take 255 (cache_path s @ [0x2F] @ nm @ ascii ''.crimson'')) [0..<unat (repo_count s)]"

section \<open>Commands\<close>

text \<open>The state after a command; the commands that only print leave it as it is.\<close>

definition contains :: "u8 list \<Rightarrow> u8 list \<Rightarrow> bool" where
  "contains s x \<longleftrightarrow> list_ex (\<lambda>k. take (length x) (drop k s) = x) [0..<Suc (length s)]"

definition pkg_cmd_install :: "'d host \<Rightarrow> 'd pkgs \<Rightarrow> u8 list list \<Rightarrow> 'd pkgs option" where
  "pkg_cmd_install w s args =
     (case args of [] \<Rightarrow> Some s
      | target # _ \<Rightarrow> map_option fst
          (if contains target (ascii ''.crimson'') then pkg_install w s (Some target) else pkg_install_from_repo w s target))"

definition pkg_cmd_remove :: "'d host \<Rightarrow> 'd pkgs \<Rightarrow> u8 list list \<Rightarrow> 'd pkgs option" where
  "pkg_cmd_remove w s args = (case args of [] \<Rightarrow> Some s | nm # _ \<Rightarrow> map_option fst (pkg_remove w s (Some nm) 0))"

definition pkg_cmd_purge :: "'d host \<Rightarrow> 'd pkgs \<Rightarrow> u8 list list \<Rightarrow> 'd pkgs option" where
  "pkg_cmd_purge w s args = (case args of [] \<Rightarrow> Some s | nm # _ \<Rightarrow> map_option fst (pkg_purge w s (Some nm)))"

definition pkg_cmd_upgrade :: "'d host \<Rightarrow> 'd pkgs \<Rightarrow> u8 list list \<Rightarrow> 'd pkgs option" where
  "pkg_cmd_upgrade w s args =
     (case args of [] \<Rightarrow> map_option fst (pkg_upgrade_all w s) | nm # _ \<Rightarrow> map_option fst (pkg_upgrade w s (Some nm)))"

text \<open>The words of the query are joined in an array of 256 characters.\<close>

fun join_words :: "u8 list list \<Rightarrow> u8 list" where
  "join_words [] = []"
| "join_words [x] = x"
| "join_words (x # xs) = x @ [0x20] @ join_words xs"

definition pkg_cmd_search :: "'d pkgs \<Rightarrow> u8 list list \<Rightarrow> 'd pkgs option" where
  "pkg_cmd_search s args = (if 256 \<le> length (join_words (take 8 args)) then None else Some s)"

definition pkg_cmd_repo :: "'d pkgs \<Rightarrow> u8 list list \<Rightarrow> 'd pkgs option" where
  "pkg_cmd_repo s args =
     (case args of [] \<Rightarrow> Some s
      | c # r \<Rightarrow>
          if c = ascii ''add'' \<and> 2 \<le> length r then map_option fst (pkg_repo_add s (r ! 0) (r ! 1) None 0)
          else if c = ascii ''remove'' \<and> 1 \<le> length r then map_option (pkg_repo_remove s) (parse_int (r ! 0))
          else if c = ascii ''enable'' \<and> 1 \<le> length r then map_option (\<lambda>i. pkg_repo_enable s i 1) (parse_int (r ! 0))
          else if c = ascii ''disable'' \<and> 1 \<le> length r then map_option (\<lambda>i. pkg_repo_enable s i 0) (parse_int (r ! 0))
          else Some s)"

definition pkg_cmd_sync :: "'d host \<Rightarrow> 'd pkgs \<Rightarrow> u8 list list \<Rightarrow> 'd pkgs option" where
  "pkg_cmd_sync w s args =
     (case args of [] \<Rightarrow> Some (pkg_repo_sync_all w s) | i # _ \<Rightarrow> map_option (\<lambda>i. fst (pkg_repo_sync w s i)) (parse_int i))"

definition pkg_shell_dispatch :: "'d host \<Rightarrow> 'd pkgs \<Rightarrow> u8 list \<Rightarrow> u8 list list \<Rightarrow> 'd pkgs option" where
  "pkg_shell_dispatch w s cmd args =
     (if cmd = ascii ''install'' then pkg_cmd_install w s args
      else if cmd = ascii ''remove'' then pkg_cmd_remove w s args
      else if cmd = ascii ''purge'' then pkg_cmd_purge w s args
      else if cmd = ascii ''upgrade'' then pkg_cmd_upgrade w s args
      else if cmd = ascii ''search'' then pkg_cmd_search s args
      else if cmd = ascii ''repo'' then pkg_cmd_repo s args
      else if cmd = ascii ''sync'' then pkg_cmd_sync w s args
      else Some s)"

end
