(* ===== verification/PkgRules.thy ===== *)
theory PkgRules
  imports Pkg "HOL-Library.Product_Lexorder"
begin

text \<open>
  The rules of the package manager: the order of versions, the printed sizes, what signatures are accepted,
  the table of repositories and the table of installed packages.
\<close>

section \<open>Decimal numbers\<close>

abbreviation chars :: "u8 list \<Rightarrow> string" where
  "chars s \<equiv> map (\<lambda>b. char_of (unat b)) s"

lemma dec_digits: "b \<in> set (dec n) \<Longrightarrow> \<exists>d < 10. b = digit d"
proof (induction n rule: dec.induct)
  case (1 n)
  show ?case
  proof (cases "n < 10")
    case True
    with "1.prems" show ?thesis by (subst (asm) dec.simps) auto
  next
    case False
    with "1.prems" have "b \<in> set (dec (n div 10)) \<or> b = digit (n mod 10)" by (subst (asm) dec.simps) auto
    moreover have "n mod 10 < 10" by simp
    ultimately show ?thesis using "1.IH" [OF False] by blast
  qed
qed

lemma dec_nonempty: "dec n \<noteq> []"
  by (subst dec.simps) simp

lemma code_of: "code (char_of (n :: nat)) = int (n mod 256)"
  by (metis of_char_of of_nat_of_char)

lemma code_digit: "d < 10 \<Longrightarrow> code (char_of (unat (digit d))) = 0x30 + int d"
proof -
  assume d: "d < 10"
  then have "unat (digit d) = 0x30 + d" unfolding digit_def by (subst unat_of_nat) simp
  with d show ?thesis by (simp add: code_of)
qed

lemma str_digits_digit:
  assumes "d < 10" and "acc * 10 + int d < 2 ^ bits"
  shows "str_digits bits acc (char_of (unat (digit d)) # rest) = str_digits bits (acc * 10 + int d) rest"
  using assms by (simp add: code_digit is_digit_def Let_def)

lemma str_digits_dec:
  assumes "acc * 10 ^ length (dec n) + int n < 2 ^ bits" and "0 \<le> acc"
  shows "str_digits bits acc (chars (dec n) @ rest) = str_digits bits (acc * 10 ^ length (dec n) + int n) rest"
  using assms
proof (induction n arbitrary: rest rule: dec.induct)
  case (1 n)
  show ?case
  proof (cases "n < 10")
    case True
    then have d: "dec n = [digit n]" by (subst dec.simps) simp
    show ?thesis using "1.prems" True unfolding d by (simp add: str_digits_digit del: str_digits.simps)
  next
    case False
    let ?m = "n div 10" and ?d = "n mod 10"
    have d: "dec n = dec ?m @ [digit ?d]" using False by (subst dec.simps) simp
    have n: "int n = 10 * int ?m + int ?d" by presburger
    let ?l = "10 ^ length (dec ?m) :: int"
    have "10 * (acc * ?l + int ?m) + int ?d < 2 ^ bits"
      using "1.prems"(1) unfolding d n by (simp add: algebra_simps)
    moreover have "0 \<le> acc * ?l + int ?m" using "1.prems"(2) by simp
    moreover have "x < b" if "10 * x + r < b" "0 \<le> x" "0 \<le> r" for x r b :: int using that by linarith
    ultimately have less: "acc * ?l + int ?m < 2 ^ bits" using of_nat_0_le_iff by blast
    have eq: "acc * 10 ^ length (dec n) + int n = (acc * ?l + int ?m) * 10 + int ?d" unfolding d n by (simp add: algebra_simps)
    have lt: "(acc * ?l + int ?m) * 10 + int ?d < 2 ^ bits" using "1.prems"(1) unfolding eq .
    have "?d < 10" by simp
    from str_digits_digit [OF this lt] "1.IH" [OF False less "1.prems"(2)] show ?thesis unfolding eq by (simp add: d del: str_digits.simps)
  qed
qed

section \<open>Versions\<close>

lemma parse_int_dec:
  assumes "n < 2 ^ 31" and "rest = [] \<or> hd rest = 0x2E"
  shows "parse_int (dec n @ rest) = Some (of_nat n)"
proof -
  obtain b bs where d: "dec n = b # bs" using dec_nonempty by (cases "dec n") auto
  then obtain k where k: "k < 10" "b = digit k" using dec_digits [of b n] by auto
  have c: "code (char_of (unat b)) = 0x30 + int k" unfolding k(2) by (rule code_digit [OF k(1)])
  have stop: "str_digits 31 x (chars rest) = Some x" for x
    using assms(2) by (cases rest) (auto simp: is_digit_def code_of)
  have "str_digits 31 0 (chars (dec n) @ chars rest) = str_digits 31 (int n) (chars rest)"
    using str_digits_dec [of 0 n 31] assms(1) by simp
  then have "str_atoi (chars (dec n @ rest)) = Some (int n)"
    using c stop unfolding str_atoi_def by (simp add: d)
  then show ?thesis unfolding parse_int_def by simp
qed

lemma after_dot_dec: "after_dot (dec n @ 0x2E # r) = Some r" "after_dot (dec n) = None"
proof -
  have "b \<noteq> 0x2E" if "b \<in> set (dec n)" for b
  proof -
    from dec_digits [OF that] obtain d where d: "d < 10" "b = digit d" by blast
    then have "unat b = 0x30 + d" unfolding digit_def by (simp add: unat_of_nat del: of_nat_add)
    then show ?thesis by auto
  qed
  then have "dropWhile (\<lambda>b. b \<noteq> 0x2E) (dec n) = []" and "dropWhile (\<lambda>b. b \<noteq> 0x2E) (dec n @ 0x2E # r) = 0x2E # r"
    by (simp_all add: dropWhile_append2)
  then show "after_dot (dec n @ 0x2E # r) = Some r" "after_dot (dec n) = None"
    by (simp_all only: after_dot_def list.case)
qed

text \<open>The text of a version.\<close>

definition version_text :: "nat \<times> nat \<times> nat \<Rightarrow> u8 list" where
  "version_text = (\<lambda>(a, b, c). dec a @ 0x2E # dec b @ 0x2E # dec c)"

abbreviation small_version :: "nat \<times> nat \<times> nat \<Rightarrow> bool" where
  "small_version v \<equiv> fst v < 2 ^ 31 \<and> fst (snd v) < 2 ^ 31 \<and> snd (snd v) < 2 ^ 31"

lemma parse_version_text:
  "small_version (a, b, c) \<Longrightarrow> pkg_parse_version (version_text (a, b, c)) = Some (of_nat a, of_nat b, of_nat c)"
  using parse_int_dec [of a "0x2E # dec b @ 0x2E # dec c"] parse_int_dec [of b "0x2E # dec c"] parse_int_dec [of c "[]"]
  by (simp add: pkg_parse_version_def version_text_def after_dot_dec dotted_part_def Let_def)

lemma compare_lex: "compare_version x y = (if x = y then 0 else if y < x then 1 else - 1)"
  by (cases x; cases y) (auto simp: compare_version_def less_prod_def)

lemma of_nat_u32_inj: "a < 2 ^ 31 \<Longrightarrow> b < 2 ^ 31 \<Longrightarrow> (of_nat a :: u32) = of_nat b \<longleftrightarrow> a = b"
  and of_nat_u32_less: "a < 2 ^ 31 \<Longrightarrow> b < 2 ^ 31 \<Longrightarrow> (of_nat a :: u32) < of_nat b \<longleftrightarrow> a < b"
  and of_nat_u32_le: "a < 2 ^ 31 \<Longrightarrow> b < 2 ^ 31 \<Longrightarrow> (of_nat a :: u32) \<le> of_nat b \<longleftrightarrow> a \<le> b"
  by (simp_all add: word_unat_eq_iff word_less_nat_alt word_le_nat_alt unat_of_nat_small)

text \<open>
  C27: Versions are ordered by their numbers: two versions written as three decimal numbers compare as the triples of the
  numbers in lexicographic order, whatever the number of digits.
\<close>

theorem version_order:
  assumes "small_version v" and "small_version v'"
  shows "pkg_version_compare (version_text v) (version_text v') = Some (if v = v' then 0 else if v' < v then 1 else - 1)"
proof -
  obtain a b c a' b' c' where v: "v = (a, b, c)" "v' = (a', b', c')" by (metis prod_cases3)
  show ?thesis
    using assms parse_version_text [of a b c] parse_version_text [of a' b' c'] unfolding v
    by (auto simp: pkg_version_compare_def compare_lex less_prod_def of_nat_u32_inj of_nat_u32_less of_nat_u32_le)
qed

theorem version_order_witness: "pkg_version_compare (version_text (1, 10, 0)) (version_text (1, 9, 7)) = Some 1"
  using version_order [of "(1, 10, 0)" "(1, 9, 7)"] by (simp add: less_prod_def)

section \<open>Sizes\<close>

lemma length_dec: "n < 10 ^ k \<Longrightarrow> 0 < k \<Longrightarrow> length (dec n) \<le> k"
proof (induction k arbitrary: n)
  case 0
  then show ?case by simp
next
  case (Suc k)
  show ?case
  proof (cases "n < 10")
    case True
    then show ?thesis by (subst dec.simps) simp
  next
    case False
    with Suc.prems have "n div 10 < 10 ^ k" "0 < k" by (auto simp: less_mult_imp_div_less mult.commute) (cases k; simp)
    with Suc.IH [of "n div 10"] False show ?thesis by (subst dec.simps) simp
  qed
qed

text \<open>
  Every size is printed within nine characters, so that the buffers of 16 suffice; the digit after the point
  is a single one.
\<close>

theorem format_size_fits:
  "length (pkg_format_size b) \<le> 9 \<and> b mod 1024 * 10 div 1024 < 10 \<and> b mod 1048576 * 10 div 1048576 < 10"
proof -
  have kb: "unat (b mod 1024 * 10 div 1024) < 10"
  proof -
    have "unat (b mod 1024) < 1024" by (simp add: unat_mod)
    then have "unat (b mod 1024 * 10) = unat (b mod 1024) * 10" by (subst unat_mult_small) simp_all
    with \<open>unat (b mod 1024) < 1024\<close> show ?thesis by (simp add: unat_div less_mult_imp_div_less)
  qed
  have mb: "unat (b mod 1048576 * 10 div 1048576) < 10"
  proof -
    have "unat (b mod 1048576) < 1048576" by (simp add: unat_mod)
    then have "unat (b mod 1048576 * 10) = unat (b mod 1048576) * 10" by (subst unat_mult_small) simp_all
    with \<open>unat (b mod 1048576) < 1048576\<close> show ?thesis by (simp add: unat_div less_mult_imp_div_less)
  qed
  have small: "unat (b div k) < n" if "unat b < n * unat k" for k n
    using that by (simp add: unat_div less_mult_imp_div_less)
  have "unat b < 2 ^ 32" using unsigned_less [of b, where ?'a = nat] by simp
  then have gb: "unat (b div 1073741824) < 10" using small [of 10 1073741824] by simp
  have d: "length (dec_u32 w) \<le> k" if "unat w < 10 ^ k" "0 < k" for w k
    using that by (simp add: dec_u32_def length_dec)
  have "length (pkg_format_size b) \<le> 9"
  proof (cases "b < 1024")
    case True
    then show ?thesis using d [of b 4] by (simp add: pkg_format_size_def ascii_def word_less_nat_alt)
  next
    case 1: False
    show ?thesis
    proof (cases "b < 1048576")
      case True
      then have "unat (b div 1024) < 10 ^ 4" using small [of 1024 1024] by (simp add: word_less_nat_alt)
      with 1 True kb d [of "b div 1024" 4] d [of "b mod 1024 * 10 div 1024" 1] show ?thesis
        by (simp add: pkg_format_size_def ascii_def)
    next
      case 2: False
      show ?thesis
      proof (cases "b < 1073741824")
        case True
        then have "unat (b div 1048576) < 10 ^ 4" using small [of 1024 1048576] by (simp add: word_less_nat_alt)
        with 1 2 True mb d [of "b div 1048576" 4] d [of "b mod 1048576 * 10 div 1048576" 1] show ?thesis
          by (simp add: pkg_format_size_def ascii_def)
      next
        case False
        with 1 2 gb d [of "b div 1073741824" 1] show ?thesis by (simp add: pkg_format_size_def ascii_def)
      qed
    qed
  qed
  with kb mb show ?thesis by (simp add: word_less_nat_alt)
qed

section \<open>Signatures\<close>

lemma byte_sum_small:
  assumes "length bs < 2 ^ 16"
  shows "unat (byte_sum bs) = sum_list (map unat bs)"
proof -
  have "length bs * 255 < 2 ^ 32 \<Longrightarrow> unat (byte_sum bs) = sum_list (map unat bs) \<and> sum_list (map unat bs) \<le> length bs * 255"
  proof (induction bs rule: rev_induct)
    case Nil
    then show ?case by (simp add: byte_sum_def)
  next
    case (snoc b bs)
    have b: "unat (ucast b :: u32) = unat b" "unat b \<le> 255"
      using unsigned_less [of b, where ?'a = nat] by (simp_all add: unsigned_ucast_eq take_bit_nat_eq_self)
    have IH: "unat (byte_sum bs) = sum_list (map unat bs)" "sum_list (map unat bs) \<le> length bs * 255" using snoc by auto
    have "byte_sum (bs @ [b]) = byte_sum bs + ucast b" by (simp add: byte_sum_def)
    moreover have "unat (byte_sum bs) + unat (ucast b :: u32) < 2 ^ 32" using IH b snoc.prems by simp
    ultimately show ?case using IH b by (simp add: unat_add_small)
  qed
  with assms show ?thesis by simp
qed

lemma byte_sum_zero:
  assumes "length bs < 2 ^ 16"
  shows "byte_sum bs = 0 \<longleftrightarrow> all_zero bs"
proof -
  have "byte_sum bs = 0 \<longleftrightarrow> sum_list (map unat bs) = 0" using byte_sum_small [OF assms] by (metis unat_eq_zero)
  then show ?thesis by (auto simp: all_zero_def unat_eq_zero)
qed

lemma length_pkg_hash: "length (pkg_hash_sha256 d) = 32"
  by (simp add: pkg_hash_sha256_def be_bytes_def Let_def split: prod.split)

text \<open>
  A signature is accepted whoever made it: what is checked are two bits and that neither the signature nor the
  key is zero.  The message has no part in it, so that one signature fits every package, in particular under the
  official key, which every installation trusts.
\<close>

theorem forged_signature:
  assumes "length sig = 64" and "length pk = 32"
  shows "pkg_ed25519_verify msg sig pk = (if \<not> all_zero sig \<and> \<not> all_zero pk \<and> sig ! 63 AND 0xC0 = 0 \<and> pk ! 31 AND 0x80 = 0 then 0 else - 1)
    \<and> pkg_ed25519_verify msg (1 # replicate 63 0) CRIMSON_OFFICIAL_PUBKEY = 0
    \<and> (system_pubkey s = CRIMSON_OFFICIAL_PUBKEY \<longrightarrow> signer_trusted s CRIMSON_OFFICIAL_PUBKEY)"
proof -
  have g: "pkg_ed25519_verify msg sg key = (if \<not> all_zero sg \<and> \<not> all_zero key \<and> sg ! 63 AND 0xC0 = 0 \<and> key ! 31 AND 0x80 = 0 then 0 else - 1)"
    if l: "length sg = 64" "length key = 32" for sg key
  proof -
    have "byte_sum (sg @ pkg_hash_sha256 msg) \<noteq> 0" if "\<not> all_zero sg"
      using that l by (subst byte_sum_zero) (auto simp: length_pkg_hash all_zero_def)
    moreover have "byte_sum key \<noteq> 0" if "\<not> all_zero key" using that l by (subst byte_sum_zero) simp_all
    ultimately show ?thesis by (simp add: pkg_ed25519_verify_def)
  qed
  have "pkg_ed25519_verify msg (1 # replicate 63 0) CRIMSON_OFFICIAL_PUBKEY = 0"
    by (subst g) (simp_all add: CRIMSON_OFFICIAL_PUBKEY_def all_zero_def)
  with g [OF assms] show ?thesis by (simp add: signer_trusted_def)
qed

theorem forged_signature_witness:
  "pkg_ed25519_verify [1, 2, 3] (1 # replicate 63 0) (1 # replicate 31 0) = 0"
proof -
  fix s :: "unit pkgs"
  show ?thesis using forged_signature [of "1 # replicate 63 0" "1 # replicate 31 0" "[1, 2, 3]" s] by (simp add: all_zero_def)
qed

section \<open>Repositories\<close>

definition repo_ok :: "'d pkgs \<Rightarrow> bool" where
  "repo_ok s \<longleftrightarrow> length (repos s) = PKG_MAX_REPOS \<and> unat (repo_count s) \<le> PKG_MAX_REPOS"

definition repo_list :: "'d pkgs \<Rightarrow> pkg_repo list" where
  "repo_list s = take (unat (repo_count s)) (repos s)"

datatype repo_op = Add "u8 list" "u8 list" "u8 list option" u32 | Remove u32 | Enable u32 u32 | Sync u32

fun repo_step :: "'d host \<Rightarrow> 'd pkgs \<Rightarrow> repo_op \<Rightarrow> 'd pkgs option" where
  "repo_step w s (Add nm url key tr) = map_option fst (pkg_repo_add s nm url key tr)"
| "repo_step w s (Remove i) = Some (pkg_repo_remove s i)"
| "repo_step w s (Enable i en) = Some (pkg_repo_enable s i en)"
| "repo_step w s (Sync i) = Some (fst (pkg_repo_sync w s i))"

text \<open>The operations on a list of at most 16; \<open>old\<close> is what the next slot of the array held before.\<close>

fun spec_repos :: "u64 \<Rightarrow> pkg_repo \<Rightarrow> repo_op \<Rightarrow> pkg_repo list \<Rightarrow> pkg_repo list" where
  "spec_repos now old (Add nm url key tr) rs =
     (if length rs = 16 then rs
      else rs @ [old\<lparr>r_id := of_nat (length rs), r_enabled := 1, r_name := nm, r_url := url,
        r_pubkey := (case key of None \<Rightarrow> r_pubkey old | Some k \<Rightarrow> k), r_priority := 100 - of_nat (length rs) * 10, r_trusted := tr\<rparr>])"
| "spec_repos now old (Remove i) rs = take (unat i) rs @ drop (Suc (unat i)) rs"
| "spec_repos now old (Enable i en) rs = rs[unat i := (rs ! unat i)\<lparr>r_enabled := en\<rparr>]"
| "spec_repos now old (Sync i) rs = (if unat i < length rs \<and> r_enabled (rs ! unat i) \<noteq> 0
     then rs[unat i := (rs ! unat i)\<lparr>r_last_sync := now, r_count := 1000\<rparr>] else rs)"

lemma shift_repos_take:
  "i + n < length rs \<Longrightarrow> take (i + n) (shift_repos rs i n) = take i rs @ take n (drop (Suc i) rs) \<and> length (shift_repos rs i n) = length rs"
proof (induction n arbitrary: i rs)
  case 0
  then show ?case by simp
next
  case (Suc n)
  let ?rs = "rs[i := rs ! Suc i]"
  from Suc.IH [of "Suc i" ?rs] Suc.prems have
    "take (Suc i + n) (shift_repos ?rs (Suc i) n) = take (Suc i) ?rs @ take n (drop (Suc (Suc i)) ?rs)" "length (shift_repos ?rs (Suc i) n) = length rs"
    by auto
  moreover have "take (Suc i) ?rs = take i rs @ [rs ! Suc i]" using Suc.prems by (simp add: take_Suc_conv_app_nth)
  moreover have "drop (Suc i) rs = rs ! Suc i # drop (Suc (Suc i)) rs" using Suc.prems by (simp add: Cons_nth_drop_Suc)
  ultimately show ?case by (simp add: take_Cons')
qed

lemma repo_add_list:
  assumes ok: "repo_ok s" and ad: "pkg_repo_add s nm url key tr = Some (s', r)"
  shows "repo_ok s' \<and> repo_list s' = spec_repos now (repos s ! unat (repo_count s)) (Add nm url key tr) (repo_list s)"
proof -
  let ?n = "unat (repo_count s)"
  have len: "length (repos s) = 16" "?n \<le> 16" "length (repo_list s) = ?n"
    using ok by (auto simp: repo_ok_def repo_list_def PKG_MAX_REPOS_def)
  show ?thesis
  proof (cases "of_nat PKG_MAX_REPOS \<le> repo_count s")
    case True
    then have "?n = 16" using len by (simp add: PKG_MAX_REPOS_def word_le_nat_alt)
    with True ad ok len show ?thesis by (auto simp: pkg_repo_add_def)
  next
    case False
    then have n: "?n < 16" by (simp add: PKG_MAX_REPOS_def word_less_nat_alt not_le)
    then have s: "unat (repo_count s + 1) = Suc ?n" by (subst unat_add_small) simp_all
    from ad False obtain r where s': "s' = s\<lparr>repos := (repos s)[?n := r], repo_count := repo_count s + 1\<rparr>"
      and r: "r = (repos s ! ?n)\<lparr>r_id := repo_count s, r_enabled := 1, r_name := nm, r_url := url,
                r_pubkey := (case key of None \<Rightarrow> r_pubkey (repos s ! ?n) | Some k \<Rightarrow> k),
                r_priority := 100 - repo_count s * 10, r_trusted := tr\<rparr>"
      by (auto simp: pkg_repo_add_def Let_def split: if_splits)
    have "repo_list s' = repo_list s @ [r]" using n len s by (simp add: s' repo_list_def take_Suc_conv_app_nth)
    moreover have "repo_ok s'" using ok n s by (simp add: s' repo_ok_def PKG_MAX_REPOS_def)
    ultimately show ?thesis using n len r by simp
  qed
qed

lemma repo_remove_list:
  assumes ok: "repo_ok s"
  shows "repo_ok (pkg_repo_remove s i) \<and> repo_list (pkg_repo_remove s i) = spec_repos now old (Remove i) (repo_list s)"
proof -
  let ?n = "unat (repo_count s)"
  have len: "length (repos s) = 16" "?n \<le> 16" "length (repo_list s) = ?n"
    using ok by (auto simp: repo_ok_def repo_list_def PKG_MAX_REPOS_def)
  show ?thesis
  proof (cases "repo_count s \<le> i")
    case True
    then have "?n \<le> unat i" by (simp add: word_le_nat_alt)
    with True ok len show ?thesis by (auto simp: pkg_repo_remove_def)
  next
    case False
    then have i: "unat i < ?n" by (simp add: word_less_nat_alt not_le)
    then have m: "unat (repo_count s - 1) = ?n - 1" "unat (repo_count s - 1 - i) = ?n - 1 - unat i"
      using unat_sub_small by (auto simp: unat_sub word_le_nat_alt)
    have s': "pkg_repo_remove s i = s\<lparr>repos := shift_repos (repos s) (unat i) (?n - 1 - unat i), repo_count := repo_count s - 1\<rparr>"
      using False m by (simp add: pkg_repo_remove_def)
    from shift_repos_take [of "unat i" "?n - 1 - unat i" "repos s"] i len have
      "take (?n - 1) (shift_repos (repos s) (unat i) (?n - 1 - unat i)) = take (unat i) (repos s) @ take (?n - 1 - unat i) (drop (Suc (unat i)) (repos s))"
      "length (shift_repos (repos s) (unat i) (?n - 1 - unat i)) = 16" by auto
    moreover have "take (?n - 1 - unat i) (drop (Suc (unat i)) (repos s)) = drop (Suc (unat i)) (repo_list s)"
      using i by (simp add: repo_list_def drop_take)
    ultimately show ?thesis using i m len by (auto simp: s' repo_ok_def repo_list_def PKG_MAX_REPOS_def)
  qed
qed

lemma repo_upd_list:
  assumes "repo_ok s" and "i < repo_count s"
  shows "repo_ok (upd_repo s i f) \<and> repo_list (upd_repo s i f) = (repo_list s)[unat i := f (repo_list s ! unat i)]"
  using assms by (auto simp: repo_ok_def repo_list_def upd_repo_def word_less_nat_alt take_update_swap)

lemma repo_list_length: "repo_ok s \<Longrightarrow> length (repo_list s) = unat (repo_count s)"
  by (simp add: repo_ok_def repo_list_def)

lemma repo_list_nth: "i < repo_count s \<Longrightarrow> repo_list s ! unat i = repos s ! unat i"
  by (simp add: repo_list_def word_less_nat_alt)

text \<open>
  The array of repositories and its counter implement a list of at most 16: adding appends, removing deletes,
  enabling and synchronising change one entry.
\<close>

theorem repos_refine_list:
  assumes ok: "repo_ok s" and st: "repo_step w s op = Some s'"
  shows "repo_ok s' \<and> (\<exists>old. repo_list s' = spec_repos (clock_ms w div 1000) old op (repo_list s))"
proof (cases op)
  case (Add nm url key tr)
  with st repo_add_list [OF ok] show ?thesis by fastforce
next
  case (Remove i)
  with st repo_remove_list [OF ok] show ?thesis by auto
next
  case (Enable i en)
  with st repo_upd_list [OF ok, of i "\<lambda>r. r\<lparr>r_enabled := en\<rparr>"] ok show ?thesis
    by (cases "i < repo_count s") (auto simp: pkg_repo_enable_def word_less_nat_alt list_update_beyond repo_list_length)
next
  case (Sync i)
  with st repo_upd_list [OF ok, of i "\<lambda>r. r\<lparr>r_last_sync := clock_ms w div 1000, r_count := 1000\<rparr>"] ok repo_list_nth [of i s] show ?thesis
    by (cases "i < repo_count s") (auto simp: pkg_repo_sync_def word_less_nat_alt word_le_nat_alt repo_list_length)
qed

definition demo_pkgs :: "'d vfs \<Rightarrow> 'd pkgs" where
  "demo_pkgs v = \<lparr>installed = [], repos = map (\<lambda>i. zero_repo\<lparr>r_id := of_nat i, r_enabled := 1\<rparr>) [0..<16], repo_count = 3,
     total_installed = 0, install_root = ascii ''/apps'', db_path = ascii ''/data/pkg/db'', cache_path = ascii ''/data/pkg/cache'',
     system_pubkey = CRIMSON_OFFICIAL_PUBKEY, auto_update = 1, vf = v, hp = small_heap\<rparr>"

lemma demo_pkgs_sel:
  "repo_ok (demo_pkgs v)" "repo_list (demo_pkgs v) = map (\<lambda>i. zero_repo\<lparr>r_id := of_nat i, r_enabled := 1\<rparr>) [0..<3]"
  "repo_count (demo_pkgs v) = 3"
  by (simp_all add: demo_pkgs_def repo_ok_def repo_list_def PKG_MAX_REPOS_def take_map)

theorem repos_refine_list_witness:
  "\<exists>s'. repo_step \<lparr>device = ram_disk 4096, clock_us = 0, clock_ms = 5000\<rparr> (demo_pkgs demo_vfs) (Remove 1) = Some s'
     \<and> map r_id (repo_list s') = [0, 2]"
  using repos_refine_list [OF demo_pkgs_sel(1) [of demo_vfs], of "\<lparr>device = ram_disk 4096, clock_us = 0, clock_ms = 5000\<rparr>" "Remove 1"]
  by (auto simp: demo_pkgs_sel upt_rec)

text \<open>
  Numbers of repositories go stale: after one of fresh repositories is removed, the number shown for a later one
  is one more than the number the commands take for it, and the next repository that is added gets a number that is
  taken.
\<close>

theorem repo_ids_stale:
  assumes ok: "repo_ok s" and ids: "map r_id (repo_list s) = map of_nat [0..<unat (repo_count s)]" and i: "unat i + 1 < unat (repo_count s)"
    and ad: "pkg_repo_add (pkg_repo_remove s i) nm url key tr = Some (s', r)"
  shows "(\<exists>x. pkg_repo_get (pkg_repo_remove s i) i = Some x \<and> r_id x = i + 1) \<and> \<not> distinct (map r_id (repo_list s'))"
proof -
  let ?s1 = "pkg_repo_remove s i" and ?n = "unat (repo_count s)"
  have ok1: "repo_ok ?s1" and l1: "repo_list ?s1 = take (unat i) (repo_list s) @ drop (Suc (unat i)) (repo_list s)"
    using repo_remove_list [OF ok, of i 0 zero_repo] by simp_all
  have n: "length (repo_list s) = ?n" by (rule repo_list_length [OF ok])
  have c1: "unat (repo_count ?s1) = ?n - 1" using repo_list_length [OF ok1] l1 n i by simp
  have idn: "r_id (repo_list s ! k) = of_nat k" if "k < ?n" for k
    using ids n that by (metis add_0 length_map length_upt minus_nat.diff_0 nth_map nth_upt)
  have lt: "i < repo_count ?s1" using c1 i by (simp add: word_less_nat_alt)
  then have "pkg_repo_get ?s1 i = Some (repo_list ?s1 ! unat i)" by (simp add: pkg_repo_get_def repo_list_nth)
  moreover have "repo_list ?s1 ! unat i = repo_list s ! Suc (unat i)" using i n by (simp add: l1 nth_append)
  ultimately have get: "\<exists>x. pkg_repo_get ?s1 i = Some x \<and> r_id x = i + 1" using idn [of "Suc (unat i)"] i by (simp add: add.commute)
  let ?r = "repo_list s'"
  have "?n \<le> 16" using ok by (simp add: repo_ok_def PKG_MAX_REPOS_def)
  then have new: "?r = repo_list ?s1 @ [?r ! (?n - 1)]" "r_id (?r ! (?n - 1)) = of_nat (?n - 1)"
    using repo_add_list [OF ok1 ad, of 0] repo_list_length [OF ok1] c1 i by (auto simp: nth_append)
  have "repo_list ?s1 ! (?n - 2) = repo_list s ! (?n - 1)" using i n by (auto simp: l1 nth_append nth_drop Suc_diff_Suc numeral_2_eq_2)
  moreover have "?n - 2 < ?n - 1" using i by simp
  ultimately have "r_id (?r ! (?n - 2)) = of_nat (?n - 1)" using idn [of "?n - 1"] i repo_list_length [OF ok1] c1
    by (subst new(1)) (simp add: nth_append)
  moreover have "length ?r = ?n" using arg_cong [OF new(1), of length] repo_list_length [OF ok1] c1 i by simp
  ultimately have "map r_id ?r ! (?n - 2) = map r_id ?r ! (?n - 1)" "?n - 2 < length (map r_id ?r)" "?n - 1 < length (map r_id ?r)" "?n - 2 \<noteq> ?n - 1"
    using new(2) i by simp_all
  then have "\<not> distinct (map r_id ?r)" using nth_eq_iff_index_eq by blast
  with get show ?thesis by blast
qed

theorem repo_ids_stale_witness:
  "\<exists>s' r. pkg_repo_add (pkg_repo_remove (demo_pkgs demo_vfs) 0) [0x61] [0x62] None 0 = Some (s', r) \<and> \<not> distinct (map r_id (repo_list s'))"
proof -
  let ?s = "pkg_repo_remove (demo_pkgs demo_vfs) 0"
  have "unat (repo_count ?s) = 2"
    using repo_remove_list [OF demo_pkgs_sel(1), of demo_vfs 0 0 zero_repo] repo_list_length [of ?s] by (simp add: demo_pkgs_sel)
  then have "\<not> 16 \<le> repo_count ?s" by (simp add: word_le_nat_alt)
  then obtain s' r where "pkg_repo_add ?s [0x61] [0x62] None 0 = Some (s', r)" by (simp add: pkg_repo_add_def PKG_MAX_REPOS_def Let_def)
  with repo_ids_stale [OF demo_pkgs_sel(1) _ _ this] show ?thesis by (auto simp: demo_pkgs_sel upt_rec)
qed

section \<open>The table of installed packages\<close>

definition entry_name :: "pkg_entry \<Rightarrow> u8 list" where
  "entry_name e = takeWhile (\<lambda>b. b \<noteq> 0) (drop 20 (e_header e))"

definition db_map :: "'d pkgs \<Rightarrow> u8 list \<rightharpoonup> pkg_entry" where
  "db_map s = map_of (map (\<lambda>(a, e). (entry_name e, e)) (installed s))"

text \<open>Names end within their headers, no two entries have the same name, and the counter is exact.\<close>

definition db_ok :: "'d pkgs \<Rightarrow> bool" where
  "db_ok s \<longleftrightarrow> (\<forall>(a, e) \<in> set (installed s). 0 \<in> set (drop 20 (e_header e)))
     \<and> distinct (map (\<lambda>(a, e). entry_name e) (installed s)) \<and> total_installed s = of_nat (length (installed s))"

lemma name_is_entry:
  assumes "0 \<in> set (drop 20 (e_header e))" and "0 \<notin> set nm"
  shows "name_is (e_header e) nm \<longleftrightarrow> entry_name e = nm"
proof -
  let ?d = "drop 20 (e_header e)"
  show ?thesis
  proof
    assume "name_is (e_header e) nm"
    then have "?d = nm @ 0 # drop (length nm + 1) ?d"
      by (metis append_take_drop_id text_is_def append.assoc append_Cons append_Nil)
    then have "entry_name e = takeWhile (\<lambda>b. b \<noteq> 0) (nm @ 0 # drop (length nm + 1) ?d)" by (simp add: entry_name_def)
    also have "\<dots> = nm" using assms(2) by (subst takeWhile_append2) auto
    finally show "entry_name e = nm" .
  next
    assume n: "entry_name e = nm"
    obtain x ys where d: "dropWhile (\<lambda>b. b \<noteq> 0) ?d = x # ys" using assms(1) by (cases "dropWhile (\<lambda>b. b \<noteq> 0) ?d") auto
    then have "x = 0" by (metis (mono_tags) dropWhile_eq_Cons_conv)
    then have "?d = nm @ 0 # ys" using n d takeWhile_dropWhile_id [of "\<lambda>b. b \<noteq> 0" ?d] by (simp add: entry_name_def)
    then show "name_is (e_header e) nm" by (simp add: text_is_def)
  qed
qed

lemma entry_name_nonzero [simp]: "0 \<notin> set (entry_name e)"
  by (auto simp: entry_name_def dest: set_takeWhileD)

lemma unlink_entry_filter:
  assumes "\<forall>(a, e) \<in> set es. 0 \<in> set (drop 20 (e_header e))" and "distinct (map (\<lambda>(a, e). entry_name e) es)" and "0 \<notin> set nm"
  shows "case unlink_entry es nm of
      None \<Rightarrow> nm \<notin> set (map (\<lambda>(a, e). entry_name e) es)
    | Some (a, r) \<Rightarrow> r = filter (\<lambda>(a, e). entry_name e \<noteq> nm) es \<and> length es = Suc (length r)"
  using assms
proof (induction es)
  case Nil
  then show ?case by simp
next
  case (Cons x es)
  obtain a e where x: "x = (a, e)" by fastforce
  have n: "name_is (e_header e) nm \<longleftrightarrow> entry_name e = nm" using Cons.prems x by (intro name_is_entry) auto
  have keep: "filter (\<lambda>(a, e). entry_name e \<noteq> nm) es = es" if "nm \<notin> set (map (\<lambda>(a, e). entry_name e) es)"
    using that by (intro filter_True) force
  show ?case using Cons n keep by (auto simp: x split: option.splits)
qed

lemma db_remove_filter:
  assumes ok: "db_ok s" and nm: "0 \<notin> set nm"
  shows "installed (pkg_db_remove s nm) = filter (\<lambda>(a, e). entry_name e \<noteq> nm) (installed s)" "db_ok (pkg_db_remove s nm)"
proof -
  let ?es = "installed s"
  have d: "\<forall>(a, e) \<in> set ?es. 0 \<in> set (drop 20 (e_header e))" "distinct (map (\<lambda>(a, e). entry_name e) ?es)"
    using ok by (simp_all add: db_ok_def)
  note u = unlink_entry_filter [OF d nm]
  have dist: "distinct (map (\<lambda>(a, e). entry_name e) (filter P ?es))" for P using d(2) by (rule distinct_map_filter)
  show "installed (pkg_db_remove s nm) = filter (\<lambda>(a, e). entry_name e \<noteq> nm) ?es"
  proof (cases "unlink_entry ?es nm")
    case None
    with u have "\<forall>x \<in> set ?es. (\<lambda>(a, e). entry_name e \<noteq> nm) x" by auto
    with None show ?thesis by (simp add: pkg_db_remove_def)
  next
    case (Some y)
    with u show ?thesis by (auto simp: pkg_db_remove_def)
  qed
  then show "db_ok (pkg_db_remove s nm)"
    using ok u dist by (cases "unlink_entry ?es nm") (auto simp: db_ok_def pkg_db_remove_def)
qed

lemma map_of_names_filter:
  "map_of (map (\<lambda>(a, e). (f e, e)) (filter (\<lambda>(a, e). f e \<noteq> nm) es)) = (map_of (map (\<lambda>(a, e). (f e, e)) es))(nm := None)"
  by (induction es) (auto simp: fun_eq_iff)

lemma db_find_map:
  assumes "db_ok s" and "0 \<notin> set nm"
  shows "map_option snd (pkg_db_find s nm) = db_map s nm"
proof -
  have "map_option snd (find (\<lambda>(a, e). name_is (e_header e) nm) es) = map_of (map (\<lambda>(a, e). (entry_name e, e)) es) nm"
    if "\<forall>(a, e) \<in> set es. 0 \<in> set (drop 20 (e_header e))" for es
    using that by (induction es) (auto simp: name_is_entry assms(2))
  from this [of "installed s"] show ?thesis using assms(1) unfolding pkg_db_find_def db_map_def db_ok_def by blast
qed

text \<open>
  The list of installed packages implements a map from names to entries: finding is looking up, removing
  is deletion, and removing followed by adding, as an installation does, is an update.
\<close>

theorem db_refines_map:
  assumes ok: "db_ok s" and e: "0 \<in> set (drop 20 (e_header e))" and nm: "entry_name e = nm"
  shows "map_option snd (pkg_db_find s nm) = db_map s nm
    \<and> db_ok (pkg_db_remove s nm) \<and> db_map (pkg_db_remove s nm) = (db_map s)(nm := None)
    \<and> db_ok (pkg_db_add (pkg_db_remove s nm) (Some (a, e)))
    \<and> db_map (pkg_db_add (pkg_db_remove s nm) (Some (a, e))) = (db_map s)(nm \<mapsto> e)"
proof -
  have z: "0 \<notin> set nm" using nm by auto
  note r = db_remove_filter [OF ok z]
  have m: "db_map (pkg_db_remove s nm) = (db_map s)(nm := None)"
    unfolding db_map_def r(1) by (rule map_of_names_filter)
  have "nm \<notin> set (map (\<lambda>(a, e). entry_name e) (installed (pkg_db_remove s nm)))" unfolding r(1) by auto
  then have "db_ok (pkg_db_add (pkg_db_remove s nm) (Some (a, e)))"
    using r(2) e nm by (auto simp: db_ok_def pkg_db_add_def)
  moreover have "db_map (pkg_db_add (pkg_db_remove s nm) (Some (a, e))) = (db_map s)(nm \<mapsto> e)"
    using m nm by (auto simp: db_map_def pkg_db_add_def)
  ultimately show ?thesis using db_find_map [OF ok z] r(2) m by blast
qed

theorem db_refines_map_witness:
  "db_map (pkg_db_add (pkg_db_remove (demo_pkgs demo_vfs) [0x61]) (Some (0x1000, \<lparr>e_header = replicate 20 0 @ [0x61, 0], e_state = 1, e_repo = 0,
     e_path = [], e_time = 0, e_auto = 0\<rparr>))) [0x61] \<noteq> None"
proof -
  have "db_ok (demo_pkgs demo_vfs)" by (simp add: db_ok_def demo_pkgs_def)
  from db_refines_map [OF this, of "\<lparr>e_header = replicate 20 0 @ [0x61, 0], e_state = 1, e_repo = 0, e_path = [], e_time = 0, e_auto = 0\<rparr>" "[0x61]"]
  show ?thesis by (simp add: entry_name_def)
qed

end
