(* ===== verification/FileStream.thy ===== *)
theory FileStream
  imports Vfs
begin

text \<open>
  Files as streams of bytes: the interfaces for code that reads a file from front to back, or writes it by
  appending, and their implementation by the descriptors of vfs.c over CrimsonFS.
\<close>

section \<open>Interfaces\<close>

text \<open>What is left to read; every read takes its bytes from the front and says how many there were.\<close>

locale byte_source =
  fixes rd :: "'s \<Rightarrow> nat \<Rightarrow> 's \<times> int \<times> u8 list"
    and rest :: "'s \<Rightarrow> u8 list \<Rightarrow> bool"
  assumes take_front: "rest s bs \<Longrightarrow> n < 2 ^ 31 \<Longrightarrow>
    \<exists>s'. rd s n = (s', int (min n (length bs)), take n bs) \<and> rest s' (drop n bs)"
begin

lemma read_exact:
  assumes "rest s (xs @ ys)" and "length xs = n" and "n < 2 ^ 31"
  obtains s' where "rd s n = (s', int n, xs)" and "rest s' ys"
  using take_front [OF assms(1,3)] assms(2) by auto

lemma read_short:
  assumes "rest s bs" and "length bs < n" and "n < 2 ^ 31"
  obtains s' where "rd s n = (s', int (length bs), bs)" and "rest s' []"
  using take_front [OF assms(1,3)] assms(2) by auto

end

text \<open>What was written so far, and for how many more writes of up to a block there is room.\<close>

locale byte_sink =
  fixes wr :: "'s \<Rightarrow> u8 list \<Rightarrow> ('s \<times> int) option"
    and holds :: "'s \<Rightarrow> u8 list \<Rightarrow> nat \<Rightarrow> bool"
  assumes append: "holds s bs (Suc k) \<Longrightarrow> length data \<le> 4096 \<Longrightarrow>
    \<exists>s'. wr s data = Some (s', int (length data)) \<and> holds s' (bs @ data) k"

section \<open>Reading through a descriptor\<close>

lemma crfs_read_step:
  fixes s p
  defines "ino \<equiv> idisk (inodes s p)"
  assumes f: "faithful dev" and o: "opened s c p off" and mx: "unat (isize ino) \<le> 4096 * MAX_BLOCKS"
    and le: "off \<le> isize ino" and n: "n < 2 ^ 31"
  shows "\<exists>s'. crfs_read dev s now (int c) (of_nat n) = (s', int (min n (unat (isize ino - off))),
      map (byte_at dev s ino) [unat off..<unat off + min n (unat (isize ino - off))])
    \<and> opened s' c p (off + of_nat (min n (unat (isize ino - off)))) \<and> disk s' = disk s
    \<and> idisk (inodes s' p) = (idisk (inodes s p))\<lparr>atime := atime (idisk (inodes s' p))\<rparr>"
proof -
  let ?m = "min n (unat (isize ino - off))"
  have sub: "unat (isize ino - off) = unat (isize ino) - unat off" using le by (rule unat_sub)
  have leN: "unat off \<le> unat (isize ino)" using le by (simp add: word_le_nat_alt)
  have m63: "?m < 2 ^ 63" "n < 2 ^ 63" using n by auto
  have end_: "unat off + ?m \<le> unat (isize ino)" using sub leN by auto
  then have r: "snd (crfs_read dev s now (int c) (of_nat ?m)) = (int ?m, map (byte_at dev s ino) [unat off..<unat off + ?m])"
    unfolding ino_def by (intro crfs_read_ok [OF f o mx [unfolded ino_def]]) (simp add: ino_def)
  show ?thesis
  proof (cases "isize ino \<le> off")
    case True
    then have "?m = 0" using sub by (simp add: word_le_nat_alt)
    with True o show ?thesis by (auto simp: crfs_read_def opened_def ino_def)
  next
    case False
    have un: "unat (of_nat n :: u64) = n" using m63 by (simp add: unat_of_nat_small)
    have ov: "unat (off + of_nat n) = unat off + n"
      using n mx leN un by (subst unat_add_small) (simp_all add: MAX_BLOCKS_def)
    define cnt :: u64 where "cnt = (if isize ino < off + of_nat n then isize ino - off else of_nat n)"
    have cnt: "cnt = of_nat ?m"
      using ov sub un leN by (auto simp: cnt_def word_less_nat_alt min_def word_unat_eq_iff unat_of_nat_small)
    have cu: "unat cnt = ?m" using m63(1) by (simp add: cnt unat_of_nat_small)
    have si: "sint cnt = int ?m" using m63(1) by (simp add: cnt sint_of_nat_small)
    define m where "m = ?m"
    have loop: "read_loop dev s ino off m = map (byte_at dev s ino) [unat off..<unat off + m]"
      using mx end_ unfolding m_def by (intro read_loop_ok [OF f]) simp
    note facts = cnt [folded m_def] cu [folded m_def] si [folded m_def] loop
    show ?thesis
    proof (cases "isize ino < off + of_nat n")
      case True
      then have "isize ino - off = cnt" by (simp add: cnt_def)
      with True False o facts show ?thesis unfolding m_def [symmetric]
        by (simp add: crfs_read_def opened_def Let_def upd_idisk_def upd_inode_def flip: ino_def)
    next
      case le: False
      then have "of_nat n = cnt" by (simp add: cnt_def)
      with le False o facts show ?thesis unfolding m_def [symmetric]
        by (simp add: crfs_read_def opened_def Let_def upd_idisk_def upd_inode_def flip: ino_def)
    qed
  qed
qed

definition source_ok :: "'d block_device \<Rightarrow> int \<Rightarrow> 'd vfs \<Rightarrow> u8 list \<Rightarrow> bool" where
  "source_ok dev fd v bs \<longleftrightarrow> faithful dev \<and> vfs_initialized v \<and> valid_fd v fd \<and>
     (\<exists>c p off. crfs_fd v fd = int c \<and> opened (fs v) c p off \<and> off \<le> isize (idisk (inodes (fs v) p))
        \<and> unat (isize (idisk (inodes (fs v) p))) \<le> 4096 * MAX_BLOCKS
        \<and> bs = map (byte_at dev (fs v) (idisk (inodes (fs v) p))) [unat off..<unat (isize (idisk (inodes (fs v) p)))])"

lemma upd_offset_sel:
  "valid_fd (upd_fd v i (\<lambda>e. e\<lparr>offset := f e\<rparr>)) fd = valid_fd v fd"
  "crfs_fd (upd_fd v i (\<lambda>e. e\<lparr>offset := f e\<rparr>)) fd = crfs_fd v fd"
  "vfs_initialized (upd_fd v i g) = vfs_initialized v" "fs (upd_fd v i g) = fs v"
  by (auto simp: valid_fd_def crfs_fd_def upd_fd_def nth_list_update')

lemma take_upt_min: "take n [a..<b] = [a..<a + min n (b - a)]"
  by (cases "a + n \<le> b"; cases "a \<le> b") (auto simp: min_def)

lemma inode_atime_cong:
  assumes "disk s' = disk s" and "idisk (inodes s' p) = (idisk (inodes s p))\<lparr>atime := t\<rparr>"
  shows "isize (idisk (inodes s' p)) = isize (idisk (inodes s p))"
    "byte_at dev s' (idisk (inodes s' p)) k = byte_at dev s (idisk (inodes s p)) k"
  using assms by (auto intro!: pointers_cong(3))

interpretation fd_source: byte_source "\<lambda>v n. fs_read dev v now fd (of_nat n)" "source_ok dev fd" for dev now fd
proof unfold_locales
  fix v bs and n :: nat
  assume "source_ok dev fd v bs" and n: "n < 2 ^ 31"
  then obtain c p off where f: "faithful dev" and v: "vfs_initialized v" "valid_fd v fd" "crfs_fd v fd = int c"
    and o: "opened (fs v) c p off" "off \<le> isize (idisk (inodes (fs v) p))" "unat (isize (idisk (inodes (fs v) p))) \<le> 4096 * MAX_BLOCKS"
    and bs: "bs = map (byte_at dev (fs v) (idisk (inodes (fs v) p))) [unat off..<unat (isize (idisk (inodes (fs v) p)))]"
    unfolding source_ok_def by blast
  define sz where "sz = isize (idisk (inodes (fs v) p))"
  define m where "m = min n (unat (sz - off))"
  from crfs_read_step [OF f o(1,3,2) n, of now, folded sz_def, folded m_def] obtain s' where
    r: "crfs_read dev (fs v) now (int c) (of_nat n) = (s', int m, map (byte_at dev (fs v) (idisk (inodes (fs v) p))) [unat off..<unat off + m])"
    and o': "opened s' c p (off + of_nat m)" and d: "disk s' = disk (fs v)"
    "idisk (inodes s' p) = (idisk (inodes (fs v) p))\<lparr>atime := atime (idisk (inodes s' p))\<rparr>" by blast
  note same = inode_atime_cong [OF d]
  have len: "length bs = unat (sz - off)" "unat off \<le> unat sz" "unat off + m \<le> unat sz"
    using o(2) by (auto simp: bs sz_def m_def unat_sub word_le_nat_alt)
  then have m: "min n (length bs) = m" by (simp add: m_def)
  have tk: "map (byte_at dev (fs v) (idisk (inodes (fs v) p))) [unat off..<unat off + m] = take n bs"
    using len(1) by (simp add: bs take_map take_upt_min m_def flip: sz_def)
  have u: "unat (off + of_nat m) = unat off + m"
  proof (subst unat_add_small)
    have "m < 2 ^ 64" using n by (simp add: m_def)
    then have mu: "unat (of_nat m :: u64) = m" by (simp add: unat_of_nat_small)
    show "unat off + unat (of_nat m :: u64) < 2 ^ LENGTH(64)"
      using len(3) unat_u64_bound [of sz] by (simp add: mu)
    show "unat off + unat (of_nat m :: u64) = unat off + m" by (simp add: mu)
  qed
  define v' where "v' = (if 0 < int m then upd_fd (v\<lparr>fs := s'\<rparr>) (nat fd) (\<lambda>e. e\<lparr>offset := offset e + word_of_int (int m)\<rparr>) else v\<lparr>fs := s'\<rparr>)"
  have v': "vfs_initialized v'" "valid_fd v' fd" "crfs_fd v' fd = int c" "fs v' = s'"
    using v by (auto simp: v'_def upd_offset_sel) (auto simp: valid_fd_def crfs_fd_def)
  have rd: "fs_read dev v now fd (of_nat n) = (v', int m, take n bs)"
    using v r by (simp add: fs_read_def v'_def tk)
  have "drop n bs = map (byte_at dev s' (idisk (inodes s' p))) [unat off + m..<unat sz]"
    using len m by (auto simp: bs drop_map same sz_def [symmetric] m_def min_def unat_sub)
  then have "source_ok dev fd v' (drop n bs)"
    unfolding source_ok_def using f v' o' o(3) u len(3)
    by (intro conjI exI [of _ c] exI [of _ p] exI [of _ "off + of_nat m"]) (auto simp: same sz_def [symmetric] word_le_nat_alt)
  with rd m show "\<exists>s'. fs_read dev v now fd (of_nat n) = (s', int (min n (length bs)), take n bs) \<and> source_ok dev fd s' (drop n bs)"
    by auto
qed

section \<open>Writing through a descriptor\<close>

text \<open>
  The file of descriptor \<open>fd\<close> holds \<open>bs\<close>, with \<open>fd\<close> at its end, room for \<open>k\<close> more writes of up to a block, and
  a second descriptor of the file at its start.
\<close>

definition sink_ok :: "'d block_device \<Rightarrow> int \<Rightarrow> int \<Rightarrow> 'd vfs \<Rightarrow> u8 list \<Rightarrow> nat \<Rightarrow> bool" where
  "sink_ok dev fd fd2 v bs k \<longleftrightarrow> faithful dev \<and> vfs_initialized v \<and> valid_fd v fd \<and> valid_fd v fd2 \<and>
     (\<exists>c c2 p. crfs_fd v fd = int c \<and> crfs_fd v fd2 = int c2 \<and> c \<noteq> c2 \<and> opened (fs v) c p (of_nat (length bs)) \<and> opened (fs v) c2 p 0
        \<and> f_flags (files (fs v) ! c) AND (O_WRONLY OR O_RDWR) \<noteq> 0 \<and> file_ok dev (fs v) p
        \<and> isize (idisk (inodes (fs v) p)) = of_nat (length bs)
        \<and> map (byte_at dev (fs v) (idisk (inodes (fs v) p))) [0..<length bs] = bs
        \<and> 6 * k \<le> space (fs v) \<and> length bs + 4096 * k \<le> 4096 * MAX_BLOCKS)"

lemma sink_to_source:
  assumes "sink_ok dev fd fd2 v bs k"
  shows "source_ok dev fd2 v bs"
proof -
  from assms have "length bs \<le> 4096 * MAX_BLOCKS" by (auto simp: sink_ok_def)
  then have "unat (of_nat (length bs) :: u64) = length bs" by (simp add: unat_of_nat_small MAX_BLOCKS_def)
  with assms show ?thesis unfolding sink_ok_def source_ok_def by force
qed

lemma chunks_le2: "n \<le> 4096 \<Longrightarrow> chunks pos n \<le> 2"
proof -
  assume "n \<le> 4096"
  moreover have "pos mod 4096 < 4096" by simp
  ultimately have "pos mod 4096 + n + 4095 < 4096 * 3" by linarith
  then show ?thesis unfolding chunks_def by (simp add: less_mult_imp_div_less mult.commute less_Suc_eq_le [symmetric])
qed

interpretation fd_sink: byte_sink "\<lambda>v data. fs_write dev v now fd (Some data)" "sink_ok dev fd fd2" for dev now fd fd2
proof unfold_locales
  fix v bs k and data :: "u8 list"
  assume "sink_ok dev fd fd2 v bs (Suc k)" and l: "length data \<le> 4096"
  then obtain c c2 p where f: "faithful dev" and v: "vfs_initialized v" "valid_fd v fd" "valid_fd v fd2" "crfs_fd v fd = int c" "crfs_fd v fd2 = int c2" "c \<noteq> c2"
    and o: "opened (fs v) c p (of_nat (length bs))" "opened (fs v) c2 p 0"
    and w: "f_flags (files (fs v) ! c) AND (O_WRONLY OR O_RDWR) \<noteq> 0" and ok: "file_ok dev (fs v) p"
    and sz: "isize (idisk (inodes (fs v) p)) = of_nat (length bs)"
    and bs: "map (byte_at dev (fs v) (idisk (inodes (fs v) p))) [0..<length bs] = bs"
    and room: "6 * Suc k \<le> space (fs v)" "length bs + 4096 * Suc k \<le> 4096 * MAX_BLOCKS"
    unfolding sink_ok_def by blast
  let ?n = "length bs + length data"
  have nb: "?n \<le> 4096 * MAX_BLOCKS" "?n < 2 ^ 63" "length bs < 2 ^ 63" using room(2) l by (auto simp: MAX_BLOCKS_def)
  then have u: "unat (of_nat (length bs) :: u64) = length bs" by (simp add: unat_of_nat_small)
  have ch: "chunks (length bs) (length data) \<le> 2" by (rule chunks_le2 [OF l])
  from crfs_write_ok [OF f ok o(1) w, of data now, unfolded u] room ch nb obtain s' where
    s': "crfs_write dev (fs v) now (int c) data = Some (s', int (length data))" "file_ok dev s' p"
      "files s' = (files (fs v))[c := (files (fs v) ! c)\<lparr>f_offset := of_nat ?n\<rparr>]"
      "isize (idisk (inodes s' p)) = max (of_nat (length bs)) (of_nat ?n)" "space (fs v) \<le> space s' + 6"
    and b: "\<forall>j. j div 4096 < MAX_BLOCKS \<longrightarrow> byte_at dev s' (idisk (inodes s' p)) j =
        written (length bs) data (byte_at dev (fs v) (idisk (inodes (fs v) p))) j"
    by (auto simp: sz)
  have le: "(of_nat (length bs) :: u64) \<le> of_nat ?n" using nb by (simp add: word_le_nat_alt unat_of_nat_small del: of_nat_add)
  have o': "opened s' c p (of_nat ?n)" "opened s' c2 p 0" "f_flags (files s' ! c) = f_flags (files (fs v) ! c)"
    using o v(6) s'(3) by (auto simp: opened_def)
  have bytes: "map (byte_at dev s' (idisk (inodes s' p))) [0..<?n] = bs @ data"
  proof (rule nth_equalityI)
    fix i
    assume "i < length (map (byte_at dev s' (idisk (inodes s' p))) [0..<?n])"
    then have i: "i < ?n" by simp
    then have "i div 4096 < MAX_BLOCKS" using nb(1) by (simp add: div_less_iff_less_mult mult.commute)
    moreover have "bs ! j = byte_at dev (fs v) (idisk (inodes (fs v) p)) j" if "j < length bs" for j
      using that by (subst bs [symmetric]) simp
    ultimately show "map (byte_at dev s' (idisk (inodes s' p))) [0..<?n] ! i = (bs @ data) ! i"
      using b i by (auto simp: written_def lost_def nth_append)
  qed simp
  define v' where "v' = (if 0 < int (length data) then upd_fd (v\<lparr>fs := s'\<rparr>) (nat fd) (\<lambda>e. e\<lparr>offset := offset e + word_of_int (int (length data))\<rparr>) else v\<lparr>fs := s'\<rparr>)"
  have v': "vfs_initialized v'" "valid_fd v' fd" "valid_fd v' fd2" "crfs_fd v' fd = int c" "crfs_fd v' fd2 = int c2" "fs v' = s'"
    using v by (auto simp: v'_def upd_offset_sel) (auto simp: valid_fd_def crfs_fd_def)
  have "fs_write dev v now fd (Some data) = Some (v', int (length data))"
    using v s'(1) by (simp add: fs_write_def v'_def Let_def)
  moreover have "sink_ok dev fd fd2 v' (bs @ data) k"
    unfolding sink_ok_def using f v' v(6) o' w s'(2,4,5) le room l bytes
    by (intro conjI exI [of _ c] exI [of _ c2] exI [of _ p]) (auto simp: max_absorb2)
  ultimately show "\<exists>s'. fs_write dev v now fd (Some data) = Some (s', int (length data)) \<and> sink_ok dev fd fd2 s' (bs @ data) k"
    by blast
qed

end
