(* ===== verification/PkgStore.thy ===== *)
theory PkgStore
  imports PkgRules FileStream
begin

text \<open>
  Properties of the package manager: the database that is saved is loaded again, the entries stay live blocks
  of the heap, repositories are a list, versions are ordered; and that no package can be installed.
\<close>

section \<open>The database as a stream\<close>

definition serial :: "pkg_entry \<Rightarrow> u8 list" where
  "serial e = e_header e @ state_data e @ e_path e"

definition entry_good :: "pkg_entry \<Rightarrow> bool" where
  "entry_good e \<longleftrightarrow> length (e_header e) = HEADER_SIZE \<and> field (e_header e) 0 4 = CRIMSON_PKG_MAGIC
     \<and> length (e_path e) = 256 \<and> 0 \<in> set (e_path e)"

text \<open>What the database keeps of an entry.\<close>

definition same_entry :: "pkg_entry \<Rightarrow> pkg_entry \<Rightarrow> bool" where
  "same_entry e e' \<longleftrightarrow> e_header e = e_header e' \<and> e_state e = e_state e' \<and> e_repo e = e_repo e' \<and> e_time e = e_time e'
     \<and> text_at (e_path e) 0 = text_at (e_path e') 0"

lemma length_u32_bytes: "length (u32_bytes ws) = 4 * length ws"
  by (induction ws) (simp_all add: u32_bytes_def length_le)

lemma hdr_u32_state:
  assumes "st = u32_bytes [a, b, c, d]"
  shows "hdr_u32 st 0 = a" "hdr_u32 st 4 = b" "hdr_u32 st 8 = c" "hdr_u32 st 12 = d"
  by (simp_all add: assms hdr_u32_def field_def u32_bytes_def length_le unle_le32)

lemma join_halves: "push_bit 32 (ucast (ucast (drop_bit 32 t) :: u32)) OR ucast (ucast t :: u32) = (t :: u64)"
  by (rule bit_word_eqI) (auto simp: bit_simps)

lemma load_fields_same:
  assumes "st = state_data e" and "text_at p 0 = text_at (e_path e) 0"
  shows "same_entry (load_fields j (e_header e) st p) e"
  using hdr_u32_state [OF assms(1) [unfolded state_data_def]] assms(2) by (simp add: same_entry_def load_fields_def join_halves)

lemma text_at_strcpy:
  assumes "text_at bs 0 = Some t" and "length t < length old"
  obtains p where "strcpy_into old t = Some p" "text_at p 0 = Some t" "length p = length old" "0 \<in> set p"
proof -
  have "t = takeWhile (\<lambda>b. b \<noteq> 0) bs" using assms(1) by (simp add: text_at_def split: if_splits)
  then have "\<forall>b \<in> set t. b \<noteq> 0" by (auto dest: set_takeWhileD)
  then have "text_at (t @ [0] @ drop (length t + 1) old) 0 = Some t" by (simp add: text_at_def takeWhile_append2)
  with assms(2) that show ?thesis by (simp add: strcpy_into_def)
qed

lemma text_at_path:
  assumes "0 \<in> set bs" and "length bs = 256"
  obtains t where "text_at bs 0 = Some t" "length t < 256"
proof -
  have "length (takeWhile (\<lambda>b. b \<noteq> 0) bs) < length bs"
    using assms(1) by (metis (mono_tags) length_takeWhile_le nat_less_le takeWhile_eq_all_conv takeWhile_eq_take take_all order_refl)
  with that assms show ?thesis by (simp add: text_at_def)
qed

context byte_sink
begin

text \<open>Saving appends the entries, three writes each.\<close>

lemma save_appends:
  assumes "holds v bs (3 * length es + k)" and "\<forall>e \<in> set es. entry_good e"
  shows "\<exists>v'. save_loop wr v es = Some v' \<and> holds v' (bs @ concat (map serial es)) k"
  using assms
proof (induction es arbitrary: v bs)
  case Nil
  then show ?case by simp
next
  case (Cons e es)
  let ?k = "3 * length es + k"
  have g: "length (e_header e) \<le> 4096" "length (state_data e) \<le> 4096" "length (e_path e) \<le> 4096"
    using Cons.prems(2) by (auto simp: entry_good_def HEADER_SIZE_def state_data_def length_u32_bytes)
  have "3 * length (e # es) + k = Suc (Suc (Suc ?k))" by simp
  with Cons.prems(1) have "holds v bs (Suc (Suc (Suc ?k)))" by (simp only:)
  from append [OF this g(1)] obtain v1 where 1: "wr v (e_header e) = Some (v1, int (length (e_header e)))" "holds v1 (bs @ e_header e) (Suc (Suc ?k))" by blast
  from append [OF 1(2) g(2)] obtain v2 where 2: "wr v1 (state_data e) = Some (v2, int (length (state_data e)))" "holds v2 ((bs @ e_header e) @ state_data e) (Suc ?k)" by blast
  from append [OF 2(2) g(3)] obtain v3 where 3: "wr v2 (e_path e) = Some (v3, int (length (e_path e)))" "holds v3 (((bs @ e_header e) @ state_data e) @ e_path e) ?k" by blast
  from Cons.IH [OF 3(2)] Cons.prems(2) obtain v' where "save_loop wr v3 es = Some v'" "holds v' ((((bs @ e_header e) @ state_data e) @ e_path e) @ concat (map serial es)) k"
    by auto
  with 1(1) 2(1) 3(1) show ?case by (intro exI [of _ v']) (simp add: serial_def [of e])
qed

end

context byte_source
begin

text \<open>Loading reads the entries back and puts each before the ones it has, as long as the heap has blocks.\<close>

lemma load_reads:
  assumes "rest v (concat (map serial es))" and "\<forall>e \<in> set es. entry_good e"
    and "alloc_seq kmalloc (replicate (length es) ENTRY_SIZE) h = Some (h', ps)" and "length (e_path j) = 256"
  shows "\<exists>v' new. load_loop rd v h j acc = Some (v', h', new @ acc) \<and> map fst new = rev ps
    \<and> list_all2 same_entry (rev (map snd new)) (take (length ps) es) \<and> (\<forall>x \<in> set new. e_auto (snd x) = e_auto j)"
  using assms
proof (induction es arbitrary: v h j acc ps)
  case Nil
  then have r: "rest v []" and h: "h' = h" "ps = []" by simp_all
  from read_short [OF r, of HEADER_SIZE] obtain v' where "rd v HEADER_SIZE = (v', 0, [])" by (auto simp: HEADER_SIZE_def)
  then show ?case using h by (subst load_loop.simps) (simp add: HEADER_SIZE_def)
next
  case (Cons e es)
  have g: "length (e_header e) = HEADER_SIZE" "field (e_header e) 0 4 = CRIMSON_PKG_MAGIC" "length (e_path e) = 256" "0 \<in> set (e_path e)"
    using Cons.prems(2) by (simp_all add: entry_good_def)
  have st: "length (state_data e) = 16" by (simp add: state_data_def length_u32_bytes)
  have "rest v (e_header e @ state_data e @ e_path e @ concat (map serial es))" using Cons.prems(1) by (simp add: serial_def [of e])
  from read_exact [OF this g(1)] obtain v1 where 1: "rd v HEADER_SIZE = (v1, int HEADER_SIZE, e_header e)"
    "rest v1 (state_data e @ e_path e @ concat (map serial es))" by (auto simp: HEADER_SIZE_def)
  from read_exact [OF 1(2) st] obtain v2 where 2: "rd v1 16 = (v2, 16, state_data e)" "rest v2 (e_path e @ concat (map serial es))" by auto
  from read_exact [OF 2(2) g(3)] obtain v3 where 3: "rd v2 256 = (v3, 256, e_path e)" "rest v3 (concat (map serial es))" by auto
  from text_at_path [OF g(4,3)] obtain t where t: "text_at (e_path e) 0 = Some t" "length t < 256" by blast
  from text_at_strcpy [OF t(1), of "e_path j"] t(2) Cons.prems(4) obtain p where
    p: "strcpy_into (e_path j) t = Some p" "text_at p 0 = Some t" "length p = 256" by auto
  let ?e1 = "load_fields j (e_header e) (state_data e) p"
  from Cons.prems(3) obtain h1 a where k: "kmalloc h ENTRY_SIZE = Some (h1, a)" by (auto split: option.splits)
  have step: "load_loop rd v h j acc = (if a = 0 then Some (v3, h1, acc) else load_loop rd v3 h1 ?e1 ((a, ?e1) # acc))"
    using 1(1) 2(1) 3(1) g t(1) p(1) k by (subst load_loop.simps) (simp add: Let_def)
  show ?case
  proof (cases "a = 0")
    case True
    then show ?thesis using Cons.prems(3) k step by (intro exI [of _ v3] exI [of _ "[]"]) simp
  next
    case False
    with Cons.prems(3) k obtain qs where qs: "alloc_seq kmalloc (replicate (length es) ENTRY_SIZE) h1 = Some (h', qs)" "ps = a # qs"
      by (auto split: option.splits)
    have j: "length (e_path ?e1) = 256" "e_auto ?e1 = e_auto j" using p(3) by (simp_all add: load_fields_def)
    from Cons.IH [OF 3(2) _ qs(1) j(1), of "(a, ?e1) # acc"] Cons.prems(2) obtain v' new where
      n: "load_loop rd v3 h1 ?e1 ((a, ?e1) # acc) = Some (v', h', new @ (a, ?e1) # acc)" "map fst new = rev qs"
        "list_all2 same_entry (rev (map snd new)) (take (length qs) es)" "\<forall>x \<in> set new. e_auto (snd x) = e_auto j"
      using j(2) by auto
    have "same_entry ?e1 e" by (rule load_fields_same) (simp_all add: p t)
    with n step False qs(2) j(2) show ?thesis
      by (intro exI [of _ v'] exI [of _ "new @ [(a, ?e1)]"]) simp
  qed
qed

end

context block_source
begin

text \<open>A series of allocations stops early only because one fails.\<close>

lemma alloc_seq_short:
  assumes "inv s" and "\<forall>n \<in> set ns. admissible s n" and "alloc_seq alloc ns s = Some (s', ps)"
  shows "length ps \<le> length ns \<and> (length ps < length ns \<longrightarrow> (\<exists>s0. inv s0 \<and> alloc s0 (ns ! length ps) = Some (s', 0)))"
  using assms
proof (induction ns arbitrary: s ps)
  case Nil
  then show ?case by simp
next
  case (Cons n ns)
  from alloc_returns [OF Cons.prems(1), of n] Cons.prems(2) obtain s1 p
    where s1: "alloc s n = Some (s1, p)" "inv s1" "admissible s1 = admissible s" by auto
  show ?case
  proof (cases "p = 0")
    case True
    with s1 Cons.prems(1,3) show ?thesis by auto
  next
    case False
    with s1(1) Cons.prems(3) obtain qs where "alloc_seq alloc ns s1 = Some (s', qs)" "ps = p # qs" by (auto split: option.splits)
    with Cons.IH [OF s1(2)] Cons.prems(2) s1(3) show ?thesis by auto
  qed
qed

end

text \<open>
  C8: The database survives: entries saved to an empty file, of which a second descriptor stands at the start, are
  all written, and loading through that descriptor returns the list reversed with every header, state,
  repository, time and path as it was, each entry in a block of its own, as far as the heap has
  blocks for them.  The setting for automatic updates is not stored: every entry gets what the local variable of
  the loader happened to hold.
\<close>

theorem db_save_load:
  assumes sink: "sink_ok dev fd fd2 v [] (3 * length es)" and good: "\<forall>e \<in> set es. entry_good e"
    and heap: "heap_inv h" "request_ok h ENTRY_SIZE" and stack: "length (e_path j) = 256"
  shows "\<exists>v1 v2 h' new. save_loop (\<lambda>v bs. fs_write dev v now fd (Some bs)) v es = Some v1
    \<and> load_loop (\<lambda>v n. fs_read dev v now' fd2 (of_nat n)) v1 h j [] = Some (v2, h', new)
    \<and> list_all2 same_entry (rev (map snd new)) (take (length new) es)
    \<and> (length new < length es \<longrightarrow> (\<exists>h0. heap_inv h0 \<and> kmalloc h0 ENTRY_SIZE = Some (h', 0)))
    \<and> distinct (map fst new) \<and> fst ` set new \<inter> heap_live h = {} \<and> heap_inv h' \<and> heap_live h' = heap_live h \<union> fst ` set new
    \<and> (\<forall>x \<in> set new. e_auto (snd x) = e_auto j)"
proof -
  have all: "\<forall>n \<in> set (replicate (length es) ENTRY_SIZE). request_ok h n" using heap(2) by simp
  from fd_sink.save_appends [of dev fd fd2 v "[]" es 0 now] sink good obtain v1 where
    v1: "save_loop (\<lambda>v bs. fs_write dev v now fd (Some bs)) v es = Some v1" "sink_ok dev fd fd2 v1 (concat (map serial es)) 0"
    by auto
  from blocks.alloc_seq_blocks [OF heap(1) all] obtain h' ps where
    h: "alloc_seq kmalloc (replicate (length es) ENTRY_SIZE) h = Some (h', ps)" "heap_inv h'" "distinct ps"
      "set ps \<inter> heap_live h = {}" "heap_live h' = heap_live h \<union> set ps" by blast
  from fd_source.load_reads [OF sink_to_source [OF v1(2)] good h(1) stack, of now' "[]"] obtain v2 new where
    n: "load_loop (\<lambda>v n. fs_read dev v now' fd2 (of_nat n)) v1 h j [] = Some (v2, h', new)" "map fst new = rev ps"
      "list_all2 same_entry (rev (map snd new)) (take (length ps) es)" "\<forall>x \<in> set new. e_auto (snd x) = e_auto j" by auto
  have len: "length new = length ps" and ps: "fst ` set new = set ps" "distinct (map fst new)"
    using n(2) h(3) by (metis length_map length_rev) (metis list.set_map n(2) set_rev, simp add: n(2) h(3))
  from blocks.alloc_seq_short [OF heap(1) all h(1)] have
    "length ps < length es \<longrightarrow> (\<exists>h0. heap_inv h0 \<and> kmalloc h0 ENTRY_SIZE = Some (h', 0))" by auto
  with v1(1) n h len ps show ?thesis by auto
qed

definition demo_db_vfs :: "(nat \<Rightarrow> u8) vfs" where
  "demo_db_vfs = \<lparr>fd_table = map (\<lambda>i. \<lparr>valid = True, fd_no = i, flags = FS_O_RDWR, offset = 0, node = of_nat (i - 3)\<rparr>) [0..<256],
     vfs_initialized = True, fs = demo_fs\<rparr>"

lemma demo_sink: "sink_ok (ram_disk (16 * CRFS_SEG_SIZE)) 3 4 demo_db_vfs [] 6"
proof -
  have v: "valid_fd demo_db_vfs 3" "valid_fd demo_db_vfs 4" "crfs_fd demo_db_vfs 3 = int 0" "crfs_fd demo_db_vfs 4 = int 1"
    by (simp_all add: valid_fd_def crfs_fd_def demo_db_vfs_def FS_MAX_OPEN_def)
  have "6 * 6 \<le> space demo_fs" by (simp add: space_def free_list_def demo_fs_def seg_used_def)
  moreover have "f_flags (files demo_fs ! 0) AND (O_WRONLY OR O_RDWR) \<noteq> 0" by (simp add: demo_fs_def O_WRONLY_def O_RDWR_def)
  moreover have "isize (idisk (inodes demo_fs 0)) = 0" by (simp add: demo_fs_def zero_inode_def)
  ultimately show ?thesis
    unfolding sink_ok_def using v demo_fs_ok(1-3) ram_disk_faithful
    by (intro conjI exI [of _ 0] exI [of _ 1] exI [of _ 0]) (simp_all add: demo_db_vfs_def MAX_BLOCKS_def)
qed

definition demo_entry :: "u8 \<Rightarrow> pkg_entry" where
  "demo_entry c = \<lparr>e_header = le 4 CRIMSON_PKG_MAGIC @ replicate 16 0 @ c # replicate 2003 0, e_state = 1, e_repo = 0xFFFFFFFF,
     e_path = ascii ''/apps/'' @ c # replicate 249 0, e_time = 0x100000002, e_auto = 1\<rparr>"

lemma demo_entry_good: "entry_good (demo_entry c)"
  by (simp add: entry_good_def demo_entry_def HEADER_SIZE_def field_def ascii_def unle_le CRIMSON_PKG_MAGIC_def del: le.simps)

theorem db_save_load_witness:
  "\<exists>v1 v2 h' new. save_loop (\<lambda>v bs. fs_write (ram_disk (16 * CRFS_SEG_SIZE)) v 5 3 (Some bs)) demo_db_vfs [demo_entry 0x61, demo_entry 0x62] = Some v1
    \<and> load_loop (\<lambda>v n. fs_read (ram_disk (16 * CRFS_SEG_SIZE)) v 6 4 (of_nat n)) v1 small_heap (demo_entry 0) [] = Some (v2, h', new)
    \<and> list_all2 same_entry (rev (map snd new)) (take (length new) [demo_entry 0x61, demo_entry 0x62])"
proof -
  have h: "heap_inv small_heap" using small_heap_ok by (auto simp: heap_inv_def)
  have r: "request_ok small_heap ENTRY_SIZE"
    using small_pmm_inv(2)
    by (simp add: request_ok_def room_for_def pages_for_def ALIGN_UP_def HEADER_def PAGE_SIZE_def ENTRY_SIZE_def)
      (simp add: small_heap_def take_page_def)
  have k: "sink_ok (ram_disk (16 * CRFS_SEG_SIZE)) 3 4 demo_db_vfs [] (3 * length [demo_entry 0x61, demo_entry 0x62])" using demo_sink by simp
  have g: "\<forall>e \<in> set [demo_entry 0x61, demo_entry 0x62]. entry_good e" using demo_entry_good by simp
  have p: "length (e_path (demo_entry 0)) = 256" by (simp add: demo_entry_def ascii_def)
  from db_save_load [OF k g h r p, of 5 6] show ?thesis by (elim exE conjE) (intro exI conjI)
qed

section \<open>Nothing can be installed\<close>

text \<open>
  \<open>fs_fstat\<close> reports every file as empty, \<open>kmalloc\<close> refuses a request for no bytes, and so the check of the hash
  fails for every package.
\<close>

definition only_files :: "'d pkgs \<Rightarrow> 'd pkgs \<Rightarrow> bool" where
  "only_files s s' \<longleftrightarrow> (\<exists>v. s' = s\<lparr>vf := v\<rparr>)"

lemma only_files_simps [simp]: "only_files s s" "only_files s (s\<lparr>vf := v\<rparr>)" "only_files (s\<lparr>vf := v\<rparr>) s' \<longleftrightarrow> only_files s s'"
  by (auto simp: only_files_def intro: exI [of _ "vf s"])

lemma only_files_trans: "only_files s t \<Longrightarrow> only_files t u \<Longrightarrow> only_files s u"
  by (auto simp: only_files_def)

lemma hash_file_fails:
  assumes "hash_file w s path = Some (s1, r)"
  shows "r = None \<and> only_files s s1"
proof -
  have k: "kmalloc h 0 = Some (h, 0)" for h by (simp add: kmalloc.simps)
  have "s\<lparr>vf := v, hp := hp s\<rparr> = s\<lparr>vf := v\<rparr>" for v by simp
  with assms show ?thesis
    by (auto simp: hash_file_def fs_fstat_def zero_stat_def Let_def k split: option.splits prod.splits if_splits)
qed

lemma verify_hash_fails:
  assumes "pkg_verify_hash w s path hdr = Some (s1, r)"
  shows "r = - 1 \<and> only_files s s1"
  using assms hash_file_fails [of w s path] by (auto simp: pkg_verify_hash_def split: option.splits if_splits)

lemma verify_signature_files:
  assumes "pkg_verify_signature w s path hdr = Some (s1, r)"
  shows "only_files s s1"
  using assms hash_file_fails [of w s path] by (auto simp: pkg_verify_signature_def split: option.splits if_splits)

lemma install_checked_fails:
  assumes "install_checked w s path hdr nm ex = Some (s1, r)"
  shows "r = - 1 \<and> only_files s s1"
proof -
  from assms obtain s2 r2 where v: "pkg_verify_signature w s path hdr = Some (s2, r2)" by (auto simp: install_checked_def split: option.splits)
  note f = verify_signature_files [OF v]
  show ?thesis
  proof (cases "pkg_verify_hash w s2 path hdr")
    case None
    with assms v f show ?thesis by (auto simp: install_checked_def split: if_splits)
  next
    case (Some x)
    then obtain s3 r3 where x: "pkg_verify_hash w s2 path hdr = Some (s3, r3)" by (cases x) simp
    with assms v f verify_hash_fails [OF x] only_files_trans show ?thesis by (auto simp: install_checked_def split: if_splits)
  qed
qed

lemma install_fails:
  assumes "pkg_install w s path = Some (s1, r)"
  shows "r = - 1 \<and> only_files s s1"
  using assms install_checked_fails
  by (fastforce simp: pkg_install_def Let_def split: option.splits if_splits prod.splits)

lemma search_fails:
  assumes "search_cache w s path is' = Some (s1, r)"
  shows "r = - 1 \<and> only_files s s1"
  using assms install_fails
  by (induction w s path is' rule: search_cache.induct) (fastforce split: option.splits if_splits prod.splits)+

text \<open>
  C38: No call installs or upgrades a package: installing a file, upgrading a package and installing from the
  repositories return -1 whatever the file holds and however it is signed, and neither the list of
  installed packages nor the heap changes.
\<close>

theorem nothing_installs:
  assumes "pkg_install w s path = Some (s1, r) \<or> pkg_upgrade w s path = Some (s1, r)
    \<or> (\<exists>nm. path = Some nm \<and> pkg_install_from_repo w s nm = Some (s1, r))"
  shows "r = - 1 \<and> (\<exists>v. s1 = s\<lparr>vf := v\<rparr>)"
proof -
  have "r = - 1 \<and> only_files s s1" if "pkg_upgrade w s path = Some (s1, r)"
    using that by (auto simp: pkg_upgrade_def split: option.splits if_splits dest: install_fails)
  with assms show ?thesis
    unfolding only_files_def [symmetric] by (auto simp: pkg_install_from_repo_def dest: install_fails search_fails)
qed

text \<open>Opening a file for reading always returns, and so does the check of its hash.\<close>

lemma rdonly_flags: "crfs_flags FS_O_RDONLY AND O_CREAT = 0"
  by (simp add: crfs_flags_def FS_O_RDONLY_def)

lemma crfs_open_returns:
  assumes "fl AND O_CREAT = 0"
  shows "crfs_open dev s path fl md us now \<noteq> None"
  using assms by (auto simp: crfs_open_def split: option.splits prod.splits)

lemma hash_file_returns: "hash_file w s path \<noteq> None"
proof -
  have "fs_open (device w) (vf s) path FS_O_RDONLY (clock_us w) (clock_ms w) \<noteq> None"
    by (auto simp: fs_open_def crfs_open_returns [OF rdonly_flags] split: option.splits prod.splits)
  moreover have k: "kmalloc h 0 = Some (h, 0)" for h by (simp add: kmalloc.simps)
  ultimately show ?thesis
    by (auto simp: hash_file_def fs_fstat_def zero_stat_def Let_def k split: option.splits prod.splits)
qed

text \<open>A device with a directory block at 0x1000 and a package file everywhere else.\<close>

definition demo_dir :: "u8 list" where
  "demo_dir = fill_entry (replicate 4096 0) 0 [0x61] 5 1"

definition demo_package :: "u8 list" where
  "demo_package = le 4 CRIMSON_PKG_MAGIC @ le 4 1 @ replicate 4088 0"

definition demo_device :: "unit block_device" where
  "demo_device = \<lparr>dev_size = 0x100000, dev_read = (\<lambda>d a n. if a = 0x1000 then demo_dir else demo_package),
     dev_write = (\<lambda>d a bs. d), dev_flush = (\<lambda>d. d)\<rparr>"

definition demo_pkg_fs :: "unit crfs" where
  "demo_pkg_fs = \<lparr>sb = zero_sb, mounted = True, disk = (), inode_cache = (\<lambda>h. if h = 1 then [0] else if h = 5 then [1] else []),
     inodes = (\<lambda>p. if p = 0 then \<lparr>i_no = 1, ref_count = 1, dirty = False, idisk = zero_inode\<lparr>blocks := 1, direct := 0x1000 # replicate 11 0\<rparr>\<rparr>
        else \<lparr>i_no = 5, ref_count = 1, dirty = False, idisk = zero_inode\<lparr>isize := 2024, direct := 0x2000 # replicate 11 0\<rparr>\<rparr>), n_inodes = 2,
     files = replicate 1024 \<lparr>in_use = False, f_flags = 0, f_offset = 0, f_inode = None\<rparr>, seg_bitmap = [],
     next_seg = 0, cleaner_seg = 0, read_bytes = 0, write_bytes = 0, read_ops = 0, write_ops = 0, block_in_seg = 0,
     current_seg = 0, room = 0\<rparr>"

lemma demo_lookup: "lookup_block demo_dir [0x61] 0 = Some 5"
  using dir_block_one_entry [of "[0x61]" 5 1 "[]"] by (simp add: demo_dir_def)

lemma demo_open:
  "\<exists>s'. crfs_open demo_device demo_pkg_fs [0x61] fl md us now = Some (s', 0) \<and> opened s' 0 1 0 \<and> idisk (inodes s' 1) = idisk (inodes demo_pkg_fs 1)"
  if "fl AND O_CREAT = 0" "fl AND O_APPEND = 0" "fl AND O_TRUNC = 0"
proof -
  have w: "walk dev s p [0x61] = (s, Some (p, [0x61]))" for dev p and s :: "unit crfs" by (subst walk.simps) simp
  have free: "first_slot (\<lambda>i. \<not> in_use ((replicate 1024 \<lparr>in_use = False, f_flags = 0, f_offset = 0, f_inode = None\<rparr> :: crfs_file list) ! i)) 0 1024 = Some 0"
    by (intro first_slot_eqI) simp_all
  show ?thesis
    using that free
    by (simp add: crfs_open_def demo_pkg_fs_def crfs_iget_def CRFS_ROOT_INO_def w crfs_dir_lookup_def crfs_inode_get_block_def
       CRFS_INDIRECT_BASE_def upd_inode_def crfs_read_block_def demo_device_def demo_lookup open_inode_def crfs_iput_def Let_def opened_def CRFS_MAX_OPEN_def)
qed

lemma demo_read:
  assumes "opened s 0 1 0" and "idisk (inodes s 1) = idisk (inodes demo_pkg_fs 1)"
  shows "snd (crfs_read demo_device s now 0 4096) = (2024, take 2024 demo_package)"
proof -
  have i: "isize (idisk (inodes s 1)) = 2024" "direct (idisk (inodes s 1)) = 0x2000 # replicate 11 0"
    unfolding assms(2) by (simp_all add: demo_pkg_fs_def)
  have "read_loop demo_device s (idisk (inodes s 1)) 0 2024 = take 2024 demo_package"
    by (subst read_loop.simps)
      (simp add: read_loop.simps [of _ _ _ _ 0] i crfs_inode_get_block_def CRFS_INDIRECT_BASE_def CRFS_BLOCK_SIZE_def crfs_read_block_def
        demo_device_def Let_def del: One_nat_def)
  then show ?thesis using assms(1) i by (simp add: crfs_read_def opened_def Let_def del: One_nat_def)
qed

definition demo_pkg_vfs :: "unit vfs" where
  "demo_pkg_vfs = \<lparr>fd_table = map (\<lambda>i. \<lparr>valid = False, fd_no = i, flags = 0, offset = 0, node = 0\<rparr>) [0..<256], vfs_initialized = True, fs = demo_pkg_fs\<rparr>"

definition demo_host :: "unit host" where
  "demo_host = \<lparr>device = demo_device, clock_us = 1, clock_ms = 2\<rparr>"

lemma demo_header: "\<exists>v. pkg_read_header demo_host demo_pkg_vfs (Some [0x61]) = Some (v, Some (take 2024 demo_package))"
proof -
  have "first_slot (\<lambda>i. \<not> valid (fd_table demo_pkg_vfs ! i)) 3 (FS_MAX_OPEN - 3) = Some 3"
    by (intro first_slot_eqI) (simp_all add: demo_pkg_vfs_def FS_MAX_OPEN_def)
  then have a: "alloc_fd demo_pkg_vfs = (upd_fd demo_pkg_vfs 3 (\<lambda>e. e\<lparr>valid := True, offset := 0\<rparr>), 3)" by (simp add: alloc_fd_def)
  have fl: "crfs_flags FS_O_RDONLY AND O_APPEND = 0" "crfs_flags FS_O_RDONLY AND O_TRUNC = 0" by (simp_all add: crfs_flags_def FS_O_RDONLY_def)
  from demo_open [OF rdonly_flags fl, of 420 1 2] obtain s' where
    o: "crfs_open demo_device demo_pkg_fs [0x61] (crfs_flags FS_O_RDONLY) 420 1 2 = Some (s', 0)" "opened s' 0 1 0"
      "idisk (inodes s' 1) = idisk (inodes demo_pkg_fs 1)" by blast
  let ?v = "upd_fd ((upd_fd demo_pkg_vfs 3 (\<lambda>e. e\<lparr>valid := True, offset := 0\<rparr>))\<lparr>fs := s'\<rparr>) 3 (\<lambda>e. e\<lparr>flags := FS_O_RDONLY, offset := 0, node := 0\<rparr>)"
  have op: "fs_open demo_device demo_pkg_vfs (Some [0x61]) FS_O_RDONLY 1 2 = Some (?v, 3)"
    using a o(1) by (simp add: fs_open_def upd_fd_def demo_pkg_vfs_def)
  have v: "vfs_initialized ?v" "valid_fd ?v 3" "crfs_fd ?v 3 = 0" "fs ?v = s'"
    by (simp_all add: valid_fd_def crfs_fd_def upd_fd_def demo_pkg_vfs_def FS_MAX_OPEN_def)
  obtain v2 where rd: "fs_read demo_device ?v 2 3 4096 = (v2, 2024, take 2024 demo_package)"
    using demo_read [OF o(2,3), of 2] v by (cases "crfs_read demo_device s' 2 0 4096") (auto simp: fs_read_def)
  have "field (take 2024 demo_package) 0 4 = CRIMSON_PKG_MAGIC" "field (take 2024 demo_package) 4 4 = 1"
    by (simp_all add: demo_package_def field_def unle_le CRIMSON_PKG_MAGIC_def del: le.simps)
  then show ?thesis using op rd by (simp add: pkg_read_header_def demo_host_def HEADER_SIZE_def Let_def)
qed

text \<open>A package file with a valid header, unsigned, of a package that is not installed.\<close>

theorem nothing_installs_witness:
  "(\<exists>v. pkg_read_header demo_host demo_pkg_vfs (Some [0x61]) = Some (v, Some (take 2024 demo_package)))
    \<and> (\<exists>s1. pkg_install demo_host (demo_pkgs demo_pkg_vfs) (Some [0x61]) = Some (s1, - 1))"
proof
  show h: "\<exists>v. pkg_read_header demo_host demo_pkg_vfs (Some [0x61]) = Some (v, Some (take 2024 demo_package))" by (rule demo_header)
  let ?h = "take 2024 demo_package"
  have t: "text_at ?h 20 = Some []" "text_at ?h 148 = Some []" "hdr_sig_type ?h = 0"
    by (simp_all add: demo_package_def text_at_def hdr_u32_def field_def take_replicate del: le.simps)
  from h obtain v where v: "pkg_read_header demo_host demo_pkg_vfs (Some [0x61]) = Some (v, Some ?h)" by blast
  obtain s2 where "hash_file demo_host (demo_pkgs v) (Some [0x61]) = Some (s2, None)"
    using hash_file_returns [of demo_host "demo_pkgs v" "Some [0x61]"] hash_file_fails [of demo_host "demo_pkgs v" "Some [0x61]"] by fastforce
  then have "pkg_install demo_host (demo_pkgs demo_pkg_vfs) (Some [0x61]) \<noteq> None"
    using v t by (auto simp: demo_pkgs_def pkg_install_def Let_def pkg_db_find_def install_checked_def
      pkg_verify_signature_def pkg_verify_hash_def split: option.splits)
  then obtain s1 r where "pkg_install demo_host (demo_pkgs demo_pkg_vfs) (Some [0x61]) = Some (s1, r)" by auto
  with nothing_installs [of demo_host "demo_pkgs demo_pkg_vfs" "Some [0x61]" s1 r]
  show "\<exists>s1. pkg_install demo_host (demo_pkgs demo_pkg_vfs) (Some [0x61]) = Some (s1, - 1)" by auto
qed

end
