(* ===== verification/AesBlock.thy ===== *)
theory AesBlock
  imports Prelude
begin

text \<open>
  The AES-256 block cipher of crypto_stub.c: the S-box and the round constants, the key expansion
  \<open>aes256_key_expand\<close>, and \<open>aes256_encrypt_block\<close>, whose inline assembly is read
  instruction by instruction: a vector register is its list of 16 bytes, \<open>aese\<close> and \<open>aesmc\<close>
  are the two ARMv8 instructions as their comment in the source states them, \<open>xor_bytes\<close> is
  \<open>eor\<close>.  The lemmas show the shape of the key schedule, that every round is a permutation of the
  blocks, so that under any key two different blocks are never encrypted to the same block, and
  that the code computes the AES-256 of FIPS 197 on the example vector of that standard.
\<close>

section \<open>Tables\<close>

definition aes_sbox :: "u8 list" where
  "aes_sbox = [
    0x63, 0x7c, 0x77, 0x7b, 0xf2, 0x6b, 0x6f, 0xc5, 0x30, 0x01, 0x67, 0x2b, 0xfe, 0xd7, 0xab, 0x76,
    0xca, 0x82, 0xc9, 0x7d, 0xfa, 0x59, 0x47, 0xf0, 0xad, 0xd4, 0xa2, 0xaf, 0x9c, 0xa4, 0x72, 0xc0,
    0xb7, 0xfd, 0x93, 0x26, 0x36, 0x3f, 0xf7, 0xcc, 0x34, 0xa5, 0xe5, 0xf1, 0x71, 0xd8, 0x31, 0x15,
    0x04, 0xc7, 0x23, 0xc3, 0x18, 0x96, 0x05, 0x9a, 0x07, 0x12, 0x80, 0xe2, 0xeb, 0x27, 0xb2, 0x75,
    0x09, 0x83, 0x2c, 0x1a, 0x1b, 0x6e, 0x5a, 0xa0, 0x52, 0x3b, 0xd6, 0xb3, 0x29, 0xe3, 0x2f, 0x84,
    0x53, 0xd1, 0x00, 0xed, 0x20, 0xfc, 0xb1, 0x5b, 0x6a, 0xcb, 0xbe, 0x39, 0x4a, 0x4c, 0x58, 0xcf,
    0xd0, 0xef, 0xaa, 0xfb, 0x43, 0x4d, 0x33, 0x85, 0x45, 0xf9, 0x02, 0x7f, 0x50, 0x3c, 0x9f, 0xa8,
    0x51, 0xa3, 0x40, 0x8f, 0x92, 0x9d, 0x38, 0xf5, 0xbc, 0xb6, 0xda, 0x21, 0x10, 0xff, 0xf3, 0xd2,
    0xcd, 0x0c, 0x13, 0xec, 0x5f, 0x97, 0x44, 0x17, 0xc4, 0xa7, 0x7e, 0x3d, 0x64, 0x5d, 0x19, 0x73,
    0x60, 0x81, 0x4f, 0xdc, 0x22, 0x2a, 0x90, 0x88, 0x46, 0xee, 0xb8, 0x14, 0xde, 0x5e, 0x0b, 0xdb,
    0xe0, 0x32, 0x3a, 0x0a, 0x49, 0x06, 0x24, 0x5c, 0xc2, 0xd3, 0xac, 0x62, 0x91, 0x95, 0xe4, 0x79,
    0xe7, 0xc8, 0x37, 0x6d, 0x8d, 0xd5, 0x4e, 0xa9, 0x6c, 0x56, 0xf4, 0xea, 0x65, 0x7a, 0xae, 0x08,
    0xba, 0x78, 0x25, 0x2e, 0x1c, 0xa6, 0xb4, 0xc6, 0xe8, 0xdd, 0x74, 0x1f, 0x4b, 0xbd, 0x8b, 0x8a,
    0x70, 0x3e, 0xb5, 0x66, 0x48, 0x03, 0xf6, 0x0e, 0x61, 0x35, 0x57, 0xb9, 0x86, 0xc1, 0x1d, 0x9e,
    0xe1, 0xf8, 0x98, 0x11, 0x69, 0xd9, 0x8e, 0x94, 0x9b, 0x1e, 0x87, 0xe9, 0xce, 0x55, 0x28, 0xdf,
    0x8c, 0xa1, 0x89, 0x0d, 0xbf, 0xe6, 0x42, 0x68, 0x41, 0x99, 0x2d, 0x0f, 0xb0, 0x54, 0xbb, 0x16]"

definition aes_rcon :: "u8 list" where
  "aes_rcon = [0x01, 0x02, 0x04, 0x08, 0x10, 0x20, 0x40]"

definition sub_byte :: "u8 \<Rightarrow> u8" where
  "sub_byte b = aes_sbox ! unat b"

section \<open>The key schedule\<close>

text \<open>\<open>xor_bytes\<close> is the byte-wise exclusive or of two blocks of the same length.\<close>

definition xor_bytes :: "u8 list \<Rightarrow> u8 list \<Rightarrow> u8 list" where
  "xor_bytes a b = map2 (XOR) a b"

text \<open>
  The body of the loop over \<open>i = 8 .. 59\<close>: the table \<open>w\<close> holds the words \<open>0 .. i - 1\<close>, and the
  new word \<open>w[i]\<close> is appended.
\<close>

definition next_word :: "u8 list list \<Rightarrow> nat \<Rightarrow> u8 list" where
  "next_word w i =
     (let t = w ! (i - 1);
          t = (if i mod 8 = 0 then
                 (let t = map sub_byte [t ! 1, t ! 2, t ! 3, t ! 0]
                  in t[0 := t ! 0 XOR aes_rcon ! (i div 8 - 1)])
               else if i mod 8 = 4 then map sub_byte t
               else t)
      in xor_bytes (w ! (i - 8)) t)"

definition expand_step :: "nat \<Rightarrow> u8 list list \<Rightarrow> u8 list list" where
  "expand_step i w = w @ [next_word w i]"

definition first_words :: "u8 list \<Rightarrow> u8 list list" where
  "first_words key = map (\<lambda>i. [key ! (4 * i), key ! (4 * i + 1), key ! (4 * i + 2), key ! (4 * i + 3)]) [0..<8]"

definition key_words :: "u8 list \<Rightarrow> u8 list list" where
  "key_words key = fold expand_step [8..<60] (first_words key)"

definition aes256_key_expand :: "u8 list \<Rightarrow> u8 list list" where
  "aes256_key_expand key =
     (let w = key_words key
      in map (\<lambda>i. concat (map (\<lambda>j. w ! (i * 4 + j)) [0..<4])) [0..<15])"

section \<open>One block\<close>

text \<open>
  The state is stored by columns, byte \<open>4 * c + r\<close> is row \<open>r\<close> of column \<open>c\<close>; ShiftRows takes the
  byte of row \<open>r\<close> from the column \<open>r\<close> places to the right.
\<close>

definition shift_source :: "nat \<Rightarrow> nat" where
  "shift_source i = (4 * ((i div 4 + i mod 4) mod 4) + i mod 4)"

definition aese :: "u8 list \<Rightarrow> u8 list \<Rightarrow> u8 list" where
  "aese d n = (let s = xor_bytes d n in map (\<lambda>i. sub_byte (s ! shift_source i)) [0..<16])"

definition xtime :: "u8 \<Rightarrow> u8" where
  "xtime b = push_bit 1 b XOR (if bit b 7 then 0x1b else 0)"

definition mix_column :: "u8 \<Rightarrow> u8 \<Rightarrow> u8 \<Rightarrow> u8 \<Rightarrow> u8 list" where
  "mix_column a b c d =
     [xtime a XOR (xtime b XOR b) XOR c XOR d,
      a XOR xtime b XOR (xtime c XOR c) XOR d,
      a XOR b XOR xtime c XOR (xtime d XOR d),
      (xtime a XOR a) XOR b XOR c XOR xtime d]"

definition aesmc :: "u8 list \<Rightarrow> u8 list" where
  "aesmc s = concat (map (\<lambda>c. mix_column (s ! (4 * c)) (s ! (4 * c + 1)) (s ! (4 * c + 2)) (s ! (4 * c + 3))) [0..<4])"

definition middle_round :: "u8 list \<Rightarrow> u8 list \<Rightarrow> u8 list" where
  "middle_round k s = xor_bytes (aesmc (aese s (replicate 16 0))) k"

definition final_round :: "u8 list \<Rightarrow> u8 list \<Rightarrow> u8 list" where
  "final_round k s = xor_bytes (aese s (replicate 16 0)) k"

definition aes256_encrypt_block :: "u8 list list \<Rightarrow> u8 list \<Rightarrow> u8 list" where
  "aes256_encrypt_block rk pt =
     final_round (rk ! 14) (fold (\<lambda>r. middle_round (rk ! r)) [1..<14] (xor_bytes pt (rk ! 0)))"

section \<open>Shapes\<close>

lemma length_xor_bytes [simp]: "length (xor_bytes a b) = min (length a) (length b)"
  by (simp add: xor_bytes_def)

lemma nth_xor_bytes [simp]:
  "i < length a \<Longrightarrow> i < length b \<Longrightarrow> xor_bytes a b ! i = a ! i XOR b ! i"
  by (simp add: xor_bytes_def)

lemma xor_bytes_cancel: "length a \<le> length b \<Longrightarrow> xor_bytes (xor_bytes a b) b = a"
  by (rule nth_equalityI) (simp_all add: xor.assoc)

lemma xor_bytes_zero: "length a \<le> n \<Longrightarrow> xor_bytes a (replicate n 0) = a"
  by (rule nth_equalityI) simp_all

lemma xor_bytes_inj:
  assumes "xor_bytes a k = xor_bytes b k" and "length a \<le> length k" and "length b \<le> length k"
  shows "a = b"
  using assms xor_bytes_cancel by metis

lemma xor_bytes_append:
  "length a = length c \<Longrightarrow> xor_bytes (a @ b) (c @ d) = xor_bytes a c @ xor_bytes b d"
  by (simp add: xor_bytes_def)

lemma length_aese [simp]: "length (aese d n) = 16"
  by (simp add: aese_def)

lemma aesmc_unfold:
  "aesmc s = mix_column (s ! 0) (s ! 1) (s ! 2) (s ! 3) @ mix_column (s ! 4) (s ! 5) (s ! 6) (s ! 7)
           @ mix_column (s ! 8) (s ! 9) (s ! 10) (s ! 11) @ mix_column (s ! 12) (s ! 13) (s ! 14) (s ! 15)"
  by (simp add: aesmc_def upt_conv_Cons eval_nat_numeral)

lemma length_aesmc [simp]: "length (aesmc s) = 16"
  by (simp add: aesmc_unfold mix_column_def)

lemma length_middle_round: "length k = 16 \<Longrightarrow> length (middle_round k s) = 16"
  by (simp add: middle_round_def)

definition words_ok :: "nat \<Rightarrow> u8 list list \<Rightarrow> bool" where
  "words_ok n w \<longleftrightarrow> length w = n \<and> (\<forall>v \<in> set w. length v = 4)"

lemma words_ok_nth: "words_ok n w \<Longrightarrow> i < n \<Longrightarrow> length (w ! i) = 4"
  by (auto simp: words_ok_def)

lemma words_ok_first: "words_ok 8 (first_words key)"
  by (auto simp: words_ok_def first_words_def)

lemma length_next_word:
  assumes "words_ok i w" and "8 \<le> i"
  shows "length (next_word w i) = 4"
  using words_ok_nth [OF assms(1), of "i - 1"] words_ok_nth [OF assms(1), of "i - 8"] assms(2)
  by (simp add: next_word_def Let_def)

lemma words_ok_step: "words_ok i w \<Longrightarrow> 8 \<le> i \<Longrightarrow> words_ok (Suc i) (expand_step i w)"
  using length_next_word by (auto simp: expand_step_def words_ok_def)

lemma words_ok_fold: "words_ok (8 + n) (fold expand_step [8..<8 + n] (first_words key))"
proof (induction n)
  case 0
  then show ?case by (simp add: words_ok_first)
next
  case (Suc n)
  then show ?case using words_ok_step [OF Suc.IH] by (simp only: add_Suc_right upt_Suc_append le_add1 fold_append fold.simps comp_def id_apply simp_thms)
qed

lemma words_ok_key: "words_ok 60 (key_words key)"
  using words_ok_fold [of 52 key] by (simp add: key_words_def)

definition schedule_ok :: "u8 list list \<Rightarrow> bool" where
  "schedule_ok rk \<longleftrightarrow> length rk = 15 \<and> (\<forall>k \<in> set rk. length k = 16)"

lemma schedule_nth: "schedule_ok rk \<Longrightarrow> i < 15 \<Longrightarrow> length (rk ! i) = 16"
  by (auto simp: schedule_ok_def)

lemma key_expand_ok: "schedule_ok (aes256_key_expand key)"
  using words_ok_nth [OF words_ok_key [of key]]
  by (auto simp: schedule_ok_def aes256_key_expand_def Let_def length_concat sum_list_triv
      upt_conv_Cons)

lemma length_middle_rounds:
  assumes "schedule_ok rk" and "length s = 16" and "set rs \<subseteq> {0..<15}"
  shows "length (fold (\<lambda>r. middle_round (rk ! r)) rs s) = 16"
  using assms by (induction rs arbitrary: s) (simp_all add: length_middle_round schedule_nth)

lemma length_encrypt_block [simp]:
  "schedule_ok rk \<Longrightarrow> length (aes256_encrypt_block rk pt) = 16"
  by (simp add: aes256_encrypt_block_def final_round_def schedule_nth)

section \<open>Every round is a permutation of the blocks\<close>

lemma length_sbox: "length aes_sbox = 256"
  by (simp add: aes_sbox_def)

lemma distinct_sbox: "distinct aes_sbox"
proof -
  have "distinct (map unat aes_sbox)" by (simp add: aes_sbox_def)
  then show ?thesis by (simp add: distinct_map)
qed

lemma sub_byte_inj: "sub_byte a = sub_byte b \<longleftrightarrow> a = b"
proof -
  have "unat a < length aes_sbox" "unat b < length aes_sbox"
    using unsigned_less [of a, where ?'a = nat] unsigned_less [of b, where ?'a = nat]
    by (simp_all add: length_sbox)
  then show ?thesis by (metis sub_byte_def nth_eq_iff_index_eq [OF distinct_sbox] word_unat_eq_iff)
qed

lemma shift_source_onto:
  assumes "j < 16"
  shows "\<exists>i < 16. shift_source i = j"
proof -
  have "set (map shift_source [0..<16]) = {0..<16}" by code_simp
  moreover have "j \<in> {0..<16}" using assms by simp
  ultimately have "j \<in> shift_source ` {0..<16}" by (simp only: set_map set_upt)
  then show ?thesis by force
qed

lemma aese_inj:
  assumes "aese s (replicate 16 0) = aese t (replicate 16 0)" and "length s = 16" and "length t = 16"
  shows "s = t"
proof (rule nth_equalityI)
  show "length s = length t" using assms by simp
next
  fix j assume "j < length s"
  with assms obtain i where i: "i < 16" "shift_source i = j" using shift_source_onto by auto
  have "aese s (replicate 16 0) ! i = aese t (replicate 16 0) ! i" using assms(1) by simp
  with i show "s ! j = t ! j" by (simp add: aese_def xor_bytes_zero assms sub_byte_inj)
qed

lemma xtime_xor: "xtime (a XOR b) = xtime a XOR xtime b"
  by (simp add: xtime_def bit_xor_iff push_bit_xor ac_simps)

lemma xor_left_self: "(a :: u8) XOR (a XOR b) = b"
  by (simp flip: xor.assoc)

lemmas mix_algebra = xtime_xor xor.assoc xor.commute [of "xtime _"] xor.left_commute

text \<open>Applying MixColumns four times to a column is the identity.\<close>

definition mix_list :: "u8 list \<Rightarrow> u8 list" where
  "mix_list s = mix_column (s ! 0) (s ! 1) (s ! 2) (s ! 3)"

lemma mix_twice:
  "mix_list (mix_column a b c d) =
     [xtime (xtime a) XOR a XOR xtime (xtime c), xtime (xtime b) XOR b XOR xtime (xtime d),
      xtime (xtime a) XOR xtime (xtime c) XOR c, xtime (xtime b) XOR xtime (xtime d) XOR d]"
  by (simp add: mix_list_def mix_column_def xtime_xor xor.assoc xor.commute xor.left_commute xor_left_self)

lemma mix_four: "mix_list (mix_list (mix_list (mix_column a b c d))) = [a, b, c, d]"
  by (simp add: mix_twice mix_list_def [of "[_, _, _, _]"])
     (simp add: mix_column_def xtime_xor xor.assoc xor.commute xor.left_commute xor_left_self)

lemma mix_column_inj:
  assumes "mix_column a b c d = mix_column a' b' c' d'"
  shows "[a, b, c, d] = [a', b', c', d']"
  using assms mix_four by metis

lemma aesmc_inj:
  assumes "aesmc s = aesmc t" and "length s = 16" and "length t = 16"
  shows "s = t"
proof -
  have split: "v = [v ! 0, v ! 1, v ! 2, v ! 3] @ [v ! 4, v ! 5, v ! 6, v ! 7] @
      [v ! 8, v ! 9, v ! 10, v ! 11] @ [v ! 12, v ! 13, v ! 14, v ! 15]" if "length v = 16" for v :: "u8 list"
  proof -
    have "map ((!) v) [0..<16] = v" using map_nth [of v] that by simp
    then show ?thesis by (simp add: upt_conv_Cons eval_nat_numeral)
  qed
  have len: "length (mix_column a b c d) = 4" for a b c d by (simp add: mix_column_def)
  have "mix_column (s ! 0) (s ! 1) (s ! 2) (s ! 3) = mix_column (t ! 0) (t ! 1) (t ! 2) (t ! 3)"
    "mix_column (s ! 4) (s ! 5) (s ! 6) (s ! 7) = mix_column (t ! 4) (t ! 5) (t ! 6) (t ! 7)"
    "mix_column (s ! 8) (s ! 9) (s ! 10) (s ! 11) = mix_column (t ! 8) (t ! 9) (t ! 10) (t ! 11)"
    "mix_column (s ! 12) (s ! 13) (s ! 14) (s ! 15) = mix_column (t ! 12) (t ! 13) (t ! 14) (t ! 15)"
    using assms(1) by (simp_all add: aesmc_unfold len)
  from this [THEN mix_column_inj] show ?thesis
    by (subst split [OF assms(2)], subst split [OF assms(3)]) (simp only: list.inject)
qed

lemma middle_round_inj:
  assumes "middle_round k s = middle_round k t" and "length k = 16" "length s = 16" "length t = 16"
  shows "s = t"
proof -
  have "aesmc (aese s (replicate 16 0)) = aesmc (aese t (replicate 16 0))"
    using assms(1,2) unfolding middle_round_def by - (rule xor_bytes_inj [of _ k], simp_all)
  then have "aese s (replicate 16 0) = aese t (replicate 16 0)" by (rule aesmc_inj) simp_all
  then show ?thesis using assms(3,4) by (rule aese_inj)
qed

lemma middle_rounds_inj:
  assumes "fold (\<lambda>r. middle_round (rk ! r)) rs s = fold (\<lambda>r. middle_round (rk ! r)) rs t"
    and "schedule_ok rk" and "set rs \<subseteq> {0..<15}" and "length s = 16" "length t = 16"
  shows "s = t"
  using assms
proof (induction rs arbitrary: s t)
  case (Cons r rs)
  then have "middle_round (rk ! r) s = middle_round (rk ! r) t"
    by (simp add: length_middle_round schedule_nth)
  then show ?case using Cons.prems by (auto intro: middle_round_inj simp: schedule_nth)
qed simp

lemma encrypt_block_inj:
  assumes "aes256_encrypt_block rk s = aes256_encrypt_block rk t"
    and "schedule_ok rk" "length s = 16" "length t = 16"
  shows "s = t"
proof -
  let ?mid = "fold (\<lambda>r. middle_round (rk ! r)) [1..<14]"
  have len: "length (?mid (xor_bytes v (rk ! 0))) = 16" if "length v = 16" for v
    using that assms(2) by (intro length_middle_rounds) (auto simp: schedule_nth)
  have "aese (?mid (xor_bytes s (rk ! 0))) (replicate 16 0) = aese (?mid (xor_bytes t (rk ! 0))) (replicate 16 0)"
    using assms(1,2) by - (rule xor_bytes_inj [of _ "rk ! 14"],
      simp_all add: aes256_encrypt_block_def final_round_def schedule_nth)
  then have "?mid (xor_bytes s (rk ! 0)) = ?mid (xor_bytes t (rk ! 0))"
    using assms len by - (rule aese_inj, auto)
  then have "xor_bytes s (rk ! 0) = xor_bytes t (rk ! 0)"
    using assms by - (rule middle_rounds_inj [of rk "[1..<14]"], auto simp: schedule_nth)
  then show ?thesis by (rule xor_bytes_inj) (simp_all add: assms schedule_nth)
qed

lemma finite_blocks: "finite {b :: u8 list. length b = n}"
  using finite_lists_length_eq [of "UNIV :: u8 set"] by simp

text \<open>
  C33: Under every key the block cipher is a permutation of the 16-byte blocks: no two blocks are
  encrypted to the same block, and every block is the encryption of one.
\<close>

theorem aes_block_permutation:
  "bij_betw (aes256_encrypt_block (aes256_key_expand key)) {b. length b = 16} {b. length b = 16}"
proof -
  let ?f = "aes256_encrypt_block (aes256_key_expand key)"
  have inj: "inj_on ?f {b. length b = 16}"
    using encrypt_block_inj key_expand_ok by (auto intro!: inj_onI)
  moreover have "?f ` {b. length b = 16} = {b. length b = 16}"
    using inj finite_blocks key_expand_ok by (intro endo_inj_surj) auto
  ultimately show ?thesis by (simp add: bij_betw_def)
qed

section \<open>The example vector of FIPS 197\<close>

definition fips_key :: "u8 list" where
  "fips_key = map of_nat [0..<32]"

definition fips_plain :: "u8 list" where
  "fips_plain = map (\<lambda>i. of_nat (17 * i)) [0..<16]"

text \<open>The example of appendix C.3: the code computes the ciphertext block the standard lists.\<close>

theorem fips_197_vector:
  "aes256_encrypt_block (aes256_key_expand fips_key) fips_plain =
     [0x8e, 0xa2, 0xb7, 0xca, 0x51, 0x67, 0x45, 0xbf, 0xea, 0xfc, 0x49, 0x90, 0x4b, 0x49, 0x60, 0x89]"
  by code_simp

end
