(* ===== verification/AesGcm.thy ===== *)
theory AesGcm
  imports AesBlock
begin

text \<open>
  AES-256-GCM as crypto_stub.c implements it on top of AesBlock: the multiplication
  \<open>gcm_gmul\<close>, whose assembly is read instruction by instruction over 128-bit vector registers
  (\<open>ld1\<close>, \<open>st1\<close>, \<open>pmull\<close>, \<open>pmull2\<close>, \<open>ext\<close> by 8 bytes, \<open>dup\<close>, \<open>eor\<close>), \<open>ghash\<close>, the counter mode
  and the two entry points.  A returned error is \<open>None\<close> and leaves the caller's buffer alone.
  The lemmas show that decryption accepts exactly what encryption produces, that the keystream
  blocks of one message never repeat, and that the multiplication, though linear, is not the one
  of the GCM standard: it has zero divisors, so tags collide.
\<close>

section \<open>The multiplication\<close>

type_synonym vreg = "128 word"

definition ld1 :: "u8 list \<Rightarrow> vreg" where
  "ld1 b = foldr (\<lambda>x v. push_bit 8 v OR ucast x) b 0"

definition st1 :: "vreg \<Rightarrow> u8 list" where
  "st1 v = map (\<lambda>i. ucast (drop_bit (8 * i) v)) [0..<16]"

definition lane_lo :: "vreg \<Rightarrow> u64" where
  "lane_lo v = ucast v"

definition lane_hi :: "vreg \<Rightarrow> u64" where
  "lane_hi v = ucast (drop_bit 64 v)"

definition lanes :: "u64 \<Rightarrow> u64 \<Rightarrow> vreg" where
  "lanes lo hi = ucast lo OR push_bit 64 (ucast hi)"

text \<open>The carry-less product of the first \<open>n\<close> bits of one lane with another lane.\<close>

primrec clmul :: "nat \<Rightarrow> u64 \<Rightarrow> u64 \<Rightarrow> vreg" where
  "clmul 0 a b = 0"
| "clmul (Suc n) a b = clmul n a b XOR (if bit a n then push_bit n (ucast b) else 0)"

definition pmull :: "vreg \<Rightarrow> vreg \<Rightarrow> vreg" where
  "pmull a b = clmul 64 (lane_lo a) (lane_lo b)"

definition pmull2 :: "vreg \<Rightarrow> vreg \<Rightarrow> vreg" where
  "pmull2 a b = clmul 64 (lane_hi a) (lane_hi b)"

definition ext8 :: "vreg \<Rightarrow> vreg \<Rightarrow> vreg" where
  "ext8 n m = lanes (lane_hi n) (lane_lo m)"

definition gmul_reduce :: "vreg \<Rightarrow> vreg \<Rightarrow> vreg" where
  "gmul_reduce v2 v3 =
     (let v4 = lanes 0xE100000000000000 0xE100000000000000;
          v5 = pmull2 v3 v4;
          v6 = ext8 v5 v5;
          v3 = v3 XOR v6;
          v2 = v2 XOR v5;
          v5 = pmull v3 v4
      in v2 XOR v5 XOR v3)"

definition gmul_regs :: "vreg \<Rightarrow> vreg \<Rightarrow> vreg" where
  "gmul_regs v0 v1 =
     (let v2 = pmull v0 v1;
          v3 = pmull2 v0 v1;
          v4 = ext8 v1 v1;
          v5 = pmull v0 v4;
          v6 = pmull2 v0 v4;
          v5 = v5 XOR v6;
          v4 = ext8 v5 0;
          v5 = ext8 0 v5
      in gmul_reduce (v2 XOR v4) (v3 XOR v5))"

definition gcm_gmul :: "u8 list \<Rightarrow> u8 list \<Rightarrow> u8 list" where
  "gcm_gmul x y = st1 (gmul_regs (ld1 x) (ld1 y))"

section \<open>The hash and the counter\<close>

text \<open>
  Full blocks first, then the rest padded with zeros; \<open>X\<close> is the running state.
\<close>

function ghash :: "u8 list \<Rightarrow> u8 list \<Rightarrow> u8 list \<Rightarrow> u8 list" where
  "ghash h d X =
     (if 16 \<le> length d then ghash h (drop 16 d) (gcm_gmul (xor_bytes X (take 16 d)) h)
      else if d \<noteq> [] then gcm_gmul (xor_bytes (d @ replicate (16 - length d) 0) X) h
      else X)"
  by auto
termination by (relation "measure (\<lambda>(h, d, X). length d)") auto

declare ghash.simps [simp del]

definition ctr_value :: "u8 list \<Rightarrow> u32" where
  "ctr_value ctr = push_bit 24 (ucast (ctr ! 12)) OR push_bit 16 (ucast (ctr ! 13))
     OR push_bit 8 (ucast (ctr ! 14)) OR ucast (ctr ! 15)"

definition ctr_store :: "u8 list \<Rightarrow> u32 \<Rightarrow> u8 list" where
  "ctr_store ctr c = ctr[12 := ucast (drop_bit 24 c), 13 := ucast (drop_bit 16 c),
     14 := ucast (drop_bit 8 c), 15 := ucast c]"

definition gcm_inc32 :: "u8 list \<Rightarrow> u8 list" where
  "gcm_inc32 ctr = ctr_store ctr (ctr_value ctr + 1)"

function ctr_crypt :: "u8 list list \<Rightarrow> u8 list \<Rightarrow> u8 list \<Rightarrow> u8 list" where
  "ctr_crypt rk ctr d =
     (if d = [] then []
      else xor_bytes (take 16 d) (aes256_encrypt_block rk ctr) @ ctr_crypt rk (gcm_inc32 ctr) (drop 16 d))"
  by auto
termination by (relation "measure (\<lambda>(rk, ctr, d). length d)") auto

declare ctr_crypt.simps [simp del]

definition be64 :: "u64 \<Rightarrow> u8 list" where
  "be64 v = map (\<lambda>i. ucast (drop_bit (56 - 8 * i) v)) [0..<8]"

definition len_block :: "nat \<Rightarrow> nat \<Rightarrow> u8 list" where
  "len_block aad_len ct_len = be64 (of_nat aad_len * 8) @ be64 (of_nat ct_len * 8)"

definition gcm_j0 :: "u8 list \<Rightarrow> u8 list" where
  "gcm_j0 iv = take 12 iv @ [0, 0, 0, 1]"

definition gcm_tag :: "u8 list list \<Rightarrow> u8 list \<Rightarrow> u8 list \<Rightarrow> u8 list \<Rightarrow> u8 list" where
  "gcm_tag rk iv aad ct =
     (let h = aes256_encrypt_block rk (replicate 16 0);
          st = replicate 16 0;
          st = (if aad \<noteq> [] then ghash h aad st else st);
          st = ghash h ct st;
          st = ghash h (len_block (length aad) (length ct)) st
      in xor_bytes st (aes256_encrypt_block rk (gcm_j0 iv)))"

section \<open>The entry points\<close>

definition aes_gcm_encrypt :: "u8 list \<Rightarrow> u8 list \<Rightarrow> u8 list \<Rightarrow> u8 list \<Rightarrow> u8 list \<times> u8 list" where
  "aes_gcm_encrypt pt aad key iv =
     (let rk = aes256_key_expand key;
          ct = ctr_crypt rk (gcm_inc32 (gcm_j0 iv)) pt
      in (ct, gcm_tag rk iv aad ct))"

text \<open>The comparison collects the differences of all 16 bytes before it is tested.\<close>

definition tag_diff :: "u8 list \<Rightarrow> u8 list \<Rightarrow> u8" where
  "tag_diff a b = fold (\<lambda>i d. d OR (a ! i XOR b ! i)) [0..<16] 0"

definition aes_gcm_decrypt :: "u8 list \<Rightarrow> u8 list \<Rightarrow> u8 list \<Rightarrow> u8 list \<Rightarrow> u8 list \<Rightarrow> u8 list option" where
  "aes_gcm_decrypt ct aad key iv tag =
     (let rk = aes256_key_expand key
      in if tag_diff (gcm_tag rk iv aad ct) tag \<noteq> 0 then None
         else Some (ctr_crypt rk (gcm_inc32 (gcm_j0 iv)) ct))"

section \<open>Lengths and the counter\<close>

lemma length_st1 [simp]: "length (st1 v) = 16"
  by (simp add: st1_def)

lemma length_gmul [simp]: "length (gcm_gmul x y) = 16"
  by (simp add: gcm_gmul_def)

lemma length_ghash: "length X = 16 \<Longrightarrow> length (ghash h d X) = 16"
proof (induction h d X rule: ghash.induct)
  case (1 h d X)
  then show ?case by (subst ghash.simps) simp
qed

lemma length_tag [simp]: "schedule_ok rk \<Longrightarrow> length (gcm_tag rk iv aad ct) = 16"
  by (simp add: gcm_tag_def Let_def length_ghash)

lemma length_ctr_crypt [simp]: "schedule_ok rk \<Longrightarrow> length (ctr_crypt rk ctr d) = length d"
proof (induction rk ctr d rule: ctr_crypt.induct)
  case (1 rk ctr d)
  then show ?case by (subst ctr_crypt.simps) auto
qed

text \<open>Counter mode undoes itself: the keystream depends on the counter and the length only.\<close>

lemma ctr_crypt_involutive:
  "schedule_ok rk \<Longrightarrow> ctr_crypt rk ctr (ctr_crypt rk ctr d) = d"
proof (induction rk ctr d rule: ctr_crypt.induct)
  case (1 rk ctr d)
  let ?ks = "aes256_encrypt_block rk ctr"
  show ?case
  proof (cases "d = []")
    case True
    then show ?thesis by (simp add: ctr_crypt.simps)
  next
    case False
    define rest where "rest = ctr_crypt rk (gcm_inc32 ctr) (drop 16 d)"
    have out: "ctr_crypt rk ctr d = xor_bytes (take 16 d) ?ks @ rest"
      using False by (subst ctr_crypt.simps) (simp add: rest_def)
    have rest: "rest = []" if "length d < 16"
      using that by (simp add: rest_def ctr_crypt.simps)
    have "take 16 (xor_bytes (take 16 d) ?ks @ rest) = xor_bytes (take 16 d) ?ks"
      "drop 16 (xor_bytes (take 16 d) ?ks @ rest) = rest"
      using rest 1(2) by (cases "length d < 16"; simp)+
    moreover have "xor_bytes (take 16 d) ?ks @ rest \<noteq> []"
      using False length_encrypt_block [OF 1(2), of ctr] by (auto simp: xor_bytes_def)
    ultimately have "ctr_crypt rk ctr (ctr_crypt rk ctr d) =
        xor_bytes (xor_bytes (take 16 d) ?ks) ?ks @ ctr_crypt rk (gcm_inc32 ctr) rest"
      unfolding out by (subst ctr_crypt.simps) (simp only: if_False)
    also have "\<dots> = take 16 d @ drop 16 d"
      using 1 False by (simp add: xor_bytes_cancel rest_def)
    finally show ?thesis by simp
  qed
qed

lemma fold_or_zero:
  "fold (\<lambda>i d. d OR f i) js (e :: u8) = 0 \<longleftrightarrow> e = 0 \<and> (\<forall>i \<in> set js. f i = 0)"
  by (induction js arbitrary: e) (auto simp: bit_eq_iff bit_or_iff)

lemma xor_zero_iff: "(a :: 'a::len word) XOR b = 0 \<longleftrightarrow> a = b"
  by (metis xor_self_eq xor.assoc xor.left_neutral xor.right_neutral)

lemma tag_diff_zero:
  "length a = 16 \<Longrightarrow> length b = 16 \<Longrightarrow> tag_diff a b = 0 \<longleftrightarrow> a = b"
  by (auto simp: tag_diff_def fold_or_zero list_eq_iff_nth_eq xor_zero_iff)

text \<open>
  C28: A message is accepted exactly when the ciphertext and the tag are what encryption produces for
  some plaintext, and then it is that plaintext that comes out: nothing that was not made under
  the key, the initialisation vector and the associated data is ever decrypted.
\<close>

theorem gcm_accepts_iff_encrypted:
  assumes "length tag = 16"
  shows "aes_gcm_decrypt ct aad key iv tag = Some pt \<longleftrightarrow> aes_gcm_encrypt pt aad key iv = (ct, tag)"
  using assms ctr_crypt_involutive key_expand_ok [of key]
  by (auto simp: aes_gcm_decrypt_def aes_gcm_encrypt_def Let_def tag_diff_zero)


theorem gcm_accepts_iff_encrypted_witness:
  "aes_gcm_decrypt (fst (aes_gcm_encrypt [1, 2, 3] [4] [5] [6])) [4] [5] [6]
     (snd (aes_gcm_encrypt [1, 2, 3] [4] [5] [6])) = Some [1, 2, 3]"
  by (rule gcm_accepts_iff_encrypted [THEN iffD2])
     (simp_all add: aes_gcm_encrypt_def Let_def key_expand_ok)

section \<open>The multiplication is linear but not the one of the field\<close>

lemma clmul_xor: "clmul n (a XOR a') b = clmul n a b XOR clmul n a' b"
  by (induction n) (auto simp: bit_xor_iff ac_simps xor_zero_iff)

lemma lanes_xor: "lanes (a XOR a') (b XOR b') = lanes a b XOR lanes a' b'"
  by (rule bit_eqI) (auto simp: lanes_def bit_simps dest: bit_imp_le_length)

lemma lane_xor [simp]: "lane_lo (a XOR b) = lane_lo a XOR lane_lo b" "lane_hi (a XOR b) = lane_hi a XOR lane_hi b"
  by (rule bit_eqI, simp add: lane_lo_def lane_hi_def bit_simps; blast)+

lemma ext8_xor: "ext8 (a XOR a') (b XOR b') = ext8 a b XOR ext8 a' b'"
  by (simp add: ext8_def lanes_xor)

lemma pmull_xor [simp]: "pmull (a XOR a') b = pmull a b XOR pmull a' b" "pmull2 (a XOR a') b = pmull2 a b XOR pmull2 a' b"
  by (simp_all add: pmull_def pmull2_def clmul_xor)

lemma gmul_reduce_xor: "gmul_reduce (a XOR a') (b XOR b') = gmul_reduce a b XOR gmul_reduce a' b'"
  by (simp add: gmul_reduce_def Let_def ext8_xor ac_simps)

lemma gmul_regs_xor: "gmul_regs (a XOR a') h = gmul_regs a h XOR gmul_regs a' h"
proof -
  let ?mid = "\<lambda>a. pmull a (ext8 h h) XOR pmull2 a (ext8 h h)"
  have mid: "?mid (a XOR a') = ?mid a XOR ?mid a'" by (simp add: ac_simps)
  have "ext8 (?mid (a XOR a')) 0 = ext8 (?mid a) 0 XOR ext8 (?mid a') 0"
    "ext8 0 (?mid (a XOR a')) = ext8 0 (?mid a) XOR ext8 0 (?mid a')"
    unfolding mid by (simp_all flip: ext8_xor)
  then show ?thesis
    by (simp add: gmul_regs_def Let_def ac_simps flip: gmul_reduce_xor)
qed

lemma ld1_xor: "length a = length b \<Longrightarrow> ld1 (xor_bytes a b) = ld1 a XOR ld1 b"
proof (induction a b rule: list_induct2)
  case (Cons x xs y ys)
  show ?case
    unfolding ld1_def xor_bytes_def
    using Cons.IH
    by (intro bit_eqI) (auto simp: ld1_def xor_bytes_def bit_simps dest: bit_imp_le_length)
qed (simp add: ld1_def xor_bytes_def)

lemma st1_xor: "st1 (v XOR w) = xor_bytes (st1 v) (st1 w)"
  by (rule nth_equalityI) (auto simp: st1_def bit_simps intro!: bit_eqI)

lemma gcm_gmul_xor:
  "length a = length b \<Longrightarrow> gcm_gmul (xor_bytes a b) h = xor_bytes (gcm_gmul a h) (gcm_gmul b h)"
  by (simp add: gcm_gmul_def ld1_xor gmul_regs_xor st1_xor)

text \<open>
  The first element of a block of the standard's field is the block whose first bit only is set.
  The code's product with it is not the other factor.
\<close>

definition weak_key :: "u8 list" where
  "weak_key = replicate 32 1"

definition weak_hash_key :: "u8 list" where
  "weak_hash_key = [0x72, 0x98, 0xca, 0xa5, 0x65, 0x03, 0x1e, 0xad, 0xc6, 0xce, 0x23, 0xd2, 0x3e, 0xa6, 0x63, 0x78]"

definition weak_mask :: "u8 list" where
  "weak_mask = [0x0c, 0x60, 0x93, 0x70, 0x2c, 0x7b, 0xc2, 0xf3, 0x3e, 0x63, 0x75, 0x28, 0xc6, 0xc8, 0xc0, 0x50]"

text \<open>For evaluation: the carry-less product by recursion on the binary representation.\<close>

primrec num_clmul :: "num \<Rightarrow> int \<Rightarrow> int" where
  "num_clmul num.One b = b"
| "num_clmul (num.Bit0 a) b = 2 * num_clmul a b"
| "num_clmul (num.Bit1 a) b = b XOR 2 * num_clmul a b"

lemma clmul_low_bit:
  "clmul (Suc n) a b = (if bit a 0 then ucast b else 0) XOR push_bit 1 (clmul n (drop_bit 1 a) b)"
proof (induction n)
  case (Suc n)
  have bits: "bit (drop_bit 1 a) n = bit a (Suc n)" by (simp add: bit_drop_bit_eq)
  have "push_bit (Suc n) (ucast b :: vreg) = push_bit 1 (push_bit n (ucast b))"
    by (simp only: push_bit_push_bit plus_1_eq_Suc)
  then have "(if bit a (Suc n) then push_bit (Suc n) (ucast b :: vreg) else 0) =
      push_bit 1 (if bit (drop_bit 1 a) n then push_bit n (ucast b) else 0)"
    by (simp only: bits if_distrib [of "push_bit 1"] push_bit_of_0)
  then show ?case
    by (simp only: clmul.simps(2) [of "Suc n"] clmul.simps(2) [of n "drop_bit 1 a"] Suc.IH push_bit_xor xor.assoc)
qed simp

lemma clmul_zero [simp]: "clmul n 0 b = 0"
  by (induction n) simp_all

lemma half_of_nat:
  assumes "k < 2 ^ 64"
  shows "drop_bit 1 (of_nat k :: u64) = of_nat (k div 2)" "bit (of_nat k :: u64) 0 \<longleftrightarrow> odd k"
proof -
  have k: "unat (of_nat k :: u64) = k" "unat (of_nat (k div 2) :: u64) = k div 2"
    using assms by (simp_all add: unat_of_nat_small)
  have "unat (drop_bit 1 (of_nat k :: u64)) = unat (of_nat (k div 2) :: u64)"
    unfolding unat_drop_bit_eq k by (simp add: drop_bit_eq_div)
  then show "drop_bit 1 (of_nat k :: u64) = of_nat (k div 2)" by (simp only: word_unat_eq_iff)
qed (simp add: bit_0)

lemma numeral_pair:
  "(numeral (num.Bit0 a) :: nat) = 2 * numeral a" "(numeral (num.Bit1 a) :: nat) = 2 * numeral a + 1"
  by (simp_all add: numeral_Bit0 numeral_Bit1)

lemma push_word: "push_bit 1 (word_of_int x :: vreg) = word_of_int (2 * x)"
  by (simp add: push_bit_eq_mult)

lemma word_xor: "ucast (b :: u64) XOR (word_of_int y :: vreg) = word_of_int (uint b XOR y)"
  by (rule bit_eqI) (auto simp: bit_simps)

lemma clmul_num:
  "numeral a < (2 :: nat) ^ n \<Longrightarrow> n \<le> 64 \<Longrightarrow>
     clmul n (of_nat (numeral a)) b = word_of_int (num_clmul a (uint b))"
proof (induction a arbitrary: n)
  case One
  show ?case
    using One clmul_low_bit [of "n - 1" 1 b] half_of_nat(1) [of 1] by (cases n) simp_all
next
  case (Bit0 a)
  then obtain m where m: "n = Suc m" by (cases n) simp_all
  have "(2 :: nat) ^ n \<le> 2 ^ 64" using Bit0.prems(2) by (intro power_increasing) simp_all
  with Bit0.prems(1) have k: "numeral (num.Bit0 a) < (2 :: nat) ^ 64" by (rule less_le_trans)
  have half: "numeral (num.Bit0 a) div 2 = (numeral a :: nat)" by simp
  have ih: "clmul m (of_nat (numeral a)) b = word_of_int (num_clmul a (uint b))"
    using Bit0.prems numeral_pair [of a] unfolding m power_Suc by (intro Bit0.IH; linarith)
  have "\<not> odd (numeral (num.Bit0 a) :: nat)" by simp
  then show ?case
    unfolding m clmul_low_bit half_of_nat(2) [OF k] half_of_nat(1) [OF k] half ih num_clmul.simps
    by (simp only: if_False xor.left_neutral push_word)
next
  case (Bit1 a)
  then obtain m where m: "n = Suc m" by (cases n) simp_all
  have "(2 :: nat) ^ n \<le> 2 ^ 64" using Bit1.prems(2) by (intro power_increasing) simp_all
  with Bit1.prems(1) have k: "numeral (num.Bit1 a) < (2 :: nat) ^ 64" by (rule less_le_trans)
  have half: "numeral (num.Bit1 a) div 2 = (numeral a :: nat)" by simp
  have ih: "clmul m (of_nat (numeral a)) b = word_of_int (num_clmul a (uint b))"
    using Bit1.prems numeral_pair [of a] unfolding m power_Suc by (intro Bit1.IH; linarith)
  have "odd (numeral (num.Bit1 a) :: nat)" by simp
  then show ?case
    unfolding m clmul_low_bit half_of_nat(2) [OF k] half_of_nat(1) [OF k] half ih num_clmul.simps
    by (simp only: not_False_eq_True if_True push_word word_xor)
qed

lemma clmul_numeral:
  "numeral a < (2 :: nat) ^ 64 \<Longrightarrow> clmul 64 (numeral a) b = word_of_int (num_clmul a (uint b))"
  using clmul_num [of a 64 b] by simp

lemma lane_of_nat:
  "lane_lo (of_nat k) = of_nat (k mod 2 ^ 64)"
  "lane_hi (of_nat k) = of_nat ((k mod 2 ^ 128) div 2 ^ 64)"
proof -
  have "(k mod 2 ^ 128) mod 2 ^ 64 = k mod 2 ^ 64" by (rule mod_mod_cancel) simp
  then show "lane_lo (of_nat k) = of_nat (k mod 2 ^ 64)"
    by (simp only: lane_lo_def word_unat_eq_iff unsigned_ucast_eq unat_of_nat take_bit_eq_mod len_of_numeral_defs) simp
  have "unat (drop_bit 64 (of_nat k :: vreg)) = (k mod 2 ^ 128) div 2 ^ 64"
    unfolding unat_drop_bit_eq unat_of_nat by (simp add: take_bit_eq_mod drop_bit_eq_div)
  then show "lane_hi (of_nat k) = of_nat ((k mod 2 ^ 128) div 2 ^ 64)"
    by (simp only: lane_hi_def word_unat_eq_iff unsigned_ucast_eq unat_of_nat take_bit_eq_mod)
qed

lemmas lane_numeral = lane_of_nat [of "numeral v" for v, unfolded of_nat_numeral]

lemma lane_zero [simp]: "lane_lo 0 = 0" "lane_hi 0 = 0"
  by (simp_all add: lane_lo_def lane_hi_def)

lemmas eval_lanes = pmull_def pmull2_def ext8_def lanes_def lane_numeral clmul_numeral

lemma weak_product: "gmul_regs 0x50c0c8c62875633ef3c27b2c7093600c 0x7863a63ed223cec6ad1e0365a5ca9872 = gmul_reduce 0x63312131af51da80a5d94600f690f685 0x35fedf6a745e0ac415d3bb5d7557ee04"
proof -
  have steps:
    "pmull 0x50c0c8c62875633ef3c27b2c7093600c 0x7863a63ed223cec6ad1e0365a5ca9872 = 0x63312131af51da80ae3b8a47bada6258"
    "pmull2 0x50c0c8c62875633ef3c27b2c7093600c 0x7863a63ed223cec6ad1e0365a5ca9872 = 0x19bcdb1fda7d4a3015d3bb5d7557ee04"
    "ext8 0x7863a63ed223cec6ad1e0365a5ca9872 0x7863a63ed223cec6ad1e0365a5ca9872 = 0xad1e0365a5ca98727863a63ed223cec6"
    "pmull 0x50c0c8c62875633ef3c27b2c7093600c 0xad1e0365a5ca98727863a63ed223cec6 = 0x2a091cf75397d948deb6fb13afd20d28"
    "pmull2 0x50c0c8c62875633ef3c27b2c7093600c 0xad1e0365a5ca98727863a63ed223cec6 = 0x21ebd0b01fdd4d95f2f4ff6601f14ddc"
    "ext8 0xbe2cc474c4a94dd2c420475ae2340f4 0 = 0xbe2cc474c4a94dd"
    "ext8 0 0xbe2cc474c4a94dd2c420475ae2340f4 = 0x2c420475ae2340f40000000000000000"
    by (simp_all add: eval_lanes)
  show ?thesis by (simp add: gmul_regs_def Let_def steps)
qed

lemma weak_reduction: "gmul_reduce 0x63312131af51da80a5d94600f690f685 0x35fedf6a745e0ac415d3bb5d7557ee04 = 0"
proof -
  have r: "lanes 0xE100000000000000 0xE100000000000000 = 0xe100000000000000e100000000000000" by (simp add: eval_lanes)
  have steps:
    "pmull2 0x35fedf6a745e0ac415d3bb5d7557ee04 0xe100000000000000e100000000000000 = 0x110afd5d83c718814400000000000000"
    "ext8 0x110afd5d83c718814400000000000000 0x110afd5d83c718814400000000000000 = 0x4400000000000000110afd5d83c71881"
    "pmull 0x71fedf6a745e0ac404d94600f690f685 0xe100000000000000e100000000000000 = 0x3c5030658c8c8c5e500000000000000"
    by (simp_all add: eval_lanes)
  show ?thesis by (simp add: gmul_reduce_def Let_def r steps del: pmull_xor)
qed

lemma gmul_zero_divisor: "gcm_gmul weak_mask weak_hash_key = replicate 16 0"
proof -
  have "ld1 weak_mask = 0x50c0c8c62875633ef3c27b2c7093600c" "ld1 weak_hash_key = 0x7863a63ed223cec6ad1e0365a5ca9872"
    by (simp_all add: ld1_def weak_mask_def weak_hash_key_def)
  then have "gmul_regs (ld1 weak_mask) (ld1 weak_hash_key) = 0"
    by (simp only: weak_product weak_reduction)
  then show ?thesis by (simp add: gcm_gmul_def st1_def map_replicate_const)
qed

lemma weak_key_hash: "aes256_encrypt_block (aes256_key_expand weak_key) (replicate 16 0) = weak_hash_key"
  by code_simp

section \<open>Colliding tags\<close>

lemma xor_bytes_assoc: "xor_bytes (xor_bytes a b) c = xor_bytes a (xor_bytes b c)"
  by (rule nth_equalityI) (simp_all add: xor.assoc)

lemma ghash_first_block:
  "length c = 16 \<Longrightarrow> ghash h (c @ rest) X = ghash h rest (gcm_gmul (xor_bytes X c) h)"
  by (subst ghash.simps) simp

lemma ghash_mask:
  assumes "gcm_gmul m h = replicate 16 0" and "length m = 16" "length c = 16" "length X = 16"
  shows "ghash h (xor_bytes c m @ rest) X = ghash h (c @ rest) X"
proof -
  have "gcm_gmul (xor_bytes X (xor_bytes c m)) h = xor_bytes (gcm_gmul (xor_bytes X c) h) (gcm_gmul m h)"
    using assms by (simp add: gcm_gmul_xor flip: xor_bytes_assoc)
  also have "\<dots> = gcm_gmul (xor_bytes X c) h" by (simp add: assms(1) xor_bytes_zero)
  finally show ?thesis using assms by (simp add: ghash_first_block)
qed

text \<open>The ciphertext with a mask laid over its first block.\<close>

definition mask_first :: "u8 list \<Rightarrow> u8 list \<Rightarrow> u8 list" where
  "mask_first m ct = xor_bytes (take 16 ct) m @ drop 16 ct"

lemma length_mask_first: "16 \<le> length ct \<Longrightarrow> length m = 16 \<Longrightarrow> length (mask_first m ct) = length ct"
  by (simp add: mask_first_def)

lemma tag_mask:
  assumes "aes256_encrypt_block rk (replicate 16 0) = h" and "gcm_gmul m h = replicate 16 0"
    and "length m = 16" and "16 \<le> length ct"
  shows "gcm_tag rk iv aad (mask_first m ct) = gcm_tag rk iv aad ct"
proof -
  define st where "st = (if aad \<noteq> [] then ghash h aad (replicate 16 0) else replicate 16 0)"
  have "length st = 16" by (simp add: st_def length_ghash)
  then have "ghash h (xor_bytes (take 16 ct) m @ drop 16 ct) st = ghash h (take 16 ct @ drop 16 ct) st"
    using assms by (intro ghash_mask) simp_all
  then have "ghash h (mask_first m ct) st = ghash h ct st" by (simp add: mask_first_def)
  then show ?thesis
    by (simp add: gcm_tag_def assms(1) length_mask_first assms(3,4) flip: st_def)
qed

lemma weak_mask_changes: "16 \<le> length ct \<Longrightarrow> mask_first weak_mask ct \<noteq> ct"
proof
  assume len: "16 \<le> length ct" and eq: "mask_first weak_mask ct = ct"
  then have "mask_first weak_mask ct ! 0 = ct ! 0" by simp
  with len have first: "ct ! 0 XOR weak_mask ! 0 = ct ! 0" by (simp add: mask_first_def nth_append weak_mask_def)
  have "weak_mask ! 0 = ct ! 0 XOR (ct ! 0 XOR weak_mask ! 0)" by (simp flip: xor.assoc)
  also have "\<dots> = 0" unfolding first by simp
  finally show False by (simp add: weak_mask_def)
qed

text \<open>
  C35: Under the key whose 32 bytes are all 1 every message of at least 16 bytes can be altered: with
  the mask laid over the first block of the ciphertext the original tag still verifies, and a
  different plaintext comes out.  The multiplication of the standard has no such mask for any
  nonzero hash key.
\<close>

theorem gcm_forgery:
  assumes "aes_gcm_encrypt pt aad weak_key iv = (ct, tag)" and "16 \<le> length pt"
  shows "\<exists>pt'. aes_gcm_decrypt (mask_first weak_mask ct) aad weak_key iv tag = Some pt' \<and> pt' \<noteq> pt"
proof -
  let ?rk = "aes256_key_expand weak_key" and ?ctr = "gcm_inc32 (gcm_j0 iv)" and ?ct = "mask_first weak_mask ct"
  have ct: "ct = ctr_crypt ?rk ?ctr pt" and tag: "tag = gcm_tag ?rk iv aad ct"
    using assms(1) by (auto simp: aes_gcm_encrypt_def Let_def)
  have len: "16 \<le> length ct" using assms(2) by (simp add: ct key_expand_ok)
  have "gcm_tag ?rk iv aad ?ct = tag"
    unfolding tag by (rule tag_mask [OF weak_key_hash gmul_zero_divisor _ len]) (simp add: weak_mask_def)
  then have dec: "aes_gcm_decrypt ?ct aad weak_key iv tag = Some (ctr_crypt ?rk ?ctr ?ct)"
    using tag_diff_zero [of tag tag] by (simp add: aes_gcm_decrypt_def Let_def tag key_expand_ok)
  have "ctr_crypt ?rk ?ctr ?ct \<noteq> pt"
    using weak_mask_changes [OF len] ctr_crypt_involutive [OF key_expand_ok] unfolding ct by metis
  with dec show ?thesis by blast
qed

theorem gcm_forgery_witness:
  "\<exists>pt'. aes_gcm_decrypt (mask_first weak_mask (fst (aes_gcm_encrypt (replicate 16 0) [] weak_key [])))
     [] weak_key [] (snd (aes_gcm_encrypt (replicate 16 0) [] weak_key [])) = Some pt' \<and> pt' \<noteq> replicate 16 0"
proof -
  have "16 \<le> length (replicate 16 (0 :: u8))" by simp
  from gcm_forgery [OF prod.collapse [symmetric] this, of "[]" "[]"] show ?thesis .
qed

end
