(* ===== verification/CryptoRng.thy ===== *)
theory CryptoRng
  imports Prelude
begin

text \<open>
  The random number generator of crypto_stub.c: the ChaCha20 block function, \<open>rng_init\<close>,
  \<open>rng_get_bytes\<close>, \<open>rng_get_u32\<close> and \<open>rng_get_u64\<close> over the state \<open>g_rng\<close>, and the primitives
  of the same file that are stubs (ChaCha20-Poly1305, SHA-256, SHA-512, Ed25519, X25519, HKDF,
  Argon2id).  The timer register \<open>cntpct_el0\<close> is the argument \<open>cnt\<close>: reading number \<open>k\<close> since power
  on returns \<open>cnt k\<close>, and the field \<open>reads\<close> counts the readings made.  The lemmas show that the
  bytes handed out are the ChaCha20 keystream of a key derived from two timer readings, in order
  and without gaps however the requests are cut.
\<close>

section \<open>The block function\<close>

definition rotl32 :: "nat \<Rightarrow> u32 \<Rightarrow> u32" where
  "rotl32 n v = push_bit n v OR drop_bit (32 - n) v"

definition quarter_round :: "nat \<Rightarrow> nat \<Rightarrow> nat \<Rightarrow> nat \<Rightarrow> u32 list \<Rightarrow> u32 list" where
  "quarter_round a b c d x =
     (let x = x[a := x ! a + x ! b]; x = x[d := x ! d XOR x ! a]; x = x[d := rotl32 16 (x ! d)];
          x = x[c := x ! c + x ! d]; x = x[b := x ! b XOR x ! c]; x = x[b := rotl32 12 (x ! b)];
          x = x[a := x ! a + x ! b]; x = x[d := x ! d XOR x ! a]; x = x[d := rotl32 8 (x ! d)];
          x = x[c := x ! c + x ! d]; x = x[b := x ! b XOR x ! c]; x = x[b := rotl32 7 (x ! b)]
      in x)"

definition double_round :: "u32 list \<Rightarrow> u32 list" where
  "double_round x =
     (let x = quarter_round 0 4 8 12 x; x = quarter_round 1 5 9 13 x;
          x = quarter_round 2 6 10 14 x; x = quarter_round 3 7 11 15 x;
          x = quarter_round 0 5 10 15 x; x = quarter_round 1 6 11 12 x;
          x = quarter_round 2 7 8 13 x; x = quarter_round 3 4 9 14 x
      in x)"

definition word_bytes :: "u32 \<Rightarrow> u8 list" where
  "word_bytes v = [ucast v, ucast (drop_bit 8 v), ucast (drop_bit 16 v), ucast (drop_bit 24 v)]"

definition chacha20_block :: "u32 list \<Rightarrow> u8 list" where
  "chacha20_block inp =
     (let x = (double_round ^^ 10) inp in concat (map (\<lambda>i. word_bytes (x ! i + inp ! i)) [0..<16]))"

section \<open>The generator\<close>

record rng =
  rng_state :: "u32 list"
  rng_buf :: "u8 list"
  buf_pos :: nat
  rng_ready :: bool
  reads :: nat

definition rng_boot :: rng where
  "rng_boot = \<lparr> rng_state = replicate 16 0, rng_buf = replicate 64 0, buf_pos = 0, rng_ready = False, reads = 0 \<rparr>"

definition read_cntpct :: "(nat \<Rightarrow> u64) \<Rightarrow> rng \<Rightarrow> u64 \<times> rng" where
  "read_cntpct cnt s = (cnt (reads s), s\<lparr>reads := reads s + 1\<rparr>)"

definition seed_state :: "u64 \<Rightarrow> u64 \<Rightarrow> u32 list" where
  "seed_state seed0 seed1 =
     [0x61707865, 0x3320646e, 0x79622d32, 0x6b206574,
      ucast seed0, ucast (drop_bit 32 seed0), ucast seed1, ucast (drop_bit 32 seed1),
      ucast (seed0 XOR 0xDEADBEEF), ucast (seed1 XOR 0xCAFEBABE),
      ucast (drop_bit 16 seed0) XOR 0x12345678, ucast (drop_bit 16 seed1) XOR 0x87654321,
      0, ucast (seed0 XOR seed1), ucast (drop_bit 8 seed0), ucast (drop_bit 8 seed1)]"

definition bump_counter :: "u32 list \<Rightarrow> u32 list" where
  "bump_counter st = st[12 := st ! 12 + 1]"

definition rng_init :: "(nat \<Rightarrow> u64) \<Rightarrow> rng \<Rightarrow> rng" where
  "rng_init cnt s =
     (let (seed0, s) = read_cntpct cnt s;
          (v, s) = read_cntpct cnt s;
          seed1 = v XOR push_bit 17 seed0;
          st = seed_state seed0 seed1
      in s\<lparr>rng_buf := chacha20_block st, rng_state := bump_counter st, buf_pos := 64, rng_ready := True\<rparr>)"

definition rng_refill :: "(nat \<Rightarrow> u64) \<Rightarrow> rng \<Rightarrow> rng" where
  "rng_refill cnt s =
     (if 64 \<le> buf_pos s then
        (let s = s\<lparr>rng_buf := chacha20_block (rng_state s)\<rparr>;
             s = s\<lparr>rng_state := bump_counter (rng_state s)\<rparr>;
             s = (if rng_state s ! 12 = 0 then
                    (let (v, s) = read_cntpct cnt s;
                         s = s\<lparr>rng_state := (rng_state s)[13 := rng_state s ! 13 XOR ucast v]\<rparr>
                     in s\<lparr>rng_state := bump_counter (rng_state s)\<rparr>)
                  else s)
         in s\<lparr>buf_pos := 0\<rparr>)
      else s)"

definition rng_byte :: "(nat \<Rightarrow> u64) \<Rightarrow> rng \<Rightarrow> u8 \<times> rng" where
  "rng_byte cnt s =
     (let s = rng_refill cnt s in (rng_buf s ! buf_pos s, s\<lparr>buf_pos := buf_pos s + 1\<rparr>))"

primrec rng_loop :: "(nat \<Rightarrow> u64) \<Rightarrow> nat \<Rightarrow> rng \<Rightarrow> u8 list \<times> rng" where
  "rng_loop cnt 0 s = ([], s)"
| "rng_loop cnt (Suc n) s =
     (let (b, s) = rng_byte cnt s; (bs, s) = rng_loop cnt n s in (b # bs, s))"

definition rng_get_bytes :: "(nat \<Rightarrow> u64) \<Rightarrow> nat \<Rightarrow> rng \<Rightarrow> u8 list \<times> rng" where
  "rng_get_bytes cnt n s = rng_loop cnt n (if \<not> rng_ready s then rng_init cnt s else s)"

definition load_le :: "u8 list \<Rightarrow> 'a::len word" where
  "load_le bs = foldr (\<lambda>b v. ucast b OR push_bit 8 v) bs 0"

definition rng_get_u32 :: "(nat \<Rightarrow> u64) \<Rightarrow> rng \<Rightarrow> u32 \<times> rng" where
  "rng_get_u32 cnt s = (let (bs, s) = rng_get_bytes cnt 4 s in (load_le bs, s))"

definition rng_get_u64 :: "(nat \<Rightarrow> u64) \<Rightarrow> rng \<Rightarrow> u64 \<times> rng" where
  "rng_get_u64 cnt s = (let (bs, s) = rng_get_bytes cnt 8 s in (load_le bs, s))"

section \<open>The stubs\<close>

definition chacha20_poly1305_encrypt :: "u8 list \<Rightarrow> u8 list \<Rightarrow> u8 list \<Rightarrow> u8 list \<Rightarrow> u8 list \<times> u8 list" where
  "chacha20_poly1305_encrypt pt aad key nonce = (pt, replicate 16 0)"

definition chacha20_poly1305_decrypt ::
    "u8 list \<Rightarrow> u8 list \<Rightarrow> u8 list \<Rightarrow> u8 list \<Rightarrow> u8 list \<Rightarrow> u8 list option" where
  "chacha20_poly1305_decrypt ct aad key nonce tag = Some ct"

definition sha256_init :: "u8 list" where
  "sha256_init = replicate 128 0"

definition sha256_update :: "u8 list \<Rightarrow> u8 list \<Rightarrow> u8 list" where
  "sha256_update ctx d = ctx"

definition sha256_final :: "u8 list \<Rightarrow> u8 list" where
  "sha256_final ctx = replicate 32 0"

definition sha512_init :: "u8 list" where
  "sha512_init = replicate 256 0"

definition sha512_update :: "u8 list \<Rightarrow> u8 list \<Rightarrow> u8 list" where
  "sha512_update ctx d = ctx"

definition sha512_final :: "u8 list \<Rightarrow> u8 list" where
  "sha512_final ctx = replicate 64 0"

definition ed25519_generate_keypair :: "u8 list \<times> u8 list" where
  "ed25519_generate_keypair = (replicate 32 0, replicate 32 0)"

definition ed25519_sign :: "u8 list \<Rightarrow> u8 list \<Rightarrow> u8 list" where
  "ed25519_sign message private_key = replicate 64 0"

definition ed25519_verify :: "u8 list \<Rightarrow> u8 list \<Rightarrow> u8 list \<Rightarrow> int" where
  "ed25519_verify message public_key signature = 0"

definition x25519 :: "u8 list \<Rightarrow> u8 list \<Rightarrow> u8 list" where
  "x25519 private_key public_key = replicate 32 0"

definition hkdf_sha256 :: "u8 list \<Rightarrow> u8 list \<Rightarrow> u8 list \<Rightarrow> nat \<Rightarrow> u8 list" where
  "hkdf_sha256 salt ikm info okm_len = replicate okm_len 0"

definition argon2id :: "u8 list \<Rightarrow> u8 list \<Rightarrow> u32 \<Rightarrow> u32 \<Rightarrow> u32 \<Rightarrow> nat \<Rightarrow> u8 list" where
  "argon2id password salt t_cost m_cost parallelism hash_len = replicate hash_len 0"

section \<open>Requests can be cut anywhere\<close>

lemma rng_byte_ready: "rng_ready (snd (rng_byte cnt s)) = rng_ready s"
  by (simp add: rng_byte_def rng_refill_def read_cntpct_def Let_def)

lemma rng_loop_ready: "rng_ready (snd (rng_loop cnt n s)) = rng_ready s"
  by (induction n arbitrary: s) (simp_all add: Let_def split_beta rng_byte_ready)

lemma rng_loop_add:
  "rng_loop cnt (m + n) s =
     (fst (rng_loop cnt m s) @ fst (rng_loop cnt n (snd (rng_loop cnt m s))),
      snd (rng_loop cnt n (snd (rng_loop cnt m s))))"
  by (induction m arbitrary: s) (simp_all add: Let_def split_beta)

lemma length_rng_loop [simp]: "length (fst (rng_loop cnt n s)) = n"
  by (induction n arbitrary: s) (simp_all add: Let_def split_beta)

text \<open>The bytes of a list of requests, one after the other.\<close>

primrec rng_requests :: "(nat \<Rightarrow> u64) \<Rightarrow> nat list \<Rightarrow> rng \<Rightarrow> u8 list list \<times> rng" where
  "rng_requests cnt [] s = ([], s)"
| "rng_requests cnt (n # ns) s =
     (let (bs, s) = rng_get_bytes cnt n s; (bss, s) = rng_requests cnt ns s in (bs # bss, s))"

lemma rng_ready_init [simp]: "rng_ready (rng_init cnt s)"
  by (simp add: rng_init_def read_cntpct_def Let_def)

lemma rng_requests_ready:
  "rng_ready s \<Longrightarrow> rng_requests cnt ns s = (fst (rng_requests cnt ns s), snd (rng_loop cnt (sum_list ns) s))
     \<and> concat (fst (rng_requests cnt ns s)) = fst (rng_loop cnt (sum_list ns) s)"
proof (induction ns arbitrary: s)
  case (Cons n ns)
  have "rng_get_bytes cnt n s = rng_loop cnt n s" using Cons.prems by (simp add: rng_get_bytes_def)
  moreover have "rng_ready (snd (rng_loop cnt n s))" using Cons.prems by (simp add: rng_loop_ready)
  ultimately show ?case
    using Cons.IH [of "snd (rng_loop cnt n s)"]
    by (simp add: Let_def split_beta rng_loop_add prod_eq_iff)
qed simp

text \<open>
  However the callers cut their requests, together they receive the bytes one request of the total
  length would have received, and leave the generator in the same state.
\<close>

theorem rng_requests_concat:
  "ns \<noteq> [] \<Longrightarrow>
     (concat (fst (rng_requests cnt ns s)), snd (rng_requests cnt ns s)) = rng_get_bytes cnt (sum_list ns) s"
proof (cases ns)
  case (Cons n ms)
  define s1 where "s1 = (if \<not> rng_ready s then rng_init cnt s else s)"
  have "rng_ready s1" by (simp add: s1_def)
  then have ready: "rng_ready (snd (rng_loop cnt n s1))" by (simp add: rng_loop_ready)
  have get: "rng_get_bytes cnt k s = rng_loop cnt k s1" for k by (simp add: rng_get_bytes_def s1_def)
  show ?thesis
    using rng_requests_ready [OF ready, of cnt ms]
    by (simp add: Cons get Let_def split_beta rng_loop_add prod_eq_iff)
qed simp

theorem rng_requests_concat_witness:
  "(concat (fst (rng_requests (\<lambda>_. 7) [4, 8] rng_boot)), snd (rng_requests (\<lambda>_. 7) [4, 8] rng_boot)) =
     rng_get_bytes (\<lambda>_. 7) 12 rng_boot"
  using rng_requests_concat [of "[4, 8]" "\<lambda>_. 7" rng_boot] by simp

section \<open>The bytes are a ChaCha20 keystream\<close>

text \<open>Byte \<open>j\<close> of the keystream of a state: byte \<open>j mod 64\<close> of block \<open>j div 64\<close>.\<close>

definition keystream_byte :: "u32 list \<Rightarrow> nat \<Rightarrow> u8" where
  "keystream_byte st j = chacha20_block (st[12 := st ! 12 + of_nat (j div 64)]) ! (j mod 64)"

text \<open>The generator started in \<open>st\<close> after it has handed out \<open>j\<close> bytes.\<close>

definition rng_at :: "u32 list \<Rightarrow> nat \<Rightarrow> rng \<Rightarrow> bool" where
  "rng_at st j s \<longleftrightarrow> rng_state s = st[12 := st ! 12 + of_nat ((j + 63) div 64)] \<and>
     (if j mod 64 = 0 then buf_pos s = 64
      else buf_pos s = j mod 64 \<and> rng_buf s = chacha20_block (st[12 := st ! 12 + of_nat (j div 64)]))"

lemma counter_not_zero:
  assumes "q + 2 < 2 ^ 32"
  shows "(1 :: u32) + of_nat q + 1 \<noteq> 0"
proof -
  have "(1 :: u32) + of_nat q + 1 = of_nat (q + 2)" by simp
  moreover have "unat (of_nat (q + 2) :: u32) = q + 2" using assms by (intro unat_of_nat_small) simp
  ultimately show ?thesis by (metis unat_0 add_is_0 zero_neq_numeral)
qed

lemma rng_byte_at:
  assumes "rng_at st j s" and "length st = 16" and "st ! 12 = 1" and "j < 64 * (2 ^ 32 - 2)"
  shows "fst (rng_byte cnt s) = keystream_byte st j \<and> rng_at st (Suc j) (snd (rng_byte cnt s))"
proof (cases "j mod 64 = 0")
  case True
  define q where "q = j div 64"
  have j: "j = 64 * q" using True mult_div_mod_eq [of 64 j] by (simp add: q_def)
  have div: "(j + 63) div 64 = q" "(j + 64) div 64 = Suc q" "Suc j mod 64 = 1" "Suc j div 64 = q"
    unfolding j by simp_all
  have nz: "(1 :: u32) + of_nat q + 1 \<noteq> 0" by (rule counter_not_zero) (use assms(4) j in simp)
  have s: "rng_state s = st[12 := 1 + of_nat q]" "buf_pos s = 64"
    using assms(1,3) True by (simp_all add: rng_at_def div)
  have "rng_refill cnt s = s\<lparr>rng_buf := chacha20_block (st[12 := 1 + of_nat q]),
      rng_state := st[12 := 1 + of_nat q + 1], buf_pos := 0\<rparr>"
    using nz assms(2) by (simp add: rng_refill_def s bump_counter_def Let_def)
  then show ?thesis
    using assms(3) True by (simp add: rng_byte_def Let_def keystream_byte_def rng_at_def div q_def [symmetric] ac_simps)
next
  case False
  have "j mod 64 < 64" by simp
  then have refill: "rng_refill cnt s = s" using assms(1) False by (simp add: rng_refill_def rng_at_def)
  have "(Suc j + 63) div 64 = Suc (j div 64)" by simp
  moreover have "j mod 64 < 64" "0 < j mod 64" using False by simp_all
  then have "(j + 63) div 64 = Suc (j div 64)"
    using mult_div_mod_eq [of 64 j] by (intro div_nat_eqI; unfold mult_Suc_right; linarith)
  ultimately have up: "(Suc j + 63) div 64 = (j + 63) div 64" by simp
  have div: "Suc j mod 64 \<noteq> 0 \<Longrightarrow> Suc j div 64 = j div 64"
    "Suc j mod 64 \<noteq> 0 \<Longrightarrow> Suc j mod 64 = Suc (j mod 64)" "Suc j mod 64 = 0 \<Longrightarrow> Suc (j mod 64) = 64"
    by (simp_all add: mod_Suc div_Suc split: if_splits)
  show ?thesis
    using assms(1) False div
    unfolding rng_byte_def Let_def refill keystream_byte_def rng_at_def up by simp
qed

lemma rng_loop_at:
  assumes "rng_at st j s" and "length st = 16" and "st ! 12 = 1" and "j + n \<le> 64 * (2 ^ 32 - 2)"
  shows "fst (rng_loop cnt n s) = map (keystream_byte st) [j..<j + n]"
  using assms
proof (induction n arbitrary: j s)
  case (Suc n)
  have step: "fst (rng_byte cnt s) = keystream_byte st j" "rng_at st (Suc j) (snd (rng_byte cnt s))"
    using rng_byte_at [OF Suc.prems(1-3)] Suc.prems(4) by simp_all
  have "fst (rng_loop cnt n (snd (rng_byte cnt s))) = map (keystream_byte st) [Suc j..<Suc j + n]"
    using Suc.prems by (intro Suc.IH step) simp_all
  then show ?case by (simp add: Let_def split_beta step upt_conv_Cons del: upt_Suc)
qed simp

text \<open>
  The bytes handed out after power on, up to the wrap of the 32-bit block counter, are the
  ChaCha20 keystream, blocks 1, 2, and so on, of a state computed from the first two timer
  readings alone.
\<close>

theorem rng_keystream:
  assumes "n \<le> 64 * (2 ^ 32 - 2)"
  shows "fst (rng_get_bytes cnt n rng_boot) =
    map (keystream_byte (bump_counter (seed_state (cnt 0) (cnt 1 XOR push_bit 17 (cnt 0))))) [0..<n]"
proof -
  let ?st = "bump_counter (seed_state (cnt 0) (cnt 1 XOR push_bit 17 (cnt 0)))"
  have st: "length ?st = 16" "?st ! 12 = 1" by (simp_all add: bump_counter_def seed_state_def)
  have "rng_at ?st 0 (rng_init cnt rng_boot)"
    using list_update_id [of ?st 12] by (simp add: rng_at_def rng_init_def rng_boot_def read_cntpct_def Let_def)
  from rng_loop_at [OF this st, of n cnt] show ?thesis
    using assms by (simp add: rng_get_bytes_def rng_boot_def)
qed

theorem rng_keystream_witness:
  "fst (rng_get_bytes (\<lambda>k. of_nat k) 40 rng_boot) =
    map (keystream_byte (bump_counter (seed_state 0 1))) [0..<40]"
  using rng_keystream [of 40 "\<lambda>k. of_nat k"] by simp

section \<open>The example of RFC 7539\<close>

text \<open>Section 2.2.1: a quarter round on a full state, with the result the document lists.\<close>

lemma rfc_7539_quarter_round:
  "quarter_round 2 7 8 13
     [0x879531e0, 0xc5ecf37d, 0x516461b1, 0xc9a62f8a, 0x44c20ef3, 0x3390af7f, 0xd9fc690b, 0x2a5f714c,
      0x53372767, 0xb00a5631, 0x974c541a, 0x359e9963, 0x5c971061, 0x3d631689, 0x2098d9d6, 0x91dbd320] =
     [0x879531e0, 0xc5ecf37d, 0xbdb886dc, 0xc9a62f8a, 0x44c20ef3, 0x3390af7f, 0xd9fc690b, 0xcfacafd2,
      0xe46bea80, 0xb00a5631, 0x974c541a, 0x359e9963, 0x5c971061, 0xccc07c79, 0x2098d9d6, 0x91dbd320]"
  by code_simp

end
