(* ===== verification/Printk.thy ===== *)
theory Printk
  imports Queue
begin

text \<open>
  Kernel messages, printk.c: the format interpreter that \<open>vprintk\<close> and \<open>vsnprintf\<close> share but for
  the prefix of hexadecimal numbers, the ring buffer of the log with \<open>dmesg\<close>, the console level, and
  the bounded buffer of \<open>snprintf\<close>.  What a format emits is a list of characters; a format string
  that reads beyond its end, or an argument that is not of the type the directive names, has no
  defined behaviour in C and is \<open>None\<close>.  The positions of the log count characters since the last
  clear; they are natural numbers, as 64 bits do not overflow in use.  The lemmas show that the log
  refines the list of the last 16384 characters, that \<open>vsnprintf\<close> never writes outside its buffer,
  and that printed numbers read back.
\<close>

section \<open>Numbers\<close>

definition digit_chars :: "bool \<Rightarrow> string" where
  "digit_chars upper = (if upper then ''0123456789ABCDEF'' else ''0123456789abcdef'')"

text \<open>The loop that fills \<open>buf\<close> from the last digit.\<close>

fun rev_digits :: "bool \<Rightarrow> nat \<Rightarrow> nat \<Rightarrow> string" where
  "rev_digits upper base num =
     (if num = 0 \<or> base < 2 then []
      else digit_chars upper ! (num mod base) # rev_digits upper base (num div base))"

declare rev_digits.simps [simp del]

definition fmt_uint :: "u64 \<Rightarrow> nat \<Rightarrow> nat \<Rightarrow> char \<Rightarrow> bool \<Rightarrow> string" where
  "fmt_uint num base width pad upper =
     (if num = 0 then replicate (width - 1) pad @ ''0''
      else (let buf = rev_digits upper base (unat num)
            in replicate (width - length buf) pad @ rev buf))"

definition fmt_int :: "u64 \<Rightarrow> nat \<Rightarrow> char \<Rightarrow> string" where
  "fmt_int num width pad =
     (if sint num < 0 then CHR ''-'' # fmt_uint (- num) 10 (if 0 < width then width - 1 else width) pad False
      else fmt_uint num 10 width pad False)"

definition fmt_ptr :: "u64 \<Rightarrow> string" where
  "fmt_ptr p = ''0x'' @ fmt_uint p 16 16 CHR ''0'' False"

section \<open>The format interpreter\<close>

text \<open>An argument is a register of 64 bits or a string, which may be \<open>NULL\<close>.\<close>

datatype arg = Num u64 | Str "string option"

definition is_digit :: "char \<Rightarrow> bool" where
  "is_digit c \<longleftrightarrow> c \<in> set ''0123456789''"

text \<open>The width, as the number its digits denote; widths of \<open>2 ^ 31\<close> or more, which overflow the \<open>int\<close> of
  the code, are not told apart.\<close>

fun parse_width :: "nat \<Rightarrow> string \<Rightarrow> nat \<times> string" where
  "parse_width w (c # p) = (if is_digit c then parse_width (w * 10 + (of_char c - 48)) p else (w, c # p))"
| "parse_width w [] = (w, [])"

definition skip_char :: "char \<Rightarrow> string \<Rightarrow> bool \<times> string" where
  "skip_char c p = (case p of [] \<Rightarrow> (False, []) | d # q \<Rightarrow> if d = c then (True, q) else (False, p))"

text \<open>Flags, width and length modifier; the minus sign is read and has no effect.\<close>

definition parse_flags :: "string \<Rightarrow> char \<times> nat \<times> bool \<times> string" where
  "parse_flags p =
     (let (left, p) = skip_char CHR ''-'' p;
          (zero, p) = skip_char CHR ''0'' p;
          (width, p) = parse_width 0 p;
          (is_long, p) = skip_char CHR ''l'' p
      in (if zero then CHR ''0'' else CHR '' '', width, is_long, p))"

definition sign_extend :: "u64 \<Rightarrow> u64" where
  "sign_extend v = scast (ucast v :: u32)"

definition zero_extend :: "u64 \<Rightarrow> u64" where
  "zero_extend v = ucast (ucast v :: u32)"

definition num_arg :: "(u64 \<Rightarrow> string) \<Rightarrow> arg list \<Rightarrow> (string \<times> arg list) option" where
  "num_arg f args = (case args of Num v # r \<Rightarrow> Some (f v, r) | _ \<Rightarrow> None)"

text \<open>One directive with its conversion character; \<open>hexpfx\<close> is what is printed before a
  hexadecimal number.\<close>

definition directive :: "string \<Rightarrow> char \<Rightarrow> nat \<Rightarrow> bool \<Rightarrow> char \<Rightarrow> arg list \<Rightarrow> (string \<times> arg list) option" where
  "directive hexpfx pad width is_long c args =
     (if c = CHR ''c'' then num_arg (\<lambda>v. [char_of (unat (ucast v :: u8))]) args
      else if c = CHR ''s'' then
        (case args of Str s # r \<Rightarrow> Some (case s of None \<Rightarrow> ''(null)'' | Some t \<Rightarrow> t, r) | _ \<Rightarrow> None)
      else if c = CHR ''d'' \<or> c = CHR ''i'' then
        num_arg (\<lambda>v. fmt_int (if is_long then v else sign_extend v) width pad) args
      else if c = CHR ''u'' then
        num_arg (\<lambda>v. fmt_uint (if is_long then v else zero_extend v) 10 width pad False) args
      else if c = CHR ''x'' \<or> c = CHR ''X'' then
        num_arg (\<lambda>v. hexpfx @ fmt_uint (if is_long then v else zero_extend v) 16 width pad (c = CHR ''X'')) args
      else if c = CHR ''p'' then num_arg fmt_ptr args
      else if c = CHR ''%'' then Some (''%'', args)
      else Some ([CHR ''%'', c], args))"

lemma parse_width_length: "length (snd (parse_width w p)) \<le> length p"
  by (induction w p rule: parse_width.induct) auto

lemma skip_char_length: "length (snd (skip_char c p)) \<le> length p"
  by (auto simp: skip_char_def split: list.splits)

lemma parse_flags_length: "length (snd (snd (snd (parse_flags p)))) \<le> length p"
proof -
  have "length (snd (skip_char CHR ''l'' (snd (parse_width 0 (snd (skip_char CHR ''0'' (snd (skip_char CHR ''-'' p)))))))) \<le> length p"
    by (meson skip_char_length parse_width_length le_trans)
  then show ?thesis by (simp add: parse_flags_def Let_def split_beta)
qed

function format_loop :: "string \<Rightarrow> string \<Rightarrow> arg list \<Rightarrow> string option" where
  "format_loop hexpfx p args =
     (case p of [] \<Rightarrow> Some []
      | c # q \<Rightarrow>
        if c = CHR ''%'' \<and> q \<noteq> [] then
          (let (pad, width, is_long, r) = parse_flags q
           in case r of [] \<Rightarrow> None
              | d # r \<Rightarrow>
                (case directive hexpfx pad width is_long d args of None \<Rightarrow> None
                 | Some (out, args) \<Rightarrow> map_option ((@) out) (format_loop hexpfx r args)))
        else map_option ((#) c) (format_loop hexpfx q args))"
  by auto
termination
proof (relation "measure (\<lambda>(hexpfx, p, args). length p)")
  fix hexpfx args p c q x pad y width z is_long r d r' out and args' :: "arg list"
  assume "p = c # q" "x = parse_flags q" "(pad, y) = x" "(width, z) = y" "(is_long, r) = z" "r = d # r'"
  then have "parse_flags q = (pad, width, is_long, d # r')" by simp
  then show "((hexpfx, r', args'), hexpfx, p, args) \<in> measure (\<lambda>(hexpfx, p, args). length p)"
    using parse_flags_length [of q] \<open>p = c # q\<close> by simp
qed auto

declare format_loop.simps [simp del]

section \<open>The log\<close>

definition LOG_BUF_SIZE :: nat where
  "LOG_BUF_SIZE = 16384"

record klog =
  log_buffer :: string
  log_head :: nat
  log_tail :: nat
  console_loglevel :: int
  output_sink :: bool
  console :: string

definition klog_boot :: klog where
  "klog_boot = \<lparr> log_buffer = replicate LOG_BUF_SIZE (CHR 0x00), log_head = 0, log_tail = 0,
     console_loglevel = 6, output_sink = False, console = [] \<rparr>"

definition fmt_putc :: "char \<Rightarrow> klog \<Rightarrow> klog" where
  "fmt_putc c s =
     (let s = s\<lparr>log_buffer := (log_buffer s)[log_head s mod LOG_BUF_SIZE := c], log_head := log_head s + 1\<rparr>;
          s = (if LOG_BUF_SIZE < log_head s - log_tail s then s\<lparr>log_tail := log_head s - LOG_BUF_SIZE\<rparr> else s)
      in if output_sink s then s\<lparr>console := console s @ [c]\<rparr> else s)"

definition fmt_puts :: "string \<Rightarrow> klog \<Rightarrow> klog" where
  "fmt_puts = fold fmt_putc"

definition level_of :: "string \<Rightarrow> int \<times> string" where
  "level_of fmt =
     (case fmt of a # b # c # p \<Rightarrow> if a = CHR ''<'' \<and> c = CHR ''>'' then (int (of_char b) - 48, p) else (6, fmt)
      | _ \<Rightarrow> (6, fmt))"

definition vprintk :: "string \<Rightarrow> arg list \<Rightarrow> klog \<Rightarrow> klog option" where
  "vprintk fmt args s =
     (let (level, p) = level_of fmt
      in if console_loglevel s < level then Some s
         else map_option (\<lambda>out. fmt_puts out s) (format_loop [] p args))"

definition printk_init :: "bool \<Rightarrow> klog \<Rightarrow> klog option" where
  "printk_init sink s = vprintk (''<6>Crimson OS Kernel Log initialized'' @ [CHR 0x0A]) []
     (s\<lparr>output_sink := sink, log_head := 0, log_tail := 0\<rparr>)"

definition printk_set_level :: "int \<Rightarrow> klog \<Rightarrow> klog" where
  "printk_set_level level s = (if 0 \<le> level \<and> level \<le> 7 then s\<lparr>console_loglevel := level\<rparr> else s)"

definition printk_get_level :: "klog \<Rightarrow> int" where
  "printk_get_level s = console_loglevel s"

text \<open>\<open>dmesg\<close> returns the characters it puts before the final zero; \<open>None\<close> is a \<open>NULL\<close> buffer or one of size 0.\<close>

definition dmesg :: "nat \<Rightarrow> klog \<Rightarrow> string option" where
  "dmesg sz s =
     (if sz = 0 then None
      else (let available = (if log_tail s \<le> log_head s then log_head s - log_tail s
                             else LOG_BUF_SIZE - log_tail s + log_head s);
                to_copy = (if available < sz - 1 then available else sz - 1)
            in Some (map (\<lambda>i. log_buffer s ! ((log_tail s + i) mod LOG_BUF_SIZE)) [0..<to_copy])))"

definition dmesg_clear :: "klog \<Rightarrow> klog" where
  "dmesg_clear s = s\<lparr>log_head := 0, log_tail := 0\<rparr>"

section \<open>Formatting into a buffer\<close>

text \<open>\<open>buf\<close> is the memory from \<open>str\<close> on, of which the first \<open>size\<close> characters belong to the caller's buffer.\<close>

record fmt_buf =
  fb_buf :: string
  fb_size :: nat
  fb_pos :: nat

definition snprintf_putc :: "char \<Rightarrow> fmt_buf \<Rightarrow> fmt_buf" where
  "snprintf_putc c fb =
     (if fb_pos fb < fb_size fb - 1
      then fb\<lparr>fb_buf := (fb_buf fb)[fb_pos fb := c, fb_pos fb + 1 := CHR 0x00], fb_pos := fb_pos fb + 1\<rparr>
      else fb)"

definition vsnprintf :: "string \<Rightarrow> nat \<Rightarrow> string \<Rightarrow> arg list \<Rightarrow> (string \<times> nat) option" where
  "vsnprintf str sz fmt args =
     (if sz = 0 then Some (str, 0)
      else map_option
        (\<lambda>out. let fb = fold snprintf_putc out \<lparr> fb_buf = str[0 := CHR 0x00], fb_size = sz, fb_pos = 0 \<rparr>
               in ((fb_buf fb)[(if fb_pos fb < sz then fb_pos fb else sz - 1) := CHR 0x00], fb_pos fb))
        (format_loop ''0x'' fmt args))"

section \<open>The log refines a bounded history\<close>

lemma LOG_BUF_SIZE_pos [simp]: "0 < LOG_BUF_SIZE"
  by (simp add: LOG_BUF_SIZE_def)

definition log_ok :: "klog \<Rightarrow> bool" where
  "log_ok s \<longleftrightarrow> length (log_buffer s) = LOG_BUF_SIZE \<and> log_tail s \<le> log_head s \<and> log_head s \<le> log_tail s + LOG_BUF_SIZE"

text \<open>The characters the log holds, newest first.\<close>

definition log_view :: "klog \<Rightarrow> string" where
  "log_view s = rev (ring_view (log_buffer s) (log_tail s) (log_head s - log_tail s))"

lemma fmt_putc_ok: "log_ok s \<Longrightarrow> log_ok (fmt_putc c s)"
  by (auto simp: log_ok_def fmt_putc_def Let_def)

lemma fmt_putc_view:
  assumes "log_ok s"
  shows "log_view (fmt_putc c s) = take LOG_BUF_SIZE (c # log_view s)"
proof -
  define b t n where "b = log_buffer s" and "t = log_tail s" and "n = log_head s - log_tail s"
  have len: "length b = LOG_BUF_SIZE" and head: "log_head s = t + n" and n: "n \<le> LOG_BUF_SIZE"
    using assms by (auto simp: log_ok_def b_def t_def n_def)
  show ?thesis
  proof (cases "n = LOG_BUF_SIZE")
    case False
    with n have "n < length b" by (simp add: len)
    from ring_view_push [OF this, of t c] False n show ?thesis
      by (simp add: log_view_def fmt_putc_def Let_def head len flip: b_def t_def)
  next
    case True
    then obtain m where m: "n = Suc m" "LOG_BUF_SIZE = Suc m" by (cases n) (auto simp: LOG_BUF_SIZE_def)
    have "(t + n) mod length b = (t + 1 + m) mod length b" by (simp add: m)
    then have "ring_view (b[(t + n) mod length b := c]) (t + 1) n = ring_view b (t + 1) m @ [c]"
      using ring_view_push [of m b "t + 1" c] by (simp add: len m)
    moreover have "ring_view b t n = b ! (t mod length b) # ring_view b (t + 1) m"
      by (simp add: m(1) ring_view_pop) (simp add: ring_view_def mod_simps)
    ultimately show ?thesis
      using True by (simp add: log_view_def fmt_putc_def Let_def head len m flip: b_def t_def)
  qed
qed

interpretation klog: bounded_log fmt_putc log_view log_ok LOG_BUF_SIZE
  by unfold_locales (simp_all add: fmt_putc_ok fmt_putc_view)

lemma log_view_bound: "log_ok s \<Longrightarrow> length (log_view s) \<le> LOG_BUF_SIZE"
  by (auto simp: log_view_def log_ok_def)

lemma dmesg_view: "log_ok s \<Longrightarrow> 0 < sz \<Longrightarrow> dmesg sz s = Some (take (sz - 1) (rev (log_view s)))"
  by (auto simp: dmesg_def log_ok_def log_view_def ring_view_def take_map take_upt Let_def)

text \<open>The fields printing leaves alone.\<close>

lemma fmt_putc_level [simp]: "console_loglevel (fmt_putc c s) = console_loglevel s" "output_sink (fmt_putc c s) = output_sink s"
  by (simp_all add: fmt_putc_def Let_def)

lemma fmt_puts_level [simp]: "console_loglevel (fmt_puts cs s) = console_loglevel s" "output_sink (fmt_puts cs s) = output_sink s"
  by (induction cs arbitrary: s) (simp_all add: fmt_puts_def)

lemma fmt_puts_append: "fmt_puts (cs @ ds) s = fmt_puts ds (fmt_puts cs s)"
  by (simp add: fmt_puts_def)

lemma fmt_puts_console: "console (fmt_puts cs s) = (if output_sink s then console s @ cs else console s)"
  by (induction cs arbitrary: s) (auto simp: fmt_puts_def fmt_putc_def Let_def)

text \<open>A list of messages, each a format with its arguments.\<close>

primrec printk_all :: "(string \<times> arg list) list \<Rightarrow> klog \<Rightarrow> klog option" where
  "printk_all [] s = Some s"
| "printk_all (m # ms) s = (case vprintk (fst m) (snd m) s of None \<Rightarrow> None | Some s \<Rightarrow> printk_all ms s)"

text \<open>The messages of \<open>printk_hexdump\<close>: a row for every 16 bytes.\<close>

definition hexdump_row :: "u64 \<Rightarrow> u8 list \<Rightarrow> nat \<Rightarrow> (string \<times> arg list) list" where
  "hexdump_row p d i =
     [(''%p  '', [Num (p + of_nat i)])]
     @ concat (map (\<lambda>j. (if i + j < length d then (''%02x '', [Num (ucast (d ! (i + j)))]) else (''   '', []))
          # (if j = 7 then [('' '', [])] else [])) [0..<16])
     @ [('' |'', [])]
     @ map (\<lambda>b. if 32 \<le> b \<and> b < 127 then (''%c'', [Num (ucast b)]) else (''.'', [])) (take 16 (drop i d))
     @ [(''|'' @ [CHR 0x0A], [])]"

definition printk_hexdump :: "u64 \<Rightarrow> u8 list \<Rightarrow> klog \<Rightarrow> klog option" where
  "printk_hexdump p d s =
     printk_all (concat (map (\<lambda>r. hexdump_row p d (16 * r)) [0..<(length d + 15) div 16])) s"

text \<open>What a message emits: nothing when its level is above the threshold.\<close>

definition emitted :: "int \<Rightarrow> string \<times> arg list \<Rightarrow> string" where
  "emitted lim m = (if lim < fst (level_of (fst m)) then []
     else case format_loop [] (snd (level_of (fst m))) (snd m) of None \<Rightarrow> [] | Some out \<Rightarrow> out)"

lemma vprintk_emits: "vprintk fmt args s = Some s' \<Longrightarrow> s' = fmt_puts (emitted (console_loglevel s) (fmt, args)) s"
  by (auto simp: vprintk_def emitted_def split_beta fmt_puts_def split: if_splits)

lemma printk_all_emits:
  "printk_all ms s = Some s' \<Longrightarrow> s' = fmt_puts (concat (map (emitted (console_loglevel s)) ms)) s"
proof (induction ms arbitrary: s)
  case (Cons m ms)
  then obtain s1 where s1: "vprintk (fst m) (snd m) s = Some s1" "printk_all ms s1 = Some s'"
    by (auto split: option.splits)
  from vprintk_emits [OF s1(1)] have "s1 = fmt_puts (emitted (console_loglevel s) m) s" by simp
  with Cons.IH [OF s1(2)] show ?case by (simp add: fmt_puts_append)
qed (simp add: fmt_puts_def)

text \<open>
  C31: The log refines the bounded history of what was printed: after any messages on a cleared log,
  \<open>dmesg\<close> returns the last 16384 characters of the messages the level let through, from the oldest
  on and cut to the reader's buffer, and the console has received all of them.
\<close>

theorem dmesg_history:
  assumes "log_ok s" and "printk_all ms (dmesg_clear s) = Some s'" and "0 < sz"
  defines "out \<equiv> concat (map (emitted (console_loglevel s)) ms)"
  shows "dmesg sz s' = Some (take (sz - 1) (drop (length out - LOG_BUF_SIZE) out)) \<and>
    console s' = console s @ (if output_sink s then out else [])"
proof -
  have s': "s' = fold fmt_putc out (dmesg_clear s)"
    using printk_all_emits [OF assms(2)] by (simp add: out_def fmt_puts_def dmesg_clear_def)
  have ok: "log_ok (dmesg_clear s)" "log_view (dmesg_clear s) = []"
    using assms(1) by (auto simp: log_ok_def dmesg_clear_def log_view_def ring_view_def)
  have "log_view s' = take LOG_BUF_SIZE (rev out)" "log_ok s'"
    unfolding s' using klog.fold_view [of "dmesg_clear s" out] klog.fold_inv [of "dmesg_clear s" out] ok by simp_all
  then have "dmesg sz s' = Some (take (sz - 1) (drop (length out - LOG_BUF_SIZE) out))"
    using assms(3) by (simp add: dmesg_view rev_take)
  moreover have "console s' = console s @ (if output_sink s then out else [])"
    using fmt_puts_console [of out "dmesg_clear s"] by (simp add: s' fmt_puts_def dmesg_clear_def)
  ultimately show ?thesis ..
qed

theorem dmesg_history_witness:
  "dmesg 5 (fmt_puts ''ab%'' (dmesg_clear klog_boot)) = Some ''ab%''"
proof -
  have loops: "format_loop [] ''a%c'' [Num 98] = Some ''ab''" "format_loop [] ''%%'' [] = Some ''%''"
    by code_simp+
  have out: "emitted 6 (''<6>a%c'', [Num 98]) = ''ab''" "emitted 6 (''<7>no'', []) = []" "emitted 6 (''%%'', []) = ''%''"
    using loops by (simp_all add: emitted_def level_of_def)
  have run: "printk_all [(''<6>a%c'', [Num 98]), (''<7>no'', []), (''%%'', [])] (dmesg_clear klog_boot) =
      Some (fmt_puts ''ab%'' (dmesg_clear klog_boot))"
    using loops by (simp add: vprintk_def level_of_def fmt_puts_def dmesg_clear_def klog_boot_def)
  have "log_ok klog_boot" by (simp add: log_ok_def klog_boot_def)
  from dmesg_history [OF this run, of 5] show ?thesis
    using out by (simp add: klog_boot_def LOG_BUF_SIZE_def)
qed

section \<open>\<open>vsnprintf\<close> stays inside its buffer\<close>

definition fb_holds :: "string \<Rightarrow> nat \<Rightarrow> string \<Rightarrow> fmt_buf \<Rightarrow> bool" where
  "fb_holds str sz out fb \<longleftrightarrow> fb_size fb = sz \<and> fb_pos fb = min (sz - 1) (length out) \<and>
     length (fb_buf fb) = length str \<and> take (fb_pos fb) (fb_buf fb) = take (sz - 1) out \<and>
     fb_buf fb ! fb_pos fb = CHR 0x00 \<and> (\<forall>i. fb_pos fb < i \<longrightarrow> fb_buf fb ! i = str ! i)"

lemma snprintf_putc_holds:
  assumes "fb_holds str sz out fb" and "0 < sz" and "sz \<le> length str"
  shows "fb_holds str sz (out @ [c]) (snprintf_putc c fb)"
proof (cases "fb_pos fb < sz - 1")
  case True
  then have len: "length out < sz - 1" "fb_pos fb = length out" using assms(1) by (auto simp: fb_holds_def)
  let ?b = "(fb_buf fb)[length out := c, length out + 1 := CHR 0x00]"
  have b: "length out < length (fb_buf fb)" using assms len by (simp add: fb_holds_def)
  have "take (Suc (length out)) ?b = take (length out) (fb_buf fb) @ [c]"
    using b by (simp add: take_Suc_conv_app_nth)
  then show ?thesis
    using assms len b by (auto simp: fb_holds_def snprintf_putc_def)
next
  case False
  then show ?thesis using assms by (auto simp: fb_holds_def snprintf_putc_def)
qed

lemma snprintf_fold_holds:
  "fb_holds str sz out fb \<Longrightarrow> 0 < sz \<Longrightarrow> sz \<le> length str \<Longrightarrow> fb_holds str sz (out @ cs) (fold snprintf_putc cs fb)"
proof (induction cs arbitrary: out fb)
  case (Cons c cs)
  from Cons.IH [OF snprintf_putc_holds [OF Cons.prems(1-3)] Cons.prems(2,3)] show ?case by simp
qed simp

text \<open>
  C34: \<open>vsnprintf\<close> stores what the format emits, cut to the buffer and ended by a zero, changes nothing
  after that zero, in particular nothing outside the buffer, and returns how many characters it stored.
\<close>

theorem vsnprintf_stays_inside:
  assumes "vsnprintf str sz fmt args = Some (str', n)" and "0 < sz" and "sz \<le> length str"
  shows "\<exists>out. format_loop ''0x'' fmt args = Some out \<and> n = min (sz - 1) (length out) \<and>
    take n str' = take (sz - 1) out \<and> str' ! n = CHR 0x00 \<and> length str' = length str \<and>
    (\<forall>i. n < i \<longrightarrow> str' ! i = str ! i)"
proof -
  from assms(1,2) obtain out where out: "format_loop ''0x'' fmt args = Some out"
    by (auto simp: vsnprintf_def)
  define fb where "fb = fold snprintf_putc out \<lparr> fb_buf = str[0 := CHR 0x00], fb_size = sz, fb_pos = 0 \<rparr>"
  have "str[0 := CHR 0x00] ! 0 = CHR 0x00" using assms(2,3) by (intro nth_list_update_eq) linarith
  then have "fb_holds str sz [] \<lparr> fb_buf = str[0 := CHR 0x00], fb_size = sz, fb_pos = 0 \<rparr>"
    using assms(2,3) by (auto simp: fb_holds_def)
  from snprintf_fold_holds [OF this assms(2,3), of out] have fb: "fb_holds str sz out fb"
    by (simp add: fb_def)
  have "(fb_buf fb)[fb_pos fb := CHR 0x00] = fb_buf fb"
    using fb list_update_id [of "fb_buf fb" "fb_pos fb"] unfolding fb_holds_def by metis
  moreover have "fb_pos fb < sz" using fb assms(2) by (auto simp: fb_holds_def)
  ultimately have "str' = fb_buf fb" "n = fb_pos fb"
    using assms(1,2) by (simp_all add: vsnprintf_def out Let_def flip: fb_def)
  with fb out show ?thesis by (auto simp: fb_holds_def)
qed

theorem vsnprintf_stays_inside_witness:
  "\<exists>out. format_loop ''0x'' ''n%d%x'' [Num 7, Num 255] = Some out \<and> 3 = min 3 (length out) \<and>
    take 3 (''n70'' @ [CHR 0x00] @ ''efgh'') = take 3 out \<and> (''n70'' @ [CHR 0x00] @ ''efgh'') ! 3 = CHR 0x00"
proof -
  have "vsnprintf ''abcdefgh'' 4 ''n%d%x'' [Num 7, Num 255] = Some (''n70'' @ [CHR 0x00] @ ''efgh'', 3)"
    by code_simp
  from vsnprintf_stays_inside [OF this] show ?thesis by auto
qed

section \<open>Numbers read back\<close>

definition digit_value :: "char \<Rightarrow> nat" where
  "digit_value c = (let n = of_char c in if n < 58 then n - 48 else if n < 71 then n - 55 else n - 87)"

definition read_number :: "nat \<Rightarrow> string \<Rightarrow> nat" where
  "read_number base s = foldl (\<lambda>v c. v * base + digit_value c) 0 s"

lemma digit_value_chars: "d < 16 \<Longrightarrow> digit_value (digit_chars upper ! d) = d"
proof -
  have "\<forall>d \<in> {0..<16}. digit_value (digit_chars True ! d) = d" "\<forall>d \<in> {0..<16}. digit_value (digit_chars False ! d) = d"
    by code_simp+
  then show "d < 16 \<Longrightarrow> digit_value (digit_chars upper ! d) = d" by (cases upper) auto
qed

lemma read_rev_digits:
  "2 \<le> base \<Longrightarrow> base \<le> 16 \<Longrightarrow> read_number base (rev (rev_digits upper base num)) = num"
proof (induction upper base num rule: rev_digits.induct)
  case (1 upper base num)
  have "num mod base < 16" using 1(2,3) mod_less_divisor [of base num] by linarith
  then show ?case
    using 1 by (subst rev_digits.simps) (auto simp: read_number_def digit_value_chars mult.commute [of _ base])
qed

lemma length_rev_digits: "2 \<le> base \<Longrightarrow> num < base ^ k \<Longrightarrow> length (rev_digits upper base num) \<le> k"
proof (induction upper base num arbitrary: k rule: rev_digits.induct)
  case (1 upper base num)
  show ?case
  proof (cases "num = 0")
    case False
    with 1(3) obtain j where j: "k = Suc j" by (cases k) auto
    have "num div base < base ^ j" using 1(2,3) by (simp add: j less_mult_imp_div_less mult.commute)
    then show ?thesis using 1 False j by (subst rev_digits.simps) simp
  qed (simp add: rev_digits.simps)
qed

lemma read_zeros: "read_number base (replicate k CHR ''0'' @ s) = read_number base s"
  by (induction k) (simp_all add: read_number_def digit_value_def)

text \<open>
  A number printed with zeros for padding reads back as itself, in base 10 and in base 16 of both
  cases, and its digits fit the 32 characters the code has for them.
\<close>

theorem fmt_uint_reads_back:
  assumes "base = 10 \<or> base = 16"
  shows "read_number base (fmt_uint num base width CHR ''0'' upper) = unat num \<and>
    length (rev_digits upper base (unat num)) \<le> 32"
proof -
  have "unat num < 2 ^ 64" by (rule unat_u64_bound)
  also have "(2 :: nat) ^ 64 \<le> base ^ 20" using assms by auto
  finally have "length (rev_digits upper base (unat num)) \<le> 20"
    using assms by (intro length_rev_digits) auto
  moreover have "read_number base (fmt_uint num base width CHR ''0'' upper) = unat num"
    using assms read_rev_digits [of base upper "unat num"]
    by (auto simp: fmt_uint_def Let_def read_zeros) (simp_all add: read_number_def digit_value_def)
  ultimately show ?thesis by simp
qed

theorem fmt_uint_reads_back_witness:
  "read_number 16 (fmt_uint 0xCAFE 16 8 CHR ''0'' True) = 0xCAFE \<and> length (rev_digits True 16 0xCAFE) \<le> 32"
  using fmt_uint_reads_back [of 16 "0xCAFE" 8 True] by simp

end
