(* ===== verification/SoftTimer.thy ===== *)
theory SoftTimer
  imports Prelude
begin

text \<open>
  The timer driver, timer.c: conversions of counter values, busy waiting, the software timers and
  the interrupt handler.  The virtual counter \<open>cntvct_el0\<close> is an argument: operations that read it
  once take the reading \<open>count\<close>, the waiting loops take \<open>cnt\<close>, where reading number \<open>k\<close> returns
  \<open>cnt k\<close>.  Writes to the control registers are the fields \<open>tval\<close> and \<open>ctl\<close>.  A callback is
  a number; what the function with that number does to the timers is the argument \<open>call\<close>, and the
  calls made are returned in order.  The lemmas show when a timer fires, that waiting ends and is
  long enough also when the counter wraps, and up to which counter values the conversions are exact.
\<close>

section \<open>State\<close>

record soft_timer =
  active :: bool
  expiry :: u64
  interval :: u32
  callback :: "nat option"
  cb_arg :: nat

definition MAX_SOFT_TIMERS :: nat where
  "MAX_SOFT_TIMERS = 16"

record timers =
  timer_frequency :: u32
  timer_ticks :: u64
  boot_time_us :: u64
  soft_timers :: "soft_timer list"
  sched_callback :: "nat option"
  tval :: u32
  ctl :: u32

definition timers_boot :: timers where
  "timers_boot = \<lparr> timer_frequency = 0, timer_ticks = 0, boot_time_us = 0,
     soft_timers = replicate MAX_SOFT_TIMERS \<lparr> active = False, expiry = 0, interval = 0, callback = None, cb_arg = 0 \<rparr>,
     sched_callback = None, tval = 0, ctl = 0 \<rparr>"

definition timer_init :: "u64 \<Rightarrow> u64 \<Rightarrow> timers \<Rightarrow> timers" where
  "timer_init freq count s =
     (let s = s\<lparr>timer_frequency := ucast freq\<rparr>;
          s = s\<lparr>boot_time_us := (count * 1000000) div ucast (timer_frequency s)\<rparr>
      in s\<lparr>soft_timers := map (\<lambda>t. t\<lparr>active := False\<rparr>) (soft_timers s)\<rparr>)"

definition timer_init_sched :: "timers \<Rightarrow> timers" where
  "timer_init_sched s = s\<lparr>ctl := 1, tval := timer_frequency s div 100\<rparr>"

section \<open>Reading the time\<close>

definition timer_get_uptime_ms :: "timers \<Rightarrow> u64 \<Rightarrow> u64" where
  "timer_get_uptime_ms s count = (count * 1000) div ucast (timer_frequency s)"

definition timer_get_uptime_us :: "timers \<Rightarrow> u64 \<Rightarrow> u64" where
  "timer_get_uptime_us s count = (count * 1000000) div ucast (timer_frequency s)"

definition timer_get_uptime_seconds :: "timers \<Rightarrow> u64 \<Rightarrow> u64" where
  "timer_get_uptime_seconds s count = timer_get_uptime_ms s count div 1000"

definition timer_get_freq_mhz :: "timers \<Rightarrow> u32" where
  "timer_get_freq_mhz s = timer_frequency s div 1000000"

definition timer_cycles_to_ns :: "timers \<Rightarrow> u64 \<Rightarrow> u64" where
  "timer_cycles_to_ns s cycles = (cycles * 1000000000) div ucast (timer_frequency s)"

definition timer_cycles_to_us :: "timers \<Rightarrow> u64 \<Rightarrow> u64" where
  "timer_cycles_to_us s cycles = (cycles * 1000000) div ucast (timer_frequency s)"

definition timer_cycles_to_ms :: "timers \<Rightarrow> u64 \<Rightarrow> u64" where
  "timer_cycles_to_ms s cycles = (cycles * 1000) div ucast (timer_frequency s)"

definition timer_perf_end :: "timers \<Rightarrow> u64 \<Rightarrow> u64 \<Rightarrow> u64" where
  "timer_perf_end s start_cycles count = timer_cycles_to_ns s (count - start_cycles)"

section \<open>Busy waiting\<close>

text \<open>
  The loop makes reading \<open>k\<close>, \<open>k + 1\<close>, and so on until the wait is over, and returns the number
  of readings made; as many as \<open>fuel\<close> are allowed.
\<close>

primrec delay_loop :: "nat \<Rightarrow> (nat \<Rightarrow> u64) \<Rightarrow> u64 \<Rightarrow> u64 \<Rightarrow> nat \<Rightarrow> nat option" where
  "delay_loop 0 cnt start ticks k = None"
| "delay_loop (Suc fuel) cnt start ticks k =
     (if cnt k - start < ticks then delay_loop fuel cnt start ticks (Suc k) else Some (Suc k))"

definition timer_delay_ms :: "nat \<Rightarrow> (nat \<Rightarrow> u64) \<Rightarrow> timers \<Rightarrow> u32 \<Rightarrow> nat option" where
  "timer_delay_ms fuel cnt s ms =
     delay_loop fuel cnt (cnt 0) ((ucast ms * ucast (timer_frequency s)) div 1000) 1"

definition timer_delay_us :: "nat \<Rightarrow> (nat \<Rightarrow> u64) \<Rightarrow> timers \<Rightarrow> u32 \<Rightarrow> nat option" where
  "timer_delay_us fuel cnt s us =
     delay_loop fuel cnt (cnt 0) ((ucast us * ucast (timer_frequency s)) div 1000000) 1"

section \<open>The scheduler's timer\<close>

definition timer_set_callback :: "int \<Rightarrow> nat option \<Rightarrow> timers \<Rightarrow> timers" where
  "timer_set_callback timer_id f s = (if timer_id = 0 then s\<lparr>sched_callback := f\<rparr> else s)"

definition timer_start_periodic :: "int \<Rightarrow> u32 \<Rightarrow> timers \<Rightarrow> timers" where
  "timer_start_periodic timer_id hz s = (if timer_id = 0 then s\<lparr>tval := timer_frequency s div hz\<rparr> else s)"

definition timer_stop :: "int \<Rightarrow> timers \<Rightarrow> timers" where
  "timer_stop timer_id s = (if timer_id = 0 then s\<lparr>ctl := 0\<rparr> else s)"

section \<open>Software timers\<close>

definition set_timer :: "nat \<Rightarrow> soft_timer \<Rightarrow> timers \<Rightarrow> timers" where
  "set_timer i t s = s\<lparr>soft_timers := (soft_timers s)[i := t]\<rparr>"

definition timer_create :: "nat option \<Rightarrow> nat \<Rightarrow> timers \<Rightarrow> int \<times> timers" where
  "timer_create f a s =
     (case find (\<lambda>i. \<not> active (soft_timers s ! i)) [0..<MAX_SOFT_TIMERS] of
        None \<Rightarrow> (-1, s)
      | Some i \<Rightarrow> (int i, set_timer i ((soft_timers s ! i)\<lparr>active := True, callback := f, cb_arg := a, interval := 0\<rparr>) s))"

definition bad_handle :: "int \<Rightarrow> bool" where
  "bad_handle handle \<longleftrightarrow> handle < 0 \<or> int MAX_SOFT_TIMERS \<le> handle"

definition timer_set_oneshot :: "int \<Rightarrow> u32 \<Rightarrow> u64 \<Rightarrow> timers \<Rightarrow> timers" where
  "timer_set_oneshot handle ms count s =
     (if bad_handle handle then s
      else (let t = soft_timers s ! nat handle
            in if active t
               then set_timer (nat handle) (t\<lparr>expiry := timer_get_uptime_ms s count + ucast ms, interval := 0\<rparr>) s
               else s))"

definition timer_set_periodic :: "int \<Rightarrow> u32 \<Rightarrow> u64 \<Rightarrow> timers \<Rightarrow> timers" where
  "timer_set_periodic handle ms count s =
     (if bad_handle handle then s
      else (let t = soft_timers s ! nat handle
            in if active t
               then set_timer (nat handle) (t\<lparr>expiry := timer_get_uptime_ms s count + ucast ms, interval := ms\<rparr>) s
               else s))"

definition timer_cancel :: "int \<Rightarrow> timers \<Rightarrow> timers" where
  "timer_cancel handle s =
     (if bad_handle handle then s
      else set_timer (nat handle) ((soft_timers s ! nat handle)\<lparr>interval := 0, expiry := 0\<rparr>) s)"

definition timer_destroy :: "int \<Rightarrow> timers \<Rightarrow> timers" where
  "timer_destroy handle s =
     (if bad_handle handle then s
      else set_timer (nat handle) ((soft_timers s ! nat handle)\<lparr>active := False\<rparr>) s)"

section \<open>The interrupt\<close>

type_synonym timer_calls = "(nat \<times> nat) list"

text \<open>One pass of the loop of \<open>timer_update_soft_timers\<close>.\<close>

definition fire_slot ::
    "(nat \<Rightarrow> nat \<Rightarrow> timers \<Rightarrow> timers) \<Rightarrow> u64 \<Rightarrow> nat \<Rightarrow> timer_calls \<times> timers \<Rightarrow> timer_calls \<times> timers" where
  "fire_slot call now i ls =
     (let (calls, s) = ls; t = soft_timers s ! i
      in if \<not> active t then ls
         else if expiry t = 0 then ls
         else if expiry t \<le> now then
           (let s = set_timer i (t\<lparr>expiry := (if 0 < interval t then now + ucast (interval t) else 0)\<rparr>) s
            in case callback t of None \<Rightarrow> (calls, s)
               | Some f \<Rightarrow> (calls @ [(f, cb_arg t)], call f (cb_arg t) s))
         else ls)"

definition timer_update_soft_timers ::
    "(nat \<Rightarrow> nat \<Rightarrow> timers \<Rightarrow> timers) \<Rightarrow> u64 \<Rightarrow> timers \<Rightarrow> timer_calls \<times> timers" where
  "timer_update_soft_timers call count s =
     fold (fire_slot call (timer_get_uptime_ms s count)) [0..<MAX_SOFT_TIMERS] ([], s)"

text \<open>The scheduler's callback is called with a null pointer, here 0; its call comes first.\<close>

definition timer_irq_handler ::
    "(nat \<Rightarrow> nat \<Rightarrow> timers \<Rightarrow> timers) \<Rightarrow> u64 \<Rightarrow> timers \<Rightarrow> timer_calls \<times> timers" where
  "timer_irq_handler call count s =
     (let s = s\<lparr>timer_ticks := timer_ticks s + 1, tval := timer_frequency s div 100\<rparr>;
          (pre, s) = (case sched_callback s of None \<Rightarrow> ([], s) | Some f \<Rightarrow> ([(f, 0)], call f 0 s));
          (calls, s) = timer_update_soft_timers call count s
      in (pre @ calls, s))"

section \<open>Waiting\<close>

text \<open>
  The counter shows \<open>c + time k\<close>, wrapping around, at reading \<open>k\<close>.  The wait is over at the first
  reading at least \<open>ticks\<close> after the start, wherever the counter started.
\<close>

lemma delay_loop_ends:
  assumes cnt: "\<And>j. cnt j = c + of_nat (time j)" and start: "time 0 = 0"
    and bound: "\<And>j. j \<le> m \<Longrightarrow> time j < 2 ^ 64"
    and late: "unat ticks \<le> time m" and early: "\<And>j. k \<le> j \<Longrightarrow> j < m \<Longrightarrow> time j < unat ticks"
    and "k \<le> m" and "m - k < fuel"
  shows "delay_loop fuel cnt (cnt 0) ticks k = Some (Suc m)"
  using early \<open>k \<le> m\<close> \<open>m - k < fuel\<close>
proof (induction fuel arbitrary: k)
  case (Suc fuel)
  have "cnt k - cnt 0 = of_nat (time k)" by (simp add: cnt start)
  moreover have "unat (of_nat (time k) :: u64) = time k"
    using bound [OF Suc.prems(2)] by (simp add: unat_of_nat_small)
  ultimately have test: "cnt k - cnt 0 < ticks \<longleftrightarrow> time k < unat ticks" by (simp add: word_less_nat_alt)
  show ?case
  proof (cases "k = m")
    case True
    then show ?thesis using test late by simp
  next
    case False
    then have "time k < unat ticks" using Suc.prems(1,2) by simp
    moreover have "delay_loop fuel cnt (cnt 0) ticks (Suc k) = Some (Suc m)"
      using Suc.prems False by (intro Suc.IH) auto
    ultimately show ?thesis using test by simp
  qed
qed simp

lemma unat_widen: "unat (ucast (x :: u32) :: u64) = unat x"
  using unsigned_less [of x, where ?'a = nat] by (simp add: unsigned_ucast_eq take_bit_nat_eq_self)

text \<open>
  A busy wait ends: if the counter moves by at least one tick between two readings, the wait of
  \<open>ms\<close> milliseconds returns after at most \<open>ticks + 1\<close> readings, the last of them, number \<open>m\<close>, is the
  first that is \<open>ms * frequency / 1000\<close> ticks or more after the start, and this holds also when the
  64-bit counter wraps around meanwhile.
\<close>

theorem timer_delay_ms_ends:
  assumes "\<And>j. cnt j = c + of_nat (time j)" and "time 0 = 0"
    and "\<And>j. time j < time (Suc j)" and "\<And>j. j \<le> ticks + 1 \<Longrightarrow> time j < 2 ^ 64"
    and "ticks = unat ms * unat (timer_frequency s) div 1000" and "ticks + 1 < fuel"
  shows "\<exists>m. timer_delay_ms fuel cnt s ms = Some (Suc m) \<and> m \<le> ticks + 1 \<and> 1 \<le> m \<and> ticks \<le> time m \<and>
    (\<forall>j. 1 \<le> j \<and> j < m \<longrightarrow> time j < ticks)"
proof -
  let ?w = "(ucast ms * ucast (timer_frequency s)) div 1000 :: u64"
  have "unat (ucast ms * ucast (timer_frequency s) :: u64) = unat ms * unat (timer_frequency s)"
  proof -
    have "unat ms * unat (timer_frequency s) < 2 ^ 32 * 2 ^ 32"
      using unsigned_less [of ms, where ?'a = nat] unsigned_less [of "timer_frequency s", where ?'a = nat]
      by (intro mult_strict_mono) simp_all
    then show ?thesis by (subst unat_mult_small) (simp_all add: unat_widen)
  qed
  then have w: "unat ?w = ticks" by (simp add: unat_div assms(5))
  have grow: "j \<le> time j" for j
  proof (induction j)
    case (Suc j)
    then show ?case using assms(3) [of j] by linarith
  qed simp
  define m where "m = (LEAST m. 1 \<le> m \<and> ticks \<le> time m)"
  have ex: "1 \<le> ticks + 1 \<and> ticks \<le> time (ticks + 1)" using grow [of "ticks + 1"] by simp
  have m: "1 \<le> m \<and> ticks \<le> time m" unfolding m_def by (rule LeastI [where P = "\<lambda>m. 1 \<le> m \<and> ticks \<le> time m", OF ex])
  have le: "m \<le> ticks + 1" unfolding m_def by (rule Least_le [where P = "\<lambda>m. 1 \<le> m \<and> ticks \<le> time m", OF ex])
  have early: "time j < ticks" if "1 \<le> j" "j < m" for j
    using not_less_Least [of j "\<lambda>m. 1 \<le> m \<and> ticks \<le> time m"] that by (auto simp: m_def)
  have "delay_loop fuel cnt (cnt 0) ?w 1 = Some (Suc m)"
    using assms(1,2) assms(4) m le early assms(6)
    by (intro delay_loop_ends [where c = c and time = time]) (auto simp: w)
  then show ?thesis using m le early by (auto simp: timer_delay_ms_def)
qed

theorem timer_delay_ms_ends_witness:
  "\<exists>m. timer_delay_ms 25 (\<lambda>j. - 3 + of_nat (2 * j)) (timers_boot\<lparr>timer_frequency := 1000\<rparr>) 20 = Some (Suc m) \<and>
     m \<le> 21 \<and> 1 \<le> m \<and> 20 \<le> 2 * m \<and> (\<forall>j. 1 \<le> j \<and> j < m \<longrightarrow> 2 * j < 20)"
proof -
  have "20 = unat (20 :: u32) * unat (timer_frequency (timers_boot\<lparr>timer_frequency := 1000\<rparr>)) div 1000"
    by simp
  from timer_delay_ms_ends [of "\<lambda>j. - 3 + of_nat (2 * j)" "- 3" "\<lambda>j. 2 * j", OF refl _ _ _ this, of 25]
  show ?thesis by simp
qed

section \<open>Conversions\<close>

text \<open>
  A conversion is exact as long as the product fits 64 bits: \<open>timer_cycles_to_ns\<close> for less than
  18446744073 cycles, which a 24 MHz counter reaches after 13 minutes.
\<close>

lemma scaled_div:
  assumes "unat count * unat k < 2 ^ 64"
  shows "unat (count * k div ucast (f :: u32) :: u64) = unat count * unat k div unat f"
  using assms by (simp add: unat_div unat_mult_small unat_widen)

lemma cycles_to_ns_exact:
  "unat cycles < 18446744073 \<Longrightarrow>
     unat (timer_cycles_to_ns s cycles) = unat cycles * 1000000000 div unat (timer_frequency s)"
  using scaled_div [of cycles 1000000000 "timer_frequency s"] by (simp add: timer_cycles_to_ns_def)

lemma uptime_us_exact:
  "unat count < 18446744073709 \<Longrightarrow>
     unat (timer_get_uptime_us s count) = unat count * 1000000 div unat (timer_frequency s)"
  using scaled_div [of count 1000000 "timer_frequency s"] by (simp add: timer_get_uptime_us_def)

text \<open>
  The bound is sharp: at 24 MHz the microsecond clock jumps back to 0 after 768614336404 microseconds.
\<close>

lemma uptime_us_wraps:
  "timer_get_uptime_us (timers_boot\<lparr>timer_frequency := 24000000\<rparr>) 18446744073709 = 768614336404 \<and>
   timer_get_uptime_us (timers_boot\<lparr>timer_frequency := 24000000\<rparr>) 18446744073710 = 0"
  by (simp add: timer_get_uptime_us_def timers_boot_def)

section \<open>When a timer fires\<close>

definition due :: "u64 \<Rightarrow> soft_timer \<Rightarrow> bool" where
  "due now t \<longleftrightarrow> active t \<and> expiry t \<noteq> 0 \<and> expiry t \<le> now"

definition rearm :: "u64 \<Rightarrow> soft_timer \<Rightarrow> soft_timer" where
  "rearm now t = (if due now t then t\<lparr>expiry := (if 0 < interval t then now + ucast (interval t) else 0)\<rparr> else t)"

definition calls_of :: "u64 \<Rightarrow> soft_timer \<Rightarrow> timer_calls" where
  "calls_of now t = (if due now t then (case callback t of None \<Rightarrow> [] | Some f \<Rightarrow> [(f, cb_arg t)]) else [])"

text \<open>The callbacks leave the software timers alone; what else they do is not restricted.\<close>

definition keeps_timers :: "(nat \<Rightarrow> nat \<Rightarrow> timers \<Rightarrow> timers) \<Rightarrow> bool" where
  "keeps_timers call \<longleftrightarrow>
     (\<forall>f a s. soft_timers (call f a s) = soft_timers s \<and> timer_frequency (call f a s) = timer_frequency s)"

lemma fire_slot_rearms:
  assumes "keeps_timers call" and "i < length (soft_timers s)"
  shows "fst (fire_slot call now i (calls, s)) = calls @ calls_of now (soft_timers s ! i) \<and>
    soft_timers (snd (fire_slot call now i (calls, s))) = (soft_timers s)[i := rearm now (soft_timers s ! i)]"
  using assms
  by (auto simp: fire_slot_def Let_def calls_of_def rearm_def due_def set_timer_def keeps_timers_def split: option.splits)

lemma fire_slots:
  assumes "keeps_timers call" and "n \<le> length (soft_timers s)"
  shows "fst (fold (fire_slot call now) [0..<n] ([], s)) = concat (map (calls_of now) (take n (soft_timers s))) \<and>
    soft_timers (snd (fold (fire_slot call now) [0..<n] ([], s))) =
      map (rearm now) (take n (soft_timers s)) @ drop n (soft_timers s)"
  using assms(2)
proof (induction n)
  case (Suc n)
  let ?r = "fold (fire_slot call now) [0..<n] ([], s)" and ?ts = "soft_timers s"
  have ih: "fst ?r = concat (map (calls_of now) (take n ?ts))"
    "soft_timers (snd ?r) = map (rearm now) (take n ?ts) @ drop n ?ts" and n: "n < length ?ts"
    using Suc by simp_all
  have at: "soft_timers (snd ?r) ! n = ?ts ! n" "n < length (soft_timers (snd ?r))"
    using n by (simp_all add: ih nth_append)
  have upd: "(soft_timers (snd ?r))[n := x] = map (rearm now) (take n ?ts) @ x # drop (Suc n) ?ts" for x
    using n by (simp add: ih list_update_append Cons_nth_drop_Suc [symmetric])
  have "fold (fire_slot call now) [0..<Suc n] ([], s) = fire_slot call now n (fst ?r, snd ?r)" by simp
  then show ?case
    using fire_slot_rearms [OF assms(1) at(2), of now "fst ?r"] n
    by (simp add: at(1) upd ih(1) take_Suc_conv_app_nth del: upt_Suc)
qed simp

definition timers_ok :: "timers \<Rightarrow> bool" where
  "timers_ok s \<longleftrightarrow> length (soft_timers s) = MAX_SOFT_TIMERS"

lemma update_rearms:
  assumes "keeps_timers call" and "timers_ok s"
  shows "fst (timer_update_soft_timers call count s) =
      concat (map (calls_of (timer_get_uptime_ms s count)) (soft_timers s)) \<and>
    soft_timers (snd (timer_update_soft_timers call count s)) =
      map (rearm (timer_get_uptime_ms s count)) (soft_timers s)"
  using fire_slots [OF assms(1), of MAX_SOFT_TIMERS s] assms(2)
  by (simp add: timer_update_soft_timers_def timers_ok_def)

text \<open>The times, among the times \<open>nows\<close> of successive interrupts, at which a timer fires.\<close>

primrec fire_times :: "u64 list \<Rightarrow> soft_timer \<Rightarrow> u64 list" where
  "fire_times [] t = []"
| "fire_times (now # nows) t = (if due now t then [now] else []) @ fire_times nows (rearm now t)"

primrec timer_run :: "(nat \<Rightarrow> nat \<Rightarrow> timers \<Rightarrow> timers) \<Rightarrow> u64 list \<Rightarrow> timers \<Rightarrow> timer_calls \<times> timers" where
  "timer_run call [] s = ([], s)"
| "timer_run call (count # counts) s =
     (let (calls, s) = timer_update_soft_timers call count s; (rest, s) = timer_run call counts s
      in (calls @ rest, s))"

lemma oneshot_times:
  "active t \<Longrightarrow> interval t = 0 \<Longrightarrow> expiry t \<noteq> 0 \<Longrightarrow> fire_times nows t = take 1 (filter (\<lambda>n. expiry t \<le> n) nows)"
proof (induction nows)
  case (Cons now nows)
  have "fire_times ns (t\<lparr>expiry := 0\<rparr>) = []" for ns
    by (induction ns) (simp_all add: due_def rearm_def)
  then show ?case using Cons by (simp add: due_def rearm_def)
qed simp

lemma fire_slot_frequency:
  "keeps_timers call \<Longrightarrow> timer_frequency (snd (fire_slot call now i ls)) = timer_frequency (snd ls)"
  by (cases ls) (simp add: fire_slot_def Let_def set_timer_def keeps_timers_def split: option.split)

lemma update_frequency:
  assumes "keeps_timers call"
  shows "timer_frequency (snd (timer_update_soft_timers call count s)) = timer_frequency s"
proof -
  have "timer_frequency (snd (fold (fire_slot call now) js ls)) = timer_frequency (snd ls)" for now js ls
    using fire_slot_frequency [OF assms] by (induction js arbitrary: ls) simp_all
  then show ?thesis by (simp add: timer_update_soft_timers_def)
qed

lemma rearm_fields [simp]:
  "callback (rearm now t) = callback t" "cb_arg (rearm now t) = cb_arg t"
  "active (rearm now t) = active t" "interval (rearm now t) = interval t"
  by (simp_all add: rearm_def)

text \<open>Slot \<open>h\<close> is the only one whose timer calls \<open>f\<close> with \<open>a\<close>.\<close>

definition sole_caller :: "nat \<Rightarrow> nat \<Rightarrow> nat \<Rightarrow> soft_timer list \<Rightarrow> bool" where
  "sole_caller h f a ts \<longleftrightarrow> h < length ts \<and> (\<forall>i < length ts. callback (ts ! i) = Some f \<and> cb_arg (ts ! i) = a \<longleftrightarrow> i = h)"

lemma sole_caller_rearm: "sole_caller h f a ts \<Longrightarrow> sole_caller h f a (map (rearm now) ts)"
  by (simp add: sole_caller_def)

lemma calls_of_count:
  "count_list (calls_of now t) (f, a) = (if due now t \<and> callback t = Some f \<and> cb_arg t = a then 1 else 0)"
proof -
  have "count_list (case c of None \<Rightarrow> [] | Some g \<Rightarrow> [(g, b)]) (f, a) = (if c = Some f \<and> b = a then 1 else 0)"
    for c and b :: nat
    by (cases c) simp_all
  then show ?thesis by (cases "due now t") (simp_all only: calls_of_def if_True if_False simp_thms count_list.simps)
qed

lemma no_calls:
  "(\<And>u. u \<in> set ts \<Longrightarrow> \<not> (callback u = Some f \<and> cb_arg u = a)) \<Longrightarrow>
     count_list (concat (map (calls_of now) ts)) (f, a) = 0"
proof (induction ts)
  case (Cons t ts)
  have "\<not> (callback t = Some f \<and> cb_arg t = a)" using Cons.prems [OF list.set_intros(1)] .
  then have "count_list (calls_of now t) (f, a) = 0" unfolding calls_of_count by simp
  moreover have "count_list (concat (map (calls_of now) ts)) (f, a) = 0"
    by (rule Cons.IH, rule Cons.prems) simp
  ultimately show ?case by simp
qed simp

lemma sole_calls:
  "sole_caller h f a ts \<Longrightarrow> count_list (concat (map (calls_of now) ts)) (f, a) = (if due now (ts ! h) then 1 else 0)"
proof (induction ts arbitrary: h)
  case (Cons t ts)
  show ?case
  proof (cases h)
    case 0
    have others: "\<not> (callback u = Some f \<and> cb_arg u = a)" if "u \<in> set ts" for u
    proof -
      from that obtain i where "i < length ts" "u = ts ! i" by (metis in_set_conv_nth)
      with Cons.prems 0 show "\<not> (callback u = Some f \<and> cb_arg u = a)"
        unfolding sole_caller_def by (metis Suc_less_eq length_Cons nat.distinct(1) nth_Cons_Suc)
    qed
    then have "count_list (concat (map (calls_of now) ts)) (f, a) = 0" by (rule no_calls)
    moreover have "callback t = Some f" "cb_arg t = a"
      using Cons.prems 0 by (auto simp: sole_caller_def)
    ultimately show ?thesis using 0 calls_of_count [of now t f a] by simp
  next
    case (Suc k)
    have "sole_caller k f a ts"
      using Cons.prems Suc unfolding sole_caller_def by (metis Suc_less_eq length_Cons nat.inject nth_Cons_Suc)
    moreover have "\<not> (callback t = Some f \<and> cb_arg t = a)"
      using Cons.prems Suc unfolding sole_caller_def by (metis length_Cons nat.distinct(1) nth_Cons_0 zero_less_Suc)
    ultimately show ?thesis
      using Cons.IH [of k] Suc calls_of_count [of now t f a] by simp
  qed
qed (simp add: sole_caller_def)

lemma run_calls:
  assumes "keeps_timers call" and "timers_ok s" and "sole_caller h f a (soft_timers s)"
  shows "count_list (fst (timer_run call counts s)) (f, a) =
    length (fire_times (map (timer_get_uptime_ms s) counts) (soft_timers s ! h))"
  using assms(2,3)
proof (induction counts arbitrary: s)
  case (Cons count counts)
  let ?u = "timer_update_soft_timers call count s" and ?now = "timer_get_uptime_ms s count"
  have upd: "fst ?u = concat (map (calls_of ?now) (soft_timers s))" "soft_timers (snd ?u) = map (rearm ?now) (soft_timers s)"
    using update_rearms [OF assms(1) Cons.prems(1)] by simp_all
  have ms: "timer_get_uptime_ms (snd ?u) = timer_get_uptime_ms s"
    using update_frequency [OF assms(1)] by (simp add: timer_get_uptime_ms_def fun_eq_iff)
  have "h < length (soft_timers s)" using Cons.prems(2) by (simp add: sole_caller_def)
  moreover have "timers_ok (snd ?u)" "sole_caller h f a (soft_timers (snd ?u))"
    using Cons.prems sole_caller_rearm by (simp_all add: timers_ok_def upd)
  ultimately show ?case
    using Cons.IH [of "snd ?u"] sole_calls [OF Cons.prems(2), of ?now]
    by (simp add: split_beta Let_def upd ms)
qed simp

text \<open>
  C32: A one-shot timer fires exactly once: set for \<open>ms\<close> milliseconds at the reading \<open>count\<close>, its callback
  is called by the first timer interrupt at or after that time and by no other, however many follow.
\<close>

theorem oneshot_fires_once:
  assumes "keeps_timers call" and "timers_ok s" and "sole_caller h f a (soft_timers s)"
    and "active (soft_timers s ! h)" and "d = timer_get_uptime_ms s count + ucast ms" and "d \<noteq> 0"
  shows "count_list (fst (timer_run call counts (timer_set_oneshot (int h) ms count s))) (f, a) =
    (if \<exists>c \<in> set counts. d \<le> timer_get_uptime_ms s c then 1 else 0)"
proof -
  let ?s = "timer_set_oneshot (int h) ms count s" and ?t = "(soft_timers s ! h)\<lparr>expiry := d, interval := 0\<rparr>"
  have h: "h < length (soft_timers s)" using assms(3) by (simp add: sole_caller_def)
  then have s': "soft_timers ?s = (soft_timers s)[h := ?t]" "timer_frequency ?s = timer_frequency s"
    using assms(2,4,5)
    by (simp_all add: timer_set_oneshot_def bad_handle_def timers_ok_def set_timer_def Let_def)
  have "timers_ok ?s" "sole_caller h f a (soft_timers ?s)"
    using assms(2,3) by (auto simp: timers_ok_def s' sole_caller_def nth_list_update)
  moreover have "timer_get_uptime_ms ?s = timer_get_uptime_ms s"
    by (simp add: timer_get_uptime_ms_def s' fun_eq_iff)
  moreover have "fire_times (map (timer_get_uptime_ms s) counts) ?t =
      take 1 (filter (\<lambda>n. d \<le> n) (map (timer_get_uptime_ms s) counts))"
    using oneshot_times [of ?t] assms(4,6) by simp
  moreover have "length (take 1 (filter P xs)) = (if \<exists>x \<in> set xs. P x then 1 else 0)" for P and xs :: "u64 list"
    by (induction xs) auto
  ultimately show ?thesis
    using run_calls [OF assms(1), of ?s h f a counts] h by (simp add: s')
qed

definition armed_timers :: timers where
  "armed_timers = snd (timer_create (Some 7) 1 (timers_boot\<lparr>timer_frequency := 1000\<rparr>))"

theorem oneshot_fires_once_witness:
  "count_list (fst (timer_run (\<lambda>_ _ s. s) [10, 24, 25, 90] (timer_set_oneshot 0 20 5 armed_timers))) (7, 1) = 1"
proof -
  have s: "soft_timers armed_timers = \<lparr> active = True, expiry = 0, interval = 0, callback = Some 7, cb_arg = 1 \<rparr>
      # replicate 15 \<lparr> active = False, expiry = 0, interval = 0, callback = None, cb_arg = 0 \<rparr>"
    "timer_frequency armed_timers = 1000"
    by (simp_all add: armed_timers_def timer_create_def timers_boot_def MAX_SOFT_TIMERS_def set_timer_def upt_conv_Cons eval_nat_numeral)
  have "timers_ok armed_timers" "sole_caller 0 7 1 (soft_timers armed_timers)"
    by (auto simp: timers_ok_def s MAX_SOFT_TIMERS_def sole_caller_def nth_Cons')
  from oneshot_fires_once [OF _ this, of "\<lambda>_ _ s. s" 25 5 20 "[10, 24, 25, 90]"]
  show ?thesis by (simp add: keeps_timers_def timer_get_uptime_ms_def s)
qed

text \<open>
  A periodic timer keeps its distance: two calls are never closer than the interval, whatever the
  times of the interrupts.
\<close>

lemma periodic_times:
  assumes "active t" and "0 < interval t" and "expiry t \<noteq> 0"
    and "\<forall>n \<in> set nows. unat n + unat (interval t) < 2 ^ 64"
  shows "sorted_wrt (\<lambda>m n. unat m + unat (interval t) \<le> unat n) (fire_times nows t) \<and>
    (\<forall>n \<in> set (fire_times nows t). expiry t \<le> n)"
  using assms
proof (induction nows arbitrary: t)
  case (Cons now nows)
  show ?case
  proof (cases "due now t")
    case False
    then show ?thesis using Cons by (simp add: rearm_def)
  next
    case True
    let ?t = "rearm now t"
    have t: "?t = t\<lparr>expiry := now + ucast (interval t)\<rparr>" using True Cons.prems(2) by (simp add: rearm_def)
    have e: "unat (now + ucast (interval t)) = unat now + unat (interval t)"
      using Cons.prems(4) by (subst unat_add_small) (simp_all add: unat_widen)
    moreover have "0 < unat (interval t)" using Cons.prems(2) by (simp add: word_less_nat_alt)
    ultimately have "now + ucast (interval t) \<noteq> 0" by (metis unat_0 add_is_0 less_numeral_extra(3))
    with Cons.IH [of ?t] Cons.prems t
    have "sorted_wrt (\<lambda>m n. unat m + unat (interval t) \<le> unat n) (fire_times nows ?t) \<and>
        (\<forall>n \<in> set (fire_times nows ?t). now + ucast (interval t) \<le> n)" by simp
    moreover have "expiry t \<le> now" using True by (simp add: due_def)
    ultimately show ?thesis
      using True e by (auto simp: word_le_nat_alt)
  qed
qed simp

text \<open>
  The expiry time outlives the timer: a slot destroyed while it was armed and given out again is
  armed already, and calls the new owner's function although the new owner has set no time.
\<close>

lemma stale_expiry_fires:
  "fst (timer_update_soft_timers (\<lambda>_ _ s. s) 30
     (snd (timer_create (Some 9) 2 (timer_destroy 0 (timer_set_periodic 0 20 5 armed_timers))))) = [(9, 2)]"
  by code_simp

text \<open>
  A one-shot timer that has fired keeps its slot: only \<open>timer_destroy\<close> gives it back.
\<close>

lemma fired_slot_stays: "active (rearm now t) = active t"
  by simp

end
