(* ===== verification/WpaKeys.thy ===== *)
theory WpaKeys
  imports Prelude
begin

text \<open>
  The key derivation of WPA2 in wifi_rtl8723cs.c: SHA-1, HMAC-SHA1, PBKDF2, the pseudo-random
  function of 802.11i and the pairwise keys.  \<open>sha1_final\<close> hashes a local array that it fills in
  part only; what the stack holds there is an argument, \<open>junk\<close>, and a write beyond the array is
  \<open>None\<close>.  Functions that hash several times take the stack contents as \<open>stack\<close>, number \<open>j\<close> for
  hash number \<open>j\<close>.  The lemmas show which bytes are hashed: for messages of whole blocks this is
  SHA-1, for the others the stack takes the place of the length; and that both sides of a
  handshake derive the same keys.
\<close>

section \<open>SHA-1\<close>

record sha1_ctx =
  sha_h :: "u32 list"
  sha_buf :: "u8 list"
  len_lo :: u32
  len_hi :: u32
  buflen :: nat

definition sha1_start :: "u32 list" where
  "sha1_start = [0x67452301, 0xEFCDAB89, 0x98BADCFE, 0x10325476, 0xC3D2E1F0]"

definition sha1_init :: "u8 list \<Rightarrow> sha1_ctx" where
  "sha1_init garbage = \<lparr> sha_h = sha1_start, sha_buf = garbage, len_lo = 0, len_hi = 0, buflen = 0 \<rparr>"

definition sha1_rotl :: "u32 \<Rightarrow> nat \<Rightarrow> u32" where
  "sha1_rotl v n = push_bit n v OR drop_bit (32 - n) v"

definition load_be :: "u8 list \<Rightarrow> nat \<Rightarrow> u32" where
  "load_be b i = push_bit 24 (ucast (b ! (4 * i))) OR push_bit 16 (ucast (b ! (4 * i + 1)))
     OR push_bit 8 (ucast (b ! (4 * i + 2))) OR ucast (b ! (4 * i + 3))"

definition sha1_schedule :: "u8 list \<Rightarrow> u32 list" where
  "sha1_schedule blk =
     fold (\<lambda>i w. w @ [sha1_rotl (w ! (i - 3) XOR w ! (i - 8) XOR w ! (i - 14) XOR w ! (i - 16)) 1])
       [16..<80] (map (load_be blk) [0..<16])"

definition sha1_round :: "u32 list \<Rightarrow> nat \<Rightarrow> u32 \<times> u32 \<times> u32 \<times> u32 \<times> u32 \<Rightarrow> u32 \<times> u32 \<times> u32 \<times> u32 \<times> u32" where
  "sha1_round w i st =
     (let (a, b, c, d, e) = st;
          (f, k) = (if i < 20 then ((b AND c) OR (NOT b AND d), 0x5A827999)
                    else if i < 40 then (b XOR c XOR d, 0x6ED9EBA1)
                    else if i < 60 then ((b AND c) OR (b AND d) OR (c AND d), 0x8F1BBCDC)
                    else (b XOR c XOR d, 0xCA62C1D6));
          t = sha1_rotl a 5 + f + e + k + w ! i
      in (t, a, sha1_rotl b 30, c, d))"

definition sha1_compress :: "u32 list \<Rightarrow> u8 list \<Rightarrow> u32 list" where
  "sha1_compress h blk =
     (let (a, b, c, d, e) = fold (sha1_round (sha1_schedule blk)) [0..<80] (h ! 0, h ! 1, h ! 2, h ! 3, h ! 4)
      in [h ! 0 + a, h ! 1 + b, h ! 2 + c, h ! 3 + d, h ! 4 + e])"

definition sha1_byte :: "u8 \<Rightarrow> sha1_ctx \<Rightarrow> sha1_ctx" where
  "sha1_byte x c =
     (let c = c\<lparr>sha_buf := (sha_buf c)[buflen c := x], buflen := buflen c + 1\<rparr>;
          c = c\<lparr>len_lo := len_lo c + 8\<rparr>;
          c = (if len_lo c = 0 then c\<lparr>len_hi := len_hi c + 1\<rparr> else c)
      in if buflen c = 64 then c\<lparr>sha_h := sha1_compress (sha_h c) (sha_buf c), buflen := 0\<rparr> else c)"

definition sha1_update :: "u8 list \<Rightarrow> sha1_ctx \<Rightarrow> sha1_ctx" where
  "sha1_update = fold sha1_byte"

definition be32 :: "u32 \<Rightarrow> u8 list" where
  "be32 v = [ucast (drop_bit 24 v), ucast (drop_bit 16 v), ucast (drop_bit 8 v), ucast v]"

definition sha1_final :: "u8 list \<Rightarrow> sha1_ctx \<Rightarrow> u8 list option" where
  "sha1_final junk c =
     (let padbytes = (if buflen c < 56 then 55 - buflen c else 119 - buflen c);
          pad = 0x80 # replicate padbytes 0 @ drop (padbytes + 1) junk;
          total = buflen c + 1 + padbytes
      in if 64 < total + 8 then None
         else (let pad = take total pad @ be32 (len_hi c) @ be32 (len_lo c) @ drop (total + 8) pad;
                   c = sha1_update (take (total + 8) pad) c
               in Some (concat (map be32 (sha_h c)))))"

definition sha1 :: "u8 list \<Rightarrow> u8 list \<Rightarrow> u8 list option" where
  "sha1 junk m = sha1_final junk (sha1_update m (sha1_init (replicate 64 0)))"

section \<open>HMAC and the functions above it\<close>

definition xor_pad :: "u8 \<Rightarrow> u8 list \<Rightarrow> u8 list" where
  "xor_pad p key = map (\<lambda>i. if i < length key then p XOR key ! i else p) [0..<64]"

definition hmac_sha1 :: "(nat \<Rightarrow> u8 list) \<Rightarrow> nat \<Rightarrow> u8 list \<Rightarrow> u8 list \<Rightarrow> u8 list option" where
  "hmac_sha1 stack j key msg =
     (case (if 64 < length key then sha1 (stack j) key else Some key) of None \<Rightarrow> None
      | Some key \<Rightarrow>
        (case sha1 (stack (j + 1)) (xor_pad 0x36 key @ msg) of None \<Rightarrow> None
         | Some inner \<Rightarrow> sha1 (stack (j + 2)) (xor_pad 0x5C key @ inner)))"

definition xor_into :: "u8 list \<Rightarrow> u8 list \<Rightarrow> u8 list" where
  "xor_into t u = map2 (XOR) t u"

text \<open>The iterations \<open>c\<close> of one block, from \<open>U1\<close> on.\<close>

primrec pbkdf2_iter :: "nat \<Rightarrow> (nat \<Rightarrow> u8 list) \<Rightarrow> nat \<Rightarrow> u8 list \<Rightarrow> u8 list \<Rightarrow> u8 list \<Rightarrow> u8 list option" where
  "pbkdf2_iter 0 stack j pwd u t = Some t"
| "pbkdf2_iter (Suc n) stack j pwd u t =
     (case hmac_sha1 stack j pwd u of None \<Rightarrow> None | Some u \<Rightarrow> pbkdf2_iter n stack (j + 3) pwd u (xor_into t u))"

definition pbkdf2_block :: "(nat \<Rightarrow> u8 list) \<Rightarrow> nat \<Rightarrow> u8 list \<Rightarrow> u8 list \<Rightarrow> nat \<Rightarrow> u32 \<Rightarrow> u8 list option" where
  "pbkdf2_block stack j pwd salt iterations block_num =
     (case hmac_sha1 stack j pwd (salt @ be32 block_num) of None \<Rightarrow> None
      | Some u \<Rightarrow> pbkdf2_iter (iterations - 1) stack (j + 3) pwd u u)"

text \<open>\<open>alloc k\<close> says whether the buffer of block \<open>k\<close> could be allocated; when it could not, the
  function returns with the rest of the output as it was, here left out.\<close>

function pbkdf2_loop ::
    "(nat \<Rightarrow> bool) \<Rightarrow> (nat \<Rightarrow> u8 list) \<Rightarrow> nat \<Rightarrow> u8 list \<Rightarrow> u8 list \<Rightarrow> nat \<Rightarrow> nat \<Rightarrow> nat \<Rightarrow> u8 list option" where
  "pbkdf2_loop alloc stack j pwd salt iterations block_num left =
     (if left = 0 then Some []
      else if \<not> alloc (block_num + 1) then Some []
      else (case pbkdf2_block stack j pwd salt iterations (of_nat (block_num + 1)) of None \<Rightarrow> None
            | Some t \<Rightarrow> map_option ((@) (take left t))
                (pbkdf2_loop alloc stack (j + 3 * iterations) pwd salt iterations (block_num + 1) (left - min left 20))))"
  by auto
termination by (relation "measure (\<lambda>(alloc, stack, j, pwd, salt, iterations, block_num, left). left)") auto

definition pbkdf2_sha1 :: "(nat \<Rightarrow> bool) \<Rightarrow> (nat \<Rightarrow> u8 list) \<Rightarrow> u8 list \<Rightarrow> u8 list \<Rightarrow> nat \<Rightarrow> nat \<Rightarrow> u8 list option" where
  "pbkdf2_sha1 alloc stack pwd salt iterations dklen = pbkdf2_loop alloc stack 0 pwd salt iterations 0 dklen"

text \<open>The loop of the pseudo-random function, \<open>i\<close> its counter and \<open>left\<close> the bytes to go.\<close>

function prf_loop :: "(nat \<Rightarrow> u8 list) \<Rightarrow> u8 list \<Rightarrow> u8 list \<Rightarrow> nat \<Rightarrow> nat \<Rightarrow> u8 list option" where
  "prf_loop stack key b i left =
     (if left = 0 then Some []
      else (case hmac_sha1 stack (3 * i) key (b @ [of_nat i]) of None \<Rightarrow> None
            | Some tmp \<Rightarrow> map_option ((@) (take left tmp)) (prf_loop stack key b (i + 1) (left - min left 20))))"
  by auto
termination by (relation "measure (\<lambda>(stack, key, b, i, left). left)") auto

text \<open>\<open>alloc\<close> says whether the buffer could be allocated; otherwise no byte of the output is written.\<close>

definition prf_sha1 :: "bool \<Rightarrow> (nat \<Rightarrow> u8 list) \<Rightarrow> u8 list \<Rightarrow> u8 list \<Rightarrow> u8 list \<Rightarrow> nat \<Rightarrow> u8 list option" where
  "prf_sha1 alloc stack key label d outlen = (if \<not> alloc then Some [] else prf_loop stack key (label @ 0 # d) 0 outlen)"

section \<open>The pairwise keys\<close>

text \<open>\<open>memcmp (a, b) \<le> 0\<close> for blocks of the same length.\<close>

fun bytes_le :: "u8 list \<Rightarrow> u8 list \<Rightarrow> bool" where
  "bytes_le (a # as) (b # bs) = (if a = b then bytes_le as bs else a < b)"
| "bytes_le as bs = True"

definition ptk_data :: "u8 list \<Rightarrow> u8 list \<Rightarrow> u8 list \<Rightarrow> u8 list \<Rightarrow> u8 list" where
  "ptk_data aa spa anonce snonce =
     (if bytes_le aa spa then aa @ spa else spa @ aa) @
     (if bytes_le anonce snonce then anonce @ snonce else snonce @ anonce)"

definition ptk_label :: "u8 list" where
  "ptk_label = map (\<lambda>c. of_nat (of_char c)) ''Pairwise key expansion''"

definition derive_ptk :: "bool \<Rightarrow> (nat \<Rightarrow> u8 list) \<Rightarrow> u8 list \<Rightarrow> u8 list \<Rightarrow> u8 list \<Rightarrow> u8 list \<Rightarrow> u8 list \<Rightarrow> u8 list option" where
  "derive_ptk alloc stack pmk aa spa anonce snonce = prf_sha1 alloc stack pmk ptk_label (ptk_data aa spa anonce snonce) 64"

definition wpa_compute_mic :: "(nat \<Rightarrow> u8 list) \<Rightarrow> u8 list \<Rightarrow> u8 list \<Rightarrow> u8 list option" where
  "wpa_compute_mic stack kck frame = map_option (take 16) (hmac_sha1 stack 0 kck frame)"

section \<open>What is hashed\<close>

text \<open>The chaining over the whole blocks of a message; an incomplete last block is left out.\<close>

function sha1_chain :: "u32 list \<Rightarrow> u8 list \<Rightarrow> u32 list" where
  "sha1_chain h m = (if 64 \<le> length m then sha1_chain (sha1_compress h (take 64 m)) (drop 64 m) else h)"
  by auto
termination by (relation "measure (\<lambda>(h, m). length m)") auto

declare sha1_chain.simps [simp del]

text \<open>The bytes that wait for their block to be full.\<close>

definition pending :: "sha1_ctx \<Rightarrow> u8 list" where
  "pending c = take (buflen c) (sha_buf c)"

definition ctx_ok :: "sha1_ctx \<Rightarrow> bool" where
  "ctx_ok c \<longleftrightarrow> length (sha_buf c) = 64 \<and> buflen c < 64"

lemma length_pending: "ctx_ok c \<Longrightarrow> length (pending c) = buflen c"
  by (simp add: ctx_ok_def pending_def)

lemma sha1_byte_step:
  assumes "ctx_ok c"
  shows "ctx_ok (sha1_byte x c) \<and>
    (if buflen c = 63
     then sha_h (sha1_byte x c) = sha1_compress (sha_h c) (pending c @ [x]) \<and> pending (sha1_byte x c) = []
     else sha_h (sha1_byte x c) = sha_h c \<and> pending (sha1_byte x c) = pending c @ [x])"
proof -
  have "take (Suc (buflen c)) ((sha_buf c)[buflen c := x]) = take (buflen c) (sha_buf c) @ [x]"
    using assms by (simp add: ctx_ok_def take_Suc_conv_app_nth)
  moreover have "(sha_buf c)[63 := x] = take 63 (sha_buf c) @ [x]" if "buflen c = 63"
    using assms that by (simp add: ctx_ok_def upd_conv_take_nth_drop)
  ultimately show ?thesis using assms by (auto simp: sha1_byte_def Let_def ctx_ok_def pending_def)
qed

lemma sha1_update_chain:
  "ctx_ok c \<Longrightarrow> ctx_ok (sha1_update m c) \<and> sha_h (sha1_update m c) = sha1_chain (sha_h c) (pending c @ m) \<and>
     pending (sha1_update m c) = drop (64 * ((buflen c + length m) div 64)) (pending c @ m)"
proof (induction m arbitrary: c)
  case Nil
  then show ?case using length_pending [of c] by (simp add: sha1_update_def sha1_chain.simps ctx_ok_def)
next
  case (Cons x m)
  let ?c = "sha1_byte x c"
  have step: "ctx_ok ?c" and len: "length (pending c) = buflen c" "buflen c < 64"
    using sha1_byte_step [OF Cons.prems, of x] length_pending [OF Cons.prems] Cons.prems by (auto simp: ctx_ok_def)
  have ih: "ctx_ok (sha1_update (x # m) c)" "sha_h (sha1_update (x # m) c) = sha1_chain (sha_h ?c) (pending ?c @ m)"
    "pending (sha1_update (x # m) c) = drop (64 * ((buflen ?c + length m) div 64)) (pending ?c @ m)"
    using Cons.IH [OF step] by (simp_all add: sha1_update_def)
  have buf: "buflen ?c = length (pending ?c)" using length_pending [OF step] by simp
  show ?case
  proof (cases "buflen c = 63")
    case True
    then have c: "sha_h ?c = sha1_compress (sha_h c) (pending c @ [x])" "pending ?c = []"
      using sha1_byte_step [OF Cons.prems, of x] by simp_all
    have "sha1_chain (sha_h c) (pending c @ x # m) = sha1_chain (sha1_compress (sha_h c) (pending c @ [x])) m"
      using len True by (subst sha1_chain.simps) simp
    moreover have "(64 + length m) div 64 = Suc (length m div 64)" by simp
    ultimately show ?thesis using ih len True by (simp add: c buf)
  next
    case False
    then have "sha_h ?c = sha_h c" "pending ?c = pending c @ [x]"
      using sha1_byte_step [OF Cons.prems, of x] by simp_all
    then show ?thesis using ih len by (simp add: buf)
  qed
qed

lemma sha1_update_length:
  assumes "len_hi c = 0" and "len_lo c = of_nat (8 * n)" and "8 * (n + length m) < 2 ^ 32"
  shows "len_hi (sha1_update m c) = 0 \<and> len_lo (sha1_update m c) = of_nat (8 * (n + length m))"
  using assms
proof (induction m arbitrary: c n)
  case (Cons x m)
  have "unat (of_nat (8 * (n + 1)) :: u32) = 8 * (n + 1)" using Cons.prems(3) by (intro unat_of_nat_small) simp
  then have "(of_nat (8 * (n + 1)) :: u32) \<noteq> 0" by (metis unat_0 mult_is_0 add_is_0 zero_neq_numeral zero_neq_one)
  then have "len_hi (sha1_byte x c) = 0" "len_lo (sha1_byte x c) = of_nat (8 * (n + 1))"
    using Cons.prems by (simp_all add: sha1_byte_def Let_def algebra_simps)
  from Cons.IH [OF this] Cons.prems(3) show ?case by (simp add: sha1_update_def)
qed (simp add: sha1_update_def)

text \<open>The padding the code appends to a message of \<open>n\<close> bytes.\<close>

definition code_padding :: "u8 list \<Rightarrow> nat \<Rightarrow> u8 list" where
  "code_padding junk n =
     0x80 # replicate (55 - n mod 64) 0 @ take (n mod 64) (drop (56 - n mod 64) junk) @ be32 0 @ be32 (of_nat (8 * n))"

text \<open>The padding of the standard: a one bit, zeros up to 8 bytes before the end of a block, the length in bits.\<close>

definition sha1_padding :: "nat \<Rightarrow> u8 list" where
  "sha1_padding n =
     0x80 # replicate (if n mod 64 < 56 then 55 - n mod 64 else 119 - n mod 64) 0 @ be32 0 @ be32 (of_nat (8 * n))"

definition sha1_standard :: "u8 list \<Rightarrow> u8 list" where
  "sha1_standard m = concat (map be32 (sha1_chain sha1_start (m @ sha1_padding (length m))))"

lemma length_be32 [simp]: "length (be32 v) = 4"
  by (simp add: be32_def)

lemma final_padding:
  assumes "r < 56" and "length junk = 64"
  shows "take 64 (take 56 (0x80 # replicate (55 - r) 0 @ drop (Suc (55 - r)) junk) @ be32 hi @ be32 lo @ rest) =
    0x80 # replicate (55 - r) 0 @ take r (drop (56 - r) junk) @ be32 hi @ be32 lo"
proof -
  have "take 56 (0x80 # replicate (55 - r) 0 @ drop (Suc (55 - r)) junk) =
      0x80 # replicate (55 - r) 0 @ take r (drop (56 - r) junk)"
  proof -
    have "56 = Suc 55" "55 - (55 - r) = r" "Suc (55 - r) = 56 - r" using assms(1) by simp_all
    then show ?thesis by (simp only: take_Suc_Cons take_append length_replicate take_replicate) simp
  qed
  then show ?thesis using assms by simp
qed

lemma sha1_hashes:
  assumes "length junk = 64" and "length m < 2 ^ 29" and "length m mod 64 < 56"
  shows "sha1 junk m = Some (concat (map be32 (sha1_chain sha1_start (m @ code_padding junk (length m)))))"
proof -
  let ?c0 = "sha1_init (replicate 64 0)" and ?r = "length m mod 64"
  define c where "c = sha1_update m ?c0"
  have c0: "ctx_ok ?c0" "pending ?c0 = []" "sha_h ?c0 = sha1_start" "len_hi ?c0 = 0" "len_lo ?c0 = of_nat (8 * 0)" "buflen ?c0 = 0"
    by (simp_all add: sha1_init_def ctx_ok_def pending_def)
  have c: "ctx_ok c" "sha_h c = sha1_chain sha1_start m" "pending c = drop (64 * (length m div 64)) m"
    using sha1_update_chain [OF c0(1), of m] by (simp_all add: c_def c0)
  have r: "buflen c = ?r" using length_pending [OF c(1)] by (simp add: c(3) minus_mult_div_eq_mod)
  have lens: "len_hi c = 0" "len_lo c = of_nat (8 * length m)"
    using sha1_update_length [of ?c0 0 m] c0 assms(2) by (simp_all add: c_def)
  let ?pad = "code_padding junk (length m)"
  have "sha1_final junk c = Some (concat (map be32 (sha_h (sha1_update ?pad c))))"
    using final_padding [of ?r junk "len_hi c" "len_lo c"] assms(1,3)
    by (simp add: sha1_final_def Let_def r lens code_padding_def)
  moreover have "sha_h (sha1_update ?pad c) = sha_h (sha1_update (m @ ?pad) ?c0)"
    by (simp add: c_def sha1_update_def)
  moreover have "\<dots> = sha1_chain sha1_start (m @ ?pad)"
    using sha1_update_chain [OF c0(1), of "m @ ?pad"] by (simp add: c0)
  ultimately show ?thesis by (simp add: sha1_def c_def)
qed

text \<open>
  On a message of whole blocks the code computes the SHA-1 of the standard.
\<close>

lemma sha1_whole_blocks:
  assumes "length junk = 64" and "length m < 2 ^ 29" and "length m mod 64 = 0"
  shows "sha1 junk m = Some (sha1_standard m)"
  using sha1_hashes [OF assms(1,2)] assms(3)
  by (simp add: sha1_standard_def code_padding_def sha1_padding_def)

lemma sha1_chain_long: "64 \<le> length m \<Longrightarrow> sha1_chain h m = sha1_chain (sha1_compress h (take 64 m)) (drop 64 m)"
  by (subst sha1_chain.simps) simp

lemma sha1_chain_append:
  "length m mod 64 = 0 \<Longrightarrow> sha1_chain h (m @ t) = sha1_chain (sha1_chain h m) t"
proof (induction h m rule: sha1_chain.induct)
  case (1 h m)
  show ?case
  proof (cases "64 \<le> length m")
    case True
    then have "length (drop 64 m) mod 64 = 0" using 1(2) le_mod_geq [OF True] by simp
    then show ?thesis
      using 1(1) True sha1_chain_long [OF True, of h] sha1_chain_long [of "m @ t" h] by simp
  next
    case False
    then have "m = []" using 1(2) by simp
    then show ?thesis by (simp add: sha1_chain.simps)
  qed
qed

lemma sha1_chain_short: "length t < 64 \<Longrightarrow> sha1_chain h t = h"
  by (subst sha1_chain.simps) simp

text \<open>
  When the last block of a message holds from 8 to 55 bytes, the 8 bytes at its end, where the
  standard has the length of the message, are taken from the stack.
\<close>

theorem sha1_hashes_stack:
  assumes "length junk = 64" and "length m < 2 ^ 29" and "8 \<le> length m mod 64" and "length m mod 64 < 56"
  shows "sha1 junk m = Some (concat (map be32 (sha1_chain sha1_start
    (m @ 0x80 # replicate (55 - length m mod 64) 0 @ take 8 (drop (56 - length m mod 64) junk)))))"
proof -
  let ?r = "length m mod 64"
  let ?body = "m @ 0x80 # replicate (55 - ?r) 0 @ take 8 (drop (56 - ?r) junk)"
  let ?rest = "take (?r - 8) (drop (64 - ?r) junk) @ be32 0 @ be32 (of_nat (8 * length m))"
  have "drop 8 (take ?r (drop (56 - ?r) junk)) = take (?r - 8) (drop (64 - ?r) junk)"
    using assms(3,4) by (simp add: drop_take)
  then have "take ?r (drop (56 - ?r) junk) = take 8 (drop (56 - ?r) junk) @ take (?r - 8) (drop (64 - ?r) junk)"
    using append_take_drop_id [of 8 "take ?r (drop (56 - ?r) junk)"] assms(3) by (simp add: min_def)
  then have split: "m @ code_padding junk (length m) = ?body @ ?rest" by (simp add: code_padding_def)
  have "length ?body = length m + (64 - ?r)" using assms by simp
  also have "\<dots> = 64 * (length m div 64) + 64"
    using mult_div_mod_eq [of 64 "length m"] assms(4) by linarith
  finally have "length ?body mod 64 = 0" by simp
  then have "sha1_chain sha1_start (?body @ ?rest) = sha1_chain (sha1_chain sha1_start ?body) ?rest"
    by (rule sha1_chain_append)
  moreover have "length ?rest < 64" using assms by simp
  then have "sha1_chain h ?rest = h" for h by (rule sha1_chain_short)
  ultimately show ?thesis using sha1_hashes [OF assms(1,2,4)] split by simp
qed

lemma sha1_byte_words: "length (sha_h c) = 5 \<Longrightarrow> length (sha_h (sha1_byte x c)) = 5"
  by (simp add: sha1_byte_def Let_def sha1_compress_def split_beta)

lemma sha1_update_words: "length (sha_h c) = 5 \<Longrightarrow> length (sha_h (sha1_update m c)) = 5"
  by (induction m arbitrary: c) (simp_all add: sha1_update_def sha1_byte_words)

lemma sha1_final_length: "length (sha_h c) = 5 \<Longrightarrow> sha1_final junk c = Some d \<Longrightarrow> length d = 20"
  by (auto simp: sha1_final_def Let_def length_concat comp_def sum_list_triv sha1_update_words split: if_splits)

lemma sha1_length: "sha1 junk m = Some d \<Longrightarrow> length d = 20"
  unfolding sha1_def
  by (rule sha1_final_length [rotated], assumption) (intro sha1_update_words, simp add: sha1_init_def sha1_start_def)

lemma hmac_length: "hmac_sha1 stack j key msg = Some d \<Longrightarrow> length d = 20"
  by (auto simp: hmac_sha1_def dest: sha1_length split: option.splits)

lemma mic_length: "wpa_compute_mic stack key frame = Some mic \<Longrightarrow> length mic = 16"
  by (auto simp: wpa_compute_mic_def dest: hmac_length)

section \<open>Both sides derive the same keys\<close>

lemma bytes_le_total: "length a = length b \<Longrightarrow> bytes_le a b \<or> bytes_le b a"
  by (induction a b rule: list_induct2) auto

lemma bytes_le_antisym: "length a = length b \<Longrightarrow> bytes_le a b \<Longrightarrow> bytes_le b a \<Longrightarrow> a = b"
  by (induction a b rule: list_induct2) (auto split: if_splits)

lemma ptk_data_swap:
  "length a = length b \<Longrightarrow> length m = length n \<Longrightarrow> ptk_data a b m n = ptk_data b a n m"
  using bytes_le_total [of a b] bytes_le_antisym [of a b] bytes_le_total [of m n] bytes_le_antisym [of m n]
  by (auto simp: ptk_data_def)

text \<open>
  The access point and the station, which know the two addresses and the two nonces in opposite
  roles, derive the same pairwise keys from the same master key (the bytes of the stack being
  equal).
\<close>

theorem derive_ptk_symmetric:
  assumes "length mac_ap = length mac_sta" and "length nonce_ap = length nonce_sta"
  shows "derive_ptk alloc stack pmk mac_ap mac_sta nonce_ap nonce_sta = derive_ptk alloc stack pmk mac_sta mac_ap nonce_sta nonce_ap"
  unfolding derive_ptk_def using ptk_data_swap [OF assms] by simp

theorem derive_ptk_symmetric_witness:
  "derive_ptk True (\<lambda>_. replicate 64 0) [9] [2, 0] [4, 7] [1] [3] = derive_ptk True (\<lambda>_. replicate 64 0) [9] [4, 7] [2, 0] [3] [1]"
  by (rule derive_ptk_symmetric) simp_all

end
