(* ===== verification/WifiLink.thy ===== *)
theory WifiLink
  imports WpaKeys
begin

text \<open>
  Frames and handshake of the wireless driver, wifi_rtl8723cs.c.  What the driver writes to the chip
  is recorded: \<open>Frame a bytes\<close> for a block write to address \<open>a\<close>, \<open>Reg8\<close> and \<open>Reg32\<close> for registers.
  \<open>alloc\<close> says whether memory could be allocated.  A frame is built in a local array of the size the code declares; a copy that does not fit it is
  undefined behaviour and gives \<open>None\<close>.  Random bytes, the stack contents under the hash functions and
  the bytes the chip delivers are arguments.  The lemmas show that the second message of a
  handshake never fits its array, so that no handshake ends with a connection, and what becomes of
  received data frames.
\<close>

section \<open>State\<close>

datatype chip_write = Frame nat "u8 list" | Reg8 nat u8 | Reg32 nat u32

record wifi =
  pmk :: "u8 list"
  ptk :: "u8 list"
  kck :: "u8 list"
  kek :: "u8 list"
  tk :: "u8 list"
  anonce :: "u8 list"
  snonce :: "u8 list"
  aa :: "u8 list"
  spa :: "u8 list"
  handshake_step :: nat
  if_mac :: "u8 list"
  connected_bssid :: "u8 list"
  if_state :: nat
  chip :: "chip_write list"

definition write_chip :: "chip_write \<Rightarrow> wifi \<Rightarrow> wifi" where
  "write_chip w s = s\<lparr>chip := chip s @ [w]\<rparr>"

text \<open>Copying into an array, and a series of copies.\<close>

definition blit :: "nat \<Rightarrow> u8 list \<Rightarrow> u8 list \<Rightarrow> u8 list option" where
  "blit off bs a = (if off + length bs \<le> length a then Some (take off a @ bs @ drop (off + length bs) a) else None)"

fun blits :: "(nat \<times> u8 list) list \<Rightarrow> u8 list \<Rightarrow> u8 list option" where
  "blits [] a = Some a"
| "blits ((off, bs) # cs) a = (case blit off bs a of None \<Rightarrow> None | Some a \<Rightarrow> blits cs a)"

text \<open>The fields of a frame that the code stores one after the other, starting at 0.\<close>

definition fields :: "u8 list list \<Rightarrow> nat \<Rightarrow> u8 list option" where
  "fields parts room = (let bs = concat parts in if length bs \<le> room then Some bs else None)"

definition rates_ie :: "u8 list" where
  "rates_ie = [0x01, 0x04, 0x82, 0x84, 0x8B, 0x96]"

section \<open>Scanning and connecting\<close>

definition probe_req :: "u8 list \<Rightarrow> u8 list option" where
  "probe_req mac = fields [[0x40, 0x00, 0x00, 0x00], replicate 6 0xFF, mac, replicate 6 0xFF, [0x00, 0x00],
     [0x00, 0x00], rates_ie] 64"

definition scan_channel :: "nat \<Rightarrow> u8" where
  "scan_channel freq = of_nat ((freq - 2412) div 5 + 1)"

definition rtl8723cs_send_probe_req :: "nat \<Rightarrow> wifi \<Rightarrow> wifi option" where
  "rtl8723cs_send_probe_req freq s =
     (case probe_req (if_mac s) of None \<Rightarrow> None
      | Some frame \<Rightarrow> Some (write_chip (Frame 0x8000 frame) (write_chip (Reg8 0x07C3 (scan_channel freq)) s)))"

definition scan_freqs :: "nat list" where
  "scan_freqs = [2412, 2417, 2422, 2427, 2432, 2437, 2442, 2447, 2452, 2457, 2462, 2467, 2472]"

definition rtl8723cs_start_scan :: "wifi \<Rightarrow> wifi option" where
  "rtl8723cs_start_scan s =
     fold (\<lambda>f r. case r of None \<Rightarrow> None | Some s \<Rightarrow> rtl8723cs_send_probe_req f s) scan_freqs (Some s)"

definition rsn_ie :: "u8 list" where
  "rsn_ie = [0x30, 0x14, 0x01, 0x00, 0x00, 0x0F, 0xAC, 0x04, 0x01, 0x00, 0x00, 0x0F, 0xAC, 0x04,
     0x01, 0x00, 0x00, 0x0F, 0xAC, 0x02, 0x00, 0x00]"

definition auth_frame :: "wifi \<Rightarrow> u8 list option" where
  "auth_frame s = map_option (take 30)
     (blits [(0, [0xB0]), (2, [0x3A]), (4, connected_bssid s), (10, if_mac s), (16, connected_bssid s)] (replicate 32 0))"

definition assoc_frame :: "wifi \<Rightarrow> u8 list \<Rightarrow> u8 list option" where
  "assoc_frame s ssid =
     fields [[0x00, 0x00], [0x3A, 0x00], connected_bssid s, if_mac s, connected_bssid s, [0x00, 0x00], [0x11, 0x04],
       [0x00, of_nat (length ssid)], take (length ssid mod 256) ssid, rates_ie, rsn_ie] 64"

text \<open>\<open>key\<close> and \<open>ssid\<close> are the strings without their terminating zero; \<open>old\<close> of the output of PBKDF2
  stays when an allocation fails.\<close>

definition rtl8723cs_connect ::
    "(nat \<Rightarrow> bool) \<Rightarrow> (nat \<Rightarrow> u8 list) \<Rightarrow> u8 list \<Rightarrow> u8 list \<Rightarrow> wifi \<Rightarrow> wifi option" where
  "rtl8723cs_connect alloc stack ssid key s =
     (case pbkdf2_sha1 alloc stack key ssid 4096 32 of None \<Rightarrow> None
      | Some dk \<Rightarrow>
        (let s = s\<lparr>pmk := dk @ drop (length dk) (pmk s), spa := if_mac s, handshake_step := 0\<rparr>
         in case auth_frame s of None \<Rightarrow> None
            | Some auth \<Rightarrow>
              (let s = write_chip (Frame 0x8000 auth) s
               in case assoc_frame s ssid of None \<Rightarrow> None
                  | Some assoc \<Rightarrow> Some (write_chip (Frame 0x8000 assoc) s))))"

section \<open>The handshake\<close>

definition wpa_derive_ptk :: "bool \<Rightarrow> (nat \<Rightarrow> u8 list) \<Rightarrow> wifi \<Rightarrow> wifi option" where
  "wpa_derive_ptk alloc stack s =
     (case derive_ptk alloc stack (pmk s) (aa s) (spa s) (anonce s) (snonce s) of None \<Rightarrow> None
      | Some d \<Rightarrow> let k = d @ drop (length d) (ptk s) in Some (s\<lparr>ptk := k, kck := take 16 k, kek := take 16 (drop 16 k), tk := take 16 (drop 32 k)\<rparr>))"

definition key_info :: "u8 list \<Rightarrow> u16" where
  "key_info eapol = push_bit 8 (ucast (eapol ! 5)) OR ucast (eapol ! 6)"

definition eapol_head :: "wifi \<Rightarrow> u8 list \<Rightarrow> (nat \<times> u8 list) list" where
  "eapol_head s eapol =
     [(0, aa s), (6, if_mac s), (12, [0x88, 0x8E]), (14, [0x02, 0x03]), (16, [0x00, 0x5F]), (18, [0x02]),
      (19, [0x01, 0x09]), (27, take 8 (drop 25 eapol))]"

definition build_m2 :: "(nat \<Rightarrow> u8 list) \<Rightarrow> wifi \<Rightarrow> u8 list \<Rightarrow> u8 list option" where
  "build_m2 stack s eapol =
     (case blits (eapol_head s eapol @ [(35, snonce s)]) (replicate 121 0) of None \<Rightarrow> None
      | Some m2 \<Rightarrow>
        (case wpa_compute_mic (\<lambda>j. stack (j + 12)) (kck s) (take 99 (drop 14 m2)) of None \<Rightarrow> None
         | Some mic \<Rightarrow> blits [(95, mic), (111, rsn_ie)] m2))"

definition build_m4 :: "(nat \<Rightarrow> u8 list) \<Rightarrow> wifi \<Rightarrow> u8 list \<Rightarrow> u8 list option" where
  "build_m4 stack s eapol =
     (case blits (eapol_head s eapol) (replicate 77 0) of None \<Rightarrow> None
      | Some m4 \<Rightarrow>
        (case wpa_compute_mic (\<lambda>j. stack (j + 3)) (kck s) (take 63 (drop 14 m4)) of None \<Rightarrow> None
         | Some mic \<Rightarrow> blits [(77, mic)] m4))"

definition handle_m1 :: "bool \<Rightarrow> (nat \<Rightarrow> u8 list) \<Rightarrow> u8 list \<Rightarrow> u8 list \<Rightarrow> wifi \<Rightarrow> wifi option" where
  "handle_m1 alloc stack rnd frame s =
     (let eapol = drop 14 frame;
          s = s\<lparr>anonce := take 32 (drop 17 eapol), aa := take 6 (drop 6 frame), snonce := take 32 rnd\<rparr>
      in case wpa_derive_ptk alloc stack s of None \<Rightarrow> None
         | Some s \<Rightarrow>
           (case build_m2 stack s eapol of None \<Rightarrow> None
            | Some m2 \<Rightarrow> Some ((write_chip (Frame 0x8000 m2) s)\<lparr>handshake_step := 1\<rparr>)))"

definition mic_diff :: "u8 list \<Rightarrow> u8 list \<Rightarrow> u8" where
  "mic_diff a b = fold (\<lambda>i d. d OR (a ! i XOR b ! i)) [0..<16] 0"

text \<open>The copy of the frame lies in an array of 512 bytes, \<open>old\<close>, whose bytes beyond the frame keep
  what the stack held.\<close>

definition handle_m3 :: "(nat \<Rightarrow> u8 list) \<Rightarrow> u8 list \<Rightarrow> u8 list \<Rightarrow> wifi \<Rightarrow> wifi option" where
  "handle_m3 stack old frame s =
     (let eapol = drop 14 frame; frame_len = length frame - 14
      in if 512 < frame_len then Some s
         else (case blit 0 eapol old of None \<Rightarrow> None
               | Some check \<Rightarrow>
                 (let rx_mic = take 16 (drop 77 check)
                  in case blit 77 (replicate 16 0) check of None \<Rightarrow> None
                     | Some check \<Rightarrow>
                       (case wpa_compute_mic stack (kck s) (take frame_len check) of None \<Rightarrow> None
                        | Some calc_mic \<Rightarrow>
                          if mic_diff rx_mic calc_mic \<noteq> 0 then Some s
                          else (let s = write_chip (Reg8 0x0E08 0x07) (write_chip (Frame 0x0E10 (tk s)) s)
                                in case build_m4 stack s eapol of None \<Rightarrow> None
                                   | Some m4 \<Rightarrow>
                                     Some ((write_chip (Frame 0x8000 m4) s)\<lparr>handshake_step := 2, if_state := 5\<rparr>))))))"

definition rtl8723cs_eapol_rx ::
    "bool \<Rightarrow> (nat \<Rightarrow> u8 list) \<Rightarrow> u8 list \<Rightarrow> u8 list \<Rightarrow> u8 list \<Rightarrow> wifi \<Rightarrow> wifi option" where
  "rtl8723cs_eapol_rx alloc stack old rnd frame s =
     (if length frame < 99 then Some s
      else (let eapol = drop 14 frame; ki = key_info eapol;
                is_pairwise = bit ki 3; is_install = bit ki 6; is_ack = bit ki 7; has_mic = bit ki 8
            in if eapol ! 0 \<noteq> 0x02 \<or> eapol ! 1 \<noteq> 0x03 then Some s
               else if is_pairwise \<and> is_ack \<and> \<not> has_mic \<and> handshake_step s = 0 then handle_m1 alloc stack rnd frame s
               else if is_pairwise \<and> is_install \<and> has_mic \<and> handshake_step s = 1 then handle_m3 stack old frame s
               else Some s))"

section \<open>The other operations\<close>

definition rtl8723cs_disconnect :: "wifi \<Rightarrow> wifi option" where
  "rtl8723cs_disconnect s =
     (case blits [(0, [0xA0]), (4, connected_bssid s), (10, if_mac s), (16, connected_bssid s), (24, [0x03, 0x00])] (replicate 28 0) of
        None \<Rightarrow> None
      | Some f \<Rightarrow> Some (write_chip (Frame 0x8000 (take 26 f)) s))"

definition rtl8723cs_set_channel :: "u32 \<Rightarrow> wifi \<Rightarrow> wifi" where
  "rtl8723cs_set_channel freq s =
     write_chip (Reg8 0x07C3 (ucast (if 5180 \<le> freq then (freq - 5180) div 20 + 36 else (freq - 2412) div 5 + 1))) s"

definition rtl8723cs_set_mode :: "u32 \<Rightarrow> wifi \<Rightarrow> wifi" where
  "rtl8723cs_set_mode mode s = write_chip (Reg32 0x0608 (if mode = 2 then 0x7000A8EF else 0x7000208E)) s"

definition rtl8723cs_set_power_save :: "u32 \<Rightarrow> wifi \<Rightarrow> wifi" where
  "rtl8723cs_set_power_save mode s = write_chip (Reg8 0x0522 (if mode \<noteq> 0 then 0x0F else 0x00)) s"

definition rtl8723cs_set_txpower :: "int \<Rightarrow> wifi \<Rightarrow> wifi" where
  "rtl8723cs_set_txpower dbm s = write_chip (Reg8 0x0C80 (if dbm < 0 then 0 else if 20 < dbm then 20 else of_int dbm)) s"

definition rtl8723cs_remove :: "wifi \<Rightarrow> wifi" where
  "rtl8723cs_remove s = write_chip (Reg32 0x0004 0) (write_chip (Reg32 0x0100 0) s)"

definition le32 :: "u32 \<Rightarrow> u8 list" where
  "le32 v = [ucast v, ucast (drop_bit 8 v), ucast (drop_bit 16 v), ucast (drop_bit 24 v)]"

text \<open>\<open>alloc\<close> says whether the buffer could be allocated.\<close>

definition rtl8723cs_tx_frame :: "bool \<Rightarrow> u8 list \<Rightarrow> wifi \<Rightarrow> int \<times> wifi" where
  "rtl8723cs_tx_frame alloc frame s =
     (if 2048 < length frame \<or> \<not> alloc then (-1, s)
      else (0, write_chip (Frame 0x8000 (le32 (of_nat (length frame)) @ replicate 4 0 @ frame)) s))"

definition data_frame :: "wifi \<Rightarrow> u8 list \<Rightarrow> u8 list" where
  "data_frame s d = [0x08, 0x01, 0x00, 0x00] @ connected_bssid s @ if_mac s @ take 6 d @ [0x00, 0x00]
     @ [0xAA, 0xAA, 0x03, 0x00, 0x00, 0x00] @ take 2 (drop 12 d) @ drop 14 d"

definition wifi_netif_transmit :: "bool \<Rightarrow> bool \<Rightarrow> u8 list \<Rightarrow> wifi \<Rightarrow> (int \<times> wifi) option" where
  "wifi_netif_transmit alloc alloc2 d s =
     (if \<not> alloc then Some (-1, s)
      else if length d < 14 then None
      else Some (0, snd (rtl8723cs_tx_frame alloc2 (data_frame s d) s)))"

text \<open>
  What is done with a received frame of length \<open>rxlen\<close>: the length goes through a \<open>uint8_t\<close>, so
  that \<open>rxlen mod 256\<close> bytes come from the chip, \<open>got\<close>, and the rest of \<open>rxbuf\<close> is what the stack held, \<open>old\<close>.
\<close>

datatype rx_action = Drop | Eapol "u8 list" | Deliver "u8 list option" "u8 list"

definition rx_buffer :: "nat \<Rightarrow> u8 list \<Rightarrow> u8 list \<Rightarrow> u8 list" where
  "rx_buffer rxlen got old = take rxlen (take (rxlen mod 256) got @ drop (rxlen mod 256) old)"

definition to_ethernet :: "u8 list \<Rightarrow> u8 list" where
  "to_ethernet rx = take 6 (drop 16 rx) @ (if bit (rx ! 1) 1 then take 6 (drop 10 rx) else take 6 (drop 22 rx))
     @ take 2 (drop 30 rx) @ drop 32 rx"

definition wifi_netif_poll :: "bool \<Rightarrow> u32 \<Rightarrow> nat \<Rightarrow> u8 list \<Rightarrow> u8 list \<Rightarrow> rx_action" where
  "wifi_netif_poll alloc hisr rxlen got old =
     (if hisr AND 0x02 = 0 then Drop
      else if rxlen < 24 \<or> 2048 < rxlen then Drop
      else (let rx = rx_buffer rxlen got old
            in if 36 < rxlen \<and> rx ! 30 = 0x88 \<and> rx ! 31 = 0x8E then Eapol rx
               else if rx ! 0 AND 0x0C = 0x08 \<and> 32 < rxlen
               then (if alloc then Deliver (Some (to_ethernet rx)) rx else Drop)
               else Deliver None rx))"

section \<open>Copies that do not fit\<close>

lemma blit_length: "blit off bs a = Some a' \<Longrightarrow> length a' = length a"
  by (auto simp: blit_def split: if_splits)

lemma blits_length: "blits cs a = Some a' \<Longrightarrow> length a' = length a"
  by (induction cs a rule: blits.induct) (auto simp: blit_length split: option.splits)

lemma blit_overrun: "length a < off + length bs \<Longrightarrow> blit off bs a = None"
  by (simp add: blit_def)

lemma build_m2_overruns: "build_m2 stack s eapol = None"
proof -
  have "blits [(95, mic), (111, rsn_ie)] m2 = None" if m2: "length m2 = 121" for m2 mic
  proof (cases "blit 95 mic m2")
    case (Some a)
    then have "length a = 121" using m2 by (simp add: blit_length)
    then have "blit 111 rsn_ie a = None" by (intro blit_overrun) (simp add: rsn_ie_def)
    with Some show ?thesis by simp
  qed simp
  moreover have "length m2 = 121" if "blits cs (replicate 121 0) = Some m2" for cs m2
    using blits_length [OF that] by simp
  ultimately show ?thesis unfolding build_m2_def by (simp split: option.split del: blits.simps)
qed

lemma build_m4_overruns: "build_m4 stack s eapol = None"
proof -
  have "blits [(77, mic)] m4 = None"
    if "blits cs (replicate 77 0) = Some m4" "wpa_compute_mic st k fr = Some mic" for cs m4 st k fr mic
  proof -
    have "blit 77 mic m4 = None" using blits_length [OF that(1)] mic_length [OF that(2)] by (intro blit_overrun) simp
    then show ?thesis by simp
  qed
  then show ?thesis unfolding build_m4_def by (auto split: option.split simp del: blits.simps)
qed

text \<open>
  C40: No handshake ever succeeds.  Whatever frame arrives in whatever state, processing it writes
  beyond an array on the stack, or nothing changes; the first message of a handshake always
  overruns, by 12 bytes, the array in which the answer is built.
\<close>

theorem handshake_never_completes:
  "rtl8723cs_eapol_rx alloc stack old rnd frame s = None \<or> rtl8723cs_eapol_rx alloc stack old rnd frame s = Some s"
proof -
  have m1: "handle_m1 alloc stack rnd frame s = None"
    by (simp add: handle_m1_def Let_def build_m2_overruns split: option.split)
  have "handle_m3 stack old frame s = None \<or> handle_m3 stack old frame s = Some s"
    by (simp add: handle_m3_def Let_def build_m4_overruns split: option.split)
  with m1 show ?thesis unfolding rtl8723cs_eapol_rx_def Let_def by (simp split: if_split)
qed

text \<open>The first message: its flags, in the state in which it is expected.\<close>

lemma first_message_overruns:
  assumes "99 \<le> length frame" and "frame ! 14 = 0x02" and "frame ! 15 = 0x03" and "frame ! 19 = 0x00" and "frame ! 20 = 0x8A"
    and "handshake_step s = 0"
  shows "rtl8723cs_eapol_rx alloc stack old rnd frame s = None"
proof -
  have "drop 14 frame ! 0 = 0x02" "drop 14 frame ! 1 = 0x03" "drop 14 frame ! 5 = 0x00" "drop 14 frame ! 6 = 0x8A"
    using assms by simp_all
  moreover from this have "key_info (drop 14 frame) = 0x8A" by (simp add: key_info_def)
  moreover have "handle_m1 alloc stack rnd frame s = None"
    by (simp add: handle_m1_def Let_def build_m2_overruns split: option.split)
  ultimately show ?thesis using assms(1,6) by (simp add: rtl8723cs_eapol_rx_def Let_def)
qed

text \<open>
  The association request fits its 64 bytes exactly for network names of at most 8 characters.
\<close>

theorem assoc_frame_room:
  assumes "length (if_mac s) = 6" and "length (connected_bssid s) = 6" and "length ssid < 256"
  shows "assoc_frame s ssid \<noteq> None \<longleftrightarrow> length ssid \<le> 8"
  using assms by (auto simp: assoc_frame_def fields_def rates_ie_def rsn_ie_def Let_def)

section \<open>Data frames\<close>

text \<open>
  A received frame of 256 bytes has none of the bytes that the chip delivered.
\<close>

lemma rx_length_truncated: "rx_buffer 256 got old = take 256 old"
  by (simp add: rx_buffer_def)

text \<open>
  A frame that goes out and comes in again by another station, unchanged, keeps its destination,
  type and payload; the source is lost, because the code looks for it where the frame has the
  sequence number and the header of the payload.
\<close>

lemma transmit_receive:
  assumes "length (if_mac s) = 6" and "length (connected_bssid s) = 6" and "14 \<le> length d"
  shows "to_ethernet (data_frame s d) = take 6 d @ [0x00, 0x00, 0xAA, 0xAA, 0x03, 0x00] @ drop 12 d"
proof -
  obtain b where b: "connected_bssid s = b" "length b = 6" using assms by simp
  obtain c where c: "if_mac s = c" "length c = 6" using assms by simp
  have "take 2 (drop 12 d) @ drop 14 d = drop 12 d"
    using append_take_drop_id [of 2 "drop 12 d"] by simp
  then show ?thesis
    using assms(3) by (simp add: to_ethernet_def data_frame_def b c min_def)
qed

end
