(* ===== verification/Gfx.thy ===== *)
theory Gfx
  imports Prelude
begin

text \<open>
  The drawing routines of gui_graphics.c over a frame buffer of 32-bit pixels.  Coordinates are
  \<open>int32_t\<close>s, here integers in that range; every sum, difference and product the code computes on
  them is checked, and one that does not fit is undefined behaviour (\<open>None\<close>).  Unsigned arguments are
  words, and \<open>ofs\<close> is a sum the code computes unsigned and passes on as \<open>int32_t\<close>.  A write or read
  outside the frame buffer or a source image, and a division by zero, is \<open>None\<close> as well.  The context
  and its buffer are not null.  The lemmas show which pixels a filled rectangle changes and to what,
  that every routine stays inside the frame buffer and the clip rectangle, that lines are connected
  paths from end to end, and that the integer square root is exact; their bounds on the coordinates
  are those for which nothing overflows.
\<close>

section \<open>Signed arithmetic\<close>

text \<open>The range of \<open>int32_t\<close>, and a computation that is undefined when one of the values leaves it.\<close>

definition int32 :: "int \<Rightarrow> bool" where
  "int32 i \<longleftrightarrow> - (2 ^ 31) \<le> i \<and> i < 2 ^ 31"

definition checked :: "int list \<Rightarrow> 'a option \<Rightarrow> 'a option" where
  "checked vs r = (if list_all int32 vs then r else None)"

section \<open>The context\<close>

record gfx =
  fb :: "u32 list"
  width :: u32
  height :: u32
  clip_x :: u32
  clip_y :: u32
  clip_x2 :: u32
  clip_y2 :: u32

definition gfx_set_clip :: "u32 \<Rightarrow> u32 \<Rightarrow> u32 \<Rightarrow> u32 \<Rightarrow> gfx \<Rightarrow> gfx" where
  "gfx_set_clip x y w h s =
     (let s = s\<lparr>clip_x := x, clip_y := y, clip_x2 := x + w\<rparr>;
          s = (if width s < clip_x2 s then s\<lparr>clip_x2 := width s\<rparr> else s);
          s = s\<lparr>clip_y2 := y + h\<rparr>
      in if height s < clip_y2 s then s\<lparr>clip_y2 := height s\<rparr> else s)"

definition gfx_reset_clip :: "gfx \<Rightarrow> gfx" where
  "gfx_reset_clip s = s\<lparr>clip_x := 0, clip_y := 0, clip_x2 := width s, clip_y2 := height s\<rparr>"

definition gfx_create_context :: "u32 list \<Rightarrow> u32 \<Rightarrow> u32 \<Rightarrow> gfx" where
  "gfx_create_context mem w h =
     gfx_reset_clip \<lparr> fb = mem, width = w, height = h, clip_x = 0, clip_y = 0, clip_x2 = 0, clip_y2 = 0 \<rparr>"

definition clip_test :: "gfx \<Rightarrow> int \<Rightarrow> int \<Rightarrow> bool" where
  "clip_test s x y \<longleftrightarrow> sint (clip_x s) \<le> x \<and> x < sint (clip_x2 s) \<and> sint (clip_y s) \<le> y \<and> y < sint (clip_y2 s)"

text \<open>A loop whose body may fail.\<close>

primrec each :: "('a \<Rightarrow> 's \<Rightarrow> 's option) \<Rightarrow> 'a list \<Rightarrow> 's \<Rightarrow> 's option" where
  "each f [] s = Some s"
| "each f (x # xs) s = (case f x s of None \<Rightarrow> None | Some s \<Rightarrow> each f xs s)"

text \<open>Storing a pixel, and the address of a pixel in C's unsigned arithmetic.\<close>

definition store :: "nat \<Rightarrow> u32 \<Rightarrow> gfx \<Rightarrow> gfx option" where
  "store i c s = (if i < length (fb s) then Some (s\<lparr>fb := (fb s)[i := c]\<rparr>) else None)"

definition pixel_index :: "gfx \<Rightarrow> int \<Rightarrow> int \<Rightarrow> nat" where
  "pixel_index s x y = unat (word_of_int y * width s + word_of_int x)"

section \<open>Colours\<close>

definition chan :: "u32 \<Rightarrow> nat \<Rightarrow> u32" where
  "chan c k = drop_bit k c AND 0xFF"

definition rgb :: "u8 \<Rightarrow> u8 \<Rightarrow> u8 \<Rightarrow> u32" where
  "rgb r g b = 0xFF000000 OR push_bit 16 (ucast r) OR push_bit 8 (ucast g) OR ucast b"

definition gfx_blend :: "u32 \<Rightarrow> u32 \<Rightarrow> u32" where
  "gfx_blend dst src =
     (let sa = drop_bit 24 src
      in if sa = 0 then dst
         else if sa = 255 then src
         else (let da = 255 - sa;
                   mixed = (\<lambda>k. ucast (chan src k * sa div 255 + chan dst k * da div 255) :: u8)
               in rgb (mixed 16) (mixed 8) (mixed 0)))"

text \<open>C's division, which rounds towards zero, by a positive number.\<close>

definition tdiv :: "int \<Rightarrow> int \<Rightarrow> int" where
  "tdiv a b = (if a < 0 then - ((- a) div b) else a div b)"

definition gfx_color_lerp :: "u32 \<Rightarrow> u32 \<Rightarrow> u8 \<Rightarrow> u32" where
  "gfx_color_lerp a b t =
     (let mixed = (\<lambda>k. uint (chan a k) + tdiv ((uint (chan b k) - uint (chan a k)) * uint t) 255)
      in 0xFF000000 OR push_bit 16 (word_of_int (mixed 16)) OR push_bit 8 (word_of_int (mixed 8)) OR word_of_int (mixed 0))"

definition gfx_darken :: "u32 \<Rightarrow> u8 \<Rightarrow> u32" where
  "gfx_darken c amt =
     (let dark = (\<lambda>k. ucast (chan c k * (255 - ucast amt) div 255) :: u8) in rgb (dark 16) (dark 8) (dark 0))"

definition gfx_lighten :: "u32 \<Rightarrow> u8 \<Rightarrow> u32" where
  "gfx_lighten c amt =
     (let light = (\<lambda>k. ucast (chan c k + ucast amt * (255 - chan c k) div 255) :: u8)
      in rgb (light 16) (light 8) (light 0))"

section \<open>Pixels and rectangles\<close>

definition gfx_putpixel :: "int \<Rightarrow> int \<Rightarrow> u32 \<Rightarrow> gfx \<Rightarrow> gfx option" where
  "gfx_putpixel x y c s =
     (if x < 0 \<or> y < 0 \<or> sint (width s) \<le> x \<or> sint (height s) \<le> y then Some s
      else if \<not> clip_test s x y then Some s
      else if drop_bit 24 c = 0xFF then store (pixel_index s x y) c s
      else if drop_bit 24 c \<noteq> 0 then store (pixel_index s x y) (gfx_blend (fb s ! pixel_index s x y) c) s
      else Some s)"

text \<open>The two inner loops of the fill: a run of \<open>n\<close> pixels from index \<open>p\<close> on.\<close>

definition paint :: "u32 \<Rightarrow> nat \<Rightarrow> gfx \<Rightarrow> gfx option" where
  "paint c i s = (if drop_bit 24 c = 0xFF then store i c s else store i (gfx_blend (fb s ! i) c) s)"

definition fill_run :: "u32 \<Rightarrow> nat \<Rightarrow> nat \<Rightarrow> gfx \<Rightarrow> gfx option" where
  "fill_run c p n s = each (\<lambda>i. paint c (p + i)) [0..<n] s"

definition gfx_fill_rect :: "int \<Rightarrow> int \<Rightarrow> u32 \<Rightarrow> u32 \<Rightarrow> u32 \<Rightarrow> gfx \<Rightarrow> gfx option" where
  "gfx_fill_rect x y w h c s =
     (if w = 0 \<or> h = 0 then Some s
      else checked [x + sint w, y + sint h]
        (let x0 = max x (sint (clip_x s)); y0 = max y (sint (clip_y s));
             x1 = min (x + sint w) (sint (clip_x2 s)); y1 = min (y + sint h) (sint (clip_y2 s))
         in if x1 \<le> x0 \<or> y1 \<le> y0 then Some s
            else checked [x1 - x0]
              (if drop_bit 24 c = 0 then Some s
               else each (\<lambda>row s. fill_run c (pixel_index s x0 row) (nat (x1 - x0)) s) [y0..y1 - 1] s)))"

definition ofs :: "int \<Rightarrow> u32 \<Rightarrow> int" where
  "ofs x v = sint (word_of_int x + v)"

definition gfx_rect :: "int \<Rightarrow> int \<Rightarrow> u32 \<Rightarrow> u32 \<Rightarrow> u32 \<Rightarrow> gfx \<Rightarrow> gfx option" where
  "gfx_rect x y w h c s =
     (if w = 0 \<or> h = 0 then Some s
      else each (\<lambda>(rx, ry, rw, rh). gfx_fill_rect rx ry rw rh c)
        [(x, y, w, 1), (x, ofs y (h - 1), w, 1), (x, y, 1, h), (ofs x (w - 1), y, 1, h)] s)"

section \<open>Lines and circles\<close>

text \<open>
  The points of the loop of \<open>gfx_line\<close>; \<open>dx\<close>, \<open>dy\<close>, \<open>sx\<close> and \<open>sy\<close> are fixed, the loop ends at
  \<open>(x1, y1)\<close>, and \<open>fuel\<close> bounds its rounds.
\<close>

fun line_points :: "nat \<Rightarrow> int \<Rightarrow> int \<Rightarrow> int \<Rightarrow> int \<Rightarrow> int \<times> int \<Rightarrow> int \<times> int \<Rightarrow> int \<Rightarrow> (int \<times> int) list option" where
  "line_points 0 dx dy sx sy goal (x, y) err = None"
| "line_points (Suc fuel) dx dy sx sy goal (x, y) err =
     (if (x, y) = goal then Some [(x, y)]
      else (let e2 = 2 * err;
                (err1, x') = (if - dy < e2 then (err - dy, x + sx) else (err, x));
                (err2, y') = (if e2 < dx then (err1 + dx, y + sy) else (err1, y))
            in checked [e2, err1, x', err2, y']
                 (map_option ((#) (x, y)) (line_points fuel dx dy sx sy goal (x', y') err2))))"

definition line_path :: "int \<Rightarrow> int \<Rightarrow> int \<Rightarrow> int \<Rightarrow> (int \<times> int) list option" where
  "line_path x0 y0 x1 y1 =
     (let dx = (if x0 < x1 then x1 - x0 else x0 - x1);
          dy = (if y0 < y1 then y1 - y0 else y0 - y1);
          sx = (if x0 < x1 then 1 else -1);
          sy = (if y0 < y1 then 1 else -1)
      in checked [dx, dy, dx - dy]
           (line_points (nat (dx + dy) + 1) dx dy sx sy (x1, y1) (x0, y0) (dx - dy)))"

definition put_points :: "u32 \<Rightarrow> (int \<times> int) list \<Rightarrow> gfx \<Rightarrow> gfx option" where
  "put_points c = each (\<lambda>(x, y). gfx_putpixel x y c)"

definition gfx_line :: "int \<Rightarrow> int \<Rightarrow> int \<Rightarrow> int \<Rightarrow> u32 \<Rightarrow> gfx \<Rightarrow> gfx option" where
  "gfx_line x0 y0 x1 y1 c s =
     (case line_path x0 y0 x1 y1 of None \<Rightarrow> None | Some ps \<Rightarrow> put_points c ps s)"

text \<open>The pairs \<open>(x, y)\<close> the midpoint loop goes through.\<close>

function circle_steps :: "int \<Rightarrow> int \<Rightarrow> int \<Rightarrow> (int \<times> int) list option" where
  "circle_steps x y d =
     (if y \<le> x
      then (let x' = (if d < 0 then x else x - 1);
                inc = (if d < 0 then 2 * (y + 1) + 1 else 2 * ((y + 1) - x') + 1)
            in checked [y + 1, inc, d + inc] (map_option ((#) (x, y)) (circle_steps x' (y + 1) (d + inc))))
      else Some [])"
  by auto
termination by (relation "measure (\<lambda>(x, y, d). nat (x - y + 1))") (auto split: if_splits)

declare circle_steps.simps [simp del]

text \<open>The rounds of a circle of radius \<open>r\<close>.\<close>

definition circle_rounds :: "u32 \<Rightarrow> (int \<times> int \<Rightarrow> gfx \<Rightarrow> gfx option) \<Rightarrow> gfx \<Rightarrow> gfx option" where
  "circle_rounds r f s =
     checked [1 - sint r]
       (case circle_steps (sint r) 0 (1 - sint r) of None \<Rightarrow> None | Some ps \<Rightarrow> each f ps s)"

definition gfx_fill_circle :: "int \<Rightarrow> int \<Rightarrow> u32 \<Rightarrow> u32 \<Rightarrow> gfx \<Rightarrow> gfx option" where
  "gfx_fill_circle cx cy r c s =
     (if r = 0 then Some s
      else circle_rounds r (\<lambda>(x, y). each (\<lambda>(px, py, w) s. checked [px, py] (gfx_fill_rect px py w 1 c s))
          [(cx - x, cy + y, 2 * word_of_int x + 1), (cx - x, cy - y, 2 * word_of_int x + 1),
           (cx - y, cy + x, 2 * word_of_int y + 1), (cx - y, cy - x, 2 * word_of_int y + 1)]) s)"

definition gfx_circle :: "int \<Rightarrow> int \<Rightarrow> u32 \<Rightarrow> u32 \<Rightarrow> gfx \<Rightarrow> gfx option" where
  "gfx_circle cx cy r c s =
     (if r = 0 then Some s
      else circle_rounds r (\<lambda>(x, y). each (\<lambda>(px, py) s. checked [px, py] (gfx_putpixel px py c s))
          [(cx + x, cy + y), (cx + y, cy + x), (cx - y, cy + x), (cx - x, cy + y),
           (cx - x, cy - y), (cx - y, cy - x), (cx + y, cy - x), (cx + x, cy - y)]) s)"

definition round_radius :: "u32 \<Rightarrow> u32 \<Rightarrow> u32 \<Rightarrow> u32" where
  "round_radius w h r = (let r = (if h div 2 < r then h div 2 else r) in if w div 2 < r then w div 2 else r)"

definition gfx_fill_rounded :: "int \<Rightarrow> int \<Rightarrow> u32 \<Rightarrow> u32 \<Rightarrow> u32 \<Rightarrow> u32 \<Rightarrow> gfx \<Rightarrow> gfx option" where
  "gfx_fill_rounded x y w h r c s =
     (if w = 0 \<or> h = 0 then Some s
      else if r = 0 then gfx_fill_rect x y w h c s
      else (let r = round_radius w h r
            in case gfx_fill_rect (ofs x r) y (w - 2 * r) h c s of None \<Rightarrow> None
               | Some s \<Rightarrow> (case gfx_fill_rect x (ofs y r) w (h - 2 * r) c s of None \<Rightarrow> None
                 | Some s \<Rightarrow> each (\<lambda>(px, py). gfx_fill_circle px py r c)
                     [(ofs x r, ofs y r), (ofs x (w - r - 1), ofs y r),
                      (ofs x r, ofs y (h - r - 1)), (ofs x (w - r - 1), ofs y (h - r - 1))] s)))"

text \<open>The square root; the loop runs while the estimate gets smaller.\<close>

function sqrt_loop :: "int \<Rightarrow> int \<Rightarrow> int" where
  "sqrt_loop x res =
     (let nx = (res + x div res) div 2 in if 0 < res \<and> nx < res then sqrt_loop x nx else res)"
  by auto
termination by (relation "measure (\<lambda>(x, res). nat res)") auto

declare sqrt_loop.simps [simp del]

text \<open>The first sum \<open>res + x / res\<close> is \<open>x + 1\<close>, and no later one is larger (\<open>sqrt_sums\<close> below).\<close>

definition sqrt_int :: "int \<Rightarrow> int option" where
  "sqrt_int x = (if x \<le> 0 then Some 0 else checked [x + 1] (Some (sqrt_loop x x)))"

definition corner_points :: "int \<Rightarrow> int \<Rightarrow> int \<Rightarrow> int \<Rightarrow> int \<Rightarrow> int \<Rightarrow> int \<Rightarrow> (int \<times> int) list" where
  "corner_points x y w h r a b =
     [(x + r - a, y + r - b), (x + r - b, y + r - a),
      (x + w - r + a - 1, y + r - b), (x + w - r + b - 1, y + r - a),
      (x + r - a, y + h - r + b - 1), (x + r - b, y + h - r + a - 1),
      (x + w - r + a - 1, y + h - r + b - 1), (x + w - r + b - 1, y + h - r + a - 1)]"

text \<open>The values on the way to them.\<close>

definition corner_sums :: "int \<Rightarrow> int \<Rightarrow> int \<Rightarrow> int \<Rightarrow> int list" where
  "corner_sums x w r a = [x + r, x + r - a, x + w, x + w - r, x + w - r + a, x + w - r + a - 1]"

definition draw_corner :: "int \<Rightarrow> int \<Rightarrow> int \<Rightarrow> int \<Rightarrow> int \<Rightarrow> u32 \<Rightarrow> int \<Rightarrow> gfx \<Rightarrow> gfx option" where
  "draw_corner x y w h r c a s =
     checked [r * r, a * a, r * r - a * a]
       (case sqrt_int (r * r - a * a) of None \<Rightarrow> None
        | Some b \<Rightarrow> checked (corner_sums x w r a @ corner_sums x w r b @ corner_sums y h r a @ corner_sums y h r b)
            (put_points c (corner_points x y w h r a b) s))"

definition gfx_rounded_rect :: "int \<Rightarrow> int \<Rightarrow> u32 \<Rightarrow> u32 \<Rightarrow> u32 \<Rightarrow> u32 \<Rightarrow> gfx \<Rightarrow> gfx option" where
  "gfx_rounded_rect x y w h r c s =
     (if w = 0 \<or> h = 0 then Some s
      else if r = 0 then gfx_rect x y w h c s
      else (let r = round_radius w h r
            in case each (\<lambda>(px, py, qx, qy). gfx_line px py qx qy c)
                 [(ofs x r, y, ofs x (w - r), y), (ofs x r, ofs y (h - 1), ofs x (w - r), ofs y (h - 1)),
                  (x, ofs y r, x, ofs y (h - r)), (ofs x (w - 1), ofs y r, ofs x (w - 1), ofs y (h - r))] s of
                 None \<Rightarrow> None
               | Some s \<Rightarrow> each (draw_corner x y (sint w) (sint h) (sint r) c) [0..sint r] s))"

section \<open>Triangles and gradients\<close>

definition edge_x :: "int \<Rightarrow> int \<Rightarrow> int \<Rightarrow> int \<Rightarrow> int \<Rightarrow> int option" where
  "edge_x xa ya dx dy y =
     (if dy \<noteq> 0
      then checked [y - ya, dx * (y - ya), xa + tdiv (dx * (y - ya)) dy] (Some (xa + tdiv (dx * (y - ya)) dy))
      else Some xa)"

definition scan_line :: "u32 \<Rightarrow> int \<Rightarrow> int option \<Rightarrow> int option \<Rightarrow> gfx \<Rightarrow> gfx option" where
  "scan_line c y a b s =
     (case (a, b) of
        (Some a, Some b) \<Rightarrow> (let (l, r) = (if b < a then (b, a) else (a, b))
           in checked [r - l, r - l + 1, y + 1] (gfx_fill_rect l y (word_of_int (r - l + 1)) 1 c s))
      | _ \<Rightarrow> None)"

definition gfx_fill_triangle :: "int \<times> int \<Rightarrow> int \<times> int \<Rightarrow> int \<times> int \<Rightarrow> u32 \<Rightarrow> gfx \<Rightarrow> gfx option" where
  "gfx_fill_triangle p0 p1 p2 c s =
     (let (p0, p1) = (if snd p1 < snd p0 then (p1, p0) else (p0, p1));
          (p0, p2) = (if snd p2 < snd p0 then (p2, p0) else (p0, p2));
          (p1, p2) = (if snd p2 < snd p1 then (p2, p1) else (p1, p2));
          (x0, y0) = p0; (x1, y1) = p1; (x2, y2) = p2;
          far = edge_x x0 y0 (x2 - x0) (y2 - y0)
      in checked [x1 - x0, y1 - y0, x2 - x0, y2 - y0, x2 - x1, y2 - y1]
        (case each (\<lambda>y. scan_line c y (edge_x x0 y0 (x1 - x0) (y1 - y0) y) (far y)) [y0..y1] s of None \<Rightarrow> None
         | Some s \<Rightarrow> each (\<lambda>y. scan_line c y (edge_x x1 y1 (x2 - x1) (y2 - y1) y) (far y)) [y1..y2] s))"

record gradient =
  color1 :: u32
  color2 :: u32
  vertical :: bool

definition grad_color :: "gradient \<Rightarrow> u32 \<Rightarrow> u32 \<Rightarrow> u32" where
  "grad_color g i n = gfx_color_lerp (color1 g) (color2 g) (ucast (i * 255 div (n - 1)))"

definition gfx_gradient_rect :: "int \<Rightarrow> int \<Rightarrow> u32 \<Rightarrow> u32 \<Rightarrow> gradient \<Rightarrow> gfx \<Rightarrow> gfx option" where
  "gfx_gradient_rect x y w h g s =
     (if w = 0 \<or> h = 0 then Some s
      else if vertical g then
        (if h = 1 then None
         else each (\<lambda>i s. checked [y + sint (of_nat i :: u32)]
             (gfx_fill_rect x (y + sint (of_nat i :: u32)) w 1 (grad_color g (of_nat i) h) s)) [0..<unat h] s)
      else
        (if w = 1 then None
         else each (\<lambda>i s. checked [x + sint (of_nat i :: u32)]
             (gfx_fill_rect (x + sint (of_nat i :: u32)) y 1 h (grad_color g (of_nat i) w) s)) [0..<unat w] s))"

definition gfx_gradient_rounded :: "int \<Rightarrow> int \<Rightarrow> u32 \<Rightarrow> u32 \<Rightarrow> u32 \<Rightarrow> gradient \<Rightarrow> gfx \<Rightarrow> gfx option" where
  "gfx_gradient_rounded x y w h r g s = gfx_gradient_rect x y w h g s"

section \<open>Text\<close>

definition font_8x16 :: "u8 list list" where
  "font_8x16 = [
    [0x00, 0x00, 0x00, 0x00, 0x00, 0x00, 0x00, 0x00, 0x00, 0x00, 0x00, 0x00, 0x00, 0x00, 0x00, 0x00],
    [0x00, 0x00, 0x18, 0x18, 0x18, 0x18, 0x18, 0x18, 0x18, 0x18, 0x00, 0x18, 0x18, 0x00, 0x00, 0x00],
    [0x00, 0x66, 0x66, 0x66, 0x00, 0x00, 0x00, 0x00, 0x00, 0x00, 0x00, 0x00, 0x00, 0x00, 0x00, 0x00],
    [0x00, 0x00, 0x6C, 0x6C, 0x6C, 0xFE, 0x6C, 0x6C, 0x6C, 0xFE, 0x6C, 0x6C, 0x6C, 0x00, 0x00, 0x00],
    [0x00, 0x10, 0x10, 0x3C, 0x56, 0x52, 0x50, 0x30, 0x18, 0x14, 0x12, 0x52, 0x74, 0x10, 0x10, 0x00],
    [0x00, 0x00, 0x62, 0x66, 0x0C, 0x0C, 0x18, 0x18, 0x30, 0x30, 0x60, 0x66, 0x46, 0x00, 0x00, 0x00],
    [0x00, 0x00, 0x38, 0x6C, 0x6C, 0x38, 0x70, 0xDA, 0xCE, 0xC6, 0xC6, 0x6C, 0x3A, 0x00, 0x00, 0x00],
    [0x00, 0x18, 0x18, 0x18, 0x30, 0x00, 0x00, 0x00, 0x00, 0x00, 0x00, 0x00, 0x00, 0x00, 0x00, 0x00],
    [0x00, 0x0C, 0x18, 0x30, 0x60, 0x60, 0x60, 0x60, 0x60, 0x60, 0x30, 0x18, 0x0C, 0x00, 0x00, 0x00],
    [0x00, 0x30, 0x18, 0x0C, 0x06, 0x06, 0x06, 0x06, 0x06, 0x06, 0x0C, 0x18, 0x30, 0x00, 0x00, 0x00],
    [0x00, 0x00, 0x00, 0x00, 0x66, 0x3C, 0xFF, 0x3C, 0x66, 0x00, 0x00, 0x00, 0x00, 0x00, 0x00, 0x00],
    [0x00, 0x00, 0x00, 0x00, 0x18, 0x18, 0x18, 0xFF, 0x18, 0x18, 0x18, 0x00, 0x00, 0x00, 0x00, 0x00],
    [0x00, 0x00, 0x00, 0x00, 0x00, 0x00, 0x00, 0x00, 0x00, 0x00, 0x18, 0x18, 0x18, 0x30, 0x00, 0x00],
    [0x00, 0x00, 0x00, 0x00, 0x00, 0x00, 0x00, 0xFE, 0x00, 0x00, 0x00, 0x00, 0x00, 0x00, 0x00, 0x00],
    [0x00, 0x00, 0x00, 0x00, 0x00, 0x00, 0x00, 0x00, 0x00, 0x00, 0x18, 0x18, 0x00, 0x00, 0x00, 0x00],
    [0x00, 0x00, 0x02, 0x06, 0x0C, 0x18, 0x30, 0x60, 0xC0, 0x80, 0x00, 0x00, 0x00, 0x00, 0x00, 0x00],
    [0x00, 0x00, 0x3C, 0x66, 0xC3, 0xC3, 0xC3, 0xC3, 0xC3, 0xC3, 0x66, 0x3C, 0x00, 0x00, 0x00, 0x00],
    [0x00, 0x00, 0x18, 0x78, 0x18, 0x18, 0x18, 0x18, 0x18, 0x18, 0x18, 0x7E, 0x00, 0x00, 0x00, 0x00],
    [0x00, 0x00, 0x3C, 0x66, 0xC3, 0x03, 0x06, 0x0C, 0x18, 0x30, 0x60, 0xFF, 0x00, 0x00, 0x00, 0x00],
    [0x00, 0x00, 0xFF, 0x06, 0x0C, 0x18, 0x3C, 0x06, 0x03, 0x03, 0xC3, 0x7E, 0x00, 0x00, 0x00, 0x00],
    [0x00, 0x00, 0x06, 0x0E, 0x1E, 0x36, 0x66, 0xC6, 0xFF, 0x06, 0x06, 0x06, 0x00, 0x00, 0x00, 0x00],
    [0x00, 0x00, 0xFF, 0xC0, 0xC0, 0xFC, 0x06, 0x03, 0x03, 0x03, 0xC3, 0x7E, 0x00, 0x00, 0x00, 0x00],
    [0x00, 0x00, 0x3C, 0x66, 0xC0, 0xC0, 0xFC, 0xC6, 0xC3, 0xC3, 0x66, 0x3C, 0x00, 0x00, 0x00, 0x00],
    [0x00, 0x00, 0xFF, 0x03, 0x06, 0x06, 0x0C, 0x0C, 0x18, 0x18, 0x30, 0x30, 0x00, 0x00, 0x00, 0x00],
    [0x00, 0x00, 0x7E, 0xC3, 0xC3, 0x66, 0x3C, 0x66, 0xC3, 0xC3, 0xC3, 0x7E, 0x00, 0x00, 0x00, 0x00],
    [0x00, 0x00, 0x3C, 0x66, 0xC3, 0xC3, 0xC3, 0x67, 0x3B, 0x03, 0x06, 0x3C, 0x00, 0x00, 0x00, 0x00],
    [0x00, 0x00, 0x00, 0x00, 0x00, 0x18, 0x18, 0x00, 0x00, 0x00, 0x18, 0x18, 0x00, 0x00, 0x00, 0x00],
    [0x00, 0x00, 0x00, 0x00, 0x00, 0x18, 0x18, 0x00, 0x00, 0x00, 0x18, 0x18, 0x30, 0x00, 0x00, 0x00],
    [0x00, 0x00, 0x06, 0x0C, 0x18, 0x30, 0x60, 0x60, 0x30, 0x18, 0x0C, 0x06, 0x00, 0x00, 0x00, 0x00],
    [0x00, 0x00, 0x00, 0x00, 0x00, 0xFE, 0x00, 0x00, 0x00, 0xFE, 0x00, 0x00, 0x00, 0x00, 0x00, 0x00],
    [0x00, 0x00, 0x60, 0x30, 0x18, 0x0C, 0x06, 0x06, 0x0C, 0x18, 0x30, 0x60, 0x00, 0x00, 0x00, 0x00],
    [0x00, 0x00, 0x3C, 0x66, 0xC3, 0x03, 0x06, 0x0C, 0x18, 0x18, 0x00, 0x18, 0x18, 0x00, 0x00, 0x00],
    [0x00, 0x00, 0x7E, 0xC3, 0xC3, 0xCF, 0xDB, 0xDB, 0xCF, 0xC0, 0xC3, 0x7E, 0x00, 0x00, 0x00, 0x00],
    [0x00, 0x00, 0x18, 0x3C, 0x66, 0xC3, 0xC3, 0xFF, 0xC3, 0xC3, 0xC3, 0xC3, 0x00, 0x00, 0x00, 0x00],
    [0x00, 0x00, 0xFC, 0xC6, 0xC6, 0xC6, 0xFC, 0xC6, 0xC3, 0xC3, 0xC6, 0xFC, 0x00, 0x00, 0x00, 0x00],
    [0x00, 0x00, 0x3C, 0x66, 0xC3, 0xC0, 0xC0, 0xC0, 0xC0, 0xC3, 0x66, 0x3C, 0x00, 0x00, 0x00, 0x00],
    [0x00, 0x00, 0xFC, 0xC6, 0xC3, 0xC3, 0xC3, 0xC3, 0xC3, 0xC3, 0xC6, 0xFC, 0x00, 0x00, 0x00, 0x00],
    [0x00, 0x00, 0xFF, 0xC0, 0xC0, 0xC0, 0xFC, 0xC0, 0xC0, 0xC0, 0xC0, 0xFF, 0x00, 0x00, 0x00, 0x00],
    [0x00, 0x00, 0xC0, 0xC0, 0xC0, 0xC0, 0xFC, 0xC0, 0xC0, 0xC0, 0xC0, 0xFF, 0x00, 0x00, 0x00, 0x00],
    [0x00, 0x00, 0x3E, 0x66, 0xC0, 0xC0, 0xC0, 0xCF, 0xC3, 0xC3, 0x66, 0x3E, 0x00, 0x00, 0x00, 0x00],
    [0x00, 0x00, 0xC3, 0xC3, 0xC3, 0xC3, 0xFF, 0xC3, 0xC3, 0xC3, 0xC3, 0xC3, 0x00, 0x00, 0x00, 0x00],
    [0x00, 0x00, 0x7E, 0x18, 0x18, 0x18, 0x18, 0x18, 0x18, 0x18, 0x18, 0x7E, 0x00, 0x00, 0x00, 0x00],
    [0x00, 0x00, 0x7E, 0x18, 0x18, 0x18, 0x18, 0x18, 0x18, 0x18, 0x18, 0x18, 0xD8, 0xF0, 0x00, 0x00],
    [0x00, 0x00, 0xC3, 0xC6, 0xCC, 0xD8, 0xF0, 0xD8, 0xCC, 0xC6, 0xC3, 0xC3, 0x00, 0x00, 0x00, 0x00],
    [0x00, 0x00, 0xFF, 0xC0, 0xC0, 0xC0, 0xC0, 0xC0, 0xC0, 0xC0, 0xC0, 0xC0, 0x00, 0x00, 0x00, 0x00],
    [0x00, 0x00, 0xC3, 0xE7, 0xFF, 0xDB, 0xC3, 0xC3, 0xC3, 0xC3, 0xC3, 0xC3, 0x00, 0x00, 0x00, 0x00],
    [0x00, 0x00, 0xC3, 0xE3, 0xF3, 0xFB, 0xDB, 0xCF, 0xC7, 0xC3, 0xC3, 0xC3, 0x00, 0x00, 0x00, 0x00],
    [0x00, 0x00, 0x7E, 0xC3, 0xC3, 0xC3, 0xC3, 0xC3, 0xC3, 0xC3, 0xC3, 0x7E, 0x00, 0x00, 0x00, 0x00],
    [0x00, 0x00, 0xFC, 0xC6, 0xC3, 0xC3, 0xC6, 0xFC, 0xC0, 0xC0, 0xC0, 0xC0, 0x00, 0x00, 0x00, 0x00],
    [0x00, 0x00, 0x7E, 0xC3, 0xC3, 0xC3, 0xC3, 0xC3, 0xDB, 0xCF, 0x66, 0x3D, 0x00, 0x00, 0x00, 0x00],
    [0x00, 0x00, 0xFC, 0xC6, 0xC3, 0xC3, 0xC6, 0xFC, 0xCC, 0xC6, 0xC3, 0xC3, 0x00, 0x00, 0x00, 0x00],
    [0x00, 0x00, 0x7E, 0xC3, 0xC0, 0xC0, 0x7E, 0x03, 0x03, 0x03, 0xC3, 0x7E, 0x00, 0x00, 0x00, 0x00],
    [0x00, 0x00, 0xFF, 0x18, 0x18, 0x18, 0x18, 0x18, 0x18, 0x18, 0x18, 0x18, 0x00, 0x00, 0x00, 0x00],
    [0x00, 0x00, 0xC3, 0xC3, 0xC3, 0xC3, 0xC3, 0xC3, 0xC3, 0xC3, 0x66, 0x3C, 0x00, 0x00, 0x00, 0x00],
    [0x00, 0x00, 0xC3, 0xC3, 0xC3, 0xC3, 0xC3, 0xC3, 0x66, 0x3C, 0x18, 0x18, 0x00, 0x00, 0x00, 0x00],
    [0x00, 0x00, 0xC3, 0xC3, 0xC3, 0xC3, 0xDB, 0xDB, 0xFF, 0xE7, 0xC3, 0x42, 0x00, 0x00, 0x00, 0x00],
    [0x00, 0x00, 0xC3, 0x66, 0x3C, 0x18, 0x18, 0x18, 0x3C, 0x66, 0xC3, 0xC3, 0x00, 0x00, 0x00, 0x00],
    [0x00, 0x00, 0xC3, 0xC3, 0xC3, 0x66, 0x3C, 0x18, 0x18, 0x18, 0x18, 0x18, 0x00, 0x00, 0x00, 0x00],
    [0x00, 0x00, 0xFF, 0x03, 0x06, 0x0C, 0x18, 0x30, 0x60, 0xC0, 0xC0, 0xFF, 0x00, 0x00, 0x00, 0x00],
    [0x00, 0x00, 0x78, 0x60, 0x60, 0x60, 0x60, 0x60, 0x60, 0x60, 0x60, 0x78, 0x00, 0x00, 0x00, 0x00],
    [0x00, 0x00, 0x80, 0xC0, 0x60, 0x30, 0x18, 0x0C, 0x06, 0x03, 0x01, 0x00, 0x00, 0x00, 0x00, 0x00],
    [0x00, 0x00, 0x1E, 0x06, 0x06, 0x06, 0x06, 0x06, 0x06, 0x06, 0x06, 0x1E, 0x00, 0x00, 0x00, 0x00],
    [0x00, 0x00, 0x18, 0x3C, 0x66, 0xC3, 0x00, 0x00, 0x00, 0x00, 0x00, 0x00, 0x00, 0x00, 0x00, 0x00],
    [0x00, 0x00, 0x00, 0x00, 0x00, 0x00, 0x00, 0x00, 0x00, 0x00, 0x00, 0x00, 0x00, 0xFF, 0x00, 0x00],
    [0x00, 0x00, 0x30, 0x30, 0x18, 0x0C, 0x00, 0x00, 0x00, 0x00, 0x00, 0x00, 0x00, 0x00, 0x00, 0x00],
    [0x00, 0x00, 0x00, 0x00, 0x00, 0x7E, 0x03, 0x7F, 0xC3, 0xC3, 0x67, 0x3B, 0x00, 0x00, 0x00, 0x00],
    [0x00, 0x00, 0xC0, 0xC0, 0xC0, 0xFC, 0xC6, 0xC3, 0xC3, 0xC3, 0xC6, 0xFC, 0x00, 0x00, 0x00, 0x00],
    [0x00, 0x00, 0x00, 0x00, 0x00, 0x7E, 0xC3, 0xC0, 0xC0, 0xC0, 0xC3, 0x7E, 0x00, 0x00, 0x00, 0x00],
    [0x00, 0x00, 0x03, 0x03, 0x03, 0x7F, 0xC3, 0xC3, 0xC3, 0xC3, 0x66, 0x3C, 0x00, 0x00, 0x00, 0x00],
    [0x00, 0x00, 0x00, 0x00, 0x00, 0x7E, 0xC3, 0xC3, 0xFF, 0xC0, 0xC3, 0x7E, 0x00, 0x00, 0x00, 0x00],
    [0x00, 0x00, 0x0E, 0x18, 0x18, 0x7E, 0x18, 0x18, 0x18, 0x18, 0x18, 0x18, 0x00, 0x00, 0x00, 0x00],
    [0x00, 0x00, 0x00, 0x00, 0x00, 0x7F, 0xC3, 0xC3, 0xC3, 0xC3, 0x67, 0x3B, 0x03, 0x06, 0x7C, 0x00],
    [0x00, 0x00, 0xC0, 0xC0, 0xC0, 0xFC, 0xC6, 0xC3, 0xC3, 0xC3, 0xC3, 0xC3, 0x00, 0x00, 0x00, 0x00],
    [0x00, 0x00, 0x18, 0x18, 0x00, 0x78, 0x18, 0x18, 0x18, 0x18, 0x18, 0x7E, 0x00, 0x00, 0x00, 0x00],
    [0x00, 0x00, 0x0C, 0x0C, 0x00, 0x3C, 0x0C, 0x0C, 0x0C, 0x0C, 0x0C, 0x0C, 0xCC, 0x78, 0x00, 0x00],
    [0x00, 0x00, 0xC0, 0xC0, 0xC0, 0xC6, 0xCC, 0xD8, 0xF0, 0xD8, 0xCC, 0xC6, 0x00, 0x00, 0x00, 0x00],
    [0x00, 0x00, 0x78, 0x18, 0x18, 0x18, 0x18, 0x18, 0x18, 0x18, 0x18, 0x7E, 0x00, 0x00, 0x00, 0x00],
    [0x00, 0x00, 0x00, 0x00, 0x00, 0xFC, 0x66, 0x66, 0x66, 0x66, 0x66, 0x66, 0x00, 0x00, 0x00, 0x00],
    [0x00, 0x00, 0x00, 0x00, 0x00, 0xFC, 0xC6, 0xC3, 0xC3, 0xC3, 0xC3, 0xC3, 0x00, 0x00, 0x00, 0x00],
    [0x00, 0x00, 0x00, 0x00, 0x00, 0x7E, 0xC3, 0xC3, 0xC3, 0xC3, 0xC3, 0x7E, 0x00, 0x00, 0x00, 0x00],
    [0x00, 0x00, 0x00, 0x00, 0x00, 0xFC, 0xC6, 0xC3, 0xC3, 0xC3, 0xC6, 0xFC, 0xC0, 0xC0, 0xC0, 0x00],
    [0x00, 0x00, 0x00, 0x00, 0x00, 0x7F, 0xC3, 0xC3, 0xC3, 0xC3, 0x66, 0x3E, 0x06, 0x06, 0x06, 0x00],
    [0x00, 0x00, 0x00, 0x00, 0x00, 0xFC, 0xC6, 0xC0, 0xC0, 0xC0, 0xC0, 0xC0, 0x00, 0x00, 0x00, 0x00],
    [0x00, 0x00, 0x00, 0x00, 0x00, 0x7E, 0xC0, 0xC0, 0x7E, 0x03, 0x03, 0xFE, 0x00, 0x00, 0x00, 0x00],
    [0x00, 0x00, 0x18, 0x18, 0x18, 0x7E, 0x18, 0x18, 0x18, 0x18, 0x18, 0x0E, 0x00, 0x00, 0x00, 0x00],
    [0x00, 0x00, 0x00, 0x00, 0x00, 0xC3, 0xC3, 0xC3, 0xC3, 0xC3, 0x66, 0x3C, 0x00, 0x00, 0x00, 0x00],
    [0x00, 0x00, 0x00, 0x00, 0x00, 0xC3, 0xC3, 0xC3, 0xC3, 0x66, 0x3C, 0x18, 0x00, 0x00, 0x00, 0x00],
    [0x00, 0x00, 0x00, 0x00, 0x00, 0xC3, 0xC3, 0xDB, 0xDB, 0xFF, 0x66, 0x66, 0x00, 0x00, 0x00, 0x00],
    [0x00, 0x00, 0x00, 0x00, 0x00, 0xC3, 0x66, 0x3C, 0x18, 0x3C, 0x66, 0xC3, 0x00, 0x00, 0x00, 0x00],
    [0x00, 0x00, 0x00, 0x00, 0x00, 0xC3, 0xC3, 0xC3, 0xC3, 0x67, 0x3B, 0x03, 0x03, 0x06, 0x7C, 0x00],
    [0x00, 0x00, 0x00, 0x00, 0x00, 0xFF, 0x06, 0x0C, 0x18, 0x30, 0x60, 0xFF, 0x00, 0x00, 0x00, 0x00],
    [0x00, 0x00, 0x0E, 0x18, 0x18, 0x18, 0x30, 0x18, 0x18, 0x18, 0x18, 0x0E, 0x00, 0x00, 0x00, 0x00],
    [0x00, 0x00, 0x18, 0x18, 0x18, 0x18, 0x18, 0x18, 0x18, 0x18, 0x18, 0x18, 0x18, 0x18, 0x18, 0x00],
    [0x00, 0x00, 0x70, 0x18, 0x18, 0x18, 0x0C, 0x18, 0x18, 0x18, 0x18, 0x70, 0x00, 0x00, 0x00, 0x00],
    [0x00, 0x00, 0x00, 0x00, 0x73, 0xDB, 0xCE, 0x00, 0x00, 0x00, 0x00, 0x00, 0x00, 0x00, 0x00, 0x00]]"

definition glyph_of :: "char \<Rightarrow> u8 list" where
  "glyph_of ch = (let n = of_char ch; n = (if n < 32 \<or> 126 < n then of_char CHR ''?'' else n) in font_8x16 ! (n - 32))"

text \<open>The dots of a glyph, row by row.\<close>

definition glyph_dots :: "char \<Rightarrow> (int \<times> int) list" where
  "glyph_dots ch =
     concat (map (\<lambda>row. map (\<lambda>col. (int col, int row)) (filter (\<lambda>col. bit (glyph_of ch ! row) (7 - col)) [0..<8])) [0..<16])"

definition draw_dot :: "u32 \<Rightarrow> u32 \<Rightarrow> int \<Rightarrow> int \<Rightarrow> int \<times> int \<Rightarrow> gfx \<Rightarrow> gfx option" where
  "draw_dot color scale cx y d s =
     (if scale = 1 then checked [cx + fst d, y + snd d] (gfx_putpixel (cx + fst d) (y + snd d) color s)
      else checked [cx + fst d * sint scale, y + snd d * sint scale]
        (gfx_fill_rect (cx + fst d * sint scale) (y + snd d * sint scale) scale scale color s))"

definition gfx_draw_text :: "int \<Rightarrow> int \<Rightarrow> string \<Rightarrow> u32 \<Rightarrow> u32 \<Rightarrow> gfx \<Rightarrow> gfx option" where
  "gfx_draw_text x y str color scale s =
     (if scale = 0 then Some s
      else (let scale = (if 4 < scale then 4 else scale)
            in each (\<lambda>n s. checked [x + int (n + 1) * sint (8 * scale)]
                 (each (draw_dot color scale (x + int n * sint (8 * scale)) y) (glyph_dots (str ! n)) s)) [0..<length str] s))"

definition gfx_text_width :: "string \<Rightarrow> u32 \<Rightarrow> u32" where
  "gfx_text_width str scale = (if scale = 0 then 0 else of_nat (length str) * 8 * scale)"

definition gfx_draw_text_center :: "int \<Rightarrow> int \<Rightarrow> string \<Rightarrow> u32 \<Rightarrow> u32 \<Rightarrow> gfx \<Rightarrow> gfx option" where
  "gfx_draw_text_center cx y str color scale s =
     checked [cx - sint (gfx_text_width str scale div 2)]
       (gfx_draw_text (cx - sint (gfx_text_width str scale div 2)) y str color scale s)"

definition gfx_draw_text_right :: "int \<Rightarrow> int \<Rightarrow> string \<Rightarrow> u32 \<Rightarrow> u32 \<Rightarrow> gfx \<Rightarrow> gfx option" where
  "gfx_draw_text_right rx y str color scale s =
     checked [rx - sint (gfx_text_width str scale)]
       (gfx_draw_text (rx - sint (gfx_text_width str scale)) y str color scale s)"

section \<open>Images\<close>

definition fetch :: "u32 list \<Rightarrow> u32 \<Rightarrow> u32 option" where
  "fetch src i = (if unat i < length src then Some (src ! unat i) else None)"

definition copy_run :: "u32 list \<Rightarrow> nat \<Rightarrow> nat \<Rightarrow> nat \<Rightarrow> gfx \<Rightarrow> gfx option" where
  "copy_run src q p n s =
     each (\<lambda>i s. if q + i < length src then store (p + i) (src ! (q + i)) s else None) [0..<n] s"

definition gfx_blit :: "int \<Rightarrow> int \<Rightarrow> u32 \<Rightarrow> u32 \<Rightarrow> u32 list \<Rightarrow> gfx \<Rightarrow> gfx option" where
  "gfx_blit x y w h src s =
     (if w = 0 \<or> h = 0 then Some s
      else (let x0 = max x (sint (clip_x s)); y0 = max y (sint (clip_y s));
                x1 = min (x + sint w) (sint (clip_x2 s)); y1 = min (y + sint h) (sint (clip_y2 s));
                sx = x0 - x; sy = y0 - y
            in checked [x + sint w, y + sint h, sx, sy]
              (if x1 \<le> x0 \<or> y1 \<le> y0 then Some s
               else checked [x1 - x0]
                 (each (\<lambda>row s. copy_run src (unat (word_of_int (sy + (row - y0)) * w + word_of_int sx))
                    (pixel_index s x0 row) (nat (x1 - x0)) s) [y0..y1 - 1] s))))"

definition put_if :: "(u32 \<Rightarrow> bool) \<Rightarrow> u32 option \<Rightarrow> int \<Rightarrow> int \<Rightarrow> gfx \<Rightarrow> gfx option" where
  "put_if P c x y s = (case c of None \<Rightarrow> None | Some c \<Rightarrow> if P c then checked [x, y] (gfx_putpixel x y c s) else Some s)"

definition blit_each :: "(u32 \<Rightarrow> bool) \<Rightarrow> (u32 \<Rightarrow> u32 \<Rightarrow> u32) \<Rightarrow> int \<Rightarrow> int \<Rightarrow> u32 \<Rightarrow> u32 \<Rightarrow> u32 list \<Rightarrow> gfx \<Rightarrow> gfx option" where
  "blit_each P at x y w h src s =
     each (\<lambda>row. each (\<lambda>col. put_if P (fetch src (at (of_nat row) (of_nat col)))
       (x + sint (of_nat col :: u32)) (y + sint (of_nat row :: u32))) [0..<unat w]) [0..<unat h] s"

definition gfx_blit_alpha :: "int \<Rightarrow> int \<Rightarrow> u32 \<Rightarrow> u32 \<Rightarrow> u32 list \<Rightarrow> gfx \<Rightarrow> gfx option" where
  "gfx_blit_alpha x y w h src = blit_each (\<lambda>c. drop_bit 24 c \<noteq> 0) (\<lambda>row col. row * w + col) x y w h src"

definition gfx_blit_key :: "int \<Rightarrow> int \<Rightarrow> u32 \<Rightarrow> u32 \<Rightarrow> u32 list \<Rightarrow> u32 \<Rightarrow> gfx \<Rightarrow> gfx option" where
  "gfx_blit_key x y w h src key = blit_each (\<lambda>c. c \<noteq> key) (\<lambda>row col. row * w + col) x y w h src"

definition gfx_blit_scaled :: "int \<Rightarrow> int \<Rightarrow> u32 \<Rightarrow> u32 \<Rightarrow> u32 list \<Rightarrow> u32 \<Rightarrow> u32 \<Rightarrow> gfx \<Rightarrow> gfx option" where
  "gfx_blit_scaled x y dw dh src sw sh s =
     (if dw = 0 \<or> dh = 0 \<or> sw = 0 \<or> sh = 0 then Some s
      else blit_each (\<lambda>c. drop_bit 24 c \<noteq> 0) (\<lambda>row col. (row * sh div dh) * sw + col * sw div dw) x y dw dh src s)"

section \<open>Where drawing happens\<close>

text \<open>
  A context whose frame buffer has the size it says, small enough for \<open>int\<close> coordinates, and a
  clip rectangle that lies on it.
\<close>

definition gfx_ok :: "gfx \<Rightarrow> bool" where
  "gfx_ok s \<longleftrightarrow>
     length (fb s) = unat (width s) * unat (height s) \<and> uint (width s) < 2 ^ 31 \<and> uint (height s) < 2 ^ 31
     \<and> uint (width s) * uint (height s) < 2 ^ 32
     \<and> uint (clip_x s) < 2 ^ 30 \<and> uint (clip_y s) < 2 ^ 30 \<and> clip_x2 s \<le> width s \<and> clip_y2 s \<le> height s"

definition on_screen :: "gfx \<Rightarrow> int \<Rightarrow> int \<Rightarrow> bool" where
  "on_screen s x y \<longleftrightarrow> 0 \<le> x \<and> x < uint (width s) \<and> 0 \<le> y \<and> y < uint (height s)"

definition cell :: "gfx \<Rightarrow> int \<Rightarrow> int \<Rightarrow> nat" where
  "cell s x y = nat (y * uint (width s) + x)"

definition pixel :: "gfx \<Rightarrow> int \<Rightarrow> int \<Rightarrow> u32" where
  "pixel s x y = fb s ! cell s x y"

text \<open>What painting a colour over a pixel gives.\<close>

definition over :: "u32 \<Rightarrow> u32 \<Rightarrow> u32" where
  "over c old = (if drop_bit 24 c = 0xFF then c else if drop_bit 24 c = 0 then old else gfx_blend old c)"

lemma sint_31:
  fixes w :: u32
  assumes "uint w < 2 ^ 31"
  shows "sint w = uint w"
proof -
  have "- (2 ^ 31) \<le> uint w"
    by (rule order_trans[OF _ uint_nonnegative]) simp
  then show ?thesis
    using assms by (simp add: sint_uint signed_take_bit_int_eq_self_iff)
qed

text \<open>Signed arithmetic that does not overflow is exact.\<close>

lemma int32_iff: "int32 i \<longleftrightarrow> - 2147483648 \<le> i \<and> i \<le> 2147483647"
  by (auto simp: int32_def)

lemma sint_exact:
  fixes a b :: u32
  shows "int32 i \<Longrightarrow> sint (word_of_int i :: u32) = i"
    and "int32 (sint a + sint b) \<Longrightarrow> sint (a + b) = sint a + sint b"
    and "int32 (sint a - sint b) \<Longrightarrow> sint (a - b) = sint a - sint b"
    and "int32 (sint a * sint b) \<Longrightarrow> sint (a * b) = sint a * sint b"
  by (simp_all add: int32_def sint_word_ariths signed_take_bit_int_eq_self_iff signed_of_int)

lemma ofs_exact: "int32 x \<Longrightarrow> int32 (x + sint v) \<Longrightarrow> ofs x v = x + sint v"
  by (simp add: ofs_def sint_exact)

lemma sint_of_nat: "i < 2 ^ 31 \<Longrightarrow> sint (of_nat i :: u32) = int i"
  using sint_exact(1)[of "int i"] by (simp add: int32_def)

lemma checked_Some: "checked vs r = Some t \<longleftrightarrow> list_all int32 vs \<and> r = Some t"
  by (simp add: checked_def)

lemma gfx_ok_sint:
  assumes "gfx_ok s"
  shows "sint (width s) = uint (width s)" "sint (height s) = uint (height s)"
    "sint (clip_x s) = uint (clip_x s)" "sint (clip_y s) = uint (clip_y s)"
    "sint (clip_x2 s) = uint (clip_x2 s)" "sint (clip_y2 s) = uint (clip_y2 s)"
  using assms by (auto simp: gfx_ok_def word_le_def intro!: sint_31)

lemma clip_on_screen:
  assumes "gfx_ok s" "clip_test s x y"
  shows "on_screen s x y"
proof -
  have "uint (clip_x2 s) \<le> uint (width s)" "uint (clip_y2 s) \<le> uint (height s)"
    using assms(1) by (auto simp: gfx_ok_def word_le_def)
  moreover have "0 \<le> uint (clip_x s)" "0 \<le> uint (clip_y s)"
    by auto
  ultimately show ?thesis
    using assms(2) unfolding clip_test_def on_screen_def gfx_ok_sint[OF assms(1)] by linarith
qed

lemma cell_range:
  assumes "on_screen s x y"
  shows "0 \<le> y * uint (width s) + x" "y * uint (width s) + x < uint (width s) * uint (height s)"
proof -
  show "0 \<le> y * uint (width s) + x"
    using assms by (simp add: on_screen_def)
  have "(y + 1) * uint (width s) \<le> uint (height s) * uint (width s)"
    using assms by (intro mult_right_mono) (auto simp: on_screen_def)
  then show "y * uint (width s) + x < uint (width s) * uint (height s)"
    using assms by (simp add: on_screen_def algebra_simps)
qed

lemma cell_length:
  assumes "gfx_ok s" "on_screen s x y"
  shows "cell s x y < length (fb s)"
proof -
  have "nat (y * uint (width s) + x) < nat (uint (width s) * uint (height s))"
    using cell_range[OF assms(2)] by linarith
  also have "\<dots> = length (fb s)"
    using assms(1) by (simp add: gfx_ok_def unat_eq_nat_uint nat_mult_distrib del: nat_uint_eq)
  finally show ?thesis
    by (simp add: cell_def)
qed

lemma pixel_index_cell:
  assumes "gfx_ok s" "on_screen s x y"
  shows "pixel_index s x y = cell s x y"
proof -
  have eq: "word_of_int y * width s + word_of_int x = (word_of_int (y * uint (width s) + x) :: u32)"
    by simp
  have "uint (word_of_int (y * uint (width s) + x) :: u32) = y * uint (width s) + x"
    using cell_range[OF assms(2)] assms(1) by (simp add: gfx_ok_def uint_word_of_int del: of_int_add of_int_mult)
  then show ?thesis
    unfolding pixel_index_def cell_def unat_eq_nat_uint eq by simp
qed

lemma cell_inj:
  assumes "on_screen s x y" "on_screen s x' y'" "cell s x y = cell s x' y'"
  shows "x = x' \<and> y = y'"
proof -
  have eq: "y * uint (width s) + x = y' * uint (width s) + x'"
    using assms cell_range(1)[OF assms(1)] cell_range(1)[OF assms(2)] by (simp add: cell_def)
  have "(y * uint (width s) + x) div uint (width s) = y" "(y' * uint (width s) + x') div uint (width s) = y'"
    using assms(1,2) by (simp_all add: on_screen_def)
  then show ?thesis
    using eq by auto
qed

text \<open>Painting a set of cells once.\<close>

definition touched :: "u32 \<Rightarrow> nat set \<Rightarrow> gfx \<Rightarrow> gfx \<Rightarrow> bool" where
  "touched c A s t \<longleftrightarrow>
     (\<exists>buf. t = s\<lparr>fb := buf\<rparr> \<and> length buf = length (fb s)
       \<and> (\<forall>i<length (fb s). buf ! i = (if i \<in> A then over c (fb s ! i) else fb s ! i)))"

lemma touched_empty: "touched c {} s s"
  by (auto simp: touched_def intro!: exI[of _ "fb s"])

lemma touched_trans:
  assumes "touched c A s t" "touched c B t u" "A \<inter> B = {}"
  shows "touched c (A \<union> B) s u"
proof -
  obtain buf where t: "t = s\<lparr>fb := buf\<rparr>" "length buf = length (fb s)"
    "\<And>i. i < length (fb s) \<Longrightarrow> buf ! i = (if i \<in> A then over c (fb s ! i) else fb s ! i)"
    using assms(1) by (auto simp: touched_def)
  obtain buf' where u: "u = t\<lparr>fb := buf'\<rparr>" "length buf' = length buf"
    "\<And>i. i < length buf \<Longrightarrow> buf' ! i = (if i \<in> B then over c (buf ! i) else buf ! i)"
    using assms(2) t(1) by (auto simp: touched_def)
  have "buf' ! i = (if i \<in> A \<union> B then over c (fb s ! i) else fb s ! i)" if "i < length (fb s)" for i
    using t(3)[OF that] u(3)[of i] that t(2) assms(3) by auto
  then show ?thesis
    using t u by (auto simp: touched_def intro!: exI[of _ buf'])
qed

lemma touched_paint:
  assumes "i < length (fb s)" "drop_bit 24 c \<noteq> 0"
  shows "\<exists>t. paint c i s = Some t \<and> touched c {i} s t"
  using assms by (auto simp: paint_def store_def touched_def over_def nth_list_update)

lemma each_append:
  "each f (xs @ ys) s = (case each f xs s of None \<Rightarrow> None | Some t \<Rightarrow> each f ys t)"
  by (induction xs arbitrary: s) (auto split: option.splits)

lemma each_touched:
  assumes "\<And>x t. x \<in> set xs \<Longrightarrow> t = s\<lparr>fb := fb t\<rparr> \<Longrightarrow> length (fb t) = length (fb s)
      \<Longrightarrow> \<exists>u. f x t = Some u \<and> touched c (A x) t u"
    "\<And>x y. x \<in> set xs \<Longrightarrow> y \<in> set xs \<Longrightarrow> x \<noteq> y \<Longrightarrow> A x \<inter> A y = {}" "distinct xs"
  shows "\<exists>t. each f xs s = Some t \<and> touched c (\<Union>x\<in>set xs. A x) s t"
  using assms
proof (induction xs rule: rev_induct)
  case Nil
  then show ?case by (simp add: touched_empty)
next
  case (snoc x xs)
  obtain t where t: "each f xs s = Some t" "touched c (\<Union>x\<in>set xs. A x) s t"
    using snoc by auto
  have "t = s\<lparr>fb := fb t\<rparr>" "length (fb t) = length (fb s)"
    using t(2) by (auto simp: touched_def)
  then obtain u where u: "f x t = Some u" "touched c (A x) t u"
    using snoc.prems(1)[of x t] by auto
  have "(\<Union>x\<in>set xs. A x) \<inter> A x = {}"
    using snoc.prems(2)[of _ x] snoc.prems(3) by fastforce
  from touched_trans[OF t(2) u(2) this] have "touched c (\<Union>y\<in>set (xs @ [x]). A y) s u"
    by (simp add: Un_commute)
  then show ?case
    using t(1) u(1) by (simp add: each_append)
qed

lemma fill_run_touched:
  assumes "p + n \<le> length (fb s)" "drop_bit 24 c \<noteq> 0"
  shows "\<exists>t. fill_run c p n s = Some t \<and> touched c {p..<p + n} s t"
proof -
  have "\<exists>t. each (\<lambda>i. paint c (p + i)) [0..<n] s = Some t \<and> touched c (\<Union>i\<in>set [0..<n]. {p + i}) s t"
    using assms by (intro each_touched touched_paint) auto
  moreover have "(\<Union>i\<in>set [0..<n]. {p + i}) = {p..<p + n}"
    by (simp add: UNION_singleton_eq_range add.commute)
  ultimately show ?thesis
    by (simp add: fill_run_def)
qed

lemma touched_frame:
  assumes "touched c A s t"
  shows "t = s\<lparr>fb := fb t\<rparr>" "length (fb t) = length (fb s)"
  using assms by (auto simp: touched_def)

text \<open>The clip test and the geometry of a context do not depend on the pixels.\<close>

lemma frame_simps:
  assumes "t = s\<lparr>fb := fb t\<rparr>"
  shows "clip_test t x y = clip_test s x y" "on_screen t x y = on_screen s x y" "cell t x y = cell s x y"
    "pixel_index t x y = pixel_index s x y"
    "clip_x t = clip_x s" "clip_y t = clip_y s" "clip_x2 t = clip_x2 s" "clip_y2 t = clip_y2 s"
    "width t = width s" "height t = height s"
  by (subst assms, simp add: clip_test_def on_screen_def cell_def pixel_index_def)+

lemma gfx_ok_frame:
  assumes "gfx_ok s" "t = s\<lparr>fb := fb t\<rparr>" "length (fb t) = length (fb s)"
  shows "gfx_ok t"
  using assms(1,3) unfolding gfx_ok_def frame_simps[OF assms(2)] by simp

section \<open>Filled rectangles\<close>

definition in_rect :: "int \<Rightarrow> int \<Rightarrow> u32 \<Rightarrow> u32 \<Rightarrow> int \<Rightarrow> int \<Rightarrow> bool" where
  "in_rect x y w h px py \<longleftrightarrow> x \<le> px \<and> px < x + sint w \<and> y \<le> py \<and> py < y + sint h"

definition cells :: "gfx \<Rightarrow> (int \<Rightarrow> int \<Rightarrow> bool) \<Rightarrow> nat set" where
  "cells s P = {cell s px py | px py. P px py \<and> clip_test s px py}"

lemma cells_frame:
  assumes "t = s\<lparr>fb := fb t\<rparr>"
  shows "cells t P = cells s P"
  unfolding cells_def frame_simps[OF assms] ..

lemma cell_in_cells:
  assumes "gfx_ok s" "on_screen s px py"
  shows "cell s px py \<in> cells s P \<longleftrightarrow> P px py \<and> clip_test s px py"
proof
  assume "cell s px py \<in> cells s P"
  then obtain qx qy where q: "cell s px py = cell s qx qy" "P qx qy" "clip_test s qx qy"
    unfolding cells_def by blast
  then show "P px py \<and> clip_test s px py"
    using cell_inj[OF assms(2) clip_on_screen[OF assms(1) q(3)] q(1)] by simp
qed (auto simp: cells_def)

lemma touched_pixel:
  assumes "gfx_ok s" "touched c (cells s P) s t" "on_screen s px py"
  shows "pixel t px py = (if P px py \<and> clip_test s px py then over c (pixel s px py) else pixel s px py)"
proof -
  have "fb t ! cell s px py = (if cell s px py \<in> cells s P then over c (fb s ! cell s px py) else fb s ! cell s px py)"
    using assms(2) cell_length[OF assms(1,3)] by (auto simp: touched_def)
  then show ?thesis
    by (simp add: pixel_def frame_simps[OF touched_frame(1)[OF assms(2)]] cell_in_cells[OF assms(1,3)])
qed

lemma row_run:
  assumes "gfx_ok s" "x0 < x1" "clip_test s x0 row" "clip_test s (x1 - 1) row"
  shows "{pixel_index s x0 row..<pixel_index s x0 row + nat (x1 - x0)} = cells s (\<lambda>px py. py = row \<and> x0 \<le> px \<and> px < x1)"
    (is "?run = ?cells")
    and "pixel_index s x0 row + nat (x1 - x0) \<le> length (fb s)"
proof -
  have on: "on_screen s x0 row" "on_screen s (x1 - 1) row"
    using clip_on_screen[OF assms(1)] assms by auto
  have idx: "pixel_index s x0 row = nat (row * uint (width s) + x0)"
    using pixel_index_cell[OF assms(1) on(1)] by (simp add: cell_def)
  have nonneg: "0 \<le> row * uint (width s) + x0"
    using cell_range[OF on(1)] by simp
  have end_cell: "pixel_index s x0 row + nat (x1 - x0) = Suc (cell s (x1 - 1) row)"
    using nonneg assms(2) by (simp add: idx cell_def)
  show "pixel_index s x0 row + nat (x1 - x0) \<le> length (fb s)"
    using cell_length[OF assms(1) on(2)] end_cell by simp
  have clip: "clip_test s px row" if "x0 \<le> px" "px < x1" for px
    using assms(3,4) that by (auto simp: clip_test_def)
  have "i \<in> ?run \<longleftrightarrow> (\<exists>px. i = nat (row * uint (width s) + px) \<and> x0 \<le> px \<and> px < x1)" for i
  proof
    assume "i \<in> ?run"
    then show "\<exists>px. i = nat (row * uint (width s) + px) \<and> x0 \<le> px \<and> px < x1"
      using nonneg assms(2) by (intro exI[of _ "int i - row * uint (width s)"]) (auto simp: idx)
  next
    assume "\<exists>px. i = nat (row * uint (width s) + px) \<and> x0 \<le> px \<and> px < x1"
    then show "i \<in> ?run"
      using nonneg assms(2) by (auto simp: idx)
  qed
  moreover have "i \<in> ?cells \<longleftrightarrow> (\<exists>px. i = nat (row * uint (width s) + px) \<and> x0 \<le> px \<and> px < x1)" for i
    using clip unfolding cells_def cell_def by blast
  ultimately show "?run = ?cells"
    by blast
qed

lemma disjoint_rows:
  assumes "gfx_ok s" "r \<noteq> r'"
  shows "cells s (\<lambda>px py. py = r \<and> P px) \<inter> cells s (\<lambda>px py. py = r' \<and> Q px) = {}"
proof (rule equals0I)
  fix i
  assume i: "i \<in> cells s (\<lambda>px py. py = r \<and> P px) \<inter> cells s (\<lambda>px py. py = r' \<and> Q px)"
  obtain px where p: "i = cell s px r" "clip_test s px r"
    using i unfolding cells_def by blast
  obtain qx where q: "i = cell s qx r'" "clip_test s qx r'"
    using i unfolding cells_def by blast
  have "cell s px r = cell s qx r'"
    using p(1) q(1) by simp
  from cell_inj[OF clip_on_screen[OF assms(1) p(2)] clip_on_screen[OF assms(1) q(2)] this] show False
    using assms(2) by simp
qed

lemma fill_rect_touched:
  assumes "gfx_ok s" "int32 (x + sint w)" "int32 (y + sint h)"
  shows "\<exists>t. gfx_fill_rect x y w h c s = Some t \<and> touched c (cells s (in_rect x y w h)) s t"
proof -
  define x0 where "x0 = max x (sint (clip_x s))"
  define y0 where "y0 = max y (sint (clip_y s))"
  define x1 where "x1 = min (x + sint w) (sint (clip_x2 s))"
  define y1 where "y1 = min (y + sint h) (sint (clip_y2 s))"
  have body: "gfx_fill_rect x y w h c s =
     (if w = 0 \<or> h = 0 \<or> x1 \<le> x0 \<or> y1 \<le> y0 \<or> drop_bit 24 c = 0 then Some s
      else each (\<lambda>row s. fill_run c (pixel_index s x0 row) (nat (x1 - x0)) s) [y0..y1 - 1] s)"
  proof -
    have "0 \<le> sint (clip_x s)" "sint (clip_x2 s) < 2 ^ 31"
      using assms(1) unfolding gfx_ok_sint[OF assms(1)] by (auto simp: gfx_ok_def word_le_def)
    then have "int32 (x1 - x0)" if "x0 < x1"
      using that by (auto simp: int32_def x0_def x1_def)
    then show ?thesis
      using assms(2,3) by (simp add: gfx_fill_rect_def checked_def Let_def flip: x0_def y0_def x1_def y1_def)
  qed
  have region: "in_rect x y w h px py \<and> clip_test s px py \<longleftrightarrow> x0 \<le> px \<and> px < x1 \<and> y0 \<le> py \<and> py < y1" for px py
    by (auto simp: in_rect_def clip_test_def x0_def y0_def x1_def y1_def)
  show ?thesis
  proof (cases "w = 0 \<or> h = 0 \<or> x1 \<le> x0 \<or> y1 \<le> y0")
    case True
    have "cells s (in_rect x y w h) = {}"
      unfolding cells_def region using True by (auto simp: x0_def y0_def x1_def y1_def)
    then have "touched c (cells s (in_rect x y w h)) s s"
      by (simp add: touched_empty)
    moreover have "gfx_fill_rect x y w h c s = Some s"
      unfolding body using True by auto
    ultimately show ?thesis
      by blast
  next
    case False
    show ?thesis
    proof (cases "drop_bit 24 c = 0")
      case True
      then have "touched c A s s" for A
        by (auto simp: touched_def over_def intro!: exI[of _ "fb s"])
      then show ?thesis
        using True by (simp add: body)
    next
      case opaque: False
      let ?row = "\<lambda>r. cells s (\<lambda>px py. py = r \<and> x0 \<le> px \<and> px < x1)"
      have run: "\<exists>u. fill_run c (pixel_index t x0 r) (nat (x1 - x0)) t = Some u \<and> touched c (?row r) t u"
        if r: "r \<in> set [y0..y1 - 1]" and t: "t = s\<lparr>fb := fb t\<rparr>" "length (fb t) = length (fb s)" for r t
      proof -
        have lt: "x0 < x1"
          using False by simp
        have ends: "clip_test s x0 r" "clip_test s (x1 - 1) r"
          using r False region[of x0 r] region[of "x1 - 1" r] by auto
        have "pixel_index t x0 r + nat (x1 - x0) \<le> length (fb t)"
          using row_run(2)[OF assms(1) lt ends] by (simp add: frame_simps[OF t(1)] t(2))
        from fill_run_touched[OF this opaque] show ?thesis
          unfolding frame_simps(4)[OF t(1)] row_run(1)[OF assms(1) lt ends] .
      qed
      have "\<exists>t. each (\<lambda>row s. fill_run c (pixel_index s x0 row) (nat (x1 - x0)) s) [y0..y1 - 1] s = Some t
        \<and> touched c (\<Union>r\<in>set [y0..y1 - 1]. ?row r) s t"
        by (rule each_touched[OF run]) (auto simp: disjoint_rows[OF assms(1)])
      moreover have "(\<Union>r\<in>set [y0..y1 - 1]. ?row r) = cells s (in_rect x y w h)"
      proof (rule set_eqI)
        fix i
        have "i \<in> (\<Union>r\<in>set [y0..y1 - 1]. ?row r)
          \<longleftrightarrow> (\<exists>px py. i = cell s px py \<and> (x0 \<le> px \<and> px < x1 \<and> y0 \<le> py \<and> py < y1) \<and> clip_test s px py)"
          by (force simp: cells_def)
        also have "\<dots> \<longleftrightarrow> i \<in> cells s (in_rect x y w h)"
          unfolding cells_def using region by blast
        finally show "i \<in> (\<Union>r\<in>set [y0..y1 - 1]. ?row r) \<longleftrightarrow> i \<in> cells s (in_rect x y w h)" .
      qed
      ultimately show ?thesis
        using False opaque by (simp add: body)
    qed
  qed
qed

section \<open>Drawing stays in the clip rectangle\<close>

text \<open>A successful drawing step: only pixels inside the clip rectangle may change.\<close>

definition confined :: "gfx \<Rightarrow> gfx \<Rightarrow> bool" where
  "confined s t \<longleftrightarrow>
     t = s\<lparr>fb := fb t\<rparr> \<and> length (fb t) = length (fb s)
     \<and> (\<forall>i<length (fb s). i \<notin> cells s (\<lambda>_ _. True) \<longrightarrow> fb t ! i = fb s ! i)"

definition draws :: "gfx \<Rightarrow> gfx option \<Rightarrow> bool" where
  "draws s r \<longleftrightarrow> (\<exists>t. r = Some t \<and> confined s t)"

lemma draws_same [simp, intro]: "draws s (Some s)"
  by (simp add: draws_def confined_def)

lemma confined_trans:
  assumes "confined s t" "confined t u"
  shows "confined s u"
proof -
  have t: "t = s\<lparr>fb := fb t\<rparr>" and u: "u = t\<lparr>fb := fb u\<rparr>"
    using assms by (auto simp: confined_def)
  have "u = s\<lparr>fb := fb u\<rparr>"
    by (subst u, subst t) simp
  moreover have "fb u ! i = fb s ! i" if "i < length (fb s)" "i \<notin> cells s (\<lambda>_ _. True)" for i
    using assms that cells_frame[OF t] by (simp add: confined_def)
  ultimately show ?thesis
    using assms by (simp add: confined_def)
qed

lemma confined_ok:
  assumes "gfx_ok s" "confined s t"
  shows "gfx_ok t"
  using gfx_ok_frame[OF assms(1)] assms(2) by (simp add: confined_def)

lemma confined_pixel:
  assumes "gfx_ok s" "confined s t" "on_screen s px py" "\<not> clip_test s px py"
  shows "pixel t px py = pixel s px py"
proof -
  have t: "t = s\<lparr>fb := fb t\<rparr>"
    using assms(2) by (simp add: confined_def)
  have "cell s px py \<notin> cells s (\<lambda>_ _. True)"
    using cell_in_cells[OF assms(1,3)] assms(4) by simp
  then show ?thesis
    using assms(2) cell_length[OF assms(1,3)] by (simp add: pixel_def frame_simps[OF t] confined_def)
qed

lemma touched_draws:
  assumes "touched c (cells s P) s t"
  shows "draws s (Some t)"
proof -
  have "cells s P \<subseteq> cells s (\<lambda>_ _. True)"
    by (auto simp: cells_def)
  then show ?thesis
    using assms by (auto simp: touched_def draws_def confined_def)
qed

lemma draws_bind:
  assumes "gfx_ok s" "draws s r" "\<And>t. gfx_ok t \<Longrightarrow> confined s t \<Longrightarrow> draws t (f t)"
  shows "draws s (case r of None \<Rightarrow> None | Some t \<Rightarrow> f t)"
proof -
  obtain t where t: "r = Some t" "confined s t"
    using assms(2) by (auto simp: draws_def)
  obtain u where u: "f t = Some u" "confined t u"
    using assms(3)[OF confined_ok[OF assms(1) t(2)] t(2)] by (auto simp: draws_def)
  show ?thesis
    using t(1) u(1) confined_trans[OF t(2) u(2)] by (auto simp: draws_def)
qed

lemma draws_each:
  assumes "gfx_ok s" "\<And>x t. x \<in> set xs \<Longrightarrow> gfx_ok t \<Longrightarrow> confined s t \<Longrightarrow> draws t (f x t)"
  shows "draws s (each f xs s)"
  using assms
proof (induction xs arbitrary: s)
  case Nil
  then show ?case by simp
next
  case (Cons x xs)
  have "draws s (f x s)"
    using Cons.prems by (simp add: confined_def)
  moreover have "draws t (each f xs t)" if "gfx_ok t" "confined s t" for t
    using Cons.IH[OF that(1)] Cons.prems(2) confined_trans[OF that(2)] by simp
  ultimately show ?case
    using draws_bind[OF Cons.prems(1)] by simp
qed

named_theorems draws

lemma checked_draws [draws]: "list_all int32 vs \<Longrightarrow> draws s r \<Longrightarrow> draws s (checked vs r)"
  by (simp add: checked_def)

lemma fill_rect_draws [draws]:
  assumes "gfx_ok s" "int32 (x + sint w)" "int32 (y + sint h)"
  shows "draws s (gfx_fill_rect x y w h c s)"
  using fill_rect_touched[OF assms, of c] touched_draws by fastforce

lemma putpixel_touched:
  assumes "gfx_ok s"
  shows "\<exists>t. gfx_putpixel x y c s = Some t \<and> touched c (cells s (\<lambda>px py. px = x \<and> py = y)) s t"
proof (cases "clip_test s x y \<and> drop_bit 24 c \<noteq> 0")
  case True
  then have on: "on_screen s x y"
    using clip_on_screen[OF assms] by simp
  then have "gfx_putpixel x y c s = paint c (pixel_index s x y) s"
    using True by (auto simp: gfx_putpixel_def on_screen_def gfx_ok_sint[OF assms] paint_def)
  moreover have "cells s (\<lambda>px py. px = x \<and> py = y) = {pixel_index s x y}"
    using True by (auto simp: cells_def pixel_index_cell[OF assms on])
  ultimately show ?thesis
    using touched_paint[of "pixel_index s x y" s c] True cell_length[OF assms on] pixel_index_cell[OF assms on] by simp
next
  case False
  then have "gfx_putpixel x y c s = Some s"
    by (auto simp: gfx_putpixel_def)
  moreover have "touched c (cells s (\<lambda>px py. px = x \<and> py = y)) s s"
  proof (cases "clip_test s x y")
    case True
    then show ?thesis
      using False by (auto simp: touched_def over_def intro!: exI[of _ "fb s"])
  next
    case False
    then have "cells s (\<lambda>px py. px = x \<and> py = y) = {}"
      by (auto simp: cells_def)
    then show ?thesis
      by (simp add: touched_empty)
  qed
  ultimately show ?thesis
    by blast
qed

lemma putpixel_draws [draws]:
  assumes "gfx_ok s"
  shows "draws s (gfx_putpixel x y c s)"
  using putpixel_touched[OF assms, of x y c] touched_draws by fastforce

lemma put_points_draws [draws]: "gfx_ok s \<Longrightarrow> draws s (put_points c ps s)"
  unfolding put_points_def by (rule draws_each) (auto intro: draws)

text \<open>
  Coordinates and sizes for which no sum of the drawing routines overflows.
\<close>

definition near :: "int \<Rightarrow> bool" where
  "near i \<longleftrightarrow> - (2 ^ 20) \<le> i \<and> i \<le> 2 ^ 20"

lemma near_iff: "near i \<longleftrightarrow> - 1048576 \<le> i \<and> i \<le> 1048576"
  by (simp add: near_def)

text \<open>Coordinates the routines compute from such.\<close>

definition far :: "int \<Rightarrow> bool" where
  "far i \<longleftrightarrow> - (2 ^ 24) \<le> i \<and> i \<le> 2 ^ 24"

lemma far_iff: "far i \<longleftrightarrow> - 16777216 \<le> i \<and> i \<le> 16777216"
  by (simp add: far_def)

lemma near_far [intro]: "near i \<Longrightarrow> far i"
  by (simp add: near_iff far_iff)

lemma near_int32 [simp, intro]: "near i \<Longrightarrow> int32 i" "near i \<Longrightarrow> near j \<Longrightarrow> int32 (i + j)" "near i \<Longrightarrow> near j \<Longrightarrow> int32 (i - j)"
  by (auto simp: near_iff int32_iff)

lemma ofs_near:
  assumes "near x" "near (sint v)"
  shows "ofs x v = x + sint v" "ofs x (v - 1) = x + sint v - 1"
  using assms by (simp_all add: ofs_exact sint_exact near_iff int32_iff)

lemma rect_draws [draws]:
  assumes "gfx_ok s" "near x" "near y" "near (sint w)" "near (sint h)"
  shows "draws s (gfx_rect x y w h c s)"
  using assms unfolding gfx_rect_def
  by (auto simp: ofs_near near_iff int32_iff simp del: each.simps intro!: draws_each draws)

text \<open>
  The rounds of the circle loop: \<open>d\<close> stays small and \<open>0 \<le> y \<le> x \<le> r\<close> in every round.
\<close>

lemma circle_steps_some:
  assumes "0 \<le> y" "x \<le> R" "y \<le> R + 1" "0 \<le> R" "R \<le> 2 ^ 24" "- 2 * R \<le> d" "d \<le> 2 * R + 5 * (y + 1)"
  shows "\<exists>ps. circle_steps x y d = Some ps \<and> (\<forall>(a, b)\<in>set ps. 0 \<le> b \<and> b \<le> a \<and> a \<le> R)"
  using assms
proof (induction x y d rule: circle_steps.induct)
  case (1 x y d)
  define x' where "x' = (if d < 0 then x else x - 1)"
  define inc where "inc = (if d < 0 then 2 * (y + 1) + 1 else 2 * ((y + 1) - x') + 1)"
  have body: "circle_steps x y d =
      (if y \<le> x then checked [y + 1, inc, d + inc] (map_option ((#) (x, y)) (circle_steps x' (y + 1) (d + inc))) else Some [])"
    by (subst circle_steps.simps) (simp add: Let_def x'_def inc_def)
  show ?case
  proof (cases "y \<le> x")
    case True
    have x': "x' \<le> R" "x - 1 \<le> x'" "y + 1 \<le> R + 1"
      using "1.prems" True by (auto simp: x'_def)
    have d': "- 2 * R \<le> d + inc" "d + inc \<le> 2 * R + 5 * (y + 1 + 1)"
      using "1.prems" True by (auto simp: x'_def inc_def)
    then have "int32 (y + 1)" "int32 (d + inc)" "int32 inc"
      using "1.prems" True by (auto simp: int32_iff x'_def inc_def)
    moreover obtain ps where "circle_steps x' (y + 1) (d + inc) = Some ps" "\<forall>(a, b)\<in>set ps. 0 \<le> b \<and> b \<le> a \<and> a \<le> R"
      using "1.IH"[OF True x'_def inc_def] "1.prems" x' d' by auto
    ultimately show ?thesis
      unfolding body using True "1.prems" by (simp add: checked_def)
  next
    case False
    then show ?thesis
      unfolding body by simp
  qed
qed

lemma circle_rounds_draws:
  assumes "gfx_ok s" "near (sint r)"
    "\<And>x y t. gfx_ok t \<Longrightarrow> 0 \<le> y \<Longrightarrow> y \<le> x \<Longrightarrow> x \<le> sint r \<Longrightarrow> draws t (f (x, y) t)"
  shows "draws s (circle_rounds r f s)"
proof -
  obtain ps where ps: "circle_steps (sint r) 0 (1 - sint r) = Some ps" "\<forall>(a, b)\<in>set ps. 0 \<le> b \<and> b \<le> a \<and> a \<le> sint r"
  proof (cases "0 \<le> sint r")
    case True
    then show ?thesis
      using that circle_steps_some[of 0 "sint r" "sint r" "1 - sint r"] assms(2) by (auto simp: near_iff)
  next
    case False
    then show ?thesis
      using that[of "[]"] by (simp add: circle_steps.simps[of "sint r"])
  qed
  have "draws s (each f ps s)"
    using ps(2) assms(3) by (intro draws_each[OF assms(1)]) auto
  then show ?thesis
    using assms(2) by (auto simp: circle_rounds_def ps(1) near_iff int32_iff intro!: draws)
qed

lemma circle_width_int32: "near x \<Longrightarrow> int32 (2 * x + 1)"
  by (auto simp: near_iff int32_iff)

lemma circle_width:
  assumes "near x"
  shows "sint (2 * word_of_int x + 1 :: u32) = 2 * x + 1"
proof -
  have "(2 * word_of_int x + 1 :: u32) = word_of_int (2 * x + 1)"
    by simp
  with assms show ?thesis
    by (metis (no_types, lifting) sint_exact(1) circle_width_int32)
qed

lemma fill_circle_draws [draws]:
  assumes "gfx_ok s" "far cx" "far cy" "near (sint r)"
  shows "draws s (gfx_fill_circle cx cy r c s)"
proof -
  have "draws t (each (\<lambda>(px, py, w) s. checked [px, py] (gfx_fill_rect px py w 1 c s))
      [(cx - x, cy + y, 2 * word_of_int x + 1), (cx - x, cy - y, 2 * word_of_int x + 1),
       (cx - y, cy + x, 2 * word_of_int y + 1), (cx - y, cy - x, 2 * word_of_int y + 1)] t)"
    if t: "gfx_ok t" and "0 \<le> y" "y \<le> x" "x \<le> sint r" for x y t
  proof -
    have "near x" "near y"
      using that assms(4) by (auto simp: near_iff)
    then show ?thesis
      using assms(2,3) by (intro draws_each[OF t]) (auto simp: circle_width near_iff far_iff int32_iff intro!: draws)
  qed
  then show ?thesis
    unfolding gfx_fill_circle_def using circle_rounds_draws[OF assms(1,4)] by auto
qed

lemma circle_draws [draws]:
  assumes "gfx_ok s" "far cx" "far cy" "near (sint r)"
  shows "draws s (gfx_circle cx cy r c s)"
proof -
  have "draws t (each (\<lambda>(px, py) s. checked [px, py] (gfx_putpixel px py c s))
      [(cx + x, cy + y), (cx + y, cy + x), (cx - y, cy + x), (cx - x, cy + y),
       (cx - x, cy - y), (cx - y, cy - x), (cx + y, cy - x), (cx + x, cy - y)] t)"
    if t: "gfx_ok t" and "0 \<le> y" "y \<le> x" "x \<le> sint r" for x y t
  proof -
    have "near x" "near y"
      using that assms(4) by (auto simp: near_iff)
    then show ?thesis
      using assms(2,3) by (intro draws_each[OF t]) (auto simp: near_iff far_iff int32_iff intro!: draws)
  qed
  then show ?thesis
    unfolding gfx_circle_def using circle_rounds_draws[OF assms(1,4)] by auto
qed

lemma round_radius_near:
  assumes "uint r \<le> 2 ^ 20"
  shows "0 \<le> sint (round_radius w h r)" "sint (round_radius w h r) \<le> uint r" "near (sint (round_radius w h r))"
proof -
  have "round_radius w h r \<le> r"
    by (auto simp: round_radius_def Let_def)
  then have le: "uint (round_radius w h r) \<le> uint r"
    by (simp add: word_le_def)
  then have "sint (round_radius w h r) = uint (round_radius w h r)"
    using assms by (intro sint_31) simp
  moreover have "0 \<le> uint (round_radius w h r)"
    by (rule uint_nonnegative)
  ultimately show "0 \<le> sint (round_radius w h r)" "sint (round_radius w h r) \<le> uint r" "near (sint (round_radius w h r))"
    using le assms by (auto simp: near_def intro: order_trans[of _ 0])
qed

lemma ofs_corner:
  assumes "near x" "near (sint w)" "near (sint r)"
  shows "ofs x (w - r) = x + sint w - sint r" "ofs x (w - r - 1) = x + sint w - sint r - 1"
    "sint (w - 2 * r) = sint w - 2 * sint r"
  using assms by (simp_all add: ofs_exact sint_exact near_iff int32_iff)

lemma fill_rounded_draws [draws]:
  assumes "gfx_ok s" "near x" "near y" "near (sint w)" "near (sint h)" "uint r \<le> 2 ^ 20"
  shows "draws s (gfx_fill_rounded x y w h r c s)"
proof -
  define q where "q = round_radius w h r"
  have q: "0 \<le> sint q" "near (sint q)"
    using round_radius_near[OF assms(6)] by (simp_all add: q_def)
  note o = ofs_near[OF assms(2) q(2)] ofs_near[OF assms(3) q(2)] ofs_corner[OF assms(2,4) q(2)] ofs_corner[OF assms(3,5) q(2)]
  have ends: "draws t (each (\<lambda>(px, py). gfx_fill_circle px py q c)
      [(ofs x q, ofs y q), (ofs x (w - q - 1), ofs y q), (ofs x q, ofs y (h - q - 1)), (ofs x (w - q - 1), ofs y (h - q - 1))] t)"
    if "gfx_ok t" for t
    unfolding o using q assms(2-5) by (intro draws_each[OF that]) (auto simp: near_iff far_iff intro!: fill_circle_draws)
  show ?thesis
    unfolding gfx_fill_rounded_def Let_def q_def[symmetric]
    using assms q by (auto simp: o near_iff int32_iff simp del: each.simps intro!: draws_bind draws ends)
qed

text \<open>A point on an edge lies between its ends.\<close>

lemma tdiv_between:
  assumes "0 \<le> k" "k \<le> m" "0 < m"
  shows "\<bar>tdiv (n * k) m\<bar> \<le> \<bar>n\<bar>"
proof -
  have "\<bar>n\<bar> * k div m \<le> \<bar>n\<bar> * m div m"
    using assms by (intro zdiv_mono1 mult_left_mono) auto
  then have "\<bar>n\<bar> * k div m \<le> \<bar>n\<bar>"
    using assms(3) by simp
  moreover have "0 \<le> \<bar>n\<bar> * k div m"
    using assms by (intro div_int_pos_iff[THEN iffD2]) auto
  moreover have "\<bar>tdiv (n * k) m\<bar> = \<bar>n\<bar> * k div m"
  proof (cases "n < 0")
    case True
    then have "n * k \<le> 0"
      using assms(1) by (simp add: mult_nonpos_nonneg)
    then show ?thesis
      using True \<open>0 \<le> \<bar>n\<bar> * k div m\<close> by (cases "n * k = 0") (auto simp: tdiv_def)
  next
    case False
    then have "0 \<le> n * k"
      using assms(1) by simp
    then show ?thesis
      using False \<open>0 \<le> \<bar>n\<bar> * k div m\<close> by (auto simp: tdiv_def)
  qed
  ultimately show ?thesis
    by simp
qed

lemma edge_x_far:
  assumes "\<bar>xa\<bar> \<le> 2 ^ 14" "\<bar>ya\<bar> \<le> 2 ^ 14" "\<bar>xb\<bar> \<le> 2 ^ 14" "\<bar>yb\<bar> \<le> 2 ^ 14" "ya \<le> y" "y \<le> yb"
  shows "\<exists>e. edge_x xa ya (xb - xa) (yb - ya) y = Some e \<and> \<bar>e\<bar> \<le> 2 ^ 16"
proof (cases "yb - ya = 0")
  case True
  then show ?thesis
    using assms by (simp add: edge_x_def)
next
  case False
  have t: "\<bar>tdiv ((xb - xa) * (y - ya)) (yb - ya)\<bar> \<le> \<bar>xb - xa\<bar>"
    using False assms by (intro tdiv_between) auto
  have d: "\<bar>xb - xa\<bar> \<le> 2 ^ 15" "\<bar>y - ya\<bar> \<le> 2 ^ 15"
    using assms by auto
  then have "\<bar>(xb - xa) * (y - ya)\<bar> \<le> 2 ^ 15 * 2 ^ 15"
    unfolding abs_mult by (intro mult_mono) auto
  then have "int32 ((xb - xa) * (y - ya))" "int32 (y - ya)" "int32 (xa + tdiv ((xb - xa) * (y - ya)) (yb - ya))"
    using t d assms(1) by (auto simp: int32_iff)
  then show ?thesis
    using False t d assms(1) by (auto simp: edge_x_def checked_def)
qed

lemma scan_line_draws:
  assumes "gfx_ok s" "a = Some l" "b = Some r" "\<bar>l\<bar> \<le> 2 ^ 16" "\<bar>r\<bar> \<le> 2 ^ 16" "near y"
  shows "draws s (scan_line c y a b s)"
proof -
  have "int32 (r - l + 1)" "int32 (l - r + 1)"
    using assms(4,5) by (auto simp: int32_iff)
  then have "sint (word_of_int (r - l + 1) :: u32) = r - l + 1" "sint (word_of_int (l - r + 1) :: u32) = l - r + 1"
    by (simp_all only: sint_exact(1))
  then show ?thesis
    using assms by (auto simp: scan_line_def near_iff int32_iff simp del: of_int_add of_int_diff intro!: draws)
qed

lemma fill_triangle_draws [draws]:
  assumes "gfx_ok s" "\<forall>i\<in>{fst p0, snd p0, fst p1, snd p1, fst p2, snd p2}. \<bar>i\<bar> \<le> 2 ^ 14"
  shows "draws s (gfx_fill_triangle p0 p1 p2 c s)"
proof -
  have sorted: "draws s (let (x0, y0) = p0; (x1, y1) = p1; (x2, y2) = p2; far = edge_x x0 y0 (x2 - x0) (y2 - y0)
      in checked [x1 - x0, y1 - y0, x2 - x0, y2 - y0, x2 - x1, y2 - y1]
        (case each (\<lambda>y. scan_line c y (edge_x x0 y0 (x1 - x0) (y1 - y0) y) (far y)) [y0..y1] s of None \<Rightarrow> None
         | Some s \<Rightarrow> each (\<lambda>y. scan_line c y (edge_x x1 y1 (x2 - x1) (y2 - y1) y) (far y)) [y1..y2] s))"
    if b: "\<forall>i\<in>{fst p0, snd p0, fst p1, snd p1, fst p2, snd p2}. \<bar>i\<bar> \<le> 2 ^ 14"
      and o: "snd p0 \<le> snd p1" "snd p1 \<le> snd p2" for p0 p1 p2 :: "int \<times> int"
  proof -
    obtain x0 y0 x1 y1 x2 y2 where p: "p0 = (x0, y0)" "p1 = (x1, y1)" "p2 = (x2, y2)"
      by (metis surj_pair)
    have c: "\<bar>x0\<bar> \<le> 2 ^ 14" "\<bar>y0\<bar> \<le> 2 ^ 14" "\<bar>x1\<bar> \<le> 2 ^ 14" "\<bar>y1\<bar> \<le> 2 ^ 14" "\<bar>x2\<bar> \<le> 2 ^ 14" "\<bar>y2\<bar> \<le> 2 ^ 14"
      "y0 \<le> y1" "y1 \<le> y2"
      using b o by (simp_all add: p)
    have scan: "draws t (scan_line c y (edge_x xa ya (xb - xa) (yb - ya) y) (edge_x x0 y0 (x2 - x0) (y2 - y0) y) t)"
      if g: "gfx_ok t" "\<bar>xa\<bar> \<le> 2 ^ 14" "\<bar>ya\<bar> \<le> 2 ^ 14" "\<bar>xb\<bar> \<le> 2 ^ 14" "\<bar>yb\<bar> \<le> 2 ^ 14" "ya \<le> y" "y \<le> yb" "y0 \<le> y" "y \<le> y2"
      for t xa ya xb yb y
    proof -
      obtain l where "edge_x xa ya (xb - xa) (yb - ya) y = Some l" "\<bar>l\<bar> \<le> 2 ^ 16"
        using edge_x_far[OF g(2-7)] by blast
      moreover obtain r where "edge_x x0 y0 (x2 - x0) (y2 - y0) y = Some r" "\<bar>r\<bar> \<le> 2 ^ 16"
        using edge_x_far[of x0 y0 x2 y2 y] c g(8,9) by blast
      moreover have "near y"
        using g by (auto simp: near_iff)
      ultimately show ?thesis
        using scan_line_draws[OF g(1)] by blast
    qed
    show ?thesis
      unfolding p Let_def prod.case using c
      by (intro checked_draws draws_bind[OF assms(1)] draws_each[OF assms(1)] draws_each scan) (auto simp: int32_iff)
  qed
  obtain q0 q1 q2 where q: "gfx_fill_triangle p0 p1 p2 c s = (let (x0, y0) = q0; (x1, y1) = q1; (x2, y2) = q2;
        far = edge_x x0 y0 (x2 - x0) (y2 - y0)
      in checked [x1 - x0, y1 - y0, x2 - x0, y2 - y0, x2 - x1, y2 - y1]
        (case each (\<lambda>y. scan_line c y (edge_x x0 y0 (x1 - x0) (y1 - y0) y) (far y)) [y0..y1] s of None \<Rightarrow> None
         | Some s \<Rightarrow> each (\<lambda>y. scan_line c y (edge_x x1 y1 (x2 - x1) (y2 - y1) y) (far y)) [y1..y2] s))"
    "{q0, q1, q2} = {p0, p1, p2}" "snd q0 \<le> snd q1" "snd q1 \<le> snd q2"
  proof -
    define a where "a = (if snd p1 < snd p0 then (p1, p0) else (p0, p1))"
    define b where "b = (if snd p2 < snd (fst a) then (p2, fst a) else (fst a, p2))"
    define d where "d = (if snd (snd b) < snd (snd a) then (snd b, snd a) else (snd a, snd b))"
    show ?thesis
      by (rule that[of "fst b" "fst d" "snd d"])
        (simp_all only: gfx_fill_triangle_def Let_def prod.case_eq_if flip: a_def b_def d_def,
         auto simp: a_def b_def d_def split: if_splits)
  qed
  have "{fst q0, snd q0, fst q1, snd q1, fst q2, snd q2} = fst ` {q0, q1, q2} \<union> snd ` {q0, q1, q2}"
    "{fst p0, snd p0, fst p1, snd p1, fst p2, snd p2} = fst ` {p0, p1, p2} \<union> snd ` {p0, p1, p2}"
    by auto
  then have "{fst q0, snd q0, fst q1, snd q1, fst q2, snd q2} = {fst p0, snd p0, fst p1, snd p1, fst p2, snd p2}"
    using q(2) by simp
  then show ?thesis
    unfolding q(1) using assms(2) q(3,4) by (intro sorted) simp_all
qed

section \<open>Text and gradients\<close>

lemma glyph_dots_range: "d \<in> set (glyph_dots ch) \<Longrightarrow> 0 \<le> fst d \<and> fst d < 8 \<and> 0 \<le> snd d \<and> snd d < 16"
  by (auto simp: glyph_dots_def)

lemma draw_dot_draws:
  assumes "gfx_ok s" "\<bar>cx\<bar> \<le> 2 ^ 26" "far y" "1 \<le> sint scale" "sint scale \<le> 4" "d \<in> set (glyph_dots ch)"
  shows "draws s (draw_dot c scale cx y d s)"
proof -
  have d: "0 \<le> fst d" "fst d \<le> 7" "0 \<le> snd d" "snd d \<le> 15"
    using glyph_dots_range[OF assms(6)] by auto
  define p where "p = fst d * sint scale"
  define q where "q = snd d * sint scale"
  have "p \<le> 28" "q \<le> 60" "0 \<le> p" "0 \<le> q"
    unfolding p_def q_def
    using mult_mono[of "fst d" 7 "sint scale" 4] mult_mono[of "snd d" 15 "sint scale" 4] d assms(4,5) by auto
  then show ?thesis
    using assms(1-5) d unfolding draw_dot_def p_def[symmetric] q_def[symmetric]
    by (auto simp: far_iff int32_iff intro!: draws)
qed

lemma draw_text_draws [draws]:
  assumes "gfx_ok s" "far x" "far y" "scale = 0 \<or> length str \<le> 2 ^ 20"
  shows "draws s (gfx_draw_text x y str c scale s)"
proof (cases "scale = 0")
  case True
  then show ?thesis by (simp add: gfx_draw_text_def)
next
  case False
  define k where "k = (if 4 < scale then 4 else scale)"
  have "uint k \<noteq> 0" "uint k \<le> 4"
    using False by (auto simp: k_def word_less_def uint_0_iff not_less)
  moreover have "0 \<le> uint k"
    by (rule uint_nonnegative)
  moreover have "sint k = uint k"
    using calculation(2) by (intro sint_31) simp
  ultimately have k: "1 \<le> sint k" "sint k \<le> 4"
    by linarith+
  then have eight: "sint (8 * k) = 8 * sint k"
    using sint_exact(4)[of 8 k] by (simp add: int32_iff)
  have pos: "0 \<le> int n * sint (8 * k) \<and> int n * sint (8 * k) \<le> 2 ^ 25" if "n \<le> length str" for n
  proof -
    have "int n * sint (8 * k) \<le> 2 ^ 20 * 32"
      using that assms(4) False k eight by (intro mult_mono) auto
    then show ?thesis
      using k eight by simp
  qed
  have "draws s (each (\<lambda>n s. checked [x + int (n + 1) * sint (8 * k)]
      (each (draw_dot c k (x + int n * sint (8 * k)) y) (glyph_dots (str ! n)) s)) [0..<length str] s)"
  proof (rule draws_each[OF assms(1)])
    fix n t
    assume n: "n \<in> set [0..<length str]" and t: "gfx_ok t"
    have b: "0 \<le> int n * sint (8 * k)" "int n * sint (8 * k) \<le> 2 ^ 25"
      "0 \<le> int (n + 1) * sint (8 * k)" "int (n + 1) * sint (8 * k) \<le> 2 ^ 25"
      using pos[of n] pos[of "n + 1"] n by auto
    then have "\<bar>x + int n * sint (8 * k)\<bar> \<le> 2 ^ 26" "int32 (x + int (n + 1) * sint (8 * k))"
      using assms(2) by (auto simp: far_iff int32_iff simp del: of_nat_add)
    then show "draws t (checked [x + int (n + 1) * sint (8 * k)]
        (each (draw_dot c k (x + int n * sint (8 * k)) y) (glyph_dots (str ! n)) t))"
      using assms(3) k by (intro checked_draws draws_each[OF t] draw_dot_draws) auto
  qed
  then show ?thesis
    using False by (simp add: gfx_draw_text_def Let_def flip: k_def)
qed

lemma text_width_range:
  assumes "length str * 8 * unat scale \<le> 2 ^ 23"
  shows "0 \<le> sint (gfx_text_width str scale)" "sint (gfx_text_width str scale) \<le> 2 ^ 23"
    "0 \<le> sint (gfx_text_width str scale div 2)" "sint (gfx_text_width str scale div 2) \<le> 2 ^ 23"
proof -
  have w: "gfx_text_width str scale = of_nat (length str * 8 * unat scale)"
    by (simp add: gfx_text_width_def)
  define n where "n = length str * 8 * unat scale"
  have n: "n \<le> 8388608"
    using assms by (simp only: n_def) simp
  have u: "unat (gfx_text_width str scale) = n"
    unfolding w n_def[symmetric] unat_of_nat using n by simp
  have "sint (gfx_text_width str scale) = int n"
    unfolding w n_def[symmetric] using n by (intro sint_of_nat) simp
  then show "0 \<le> sint (gfx_text_width str scale)" "sint (gfx_text_width str scale) \<le> 2 ^ 23"
    using n by simp_all
  have "unat (gfx_text_width str scale div 2) \<le> 2 ^ 23"
    using u n by (simp add: unat_div)
  then have "int (unat (gfx_text_width str scale div 2)) \<le> int (2 ^ 23)"
    by (simp only: of_nat_le_iff)
  then have "uint (gfx_text_width str scale div 2) \<le> 2 ^ 23"
    by simp
  moreover have "0 \<le> uint (gfx_text_width str scale div 2)"
    by (rule uint_nonnegative)
  ultimately show "0 \<le> sint (gfx_text_width str scale div 2)" "sint (gfx_text_width str scale div 2) \<le> 2 ^ 23"
    using sint_31[of "gfx_text_width str scale div 2"] by simp_all
qed

lemma text_length:
  assumes "length str * 8 * unat scale \<le> 2 ^ 23" "scale \<noteq> 0"
  shows "length str \<le> 2 ^ 20"
proof -
  have "0 < unat scale"
    using assms(2) by (simp add: unat_gt_0)
  then have "length str * 1 \<le> length str * unat scale"
    by (intro mult_left_mono) auto
  moreover have "length str * 8 * unat scale = 8 * (length str * unat scale)"
    by simp
  moreover have "(2::nat) ^ 23 = 8 * 2 ^ 20"
    by simp
  ultimately show ?thesis
    using assms(1) by linarith
qed

lemma text_center_draws [draws]:
  assumes "gfx_ok s" "near cx" "far y" "length str * 8 * unat scale \<le> 2 ^ 23"
  shows "draws s (gfx_draw_text_center cx y str c scale s)"
proof (cases "scale = 0")
  case True
  then show ?thesis
    using assms(2) by (auto simp: gfx_draw_text_center_def gfx_draw_text_def gfx_text_width_def intro!: draws)
next
  case False
  have "far (cx - sint (gfx_text_width str scale div 2))"
    using text_width_range(3,4)[OF assms(4)] assms(2) by (simp add: near_iff far_iff)
  then show ?thesis
    unfolding gfx_draw_text_center_def using assms text_length[OF assms(4) False]
    by (intro checked_draws draw_text_draws) (auto simp: far_iff int32_iff)
qed

lemma text_right_draws [draws]:
  assumes "gfx_ok s" "near rx" "far y" "length str * 8 * unat scale \<le> 2 ^ 23"
  shows "draws s (gfx_draw_text_right rx y str c scale s)"
proof (cases "scale = 0")
  case True
  then show ?thesis
    using assms(2) by (auto simp: gfx_draw_text_right_def gfx_draw_text_def gfx_text_width_def intro!: draws)
next
  case False
  have "far (rx - sint (gfx_text_width str scale))"
    using text_width_range(1,2)[OF assms(4)] assms(2) by (simp add: near_iff far_iff)
  then show ?thesis
    unfolding gfx_draw_text_right_def using assms text_length[OF assms(4) False]
    by (intro checked_draws draw_text_draws) (auto simp: far_iff int32_iff)
qed

lemma gradient_rect_draws [draws]:
  assumes "gfx_ok s" "near x" "near y" "near (sint w)" "near (sint h)"
    "if vertical g then h \<noteq> 1 \<and> unat h \<le> 2 ^ 20 else w \<noteq> 1 \<and> unat w \<le> 2 ^ 20"
  shows "draws s (gfx_gradient_rect x y w h g s)"
proof -
  have "draws s (each (\<lambda>i s. checked [y + sint (of_nat i :: u32)]
      (gfx_fill_rect x (y + sint (of_nat i :: u32)) w 1 (f i) s)) [0..<unat h] s)" if "unat h \<le> 2 ^ 20" for f
    using assms(1-5) that
    by (intro draws_each[OF assms(1)]) (auto simp: sint_of_nat near_iff int32_iff intro!: draws)
  moreover have "draws s (each (\<lambda>i s. checked [x + sint (of_nat i :: u32)]
      (gfx_fill_rect (x + sint (of_nat i :: u32)) y 1 h (f i) s)) [0..<unat w] s)" if "unat w \<le> 2 ^ 20" for f
    using assms(1-5) that
    by (intro draws_each[OF assms(1)]) (auto simp: sint_of_nat near_iff int32_iff intro!: draws)
  ultimately show ?thesis
    using assms(6) by (auto simp: gfx_gradient_rect_def split: if_splits)
qed

lemma gradient_rounded_draws [draws]:
  assumes "gfx_ok s" "near x" "near y" "near (sint w)" "near (sint h)"
    "if vertical g then h \<noteq> 1 \<and> unat h \<le> 2 ^ 20 else w \<noteq> 1 \<and> unat w \<le> 2 ^ 20"
  shows "draws s (gfx_gradient_rounded x y w h r g s)"
  using gradient_rect_draws[OF assms] by (simp add: gfx_gradient_rounded_def)

section \<open>Lines\<close>

text \<open>
  The deviation \<open>d = dx * j - dy * i\<close> after \<open>i\<close> horizontal and \<open>j\<close> vertical steps; the loop keeps
  \<open>err = d + dx - dy\<close>.
\<close>

definition line_inv :: "int \<Rightarrow> int \<Rightarrow> int \<Rightarrow> int \<Rightarrow> bool" where
  "line_inv dx dy i j \<longleftrightarrow>
     0 \<le> i \<and> i \<le> dx \<and> 0 \<le> j \<and> j \<le> dy \<and> 2 * \<bar>dx * j - dy * i\<bar> \<le> max dx dy \<and> (dx = dy \<longrightarrow> i = j)"

lemma line_step_x:
  assumes "line_inv dx dy i j" "- dy < 2 * (dx * j - dy * i + dx - dy)" "(i, j) \<noteq> (dx, dy)"
  shows "i < dx"
proof (rule ccontr)
  assume "\<not> i < dx"
  then have i: "i = dx"
    using assms(1) by (simp add: line_inv_def)
  then have j: "j + 1 \<le> dy"
    using assms(1,3) by (simp add: line_inv_def)
  have "dx * (j + 1) \<le> dx * dy"
    using assms(1) j by (intro mult_left_mono) (auto simp: line_inv_def)
  then have "dx * j - dy * i + dx - dy \<le> - dy"
    by (simp add: i algebra_simps)
  then show False
    using assms(1,2) j by (simp add: line_inv_def)
qed

lemma line_step_y:
  assumes "line_inv dx dy i j" "2 * (dx * j - dy * i + dx - dy) < dx" "(i, j) \<noteq> (dx, dy)"
  shows "j < dy"
proof (rule ccontr)
  assume "\<not> j < dy"
  then have j: "j = dy"
    using assms(1) by (simp add: line_inv_def)
  then have i: "i + 1 \<le> dx"
    using assms(1,3) by (simp add: line_inv_def)
  have "dy * (i + 1) \<le> dy * dx"
    using assms(1) i by (intro mult_left_mono) (auto simp: line_inv_def)
  then have "dx \<le> dx * j - dy * i + dx - dy"
    by (simp add: j algebra_simps)
  then show False
    using assms(1,2) i by (simp add: line_inv_def)
qed

lemma deviation_step:
  fixes d :: int
  assumes "2 * \<bar>d\<bar> \<le> max dx dy" "0 \<le> dx" "0 \<le> dy" "dx \<noteq> dy" "e = 2 * d + 2 * dx - 2 * dy"
  shows "2 * \<bar>d + (if e < dx then dx else 0) - (if - dy < e then dy else 0)\<bar> \<le> max dx dy" (is "2 * \<bar>?d\<bar> \<le> _")
proof -
  define m where "m = max dx dy"
  have m: "dx < dy \<and> m = dy \<or> dy < dx \<and> m = dx" and d: "- m \<le> 2 * d" "2 * d \<le> m"
    using assms(1,4) by (auto simp: m_def)
  have "- m \<le> 2 * ?d"
    using m d assms(2,3,5) by auto
  moreover have "2 * ?d \<le> m"
    using m d assms(2,3,5) by auto
  ultimately have "2 * \<bar>?d\<bar> \<le> m"
    unfolding abs_if by simp
  then show ?thesis
    by (simp add: m_def)
qed

lemma line_inv_step:
  assumes "line_inv dx dy i j" "(i, j) \<noteq> (dx, dy)"
  defines "e \<equiv> 2 * (dx * j - dy * i + dx - dy)"
  defines "i' \<equiv> (if - dy < e then i + 1 else i)" and "j' \<equiv> (if e < dx then j + 1 else j)"
  shows "line_inv dx dy i' j'" "i' + j' > i + j"
proof -
  have x: "i < dx" if "- dy < e"
    using line_step_x assms that by simp
  have y: "j < dy" if "e < dx"
    using line_step_y assms that by simp
  have some: "- dy < e \<or> e < dx"
    using assms(1,2) by (auto simp: line_inv_def)
  then show "i' + j' > i + j"
    by (auto simp: i'_def j'_def)
  have diag: "i' = i + 1 \<and> j' = j + 1" if "dx = dy"
    using assms(1,2) that by (auto simp: line_inv_def e_def i'_def j'_def)
  have e: "e = 2 * (dx * j - dy * i) + 2 * dx - 2 * dy"
    by (simp add: e_def)
  have d: "dx * j' - dy * i' = (dx * j - dy * i) + (if e < dx then dx else 0) - (if - dy < e then dy else 0)"
    by (auto simp: i'_def j'_def algebra_simps)
  have "2 * \<bar>dx * j' - dy * i'\<bar> \<le> max dx dy"
  proof (cases "dx = dy")
    case True
    then show ?thesis
      using diag assms(1) by (simp add: line_inv_def)
  next
    case False
    have "2 * \<bar>dx * j - dy * i\<bar> \<le> max dx dy" "0 \<le> dx" "0 \<le> dy"
      using assms(1) by (auto simp: line_inv_def)
    from deviation_step[OF this False e] show ?thesis
      unfolding d .
  qed
  moreover have "i \<le> i'" "j \<le> j'" "i' \<le> dx" "j' \<le> dy"
    using x y assms(1) by (auto simp: line_inv_def i'_def j'_def)
  ultimately show "line_inv dx dy i' j'"
    using assms(1) diag unfolding line_inv_def by auto
qed

text \<open>Neighbours, diagonals included.\<close>

definition adjacent :: "int \<times> int \<Rightarrow> int \<times> int \<Rightarrow> bool" where
  "adjacent p q \<longleftrightarrow> p \<noteq> q \<and> \<bar>fst p - fst q\<bar> \<le> 1 \<and> \<bar>snd p - snd q\<bar> \<le> 1"

fun connected :: "(int \<times> int) list \<Rightarrow> bool" where
  "connected (p # q # ps) = (adjacent p q \<and> connected (q # ps))"
| "connected ps = True"

lemma line_points_step:
  assumes "(x, y) \<noteq> goal"
  shows "line_points (Suc fuel) dx dy sx sy goal (x, y) err =
    checked [2 * err, err - (if - dy < 2 * err then dy else 0), (if - dy < 2 * err then x + sx else x),
        err + (if 2 * err < dx then dx else 0) - (if - dy < 2 * err then dy else 0), (if 2 * err < dx then y + sy else y)]
      (map_option ((#) (x, y)) (line_points fuel dx dy sx sy goal
        (if - dy < 2 * err then x + sx else x, if 2 * err < dx then y + sy else y)
        (err + (if 2 * err < dx then dx else 0) - (if - dy < 2 * err then dy else 0))))"
  using assms by (simp add: Let_def algebra_simps)

text \<open>No value of a round overflows when the ends are at most \<open>2 ^ 28\<close> apart.\<close>

lemma line_range:
  assumes "line_inv dx dy i j" "dx \<le> 2 ^ 28" "dy \<le> 2 ^ 28"
  defines "err \<equiv> dx * j - dy * i + dx - dy"
  shows "int32 (2 * err)" "int32 (err - (if P then dy else 0))"
    "int32 (err + (if Q then dx else 0) - (if P then dy else 0))"
proof -
  have "2 * \<bar>dx * j - dy * i\<bar> \<le> max dx dy"
    using assms(1) by (simp add: line_inv_def)
  also have "max dx dy \<le> 2 ^ 28"
    using assms(2,3) by simp
  finally have "2 * \<bar>dx * j - dy * i\<bar> \<le> 2 ^ 28" .
  moreover have "0 \<le> dx" "0 \<le> dy"
    using assms(1) by (auto simp: line_inv_def)
  ultimately have "- (2 ^ 29) \<le> err" "err \<le> 2 ^ 29" "0 \<le> dx" "0 \<le> dy"
    using assms(2,3) unfolding err_def by auto
  then show "int32 (2 * err)" "int32 (err - (if P then dy else 0))"
    "int32 (err + (if Q then dx else 0) - (if P then dy else 0))"
    using assms(2,3) by (auto simp: int32_iff)
qed

lemma line_coordinate:
  assumes "\<bar>s\<bar> = (1 :: int)" "0 \<le> a" "a \<le> d" "int32 x" "int32 (x + s * d)"
  shows "int32 (x + s * a)"
proof -
  have "s = 1 \<or> s = -1"
    using assms(1) by auto
  then show ?thesis
    using assms(2-5) by (auto simp: int32_iff)
qed

lemma line_points_ok:
  assumes "line_inv dx dy i j" "\<bar>sx\<bar> = 1" "\<bar>sy\<bar> = 1" "nat (dx - i + (dy - j)) < fuel"
    and range: "dx \<le> 2 ^ 28" "dy \<le> 2 ^ 28" "int32 x0" "int32 y0" "int32 (x0 + sx * dx)" "int32 (y0 + sy * dy)"
  shows "\<exists>ps. line_points fuel dx dy sx sy (x0 + sx * dx, y0 + sy * dy) (x0 + sx * i, y0 + sy * j)
        (dx * j - dy * i + dx - dy) = Some ps
    \<and> ps \<noteq> [] \<and> hd ps = (x0 + sx * i, y0 + sy * j) \<and> last ps = (x0 + sx * dx, y0 + sy * dy) \<and> connected ps
    \<and> (\<forall>p\<in>set ps. \<exists>a b. p = (x0 + sx * a, y0 + sy * b) \<and> line_inv dx dy a b)"
  using assms(1-4)
proof (induction fuel arbitrary: i j)
  case 0
  then show ?case by simp
next
  case (Suc fuel)
  have cancel: "sx * a = sx * b \<longleftrightarrow> a = b" "sy * a = sy * b \<longleftrightarrow> a = b" for a b
    using Suc.prems by auto
  show ?case
  proof (cases "(i, j) = (dx, dy)")
    case True
    then show ?thesis
      using Suc.prems(1) by auto
  next
    case False
    define e where "e = 2 * (dx * j - dy * i + dx - dy)"
    define i' where "i' = (if - dy < e then i + 1 else i)"
    define j' where "j' = (if e < dx then j + 1 else j)"
    have inv: "line_inv dx dy i' j'" "i' + j' > i + j"
      using line_inv_step[OF Suc.prems(1) False] by (simp_all add: i'_def j'_def e_def)
    have "nat (dx - i' + (dy - j')) < fuel"
      using Suc.prems(4) inv unfolding line_inv_def by linarith
    from Suc.IH[OF inv(1) Suc.prems(2,3) this] obtain ps where ps:
      "line_points fuel dx dy sx sy (x0 + sx * dx, y0 + sy * dy) (x0 + sx * i', y0 + sy * j')
        (dx * j' - dy * i' + dx - dy) = Some ps"
      "ps \<noteq> []" "hd ps = (x0 + sx * i', y0 + sy * j')" "last ps = (x0 + sx * dx, y0 + sy * dy)" "connected ps"
      "\<forall>p\<in>set ps. \<exists>a b. p = (x0 + sx * a, y0 + sy * b) \<and> line_inv dx dy a b"
      by blast
    have step: "line_points (Suc fuel) dx dy sx sy (x0 + sx * dx, y0 + sy * dy) (x0 + sx * i, y0 + sy * j)
        (dx * j - dy * i + dx - dy) = Some ((x0 + sx * i, y0 + sy * j) # ps)"
    proof -
      have go: "(x0 + sx * i, y0 + sy * j) \<noteq> (x0 + sx * dx, y0 + sy * dy)"
        using False cancel by auto
      have "(if - dy < e then x0 + sx * i + sx else x0 + sx * i) = x0 + sx * i'"
        "(if e < dx then y0 + sy * j + sy else y0 + sy * j) = y0 + sy * j'"
        "dx * j - dy * i + dx - dy + (if e < dx then dx else 0) - (if - dy < e then dy else 0) = dx * j' - dy * i' + dx - dy"
        by (auto simp: i'_def j'_def algebra_simps)
      note eqs = this
      have "int32 (x0 + sx * i')" "int32 (y0 + sy * j')"
        using inv(1) Suc.prems(2,3) range by (auto simp: line_inv_def intro: line_coordinate)
      then have ok: "list_all int32 [e, dx * j - dy * i + dx - dy - (if - dy < e then dy else 0), x0 + sx * i',
          dx * j' - dy * i' + dx - dy, y0 + sy * j']"
        using line_range[OF Suc.prems(1) range(1,2)] line_range(3)[OF Suc.prems(1) range(1,2), of "e < dx" "- dy < e"]
        by (simp only: list.pred_inject eqs e_def[symmetric])
      show ?thesis
        unfolding line_points_step[OF go] e_def[symmetric] eqs using ok by (simp only: checked_def if_True ps(1) option.map)
    qed
    have "adjacent (x0 + sx * i, y0 + sy * j) (x0 + sx * i', y0 + sy * j')"
      using inv(2) Suc.prems(2,3) cancel by (auto simp: adjacent_def i'_def j'_def algebra_simps)
    then have "connected ((x0 + sx * i, y0 + sy * j) # ps)"
      using ps(2,3,5) by (cases ps) auto
    then show ?thesis
      using step ps Suc.prems(1) by auto
  qed
qed

lemma line_path_ok:
  assumes "int32 x0" "int32 y0" "int32 x1" "int32 y1" "\<bar>x1 - x0\<bar> \<le> 2 ^ 28" "\<bar>y1 - y0\<bar> \<le> 2 ^ 28"
  obtains ps where "line_path x0 y0 x1 y1 = Some ps" "ps \<noteq> []" "hd ps = (x0, y0)" "last ps = (x1, y1)" "connected ps"
    "\<And>x y. (x, y) \<in> set ps \<Longrightarrow>
      2 * \<bar>(y - y0) * (x1 - x0) - (x - x0) * (y1 - y0)\<bar> \<le> max \<bar>x1 - x0\<bar> \<bar>y1 - y0\<bar>"
proof -
  define dx where "dx = (if x0 < x1 then x1 - x0 else x0 - x1)"
  define dy where "dy = (if y0 < y1 then y1 - y0 else y0 - y1)"
  define sx :: int where "sx = (if x0 < x1 then 1 else -1)"
  define sy :: int where "sy = (if y0 < y1 then 1 else -1)"
  have goal: "x0 + sx * dx = x1" "y0 + sy * dy = y1"
    by (auto simp: dx_def dy_def sx_def sy_def)
  have d28: "dx \<le> 2 ^ 28" "dy \<le> 2 ^ 28" "0 \<le> dx" "0 \<le> dy"
    using assms(5,6) by (auto simp: dx_def dy_def)
  have inv: "line_inv dx dy 0 0" "\<bar>sx\<bar> = 1" "\<bar>sy\<bar> = 1"
    by (auto simp: line_inv_def dx_def dy_def sx_def sy_def)
  obtain ps where ps: "line_points (nat (dx + dy) + 1) dx dy sx sy (x1, y1) (x0, y0) (dx - dy) = Some ps"
    "ps \<noteq> []" "hd ps = (x0, y0)" "last ps = (x1, y1)" "connected ps"
    "\<forall>p\<in>set ps. \<exists>a b. p = (x0 + sx * a, y0 + sy * b) \<and> line_inv dx dy a b"
    using line_points_ok[OF inv, of "nat (dx + dy) + 1" x0 y0] goal assms d28 by auto
  have "int32 dx" "int32 dy" "int32 (dx - dy)"
    using d28 by (auto simp: int32_iff)
  then have "line_path x0 y0 x1 y1 = Some ps"
    using ps(1) unfolding line_path_def Let_def dx_def dy_def sx_def sy_def checked_def by simp
  moreover have "2 * \<bar>(y - y0) * (x1 - x0) - (x - x0) * (y1 - y0)\<bar> \<le> max \<bar>x1 - x0\<bar> \<bar>y1 - y0\<bar>"
    if "(x, y) \<in> set ps" for x y
  proof -
    obtain a b where ab: "x = x0 + sx * a" "y = y0 + sy * b" "line_inv dx dy a b"
      using ps(6) \<open>(x, y) \<in> set ps\<close> by blast
    have d: "x1 - x0 = sx * dx" "y1 - y0 = sy * dy"
      using goal by auto
    have "(y - y0) * (x1 - x0) - (x - x0) * (y1 - y0) = (sx * sy) * (dx * b - dy * a)"
      by (simp add: ab d algebra_simps)
    then have "\<bar>(y - y0) * (x1 - x0) - (x - x0) * (y1 - y0)\<bar> = \<bar>dx * b - dy * a\<bar>"
      by (simp add: abs_mult inv)
    moreover have "\<bar>x1 - x0\<bar> = dx" "\<bar>y1 - y0\<bar> = dy"
      by (auto simp: dx_def dy_def)
    ultimately show ?thesis
      using ab(3) by (simp add: line_inv_def)
  qed
  ultimately show thesis
    using that ps by blast
qed

lemma line_draws [draws]:
  assumes "gfx_ok s" "far x0" "far y0" "far x1" "far y1"
  shows "draws s (gfx_line x0 y0 x1 y1 c s)"
proof -
  have "int32 x0" "int32 y0" "int32 x1" "int32 y1" "\<bar>x1 - x0\<bar> \<le> 2 ^ 28" "\<bar>y1 - y0\<bar> \<le> 2 ^ 28"
    using assms(2-5) by (auto simp: far_iff int32_iff)
  then show ?thesis
    by (rule line_path_ok) (simp add: gfx_line_def draws assms(1))
qed

section \<open>The square root\<close>

lemma newton_step:
  fixes x res :: int
  assumes "0 < res"
  shows "x < ((res + x div res) div 2 + 1) * ((res + x div res) div 2 + 1)"
proof -
  define q where "q = x div res"
  define n where "n = (res + q) div 2 + 1"
  have "x < (q + 1) * res"
    using assms by (simp add: q_def) (metis add.commute div_mult_mod_eq distrib_right mult_1 add_strict_left_mono pos_mod_bound)
  then have lt: "4 * x < 4 * ((q + 1) * res)"
    by simp
  have "0 \<le> (res - (q + 1)) * (res - (q + 1))"
    by simp
  then have sq: "4 * ((q + 1) * res) \<le> (res + q + 1) * (res + q + 1)"
    by (simp add: algebra_simps)
  show ?thesis
  proof (cases "0 \<le> res + q + 1")
    case True
    have "res + q + 1 \<le> 2 * n"
      by (simp add: n_def)
    then have "(res + q + 1) * (res + q + 1) \<le> (2 * n) * (2 * n)"
      using True by (intro mult_mono) auto
    then show ?thesis
      using lt sq by (simp flip: q_def n_def)
  next
    case False
    then have "q < 0"
      using assms by simp
    then have "x < 0"
      using assms by (simp add: q_def neg_imp_zdiv_neg_iff pos_imp_zdiv_neg_iff)
    then show ?thesis
      using zero_le_square[of n] unfolding n_def q_def by linarith
  qed
qed

lemma sqrt_loop_correct:
  assumes "0 < x" "0 < res" "x < (res + 1) * (res + 1)"
  shows "sqrt_loop x res * sqrt_loop x res \<le> x \<and> x < (sqrt_loop x res + 1) * (sqrt_loop x res + 1)"
  using assms
proof (induction x res rule: sqrt_loop.induct)
  case (1 x res)
  define nx where "nx = (res + x div res) div 2"
  have bound: "x < (nx + 1) * (nx + 1)"
    using newton_step[OF "1.prems"(2), of x] by (simp add: nx_def)
  show ?case
  proof (cases "nx < res")
    case True
    have "0 \<le> x div res"
      using "1.prems" by (simp add: pos_imp_zdiv_nonneg_iff)
    then have "0 \<le> nx"
      using "1.prems" by (simp add: nx_def)
    moreover have "nx \<noteq> 0"
      using bound "1.prems" by auto
    ultimately have "0 < nx"
      by simp
    then show ?thesis
      using "1.IH"[OF nx_def] "1.prems" True bound sqrt_loop.simps[of x res] by (simp add: Let_def flip: nx_def)
  next
    case False
    then have "res \<le> x div res"
      by (simp add: nx_def)
    then have "res * res \<le> x div res * res"
      using "1.prems" by (intro mult_right_mono) auto
    also have "\<dots> \<le> x"
      using minus_mod_eq_div_mult[of x res] pos_mod_sign[of res x] "1.prems"(2) by linarith
    finally show ?thesis
      using False "1.prems" sqrt_loop.simps[of x res] by (simp add: Let_def flip: nx_def)
  qed
qed

lemma sqrt_loop_positive:
  assumes "0 < x" "0 < res" "x < (res + 1) * (res + 1)"
  shows "0 < sqrt_loop x res"
  using assms
proof (induction x res rule: sqrt_loop.induct)
  case (1 x res)
  define nx where "nx = (res + x div res) div 2"
  have "x < (nx + 1) * (nx + 1)"
    using newton_step[OF "1.prems"(2), of x] by (simp add: nx_def)
  moreover have "0 \<le> nx"
    using "1.prems" by (simp add: nx_def pos_imp_zdiv_nonneg_iff)
  ultimately have "0 < nx \<and> x < (nx + 1) * (nx + 1)"
    using "1.prems" by (cases "nx = 0") auto
  then show ?case
    using "1.IH"[OF nx_def] "1.prems" sqrt_loop.simps[of x res] by (auto simp: Let_def simp flip: nx_def)
qed

lemma sqrt_int_correct:
  assumes "0 \<le> x" "x < 2 ^ 31 - 1"
  shows "\<exists>q. sqrt_int x = Some q \<and> 0 \<le> q \<and> q * q \<le> x \<and> x < (q + 1) * (q + 1)"
proof (cases "x = 0")
  case True
  then show ?thesis
    by (simp add: sqrt_int_def)
next
  case False
  then have x: "0 < x"
    using assms by simp
  have "(x + 1) * 1 \<le> (x + 1) * (x + 1)"
    using x by (intro mult_left_mono) auto
  then have start: "x < (x + 1) * (x + 1)"
    by (rule less_le_trans[rotated]) simp
  have "sqrt_int x = Some (sqrt_loop x x)"
    using x assms(2) by (simp add: sqrt_int_def checked_def int32_iff)
  then show ?thesis
    using sqrt_loop_correct[OF x x start] sqrt_loop_positive[OF x x start] by simp
qed

text \<open>The sums of the loop are at most \<open>x + 1\<close>: the estimates lie between 1 and \<open>x\<close>.\<close>

lemma sqrt_sums:
  fixes x res :: int
  assumes "1 \<le> res" "res \<le> x"
  shows "res + x div res \<le> x + 1"
proof -
  have "x div res * res \<le> x"
    using assms by (metis minus_mod_eq_div_mult pos_mod_sign diff_ge_0_iff_ge le_add_same_cancel1 diff_add_cancel zero_less_one order_less_le_trans)
  moreover have "1 \<le> x div res"
    using assms div_pos_pos_trivial by (simp add: pos_imp_zdiv_pos_iff int_one_le_iff_zero_less)
  then have "0 \<le> (x div res - 1) * (res - 1)"
    using assms(1) by simp
  then have "res + x div res \<le> x div res * res + 1"
    by (simp add: algebra_simps)
  ultimately show ?thesis
    by linarith
qed

lemma draw_corner_draws:
  assumes "gfx_ok s" "near x" "near y" "near w" "near h" "0 \<le> a" "a \<le> r" "r \<le> 2 ^ 15"
  shows "draws s (draw_corner x y w h r c a s)"
proof -
  define rr aa n where "rr = r * r" and "aa = a * a" and "n = rr - aa"
  have "aa \<le> rr" "rr \<le> 2 ^ 15 * 2 ^ 15" "0 \<le> aa"
    unfolding rr_def aa_def using assms(6-8) by (auto intro!: mult_mono[of a r a r] mult_mono[of r "2 ^ 15" r "2 ^ 15", simplified])
  then have n: "0 \<le> n" "n \<le> 2 ^ 30" and sq: "int32 rr" "int32 aa" "int32 n"
    by (auto simp: n_def int32_iff)
  then obtain b where b: "sqrt_int n = Some b" "0 \<le> b" "b * b \<le> n"
    using sqrt_int_correct[of n] by auto
  have "b \<le> 2 ^ 15"
  proof (rule ccontr)
    assume "\<not> b \<le> 2 ^ 15"
    then have "(2 ^ 15 + 1) * (2 ^ 15 + 1) \<le> b * b"
      by (intro mult_mono) auto
    then show False
      using b(3) n(2) by simp
  qed
  then have "list_all int32 (corner_sums x w r a @ corner_sums x w r b @ corner_sums y h r a @ corner_sums y h r b)"
    using assms(2-8) b(2) by (auto simp: corner_sums_def near_iff int32_iff)
  then show ?thesis
    unfolding draw_corner_def rr_def[symmetric] aa_def[symmetric] n_def[symmetric] using sq assms(1) by (auto simp: b(1) intro!: draws)
qed

lemma rounded_rect_draws [draws]:
  assumes "gfx_ok s" "near x" "near y" "near (sint w)" "near (sint h)" "uint r \<le> 2 ^ 15"
  shows "draws s (gfx_rounded_rect x y w h r c s)"
proof -
  define q where "q = round_radius w h r"
  have q: "0 \<le> sint q" "sint q \<le> 2 ^ 15" "near (sint q)"
    using round_radius_near[of r w h] assms(6) by (simp_all add: q_def)
  note o = ofs_near[OF assms(2) q(3)] ofs_near[OF assms(3) q(3)] ofs_corner[OF assms(2,4) q(3)] ofs_corner[OF assms(3,5) q(3)]
    ofs_near[OF assms(2,4)] ofs_near[OF assms(3,5)]
  have sides: "draws s (each (\<lambda>(px, py, qx, qy). gfx_line px py qx qy c)
     [(ofs x q, y, ofs x (w - q), y), (ofs x q, ofs y (h - 1), ofs x (w - q), ofs y (h - 1)),
      (x, ofs y q, x, ofs y (h - q)), (ofs x (w - 1), ofs y q, ofs x (w - 1), ofs y (h - q))] s)"
    unfolding o using q assms(2-5) by (intro draws_each[OF assms(1)]) (auto simp: near_iff far_iff intro!: line_draws)
  show ?thesis
    unfolding gfx_rounded_rect_def Let_def q_def[symmetric] using assms q(2)
    by (auto simp del: each.simps intro!: draws draws_bind[OF assms(1) sides] draws_each draw_corner_draws)
qed

section \<open>Images\<close>

lemma row_major_bound:
  fixes w h :: u32
  assumes "r < unat h" "c < unat w" "unat w * unat h \<le> n"
  shows "unat (of_nat r * w + of_nat c) < n"
proof -
  have "unat (of_nat r * w + of_nat c) \<le> r * unat w + c"
    by (simp add: unat_word_ariths unat_of_nat) (metis mod_add_eq mod_less_eq_dividend mod_mult_left_eq)
  also have "\<dots> < Suc r * unat w"
    using assms(2) by simp
  also have "\<dots> \<le> unat h * unat w"
    using assms(1) by (intro mult_right_mono) auto
  finally show ?thesis
    using assms(3) by (simp add: mult.commute)
qed

lemma blit_each_draws:
  assumes "gfx_ok s" "near x" "near y" "unat w \<le> 2 ^ 20" "unat h \<le> 2 ^ 20"
    "\<And>r c. r < unat h \<Longrightarrow> c < unat w \<Longrightarrow> unat (at (of_nat r) (of_nat c)) < length src"
  shows "draws s (blit_each P at x y w h src s)"
  unfolding blit_each_def
  by (rule draws_each[OF assms(1)], rule draws_each)
    (use assms(2-5) in \<open>auto simp: put_if_def fetch_def assms(6) sint_of_nat near_iff int32_iff intro!: draws\<close>)

lemma blit_alpha_draws [draws]:
  assumes "gfx_ok s" "near x" "near y" "unat w \<le> 2 ^ 20" "unat h \<le> 2 ^ 20" "unat w * unat h \<le> length src"
  shows "draws s (gfx_blit_alpha x y w h src s)" "draws s (gfx_blit_key x y w h src key s)"
  unfolding gfx_blit_alpha_def gfx_blit_key_def
  by (rule blit_each_draws[OF assms(1-5)], rule row_major_bound[OF _ _ assms(6)], assumption+)+

text \<open>The row and the column that a scaled image shows lie in the source.\<close>

lemma scaled_index:
  fixes n m :: u32
  assumes "i < unat n" "unat n \<le> 2 ^ 15" "0 < unat m" "unat m \<le> 2 ^ 15"
  shows "unat (of_nat i * m div n) < unat m"
proof -
  have i: "unat (of_nat i :: u32) = i"
    using assms(1,2) by (simp add: unat_of_nat)
  have lt: "i * unat m < unat n * unat m"
    using assms(1,3) by simp
  also have "\<dots> \<le> 2 ^ 15 * 2 ^ 15"
    using assms(2,4) by (intro mult_mono) auto
  finally have "unat (of_nat i * m) = i * unat m"
    unfolding unat_word_ariths(2) i by simp
  moreover have "i * unat m div unat n < unat m"
    using lt by (simp add: less_mult_imp_div_less mult.commute)
  ultimately show ?thesis
    by (simp add: unat_div)
qed

lemma blit_scaled_draws [draws]:
  assumes "gfx_ok s" "near x" "near y" "unat dw \<le> 2 ^ 15" "unat dh \<le> 2 ^ 15" "unat sw \<le> 2 ^ 15" "unat sh \<le> 2 ^ 15"
    "unat sw * unat sh \<le> length src"
  shows "draws s (gfx_blit_scaled x y dw dh src sw sh s)"
proof (cases "dw = 0 \<or> dh = 0 \<or> sw = 0 \<or> sh = 0")
  case True
  then show ?thesis
    by (auto simp: gfx_blit_scaled_def)
next
  case False
  then have pos: "0 < unat sw" "0 < unat sh"
    by (simp_all add: unat_gt_0)
  have "unat ((of_nat r * sh div dh) * sw + of_nat c * sw div dw) < length src" if "r < unat dh" "c < unat dw" for r c
    using row_major_bound[OF scaled_index[OF that(1) assms(5) pos(2) assms(7)] scaled_index[OF that(2) assms(4) pos(1) assms(6)] assms(8)]
    by simp
  then show ?thesis
    using False assms(4,5) unfolding gfx_blit_scaled_def by (auto intro!: blit_each_draws[OF assms(1-3)])
qed

lemma store_draws:
  assumes "gfx_ok s" "i \<in> cells s (\<lambda>_ _. True)"
  shows "draws s (store i c s)"
proof -
  have "i < length (fb s)"
    using assms(2) cell_length[OF assms(1) clip_on_screen[OF assms(1)]] by (auto simp: cells_def)
  then show ?thesis
    using assms(2) by (auto simp: draws_def store_def confined_def nth_list_update)
qed

lemma copy_run_draws:
  assumes "gfx_ok s" "{p..<p + n} \<subseteq> cells s (\<lambda>_ _. True)" "q + n \<le> length src"
  shows "draws s (copy_run src q p n s)"
  unfolding copy_run_def
proof (rule draws_each[OF assms(1)])
  fix i t
  assume i: "i \<in> set [0..<n]" and t: "gfx_ok t" "confined s t"
  have "p + i \<in> cells t (\<lambda>_ _. True)"
    using i assms(2) cells_frame[of t s] t(2) by (auto simp: confined_def)
  then show "draws t (if q + i < length src then store (p + i) (src ! (q + i)) t else None)"
    using i assms(3) store_draws[OF t(1)] by auto
qed

lemma sint_positive:
  fixes w :: u32
  assumes "0 < sint w"
  shows "sint w = uint w"
proof -
  have "\<not> bit (uint w) 31"
    using assms by (auto simp: sint_uint simp flip: signed_take_bit_negative_iff)
  moreover have "take_bit (Suc 31) (uint w) = uint w"
    using uint_bounded[of w] by (simp add: take_bit_int_eq_self_iff)
  ultimately show ?thesis
    using take_bit_Suc_from_most[of 31 "uint w"] by (simp add: sint_uint signed_take_bit_eq_if_positive)
qed

lemma blit_source_bound:
  fixes w h :: u32
  assumes "unat w * unat h \<le> n" "0 \<le> r" "r < sint h" "0 \<le> k" "0 < l" "k + l \<le> sint w"
  shows "unat (word_of_int r * w + word_of_int k) + nat l \<le> n"
proof -
  have pos: "sint w = uint w" "sint h = uint h"
    using assms by (auto intro!: sint_positive)
  have "unat (word_of_int r * w + word_of_int k) = nat ((r * uint w + k) mod 2 ^ 32)"
    unfolding unat_eq_nat_uint
    by (simp add: uint_word_ariths uint_word_of_int mod_mult_left_eq del: nat_uint_eq) (metis mod_add_eq mod_mult_left_eq)
  also have "\<dots> \<le> nat (r * uint w + k)"
    using assms by (intro nat_mono zmod_le_nonneg_dividend) simp
  finally have "int (unat (word_of_int r * w + word_of_int k) + nat l) \<le> r * uint w + k + l"
    using assms pos by (simp add: le_nat_iff)
  also have "\<dots> \<le> (r + 1) * uint w"
    using assms pos by (simp add: algebra_simps)
  also have "\<dots> \<le> uint h * uint w"
    using assms pos by (intro mult_right_mono) auto
  also have "\<dots> \<le> int n"
  proof -
    have "int (unat w) * int (unat h) \<le> int n"
      using assms(1) by (metis of_nat_mult of_nat_mono)
    then show ?thesis
      by (simp add: mult.commute)
  qed
  finally show ?thesis
    by (simp only: of_nat_le_iff)
qed

lemma blit_draws [draws]:
  assumes "gfx_ok s" "near x" "near y" "near (sint w)" "near (sint h)" "unat w * unat h \<le> length src"
  shows "draws s (gfx_blit x y w h src s)"
proof -
  define x0 where "x0 = max x (sint (clip_x s))"
  define y0 where "y0 = max y (sint (clip_y s))"
  define x1 where "x1 = min (x + sint w) (sint (clip_x2 s))"
  define y1 where "y1 = min (y + sint h) (sint (clip_y2 s))"
  have body: "gfx_blit x y w h src s =
     (if w = 0 \<or> h = 0 \<or> x1 \<le> x0 \<or> y1 \<le> y0 then Some s
      else each (\<lambda>row t. copy_run src (unat (word_of_int ((y0 - y) + (row - y0)) * w + word_of_int (x0 - x)))
        (pixel_index t x0 row) (nat (x1 - x0)) t) [y0..y1 - 1] s)"
  proof -
    have "sint (clip_x s) < 2 ^ 30" "sint (clip_y s) < 2 ^ 30" "sint (clip_x2 s) < 2 ^ 31" "0 \<le> sint (clip_x s)" "0 \<le> sint (clip_y s)"
      using assms(1) unfolding gfx_ok_sint[OF assms(1)] by (auto simp: gfx_ok_def word_le_def)
    then have "int32 (x0 - x)" "int32 (y0 - y)" "int32 (x + sint w)" "int32 (y + sint h)" "int32 (x1 - x0)" if "x0 < x1"
      using that assms(2-5) by (auto simp: int32_iff near_iff x0_def x1_def y0_def)
    moreover have "int32 (x0 - x)" "int32 (y0 - y)" "int32 (x + sint w)" "int32 (y + sint h)"
      using \<open>sint (clip_x s) < 2 ^ 30\<close> \<open>sint (clip_y s) < 2 ^ 30\<close> assms(2-5) by (auto simp: int32_iff near_iff x0_def y0_def)
    ultimately show ?thesis
      by (simp add: gfx_blit_def checked_def Let_def flip: x0_def y0_def x1_def y1_def)
  qed
  show ?thesis
  proof (cases "w = 0 \<or> h = 0 \<or> x1 \<le> x0 \<or> y1 \<le> y0")
    case True
    then show ?thesis
      unfolding body by auto
  next
    case False
    have "draws t (copy_run src (unat (word_of_int (row - y) * w + word_of_int (x0 - x)))
        (pixel_index t x0 row) (nat (x1 - x0)) t)"
      if row: "y0 \<le> row" "row < y1" and t: "gfx_ok t" "confined s t" for row t
    proof -
      have eq: "t = s\<lparr>fb := fb t\<rparr>"
        using t(2) by (simp add: confined_def)
      have lt: "x0 < x1" and ends: "clip_test t x0 row" "clip_test t (x1 - 1) row"
        using False row by (auto simp: frame_simps[OF eq] clip_test_def x0_def x1_def y0_def y1_def)
      have "{pixel_index t x0 row..<pixel_index t x0 row + nat (x1 - x0)} \<subseteq> cells t (\<lambda>_ _. True)"
        unfolding row_run(1)[OF t(1) lt ends] by (auto simp: cells_def)
      moreover have "unat (word_of_int (row - y) * w + word_of_int (x0 - x)) + nat (x1 - x0) \<le> length src"
        using row lt by (intro blit_source_bound[OF assms(6)]) (auto simp: x0_def x1_def y0_def y1_def)
      ultimately show ?thesis
        using copy_run_draws[OF t(1)] by blast
    qed
    then show ?thesis
      unfolding body using False by (auto intro!: draws_each[OF assms(1)])
  qed
qed

section \<open>Colours\<close>

lemma opaque_mask: "(0xFF000000 :: u32) = NOT (mask 24)"
  by (simp add: mask_eq_decr_exp)

lemma channels: "(0xFF000000 :: u32) OR push_bit 16 (chan c 16) OR push_bit 8 (chan c 8) OR chan c 0 = c OR 0xFF000000"
proof -
  have m: "(0xFF :: u32) = mask 8"
    by (simp add: mask_eq_decr_exp)
  show ?thesis
    unfolding opaque_mask chan_def m
  proof (rule bit_word_eqI)
    fix n
    assume "n < LENGTH(32)"
    then consider "n < 8" | "8 \<le> n" "n < 16" | "16 \<le> n" "n < 24" | "24 \<le> n" "n < 32"
      by fastforce
    then show "bit (NOT (mask 24) OR push_bit 16 (drop_bit 16 c AND mask 8) OR push_bit 8 (drop_bit 8 c AND mask 8)
        OR drop_bit 0 c AND mask 8) n = bit (c OR NOT (mask 24)) n"
      by cases (auto simp: bit_simps)
  qed
qed

lemma lerp_ends:
  "gfx_color_lerp a b 0 = a OR 0xFF000000"
  "gfx_color_lerp a b 255 = b OR 0xFF000000"
  using channels[of a] channels[of b] by (simp_all add: gfx_color_lerp_def tdiv_def Let_def)

lemma grad_color_ends:
  assumes "2 \<le> n" "n \<le> 0x1000000"
  shows "grad_color g 0 n = color1 g OR 0xFF000000" "grad_color g (n - 1) n = color2 g OR 0xFF000000"
proof -
  show "grad_color g 0 n = color1 g OR 0xFF000000"
    by (simp add: grad_color_def lerp_ends)
  have m: "unat (n - 1) = unat n - 1"
    using assms by (intro unat_minus_one) auto
  moreover have "unat n \<le> 0x1000000" "2 \<le> unat n"
    using assms by (simp_all add: word_le_nat_alt)
  ultimately have "unat ((n - 1) * 255) = unat (n - 1) * 255" "0 < unat (n - 1)"
    unfolding unat_word_ariths(2) by simp_all
  then have "unat ((n - 1) * 255 div (n - 1)) = unat (255 :: u32)"
    unfolding unat_div by simp
  then have "(n - 1) * 255 div (n - 1) = 255"
    by (simp only: word_unat_eq_iff)
  then show "grad_color g (n - 1) n = color2 g OR 0xFF000000"
    by (simp add: grad_color_def lerp_ends)
qed

section \<open>The font and the clip rectangle\<close>

lemma font_table: "length font_8x16 = 95 \<and> (\<forall>g\<in>set font_8x16. length g = 16)"
  by (simp add: font_8x16_def)

lemma set_clip_ok:
  assumes "gfx_ok s" "uint x < 2 ^ 30" "uint y < 2 ^ 30"
  shows "gfx_ok (gfx_set_clip x y w h s)"
  using assms by (auto simp: gfx_ok_def gfx_set_clip_def Let_def not_less)

lemma create_context_ok:
  assumes "length mem = unat w * unat h" "uint w < 2 ^ 31" "uint h < 2 ^ 31" "uint w * uint h < 2 ^ 32"
  shows "gfx_ok (gfx_create_context mem w h)"
  using assms by (simp add: gfx_ok_def gfx_create_context_def gfx_reset_clip_def)

text \<open>A clip origin of \<open>2 ^ 31\<close> or more is a negative \<open>int\<close>: the fill then leaves the frame buffer.\<close>

lemma far_clip_overruns:
  "gfx_fill_rect (-1) 0 2 1 0xFFFFFFFF (gfx_set_clip 0x80000000 0 1 1 (gfx_create_context [0, 0, 0, 0] 2 2)) = None"
  by (simp add: gfx_fill_rect_def gfx_set_clip_def gfx_create_context_def gfx_reset_clip_def Let_def pixel_index_def checked_def
    fill_run_def paint_def store_def upt_conv_Cons unsigned_minus_1_eq_mask mask_eq_exp_minus_1)

section \<open>What the drawing routines do\<close>

text \<open>
  C15: filling a rectangle whose right and lower edges fit an \<open>int32_t\<close> paints exactly the pixels that
  lie in it and in the clip rectangle, once each, with the colour (blended when it is translucent, not
  at all when it is transparent); every other pixel keeps its colour, and no write leaves the frame
  buffer.  When one of the edges does not fit, the sum overflows, which is undefined.
\<close>

theorem fill_rect_pixels:
  assumes "gfx_ok s"
  shows "if w = 0 \<or> h = 0 \<or> int32 (x + sint w) \<and> int32 (y + sint h)
    then \<exists>t. gfx_fill_rect x y w h c s = Some t \<and>
      (\<forall>px py. on_screen s px py \<longrightarrow>
        pixel t px py = (if in_rect x y w h px py \<and> clip_test s px py then over c (pixel s px py) else pixel s px py))
    else gfx_fill_rect x y w h c s = None"
proof (cases "int32 (x + sint w) \<and> int32 (y + sint h)")
  case True
  then show ?thesis
    using fill_rect_touched[OF assms, of x w y h c] touched_pixel[OF assms] by auto
next
  case False
  then show ?thesis
    by (auto simp: gfx_fill_rect_def checked_def in_rect_def)
qed

definition demo_gfx :: gfx where
  "demo_gfx = gfx_set_clip 1 0 1 2 (gfx_create_context [7, 7, 7, 7, 7, 7] 3 2)"

lemma demo_gfx_ok: "gfx_ok demo_gfx"
  unfolding demo_gfx_def by (intro set_clip_ok create_context_ok) simp_all

theorem fill_rect_pixels_witness:
  "\<exists>t. gfx_fill_rect 0 0 2 1 0xFF000001 demo_gfx = Some t \<and> pixel t 0 0 = 7 \<and> pixel t 1 0 = 0xFF000001 \<and> pixel t 1 1 = 7"
proof -
  obtain t where t: "gfx_fill_rect 0 0 2 1 0xFF000001 demo_gfx = Some t"
    "\<And>px py. on_screen demo_gfx px py \<Longrightarrow> pixel t px py =
      (if in_rect 0 0 2 1 px py \<and> clip_test demo_gfx px py then over 0xFF000001 (pixel demo_gfx px py) else pixel demo_gfx px py)"
    using fill_rect_pixels[OF demo_gfx_ok, of 2 1 0 0 "0xFF000001"] by (auto simp: int32_iff)
  show ?thesis
    by (rule exI[of _ t], intro conjI t(1); subst t(2))
      (simp_all add: on_screen_def in_rect_def clip_test_def over_def pixel_def cell_def demo_gfx_def
        gfx_set_clip_def gfx_create_context_def gfx_reset_clip_def Let_def)
qed

lemma near_size: "unat w \<le> 2 ^ 14 \<Longrightarrow> near (sint w) \<and> uint w \<le> 2 ^ 15 \<and> uint w \<le> 2 ^ 20" for w :: u32
proof -
  assume "unat w \<le> 2 ^ 14"
  then have "int (unat w) \<le> int (2 ^ 14)"
    by (simp only: of_nat_le_iff)
  then have u: "uint w \<le> 2 ^ 14"
    by simp
  then have "sint w = uint w"
    by (intro sint_31) simp
  then show ?thesis
    using u by (auto simp: near_def intro: order_trans[of _ 0])
qed

text \<open>
  C16: on a context of the size it says, every drawing routine of gui_graphics.c finishes without a
  write or read out of bounds, a division by zero or an overflow, and leaves every pixel outside the
  clip rectangle as it was, for coordinates between \<open>-2^14\<close> and \<open>2^14\<close>, sizes, radii and scales up to
  \<open>2^14\<close>, texts at most \<open>2^23\<close> wide and images that hold as many pixels as they are said to.  A
  gradient needs at least two steps, that is, a height (or, when horizontal, a width) other than 1.
\<close>

theorem drawing_stays_in_clip:
  assumes ok: "gfx_ok s"
    and coords: "\<forall>i\<in>{x, y, x', y', x'', y''}. \<bar>i\<bar> \<le> 2 ^ 14"
    and sizes: "\<forall>m\<in>{w, h, n, sw, sh}. unat m \<le> 2 ^ 14"
    and str: "length str * 8 * unat n \<le> 2 ^ 23"
    and src: "unat w * unat h \<le> length src" "unat sw * unat sh \<le> length img"
    and grad: "if vertical g then h \<noteq> 1 else w \<noteq> 1"
    and r: "r \<in> {gfx_putpixel x y c s, gfx_fill_rect x y w h c s, gfx_rect x y w h c s, gfx_line x y x' y' c s,
      gfx_fill_rounded x y w h n c s, gfx_rounded_rect x y w h n c s, gfx_fill_circle x y n c s, gfx_circle x y n c s,
      gfx_fill_triangle (x, y) (x', y') (x'', y'') c s, gfx_gradient_rect x y w h g s, gfx_gradient_rounded x y w h n g s,
      gfx_draw_text x y str c n s, gfx_draw_text_center x y str c n s, gfx_draw_text_right x y str c n s,
      gfx_blit x y w h src s, gfx_blit_alpha x y w h src s, gfx_blit_key x y w h src c s, gfx_blit_scaled x y w h img sw sh s}"
  shows "\<exists>t. r = Some t \<and> (\<forall>px py. on_screen s px py \<and> \<not> clip_test s px py \<longrightarrow> pixel t px py = pixel s px py)"
proof -
  have xy: "near x" "near y" "far x" "far y" "far x'" "far y'"
    using coords by (auto simp: near_iff far_iff)
  have edges: "int32 (x + sint w)" "int32 (y + sint h)"
    using xy near_size[of w] near_size[of h] sizes by (auto simp: near_iff int32_iff)
  have wh: "near (sint w)" "near (sint h)" "near (sint n)" "uint n \<le> 2 ^ 15" "uint n \<le> 2 ^ 20"
    using near_size sizes by blast+
  have small: "unat w \<le> 2 ^ 15" "unat h \<le> 2 ^ 15" "unat sw \<le> 2 ^ 15" "unat sh \<le> 2 ^ 15" "unat w \<le> 2 ^ 20" "unat h \<le> 2 ^ 20"
    using sizes by auto
  have len: "n = 0 \<or> length str \<le> 2 ^ 20"
    using text_length[OF str] by blast
  have tri: "draws s (gfx_fill_triangle (x, y) (x', y') (x'', y'') c s)"
    using coords by (intro fill_triangle_draws[OF ok]) auto
  have gr: "if vertical g then h \<noteq> 1 \<and> unat h \<le> 2 ^ 20 else w \<noteq> 1 \<and> unat w \<le> 2 ^ 20"
    using grad small by auto
  note all = putpixel_draws[OF ok] fill_rect_draws[OF ok edges] rect_draws[OF ok xy(1,2) wh(1,2)] line_draws[OF ok xy(3-6)]
    fill_rounded_draws[OF ok xy(1,2) wh(1,2,5)] rounded_rect_draws[OF ok xy(1,2) wh(1,2,4)]
    fill_circle_draws[OF ok xy(3,4) wh(3)] circle_draws[OF ok xy(3,4) wh(3)] tri
    gradient_rect_draws[OF ok xy(1,2) wh(1,2) gr] gradient_rounded_draws[OF ok xy(1,2) wh(1,2) gr]
    draw_text_draws[OF ok xy(3,4) len] text_center_draws[OF ok xy(1,4) str] text_right_draws[OF ok xy(1,4) str]
    blit_draws[OF ok xy(1,2) wh(1,2) src(1)] blit_alpha_draws[OF ok xy(1,2) small(5,6) src(1)]
    blit_scaled_draws[OF ok xy(1,2) small(1-4) src(2)]
  have "draws s r"
    using r all by auto
  then show ?thesis
    using confined_pixel[OF ok] unfolding draws_def by blast
qed

theorem drawing_stays_in_clip_witness:
  "\<exists>t. gfx_line (-5) 0 9 1 0xFFFFFFFF demo_gfx = Some t \<and> pixel t 2 0 = 7"
proof -
  obtain t where t: "gfx_line (-5) 0 9 1 0xFFFFFFFF demo_gfx = Some t"
    "\<And>px py. on_screen demo_gfx px py \<Longrightarrow> \<not> clip_test demo_gfx px py \<Longrightarrow> pixel t px py = pixel demo_gfx px py"
    using drawing_stays_in_clip[OF demo_gfx_ok, where x="-5" and y=0 and x'=9 and y'=1 and x''=0 and y''=0 and w=0 and h=0
      and n=0 and sw=0 and sh=0 and str="[]" and src="[]" and img="[]" and c="0xFFFFFFFF"
      and g="\<lparr>color1 = 0, color2 = 0, vertical = True\<rparr>" and r="gfx_line (-5) 0 9 1 0xFFFFFFFF demo_gfx"]
    by auto
  show ?thesis
    by (rule exI[of _ t], intro conjI t(1), subst t(2))
      (simp_all add: on_screen_def clip_test_def pixel_def cell_def demo_gfx_def
        gfx_set_clip_def gfx_create_context_def gfx_reset_clip_def Let_def)
qed

text \<open>
  C25: for any two end points at most \<open>2^28\<close> apart in each direction the loop of \<open>gfx_line\<close> ends after
  finitely many rounds and no sum overflows; its pixels start at the first point, end at the second,
  each next to the one before, and none is more than half a pixel off the ideal line, measured along
  the shorter axis.
\<close>

theorem line_path_correct:
  assumes "int32 x0" "int32 y0" "int32 x1" "int32 y1" "\<bar>x1 - x0\<bar> \<le> 2 ^ 28" "\<bar>y1 - y0\<bar> \<le> 2 ^ 28"
  shows "\<exists>ps. line_path x0 y0 x1 y1 = Some ps \<and> ps \<noteq> [] \<and> hd ps = (x0, y0) \<and> last ps = (x1, y1) \<and> connected ps
    \<and> (\<forall>(x, y)\<in>set ps. 2 * \<bar>(y - y0) * (x1 - x0) - (x - x0) * (y1 - y0)\<bar> \<le> max \<bar>x1 - x0\<bar> \<bar>y1 - y0\<bar>)"
  by (rule line_path_ok[OF assms]) auto

theorem line_path_correct_witness:
  "\<exists>ps. line_path 0 0 3 1 = Some ps \<and> last ps = (3, 1) \<and> (0, 2) \<notin> set ps"
  using line_path_correct[of 0 0 3 1] by (force simp: int32_iff)

text \<open>Points far apart: the first difference already overflows, or a later doubling does.\<close>

lemma line_overflows: "line_path (-2000000000) 0 2000000000 0 = None" "line_path 0 0 1500000000 1 = None"
proof -
  show "line_path (-2000000000) 0 2000000000 0 = None"
    by (simp add: line_path_def checked_def int32_def)
  have "line_points k 1500000000 1 1 1 (1500000000, 1) (0, 0) 1499999999 = None" for k
    by (cases k) (simp_all add: checked_def int32_def)
  then show "line_path 0 0 1500000000 1 = None"
    by (simp add: line_path_def checked_def del: line_points.simps)
qed

text \<open>
  The integer square root used for the arcs is exact, and its loop ends: the result is the largest
  integer whose square does not exceed the argument.  Only for the largest \<open>int\<close> does it overflow.
\<close>

theorem sqrt_int_exact:
  assumes "0 \<le> x" "x < 2 ^ 31 - 1"
  shows "\<exists>q. sqrt_int x = Some q \<and> 0 \<le> q \<and> q\<^sup>2 \<le> x \<and> x < (q + 1)\<^sup>2"
  using sqrt_int_correct[OF assms] by (simp add: power2_eq_square)

theorem sqrt_int_exact_witness: "\<exists>q. sqrt_int 99 = Some q \<and> q\<^sup>2 \<le> 99 \<and> 99 < (q + 1)\<^sup>2"
  using sqrt_int_exact[of 99] by auto

end
