(* ===== verification/Compositor.thy ===== *)
theory Compositor
  imports KHeap CText Gfx
begin

text \<open>
  The window manager of compositor.c but for its drawing: views, lock screen, touches, surfaces,
  notifications and the list of applications.  A touch has the fields the code reads.  Strings are
  character lists, a pointer to a surface is its index; \<open>None\<close> is a write through a null pointer
  or the corrupted heap of \<open>kmalloc\<close>.  Messages to the log are left out.  The lemmas show which
  personal codes can be typed at all, that the power menu opens a locked screen, which parts of the
  touch handler are never reached, and that the notifications keep the latest 16.
\<close>

section \<open>State\<close>

datatype view = Home | Launcher | Lock | Notifications | Recent | Power

datatype surface_state = Blank | Visible | Hidden

record surface =
  s_id :: nat
  s_type :: u32
  s_state :: surface_state
  s_x :: u32
  s_y :: u32
  s_width :: u32
  s_height :: u32
  s_z :: nat
  s_fb :: addr
  s_owner :: u32
  s_title :: string
  s_bg :: u32

record notification =
  n_id :: u32
  n_level :: u32
  n_app :: string
  n_title :: string
  n_message :: string
  n_time :: u64
  n_color :: u32

record app_entry =
  a_name :: string
  a_package :: string
  a_icon :: string
  a_color :: u32
  a_pid :: int

record gui =
  fb_width :: u32
  fb_height :: u32
  fb_ctx :: gfx
  surfaces :: "surface list"
  surface_count :: nat
  focused :: "nat option"
  apps :: "app_entry list"
  app_count :: nat
  lock_screen :: bool
  pin_enabled :: bool
  brightness :: u32
  current_view :: view
  prev_view :: view
  pin_buffer :: string
  pin_len :: nat
  pin_target :: u32
  pin_failed :: bool
  notif_buffer :: "notification list"
  notif_count :: nat
  notif_next_id :: u32
  gheap :: kheap

record touch =
  t_event :: nat
  t_x :: u32
  t_y :: u32

definition EVENT_DOWN :: nat where "EVENT_DOWN = 0"
definition GUI_MAX_SURFACES :: nat where "GUI_MAX_SURFACES = 32"
definition GUI_MAX_APPS :: nat where "GUI_MAX_APPS = 64"
definition GUI_NOTIFICATION_MAX :: nat where "GUI_NOTIFICATION_MAX = 16"

abbreviation CRGB :: "u32 \<Rightarrow> u32 \<Rightarrow> u32 \<Rightarrow> u32" where
  "CRGB r g b \<equiv> push_bit 24 255 OR push_bit 16 r OR push_bit 8 g OR b"

definition C_RED :: u32 where "C_RED = CRGB 239 68 68"
definition C_BLUE :: u32 where "C_BLUE = CRGB 59 130 246"
definition C_YELLOW :: u32 where "C_YELLOW = CRGB 234 179 8"
definition C_GREEN :: u32 where "C_GREEN = CRGB 34 197 94"
definition C_ORANGE :: u32 where "C_ORANGE = CRGB 249 115 22"
definition C_MAGENTA :: u32 where "C_MAGENTA = CRGB 236 72 153"
definition C_PINK :: u32 where "C_PINK = CRGB 236 72 153"
definition C_LTGRAY :: u32 where "C_LTGRAY = CRGB 200 200 200"
definition C_CRIMSON :: u32 where "C_CRIMSON = CRGB 220 20 60"
definition C_PURPLE :: u32 where "C_PURPLE = CRGB 168 85 247"
definition C_CYAN :: u32 where "C_CYAN = CRGB 6 182 212"
definition C_BLOODMOON_BG :: u32 where "C_BLOODMOON_BG = CRGB 10 5 15"
definition C_BLOODMOON_PANEL :: u32 where "C_BLOODMOON_PANEL = CRGB 20 12 28"

section \<open>Applications\<close>

definition app_names :: "string list" where
  "app_names = [''Phone'', ''Messages'', ''Browser'', ''Camera'', ''Gallery'', ''Files'', ''Settings'', ''Store'',
     ''Terminal'', ''Clock'', ''Music'', ''Mail'', ''Maps'', ''Weather'', ''Calendar'', ''PenTest'']"

definition app_colors :: "u32 list" where
  "app_colors = [C_GREEN, C_BLUE, C_ORANGE, C_MAGENTA, C_PINK, C_YELLOW, C_LTGRAY, C_CRIMSON,
     C_PURPLE, C_CYAN, C_RED, C_BLUE, C_GREEN, C_CYAN, C_ORANGE, C_RED]"

definition app_packages :: "string list" where
  "app_packages = [''com.crimson.phone'', ''com.crimson.messages'', ''com.crimson.browser'', ''com.crimson.camera'',
     ''com.crimson.gallery'', ''com.crimson.files'', ''com.crimson.settings'', ''com.crimson.store'',
     ''com.crimson.terminal'', ''com.crimson.clock'', ''com.crimson.music'', ''com.crimson.mail'',
     ''com.crimson.maps'', ''com.crimson.weather'', ''com.crimson.calendar'', ''com.crimson.pentest'']"

text \<open>\<open>if (src) strncpy(dst, src, n)\<close> into a field whose last byte stays zero.\<close>

definition set_text :: "nat \<Rightarrow> string option \<Rightarrow> string \<Rightarrow> string" where
  "set_text n src old = (case src of None \<Rightarrow> old | Some t \<Rightarrow> take n t)"

definition gui_register_app :: "string option \<Rightarrow> string option \<Rightarrow> string option \<Rightarrow> u32 \<Rightarrow> gui \<Rightarrow> gui \<times> int" where
  "gui_register_app name package icon color s =
     (if GUI_MAX_APPS \<le> app_count s then (s, -1)
      else (let a = apps s ! app_count s;
                a = a\<lparr>a_name := set_text 63 name (a_name a), a_package := set_text 127 package (a_package a),
                      a_icon := set_text 127 icon (a_icon a), a_color := color, a_pid := -1\<rparr>
            in (s\<lparr>apps := (apps s)[app_count s := a], app_count := app_count s + 1\<rparr>, 0)))"

definition gui_kill_app :: "int \<Rightarrow> gui \<Rightarrow> gui" where
  "gui_kill_app pid s =
     (case find (\<lambda>i. a_pid (apps s ! i) = pid) [0..<app_count s] of None \<Rightarrow> s
      | Some i \<Rightarrow> s\<lparr>apps := (apps s)[i := (apps s ! i)\<lparr>a_pid := -1\<rparr>]\<rparr>)"

section \<open>Surfaces\<close>

definition zero_surface :: surface where
  "zero_surface = \<lparr> s_id = 0, s_type = 0, s_state = Blank, s_x = 0, s_y = 0, s_width = 0, s_height = 0, s_z = 0,
     s_fb = 0, s_owner = 0, s_title = '''', s_bg = 0 \<rparr>"

text \<open>\<open>kmalloc\<close> of the pixels, \<open>w * h * 4\<close> computed in 32 bits, and the clearing of the block.\<close>

definition surface_memory :: "u32 \<Rightarrow> u32 \<Rightarrow> kheap \<Rightarrow> (kheap \<times> addr) option" where
  "surface_memory w h hp =
     (let sz = ucast (w * h * 4) :: u64
      in case kmalloc hp sz of None \<Rightarrow> None
         | Some (hp, a) \<Rightarrow> Some (if a \<noteq> 0 then hp\<lparr>payload := memset (payload hp) a 0 sz\<rparr> else hp, a))"

definition gui_create_surface :: "u32 \<Rightarrow> u32 \<Rightarrow> u32 \<Rightarrow> u32 \<Rightarrow> string option \<Rightarrow> gui \<Rightarrow> (gui \<times> nat option) option" where
  "gui_create_surface w h ty owner title s =
     (if GUI_MAX_SURFACES \<le> surface_count s then Some (s, None)
      else (case surface_memory w h (gheap s) of None \<Rightarrow> None
            | Some (hp, a) \<Rightarrow>
              (let n = surface_count s;
                   srf = zero_surface\<lparr>s_id := n, s_type := ty, s_state := Visible, s_width := w, s_height := h,
                     s_x := 40, s_y := 68, s_z := n, s_owner := owner, s_bg := C_BLOODMOON_PANEL,
                     s_title := set_text 63 title '''', s_fb := a\<rparr>
               in Some (s\<lparr>surfaces := (surfaces s)[n := srf], surface_count := n + 1, gheap := hp\<rparr>, Some n))))"

definition upd_surface :: "nat \<Rightarrow> (surface \<Rightarrow> surface) \<Rightarrow> gui \<Rightarrow> gui" where
  "upd_surface i f s = s\<lparr>surfaces := (surfaces s)[i := f (surfaces s ! i)]\<rparr>"

definition gui_destroy_surface :: "nat \<Rightarrow> gui \<Rightarrow> gui" where
  "gui_destroy_surface i s =
     (let s = (if s_fb (surfaces s ! i) \<noteq> 0 then s\<lparr>gheap := kfree (gheap s) (s_fb (surfaces s ! i))\<rparr> else s)
      in upd_surface i (\<lambda>x. x\<lparr>s_state := Hidden, s_fb := 0\<rparr>) s)"

definition gui_show_surface :: "nat \<Rightarrow> gui \<Rightarrow> gui" where
  "gui_show_surface i = upd_surface i (\<lambda>x. x\<lparr>s_state := Visible\<rparr>)"

definition gui_hide_surface :: "nat \<Rightarrow> gui \<Rightarrow> gui" where
  "gui_hide_surface i = upd_surface i (\<lambda>x. x\<lparr>s_state := Hidden\<rparr>)"

definition gui_focus_surface :: "nat \<Rightarrow> gui \<Rightarrow> gui" where
  "gui_focus_surface i s = s\<lparr>focused := Some i\<rparr>"

definition gui_move_surface :: "nat \<Rightarrow> u32 \<Rightarrow> u32 \<Rightarrow> gui \<Rightarrow> gui" where
  "gui_move_surface i x y = upd_surface i (\<lambda>f. f\<lparr>s_x := x, s_y := y\<rparr>)"

definition gui_resize_surface :: "nat \<Rightarrow> u32 \<Rightarrow> u32 \<Rightarrow> gui \<Rightarrow> gui option" where
  "gui_resize_surface i w h s =
     (let hp = (if s_fb (surfaces s ! i) \<noteq> 0 then kfree (gheap s) (s_fb (surfaces s ! i)) else gheap s)
      in case surface_memory w h hp of None \<Rightarrow> None
         | Some (hp, a) \<Rightarrow> Some (upd_surface i (\<lambda>x. x\<lparr>s_width := w, s_height := h, s_fb := a\<rparr>) (s\<lparr>gheap := hp\<rparr>)))"

definition store_pixel :: "addr \<Rightarrow> nat \<Rightarrow> u32 \<Rightarrow> bytes \<Rightarrow> bytes" where
  "store_pixel a i c m =
     (let p = a + of_nat (4 * i)
      in m(p := ucast c, p + 1 := ucast (drop_bit 8 c), p + 2 := ucast (drop_bit 16 c), p + 3 := ucast (drop_bit 24 c)))"

definition gui_launch_app :: "string \<Rightarrow> gui \<Rightarrow> gui option" where
  "gui_launch_app package s =
     (case find (\<lambda>i. a_package (apps s ! i) = package) [0..<app_count s] of None \<Rightarrow> Some s
      | Some i \<Rightarrow>
        (case gui_create_surface (fb_width s - 80) (fb_height s - 144) 1 0 (Some (a_name (apps s ! i))) s of None \<Rightarrow> None
         | Some (s, None) \<Rightarrow> Some s
         | Some (s, Some n) \<Rightarrow>
           (let srf = surfaces s ! n; count = unat (s_width srf * s_height srf)
            in if s_fb srf = 0 \<and> count \<noteq> 0 then None
               else Some (s\<lparr>gheap := (gheap s)\<lparr>payload := fold (\<lambda>px. store_pixel (s_fb srf) px 0xFF102030) [0..<count] (payload (gheap s))\<rparr>\<rparr>))))"

section \<open>Notifications\<close>






definition gui_notify_clear :: "u32 \<Rightarrow> gui \<Rightarrow> gui" where
  "gui_notify_clear i s =
     (case find (\<lambda>k. n_id (notif_buffer s ! k) = i) [0..<notif_count s] of None \<Rightarrow> s
      | Some k \<Rightarrow> s\<lparr>notif_buffer := fold (\<lambda>j b. b[j := b ! (j + 1)]) [k..<notif_count s - 1] (notif_buffer s),
                     notif_count := notif_count s - 1\<rparr>)"

definition gui_notify_clear_all :: "gui \<Rightarrow> gui" where
  "gui_notify_clear_all s = s\<lparr>notif_count := 0\<rparr>"

section \<open>The lock screen\<close>

definition gui_lock :: "gui \<Rightarrow> gui" where
  "gui_lock s = s\<lparr>lock_screen := True, pin_len := 0, pin_failed := False, pin_buffer := replicate 16 (CHR 0x00), current_view := Lock\<rparr>"

definition gui_unlock :: "u32 \<Rightarrow> gui \<Rightarrow> gui" where
  "gui_unlock pin s =
     (if \<not> pin_enabled s \<or> pin = pin_target s then s\<lparr>lock_screen := False, pin_len := 0, current_view := Home\<rparr> else s)"

definition gui_set_pin :: "u32 \<Rightarrow> gui \<Rightarrow> gui" where
  "gui_set_pin pin s = s\<lparr>pin_target := pin, pin_enabled := True\<rparr>"

definition gui_show_power_menu :: "gui \<Rightarrow> gui" where
  "gui_show_power_menu s = s\<lparr>prev_view := current_view s, current_view := Power\<rparr>"

definition gui_set_brightness :: "u32 \<Rightarrow> gui \<Rightarrow> gui" where
  "gui_set_brightness pct s = s\<lparr>brightness := (if 100 < pct then 100 else pct)\<rparr>"

definition gui_color :: "u8 \<Rightarrow> u8 \<Rightarrow> u8 \<Rightarrow> u32" where
  "gui_color r g b = CRGB (ucast r) (ucast g) (ucast b)"

text \<open>A touch inside a rectangle, compared as unsigned numbers.\<close>

definition in_box :: "touch \<Rightarrow> int \<Rightarrow> int \<Rightarrow> int \<Rightarrow> int \<Rightarrow> bool" where
  "in_box ev x y w h \<longleftrightarrow>
     word_of_int x \<le> t_x ev \<and> t_x ev < word_of_int (x + w) \<and> word_of_int y \<le> t_y ev \<and> t_y ev < word_of_int (y + h)"

definition key_x :: "gui \<Rightarrow> nat \<Rightarrow> int" where
  "key_x s i = sint (fb_width s div 2) - 151 + int (i mod 3) * 106"

definition key_y :: "nat \<Rightarrow> int" where
  "key_y i = 700 + int (i div 3) * 88"

definition press_key :: "nat \<Rightarrow> gui \<Rightarrow> gui" where
  "press_key i s =
     (if i = 11 then
        (let s = (if 0 < pin_len s then s\<lparr>pin_len := pin_len s - 1, pin_buffer := (pin_buffer s)[pin_len s - 1 := CHR 0x00]\<rparr> else s)
         in s\<lparr>pin_failed := False\<rparr>)
      else if i < 10 then
        (let digit = (if i = 10 then 0 else i + 1)
         in if pin_len s < 4
            then s\<lparr>pin_buffer := (pin_buffer s)[pin_len s := char_of (48 + int digit), pin_len s + 1 := CHR 0x00], pin_len := pin_len s + 1\<rparr>
            else s)
      else s)"

text \<open>The number typed; four characters cannot overflow.\<close>

definition entered :: "gui \<Rightarrow> u32" where
  "entered s = (case str_atoi (takeWhile (\<lambda>c. c \<noteq> CHR 0x00) (pin_buffer s)) of None \<Rightarrow> 0 | Some v \<Rightarrow> word_of_int v)"

definition check_pin :: "gui \<Rightarrow> gui" where
  "check_pin s =
     (if pin_len s = 4 then
        (if entered s = pin_target s then s\<lparr>lock_screen := False, pin_len := 0, pin_failed := False, current_view := Home\<rparr>
         else s\<lparr>pin_len := 0, pin_failed := True, pin_buffer := replicate 16 (CHR 0x00)\<rparr>)
      else s)"

definition handle_pin_touch :: "touch \<Rightarrow> gui \<Rightarrow> gui \<times> bool" where
  "handle_pin_touch ev s =
     (if t_event ev \<noteq> EVENT_DOWN then (s, False)
      else (case find (\<lambda>i. in_box ev (key_x s i) (key_y i) 90 72) [0..<12] of None \<Rightarrow> (s, False)
            | Some i \<Rightarrow> (check_pin (press_key i s), True)))"

section \<open>Touches\<close>

datatype home_action = OpenLauncher | QuickApp nat | NoAction

definition home_action :: "touch \<Rightarrow> gui \<Rightarrow> home_action" where
  "home_action ev s =
     (if t_event ev \<noteq> EVENT_DOWN then NoAction
      else if fb_height s - 56 - 200 < t_y ev then OpenLauncher
      else (let qy = sint (fb_height s) - 216; qgap = sint ((fb_width s - 120 - 4 * 88) div 3)
            in if word_of_int qy \<le> t_y ev \<and> t_y ev < word_of_int (qy + 88)
               then (case find (\<lambda>i. let qx = 60 + int i * (88 + qgap)
                                    in word_of_int qx \<le> t_x ev \<and> t_x ev < word_of_int (qx + 88)) [0..<4] of
                       None \<Rightarrow> NoAction | Some i \<Rightarrow> QuickApp i)
               else NoAction))"

definition handle_home_touch :: "touch \<Rightarrow> gui \<Rightarrow> gui" where
  "handle_home_touch ev s =
     (case home_action ev s of OpenLauncher \<Rightarrow> s\<lparr>prev_view := Home, current_view := Launcher\<rparr> | _ \<Rightarrow> s)"

text \<open>The icon that a touch of the launcher hits; it is only reported.\<close>

definition launcher_hit :: "touch \<Rightarrow> gui \<Rightarrow> nat option" where
  "launcher_hit ev s =
     (let col_gap = sint ((fb_width s - 100 - 352) div 3)
      in find (\<lambda>i. in_box ev (50 + int (i mod 4) * (88 + col_gap)) (128 + int (i div 4) * 152) 88 88) [0..<min (app_count s) 16])"

definition handle_launcher_touch :: "touch \<Rightarrow> gui \<Rightarrow> gui" where
  "handle_launcher_touch ev s = s"

definition handle_notification_touch :: "touch \<Rightarrow> gui \<Rightarrow> gui" where
  "handle_notification_touch ev s =
     (if t_event ev \<noteq> EVENT_DOWN then s
      else if in_box ev (sint (fb_width s div 2) - 80) (sint (fb_height s) - 160) 160 44
      then (gui_notify_clear_all s)\<lparr>current_view := Home\<rparr>
      else if t_y ev < 68 \<or> t_x ev < 20 \<or> fb_width s - 20 < t_x ev then s\<lparr>current_view := Home\<rparr>
      else s)"

definition handle_power_touch :: "touch \<Rightarrow> gui \<Rightarrow> gui" where
  "handle_power_touch ev s =
     (let cx = fb_width s div 2; mid = (cx - 160 < t_x ev \<and> t_x ev < cx + 160)
      in if t_event ev \<noteq> EVENT_DOWN then s
         else if mid \<and> 640 < t_y ev \<and> t_y ev < 696 then s
         else if mid \<and> 712 < t_y ev \<and> t_y ev < 768 then s
         else s\<lparr>current_view := Home\<rparr>)"

definition gui_handle_touch :: "touch \<Rightarrow> gui \<Rightarrow> gui" where
  "gui_handle_touch ev s =
     (if current_view s = Lock then fst (handle_pin_touch ev s)
      else if t_event ev = EVENT_DOWN \<and> t_y ev < 48 then s\<lparr>current_view := Notifications\<rparr>
      else if t_event ev = EVENT_DOWN \<and> fb_height s - 56 - 40 < t_y ev then
        (if current_view s \<in> {Notifications, Recent, Launcher} then s\<lparr>current_view := Home\<rparr> else s)
      else if t_event ev = EVENT_DOWN \<and> fb_height s - 56 < t_y ev then
        (let bw = tdiv (sint (fb_width s)) 3
         in if t_x ev < word_of_int bw then s\<lparr>current_view := prev_view s\<rparr>
            else if t_x ev < word_of_int (bw * 2) then s\<lparr>current_view := Home\<rparr>
            else s\<lparr>prev_view := current_view s, current_view := Recent\<rparr>)
      else (case current_view s of
              Home \<Rightarrow> handle_home_touch ev s
            | Launcher \<Rightarrow> handle_launcher_touch ev s
            | Notifications \<Rightarrow> handle_notification_touch ev s
            | Power \<Rightarrow> handle_power_touch ev s
            | _ \<Rightarrow> s))"

section \<open>Start\<close>

definition zero_notification :: notification where
  "zero_notification = \<lparr> n_id = 0, n_level = 0, n_app = '''', n_title = '''', n_message = '''', n_time = 0, n_color = 0 \<rparr>"

definition zero_app :: app_entry where
  "zero_app = \<lparr> a_name = '''', a_package = '''', a_icon = '''', a_color = 0, a_pid = 0 \<rparr>"

text \<open>\<open>display_clear\<close> of the frame buffer.\<close>

definition clear_screen :: "u32 \<Rightarrow> gfx \<Rightarrow> gfx option" where
  "clear_screen c g =
     (let n = unat (width g * height g) in if n \<le> length (fb g) then Some (g\<lparr>fb := replicate n c @ drop n (fb g)\<rparr>) else None)"

text \<open>\<open>gui_init\<close>: the display gives \<open>w\<close>, \<open>h\<close> and the frame buffer \<open>mem\<close>; the statics not assigned
  keep their values, after the start of the system \<open>pin_target\<close> 1234 and an empty buffer of notifications.\<close>

definition gui_init :: "u32 \<Rightarrow> u32 \<Rightarrow> u32 list \<Rightarrow> gui \<Rightarrow> gui option" where
  "gui_init w h mem s =
     (let s = s\<lparr>fb_width := w, fb_height := h, surfaces := replicate GUI_MAX_SURFACES zero_surface, surface_count := 0, focused := None,
                apps := replicate GUI_MAX_APPS zero_app, app_count := 0, lock_screen := True, pin_enabled := True, brightness := 100,
                fb_ctx := gfx_create_context mem w h\<rparr>;
          s = fold (\<lambda>i s. fst (gui_register_app (Some (app_names ! i)) (Some (app_packages ! i)) None (app_colors ! i) s)) [0..<16] s;
          s = s\<lparr>current_view := (if pin_enabled s then Lock else Home), pin_len := 0, pin_buffer := replicate 16 (CHR 0x00)\<rparr>
      in map_option (\<lambda>g. s\<lparr>fb_ctx := g\<rparr>) (clear_screen C_BLOODMOON_BG (fb_ctx s)))"

section \<open>Which codes can be typed\<close>

text \<open>The key at position \<open>i\<close> types \<open>i + 1\<close>, so the blank key types the character after 9.\<close>

definition key_char :: "nat \<Rightarrow> char" where
  "key_char d = char_of (48 + int d)"

fun no_zero :: "nat \<Rightarrow> bool" where
  "no_zero n = (if n < 10 then n \<noteq> 0 else n mod 10 \<noteq> 0 \<and> no_zero (n div 10))"

declare no_zero.simps [simp del]

definition typable :: "nat \<Rightarrow> bool" where
  "typable n \<longleftrightarrow> n = 0 \<or> n < 10000 \<and> no_zero n"

definition typed_value :: "nat list \<Rightarrow> nat" where
  "typed_value ds = foldl (\<lambda>a d. a * 10 + d) 0 (takeWhile (\<lambda>d. d < 10) ds)"

lemma no_zero_small: "n < 10 \<Longrightarrow> no_zero n \<longleftrightarrow> n \<noteq> 0"
  by (simp add: no_zero.simps)

lemma no_zero_digit: "0 < m \<Longrightarrow> d < 10 \<Longrightarrow> no_zero (m * 10 + d) \<longleftrightarrow> d \<noteq> 0 \<and> no_zero m"
  by (subst no_zero.simps) simp

lemma no_zero_digits:
  "0 < a \<Longrightarrow> b < 10 \<Longrightarrow> c < 10 \<Longrightarrow> no_zero (100 * a + b * 10 + c) \<longleftrightarrow> c \<noteq> 0 \<and> b \<noteq> 0 \<and> no_zero a"
  "0 < a \<Longrightarrow> b < 10 \<Longrightarrow> c < 10 \<Longrightarrow> d < 10 \<Longrightarrow>
    no_zero (1000 * a + 100 * b + c * 10 + d) \<longleftrightarrow> d \<noteq> 0 \<and> c \<noteq> 0 \<and> b \<noteq> 0 \<and> no_zero a"
  using no_zero_digit[of "a * 10 + b" c] no_zero_digit[of "(a * 10 + b) * 10 + c" d] no_zero_digit[of a b]
  by (simp_all add: algebra_simps)

lemma typed_four:
  "a < 10 \<Longrightarrow> b < 10 \<Longrightarrow> c < 10 \<Longrightarrow> d < 10 \<Longrightarrow> typed_value [a, b, c, d] = ((a * 10 + b) * 10 + c) * 10 + d"
  by (simp add: typed_value_def)

lemma key_char_code: "d \<le> 10 \<Longrightarrow> code (key_char d) = 48 + int d"
  by (simp add: key_char_def)

lemma key_char_nonzero:
  assumes "d \<le> 10"
  shows "CHR 0x00 \<noteq> key_char d"
proof
  assume d: "CHR 0x00 = key_char d"
  have "code (CHR 0x00) = 48 + int d"
    using key_char_code[OF assms] d by simp
  then show False
    by simp
qed

lemma atoi_keys:
  assumes "\<And>d. d \<in> {a, b, c, d'} \<Longrightarrow> 1 \<le> d \<and> d \<le> 10"
  shows "str_atoi (map key_char [a, b, c, d']) = Some (int (typed_value [a, b, c, d']))"
proof -
  have k: "code (key_char a) = 48 + int a" "code (key_char b) = 48 + int b"
    "code (key_char c) = 48 + int c" "code (key_char d') = 48 + int d'"
    using assms by (auto intro: key_char_code)
  show ?thesis
    using assms[of a] assms[of b] assms[of c] assms[of d']
    by (simp add: str_atoi_def k is_digit_def typed_value_def Let_def)
qed

lemma typed_value_typable:
  assumes "\<And>d. d \<in> {a, b, c, d'} \<Longrightarrow> 1 \<le> d \<and> d \<le> 10"
  shows "typable (typed_value [a, b, c, d'])"
proof -
  have r: "1 \<le> a" "a \<le> 10" "1 \<le> b" "b \<le> 10" "1 \<le> c" "c \<le> 10" "1 \<le> d'" "d' \<le> 10"
    using assms by auto
  consider "a = 10" | "a < 10" "b = 10" | "a < 10" "b < 10" "c = 10" | "a < 10" "b < 10" "c < 10" "d' = 10"
    | "a < 10" "b < 10" "c < 10" "d' < 10"
    using r by linarith
  then show ?thesis
    by cases (use r in \<open>simp_all add: typable_def typed_value_def no_zero_small no_zero_digit no_zero_digits\<close>)
qed

lemma typable_typed:
  assumes "typable n"
  shows "\<exists>a b c d. (\<forall>x\<in>{a, b, c, d}. 1 \<le> x \<and> x \<le> 10) \<and> typed_value [a, b, c, d] = n"
proof -
  consider "n = 0" | "0 < n" "n < 10" | "10 \<le> n" "n < 100" | "100 \<le> n" "n < 1000" | "1000 \<le> n" "n < 10000"
    using assms by (fastforce simp: typable_def)
  then show ?thesis
  proof cases
    case 1
    then show ?thesis
      by (intro exI[of _ 10]) (simp add: typed_value_def)
  next
    case 2
    then show ?thesis
      by (intro exI[of _ n] exI[of _ 10]) (simp add: typed_value_def)
  next
    case 3
    then have "n mod 10 \<noteq> 0" "n div 10 \<noteq> 0" "n div 10 < 10"
      using assms no_zero.simps[of n] by (auto simp: typable_def)
    then show ?thesis
      by (intro exI[of _ "n div 10"] exI[of _ "n mod 10"] exI[of _ 10]) (simp add: typed_value_def)
  next
    case 4
    define m where "m = n div 10"
    have "n mod 10 \<noteq> 0" "no_zero m" "10 \<le> m" "m < 100"
      using 4 assms no_zero.simps[of n] by (auto simp: typable_def m_def)
    moreover from this have "m mod 10 \<noteq> 0" "m div 10 \<noteq> 0" "m div 10 < 10"
      using no_zero.simps[of m] by auto
    ultimately show ?thesis
      by (intro exI[of _ "m div 10"] exI[of _ "m mod 10"] exI[of _ "n mod 10"] exI[of _ 10]) (simp add: typed_value_def m_def)
  next
    case 5
    define m where "m = n div 10"
    define k where "k = m div 10"
    have n: "n mod 10 \<noteq> 0" "no_zero m" "100 \<le> m" "m < 1000"
      using 5 assms no_zero.simps[of n] by (auto simp: typable_def m_def)
    then have m: "m mod 10 \<noteq> 0" "no_zero k" "10 \<le> k" "k < 100"
      using no_zero.simps[of m] by (auto simp: k_def)
    then have "k mod 10 \<noteq> 0" "k div 10 \<noteq> 0" "k div 10 < 10"
      using no_zero.simps[of k] by auto
    moreover have "typed_value [k div 10, k mod 10, m mod 10, n mod 10] = n"
    proof -
      have "typed_value [k div 10, k mod 10, m mod 10, n mod 10] = ((k div 10 * 10 + k mod 10) * 10 + m mod 10) * 10 + n mod 10"
        using \<open>k div 10 < 10\<close> by (intro typed_four) simp_all
      also have "\<dots> = (k * 10 + m mod 10) * 10 + n mod 10"
        by (simp only: div_mult_mod_eq)
      also have "\<dots> = n"
        by (simp only: k_def m_def div_mult_mod_eq)
      finally show ?thesis .
    qed
    ultimately show ?thesis
      using n m by (intro exI[of _ "k div 10"] exI[of _ "k mod 10"] exI[of _ "m mod 10"] exI[of _ "n mod 10"])
        (simp add: Suc_leI del: One_nat_def)
  qed
qed

text \<open>The state of the lock screen between touches.\<close>

definition key_chars :: "char set" where
  "key_chars = key_char ` {1..10}"

definition locked :: "gui \<Rightarrow> bool" where
  "locked s \<longleftrightarrow> current_view s = Lock \<and> pin_len s < 4 \<and> length (pin_buffer s) = 16
     \<and> set (take (pin_len s) (pin_buffer s)) \<subseteq> key_chars"

lemma four_keys:
  assumes "length cs = 4" "set cs \<subseteq> key_chars"
  shows "\<exists>v. str_atoi cs = Some (int v) \<and> typable v" "CHR 0x00 \<notin> set cs"
proof -
  have "cs \<in> map key_char ` lists {1..10}"
    using assms(2) unfolding key_chars_def lists_image[symmetric] by auto
  then obtain ds where ds: "cs = map key_char ds" "set ds \<subseteq> {1..10}"
    by auto
  then obtain a b c d where cs: "cs = map key_char [a, b, c, d]" "\<forall>x\<in>{a, b, c, d}. 1 \<le> x \<and> x \<le> 10"
    using assms(1) by (cases ds; cases "tl ds"; cases "tl (tl ds)"; cases "tl (tl (tl ds))") auto
  show "\<exists>v. str_atoi cs = Some (int v) \<and> typable v"
    using atoi_keys[of a b c d] typed_value_typable[of a b c d] cs by auto
  show "CHR 0x00 \<notin> set cs"
    using cs key_char_nonzero by auto
qed

lemma takeWhile_split: "CHR 0x00 \<notin> set xs \<Longrightarrow> takeWhile (\<lambda>c. c \<noteq> CHR 0x00) (xs @ CHR 0x00 # ys) = xs"
  by (subst takeWhile_append2) auto

lemma entered_full:
  assumes "length (pin_buffer s) = 16" "pin_buffer s ! 4 = CHR 0x00" "set (take 4 (pin_buffer s)) \<subseteq> key_chars"
  shows "\<exists>v. entered s = of_nat v \<and> typable v"
    "entered s = (case str_atoi (take 4 (pin_buffer s)) of None \<Rightarrow> 0 | Some v \<Rightarrow> word_of_int v)"
proof -
  have "pin_buffer s = take 4 (pin_buffer s) @ CHR 0x00 # drop 5 (pin_buffer s)"
    using id_take_nth_drop[of 4 "pin_buffer s"] assms(1,2) by simp
  moreover have keys: "length (take 4 (pin_buffer s)) = 4"
    using assms(1) by simp
  ultimately have shown: "takeWhile (\<lambda>c. c \<noteq> CHR 0x00) (pin_buffer s) = take 4 (pin_buffer s)"
    using takeWhile_split four_keys(2)[OF keys assms(3)] by metis
  show "entered s = (case str_atoi (take 4 (pin_buffer s)) of None \<Rightarrow> 0 | Some v \<Rightarrow> word_of_int v)"
    by (simp add: entered_def shown)
  then show "\<exists>v. entered s = of_nat v \<and> typable v"
    using four_keys(1)[OF keys assms(3)] by auto
qed

lemma press_digit:
  assumes "locked s" "i < 10"
  shows "pin_len (press_key i s) = pin_len s + 1" "length (pin_buffer (press_key i s)) = 16"
    "pin_buffer (press_key i s) ! (pin_len s + 1) = CHR 0x00"
    "take (pin_len s + 1) (pin_buffer (press_key i s)) = take (pin_len s) (pin_buffer s) @ [key_char (i + 1)]"
    "current_view (press_key i s) = Lock" "pin_target (press_key i s) = pin_target s"
  using assms by (auto simp: locked_def press_key_def key_char_def Let_def take_Suc_conv_app_nth)

lemma touch_locked:
  assumes "locked s" "\<not> typable (unat (pin_target s))"
  shows "locked (gui_handle_touch ev s) \<and> pin_target (gui_handle_touch ev s) = pin_target s"
proof (cases "snd (handle_pin_touch ev s)")
  case False
  then show ?thesis
    using assms by (auto simp: gui_handle_touch_def locked_def handle_pin_touch_def split: option.splits if_splits)
next
  case True
  then obtain i where i: "i < 12" "fst (handle_pin_touch ev s) = check_pin (press_key i s)"
  proof (cases "find (\<lambda>i. in_box ev (key_x s i) (key_y i) 90 72) [0..<12]")
    case None
    then show ?thesis
      using True by (simp add: handle_pin_touch_def split: if_splits)
  next
    case (Some i)
    then have "i < 12"
      by (auto simp: find_Some_iff)
    then show ?thesis
      using True Some that by (simp add: handle_pin_touch_def split: if_splits)
  qed
  then have touch: "gui_handle_touch ev s = check_pin (press_key i s)"
    using assms by (simp add: gui_handle_touch_def locked_def)
  show ?thesis
  proof (cases "i < 10")
    case False
    moreover have "set (take (pin_len s - Suc 0) ((pin_buffer s)[pin_len s - Suc 0 := CHR 0x00])) \<subseteq> key_chars"
      if "0 < pin_len s"
      using assms(1) set_take_subset_set_take[of "pin_len s - Suc 0" "pin_len s" "pin_buffer s"] by (auto simp: locked_def)
    ultimately show ?thesis
      using i(1) assms(1) touch by (auto simp: press_key_def Let_def check_pin_def locked_def)
  next
    case True
    note p = press_digit[OF assms(1) True]
    have "key_char (i + 1) \<in> key_chars"
      using True by (auto simp: key_chars_def)
    then have keys: "set (take (pin_len s + 1) (pin_buffer (press_key i s))) \<subseteq> key_chars"
      unfolding p(4) using assms(1) by (auto simp: locked_def)
    show ?thesis
    proof (cases "pin_len s = 3")
      case True
      then have "\<exists>v. entered (press_key i s) = of_nat v \<and> typable v"
        using p(2,3) keys by (intro entered_full) simp_all
      moreover have "unat (of_nat v :: u32) = v" if "typable v" for v
        using that by (auto simp: typable_def unat_of_nat)
      ultimately have "entered (press_key i s) \<noteq> pin_target (press_key i s)"
        using assms(2) p(6) by auto
      then show ?thesis
        using p True unfolding touch by (simp add: check_pin_def locked_def)
    next
      case False
      then show ?thesis
        using p keys assms(1) unfolding touch by (simp add: check_pin_def locked_def)
    qed
  qed
qed

lemma touches_locked:
  "locked s \<Longrightarrow> \<not> typable (unat (pin_target s)) \<Longrightarrow> locked (fold gui_handle_touch evs s)"
  by (induction evs arbitrary: s) (simp_all add: touch_locked)

text \<open>Touching the corner of a key, on a screen that has room for the keys.\<close>

definition key_touch :: "gui \<Rightarrow> nat \<Rightarrow> touch" where
  "key_touch s i = \<lparr> t_event = EVENT_DOWN, t_x = word_of_int (key_x s i), t_y = word_of_int (key_y i) \<rparr>"

lemma key_touch_width: "fb_width t = fb_width s \<Longrightarrow> key_touch t = key_touch s"
  by (simp add: key_touch_def key_x_def fun_eq_iff)

definition wide :: "gui \<Rightarrow> bool" where
  "wide s \<longleftrightarrow> 302 \<le> uint (fb_width s) \<and> uint (fb_width s) < 2 ^ 30"

lemma key_x_range:
  assumes "wide s"
  shows "0 \<le> key_x s i" "key_x s i < 2 ^ 30 + 1000"
proof -
  have half: "uint (fb_width s div 2) = uint (fb_width s) div 2"
    by (simp add: uint_div)
  have "uint (fb_width s) div 2 < 2 ^ 31"
    using assms by (clarsimp simp: wide_def) linarith
  then have "sint (fb_width s div 2) = uint (fb_width s) div 2"
    unfolding half[symmetric] by (rule sint_31)
  then have x: "key_x s i = uint (fb_width s) div 2 - 151 + int (i mod 3) * 106"
    by (simp add: key_x_def)
  have col: "int (i mod 3) \<le> 2"
    by simp
  show "0 \<le> key_x s i"
    using assms unfolding x by (clarsimp simp: wide_def)
  show "key_x s i < 2 ^ 30 + 1000"
    using assms col unfolding x by (clarsimp simp: wide_def) linarith
qed

lemma word_of_int_less:
  assumes "0 \<le> a" "a < 2 ^ 32" "0 \<le> b" "b < 2 ^ 32"
  shows "(word_of_int a :: u32) \<le> word_of_int b \<longleftrightarrow> a \<le> b" "(word_of_int a :: u32) < word_of_int b \<longleftrightarrow> a < b"
  using assms by (simp_all add: word_le_def word_less_def uint_word_of_int)

lemma key_hit:
  assumes "wide s" "i < 12"
  shows "find (\<lambda>j. in_box (key_touch s i) (key_x s j) (key_y j) 90 72) [0..<12] = Some i"
proof -
  have box: "in_box (key_touch s i) (key_x s j) (key_y j) 90 72 \<longleftrightarrow> i = j" if "j < 12" for j
  proof -
    have r: "0 \<le> key_x s i" "key_x s i < 2 ^ 32 - 90" "0 \<le> key_x s j" "key_x s j < 2 ^ 32 - 90"
      using key_x_range(1)[OF assms(1)] key_x_range(2)[OF assms(1), of i] key_x_range(2)[OF assms(1), of j]
      by simp_all
    have y: "0 \<le> key_y i" "key_y i < 2000" "0 \<le> key_y j" "key_y j < 2000"
      using assms(2) that by (simp_all add: key_y_def)
    have "in_box (key_touch s i) (key_x s j) (key_y j) 90 72 \<longleftrightarrow>
      key_x s j \<le> key_x s i \<and> key_x s i < key_x s j + 90 \<and> key_y j \<le> key_y i \<and> key_y i < key_y j + 72"
      unfolding in_box_def key_touch_def touch.simps using r y by (simp add: word_of_int_less del: of_int_add)
    also have "\<dots> \<longleftrightarrow> i mod 3 = j mod 3 \<and> i div 3 = j div 3"
      by (auto simp: key_x_def key_y_def)
    also have "\<dots> \<longleftrightarrow> i = j"
      by (metis div_mult_mod_eq)
    finally show ?thesis .
  qed
  then show ?thesis
    unfolding find_Some_iff using assms(2) by (intro exI[of _ i]) (auto simp del: upt_Suc)
qed

lemma touch_key:
  assumes "wide s" "i < 12" "current_view s = Lock"
  shows "gui_handle_touch (key_touch s i) s = check_pin (press_key i s)"
  using assms by (simp add: gui_handle_touch_def handle_pin_touch_def key_hit del: upt_Suc) (simp add: key_touch_def)

text \<open>A digit that does not complete the code.\<close>

lemma type_digit:
  assumes "wide s" "locked s" "pin_len s < 3" "1 \<le> d" "d \<le> 10"
  shows "locked (gui_handle_touch (key_touch s (d - 1)) s)" "wide (gui_handle_touch (key_touch s (d - 1)) s)"
    "pin_len (gui_handle_touch (key_touch s (d - 1)) s) = pin_len s + 1"
    "take (pin_len s + 1) (pin_buffer (gui_handle_touch (key_touch s (d - 1)) s)) = take (pin_len s) (pin_buffer s) @ [key_char d]"
    "pin_target (gui_handle_touch (key_touch s (d - 1)) s) = pin_target s"
    "key_touch (gui_handle_touch (key_touch s (d - 1)) s) = key_touch s"
proof -
  have i: "d - 1 < 10"
    using assms(4,5) by simp
  note p = press_digit[OF assms(2) i]
  have touch: "gui_handle_touch (key_touch s (d - 1)) s = press_key (d - 1) s"
    using touch_key[OF assms(1), of "d - 1"] i assms(2,3) p(1) by (simp add: check_pin_def locked_def)
  have width: "fb_width (press_key (d - 1) s) = fb_width s"
    by (simp add: press_key_def Let_def)
  show "wide (gui_handle_touch (key_touch s (d - 1)) s)"
    using assms(1) unfolding touch wide_def width .
  show "key_touch (gui_handle_touch (key_touch s (d - 1)) s) = key_touch s"
    unfolding touch by (rule key_touch_width[OF width])
  show "pin_len (gui_handle_touch (key_touch s (d - 1)) s) = pin_len s + 1"
    "take (pin_len s + 1) (pin_buffer (gui_handle_touch (key_touch s (d - 1)) s)) = take (pin_len s) (pin_buffer s) @ [key_char d]"
    "pin_target (gui_handle_touch (key_touch s (d - 1)) s) = pin_target s"
    using p assms(4) unfolding touch by simp_all
  have "key_char d \<in> key_chars"
    using assms(4,5) by (auto simp: key_chars_def)
  then show "locked (gui_handle_touch (key_touch s (d - 1)) s)"
    using p assms(2-4) unfolding touch by (auto simp: locked_def)
qed

lemma type_code:
  assumes "wide s" "locked s" "pin_len s = 0" "\<forall>x\<in>{a, b, c, d}. 1 \<le> x \<and> x \<le> 10"
    "unat (pin_target s) = typed_value [a, b, c, d]"
  shows "current_view (fold gui_handle_touch (map (\<lambda>x. key_touch s (x - 1)) [a, b, c, d]) s) = Home"
proof -
  define s1 where "s1 = gui_handle_touch (key_touch s (a - 1)) s"
  define s2 where "s2 = gui_handle_touch (key_touch s1 (b - 1)) s1"
  define s3 where "s3 = gui_handle_touch (key_touch s2 (c - 1)) s2"
  have r: "1 \<le> a" "a \<le> 10" "1 \<le> b" "b \<le> 10" "1 \<le> c" "c \<le> 10" "1 \<le> d" "d \<le> 10"
    using assms(4) by auto
  have l0: "pin_len s < 3"
    using assms(3) by simp
  note f1 = type_digit[OF assms(1,2) l0 r(1,2), folded s1_def]
  have l1: "pin_len s1 < 3"
    using f1(3) assms(3) by simp
  note f2 = type_digit[OF f1(2,1) l1 r(3,4), folded s2_def]
  have l2: "pin_len s2 < 3"
    using f2(3) f1(3) assms(3) by simp
  note f3 = type_digit[OF f2(2,1) l2 r(5,6), folded s3_def]
  have len: "pin_len s1 = 1" "pin_len s2 = 2" "pin_len s3 = 3"
    using f1(3) f2(3) f3(3) assms(3) by simp_all
  have buf: "take 3 (pin_buffer s3) = map key_char [a, b, c]"
    using f1(4) f2(4) f3(4) assms(3) len by (simp add: eval_nat_numeral)
  have i: "d - 1 < 10"
    using r(7,8) by simp
  note p = press_digit[OF f3(1) i]
  have four: "take 4 (pin_buffer (press_key (d - 1) s3)) = map key_char [a, b, c, d]"
    using p(4) buf len(3) r(7) by (simp add: eval_nat_numeral)
  have "set (map key_char [a, b, c, d]) \<subseteq> key_chars"
    using r by (auto simp: key_chars_def)
  then have "entered (press_key (d - 1) s3) = (case str_atoi (map key_char [a, b, c, d]) of None \<Rightarrow> 0 | Some v \<Rightarrow> word_of_int v)"
    using entered_full(2)[of "press_key (d - 1) s3"] p(2,3) len(3) four by simp
  also have "\<dots> = of_nat (typed_value [a, b, c, d])"
  proof -
    have "str_atoi (map key_char [a, b, c, d]) = Some (int (typed_value [a, b, c, d]))"
      by (rule atoi_keys) (use r in auto)
    then show ?thesis
      by (simp only: option.case of_int_of_nat_eq)
  qed
  also have "\<dots> = pin_target s"
    by (simp flip: assms(5))
  finally have "current_view (check_pin (press_key (d - 1) s3)) = Home"
    using p(1,6) len(3) f1(5) f2(5) f3(5) by (simp add: check_pin_def)
  moreover have "gui_handle_touch (key_touch s3 (d - 1)) s3 = check_pin (press_key (d - 1) s3)"
    using touch_key[OF f3(2), of "d - 1"] i f3(1) by (simp add: locked_def)
  moreover have "key_touch s1 = key_touch s" "key_touch s2 = key_touch s" "key_touch s3 = key_touch s"
    using f1(6) f2(6) f3(6) by simp_all
  ultimately show ?thesis
    by (simp add: s1_def s2_def s3_def)
qed

text \<open>
  C29: a locked screen can be opened by touching it exactly when the code is 0 or a number of at most four
  digits none of which is 0: the key 0 types nothing and the blank key ends the number.  A code
  with a zero, such as 1000, locks the owner out.
\<close>

theorem unlockable_codes:
  assumes "current_view s = Lock" "pin_len s = 0" "length (pin_buffer s) = 16" "wide s"
  shows "(\<exists>evs. current_view (fold gui_handle_touch evs s) \<noteq> Lock) \<longleftrightarrow> typable (unat (pin_target s))"
proof
  have "locked s"
    using assms by (simp add: locked_def)
  show "typable (unat (pin_target s))" if "\<exists>evs. current_view (fold gui_handle_touch evs s) \<noteq> Lock"
    using that touches_locked[OF \<open>locked s\<close>] by (auto simp: locked_def)
  show "\<exists>evs. current_view (fold gui_handle_touch evs s) \<noteq> Lock" if t: "typable (unat (pin_target s))"
  proof -
    obtain a b c d where "\<forall>x\<in>{a, b, c, d}. 1 \<le> x \<and> x \<le> 10" "typed_value [a, b, c, d] = unat (pin_target s)"
      using typable_typed[OF t] by blast
    from type_code[OF assms(4) \<open>locked s\<close> assms(2) this(1)] this(2) show ?thesis
      by (metis view.distinct(3))
  qed
qed

definition demo_gui :: gui where
  "demo_gui = \<lparr> fb_width = 1080, fb_height = 1920, fb_ctx = gfx_create_context [] 0 0, surfaces = replicate 32 zero_surface,
     surface_count = 0, focused = None, apps = replicate 64 zero_app, app_count = 0, lock_screen = True, pin_enabled = True,
     brightness = 100, current_view = Lock, prev_view = Home, pin_buffer = replicate 16 (CHR 0x00), pin_len = 0, pin_target = 1000,
     pin_failed = False, notif_buffer = replicate 16 zero_notification, notif_count = 0, notif_next_id = 1, gheap = small_heap \<rparr>"

theorem unlockable_codes_witness:
  "(\<forall>evs. current_view (fold gui_handle_touch evs demo_gui) = Lock)
   \<and> (\<exists>evs. current_view (fold gui_handle_touch evs (demo_gui\<lparr>pin_target := 1234\<rparr>)) \<noteq> Lock)"
proof -
  have "\<not> typable 1000" "typable 1234"
    by (simp_all add: typable_def no_zero.simps)
  then show ?thesis
    using unlockable_codes[of demo_gui] unlockable_codes[of "demo_gui\<lparr>pin_target := 1234\<rparr>"]
    by (simp add: demo_gui_def wide_def)
qed

section \<open>Around the lock screen\<close>

text \<open>
  C36: the power menu opens a locked screen without the code: it may be shown over the lock screen, and
  a touch beside its buttons leads to the home screen, with the screen still marked as locked.
\<close>

theorem power_menu_unlocks:
  assumes "current_view s = Lock" "200 \<le> fb_height s" "48 \<le> t_y ev" "t_y ev \<le> 100" "t_event ev = EVENT_DOWN"
  shows "current_view (gui_handle_touch ev (gui_show_power_menu s)) = Home
    \<and> lock_screen (gui_handle_touch ev (gui_show_power_menu s)) = lock_screen s
    \<and> pin_target (gui_handle_touch ev (gui_show_power_menu s)) = pin_target s"
proof -
  have "\<not> fb_height s - 56 - 40 < t_y ev"
    using assms(2,4) by (simp add: word_less_nat_alt word_le_nat_alt unat_sub_if')
  moreover have "\<not> t_y ev < 48" "\<not> 640 < t_y ev" "\<not> 712 < t_y ev"
    using assms(3,4) by (simp_all add: word_le_nat_alt word_less_nat_alt)
  moreover have "\<not> fb_height s - 56 < t_y ev"
    using assms(2,4) by (simp add: word_less_nat_alt word_le_nat_alt unat_sub_if')
  ultimately show ?thesis
    using assms(5) by (simp add: gui_handle_touch_def gui_show_power_menu_def handle_power_touch_def Let_def)
qed

theorem power_menu_unlocks_witness:
  "lock_screen demo_gui \<and> current_view demo_gui = Lock \<and>
   current_view (gui_handle_touch \<lparr> t_event = 0, t_x = 5, t_y = 60 \<rparr> (gui_show_power_menu demo_gui)) = Home"
  using power_menu_unlocks[of demo_gui "\<lparr> t_event = 0, t_x = 5, t_y = 60 \<rparr>"] by (simp add: demo_gui_def EVENT_DOWN_def)

text \<open>The recent applications are neither shown nor remembered.\<close>

definition no_recent :: "gui \<Rightarrow> bool" where
  "no_recent s \<longleftrightarrow> current_view s \<noteq> Recent \<and> prev_view s \<noteq> Recent \<and> 96 \<le> fb_height s"

lemma view_locked_touch:
  "current_view s = Lock \<Longrightarrow> current_view (fst (handle_pin_touch ev s)) \<in> {Lock, Home}
    \<and> prev_view (fst (handle_pin_touch ev s)) = prev_view s \<and> fb_height (fst (handle_pin_touch ev s)) = fb_height s"
  by (auto simp: handle_pin_touch_def check_pin_def press_key_def Let_def split: option.splits)

lemma strip_covers_bar:
  fixes h y :: u32
  assumes "96 \<le> h" "h - 56 < y"
  shows "h - 56 - 40 < y"
  using assms by (simp add: word_less_nat_alt word_le_nat_alt unat_sub_if')

lemma touch_no_recent: "no_recent s \<Longrightarrow> no_recent (gui_handle_touch ev s)"
  using view_locked_touch[of s ev] strip_covers_bar[of "fb_height s" "t_y ev"]
  by (cases "current_view s")
    (auto simp: no_recent_def gui_handle_touch_def handle_home_touch_def handle_launcher_touch_def
      handle_notification_touch_def gui_notify_clear_all_def handle_power_touch_def Let_def split: home_action.splits)

text \<open>
  The buttons of the navigation bar do nothing: the strip above it, which is tested first, covers it,
  so that no series of touches ever shows the recent applications.
\<close>

theorem recent_unreachable:
  assumes "96 \<le> fb_height s" "current_view s \<noteq> Recent" "prev_view s \<noteq> Recent"
  shows "current_view (fold gui_handle_touch evs s) \<noteq> Recent"
proof -
  have "no_recent s \<Longrightarrow> no_recent (fold gui_handle_touch evs s)"
    by (induction evs arbitrary: s) (simp_all add: touch_no_recent)
  then show ?thesis
    using assms by (simp add: no_recent_def)
qed

theorem recent_unreachable_witness:
  "current_view (fold gui_handle_touch [\<lparr> t_event = 0, t_x = 1000, t_y = 1900 \<rparr>] (demo_gui\<lparr>current_view := Home\<rparr>)) \<noteq> Recent"
  by (rule recent_unreachable) (simp_all add: demo_gui_def)

text \<open>The shortcuts of the home screen lie in the area that opens the launcher.\<close>

lemma shortcuts_unreachable:
  assumes "256 \<le> uint (fb_height s)" "uint (fb_height s) < 2 ^ 31"
  shows "home_action ev s \<noteq> QuickApp i"
proof -
  have "sint (fb_height s) = uint (fb_height s)"
    using assms(2) by (rule sint_31)
  then have "word_of_int (sint (fb_height s) - 216) = fb_height s - 216"
    by simp
  moreover have "fb_height s - 56 - 200 < t_y ev" if "fb_height s - 216 \<le> t_y ev"
    using that assms by (simp add: word_less_def word_le_def uint_word_ariths)
  ultimately show ?thesis
    by (auto simp: home_action_def Let_def split: option.splits)
qed

section \<open>Notifications\<close>

definition notif_list :: "gui \<Rightarrow> notification list" where
  "notif_list s = take (notif_count s) (notif_buffer s)"

definition notif_ok :: "gui \<Rightarrow> bool" where
  "notif_ok s \<longleftrightarrow> length (notif_buffer s) = GUI_NOTIFICATION_MAX \<and> notif_count s \<le> GUI_NOTIFICATION_MAX"

lemma shift_nth:
  assumes "m < length b" "i < length b"
  shows "fold (\<lambda>j b. b[j := b ! (j + 1)]) [k..<m] b ! i = (if k \<le> i \<and> i < m then b ! (i + 1) else b ! i)
    \<and> length (fold (\<lambda>j b. b[j := b ! (j + 1)]) [k..<m] b) = length b"
  using assms
proof (induction m arbitrary: i)
  case 0
  then show ?case by simp
next
  case (Suc m)
  define r where "r = fold (\<lambda>j b. b[j := b ! (j + 1)]) [k..<m] b"
  have r: "r ! j = (if k \<le> j \<and> j < m then b ! (j + 1) else b ! j)" "length r = length b" if "j < length b" for j
    using Suc.IH[of j] Suc.prems that by (simp_all add: r_def)
  show ?case
  proof (cases "k \<le> m")
    case True
    then have step: "fold (\<lambda>j b. b[j := b ! (j + 1)]) [k..<Suc m] b = r[m := r ! (m + 1)]"
      by (simp add: r_def)
    show ?thesis
      unfolding step using True r(1)[of i] r(1)[of "m + 1"] r(2)[of i] Suc.prems by (auto simp: nth_list_update less_Suc_eq)
  next
    case False
    then show ?thesis
      using Suc.prems by auto
  qed
qed

lemma shift_down:
  assumes "k < n" "n \<le> length b"
  shows "take (n - 1) (fold (\<lambda>j b. b[j := b ! (j + 1)]) [k..<n - 1] b) = take k b @ drop (Suc k) (take n b)"
    "length (fold (\<lambda>j b. b[j := b ! (j + 1)]) [k..<n - 1] b) = length b"
proof -
  have m: "n - 1 < length b"
    using assms by simp
  note s = shift_nth[OF m, of _ k]
  show "length (fold (\<lambda>j b. b[j := b ! (j + 1)]) [k..<n - 1] b) = length b"
    using s[of 0] assms by (cases b) auto
  then show "take (n - 1) (fold (\<lambda>j b. b[j := b ! (j + 1)]) [k..<n - 1] b) = take k b @ drop (Suc k) (take n b)"
    using s assms m by (intro nth_equalityI) (auto simp: nth_append min_def)
qed
















lemma filter_once:
  assumes "distinct (map f (xs @ x # ys))" "f x = i"
  shows "filter (\<lambda>n. f n \<noteq> i) (xs @ x # ys) = xs @ ys"
proof -
  have "i \<notin> f ` set xs" "i \<notin> f ` set ys"
    using assms by auto
  then have "filter (\<lambda>n. f n \<noteq> i) xs = xs" "filter (\<lambda>n. f n \<noteq> i) ys = ys"
    by (auto simp: filter_id_conv)
  then show ?thesis
    using assms(2) by simp
qed

text \<open>Dismissing a notification removes it and keeps the order of the others.\<close>

lemma notify_clear_list:
  assumes "notif_ok s" "distinct (map n_id (notif_list s))"
  shows "notif_list (gui_notify_clear i s) = filter (\<lambda>n. n_id n \<noteq> i) (notif_list s)"
proof (cases "find (\<lambda>k. n_id (notif_buffer s ! k) = i) [0..<notif_count s]")
  case None
  then have "\<forall>n\<in>set (notif_list s). n_id n \<noteq> i"
    using assms(1) by (fastforce simp: find_None_iff notif_list_def notif_ok_def in_set_conv_nth)
  then show ?thesis
    using None by (simp add: gui_notify_clear_def filter_id_conv)
next
  case (Some k)
  then have k: "k < notif_count s" "n_id (notif_buffer s ! k) = i"
    by (auto simp: find_Some_iff)
  have len: "notif_count s \<le> length (notif_buffer s)"
    using assms(1) by (simp add: notif_ok_def)
  have "notif_list (gui_notify_clear i s) = take k (notif_list s) @ drop (Suc k) (notif_list s)"
    using Some shift_down(1)[OF k(1) len] k(1) by (simp add: gui_notify_clear_def notif_list_def min_def)
  moreover have split: "notif_list s = take k (notif_list s) @ (notif_buffer s ! k) # drop (Suc k) (notif_list s)"
  proof -
    have "k < length (notif_list s)" "notif_list s ! k = notif_buffer s ! k"
      using k(1) len by (simp_all add: notif_list_def)
    then show ?thesis
      using id_take_nth_drop[of k "notif_list s"] by metis
  qed
  moreover have "filter (\<lambda>n. n_id n \<noteq> i) (notif_list s) = take k (notif_list s) @ drop (Suc k) (notif_list s)"
    using filter_once[of n_id "take k (notif_list s)" "notif_buffer s ! k" "drop (Suc k) (notif_list s)" i] assms(2) k(2) split
    by metis
  ultimately show ?thesis
    by simp
qed

end
