(* ===== verification/Screens.thy ===== *)
theory Screens
  imports Compositor Printk
begin

text \<open>
  What compositor.c draws: the lock screen, the home screen, the launcher, the bars, the notification
  panel, the recent applications and the power menu, as series of calls of the drawing routines of
  Gfx over the frame buffer.  The time of day is fixed in the code.  The positions on the screen are
  computed here in integers; for the screens of \<open>screen_ok\<close> (472 to \<open>2^14\<close> pixels wide, 200 to \<open>2^14\<close>
  high) none of these sums is near the bounds of \<open>int32_t\<close>.  The lemmas show that on such a screen a
  frame is drawn without leaving the frame buffer or the clip rectangle and without an overflow.
\<close>

section \<open>Series of drawing calls\<close>

definition seq :: "(gfx \<Rightarrow> gfx option) list \<Rightarrow> gfx \<Rightarrow> gfx option" where
  "seq fs = each (\<lambda>f. f) fs"

definition C_WHITE :: u32 where "C_WHITE = CRGB 255 255 255"
definition C_DKGRAY :: u32 where "C_DKGRAY = CRGB 64 64 64"
definition C_BLOODMOON_TEXT :: u32 where "C_BLOODMOON_TEXT = CRGB 230 220 240"
definition C_BLOODMOON_TEXT2 :: u32 where "C_BLOODMOON_TEXT2 = CRGB 160 150 170"

text \<open>\<open>snprintf\<close> into a local array, and the string it then holds.\<close>

definition printed :: "nat \<Rightarrow> string \<Rightarrow> arg list \<Rightarrow> string option" where
  "printed sz fmt args =
     map_option (\<lambda>(buf, n). takeWhile (\<lambda>c. c \<noteq> CHR 0x00) buf) (vsnprintf (replicate sz (CHR 0x00)) sz fmt args)"

definition with_text :: "string option \<Rightarrow> (string \<Rightarrow> gfx \<Rightarrow> gfx option) \<Rightarrow> gfx \<Rightarrow> gfx option" where
  "with_text t f g = (case t of None \<Rightarrow> None | Some str \<Rightarrow> f str g)"

section \<open>The lock screen\<close>

definition pin_keys :: "string list" where
  "pin_keys = [''1'', ''2'', ''3'', ''4'', ''5'', ''6'', ''7'', ''8'', ''9'', '''', ''0'', ''DEL'']"

definition gui_draw_pin_pad :: "int \<Rightarrow> gfx \<Rightarrow> gfx option" where
  "gui_draw_pin_pad cx =
     each (\<lambda>i. let kx = cx - 151 + int (i mod 3) * 106; ky = 700 + int (i div 3) * 88; k = pin_keys ! i
               in if k = '''' then Some
                  else seq [gfx_fill_rounded kx ky 90 72 16 (if k = ''DEL'' then C_DKGRAY else C_BLOODMOON_PANEL),
                            gfx_draw_text_center (kx + 45) (ky + 28) k C_WHITE 2]) [0..<12]"

definition gui_draw_lock_screen :: "gui \<Rightarrow> gfx \<Rightarrow> gfx option" where
  "gui_draw_lock_screen s =
     (let cx = sint (fb_width s div 2)
      in seq ([gfx_gradient_rect 0 0 (fb_width s) (fb_height s) \<lparr> color1 = CRGB 5 2 10, color2 = C_BLOODMOON_BG, vertical = True \<rparr>,
               gfx_draw_text_center cx 200 ''12:45'' C_WHITE 4,
               gfx_draw_text_center cx 290 ''Monday, May 13'' C_BLOODMOON_TEXT2 1,
               gfx_draw_text_center cx 420 ''Crimson OS'' C_CRIMSON 2,
               gfx_fill_rect (cx - 60) 455 120 2 C_CRIMSON] @
              (if pin_enabled s then
                 [gfx_draw_text_center cx 540 ''Enter PIN'' C_BLOODMOON_TEXT 2] @
                 map (\<lambda>i. gfx_fill_circle (cx - 80 + int i * 40 + 20) 620 10 (if i < pin_len s then C_CRIMSON else C_DKGRAY)) [0..<4] @
                 (if pin_failed s then [gfx_draw_text_center cx 660 ''Incorrect PIN'' C_RED 1] else []) @
                 [gui_draw_pin_pad cx,
                  gfx_draw_text_center cx (sint (fb_height s) - 100) ''Emergency'' C_CRIMSON 1]
               else [gfx_draw_text_center cx (sint (fb_height s) - 200) ''Swipe up to unlock'' C_BLOODMOON_TEXT2 1])))"

section \<open>Home screen and launcher\<close>

definition draw_icon :: "int \<Rightarrow> int \<Rightarrow> u32 \<Rightarrow> u32 \<Rightarrow> string \<Rightarrow> gfx \<Rightarrow> gfx option" where
  "draw_icon ix iy radius color name =
     seq [gfx_fill_rounded ix iy 88 88 radius color, gfx_draw_text_center (ix + 44) (iy + 36) (take 1 name) C_WHITE 2]"

definition quick_apps :: "nat list" where
  "quick_apps = [0, 1, 2, 15]"

definition gui_draw_home_screen :: "gui \<Rightarrow> gfx \<Rightarrow> gfx option" where
  "gui_draw_home_screen s =
     (let cx = sint (fb_width s div 2); qy = sint (fb_height s) - 216; qgap = sint ((fb_width s - 120 - 4 * 88) div 3)
      in seq ([gfx_gradient_rect 0 48 (fb_width s) (fb_height s - 48 - 56) \<lparr> color1 = CRGB 8 5 18, color2 = C_BLOODMOON_BG, vertical = True \<rparr>,
               gfx_fill_rounded 40 88 (fb_width s - 80) 200 24 0x18FFFFFF,
               gfx_draw_text_center cx 128 ''12:45'' C_WHITE 3,
               gfx_draw_text_center cx 198 ''Monday, May 13'' C_BLOODMOON_TEXT2 1] @
              map (\<lambda>i. let qx = 60 + int i * (88 + qgap); a = quick_apps ! i
                       in seq [draw_icon qx qy 20 (gfx_darken (app_colors ! a) 80) (app_names ! a),
                               gfx_draw_text_center (qx + 44) (qy + 96) (app_names ! a) C_BLOODMOON_TEXT2 1]) [0..<4]))"

definition gui_draw_app_launcher :: "gui \<Rightarrow> gfx \<Rightarrow> gfx option" where
  "gui_draw_app_launcher s =
     (let cx = sint (fb_width s div 2); col_gap = sint ((fb_width s - 100 - 352) div 3)
      in seq ([gfx_fill_rect 0 48 (fb_width s) (fb_height s - 48 - 56) C_BLOODMOON_BG,
               gfx_draw_text_center cx 72 ''Apps'' C_WHITE 2] @
              map (\<lambda>i. let ix = 50 + int (i mod 4) * (88 + col_gap); iy = 128 + int (i div 4) * 152;
                           tx = ix + tdiv (88 - sint (gfx_text_width (app_names ! i) 1)) 2
                       in seq [draw_icon ix iy 22 (app_colors ! i) (app_names ! i),
                               gfx_draw_text tx (iy + 96) (app_names ! i) C_BLOODMOON_TEXT2 1]) [0..<min (app_count s) 16] @
              [gfx_fill_rounded (cx - 20) (sint (fb_height s) - 56 - 30) 40 4 2 C_DKGRAY]))"

section \<open>The bars\<close>

definition gui_draw_status_bar :: "gui \<Rightarrow> gfx \<Rightarrow> gfx option" where
  "gui_draw_status_bar s =
     (let sx = tdiv (sint (fb_width s)) 2 - 40; bx = sint (fb_width s) - 60
      in seq ([gfx_fill_rect 0 0 (fb_width s) 48 0xD8000000,
               gfx_draw_text 20 14 ''12:45'' C_WHITE 1] @
              map (\<lambda>i. gfx_fill_rect (sx + int i * 10) (38 - (6 + int i * 4)) 6 (6 + of_nat i * 4) (if i < 3 then C_WHITE else C_DKGRAY)) [0..<4] @
              [gfx_rounded_rect bx 14 36 18 3 C_WHITE,
               gfx_fill_rect (bx + 2) 16 28 14 C_GREEN,
               gfx_fill_rect (bx + 36) 18 4 10 C_WHITE] @
              (if 0 < notif_count s then
                 [with_text (printed 4 ''%u'' [Num (of_nat (notif_count s))])
                    (\<lambda>nb. seq [gfx_fill_circle (sint (fb_width s) - 100) 20 10 C_CRIMSON,
                               gfx_draw_text_center (sint (fb_width s) - 100) 12 nb C_WHITE 1])]
               else []) @
              [gfx_fill_rect 0 47 (fb_width s) 1 0x10FFFFFF]))"

definition gui_draw_nav_bar :: "gui \<Rightarrow> gfx \<Rightarrow> gfx option" where
  "gui_draw_nav_bar s =
     (let ny = sint (fb_height s) - 56; bw = tdiv (sint (fb_width s)) 3
      in seq [gfx_fill_rect 0 ny (fb_width s) 56 0xE0000000,
              gfx_draw_text_center (tdiv bw 2) (ny + 16) ''<'' C_WHITE 2,
              gfx_circle (bw + tdiv bw 2) (ny + 28) 12 C_WHITE,
              gfx_rect (2 * bw + tdiv bw 2 - 10) (ny + 12) 20 20 C_WHITE,
              gfx_fill_rect 0 ny (fb_width s) 1 0x10FFFFFF])"

section \<open>Notifications\<close>

definition age_text :: "u32 \<Rightarrow> string option" where
  "age_text age =
     (if age < 60 then printed 16 ''%us ago'' [Num (ucast age)]
      else if age < 3600 then printed 16 ''%um ago'' [Num (ucast (age div 60))]
      else printed 16 ''%uh ago'' [Num (ucast (age div 3600))])"

definition draw_notification :: "gui \<Rightarrow> u64 \<Rightarrow> u32 \<Rightarrow> nat \<Rightarrow> gfx \<Rightarrow> gfx option" where
  "draw_notification s now pw i =
     (let n = notif_buffer s ! i; ny = 148 + 84 * int i
      in seq [gfx_fill_rounded 40 ny (pw - 40) 70 12 0x10FFFFFF,
              gfx_fill_circle 65 (ny + 35) 8 (n_color n),
              gfx_draw_text 85 (ny + 8) (n_title n) C_WHITE 1,
              gfx_draw_text 85 (ny + 32) (n_message n) C_BLOODMOON_TEXT2 1,
              with_text (age_text (ucast (now - n_time n)))
                (\<lambda>ts. gfx_draw_text_right (sint (fb_width s - 60)) (ny + 8) ts C_DKGRAY 1)])"

definition gui_draw_notification_panel :: "gui \<Rightarrow> u64 \<Rightarrow> gfx \<Rightarrow> gfx option" where
  "gui_draw_notification_panel s now =
     (let pw = fb_width s - 40; ph = fb_height s - 200; cx = sint (fb_width s div 2)
      in seq ([gfx_fill_rect 0 0 (fb_width s) (fb_height s) 0xB0000000,
               gfx_fill_rounded 20 68 pw ph 24 C_BLOODMOON_PANEL,
               gfx_draw_text_center cx 88 ''Notifications'' C_WHITE 2,
               gfx_fill_rect 60 123 (fb_width s - 120) 1 0x10FFFFFF] @
              (if notif_count s = 0
               then [gfx_draw_text_center cx (sint (48 + ph div 2)) ''No notifications'' C_LTGRAY 1]
               else map (draw_notification s now pw) [0..<min (notif_count s) 6]) @
              [gfx_fill_rounded (cx - 80) (sint (fb_height s) - 160) 160 44 22 C_DKGRAY,
               gfx_draw_text_center cx (sint (fb_height s) - 152) ''Clear All'' C_WHITE 1]))"

definition gui_draw_notification_badge :: "gui \<Rightarrow> gfx \<Rightarrow> gfx option" where
  "gui_draw_notification_badge s =
     (if notif_count s = 0 then Some
      else (let n = notif_buffer s ! (notif_count s - 1)
            in seq [gfx_fill_rounded 10 53 (fb_width s - 20) 60 16 0xE0202030,
                    gfx_fill_circle 35 83 10 (n_color n),
                    gfx_draw_text 55 60 (n_app n) C_WHITE 1,
                    gfx_draw_text 55 82 (n_message n) C_BLOODMOON_TEXT2 1]))"

section \<open>Recent applications and power menu\<close>

text \<open>The cards of the visible surfaces, each 176 pixels below the one before.\<close>

definition card_surfaces :: "gui \<Rightarrow> surface list" where
  "card_surfaces s = filter (\<lambda>f. s_state f = Visible) (map (\<lambda>i. surfaces s ! i) [0..<min (surface_count s) GUI_MAX_SURFACES])"

definition draw_card :: "gui \<Rightarrow> int \<times> surface \<Rightarrow> gfx \<Rightarrow> gfx option" where
  "draw_card s c =
     seq [gfx_fill_rounded 30 (fst c) (fb_width s - 60) 160 16 0x18FFFFFF,
          gfx_draw_text 50 (fst c + 16) (s_title (snd c)) C_WHITE 1,
          gfx_draw_text 50 (fst c + 44) ''PID: '' C_BLOODMOON_TEXT2 1]"

definition gui_draw_recent_apps :: "gui \<Rightarrow> gfx \<Rightarrow> gfx option" where
  "gui_draw_recent_apps s =
     (let cx = sint (fb_width s div 2)
      in seq ([gfx_fill_rect 0 48 (fb_width s) (fb_height s - 48 - 56) C_BLOODMOON_BG,
               gfx_draw_text_center cx 88 ''Recent Apps'' C_WHITE 2] @
              (if surface_count s = 0
               then [gfx_draw_text_center cx (sint (fb_height s div 2)) ''No recent apps'' C_LTGRAY 1]
               else map (draw_card s) (zip (map (\<lambda>k. 148 + 176 * int k) [0..<length (card_surfaces s)]) (card_surfaces s)))))"

definition gui_draw_power_menu :: "gui \<Rightarrow> gfx \<Rightarrow> gfx option" where
  "gui_draw_power_menu s =
     (let cx = fb_width s div 2
      in seq [gfx_fill_rect 0 0 (fb_width s) (fb_height s) 0xD0000000,
              gfx_fill_rounded (sint (cx - 200)) 600 400 340 24 C_BLOODMOON_PANEL,
              gfx_fill_rounded (sint (cx - 160)) 640 320 56 12 C_CRIMSON,
              gfx_draw_text_center (sint cx) 660 ''Power Off'' C_WHITE 2,
              gfx_fill_rounded (sint (cx - 160)) 712 320 56 12 C_DKGRAY,
              gfx_draw_text_center (sint cx) 732 ''Restart'' C_WHITE 2,
              gfx_fill_rounded (sint (cx - 160)) 784 320 56 12 C_DKGRAY,
              gfx_draw_text_center (sint cx) 804 ''Screenshot'' C_WHITE 2,
              gfx_draw_text_center (sint cx) 870 ''Cancel'' C_BLOODMOON_TEXT2 1])"

section \<open>A frame\<close>

definition draw_view :: "gui \<Rightarrow> u64 \<Rightarrow> gfx \<Rightarrow> gfx option" where
  "draw_view s now =
     (case current_view s of
        Lock \<Rightarrow> gui_draw_lock_screen s
      | Home \<Rightarrow> gui_draw_home_screen s
      | Launcher \<Rightarrow> gui_draw_app_launcher s
      | Notifications \<Rightarrow> gui_draw_notification_panel s now
      | Recent \<Rightarrow> gui_draw_recent_apps s
      | Power \<Rightarrow> gui_draw_power_menu s)"

definition gui_render_frame :: "u64 \<Rightarrow> gui \<Rightarrow> gui option" where
  "gui_render_frame now s =
     map_option (\<lambda>g. s\<lparr>fb_ctx := g\<rparr>)
       (seq ([gfx_fill_rect 0 0 (fb_width s) (fb_height s) C_BLOODMOON_BG, draw_view s now] @
             (if current_view s \<noteq> Lock then [gui_draw_status_bar s, gui_draw_nav_bar s] else []) @
             (if 0 < notif_count s \<and> current_view s \<noteq> Notifications then [gui_draw_notification_badge s] else []))
         (fb_ctx s))"

section \<open>Every frame stays in the clip rectangle\<close>

text \<open>The screens and texts for which a frame is drawn: the dimensions, arrays of their sizes, and texts
  no longer than their fields.\<close>

definition screen_ok :: "gui \<Rightarrow> bool" where
  "screen_ok s \<longleftrightarrow> 472 \<le> uint (fb_width s) \<and> uint (fb_width s) \<le> 2 ^ 14
     \<and> 200 \<le> uint (fb_height s) \<and> uint (fb_height s) \<le> 2 ^ 14 \<and> notif_ok s
     \<and> (\<forall>n\<in>set (notif_buffer s). length (n_app n) \<le> 255 \<and> length (n_title n) \<le> 255 \<and> length (n_message n) \<le> 255)
     \<and> length (surfaces s) = GUI_MAX_SURFACES \<and> (\<forall>f\<in>set (surfaces s). length (s_title f) \<le> 255)"

text \<open>The dimensions of such a screen, as the code uses them.\<close>

lemma half_sint:
  fixes w :: u32
  assumes "uint w \<le> 2 ^ 14"
  shows "sint w = uint w" "0 \<le> sint (w div 2)" "sint (w div 2) \<le> 2 ^ 13"
proof -
  show "sint w = uint w"
    using assms by (intro sint_31) simp
  have "uint (w div 2) = uint w div 2"
    by (simp add: uint_div)
  moreover have "0 \<le> uint w"
    by (rule uint_nonnegative)
  moreover have "uint w \<le> 16384"
    using assms by simp
  ultimately have "0 \<le> uint (w div 2)" "uint (w div 2) \<le> 8192"
    by linarith+
  then have u: "0 \<le> uint (w div 2)" "uint (w div 2) \<le> 2 ^ 13"
    by simp_all
  then have "sint (w div 2) = uint (w div 2)"
    by (intro sint_31) simp
  then show "0 \<le> sint (w div 2)" "sint (w div 2) \<le> 2 ^ 13"
    using u by simp_all
qed

lemma dims:
  assumes "screen_ok s"
  shows "472 \<le> sint (fb_width s)" "sint (fb_width s) \<le> 16384" "200 \<le> sint (fb_height s)" "sint (fb_height s) \<le> 16384"
    "0 \<le> sint (fb_width s div 2)" "sint (fb_width s div 2) \<le> 8192"
    "0 \<le> sint (fb_height s div 2)" "sint (fb_height s div 2) \<le> 8192"
  using assms half_sint[of "fb_width s"] half_sint[of "fb_height s"] by (simp_all add: screen_ok_def)

lemma dims_sub:
  assumes "screen_ok s"
  shows "sint (fb_width s - 80) = sint (fb_width s) - 80" "sint (fb_width s - 60) = sint (fb_width s) - 60"
    "sint (fb_width s - 40) = sint (fb_width s) - 40" "sint (fb_width s - 20) = sint (fb_width s) - 20"
    "sint (fb_width s - 120) = sint (fb_width s) - 120" "sint (fb_width s - 40 - 40) = sint (fb_width s) - 80"
    "sint (fb_height s - 200) = sint (fb_height s) - 200" "sint (fb_height s - 48 - 56) = sint (fb_height s) - 104"
    "sint (fb_width s div 2 - 200) = sint (fb_width s div 2) - 200" "sint (fb_width s div 2 - 160) = sint (fb_width s div 2) - 160"
  using dims[OF assms] by (simp_all add: sint_exact(3) int32_iff)

lemma height_rows:
  assumes "screen_ok s"
  shows "fb_height s \<noteq> 1" "fb_height s - 48 - 56 \<noteq> 1" "unat (fb_height s) \<le> 2 ^ 20" "unat (fb_height s - 48 - 56) \<le> 2 ^ 20"
proof -
  show "fb_height s \<noteq> 1" "fb_height s - 48 - 56 \<noteq> 1"
    using dims(3)[OF assms] dims_sub(8)[OF assms] by auto
  have "unat w \<le> 2 ^ 20" if "0 \<le> sint w" "sint w \<le> 2 ^ 14" for w :: u32
  proof -
    have "uint w \<le> 2 ^ 14"
      using that sint_positive[of w] by (cases "w = 0") (auto simp: order_le_less signed_eq_0_iff)
    then have "int (unat w) \<le> int (2 ^ 14)"
      by simp
    then have "unat w \<le> 2 ^ 14"
      by (simp only: of_nat_le_iff)
    then show ?thesis
      by simp
  qed
  from this[of "fb_height s"] this[of "fb_height s - 48 - 56"]
  show "unat (fb_height s) \<le> 2 ^ 20" "unat (fb_height s - 48 - 56) \<le> 2 ^ 20"
    using dims(3,4)[OF assms] dims_sub(8)[OF assms] by simp_all
qed

lemma draws_seq [draws]: "gfx_ok g \<Longrightarrow> (\<And>f t. f \<in> set fs \<Longrightarrow> gfx_ok t \<Longrightarrow> draws t (f t)) \<Longrightarrow> draws g (seq fs g)"
  unfolding seq_def by (rule draws_each) auto

lemmas ranges = near_iff far_iff int32_iff

lemma pin_key_length: "i < 12 \<Longrightarrow> length (pin_keys ! i) \<le> 3"
proof -
  have "\<forall>k\<in>set pin_keys. length k \<le> 3" "length pin_keys = 12"
    by (simp_all add: pin_keys_def)
  then show "i < 12 \<Longrightarrow> length (pin_keys ! i) \<le> 3"
    using nth_mem by metis
qed

lemma app_name_length: "i < 16 \<Longrightarrow> length (app_names ! i) \<le> 8"
proof -
  have "\<forall>k\<in>set app_names. length k \<le> 8" "length app_names = 16"
    by (simp_all add: app_names_def)
  then show "i < 16 \<Longrightarrow> length (app_names ! i) \<le> 8"
    using nth_mem by metis
qed

lemma pin_pad_draws:
  assumes "gfx_ok g" "0 \<le> cx" "cx \<le> 8192"
  shows "draws g (gui_draw_pin_pad cx g)"
  unfolding gui_draw_pin_pad_def
proof (rule draws_each[OF assms(1)])
  fix i t
  assume "i \<in> set [0..<12]" and t: "gfx_ok t"
  then have i: "i mod 3 \<le> 2" "i div 3 \<le> 3" "length (pin_keys ! i) \<le> 3"
    using pin_key_length by auto
  define a b where "a = int (i mod 3) * 106" and "b = int (i div 3) * 88"
  have ab: "0 \<le> a" "a \<le> 212" "0 \<le> b" "b \<le> 264"
    unfolding a_def b_def using i(1,2) by simp_all
  show "draws t ((let kx = cx - 151 + int (i mod 3) * 106; ky = 700 + int (i div 3) * 88; k = pin_keys ! i
     in if k = '''' then Some
        else seq [gfx_fill_rounded kx ky 90 72 16 (if k = ''DEL'' then C_DKGRAY else C_BLOODMOON_PANEL),
                  gfx_draw_text_center (kx + 45) (ky + 28) k C_WHITE 2]) t)"
    unfolding a_def[symmetric] b_def[symmetric] Let_def
    using ab i(3) assms(2,3) by (auto simp: ranges intro!: draws_seq[OF t] fill_rounded_draws text_center_draws)
qed

lemma lock_screen_draws:
  assumes "gfx_ok g" "screen_ok s"
  shows "draws g (gui_draw_lock_screen s g)"
  unfolding gui_draw_lock_screen_def Let_def using dims[OF assms(2)] height_rows[OF assms(2)]
  by (intro draws_seq[OF assms(1)])
    (auto simp: ranges simp del: upt_Suc split: if_splits intro!: draws pin_pad_draws)

lemma icon_draws:
  assumes "gfx_ok g" "near ix" "near iy" "near (ix + 44)" "near (iy + 36)" "uint r \<le> 2 ^ 20"
  shows "draws g (draw_icon ix iy r c n g)"
proof -
  have "length (take 1 n) * 8 * unat (2 :: u32) \<le> 2 ^ 23"
    by (simp add: min_def)
  then show ?thesis
    unfolding draw_icon_def using assms(2-6)
    by (intro draws_seq[OF assms(1)]) (auto simp: near_iff far_iff intro!: fill_rounded_draws text_center_draws)
qed

text \<open>The gaps between the icons of a row.\<close>

lemma gap_sint:
  fixes w :: u32
  assumes "0 \<le> sint w" "sint w \<le> 2 ^ 14"
  shows "0 \<le> sint (w div 3)" "sint (w div 3) \<le> 5462"
proof -
  have u: "uint w \<le> 16384" "0 \<le> uint w"
    using assms sint_positive[of w] by (cases "w = 0"; auto simp: order_le_less signed_eq_0_iff)+
  have "uint (w div 3) = uint w div 3"
    by (simp add: uint_div)
  then have d: "0 \<le> uint (w div 3)" "uint (w div 3) \<le> 5462"
    using u by linarith+
  then have "sint (w div 3) = uint (w div 3)"
    by (intro sint_31) simp
  then show "0 \<le> sint (w div 3)" "sint (w div 3) \<le> 5462"
    using d by simp_all
qed

lemma gaps:
  assumes "screen_ok s"
  shows "0 \<le> sint ((fb_width s - 120 - 4 * 88) div 3)" "sint ((fb_width s - 120 - 4 * 88) div 3) \<le> 5462"
    "0 \<le> sint ((fb_width s - 100 - 352) div 3)" "sint ((fb_width s - 100 - 352) div 3) \<le> 5462"
proof -
  have "sint (fb_width s - 120 - 4 * 88) = sint (fb_width s) - 472" "sint (fb_width s - 100 - 352) = sint (fb_width s) - 452"
    using dims(1,2)[OF assms] by (simp_all add: sint_exact(3) int32_iff)
  then show "0 \<le> sint ((fb_width s - 120 - 4 * 88) div 3)" "sint ((fb_width s - 120 - 4 * 88) div 3) \<le> 5462"
    "0 \<le> sint ((fb_width s - 100 - 352) div 3)" "sint ((fb_width s - 100 - 352) div 3) \<le> 5462"
    using dims(1,2)[OF assms] by (auto intro!: gap_sint)
qed

lemma step_range:
  assumes "i \<le> (3 :: nat)" "0 \<le> (g :: int)" "g \<le> 5462"
  shows "0 \<le> int i * (88 + g)" "int i * (88 + g) \<le> 16650"
  using mult_mono[of "int i" 3 "88 + g" 5550] assms by auto

lemma home_screen_draws:
  assumes "gfx_ok g" "screen_ok s"
  shows "draws g (gui_draw_home_screen s g)"
proof -
  define gap where "gap = sint ((fb_width s - 120 - 4 * 88) div 3)"
  have icon: "draws t (let qx = 60 + int i * (88 + gap); a = quick_apps ! i
      in seq [draw_icon qx (sint (fb_height s) - 216) 20 (gfx_darken (app_colors ! a) 80) (app_names ! a),
              gfx_draw_text_center (qx + 44) (sint (fb_height s) - 216 + 96) (app_names ! a) C_BLOODMOON_TEXT2 1] t)"
    if t: "gfx_ok t" and i: "i < 4" for t i
  proof -
    define p where "p = int i * (88 + gap)"
    have p: "0 \<le> p" "p \<le> 16650"
      unfolding p_def gap_def using step_range[OF _ gaps(1,2)[OF assms(2)], of i] i by auto
    have "\<forall>k\<in>set quick_apps. k < 16" "length quick_apps = 4"
      by (simp_all add: quick_apps_def)
    then have "quick_apps ! i < 16"
      using i nth_mem by metis
    then have "length (app_names ! (quick_apps ! i)) \<le> 8"
      by (rule app_name_length)
    then show ?thesis
      unfolding Let_def p_def[symmetric] using p dims[OF assms(2)]
      by (intro draws_seq[OF t]) (auto simp: ranges intro!: icon_draws text_center_draws)
  qed
  define icons where "icons = map (\<lambda>i. seq [draw_icon (60 + int i * (88 + gap)) (sint (fb_height s) - 216) 20
      (gfx_darken (app_colors ! (quick_apps ! i)) 80) (app_names ! (quick_apps ! i)),
    gfx_draw_text_center (60 + int i * (88 + gap) + 44) (sint (fb_height s) - 216 + 96) (app_names ! (quick_apps ! i))
      C_BLOODMOON_TEXT2 1]) [0..<4]"
  have "draws t (f t)" if "f \<in> set icons" "gfx_ok t" for f t
    using that icon[unfolded Let_def] by (auto simp: icons_def simp del: upt_Suc)
  then show ?thesis
    unfolding gui_draw_home_screen_def Let_def gap_def[symmetric] icons_def[symmetric]
    using dims[OF assms(2)] height_rows[OF assms(2)] dims_sub[OF assms(2)]
    by (intro draws_seq[OF assms(1)]) (auto simp: ranges intro!: draws)
qed

lemma launcher_draws:
  assumes "gfx_ok g" "screen_ok s"
  shows "draws g (gui_draw_app_launcher s g)"
proof -
  define gap where "gap = sint ((fb_width s - 100 - 352) div 3)"
  have icon: "draws t (let ix = 50 + int (i mod 4) * (88 + gap); iy = 128 + int (i div 4) * 152;
          tx = ix + tdiv (88 - sint (gfx_text_width (app_names ! i) 1)) 2
      in seq [draw_icon ix iy 22 (app_colors ! i) (app_names ! i),
              gfx_draw_text tx (iy + 96) (app_names ! i) C_BLOODMOON_TEXT2 1] t)"
    if t: "gfx_ok t" and i: "i < 16" for t i
  proof -
    define p where "p = int (i mod 4) * (88 + gap)"
    define q where "q = int (i div 4) * 152"
    define m where "m = tdiv (88 - sint (gfx_text_width (app_names ! i) 1)) 2"
    have p: "0 \<le> p" "p \<le> 16650"
      unfolding p_def gap_def using step_range[OF _ gaps(3,4)[OF assms(2)], of "i mod 4"] by auto
    have q: "0 \<le> q" "q \<le> 456"
      unfolding q_def using i by simp_all
    have len: "length (app_names ! i) \<le> 8"
      by (rule app_name_length[OF i])
    then have "0 \<le> sint (gfx_text_width (app_names ! i) 1)" "sint (gfx_text_width (app_names ! i) 1) \<le> 2 ^ 23"
      using text_width_range(1,2)[of "app_names ! i" 1] by auto
    moreover have "gfx_text_width (app_names ! i) 1 = of_nat (length (app_names ! i) * 8)"
      by (simp add: gfx_text_width_def)
    ultimately have "0 \<le> sint (gfx_text_width (app_names ! i) 1)" "sint (gfx_text_width (app_names ! i) 1) \<le> 64"
      using sint_of_nat[of "length (app_names ! i) * 8"] len by simp_all
    then have m: "0 \<le> m" "m \<le> 44"
      unfolding m_def tdiv_def by auto
    show ?thesis
      unfolding Let_def p_def[symmetric] q_def[symmetric] m_def[symmetric] using p q m len
      by (intro draws_seq[OF t]) (auto simp: ranges intro!: icon_draws draw_text_draws)
  qed
  define icons where "icons = map (\<lambda>i. seq [draw_icon (50 + int (i mod 4) * (88 + gap)) (128 + int (i div 4) * 152) 22
      (app_colors ! i) (app_names ! i),
    gfx_draw_text (50 + int (i mod 4) * (88 + gap) + tdiv (88 - sint (gfx_text_width (app_names ! i) 1)) 2)
      (128 + int (i div 4) * 152 + 96) (app_names ! i) C_BLOODMOON_TEXT2 1]) [0..<min (app_count s) 16]"
  have "draws t (f t)" if "f \<in> set icons" "gfx_ok t" for f t
    using that icon[unfolded Let_def] by (auto simp: icons_def simp del: upt_Suc of_nat_mod of_nat_div)
  then show ?thesis
    unfolding gui_draw_app_launcher_def Let_def gap_def[symmetric] icons_def[symmetric]
    using dims[OF assms(2)] dims_sub[OF assms(2)]
    by (intro draws_seq[OF assms(1)]) (auto simp: ranges intro!: draws)
qed

lemma nav_bar_draws:
  assumes "gfx_ok g" "screen_ok s"
  shows "draws g (gui_draw_nav_bar s g)"
proof -
  define bw where "bw = tdiv (sint (fb_width s)) 3"
  define hb where "hb = tdiv bw 2"
  have b: "0 \<le> bw" "bw \<le> 5462" "0 \<le> hb" "hb \<le> 2731"
    unfolding hb_def bw_def tdiv_def using dims(1,2)[OF assms(2)] by auto
  show ?thesis
    unfolding gui_draw_nav_bar_def Let_def bw_def[symmetric] hb_def[symmetric]
    using dims[OF assms(2)] b by (intro draws_seq[OF assms(1)]) (auto simp: ranges intro!: draws)
qed

lemma recent_draws:
  assumes "gfx_ok g" "screen_ok s"
  shows "draws g (gui_draw_recent_apps s g)"
proof -
  have card: "draws t (draw_card s (148 + 176 * int k, f) t)" if "gfx_ok t" "k < 32" "length (s_title f) \<le> 255" for t k f
    unfolding draw_card_def using dims[OF assms(2)] dims_sub[OF assms(2)] that(2,3)
    by (intro draws_seq[OF that(1)]) (auto simp: ranges intro!: draws)
  have "\<forall>f\<in>set (card_surfaces s). length (s_title f) \<le> 255"
    using assms(2) by (auto simp: card_surfaces_def screen_ok_def)
  moreover have "length (card_surfaces s) \<le> 32"
    unfolding card_surfaces_def using length_filter_le by (rule order_trans) (simp add: GUI_MAX_SURFACES_def)
  ultimately have cards: "draws t (draw_card s c t)"
    if "c \<in> set (zip (map (\<lambda>k. 148 + 176 * int k) [0..<length (card_surfaces s)]) (card_surfaces s))" "gfx_ok t" for c t
    using that card by (auto simp: set_zip)
  show ?thesis
    unfolding gui_draw_recent_apps_def Let_def using dims[OF assms(2)] dims_sub[OF assms(2)] cards
    by (intro draws_seq[OF assms(1)]) (auto simp: ranges simp del: upt_Suc split: if_splits intro!: draws)
qed

lemma power_menu_draws:
  assumes "gfx_ok g" "screen_ok s"
  shows "draws g (gui_draw_power_menu s g)"
  unfolding gui_draw_power_menu_def Let_def using dims[OF assms(2)] dims_sub[OF assms(2)]
  by (intro draws_seq[OF assms(1)]) (auto simp: ranges intro!: draws)

text \<open>The formats in use are complete, and the text they give fits its array.\<close>

lemma putc_length: "length (fb_buf (fold snprintf_putc out b)) = length (fb_buf b)"
  by (induction out arbitrary: b) (simp_all add: snprintf_putc_def)

lemma printed_length: "printed sz fmt args = Some t \<Longrightarrow> length t \<le> sz"
  by (auto simp: printed_def vsnprintf_def Let_def putc_length split: if_splits
      intro!: order_trans[OF length_takeWhile_le])

lemma number_texts:
  "\<exists>t. printed sz ''%u'' [Num v] = Some t" "\<exists>t. printed sz ''%us ago'' [Num v] = Some t"
  "\<exists>t. printed sz ''%um ago'' [Num v] = Some t" "\<exists>t. printed sz ''%uh ago'' [Num v] = Some t"
  by (simp_all add: printed_def vsnprintf_def format_loop.simps parse_flags_def parse_width.simps skip_char_def
    directive_def num_arg_def Printk.is_digit_def Let_def)

lemma with_text_draws:
  "\<exists>t. r = Some t \<and> length t \<le> 16 \<Longrightarrow> (\<And>str. length str \<le> 16 \<Longrightarrow> draws g (f str g)) \<Longrightarrow> draws g (with_text r f g)"
  by (auto simp: with_text_def)

lemma printed_fits: "\<exists>t. printed sz fmt args = Some t \<Longrightarrow> sz \<le> 16 \<Longrightarrow> \<exists>t. printed sz fmt args = Some t \<and> length t \<le> 16"
  using printed_length by (meson order_trans)

lemma count_text: "\<exists>t. printed 4 ''%u'' [Num v] = Some t \<and> length t \<le> 16"
  by (rule printed_fits[OF number_texts(1)]) simp

lemma age_text_some: "\<exists>t. age_text a = Some t \<and> length t \<le> 16"
  by (cases "a < 60"; cases "a < 3600")
    (simp_all only: age_text_def if_True if_False printed_fits number_texts order_refl)

lemma badge_draws:
  assumes "gfx_ok g" "screen_ok s"
  shows "draws g (gui_draw_notification_badge s g)"
proof (cases "notif_count s = 0")
  case True
  then show ?thesis
    by (simp add: gui_draw_notification_badge_def)
next
  case False
  then have "notif_buffer s ! (notif_count s - 1) \<in> set (notif_buffer s)"
    using assms(2) by (intro nth_mem) (auto simp: screen_ok_def notif_ok_def)
  then have "length (n_app (notif_buffer s ! (notif_count s - 1))) \<le> 255" "length (n_message (notif_buffer s ! (notif_count s - 1))) \<le> 255"
    using assms(2) by (auto simp: screen_ok_def)
  then show ?thesis
    unfolding gui_draw_notification_badge_def Let_def using False dims[OF assms(2)] dims_sub[OF assms(2)]
    by (auto simp: ranges intro!: draws_seq[OF assms(1)] draws)
qed

lemma status_bar_draws:
  assumes "gfx_ok g" "screen_ok s"
  shows "draws g (gui_draw_status_bar s g)"
proof -
  define sx where "sx = tdiv (sint (fb_width s)) 2"
  have sx: "0 \<le> sx" "sx \<le> 8192"
    unfolding sx_def tdiv_def using dims(1,2)[OF assms(2)] by auto
  have bar: "draws t (gfx_fill_rect (sx - 40 + int i * 10) (38 - (6 + int i * 4)) 6 (6 + of_nat i * 4) c t)"
    if "gfx_ok t" "i < 4" for t i c
  proof -
    have "sint (6 + of_nat i * 4 :: u32) = 6 + int i * 4"
      using that(2) sint_of_nat[of "6 + i * 4"] by simp
    then show ?thesis
      using that sx by (intro fill_rect_draws) (auto simp: ranges)
  qed
  define bars where "bars = map (\<lambda>i. gfx_fill_rect (sx - 40 + int i * 10) (38 - (6 + int i * 4)) 6 (6 + of_nat i * 4)
    (if i < 3 then C_WHITE else C_DKGRAY)) [0..<4]"
  have bars: "draws t (f t)" if "f \<in> set bars" "gfx_ok t" for f t
    using that bar by (auto simp: bars_def simp del: upt_Suc)
  have count: "draws t (with_text (printed 4 ''%u'' [Num v])
      (\<lambda>nb. seq [gfx_fill_circle (sint (fb_width s) - 100) 20 10 C_CRIMSON,
                 gfx_draw_text_center (sint (fb_width s) - 100) 12 nb C_WHITE 1]) t)" if "gfx_ok t" for t v
    using dims[OF assms(2)]
    by (intro with_text_draws count_text draws_seq[OF that]) (auto simp: ranges intro!: draws)
  show ?thesis
    unfolding gui_draw_status_bar_def Let_def sx_def[symmetric] bars_def[symmetric] using dims[OF assms(2)] bars
    by (intro draws_seq[OF assms(1)]) (auto simp: ranges split: if_splits intro!: count draws)
qed

lemma notification_draws:
  assumes "gfx_ok g" "screen_ok s" "i < min (notif_count s) 6"
  shows "draws g (draw_notification s now (fb_width s - 40) i g)"
proof -
  have "notif_buffer s ! i \<in> set (notif_buffer s)"
    using assms(2,3) by (intro nth_mem) (auto simp: screen_ok_def notif_ok_def)
  then have "length (n_title (notif_buffer s ! i)) \<le> 255" "length (n_message (notif_buffer s ! i)) \<le> 255"
    using assms(2) by (auto simp: screen_ok_def)
  then show ?thesis
    unfolding draw_notification_def Let_def using dims[OF assms(2)] dims_sub[OF assms(2)] assms(3)
    by (intro draws_seq[OF assms(1)]) (auto simp: ranges intro!: with_text_draws age_text_some draws)
qed

lemma panel_draws:
  assumes "gfx_ok g" "screen_ok s"
  shows "draws g (gui_draw_notification_panel s now g)"
proof -
  have half: "0 \<le> sint ((fb_height s - 200) div 2)" "sint ((fb_height s - 200) div 2) \<le> 8192"
  proof -
    have "uint (fb_height s - 200) \<le> 2 ^ 14"
      using dims(3,4)[OF assms(2)] dims_sub(7)[OF assms(2)] sint_positive[of "fb_height s - 200"]
      by (cases "fb_height s - 200 = 0") (auto simp: order_le_less signed_eq_0_iff)
    then show "0 \<le> sint ((fb_height s - 200) div 2)" "sint ((fb_height s - 200) div 2) \<le> 8192"
      using half_sint[of "fb_height s - 200"] by simp_all
  qed
  then have mid: "sint (48 + (fb_height s - 200) div 2) = 48 + sint ((fb_height s - 200) div 2)"
    by (simp add: sint_exact(2) int32_iff)
  show ?thesis
    unfolding gui_draw_notification_panel_def Let_def
    using dims[OF assms(2)] dims_sub[OF assms(2)] half mid notification_draws[OF _ assms(2)]
    by (intro draws_seq[OF assms(1)]) (auto simp: ranges simp del: upt_Suc split: if_splits intro!: draws)
qed

lemma view_draws:
  assumes "gfx_ok g" "screen_ok s"
  shows "draws g (draw_view s now g)"
  using lock_screen_draws[OF assms] home_screen_draws[OF assms] launcher_draws[OF assms] panel_draws[OF assms]
    recent_draws[OF assms] power_menu_draws[OF assms] by (simp add: draw_view_def split: view.split)

text \<open>
  C17: on a screen of 472 to \<open>2^14\<close> by 200 to \<open>2^14\<close> pixels, with a frame buffer of the size it says, a
  frame is rendered whatever the view is and whatever notifications, surfaces and applications there
  are (in arrays of their sizes, with texts of at most 255 characters): rendering never writes outside
  the frame buffer, overflows, divides by zero or leaves the clip rectangle, and changes nothing but
  pixels.
\<close>

theorem frame_stays_in_clip:
  assumes "gfx_ok (fb_ctx s)" "screen_ok s"
  shows "\<exists>g. gui_render_frame now s = Some (s\<lparr>fb_ctx := g\<rparr>) \<and> gfx_ok g \<and>
    (\<forall>px py. on_screen (fb_ctx s) px py \<and> \<not> clip_test (fb_ctx s) px py \<longrightarrow> pixel g px py = pixel (fb_ctx s) px py)"
proof -
  have "draws (fb_ctx s) (seq ([gfx_fill_rect 0 0 (fb_width s) (fb_height s) C_BLOODMOON_BG, draw_view s now] @
      (if current_view s \<noteq> Lock then [gui_draw_status_bar s, gui_draw_nav_bar s] else []) @
      (if 0 < notif_count s \<and> current_view s \<noteq> Notifications then [gui_draw_notification_badge s] else [])) (fb_ctx s))"
    using view_draws[OF _ assms(2)] status_bar_draws[OF _ assms(2)] nav_bar_draws[OF _ assms(2)] badge_draws[OF _ assms(2)]
      dims[OF assms(2)] by (intro draws_seq[OF assms(1)]) (auto simp: ranges split: if_splits intro!: fill_rect_draws)
  then obtain g where "gui_render_frame now s = Some (s\<lparr>fb_ctx := g\<rparr>)" "confined (fb_ctx s) g"
    unfolding gui_render_frame_def draws_def by auto
  then show ?thesis
    using confined_ok[OF assms(1)] confined_pixel[OF assms(1)] by blast
qed

theorem frame_stays_in_clip_witness:
  "\<exists>g. gui_render_frame 9 (demo_gui\<lparr>fb_ctx := demo_gfx\<rparr>) = Some (demo_gui\<lparr>fb_ctx := g\<rparr>) \<and> pixel g 2 0 = 7"
proof -
  have "screen_ok (demo_gui\<lparr>fb_ctx := demo_gfx\<rparr>)"
    by (simp add: screen_ok_def demo_gui_def notif_ok_def GUI_NOTIFICATION_MAX_def GUI_MAX_SURFACES_def
      zero_notification_def zero_surface_def)
  then obtain g where g: "gui_render_frame 9 (demo_gui\<lparr>fb_ctx := demo_gfx\<rparr>) = Some (demo_gui\<lparr>fb_ctx := g\<rparr>)"
    "\<And>px py. on_screen demo_gfx px py \<Longrightarrow> \<not> clip_test demo_gfx px py \<Longrightarrow> pixel g px py = pixel demo_gfx px py"
    using frame_stays_in_clip[of "demo_gui\<lparr>fb_ctx := demo_gfx\<rparr>" 9] demo_gfx_ok by auto
  show ?thesis
    by (rule exI[of _ g], intro conjI g(1), subst g(2))
      (simp_all add: on_screen_def clip_test_def pixel_def cell_def demo_gfx_def
        gfx_set_clip_def gfx_create_context_def gfx_reset_clip_def Let_def)
qed

end
