(* ===== verification/Spec2Isabelle.thy ===== *)
theory Spec2Isabelle
  imports Process Sync Security Vfs AppIsolation PkgStore AesGcm CryptoRng Printk SoftTimer WifiLink Screens
begin

text \<open>
  \<^bold>\<open>A verification development for the Crimson OS kernel.\<close>

  \<^bold>\<open>The program.\<close>  Crimson OS is a small monolithic kernel in C for 64-bit ARM.  Its core is a page
  allocator, a kernel heap and page tables (mm.c, vmm_stub.c), a multi-level scheduler (sched.c), processes
  (process.c), locks and other synchronisation (sync.c), a security subsystem (security.c), a
  log-structured file system below a table of descriptors (crfs.c, vfs.c), a TCP/IP stack (net.c), system
  calls (syscall.c) and sandboxes with message ports and shared memory for applications (sandbox.c), a package manager (pkg.c), cryptography
  (crypto_stub.c), kernel messages (printk.c), timers (timer.c), drawing (gui_graphics.c), a window manager
  (compositor.c) and a wireless driver (wifi_rtl8723cs.c).  The components call each other directly and share the global variables of the file that owns them; there is no message passing.

  \<^bold>\<open>The theories, from the bottom up.\<close>
  \<^item> Prelude: types of machine integers, the collections of facts, lemmas on lists, words, bit maps and
    linked lists, and the locale of bounded logs.  Queue has the locale of bounded queues and ring buffers.
  \<^item> Pmm: the bitmap page allocator of mm.c (\<open>pmm_init\<close>, \<open>pmm_alloc\<close>, \<open>pmm_alloc_n\<close>, \<open>pmm_free\<close>).  The state is
    the record of the static variables; the bitmap is a function from word indices to 64-bit words.
  \<^item> KHeap: the heap of mm.c (\<open>kmalloc\<close>, \<open>kfree\<close>, \<open>kcalloc\<close>, \<open>krealloc\<close>): block headers in a store indexed by
    their address, linked through their fields, above the page allocator.
  \<^item> Vmm: the four-level page tables of mm.c and vmm_stub.c in a memory of words: map, unmap, translate,
    allocate a range, free an address space.
  \<^item> CString and CText: string.c and \<open>itoa\<close>, over a byte memory, and the same routines on character lists with
    the proof that they agree.
  \<^item> Sched: sched.c over an arena of process records linked through \<open>sched_next\<close> and \<open>wq_next\<close>.
  \<^item> Process: process.c, which composes the page allocator, the heap, the page tables and the scheduler.
  \<^item> Sync: sync.c.  A spinlock is a step relation whose steps are the memory accesses of the CPUs, so that all
    interleavings are considered; mutexes, semaphores, reader-writer locks and barriers run over the scheduler.
  \<^item> Security: security.c, with the hash of pkg.c.
  \<^item> Disk, Crfs, CrfsTree, CrfsFile, CrfsDir: crfs.c over a block device that is a parameter
    (\<open>block_device\<close>: read, write and flush; \<open>faithful\<close> says that a read returns what was written last).  Crfs has
    the structures, the allocator, the block pointers, reading, writing, format, mount and checkpoint;
    CrfsTree proves that the pointer blocks implement a function; CrfsFile that a read returns what was
    written; CrfsDir has the directories and \<open>crfs_open\<close>.
  \<^item> Vfs: vfs.c over CrimsonFS.
  \<^item> NetCore, NetTcp, NetRx: net.c.  A received packet is a memory of bytes, a frame that is sent is a list of
    bytes appended to \<open>sent\<close>, which stands for the driver's \<open>transmit\<close>.  NetCore has the tables, byte order,
    checksum, ARP and segments; NetTcp the sockets; NetRx the packets that arrive, UDP, the resolver and DHCP.
    NetCheck proves that headers verify and what two stacks do with each other's packets; NetStream the ring
    buffers; NetSock the data that a connection delivers and the invariant of the sockets.
  \<^item> Syscall: syscall.c: the table, the dispatcher and the handlers over all of the above.
  \<^item> AppSandbox and AppIsolation: sandbox.c, its data and operations, and their properties: message ports
    are queues, regions of shared memory a map from numbers to owners and clients.
  \<^item> Pkg: pkg.c, with a package header as its bytes; PkgRules: versions, sizes, signatures, repositories and the
    table of packages; FileStream: files as streams of bytes, the interface over which PkgStore proves that the
    database is loaded as it was saved, and that nothing can be installed.

  \<^item> AesBlock, AesGcm, CryptoRng: crypto_stub.c: the block cipher, the authenticated encryption built on it and the random
    number generator.  Inline assembly is read instruction by instruction over vector registers.
  \<^item> Printk: printk.c, where a format with its arguments gives the list of characters it emits.
  \<^item> SoftTimer: timer.c over readings of the counter.
  \<^item> WpaKeys and WifiLink: wifi_rtl8723cs.c, its key derivation and its frames; what is written to the chip is recorded.
  \<^item> Gfx: gui_graphics.c over a frame buffer that is a list of pixels, with every signed sum and product checked.
  \<^item> Compositor and Screens: compositor.c, its state and touches, and what it draws with Gfx and the formats of Printk.

  \<^bold>\<open>Correspondence.\<close>  A definition has the name of the C function it models; helper definitions model a loop
  or a block of it.  Static variables and structures are records.  Integers are words of their width, or
  \<open>int\<close> for C's \<open>int\<close> where the code cannot overflow it; in Gfx and Screens a value that leaves the range of
  \<open>int32_t\<close> is undefined behaviour.  Pointers are addresses or indices into an arena, NULL
  is 0 or \<open>None\<close>.  Failure codes are the ones of the code; \<open>None\<close> as the result of a whole operation stands for
  behaviour that C leaves undefined or for a loop that never ends.  Code that runs with a spinlock held is
  one step.  The clock, the random numbers, the block device and the current CPU are arguments.

  \<^bold>\<open>What is shown.\<close>
  \<^item> Memory: pages and blocks handed out are fresh, disjoint and large enough; allocation of up to all
    pages fails only when nothing fits and takes the lowest run; a freed block merges with a free one behind it; mapping changes the translation of its page only; an address space gives back its pages.
  \<^item> Scheduling and processes: over any series of requests the linked run queues refine
    first-in first-out lists, one for each CPU and level; ticks, yields, wake-ups and boosts
    do what the policy asks; creating, killing, waiting for and reaping processes are described on every branch.
  \<^item> Synchronisation: mutual exclusion in all interleavings, hand-over of mutexes, the balance of a
    semaphore in a single operation, exclusion of readers and writers in every history, release of barriers.
  \<^item> Security: no write across domains after the default policies, the ring of the audit log refines a bounded
    list, sandbox tables stay well formed, bounds of the randomised addresses.
  \<^item> Files: block pointers refine a function, data written is read back, the descriptor table is private.
  \<^item> Network: headers pass the check of the receiver, an ARP exchange fills the cache, a connection delivers
    the accepted bytes in order and once, the rings of every reachable socket are well formed.
  \<^item> System calls and applications: mapping and unmapping memory, growing the heap, the counters of the
    dispatcher, ports that deliver messages in order, access to shared memory for owners and clients only.
  \<^item> Cryptography: the block cipher is a permutation and agrees with the example of its standard; decryption accepts what
    encryption makes and nothing else, which however does not make tags unforgeable; random bytes are a ChaCha20 keystream.
  \<^item> Messages and timers: the log refines a bounded history, formatting stays inside its buffer, numbers read back,
    one-shot timers fire once, busy waits end.
  \<^item> Drawing: for coordinates and sizes up to \<open>2^14\<close> every routine stays in the frame buffer and in the clip rectangle and
    computes no sum that overflows; filled rectangles are exact, lines between points at most \<open>2^28\<close> apart are
    connected and at most half a pixel off, the square root is exact.
  \<^item> Window manager: on screens of 472 to \<open>2^14\<close> by 200 to \<open>2^14\<close> pixels every frame is drawn in the clip rectangle, the
    notifications entered by either of its two functions refine a bounded list, and exactly which codes open the lock screen.
  \<^item> Faults: several theorems state behaviour of the code that its comments or its callers do not expect: the scheduler
    revives an exiting process, a queue is lost when its tail is removed, \<open>mutex_lock\<close> does not wait, a new
    sandbox denies everything, a tampered image passes verified boot, a fresh file system reads its root
    inode where none was written, seeking has no effect, the first segment of data of a connection is refused, a program can free the pages of
    another one, gives itself any capability and is checked against the sandbox of another one, no package can be
    installed, any signature is accepted, no wireless handshake completes,
    codes with a zero cannot be typed, and the power menu opens a locked screen.

  \<^bold>\<open>Bounds and fuel.\<close>  Loops bounded by the code recurse on their counter (256 descriptors, 1024 open files, 64
  pages for each word of the bitmap).  Walks along linked lists take the length of the list, which the invariants
  bound, as their measure.  The search for an empty directory slot may loop for ever and is a partial function.

  \<^bold>\<open>Interfaces.\<close>  Interfaces are locales, each interpreted on the model of the component that provides it:
  the bounded log of the audit ring and of the kernel messages, the open files below the descriptor table and the bounded queue, whose instances are
  the rings of a socket and the message ports, the source and the sink of bytes that files are, among others.

  \<^bold>\<open>Not modelled.\<close>  Assembly (boot, context switch, TLB maintenance), drivers of memory-mapped devices
  (interrupt controller, UART, USB, GPIO, display, touch, audio, camera, modem, the registers and the firmware of the wireless chip), and the
  files whose functions only print or are empty: their effect is on hardware that the sources do not
  describe.  System calls that only call such a driver are a parameter of the dispatcher.
\<close>

end
